(* ===== verification/Prelude.thy ===== *)
theory Prelude
  imports
    Main
    "HOL-Library.Word"
    "HOL-Library.Monad_Syntax"
    "HOL-Library.Char_ord"
    "HOL-Library.List_Lexorder"
    "HOL-Library.Product_Lexorder"
begin

text \<open>
  What the components share: names for the machine integers of the Rust code, byte
  strings with the slice operations that panic out of range, little-endian integers
  (\<open>to_le_bytes\<close> and \<open>from_le_bytes\<close>), and ordered maps (\<open>BTreeMap\<close>) as key-sorted
  association lists. \<open>None\<close> of an operation that returns an option is the panic of the
  Rust operation unless its text says otherwise.
\<close>

section \<open>Machine integers\<close>

type_synonym u8 = "8 word"
type_synonym u16 = "16 word"
type_synonym u32 = "32 word"
type_synonym u64 = "64 word"
type_synonym i32 = "32 word"
type_synonym i64 = "64 word"
type_synonym bytes = "8 word list"

text \<open>Rules that rewrite the model's partial operations where they are defined.\<close>

named_theorems slice_simps
named_theorems codec_simps
named_theorems bmap_simps

section \<open>Slices\<close>

text \<open>\<open>&xs[off..off + n]\<close>, and \<open>xs[off..off + ys.len()].copy_from_slice(ys)\<close>.\<close>

definition slice :: "nat \<Rightarrow> nat \<Rightarrow> 'a list \<Rightarrow> 'a list option" where
  "slice off n xs = (if off + n \<le> length xs then Some (take n (drop off xs)) else None)"

definition splice :: "nat \<Rightarrow> 'a list \<Rightarrow> 'a list \<Rightarrow> 'a list option" where
  "splice off ys xs =
     (if off + length ys \<le> length xs
      then Some (take off xs @ ys @ drop (off + length ys) xs) else None)"

lemma slice_eq_Some [slice_simps]: "off + n \<le> length xs \<Longrightarrow> slice off n xs = Some (take n (drop off xs))"
  by (simp add: slice_def)

lemma slice_None_iff: "slice off n xs = None \<longleftrightarrow> length xs < off + n"
  by (auto simp: slice_def)

lemma length_slice: "slice off n xs = Some ys \<Longrightarrow> length ys = n"
  by (auto simp: slice_def split: if_splits)

lemma splice_None_iff: "splice off ys xs = None \<longleftrightarrow> length xs < off + length ys"
  by (auto simp: splice_def)

lemma length_splice: "splice off ys xs = Some zs \<Longrightarrow> length zs = length xs"
  by (auto simp: splice_def split: if_splits)

lemma nth_splice:
  "splice off ys xs = Some zs \<Longrightarrow> i < length xs \<Longrightarrow>
   zs ! i = (if off \<le> i \<and> i < off + length ys then ys ! (i - off) else xs ! i)"
  by (auto simp: splice_def nth_append min_def split: if_splits)

lemma slice_splice_same [slice_simps]:
  "splice off ys xs = Some zs \<Longrightarrow> slice off (length ys) zs = Some ys"
  by (auto simp: splice_def slice_def min_def split: if_splits)

text \<open>A write leaves every slice that does not overlap it alone.\<close>

lemma slice_splice_other [slice_simps]:
  assumes "splice off ys xs = Some zs" and "o2 + n \<le> off \<or> off + length ys \<le> o2"
  shows "slice o2 n zs = slice o2 n xs"
proof (cases "o2 + n \<le> length xs")
  case True
  have len: "length zs = length xs" using assms(1) by (rule length_splice)
  have "take n (drop o2 zs) = take n (drop o2 xs)"
  proof (rule nth_equalityI)
    show "length (take n (drop o2 zs)) = length (take n (drop o2 xs))" by (simp add: len)
  next
    fix i assume "i < length (take n (drop o2 zs))"
    then have i: "i < n" "o2 + i < length xs" using True len by auto
    then show "take n (drop o2 zs) ! i = take n (drop o2 xs) ! i"
      using nth_splice [OF assms(1), of "o2 + i"] assms(2) len by (auto simp: True)
  qed
  then show ?thesis using True by (simp add: slice_def len)
next
  case False
  then show ?thesis using length_splice [OF assms(1)] by (simp add: slice_def)
qed

section \<open>Little-endian integers\<close>

text \<open>
  \<open>le_bytes n v\<close> is the low \<open>n\<close> bytes of \<open>v\<close>, least significant first;
  \<open>of_le\<close> reads such a run back.
\<close>

primrec le_bytes :: "nat \<Rightarrow> nat \<Rightarrow> bytes" where
  "le_bytes 0 v = []"
| "le_bytes (Suc n) v = of_nat v # le_bytes n (v div 256)"

fun of_le :: "bytes \<Rightarrow> nat" where
  "of_le [] = 0"
| "of_le (b # bs) = unat b + 256 * of_le bs"

lemma length_le_bytes [simp]: "length (le_bytes n v) = n"
  by (induction n arbitrary: v) auto

lemma unat_of_nat_u8: "unat (of_nat v :: u8) = v mod 256"
  by (simp add: unat_of_nat)

lemma of_le_le_bytes: "of_le (le_bytes n v) = v mod 256 ^ n"
proof (induction n arbitrary: v)
  case 0
  then show ?case by simp
next
  case (Suc n)
  have "v mod 256 ^ Suc n = v mod 256 + 256 * (v div 256 mod 256 ^ n)"
    by (simp add: mod_mult2_eq)
  with Suc show ?case by (simp add: unat_of_nat_u8)
qed

lemma of_le_less: "of_le bs < 256 ^ length bs"
proof (induction bs)
  case (Cons b bs)
  have "unat b < 256" using unsigned_less [where 'a = nat, of b] by simp
  with Cons show ?case by simp
qed simp

lemma le_bytes_of_le: "le_bytes (length bs) (of_le bs) = bs"
proof (induction bs)
  case (Cons b bs)
  have b: "unat b < 256" using unsigned_less [where 'a = nat, of b] by simp
  have "(of_nat (unat b + 256 * of_le bs) :: u8) = of_nat (unat b) + of_nat 256 * of_nat (of_le bs)"
    by simp
  also have "(of_nat 256 :: u8) = 0" by simp
  finally show ?case using Cons b by simp
qed simp

definition u16_le :: "u16 \<Rightarrow> bytes" where "u16_le w = le_bytes 2 (unat w)"
definition u32_le :: "u32 \<Rightarrow> bytes" where "u32_le w = le_bytes 4 (unat w)"
definition u64_le :: "u64 \<Rightarrow> bytes" where "u64_le w = le_bytes 8 (unat w)"

definition u16_of_le :: "bytes \<Rightarrow> u16" where "u16_of_le bs = of_nat (of_le bs)"
definition u32_of_le :: "bytes \<Rightarrow> u32" where "u32_of_le bs = of_nat (of_le bs)"
definition u64_of_le :: "bytes \<Rightarrow> u64" where "u64_of_le bs = of_nat (of_le bs)"

lemma length_u_le [simp]: "length (u16_le a) = 2" "length (u32_le b) = 4" "length (u64_le c) = 8"
  by (simp_all add: u16_le_def u32_le_def u64_le_def)

lemma u16_of_le_inverse [codec_simps, simp]: "u16_of_le (u16_le w) = w"
  using unsigned_less [where 'a = nat, of w] by (simp add: u16_of_le_def u16_le_def of_le_le_bytes)

lemma u32_of_le_inverse [codec_simps, simp]: "u32_of_le (u32_le w) = w"
  using unsigned_less [where 'a = nat, of w] by (simp add: u32_of_le_def u32_le_def of_le_le_bytes)

lemma u64_of_le_inverse [codec_simps, simp]: "u64_of_le (u64_le w) = w"
  using unsigned_less [where 'a = nat, of w] by (simp add: u64_of_le_def u64_le_def of_le_le_bytes)

section \<open>Codecs\<close>

text \<open>
  The contract of an encoder and a decoder of a byte format: decoding a written value
  gives the value back and leaves exactly the bytes after it. \<open>dom\<close> names the values
  the format can hold. A counted run of encoded values is again such a pair.
\<close>

fun decode_n :: "(bytes \<Rightarrow> ('a \<times> bytes) option) \<Rightarrow> nat \<Rightarrow> bytes \<Rightarrow> ('a list \<times> bytes) option" where
  "decode_n dec 0 bs = Some ([], bs)"
| "decode_n dec (Suc n) bs =
     do { (x, bs) \<leftarrow> dec bs; (xs, bs) \<leftarrow> decode_n dec n bs; Some (x # xs, bs) }"

locale codec =
  fixes enc :: "'a \<Rightarrow> bytes" and dec :: "bytes \<Rightarrow> ('a \<times> bytes) option" and ok :: "'a \<Rightarrow> bool"
  assumes dec_enc: "ok x \<Longrightarrow> dec (enc x @ rest) = Some (x, rest)"
begin

lemma decode_n_enc:
  "list_all ok xs \<Longrightarrow> decode_n dec (length xs) (concat (map enc xs) @ rest) = Some (xs, rest)"
proof (induction xs)
  case (Cons x xs)
  then have "ok x" and "decode_n dec (length xs) (concat (map enc xs) @ rest) = Some (xs, rest)"
    by auto
  then show ?case by (simp add: dec_enc)
qed simp

lemma enc_inj: "ok x \<Longrightarrow> ok y \<Longrightarrow> enc x = enc y \<Longrightarrow> x = y"
  by (metis dec_enc option.inject prod.inject)

lemma enc_prefix_free: "ok x \<Longrightarrow> ok y \<Longrightarrow> enc x @ r = enc y @ s \<Longrightarrow> x = y \<and> r = s"
  by (metis dec_enc option.inject prod.inject)

end

definition get_u8 :: "bytes \<Rightarrow> (u8 \<times> bytes) option" where
  "get_u8 bs = (case bs of [] \<Rightarrow> None | b # bs \<Rightarrow> Some (b, bs))"

definition get_u16 :: "bytes \<Rightarrow> (u16 \<times> bytes) option" where
  "get_u16 bs = map_option (\<lambda>b. (u16_of_le b, drop 2 bs)) (slice 0 2 bs)"

definition get_u32 :: "bytes \<Rightarrow> (u32 \<times> bytes) option" where
  "get_u32 bs = map_option (\<lambda>b. (u32_of_le b, drop 4 bs)) (slice 0 4 bs)"

definition get_u64 :: "bytes \<Rightarrow> (u64 \<times> bytes) option" where
  "get_u64 bs = map_option (\<lambda>b. (u64_of_le b, drop 8 bs)) (slice 0 8 bs)"

lemma get_u8_Cons [codec_simps, simp]: "get_u8 (b # bs) = Some (b, bs)"
  by (simp add: get_u8_def)

interpretation u16_codec: codec u16_le get_u16 "\<lambda>_. True"
  by unfold_locales (simp add: get_u16_def slice_def)

interpretation u32_codec: codec u32_le get_u32 "\<lambda>_. True"
  by unfold_locales (simp add: get_u32_def slice_def)

interpretation u64_codec: codec u64_le get_u64 "\<lambda>_. True"
  by unfold_locales (simp add: get_u64_def slice_def)

lemmas get_le_simps [codec_simps, simp] =
  u16_codec.dec_enc [OF TrueI] u32_codec.dec_enc [OF TrueI] u64_codec.dec_enc [OF TrueI]

section \<open>Ordered maps\<close>

text \<open>
  A \<open>BTreeMap\<close> is the list of its entries in key order: \<open>bm_wf\<close> is the invariant,
  \<open>map_of\<close> the lookup, \<open>bm_insert\<close> inserts or replaces, \<open>map fst\<close> and \<open>map snd\<close>
  iterate keys and values in order.
\<close>

definition bm_wf :: "('k::linorder \<times> 'v) list \<Rightarrow> bool" where
  "bm_wf m \<longleftrightarrow> sorted_wrt (<) (map fst m)"

fun bm_insert :: "'k::linorder \<Rightarrow> 'v \<Rightarrow> ('k \<times> 'v) list \<Rightarrow> ('k \<times> 'v) list" where
  "bm_insert k v [] = [(k, v)]"
| "bm_insert k v ((k', v') # m) =
     (if k < k' then (k, v) # (k', v') # m
      else if k = k' then (k, v) # m
      else (k', v') # bm_insert k v m)"

lemma bm_wf_Nil [bmap_simps, simp]: "bm_wf []"
  by (simp add: bm_wf_def)

lemma bm_wf_Cons: "bm_wf ((k, v) # m) \<longleftrightarrow> (\<forall>k' \<in> fst ` set m. k < k') \<and> bm_wf m"
  by (auto simp: bm_wf_def)

lemma bm_wf_distinct: "bm_wf m \<Longrightarrow> distinct (map fst m)"
  by (simp add: bm_wf_def strict_sorted_iff)

lemma bm_wf_lookup: "bm_wf m \<Longrightarrow> (k, v) \<in> set m \<longleftrightarrow> map_of m k = Some v"
  by (auto simp: bm_wf_distinct dest: map_of_SomeD)

lemma map_of_map_keyed: "map_of (map (\<lambda>(k, v). (k, f k v)) m) k = map_option (f k) (map_of m k)"
  by (induction m) auto

lemma map_of_bm_insert [bmap_simps]: "map_of (bm_insert k v m) = (map_of m)(k \<mapsto> v)"
  by (induction k v m rule: bm_insert.induct) (auto simp: fun_eq_iff)

lemma keys_bm_insert [bmap_simps]: "fst ` set (bm_insert k v m) = insert k (fst ` set m)"
  by (induction k v m rule: bm_insert.induct) auto

lemma bm_wf_insert [bmap_simps, simp]: "bm_wf m \<Longrightarrow> bm_wf (bm_insert k v m)"
  by (induction k v m rule: bm_insert.induct) (auto simp: bm_wf_Cons keys_bm_insert)

lemma bm_wf_keys_cong: "map fst m = map fst m' \<Longrightarrow> bm_wf m = bm_wf m'"
  by (simp add: bm_wf_def)

lemma bm_wf_map [bmap_simps]: "bm_wf (map (\<lambda>(k, v). (k, f k v)) m) = bm_wf m"
  by (simp add: bm_wf_def comp_def case_prod_unfold)

text \<open>Two well-formed maps with the same entries are the same list.\<close>

lemma bm_wf_keys_eq: "bm_wf m \<Longrightarrow> bm_wf m' \<Longrightarrow> fst ` set m = fst ` set m' \<Longrightarrow> map fst m = map fst m'"
  unfolding bm_wf_def by (rule strict_sorted_equal) auto

lemma bm_wf_eqI:
  assumes "bm_wf m" "bm_wf m'" "map_of m = map_of m'"
  shows "m = m'"
proof -
  have "fst ` set m = fst ` set m'" using assms(3) by (metis dom_map_of_conv_image_fst)
  then have keys: "map fst m = map fst m'" using assms by (blast intro: bm_wf_keys_eq)
  have d: "distinct (map fst m)" "distinct (map fst m')" using assms by (simp_all add: bm_wf_distinct)
  have vals: "map snd n = map (\<lambda>k. the (map_of n k)) (map fst n)"
    if "distinct (map fst n)" for n :: "('a \<times> 'b) list"
    using that by (auto simp: comp_def intro!: map_cong)
  have "map snd m = map snd m'"
    using vals [OF d(1)] vals [OF d(2)] assms(3) keys by simp
  with keys show ?thesis by (metis zip_map_fst_snd)
qed

text \<open>Folding inserts over a list of entries: \<open>collect::<BTreeMap>\<close>.\<close>

definition bm_collect :: "('k::linorder \<times> 'v) list \<Rightarrow> ('k \<times> 'v) list" where
  "bm_collect kvs = fold (\<lambda>(k, v) m. bm_insert k v m) kvs []"

lemma bm_wf_fold_insert: "bm_wf m \<Longrightarrow> bm_wf (fold (\<lambda>(k, v) m. bm_insert k v m) kvs m)"
  by (induction kvs arbitrary: m) auto

lemma bm_wf_collect [bmap_simps, simp]: "bm_wf (bm_collect kvs)"
  by (simp add: bm_collect_def bm_wf_fold_insert)


text \<open>\<open>remove\<close>, and \<open>entry(k).or_default()\<close> updated in place.\<close>

definition bm_remove :: "'k \<Rightarrow> ('k \<times> 'v) list \<Rightarrow> ('k \<times> 'v) list" where
  "bm_remove k m = filter (\<lambda>(k', _). k' \<noteq> k) m"

lemma map_of_bm_remove [bmap_simps]: "map_of (bm_remove k m) = (map_of m)(k := None)"
  by (induction m) (auto simp: bm_remove_def fun_eq_iff)

lemma bm_wf_remove [bmap_simps, simp]: "bm_wf m \<Longrightarrow> bm_wf (bm_remove k m)"
  by (induction m) (auto simp: bm_remove_def bm_wf_Cons)

definition bm_update :: "'k::linorder \<Rightarrow> 'v \<Rightarrow> ('v \<Rightarrow> 'v) \<Rightarrow> ('k \<times> 'v) list \<Rightarrow> ('k \<times> 'v) list" where
  "bm_update k d f m = bm_insert k (f (case map_of m k of Some v \<Rightarrow> v | None \<Rightarrow> d)) m"

lemma map_of_bm_update [bmap_simps]:
  "map_of (bm_update k d f m) =
     (map_of m)(k \<mapsto> f (case map_of m k of Some v \<Rightarrow> v | None \<Rightarrow> d))"
  by (simp add: bm_update_def map_of_bm_insert)

lemma bm_wf_update [bmap_simps, simp]: "bm_wf m \<Longrightarrow> bm_wf (bm_update k d f m)"
  by (simp add: bm_update_def)

end
