(* ===== verification/Civil.thy ===== *)
theory Civil
  imports Prelude
begin

text \<open>
  Calendar dates (\<open>src/model/value.rs\<close>): \<open>days_from_civil\<close> and its inverse, the
  calendar check, and the parsing and printing of dates and date-times. The code computes
  in \<open>i64\<close>; every value below stays far inside that range for the years the parser and
  the \<open>i32\<close> day numbers of a \<open>DATE\<close> can reach, so the model computes in \<open>int\<close>, with
  Rust's truncating division (\<open>tdiv\<close>) where the operand can be negative.
\<close>

section \<open>The day number of a civil date\<close>

definition tdiv :: "int \<Rightarrow> int \<Rightarrow> int" where
  "tdiv a b = sgn a * sgn b * (\<bar>a\<bar> div \<bar>b\<bar>)"

definition days_from_civil :: "int \<Rightarrow> int \<Rightarrow> int \<Rightarrow> int" where
  "days_from_civil y0 m d =
     (let y = (if m \<le> 2 then y0 - 1 else y0);
          era = tdiv (if y \<ge> 0 then y else y - 399) 400;
          yoe = y - era * 400;
          mp = (m + 9) mod 12;
          doy = (153 * mp + 2) div 5 + (d - 1);
          doe = yoe * 365 + yoe div 4 - yoe div 100 + doy
      in era * 146097 + doe - 719468)"

definition civil_from_days :: "int \<Rightarrow> int \<times> int \<times> int" where
  "civil_from_days z0 =
     (let z = z0 + 719468;
          era = tdiv (if z \<ge> 0 then z else z - 146096) 146097;
          doe = z - era * 146097;
          yoe = (doe - doe div 1460 + doe div 36524 - doe div 146096) div 365;
          y = yoe + era * 400;
          doy = doe - (365 * yoe + yoe div 4 - yoe div 100);
          mp = (5 * doy + 2) div 153;
          d = doy - (153 * mp + 2) div 5 + 1;
          m = (if mp < 10 then mp + 3 else mp - 9)
      in (if m \<le> 2 then y + 1 else y, m, d))"

definition leap_year :: "int \<Rightarrow> bool" where
  "leap_year y \<longleftrightarrow> y mod 4 = 0 \<and> (y mod 100 \<noteq> 0 \<or> y mod 400 = 0)"

definition days_in_month :: "int \<Rightarrow> int \<Rightarrow> int" where
  "days_in_month y m =
     (if m \<in> {1, 3, 5, 7, 8, 10, 12} then 31
      else if m \<in> {4, 6, 9, 11} then 30
      else if leap_year y then 29 else 28)"

definition valid_civil :: "int \<Rightarrow> int \<Rightarrow> int \<Rightarrow> bool" where
  "valid_civil y m d \<longleftrightarrow>
     (if \<not> (1 \<le> m \<and> m \<le> 12) \<or> d = 0 then False else d \<le> days_in_month y m)"

subsection \<open>The 400-year cycle\<close>

lemma div_eqI: "0 < b \<Longrightarrow> n * b \<le> a \<Longrightarrow> a < n * b + b \<Longrightarrow> a div b = n" for a b n :: int
  by (rule int_div_pos_eq [of _ _ _ "a - n * b"]) (auto simp: algebra_simps)

lemma div_neg: "0 < n \<Longrightarrow> (n - 1 - a) div n = - (a div n)" for a n :: int
proof -
  assume n: "0 < n"
  have "0 \<le> a mod n" "a mod n < n" using n by simp_all
  moreover have "(a div n) * n + a mod n = a" by simp
  ultimately show ?thesis by (intro div_eqI) (use n in linarith)+
qed

lemma tdiv_floor: "0 < n \<Longrightarrow> tdiv (if a \<ge> 0 then a else a - (n - 1)) n = a div n"
  using div_neg [of n a] by (cases "a = 0") (auto simp: tdiv_def sgn_if)

lemma tdiv_400: "tdiv (if y \<ge> 0 then y else y - 399) 400 = y div 400"
  using tdiv_floor [of 400 y] by (simp split: if_splits)

lemma tdiv_146097: "tdiv (if z \<ge> 0 then z else z - 146096) 146097 = z div 146097"
  using tdiv_floor [of 146097 z] by (simp split: if_splits)

text \<open>
  A day of the cycle is a century \<open>c\<close>, a four-year group \<open>q\<close> of it and a day \<open>t\<close> of the
  group; only the last century has a leap day at its end.
\<close>

definition cycle_day :: "int \<Rightarrow> int \<Rightarrow> int \<Rightarrow> bool" where
  "cycle_day c q t \<longleftrightarrow> 0 \<le> c \<and> c \<le> 3 \<and> 0 \<le> q \<and> q \<le> 24 \<and> 0 \<le> t \<and> t \<le> 1460 \<and>
     (q = 24 \<and> t = 1460 \<longrightarrow> c = 3)"

lemma cycle_split:
  assumes "0 \<le> doe" "doe \<le> 146096"
  obtains c q t where "doe = 36524 * c + 1461 * q + t" "cycle_day c q t"
proof (cases "doe = 146096")
  case True
  show thesis by (rule that [of 3 24 1460]) (simp_all add: True cycle_day_def)
next
  case False
  define r where "r = doe mod 36524"
  have r: "0 \<le> r" "r < 36524" by (simp_all add: r_def)
  have split: "36524 * (doe div 36524) + r = doe" "1461 * (r div 1461) + r mod 1461 = r"
    by (simp_all add: r_def)
  have c: "doe div 36524 \<le> 3" "0 \<le> doe div 36524" using assms False by auto
  have q: "r div 1461 \<le> 24" "0 \<le> r div 1461" using r by auto
  have t: "0 \<le> r mod 1461" "r mod 1461 < 1461" by simp_all
  have "\<not> (r div 1461 = 24 \<and> r mod 1461 = 1460)" using r(2) split(2) by linarith
  then have "cycle_day (doe div 36524) (r div 1461) (r mod 1461)"
    using c q t by (auto simp: cycle_day_def)
  moreover have "doe = 36524 * (doe div 36524) + 1461 * (r div 1461) + r mod 1461"
    using split by linarith
  ultimately show thesis by (rule that [rotated])
qed

lemma cycle_year:
  assumes "cycle_day c q t" "doe = 36524 * c + 1461 * q + t"
  shows "(doe - doe div 1460 + doe div 36524 - doe div 146096) div 365
         = 100 * c + 4 * q + min 3 (t div 365)"
proof -
  have b: "0 \<le> c" "c \<le> 3" "0 \<le> q" "q \<le> 24" "0 \<le> t" "t \<le> 1460" "q = 24 \<and> t = 1460 \<longrightarrow> c = 3"
    using assms(1) by (auto simp: cycle_day_def)
  define \<delta> :: int where "\<delta> = (if 24 * c + q + t \<ge> 1460 then 1 else 0)"
  have d1: "doe div 1460 = 25 * c + q + \<delta>"
    by (rule div_eqI) (use b in \<open>auto simp: assms(2) \<delta>_def\<close>)
  have "doe div 36524 - doe div 146096 = c"
  proof (cases "q = 24 \<and> t = 1460")
    case True
    with b have "doe = 146096" by (simp add: assms(2))
    with b True show ?thesis by simp
  next
    case False
    have "doe div 36524 = c" by (rule div_eqI) (use b False in \<open>auto simp: assms(2)\<close>)
    moreover have "doe div 146096 = 0" by (rule div_eqI) (use b False in \<open>auto simp: assms(2)\<close>)
    ultimately show ?thesis by simp
  qed
  with d1 have "doe - doe div 1460 + doe div 36524 - doe div 146096
      = 365 * (100 * c + 4 * q) + (t - \<delta>)"
    by (simp add: assms(2))
  moreover have "(365 * (100 * c + 4 * q) + (t - \<delta>)) div 365 = 100 * c + 4 * q + min 3 (t div 365)"
  proof (cases "t \<ge> 1095")
    case True
    then have "t div 365 \<ge> 3" by simp
    then have "min 3 (t div 365) = 3" by simp
    moreover have "(365 * (100 * c + 4 * q) + (t - \<delta>)) div 365 = 100 * c + 4 * q + 3"
      by (rule div_eqI) (use b True in \<open>auto simp: \<delta>_def\<close>)
    ultimately show ?thesis by simp
  next
    case False
    then have "\<delta> = 0" "t div 365 < 3" using b by (auto simp: \<delta>_def)
    then show ?thesis by simp
  qed
  ultimately show ?thesis by simp
qed

subsection \<open>Years, groups and days of a year\<close>

definition year_day :: "int \<Rightarrow> int \<Rightarrow> int \<Rightarrow> int \<Rightarrow> bool" where
  "year_day c q r doy \<longleftrightarrow> 0 \<le> c \<and> c \<le> 3 \<and> 0 \<le> q \<and> q \<le> 24 \<and> 0 \<le> r \<and> r \<le> 3 \<and> 0 \<le> doy \<and> doy \<le> 365 \<and>
     (doy = 365 \<longrightarrow> r = 3 \<and> (q = 24 \<longrightarrow> c = 3))"

lemma year_day_cycle: "year_day c q r doy \<Longrightarrow> cycle_day c q (365 * r + doy)"
  by (auto simp: year_day_def cycle_day_def)

lemma year_day_div: "year_day c q r doy \<Longrightarrow> min 3 ((365 * r + doy) div 365) = r"
proof (cases "doy = 365")
  case False
  assume "year_day c q r doy"
  then have "doy div 365 = 0" "r \<le> 3" using False by (auto simp: year_day_def)
  then show ?thesis by simp
qed (auto simp: year_day_def)

lemma cycle_day_year:
  assumes "cycle_day c q t"
  shows "year_day c q (min 3 (t div 365)) (t - 365 * min 3 (t div 365))"
proof (cases "t = 1460")
  case True
  with assms show ?thesis by (auto simp: cycle_day_def year_day_def)
next
  case False
  with assms have t: "0 \<le> t" "t < 1460" by (auto simp: cycle_day_def)
  then have "t div 365 < 4" "0 \<le> t div 365" by (auto simp: div_less_iff_less_mult)
  then have m: "min 3 (t div 365) = t div 365" by simp
  have "t - 365 * (t div 365) = t mod 365" by (simp add: minus_mult_div_eq_mod)
  then have "0 \<le> t - 365 * (t div 365)" "t - 365 * (t div 365) < 365" by simp_all
  with assms m \<open>0 \<le> t div 365\<close> \<open>t div 365 < 4\<close> show ?thesis by (simp add: cycle_day_def year_day_def)
qed

lemma year_split:
  obtains era c q r where "y = 400 * era + 100 * c + 4 * q + (r::int)"
    "0 \<le> c" "c \<le> 3" "0 \<le> q" "q \<le> 24" "0 \<le> r" "r \<le> 3"
proof (rule that)
  let ?a = "y mod 400" let ?b = "?a mod 100"
  have "400 * (y div 400) + ?a = y" "100 * (?a div 100) + ?b = ?a" "4 * (?b div 4) + ?b mod 4 = ?b"
    by simp_all
  then show "y = 400 * (y div 400) + 100 * (?a div 100) + 4 * (?b div 4) + ?b mod 4" by linarith
  have a: "0 \<le> ?a" "?a < 400" by simp_all
  then show "0 \<le> ?a div 100" "?a div 100 \<le> 3" by auto
  have b: "0 \<le> ?b" "?b < 100" by simp_all
  then show "0 \<le> ?b div 4" "?b div 4 \<le> 24" by auto
  show "0 \<le> ?b mod 4" by simp
  have "?b mod 4 < 4" by simp
  then show "?b mod 4 \<le> 3" by linarith
qed

text \<open>Months counted from March: \<open>mstart mp\<close> is the day of the year month \<open>mp\<close> begins at.\<close>

definition mstart :: "int \<Rightarrow> int" where
  "mstart mp = (153 * mp + 2) div 5"

lemma month_cases:
  assumes "0 \<le> mp" "mp \<le> (11::int)"
  obtains "mp = 0" | "mp = 1" | "mp = 2" | "mp = 3" | "mp = 4" | "mp = 5" | "mp = 6" | "mp = 7"
    | "mp = 8" | "mp = 9" | "mp = 10" | "mp = 11"
proof -
  have "mp = 0 \<or> mp = 1 \<or> mp = 2 \<or> mp = 3 \<or> mp = 4 \<or> mp = 5 \<or> mp = 6 \<or> mp = 7 \<or> mp = 8 \<or>
        mp = 9 \<or> mp = 10 \<or> mp = 11"
    using assms by presburger
  then show thesis using that by blast
qed

lemma mstart_div:
  assumes "0 \<le> mp" "mp \<le> 11" "mstart mp \<le> doy" "doy < mstart (mp + 1)" "doy \<le> 365"
  shows "(5 * doy + 2) div 153 = mp"
  using assms(1,2) by (rule month_cases; use assms in \<open>simp add: mstart_def\<close>; rule div_eqI; linarith)

lemma div_mstart:
  assumes "0 \<le> doy" "doy \<le> 365"
  shows "0 \<le> (5 * doy + 2) div 153" "(5 * doy + 2) div 153 \<le> 11"
    "mstart ((5 * doy + 2) div 153) \<le> doy" "doy < mstart ((5 * doy + 2) div 153 + 1)"
proof -
  let ?mp = "(5 * doy + 2) div 153"
  show "0 \<le> ?mp" using assms by simp
  have "?mp < 12" using assms by linarith
  then show "?mp \<le> 11" by linarith
  have m: "153 * ?mp \<le> 5 * doy + 2" "5 * doy + 2 < 153 * ?mp + 153" by linarith+
  then show "mstart ?mp \<le> doy" unfolding mstart_def by linarith
  have "doy + 1 \<le> (153 * ?mp + 155) div 5" using m by linarith
  then show "doy < mstart (?mp + 1)" by (simp add: mstart_def algebra_simps)
qed

section \<open>Day numbers and civil dates are inverse\<close>

lemma days_from_civil_parts:
  assumes y: "(if m \<le> 2 then y0 - 1 else y0) = 400 * era + 100 * c + 4 * q + r"
    and b: "0 \<le> c" "c \<le> 3" "0 \<le> q" "q \<le> 24" "0 \<le> r" "r \<le> 3"
  shows "days_from_civil y0 m d
    = era * 146097 + 36524 * c + 1461 * q + 365 * r + mstart ((m + 9) mod 12) + (d - 1) - 719468"
proof -
  let ?y = "if m \<le> 2 then y0 - 1 else y0" and ?yoe = "100 * c + 4 * q + r"
  have era: "?y div 400 = era" by (rule div_eqI) (use y b in simp_all)
  have "?yoe div 4 = 25 * c + q" by (rule div_eqI) (use b in simp_all)
  moreover have "?yoe div 100 = c" by (rule div_eqI) (use b in simp_all)
  moreover have "?y - era * 400 = ?yoe" using y by simp
  ultimately show ?thesis
    unfolding days_from_civil_def Let_def tdiv_400 era by (simp add: mstart_def)
qed

lemma civil_from_days_parts:
  assumes z: "z + 719468 = era * 146097 + 36524 * c + 1461 * q + 365 * r + doy"
    and b: "year_day c q r doy"
  shows "civil_from_days z =
    (let mp = (5 * doy + 2) div 153; m = (if mp < 10 then mp + 3 else mp - 9);
         y = 400 * era + 100 * c + 4 * q + r
     in (if m \<le> 2 then y + 1 else y, m, doy - mstart mp + 1))"
proof -
  define doe where "doe = 36524 * c + 1461 * q + (365 * r + doy)"
  have cd: "cycle_day c q (365 * r + doy)" using b by (rule year_day_cycle)
  then have doe: "0 \<le> doe" "doe \<le> 146096" by (auto simp: doe_def cycle_day_def)
  have era: "(z + 719468) div 146097 = era" by (rule div_eqI) (use z doe in \<open>simp_all add: doe_def\<close>)
  have zd: "z + 719468 - era * 146097 = doe" using z by (simp add: doe_def)
  have yoe: "(doe - doe div 1460 + doe div 36524 - doe div 146096) div 365 = 100 * c + 4 * q + r"
    using cycle_year [OF cd doe_def] year_day_div [OF b] by simp
  have "(100 * c + 4 * q + r) div 4 = 25 * c + q" "(100 * c + 4 * q + r) div 100 = c"
    by (rule div_eqI; use b in \<open>simp add: year_day_def\<close>)+
  then have "doe - (365 * (100 * c + 4 * q + r) + (100 * c + 4 * q + r) div 4
      - (100 * c + 4 * q + r) div 100) = doy"
    by (simp add: doe_def)
  then show ?thesis
    unfolding civil_from_days_def Let_def tdiv_146097 era zd yoe by (simp add: mstart_def)
qed

lemma mod_cycle_iff: "y = x + n * k \<Longrightarrow> 0 < x \<Longrightarrow> x \<le> n \<Longrightarrow> y mod n = 0 \<longleftrightarrow> x = n" for x n k :: int
  by (cases "x = n") auto

lemma leap_year_parts:
  assumes "0 \<le> c" "c \<le> 3" "0 \<le> q" "q \<le> 24" "0 \<le> r" "r \<le> 3"
  shows "leap_year (400 * era + 100 * c + 4 * q + r + 1) \<longleftrightarrow> r = 3 \<and> (q = 24 \<longrightarrow> c = 3)"
proof -
  let ?y = "400 * era + 100 * c + 4 * q + r + 1"
  have m4: "?y mod 4 = 0 \<longleftrightarrow> r + 1 = 4"
    by (rule mod_cycle_iff [where k = "100 * era + 25 * c + q"]) (use assms in \<open>simp_all add: algebra_simps\<close>)
  have m100: "?y mod 100 = 0 \<longleftrightarrow> 4 * q + r + 1 = 100"
    by (rule mod_cycle_iff [where k = "4 * era + c"]) (use assms in \<open>simp_all add: algebra_simps\<close>)
  have m400: "?y mod 400 = 0 \<longleftrightarrow> 100 * c + 4 * q + r + 1 = 400"
    by (rule mod_cycle_iff [where k = era]) (use assms in \<open>simp_all add: algebra_simps\<close>)
  show ?thesis unfolding leap_year_def m4 m100 m400 using assms by auto
qed

text \<open>The month of a calendar date and its length, counted from March.\<close>

lemma valid_civil_parts:
  assumes "valid_civil y0 m d" "1 \<le> d"
    and "(if m \<le> 2 then y0 - 1 else y0) = 400 * era + 100 * c + 4 * q + r"
    and b: "0 \<le> c" "c \<le> 3" "0 \<le> q" "q \<le> 24" "0 \<le> r" "r \<le> 3"
  shows "year_day c q r (mstart ((m + 9) mod 12) + (d - 1))
    \<and> mstart ((m + 9) mod 12) + (d - 1) < mstart ((m + 9) mod 12 + 1)"
proof -
  from assms(1) have m: "1 \<le> m" "m \<le> 12" and dim: "d \<le> days_in_month y0 m"
    by (auto simp: valid_civil_def split: if_splits)
  then have d28: "d \<le> (if m = 2 then 29 else 31)"
    by (auto simp: days_in_month_def split: if_splits)
  have leap: "m = 2 \<Longrightarrow> d = 29 \<Longrightarrow> r = 3 \<and> (q = 24 \<longrightarrow> c = 3)"
  proof -
    assume "m = 2" "d = 29"
    with dim have "leap_year y0" by (auto simp: days_in_month_def split: if_splits)
    moreover have "y0 = 400 * era + 100 * c + 4 * q + r + 1" using assms(3) \<open>m = 2\<close> by simp
    ultimately show ?thesis using leap_year_parts [OF b] by simp
  qed
  have "0 \<le> m - 1" "m - 1 \<le> 11" using m by simp_all
  then show ?thesis
    by (rule month_cases; use assms(2) b dim d28 leap in
        \<open>simp add: mstart_def year_day_def days_in_month_def algebra_simps\<close>)
qed

lemma civil_roundtrip_days:
  assumes "valid_civil y m d" "1 \<le> d"
  shows "civil_from_days (days_from_civil y m d) = (y, m, d)"
proof -
  let ?y = "if m \<le> 2 then y - 1 else y" and ?mp = "(m + 9) mod 12"
  from assms(1) have m: "1 \<le> m" "m \<le> 12" by (auto simp: valid_civil_def split: if_splits)
  obtain era c q r where y: "?y = 400 * era + 100 * c + 4 * q + r"
    and b: "0 \<le> c" "c \<le> 3" "0 \<le> q" "q \<le> 24" "0 \<le> r" "r \<le> 3"
    using year_split by blast
  let ?doy = "mstart ?mp + (d - 1)"
  have yd: "year_day c q r ?doy" and lt: "?doy < mstart (?mp + 1)"
    using valid_civil_parts [OF assms y b] by simp_all
  have z: "days_from_civil y m d + 719468 = era * 146097 + 36524 * c + 1461 * q + 365 * r + ?doy"
    using days_from_civil_parts [OF y b] by simp
  have "(5 * ?doy + 2) div 153 = ?mp"
    by (rule mstart_div) (use lt yd assms(2) in \<open>auto simp: year_day_def\<close>)
  moreover have "(if ?mp < 10 then ?mp + 3 else ?mp - 9) = m"
  proof -
    have "0 \<le> m - 1" "m - 1 \<le> 11" using m by simp_all
    then show ?thesis by (rule month_cases) (auto simp: algebra_simps)
  qed
  moreover have "(if m \<le> 2 then 400 * era + 100 * c + 4 * q + r + 1 else 400 * era + 100 * c + 4 * q + r) = y"
    using y by (simp split: if_splits)
  ultimately show ?thesis using civil_from_days_parts [OF z yd] by (simp add: Let_def)
qed

lemma days_roundtrip_civil:
  assumes "civil_from_days z = (y, m, d)"
  shows "valid_civil y m d \<and> 1 \<le> d \<and> days_from_civil y m d = z"
proof -
  let ?era = "(z + 719468) div 146097"
  have "0 \<le> (z + 719468) mod 146097" "(z + 719468) mod 146097 < 146097" by simp_all
  then obtain c q t where t: "(z + 719468) mod 146097 = 36524 * c + 1461 * q + t" "cycle_day c q t"
    using cycle_split by (metis zle_diff1_eq [of _ 146097, simplified])
  define r where "r = min 3 (t div 365)"
  define doy where "doy = t - 365 * r"
  have yd: "year_day c q r doy" using cycle_day_year [OF t(2)] by (simp add: r_def doy_def)
  then have b: "0 \<le> c" "c \<le> 3" "0 \<le> q" "q \<le> 24" "0 \<le> r" "r \<le> 3" and doy: "0 \<le> doy" "doy \<le> 365"
    and last: "doy = 365 \<Longrightarrow> r = 3 \<and> (q = 24 \<longrightarrow> c = 3)"
    by (auto simp: year_day_def)
  have z: "z + 719468 = ?era * 146097 + 36524 * c + 1461 * q + 365 * r + doy"
    using t(1) div_mult_mod_eq [of "z + 719468" 146097] unfolding doy_def by linarith
  let ?mp = "(5 * doy + 2) div 153" and ?y = "400 * ?era + 100 * c + 4 * q + r"
  note mp = div_mstart [OF doy]
  have m: "m = (if ?mp < 10 then ?mp + 3 else ?mp - 9)" and d: "d = doy - mstart ?mp + 1"
    and y: "y = (if m \<le> 2 then ?y + 1 else ?y)"
    using civil_from_days_parts [OF z yd] assms by (simp_all add: Let_def)
  have y': "(if m \<le> 2 then y - 1 else y) = ?y" using y by simp
  have m9: "(m + 9) mod 12 = ?mp" using mp(1,2) unfolding m by (rule month_cases) auto
  have "days_from_civil y m d = z"
    using days_from_civil_parts [OF y' b, of d] z by (simp add: m9 d)
  moreover have "1 \<le> d" using mp(3) by (simp add: d)
  moreover have "valid_civil y m d"
  proof -
    have "?mp = 11 \<Longrightarrow> doy = 365 \<Longrightarrow> leap_year y"
      using leap_year_parts [OF b, of ?era] last y m by simp
    then have leap: "?mp = 11 \<Longrightarrow> \<not> leap_year y \<Longrightarrow> doy \<le> 364" using doy by fastforce
    show ?thesis
      using mp(1,2)
      by (rule month_cases; use mp(3,4) doy m d leap in
          \<open>simp add: valid_civil_def days_in_month_def mstart_def\<close>)
  qed
  ultimately show ?thesis by simp
qed

end
