(* ===== verification/Dates.thy ===== *)
theory Dates
  imports Civil
begin

text \<open>
  The text of dates and date-times (\<open>src/model/value.rs\<close>): \<open>parse_date_str\<close>,
  \<open>parse_datetime_str\<close>, \<open>format_date\<close> and \<open>format_datetime\<close>, over the pieces of the
  standard library they use: \<open>split\<close>, \<open>split_once\<close>, \<open>parse\<close> of decimal integers and
  zero-padded printing. A string is the list of its bytes. A \<open>DATE\<close> (\<open>i32\<close>) and a
  \<open>LOCAL DATETIME\<close> (\<open>i64\<close>) are \<open>int\<close>s in the range of their type.
\<close>

section \<open>Decimal numbers as text\<close>

definition is_digit :: "char \<Rightarrow> bool" where
  "is_digit c \<longleftrightarrow> 48 \<le> (of_char c :: nat) \<and> (of_char c :: nat) \<le> 57"

definition digit :: "nat \<Rightarrow> char" where
  "digit d = char_of (48 + d)"

fun digits :: "nat \<Rightarrow> string" where
  "digits n = (if n < 10 then [digit n] else digits (n div 10) @ [digit (n mod 10)])"

declare digits.simps [simp del]

text \<open>\<open>{n:0w}\<close> of an integer: the sign counts towards the width.\<close>

definition pad :: "nat \<Rightarrow> nat \<Rightarrow> string" where
  "pad w n = replicate (w - length (digits n)) (CHR ''0'') @ digits n"

definition pad_int :: "nat \<Rightarrow> int \<Rightarrow> string" where
  "pad_int w i = (if i < 0 then CHR ''-'' # pad (w - 1) (nat (- i)) else pad w (nat i))"

definition decimal :: "string \<Rightarrow> nat" where
  "decimal s = foldl (\<lambda>a c. a * 10 + (of_char c - 48)) 0 s"

text \<open>\<open>str::parse\<close> of an integer type: an optional sign, at least one digit, no overflow.\<close>

definition parse_digits :: "nat \<Rightarrow> string \<Rightarrow> nat option" where
  "parse_digits mx s = (if s \<noteq> [] \<and> list_all is_digit s \<and> decimal s \<le> mx then Some (decimal s) else None)"

definition parse_u32 :: "string \<Rightarrow> nat option" where
  "parse_u32 s = parse_digits (2 ^ 32 - 1) (case s of [] \<Rightarrow> s | c # t \<Rightarrow> if c = CHR ''+'' then t else s)"

definition parse_i64 :: "string \<Rightarrow> int option" where
  "parse_i64 s =
     (case s of
        [] \<Rightarrow> None
      | c # t \<Rightarrow>
          if c = CHR ''-'' then map_option (\<lambda>n. - int n) (parse_digits (2 ^ 63) t)
          else map_option int (parse_digits (2 ^ 63 - 1) (if c = CHR ''+'' then t else s)))"

text \<open>\<open>str::split\<close> and \<open>str::split_once\<close> at a character.\<close>

fun split_on :: "char \<Rightarrow> string \<Rightarrow> string list" where
  "split_on c [] = [[]]"
| "split_on c (x # s) =
     (if x = c then [] # split_on c s
      else (case split_on c s of [] \<Rightarrow> [[x]] | p # ps \<Rightarrow> (x # p) # ps))"

fun split_once :: "char \<Rightarrow> string \<Rightarrow> (string \<times> string) option" where
  "split_once c [] = None"
| "split_once c (x # s) =
     (if x = c then Some ([], s) else map_option (\<lambda>(a, b). (x # a, b)) (split_once c s))"

section \<open>Dates\<close>

definition i32_try_from :: "int \<Rightarrow> int option" where
  "i32_try_from i = (if - (2 ^ 31) \<le> i \<and> i < 2 ^ 31 then Some i else None)"

definition parse_date_str :: "string \<Rightarrow> int option" where
  "parse_date_str s =
     (case split_on (CHR ''-'') s of
        [y, m, d] \<Rightarrow>
          if length y \<noteq> 4 \<or> length m \<noteq> 2 \<or> length d \<noteq> 2 then None
          else do {
            y \<leftarrow> parse_i64 y;
            m \<leftarrow> parse_u32 m;
            d \<leftarrow> parse_u32 d;
            if \<not> valid_civil y (int m) (int d) then None
            else i32_try_from (days_from_civil y (int m) (int d))
          }
      | _ \<Rightarrow> None)"

definition format_date :: "int \<Rightarrow> string" where
  "format_date days =
     (let (y, m, d) = civil_from_days days
      in pad_int 4 y @ ''-'' @ pad_int 2 m @ ''-'' @ pad_int 2 d)"

section \<open>Date-times\<close>

text \<open>The seconds part, \<open>SS[.mmm]\<close>: one to three digits, scaled to milliseconds.\<close>

definition parse_seconds :: "string \<Rightarrow> (nat \<times> nat) option" where
  "parse_seconds sec_part =
     (case split_once (CHR ''.'') sec_part of
        None \<Rightarrow> map_option (\<lambda>n. (n, 0)) (parse_u32 sec_part)
      | Some (s2, frac) \<Rightarrow>
          if frac = [] \<or> length frac > 3 \<or> \<not> list_all is_digit frac then None
          else do {
            n \<leftarrow> parse_u32 s2;
            f \<leftarrow> parse_u32 frac;
            Some (n, f * 10 ^ (3 - length frac))
          })"

definition parse_datetime_str :: "string \<Rightarrow> int option" where
  "parse_datetime_str s =
     do {
       (date, time) \<leftarrow> split_once (CHR ''T'') s;
       days \<leftarrow> parse_date_str date;
       (h, mi, sec, ms) \<leftarrow>
         (case split_on (CHR '':'') time of
            h # mi # rest \<Rightarrow>
              do {
                h \<leftarrow> parse_u32 h;
                mi \<leftarrow> parse_u32 mi;
                (sec, ms) \<leftarrow>
                  (case rest of [] \<Rightarrow> Some (0, 0) | [sec_part] \<Rightarrow> parse_seconds sec_part | _ \<Rightarrow> None);
                Some (h, mi, sec, ms)
              }
          | _ \<Rightarrow> None);
       if h > 23 \<or> mi > 59 \<or> sec > 59 then None
       else Some (days * 86400000 + int h * 3600000 + int mi * 60000 + int sec * 1000 + int ms)
     }"

definition format_datetime :: "int \<Rightarrow> string" where
  "format_datetime millis =
     (let days = millis div 86400000;
          rem = millis mod 86400000;
          (y, m, d) = civil_from_days days;
          h = rem div 3600000;
          mi = rem mod 3600000 div 60000;
          sec = rem mod 60000 div 1000;
          ms = rem mod 1000;
          base = pad_int 4 y @ ''-'' @ pad_int 2 m @ ''-'' @ pad_int 2 d @ ''T''
                 @ pad_int 2 h @ '':'' @ pad_int 2 mi @ '':'' @ pad_int 2 sec
      in if ms = 0 then base else base @ ''.'' @ pad_int 3 ms)"

section \<open>Printing and parsing decimals\<close>

lemma of_char_digit: "d < 10 \<Longrightarrow> of_char (digit d) = 48 + d"
  by (simp add: digit_def)

lemma is_digit_digit: "d < 10 \<Longrightarrow> is_digit (digit d)"
  by (simp add: is_digit_def of_char_digit)

lemma not_digit [simp]:
  "\<not> is_digit (CHR ''-'')" "\<not> is_digit (CHR ''+'')" "\<not> is_digit (CHR '':'')"
  "\<not> is_digit (CHR ''T'')" "\<not> is_digit (CHR ''.'')" "is_digit (CHR ''0'')"
  by (simp_all add: is_digit_def)

lemma digits_all: "list_all is_digit (digits n)"
  by (induction n rule: digits.induct) (subst digits.simps, auto simp: is_digit_digit)

lemma digits_not_Nil: "digits n \<noteq> []"
  by (subst digits.simps) simp

lemma decimal_snoc: "decimal (s @ [c]) = decimal s * 10 + (of_char c - 48)"
  by (simp add: decimal_def)

lemma decimal_digits: "decimal (digits n) = n"
proof (induction n rule: digits.induct)
  case (1 n)
  show ?case
  proof (cases "n < 10")
    case True
    then show ?thesis by (subst digits.simps) (simp add: decimal_def of_char_digit)
  next
    case False
    with 1 show ?thesis by (subst digits.simps) (simp add: decimal_snoc of_char_digit)
  qed
qed

lemma length_digits: "n < 10 ^ w \<Longrightarrow> 0 < w \<Longrightarrow> length (digits n) \<le> w"
proof (induction n arbitrary: w rule: digits.induct)
  case (1 n)
  show ?case
  proof (cases "n < 10")
    case True
    with 1 show ?thesis by (subst digits.simps) simp
  next
    case False
    then obtain w' where w: "w = Suc w'" "0 < w'" using 1 by (cases w; cases "w - 1") auto
    then have "n div 10 < 10 ^ w'" using 1(2) by (simp add: div_less_iff_less_mult)
    with 1(1) False w have "length (digits (n div 10)) \<le> w'" by blast
    with False w show ?thesis by (subst digits.simps) simp
  qed
qed

lemma decimal_pad: "decimal (replicate k (CHR ''0'') @ s) = decimal s"
  by (induction k) (simp_all add: decimal_def)

lemma pad_digits: "list_all is_digit (pad w n)"
  using digits_all [of n] by (auto simp: pad_def list_all_iff)

lemma pad_not_Nil: "pad w n \<noteq> []"
  by (simp add: pad_def digits_not_Nil)

lemma decimal_pad_eq: "decimal (pad w n) = n"
  by (simp add: pad_def decimal_pad decimal_digits)

lemma parse_pad: "n \<le> mx \<Longrightarrow> parse_digits mx (pad w n) = Some n"
  by (simp add: parse_digits_def pad_digits pad_not_Nil decimal_pad_eq)

lemma length_pad: "n < 10 ^ w \<Longrightarrow> 0 < w \<Longrightarrow> length (pad w n) = w"
  using length_digits by (fastforce simp: pad_def)

lemma pad_hd: "pad w n = c # s \<Longrightarrow> is_digit c"
  using pad_digits [of w n] by simp

lemma parse_u32_pad: "n < 2 ^ 32 \<Longrightarrow> parse_u32 (pad w n) = Some n"
proof (cases "pad w n")
  case (Cons c t)
  assume n: "n < 2 ^ 32"
  have "is_digit c" using Cons by (rule pad_hd)
  then have "c \<noteq> CHR ''+''" by auto
  with Cons show ?thesis using parse_pad [of n "2 ^ 32 - 1" w] n by (simp add: parse_u32_def)
qed (simp add: pad_not_Nil)

lemma parse_i64_pad: "n < 2 ^ 63 \<Longrightarrow> parse_i64 (pad w n) = Some (int n)"
proof (cases "pad w n")
  case (Cons c t)
  assume n: "n < 2 ^ 63"
  have "is_digit c" using Cons by (rule pad_hd)
  then have "c \<noteq> CHR ''-''" "c \<noteq> CHR ''+''" by auto
  with Cons show ?thesis using parse_pad [of n "2 ^ 63 - 1" w] n by (simp add: parse_i64_def)
qed (simp add: pad_not_Nil)

lemma decimal_less: "list_all is_digit s \<Longrightarrow> decimal s < 10 ^ length s"
proof (induction s rule: rev_induct)
  case (snoc c s)
  then have "decimal s + 1 \<le> 10 ^ length s" "of_char c - 48 < (10::nat)"
    by (auto simp: is_digit_def)
  then have "decimal s * 10 + (of_char c - 48) < 10 ^ length s * 10" by linarith
  then show ?case by (simp add: decimal_snoc)
qed (simp add: decimal_def)

lemma parse_i64_range:
  assumes "parse_i64 s = Some y" "CHR ''-'' \<notin> set s"
  shows "0 \<le> y \<and> y < 10 ^ length s"
proof -
  obtain t where t: "parse_digits (2 ^ 63 - 1) t = Some (nat y)" "0 \<le> y" "length t \<le> length s"
    using assms by (auto simp: parse_i64_def split: list.splits if_splits)
  then have "decimal t < 10 ^ length t" "decimal t = nat y"
    using decimal_less [of t] by (simp_all add: parse_digits_def split: if_splits)
  moreover have "(10::nat) ^ length t \<le> 10 ^ length s" using t(3) by simp
  ultimately have "nat y < 10 ^ length s" by linarith
  then show ?thesis using t(2) by (simp add: nat_less_iff)
qed

text \<open>Separators are not digits, so splitting finds the printed parts again.\<close>

lemma split_on_append: "c \<notin> set a \<Longrightarrow> split_on c (a @ c # b) = a # split_on c b"
  by (induction a) auto

lemma split_on_last: "c \<notin> set a \<Longrightarrow> split_on c a = [a]"
  by (induction a) auto

lemma split_once_append: "c \<notin> set a \<Longrightarrow> split_once c (a @ c # b) = Some (a, b)"
  by (induction a) auto

lemma split_once_None: "c \<notin> set a \<Longrightarrow> split_once c a = None"
  by (induction a) auto

lemma split_on_no_sep: "p \<in> set (split_on c s) \<Longrightarrow> c \<notin> set p"
  by (induction s arbitrary: p) (auto split: if_splits list.splits)

lemma pad_no_sep: "\<not> is_digit c \<Longrightarrow> c \<notin> set (pad w n)"
  using pad_digits [of w n] by (auto simp: list_all_iff)

section \<open>Round trips\<close>

lemma civil_from_days_bounds:
  assumes "civil_from_days z = (y, m, d)"
  shows "1 \<le> m" "m \<le> 12" "1 \<le> d" "d \<le> 31"
  using days_roundtrip_civil [OF assms]
  by (auto simp: valid_civil_def days_in_month_def split: if_splits)

text \<open>The days whose year prints with four digits are \<open>0000-01-01\<close> to \<open>9999-12-31\<close>.\<close>

lemma days_from_civil_range:
  assumes "valid_civil y m d" "1 \<le> d" "0 \<le> y" "y \<le> 9999"
  shows "-719528 \<le> days_from_civil y m d \<and> days_from_civil y m d \<le> 2932896"
proof -
  let ?y = "if m \<le> 2 then y - 1 else y"
  obtain era c q r where y: "?y = 400 * era + 100 * c + 4 * q + r"
    and b: "0 \<le> c" "c \<le> 3" "0 \<le> q" "q \<le> 24" "0 \<le> r" "r \<le> 3"
    using year_split by blast
  from assms(1) have m: "1 \<le> m" "m \<le> 12" by (auto simp: valid_civil_def split: if_splits)
  define doy where "doy = mstart ((m + 9) mod 12) + (d - 1)"
  have yd: "0 \<le> doy" "doy \<le> 365" and lt: "doy < mstart ((m + 9) mod 12 + 1)"
    using valid_civil_parts [OF assms(1,2) y b] by (auto simp: doy_def year_day_def)
  have days: "days_from_civil y m d = era * 146097 + 36524 * c + 1461 * q + 365 * r + doy - 719468"
    using days_from_civil_parts [OF y b] by (simp add: doy_def)
  show ?thesis
  proof (cases "m \<le> 2")
    case True
    then have "m = 1 \<or> m = 2" using m by linarith
    then have "306 \<le> doy" using assms(2) by (auto simp: doy_def mstart_def)
    moreover have y1: "y - 1 = 400 * era + 100 * c + 4 * q + r" using y True by simp
    then have "- 1 \<le> era" "era \<le> 24" using b assms(3,4) by linarith+
    moreover have "era = 24 \<Longrightarrow> 100 * c + 4 * q + r \<le> 398" using y1 assms(4) by linarith
    moreover have "era = - 1 \<Longrightarrow> c = 3 \<and> q = 24 \<and> r = 3" using y1 assms(3) b by linarith
    ultimately show ?thesis using b yd unfolding days by (cases "era = 24"; cases "era = - 1"; auto)
  next
    case False
    have "doy \<le> 305"
    proof -
      have "0 \<le> m - 1" "m - 1 \<le> 11" using m by simp_all
      then show ?thesis by (rule month_cases; use lt False in \<open>simp add: mstart_def algebra_simps\<close>)
    qed
    moreover have "y = 400 * era + 100 * c + 4 * q + r" using y False by simp
    then have "0 \<le> era" "era \<le> 24" using b assms(3,4) by linarith+
    ultimately show ?thesis using b yd unfolding days by simp
  qed
qed

lemma date_text_roundtrip:
  assumes "0 \<le> fst (civil_from_days n)" "fst (civil_from_days n) \<le> 9999"
  shows "parse_date_str (format_date n) = Some n"
proof -
  obtain y m d where ymd: "civil_from_days n = (y, m, d)" by (cases "civil_from_days n")
  note days = days_roundtrip_civil [OF ymd] and b = civil_from_days_bounds [OF ymd]
  have y: "0 \<le> y" "y \<le> 9999" using assms ymd by simp_all
  have "format_date n = pad 4 (nat y) @ CHR ''-'' # pad 2 (nat m) @ CHR ''-'' # pad 2 (nat d)"
    using y b by (simp add: format_date_def ymd pad_int_def)
  then have "split_on (CHR ''-'') (format_date n) = [pad 4 (nat y), pad 2 (nat m), pad 2 (nat d)]"
    by (simp add: split_on_append split_on_last pad_no_sep)
  moreover have "length (pad 4 (nat y)) = 4" "length (pad 2 (nat m)) = 2" "length (pad 2 (nat d)) = 2"
    using y b by (simp_all add: length_pad nat_less_iff)
  moreover have "i32_try_from n = Some n"
    using days_from_civil_range [of y m d] days y by (simp add: i32_try_from_def)
  ultimately show ?thesis
    using y b days by (simp add: parse_date_str_def parse_i64_pad parse_u32_pad nat_less_iff)
qed

text \<open>
  C36: A date that prints with a four-digit year parses back to itself: \<open>parse_date_str\<close>
  inverts \<open>format_date\<close> on every day number whose civil year is between 0 and 9999.
\<close>

theorem parse_format_date:
  assumes "0 \<le> fst (civil_from_days n)" "fst (civil_from_days n) \<le> 9999"
  shows "parse_date_str (format_date n) = Some n"
  using assms by (rule date_text_roundtrip)

lemma parse_format_date_witness: "parse_date_str (format_date 19782) = Some 19782"
proof -
  have "days_from_civil 2024 2 29 = 19782" by (simp add: days_from_civil_def tdiv_def)
  then have "civil_from_days 19782 = (2024, 2, 29)"
    using civil_roundtrip_days [of 2024 2 29] by (simp add: valid_civil_def days_in_month_def leap_year_def)
  then show ?thesis using parse_format_date [of 19782] by simp
qed

text \<open>
  C37: \<open>parse_date_str\<close> answers a day exactly on the texts of three parts of four, two and two
  characters that read as numbers and name a calendar date, and the civil date of the answer
  is the one written: the final conversion to \<open>i32\<close> never refuses a date. Every answer lies
  between 0000-01-01 and 9999-12-31, since no other year has four characters without a hyphen.
\<close>

theorem parse_date_str_range:
  "(parse_date_str s = Some n \<longleftrightarrow>
      (\<exists>ys ms ds y m d. split_on (CHR ''-'') s = [ys, ms, ds] \<and> length ys = 4 \<and> length ms = 2 \<and> length ds = 2
        \<and> parse_i64 ys = Some y \<and> parse_u32 ms = Some m \<and> parse_u32 ds = Some d
        \<and> valid_civil y (int m) (int d) \<and> civil_from_days n = (y, int m, int d)))
    \<and> (parse_date_str s = Some n \<longrightarrow> -719528 \<le> n \<and> n \<le> 2932896)"
proof -
  have bounds: "-719528 \<le> days_from_civil y (int m) (int d) \<and> days_from_civil y (int m) (int d) \<le> 2932896
      \<and> civil_from_days (days_from_civil y (int m) (int d)) = (y, int m, int d)"
    if "split_on (CHR ''-'') s = [ys, ms, ds]" "length ys = 4" "parse_i64 ys = Some y" "valid_civil y (int m) (int d)" for ys ms ds y m d
  proof -
    have "CHR ''-'' \<notin> set ys" using split_on_no_sep [of ys "CHR ''-''" s] that(1) by simp
    then have y: "0 \<le> y" "y \<le> 9999" using parse_i64_range [OF that(3)] that(2) by simp_all
    have d: "1 \<le> int d" using that(4) by (auto simp: valid_civil_def split: if_splits)
    show ?thesis using days_from_civil_range [OF that(4) d y] civil_roundtrip_days [OF that(4) d] by simp
  qed
  have iff: "parse_date_str s = Some n \<longleftrightarrow>
      (\<exists>ys ms ds y m d. split_on (CHR ''-'') s = [ys, ms, ds] \<and> length ys = 4 \<and> length ms = 2 \<and> length ds = 2
        \<and> parse_i64 ys = Some y \<and> parse_u32 ms = Some m \<and> parse_u32 ds = Some d
        \<and> valid_civil y (int m) (int d) \<and> days_from_civil y (int m) (int d) = n)"
  proof
    assume "parse_date_str s = Some n"
    then show "\<exists>ys ms ds y m d. split_on (CHR ''-'') s = [ys, ms, ds] \<and> length ys = 4 \<and> length ms = 2 \<and> length ds = 2
        \<and> parse_i64 ys = Some y \<and> parse_u32 ms = Some m \<and> parse_u32 ds = Some d
        \<and> valid_civil y (int m) (int d) \<and> days_from_civil y (int m) (int d) = n"
      by (auto simp: parse_date_str_def i32_try_from_def Option.bind_eq_Some_conv split: list.splits if_splits)
  next
    assume "\<exists>ys ms ds y m d. split_on (CHR ''-'') s = [ys, ms, ds] \<and> length ys = 4 \<and> length ms = 2 \<and> length ds = 2
        \<and> parse_i64 ys = Some y \<and> parse_u32 ms = Some m \<and> parse_u32 ds = Some d
        \<and> valid_civil y (int m) (int d) \<and> days_from_civil y (int m) (int d) = n"
    then obtain ys ms ds y m d where w: "split_on (CHR ''-'') s = [ys, ms, ds]" "length ys = 4" "length ms = 2" "length ds = 2"
      "parse_i64 ys = Some y" "parse_u32 ms = Some m" "parse_u32 ds = Some d" "valid_civil y (int m) (int d)" "days_from_civil y (int m) (int d) = n" by blast
    then show "parse_date_str s = Some n" using bounds [OF w(1,2,5,8)] by (simp add: parse_date_str_def i32_try_from_def)
  qed
  have "days_from_civil y (int m) (int d) = n \<longleftrightarrow> civil_from_days n = (y, int m, int d)" if "valid_civil y (int m) (int d)" for y m d
  proof -
    have "1 \<le> int d" using that by (auto simp: valid_civil_def split: if_splits)
    then show ?thesis using civil_roundtrip_days [OF that] days_roundtrip_civil [of n] by auto
  qed
  then show ?thesis unfolding iff using bounds by blast
qed

lemma parse_date_str_range_witness:
  "parse_date_str ''2024-02-29'' = Some 19782 \<and> civil_from_days 19782 = (2024, 2, 29) \<and> (19782 :: int) \<le> 2932896"
proof -
  have parts: "split_on (CHR ''-'') ''2024-02-29'' = [''2024'', ''02'', ''29'']" "parse_i64 ''2024'' = Some 2024"
    "parse_u32 ''02'' = Some 2" "parse_u32 ''29'' = Some 29"
    by (simp_all add: parse_i64_def parse_u32_def parse_digits_def decimal_def is_digit_def)
  have "parse_date_str ''2024-02-29'' = Some 19782"
    using parts by (simp add: parse_date_str_def valid_civil_def days_in_month_def leap_year_def days_from_civil_def tdiv_def i32_try_from_def)
  then show ?thesis using parse_date_str_range [of "''2024-02-29''" 19782] parts by auto
qed

text \<open>The parts of a day, and printing them back.\<close>

lemma day_parts:
  fixes millis :: int
  defines "rem \<equiv> millis mod 86400000"
  defines "h \<equiv> rem div 3600000" and "mi \<equiv> rem mod 3600000 div 60000" and "sec \<equiv> rem mod 60000 div 1000"
    and "ms \<equiv> rem mod 1000"
  shows "0 \<le> h" "h \<le> 23" "0 \<le> mi" "mi \<le> 59" "0 \<le> sec" "sec \<le> 59" "0 \<le> ms" "ms \<le> 999"
    "millis = (millis div 86400000) * 86400000 + h * 3600000 + mi * 60000 + sec * 1000 + ms"
proof -
  have r: "0 \<le> rem" "rem < 86400000" by (simp_all add: rem_def)
  have m1: "0 \<le> rem mod 3600000" "rem mod 3600000 < 3600000" by simp_all
  have m2: "0 \<le> rem mod 60000" "rem mod 60000 < 60000" by simp_all
  show "0 \<le> h" "h \<le> 23" using r unfolding h_def by linarith+
  show "0 \<le> mi" "mi \<le> 59" using m1 unfolding mi_def by linarith+
  show "0 \<le> sec" "sec \<le> 59" using m2 unfolding sec_def by linarith+
  have "ms < 1000" by (simp add: ms_def)
  then show "0 \<le> ms" "ms \<le> 999" by (simp_all add: ms_def)
  have e: "rem mod 3600000 mod 60000 = rem mod 60000" "rem mod 60000 mod 1000 = rem mod 1000"
    by (simp_all add: mod_mod_cancel)
  have "(millis div 86400000) * 86400000 + rem = millis" by (simp add: rem_def)
  moreover have "h * 3600000 + rem mod 3600000 = rem" by (simp add: h_def)
  moreover have "mi * 60000 + rem mod 60000 = rem mod 3600000"
    using div_mult_mod_eq [of "rem mod 3600000" 60000] by (simp add: mi_def e)
  moreover have "sec * 1000 + ms = rem mod 60000"
    using div_mult_mod_eq [of "rem mod 60000" 1000] by (simp add: sec_def ms_def e)
  ultimately show "millis = (millis div 86400000) * 86400000 + h * 3600000 + mi * 60000 + sec * 1000 + ms"
    by linarith
qed

lemma parse_seconds_plain: "n < 2 ^ 32 \<Longrightarrow> parse_seconds (pad 2 n) = Some (n, 0)"
  by (simp add: parse_seconds_def split_once_None pad_no_sep parse_u32_pad)

lemma parse_seconds_frac:
  "n < 2 ^ 32 \<Longrightarrow> f < 1000 \<Longrightarrow> parse_seconds (pad 2 n @ CHR ''.'' # pad 3 f) = Some (n, f)"
  by (simp add: parse_seconds_def split_once_append pad_no_sep pad_not_Nil length_pad pad_digits parse_u32_pad)

lemma parse_time:
  assumes "h \<le> 23" "mi \<le> 59" "sec \<le> 59" "parse_seconds sp = Some (sec, ms)" "CHR '':'' \<notin> set sp"
    and "parse_date_str ds = Some days" "CHR ''T'' \<notin> set ds"
  shows "parse_datetime_str (ds @ CHR ''T'' # pad 2 h @ CHR '':'' # pad 2 mi @ CHR '':'' # sp)
    = Some (days * 86400000 + int h * 3600000 + int mi * 60000 + int sec * 1000 + int ms)"
  using assms
  by (simp add: parse_datetime_str_def split_once_append split_on_append split_on_last pad_no_sep parse_u32_pad)

text \<open>
  A date-time that prints with a four-digit year parses back to itself, to the
  millisecond: \<open>parse_datetime_str\<close> inverts \<open>format_datetime\<close>, with and without the
  fraction, before and after the epoch.
\<close>

theorem parse_format_datetime:
  assumes "0 \<le> fst (civil_from_days (t div 86400000))" "fst (civil_from_days (t div 86400000)) \<le> 9999"
  shows "parse_datetime_str (format_datetime t) = Some t"
proof -
  define days where "days = t div 86400000"
  let ?rem = "t mod 86400000"
  define h mi sec ms where "h = nat (?rem div 3600000)" and "mi = nat (?rem mod 3600000 div 60000)"
    and "sec = nat (?rem mod 60000 div 1000)" and "ms = nat (?rem mod 1000)"
  obtain y m d where ymd: "civil_from_days days = (y, m, d)" by (cases "civil_from_days days")
  note b = civil_from_days_bounds [OF ymd] and parts = day_parts [where millis = t]
  have y: "0 \<le> y" "y \<le> 9999" using assms ymd by (simp_all add: days_def)
  have ints: "?rem div 3600000 = int h" "?rem mod 3600000 div 60000 = int mi"
    "?rem mod 60000 div 1000 = int sec" "?rem mod 1000 = int ms"
    unfolding h_def mi_def sec_def ms_def using parts(1,3,5,7) by (simp_all only: nat_0_le)
  have bounds: "h \<le> 23" "mi \<le> 59" "sec \<le> 59" "ms < 1000"
    using parts(2,4,6,8) unfolding ints by linarith+
  define sp where "sp = (if ms = 0 then pad 2 sec else pad 2 sec @ CHR ''.'' # pad 3 ms)"
  have fmt: "format_datetime t
      = format_date days @ CHR ''T'' # pad 2 h @ CHR '':'' # pad 2 mi @ CHR '':'' # sp"
    unfolding format_datetime_def Let_def ints
    by (simp add: format_date_def days_def [symmetric] ymd pad_int_def sp_def)
  have noT: "CHR ''T'' \<notin> set (format_date days)"
    using y b by (simp add: format_date_def ymd pad_int_def pad_no_sep)
  have sep: "CHR '':'' \<notin> set sp" by (simp add: sp_def pad_no_sep)
  have sp: "parse_seconds sp = Some (sec, ms)"
    using bounds by (simp add: sp_def parse_seconds_plain parse_seconds_frac)
  have "parse_date_str (format_date days) = Some days"
    using date_text_roundtrip assms by (simp add: days_def)
  from parse_time [OF bounds(1-3) sp sep this noT]
  have "parse_datetime_str (format_datetime t)
      = Some (days * 86400000 + int h * 3600000 + int mi * 60000 + int sec * 1000 + int ms)"
    unfolding fmt .
  also have "\<dots> = Some t" using parts(9) unfolding days_def ints by simp
  finally show ?thesis .
qed

lemma parse_format_datetime_witness: "parse_datetime_str (format_datetime 1709208000123) = Some 1709208000123"
proof -
  have "days_from_civil 2024 2 29 = 19782" by (simp add: days_from_civil_def tdiv_def)
  then have "civil_from_days 19782 = (2024, 2, 29)"
    using civil_roundtrip_days [of 2024 2 29] by (simp add: valid_civil_def days_in_month_def leap_year_def)
  then show ?thesis using parse_format_datetime [of 1709208000123] by simp
qed

end
