(* ===== verification/Float64.thy ===== *)
theory Float64
  imports Prelude
begin

text \<open>
  The \<open>f64\<close> of the language, as the 64 bits of its IEEE 754 representation: comparison
  (\<open>partial_cmp\<close>, \<open>==\<close>), conversion from \<open>i64\<close> (\<open>as f64\<close>, round to nearest, ties to
  even) and the four arithmetic operations, each one exact rational result rounded once.
  A bit pattern is a value, so \<open>-0.0\<close>, the infinities and the NaNs are all covered; an
  operation whose result is not a number returns one fixed quiet NaN.
\<close>

type_synonym f64 = "64 word"

section \<open>Reading the bits\<close>

definition f64_sign :: "f64 \<Rightarrow> bool" where
  "f64_sign w \<longleftrightarrow> 2 ^ 63 \<le> uint w"

definition f64_mag :: "f64 \<Rightarrow> int" where
  "f64_mag w = uint w mod 2 ^ 63"

definition f64_inf_mag :: int where
  "f64_inf_mag = 2047 * 2 ^ 52"

definition is_nan :: "f64 \<Rightarrow> bool" where
  "is_nan w \<longleftrightarrow> f64_inf_mag < f64_mag w"

definition is_inf :: "f64 \<Rightarrow> bool" where
  "is_inf w \<longleftrightarrow> f64_mag w = f64_inf_mag"

definition f64_mk :: "bool \<Rightarrow> int \<Rightarrow> f64" where
  "f64_mk s m = word_of_int ((if s then 2 ^ 63 else 0) + m)"

definition f64_nan :: f64 where
  "f64_nan = f64_mk False (4095 * 2 ^ 51)"

text \<open>
  The magnitude bits of floats are ordered like their values, so a signed reading of them
  is an order key; the two zeros share a key.
\<close>

definition f64_key :: "f64 \<Rightarrow> int" where
  "f64_key w = (if f64_sign w then - f64_mag w else f64_mag w)"

section \<open>Comparison\<close>

datatype ordering = Less | Equal | Greater

fun ord_cmp :: "'a::linorder \<Rightarrow> 'a \<Rightarrow> ordering" where
  "ord_cmp a b = (if a < b then Less else if a = b then Equal else Greater)"

definition f64_partial_cmp :: "f64 \<Rightarrow> f64 \<Rightarrow> ordering option" where
  "f64_partial_cmp a b =
     (if is_nan a \<or> is_nan b then None else Some (ord_cmp (f64_key a) (f64_key b)))"

definition f64_eq :: "f64 \<Rightarrow> f64 \<Rightarrow> bool" where
  "f64_eq a b \<longleftrightarrow> \<not> is_nan a \<and> \<not> is_nan b \<and> f64_key a = f64_key b"

section \<open>Rounding\<close>

function bit_length :: "int \<Rightarrow> int" where
  "bit_length n = (if n \<le> 0 then 0 else bit_length (n div 2) + 1)"
  by auto
termination by (relation "measure nat") auto

declare bit_length.simps [simp del]

definition scale2 :: "int \<Rightarrow> int \<Rightarrow> int" where
  "scale2 n e = (if 0 \<le> e then n * 2 ^ nat e else n)"

text \<open>
  \<open>round_mag n d\<close> is the magnitude of the float nearest to \<open>n / d\<close>: the quotient at the
  exponent that leaves 53 significant bits (or at the subnormal exponent), rounded to
  even on a tie; a carry out of the significand moves to the next exponent by itself.
\<close>

definition round_even :: "int \<Rightarrow> int \<Rightarrow> int" where
  "round_even n d =
     (if 2 * (n mod d) > d \<or> (2 * (n mod d) = d \<and> odd (n div d)) then n div d + 1 else n div d)"

definition round_exp :: "int \<Rightarrow> int \<Rightarrow> int" where
  "round_exp n d =
     (let k = bit_length n - bit_length d
      in max ((if scale2 d k \<le> scale2 n (- k) then k else k - 1) - 52) (- 1074))"

definition round_mag :: "int \<Rightarrow> int \<Rightarrow> int" where
  "round_mag n d =
     (if n = 0 then 0
      else min f64_inf_mag
        ((round_exp n d + 1074) * 2 ^ 52 + round_even (scale2 n (- round_exp n d)) (scale2 d (round_exp n d))))"

definition f64_round :: "bool \<Rightarrow> int \<Rightarrow> int \<Rightarrow> f64" where
  "f64_round s n d = f64_mk s (round_mag n d)"

definition f64_of_int :: "int \<Rightarrow> f64" where
  "f64_of_int i = f64_round (i < 0) \<bar>i\<bar> 1"

section \<open>Arithmetic\<close>

text \<open>A finite float is \<open>frac / 2 ^ 1074\<close> up to its sign.\<close>

definition f64_frac :: "f64 \<Rightarrow> int" where
  "f64_frac w =
     (let e = f64_mag w div 2 ^ 52; m = f64_mag w mod 2 ^ 52
      in if e = 0 then m else (2 ^ 52 + m) * 2 ^ nat (e - 1))"

definition f64_num :: "f64 \<Rightarrow> int" where
  "f64_num w = (if f64_sign w then - f64_frac w else f64_frac w)"

definition f64_neg :: "f64 \<Rightarrow> f64" where
  "f64_neg a = f64_mk (\<not> f64_sign a) (f64_mag a)"

definition f64_add :: "f64 \<Rightarrow> f64 \<Rightarrow> f64" where
  "f64_add a b =
     (if is_nan a \<or> is_nan b then f64_nan
      else if is_inf a \<and> is_inf b then (if f64_sign a = f64_sign b then a else f64_nan)
      else if is_inf a then a
      else if is_inf b then b
      else let s = f64_num a + f64_num b
           in if s = 0 then f64_mk (f64_sign a \<and> f64_sign b) 0
              else f64_round (s < 0) \<bar>s\<bar> (2 ^ 1074))"

definition f64_sub :: "f64 \<Rightarrow> f64 \<Rightarrow> f64" where
  "f64_sub a b = (if is_nan b then f64_nan else f64_add a (f64_neg b))"

definition f64_mul :: "f64 \<Rightarrow> f64 \<Rightarrow> f64" where
  "f64_mul a b =
     (let s = (f64_sign a \<noteq> f64_sign b)
      in if is_nan a \<or> is_nan b then f64_nan
         else if is_inf a \<or> is_inf b
           then (if f64_mag a = 0 \<or> f64_mag b = 0 then f64_nan else f64_mk s f64_inf_mag)
         else f64_round s (f64_frac a * f64_frac b) (2 ^ 2148))"

definition f64_div :: "f64 \<Rightarrow> f64 \<Rightarrow> f64" where
  "f64_div a b =
     (let s = (f64_sign a \<noteq> f64_sign b)
      in if is_nan a \<or> is_nan b then f64_nan
         else if is_inf a then (if is_inf b then f64_nan else f64_mk s f64_inf_mag)
         else if is_inf b then f64_mk s 0
         else if f64_mag b = 0 then (if f64_mag a = 0 then f64_nan else f64_mk s f64_inf_mag)
         else f64_round s (f64_frac a) (f64_frac b))"

section \<open>The order of floats\<close>

lemma f64_eq_cmp: "f64_eq a b \<longleftrightarrow> f64_partial_cmp a b = Some Equal"
  by (auto simp: f64_eq_def f64_partial_cmp_def)

lemma f64_partial_cmp_None: "f64_partial_cmp a b = None \<longleftrightarrow> is_nan a \<or> is_nan b"
  by (simp add: f64_partial_cmp_def)

lemma f64_cmp_flip: "f64_partial_cmp a b = Some Less \<longleftrightarrow> f64_partial_cmp b a = Some Greater"
  by (auto simp: f64_partial_cmp_def)

lemma f64_mk_mag:
  assumes "0 \<le> m" "m < 2 ^ 63"
  shows "f64_mag (f64_mk s m) = m"
proof -
  have "uint (word_of_int k :: f64) = k" if "0 \<le> k" "k < 2 ^ 64" for k
    using that by (simp add: uint_word_of_int)
  moreover have "0 \<le> (if s then 2 ^ 63 else 0) + m" "(if s then 2 ^ 63 else 0) + m < 2 ^ 64"
    using assms by simp_all
  ultimately have "uint (f64_mk s m) = (if s then 2 ^ 63 else 0) + m"
    unfolding f64_mk_def by blast
  then show ?thesis using assms by (simp add: f64_mag_def)
qed

lemma round_even_nonneg: "0 \<le> n \<Longrightarrow> 0 < d \<Longrightarrow> 0 \<le> round_even n d"
  by (simp add: round_even_def pos_imp_zdiv_nonneg_iff add_nonneg_nonneg)

lemma round_exp_ge: "0 \<le> (round_exp n d + 1074) * 2 ^ 52"
  unfolding round_exp_def Let_def by (intro mult_nonneg_nonneg) (linarith, simp)

lemma scale2_nonneg: "0 \<le> n \<Longrightarrow> 0 \<le> scale2 n e" and scale2_pos: "0 < n \<Longrightarrow> 0 < scale2 n e"
  by (simp_all add: scale2_def)

lemma round_mag_bounds:
  assumes "0 \<le> n" "0 < d"
  shows "0 \<le> round_mag n d \<and> round_mag n d \<le> f64_inf_mag"
proof -
  have "0 \<le> round_even (scale2 n (- round_exp n d)) (scale2 d (round_exp n d))"
    using assms by (intro round_even_nonneg scale2_nonneg scale2_pos)
  moreover have "0 \<le> f64_inf_mag" by (simp add: f64_inf_mag_def)
  ultimately show ?thesis using round_exp_ge [of n d] unfolding round_mag_def by simp
qed

lemma not_nan_round: "0 \<le> n \<Longrightarrow> 0 < d \<Longrightarrow> \<not> is_nan (f64_round s n d)"
  using round_mag_bounds [of n d]
  by (simp add: is_nan_def f64_round_def f64_mk_mag f64_inf_mag_def)

lemma not_nan_of_int [simp]: "\<not> is_nan (f64_of_int i)"
  by (simp add: f64_of_int_def not_nan_round)

end
