(* ===== verification/Values.thy ===== *)
theory Values
  imports Float64 Dates
begin

text \<open>
  The values of the database (\<open>src/model/value.rs\<close>): property and query values with
  their derived equality, the values of a pattern match, and the paths a match walks.
  Integers, ids, dates and date-times are words of their width; a record is the key-sorted
  list of its fields (a \<open>BTreeMap\<close>).
\<close>

section \<open>Values\<close>

datatype val =
    VNull
  | VInt i64
  | VFloat f64
  | VStr string
  | VBool bool
  | VList "val list"
  | VRecord "(string \<times> val) list"
  | VNode u32
  | VEdge u32
  | VPath "val list"
  | VDate i32
  | VLocalDatetime i64

definition is_null :: "val \<Rightarrow> bool" where
  "is_null v \<longleftrightarrow> v = VNull"

text \<open>The derived \<open>PartialEq\<close>: structural, with the floats' own equality.\<close>

fun val_eq :: "val \<Rightarrow> val \<Rightarrow> bool"
  and vals_eq :: "val list \<Rightarrow> val list \<Rightarrow> bool"
  and fields_eq :: "(string \<times> val) list \<Rightarrow> (string \<times> val) list \<Rightarrow> bool" where
  "val_eq VNull b = (b = VNull)"
| "val_eq (VInt i) b = (b = VInt i)"
| "val_eq (VFloat x) b = (case b of VFloat y \<Rightarrow> f64_eq x y | _ \<Rightarrow> False)"
| "val_eq (VStr s) b = (b = VStr s)"
| "val_eq (VBool c) b = (b = VBool c)"
| "val_eq (VList xs) b = (case b of VList ys \<Rightarrow> vals_eq xs ys | _ \<Rightarrow> False)"
| "val_eq (VRecord xs) b = (case b of VRecord ys \<Rightarrow> fields_eq xs ys | _ \<Rightarrow> False)"
| "val_eq (VNode i) b = (b = VNode i)"
| "val_eq (VEdge i) b = (b = VEdge i)"
| "val_eq (VPath xs) b = (case b of VPath ys \<Rightarrow> vals_eq xs ys | _ \<Rightarrow> False)"
| "val_eq (VDate d) b = (b = VDate d)"
| "val_eq (VLocalDatetime t) b = (b = VLocalDatetime t)"
| "vals_eq [] ys = (ys = [])"
| "vals_eq (x # xs) ys = (case ys of [] \<Rightarrow> False | y # ys \<Rightarrow> val_eq x y \<and> vals_eq xs ys)"
| "fields_eq [] ys = (ys = [])"
| "fields_eq ((k, x) # xs) ys =
     (case ys of [] \<Rightarrow> False | (l, y) # ys \<Rightarrow> k = l \<and> val_eq x y \<and> fields_eq xs ys)"

text \<open>A well-formed value: every record is an ordered map.\<close>

fun val_wf :: "val \<Rightarrow> bool" where
  "val_wf (VList xs) = list_all val_wf xs"
| "val_wf (VRecord fs) = (bm_wf fs \<and> list_all (\<lambda>(k, v). val_wf v) fs)"
| "val_wf (VPath xs) = list_all val_wf xs"
| "val_wf _ = True"

section \<open>Path values and paths\<close>

datatype pvalue =
    PNode u32
  | PEdgeDirectional u32
  | PEdgeUndirectional u32
  | PNothing
  | PGroup "pvalue list"
  | PPath "pvalue list"

definition pv_id :: "pvalue \<Rightarrow> u32 option" where
  "pv_id p =
     (case p of PNode i \<Rightarrow> Some i | PEdgeDirectional i \<Rightarrow> Some i | PEdgeUndirectional i \<Rightarrow> Some i
      | PNothing \<Rightarrow> None | PGroup _ \<Rightarrow> None | PPath _ \<Rightarrow> None)"

definition is_node :: "pvalue \<Rightarrow> bool" where
  "is_node p = (case p of PNode _ \<Rightarrow> True | _ \<Rightarrow> False)"

definition is_edge :: "pvalue \<Rightarrow> bool" where
  "is_edge p = (case p of PEdgeDirectional _ \<Rightarrow> True | PEdgeUndirectional _ \<Rightarrow> True | _ \<Rightarrow> False)"

type_synonym path = "pvalue list"

definition first_node_id :: "path \<Rightarrow> u32 option" where
  "first_node_id p = (case p of [] \<Rightarrow> None | x # _ \<Rightarrow> (case x of PNode i \<Rightarrow> Some i | _ \<Rightarrow> None))"

definition last_node_id :: "path \<Rightarrow> u32 option" where
  "last_node_id p = (if p = [] then None else (case last p of PNode i \<Rightarrow> Some i | _ \<Rightarrow> None))"

definition can_concat :: "path \<Rightarrow> path \<Rightarrow> bool" where
  "can_concat p q \<longleftrightarrow> p \<noteq> [] \<and> q \<noteq> [] \<and> last p = hd q"

text \<open>\<open>&other.0[1..]\<close> panics on an empty \<open>other\<close>.\<close>

definition path_concat :: "path \<Rightarrow> path \<Rightarrow> path option" where
  "path_concat p q = (if q = [] then None else Some (p @ tl q))"

definition path_cross :: "path \<Rightarrow> path \<Rightarrow> path" where
  "path_cross p q = p @ q"

text \<open>The shape of a matched path: node, edge, node, and so on, ending in a node.\<close>

fun path_wf :: "path \<Rightarrow> bool" where
  "path_wf [] = False"
| "path_wf [n] = is_node n"
| "path_wf (n # e # p) = (is_node n \<and> is_edge e \<and> path_wf p)"

lemma path_wf_append_tl:
  "path_wf p \<Longrightarrow> path_wf q \<Longrightarrow> last p = hd q \<Longrightarrow> path_wf (p @ tl q)"
proof (induction p rule: path_wf.induct)
  case (2 n)
  then show ?case by (cases q) auto
next
  case (3 n e p)
  then have "p \<noteq> []" by auto
  with 3 show ?case by simp
qed simp

lemma path_wf_last: "path_wf p \<Longrightarrow> is_node (last p)"
  by (induction p rule: path_wf.induct) (auto split: if_splits)

lemma path_wf_hd: "path_wf p \<Longrightarrow> is_node (hd p)"
  by (cases p rule: path_wf.cases) auto

lemma path_wf_odd: "path_wf p \<Longrightarrow> odd (length p)"
  by (induction p rule: path_wf.induct) auto

text \<open>
  Concatenating two matched paths that meet gives a matched path: it starts where the
  first starts, ends where the second ends, its edges are those of both, and on such paths
  concatenation does not panic.
\<close>

theorem path_concat_wf:
  assumes "path_wf p" "path_wf q" "can_concat p q"
  shows "\<exists>r. path_concat p q = Some r \<and> path_wf r \<and> first_node_id r = first_node_id p
    \<and> last_node_id r = last_node_id q \<and> filter is_edge r = filter is_edge p @ filter is_edge q"
proof (intro exI conjI)
  have q: "q \<noteq> []" and p: "p \<noteq> []" and m: "last p = hd q" using assms(3) by (auto simp: can_concat_def)
  show "path_concat p q = Some (p @ tl q)" using q by (simp add: path_concat_def)
  show "path_wf (p @ tl q)" using assms m by (simp add: path_wf_append_tl)
  show "first_node_id (p @ tl q) = first_node_id p"
    using p by (cases p) (simp_all add: first_node_id_def)
  have "last (p @ tl q) = last q" using m q by (cases q) (auto simp: last_append)
  then show "last_node_id (p @ tl q) = last_node_id q" using p q by (simp add: last_node_id_def)
  have "is_node (hd q)" using assms(2) by (rule path_wf_hd)
  then have "\<not> is_edge (hd q)" by (simp add: is_node_def is_edge_def split: pvalue.splits)
  then show "filter is_edge (p @ tl q) = filter is_edge p @ filter is_edge q"
    using q by (cases q) auto
qed

lemma path_concat_wf_witness:
  "\<exists>r. path_concat [PNode 1, PEdgeDirectional 7, PNode 2] [PNode 2, PEdgeUndirectional 8, PNode 3] = Some r
    \<and> path_wf r"
  using path_concat_wf [of "[PNode 1, PEdgeDirectional 7, PNode 2]" "[PNode 2, PEdgeUndirectional 8, PNode 3]"]
  by (auto simp: can_concat_def is_node_def is_edge_def)

lemma path_concat_assoc:
  "path_concat p q = Some pq \<Longrightarrow> path_concat q r = Some qr \<Longrightarrow> q \<noteq> [] \<Longrightarrow>
   path_concat pq r = path_concat p qr"
  by (auto simp: path_concat_def split: if_splits)

section \<open>Equality\<close>

lemma val_eq_base [simp]:
  "val_eq b VNull \<longleftrightarrow> b = VNull" "val_eq b (VInt i) \<longleftrightarrow> b = VInt i" "val_eq b (VStr s) \<longleftrightarrow> b = VStr s"
  "val_eq b (VBool c) \<longleftrightarrow> b = VBool c" "val_eq b (VNode n) \<longleftrightarrow> b = VNode n"
  "val_eq b (VEdge n) \<longleftrightarrow> b = VEdge n" "val_eq b (VDate d) \<longleftrightarrow> b = VDate d"
  "val_eq b (VLocalDatetime t) \<longleftrightarrow> b = VLocalDatetime t"
  by (cases b; auto)+

lemma vals_eq_Nil [simp]: "vals_eq xs [] \<longleftrightarrow> xs = []" "fields_eq fs [] \<longleftrightarrow> fs = []"
  by (cases xs; simp) (cases fs; auto)

lemma val_eq_sym:
  "val_eq a b = val_eq b a" "vals_eq xs ys = vals_eq ys xs" "fields_eq fs gs = fields_eq gs fs"
  by (induction a b and xs ys and fs gs rule: val_eq_vals_eq_fields_eq.induct)
    (auto simp: f64_eq_def split: val.splits list.splits)

end
