(* ===== verification/Verdicts.thy ===== *)
theory Verdicts
  imports Values
begin

text \<open>
  Comparison under three-valued logic: the verdicts of \<open>src/runtime/mod.rs\<close> (\<open>eq_verdict\<close>,
  \<open>eq_3vl\<close>, \<open>eq_fold\<close>, and \<open>cmp_values\<close>, the keep/drop comparison of pushed-down
  predicates), the operators (\<open>BinOp\<close>, \<open>src/syntax/expr.rs\<close>) and \<open>eval_binop\<close>, the
  interpreter's own evaluation of them (\<open>src/runtime/engine.rs\<close>). \<open>None\<close> of
  \<open>eval_binop\<close> is its panic (an overflowing \<open>i64\<close> division). Integer addition,
  subtraction and multiplication wrap, as in the release build.
\<close>

section \<open>Operators and results\<close>

datatype binop =
  Add | Sub | Mul | Div | Mod | Lt | Gt | Le | Ge | Eq | Ne | And | Or | Is | As | In

datatype verdict = Definite bool | Unknown | Mismatch

datatype eval_error =
    NeedsNumeric binop
  | DivisionByZero
  | ModByZero
  | ModOutOfRange
  | ModNeedsInts
  | NotOrdered binop
  | NotComparable binop val val
  | InNotComparable val val
  | InNeedsList
  | NeedsBools binop
  | UnexpectedOp binop

datatype 'e expr_result = Success val | Failure 'e

definition get_bool :: "'e expr_result \<Rightarrow> bool" where
  "get_bool r = (case r of Success (VBool b) \<Rightarrow> b | _ \<Rightarrow> False)"

section \<open>Operators as text\<close>

definition binop_of_str :: "string \<Rightarrow> binop option" where
  "binop_of_str s =
     (if s = ''+'' then Some Add
      else if s = ''-'' then Some Sub
      else if s = ''*'' then Some Mul
      else if s = ''/'' then Some Div
      else if s = ''MOD'' \<or> s = ''mod'' then Some Mod
      else if s = ''<'' then Some Lt
      else if s = ''>'' then Some Gt
      else if s = ''<='' then Some Le
      else if s = ''>='' then Some Ge
      else if s = ''='' then Some Eq
      else if s = ''!='' then Some Ne
      else if s = ''and'' then Some And
      else if s = ''or'' then Some Or
      else if s = ''TYPED'' \<or> s = ''typed'' then Some Is
      else if s = ''as'' then Some As
      else if s = ''in'' then Some In
      else None)"

definition binop_display :: "binop \<Rightarrow> string" where
  "binop_display op =
     (case op of
        Add \<Rightarrow> ''+''
      | Sub \<Rightarrow> ''-''
      | Mul \<Rightarrow> ''*''
      | Div \<Rightarrow> ''/''
      | Mod \<Rightarrow> ''MOD''
      | Lt \<Rightarrow> ''<''
      | Gt \<Rightarrow> ''>''
      | Le \<Rightarrow> ''<=''
      | Ge \<Rightarrow> ''>=''
      | Eq \<Rightarrow> ''=''
      | Ne \<Rightarrow> ''!=''
      | And \<Rightarrow> ''and''
      | Or \<Rightarrow> ''or''
      | Is \<Rightarrow> ''TYPED''
      | As \<Rightarrow> ''as''
      | In \<Rightarrow> ''in'')"

lemma binop_of_display [simp]: "binop_of_str (binop_display op) = Some op"
  by (cases op) (simp_all add: binop_of_str_def binop_display_def)

section \<open>Equality verdicts\<close>

fun discriminant :: "val \<Rightarrow> nat" where
  "discriminant VNull = 0"
| "discriminant (VInt _) = 1"
| "discriminant (VFloat _) = 2"
| "discriminant (VStr _) = 3"
| "discriminant (VBool _) = 4"
| "discriminant (VList _) = 5"
| "discriminant (VRecord _) = 6"
| "discriminant (VNode _) = 7"
| "discriminant (VEdge _) = 8"
| "discriminant (VPath _) = 9"
| "discriminant (VDate _) = 10"
| "discriminant (VLocalDatetime _) = 11"

definition same_kind :: "val \<Rightarrow> val \<Rightarrow> bool" where
  "same_kind a b \<longleftrightarrow> discriminant a = discriminant b"

text \<open>The nested reading of a verdict: a mismatch is a definite no.\<close>

definition nested_3vl :: "verdict \<Rightarrow> bool option" where
  "nested_3vl v = (case v of Definite b \<Rightarrow> Some b | Unknown \<Rightarrow> None | Mismatch \<Rightarrow> Some False)"

lemma size_map_snd: "size_list (size \<circ> snd) fs \<le> size_list (size_prod (\<lambda>_. 0) size) (fs :: ('a \<times> 'b::size) list)"
  by (induction fs) (auto split: prod.splits)

function eq_verdict :: "val \<Rightarrow> val \<Rightarrow> verdict"
  and eq_fold :: "bool \<Rightarrow> val list \<Rightarrow> val list \<Rightarrow> verdict" where
  "eq_verdict lhs rhs =
     (if is_null lhs \<or> is_null rhs then Unknown
      else case (lhs, rhs) of
        (VList x, VList y) \<Rightarrow> if length x \<noteq> length y then Definite False else eq_fold False x y
      | (VPath x, VPath y) \<Rightarrow> if length x \<noteq> length y then Definite False else eq_fold False x y
      | (VRecord x, VRecord y) \<Rightarrow>
          if length x \<noteq> length y \<or> map fst x \<noteq> map fst y then Definite False
          else eq_fold False (map snd x) (map snd y)
      | (VInt a, VFloat b) \<Rightarrow> Definite (f64_eq (f64_of_int (sint a)) b)
      | (VFloat a, VInt b) \<Rightarrow> Definite (f64_eq a (f64_of_int (sint b)))
      | (VNode _, VEdge _) \<Rightarrow> Definite False
      | (VEdge _, VNode _) \<Rightarrow> Definite False
      | _ \<Rightarrow> if same_kind lhs rhs then Definite (val_eq lhs rhs) else Mismatch)"
| "eq_fold unknown (a # xs) (b # ys) =
     (case nested_3vl (eq_verdict a b) of
        Some False \<Rightarrow> Definite False
      | Some True \<Rightarrow> eq_fold unknown xs ys
      | None \<Rightarrow> eq_fold True xs ys)"
| "eq_fold unknown [] ys = (if unknown then Unknown else Definite True)"
| "eq_fold unknown (a # xs) [] = (if unknown then Unknown else Definite True)"
  by pat_completeness auto
termination
  by (relation "measure (\<lambda>x. case x of Inl (a, b) \<Rightarrow> 2 * size a + 1 | Inr (u, xs, ys) \<Rightarrow> 2 * size_list size xs + 1)")
    (auto intro!: le_less_trans [OF size_map_snd] less_Suc_eq_le [THEN iffD2])

declare eq_verdict.simps [simp del]

definition eq_3vl :: "val \<Rightarrow> val \<Rightarrow> bool option" where
  "eq_3vl lhs rhs = nested_3vl (eq_verdict lhs rhs)"

section \<open>The pushed-down comparison\<close>

definition ord_op :: "binop \<Rightarrow> ordering \<Rightarrow> bool" where
  "ord_op op ord =
     (case op of
        Eq \<Rightarrow> ord = Equal
      | Ne \<Rightarrow> ord \<noteq> Equal
      | Lt \<Rightarrow> ord = Less
      | Le \<Rightarrow> ord \<noteq> Greater
      | Gt \<Rightarrow> ord = Greater
      | Ge \<Rightarrow> ord \<noteq> Less
      | _ \<Rightarrow> False)"

definition temporal_op :: "binop \<Rightarrow> int \<Rightarrow> int \<Rightarrow> bool" where
  "temporal_op op x y =
     (case op of
        Eq \<Rightarrow> x = y
      | Ne \<Rightarrow> x \<noteq> y
      | Lt \<Rightarrow> x < y
      | Le \<Rightarrow> x \<le> y
      | Gt \<Rightarrow> x > y
      | Ge \<Rightarrow> x \<ge> y
      | _ \<Rightarrow> False)"

definition or_equal :: "ordering option \<Rightarrow> ordering" where
  "or_equal o1 = (case o1 of Some x \<Rightarrow> x | None \<Rightarrow> Equal)"

definition scalar_cmp :: "val \<Rightarrow> val \<Rightarrow> ordering option" where
  "scalar_cmp lhs rhs =
     (case (lhs, rhs) of
        (VInt a, VInt b) \<Rightarrow> Some (ord_cmp (sint a) (sint b))
      | (VFloat a, VFloat b) \<Rightarrow> Some (or_equal (f64_partial_cmp a b))
      | (VInt a, VFloat b) \<Rightarrow> Some (or_equal (f64_partial_cmp (f64_of_int (sint a)) b))
      | (VFloat a, VInt b) \<Rightarrow> Some (or_equal (f64_partial_cmp a (f64_of_int (sint b))))
      | (VStr a, VStr b) \<Rightarrow> Some (ord_cmp a b)
      | (VBool a, VBool b) \<Rightarrow> Some (ord_cmp a b)
      | _ \<Rightarrow> None)"

definition eq_ne_3vl :: "binop \<Rightarrow> bool option \<Rightarrow> bool" where
  "eq_ne_3vl op v = (case (op, v) of (Eq, Some b) \<Rightarrow> b | (Ne, Some b) \<Rightarrow> \<not> b | _ \<Rightarrow> False)"

definition eq_ne_id :: "binop \<Rightarrow> val \<Rightarrow> val \<Rightarrow> bool" where
  "eq_ne_id op lhs rhs = (case op of Eq \<Rightarrow> val_eq lhs rhs | Ne \<Rightarrow> \<not> val_eq lhs rhs | _ \<Rightarrow> False)"

definition cmp_values :: "val \<Rightarrow> binop \<Rightarrow> val \<Rightarrow> bool" where
  "cmp_values lhs op rhs =
     (if is_null lhs \<or> is_null rhs then False
      else case (lhs, rhs) of
        (VDate x, VDate y) \<Rightarrow> temporal_op op (sint x) (sint y)
      | (VLocalDatetime x, VLocalDatetime y) \<Rightarrow> temporal_op op (sint x) (sint y)
      | (VRecord _, VRecord _) \<Rightarrow> eq_ne_3vl op (eq_3vl lhs rhs)
      | (VList _, VList _) \<Rightarrow> eq_ne_3vl op (eq_3vl lhs rhs)
      | (VNode _, VNode _) \<Rightarrow> eq_ne_id op lhs rhs
      | (VEdge _, VEdge _) \<Rightarrow> eq_ne_id op lhs rhs
      | (VNode _, VEdge _) \<Rightarrow> eq_ne_id op lhs rhs
      | (VEdge _, VNode _) \<Rightarrow> eq_ne_id op lhs rhs
      | _ \<Rightarrow> (case scalar_cmp lhs rhs of Some ord \<Rightarrow> ord_op op ord | None \<Rightarrow> False))"

section \<open>The interpreter's operators\<close>

definition is_num :: "val \<Rightarrow> bool" where
  "is_num v = (case v of VInt _ \<Rightarrow> True | VFloat _ \<Rightarrow> True | _ \<Rightarrow> False)"

definition orderable_pair :: "val \<Rightarrow> val \<Rightarrow> bool" where
  "orderable_pair lv rv =
     (is_num lv \<and> is_num rv \<or>
      (case (lv, rv) of
         (VStr _, VStr _) \<Rightarrow> True
       | (VBool _, VBool _) \<Rightarrow> True
       | (VDate _, VDate _) \<Rightarrow> True
       | (VLocalDatetime _, VLocalDatetime _) \<Rightarrow> True
       | _ \<Rightarrow> False))"

definition as_num_pair :: "val \<Rightarrow> val \<Rightarrow> (val \<times> val) option" where
  "as_num_pair lv rv =
     (case (lv, rv) of
        (VInt _, VInt _) \<Rightarrow> Some (lv, rv)
      | (VFloat _, VFloat _) \<Rightarrow> Some (lv, rv)
      | (VInt a, VFloat _) \<Rightarrow> Some (VFloat (f64_of_int (sint a)), rv)
      | (VFloat _, VInt b) \<Rightarrow> Some (lv, VFloat (f64_of_int (sint b)))
      | _ \<Rightarrow> None)"

text \<open>\<open>i64\<close> arithmetic: saturating addition, and truncating division with its remainder.\<close>

definition i64_min :: int where "i64_min = - (2 ^ 63)"
definition i64_max :: int where "i64_max = 2 ^ 63 - 1"

definition i64_sat :: "int \<Rightarrow> i64" where
  "i64_sat i = word_of_int (max i64_min (min i64_max i))"

definition tmod :: "int \<Rightarrow> int \<Rightarrow> int" where
  "tmod a b = a - tdiv a b * b"

definition i64_overflows :: "i64 \<Rightarrow> i64 \<Rightarrow> bool" where
  "i64_overflows a b \<longleftrightarrow> sint a = i64_min \<and> sint b = - 1"

definition num_op ::
    "binop \<Rightarrow> (i64 \<Rightarrow> i64 \<Rightarrow> i64) \<Rightarrow> (f64 \<Rightarrow> f64 \<Rightarrow> f64) \<Rightarrow> val \<Rightarrow> val \<Rightarrow> eval_error expr_result" where
  "num_op op iop fop lv rv =
     (case as_num_pair lv rv of
        Some (VInt a, VInt b) \<Rightarrow> Success (VInt (iop a b))
      | Some (VFloat a, VFloat b) \<Rightarrow> Success (VFloat (fop a b))
      | _ \<Rightarrow> Failure (NeedsNumeric op))"

definition div_op :: "val \<Rightarrow> val \<Rightarrow> eval_error expr_result option" where
  "div_op lv rv =
     (case as_num_pair lv rv of
        Some (VInt a, VInt b) \<Rightarrow>
          if b = 0 then Some (Failure DivisionByZero)
          else if i64_overflows a b then None
          else Some (Success (VInt (word_of_int (tdiv (sint a) (sint b)))))
      | Some (VFloat a, VFloat b) \<Rightarrow> Some (Success (VFloat (f64_div a b)))
      | _ \<Rightarrow> Some (Failure (NeedsNumeric Div)))"

definition mod_op :: "val \<Rightarrow> val \<Rightarrow> eval_error expr_result" where
  "mod_op lv rv =
     (case (lv, rv) of
        (VInt a, VInt b) \<Rightarrow>
          if b = 0 then Failure ModByZero
          else if i64_overflows a b then Failure ModOutOfRange
          else Success (VInt (word_of_int (tmod (sint a) (sint b))))
      | _ \<Rightarrow> Failure ModNeedsInts)"

text \<open>The scan of \<open>IN\<close>: a definite hit ends it; a mismatch keeps the last offender.\<close>

fun in_scan :: "val \<Rightarrow> bool \<Rightarrow> val option \<Rightarrow> val list \<Rightarrow> eval_error expr_result" where
  "in_scan lv unknown mismatch [] =
     (case mismatch of
        Some item \<Rightarrow> Failure (InNotComparable lv item)
      | None \<Rightarrow> if unknown then Success VNull else Success (VBool False))"
| "in_scan lv unknown mismatch (item # items) =
     (case eq_verdict lv item of
        Definite True \<Rightarrow> Success (VBool True)
      | Definite False \<Rightarrow> in_scan lv unknown mismatch items
      | Unknown \<Rightarrow> in_scan lv True mismatch items
      | Mismatch \<Rightarrow> in_scan lv unknown (Some item) items)"

definition in_op :: "val \<Rightarrow> val \<Rightarrow> eval_error expr_result" where
  "in_op lv rv =
     (case rv of
        VList items \<Rightarrow> in_scan lv False None items
      | VNull \<Rightarrow> Success VNull
      | _ \<Rightarrow> Failure InNeedsList)"

definition bool_or_null :: "bool \<Rightarrow> val \<Rightarrow> bool" where
  "bool_or_null b v \<longleftrightarrow> v = VBool b \<or> v = VNull"

definition and_op :: "val \<Rightarrow> val \<Rightarrow> eval_error expr_result" where
  "and_op lv rv =
     (if lv = VBool False \<or> rv = VBool False then Success (VBool False)
      else if lv = VBool True \<and> rv = VBool True then Success (VBool True)
      else if bool_or_null True lv \<and> bool_or_null True rv then Success VNull
      else Failure (NeedsBools And))"

definition or_op :: "val \<Rightarrow> val \<Rightarrow> eval_error expr_result" where
  "or_op lv rv =
     (if lv = VBool True \<or> rv = VBool True then Success (VBool True)
      else if lv = VBool False \<and> rv = VBool False then Success (VBool False)
      else if bool_or_null False lv \<and> bool_or_null False rv then Success VNull
      else Failure (NeedsBools Or))"

definition null_propagates :: "binop \<Rightarrow> bool" where
  "null_propagates op \<longleftrightarrow> op \<in> {Add, Sub, Mul, Div, Mod, Gt, Lt, Ge, Le, Eq, Ne}"

definition eval_binop :: "binop \<Rightarrow> val \<Rightarrow> val \<Rightarrow> eval_error expr_result option" where
  "eval_binop op lv rv =
     (if null_propagates op \<and> (is_null lv \<or> is_null rv) then Some (Success VNull)
      else case op of
        Add \<Rightarrow> (case (lv, rv) of
            (VLocalDatetime ms, VInt n) \<Rightarrow> Some (Success (VLocalDatetime (i64_sat (sint ms + sint n))))
          | (VInt n, VLocalDatetime ms) \<Rightarrow> Some (Success (VLocalDatetime (i64_sat (sint ms + sint n))))
          | _ \<Rightarrow> Some (num_op Add (+) f64_add lv rv))
      | Sub \<Rightarrow> (case (lv, rv) of
            (VLocalDatetime ms, VInt n) \<Rightarrow> Some (Success (VLocalDatetime (i64_sat (sint ms - sint n))))
          | _ \<Rightarrow> Some (num_op Sub (-) f64_sub lv rv))
      | Mul \<Rightarrow> Some (num_op Mul (*) f64_mul lv rv)
      | Div \<Rightarrow> div_op lv rv
      | Mod \<Rightarrow> Some (mod_op lv rv)
      | In \<Rightarrow> Some (in_op lv rv)
      | And \<Rightarrow> Some (and_op lv rv)
      | Or \<Rightarrow> Some (or_op lv rv)
      | Is \<Rightarrow> Some (Failure (UnexpectedOp Is))
      | As \<Rightarrow> Some (Failure (UnexpectedOp As))
      | _ \<Rightarrow>
          if op = Eq \<or> op = Ne then
            Some (case eq_verdict lv rv of
                Definite b \<Rightarrow> Success (VBool (if op = Ne then \<not> b else b))
              | Unknown \<Rightarrow> Success VNull
              | Mismatch \<Rightarrow> Failure (NotComparable op lv rv))
          else if \<not> orderable_pair lv rv then Some (Failure (NotOrdered op))
          else Some (Success (VBool (cmp_values lv op rv))))"

section \<open>Equality is symmetric\<close>

lemma same_kind_sym: "same_kind a b = same_kind b a"
  by (auto simp: same_kind_def)

lemma f64_eq_sym: "f64_eq a b = f64_eq b a"
  by (auto simp: f64_eq_def)

text \<open>The fold is the Kleene conjunction of the element verdicts.\<close>

lemma eq_fold_kleene:
  "eq_fold u xs ys =
     (let vs = map2 eq_3vl xs ys
      in if Some False \<in> set vs then Definite False
         else if u \<or> None \<in> set vs then Unknown
         else Definite True)"
proof (induction xs arbitrary: u ys)
  case (Cons a xs)
  show ?case
  proof (cases ys)
    case (Cons b ys')
    then show ?thesis
      using Cons.IH [of _ ys'] by (cases "nested_3vl (eq_verdict a b)") (auto simp: eq_3vl_def Let_def split: bool.splits)
  qed simp
qed simp

lemma eq_verdict_sym_aux:
  "size a < n \<Longrightarrow> eq_verdict a b = eq_verdict b a"
proof (induction n arbitrary: a b)
  case (Suc n)
  have fold: "eq_fold u xs ys = eq_fold u ys xs"
    if "length xs = length ys" "\<And>x. x \<in> set xs \<Longrightarrow> size x < n" for u xs ys
  proof -
    have "map2 eq_3vl xs ys = map2 eq_3vl ys xs"
      using Suc.IH that by (auto simp: list_eq_iff_nth_eq eq_3vl_def)
    then show ?thesis by (simp add: eq_fold_kleene)
  qed
  have elems: "size x < n" if "size_list size xs < n" "x \<in> set xs" for x :: val and xs
    using that size_list_estimation' [of x xs "size x" size] by simp
  have fields: "size x < n" if "size_list (size_prod (\<lambda>_. 0) size) fs < n" "x \<in> set (map snd fs)"
    for x :: val and fs :: "(string \<times> val) list"
    using elems [of "map snd fs" x] that size_map_snd [of fs] by simp
  show ?case
  proof (cases "(\<exists>x. a = VList x) \<or> (\<exists>x. a = VPath x)")
    case True
    then show ?thesis using Suc.prems
      by (subst (1 2) eq_verdict.simps; cases b)
        (auto simp: is_null_def val_eq_sym same_kind_sym intro!: fold elems)
  next
    case False
    then show ?thesis using Suc.prems
      by (subst (1 2) eq_verdict.simps; cases a; cases b)
        (auto simp: is_null_def val_eq_sym same_kind_sym f64_eq_sym intro!: fold fields)
  qed
qed simp

text \<open>
  Equality of values is symmetric in all three outcomes: swapping the operands of
  \<open>eq_verdict\<close> changes neither a definite answer, nor an unknown, nor a mismatch, at any
  nesting of lists, records and paths and across the int/float split.
\<close>

theorem eq_verdict_sym: "eq_verdict a b = eq_verdict b a"
  by (rule eq_verdict_sym_aux [of _ "Suc (size a)"]) simp

section \<open>Pushed-down and residual comparison\<close>

text \<open>
  A predicate \<open>attr op literal\<close> is decided by \<open>cmp_values\<close> when it is pushed into a scan and
  by \<open>get_bool\<close> of \<open>eval_binop\<close> when it stays residual.
\<close>

definition is_comparison :: "binop \<Rightarrow> bool" where
  "is_comparison op \<longleftrightarrow> op \<in> {Eq, Ne, Lt, Le, Gt, Ge}"

definition nan_value :: "val \<Rightarrow> bool" where
  "nan_value v = (case v of VFloat x \<Rightarrow> is_nan x | _ \<Rightarrow> False)"

definition path_value :: "val \<Rightarrow> bool" where
  "path_value v = (case v of VPath _ \<Rightarrow> True | _ \<Rightarrow> False)"

lemma eq_fold_not_Mismatch [simp]: "eq_fold u xs ys \<noteq> Mismatch"
  by (simp add: eq_fold_kleene Let_def)

lemma sint_eqD: "sint a = sint b \<Longrightarrow> a = b"
  by (metis of_int_sint scast_id)

lemma eq_verdict_scalar:
  assumes "scalar_cmp l r = Some ord" "\<not> nan_value l" "\<not> nan_value r"
  shows "eq_verdict l r = Definite (ord = Equal) \<and> orderable_pair l r \<and> \<not> is_null l \<and> \<not> is_null r"
  using assms
  by (subst eq_verdict.simps; cases l; cases r)
    (auto simp: scalar_cmp_def is_null_def same_kind_def nan_value_def f64_eq_def f64_partial_cmp_def
      or_equal_def orderable_pair_def is_num_def dest: sint_eqD split: if_splits)

lemma scalar_cmp_None:
  assumes "scalar_cmp l r = None" "orderable_pair l r"
  shows "(\<exists>x y. l = VDate x \<and> r = VDate y) \<or> (\<exists>x y. l = VLocalDatetime x \<and> r = VLocalDatetime y)"
  using assms by (cases l; cases r) (auto simp: scalar_cmp_def orderable_pair_def is_num_def)

lemma eval_binop_eq:
  assumes "op = Eq \<or> op = Ne" "\<not> is_null l" "\<not> is_null r"
  shows "eval_binop op l r = Some (case eq_verdict l r of
      Definite b \<Rightarrow> Success (VBool (if op = Ne then \<not> b else b))
    | Unknown \<Rightarrow> Success VNull
    | Mismatch \<Rightarrow> Failure (NotComparable op l r))"
  using assms by (auto simp: eval_binop_def)

lemma eval_binop_order:
  assumes "is_comparison op" "op \<noteq> Eq" "op \<noteq> Ne" "\<not> is_null l" "\<not> is_null r"
  shows "eval_binop op l r
    = Some (if orderable_pair l r then Success (VBool (cmp_values l op r)) else Failure (NotOrdered op))"
  using assms by (auto simp: eval_binop_def is_comparison_def)

lemma cmp_values_unordered:
  "\<not> orderable_pair l r \<Longrightarrow> op \<noteq> Eq \<Longrightarrow> op \<noteq> Ne \<Longrightarrow> \<not> cmp_values l op r"
  by (cases l; cases r)
    (auto simp: cmp_values_def orderable_pair_def is_num_def scalar_cmp_def eq_ne_3vl_def eq_ne_id_def
      split: binop.splits)

lemma cmp_values_eq:
  assumes "op = Eq \<or> op = Ne" "\<not> nan_value l" "\<not> nan_value r" "\<not> (path_value l \<and> path_value r)"
    and nn: "\<not> is_null l" "\<not> is_null r"
  shows "cmp_values l op r \<longleftrightarrow> (case eq_verdict l r of Definite b \<Rightarrow> (if op = Ne then \<not> b else b) | _ \<Rightarrow> False)"
proof (cases "scalar_cmp l r")
  case (Some ord)
  with assms have "cmp_values l op r = ord_op op ord"
    by (cases l; cases r) (auto simp: cmp_values_def scalar_cmp_def)
  moreover have "eq_verdict l r = Definite (ord = Equal)" using eq_verdict_scalar [OF Some] assms by simp
  ultimately show ?thesis using assms(1) by (auto simp: ord_op_def)
next
  case None
  then show ?thesis using assms
    by (subst eq_verdict.simps; cases l; cases r)
      (auto simp: cmp_values_def scalar_cmp_def is_null_def path_value_def same_kind_def eq_ne_id_def
        eq_ne_3vl_def eq_3vl_def nested_3vl_def temporal_op_def eq_verdict.simps [of "VList _"]
        eq_verdict.simps [of "VRecord _"] dest: sint_eqD split: verdict.splits)
qed

text \<open>
  C20: Pushing a comparison into the scan does not change which rows survive: for every
  comparison operator and every pair of values, neither of them a top-level NaN nor both
  paths, the keep/drop answer of \<open>cmp_values\<close> is the one the interpreter's \<open>eval_binop\<close>
  gives, nulls, mismatched kinds, nulls nested in lists and records included; and the
  interpreter does not panic.
\<close>

theorem cmp_values_agrees:
  assumes "is_comparison op" "\<not> nan_value l" "\<not> nan_value r" "\<not> (path_value l \<and> path_value r)"
  shows "\<exists>res. eval_binop op l r = Some res \<and> cmp_values l op r = get_bool res"
proof (cases "is_null l \<or> is_null r")
  case True
  then show ?thesis using assms(1)
    by (auto simp: eval_binop_def is_comparison_def null_propagates_def cmp_values_def get_bool_def)
next
  case False
  show ?thesis
  proof (cases "op = Eq \<or> op = Ne")
    case True
    then show ?thesis using False assms cmp_values_eq [of op l r] eval_binop_eq [of op l r]
      by (cases "eq_verdict l r") (auto simp: get_bool_def)
  next
    case op: False
    then show ?thesis using False assms eval_binop_order [of op l r] cmp_values_unordered [of l r op]
      by (auto simp: get_bool_def)
  qed
qed

lemma cmp_values_agrees_witness:
  "\<exists>res. eval_binop Ne (VList [VInt 1, VNull]) (VList [VInt 2, VNull]) = Some res
    \<and> cmp_values (VList [VInt 1, VNull]) Ne (VList [VInt 2, VNull]) = get_bool res"
  by (rule cmp_values_agrees) (simp_all add: is_comparison_def nan_value_def path_value_def)

text \<open>
  The two evaluations disagree on a NaN: \<open>cmp_values\<close> reads an unordered pair of floats
  as equal, so a pushed-down \<open>x = 1\<close> keeps a row whose \<open>x\<close> is NaN, while the residual
  comparison is definitely false (and the other way round for \<open>!=\<close>).
\<close>

theorem cmp_values_nan:
  "is_nan x \<Longrightarrow>
     cmp_values (VFloat x) Eq (VFloat y) \<and> \<not> cmp_values (VFloat x) Ne (VFloat y)
     \<and> eval_binop Eq (VFloat x) (VFloat y) = Some (Success (VBool False))
     \<and> eval_binop Ne (VFloat x) (VFloat y) = Some (Success (VBool True))"
  by (simp add: cmp_values_def is_null_def scalar_cmp_def f64_partial_cmp_def or_equal_def ord_op_def
      eval_binop_eq eq_verdict.simps same_kind_def f64_eq_def)

lemma cmp_values_nan_witness:
  "cmp_values (VFloat f64_nan) Eq (VFloat (f64_of_int 1))"
  using cmp_values_nan [of f64_nan "f64_of_int 1"]
  by (simp add: is_nan_def f64_nan_def f64_mk_mag f64_inf_mag_def)

section \<open>Panics\<close>

text \<open>
  The only panic of operator evaluation is \<open>i64::MIN / -1\<close>: every other operand pair of
  every operator gives a value or an error. (\<open>MOD\<close> on the same operands is checked.)
\<close>

theorem eval_binop_panics:
  "eval_binop op l r = None \<longleftrightarrow>
     op = Div \<and> (\<exists>a b. l = VInt a \<and> r = VInt b \<and> sint a = i64_min \<and> sint b = - 1)"
proof (cases "op = Div")
  case True
  have "b \<noteq> 0" if "sint b = - 1" for b :: i64 using that by auto
  then show ?thesis using True
    by (cases l; cases r)
      (auto simp: eval_binop_def div_op_def as_num_pair_def is_null_def i64_overflows_def null_propagates_def)
next
  case False
  then show ?thesis
    by (cases op) (auto simp: eval_binop_def null_propagates_def split: val.splits)
qed

end
