(* ===== verification/Meets.thy ===== *)
theory Meets
  imports Main
begin

text \<open>
  What the type checker relies on when it combines constraints: a meet of two types is the
  conjunction of what they say about a value. Simple types, labels, property types and
  descriptors each provide such a meet; the order and the repetition of the constraints a
  program writes do not matter to any of them.
\<close>

locale meet_sem =
  fixes sat :: "'v \<Rightarrow> 't \<Rightarrow> bool"
    and meet :: "'t \<Rightarrow> 't \<Rightarrow> 't"
    and okv :: "'v \<Rightarrow> bool"
    and ok :: "'t \<Rightarrow> bool"
  assumes sat_meet: "okv v \<Longrightarrow> ok a \<Longrightarrow> ok b \<Longrightarrow> sat v (meet a b) \<longleftrightarrow> sat v a \<and> sat v b"
    and ok_meet: "ok a \<Longrightarrow> ok b \<Longrightarrow> ok (meet a b)"
begin

lemma sat_meet_comm: "okv v \<Longrightarrow> ok a \<Longrightarrow> ok b \<Longrightarrow> sat v (meet a b) = sat v (meet b a)"
  by (auto simp: sat_meet)

lemma sat_meet_assoc:
  "okv v \<Longrightarrow> ok a \<Longrightarrow> ok b \<Longrightarrow> ok c \<Longrightarrow> sat v (meet (meet a b) c) = sat v (meet a (meet b c))"
  by (simp add: sat_meet ok_meet)

lemma sat_meet_idem: "okv v \<Longrightarrow> ok a \<Longrightarrow> sat v (meet a a) = sat v a"
  by (simp add: sat_meet)

lemma ok_fold_meet: "ok t \<Longrightarrow> list_all ok ts \<Longrightarrow> ok (fold meet ts t)"
  by (induction ts arbitrary: t) (auto simp: ok_meet)

lemma sat_fold_meet:
  "okv v \<Longrightarrow> ok t \<Longrightarrow> list_all ok ts \<Longrightarrow>
   sat v (fold meet ts t) \<longleftrightarrow> sat v t \<and> list_all (sat v) ts"
  by (induction ts arbitrary: t) (auto simp: ok_meet sat_meet)

text \<open>Conjoining constraints in any order, with any repetition, constrains alike.\<close>

lemma sat_fold_meet_set:
  assumes "okv v" "ok t" "list_all ok ts" "set ts = set us"
  shows "sat v (fold meet ts t) = sat v (fold meet us t)"
proof -
  have "list_all ok us" using assms(3,4) by (simp add: list_all_iff)
  then show ?thesis using assms by (simp add: sat_fold_meet list_all_iff)
qed

end

end
