(* ===== verification/SimpleTypes.thy ===== *)
theory SimpleTypes
  imports Verdicts Meets
begin

text \<open>
  The types of property values (\<open>src/typing/simple_type.rs\<close>): the gradual union, the meet,
  the gradual subtyping, emptiness and null reachability; conformance of a value to a type
  (\<open>value_is_type\<close>, \<open>src/syntax/expr.rs\<close>) and the type read off a value at run time
  (\<open>value_type\<close>, \<open>src/runtime/engine.rs\<close>). A record type is the key-sorted list of its
  fields; \<open>simple_wf\<close> is that invariant, all the way down.
\<close>

section \<open>Types\<close>

datatype simple_type =
    TZ | TF | TB | TS
  | TStar
  | TNull
  | TZero
  | is_Union: TUnion (union_left: simple_type) (union_right: simple_type)
  | is_Group: TGroup (group_elem: simple_type)
  | is_List: TList (list_elem: simple_type)
  | is_Record: TRecord (record_fields: "(string \<times> simple_type) list")
  | TNode | TEdge | TPath
  | TDate | TLocalDatetime

fun simple_wf :: "simple_type \<Rightarrow> bool" where
  "simple_wf (TUnion a b) = (simple_wf a \<and> simple_wf b)"
| "simple_wf (TGroup t) = simple_wf t"
| "simple_wf (TList t) = simple_wf t"
| "simple_wf (TRecord fs) = (bm_wf fs \<and> list_all (\<lambda>(k, t). simple_wf t) fs)"
| "simple_wf _ = True"

lemma size_map_of: "map_of fs k = Some t \<Longrightarrow> size t < Suc (size_list (size_prod (\<lambda>_. 0) size) fs)"
  by (induction fs) (auto split: if_splits)

lemma size_field: "(k, t) \<in> set fs \<Longrightarrow> size t < Suc (size_list (size_prod (\<lambda>_. 0) size) fs)"
  by (induction fs) auto

section \<open>Union and meet\<close>

definition simple_union :: "simple_type \<Rightarrow> simple_type \<Rightarrow> simple_type" where
  "simple_union a b = (if a = TZero then b else if b = TZero then a else if a = b then a else TUnion a b)"

function simple_meet :: "simple_type \<Rightarrow> simple_type \<Rightarrow> simple_type" where
  "simple_meet a b =
     (if a = TStar then b
      else if b = TStar then a
      else if is_Union a then
        simple_union (simple_meet (union_left a) b) (simple_meet (union_right a) b)
      else if is_Union b then
        simple_union (simple_meet a (union_left b)) (simple_meet a (union_right b))
      else if is_List a \<and> is_List b then TList (simple_meet (list_elem a) (list_elem b))
      else if is_Group a \<and> is_Group b then TGroup (simple_meet (group_elem a) (group_elem b))
      else if is_Record a \<and> is_Record b then
        (if map fst (record_fields a) \<noteq> map fst (record_fields b) then TZero
         else TRecord (map (\<lambda>(k, va).
                (k, case map_of (record_fields b) k of Some vb \<Rightarrow> simple_meet va vb | None \<Rightarrow> va))
                (record_fields a)))
      else if a = b then a
      else TZero)"
  by auto
termination
  by (relation "measure (\<lambda>(a, b). size a + size b)")
    (auto dest!: size_map_of size_field simp: is_Union_def is_List_def is_Group_def is_Record_def)

declare simple_meet.simps [simp del]

section \<open>Gradual subtyping\<close>

function simple_subtype :: "simple_type \<Rightarrow> simple_type \<Rightarrow> bool" where
  "simple_subtype t1 t2 =
     (if t1 = TStar \<or> t2 = TStar then True
      else if t1 = TZero then True
      else if is_Union t1 then simple_subtype (union_left t1) t2 \<or> simple_subtype (union_right t1) t2
      else if is_Union t2 then simple_subtype t1 (union_left t2) \<or> simple_subtype t1 (union_right t2)
      else if is_List t1 \<and> is_List t2 then simple_subtype (list_elem t1) (list_elem t2)
      else if is_Group t1 \<and> is_Group t2 then simple_subtype (group_elem t1) (group_elem t2)
      else if is_Record t1 \<and> is_Record t2 then
        length (record_fields t1) = length (record_fields t2) \<and>
        list_all (\<lambda>(k, v). case map_of (record_fields t2) k of Some bv \<Rightarrow> simple_subtype v bv | None \<Rightarrow> False)
          (record_fields t1)
      else t1 = t2)"
  by auto
termination
  by (relation "measure (\<lambda>(a, b). size a + size b)")
    (auto dest!: size_map_of size_field simp: is_Union_def is_List_def is_Group_def is_Record_def)

declare simple_subtype.simps [simp del]

section \<open>Null and emptiness\<close>

fun simple_has_null :: "simple_type \<Rightarrow> bool" where
  "simple_has_null TNull = True"
| "simple_has_null TStar = True"
| "simple_has_null (TUnion a b) = (simple_has_null a \<or> simple_has_null b)"
| "simple_has_null (TList t) = simple_has_null t"
| "simple_has_null (TGroup t) = simple_has_null t"
| "simple_has_null (TRecord fs) = list_ex (\<lambda>(k, t). simple_has_null t) fs"
| "simple_has_null _ = False"

fun simple_is_empty :: "simple_type \<Rightarrow> bool" where
  "simple_is_empty TZero = True"
| "simple_is_empty (TUnion a b) = (simple_is_empty a \<and> simple_is_empty b)"
| "simple_is_empty (TGroup t) = simple_is_empty t"
| "simple_is_empty (TList t) = simple_is_empty t"
| "simple_is_empty (TRecord fs) = list_ex (\<lambda>(k, t). simple_is_empty t) fs"
| "simple_is_empty _ = False"

section \<open>Values and types\<close>

function value_is_type :: "val \<Rightarrow> simple_type \<Rightarrow> bool" where
  "value_is_type v TS = (case v of VStr _ \<Rightarrow> True | _ \<Rightarrow> False)"
| "value_is_type v TZ = (case v of VInt _ \<Rightarrow> True | _ \<Rightarrow> False)"
| "value_is_type v TF = (case v of VFloat _ \<Rightarrow> True | _ \<Rightarrow> False)"
| "value_is_type v TB = (case v of VBool _ \<Rightarrow> True | _ \<Rightarrow> False)"
| "value_is_type v (TList t) = (case v of VList items \<Rightarrow> list_all (\<lambda>x. value_is_type x t) items | _ \<Rightarrow> False)"
| "value_is_type v (TRecord tf) =
     (case v of
        VRecord vf \<Rightarrow>
          length vf = length tf \<and>
          list_all (\<lambda>(k, x). case map_of tf k of Some t \<Rightarrow> value_is_type x t | None \<Rightarrow> False) vf
      | _ \<Rightarrow> False)"
| "value_is_type v TNull = (v = VNull)"
| "value_is_type v TNode = (case v of VNode _ \<Rightarrow> True | _ \<Rightarrow> False)"
| "value_is_type v TEdge = (case v of VEdge _ \<Rightarrow> True | _ \<Rightarrow> False)"
| "value_is_type v TPath = (case v of VPath _ \<Rightarrow> True | _ \<Rightarrow> False)"
| "value_is_type v TStar = True"
| "value_is_type v (TUnion a b) = (value_is_type v a \<or> value_is_type v b)"
| "value_is_type v TZero = False"
| "value_is_type v (TGroup t) = False"
| "value_is_type v TDate = False"
| "value_is_type v TLocalDatetime = False"
  by pat_completeness auto
termination
  by (relation "measure (\<lambda>(v, t). size t)") (auto dest!: size_map_of size_field)

function value_type :: "val \<Rightarrow> simple_type" where
  "value_type VNull = TZero"
| "value_type (VInt _) = TZ"
| "value_type (VFloat _) = TF"
| "value_type (VStr _) = TS"
| "value_type (VBool _) = TB"
| "value_type (VDate _) = TDate"
| "value_type (VLocalDatetime _) = TLocalDatetime"
| "value_type (VList items) =
     (if items = [] then TList TStar
      else TList (foldl (\<lambda>acc it. simple_union acc (value_type it)) TZero items))"
| "value_type (VRecord fs) = TRecord (map (\<lambda>(k, v). (k, value_type v)) fs)"
| "value_type (VNode _) = TNode"
| "value_type (VEdge _) = TEdge"
| "value_type (VPath _) = TPath"
  by pat_completeness auto
termination
  by (relation "measure size") (auto dest!: size_field simp: size_list_estimation' less_Suc_eq_le)

section \<open>Rewriting the operations\<close>

named_theorems simple_simps

lemmas simple_discs = is_Union_def is_List_def is_Group_def is_Record_def

lemma simple_meet_Star [simp, simple_simps]: "simple_meet TStar b = b" "simple_meet a TStar = a"
  by (subst simple_meet.simps; simp)+

lemma simple_meet_Union [simp, simple_simps]:
  "b \<noteq> TStar \<Longrightarrow> simple_meet (TUnion t u) b = simple_union (simple_meet t b) (simple_meet u b)"
  "a \<noteq> TStar \<Longrightarrow> \<not> is_Union a \<Longrightarrow>
     simple_meet a (TUnion t u) = simple_union (simple_meet a t) (simple_meet a u)"
  by (subst simple_meet.simps; simp)+

lemma simple_meet_List [simp, simple_simps]: "simple_meet (TList x) (TList y) = TList (simple_meet x y)"
  by (subst simple_meet.simps) simp

lemma simple_meet_Group [simp, simple_simps]: "simple_meet (TGroup x) (TGroup y) = TGroup (simple_meet x y)"
  by (subst simple_meet.simps) simp

lemma simple_meet_Record [simp, simple_simps]:
  "simple_meet (TRecord x) (TRecord y) =
     (if map fst x \<noteq> map fst y then TZero
      else TRecord (map (\<lambda>(k, va). (k, case map_of y k of Some vb \<Rightarrow> simple_meet va vb | None \<Rightarrow> va)) x))"
  by (subst simple_meet.simps) simp

text \<open>The two last arms: neither side is \<open>*\<close> or a union, and they are not composites alike.\<close>

definition simple_apart :: "simple_type \<Rightarrow> simple_type \<Rightarrow> bool" where
  "simple_apart a b \<longleftrightarrow> a \<noteq> TStar \<and> b \<noteq> TStar \<and> \<not> is_Union a \<and> \<not> is_Union b \<and>
     \<not> (is_List a \<and> is_List b) \<and> \<not> (is_Group a \<and> is_Group b) \<and> \<not> (is_Record a \<and> is_Record b)"

lemma simple_meet_apart [simple_simps]: "simple_apart a b \<Longrightarrow> simple_meet a b = (if a = b then a else TZero)"
  by (subst simple_meet.simps) (auto simp: simple_apart_def)

text \<open>Induction over pairs of types along the arms of the two functions.\<close>

lemma simple_pair_induct [case_names Star Union_left Union_right List Group Record apart]:
  assumes star: "\<And>a b. a = TStar \<or> b = TStar \<Longrightarrow> P a b"
    and ul: "\<And>t u b. b \<noteq> TStar \<Longrightarrow> P t b \<Longrightarrow> P u b \<Longrightarrow> P (TUnion t u) b"
    and ur: "\<And>a t u. a \<noteq> TStar \<Longrightarrow> \<not> is_Union a \<Longrightarrow> P a t \<Longrightarrow> P a u \<Longrightarrow> P a (TUnion t u)"
    and list: "\<And>x y. P x y \<Longrightarrow> P (TList x) (TList y)"
    and group: "\<And>x y. P x y \<Longrightarrow> P (TGroup x) (TGroup y)"
    and rec: "\<And>x y. (\<And>k s k' t. (k, s) \<in> set x \<Longrightarrow> (k', t) \<in> set y \<Longrightarrow> P s t) \<Longrightarrow> P (TRecord x) (TRecord y)"
    and apart: "\<And>a b. simple_apart a b \<Longrightarrow> P a b"
  shows "P a b"
proof (induction "size a + size b" arbitrary: a b rule: less_induct)
  case less
  consider "a = TStar \<or> b = TStar" | "simple_apart a b"
    | t u where "a = TUnion t u" "b \<noteq> TStar" | t u where "b = TUnion t u" "a \<noteq> TStar" "\<not> is_Union a"
    | x y where "a = TList x" "b = TList y" | x y where "a = TGroup x" "b = TGroup y"
    | x y where "a = TRecord x" "b = TRecord y"
    unfolding simple_apart_def simple_discs by blast
  then show ?case
  proof cases
    case 7
    have "P t u" if "(k, t) \<in> set x" "(k', u) \<in> set y" for k t k' u
      using size_field [OF that(1)] size_field [OF that(2)] by (intro less) (simp add: 7)
    then show ?thesis unfolding 7 by (rule rec)
  qed (use less in \<open>auto intro: star ul ur list group apart\<close>)
qed

section \<open>The meet is intersection\<close>

lemma value_is_type_union [simp]:
  "value_is_type v (simple_union a b) \<longleftrightarrow> value_is_type v a \<or> value_is_type v b"
  by (auto simp: simple_union_def)

lemma simple_wf_union [simp]: "simple_wf a \<Longrightarrow> simple_wf b \<Longrightarrow> simple_wf (simple_union a b)"
  by (auto simp: simple_union_def)

lemma map_of_mem: "map_of fs k = Some t \<Longrightarrow> (k, t) \<in> set fs"
  by (rule map_of_SomeD)

lemma simple_wf_field: "simple_wf (TRecord fs) \<Longrightarrow> (k, t) \<in> set fs \<Longrightarrow> simple_wf t"
  by (auto simp: list_all_iff)

lemma simple_wf_meet: "simple_wf a \<Longrightarrow> simple_wf b \<Longrightarrow> simple_wf (simple_meet a b)"
proof (induction a b rule: simple_pair_induct)
  case (Record x y)
  then show ?case
    by (auto simp: bm_wf_map list_all_iff split: option.splits) (blast dest: map_of_mem)+
qed (auto simp: simple_meet_apart)

text \<open>A record value conforms to a record type iff it has its keys and each field conforms.\<close>

lemma record_is_type:
  assumes "bm_wf vf" "bm_wf tf"
  shows "value_is_type (VRecord vf) (TRecord tf) \<longleftrightarrow>
    map fst vf = map fst tf \<and> (\<forall>k x t. map_of vf k = Some x \<longrightarrow> map_of tf k = Some t \<longrightarrow> value_is_type x t)"
proof
  assume L: "value_is_type (VRecord vf) (TRecord tf)"
  then have sub: "fst ` set vf \<subseteq> fst ` set tf"
    by (force simp: list_all_iff split: option.splits dest: map_of_mem)
  have "card (fst ` set vf) = card (fst ` set tf)"
    using L bm_wf_distinct [OF assms(1)] bm_wf_distinct [OF assms(2)]
    by (simp add: distinct_card flip: set_map)
  then have "fst ` set vf = fst ` set tf" using sub by (simp add: card_subset_eq)
  then have "map fst vf = map fst tf" using assms by (blast intro: bm_wf_keys_eq)
  then show "map fst vf = map fst tf \<and> (\<forall>k x t. map_of vf k = Some x \<longrightarrow> map_of tf k = Some t \<longrightarrow> value_is_type x t)"
    using L by (fastforce simp: list_all_iff dest: map_of_mem)
next
  assume R: "map fst vf = map fst tf \<and> (\<forall>k x t. map_of vf k = Some x \<longrightarrow> map_of tf k = Some t \<longrightarrow> value_is_type x t)"
  then have "length vf = length tf" by (metis length_map)
  moreover have "case map_of tf k of Some t \<Rightarrow> value_is_type x t | None \<Rightarrow> False" if "(k, x) \<in> set vf" for k x
  proof -
    have "map_of vf k = Some x" using that bm_wf_distinct [OF assms(1)] by simp
    moreover have "k \<in> fst ` set tf" using that R by (metis fst_conv image_eqI list.set_map)
    then obtain t where "map_of tf k = Some t" by (metis domIff dom_map_of_conv_image_fst not_None_eq)
    ultimately show ?thesis using R by auto
  qed
  ultimately show "value_is_type (VRecord vf) (TRecord tf)" by (auto simp: list_all_iff)
qed

lemma apart_not_both:
  "simple_apart a b \<Longrightarrow> a \<noteq> b \<Longrightarrow> \<not> (value_is_type v a \<and> value_is_type v b)"
  by (cases a; cases b) (auto simp: simple_apart_def split: val.splits)

lemma value_is_type_meet:
  "val_wf v \<Longrightarrow> simple_wf a \<Longrightarrow> simple_wf b \<Longrightarrow>
   value_is_type v (simple_meet a b) \<longleftrightarrow> value_is_type v a \<and> value_is_type v b"
proof (induction a b arbitrary: v rule: simple_pair_induct)
  case (Record x y)
  show ?case
  proof (cases v)
    case (VRecord vf)
    have wf: "bm_wf vf" "bm_wf x" "bm_wf y" "simple_wf (TRecord x)" "simple_wf (TRecord y)"
      and vals: "\<And>k u. (k, u) \<in> set vf \<Longrightarrow> val_wf u"
      using Record.prems VRecord by (auto simp: list_all_iff)
    show ?thesis
    proof (cases "map fst x = map fst y")
      case True
      let ?m = "map (\<lambda>(k, va). (k, case map_of y k of Some vb \<Rightarrow> simple_meet va vb | None \<Rightarrow> va)) x"
      have keys: "map fst ?m = map fst x" by (simp add: comp_def case_prod_unfold)
      have wfm: "bm_wf ?m" using wf(2) by (simp add: bm_wf_map)
      have lookup: "map_of ?m k = map_option (\<lambda>va. case map_of y k of Some vb \<Rightarrow> simple_meet va vb | None \<Rightarrow> va) (map_of x k)" for k
        by (induction x) (auto split: option.splits)
      have dom: "map_of x k = None \<longleftrightarrow> map_of y k = None" for k
        using True by (metis map_of_eq_None_iff list.set_map)
      have field: "value_is_type u (simple_meet s t) \<longleftrightarrow> value_is_type u s \<and> value_is_type u t"
        if "map_of vf k = Some u" "map_of x k = Some s" "map_of y k = Some t" for k u s t
        using that by (intro Record.IH) (auto dest!: map_of_mem intro: vals simple_wf_field wf(4,5))
      have "value_is_type (VRecord vf) (TRecord ?m) \<longleftrightarrow>
          map fst vf = map fst x \<and> (\<forall>k u t. map_of vf k = Some u \<longrightarrow> map_of ?m k = Some t \<longrightarrow> value_is_type u t)"
        by (simp only: record_is_type [OF wf(1) wfm] keys)
      also have "\<dots> \<longleftrightarrow> map fst vf = map fst x \<and> (\<forall>k u s t. map_of vf k = Some u \<longrightarrow> map_of x k = Some s
          \<longrightarrow> map_of y k = Some t \<longrightarrow> value_is_type u (simple_meet s t))"
        using dom by (force simp: lookup split: option.splits)
      also have "\<dots> \<longleftrightarrow> value_is_type v (TRecord x) \<and> value_is_type v (TRecord y)"
        unfolding VRecord record_is_type [OF wf(1,2)] record_is_type [OF wf(1,3)]
        using field dom True by (metis not_None_eq)
      finally show ?thesis using True VRecord by simp
    next
      case False
      then show ?thesis
        unfolding VRecord using record_is_type [OF wf(1,2)] record_is_type [OF wf(1,3)] by auto
    qed
  qed auto
next
  case (List x y)
  then show ?case by (cases v) (auto simp: list_all_iff)
qed (auto simp: simple_meet_apart dest: apart_not_both)

interpretation simple_meet: meet_sem value_is_type simple_meet val_wf simple_wf
  by unfold_locales (simp_all add: value_is_type_meet simple_wf_meet)

text \<open>
  C18: The meet of two types is their intersection on values: a value conforms to
  \<open>meet(a, b)\<close> exactly when it conforms to both, through unions, lists and records (whose
  fields are ordered maps); and the meet keeps record types well-formed.
\<close>

theorem simple_meet_sound_complete:
  assumes "val_wf v" "simple_wf a" "simple_wf b"
  shows "(value_is_type v (simple_meet a b) \<longleftrightarrow> value_is_type v a \<and> value_is_type v b)
    \<and> simple_wf (simple_meet a b)"
  using value_is_type_meet [OF assms] simple_wf_meet [OF assms(2,3)] by simp

lemma simple_meet_sound_complete_witness:
  "value_is_type (VList [VInt 1]) (simple_meet (TList (TUnion TZ TS)) (TUnion (TList TZ) TB))"
  using simple_meet_sound_complete [of "VList [VInt 1]" "TList (TUnion TZ TS)" "TUnion (TList TZ) TB"]
  by simp

section \<open>Run-time types\<close>

lemma simple_subtype_Star [simp, simple_simps]: "simple_subtype TStar t" "simple_subtype t TStar"
  by (subst simple_subtype.simps; simp)+

lemma simple_subtype_Zero [simp, simple_simps]: "simple_subtype TZero t"
  by (subst simple_subtype.simps) simp

lemma simple_subtype_Union [simp, simple_simps]:
  "t \<noteq> TStar \<Longrightarrow> simple_subtype (TUnion a b) t \<longleftrightarrow> simple_subtype a t \<or> simple_subtype b t"
  "t \<noteq> TStar \<Longrightarrow> t \<noteq> TZero \<Longrightarrow> \<not> is_Union t \<Longrightarrow>
     simple_subtype t (TUnion a b) \<longleftrightarrow> simple_subtype t a \<or> simple_subtype t b"
  by (subst simple_subtype.simps; simp)+

lemma simple_subtype_List [simp, simple_simps]: "simple_subtype (TList a) (TList b) = simple_subtype a b"
  by (subst simple_subtype.simps) simp

lemma simple_subtype_Group [simp, simple_simps]: "simple_subtype (TGroup a) (TGroup b) = simple_subtype a b"
  by (subst simple_subtype.simps) simp

lemma simple_subtype_Record [simp, simple_simps]:
  "simple_subtype (TRecord a) (TRecord b) \<longleftrightarrow>
     length a = length b \<and>
     list_all (\<lambda>(k, v). case map_of b k of Some bv \<Rightarrow> simple_subtype v bv | None \<Rightarrow> False) a"
  by (subst simple_subtype.simps) simp

lemma simple_subtype_apart [simple_simps]:
  "simple_apart a b \<Longrightarrow> a \<noteq> TZero \<Longrightarrow> simple_subtype a b \<longleftrightarrow> a = b"
  by (subst simple_subtype.simps) (auto simp: simple_apart_def)

lemma simple_subtype_UnionI:
  "simple_subtype t a \<Longrightarrow> simple_subtype t (TUnion a b)"
  "simple_subtype t a \<Longrightarrow> simple_subtype t (TUnion b a)"
  by (induction t) (cases "a = TStar"; auto)+

lemma simple_subtype_union_left:
  "simple_subtype a t \<Longrightarrow> simple_subtype b t \<Longrightarrow> simple_subtype (simple_union a b) t"
  by (cases "t = TStar") (auto simp: simple_union_def)

lemma value_type_not: "value_type v \<noteq> TStar" "\<not> is_Union (value_type v)" "\<not> is_Group (value_type v)"
  by (cases v; simp)+

lemma fold_union_subtype:
  assumes "\<And>x. x \<in> set xs \<Longrightarrow> simple_subtype (value_type x) t" "simple_subtype acc t"
  shows "simple_subtype (foldl (\<lambda>acc it. simple_union acc (value_type it)) acc xs) t"
  using assms by (induction xs arbitrary: acc) (auto simp: simple_subtype_union_left)

lemma value_type_subtype:
  "val_wf v \<Longrightarrow> simple_wf t \<Longrightarrow> value_is_type v t \<Longrightarrow> simple_subtype (value_type v) t"
proof (induction v t rule: value_is_type.induct)
  case (5 v t)
  then obtain items where v: "v = VList items" by (cases v) auto
  then have "simple_subtype (value_type x) t" if "x \<in> set items" for x
    using 5 that by (auto simp: list_all_iff)
  then show ?case using v by (auto intro: fold_union_subtype)
next
  case (6 v tf)
  then obtain vf where v: "v = VRecord vf" by (cases v) auto
  have "case map_of tf k of Some t \<Rightarrow> simple_subtype (value_type x) t | None \<Rightarrow> False" if "(k, x) \<in> set vf" for k x
  proof -
    have "case map_of tf k of Some t \<Rightarrow> value_is_type x t | None \<Rightarrow> False"
      using 6(4) that unfolding v by (auto simp: list_all_iff)
    then obtain t where t: "map_of tf k = Some t" "value_is_type x t" by (auto split: option.splits)
    moreover have "val_wf x" "simple_wf t"
      using 6(2,3) that v t(1) by (auto simp: list_all_iff dest!: map_of_mem)
    ultimately show ?thesis using 6(1) [OF v that _ t(1)] by simp
  qed
  then show ?case using 6(4) v by (auto simp: list_all_iff)
next
  case (12 v a b)
  have "value_type v = TZero \<or> (value_type v \<noteq> TStar \<and> value_type v \<noteq> TZero \<and> \<not> is_Union (value_type v))"
    using value_type_not by auto
  then show ?case using 12 by (auto intro: simple_subtype_UnionI)
qed (auto split: val.splits simp: simple_subtype_apart simple_apart_def)

text \<open>
  Type pruning at run time is sound: a value that conforms to a type has a run-time
  type (\<open>value_type\<close>) the scan's subtype check accepts, so the descriptor filter never
  drops a node or edge over a property that conforms.
\<close>

theorem value_type_accepts:
  assumes "val_wf v" "simple_wf t" "value_is_type v t"
  shows "simple_subtype (value_type v) t"
  using assms by (rule value_type_subtype)

lemma value_type_accepts_witness:
  "simple_subtype (value_type (VList [VInt 1, VNull])) (TList (TUnion TZ TNull))"
  by (rule value_type_accepts) simp_all

text \<open>
  The check is only that: it also accepts values that do not conform. A list with one
  integer among strings passes against \<open>[int]\<close>, because a union on the left of the gradual
  subtyping needs one side only, while \<open>TYPED\<close> rejects the same list.
\<close>

theorem value_type_overaccepts:
  "simple_subtype (value_type (VList [VInt i, VStr s])) (TList TZ)
    \<and> \<not> value_is_type (VList [VInt i, VStr s]) (TList TZ)"
  by (simp add: simple_union_def simple_subtype_apart simple_apart_def)

section \<open>The meet is a lower bound\<close>

lemma simple_subtype_refl: "simple_wf t \<Longrightarrow> simple_subtype t t"
proof (induction t)
  case (TUnion a b)
  then show ?case by (auto intro: simple_subtype_UnionI)
next
  case (TRecord fs)
  then show ?case by (auto simp: list_all_iff bm_wf_distinct)
qed (auto simp: simple_subtype_apart simple_apart_def)

lemma simple_meet_lower:
  "simple_wf a \<Longrightarrow> simple_wf b \<Longrightarrow>
   simple_subtype (simple_meet a b) a \<and> simple_subtype (simple_meet a b) b"
proof (induction a b rule: simple_pair_induct)
  case (Record x y)
  show ?case
  proof (cases "map fst x = map fst y")
    case True
    have len: "length x = length y" using True by (metis length_map)
    have d: "distinct (map fst x)" using Record.prems by (simp add: bm_wf_distinct)
    have "\<exists>t. map_of y k = Some t" if "(k, s) \<in> set x" for k s
      using that True by (metis domIff dom_map_of_conv_image_fst fst_conv image_eqI list.set_map option.exhaust)
    moreover have "simple_subtype (simple_meet s t) s \<and> simple_subtype (simple_meet s t) t"
      if "(k, s) \<in> set x" "map_of y k = Some t" for k s t
    proof -
      note t = map_of_mem [OF that(2)]
      from Record.IH [OF that(1) t simple_wf_field [OF Record.prems(1) that(1)]
          simple_wf_field [OF Record.prems(2) t]]
      show ?thesis .
    qed
    ultimately show ?thesis using True d len by (fastforce simp: list_all_iff)
  qed simp
qed (auto simp: simple_meet_apart simple_subtype_refl intro: simple_subtype_union_left simple_subtype_UnionI)

text \<open>
  The meet is a lower bound in the gradual subtyping, and the subtyping is reflexive,
  on well-formed types.
\<close>

theorem simple_meet_lower_bound:
  assumes "simple_wf a" "simple_wf b"
  shows "simple_subtype (simple_meet a b) a \<and> simple_subtype (simple_meet a b) b \<and> simple_subtype a a"
  using simple_meet_lower [OF assms] simple_subtype_refl [OF assms(1)] by simp

lemma simple_meet_lower_bound_witness:
  "simple_subtype (simple_meet (TUnion TZ TS) (TUnion TS TB)) (TUnion TZ TS)"
  using simple_meet_lower_bound [of "TUnion TZ TS" "TUnion TS TB"] by simp

section \<open>Null reachability and emptiness\<close>

fun reaches_null :: "val \<Rightarrow> bool" where
  "reaches_null VNull = True"
| "reaches_null (VList xs) = list_ex reaches_null xs"
| "reaches_null (VRecord fs) = list_ex (\<lambda>(k, v). reaches_null v) fs"
| "reaches_null (VPath xs) = list_ex reaches_null xs"
| "reaches_null _ = False"

text \<open>The items of a \<open>PATH\<close> value are node and edge references.\<close>

fun is_ref :: "val \<Rightarrow> bool" where
  "is_ref (VNode _) = True"
| "is_ref (VEdge _) = True"
| "is_ref _ = False"

lemma is_ref_no_null: "is_ref x \<Longrightarrow> \<not> reaches_null x"
  by (cases x) auto

fun paths_ok :: "val \<Rightarrow> bool" where
  "paths_ok (VList xs) = list_all paths_ok xs"
| "paths_ok (VRecord fs) = list_all (\<lambda>(k, v). paths_ok v) fs"
| "paths_ok (VPath xs) = list_all is_ref xs"
| "paths_ok _ = True"

lemma reaches_null_has_null:
  "paths_ok v \<Longrightarrow> value_is_type v t \<Longrightarrow> reaches_null v \<Longrightarrow> simple_has_null t"
proof (induction v t rule: value_is_type.induct)
  case (5 v t)
  then show ?case by (cases v) (auto simp: list_all_iff list_ex_iff)
next
  case (6 v tf)
  then obtain vf where v: "v = VRecord vf" by (cases v) auto
  with 6 obtain k x where x: "(k, x) \<in> set vf" "reaches_null x" by (auto simp: list_ex_iff)
  have "case map_of tf k of Some t \<Rightarrow> value_is_type x t | None \<Rightarrow> False"
    using 6(3) x(1) unfolding v by (auto simp: list_all_iff)
  then obtain t where t: "map_of tf k = Some t" "value_is_type x t" by (auto split: option.splits)
  moreover have "paths_ok x" using 6(2) x(1) v by (auto simp: list_all_iff)
  ultimately have "simple_has_null t" using 6(1) [OF v x(1) _ t(1)] x(2) by simp
  then show ?case using map_of_mem [OF t(1)] by (auto simp: list_ex_iff)
next
  case (10 v)
  then show ?case by (cases v) (auto simp: list_all_iff list_ex_iff dest: is_ref_no_null)
qed (auto split: val.splits)

lemma eq_fold_Unknown: "eq_fold u xs ys = Unknown \<Longrightarrow> u \<or> None \<in> set (map2 eq_3vl xs ys)"
  by (auto simp: eq_fold_kleene Let_def split: if_splits)

lemma eq_verdict_Unknown_aux:
  "size a < n \<Longrightarrow> eq_verdict a b = Unknown \<Longrightarrow> reaches_null a \<or> reaches_null b"
proof (induction n arbitrary: a b)
  case (Suc n)
  have fold: "list_ex reaches_null xs \<or> list_ex reaches_null ys"
    if u: "eq_fold False xs ys = Unknown" and small: "\<And>x. x \<in> set xs \<Longrightarrow> size x < n" for xs ys
  proof -
    obtain x y where xy: "(x, y) \<in> set (zip xs ys)" "eq_3vl x y = None"
      using eq_fold_Unknown [OF u] by auto
    then have "eq_verdict x y = Unknown" by (simp add: eq_3vl_def nested_3vl_def split: verdict.splits)
    moreover have "x \<in> set xs" "y \<in> set ys" using xy(1) by (auto dest: set_zip_leftD set_zip_rightD)
    ultimately show ?thesis using Suc.IH [of x y] small by (auto simp: list_ex_iff)
  qed
  have elems: "size x < n" if "size_list size xs < n" "x \<in> set xs" for x :: val and xs
    using that size_list_estimation' [of x xs "size x" size] by simp
  have fields: "size x < n" if "size_list (size_prod (\<lambda>_. 0) size) fs < n" "x \<in> set (map snd fs)"
    for x :: val and fs :: "(string \<times> val) list"
    using elems [of "map snd fs" x] that size_map_snd [of fs] by simp
  have snd: "list_ex reaches_null (map snd fs) \<Longrightarrow> reaches_null (VRecord fs)" for fs
    by (auto simp: list_ex_iff)
  consider "reaches_null a \<or> reaches_null b"
    | xs ys where "eq_fold False xs ys = Unknown" "a = VList xs" "b = VList ys"
    | xs ys where "eq_fold False xs ys = Unknown" "a = VPath xs" "b = VPath ys"
    | fs gs where "eq_fold False (map snd fs) (map snd gs) = Unknown" "a = VRecord fs" "b = VRecord gs"
    using Suc.prems(2)
    by (subst (asm) eq_verdict.simps; cases a; cases b) (auto simp: is_null_def same_kind_def split: if_splits)
  then show ?case
  proof cases
    case 2
    then show ?thesis using fold [OF 2(1)] Suc.prems(1) elems by auto
  next
    case 3
    then show ?thesis using fold [OF 3(1)] Suc.prems(1) elems by auto
  next
    case 4
    have "size x < n" if "x \<in> set (map snd fs)" for x using fields Suc.prems(1) 4 that by auto
    then show ?thesis using fold [OF 4(1)] snd 4 by blast
  qed
qed simp

text \<open>
  \<open>has_null\<close> is what decides whether a comparison can be unknown: when neither type
  lets a null through, no two conforming values compare as unknown, however deep their
  lists and records nest.
\<close>

theorem no_null_definite:
  assumes "value_is_type a s" "value_is_type b t" "paths_ok a" "paths_ok b"
    and "\<not> simple_has_null s" "\<not> simple_has_null t"
  shows "eq_verdict a b \<noteq> Unknown"
  using assms eq_verdict_Unknown_aux [of a "Suc (size a)" b] reaches_null_has_null by blast

lemma no_null_definite_witness:
  "eq_verdict (VList [VInt 1, VFloat 0]) (VList [VInt 1, VInt 0]) \<noteq> Unknown"
  by (rule no_null_definite [of _ "TList (TUnion TZ TF)" _ "TList TZ"]) simp_all

fun has_empty_list :: "val \<Rightarrow> bool" where
  "has_empty_list (VList xs) = (xs = [] \<or> list_ex has_empty_list xs)"
| "has_empty_list (VRecord fs) = list_ex (\<lambda>(k, v). has_empty_list v) fs"
| "has_empty_list _ = False"

lemma empty_type_values:
  "val_wf v \<Longrightarrow> simple_wf t \<Longrightarrow> value_is_type v t \<Longrightarrow> simple_is_empty t \<Longrightarrow> has_empty_list v"
proof (induction v t rule: value_is_type.induct)
  case (5 v t)
  then obtain xs where v: "v = VList xs" by (cases v) auto
  show ?case
  proof (cases xs)
    case (Cons x xs')
    then have "has_empty_list x" using 5 v by (auto simp: list_all_iff)
    then show ?thesis using v Cons by simp
  qed (simp add: v)
next
  case (6 v tf)
  then obtain vf where v: "v = VRecord vf" by (cases v) auto
  obtain k t where t: "(k, t) \<in> set tf" "simple_is_empty t" using 6(5) by (auto simp: list_ex_iff)
  have wf: "bm_wf vf" "bm_wf tf" using 6(2,3) v by auto
  have mt: "map_of tf k = Some t" using t(1) wf(2) by (simp add: bm_wf_distinct)
  have keys: "map fst vf = map fst tf"
    and conf: "\<And>k x t. map_of vf k = Some x \<Longrightarrow> map_of tf k = Some t \<Longrightarrow> value_is_type x t"
    using 6(4) unfolding v record_is_type [OF wf] by auto
  have "k \<in> fst ` set vf" using t(1) keys by (metis fst_conv image_eqI list.set_map)
  then obtain x where x: "(k, x) \<in> set vf" "map_of vf k = Some x" by (metis map_of_eq_None_iff map_of_mem not_None_eq)
  have "val_wf x" "simple_wf t" using 6(2,3) x(1) t(1) v by (auto simp: list_all_iff)
  then have "has_empty_list x" using 6(1) [OF v x(1) _ mt] conf [OF x(2) mt] t(2) by simp
  then show ?case using x(1) v by (auto simp: list_ex_iff)
qed (auto split: val.splits)

text \<open>
  A type that \<open>is_empty\<close> reports empty has no value, up to the empty list: the only
  conforming values contain one. And the empty list is one: it conforms to a list of
  bottoms, which \<open>is_empty\<close> calls empty.
\<close>

theorem simple_is_empty_values:
  "(val_wf v \<and> simple_wf t \<and> simple_is_empty t \<and> value_is_type v t \<longrightarrow> has_empty_list v)
    \<and> simple_is_empty (TList TZero) \<and> value_is_type (VList []) (TList TZero)"
  using empty_type_values by (intro conjI) (blast, simp_all)

lemma simple_is_empty_values_witness: "has_empty_list (VList [])"
  using simple_is_empty_values [of "VList []" "TList TZero"] by simp

end
