(* ===== verification/BinOps.thy ===== *)
theory BinOps
  imports SimpleTypes
begin

text \<open>
  The typing of operators (\<open>BinOp::delta\<close>, \<open>UnOp::delta\<close>, \<open>src/syntax/expr.rs\<close>) and the
  interpreter's step for them once the operands are evaluated (\<open>run_expr\<close>'s binary, unary,
  \<open>TYPED\<close> and \<open>AS\<close> arms with \<open>temporal_binop_applies\<close>, \<open>src/runtime/engine.rs\<close>).
  \<open>run_binop\<close> takes the two operand results; its \<open>None\<close> is the panic of \<open>eval_binop\<close>.
\<close>

section \<open>Signatures\<close>

definition eq_consistent :: "simple_type \<Rightarrow> simple_type \<Rightarrow> bool" where
  "eq_consistent ty1 ty2 \<longleftrightarrow> ty1 = TNull \<or> ty2 = TNull \<or> \<not> simple_is_empty (simple_meet ty1 ty2)"

fun orderable :: "simple_type \<Rightarrow> bool" where
  "orderable TZ = True"
| "orderable TF = True"
| "orderable TB = True"
| "orderable TS = True"
| "orderable TStar = True"
| "orderable TDate = True"
| "orderable TLocalDatetime = True"
| "orderable TNull = True"
| "orderable (TUnion a b) = (orderable a \<and> orderable b)"
| "orderable _ = False"

definition order_consistent :: "simple_type \<Rightarrow> simple_type \<Rightarrow> bool" where
  "order_consistent ty1 ty2 =
     (if ty1 = TNull \<or> ty2 = TNull then True
      else let common = simple_meet ty1 ty2 in \<not> simple_is_empty common \<and> orderable common)"

definition num_type :: simple_type where
  "num_type = TUnion TZ TF"

definition or_null :: "simple_type \<Rightarrow> simple_type" where
  "or_null t = simple_union t TNull"

definition binop_delta :: "binop \<Rightarrow> simple_type \<Rightarrow> simple_type \<Rightarrow> simple_type \<times> simple_type \<times> simple_type" where
  "binop_delta op ty1 ty2 =
     (let nullable = simple_has_null ty1 \<or> simple_has_null ty2;
          res = (\<lambda>t. if nullable then or_null t else t)
      in case op of
           Mod \<Rightarrow> (or_null TZ, or_null TZ, res TZ)
         | Lt \<Rightarrow> (TStar, TStar, if order_consistent ty1 ty2 then res TB else TZero)
         | Gt \<Rightarrow> (TStar, TStar, if order_consistent ty1 ty2 then res TB else TZero)
         | Le \<Rightarrow> (TStar, TStar, if order_consistent ty1 ty2 then res TB else TZero)
         | Ge \<Rightarrow> (TStar, TStar, if order_consistent ty1 ty2 then res TB else TZero)
         | Eq \<Rightarrow> (TStar, TStar, if eq_consistent ty1 ty2 then res TB else TZero)
         | Ne \<Rightarrow> (TStar, TStar, if eq_consistent ty1 ty2 then res TB else TZero)
         | And \<Rightarrow> (or_null TB, or_null TB, res TB)
         | Or \<Rightarrow> (or_null TB, or_null TB, res TB)
         | Is \<Rightarrow> (TStar, TStar, TB)
         | As \<Rightarrow> (TStar, TStar, TB)
         | In \<Rightarrow> (TStar, TList TStar, res TB)
         | _ \<Rightarrow> (or_null num_type, or_null num_type, res num_type))"

datatype unop = Neg | Not

definition unop_delta :: "unop \<Rightarrow> simple_type \<times> simple_type" where
  "unop_delta op = (case op of Neg \<Rightarrow> (num_type, num_type) | Not \<Rightarrow> (TB, TB))"

section \<open>The interpreter's step\<close>

datatype run_error =
    Eval eval_error
  | CannotCast val simple_type
  | NegNeedsNumber
  | NotNeedsBool

definition temporal_binop_applies :: "binop \<Rightarrow> val \<Rightarrow> val \<Rightarrow> bool" where
  "temporal_binop_applies op lv rv =
     (case (lv, rv) of
        (VDate _, VDate _) \<Rightarrow> is_comparison op
      | (VLocalDatetime _, VLocalDatetime _) \<Rightarrow> is_comparison op
      | (VDate _, VLocalDatetime _) \<Rightarrow> is_comparison op
      | (VLocalDatetime _, VDate _) \<Rightarrow> is_comparison op
      | (VLocalDatetime _, VInt _) \<Rightarrow> op = Add \<or> op = Sub
      | (VInt _, VLocalDatetime _) \<Rightarrow> op = Add
      | _ \<Rightarrow> False)"

definition lift_eval :: "eval_error expr_result \<Rightarrow> run_error expr_result" where
  "lift_eval r = (case r of Success v \<Rightarrow> Success v | Failure e \<Rightarrow> Failure (Eval e))"

definition coercible :: "simple_type \<Rightarrow> val \<Rightarrow> bool" where
  "coercible ty v \<longleftrightarrow> is_null v \<or> value_is_type v ty"

definition run_binop ::
    "binop \<Rightarrow> run_error expr_result \<Rightarrow> run_error expr_result \<Rightarrow> run_error expr_result option" where
  "run_binop op l r =
     (case (l, r) of
        (Failure _, _) \<Rightarrow> Some l
      | (_, Failure _) \<Rightarrow> Some r
      | (Success lv, Success rv) \<Rightarrow>
          if temporal_binop_applies op lv rv then map_option lift_eval (eval_binop op lv rv)
          else
            let ty = fst (binop_delta op TStar TStar)
            in if \<not> coercible ty lv then Some (Failure (CannotCast lv ty))
               else if \<not> coercible ty rv then Some (Failure (CannotCast rv ty))
               else map_option lift_eval (eval_binop op lv rv))"

definition run_typed :: "run_error expr_result \<Rightarrow> simple_type \<Rightarrow> run_error expr_result" where
  "run_typed l ty = (case l of Success v \<Rightarrow> Success (VBool (value_is_type v ty)) | Failure _ \<Rightarrow> l)"

definition run_as :: "run_error expr_result \<Rightarrow> simple_type \<Rightarrow> run_error expr_result" where
  "run_as l ty =
     (case l of
        Success v \<Rightarrow>
          if v = VNull then Success VNull
          else if value_is_type v ty then Success v
          else Failure (CannotCast v ty)
      | Failure _ \<Rightarrow> l)"

definition run_unop :: "unop \<Rightarrow> run_error expr_result \<Rightarrow> run_error expr_result" where
  "run_unop op operand =
     (case run_as operand (fst (unop_delta op)) of
        Failure e \<Rightarrow> Failure e
      | Success v \<Rightarrow>
          (case op of
             Neg \<Rightarrow> (case v of
                 VInt n \<Rightarrow> Success (VInt (- n))
               | VFloat x \<Rightarrow> Success (VFloat (f64_neg x))
               | VNull \<Rightarrow> Success VNull
               | _ \<Rightarrow> Failure NegNeedsNumber)
           | Not \<Rightarrow> (case v of
                 VBool b \<Rightarrow> Success (VBool (\<not> b))
               | VNull \<Rightarrow> Success VNull
               | _ \<Rightarrow> Failure NotNeedsBool)))"

section \<open>Operator results have the computed type\<close>

lemma value_is_type_or_null [simp]: "value_is_type v (or_null t) \<longleftrightarrow> value_is_type v t \<or> v = VNull"
  by (simp add: or_null_def)

lemma null_has_null: "value_is_type VNull t \<Longrightarrow> simple_has_null t"
  using reaches_null_has_null [of VNull t] by simp

lemma in_scan_result:
  "in_scan lv u m items = Success res \<Longrightarrow>
     (\<exists>b. res = VBool b) \<or> (res = VNull \<and> (u \<or> (\<exists>it \<in> set items. eq_verdict lv it = Unknown)))"
  by (induction lv u m items rule: in_scan.induct)
    (auto split: verdict.splits bool.splits if_splits option.splits)

lemma num_op_result:
  "num_op op i f lv rv = Success res \<Longrightarrow> value_is_type res num_type"
  by (auto simp: num_op_def num_type_def split: option.splits prod.splits val.splits)

lemma div_op_result: "div_op lv rv = Some (Success res) \<Longrightarrow> value_is_type res num_type"
  by (auto simp: div_op_def num_type_def split: option.splits prod.splits val.splits if_splits)

lemma mod_op_result: "mod_op lv rv = Success res \<Longrightarrow> value_is_type res TZ"
  by (auto simp: mod_op_def split: val.splits if_splits)

lemma bool_op_result:
  "and_op lv rv = Success res \<Longrightarrow> (\<exists>b. res = VBool b) \<or> (res = VNull \<and> (lv = VNull \<or> rv = VNull))"
  "or_op lv rv = Success res \<Longrightarrow> (\<exists>b. res = VBool b) \<or> (res = VNull \<and> (lv = VNull \<or> rv = VNull))"
  by (auto simp: and_op_def or_op_def bool_or_null_def split: if_splits)

text \<open>What an operator gives when it gives a value, before any typing.\<close>

definition result_shape :: "binop \<Rightarrow> val \<Rightarrow> val \<Rightarrow> val \<Rightarrow> bool" where
  "result_shape op lv rv res \<longleftrightarrow>
     op \<noteq> Is \<and> op \<noteq> As \<and>
     ((res = VNull \<and> (lv = VNull \<or> rv = VNull)) \<or>
     (case op of
        Mod \<Rightarrow> value_is_type res TZ
      | Eq \<Rightarrow> (\<exists>b. res = VBool b) \<or> (res = VNull \<and> eq_verdict lv rv = Unknown)
      | Ne \<Rightarrow> (\<exists>b. res = VBool b) \<or> (res = VNull \<and> eq_verdict lv rv = Unknown)
      | In \<Rightarrow> (\<exists>b. res = VBool b) \<or>
          (res = VNull \<and> (\<exists>items. rv = VList items \<and> (\<exists>it \<in> set items. eq_verdict lv it = Unknown)))
      | _ \<Rightarrow>
          if op \<in> {Add, Sub, Mul, Div} then
            value_is_type res num_type \<or> (\<exists>t. lv = VLocalDatetime t) \<or> (\<exists>t. rv = VLocalDatetime t)
          else \<exists>b. res = VBool b))"

lemma eval_binop_shape: "eval_binop op lv rv = Some (Success res) \<Longrightarrow> result_shape op lv rv res"
proof (cases "null_propagates op \<and> (is_null lv \<or> is_null rv)")
  case True
  assume "eval_binop op lv rv = Some (Success res)"
  then show ?thesis using True
    by (auto simp: eval_binop_def result_shape_def is_null_def null_propagates_def)
next
  case False
  assume e: "eval_binop op lv rv = Some (Success res)"
  show ?thesis
  proof (cases op)
    case Add
    then show ?thesis using e False
      by (auto simp: eval_binop_def result_shape_def dest: num_op_result split: val.splits)
  next
    case Sub
    then show ?thesis using e False
      by (auto simp: eval_binop_def result_shape_def dest: num_op_result split: val.splits)
  next
    case Mul
    then show ?thesis using e False
      by (auto simp: eval_binop_def result_shape_def dest: num_op_result)
  next
    case Div
    then show ?thesis using e False div_op_result [of lv rv res]
      by (auto simp: eval_binop_def result_shape_def)
  next
    case Mod
    then show ?thesis using e False mod_op_result [of lv rv res]
      by (auto simp: eval_binop_def result_shape_def)
  next
    case And
    then show ?thesis using e bool_op_result(1) [of lv rv res]
      by (auto simp: eval_binop_def result_shape_def null_propagates_def)
  next
    case Or
    then show ?thesis using e bool_op_result(2) [of lv rv res]
      by (auto simp: eval_binop_def result_shape_def null_propagates_def)
  next
    case In
    then show ?thesis using e in_scan_result [of lv False None _ res]
      by (auto simp: eval_binop_def result_shape_def null_propagates_def in_op_def split: val.splits)
  qed (use e False in \<open>auto simp: eval_binop_def result_shape_def split: verdict.splits if_splits\<close>)
qed

lemma run_binop_Success:
  "run_binop op (Success lv) (Success rv) = Some (Success res) \<Longrightarrow> eval_binop op lv rv = Some (Success res)"
proof (cases "eval_binop op lv rv")
  case (Some r)
  then show "run_binop op (Success lv) (Success rv) = Some (Success res) \<Longrightarrow> eval_binop op lv rv = Some (Success res)"
    by (cases r) (auto simp: run_binop_def lift_eval_def Let_def split: if_splits)
qed (auto simp: run_binop_def Let_def split: if_splits)

lemma Unknown_nullable:
  assumes "value_is_type lv ty1" "value_is_type rv ty2" "paths_ok lv" "paths_ok rv"
    and "eq_verdict lv rv = Unknown"
  shows "simple_has_null ty1 \<or> simple_has_null ty2"
  using assms eq_verdict_Unknown_aux [of lv "Suc (size lv)" rv] reaches_null_has_null by blast

lemma Unknown_nullable_item:
  assumes "value_is_type lv ty1" "value_is_type (VList items) ty2" "paths_ok lv" "paths_ok (VList items)"
    and "it \<in> set items" "eq_verdict lv it = Unknown"
  shows "simple_has_null ty1 \<or> simple_has_null ty2"
proof -
  have "reaches_null lv \<or> reaches_null it" using eq_verdict_Unknown_aux [of lv "Suc (size lv)" it] assms(6) by simp
  then have "reaches_null lv \<or> reaches_null (VList items)" using assms(5) by (auto simp: list_ex_iff)
  then show ?thesis using assms reaches_null_has_null by blast
qed

text \<open>
  C19: The typing of the operators between two values (all but \<open>IS\<close> and \<open>AS\<close>, which take a type
  and are run apart) is sound for the interpreter: if the operands conform to the types
  \<open>delta\<close> is given and to the operand types it expects, the paths in them consist of nodes and
  edges, and it does not call the operation inconsistent (\<open>\<bottom>\<close>), then whatever value the
  interpreter computes conforms to the result type. In particular a result is null only
  where the type says so.
\<close>

theorem binop_delta_sound:
  assumes "run_binop op (Success lv) (Success rv) = Some (Success res)"
    and "value_is_type lv ty1" "value_is_type rv ty2" "paths_ok lv" "paths_ok rv"
    and "binop_delta op ty1 ty2 = (d1, d2, result)"
    and "value_is_type lv d1" "value_is_type rv d2" "result \<noteq> TZero"
  shows "value_is_type res result"
proof -
  have shape: "result_shape op lv rv res" using assms(1) by (intro eval_binop_shape run_binop_Success)
  have null: "simple_has_null ty1 \<or> simple_has_null ty2" if "lv = VNull \<or> rv = VNull"
    using that assms(2,3) null_has_null by auto
  note unk = Unknown_nullable [OF assms(2-5)] and item = Unknown_nullable_item [OF assms(2) _ assms(4)]
  show ?thesis
  proof (cases op)
    case In
    then show ?thesis using shape null item assms(3,5,6)
      by (auto simp: result_shape_def binop_delta_def Let_def split: if_splits)
  qed (use shape null unk assms(6-9) in
      \<open>auto simp: result_shape_def binop_delta_def Let_def num_type_def split: if_splits\<close>)
qed

lemma binop_delta_sound_witness:
  "run_binop Eq (Success (VList [VNull])) (Success (VList [VInt 1])) = Some (Success VNull)
   \<and> snd (snd (binop_delta Eq (TList (TUnion TZ TNull)) (TList TZ))) = or_null TB \<and> value_is_type VNull (or_null TB)"
proof -
  have run: "run_binop Eq (Success (VList [VNull])) (Success (VList [VInt 1])) = Some (Success VNull)"
    by (simp add: run_binop_def temporal_binop_applies_def binop_delta_def coercible_def eval_binop_def
        null_propagates_def is_null_def eq_verdict.simps nested_3vl_def lift_eval_def Let_def)
  have delta: "binop_delta Eq (TList (TUnion TZ TNull)) (TList TZ) = (TStar, TStar, or_null TB)"
    by (simp add: binop_delta_def eq_consistent_def simple_meet_apart simple_apart_def simple_union_def)
  have "value_is_type VNull (or_null TB)"
    by (rule binop_delta_sound [OF run _ _ _ _ delta]) (simp_all add: or_null_def simple_union_def)
  then show ?thesis using run delta by simp
qed

text \<open>
  The verdict \<open>\<bottom>\<close> of \<open>delta\<close> for \<open>=\<close> and the orderings is not the interpreter's: an
  integer and a float have no common type for \<open>delta\<close>, which makes the checker report
  such a query as empty, yet the interpreter widens the integer and answers.
\<close>

theorem delta_mixed_numbers:
  "snd (snd (binop_delta Eq TZ TF)) = TZero \<and> snd (snd (binop_delta Lt TZ TF)) = TZero
   \<and> run_binop Eq (Success (VInt i)) (Success (VFloat (f64_of_int (sint i)))) = Some (Success (VBool True))
   \<and> (\<exists>b. run_binop Lt (Success (VInt i)) (Success (VFloat x)) = Some (Success (VBool b)))"
proof -
  have "simple_meet TZ TF = TZero" by (simp add: simple_meet_apart simple_apart_def)
  then show ?thesis
    by (simp add: binop_delta_def eq_consistent_def order_consistent_def run_binop_def temporal_binop_applies_def
        coercible_def eval_binop_def null_propagates_def is_null_def eq_verdict.simps f64_eq_def lift_eval_def
        orderable_pair_def is_num_def Let_def)
qed

end
