(* ===== verification/LabelTypes.thy ===== *)
theory LabelTypes
  imports Prelude Meets
begin

text \<open>
  Label types (\<open>src/typing/label_type.rs\<close>): the boolean algebra of labels, its meet (an
  \<open>&\<close>-chain without repetitions), the gradual entailment the scans use to filter nodes
  and edges, and the label sets the optimiser reads off a type. The actual type of a node
  with labels \<open>ls\<close> is \<open>label_from_list ls\<close>, so a set reading of patterns
  (\<open>label_sem\<close>) says what the filter should answer.
\<close>

section \<open>Label types\<close>

datatype label_type =
    is_Label: LLabel (label_name: string)
  | LStar
  | LTop
  | LEmpty
  | is_And: LAnd (and_left: label_type) (and_right: label_type)
  | is_Or: LOr (or_left: label_type) (or_right: label_type)
  | is_Neg: LNeg (neg_inner: label_type)

lemmas label_discs = is_Label_def is_And_def is_Or_def is_Neg_def

text \<open>The assertion of \<open>from_list\<close> fails on an empty list.\<close>

fun label_from_list :: "string list \<Rightarrow> label_type option" where
  "label_from_list [] = None"
| "label_from_list [l] = Some (LLabel l)"
| "label_from_list (l # ls) = map_option (LAnd (LLabel l)) (label_from_list ls)"

fun push_conjuncts :: "label_type \<Rightarrow> label_type list" where
  "push_conjuncts (LAnd x y) = push_conjuncts x @ push_conjuncts y"
| "push_conjuncts l = [l]"

text \<open>\<open>uniq\<close> keeps the first occurrence of each conjunct.\<close>

definition uniq_conjuncts :: "label_type list \<Rightarrow> label_type list" where
  "uniq_conjuncts parts = fold (\<lambda>p uniq. if p \<in> set uniq then uniq else uniq @ [p]) parts []"

definition and_of :: "label_type list \<Rightarrow> label_type option" where
  "and_of parts =
     (case rev (uniq_conjuncts parts) of
        [] \<Rightarrow> None
      | l # iter \<Rightarrow> Some (fold (\<lambda>p acc. LAnd p acc) iter l))"

text \<open>The \<open>expect\<close> of \<open>and_of\<close> cannot fail here: an operand has a conjunct.\<close>

definition label_meet :: "label_type \<Rightarrow> label_type \<Rightarrow> label_type" where
  "label_meet a b =
     (if a = LTop then b
      else if b = LTop then a
      else the (and_of (push_conjuncts a @ push_conjuncts b)))"

function label_subtype :: "label_type \<Rightarrow> label_type \<Rightarrow> bool" where
  "label_subtype l1 l2 =
     (if l1 = LStar \<or> l2 = LStar then True
      else if l2 = LTop then True
      else if is_Label l1 \<and> is_Label l2 then label_name l1 = label_name l2
      else if is_And l2 then label_subtype l1 (and_left l2) \<and> label_subtype l1 (and_right l2)
      else if is_Or l2 then label_subtype l1 (or_left l2) \<or> label_subtype l1 (or_right l2)
      else if is_And l1 then label_subtype (and_left l1) l2 \<or> label_subtype (and_right l1) l2
      else if is_Or l1 then label_subtype (or_left l1) l2 \<or> label_subtype (or_right l1) l2
      else if is_Neg l2 then \<not> label_subtype l1 (neg_inner l2)
      else l1 = LEmpty)"
  by auto
termination
  by (relation "measure (\<lambda>(a, b). size a + size b)") (auto simp: label_discs)

declare label_subtype.simps [simp del]

definition label_is_empty :: "label_type \<Rightarrow> bool" where
  "label_is_empty l = False"

definition as_simple_label :: "label_type \<Rightarrow> string option" where
  "as_simple_label l = (case l of LLabel s \<Rightarrow> Some s | _ \<Rightarrow> None)"

fun required_labels :: "label_type \<Rightarrow> string list" where
  "required_labels (LLabel s) = [s]"
| "required_labels (LAnd a b) = required_labels a @ required_labels b"
| "required_labels _ = []"

fun or_candidate_labels :: "label_type \<Rightarrow> string list option" where
  "or_candidate_labels (LLabel s) = Some [s]"
| "or_candidate_labels (LOr a b) =
     do { left \<leftarrow> or_candidate_labels a; right \<leftarrow> or_candidate_labels b; Some (left @ right) }"
| "or_candidate_labels _ = None"

section \<open>The arms of the entailment\<close>

lemma label_subtype_Star [simp]: "label_subtype LStar l" "label_subtype l LStar"
  by (subst label_subtype.simps; simp)+

lemma label_subtype_Top [simp]: "label_subtype l LTop"
  by (subst label_subtype.simps) simp

lemma label_subtype_Label [simp]: "label_subtype (LLabel a) (LLabel b) \<longleftrightarrow> a = b"
  by (subst label_subtype.simps) simp

lemma label_subtype_And [simp]: "label_subtype l (LAnd a b) \<longleftrightarrow> label_subtype l a \<and> label_subtype l b"
  by (cases "l = LStar") (simp, subst label_subtype.simps, auto)

lemma label_subtype_Or [simp]: "label_subtype l (LOr a b) \<longleftrightarrow> label_subtype l a \<or> label_subtype l b"
  by (cases "l = LStar") (simp, subst label_subtype.simps, auto)

lemma label_subtype_And_left [simp]:
  "\<not> is_And l \<Longrightarrow> \<not> is_Or l \<Longrightarrow> l \<noteq> LStar \<Longrightarrow> l \<noteq> LTop \<Longrightarrow>
   label_subtype (LAnd a b) l \<longleftrightarrow> label_subtype a l \<or> label_subtype b l"
  by (subst label_subtype.simps) auto

lemma label_subtype_Neg [simp]: "label_subtype (LLabel a) (LNeg l) \<longleftrightarrow> \<not> label_subtype (LLabel a) l"
  by (subst label_subtype.simps) auto

lemma label_subtype_Empty [simp]: "\<not> label_subtype (LLabel a) LEmpty"
  by (subst label_subtype.simps) auto

section \<open>The meet is conjunction\<close>

lemma push_conjuncts_not_Nil: "push_conjuncts l \<noteq> []"
  by (induction l rule: push_conjuncts.induct) auto

lemma label_subtype_conjuncts:
  "label_subtype x l \<longleftrightarrow> list_all (label_subtype x) (push_conjuncts l)"
  by (induction l rule: push_conjuncts.induct) auto

lemma set_uniq_fold: "set (fold (\<lambda>p uniq. if p \<in> set uniq then uniq else uniq @ [p]) parts acc) = set acc \<union> set parts"
  by (induction parts arbitrary: acc) auto

lemma set_uniq: "set (uniq_conjuncts parts) = set parts"
  by (simp add: uniq_conjuncts_def set_uniq_fold)

lemma distinct_uniq_fold:
  "distinct acc \<Longrightarrow> distinct (fold (\<lambda>p uniq. if p \<in> set uniq then uniq else uniq @ [p]) parts acc)"
  by (induction parts arbitrary: acc) auto

lemma push_fold_And:
  "list_all (\<lambda>p. \<not> is_And p) ps \<Longrightarrow> push_conjuncts (fold LAnd ps l) = rev ps @ push_conjuncts l"
proof (induction ps arbitrary: l)
  case (Cons p ps)
  then have "push_conjuncts p = [p]" by (cases p) auto
  with Cons show ?case by simp
qed simp

lemma push_conjuncts_not_And: "p \<in> set (push_conjuncts l) \<Longrightarrow> \<not> is_And p"
  by (induction l rule: push_conjuncts.induct) auto

lemma subtype_fold_And:
  "label_subtype x (fold LAnd ps l) \<longleftrightarrow> list_all (label_subtype x) ps \<and> label_subtype x l"
  by (induction ps arbitrary: l) auto

lemma and_of_subtype:
  assumes "parts \<noteq> []"
  shows "\<exists>l. and_of parts = Some l \<and> (\<forall>x. label_subtype x l \<longleftrightarrow> list_all (label_subtype x) parts)"
proof -
  have "uniq_conjuncts parts \<noteq> []" using set_uniq [of parts] assms by (metis set_empty)
  then obtain l iter where r: "rev (uniq_conjuncts parts) = l # iter" by (cases "rev (uniq_conjuncts parts)") auto
  have "set parts = insert l (set iter)" using set_uniq [of parts] r by (metis list.simps(15) set_rev)
  then show ?thesis using r by (auto simp: and_of_def subtype_fold_And list_all_iff)
qed

lemma label_subtype_meet:
  "label_subtype x (label_meet a b) \<longleftrightarrow> label_subtype x a \<and> label_subtype x b"
proof -
  obtain l where "and_of (push_conjuncts a @ push_conjuncts b) = Some l"
    "\<And>x. label_subtype x l \<longleftrightarrow> list_all (label_subtype x) (push_conjuncts a @ push_conjuncts b)"
    using and_of_subtype [of "push_conjuncts a @ push_conjuncts b"] push_conjuncts_not_Nil by auto
  then show ?thesis
    using label_subtype_conjuncts [of x a] label_subtype_conjuncts [of x b] by (simp add: label_meet_def)
qed

interpretation label_meet: meet_sem label_subtype label_meet "\<lambda>_. True" "\<lambda>_. True"
  by unfold_locales (simp_all add: label_subtype_meet)

text \<open>
  Conjoining label constraints is exact for the filter: an element's labels entail
  \<open>meet(a, b)\<close> exactly when they entail both, whatever stars, unions and negations they
  contain; and meeting a type with itself adds no conjunct.
\<close>

theorem label_meet_exact:
  "(label_subtype x (label_meet a b) \<longleftrightarrow> label_subtype x a \<and> label_subtype x b)
   \<and> set (push_conjuncts (label_meet a a)) = set (push_conjuncts a)"
proof
  show "label_subtype x (label_meet a b) \<longleftrightarrow> label_subtype x a \<and> label_subtype x b"
    by (rule label_subtype_meet)
  have na: "list_all (\<lambda>p. \<not> is_And p) (uniq_conjuncts (push_conjuncts a @ push_conjuncts a))"
    using push_conjuncts_not_And by (auto simp: list_all_iff set_uniq)
  have "set (push_conjuncts (the (and_of (push_conjuncts a @ push_conjuncts a)))) = set (push_conjuncts a)"
  proof (cases "rev (uniq_conjuncts (push_conjuncts a @ push_conjuncts a))")
    case Nil
    then show ?thesis using set_uniq [of "push_conjuncts a @ push_conjuncts a"] push_conjuncts_not_Nil by auto
  next
    case (Cons l iter)
    then have u: "uniq_conjuncts (push_conjuncts a @ push_conjuncts a) = rev iter @ [l]" by (metis rev.simps(2) rev_rev_ident)
    with na have "list_all (\<lambda>p. \<not> is_And p) iter" "push_conjuncts l = [l]"
      by (auto simp: list_all_iff) (cases l; auto)
    then show ?thesis
      using Cons u set_uniq [of "push_conjuncts a @ push_conjuncts a"] by (auto simp: and_of_def push_fold_And)
  qed
  then show "set (push_conjuncts (label_meet a a)) = set (push_conjuncts a)"
    by (simp add: label_meet_def)
qed

section \<open>Label sets\<close>

text \<open>What a pattern says of a label set, with negation read as absence.\<close>

fun label_sem :: "string set \<Rightarrow> label_type \<Rightarrow> bool" where
  "label_sem L (LLabel s) = (s \<in> L)"
| "label_sem L LStar = True"
| "label_sem L LTop = True"
| "label_sem L LEmpty = (L = {})"
| "label_sem L (LAnd a b) = (label_sem L a \<and> label_sem L b)"
| "label_sem L (LOr a b) = (label_sem L a \<or> label_sem L b)"
| "label_sem L (LNeg a) = (\<not> label_sem L a)"

fun neg_free :: "label_type \<Rightarrow> bool" where
  "neg_free (LAnd a b) = (neg_free a \<and> neg_free b)"
| "neg_free (LOr a b) = (neg_free a \<and> neg_free b)"
| "neg_free (LNeg a) = False"
| "neg_free _ = True"

lemma label_from_list_Some: "label_from_list ls = Some l \<Longrightarrow> ls \<noteq> []"
  by auto

lemma from_list_Label: "label_from_list ls = Some l \<Longrightarrow> label_subtype l (LLabel s) \<longleftrightarrow> s \<in> set ls"
proof (induction ls arbitrary: l rule: label_from_list.induct)
  case (3 x y ys)
  then obtain l' where "label_from_list (y # ys) = Some l'" "l = LAnd (LLabel x) l'" by auto
  with 3 show ?case by auto
qed auto

lemma from_list_Empty: "label_from_list ls = Some l \<Longrightarrow> \<not> label_subtype l LEmpty"
proof (induction ls arbitrary: l rule: label_from_list.induct)
  case (3 x y ys)
  then obtain l' where "label_from_list (y # ys) = Some l'" "l = LAnd (LLabel x) l'" by auto
  with 3 show ?case by auto
qed auto

lemma from_list_sem:
  "label_from_list ls = Some l \<Longrightarrow> neg_free p \<Longrightarrow> label_subtype l p \<longleftrightarrow> label_sem (set ls) p"
  by (induction p) (auto simp: from_list_Label from_list_Empty)

text \<open>
  C39: With negation it is right on elements with one label, and wrong on elements with
  more: \<open>!A\<close> accepts an element labelled both \<open>A\<close> and \<open>B\<close>, since the conjunction on the
  left is taken apart before the negation is looked at.
\<close>

theorem label_filter_negation:
  "(label_subtype (LLabel a) p \<longleftrightarrow> label_sem {a} p)
   \<and> (a \<noteq> b \<longrightarrow>
       label_from_list [a, b] = Some (LAnd (LLabel a) (LLabel b))
       \<and> label_subtype (LAnd (LLabel a) (LLabel b)) (LNeg (LLabel a))
       \<and> \<not> label_sem {a, b} (LNeg (LLabel a)))"
  by (induction p) auto

lemma label_filter_negation_witness:
  "label_subtype (LAnd (LLabel ''A'') (LLabel ''B'')) (LNeg (LLabel ''A''))"
  using label_filter_negation [of "''A''" LStar "''B''"] by simp

lemma required_sound: "label_from_list ls = Some l \<Longrightarrow> label_subtype l p \<Longrightarrow> set (required_labels p) \<subseteq> set ls"
  by (induction p) (auto simp: from_list_Label)

lemma or_candidates_sound:
  "label_from_list ls = Some l \<Longrightarrow> or_candidate_labels p = Some cs \<Longrightarrow>
   label_subtype l p \<longleftrightarrow> (\<exists>c \<in> set cs. c \<in> set ls)"
  by (induction p arbitrary: cs) (auto simp: from_list_Label Option.bind_eq_Some_conv)

end
