(* ===== verification/PropertyTypes.thy ===== *)
theory PropertyTypes
  imports SimpleTypes LabelTypes
begin

text \<open>
  Property types and descriptor types (\<open>src/typing/property_type.rs\<close>,
  \<open>src/typing/descriptor_type.rs\<close>): open and closed records of property types, their meet
  and their gradual subtyping, and the pair of a label type and a property type that
  describes a node or an edge. \<open>check_record\<close> and \<open>filter_element\<close> are the run-time filter
  (\<open>check_record\<close>, \<open>filter_node\<close>, \<open>filter_edge\<close> and \<open>check_value_preds\<close> of
  \<open>src/runtime/engine.rs\<close>).
\<close>

section \<open>Property types\<close>

type_synonym fields = "(string \<times> simple_type) list"

datatype property_type = Open fields | Closed fields | PZero

fun prop_wf :: "property_type \<Rightarrow> bool" where
  "prop_wf (Open m) = (bm_wf m \<and> list_all (\<lambda>(k, t). simple_wf t) m)"
| "prop_wf (Closed m) = (bm_wf m \<and> list_all (\<lambda>(k, t). simple_wf t) m)"
| "prop_wf PZero = True"

definition open_empty :: property_type where "open_empty = Open []"

definition closed_empty :: property_type where "closed_empty = Closed []"

fun prop_extend :: "property_type \<Rightarrow> string \<Rightarrow> simple_type \<Rightarrow> property_type" where
  "prop_extend (Open m) attr t = Open (bm_insert attr t m)"
| "prop_extend (Closed m) attr t = Closed (bm_insert attr t m)"
| "prop_extend PZero attr t = PZero"

fun prop_get :: "property_type \<Rightarrow> string \<Rightarrow> simple_type" where
  "prop_get (Open m) attr = (case map_of m attr of Some t \<Rightarrow> t | None \<Rightarrow> TStar)"
| "prop_get (Closed m) attr = (case map_of m attr of Some t \<Rightarrow> t | None \<Rightarrow> TNull)"
| "prop_get PZero attr = TZero"

text \<open>Meeting the fields of \<open>ma\<close> with those \<open>mb\<close> has; and adding to \<open>ma\<close> what only \<open>mb\<close> has.\<close>

definition meet_fields :: "fields \<Rightarrow> fields \<Rightarrow> fields" where
  "meet_fields ma mb =
     map (\<lambda>(k, va). (k, case map_of mb k of Some vb \<Rightarrow> simple_meet va vb | None \<Rightarrow> va)) ma"

definition add_missing :: "fields \<Rightarrow> fields \<Rightarrow> fields" where
  "add_missing out mb =
     fold (\<lambda>(k, vb) out. if k \<in> fst ` set out then out else bm_insert k vb out) mb out"

definition meet_open_closed :: "fields \<Rightarrow> fields \<Rightarrow> property_type" where
  "meet_open_closed ma mb =
     (if \<not> list_all (\<lambda>(k, _). k \<in> fst ` set mb) ma then PZero
      else Closed (map (\<lambda>(k, vb). (k, case map_of ma k of Some va \<Rightarrow> simple_meet va vb | None \<Rightarrow> vb)) mb))"

fun prop_meet :: "property_type \<Rightarrow> property_type \<Rightarrow> property_type" where
  "prop_meet (Closed ma) (Closed mb) =
     (if map fst ma = map fst mb then Closed (meet_fields ma mb) else PZero)"
| "prop_meet (Open ma) (Open mb) = Open (add_missing (meet_fields ma mb) mb)"
| "prop_meet (Open ma) (Closed mb) = meet_open_closed ma mb"
| "prop_meet (Closed ma) (Open mb) = meet_open_closed mb ma"
| "prop_meet _ _ = PZero"

definition field_subtype :: "bool \<Rightarrow> simple_type \<Rightarrow> simple_type option \<Rightarrow> bool" where
  "field_subtype missing t1 o2 = (case o2 of Some t2 \<Rightarrow> simple_subtype t1 t2 | None \<Rightarrow> missing)"

fun prop_subtype :: "property_type \<Rightarrow> property_type \<Rightarrow> bool" where
  "prop_subtype PZero _ = True"
| "prop_subtype (Open m1) (Open m2) = list_all (\<lambda>(k, t1). field_subtype True t1 (map_of m2 k)) m1"
| "prop_subtype (Closed m1) (Closed m2) =
     (map fst m1 = map fst m2 \<and> list_all (\<lambda>(k, v1). field_subtype False v1 (map_of m2 k)) m1)"
| "prop_subtype (Closed m1) (Open m2) =
     list_all (\<lambda>(k, v2). case map_of m1 k of Some v1 \<Rightarrow> simple_subtype v1 v2 | None \<Rightarrow> False) m2"
| "prop_subtype (Open m1) (Closed m2) = list_all (\<lambda>(k, v1). field_subtype False v1 (map_of m2 k)) m1"
| "prop_subtype _ PZero = False"

fun prop_is_empty :: "property_type \<Rightarrow> bool" where
  "prop_is_empty (Open m) = list_ex (\<lambda>(k, t). simple_is_empty t) m"
| "prop_is_empty (Closed m) = list_ex (\<lambda>(k, t). simple_is_empty t) m"
| "prop_is_empty PZero = True"

section \<open>Descriptor types\<close>

record descriptor_type =
  dt_label :: label_type
  dt_props :: property_type

definition desc_star :: descriptor_type where
  "desc_star = \<lparr>dt_label = LStar, dt_props = open_empty\<rparr>"

definition desc_meet :: "descriptor_type \<Rightarrow> descriptor_type \<Rightarrow> descriptor_type" where
  "desc_meet a b =
     \<lparr>dt_label = label_meet (dt_label a) (dt_label b), dt_props = prop_meet (dt_props a) (dt_props b)\<rparr>"

definition desc_subtype :: "descriptor_type \<Rightarrow> descriptor_type \<Rightarrow> bool" where
  "desc_subtype t1 t2 \<longleftrightarrow> label_subtype (dt_label t1) (dt_label t2) \<and> prop_subtype (dt_props t1) (dt_props t2)"

definition desc_is_empty :: "descriptor_type \<Rightarrow> bool" where
  "desc_is_empty t \<longleftrightarrow> label_is_empty (dt_label t) \<or> prop_is_empty (dt_props t)"

section \<open>The run-time filter\<close>

type_synonym props = "(string \<times> val) list"

definition check_record :: "props \<Rightarrow> property_type" where
  "check_record props = Closed (map (\<lambda>(k, v). (k, value_type v)) props)"

type_synonym value_pred = "string \<times> binop \<times> val"

definition check_value_preds :: "value_pred list \<Rightarrow> props \<Rightarrow> bool" where
  "check_value_preds preds props =
     list_all (\<lambda>(attr, op, expected).
       case map_of props attr of Some actual \<Rightarrow> cmp_values actual op expected | None \<Rightarrow> False) preds"

definition filter_element ::
    "label_type \<Rightarrow> props \<Rightarrow> (descriptor_type \<times> value_pred list) option \<Rightarrow> bool" where
  "filter_element actual_label raw_props desc =
     (case desc of
        None \<Rightarrow> True
      | Some (dtype, value_preds) \<Rightarrow>
          if \<not> desc_subtype \<lparr>dt_label = actual_label, dt_props = check_record raw_props\<rparr> dtype then False
          else check_value_preds value_preds raw_props)"

section \<open>What a type says of a property record\<close>

definition field_sat :: "props \<Rightarrow> string \<Rightarrow> simple_type \<Rightarrow> bool" where
  "field_sat props k t = (case map_of props k of Some v \<Rightarrow> value_is_type v t | None \<Rightarrow> False)"

fun prop_sat :: "props \<Rightarrow> property_type \<Rightarrow> bool" where
  "prop_sat props (Open m) = list_all (\<lambda>(k, t). field_sat props k t) m"
| "prop_sat props (Closed m) = (map fst props = map fst m \<and> list_all (\<lambda>(k, t). field_sat props k t) m)"
| "prop_sat props PZero = False"

definition props_wf :: "props \<Rightarrow> bool" where
  "props_wf props \<longleftrightarrow> bm_wf props \<and> list_all (\<lambda>(k, v). val_wf v) props"

lemma props_wf_value: "props_wf props \<Longrightarrow> map_of props k = Some v \<Longrightarrow> val_wf v"
  by (auto simp: props_wf_def list_all_iff dest: map_of_SomeD)

lemma field_sat_meet:
  "props_wf props \<Longrightarrow> simple_wf s \<Longrightarrow> simple_wf t \<Longrightarrow>
   field_sat props k (simple_meet s t) \<longleftrightarrow> field_sat props k s \<and> field_sat props k t"
  by (auto simp: field_sat_def value_is_type_meet dest: props_wf_value split: option.splits)

text \<open>A field list read as a set of requirements, one for each key.\<close>

definition key_sat :: "props \<Rightarrow> string \<Rightarrow> simple_type option \<Rightarrow> bool" where
  "key_sat props k ot = (case ot of Some t \<Rightarrow> field_sat props k t | None \<Rightarrow> True)"

definition fields_sat :: "props \<Rightarrow> fields \<Rightarrow> bool" where
  "fields_sat props m \<longleftrightarrow> (\<forall>k. key_sat props k (map_of m k))"

definition fields_wf :: "fields \<Rightarrow> bool" where
  "fields_wf m \<longleftrightarrow> bm_wf m \<and> (\<forall>k t. map_of m k = Some t \<longrightarrow> simple_wf t)"

lemma fields_wf_list: "fields_wf m \<longleftrightarrow> bm_wf m \<and> list_all (\<lambda>(k, t). simple_wf t) m"
  by (auto simp: fields_wf_def list_all_iff bm_wf_lookup)

lemma fields_sat_list: "bm_wf m \<Longrightarrow> list_all (\<lambda>(k, t). field_sat props k t) m \<longleftrightarrow> fields_sat props m"
  by (auto simp: fields_sat_def key_sat_def list_all_iff bm_wf_lookup split: option.splits)

lemma meet_fields_lookup:
  "map_of (meet_fields ma mb) k =
     map_option (\<lambda>va. case map_of mb k of Some vb \<Rightarrow> simple_meet va vb | None \<Rightarrow> va) (map_of ma k)"
  unfolding meet_fields_def by (rule map_of_map_keyed)

lemma keys_meet_fields [simp]: "map fst (meet_fields ma mb) = map fst ma"
  by (simp add: meet_fields_def comp_def case_prod_unfold)

lemma bm_wf_meet_fields [simp]: "bm_wf (meet_fields ma mb) = bm_wf ma"
  by (simp add: bm_wf_def del: map_map)

lemma meet_fields_wf: "fields_wf ma \<Longrightarrow> fields_wf mb \<Longrightarrow> fields_wf (meet_fields ma mb)"
  by (auto simp: fields_wf_def meet_fields_lookup simple_wf_meet split: option.splits)

lemma map_of_add_missing:
  "map_of (add_missing out mb) k = (case map_of out k of Some t \<Rightarrow> Some t | None \<Rightarrow> map_of mb k)"
proof (induction mb arbitrary: out)
  case (Cons kv mb)
  obtain k' v' where kv: "kv = (k', v')" by (cases kv)
  have mem: "k' \<in> fst ` set out \<longleftrightarrow> map_of out k' \<noteq> None" by (simp add: map_of_eq_None_iff)
  show ?case
    using Cons.IH [of "if k' \<in> fst ` set out then out else bm_insert k' v' out"]
    by (auto simp: kv add_missing_def map_of_bm_insert mem split: option.splits)
qed (simp add: add_missing_def split: option.splits)

lemma bm_wf_add_missing: "bm_wf out \<Longrightarrow> bm_wf (add_missing out mb)"
  unfolding add_missing_def by (induction mb arbitrary: out) auto

lemma add_missing_wf: "fields_wf out \<Longrightarrow> fields_wf mb \<Longrightarrow> fields_wf (add_missing out mb)"
  by (auto simp: fields_wf_def bm_wf_add_missing map_of_add_missing split: option.splits)

lemma key_sat_meet:
  assumes "props_wf props" "fields_wf ma" "fields_wf mb" "map_of ma k = None \<Longrightarrow> map_of mb k = None"
  shows "key_sat props k (map_of (meet_fields ma mb) k) \<longleftrightarrow>
    key_sat props k (map_of ma k) \<and> key_sat props k (map_of mb k)"
proof (cases "map_of ma k")
  case (Some s)
  with assms show ?thesis
    by (cases "map_of mb k") (auto simp: key_sat_def meet_fields_lookup fields_wf_def field_sat_meet)
qed (use assms in \<open>simp add: key_sat_def meet_fields_lookup\<close>)

lemma fields_sat_meet:
  assumes "props_wf props" "fields_wf ma" "fields_wf mb" "\<And>k. map_of ma k = None \<Longrightarrow> map_of mb k = None"
  shows "fields_sat props (meet_fields ma mb) \<longleftrightarrow> fields_sat props ma \<and> fields_sat props mb"
  unfolding fields_sat_def using key_sat_meet [OF assms] by blast

lemma fields_sat_add_missing:
  assumes "props_wf props" "fields_wf ma" "fields_wf mb"
  shows "fields_sat props (add_missing (meet_fields ma mb) mb) \<longleftrightarrow> fields_sat props ma \<and> fields_sat props mb"
proof -
  have "key_sat props k (map_of (add_missing (meet_fields ma mb) mb) k) \<longleftrightarrow>
      key_sat props k (map_of ma k) \<and> key_sat props k (map_of mb k)" for k
  proof (cases "map_of ma k")
    case None
    then show ?thesis by (simp add: map_of_add_missing meet_fields_lookup key_sat_def)
  next
    case (Some s)
    then have "map_of (add_missing (meet_fields ma mb) mb) k = map_of (meet_fields ma mb) k"
      by (simp add: map_of_add_missing meet_fields_lookup)
    then show ?thesis using key_sat_meet [OF assms, of k] Some by simp
  qed
  then show ?thesis by (auto simp: fields_sat_def)
qed

lemma prop_wf_iff: "prop_wf (Open m) = fields_wf m" "prop_wf (Closed m) = fields_wf m"
  by (simp_all add: fields_wf_list)

lemma prop_sat_iff:
  "prop_wf (Open m) \<Longrightarrow> prop_sat props (Open m) \<longleftrightarrow> fields_sat props m"
  "prop_wf (Closed m) \<Longrightarrow> prop_sat props (Closed m) \<longleftrightarrow> map fst props = map fst m \<and> fields_sat props m"
  by (simp_all add: fields_sat_list)

lemma lookup_keys: "map fst m = map fst m' \<Longrightarrow> map_of m k = None \<longleftrightarrow> map_of m' k = None"
proof -
  assume "map fst m = map fst m'"
  then have "fst ` set m = fst ` set m'" by (metis list.set_map)
  then show ?thesis by (simp add: map_of_eq_None_iff)
qed

section \<open>The meet of property types\<close>

lemma keys_subset:
  "list_all (\<lambda>(k, _). k \<in> fst ` set mb) ma \<longleftrightarrow> (\<forall>k. map_of mb k = None \<longrightarrow> map_of ma k = None)"
proof -
  have "list_all (\<lambda>(k, _). k \<in> fst ` set mb) ma \<longleftrightarrow> fst ` set ma \<subseteq> fst ` set mb"
    unfolding list_all_iff image_subset_iff by (simp add: case_prod_unfold)
  also have "\<dots> \<longleftrightarrow> (\<forall>k. map_of mb k = None \<longrightarrow> map_of ma k = None)"
    unfolding map_of_eq_None_iff by blast
  finally show ?thesis .
qed

lemma meet_open_closed_eq:
  "meet_open_closed ma mb =
     (if \<forall>k. map_of mb k = None \<longrightarrow> map_of ma k = None
      then Closed (map (\<lambda>(k, vb). (k, case map_of ma k of Some va \<Rightarrow> simple_meet va vb | None \<Rightarrow> vb)) mb)
      else PZero)"
  by (simp add: meet_open_closed_def keys_subset)

lemma open_closed_sat:
  assumes "props_wf props" "fields_wf ma" "fields_wf mb"
  shows "prop_sat props (meet_open_closed ma mb) \<longleftrightarrow>
      fields_sat props ma \<and> map fst props = map fst mb \<and> fields_sat props mb"
    and "prop_wf (meet_open_closed ma mb)"
proof -
  let ?m = "map (\<lambda>(k, vb). (k, case map_of ma k of Some va \<Rightarrow> simple_meet va vb | None \<Rightarrow> vb)) mb"
  have keys: "map fst ?m = map fst mb" by (simp add: comp_def case_prod_unfold)
  have look: "map_of ?m k = map_option (\<lambda>vb. case map_of ma k of Some va \<Rightarrow> simple_meet va vb | None \<Rightarrow> vb) (map_of mb k)" for k
    by (rule map_of_map_keyed)
  have wf: "fields_wf ?m"
    using assms(2,3) keys
    by (auto simp: fields_wf_def look bm_wf_def simple_wf_meet simp del: map_map split: option.splits)
  then show wfp: "prop_wf (meet_open_closed ma mb)"
    unfolding meet_open_closed_eq using prop_wf_iff(2) by auto
  show "prop_sat props (meet_open_closed ma mb) \<longleftrightarrow>
      fields_sat props ma \<and> map fst props = map fst mb \<and> fields_sat props mb"
  proof (cases "\<forall>k. map_of mb k = None \<longrightarrow> map_of ma k = None")
    case True
    have "key_sat props k (map_of ?m k) \<longleftrightarrow> key_sat props k (map_of ma k) \<and> key_sat props k (map_of mb k)" for k
      using True assms
      by (cases "map_of mb k"; cases "map_of ma k") (auto simp: look key_sat_def fields_wf_def field_sat_meet)
    then have "fields_sat props ?m \<longleftrightarrow> fields_sat props ma \<and> fields_sat props mb" by (auto simp: fields_sat_def)
    moreover have "prop_sat props (Closed ?m) \<longleftrightarrow> map fst props = map fst ?m \<and> fields_sat props ?m"
      by (rule prop_sat_iff) (use wf prop_wf_iff in simp)
    ultimately show ?thesis using True keys unfolding meet_open_closed_eq by auto
  next
    case False
    then obtain k t where k: "map_of mb k = None" "map_of ma k = Some t" by auto
    have "\<not> (fields_sat props ma \<and> map fst props = map fst mb)"
    proof
      assume "fields_sat props ma \<and> map fst props = map fst mb"
      then have "key_sat props k (map_of ma k)" "map_of props k = None"
        using k(1) lookup_keys [of props mb k] by (auto simp: fields_sat_def)
      then show False using k(2) by (simp add: key_sat_def field_sat_def)
    qed
    moreover have "meet_open_closed ma mb = PZero" by (simp only: meet_open_closed_eq False if_False)
    ultimately show ?thesis by auto
  qed
qed

lemma prop_meet_sat_wf:
  assumes "props_wf props" "prop_wf a" "prop_wf b"
  shows "(prop_sat props (prop_meet a b) \<longleftrightarrow> prop_sat props a \<and> prop_sat props b) \<and> prop_wf (prop_meet a b)"
proof (cases a)
  case a: (Open ma)
  then have ma: "fields_wf ma" using assms prop_wf_iff by simp
  show ?thesis
  proof (cases b)
    case b: (Open mb)
    then have mb: "fields_wf mb" using assms prop_wf_iff by simp
    have "fields_wf (add_missing (meet_fields ma mb) mb)" using ma mb by (simp add: add_missing_wf meet_fields_wf)
    then have "prop_wf (Open (add_missing (meet_fields ma mb) mb))" by (simp only: prop_wf_iff)
    then show ?thesis
      using a b assms ma mb fields_sat_add_missing [OF assms(1) ma mb] by (simp add: prop_sat_iff del: prop_sat.simps prop_wf.simps)
  next
    case b: (Closed mb)
    then have mb: "fields_wf mb" using assms prop_wf_iff by simp
    show ?thesis
      using a b assms open_closed_sat [OF assms(1) ma mb] by (auto simp: prop_sat_iff simp del: prop_sat.simps prop_wf.simps)
  qed (simp add: a)
next
  case a: (Closed ma)
  then have ma: "fields_wf ma" using assms prop_wf_iff by simp
  show ?thesis
  proof (cases b)
    case b: (Open mb)
    then have mb: "fields_wf mb" using assms prop_wf_iff by simp
    show ?thesis
      using a b assms open_closed_sat [OF assms(1) mb ma] by (auto simp: prop_sat_iff simp del: prop_sat.simps prop_wf.simps)
  next
    case b: (Closed mb)
    then have mb: "fields_wf mb" using assms prop_wf_iff by simp
    show ?thesis
    proof (cases "map fst ma = map fst mb")
      case True
      have "prop_wf (Closed (meet_fields ma mb))" using meet_fields_wf [OF ma mb] by (simp only: prop_wf_iff)
      then show ?thesis
        using a b True assms fields_sat_meet [OF assms(1) ma mb] lookup_keys [OF True]
        by (auto simp: prop_sat_iff simp del: prop_sat.simps prop_wf.simps)
    qed (use a b in auto)
  qed (simp add: a)
qed simp

lemma prop_wf_meet: "prop_wf a \<Longrightarrow> prop_wf b \<Longrightarrow> prop_wf (prop_meet a b)"
  using prop_meet_sat_wf [of "[]" a b] by (simp add: props_wf_def)

interpretation prop_meet: meet_sem prop_sat prop_meet props_wf prop_wf
  by unfold_locales (simp_all add: prop_meet_sat_wf prop_wf_meet)

text \<open>
  C23: The meet of property types is exact: a property record has all the properties of
  \<open>meet(a, b)\<close> exactly when it has those of both, for every combination of open and closed
  records (a closed record against different keys is the bottom, which no record
  satisfies); and the meet keeps field lists ordered.
\<close>

theorem prop_meet_exact:
  assumes "props_wf props" "prop_wf a" "prop_wf b"
  shows "(prop_sat props (prop_meet a b) \<longleftrightarrow> prop_sat props a \<and> prop_sat props b) \<and> prop_wf (prop_meet a b)"
  using prop_meet.sat_meet [OF assms] prop_wf_meet [OF assms(2,3)] by simp

lemma prop_meet_exact_witness:
  "prop_sat [(''a'', VInt 1), (''b'', VBool True)]
     (prop_meet (Open [(''b'', TB)]) (Closed [(''a'', TUnion TZ TS), (''b'', TStar)]))"
  using prop_meet_exact [of "[(''a'', VInt 1), (''b'', VBool True)]" "Open [(''b'', TB)]"
      "Closed [(''a'', TUnion TZ TS), (''b'', TStar)]"]
  by (simp add: props_wf_def bm_wf_def field_sat_def less_char_def)

section \<open>Elements and descriptors\<close>

text \<open>An element is its label set and its property record.\<close>

definition desc_sat :: "label_type \<times> props \<Rightarrow> descriptor_type \<Rightarrow> bool" where
  "desc_sat e d \<longleftrightarrow> label_subtype (fst e) (dt_label d) \<and> prop_sat (snd e) (dt_props d)"

definition desc_wf :: "descriptor_type \<Rightarrow> bool" where
  "desc_wf d \<longleftrightarrow> prop_wf (dt_props d)"

interpretation desc_meet: meet_sem desc_sat desc_meet "\<lambda>e. props_wf (snd e)" desc_wf
  by unfold_locales (auto simp: desc_sat_def desc_meet_def desc_wf_def label_meet.sat_meet prop_meet.sat_meet
      prop_wf_meet)

lemma map_of_check_record: "map_of (map (\<lambda>(k, v). (k, value_type v)) props) k = map_option value_type (map_of props k)"
  using map_of_map_keyed [of "\<lambda>_ v. value_type v" props k] by simp

lemma keys_check_record: "map fst (map (\<lambda>(k, v). (k, value_type v)) props) = map fst props"
  by (simp add: comp_def case_prod_unfold)

lemma check_record_accepts:
  assumes wf: "props_wf props" "prop_wf t" and sat: "prop_sat props t"
  shows "prop_subtype (check_record props) t"
proof -
  have sub: "simple_subtype (value_type v) s"
    if "map_of props k = Some v" "field_sat props k s" "simple_wf s" for k v s
    using that wf(1) by (auto simp: field_sat_def intro: value_type_subtype props_wf_value)
  show ?thesis
  proof (cases t)
    case (Open m)
    have "\<exists>v. map_of props k = Some v \<and> simple_subtype (value_type v) s" if "(k, s) \<in> set m" for k s
    proof -
      have fs: "field_sat props k s" "simple_wf s" using that sat wf(2) Open by (auto simp: list_all_iff)
      then obtain v where "map_of props k = Some v" by (auto simp: field_sat_def split: option.splits)
      then show ?thesis using sub fs by blast
    qed
    then show ?thesis
      unfolding check_record_def Open prop_subtype.simps map_of_check_record
      by (fastforce simp: list_all_iff)
  next
    case (Closed m)
    have keys: "map fst props = map fst m" using sat Closed by simp
    have "field_subtype False (value_type v) (map_of m k)" if "(k, v) \<in> set props" for k v
    proof -
      have v: "map_of props k = Some v" using that wf(1) by (simp add: props_wf_def bm_wf_lookup)
      then obtain s where s: "map_of m k = Some s" using lookup_keys [OF keys, of k] by auto
      then have "field_sat props k s" "simple_wf s"
        using sat wf(2) Closed by (auto simp: list_all_iff dest: map_of_SomeD)
      then show ?thesis using sub [OF v] s by (simp add: field_subtype_def)
    qed
    then show ?thesis
      using keys unfolding check_record_def Closed prop_subtype.simps keys_check_record
      by (auto simp: list_all_iff)
  qed (use sat in simp)
qed

text \<open>
  C24: The run-time filter keeps every element the descriptor describes: if the labels
  entail the descriptor's label, the properties conform, and the pushed-down predicates
  hold, \<open>filter_node\<close> answers yes.
\<close>

theorem filter_element_complete:
  assumes "props_wf props" "desc_wf d" "desc_sat (l, props) d" "check_value_preds preds props"
  shows "filter_element l props (Some (d, preds))"
  using assms check_record_accepts [of props "dt_props d"]
  by (simp add: filter_element_def desc_sat_def desc_wf_def desc_subtype_def)

lemma filter_element_complete_witness:
  "filter_element (LLabel ''P'') [(''a'', VInt 1)]
     (Some (\<lparr>dt_label = LLabel ''P'', dt_props = Open [(''a'', TZ)]\<rparr>, [(''a'', Eq, VInt 1)]))"
  by (rule filter_element_complete)
    (simp_all add: props_wf_def desc_wf_def desc_sat_def bm_wf_def field_sat_def check_value_preds_def
      cmp_values_def is_null_def scalar_cmp_def ord_op_def)

text \<open>
  Descriptors constrain conjointly: an element satisfies the meet of two descriptors
  exactly when it satisfies both, and a list of descriptors may be met in any order and
  with any repetition.
\<close>

theorem desc_meet_exact:
  assumes "props_wf (snd e)" "desc_wf a" "list_all desc_wf ds" "set ds = set ds'"
  shows "(desc_sat e (fold desc_meet ds a) \<longleftrightarrow> desc_sat e a \<and> list_all (desc_sat e) ds)
    \<and> desc_sat e (fold desc_meet ds a) = desc_sat e (fold desc_meet ds' a)"
  using desc_meet.sat_fold_meet [OF assms(1-3)] desc_meet.sat_fold_meet_set [OF assms] by simp

lemma desc_meet_exact_witness:
  "desc_sat (LLabel ''P'', []) (fold desc_meet [desc_star, desc_star] desc_star)"
  using desc_meet_exact [of "(LLabel ''P'', [])" desc_star "[desc_star, desc_star]" "[desc_star]"]
  by (simp add: props_wf_def desc_wf_def desc_star_def open_empty_def desc_sat_def)

end
