(* ===== verification/VariableTypes.thy ===== *)
theory VariableTypes
  imports PropertyTypes
begin

text \<open>
  The types of pattern variables (\<open>src/typing/variable_type.rs\<close>): nodes, edges with their
  endpoint types, the lists a repetition binds, unions; their meet, join, subtyping and
  emptiness, and the refinement of a type against a schema. What a type describes
  (\<open>var_sat\<close>) is said of elements: a node or edge with its labels and properties, a list
  of elements, null, a path or a scalar.
\<close>

section \<open>Variable types\<close>

datatype variable_type =
    is_VtNode: VtNode (vt_desc: descriptor_type)
  | is_VtEdgeDirectional:
      VtEdgeDirectional (vt_desc: descriptor_type) (vt_left: variable_type) (vt_right: variable_type)
  | is_VtEdgeNonDirectional:
      VtEdgeNonDirectional (vt_desc: descriptor_type) (vt_left: variable_type) (vt_right: variable_type)
  | is_VtUnion: VtUnion (vt_union_left: variable_type) (vt_union_right: variable_type)
  | is_VtGroup: VtGroup (vt_elem: variable_type) (vt_min: u64)
  | VtNull
  | VtPath
  | is_VtScalar: VtScalar (vt_simple: simple_type)
  | VtZero

lemmas vt_discs = is_VtNode_def is_VtEdgeDirectional_def is_VtEdgeNonDirectional_def is_VtUnion_def
  is_VtGroup_def is_VtScalar_def

definition node_star :: variable_type where "node_star = VtNode desc_star"

definition edge_directional :: "descriptor_type \<Rightarrow> variable_type" where
  "edge_directional d = VtEdgeDirectional d node_star node_star"

definition edge_non_directional :: "descriptor_type \<Rightarrow> variable_type" where
  "edge_non_directional d = VtEdgeNonDirectional d node_star node_star"

definition vt_descriptor :: "variable_type \<Rightarrow> descriptor_type option" where
  "vt_descriptor t =
     (case t of
        VtNode d \<Rightarrow> Some d
      | VtEdgeDirectional d _ _ \<Rightarrow> Some d
      | VtEdgeNonDirectional d _ _ \<Rightarrow> Some d
      | _ \<Rightarrow> None)"

fun get_attribute :: "variable_type \<Rightarrow> string \<Rightarrow> simple_type" where
  "get_attribute (VtNode d) attr = prop_get (dt_props d) attr"
| "get_attribute (VtEdgeDirectional d _ _) attr = prop_get (dt_props d) attr"
| "get_attribute (VtEdgeNonDirectional d _ _) attr = prop_get (dt_props d) attr"
| "get_attribute (VtUnion t1 t2) attr = simple_union (get_attribute t1 attr) (get_attribute t2 attr)"
| "get_attribute (VtGroup t _) attr = TGroup (get_attribute t attr)"
| "get_attribute VtNull attr = TNull"
| "get_attribute VtPath attr = TZero"
| "get_attribute (VtScalar _) attr = TZero"
| "get_attribute VtZero attr = TZero"

section \<open>Join and meet\<close>

definition var_join :: "variable_type \<Rightarrow> variable_type \<Rightarrow> variable_type" where
  "var_join a b = (if a = VtZero then b else if b = VtZero then a else if a = b then a else VtUnion a b)"

definition join_from_list :: "variable_type list \<Rightarrow> variable_type" where
  "join_from_list types = foldl var_join VtZero types"

definition meet_edge_directional ::
    "descriptor_type \<Rightarrow> variable_type \<Rightarrow> variable_type \<Rightarrow>
     descriptor_type \<Rightarrow> variable_type \<Rightarrow> variable_type \<Rightarrow> variable_type" where
  "meet_edge_directional d1 l1 r1 d2 l2 r2 =
     (if \<not> (is_VtNode l1 \<and> is_VtNode l2) then VtZero
      else if \<not> (is_VtNode r1 \<and> is_VtNode r2) then VtZero
      else VtEdgeDirectional (desc_meet d1 d2)
             (VtNode (desc_meet (vt_desc l1) (vt_desc l2)))
             (VtNode (desc_meet (vt_desc r1) (vt_desc r2))))"

definition undirect :: "variable_type \<Rightarrow> variable_type" where
  "undirect e = VtEdgeNonDirectional (vt_desc e) (vt_left e) (vt_right e)"

definition meet_edge_non_directional ::
    "descriptor_type \<Rightarrow> variable_type \<Rightarrow> variable_type \<Rightarrow>
     descriptor_type \<Rightarrow> variable_type \<Rightarrow> variable_type \<Rightarrow> variable_type" where
  "meet_edge_non_directional d1 l1 r1 d2 l2 r2 =
     (let n1 = meet_edge_directional d1 l1 r1 d2 l2 r2;
          n2 = meet_edge_directional d1 l1 r1 d2 r2 l2
      in if is_VtEdgeDirectional n1 \<and> is_VtEdgeDirectional n2
         then var_join (undirect n1) (undirect n2) else VtZero)"

function var_meet :: "variable_type \<Rightarrow> variable_type \<Rightarrow> variable_type" where
  "var_meet a b =
     (if is_VtGroup a \<and> is_VtGroup b then
        VtGroup (var_meet (vt_elem a) (vt_elem b)) (max (vt_min a) (vt_min b))
      else if is_VtNode a \<and> is_VtNode b then VtNode (desc_meet (vt_desc a) (vt_desc b))
      else if is_VtEdgeDirectional a \<and> is_VtEdgeDirectional b then
        meet_edge_directional (vt_desc a) (vt_left a) (vt_right a) (vt_desc b) (vt_left b) (vt_right b)
      else if is_VtEdgeNonDirectional a \<and> is_VtEdgeNonDirectional b then
        meet_edge_non_directional (vt_desc a) (vt_left a) (vt_right a) (vt_desc b) (vt_left b) (vt_right b)
      else if is_VtUnion a then
        var_join (var_meet (vt_union_left a) b) (var_meet (vt_union_right a) b)
      else if is_VtUnion b then var_meet b a
      else if a = VtNull \<and> b = VtNull then VtNull
      else if a = VtPath \<and> b = VtPath then VtPath
      else if is_VtScalar a \<and> is_VtScalar b then VtScalar (simple_meet (vt_simple a) (vt_simple b))
      else VtZero)"
  by auto
termination
  by (relation "measures [\<lambda>(a, b). size a + size b, \<lambda>(a, b). if is_VtUnion a then 0 else 1]")
    (auto simp: vt_discs)

declare var_meet.simps [simp del]

section \<open>Subtyping and emptiness\<close>

definition node_endpoint_subtype :: "variable_type \<Rightarrow> variable_type \<Rightarrow> bool" where
  "node_endpoint_subtype a b \<longleftrightarrow> is_VtNode a \<and> is_VtNode b \<and> desc_subtype (vt_desc a) (vt_desc b)"

definition edge_directional_subtype ::
    "descriptor_type \<Rightarrow> variable_type \<Rightarrow> variable_type \<Rightarrow>
     descriptor_type \<Rightarrow> variable_type \<Rightarrow> variable_type \<Rightarrow> bool" where
  "edge_directional_subtype d1 l1 r1 d2 l2 r2 \<longleftrightarrow>
     desc_subtype d1 d2 \<and> node_endpoint_subtype l1 l2 \<and> node_endpoint_subtype r1 r2"

function var_subtype :: "variable_type \<Rightarrow> variable_type \<Rightarrow> bool" where
  "var_subtype t1 t2 =
     (if t1 = VtZero then True
      else if t1 = VtNull \<and> t2 = VtNull then True
      else if t1 = VtPath \<and> t2 = VtPath then True
      else if is_VtScalar t1 \<and> is_VtScalar t2 then simple_subtype (vt_simple t1) (vt_simple t2)
      else if is_VtNode t1 \<and> is_VtNode t2 then desc_subtype (vt_desc t1) (vt_desc t2)
      else if is_VtEdgeDirectional t1 \<and> is_VtEdgeDirectional t2 then
        edge_directional_subtype (vt_desc t1) (vt_left t1) (vt_right t1) (vt_desc t2) (vt_left t2) (vt_right t2)
      else if is_VtEdgeNonDirectional t1 \<and> is_VtEdgeNonDirectional t2 then
        edge_directional_subtype (vt_desc t1) (vt_left t1) (vt_right t1) (vt_desc t2) (vt_left t2) (vt_right t2) \<or>
        edge_directional_subtype (vt_desc t1) (vt_left t1) (vt_right t1) (vt_desc t2) (vt_right t2) (vt_left t2)
      else if is_VtGroup t1 \<and> is_VtGroup t2 then
        vt_min t2 \<le> vt_min t1 \<and> var_subtype (vt_elem t1) (vt_elem t2)
      else if is_VtUnion t1 then
        var_subtype (vt_union_left t1) t2 \<or> var_subtype (vt_union_right t1) t2
      else if is_VtUnion t2 then
        var_subtype t1 (vt_union_left t2) \<or> var_subtype t1 (vt_union_right t2)
      else False)"
  by auto
termination
  by (relation "measure (\<lambda>(a, b). size a + size b)") (auto simp: vt_discs)

declare var_subtype.simps [simp del]

fun var_is_empty :: "variable_type \<Rightarrow> bool" where
  "var_is_empty VtZero = True"
| "var_is_empty (VtNode d) = desc_is_empty d"
| "var_is_empty (VtEdgeDirectional d l r) = (desc_is_empty d \<or> var_is_empty l \<or> var_is_empty r)"
| "var_is_empty (VtEdgeNonDirectional d l r) = (desc_is_empty d \<or> var_is_empty l \<or> var_is_empty r)"
| "var_is_empty (VtUnion t1 t2) = (var_is_empty t1 \<and> var_is_empty t2)"
| "var_is_empty (VtGroup t n) = (n > 0 \<and> var_is_empty t)"
| "var_is_empty VtNull = False"
| "var_is_empty VtPath = False"
| "var_is_empty (VtScalar t) = simple_is_empty t"

section \<open>Schemas and refinement\<close>

record schema =
  sc_nodes :: "variable_type list"
  sc_edges :: "variable_type list"

definition schema_star :: schema where
  "schema_star =
     \<lparr>sc_nodes = [node_star], sc_edges = [edge_directional desc_star, edge_non_directional desc_star]\<rparr>"

definition refine_entries :: "variable_type list \<Rightarrow> variable_type \<Rightarrow> variable_type" where
  "refine_entries entries t =
     join_from_list
       (filter (\<lambda>m. \<not> var_is_empty m)
         (map (\<lambda>n. var_meet n t) (filter (\<lambda>n. var_subtype n t) entries)))"

fun var_refine :: "schema \<Rightarrow> variable_type \<Rightarrow> variable_type" where
  "var_refine S (VtNode d) = refine_entries (sc_nodes S) (VtNode d)"
| "var_refine S (VtEdgeDirectional d l r) = refine_entries (sc_edges S) (VtEdgeDirectional d l r)"
| "var_refine S (VtEdgeNonDirectional d l r) = refine_entries (sc_edges S) (VtEdgeNonDirectional d l r)"
| "var_refine S (VtUnion t1 t2) = var_join (var_refine S t1) (var_refine S t2)"
| "var_refine S (VtGroup t n) = VtGroup (var_refine S t) n"
| "var_refine S VtNull = VtNull"
| "var_refine S VtPath = VtPath"
| "var_refine S (VtScalar t) = VtScalar t"
| "var_refine S VtZero = VtZero"

text \<open>The explicit stack of \<open>refine_to_nodes\<close>, top first; a union pushes its left side on top.\<close>

function node_stack :: "variable_type list \<Rightarrow> variable_type list" where
  "node_stack [] = []"
| "node_stack (cur # stack) =
     (if is_VtNode cur then cur # node_stack stack
      else if is_VtUnion cur then node_stack (vt_union_left cur # vt_union_right cur # stack)
      else node_stack stack)"
  by pat_completeness auto
termination
  by (relation "measure (\<lambda>ts. 2 * sum_list (map size ts) + length ts)") (auto simp: vt_discs)

declare node_stack.simps(2) [simp del]

lemma node_stack_Cons [simp]:
  "node_stack (VtNode d # ts) = VtNode d # node_stack ts"
  "node_stack (VtUnion a b # ts) = node_stack (a # b # ts)"
  "\<not> is_VtNode t \<Longrightarrow> \<not> is_VtUnion t \<Longrightarrow> node_stack (t # ts) = node_stack ts"
  by (simp_all add: node_stack.simps(2))

definition refine_to_nodes :: "schema \<Rightarrow> variable_type \<Rightarrow> variable_type list" where
  "refine_to_nodes S t = node_stack [var_refine S t]"

section \<open>What a variable type describes\<close>

type_synonym element = "label_type \<times> props"

datatype elem =
    ENode element
  | EEdge element element element
  | EUndirected element element element
  | EList "elem list"
  | ENull
  | EPath
  | EScalar val

definition endpoint_sat :: "element \<Rightarrow> variable_type \<Rightarrow> bool" where
  "endpoint_sat e t \<longleftrightarrow> is_VtNode t \<and> desc_sat e (vt_desc t)"

fun var_sat :: "elem \<Rightarrow> variable_type \<Rightarrow> bool" where
  "var_sat e (VtNode d) = (case e of ENode n \<Rightarrow> desc_sat n d | _ \<Rightarrow> False)"
| "var_sat e (VtEdgeDirectional d l r) =
     (case e of EEdge x u v \<Rightarrow> desc_sat x d \<and> endpoint_sat u l \<and> endpoint_sat v r | _ \<Rightarrow> False)"
| "var_sat e (VtEdgeNonDirectional d l r) =
     (case e of
        EUndirected x u v \<Rightarrow>
          desc_sat x d \<and> (endpoint_sat u l \<and> endpoint_sat v r \<or> endpoint_sat v l \<and> endpoint_sat u r)
      | _ \<Rightarrow> False)"
| "var_sat e (VtUnion a b) = (var_sat e a \<or> var_sat e b)"
| "var_sat e (VtGroup t n) = (case e of EList es \<Rightarrow> unat n \<le> length es \<and> list_all (\<lambda>x. var_sat x t) es | _ \<Rightarrow> False)"
| "var_sat e VtNull = (e = ENull)"
| "var_sat e VtPath = (e = EPath)"
| "var_sat e (VtScalar t) = (case e of EScalar v \<Rightarrow> value_is_type v t | _ \<Rightarrow> False)"
| "var_sat e VtZero = False"

text \<open>Well-formed elements and types: ordered maps, and edges between node types.\<close>

fun elem_wf :: "elem \<Rightarrow> bool" where
  "elem_wf (ENode n) = props_wf (snd n)"
| "elem_wf (EEdge x u v) = (props_wf (snd x) \<and> props_wf (snd u) \<and> props_wf (snd v))"
| "elem_wf (EUndirected x u v) = (props_wf (snd x) \<and> props_wf (snd u) \<and> props_wf (snd v))"
| "elem_wf (EList es) = list_all elem_wf es"
| "elem_wf (EScalar v) = val_wf v"
| "elem_wf _ = True"

definition node_wf :: "variable_type \<Rightarrow> bool" where
  "node_wf t \<longleftrightarrow> is_VtNode t \<and> desc_wf (vt_desc t)"

fun var_wf :: "variable_type \<Rightarrow> bool" where
  "var_wf (VtNode d) = desc_wf d"
| "var_wf (VtEdgeDirectional d l r) = (desc_wf d \<and> node_wf l \<and> node_wf r)"
| "var_wf (VtEdgeNonDirectional d l r) = (desc_wf d \<and> node_wf l \<and> node_wf r)"
| "var_wf (VtUnion a b) = (var_wf a \<and> var_wf b)"
| "var_wf (VtGroup t n) = var_wf t"
| "var_wf (VtScalar t) = simple_wf t"
| "var_wf _ = True"

lemma var_sat_join [simp]: "var_sat e (var_join a b) \<longleftrightarrow> var_sat e a \<or> var_sat e b"
  by (auto simp: var_join_def)

lemma var_wf_join [simp]: "var_wf a \<Longrightarrow> var_wf b \<Longrightarrow> var_wf (var_join a b)"
  by (auto simp: var_join_def)

lemma join_snoc: "join_from_list (ts @ [t]) = var_join (join_from_list ts) t"
  by (simp add: join_from_list_def)

lemma var_sat_join_list [simp]: "var_sat e (join_from_list ts) \<longleftrightarrow> (\<exists>t \<in> set ts. var_sat e t)"
  by (induction ts rule: rev_induct) (auto simp: join_snoc, simp add: join_from_list_def)

lemma var_wf_join_list: "list_all var_wf ts \<Longrightarrow> var_wf (join_from_list ts)"
  by (induction ts rule: rev_induct) (auto simp: join_snoc, simp add: join_from_list_def)

section \<open>The arms of the meet\<close>

definition vt_apart :: "variable_type \<Rightarrow> variable_type \<Rightarrow> bool" where
  "vt_apart a b \<longleftrightarrow> \<not> is_VtUnion a \<and> \<not> is_VtUnion b \<and> \<not> (is_VtGroup a \<and> is_VtGroup b) \<and>
     \<not> (is_VtNode a \<and> is_VtNode b) \<and> \<not> (is_VtEdgeDirectional a \<and> is_VtEdgeDirectional b) \<and>
     \<not> (is_VtEdgeNonDirectional a \<and> is_VtEdgeNonDirectional b) \<and> \<not> (is_VtScalar a \<and> is_VtScalar b) \<and>
     \<not> (a = VtNull \<and> b = VtNull) \<and> \<not> (a = VtPath \<and> b = VtPath)"

lemma var_meet_apart: "vt_apart a b \<Longrightarrow> var_meet a b = VtZero"
  by (subst var_meet.simps) (auto simp: vt_apart_def)

lemma var_meet_simps [simp]:
  "var_meet (VtGroup s m) (VtGroup t n) = VtGroup (var_meet s t) (max m n)"
  "var_meet (VtNode d) (VtNode d') = VtNode (desc_meet d d')"
  "var_meet (VtEdgeDirectional d l r) (VtEdgeDirectional d' l' r') = meet_edge_directional d l r d' l' r'"
  "var_meet (VtEdgeNonDirectional d l r) (VtEdgeNonDirectional d' l' r') = meet_edge_non_directional d l r d' l' r'"
  "var_meet (VtUnion s t) b = var_join (var_meet s b) (var_meet t b)"
  "var_meet VtNull VtNull = VtNull" "var_meet VtPath VtPath = VtPath"
  "var_meet (VtScalar x) (VtScalar y) = VtScalar (simple_meet x y)"
  by (subst var_meet.simps, simp)+

lemma var_meet_swap:
  "\<not> is_VtUnion a \<Longrightarrow> var_meet a (VtUnion s t) = var_join (var_meet s a) (var_meet t a)"
  by (subst var_meet.simps) (auto simp: vt_discs)

lemma vt_pair_induct [case_names Union_left Union_right Group alike apart]:
  assumes "\<And>s t b. P s b \<Longrightarrow> P t b \<Longrightarrow> P (VtUnion s t) b"
    and "\<And>a s t. \<not> is_VtUnion a \<Longrightarrow> P s a \<Longrightarrow> P t a \<Longrightarrow> P a (VtUnion s t)"
    and "\<And>s m t n. P s t \<Longrightarrow> P (VtGroup s m) (VtGroup t n)"
    and "\<And>a b. \<not> is_VtUnion a \<Longrightarrow> \<not> is_VtUnion b \<Longrightarrow> \<not> vt_apart a b \<Longrightarrow> \<not> is_VtGroup a \<Longrightarrow> P a b"
    and "\<And>a b. vt_apart a b \<Longrightarrow> P a b"
  shows "P a b"
proof (induction "size a + size b" arbitrary: a b rule: less_induct)
  case less
  consider s t where "a = VtUnion s t" | s t where "b = VtUnion s t" "\<not> is_VtUnion a"
    | s m t n where "a = VtGroup s m" "b = VtGroup t n"
    | "vt_apart a b" | "\<not> is_VtUnion a" "\<not> is_VtUnion b" "\<not> vt_apart a b" "\<not> is_VtGroup a"
    unfolding vt_apart_def vt_discs by blast
  then show ?case
    by cases (use less in \<open>auto intro: assms\<close>)
qed

section \<open>The meet is conjunction\<close>

lemma desc_sat_meet:
  "props_wf (snd e) \<Longrightarrow> desc_wf a \<Longrightarrow> desc_wf b \<Longrightarrow>
   desc_sat e (desc_meet a b) \<longleftrightarrow> desc_sat e a \<and> desc_sat e b"
  by (rule desc_meet.sat_meet)

lemma meet_edge_sat:
  assumes "props_wf (snd x)" "props_wf (snd u)" "props_wf (snd v)"
    and "desc_wf d1" "node_wf l1" "node_wf r1" "desc_wf d2" "node_wf l2" "node_wf r2"
  shows "is_VtEdgeDirectional (meet_edge_directional d1 l1 r1 d2 l2 r2)"
    and "desc_sat x (vt_desc (meet_edge_directional d1 l1 r1 d2 l2 r2)) \<longleftrightarrow> desc_sat x d1 \<and> desc_sat x d2"
    and "endpoint_sat u (vt_left (meet_edge_directional d1 l1 r1 d2 l2 r2)) \<longleftrightarrow> endpoint_sat u l1 \<and> endpoint_sat u l2"
    and "endpoint_sat v (vt_right (meet_edge_directional d1 l1 r1 d2 l2 r2)) \<longleftrightarrow> endpoint_sat v r1 \<and> endpoint_sat v r2"
  using assms by (auto simp: meet_edge_directional_def node_wf_def endpoint_sat_def desc_sat_meet)

lemma meet_edge_wf:
  assumes "desc_wf d1" "node_wf l1" "node_wf r1" "desc_wf d2" "node_wf l2" "node_wf r2"
  shows "var_wf (meet_edge_directional d1 l1 r1 d2 l2 r2)"
  using assms desc_meet.ok_meet by (auto simp: meet_edge_directional_def node_wf_def)

lemma meet_edge_is:
  "node_wf l1 \<Longrightarrow> node_wf r1 \<Longrightarrow> node_wf l2 \<Longrightarrow> node_wf r2 \<Longrightarrow>
   is_VtEdgeDirectional (meet_edge_directional d1 l1 r1 d2 l2 r2)"
  by (simp add: meet_edge_directional_def node_wf_def)

lemma var_wf_undirect: "is_VtEdgeDirectional t \<Longrightarrow> var_wf t \<Longrightarrow> var_wf (undirect t)"
  by (auto simp: undirect_def vt_discs)

lemma meet_undirected_wf:
  assumes "desc_wf d1" "node_wf l1" "node_wf r1" "desc_wf d2" "node_wf l2" "node_wf r2"
  shows "var_wf (meet_edge_non_directional d1 l1 r1 d2 l2 r2)"
  using assms meet_edge_wf meet_edge_is var_wf_undirect
  by (simp add: meet_edge_non_directional_def)

lemma meet_undirected_sat:
  assumes e: "props_wf (snd x)" "props_wf (snd u)" "props_wf (snd v)"
    and t: "desc_wf d1" "node_wf l1" "node_wf r1" "desc_wf d2" "node_wf l2" "node_wf r2"
  shows "var_sat (EUndirected x u v) (meet_edge_non_directional d1 l1 r1 d2 l2 r2) \<longleftrightarrow>
    var_sat (EUndirected x u v) (VtEdgeNonDirectional d1 l1 r1) \<and>
    var_sat (EUndirected x u v) (VtEdgeNonDirectional d2 l2 r2)"
proof -
  note n1 = meet_edge_sat [OF e t] and n1' = meet_edge_sat [OF e(1,3,2) t]
    and n2 = meet_edge_sat [OF e t(1-4,6,5)] and n2' = meet_edge_sat [OF e(1,3,2) t(1-4,6,5)]
  show ?thesis
    by (simp add: meet_edge_non_directional_def Let_def n1(1) n2(1) undirect_def n1(2-4) n2(2-4) n1'(3,4) n2'(3,4)) blast
qed

lemma var_meet_wf: "var_wf a \<Longrightarrow> var_wf b \<Longrightarrow> var_wf (var_meet a b)"
proof (induction a b rule: vt_pair_induct)
  case (alike a b)
  then show ?case
    by (cases a; cases b)
      (auto simp: vt_apart_def desc_meet.ok_meet meet_edge_wf meet_undirected_wf simple_wf_meet)
qed (auto simp: var_meet_apart var_meet_swap)

lemma list_all_conj: "list_all (\<lambda>x. P x \<and> Q x) xs \<longleftrightarrow> list_all P xs \<and> list_all Q xs"
  by (induction xs) auto

lemma unat_max_le: "unat (max m n :: u64) \<le> k \<longleftrightarrow> unat m \<le> k \<and> unat n \<le> k"
  by (auto simp: max_def word_le_nat_alt)

lemma apart_sat: "vt_apart a b \<Longrightarrow> \<not> (var_sat e a \<and> var_sat e b)"
  by (cases a; cases b) (auto simp: vt_apart_def split: elem.splits)

lemma var_meet_sat:
  "elem_wf e \<Longrightarrow> var_wf a \<Longrightarrow> var_wf b \<Longrightarrow> var_sat e (var_meet a b) \<longleftrightarrow> var_sat e a \<and> var_sat e b"
proof (induction a b arbitrary: e rule: vt_pair_induct)
  case (Group s m t n)
  show ?case
  proof (cases e)
    case (EList es)
    have "list_all (\<lambda>x. var_sat x (var_meet s t)) es \<longleftrightarrow> list_all (\<lambda>x. var_sat x s \<and> var_sat x t) es"
      using Group EList by (auto simp: list_all_iff)
    then show ?thesis using EList by (auto simp: list_all_conj unat_max_le)
  qed auto
next
  case (alike a b)
  show ?case
  proof (cases a)
    case (VtEdgeDirectional d l r)
    then obtain d' l' r' where b: "b = VtEdgeDirectional d' l' r'" using alike by (cases b) (auto simp: vt_apart_def)
    show ?thesis
    proof (cases e)
      case (EEdge x u v)
      then have e: "props_wf (snd x)" "props_wf (snd u)" "props_wf (snd v)" using alike by auto
      have wf: "desc_wf d" "node_wf l" "node_wf r" "desc_wf d'" "node_wf l'" "node_wf r'"
        using alike VtEdgeDirectional b by auto
      have "var_sat e t \<longleftrightarrow> desc_sat x (vt_desc t) \<and> endpoint_sat u (vt_left t) \<and> endpoint_sat v (vt_right t)"
        if "is_VtEdgeDirectional t" for t using that EEdge by (auto simp: vt_discs)
      then show ?thesis
        using meet_edge_sat [OF e wf] by (simp add: VtEdgeDirectional b EEdge) blast
    qed (auto simp: VtEdgeDirectional b meet_edge_directional_def)
  next
    case (VtEdgeNonDirectional d l r)
    then obtain d' l' r' where b: "b = VtEdgeNonDirectional d' l' r'" using alike by (cases b) (auto simp: vt_apart_def)
    have wf: "desc_wf d" "node_wf l" "node_wf r" "desc_wf d'" "node_wf l'" "node_wf r'"
      using alike VtEdgeNonDirectional b by auto
    show ?thesis
    proof (cases "\<exists>x u v. e = EUndirected x u v")
      case True
      then obtain x u v where e: "e = EUndirected x u v" by blast
      then show ?thesis using meet_undirected_sat [OF _ _ _ wf] alike VtEdgeNonDirectional b
        by (simp del: var_sat.simps)
    next
      case False
      then have "\<not> var_sat e (VtEdgeNonDirectional d l r)" "\<not> var_sat e (undirect t)" for d l r t
        by (auto simp: undirect_def split: elem.splits)
      then show ?thesis
        by (simp add: VtEdgeNonDirectional b meet_edge_non_directional_def Let_def del: var_sat.simps(3))
    qed
  qed (use alike in \<open>cases b; auto simp: vt_apart_def desc_sat_meet value_is_type_meet split: elem.splits\<close>)+
qed (auto simp: var_meet_apart var_meet_swap dest: apart_sat)

interpretation var_meet: meet_sem var_sat var_meet elem_wf var_wf
  by unfold_locales (simp_all add: var_meet_sat var_meet_wf)

text \<open>
  The meet of variable types is exact: an element (node, directed or undirected edge
  with its endpoints, list, null, path, scalar) is described by \<open>meet(a, b)\<close> exactly when
  both describe it. For undirected edges the two orientations the code joins cover every
  way the endpoints can agree, and for lists the larger lower bound is the one to keep.
\<close>

theorem var_meet_exact:
  assumes "elem_wf e" "var_wf a" "var_wf b"
  shows "(var_sat e (var_meet a b) \<longleftrightarrow> var_sat e a \<and> var_sat e b) \<and> var_wf (var_meet a b)"
  using var_meet.sat_meet [OF assms] var_meet.ok_meet [OF assms(2,3)] by simp

lemma var_meet_exact_witness:
  "var_sat (EList [ENode (LLabel ''P'', [])]) (var_meet (VtGroup node_star 1) (VtGroup (VtUnion node_star VtNull) 0))"
  using var_meet_exact [of "EList [ENode (LLabel ''P'', [])]" "VtGroup node_star 1" "VtGroup (VtUnion node_star VtNull) 0"]
  by (simp add: props_wf_def node_star_def desc_star_def open_empty_def desc_wf_def desc_sat_def)

section \<open>Refinement\<close>

definition schema_wf :: "schema \<Rightarrow> bool" where
  "schema_wf S \<longleftrightarrow> list_all var_wf (sc_nodes S) \<and> list_all var_wf (sc_edges S)"

lemma refine_entries_sat:
  assumes "elem_wf e" "list_all var_wf entries" "var_wf t" "var_sat e (refine_entries entries t)"
  shows "var_sat e t \<and> (\<exists>n \<in> set entries. var_sat e n)"
  using assms var_meet_sat [OF assms(1) _ assms(3)] by (fastforce simp: refine_entries_def list_all_iff)

lemma refine_entries_wf: "list_all var_wf entries \<Longrightarrow> var_wf t \<Longrightarrow> var_wf (refine_entries entries t)"
  unfolding refine_entries_def by (rule var_wf_join_list) (auto simp: list_all_iff var_meet_wf)

lemma var_refine_wf: "schema_wf S \<Longrightarrow> var_wf t \<Longrightarrow> var_wf (var_refine S t)"
  by (induction t) (auto simp: refine_entries_wf schema_wf_def)

lemma var_refine_sat:
  "schema_wf S \<Longrightarrow> elem_wf e \<Longrightarrow> var_wf t \<Longrightarrow> var_sat e (var_refine S t) \<Longrightarrow> var_sat e t"
proof (induction t arbitrary: e)
  case (VtGroup t n)
  then show ?case by (cases e) (auto simp: list_all_iff)
next
  case (VtNode d)
  then show ?case using refine_entries_sat [of e "sc_nodes S" "VtNode d"] by (simp add: schema_wf_def)
next
  case (VtEdgeDirectional d l r)
  then show ?case using refine_entries_sat [of e "sc_edges S" "VtEdgeDirectional d l r"] by (simp add: schema_wf_def)
next
  case (VtEdgeNonDirectional d l r)
  then show ?case using refine_entries_sat [of e "sc_edges S" "VtEdgeNonDirectional d l r"] by (simp add: schema_wf_def)
qed auto

text \<open>The pattern types a match element has before any list is built around it.\<close>

fun element_type :: "variable_type \<Rightarrow> bool" where
  "element_type (VtNode _) = True"
| "element_type (VtEdgeDirectional _ _ _) = True"
| "element_type (VtEdgeNonDirectional _ _ _) = True"
| "element_type (VtUnion a b) = (element_type a \<and> element_type b)"
| "element_type VtZero = True"
| "element_type _ = False"

definition zero_or_inhabited :: "variable_type \<Rightarrow> bool" where
  "zero_or_inhabited t \<longleftrightarrow> t = VtZero \<or> \<not> var_is_empty t"

lemma zero_or_inhabited_join:
  "zero_or_inhabited a \<Longrightarrow> zero_or_inhabited b \<Longrightarrow> zero_or_inhabited (var_join a b)"
  by (auto simp: zero_or_inhabited_def var_join_def)

lemma zero_or_inhabited_join_list:
  "\<forall>t \<in> set ts. zero_or_inhabited t \<Longrightarrow> zero_or_inhabited (join_from_list ts)"
  by (induction ts rule: rev_induct)
    (auto simp: join_snoc zero_or_inhabited_join, simp add: join_from_list_def zero_or_inhabited_def)

lemma zero_or_inhabited_refine: "element_type t \<Longrightarrow> zero_or_inhabited (var_refine S t)"
proof (induction t)
  case (VtUnion a b)
  then show ?case by (simp add: zero_or_inhabited_join)
qed (auto simp: refine_entries_def zero_or_inhabited_def [of VtZero]
    intro!: zero_or_inhabited_join_list, auto simp: zero_or_inhabited_def)

text \<open>
  Refining against a schema only narrows: what the refined type describes, the type
  described before; a described node or edge also fits a schema entry. And for node and
  edge types and their unions the refined type is empty exactly when it is the bottom, so
  comparing with \<open>Zero\<close> misses no dead branch.
\<close>

theorem var_refine_narrows:
  assumes "schema_wf S" "elem_wf e" "var_wf t"
  shows "(var_sat e (var_refine S t) \<longrightarrow> var_sat e t)
    \<and> (is_VtNode t \<and> var_sat e (var_refine S t) \<longrightarrow> (\<exists>n \<in> set (sc_nodes S). var_sat e n))
    \<and> (element_type t \<longrightarrow> var_is_empty (var_refine S t) = (var_refine S t = VtZero))"
proof (intro conjI impI)
  show "var_sat e t" if "var_sat e (var_refine S t)" using that assms by (blast intro: var_refine_sat)
  show "\<exists>n \<in> set (sc_nodes S). var_sat e n" if "is_VtNode t \<and> var_sat e (var_refine S t)"
    using that assms refine_entries_sat [of e "sc_nodes S" t] by (auto simp: is_VtNode_def schema_wf_def)
  show "var_is_empty (var_refine S t) = (var_refine S t = VtZero)" if "element_type t"
    using zero_or_inhabited_refine [OF that, of S] by (auto simp: zero_or_inhabited_def)
qed

lemma var_refine_narrows_witness:
  "\<exists>n \<in> set (sc_nodes schema_star). var_sat (ENode (LLabel ''P'', [])) n"
proof -
  have "label_meet LStar LStar = LStar" by (simp add: label_meet_def and_of_def uniq_conjuncts_def)
  then have "var_refine schema_star node_star = node_star"
    by (simp add: schema_star_def node_star_def desc_star_def open_empty_def refine_entries_def
        var_subtype.simps desc_subtype_def join_from_list_def var_join_def desc_meet_def add_missing_def
        meet_fields_def desc_is_empty_def label_is_empty_def)
  then show ?thesis
    using var_refine_narrows [of schema_star "ENode (LLabel ''P'', [])" node_star]
    by (simp add: schema_star_def schema_wf_def node_star_def edge_directional_def edge_non_directional_def
        desc_star_def open_empty_def desc_wf_def props_wf_def node_wf_def desc_sat_def)
qed

text \<open>
  Beyond node and edge types the two emptiness tests of a refined type do disagree:
  the list a repetition binds over an impossible element is empty and not the bottom.
\<close>

theorem refine_group_not_zero:
  "var_is_empty (var_refine S (VtGroup VtZero 1)) \<and> var_refine S (VtGroup VtZero 1) \<noteq> VtZero"
  by simp

end
