(* ===== verification/PathTypes.thy ===== *)
theory PathTypes
  imports VariableTypes
begin

text \<open>
  The types of paths (\<open>src/typing/path_type.rs\<close>): the node types a path runs through, and
  unions of such. \<open>path_meet\<close> is what the checker does at a concatenation, where the two
  paths share a node; \<open>path_nf\<close> sends a path that describes nothing to the bottom. What a
  path type describes (\<open>path_sat\<close>) is said of the sequence of nodes of a path.
\<close>

section \<open>Path types\<close>

datatype edge_dir = DirRight | DirLeft | DirAny | DirNone

datatype path_type =
    is_PtNode: PtNode (pt_node: descriptor_type)
  | is_PtEdge: PtEdge (pt_prefix: path_type) (pt_node: descriptor_type)
  | is_PtUnion: PtUnion (pt_union_left: path_type) (pt_union_right: path_type)
  | PtZero

lemmas pt_discs = is_PtNode_def is_PtEdge_def is_PtUnion_def

definition path_default :: path_type where "path_default = PtNode desc_star"

definition path_union :: "path_type \<Rightarrow> path_type \<Rightarrow> path_type" where
  "path_union p1 p2 = (if p1 = PtZero then p2 else if p2 = PtZero then p1 else if p1 = p2 then p1 else PtUnion p1 p2)"

text \<open>\<open>reduce\<close>, and \<open>Zero\<close> of no paths.\<close>

definition union_from_list :: "path_type list \<Rightarrow> path_type" where
  "union_from_list paths = (case paths of [] \<Rightarrow> PtZero | p # ps \<Rightarrow> foldl path_union p ps)"

definition directed_edge_to_path :: "variable_type \<Rightarrow> variable_type \<Rightarrow> edge_dir \<Rightarrow> path_type" where
  "directed_edge_to_path l r dir =
     (if \<not> is_VtNode l then PtZero
      else if \<not> is_VtNode r then PtZero
      else let forward = PtEdge (PtNode (vt_desc l)) (vt_desc r);
               reversed = PtEdge (PtNode (vt_desc r)) (vt_desc l)
           in case dir of
                DirRight \<Rightarrow> forward
              | DirLeft \<Rightarrow> reversed
              | DirAny \<Rightarrow> path_union forward reversed
              | DirNone \<Rightarrow> path_union forward reversed)"

fun path_from_variable :: "variable_type \<Rightarrow> edge_dir \<Rightarrow> path_type" where
  "path_from_variable (VtNode d) dir = PtNode d"
| "path_from_variable (VtEdgeDirectional d l r) dir = directed_edge_to_path l r dir"
| "path_from_variable (VtEdgeNonDirectional d l r) dir = directed_edge_to_path l r DirAny"
| "path_from_variable (VtUnion t1 t2) dir = path_union (path_from_variable t1 dir) (path_from_variable t2 dir)"
| "path_from_variable _ dir = PtZero"

fun path_len :: "path_type \<Rightarrow> nat" where
  "path_len (PtNode _) = 0"
| "path_len (PtEdge p1 _) = path_len p1 + 1"
| "path_len (PtUnion p1 p2) = min (path_len p1) (path_len p2)"
| "path_len PtZero = 0"

fun path_is_empty :: "path_type \<Rightarrow> bool" where
  "path_is_empty (PtNode _) = True"
| "path_is_empty PtZero = True"
| "path_is_empty (PtEdge _ _) = False"
| "path_is_empty (PtUnion p1 p2) = (path_is_empty p1 \<or> path_is_empty p2)"

fun is_unsatisfiable :: "path_type \<Rightarrow> bool" where
  "is_unsatisfiable PtZero = True"
| "is_unsatisfiable (PtNode d) = desc_is_empty d"
| "is_unsatisfiable (PtEdge p1 d) = (is_unsatisfiable p1 \<or> desc_is_empty d)"
| "is_unsatisfiable (PtUnion p1 p2) = (is_unsatisfiable p1 \<and> is_unsatisfiable p2)"

fun path_first :: "path_type \<Rightarrow> variable_type" where
  "path_first (PtNode d) = VtNode d"
| "path_first (PtEdge p1 _) = path_first p1"
| "path_first (PtUnion a b) = var_join (path_first a) (path_first b)"
| "path_first PtZero = VtZero"

fun path_last :: "path_type \<Rightarrow> variable_type" where
  "path_last (PtNode d) = VtNode d"
| "path_last (PtEdge _ d) = VtNode d"
| "path_last (PtUnion a b) = var_join (path_last a) (path_last b)"
| "path_last PtZero = VtZero"

definition path_nf :: "path_type \<Rightarrow> path_type" where
  "path_nf p = (if is_unsatisfiable p then PtZero else p)"

fun path_cons :: "path_type \<Rightarrow> variable_type \<Rightarrow> path_type" where
  "path_cons p (VtNode d) = path_nf (PtEdge p d)"
| "path_cons p (VtUnion a b) = path_union (path_cons p a) (path_cons p b)"
| "path_cons p (VtGroup inner _) = path_cons p inner"
| "path_cons p _ = PtZero"

text \<open>The node descriptors of a refined meet: \<open>refine_to_nodes\<close>, then \<open>node_descriptor\<close>.\<close>

definition met_nodes :: "schema \<Rightarrow> descriptor_type \<Rightarrow> descriptor_type \<Rightarrow> descriptor_type list" where
  "met_nodes S d1 d2 = List.map_filter vt_descriptor (filter is_VtNode (refine_to_nodes S (VtNode (desc_meet d1 d2))))"

definition drop_unsatisfiable :: "path_type \<Rightarrow> path_type \<Rightarrow> path_type" where
  "drop_unsatisfiable m1 m2 =
     (if is_unsatisfiable m1 then m2 else if is_unsatisfiable m2 then m1 else path_union m1 m2)"

function path_meet :: "schema \<Rightarrow> path_type \<Rightarrow> path_type \<Rightarrow> path_type" where
  "path_meet S p1 p2 =
     (if p1 = PtZero \<or> p2 = PtZero then PtZero
      else if is_PtNode p1 \<and> is_PtNode p2 then
        union_from_list (map PtNode (met_nodes S (pt_node p1) (pt_node p2)))
      else if is_PtEdge p1 \<and> is_PtNode p2 then
        union_from_list (map (PtEdge (pt_prefix p1)) (met_nodes S (pt_node p1) (pt_node p2)))
      else if is_PtEdge p2 then path_nf (PtEdge (path_meet S p1 (pt_prefix p2)) (pt_node p2))
      else if is_PtUnion p2 then
        drop_unsatisfiable (path_meet S p1 (pt_union_left p2)) (path_meet S p1 (pt_union_right p2))
      else drop_unsatisfiable (path_meet S (pt_union_left p1) p2) (path_meet S (pt_union_right p1) p2))"
  by auto
termination
  by (relation "measure (\<lambda>(S, a, b). size a + size b)") (auto simp: pt_discs, (case_tac p1; case_tac p2; auto)+)

declare path_meet.simps [simp del]

section \<open>What a path type describes\<close>

text \<open>The sequence of the nodes of a path, first to last.\<close>

fun path_sat :: "element list \<Rightarrow> path_type \<Rightarrow> bool" where
  "path_sat ns (PtNode d) = (case ns of [n] \<Rightarrow> desc_sat n d | _ \<Rightarrow> False)"
| "path_sat ns (PtEdge p d) = (ns \<noteq> [] \<and> path_sat (butlast ns) p \<and> desc_sat (last ns) d)"
| "path_sat ns (PtUnion a b) = (path_sat ns a \<or> path_sat ns b)"
| "path_sat ns PtZero = False"

lemma path_sat_nonempty: "path_sat ns p \<Longrightarrow> ns \<noteq> []"
  by (induction p) auto

lemma path_sat_union [simp]: "path_sat ns (path_union a b) \<longleftrightarrow> path_sat ns a \<or> path_sat ns b"
  by (auto simp: path_union_def)

lemma path_sat_union_foldl: "path_sat ns (foldl path_union p ps) \<longleftrightarrow> path_sat ns p \<or> (\<exists>q \<in> set ps. path_sat ns q)"
  by (induction ps arbitrary: p) auto

lemma path_sat_union_list [simp]: "path_sat ns (union_from_list ps) \<longleftrightarrow> (\<exists>q \<in> set ps. path_sat ns q)"
  by (cases ps) (auto simp: union_from_list_def path_sat_union_foldl)

lemma path_sat_nf: "path_sat ns (path_nf p) \<Longrightarrow> path_sat ns p"
  by (auto simp: path_nf_def split: if_splits)

lemma path_sat_drop: "path_sat ns (drop_unsatisfiable a b) \<Longrightarrow> path_sat ns a \<or> path_sat ns b"
  by (auto simp: drop_unsatisfiable_def split: if_splits)

fun path_wf_type :: "path_type \<Rightarrow> bool" where
  "path_wf_type (PtNode d) = desc_wf d"
| "path_wf_type (PtEdge p d) = (path_wf_type p \<and> desc_wf d)"
| "path_wf_type (PtUnion a b) = (path_wf_type a \<and> path_wf_type b)"
| "path_wf_type PtZero = True"

lemma node_stack_sat: "t \<in> set (node_stack ts) \<Longrightarrow> is_VtNode t \<and> (\<forall>e. var_sat e t \<longrightarrow> (\<exists>u \<in> set ts. var_sat e u))"
proof (induction ts rule: node_stack.induct)
  case (2 cur stack)
  show ?case
  proof (cases "is_VtNode cur")
    case True
    then obtain d where "cur = VtNode d" by (auto simp: is_VtNode_def)
    then have "t = cur \<or> t \<in> set (node_stack stack)" using 2(4) by auto
    then show ?thesis using 2(1) [OF True] True by auto
  next
    case nn: False
    show ?thesis
    proof (cases "is_VtUnion cur")
      case True
      then obtain a b where "cur = VtUnion a b" by (auto simp: is_VtUnion_def)
      then show ?thesis using 2(2) [OF nn] 2(4) by fastforce
    qed (use 2 nn in auto)
  qed
qed simp

lemma met_nodes_sat:
  assumes "schema_wf S" "props_wf (snd e)" "desc_wf d1" "desc_wf d2" "d \<in> set (met_nodes S d1 d2)" "desc_sat e d"
  shows "desc_sat e d1 \<and> desc_sat e d2"
proof -
  let ?t = "VtNode (desc_meet d1 d2)"
  obtain t where t: "t \<in> set (node_stack [var_refine S ?t])" "t = VtNode d"
    using assms(5) by (auto simp: met_nodes_def refine_to_nodes_def map_filter_def vt_descriptor_def is_VtNode_def)
  have "var_sat (ENode e) t" using t(2) assms(6) by simp
  then have "var_sat (ENode e) (var_refine S ?t)" using node_stack_sat [OF t(1)] by auto
  then have "var_sat (ENode e) ?t"
    by (rule var_refine_sat [OF assms(1), rotated 2]) (use assms desc_meet.ok_meet in auto)
  then show ?thesis using assms(2-4) by (simp add: desc_sat_meet)
qed

lemma path_meet_zero [simp]: "path_meet S PtZero p = PtZero" "path_meet S p PtZero = PtZero"
  by (subst path_meet.simps; simp)+

lemma path_meet_simps [simp]:
  "path_meet S (PtNode d1) (PtNode d2) = union_from_list (map PtNode (met_nodes S d1 d2))"
  "path_meet S (PtEdge p d1) (PtNode d2) = union_from_list (map (PtEdge p) (met_nodes S d1 d2))"
  "p1 \<noteq> PtZero \<Longrightarrow> path_meet S p1 (PtEdge p d) = path_nf (PtEdge (path_meet S p1 p) d)"
  "p1 \<noteq> PtZero \<Longrightarrow> path_meet S p1 (PtUnion a b) = drop_unsatisfiable (path_meet S p1 a) (path_meet S p1 b)"
  "path_meet S (PtUnion a b) (PtNode d) =
     drop_unsatisfiable (path_meet S a (PtNode d)) (path_meet S b (PtNode d))"
  by (subst path_meet.simps; simp)+

text \<open>Induction along the recursion: on the right operand, and on the left at a node.\<close>

lemma path_pair_induct [case_names Zero Node_Node Edge_Node Union_Node Edge Union]:
  assumes "\<And>p q. p = PtZero \<or> q = PtZero \<Longrightarrow> P p q"
    and "\<And>d1 d2. P (PtNode d1) (PtNode d2)"
    and "\<And>p d1 d2. P (PtEdge p d1) (PtNode d2)"
    and "\<And>a b d. P a (PtNode d) \<Longrightarrow> P b (PtNode d) \<Longrightarrow> P (PtUnion a b) (PtNode d)"
    and "\<And>p q d. p \<noteq> PtZero \<Longrightarrow> P p q \<Longrightarrow> P p (PtEdge q d)"
    and "\<And>p a b. p \<noteq> PtZero \<Longrightarrow> P p a \<Longrightarrow> P p b \<Longrightarrow> P p (PtUnion a b)"
  shows "P p q"
proof (induction q)
  case (PtNode d)
  show ?case by (induction p) (auto intro: assms)
qed (cases "p = PtZero"; auto intro: assms)+

lemma path_sat_Node: "path_sat ns (PtNode d) \<longleftrightarrow> (\<exists>n. ns = [n] \<and> desc_sat n d)"
  by (auto split: list.splits)

text \<open>Two node sequences joined at the node they share.\<close>

definition joins :: "element list \<Rightarrow> element list \<Rightarrow> element list \<Rightarrow> bool" where
  "joins zs xs ys \<longleftrightarrow> xs \<noteq> [] \<and> ys \<noteq> [] \<and> last xs = hd ys \<and> zs = xs @ tl ys"

lemma joins_snoc: "joins zs xs ys \<Longrightarrow> joins (zs @ [n]) xs (ys @ [n])"
  by (auto simp: joins_def)

lemma joins_single: "xs \<noteq> [] \<Longrightarrow> joins xs xs [last xs]"
  by (simp add: joins_def)

definition elements_wf :: "element list \<Rightarrow> bool" where
  "elements_wf ns \<longleftrightarrow> list_all (\<lambda>n. props_wf (snd n)) ns"

lemma elements_wf_last: "elements_wf ns \<Longrightarrow> ns \<noteq> [] \<Longrightarrow> props_wf (snd (last ns))"
  by (simp add: elements_wf_def list_all_iff)

lemma elements_wf_butlast: "elements_wf ns \<Longrightarrow> elements_wf (butlast ns)"
  by (auto simp: elements_wf_def list_all_iff dest: in_set_butlastD)

lemma path_meet_sat:
  "schema_wf S \<Longrightarrow> elements_wf ns \<Longrightarrow> path_wf_type p \<Longrightarrow> path_wf_type q \<Longrightarrow>
   path_sat ns (path_meet S p q) \<Longrightarrow> \<exists>xs ys. joins ns xs ys \<and> path_sat xs p \<and> path_sat ys q"
proof (induction p q arbitrary: ns rule: path_pair_induct)
  case (Node_Node d1 d2)
  then obtain n d where n: "ns = [n]" "d \<in> set (met_nodes S d1 d2)" "desc_sat n d"
    by (auto simp: path_sat_Node simp del: path_sat.simps)
  then have "desc_sat n d1 \<and> desc_sat n d2"
    using Node_Node met_nodes_sat [of S n d1 d2 d] by (simp add: elements_wf_def)
  then show ?case using n joins_single [of "[n]"] by (intro exI [of _ "[n]"]) simp
next
  case (Edge_Node p d1 d2)
  then obtain d where d: "ns \<noteq> []" "path_sat (butlast ns) p" "d \<in> set (met_nodes S d1 d2)" "desc_sat (last ns) d"
    by auto
  then have "desc_sat (last ns) d1 \<and> desc_sat (last ns) d2"
    using Edge_Node met_nodes_sat [of S "last ns" d1 d2 d] elements_wf_last by simp
  then show ?case using d joins_single [of ns] by (intro exI [of _ ns] exI [of _ "[last ns]"]) simp
next
  case (Edge p q d)
  then have ns: "ns \<noteq> []" "path_sat (butlast ns) (path_meet S p q)" "desc_sat (last ns) d"
    by (auto dest: path_sat_nf)
  then obtain xs ys where j: "joins (butlast ns) xs ys" "path_sat xs p" "path_sat ys q"
    using Edge elements_wf_butlast by (metis path_wf_type.simps(2))
  have "joins ns xs (ys @ [last ns])" using joins_snoc [OF j(1), of "last ns"] ns(1) by simp
  then show ?case using j ns(3) by (intro exI [of _ xs] exI [of _ "ys @ [last ns]"]) simp
next
  case (Union_Node a b d)
  then show ?case by (auto dest!: path_sat_drop) blast+
next
  case (Union p a b)
  then show ?case by (auto dest!: path_sat_drop) blast+
qed auto

text \<open>
  C25: The path type of a concatenation describes only concatenations: a node sequence
  described by \<open>meet(P, Q)\<close> splits at a shared node into one that \<open>P\<close> describes and one
  that \<open>Q\<close> describes, for all unions and lengths.
\<close>

theorem path_meet_sound:
  assumes "schema_wf S" "elements_wf ns" "path_wf_type p" "path_wf_type q" "path_sat ns (path_meet S p q)"
  shows "\<exists>xs ys. joins ns xs ys \<and> path_sat xs p \<and> path_sat ys q"
  using assms by (rule path_meet_sat)

lemma path_meet_sound_witness:
  "\<exists>xs ys. joins [(LLabel ''P'', [])] xs ys \<and> path_sat xs path_default \<and> path_sat ys path_default"
proof -
  have lm: "label_meet LStar LStar = LStar" by (simp add: label_meet_def and_of_def uniq_conjuncts_def)
  have dm: "desc_meet desc_star desc_star = desc_star"
    by (simp add: desc_meet_def desc_star_def lm open_empty_def add_missing_def meet_fields_def)
  have "var_refine schema_star (VtNode desc_star) = VtNode desc_star"
    by (simp add: schema_star_def node_star_def refine_entries_def dm)
      (simp add: var_subtype.simps desc_subtype_def desc_star_def open_empty_def join_from_list_def
        var_join_def desc_is_empty_def label_is_empty_def)
  then have "path_meet schema_star path_default path_default = PtNode desc_star"
    by (simp add: path_default_def met_nodes_def refine_to_nodes_def dm map_filter_def vt_descriptor_def
        union_from_list_def)
  then show ?thesis
    by (intro path_meet_sound [of schema_star])
      (simp_all add: schema_star_def schema_wf_def node_star_def edge_directional_def edge_non_directional_def
        path_default_def desc_star_def open_empty_def desc_wf_def node_wf_def elements_wf_def props_wf_def desc_sat_def)
qed

section \<open>The normal form\<close>

text \<open>A path type none of whose parts is unsatisfiable.\<close>

fun path_live :: "path_type \<Rightarrow> bool" where
  "path_live PtZero = False"
| "path_live (PtNode d) = (\<not> desc_is_empty d)"
| "path_live (PtEdge p d) = (path_live p \<and> \<not> desc_is_empty d)"
| "path_live (PtUnion a b) = (path_live a \<and> path_live b)"

definition normal :: "path_type \<Rightarrow> bool" where
  "normal p \<longleftrightarrow> p = PtZero \<or> path_live p"

lemma live_satisfiable: "path_live p \<Longrightarrow> \<not> is_unsatisfiable p"
  by (induction p) auto

lemma normal_unsatisfiable: "normal p \<Longrightarrow> is_unsatisfiable p \<longleftrightarrow> p = PtZero"
  by (auto simp: normal_def dest: live_satisfiable)

lemma normal_Zero [simp]: "normal PtZero"
  by (simp add: normal_def)

lemma normal_union: "normal a \<Longrightarrow> normal b \<Longrightarrow> normal (path_union a b)"
  by (auto simp: normal_def path_union_def)

lemma normal_foldl: "normal p \<Longrightarrow> \<forall>q \<in> set ps. normal q \<Longrightarrow> normal (foldl path_union p ps)"
  by (induction ps arbitrary: p) (auto simp: normal_union)

lemma normal_union_list: "\<forall>q \<in> set ps. normal q \<Longrightarrow> normal (union_from_list ps)"
  by (cases ps) (auto simp: union_from_list_def normal_foldl)

lemma normal_nf_edge: "normal p \<Longrightarrow> normal (path_nf (PtEdge p d))"
  by (auto simp: normal_def path_nf_def)

lemma normal_drop: "normal a \<Longrightarrow> normal b \<Longrightarrow> normal (drop_unsatisfiable a b)"
  by (auto simp: drop_unsatisfiable_def normal_union)

text \<open>Refined node types: unions of inhabited nodes.\<close>

fun inhabited_nodes :: "variable_type \<Rightarrow> bool" where
  "inhabited_nodes (VtNode d) = (\<not> desc_is_empty d)"
| "inhabited_nodes (VtUnion a b) = (inhabited_nodes a \<and> inhabited_nodes b)"
| "inhabited_nodes VtZero = True"
| "inhabited_nodes _ = False"

lemma inhabited_nodes_join_list: "\<forall>t \<in> set ts. inhabited_nodes t \<Longrightarrow> inhabited_nodes (join_from_list ts)"
  by (induction ts rule: rev_induct) (auto simp: join_snoc var_join_def, simp add: join_from_list_def)

lemma node_stack_inhabited:
  "\<forall>u \<in> set ts. inhabited_nodes u \<Longrightarrow> t \<in> set (node_stack ts) \<Longrightarrow> inhabited_nodes t"
proof (induction ts rule: node_stack.induct)
  case (2 cur stack)
  then show ?case by (cases cur) (auto simp: node_stack.simps(2))
qed simp

lemma met_nodes_inhabited:
  assumes "list_all is_VtNode (sc_nodes S)" "d \<in> set (met_nodes S d1 d2)"
  shows "\<not> desc_is_empty d"
proof -
  let ?t = "VtNode (desc_meet d1 d2)"
  obtain t where t: "t \<in> set (node_stack [var_refine S ?t])" "t = VtNode d"
    using assms(2) by (auto simp: met_nodes_def refine_to_nodes_def map_filter_def vt_descriptor_def is_VtNode_def)
  have "inhabited_nodes (var_refine S ?t)"
    using assms(1) unfolding var_refine.simps refine_entries_def
    by (intro inhabited_nodes_join_list) (auto simp: list_all_iff is_VtNode_def)
  then have "inhabited_nodes t" using node_stack_inhabited [of "[var_refine S ?t]" t] t(1) by simp
  then show ?thesis using t(2) by simp
qed

lemma normal_meet:
  "list_all is_VtNode (sc_nodes S) \<Longrightarrow> normal p \<Longrightarrow> normal q \<Longrightarrow> normal (path_meet S p q)"
proof (induction p q rule: path_pair_induct)
  case (Node_Node d1 d2)
  then have "\<forall>r \<in> set (map PtNode (met_nodes S d1 d2)). normal r"
    by (auto simp: normal_def dest: met_nodes_inhabited)
  then show ?case unfolding path_meet_simps by (rule normal_union_list)
next
  case (Edge_Node p d1 d2)
  then have "\<forall>r \<in> set (map (PtEdge p) (met_nodes S d1 d2)). normal r"
    by (auto simp: normal_def dest: met_nodes_inhabited)
  then show ?case unfolding path_meet_simps by (rule normal_union_list)
next
  case (Union_Node a b d)
  then have "normal a" "normal b" by (auto simp: normal_def)
  then show ?case using Union_Node by (simp add: normal_drop)
next
  case (Edge p q d)
  then have "normal q" by (auto simp: normal_def)
  then show ?case using Edge by (simp add: normal_nf_edge)
next
  case (Union p a b)
  then have "normal a" "normal b" by (auto simp: normal_def)
  then show ?case using Union by (simp add: normal_drop)
qed auto

lemma normal_cons: "normal p \<Longrightarrow> normal (path_cons p t)"
  by (induction t) (auto simp: normal_nf_edge normal_union)

text \<open>
  C26: Emptiness can be read off the shape. A path type is normal when it is the bottom or none
  of its parts is unsatisfiable. From normal path types, and for a schema whose node entries
  are node types, \<open>meet\<close>, \<open>cons\<close> and \<open>union\<close> give normal path types again; and a normal path
  type, be it an operand or one of these results, is unsatisfiable exactly when it is the bottom.
\<close>

theorem path_normal_form:
  assumes "list_all is_VtNode (sc_nodes S)" "normal p" "normal q"
  shows "list_all (\<lambda>r. normal r \<and> (is_unsatisfiable r \<longleftrightarrow> r = PtZero)) [p, q, path_meet S p q, path_cons p t, path_union p q]"
  using assms normal_meet [OF assms] normal_cons [OF assms(2)] normal_union [OF assms(2,3)]
  by (simp add: normal_unsatisfiable)

lemma path_normal_form_witness:
  "normal (path_cons path_default node_star) \<and> normal (path_meet schema_star path_default path_default)
   \<and> \<not> is_unsatisfiable path_default"
  using path_normal_form [of schema_star path_default path_default node_star]
  by (simp add: schema_star_def node_star_def path_default_def normal_def desc_star_def desc_is_empty_def
      label_is_empty_def open_empty_def)

end
