(* ===== verification/TypeEnvs.thy ===== *)
theory TypeEnvs
  imports PathTypes "HOL-Library.AList"
begin

text \<open>
  Type environments (\<open>src/typing/type_environment.rs\<close>): the variables of a pattern and
  their types, and the three ways the checker combines two of them, for alternatives
  (\<open>env_union\<close>), for patterns that hold together (\<open>env_meet\<close>) and for \<open>OPTIONAL\<close>
  (\<open>outer_join\<close>). The \<open>HashMap\<close> of bindings is the list of its entries in iteration order,
  with one entry for each key.
\<close>

section \<open>Environments\<close>

type_synonym env = "(string \<times> variable_type) list"

definition env_wf :: "env \<Rightarrow> bool" where
  "env_wf \<Gamma> \<longleftrightarrow> distinct (map fst \<Gamma>)"

definition env_new :: env where "env_new = []"

definition env_set :: "env \<Rightarrow> string \<Rightarrow> variable_type \<Rightarrow> env" where
  "env_set \<Gamma> key t = AList.update key t \<Gamma>"

definition env_get :: "env \<Rightarrow> string \<Rightarrow> variable_type option" where
  "env_get \<Gamma> key = map_of \<Gamma> key"

definition env_keys :: "env \<Rightarrow> string list" where
  "env_keys \<Gamma> = map fst \<Gamma>"

text \<open>\<open>create_context\<close> looks only at the descriptor's variable.\<close>

definition create_context :: "string option \<Rightarrow> variable_type \<Rightarrow> env" where
  "create_context var t = (case var of Some x \<Rightarrow> env_set env_new x t | None \<Rightarrow> env_new)"

definition merge_union :: "variable_type option \<Rightarrow> variable_type option \<Rightarrow> variable_type" where
  "merge_union oa ob =
     (case (oa, ob) of
        (Some ta, Some tb) \<Rightarrow> var_join ta tb
      | (Some ta, None) \<Rightarrow> var_join ta VtNull
      | (None, Some tb) \<Rightarrow> var_join VtNull tb
      | (None, None) \<Rightarrow> VtZero)"

definition env_union :: "env \<Rightarrow> env \<Rightarrow> env" where
  "env_union a b =
     map (\<lambda>key. (key, merge_union (map_of a key) (map_of b key))) (remdups (map fst a @ map fst b))"

datatype env_error = CannotReconcile string variable_type variable_type

fun env_meet_loop :: "schema \<Rightarrow> env \<Rightarrow> env \<Rightarrow> env_error + env" where
  "env_meet_loop S result [] = Inr result"
| "env_meet_loop S result ((key, other) # rest) =
     (case map_of result key of
        Some self_t \<Rightarrow>
          let met = var_meet self_t other
          in if met = VtZero \<and> \<not> var_is_empty self_t \<and> \<not> var_is_empty other
             then Inl (CannotReconcile key self_t other)
             else env_meet_loop S (AList.update key (var_refine S met) result) rest
      | None \<Rightarrow> env_meet_loop S (AList.update key other result) rest)"

definition env_meet :: "schema \<Rightarrow> env \<Rightarrow> env \<Rightarrow> env_error + env" where
  "env_meet S a b = env_meet_loop S a b"

definition outer_join :: "schema \<Rightarrow> env \<Rightarrow> env \<Rightarrow> env" where
  "outer_join S a b =
     map (\<lambda>(key, t1).
       (key, case map_of b key of
               Some t2 \<Rightarrow> var_join t1 (var_refine S (var_meet t1 t2))
             | None \<Rightarrow> t1)) a
     @ map (\<lambda>(key, t2). (key, var_join t2 VtNull)) (filter (\<lambda>(key, _). map_of a key = None) b)"

definition env_is_empty :: "env \<Rightarrow> bool" where
  "env_is_empty \<Gamma> = list_ex (\<lambda>(_, v). var_is_empty v) \<Gamma>"

definition to_group :: "env \<Rightarrow> u64 \<Rightarrow> env" where
  "to_group \<Gamma> lo = map (\<lambda>(k, v). (k, VtGroup v lo)) \<Gamma>"

section \<open>Lookups\<close>

lemma map_of_env_union:
  "map_of (env_union a b) key =
     (if map_of a key = None \<and> map_of b key = None then None
      else Some (merge_union (map_of a key) (map_of b key)))"
proof -
  have m: "map_of (map (\<lambda>k. (k, f k)) ks) key = (if key \<in> set ks then Some (f key) else None)" for f and ks :: "string list"
    by (induction ks) auto
  show ?thesis by (auto simp: env_union_def m map_of_eq_None_iff)
qed

lemma map_of_update: "map_of (AList.update k v al) = (map_of al)(k \<mapsto> v)"
  by (rule update_conv')

text \<open>The environment two environments meet in, and the keys they cannot agree on.\<close>

definition met :: "schema \<Rightarrow> variable_type option \<Rightarrow> variable_type option \<Rightarrow> variable_type option" where
  "met S oa ob =
     (case (oa, ob) of
        (Some s, Some t) \<Rightarrow> Some (var_refine S (var_meet s t))
      | (None, ob) \<Rightarrow> ob
      | (oa, None) \<Rightarrow> oa)"

definition clash :: "variable_type \<Rightarrow> variable_type \<Rightarrow> bool" where
  "clash s t \<longleftrightarrow> var_meet s t = VtZero \<and> \<not> var_is_empty s \<and> \<not> var_is_empty t"

lemma env_meet_loop_Inr:
  "distinct (map fst b) \<Longrightarrow> env_meet_loop S a b = Inr r \<Longrightarrow> map_of r key = met S (map_of a key) (map_of b key)"
proof (induction S a b rule: env_meet_loop.induct)
  case (1 S result)
  then show ?case by (auto simp: met_def split: option.splits)
next
  case (2 S result k other rest)
  have k: "map_of rest k = None" using 2(3) by (simp add: map_of_eq_None_iff)
  show ?case
  proof (cases "map_of result k")
    case None
    then show ?thesis
      using 2(1) [OF None] 2(3,4) k by (auto simp: map_of_update met_def split: option.splits if_splits)
  next
    case (Some s)
    then show ?thesis
      using 2(2) [OF Some refl] 2(3,4) k
      by (auto simp: map_of_update met_def Let_def split: option.splits if_splits)
  qed
qed

lemma env_meet_loop_Inl:
  "distinct (map fst b) \<Longrightarrow> env_meet_loop S a b = Inl (CannotReconcile key s t) \<Longrightarrow>
   map_of a key = Some s \<and> map_of b key = Some t \<and> clash s t"
proof (induction S a b rule: env_meet_loop.induct)
  case (2 S result k other rest)
  have k: "map_of rest k = None" using 2(3) by (simp add: map_of_eq_None_iff)
  show ?case
  proof (cases "map_of result k")
    case None
    then show ?thesis using 2(1) [OF None] 2(3,4) k by (auto simp: map_of_update split: if_splits)
  next
    case (Some u)
    show ?thesis
    proof (cases "clash u other")
      case True
      then show ?thesis using Some 2(4) by (auto simp: clash_def)
    next
      case False
      then have "\<not> (var_meet u other = VtZero \<and> \<not> var_is_empty u \<and> \<not> var_is_empty other)" by (simp add: clash_def)
      then show ?thesis using 2(2) [OF Some refl] 2(3,4) Some k
        by (auto simp: map_of_update Let_def split: if_splits)
    qed
  qed
qed simp

section \<open>What an environment says of an assignment\<close>

type_synonym assignment = "string \<Rightarrow> elem option"

definition binds :: "assignment \<Rightarrow> string \<Rightarrow> variable_type \<Rightarrow> bool" where
  "binds \<mu> k t \<longleftrightarrow> (case \<mu> k of Some e \<Rightarrow> var_sat e t | None \<Rightarrow> False)"

definition env_sat :: "assignment \<Rightarrow> env \<Rightarrow> bool" where
  "env_sat \<mu> \<Gamma> \<longleftrightarrow> list_all (\<lambda>(k, t). binds \<mu> k t) \<Gamma>"

lemma env_sat_lookup: "env_wf \<Gamma> \<Longrightarrow> env_sat \<mu> \<Gamma> \<longleftrightarrow> (\<forall>k t. map_of \<Gamma> k = Some t \<longrightarrow> binds \<mu> k t)"
  by (auto simp: env_sat_def env_wf_def list_all_iff dest: map_of_SomeD)

definition env_types_wf :: "env \<Rightarrow> bool" where
  "env_types_wf \<Gamma> \<longleftrightarrow> env_wf \<Gamma> \<and> (\<forall>k t. map_of \<Gamma> k = Some t \<longrightarrow> var_wf t)"

definition assignment_wf :: "assignment \<Rightarrow> bool" where
  "assignment_wf \<mu> \<longleftrightarrow> (\<forall>k e. \<mu> k = Some e \<longrightarrow> elem_wf e)"

lemma binds_refine_meet:
  assumes "schema_wf S" "assignment_wf \<mu>" "var_wf s" "var_wf t" "binds \<mu> k (var_refine S (var_meet s t))"
  shows "binds \<mu> k s \<and> binds \<mu> k t"
proof -
  obtain e where e: "\<mu> k = Some e" "var_sat e (var_refine S (var_meet s t))"
    using assms(5) by (auto simp: binds_def split: option.splits)
  then have "elem_wf e" using assms(2) by (auto simp: assignment_wf_def)
  then have "var_sat e (var_meet s t)" using var_refine_sat assms var_meet_wf e(2) by blast
  then show ?thesis using var_meet_sat [OF \<open>elem_wf e\<close> assms(3,4)] e(1) by (simp add: binds_def)
qed

lemma distinct_update: "env_wf a \<Longrightarrow> env_wf (AList.update k v a)"
  unfolding env_wf_def by (rule distinct_update)

lemma env_meet_loop_wf: "env_wf a \<Longrightarrow> env_meet_loop S a b = Inr r \<Longrightarrow> env_wf r"
  by (induction S a b rule: env_meet_loop.induct)
    (auto simp: Let_def distinct_update split: option.splits if_splits)

text \<open>
  C27: Meeting two environments only adds information: every assignment the met
  environment describes is described by both; and the error is justified, an assignment
  described by both environments never makes \<open>meet\<close> report that it cannot reconcile a
  variable.
\<close>

theorem env_meet_sound:
  assumes "schema_wf S" "assignment_wf \<mu>" "env_types_wf a" "env_types_wf b"
  shows "(env_meet S a b = Inr r \<and> env_sat \<mu> r \<longrightarrow> env_sat \<mu> a \<and> env_sat \<mu> b)
    \<and> (env_sat \<mu> a \<and> env_sat \<mu> b \<longrightarrow> (\<exists>r. env_meet S a b = Inr r))"
proof (intro conjI impI)
  have wf: "env_wf a" "env_wf b" and types: "\<And>k t. map_of a k = Some t \<Longrightarrow> var_wf t" "\<And>k t. map_of b k = Some t \<Longrightarrow> var_wf t"
    using assms(3,4) by (auto simp: env_types_wf_def)
  {
    assume r: "env_meet S a b = Inr r \<and> env_sat \<mu> r"
    have rwf: "env_wf r" using env_meet_loop_wf [OF wf(1)] r by (auto simp: env_meet_def)
    have look: "map_of r k = met S (map_of a k) (map_of b k)" for k
      using env_meet_loop_Inr [of b S a r k] r wf(2) by (simp add: env_meet_def env_wf_def)
    have both: "binds \<mu> k s \<and> binds \<mu> k t" if "map_of a k = Some s" "map_of b k = Some t" for k s t
    proof -
      have "binds \<mu> k (var_refine S (var_meet s t))"
        using r look [of k] that env_sat_lookup [OF rwf] by (simp add: met_def)
      then show ?thesis using binds_refine_meet assms(1,2) types that by blast
    qed
    show "env_sat \<mu> a"
      unfolding env_sat_lookup [OF wf(1)]
    proof (intro allI impI)
      fix k t assume a: "map_of a k = Some t"
      show "binds \<mu> k t"
        using both [OF a] look [of k] a r env_sat_lookup [OF rwf] by (cases "map_of b k") (auto simp: met_def)
    qed
    show "env_sat \<mu> b"
      unfolding env_sat_lookup [OF wf(2)]
    proof (intro allI impI)
      fix k t assume b: "map_of b k = Some t"
      show "binds \<mu> k t"
        using both [OF _ b] look [of k] b r env_sat_lookup [OF rwf] by (cases "map_of a k") (auto simp: met_def)
    qed
  }
  assume sat: "env_sat \<mu> a \<and> env_sat \<mu> b"
  show "\<exists>r. env_meet S a b = Inr r"
  proof (cases "env_meet S a b")
    case (Inl err)
    obtain k s t where err: "err = CannotReconcile k s t" by (cases err)
    then have cl: "map_of a k = Some s" "map_of b k = Some t" "clash s t"
      using env_meet_loop_Inl [of b S a k s t] Inl wf(2) by (auto simp: env_meet_def env_wf_def)
    then have "binds \<mu> k s" "binds \<mu> k t" using sat env_sat_lookup wf by blast+
    then obtain e where "\<mu> k = Some e" "var_sat e s" "var_sat e t" by (auto simp: binds_def split: option.splits)
    moreover then have "elem_wf e" using assms(2) by (auto simp: assignment_wf_def)
    ultimately have "var_sat e (var_meet s t)" using var_meet_sat types cl by blast
    then show ?thesis using cl(3) by (simp add: clash_def)
  qed simp
qed

text \<open>A row of a scan that binds \<open>n\<close> to a node with label \<open>P\<close>, and the environment \<open>n: *\<close>.\<close>

lemma env_meet_sound_witness:
  "\<exists>r. env_meet schema_star [(''n'', node_star)] [(''m'', VtNull)] = Inr r"
  using env_meet_sound [of schema_star "[''n'' \<mapsto> ENode (LLabel ''P'', []), ''m'' \<mapsto> ENull]"
      "[(''n'', node_star)]" "[(''m'', VtNull)]"]
  by (simp add: schema_star_def schema_wf_def node_star_def edge_directional_def edge_non_directional_def
      desc_star_def open_empty_def desc_wf_def node_wf_def assignment_wf_def props_wf_def env_types_wf_def
      env_wf_def env_sat_def binds_def desc_sat_def)

lemma binds_join: "binds \<mu> k (var_join s t) \<longleftrightarrow> binds \<mu> k s \<or> binds \<mu> k t"
  by (auto simp: binds_def split: option.splits)

lemma binds_null: "\<mu> k = Some ENull \<Longrightarrow> binds \<mu> k VtNull"
  by (simp add: binds_def)

lemma env_union_wf: "env_wf (env_union a b)"
  by (simp add: env_union_def env_wf_def comp_def)

lemma outer_join_keys: "map fst (outer_join S a b) = map fst a @ filter (\<lambda>k. map_of a k = None) (map fst b)"
  by (simp add: outer_join_def comp_def case_prod_unfold filter_map)

lemma outer_join_wf: "env_wf a \<Longrightarrow> env_wf b \<Longrightarrow> env_wf (outer_join S a b)"
  unfolding env_wf_def outer_join_keys by (auto simp: map_of_eq_None_iff)

text \<open>
  The environment of a union of patterns describes every row of either branch, the
  variables of the other branch being null; and the left outer join describes every row of
  its left side, both when the optional part matched nothing (its own variables null) and
  when it bound them as its environment says.
\<close>

theorem env_alternatives_complete:
  assumes "env_wf a" "env_wf b" "env_sat \<mu> a"
    and "\<forall>k t. map_of a k = None \<longrightarrow> map_of b k = Some t \<longrightarrow> \<mu> k = Some ENull \<or> binds \<mu> k t"
  shows "env_sat \<mu> (outer_join S a b)
    \<and> ((\<forall>k. map_of a k = None \<longrightarrow> map_of b k \<noteq> None \<longrightarrow> \<mu> k = Some ENull) \<longrightarrow>
        env_sat \<mu> (env_union a b) \<and> env_sat \<mu> (env_union b a))"
proof (intro conjI impI)
  have a: "binds \<mu> k t" if "map_of a k = Some t" for k t
    using that assms(1,3) env_sat_lookup by blast
  have left: "binds \<mu> k (case map_of b k of Some t2 \<Rightarrow> var_join t (var_refine S (var_meet t t2)) | None \<Rightarrow> t)"
    if "(k, t) \<in> set a" for k t
  proof -
    have "binds \<mu> k t" using that a assms(1) by (simp add: env_wf_def)
    then show ?thesis by (simp add: binds_join split: option.splits)
  qed
  have right: "binds \<mu> k (var_join t VtNull)" if "map_of a k = None" "(k, t) \<in> set b" for k t
  proof -
    have "map_of b k = Some t" using that assms(2) by (simp add: env_wf_def)
    then have "\<mu> k = Some ENull \<or> binds \<mu> k t" using that(1) assms(4) by blast
    then show ?thesis by (auto simp: binds_join binds_null)
  qed
  show "env_sat \<mu> (outer_join S a b)"
    unfolding env_sat_def outer_join_def list_all_append list_all_iff using left right by auto
  assume null: "\<forall>k. map_of a k = None \<longrightarrow> map_of b k \<noteq> None \<longrightarrow> \<mu> k = Some ENull"
  have "binds \<mu> k (merge_union (map_of a k) (map_of b k)) \<and> binds \<mu> k (merge_union (map_of b k) (map_of a k))"
    if "map_of a k \<noteq> None \<or> map_of b k \<noteq> None" for k
  proof (cases "map_of a k")
    case None
    then show ?thesis using that null by (auto simp: merge_union_def binds_join binds_null)
  next
    case (Some t)
    then show ?thesis using a [OF Some] by (cases "map_of b k") (auto simp: merge_union_def binds_join)
  qed
  then show "env_sat \<mu> (env_union a b)" "env_sat \<mu> (env_union b a)"
    unfolding env_sat_lookup [OF env_union_wf] by (auto simp: map_of_env_union split: if_splits)
qed

lemma env_alternatives_complete_witness:
  "env_sat [''n'' \<mapsto> ENull, ''m'' \<mapsto> ENull] (outer_join schema_star [(''n'', VtNull)] [(''m'', node_star)])"
  using env_alternatives_complete [of "[(''n'', VtNull)]" "[(''m'', node_star)]" "[''n'' \<mapsto> ENull, ''m'' \<mapsto> ENull]"
      schema_star]
  by (simp add: env_wf_def env_sat_def binds_def)

text \<open>
  A repetition that may take zero laps never empties an environment, and one that must
  take a lap is empty exactly when the environment under it is.
\<close>

theorem to_group_empty:
  "\<not> env_is_empty (to_group \<Gamma> 0) \<and> (n > 0 \<longrightarrow> env_is_empty (to_group \<Gamma> n) = env_is_empty \<Gamma>)"
  by (auto simp: env_is_empty_def to_group_def list_ex_iff case_prod_unfold)

lemma to_group_empty_witness: "env_is_empty (to_group [(''x'', VtZero)] 2)"
  using to_group_empty [of "[(''x'', VtZero)]" 2] by (simp add: env_is_empty_def)

end
