(* ===== verification/Pages.thy ===== *)
theory Pages
  imports Prelude
begin

text \<open>
  The slotted page (\<open>src/pager/page.rs\<close>): 4096 bytes with an 8-byte header, an array of
  cell offsets growing up and cell data growing down. \<open>page_holds\<close> is what a page
  promises, the list of cells inserted into it; every operation that indexes the page is
  an option, \<open>None\<close> being the panic of an index out of range.
\<close>

section \<open>Layout\<close>

definition PAGE_SIZE :: nat where "PAGE_SIZE = 4096"
definition PAGE_HEADER_SIZE :: nat where "PAGE_HEADER_SIZE = 8"
definition CELL_PTR_SIZE :: nat where "CELL_PTR_SIZE = 2"

lemmas page_consts = PAGE_SIZE_def PAGE_HEADER_SIZE_def CELL_PTR_SIZE_def

datatype page_type =
    PtFileHeader | PtNodeData | PtEdgeData | PtAdjacency | PtLabelIndex | PtStringTable
  | PtOverflow | PtFree | PtCatalog | PtSecondaryIndex | PtNameTable

definition page_type_u8 :: "page_type \<Rightarrow> u8" where
  "page_type_u8 t =
     (case t of
        PtFileHeader \<Rightarrow> 0 | PtNodeData \<Rightarrow> 1 | PtEdgeData \<Rightarrow> 2 | PtAdjacency \<Rightarrow> 3 | PtLabelIndex \<Rightarrow> 4
      | PtStringTable \<Rightarrow> 5 | PtOverflow \<Rightarrow> 6 | PtFree \<Rightarrow> 7 | PtCatalog \<Rightarrow> 8 | PtSecondaryIndex \<Rightarrow> 9
      | PtNameTable \<Rightarrow> 10)"

definition page_type_from_u8 :: "u8 \<Rightarrow> page_type option" where
  "page_type_from_u8 v =
     (if v = 0 then Some PtFileHeader
      else if v = 1 then Some PtNodeData
      else if v = 2 then Some PtEdgeData
      else if v = 3 then Some PtAdjacency
      else if v = 4 then Some PtLabelIndex
      else if v = 5 then Some PtStringTable
      else if v = 6 then Some PtOverflow
      else if v = 7 then Some PtFree
      else if v = 8 then Some PtCatalog
      else if v = 9 then Some PtSecondaryIndex
      else if v = 10 then Some PtNameTable
      else None)"

type_synonym page = bytes

definition page_new :: "page_type \<Rightarrow> page" where
  "page_new t = page_type_u8 t # 0 # u16_le 0 @ u16_le (of_nat PAGE_SIZE) @ replicate (PAGE_SIZE - 6) 0"

definition page_type_of :: "page \<Rightarrow> page_type" where
  "page_type_of p = (case page_type_from_u8 (p ! 0) of Some t \<Rightarrow> t | None \<Rightarrow> PtFree)"

definition set_page_type :: "page \<Rightarrow> page_type \<Rightarrow> page" where
  "set_page_type p t = p[0 := page_type_u8 t]"

definition u16_at :: "nat \<Rightarrow> page \<Rightarrow> u16 option" where
  "u16_at off p = map_option u16_of_le (slice off 2 p)"

definition cell_count :: "page \<Rightarrow> u16 option" where
  "cell_count p = u16_at 2 p"

definition set_cell_count :: "page \<Rightarrow> u16 \<Rightarrow> page option" where
  "set_cell_count p count = splice 2 (u16_le count) p"

definition cell_area_start :: "page \<Rightarrow> u16 option" where
  "cell_area_start p = u16_at 4 p"

definition set_cell_area_start :: "page \<Rightarrow> u16 \<Rightarrow> page option" where
  "set_cell_area_start p offset = splice 4 (u16_le offset) p"

definition ptr_array_end :: "page \<Rightarrow> nat option" where
  "ptr_array_end p = map_option (\<lambda>c. PAGE_HEADER_SIZE + unat c * CELL_PTR_SIZE) (cell_count p)"

text \<open>Subtraction on \<open>nat\<close> is the code's \<open>saturating_sub\<close>.\<close>

definition free_space :: "page \<Rightarrow> nat option" where
  "free_space p = do { ptr_end \<leftarrow> ptr_array_end p; cell_start \<leftarrow> cell_area_start p; Some (unat cell_start - ptr_end) }"

definition insert_cell :: "page \<Rightarrow> bytes \<Rightarrow> (page \<times> u16 option) option" where
  "insert_cell p cell_data =
     do {
       free \<leftarrow> free_space p;
       if free < CELL_PTR_SIZE + length cell_data then Some (p, None)
       else do {
         count \<leftarrow> cell_count p;
         start \<leftarrow> cell_area_start p;
         let new_cell_start = unat start - length cell_data;
         p \<leftarrow> splice new_cell_start cell_data p;
         p \<leftarrow> set_cell_area_start p (of_nat new_cell_start);
         p \<leftarrow> splice (PAGE_HEADER_SIZE + unat count * CELL_PTR_SIZE) (u16_le (of_nat new_cell_start)) p;
         p \<leftarrow> set_cell_count p (count + 1);
         Some (p, Some count)
       }
     }"

definition cell_offset :: "page \<Rightarrow> u16 \<Rightarrow> u16 option option" where
  "cell_offset p index =
     do {
       count \<leftarrow> cell_count p;
       if count \<le> index then Some None
       else map_option Some (u16_at (PAGE_HEADER_SIZE + unat index * CELL_PTR_SIZE) p)
     }"

definition read_at :: "page \<Rightarrow> nat \<Rightarrow> nat \<Rightarrow> bytes option" where
  "read_at p offset n = slice offset n p"

definition write_at :: "page \<Rightarrow> nat \<Rightarrow> bytes \<Rightarrow> page option" where
  "write_at p offset d = splice offset d p"

section \<open>What a page holds\<close>

definition page_wf :: "page \<Rightarrow> bool" where
  "page_wf p \<longleftrightarrow> length p = PAGE_SIZE"

text \<open>
  A page holds the cells \<open>cs\<close>: the count is theirs, the offset array does not reach the
  data area, and each offset leads to its cell inside the data area.
\<close>

definition page_holds :: "page \<Rightarrow> bytes list \<Rightarrow> bool" where
  "page_holds p cs \<longleftrightarrow>
     page_wf p \<and> cell_count p = Some (of_nat (length cs)) \<and>
     (\<exists>start. cell_area_start p = Some (of_nat start) \<and> start \<le> PAGE_SIZE \<and>
       PAGE_HEADER_SIZE + length cs * CELL_PTR_SIZE \<le> start \<and>
       (\<forall>i < length cs. \<exists>off. u16_at (PAGE_HEADER_SIZE + i * CELL_PTR_SIZE) p = Some (of_nat off)
          \<and> start \<le> off \<and> off + length (cs ! i) \<le> PAGE_SIZE
          \<and> slice off (length (cs ! i)) p = Some (cs ! i)))"

lemma unat_u16: "n < 65536 \<Longrightarrow> unat (of_nat n :: u16) = n"
  by (simp add: unat_of_nat)

lemma u16_at_splice_same: "splice off (u16_le w) p = Some q \<Longrightarrow> u16_at off q = Some w"
  using slice_splice_same [of off "u16_le w" p q] by (simp add: u16_at_def)

lemma u16_at_splice_other:
  "splice off ys p = Some q \<Longrightarrow> o2 + 2 \<le> off \<or> off + length ys \<le> o2 \<Longrightarrow> u16_at o2 q = u16_at o2 p"
  using slice_splice_other [of off ys p q o2 2] by (simp add: u16_at_def)

lemma splice_total: "off + length ys \<le> length xs \<Longrightarrow> \<exists>zs. splice off ys xs = Some zs"
  by (simp add: splice_def)

lemma page_type_roundtrip [simp]: "page_type_from_u8 (page_type_u8 t) = Some t"
  by (cases t) (simp_all add: page_type_from_u8_def page_type_u8_def)

lemma length_page_new: "length (page_new t) = PAGE_SIZE"
  by (simp add: page_new_def PAGE_SIZE_def)

lemma slice_middle: "slice (length xs) (length ys) (xs @ ys @ zs) = Some ys"
  by (simp add: slice_def)

lemma page_new_fields:
  "u16_at 2 (page_new t) = Some 0" "u16_at 4 (page_new t) = Some (of_nat PAGE_SIZE)"
proof -
  have "page_new t = [page_type_u8 t, 0] @ u16_le 0 @ u16_le (of_nat PAGE_SIZE) @ replicate (PAGE_SIZE - 6) 0"
    by (simp add: page_new_def)
  then show "u16_at 2 (page_new t) = Some 0"
    using slice_middle [of "[page_type_u8 t, 0]" "u16_le 0"] by (simp add: u16_at_def numeral_2_eq_2)
  have "page_new t = ([page_type_u8 t, 0] @ u16_le 0) @ u16_le (of_nat PAGE_SIZE) @ replicate (PAGE_SIZE - 6) 0"
    by (simp add: page_new_def)
  then show "u16_at 4 (page_new t) = Some (of_nat PAGE_SIZE)"
    using slice_middle [of "[page_type_u8 t, 0] @ u16_le 0" "u16_le (of_nat PAGE_SIZE)"]
    by (simp add: u16_at_def numeral_eq_Suc)
qed

lemma page_new_holds: "page_holds (page_new t) []"
  unfolding page_holds_def page_wf_def cell_count_def cell_area_start_def page_new_fields
  by (simp add: length_page_new) (rule exI [of _ PAGE_SIZE], simp add: page_consts)

lemma page_holds_free:
  assumes "page_holds p cs"
  shows "\<exists>start. cell_area_start p = Some (of_nat start) \<and> start \<le> PAGE_SIZE \<and> length cs \<le> 2044 \<and>
    free_space p = Some (start - (PAGE_HEADER_SIZE + length cs * CELL_PTR_SIZE))"
proof -
  obtain start where s: "cell_area_start p = Some (of_nat start)" "start \<le> PAGE_SIZE"
    "PAGE_HEADER_SIZE + length cs * CELL_PTR_SIZE \<le> start" and c: "cell_count p = Some (of_nat (length cs))"
    using assms by (auto simp: page_holds_def)
  then have "length cs \<le> 2044" by (simp add: page_consts)
  with s c show ?thesis
    by (auto simp: free_space_def ptr_array_end_def unat_u16 page_consts)
qed

section \<open>Inserting a cell\<close>

lemma insert_cell_full:
  assumes "page_holds p cs" "free_space p = Some free" "free < 2 + length c"
  shows "insert_cell p c = Some (p, None)"
  using assms by (simp add: insert_cell_def CELL_PTR_SIZE_def)

lemma insert_cell_steps:
  assumes "page_wf p" "cell_count p = Some count" "cell_area_start p = Some (of_nat start)"
    and "start \<le> PAGE_SIZE" "free_space p = Some free" "2 + length c \<le> free"
    and "8 + unat count * 2 + 2 + length c \<le> start"
  shows "\<exists>p1 p2 p3 p4. splice (start - length c) c p = Some p1
    \<and> splice 4 (u16_le (of_nat (start - length c))) p1 = Some p2
    \<and> splice (8 + unat count * 2) (u16_le (of_nat (start - length c))) p2 = Some p3
    \<and> splice 2 (u16_le (count + 1)) p3 = Some p4
    \<and> insert_cell p c = Some (p4, Some count)"
proof -
  have st: "unat (of_nat start :: u16) = start" using assms(4) by (simp add: unat_u16 PAGE_SIZE_def)
  have len: "length p = 4096" using assms(1) by (simp add: page_wf_def PAGE_SIZE_def)
  have start: "start \<le> 4096" using assms(4) by (simp add: PAGE_SIZE_def)
  obtain p1 where p1: "splice (start - length c) c p = Some p1"
    using splice_total [of "start - length c" c p] len start assms(7) by auto
  then have l1: "length p1 = 4096" using len length_splice by metis
  obtain p2 where p2: "splice 4 (u16_le (of_nat (start - length c))) p1 = Some p2"
    using splice_total [of 4 "u16_le (of_nat (start - length c))" p1] l1 by auto
  then have l2: "length p2 = 4096" using l1 length_splice by metis
  obtain p3 where p3: "splice (8 + unat count * 2) (u16_le (of_nat (start - length c))) p2 = Some p3"
    using splice_total [of "8 + unat count * 2" "u16_le (of_nat (start - length c))" p2] l2 start assms(7) by auto
  then have l3: "length p3 = 4096" using l2 length_splice by metis
  obtain p4 where p4: "splice 2 (u16_le (count + 1)) p3 = Some p4"
    using splice_total [of 2 "u16_le (count + 1)" p3] l3 by auto
  have "insert_cell p c = Some (p4, Some count)"
    using assms(2,3,5,6) p1 p2 p3 p4 st
    by (simp add: insert_cell_def page_consts set_cell_area_start_def set_cell_count_def Let_def)
  with p1 p2 p3 p4 show ?thesis by blast
qed

lemma page_holds_insert:
  assumes h: "page_holds p cs" and f: "free_space p = Some free" and room: "2 + length c \<le> free"
  shows "\<exists>q. insert_cell p c = Some (q, Some (of_nat (length cs))) \<and> page_holds q (cs @ [c])
    \<and> free_space q = Some (free - (2 + length c)) \<and> page_type_of q = page_type_of p"
proof -
  let ?n = "length cs"
  obtain start where st: "cell_area_start p = Some (of_nat start)" "start \<le> PAGE_SIZE"
    "PAGE_HEADER_SIZE + ?n * CELL_PTR_SIZE \<le> start"
    and cells: "\<And>i. i < ?n \<Longrightarrow> \<exists>off. u16_at (PAGE_HEADER_SIZE + i * CELL_PTR_SIZE) p = Some (of_nat off)
        \<and> start \<le> off \<and> off + length (cs ! i) \<le> PAGE_SIZE \<and> slice off (length (cs ! i)) p = Some (cs ! i)"
    and wf: "page_wf p" and count: "cell_count p = Some (of_nat ?n)"
    using h by (auto simp: page_holds_def)
  have n: "?n \<le> 2044" using st by (simp add: page_consts)
  have un: "unat (of_nat ?n :: u16) = ?n" using n by (simp add: unat_u16)
  have ust: "unat (of_nat start :: u16) = start" using st(2) by (simp add: unat_u16 PAGE_SIZE_def)
  have free: "free = start - (8 + ?n * 2)"
    using f st count un ust by (simp add: free_space_def ptr_array_end_def page_consts)
  with room have fit: "8 + ?n * 2 + 2 + length c \<le> start" by simp
  let ?s' = "start - length c"
  obtain p1 p2 p3 q where p1: "splice ?s' c p = Some p1" and p2: "splice 4 (u16_le (of_nat ?s')) p1 = Some p2"
    and p3: "splice (8 + ?n * 2) (u16_le (of_nat ?s')) p2 = Some p3"
    and p4: "splice 2 (u16_le (of_nat ?n + 1)) p3 = Some q"
    and ins: "insert_cell p c = Some (q, Some (of_nat ?n))"
    using insert_cell_steps [OF wf count st(1,2) f room] fit un by auto
  have len: "length q = length p" using p1 p2 p3 p4 length_splice by metis
  have count': "cell_count q = Some (of_nat (Suc ?n))"
    using u16_at_splice_same [OF p4] by (simp add: cell_count_def add.commute)
  have start': "cell_area_start q = Some (of_nat ?s')"
    using u16_at_splice_same [OF p2] u16_at_splice_other [OF p3, of 4] u16_at_splice_other [OF p4, of 4] n
    by (simp add: cell_area_start_def)
  have ptr': "u16_at (8 + ?n * 2) q = Some (of_nat ?s')"
    using u16_at_splice_same [OF p3] u16_at_splice_other [OF p4, of "8 + ?n * 2"] by simp
  have data: "slice o2 m q = slice o2 m p" if "8 + ?n * 2 + 2 \<le> o2" "o2 + m \<le> ?s' \<or> start \<le> o2" for o2 m
    using slice_splice_other [OF p1, of o2 m] slice_splice_other [OF p2, of o2 m]
      slice_splice_other [OF p3, of o2 m] slice_splice_other [OF p4, of o2 m] that fit by auto
  have own: "slice ?s' (length c) q = Some c"
    using slice_splice_same [OF p1] slice_splice_other [OF p2, of ?s' "length c"]
      slice_splice_other [OF p3, of ?s' "length c"] slice_splice_other [OF p4, of ?s' "length c"] fit by simp
  have ptrs: "u16_at (8 + i * 2) q = u16_at (8 + i * 2) p" if "i < ?n" for i
    using u16_at_splice_other [OF p1, of "8 + i * 2"] u16_at_splice_other [OF p2, of "8 + i * 2"]
      u16_at_splice_other [OF p3, of "8 + i * 2"] u16_at_splice_other [OF p4, of "8 + i * 2"] that fit by auto
  have s'le: "?s' \<le> PAGE_SIZE" using st(2) by simp
  have "\<exists>off. u16_at (8 + i * 2) q = Some (of_nat off) \<and> ?s' \<le> off
      \<and> off + length ((cs @ [c]) ! i) \<le> PAGE_SIZE \<and> slice off (length ((cs @ [c]) ! i)) q = Some ((cs @ [c]) ! i)"
    if "i < Suc ?n" for i
  proof (cases "i = ?n")
    case True
    then show ?thesis using ptr' own st(2) fit by (intro exI [of _ ?s']) simp
  next
    case False
    with that have i: "i < ?n" by simp
    obtain off where off: "u16_at (8 + i * 2) p = Some (of_nat off)" "start \<le> off"
      "off + length (cs ! i) \<le> PAGE_SIZE" "slice off (length (cs ! i)) p = Some (cs ! i)"
      using cells [OF i] by (auto simp: page_consts)
    then show ?thesis using ptrs [OF i] data [of off "length (cs ! i)"] i fit
      by (intro exI [of _ off]) (simp add: nth_append)
  qed
  then have holds: "page_holds q (cs @ [c])"
    unfolding page_holds_def using wf len count' start' s'le fit
    by (intro conjI exI [of _ ?s']) (simp_all add: page_wf_def PAGE_HEADER_SIZE_def CELL_PTR_SIZE_def)
  have "unat (of_nat ?s' :: u16) = ?s'" "unat (of_nat (Suc ?n) :: u16) = Suc ?n"
    using s'le n by (simp_all add: unat_u16 PAGE_SIZE_def del: of_nat_Suc of_nat_diff)
  then have "free_space q = Some (?s' - (8 + Suc ?n * 2))"
    using count' start' by (simp add: free_space_def ptr_array_end_def page_consts del: of_nat_Suc)
  then have "free_space q = Some (free - (2 + length c))" using free by (simp add: algebra_simps)
  moreover have "p \<noteq> []" using wf by (auto simp: page_wf_def PAGE_SIZE_def)
  then have "q ! 0 = p ! 0"
    using nth_splice [OF p1, of 0] nth_splice [OF p2, of 0] nth_splice [OF p3, of 0] nth_splice [OF p4, of 0]
      length_splice [OF p1] length_splice [OF p2] length_splice [OF p3] wf fit
    by (simp add: page_wf_def PAGE_SIZE_def)
  then have "page_type_of q = page_type_of p" by (simp add: page_type_of_def)
  ultimately show ?thesis using ins holds by blast
qed

text \<open>
  A slotted page keeps what is put into it. A new page holds no cells; inserting a
  cell never panics and either finds no room for it and its pointer and leaves the page
  alone, or returns the next index, adds the cell behind the ones the page already holds
  (all of which still read back), takes exactly its size and two bytes off the free space
  and leaves the page type alone.
\<close>

theorem insert_cell_correct:
  "page_holds (page_new t) [] \<and>
   (page_holds p cs \<longrightarrow>
     (\<exists>free. free_space p = Some free \<and>
       (if free < 2 + length c then insert_cell p c = Some (p, None)
        else \<exists>q. insert_cell p c = Some (q, Some (of_nat (length cs))) \<and> page_holds q (cs @ [c])
          \<and> free_space q = Some (free - (2 + length c)) \<and> page_type_of q = page_type_of p)))"
proof (intro conjI impI)
  show "page_holds (page_new t) []" by (rule page_new_holds)
next
  assume h: "page_holds p cs"
  then obtain free where f: "free_space p = Some free" using page_holds_free by blast
  show "\<exists>free. free_space p = Some free \<and>
       (if free < 2 + length c then insert_cell p c = Some (p, None)
        else \<exists>q. insert_cell p c = Some (q, Some (of_nat (length cs))) \<and> page_holds q (cs @ [c])
          \<and> free_space q = Some (free - (2 + length c)) \<and> page_type_of q = page_type_of p)"
  proof (cases "free < 2 + length c")
    case True
    then show ?thesis using f insert_cell_full [OF h f] by auto
  next
    case False
    then show ?thesis using f page_holds_insert [OF h f, of c] by auto
  qed
qed

lemma insert_cell_correct_witness:
  "\<exists>q. insert_cell (page_new PtNodeData) [1, 2, 3] = Some (q, Some 0) \<and> page_holds q [[1, 2, 3]]"
proof -
  have "free_space (page_new PtNodeData) = Some 4088"
    by (simp add: free_space_def ptr_array_end_def cell_count_def cell_area_start_def page_new_fields page_consts)
  then show ?thesis
    using insert_cell_correct [of PtNodeData "page_new PtNodeData" "[]" "[1, 2, 3]"] page_new_holds [of PtNodeData]
    by auto
qed

section \<open>A run of insertions\<close>

fun insert_cells :: "page \<Rightarrow> bytes list \<Rightarrow> (page \<times> u16 option list) option" where
  "insert_cells p [] = Some (p, [])"
| "insert_cells p (c # cs) = do { (p, i) \<leftarrow> insert_cell p c; (p, is) \<leftarrow> insert_cells p cs; Some (p, i # is) }"

text \<open>The cells that fit into \<open>free\<close> bytes with their pointers, and the indexes they get from \<open>n\<close> on.\<close>

fun fitting :: "nat \<Rightarrow> bytes list \<Rightarrow> bytes list" where
  "fitting free [] = []"
| "fitting free (c # cs) = (if 2 + length c \<le> free then c # fitting (free - (2 + length c)) cs else fitting free cs)"

fun slots :: "nat \<Rightarrow> nat \<Rightarrow> bytes list \<Rightarrow> nat option list" where
  "slots n free [] = []"
| "slots n free (c # cs) = (if 2 + length c \<le> free then Some n # slots (Suc n) (free - (2 + length c)) cs else None # slots n free cs)"

lemma slots_length [simp]: "length (slots n free cs) = length cs"
  by (induction n free cs rule: slots.induct) auto

lemma slots_fitting:
  "k < length cs \<Longrightarrow> slots n free cs ! k = Some j \<Longrightarrow> n \<le> j \<and> j < n + length (fitting free cs) \<and> fitting free cs ! (j - n) = cs ! k"
proof (induction n free cs arbitrary: k rule: slots.induct)
  case (2 n free c cs)
  show ?case
  proof (cases "2 + length c \<le> free")
    case fits: True
    show ?thesis
    proof (cases k)
      case (Suc i)
      then have "Suc n \<le> j \<and> j < Suc n + length (fitting (free - (2 + length c)) cs) \<and> fitting (free - (2 + length c)) cs ! (j - Suc n) = cs ! i"
        using 2(1) [OF fits, of i] 2(3,4) fits by simp
      moreover from this have "j - n = Suc (j - Suc n)" by linarith
      ultimately show ?thesis using fits Suc by simp
    qed (use 2(4) fits in simp)
  next
    case full: False
    then obtain i where "k = Suc i" using 2(4) by (cases k) auto
    then show ?thesis using 2(2) [OF full, of i] 2(3,4) full by simp
  qed
qed simp

lemma page_cell_reads:
  assumes "page_holds p cs"
  shows "i < length cs \<Longrightarrow>
      \<exists>off. cell_offset p (of_nat i) = Some (Some off) \<and> read_at p (unat off) (length (cs ! i)) = Some (cs ! i)"
    and "length cs \<le> i \<Longrightarrow> i < 65536 \<Longrightarrow> cell_offset p (of_nat i) = Some None"
proof -
  have n: "length cs \<le> 2044" using page_holds_free [OF assms] by blast
  have count: "cell_count p = Some (of_nat (length cs))" using assms by (simp add: page_holds_def)
  {
    assume i: "i < length cs"
    then obtain off where off: "u16_at (PAGE_HEADER_SIZE + i * CELL_PTR_SIZE) p = Some (of_nat off)"
      "off + length (cs ! i) \<le> PAGE_SIZE" "slice off (length (cs ! i)) p = Some (cs ! i)"
      using assms by (auto simp: page_holds_def)
    have "unat (of_nat off :: u16) = off" using off(2) by (simp add: unat_u16 PAGE_SIZE_def)
    moreover have "unat (of_nat i :: u16) = i" "\<not> of_nat (length cs) \<le> (of_nat i :: u16)"
      using i n by (simp_all add: unat_u16 word_le_nat_alt)
    ultimately show "\<exists>off. cell_offset p (of_nat i) = Some (Some off) \<and>
        read_at p (unat off) (length (cs ! i)) = Some (cs ! i)"
      using off(1,3) count by (simp add: cell_offset_def read_at_def)
  }
  assume "length cs \<le> i" "i < 65536"
  then have "of_nat (length cs) \<le> (of_nat i :: u16)" using n by (simp add: unat_u16 word_le_nat_alt)
  then show "cell_offset p (of_nat i) = Some None" using count by (simp add: cell_offset_def)
qed

lemma insert_cells_hold:
  assumes "page_holds p cs0" "free_space p = Some free"
  shows "\<exists>q. insert_cells p cs = Some (q, map (map_option of_nat) (slots (length cs0) free cs)) \<and> page_holds q (cs0 @ fitting free cs)"
  using assms
proof (induction cs arbitrary: p cs0 free)
  case (Cons c cs)
  show ?case
  proof (cases "2 + length c \<le> free")
    case True
    obtain q where q: "insert_cell p c = Some (q, Some (of_nat (length cs0)))" "page_holds q (cs0 @ [c])"
      "free_space q = Some (free - (2 + length c))" using page_holds_insert [OF Cons.prems True] by blast
    then show ?thesis using Cons.IH [OF q(2,3)] True by auto
  next
    case False
    then show ?thesis using insert_cell_full [OF Cons.prems] Cons.IH [OF Cons.prems] by auto
  qed
qed simp

lemma page_new_free: "free_space (page_new t) = Some 4088"
  by (simp add: free_space_def ptr_array_end_def cell_count_def cell_area_start_def page_new_fields page_consts)

text \<open>
  C33: A slotted page keeps what is put into it: inserting any cells one after the other into a
  new page never panics; a cell is refused exactly when the 4088 bytes a new page has free,
  less those of the cells taken before it, do not hold it and its two-byte pointer, and the
  cells taken get ascending indexes; after the last insertion every index that was handed out
  leads to the bytes that were inserted under it, and an index past those is refused.
\<close>

theorem page_cells_readable:
  "\<exists>p. insert_cells (page_new t) cs = Some (p, map (map_option of_nat) (slots 0 4088 cs))
    \<and> (\<forall>k < length cs. \<forall>i. slots 0 4088 cs ! k = Some i \<longrightarrow>
        (\<exists>off. cell_offset p (of_nat i) = Some (Some off) \<and> read_at p (unat off) (length (cs ! k)) = Some (cs ! k)))
    \<and> (\<forall>i. length (fitting 4088 cs) \<le> i \<and> i < 65536 \<longrightarrow> cell_offset p (of_nat i) = Some None)"
proof -
  obtain p where p: "insert_cells (page_new t) cs = Some (p, map (map_option of_nat) (slots 0 4088 cs))"
    and holds: "page_holds p (fitting 4088 cs)"
    using insert_cells_hold [OF page_new_holds page_new_free, of t cs] by auto
  have "\<exists>off. cell_offset p (of_nat i) = Some (Some off) \<and> read_at p (unat off) (length (cs ! k)) = Some (cs ! k)"
    if "k < length cs" "slots 0 4088 cs ! k = Some i" for k i
    using slots_fitting [OF that] page_cell_reads(1) [OF holds, of i] by simp
  then show ?thesis using p page_cell_reads(2) [OF holds] by blast
qed

lemma page_cells_readable_witness:
  "\<exists>p off. insert_cells (page_new PtNodeData) [[1, 2, 3], replicate 4090 0, [4]] = Some (p, [Some 0, None, Some 1])
    \<and> cell_offset p 1 = Some (Some off) \<and> read_at p (unat off) 1 = Some [4]"
proof -
  let ?cs = "[[1, 2, 3], replicate 4090 0, [4]] :: bytes list"
  have slots: "slots 0 4088 ?cs = [Some 0, None, Some 1]" by simp
  obtain p where p: "insert_cells (page_new PtNodeData) ?cs = Some (p, map (map_option of_nat) (slots 0 4088 ?cs))"
    and reads: "\<forall>k < length ?cs. \<forall>i. slots 0 4088 ?cs ! k = Some i \<longrightarrow>
        (\<exists>off. cell_offset p (of_nat i) = Some (Some off) \<and> read_at p (unat off) (length (?cs ! k)) = Some (?cs ! k))"
    using page_cells_readable [of PtNodeData ?cs] by blast
  have "\<exists>off. cell_offset p (of_nat 1) = Some (Some off) \<and> read_at p (unat off) (length (?cs ! 2)) = Some (?cs ! 2)"
    using reads [rule_format, of 2 1] unfolding slots by simp
  then show ?thesis using p unfolding slots by auto
qed

end
