(* ===== verification/Headers.thy ===== *)
theory Headers
  imports Pages
begin

text \<open>
  The file header on page 0 (\<open>src/pager/header.rs\<close>): its fields, their place in the page,
  and the 32-byte slot of the active graph type's name, which is cut at 31 bytes and ends
  at the first zero byte. A name is the bytes of its UTF-8 text; \<open>utf8_valid\<close> is the
  standard library's check.
\<close>

section \<open>Writing fields\<close>

definition write_all :: "(nat \<times> bytes) list \<Rightarrow> bytes \<Rightarrow> bytes option" where
  "write_all fs d = foldl (\<lambda>od (off, bs). Option.bind od (splice off bs)) (Some d) fs"

fun disjoint_fields :: "nat \<Rightarrow> (nat \<times> bytes) list \<Rightarrow> nat \<Rightarrow> bool" where
  "disjoint_fields lo [] hi = (lo \<le> hi)"
| "disjoint_fields lo ((off, bs) # fs) hi = (lo \<le> off \<and> disjoint_fields (off + length bs) fs hi)"

lemma disjoint_fields_le: "disjoint_fields lo fs hi \<Longrightarrow> lo \<le> hi"
  by (induction fs arbitrary: lo) fastforce+

lemma write_all_Cons:
  "write_all ((off, bs) # fs) d = Option.bind (splice off bs d) (write_all fs)"
proof -
  have none: "foldl (\<lambda>od (off, bs). Option.bind od (splice off bs)) None fs = None"
    for fs :: "(nat \<times> bytes) list" by (induction fs) auto
  show ?thesis by (cases "splice off bs d") (simp_all add: write_all_def none)
qed

lemma write_all_correct:
  "disjoint_fields lo fs hi \<Longrightarrow> hi \<le> length d \<Longrightarrow>
   \<exists>d'. write_all fs d = Some d' \<and> length d' = length d \<and>
     (\<forall>(off, bs) \<in> set fs. slice off (length bs) d' = Some bs) \<and>
     (\<forall>off n. off + n \<le> lo \<longrightarrow> slice off n d' = slice off n d)"
proof (induction fs arbitrary: lo d)
  case Nil
  then show ?case by (simp add: write_all_def)
next
  case (Cons f fs)
  obtain off bs where f: "f = (off, bs)" by (cases f)
  have dj: "lo \<le> off" "disjoint_fields (off + length bs) fs hi" using Cons.prems f by auto
  then have "off + length bs \<le> length d" using disjoint_fields_le Cons.prems(2) le_trans by blast
  then obtain d1 where d1: "splice off bs d = Some d1" using splice_total by blast
  then have l1: "length d1 = length d" by (rule length_splice)
  obtain d' where d': "write_all fs d1 = Some d'" "length d' = length d1"
    "\<And>o2 b2. (o2, b2) \<in> set fs \<Longrightarrow> slice o2 (length b2) d' = Some b2"
    "\<And>o2 n. o2 + n \<le> off + length bs \<Longrightarrow> slice o2 n d' = slice o2 n d1"
    using Cons.IH [OF dj(2), of d1] Cons.prems(2) l1 by auto
  have "slice off (length bs) d' = Some bs" using d'(4) [of off "length bs"] slice_splice_same [OF d1] by simp
  moreover have "slice o2 n d' = slice o2 n d" if "o2 + n \<le> lo" for o2 n
    using d'(4) [of o2 n] slice_splice_other [OF d1, of o2 n] that dj(1) by simp
  ultimately show ?case using d1 d' l1 f by (auto simp: write_all_Cons)
qed

section \<open>The active type name\<close>

definition ACTIVE_NAME_BYTES :: nat where "ACTIVE_NAME_BYTES = 32"

text \<open>\<open>str::from_utf8\<close>: the well-formed byte sequences of Unicode.\<close>

definition in_range :: "u8 \<Rightarrow> nat \<Rightarrow> nat \<Rightarrow> bool" where
  "in_range b lo hi \<longleftrightarrow> lo \<le> unat b \<and> unat b \<le> hi"

abbreviation cont :: "u8 \<Rightarrow> bool" where "cont b \<equiv> in_range b 0x80 0xBF"

text \<open>The length of the sequence at the head, 0 if there is none.\<close>

definition utf8_head :: "bytes \<Rightarrow> nat" where
  "utf8_head s =
     (case s of
        [] \<Rightarrow> 0
      | a # t \<Rightarrow>
          if unat a < 0x80 then 1
          else case t of
            [] \<Rightarrow> 0
          | b # t \<Rightarrow>
              if in_range a 0xC2 0xDF then (if cont b then 2 else 0)
              else case t of
                [] \<Rightarrow> 0
              | c # t \<Rightarrow>
                  if a = 0xE0 then (if in_range b 0xA0 0xBF \<and> cont c then 3 else 0)
                  else if a = 0xED then (if in_range b 0x80 0x9F \<and> cont c then 3 else 0)
                  else if in_range a 0xE1 0xEF then (if cont b \<and> cont c then 3 else 0)
                  else case t of
                    [] \<Rightarrow> 0
                  | d # t \<Rightarrow>
                      if a = 0xF0 then (if in_range b 0x90 0xBF \<and> cont c \<and> cont d then 4 else 0)
                      else if in_range a 0xF1 0xF3 then (if cont b \<and> cont c \<and> cont d then 4 else 0)
                      else if a = 0xF4 then (if in_range b 0x80 0x8F \<and> cont c \<and> cont d then 4 else 0)
                      else 0)"

function utf8_valid :: "bytes \<Rightarrow> bool" where
  "utf8_valid s = (if s = [] then True else if utf8_head s = 0 then False else utf8_valid (drop (utf8_head s) s))"
  by auto
termination by (relation "measure length") auto

declare utf8_valid.simps [simp del]

definition encode_active_name :: "bytes option \<Rightarrow> bytes" where
  "encode_active_name name =
     (case name of
        None \<Rightarrow> replicate ACTIVE_NAME_BYTES 0
      | Some s \<Rightarrow>
          let n = min (length s) (ACTIVE_NAME_BYTES - 1)
          in take n s @ replicate (ACTIVE_NAME_BYTES - n) 0)"

definition decode_active_name :: "bytes \<Rightarrow> bytes option" where
  "decode_active_name bs =
     (let s = takeWhile (\<lambda>b. b \<noteq> 0) bs
      in if s = [] then None else if utf8_valid s then Some s else None)"

section \<open>The header\<close>

definition MAGIC :: bytes where "MAGIC = [0x47, 0x51, 0x4C, 0x44, 0x42, 0]"
definition FORMAT_VERSION :: u16 where "FORMAT_VERSION = 2"
definition MIN_READABLE_VERSION :: u16 where "MIN_READABLE_VERSION = 1"

record file_header =
  fh_format_version :: u16
  fh_page_size :: u32
  fh_page_count :: u32
  fh_free_list_head :: u32
  fh_node_count :: u32
  fh_edge_count :: u32
  fh_string_table_root :: u32
  fh_node_data_first :: u32
  fh_edge_data_first :: u32
  fh_label_index_root :: u32
  fh_adjacency_root :: u32
  fh_edge_label_index_root :: u32
  fh_node_locs_root :: u32
  fh_edge_topo_root :: u32
  fh_catalog_root :: u32
  fh_active_type_name :: "bytes option"
  fh_csr_adjacency_root :: u32
  fh_secondary_index_root :: u32
  fh_names_root :: u32
  fh_graph_id :: u64

definition header_new :: file_header where
  "header_new =
     \<lparr>fh_format_version = FORMAT_VERSION,
      fh_page_size = of_nat PAGE_SIZE,
      fh_page_count = 1,
      fh_free_list_head = 0,
      fh_node_count = 0,
      fh_edge_count = 0,
      fh_string_table_root = 0,
      fh_node_data_first = 0,
      fh_edge_data_first = 0,
      fh_label_index_root = 0,
      fh_adjacency_root = 0,
      fh_edge_label_index_root = 0,
      fh_node_locs_root = 0,
      fh_edge_topo_root = 0,
      fh_catalog_root = 0,
      fh_active_type_name = None,
      fh_csr_adjacency_root = 0,
      fh_secondary_index_root = 0,
      fh_names_root = 0,
      fh_graph_id = 0\<rparr>"

definition header_fields :: "file_header \<Rightarrow> (nat \<times> bytes) list" where
  "header_fields h =
     [(0, MAGIC),
      (6, u16_le (fh_format_version h)),
      (8, u32_le (fh_page_size h)),
      (12, u32_le (fh_page_count h)),
      (16, u32_le (fh_free_list_head h)),
      (20, u32_le (fh_node_count h)),
      (24, u32_le (fh_edge_count h)),
      (28, u32_le (fh_string_table_root h)),
      (32, u32_le (fh_node_data_first h)),
      (36, u32_le (fh_edge_data_first h)),
      (40, u32_le (fh_label_index_root h)),
      (44, u32_le (fh_adjacency_root h)),
      (48, u32_le (fh_edge_label_index_root h)),
      (52, u32_le (fh_node_locs_root h)),
      (56, u32_le (fh_edge_topo_root h)),
      (60, u32_le (fh_catalog_root h)),
      (64, encode_active_name (fh_active_type_name h)),
      (96, u32_le (fh_csr_adjacency_root h)),
      (100, u32_le (fh_secondary_index_root h)),
      (104, u32_le (fh_names_root h)),
      (108, u64_le (fh_graph_id h))]"

definition to_page :: "file_header \<Rightarrow> page option" where
  "to_page h = write_all (header_fields h) (page_new PtFileHeader)"

datatype header_error = BadMagic

definition u16_field :: "nat \<Rightarrow> bytes \<Rightarrow> u16 option" where
  "u16_field off d = map_option u16_of_le (slice off 2 d)"

definition u32_field :: "nat \<Rightarrow> bytes \<Rightarrow> u32 option" where
  "u32_field off d = map_option u32_of_le (slice off 4 d)"

definition u64_field :: "nat \<Rightarrow> bytes \<Rightarrow> u64 option" where
  "u64_field off d = map_option u64_of_le (slice off 8 d)"

definition from_page :: "page \<Rightarrow> (header_error + file_header) option" where
  "from_page d =
     do {
       magic \<leftarrow> slice 0 6 d;
       if magic \<noteq> MAGIC then Some (Inl BadMagic)
       else do {
         v_format_version \<leftarrow> u16_field 6 d;
         v_page_size \<leftarrow> u32_field 8 d;
         v_page_count \<leftarrow> u32_field 12 d;
         v_free_list_head \<leftarrow> u32_field 16 d;
         v_node_count \<leftarrow> u32_field 20 d;
         v_edge_count \<leftarrow> u32_field 24 d;
         v_string_table_root \<leftarrow> u32_field 28 d;
         v_node_data_first \<leftarrow> u32_field 32 d;
         v_edge_data_first \<leftarrow> u32_field 36 d;
         v_label_index_root \<leftarrow> u32_field 40 d;
         v_adjacency_root \<leftarrow> u32_field 44 d;
         v_edge_label_index_root \<leftarrow> u32_field 48 d;
         v_node_locs_root \<leftarrow> u32_field 52 d;
         v_edge_topo_root \<leftarrow> u32_field 56 d;
         v_catalog_root \<leftarrow> u32_field 60 d;
         name \<leftarrow> slice 64 32 d;
         v_csr_adjacency_root \<leftarrow> u32_field 96 d;
         v_secondary_index_root \<leftarrow> u32_field 100 d;
         v_names_root \<leftarrow> u32_field 104 d;
         v_graph_id \<leftarrow> u64_field 108 d;
         Some (Inr
           \<lparr>fh_format_version = v_format_version,
            fh_page_size = v_page_size,
            fh_page_count = v_page_count,
            fh_free_list_head = v_free_list_head,
            fh_node_count = v_node_count,
            fh_edge_count = v_edge_count,
            fh_string_table_root = v_string_table_root,
            fh_node_data_first = v_node_data_first,
            fh_edge_data_first = v_edge_data_first,
            fh_label_index_root = v_label_index_root,
            fh_adjacency_root = v_adjacency_root,
            fh_edge_label_index_root = v_edge_label_index_root,
            fh_node_locs_root = v_node_locs_root,
            fh_edge_topo_root = v_edge_topo_root,
            fh_catalog_root = v_catalog_root,
            fh_active_type_name = decode_active_name name,
            fh_csr_adjacency_root = v_csr_adjacency_root,
            fh_secondary_index_root = v_secondary_index_root,
            fh_names_root = v_names_root,
            fh_graph_id = v_graph_id\<rparr>)
       }
     }"

section \<open>The header round trip\<close>

lemma length_encode_active_name [simp]: "length (encode_active_name n) = 32"
  by (cases n) (simp_all add: encode_active_name_def ACTIVE_NAME_BYTES_def Let_def)

lemma length_MAGIC [simp]: "length MAGIC = 6"
  by (simp add: MAGIC_def)

lemma header_fields_disjoint: "disjoint_fields 0 (header_fields h) 116"
  by (simp add: header_fields_def)

text \<open>The name a file can carry for an active type name.\<close>

definition stored_name :: "bytes option \<Rightarrow> bytes option" where
  "stored_name n = decode_active_name (encode_active_name n)"

lemma header_roundtrip_page:
  "\<exists>p. to_page h = Some p \<and> length p = PAGE_SIZE
    \<and> from_page p = Some (Inr (h\<lparr>fh_active_type_name := stored_name (fh_active_type_name h)\<rparr>))"
proof -
  have "116 \<le> length (page_new PtFileHeader)" by (simp add: length_page_new PAGE_SIZE_def)
  then obtain p where p: "write_all (header_fields h) (page_new PtFileHeader) = Some p"
    "length p = length (page_new PtFileHeader)"
    "\<And>off bs. (off, bs) \<in> set (header_fields h) \<Longrightarrow> slice off (length bs) p = Some bs"
    using write_all_correct [OF header_fields_disjoint, of "page_new PtFileHeader" h] by auto
  have f: "list_all (\<lambda>(off, bs). slice off (length bs) p = Some bs) (header_fields h)"
    using p(3) by (auto simp: list_all_iff)
  have "from_page p = Some (Inr (h\<lparr>fh_active_type_name := stored_name (fh_active_type_name h)\<rparr>))"
    using f by (simp add: header_fields_def from_page_def u16_field_def u32_field_def u64_field_def stored_name_def)
  then show ?thesis using p(1,2) by (simp add: to_page_def length_page_new)
qed

lemma takeWhile_replicate: "(\<forall>b \<in> set s. b \<noteq> (0 :: u8)) \<Longrightarrow> takeWhile (\<lambda>b. b \<noteq> 0) (s @ replicate n 0) = s"
  by (induction s) (cases n; auto)+

lemma stored_name_None: "stored_name None = None"
  by (simp add: stored_name_def encode_active_name_def decode_active_name_def ACTIVE_NAME_BYTES_def Let_def)

lemma stored_name_Some:
  assumes "\<forall>b \<in> set s. b \<noteq> 0"
  shows "stored_name (Some s) = (let t = take 31 s in if t = [] then None else if utf8_valid t then Some t else None)"
proof -
  have t: "take (min (length s) 31) s = take 31 s" by (simp add: min_def)
  have "\<forall>b \<in> set (take 31 s). b \<noteq> 0" using assms by (meson in_set_takeD)
  then show ?thesis
    using takeWhile_replicate [of "take 31 s" "32 - min (length s) 31"]
    by (simp add: stored_name_def encode_active_name_def decode_active_name_def ACTIVE_NAME_BYTES_def Let_def t)
qed

text \<open>
  C34: The file header survives the page: for every header, writing it never panics, fills
  a whole page, and reading that page gives every field back, the active type name as far
  as the slot can carry it. A name of 1 to 31 bytes without zero bytes is carried whole,
  and no name is carried as no name.
\<close>

theorem header_roundtrip:
  "(\<exists>p. to_page h = Some p \<and> length p = PAGE_SIZE
      \<and> from_page p = Some (Inr (h\<lparr>fh_active_type_name := stored_name (fh_active_type_name h)\<rparr>)))
   \<and> stored_name None = None
   \<and> (s \<noteq> [] \<and> length s \<le> 31 \<and> utf8_valid s \<and> (\<forall>b \<in> set s. b \<noteq> 0) \<longrightarrow> stored_name (Some s) = Some s)"
  using header_roundtrip_page [of h] by (auto simp: stored_name_None stored_name_Some Let_def)

lemma header_roundtrip_witness: "stored_name (Some [0x47, 0x31]) = Some [0x47, 0x31]"
  using header_roundtrip [of header_new "[0x47, 0x31]"]
  by (simp add: utf8_valid.simps utf8_head_def)

text \<open>
  A longer name may be lost outright: it is cut at 31 bytes without regard to the
  character there, and a cut that leaves half a character does not read back as UTF-8, so
  the file says that no type is active.
\<close>

theorem long_name_lost:
  "\<exists>s. utf8_valid s \<and> 0 \<notin> set s \<and> length s = 32 \<and> stored_name (Some s) = None"
proof (intro exI conjI)
  let ?s = "replicate 30 0x61 @ [0xC3, 0xA9] :: bytes"
  have step: "utf8_valid (0x61 # s) = utf8_valid s" for s
    by (subst utf8_valid.simps) (simp add: utf8_head_def)
  have rep: "utf8_valid (replicate n 0x61 @ s) = utf8_valid s" for n s by (induction n) (simp_all add: step)
  show "utf8_valid ?s" unfolding rep by (simp add: utf8_valid.simps utf8_head_def in_range_def)
  show "0 \<notin> set ?s" by auto
  then have nz: "\<forall>b \<in> set ?s. b \<noteq> 0" by metis
  show "length ?s = 32" by simp
  have "take 31 ?s = replicate 30 0x61 @ [0xC3]" by simp
  moreover have "\<not> utf8_valid (replicate 30 0x61 @ [0xC3])"
    unfolding rep by (simp add: utf8_valid.simps utf8_head_def)
  ultimately show "stored_name (Some ?s) = None" by (simp only: stored_name_Some [OF nz] Let_def) simp
qed

end
