(* ===== verification/Pagers.thy ===== *)
theory Pagers
  imports Headers "HOL-Library.AList"
begin

text \<open>
  The pager (\<open>src/pager/pager.rs\<close>): a file of pages behind a write-through cache with
  least-recently-used eviction, and the free list threaded through freed pages. The cache
  is the list of its entries in the iteration order of the \<open>HashMap\<close>. The file is its
  bytes: a write past its end extends it with zeros, a read past its end is the error of
  \<open>read_exact\<close>; other errors of the operating system are not modelled. Every operation
  gives its result or error and the pager after it.
\<close>

section \<open>Page stores\<close>

text \<open>
  What a client of a pager relies on: a page it wrote reads back until it is written again,
  and a write touches no other page.
\<close>

locale page_store =
  fixes rd :: "'s \<Rightarrow> 'k \<Rightarrow> 'p option"
    and wr :: "'k \<Rightarrow> 'p \<Rightarrow> 's \<Rightarrow> 's"
    and inv :: "'s \<Rightarrow> bool"
    and ok :: "'k \<Rightarrow> 'p \<Rightarrow> bool"
  assumes inv_wr: "inv s \<Longrightarrow> ok k p \<Longrightarrow> inv (wr k p s)"
    and rd_wr_same: "inv s \<Longrightarrow> ok k p \<Longrightarrow> rd (wr k p s) k = Some p"
    and rd_wr_other: "inv s \<Longrightarrow> ok k p \<Longrightarrow> rd s k' = Some q \<Longrightarrow> k' \<noteq> k \<Longrightarrow> rd (wr k p s) k' = Some q"
begin

definition writes :: "('k \<times> 'p) list \<Rightarrow> 's \<Rightarrow> 's" where
  "writes kps s = fold (\<lambda>(k, p). wr k p) kps s"

lemma writes_snoc [simp]: "writes (kps @ [(k, p)]) s = wr k p (writes kps s)"
  by (simp add: writes_def)

lemma inv_writes: "inv s \<Longrightarrow> list_all (\<lambda>(k, p). ok k p) kps \<Longrightarrow> inv (writes kps s)"
  by (induction kps rule: rev_induct) (auto simp: writes_def inv_wr)

text \<open>The last write to a page is what it holds.\<close>

lemma rd_writes:
  assumes "inv s" "list_all (\<lambda>(k, p). ok k p) kps" "map_of (rev kps) k = Some p"
  shows "rd (writes kps s) k = Some p"
  using assms(2,3)
proof (induction kps rule: rev_induct)
  case (snoc kp kps)
  obtain k' p' where kp: "kp = (k', p')" by (cases kp)
  then show ?case
    using snoc inv_writes [OF assms(1), of kps] rd_wr_same rd_wr_other [of "writes kps s" k' p' k p]
    by (cases "k = k'") auto
qed simp

lemma rd_writes_other:
  assumes "inv s" "list_all (\<lambda>(k, p). ok k p) kps" "rd s k = Some q" "k \<notin> fst ` set kps"
  shows "rd (writes kps s) k = Some q"
  using assms(2,4)
proof (induction kps rule: rev_induct)
  case Nil
  then show ?case using assms(3) by (simp add: writes_def)
next
  case (snoc kp kps)
  then show ?case using inv_writes [OF assms(1), of kps] rd_wr_other by (cases kp) auto
qed

end

section \<open>The state\<close>

datatype backing = FileB bytes | MemB bytes

record cache_entry =
  ce_page :: page
  ce_last_access :: nat
  ce_dirty :: bool

record pager =
  pg_file :: backing
  pg_header :: file_header
  pg_cache :: "(u32 \<times> cache_entry) list"
  pg_cache_size :: nat
  pg_tick :: nat
  pg_hits :: nat
  pg_misses :: nat

datatype io_error =
    OutOfRange u32 u32
  | UnexpectedEof
  | Unsupported
  | CannotFreeHeader
  | InvalidHeader header_error
  | VersionTooNew u16
  | VersionTooOld u16
  | ImageTooShort nat
  | ImageTruncated nat u32

type_synonym 'a io = "(io_error + 'a) \<times> pager"

section \<open>The backing\<close>

definition backing_bytes :: "backing \<Rightarrow> bytes" where
  "backing_bytes b = (case b of FileB f \<Rightarrow> f | MemB m \<Rightarrow> m)"

definition file_write :: "nat \<Rightarrow> bytes \<Rightarrow> bytes \<Rightarrow> bytes" where
  "file_write off bs f =
     (let g = f @ replicate (off - length f) 0 in take off g @ bs @ drop (off + length bs) g)"

definition page_offset :: "u32 \<Rightarrow> nat" where
  "page_offset n = unat n * PAGE_SIZE"

definition read_page_from_disk :: "u32 \<Rightarrow> pager \<Rightarrow> page option" where
  "read_page_from_disk n p = slice (page_offset n) PAGE_SIZE (backing_bytes (pg_file p))"

definition write_page_to_disk :: "u32 \<Rightarrow> page \<Rightarrow> pager \<Rightarrow> unit io" where
  "write_page_to_disk n pg p =
     (case pg_file p of
        FileB f \<Rightarrow> (Inr (), p\<lparr>pg_file := FileB (file_write (page_offset n) pg f)\<rparr>)
      | MemB _ \<Rightarrow> (Inl Unsupported, p))"

section \<open>The cache\<close>

text \<open>\<open>min_by_key\<close>: the first of the least elements.\<close>

fun first_min :: "(u32 \<times> cache_entry) \<Rightarrow> (u32 \<times> cache_entry) list \<Rightarrow> u32 \<times> cache_entry" where
  "first_min m [] = m"
| "first_min m (x # xs) =
     first_min (if ce_last_access (snd x) < ce_last_access (snd m) then x else m) xs"

definition evict_lru :: "pager \<Rightarrow> pager" where
  "evict_lru p =
     (case pg_cache p of
        [] \<Rightarrow> p
      | x # xs \<Rightarrow>
          let (evict_key, e) = first_min x xs;
              p = (if ce_dirty e then snd (write_page_to_disk evict_key (ce_page e) p) else p)
          in p\<lparr>pg_cache := AList.delete evict_key (pg_cache p)\<rparr>)"

definition cache_insert :: "u32 \<Rightarrow> page \<Rightarrow> bool \<Rightarrow> pager \<Rightarrow> pager" where
  "cache_insert n pg dirty p =
     (let p = (if pg_cache_size p \<le> length (pg_cache p) then evict_lru p else p)
      in p\<lparr>pg_cache := AList.update n
             \<lparr>ce_page = pg, ce_last_access = pg_tick p, ce_dirty = dirty\<rparr> (pg_cache p)\<rparr>)"

section \<open>Reading and writing pages\<close>

definition read_page :: "u32 \<Rightarrow> pager \<Rightarrow> page io" where
  "read_page n p =
     (if fh_page_count (pg_header p) \<le> n then (Inl (OutOfRange n (fh_page_count (pg_header p))), p)
      else
        let p = p\<lparr>pg_tick := pg_tick p + 1\<rparr>
        in case map_of (pg_cache p) n of
             Some e \<Rightarrow>
               (Inr (ce_page e),
                p\<lparr>pg_hits := pg_hits p + 1,
                  pg_cache := AList.update n (e\<lparr>ce_last_access := pg_tick p\<rparr>) (pg_cache p)\<rparr>)
           | None \<Rightarrow>
               let p = p\<lparr>pg_misses := pg_misses p + 1\<rparr>
               in case read_page_from_disk n p of
                    None \<Rightarrow> (Inl UnexpectedEof, p)
                  | Some pg \<Rightarrow> (Inr pg, cache_insert n pg False p))"

definition write_page :: "u32 \<Rightarrow> page \<Rightarrow> pager \<Rightarrow> unit io" where
  "write_page n pg p =
     (case write_page_to_disk n pg p of
        (Inl e, p) \<Rightarrow> (Inl e, p)
      | (Inr _, p) \<Rightarrow>
          let p = p\<lparr>pg_tick := pg_tick p + 1\<rparr>
          in case map_of (pg_cache p) n of
               Some e \<Rightarrow>
                 (Inr (), p\<lparr>pg_cache := AList.update n
                    (e\<lparr>ce_page := pg, ce_last_access := pg_tick p, ce_dirty := False\<rparr>) (pg_cache p)\<rparr>)
             | None \<Rightarrow> (Inr (), cache_insert n pg False p))"

text \<open>Serialising a header never panics (\<open>header_roundtrip\<close>), so its page exists.\<close>

definition header_page :: "file_header \<Rightarrow> page" where
  "header_page h = the (to_page h)"

definition write_header :: "pager \<Rightarrow> unit io" where
  "write_header p = write_page_to_disk 0 (header_page (pg_header p)) p"

section \<open>The free list\<close>

definition set_free_list_head :: "u32 \<Rightarrow> pager \<Rightarrow> pager" where
  "set_free_list_head n p = p\<lparr>pg_header := (pg_header p)\<lparr>fh_free_list_head := n\<rparr>\<rparr>"

definition allocate_page :: "pager \<Rightarrow> u32 io" where
  "allocate_page p =
     (let head = fh_free_list_head (pg_header p)
      in if head \<noteq> 0 then
           (case read_page head p of
              (Inl e, p) \<Rightarrow> (Inl e, p)
            | (Inr free_page, p) \<Rightarrow>
                (case write_header (set_free_list_head (u32_of_le (take 4 free_page)) p) of
                   (Inl e, p) \<Rightarrow> (Inl e, p)
                 | (Inr _, p) \<Rightarrow> (Inr head, p)))
         else
           let n = fh_page_count (pg_header p);
               p = p\<lparr>pg_header := (pg_header p)\<lparr>fh_page_count := n + 1\<rparr>\<rparr>
           in case write_page n (page_new PtFree) p of
                (Inl e, p) \<Rightarrow> (Inl e, p)
              | (Inr _, p) \<Rightarrow>
                  (case write_header p of (Inl e, p) \<Rightarrow> (Inl e, p) | (Inr _, p) \<Rightarrow> (Inr n, p)))"

definition free_page_image :: "u32 \<Rightarrow> page" where
  "free_page_image next = u32_le next @ drop 4 (page_new PtFree)"

definition free_page :: "u32 \<Rightarrow> pager \<Rightarrow> unit io" where
  "free_page n p =
     (if n = 0 then (Inl CannotFreeHeader, p)
      else case write_page n (free_page_image (fh_free_list_head (pg_header p))) p of
        (Inl e, p) \<Rightarrow> (Inl e, p)
      | (Inr _, p) \<Rightarrow>
          (case write_header (set_free_list_head n p) of
             (Inl e, p) \<Rightarrow> (Inl e, p)
           | (Inr _, p) \<Rightarrow> (Inr (), p\<lparr>pg_cache := AList.delete n (pg_cache p)\<rparr>)))"

section \<open>Opening\<close>

definition pager_of :: "backing \<Rightarrow> file_header \<Rightarrow> nat \<Rightarrow> pager" where
  "pager_of b h cap =
     \<lparr>pg_file = b, pg_header = h, pg_cache = [], pg_cache_size = cap, pg_tick = 0, pg_hits = 0, pg_misses = 0\<rparr>"

definition create_with_cache :: "nat \<Rightarrow> unit io" where
  "create_with_cache cap = write_header (pager_of (FileB []) header_new cap)"

definition check_version :: "file_header \<Rightarrow> io_error option" where
  "check_version h =
     (if FORMAT_VERSION < fh_format_version h then Some (VersionTooNew (fh_format_version h))
      else if fh_format_version h < MIN_READABLE_VERSION then Some (VersionTooOld (fh_format_version h))
      else None)"

text \<open>Reading the header of page 0, whose length \<open>from_page\<close> needs is checked first.\<close>

definition open_with_cache :: "bytes \<Rightarrow> nat \<Rightarrow> io_error + pager" where
  "open_with_cache file cap =
     (case slice 0 PAGE_SIZE file of
        None \<Rightarrow> Inl UnexpectedEof
      | Some page0 \<Rightarrow>
          (case from_page page0 of
             None \<Rightarrow> Inl UnexpectedEof
           | Some (Inl e) \<Rightarrow> Inl (InvalidHeader e)
           | Some (Inr h) \<Rightarrow>
               (case check_version h of Some e \<Rightarrow> Inl e | None \<Rightarrow> Inr (pager_of (FileB file) h cap))))"

definition pager_from_bytes :: "bytes \<Rightarrow> nat \<Rightarrow> io_error + pager" where
  "pager_from_bytes bytes_in cap =
     (case slice 0 PAGE_SIZE bytes_in of
        None \<Rightarrow> Inl (ImageTooShort (length bytes_in))
      | Some page0 \<Rightarrow>
          (case from_page page0 of
             None \<Rightarrow> Inl (ImageTooShort (length bytes_in))
           | Some (Inl e) \<Rightarrow> Inl (InvalidHeader e)
           | Some (Inr h) \<Rightarrow>
               (case check_version h of
                  Some e \<Rightarrow> Inl e
                | None \<Rightarrow>
                    if length bytes_in < unat (fh_page_count h) * PAGE_SIZE
                    then Inl (ImageTruncated (length bytes_in) (fh_page_count h))
                    else Inr (pager_of (MemB bytes_in) h cap))))"

section \<open>The pages on disk\<close>

definition disk_page :: "pager \<Rightarrow> u32 \<Rightarrow> page option" where
  "disk_page p n = read_page_from_disk n p"

definition is_file :: "pager \<Rightarrow> bool" where
  "is_file p = (case pg_file p of FileB _ \<Rightarrow> True | MemB _ \<Rightarrow> False)"

lemma length_file_write: "length (file_write off bs f) = max (length f) (off + length bs)"
  by (simp add: file_write_def Let_def)

lemma file_write_same: "slice off (length bs) (file_write off bs f) = Some bs"
  by (simp add: file_write_def Let_def slice_def min_def)

lemma file_write_splice:
  "splice off bs (f @ replicate (off + length bs - length f) 0) = Some (file_write off bs f)"
proof -
  let ?g = "f @ replicate (off - length f) 0" and ?h = "f @ replicate (off + length bs - length f) 0"
  have "take off ?h = take off ?g" "drop (off + length bs) ?h = drop (off + length bs) ?g" by simp_all
  then show ?thesis by (simp add: splice_def file_write_def Let_def)
qed

lemma slice_append: "slice off n xs = Some ys \<Longrightarrow> slice off n (xs @ zs) = Some ys"
  by (auto simp: slice_def split: if_splits)

lemma file_write_other:
  "slice o2 n f = Some ys \<Longrightarrow> o2 + n \<le> off \<or> off + length bs \<le> o2 \<Longrightarrow> slice o2 n (file_write off bs f) = Some ys"
  using slice_splice_other [OF file_write_splice] slice_append by metis

lemma page_offset_disjoint:
  "m \<noteq> n \<Longrightarrow> page_offset m + PAGE_SIZE \<le> page_offset n \<or> page_offset n + PAGE_SIZE \<le> page_offset m"
proof -
  assume "m \<noteq> n"
  then have "unat m \<noteq> unat n" by (simp add: word_unat_eq_iff)
  then have "unat m + 1 \<le> unat n \<or> unat n + 1 \<le> unat m" by linarith
  then show ?thesis unfolding page_offset_def by (metis add_mult_distrib mult_1 mult_le_mono1)
qed

lemma write_to_disk_file:
  assumes "is_file p" "length pg = PAGE_SIZE"
  shows "\<exists>f. write_page_to_disk n pg p = (Inr (), p\<lparr>pg_file := FileB f\<rparr>)
    \<and> disk_page (p\<lparr>pg_file := FileB f\<rparr>) n = Some pg
    \<and> (\<forall>m q. m \<noteq> n \<longrightarrow> disk_page p m = Some q \<longrightarrow> disk_page (p\<lparr>pg_file := FileB f\<rparr>) m = Some q)"
proof -
  obtain g where g: "pg_file p = FileB g" using assms(1) by (auto simp: is_file_def split: backing.splits)
  let ?f = "file_write (page_offset n) pg g"
  have "disk_page (p\<lparr>pg_file := FileB ?f\<rparr>) n = Some pg"
    using file_write_same [of "page_offset n" pg g] assms(2)
    by (simp add: disk_page_def read_page_from_disk_def backing_bytes_def)
  moreover have "disk_page (p\<lparr>pg_file := FileB ?f\<rparr>) m = Some q" if "m \<noteq> n" "disk_page p m = Some q" for m q
    using that(2) file_write_other [of "page_offset m" PAGE_SIZE g q "page_offset n" pg]
      page_offset_disjoint [OF that(1)] assms(2) g
    by (simp add: disk_page_def read_page_from_disk_def backing_bytes_def)
  ultimately show ?thesis using g by (intro exI [of _ ?f]) (simp add: write_page_to_disk_def)
qed

lemma disk_page_cong: "pg_file p = pg_file q \<Longrightarrow> disk_page p n = disk_page q n"
  by (simp add: disk_page_def read_page_from_disk_def)

section \<open>The cache agrees with the disk\<close>

text \<open>
  Every cached page but page 0 is the page on disk, and none is dirty. Page 0 is the
  header, which \<open>write_header\<close> writes past the cache.
\<close>

definition entry_ok :: "pager \<Rightarrow> u32 \<times> cache_entry \<Rightarrow> bool" where
  "entry_ok p ne \<longleftrightarrow> \<not> ce_dirty (snd ne) \<and> (fst ne \<noteq> 0 \<longrightarrow> disk_page p (fst ne) = Some (ce_page (snd ne)))"

definition pager_ok :: "pager \<Rightarrow> bool" where
  "pager_ok p \<longleftrightarrow> distinct (map fst (pg_cache p)) \<and> list_all (entry_ok p) (pg_cache p)
     \<and> length (pg_cache p) \<le> max 1 (pg_cache_size p)"

lemma first_min_mem: "first_min m xs \<in> set (m # xs)"
  by (induction xs arbitrary: m) (auto split: if_splits)

lemma set_delete_subset: "set (AList.delete k al) \<subseteq> set al"
  by (auto simp: AList.delete_eq)

lemma length_delete: "length (AList.delete k al) \<le> length al"
  by (simp add: AList.delete_eq)

lemma length_delete_less: "k \<in> fst ` set al \<Longrightarrow> length (AList.delete k al) < length al"
  by (auto simp: AList.delete_eq intro!: length_filter_less)

lemma evict_lru_clean:
  assumes "pager_ok p"
  shows "\<exists>k. evict_lru p = p\<lparr>pg_cache := AList.delete k (pg_cache p)\<rparr>
    \<and> (pg_cache p \<noteq> [] \<longrightarrow> length (AList.delete k (pg_cache p)) < length (pg_cache p))"
proof (cases "pg_cache p")
  case Nil
  then show ?thesis by (intro exI [of _ 0]) (simp add: evict_lru_def)
next
  case (Cons x xs)
  obtain k e where ke: "first_min x xs = (k, e)" by (cases "first_min x xs")
  then have mem: "(k, e) \<in> set (pg_cache p)" using first_min_mem [of x xs] Cons by simp
  then have "\<not> ce_dirty e" using assms by (auto simp: pager_ok_def list_all_iff entry_ok_def)
  moreover have "length (AList.delete k (pg_cache p)) < length (pg_cache p)"
    using mem by (intro length_delete_less) force
  ultimately show ?thesis using ke Cons by (intro exI [of _ k]) (simp add: evict_lru_def)
qed

lemma set_update_subset: "set (AList.update k v al) \<subseteq> insert (k, v) (set al)"
  by (induction al) auto

lemma length_update_le: "length (AList.update k v al) \<le> Suc (length al)"
  by (induction al) auto

lemma length_update_same: "k \<in> fst ` set al \<Longrightarrow> length (AList.update k v al) = length al"
  by (induction al) auto

lemma pager_ok_update:
  assumes "pager_ok p" "entry_ok p (n, e)" "length (AList.update n e (pg_cache p)) \<le> max 1 (pg_cache_size p)"
  shows "pager_ok (p\<lparr>pg_cache := AList.update n e (pg_cache p)\<rparr>)"
proof -
  have eq: "entry_ok (p\<lparr>pg_cache := c\<rparr>) x = entry_ok p x" for c x
    by (simp add: entry_ok_def disk_page_def read_page_from_disk_def)
  have "list_all (entry_ok p) (AList.update n e (pg_cache p))"
    using assms(1,2) set_update_subset [of n e "pg_cache p"] by (auto simp: pager_ok_def list_all_iff)
  then show ?thesis using assms by (simp add: pager_ok_def list_all_iff eq distinct_update)
qed

lemma pager_ok_delete: "pager_ok p \<Longrightarrow> pager_ok (p\<lparr>pg_cache := AList.delete k (pg_cache p)\<rparr>)"
  using set_delete_subset [of k "pg_cache p"] length_delete [of k "pg_cache p"]
  by (auto simp: pager_ok_def list_all_iff entry_ok_def disk_page_def read_page_from_disk_def distinct_delete)

lemma cache_insert_ok:
  assumes "pager_ok p" "n \<noteq> 0 \<longrightarrow> disk_page p n = Some pg" "map_of (pg_cache p) n = None"
  shows "pager_ok (cache_insert n pg False p) \<and> pg_file (cache_insert n pg False p) = pg_file p
    \<and> pg_header (cache_insert n pg False p) = pg_header p"
proof -
  let ?e = "\<lparr>ce_page = pg, ce_last_access = pg_tick p, ce_dirty = False\<rparr>"
  have e: "entry_ok q (n, ?e)" if "pg_file q = pg_file p" for q
    using assms(2) disk_page_cong [OF that] by (simp add: entry_ok_def)
  show ?thesis
  proof (cases "pg_cache_size p \<le> length (pg_cache p)")
    case True
    obtain k where k: "evict_lru p = p\<lparr>pg_cache := AList.delete k (pg_cache p)\<rparr>"
      "pg_cache p \<noteq> [] \<longrightarrow> length (AList.delete k (pg_cache p)) < length (pg_cache p)"
      using evict_lru_clean [OF assms(1)] by blast
    let ?q = "p\<lparr>pg_cache := AList.delete k (pg_cache p)\<rparr>"
    have "pager_ok ?q" using assms(1) by (rule pager_ok_delete)
    moreover have "length (AList.update n ?e (pg_cache ?q)) \<le> max 1 (pg_cache_size ?q)"
      using k(2) length_update_le [of n ?e "pg_cache ?q"] assms(1) by (cases "pg_cache p = []") (auto simp: pager_ok_def)
    ultimately show ?thesis
      using pager_ok_update [of ?q n ?e] e [of ?q] True k(1) by (simp add: cache_insert_def Let_def)
  next
    case False
    then have "length (AList.update n ?e (pg_cache p)) \<le> max 1 (pg_cache_size p)"
      using length_update_le [of n ?e "pg_cache p"] by simp
    then show ?thesis
      using pager_ok_update [OF assms(1) e [OF refl]] False by (simp add: cache_insert_def Let_def)
  qed
qed


section \<open>Reading and writing\<close>

definition page_at :: "pager \<Rightarrow> u32 \<Rightarrow> page \<Rightarrow> bool" where
  "page_at p n pg \<longleftrightarrow> pager_ok p \<and> is_file p \<and> n \<noteq> 0 \<and> disk_page p n = Some pg"

lemma pager_ok_cong:
  "pg_file q = pg_file p \<Longrightarrow> pg_cache q = pg_cache p \<Longrightarrow> pg_cache_size q = pg_cache_size p \<Longrightarrow> pager_ok q = pager_ok p"
  using disk_page_cong [of q p] by (simp add: pager_ok_def list_all_iff entry_ok_def)

lemma pager_ok_cached:
  assumes "pager_ok p" "map_of (pg_cache p) n = Some e"
  shows "\<not> ce_dirty e" "n \<noteq> 0 \<Longrightarrow> disk_page p n = Some (ce_page e)"
    "length (AList.update n e' (pg_cache p)) \<le> max 1 (pg_cache_size p)"
proof -
  have mem: "(n, e) \<in> set (pg_cache p)" using assms(2) by (rule map_of_SomeD)
  then have "entry_ok p (n, e)" using assms(1) by (auto simp: pager_ok_def list_all_iff)
  then show "\<not> ce_dirty e" "n \<noteq> 0 \<Longrightarrow> disk_page p n = Some (ce_page e)" by (simp_all add: entry_ok_def)
  have "n \<in> fst ` set (pg_cache p)" using mem by force
  then show "length (AList.update n e' (pg_cache p)) \<le> max 1 (pg_cache_size p)"
    using length_update_same [of n "pg_cache p"] assms(1) by (simp add: pager_ok_def)
qed

lemma read_page_ok:
  assumes ok: "pager_ok p" and n: "n < fh_page_count (pg_header p)" "n \<noteq> 0"
    and pg: "disk_page p n = Some pg"
  shows "fst (read_page n p) = Inr pg \<and> pager_ok (snd (read_page n p))
    \<and> pg_file (snd (read_page n p)) = pg_file p \<and> pg_header (snd (read_page n p)) = pg_header p"
proof (cases "map_of (pg_cache p) n")
  case (Some e)
  let ?q = "p\<lparr>pg_tick := pg_tick p + 1, pg_hits := pg_hits p + 1\<rparr>"
  let ?e = "e\<lparr>ce_last_access := pg_tick p + 1\<rparr>"
  have q: "pager_ok ?q" using ok pager_ok_cong [of ?q p] by simp
  have "ce_page e = pg" using pager_ok_cached(2) [OF ok Some n(2)] pg by simp
  moreover have "entry_ok ?q (n, ?e)"
    using pager_ok_cached(1,2) [OF ok Some] disk_page_cong [of ?q p] by (simp add: entry_ok_def)
  ultimately show ?thesis
    using pager_ok_update [OF q, of n ?e] pager_ok_cached(3) [OF ok Some, of ?e] Some n(1)
    by (simp add: read_page_def Let_def linorder_not_le)
next
  case None
  let ?q = "p\<lparr>pg_tick := pg_tick p + 1, pg_misses := pg_misses p + 1\<rparr>"
  have "pager_ok ?q" using ok pager_ok_cong [of ?q p] by simp
  moreover have "disk_page ?q n = Some pg" using pg disk_page_cong [of ?q p] by simp
  ultimately show ?thesis
    using cache_insert_ok [of ?q n pg] None n(1)
    by (simp add: read_page_def Let_def linorder_not_le disk_page_def)
qed

text \<open>After the disk write of page \<open>n\<close> the cache agrees with the disk but for \<open>n\<close>.\<close>

lemma pager_ok_disk_write:
  assumes "pager_ok p" "disk_page q n = Some pg" "pg_cache q = pg_cache p" "pg_cache_size q = pg_cache_size p"
    "\<forall>m r. m \<noteq> n \<longrightarrow> disk_page p m = Some r \<longrightarrow> disk_page q m = Some r"
  shows "distinct (map fst (pg_cache q))" "length (pg_cache q) \<le> max 1 (pg_cache_size q)"
    "x \<in> set (pg_cache q) \<Longrightarrow> fst x \<noteq> n \<Longrightarrow> entry_ok q x"
    "x \<in> set (pg_cache q) \<Longrightarrow> \<not> ce_dirty (snd x)"
  using assms by (auto simp: pager_ok_def list_all_iff entry_ok_def)

lemma write_page_ok:
  assumes ok: "pager_ok p" and f: "is_file p" and len: "length pg = PAGE_SIZE"
  shows "fst (write_page n pg p) = Inr () \<and> pager_ok (snd (write_page n pg p))
    \<and> is_file (snd (write_page n pg p)) \<and> pg_header (snd (write_page n pg p)) = pg_header p
    \<and> disk_page (snd (write_page n pg p)) n = Some pg
    \<and> (\<forall>m q. m \<noteq> n \<longrightarrow> disk_page p m = Some q \<longrightarrow> disk_page (snd (write_page n pg p)) m = Some q)"
proof -
  obtain f where w: "write_page_to_disk n pg p = (Inr (), p\<lparr>pg_file := FileB f\<rparr>)"
    and same: "disk_page (p\<lparr>pg_file := FileB f\<rparr>) n = Some pg"
    and other: "\<forall>m q. m \<noteq> n \<longrightarrow> disk_page p m = Some q \<longrightarrow> disk_page (p\<lparr>pg_file := FileB f\<rparr>) m = Some q"
    using write_to_disk_file [OF f len, of n] by blast
  let ?q = "p\<lparr>pg_file := FileB f, pg_tick := pg_tick p + 1\<rparr>"
  have dq: "disk_page ?q m = disk_page (p\<lparr>pg_file := FileB f\<rparr>) m" for m by (rule disk_page_cong) simp
  note cw = pager_ok_disk_write [of p ?q n pg, OF ok]
  show ?thesis
  proof (cases "map_of (pg_cache p) n")
    case (Some e)
    let ?e = "e\<lparr>ce_page := pg, ce_last_access := pg_tick p + 1, ce_dirty := False\<rparr>"
    let ?r = "?q\<lparr>pg_cache := AList.update n ?e (pg_cache p)\<rparr>"
    have w': "write_page n pg p = (Inr (), ?r)" using w Some by (simp add: write_page_def Let_def)
    have dr: "disk_page ?r m = disk_page (p\<lparr>pg_file := FileB f\<rparr>) m" for m by (rule disk_page_cong) simp
    have "entry_ok ?r x" if "x \<in> set (AList.update n ?e (pg_cache p))" for x
    proof (cases "fst x = n")
      case True
      then have "map_of (AList.update n ?e (pg_cache p)) n = Some (snd x)"
        using that ok by (cases x) (simp add: pager_ok_def distinct_update)
      then have "snd x = ?e" by (simp add: update_conv)
      then show ?thesis using True same dr by (simp add: entry_ok_def)
    next
      case False
      then have "x \<in> set (pg_cache p)" using that set_update_subset [of n ?e "pg_cache p"] by auto
      then show ?thesis using ok other False dr by (auto simp: pager_ok_def list_all_iff entry_ok_def)
    qed
    then have "pager_ok ?r"
      using ok pager_ok_cached(3) [OF ok Some, of ?e] by (simp add: pager_ok_def list_all_iff distinct_update)
    then show ?thesis using w' dr same other by (simp add: is_file_def)
  next
    case None
    have nk: "fst x \<noteq> n" if "x \<in> set (pg_cache p)" for x
      using None that by (cases x) (force simp: map_of_eq_None_iff)
    have "pager_ok ?q"
      using cw(1,2,3) same other dq nk by (simp add: pager_ok_def list_all_iff)
    then show ?thesis
      using cache_insert_ok [of ?q n pg] None same other dq w
        disk_page_cong [of "cache_insert n pg False ?q" ?q]
      by (simp add: write_page_def Let_def is_file_def)
  qed
qed


interpretation disk: page_store disk_page "\<lambda>n pg p. snd (write_page n pg p)" "\<lambda>p. pager_ok p \<and> is_file p" "\<lambda>_ pg. length pg = PAGE_SIZE"
  by unfold_locales (use write_page_ok in blast)+

definition write_pages :: "(u32 \<times> page) list \<Rightarrow> pager \<Rightarrow> pager" where
  "write_pages kps p = fold (\<lambda>(n, pg) p. snd (write_page n pg p)) kps p"

lemma write_pages_eq: "write_pages kps p = disk.writes kps p"
  by (simp add: write_pages_def disk.writes_def)

lemma write_pages_header:
  "pager_ok p \<and> is_file p \<Longrightarrow> list_all (\<lambda>(n, pg). length pg = PAGE_SIZE) kps \<Longrightarrow>
   pg_header (write_pages kps p) = pg_header p"
proof (induction kps rule: rev_induct)
  case (snoc kp kps)
  then show ?case
    using disk.inv_writes [of p kps] write_page_ok [of "write_pages kps p" "snd kp" "fst kp"]
    by (cases kp) (simp add: write_pages_eq)
qed (simp add: write_pages_def)

section \<open>The header page and the free list\<close>

lemma header_page_length: "length (header_page h) = PAGE_SIZE"
  using header_roundtrip_page [of h] by (auto simp: header_page_def)

lemma write_header_ok:
  assumes "pager_ok p" "is_file p"
  shows "\<exists>q. write_header p = (Inr (), q) \<and> pager_ok q \<and> is_file q \<and> pg_header q = pg_header p
    \<and> pg_cache q = pg_cache p \<and> disk_page q 0 = Some (header_page (pg_header p))
    \<and> (\<forall>m r. m \<noteq> 0 \<longrightarrow> disk_page p m = Some r \<longrightarrow> disk_page q m = Some r)"
proof -
  obtain f where w: "write_page_to_disk 0 (header_page (pg_header p)) p = (Inr (), p\<lparr>pg_file := FileB f\<rparr>)"
    and d: "disk_page (p\<lparr>pg_file := FileB f\<rparr>) 0 = Some (header_page (pg_header p))"
    "\<forall>m q. m \<noteq> 0 \<longrightarrow> disk_page p m = Some q \<longrightarrow> disk_page (p\<lparr>pg_file := FileB f\<rparr>) m = Some q"
    using write_to_disk_file [OF assms(2) header_page_length, of 0] by blast
  have "pager_ok (p\<lparr>pg_file := FileB f\<rparr>)"
    using assms(1) d(2) by (auto simp: pager_ok_def list_all_iff entry_ok_def)
  then show ?thesis using w d by (simp add: write_header_def is_file_def)
qed

primrec chain :: "pager \<Rightarrow> u32 list \<Rightarrow> u32 \<Rightarrow> bool" where
  "chain p [] h = (h = 0)"
| "chain p (n # ns) h =
     (h = n \<and> n \<noteq> 0 \<and> n < fh_page_count (pg_header p)
      \<and> (case disk_page p n of None \<Rightarrow> False | Some pg \<Rightarrow> chain p ns (u32_of_le (take 4 pg))))"

text \<open>
  The pages \<open>ns\<close> are the free list, from its head, and the header is on disk, in a version
  this build opens and with a name the slot carries.
\<close>

definition header_plain :: "file_header \<Rightarrow> bool" where
  "header_plain h \<longleftrightarrow> stored_name (fh_active_type_name h) = fh_active_type_name h \<and> check_version h = None"

lemma header_plain_update [simp]:
  "header_plain (h\<lparr>fh_free_list_head := a\<rparr>) = header_plain h"
  "header_plain (h\<lparr>fh_page_count := b\<rparr>) = header_plain h"
  by (simp_all add: header_plain_def check_version_def)

definition pool :: "pager \<Rightarrow> u32 list \<Rightarrow> bool" where
  "pool p ns \<longleftrightarrow> pager_ok p \<and> is_file p \<and> 0 < fh_page_count (pg_header p) \<and> distinct ns
     \<and> header_plain (pg_header p) \<and> chain p ns (fh_free_list_head (pg_header p)) \<and> disk_page p 0 = Some (header_page (pg_header p))"

lemma chain_cong:
  "chain p ns h \<Longrightarrow> \<forall>n \<in> set ns. \<forall>r. disk_page p n = Some r \<longrightarrow> disk_page q n = Some r \<Longrightarrow>
   fh_page_count (pg_header p) \<le> fh_page_count (pg_header q) \<Longrightarrow> chain q ns h"
  by (induction ns arbitrary: h) (auto split: option.splits)

lemma chain_members: "chain p ns h \<Longrightarrow> n \<in> set ns \<Longrightarrow> n \<noteq> 0 \<and> n < fh_page_count (pg_header p)"
  by (induction ns arbitrary: h) (auto split: option.splits)

lemma free_page_ok:
  assumes "pool p ns" "n \<noteq> 0" "n < fh_page_count (pg_header p)" "n \<notin> set ns"
  shows "\<exists>q. free_page n p = (Inr (), q) \<and> pool q (n # ns)
    \<and> fh_page_count (pg_header q) = fh_page_count (pg_header p)
    \<and> (\<forall>m r. m \<noteq> n \<longrightarrow> m \<noteq> 0 \<longrightarrow> disk_page p m = Some r \<longrightarrow> disk_page q m = Some r)"
proof -
  let ?img = "free_page_image (fh_free_list_head (pg_header p))"
  have len: "length ?img = PAGE_SIZE" by (simp add: free_page_image_def length_page_new PAGE_SIZE_def)
  obtain p1 where w: "write_page n ?img p = (Inr (), p1)" "pager_ok p1" "is_file p1" "pg_header p1 = pg_header p"
    "disk_page p1 n = Some ?img" "\<forall>m q. m \<noteq> n \<longrightarrow> disk_page p m = Some q \<longrightarrow> disk_page p1 m = Some q"
    using write_page_ok [of p ?img n] len assms(1) by (metis pool_def prod.collapse)
  let ?p2 = "set_free_list_head n p1"
  have d2: "disk_page ?p2 m = disk_page p1 m" for m by (rule disk_page_cong) (simp add: set_free_list_head_def)
  have "pager_ok ?p2" "is_file ?p2"
    using w(2,3) pager_ok_cong [of ?p2 p1] by (simp_all add: set_free_list_head_def is_file_def)
  then obtain p3 where h: "write_header ?p2 = (Inr (), p3)" "pager_ok p3" "is_file p3" "pg_header p3 = pg_header ?p2"
    "pg_cache p3 = pg_cache ?p2" "disk_page p3 0 = Some (header_page (pg_header ?p2))"
    "\<forall>m r. m \<noteq> 0 \<longrightarrow> disk_page ?p2 m = Some r \<longrightarrow> disk_page p3 m = Some r"
    using write_header_ok [of ?p2] by blast
  let ?q = "p3\<lparr>pg_cache := AList.delete n (pg_cache p3)\<rparr>"
  have dq: "disk_page ?q m = disk_page p3 m" for m by (rule disk_page_cong) simp
  have keep: "disk_page ?q m = Some r" if "m \<noteq> n" "m \<noteq> 0" "disk_page p m = Some r" for m r
    using that w(6) h(7) d2 dq by simp
  have hd: "fh_free_list_head (pg_header ?q) = n" "fh_page_count (pg_header ?q) = fh_page_count (pg_header p)"
    "header_plain (pg_header p3)"
    using h(4) w(4) assms(1) by (simp_all add: set_free_list_head_def pool_def)
  have "chain ?q ns (fh_free_list_head (pg_header p))"
    using assms(1,4) chain_cong [of p ns "fh_free_list_head (pg_header p)" ?q] keep hd(2) chain_members
    by (metis linorder_linear pool_def)
  moreover have "disk_page ?q n = Some ?img" using w(5) h(7) d2 dq assms(2) by simp
  ultimately have "pool ?q (n # ns)"
    using assms hd h(2,3,4,6) dq pager_ok_delete [OF h(2), of n]
    by (simp add: pool_def is_file_def free_page_image_def)
  moreover have "free_page n p = (Inr (), ?q)" using w(1) h(1) assms(2) by (simp add: free_page_def)
  ultimately show ?thesis using keep hd(2) by blast
qed


lemma allocate_reuse:
  assumes "pool p (n # ns)"
  shows "\<exists>q. allocate_page p = (Inr n, q) \<and> pool q ns
    \<and> fh_page_count (pg_header q) = fh_page_count (pg_header p)
    \<and> (\<forall>m r. m \<noteq> 0 \<longrightarrow> disk_page p m = Some r \<longrightarrow> disk_page q m = Some r)"
proof -
  have hd: "fh_free_list_head (pg_header p) = n" "n \<noteq> 0" "n < fh_page_count (pg_header p)"
    using assms by (simp_all add: pool_def)
  obtain pg where pg: "disk_page p n = Some pg" "chain p ns (u32_of_le (take 4 pg))"
    using assms by (auto simp: pool_def split: option.splits)
  obtain p1 where r: "read_page n p = (Inr pg, p1)" "pager_ok p1" "pg_file p1 = pg_file p" "pg_header p1 = pg_header p"
    using read_page_ok [OF _ hd(3,2) pg(1)] assms by (metis pool_def prod.collapse)
  let ?p2 = "set_free_list_head (u32_of_le (take 4 pg)) p1"
  have d2: "disk_page ?p2 m = disk_page p m" for m
    using r(3) by (intro disk_page_cong) (simp add: set_free_list_head_def)
  have "pager_ok ?p2" "is_file ?p2"
    using assms r(2,3) pager_ok_cong [of ?p2 p1] by (simp_all add: pool_def set_free_list_head_def is_file_def)
  then obtain q where h: "write_header ?p2 = (Inr (), q)" "pager_ok q" "is_file q" "pg_header q = pg_header ?p2"
    "disk_page q 0 = Some (header_page (pg_header ?p2))"
    "\<forall>m r. m \<noteq> 0 \<longrightarrow> disk_page ?p2 m = Some r \<longrightarrow> disk_page q m = Some r"
    using write_header_ok [of ?p2] by blast
  have hq: "fh_free_list_head (pg_header q) = u32_of_le (take 4 pg)"
    "fh_page_count (pg_header q) = fh_page_count (pg_header p)" "header_plain (pg_header q)"
    using h(4) r(4) assms by (simp_all add: set_free_list_head_def pool_def)
  have "chain q ns (u32_of_le (take 4 pg))"
    using pg(2) chain_cong [of p ns _ q] chain_members [OF pg(2)] h(6) d2 hq(2) by simp
  then have "pool q ns" using assms h hq by (simp add: pool_def)
  moreover have "allocate_page p = (Inr n, q)" using r(1) h(1) hd by (simp add: allocate_page_def Let_def)
  ultimately show ?thesis using h(6) d2 hq(2) by auto
qed

lemma allocate_extend:
  assumes "pool p []" "fh_page_count (pg_header p) \<noteq> - 1"
  shows "\<exists>q. allocate_page p = (Inr (fh_page_count (pg_header p)), q) \<and> pool q []
    \<and> fh_page_count (pg_header q) = fh_page_count (pg_header p) + 1
    \<and> fh_page_count (pg_header p) < fh_page_count (pg_header q)
    \<and> disk_page q (fh_page_count (pg_header p)) = Some (page_new PtFree)
    \<and> (\<forall>m r. m \<noteq> 0 \<longrightarrow> m \<noteq> fh_page_count (pg_header p) \<longrightarrow> disk_page p m = Some r \<longrightarrow> disk_page q m = Some r)"
proof -
  let ?n = "fh_page_count (pg_header p)"
  let ?p0 = "p\<lparr>pg_header := (pg_header p)\<lparr>fh_page_count := ?n + 1\<rparr>\<rparr>"
  have n0: "?n \<noteq> 0" using assms(1) by (auto simp: pool_def)
  have "1 + ?n \<noteq> 0" using assms(2) by (simp add: add_eq_0_iff)
  then have lt: "?n < ?n + 1" using unatSuc [of ?n] by (simp add: word_less_nat_alt add.commute)
  have d0: "disk_page ?p0 m = disk_page p m" for m by (rule disk_page_cong) simp
  have "pager_ok ?p0" "is_file ?p0" using assms(1) pager_ok_cong [of ?p0 p] by (simp_all add: pool_def is_file_def)
  then obtain p1 where w: "write_page ?n (page_new PtFree) ?p0 = (Inr (), p1)" "pager_ok p1" "is_file p1"
    "pg_header p1 = pg_header ?p0" "disk_page p1 ?n = Some (page_new PtFree)"
    "\<forall>m q. m \<noteq> ?n \<longrightarrow> disk_page ?p0 m = Some q \<longrightarrow> disk_page p1 m = Some q"
    using write_page_ok [of ?p0 "page_new PtFree" ?n] length_page_new by (metis prod.collapse)
  then obtain q where h: "write_header p1 = (Inr (), q)" "pager_ok q" "is_file q" "pg_header q = pg_header p1"
    "disk_page q 0 = Some (header_page (pg_header p1))"
    "\<forall>m r. m \<noteq> 0 \<longrightarrow> disk_page p1 m = Some r \<longrightarrow> disk_page q m = Some r"
    using write_header_ok by blast
  have hq: "fh_free_list_head (pg_header q) = 0" "fh_page_count (pg_header q) = ?n + 1" "header_plain (pg_header q)"
    using h(4) w(4) assms(1) by (simp_all add: pool_def)
  have "pool q []" using h hq lt by (auto simp: pool_def word_gt_0)
  moreover have "allocate_page p = (Inr ?n, q)"
    using w(1) h(1) assms(1) by (simp add: allocate_page_def Let_def pool_def)
  moreover have "disk_page q m = Some r" if "m \<noteq> 0" "m \<noteq> ?n" "disk_page p m = Some r" for m r
    using that w(6) h(6) d0 by simp
  ultimately show ?thesis using w(5) h(6) hq(2) lt n0 by auto
qed

section \<open>Clients\<close>

text \<open>
  What a client of the pager does: allocate pages, write and read the pages it holds, and
  free them. It keeps what it last saw or wrote in each page it holds.
\<close>

type_synonym client = "pager \<times> (u32 \<rightharpoonup> page)"

inductive client_step :: "client \<Rightarrow> client \<Rightarrow> bool" where
  Alloc: "fh_page_count (pg_header p) \<noteq> - 1 \<Longrightarrow> allocate_page p = (Inr n, q) \<Longrightarrow>
    client_step (p, m) (q, m(n := disk_page q n))"
| Write: "n \<in> dom m \<Longrightarrow> length pg = PAGE_SIZE \<Longrightarrow> write_page n pg p = (r, q) \<Longrightarrow>
    client_step (p, m) (q, m(n \<mapsto> pg))"
| Read: "n \<in> dom m \<Longrightarrow> read_page n p = (r, q) \<Longrightarrow> client_step (p, m) (q, m)"
| Free: "n \<in> dom m \<Longrightarrow> free_page n p = (r, q) \<Longrightarrow> client_step (p, m) (q, m(n := None))"

inductive_cases client_stepE: "client_step (p, m) c"

definition client_inv :: "client \<Rightarrow> bool" where
  "client_inv c \<longleftrightarrow> (\<exists>ns. pool (fst c) ns \<and> set ns \<inter> dom (snd c) = {}
     \<and> (\<forall>n pg. snd c n = Some pg \<longrightarrow> n \<noteq> 0 \<and> n < fh_page_count (pg_header (fst c)) \<and> disk_page (fst c) n = Some pg))"

lemma client_invI:
  "pool p ns \<Longrightarrow> set ns \<inter> dom m = {} \<Longrightarrow>
   (\<And>n pg. m n = Some pg \<Longrightarrow> n \<noteq> 0 \<and> n < fh_page_count (pg_header p) \<and> disk_page p n = Some pg) \<Longrightarrow>
   client_inv (p, m)"
  unfolding client_inv_def by auto

lemma client_invE:
  assumes "client_inv (p, m)"
  obtains ns where "pool p ns" "set ns \<inter> dom m = {}"
    "\<And>n pg. m n = Some pg \<Longrightarrow> n \<noteq> 0 \<and> n < fh_page_count (pg_header p) \<and> disk_page p n = Some pg"
  using assms unfolding client_inv_def by auto


lemma pool_keep:
  assumes "pool p ns" "pager_ok q" "is_file q" "pg_header q = pg_header p"
    "\<And>m r. m = 0 \<or> m \<in> set ns \<Longrightarrow> disk_page p m = Some r \<Longrightarrow> disk_page q m = Some r"
  shows "pool q ns"
proof -
  have "chain q ns (fh_free_list_head (pg_header p))"
    using assms chain_cong [of p ns "fh_free_list_head (pg_header p)" q] by (simp add: pool_def)
  then show ?thesis using assms by (simp add: pool_def)
qed

lemma client_alloc:
  assumes "client_inv (p, m)" "fh_page_count (pg_header p) \<noteq> - 1"
  shows "\<exists>n q. allocate_page p = (Inr n, q) \<and> m n = None \<and> client_inv (q, m(n := disk_page q n))"
proof -
  obtain ns where inv: "pool p ns" "set ns \<inter> dom m = {}"
    "\<And>n pg. m n = Some pg \<Longrightarrow> n \<noteq> 0 \<and> n < fh_page_count (pg_header p) \<and> disk_page p n = Some pg"
    using client_invE [OF assms(1)] by metis
  show ?thesis
  proof (cases ns)
    case (Cons n ns')
    obtain q where q: "allocate_page p = (Inr n, q)" "pool q ns'"
      "fh_page_count (pg_header q) = fh_page_count (pg_header p)"
      "\<forall>m r. m \<noteq> 0 \<longrightarrow> disk_page p m = Some r \<longrightarrow> disk_page q m = Some r"
      using allocate_reuse inv(1) Cons by blast
    have n: "n \<noteq> 0" "n < fh_page_count (pg_header p)" "n \<notin> set ns'" "m n = None"
      using inv(1,2) Cons by (auto simp: pool_def)
    have "client_inv (q, m(n := disk_page q n))"
      using q(2,3,4) n inv(2,3) Cons by (intro client_invI [of q ns']) (auto split: if_splits)
    then show ?thesis using q(1) n(4) by blast
  next
    case Nil
    let ?n = "fh_page_count (pg_header p)"
    obtain q where q: "allocate_page p = (Inr ?n, q)" "pool q []"
      "?n < fh_page_count (pg_header q)" "disk_page q ?n = Some (page_new PtFree)"
      "\<forall>m r. m \<noteq> 0 \<longrightarrow> m \<noteq> ?n \<longrightarrow> disk_page p m = Some r \<longrightarrow> disk_page q m = Some r"
      using allocate_extend [of p] inv(1) Nil assms(2) by blast
    have n: "m ?n = None" "?n \<noteq> 0" using inv(1) inv(3) [of ?n] by (cases "m ?n"; auto simp: pool_def)+
    have old: "k \<noteq> 0 \<and> k < fh_page_count (pg_header q) \<and> disk_page q k = Some pg" if "m k = Some pg" for k pg
      using inv(3) [OF that] q(3,5) by (metis dual_order.strict_trans order_less_irrefl)
    have "client_inv (q, m(?n := disk_page q ?n))"
      using q(2,3,4) n old by (intro client_invI [of q "[]"]) (auto split: if_splits)
    then show ?thesis using q(1) n(1) by blast
  qed
qed

lemma client_alloc_nonzero:
  assumes "client_inv (p, m)" "fh_page_count (pg_header p) \<noteq> - 1"
  shows "\<exists>n q. allocate_page p = (Inr n, q) \<and> n \<noteq> 0 \<and> m n = None"
proof -
  obtain n q where a: "allocate_page p = (Inr n, q)" "m n = None" using client_alloc [OF assms] by blast
  obtain ns where inv: "pool p ns" using assms(1) by (auto simp: client_inv_def)
  then have "n \<noteq> 0"
  proof (cases ns)
    case (Cons k ks)
    then show ?thesis using allocate_reuse [of p k ks] inv a(1) by (auto simp: pool_def)
  next
    case Nil
    then show ?thesis using allocate_extend [of p] inv a(1) assms(2) by (auto simp: pool_def)
  qed
  then show ?thesis using a by blast
qed

lemma client_write:
  assumes "client_inv (p, m)" "n \<in> dom m" "length pg = PAGE_SIZE"
  shows "client_inv (snd (write_page n pg p), m(n \<mapsto> pg))"
proof -
  obtain ns where inv: "pool p ns" "set ns \<inter> dom m = {}"
    "\<And>n pg. m n = Some pg \<Longrightarrow> n \<noteq> 0 \<and> n < fh_page_count (pg_header p) \<and> disk_page p n = Some pg"
    using client_invE [OF assms(1)] by metis
  let ?q = "snd (write_page n pg p)"
  have w: "pager_ok ?q" "is_file ?q" "pg_header ?q = pg_header p" "disk_page ?q n = Some pg"
    "\<And>m q. m \<noteq> n \<Longrightarrow> disk_page p m = Some q \<Longrightarrow> disk_page ?q m = Some q"
    using write_page_ok [of p pg n] assms(3) inv(1) by (simp_all add: pool_def)
  have n: "n \<noteq> 0" "n \<notin> set ns" using inv assms(2) by auto
  have "disk_page ?q k = Some r" if "k = 0 \<or> k \<in> set ns" "disk_page p k = Some r" for k r
    using w(5) [of k r] that n by metis
  then have "pool ?q ns" by (rule pool_keep [OF inv(1) w(1-3)])
  then show ?thesis
    using inv(2,3) w assms(2) by (intro client_invI [of ?q ns]) (auto split: if_splits)
qed

lemma client_read:
  assumes "client_inv (p, m)" "m n = Some pg"
  shows "fst (read_page n p) = Inr pg \<and> client_inv (snd (read_page n p), m)"
proof -
  obtain ns where inv: "pool p ns" "set ns \<inter> dom m = {}"
    "\<And>n pg. m n = Some pg \<Longrightarrow> n \<noteq> 0 \<and> n < fh_page_count (pg_header p) \<and> disk_page p n = Some pg"
    using client_invE [OF assms(1)] by metis
  let ?q = "snd (read_page n p)"
  have r: "fst (read_page n p) = Inr pg" "pager_ok ?q" "pg_file ?q = pg_file p" "pg_header ?q = pg_header p"
    using read_page_ok [of p n pg] inv(1) inv(3) [OF assms(2)] by (simp_all add: pool_def)
  have d: "disk_page ?q m = disk_page p m" for m by (rule disk_page_cong) (rule r(3))
  have "is_file ?q" using inv(1) r(3) by (simp add: pool_def is_file_def)
  then have "pool ?q ns" using d by (intro pool_keep [OF inv(1) r(2) _ r(4)]) auto
  then show ?thesis using inv(2,3) r(1,4) d by (auto intro!: client_invI [of ?q ns])
qed

lemma client_free:
  assumes "client_inv (p, m)" "n \<in> dom m"
  shows "fst (free_page n p) = Inr () \<and> client_inv (snd (free_page n p), m(n := None))"
proof -
  obtain ns where inv: "pool p ns" "set ns \<inter> dom m = {}"
    "\<And>n pg. m n = Some pg \<Longrightarrow> n \<noteq> 0 \<and> n < fh_page_count (pg_header p) \<and> disk_page p n = Some pg"
    using client_invE [OF assms(1)] by metis
  have n: "n \<noteq> 0" "n < fh_page_count (pg_header p)" "n \<notin> set ns" using inv assms(2) by auto
  obtain q where q: "free_page n p = (Inr (), q)" "pool q (n # ns)"
    "fh_page_count (pg_header q) = fh_page_count (pg_header p)"
    "\<forall>m r. m \<noteq> n \<longrightarrow> m \<noteq> 0 \<longrightarrow> disk_page p m = Some r \<longrightarrow> disk_page q m = Some r"
    using free_page_ok [OF inv(1) n] by blast
  have "client_inv (q, m(n := None))"
    using q inv(2,3) by (intro client_invI [of q "n # ns"]) (auto split: if_splits)
  then show ?thesis using q(1) by simp
qed

lemma client_step_inv: "client_step c d \<Longrightarrow> client_inv c \<Longrightarrow> client_inv d"
proof (induction rule: client_step.induct)
  case Alloc
  then show ?case using client_alloc by fastforce
next
  case Write
  then show ?case using client_write by (metis snd_conv)
next
  case Read
  then show ?case using client_read by (metis domD snd_conv)
next
  case Free
  then show ?case using client_free by (metis snd_conv)
qed


lemma client_steps_inv: "client_step\<^sup>*\<^sup>* c d \<Longrightarrow> client_inv c \<Longrightarrow> client_inv d"
  by (induction rule: rtranclp_induct) (auto intro: client_step_inv)

lemma create_inv:
  "\<exists>p. create_with_cache cap = (Inr (), p) \<and> client_inv (p, Map.empty) \<and> fh_page_count (pg_header p) = 1"
proof -
  let ?p = "pager_of (FileB []) header_new cap"
  obtain q where q: "write_header ?p = (Inr (), q)" "pager_ok q" "is_file q" "pg_header q = header_new"
    "disk_page q 0 = Some (header_page (pg_header ?p))"
    using write_header_ok [of ?p] by (auto simp: pager_of_def pager_ok_def is_file_def)
  have "header_plain header_new"
    by (simp add: header_plain_def header_new_def stored_name_None check_version_def FORMAT_VERSION_def
        MIN_READABLE_VERSION_def)
  then have "pool q []" using q by (simp add: pool_def header_new_def pager_of_def)
  then show ?thesis using q(1,4) by (auto simp: create_with_cache_def header_new_def intro!: client_invI [of q "[]"])
qed

lemma reopen_ok:
  assumes "client_inv (p, m)"
  shows "\<exists>q. open_with_cache (backing_bytes (pg_file p)) cap = Inr q \<and> client_inv (q, m) \<and> pg_header q = pg_header p"
proof -
  obtain ns where inv: "pool p ns" "set ns \<inter> dom m = {}"
    "\<And>n pg. m n = Some pg \<Longrightarrow> n \<noteq> 0 \<and> n < fh_page_count (pg_header p) \<and> disk_page p n = Some pg"
    using client_invE [OF assms] by metis
  obtain f where f: "pg_file p = FileB f" using inv(1) by (auto simp: pool_def is_file_def split: backing.splits)
  let ?q = "pager_of (FileB f) (pg_header p) cap"
  have d: "disk_page ?q k = disk_page p k" for k by (rule disk_page_cong) (simp add: pager_of_def f)
  obtain pg where pg: "to_page (pg_header p) = Some pg" "from_page pg = Some (Inr (pg_header p))"
    using header_roundtrip_page [of "pg_header p"] inv(1) by (auto simp: pool_def header_plain_def)
  then have "slice 0 PAGE_SIZE f = Some pg"
    using inv(1) f by (simp add: pool_def header_page_def disk_page_def read_page_from_disk_def backing_bytes_def page_offset_def)
  then have "open_with_cache (backing_bytes (pg_file p)) cap = Inr ?q"
    using pg(2) inv(1) by (simp add: open_with_cache_def f backing_bytes_def pool_def header_plain_def)
  moreover have "chain ?q ns (fh_free_list_head (pg_header p))"
    using inv(1) d chain_cong [of p ns "fh_free_list_head (pg_header p)" ?q] by (simp add: pool_def pager_of_def)
  then have "pool ?q ns" using inv(1) d by (simp add: pool_def pager_ok_def is_file_def pager_of_def)
  then have "client_inv (?q, m)" using inv(2,3) d by (intro client_invI [of ?q ns]) (auto simp: pager_of_def)
  ultimately show ?thesis by (auto simp: pager_of_def)
qed

lemma cache_size_kept [simp]:
  "pg_cache_size (snd (write_page_to_disk n pg p)) = pg_cache_size p"
  "pg_cache_size (evict_lru p) = pg_cache_size p"
  "pg_cache_size (cache_insert n pg d p) = pg_cache_size p"
  by (auto simp: write_page_to_disk_def evict_lru_def cache_insert_def Let_def split: backing.splits list.splits prod.splits)

lemma cache_size_read_write [simp]:
  "pg_cache_size (snd (read_page n p)) = pg_cache_size p"
  "pg_cache_size (snd (write_page n pg p)) = pg_cache_size p"
proof -
  show "pg_cache_size (snd (read_page n p)) = pg_cache_size p"
    by (simp add: read_page_def Let_def split: option.splits)
  show "pg_cache_size (snd (write_page n pg p)) = pg_cache_size p"
    using cache_size_kept(1) [of n pg p]
    by (cases "write_page_to_disk n pg p") (auto simp: write_page_def Let_def split: option.splits sum.splits)
qed

lemma cache_size_write_pages [simp]: "pg_cache_size (write_pages kps p) = pg_cache_size p"
  by (induction kps rule: rev_induct) (auto simp: write_pages_def)

text \<open>
  C35: Last write wins: whatever whole pages were written to an open file and whatever the
  cache evicted in between, a read of a page of the file other than its header page returns
  what was last written to it, a page not written keeps what it held, and the cache then holds
  no more pages than its size, or one page where its size is zero.
\<close>

theorem read_after_writes:
  assumes "pager_ok p" "is_file p" "list_all (\<lambda>(k, pg). length pg = PAGE_SIZE) kps"
    and "n \<noteq> 0" "n < fh_page_count (pg_header p)"
    and "(case map_of (rev kps) n of Some pg \<Rightarrow> Some pg | None \<Rightarrow> disk_page p n) = Some pg"
  shows "fst (read_page n (write_pages kps p)) = Inr pg
    \<and> length (pg_cache (snd (read_page n (write_pages kps p)))) \<le> max 1 (pg_cache_size p)"
proof -
  let ?q = "write_pages kps p"
  have inv: "pager_ok p \<and> is_file p" using assms(1,2) by simp
  have q: "pager_ok ?q" "is_file ?q" using disk.inv_writes [OF inv assms(3)] by (simp_all add: write_pages_eq)
  have "disk_page ?q n = Some pg"
  proof (cases "map_of (rev kps) n")
    case None
    then show ?thesis
      using disk.rd_writes_other [OF inv assms(3), of n pg] assms(6)
      by (simp add: write_pages_eq) (simp add: map_of_eq_None_iff)
  next
    case (Some r)
    then show ?thesis using disk.rd_writes [OF inv assms(3) Some] assms(6) by (simp add: write_pages_eq)
  qed
  then have "fst (read_page n ?q) = Inr pg \<and> pager_ok (snd (read_page n ?q))"
    using read_page_ok [OF q(1) _ assms(4)] write_pages_header [OF inv assms(3)] assms(5) by simp
  then show ?thesis by (simp add: pager_ok_def)
qed

lemma read_after_writes_witness:
  "\<exists>p. fst (read_page 7 (write_pages [(7, page_new PtFree), (8, page_new PtNodeData)] p)) = Inr (page_new PtFree)"
  using read_after_writes [of "pager_of (FileB []) (header_new\<lparr>fh_page_count := 9\<rparr>) 1"
      "[(7, page_new PtFree), (8, page_new PtNodeData)]" 7 "page_new PtFree"]
  by (auto simp: pager_of_def pager_ok_def is_file_def length_page_new)

text \<open>
  C9: A client of a new file never loses a page: after any sequence of allocations,
  writes, reads and frees of the pages it holds, every page it holds reads back as it was
  last written, whatever the cache evicted, allocation never fails and never hands out the
  header page or a page still held, and freeing a held page never fails.
\<close>

theorem client_pages_safe:
  "\<exists>p0. create_with_cache cap = (Inr (), p0) \<and>
     (client_step\<^sup>*\<^sup>* (p0, Map.empty) (p, m) \<longrightarrow>
        (\<forall>n pg. m n = Some pg \<longrightarrow> fst (read_page n p) = Inr pg \<and> fst (free_page n p) = Inr ())
        \<and> (fh_page_count (pg_header p) \<noteq> - 1 \<longrightarrow> (\<exists>n q. allocate_page p = (Inr n, q) \<and> n \<noteq> 0 \<and> m n = None)))"
proof -
  obtain p0 where p0: "create_with_cache cap = (Inr (), p0)" "client_inv (p0, Map.empty)" using create_inv by blast
  have "(\<forall>n pg. m n = Some pg \<longrightarrow> fst (read_page n p) = Inr pg \<and> fst (free_page n p) = Inr ())
      \<and> (fh_page_count (pg_header p) \<noteq> - 1 \<longrightarrow> (\<exists>n q. allocate_page p = (Inr n, q) \<and> n \<noteq> 0 \<and> m n = None))"
    if "client_step\<^sup>*\<^sup>* (p0, Map.empty) (p, m)"
  proof -
    have inv: "client_inv (p, m)" using client_steps_inv [OF that p0(2)] .
    then show ?thesis using client_read [OF inv] client_free [OF inv] client_alloc_nonzero [OF inv] by (blast intro: domI)
  qed
  then show ?thesis using p0(1) by blast
qed


lemma client_start:
  "\<exists>p0 n q m. create_with_cache cap = (Inr (), p0) \<and> client_step\<^sup>*\<^sup>* (p0, Map.empty) (q, m)
    \<and> m n = Some (page_new PtNodeData) \<and> client_inv (q, m)"
proof -
  obtain p0 where p0: "create_with_cache cap = (Inr (), p0)" "client_inv (p0, Map.empty)"
    "fh_page_count (pg_header p0) = 1" using create_inv by blast
  obtain n p1 where a: "allocate_page p0 = (Inr n, p1)" "client_inv (p1, Map.empty(n := disk_page p1 n))"
    using client_alloc [OF p0(2)] p0(3) by auto
  let ?m1 = "Map.empty(n := disk_page p1 n)" and ?q = "snd (write_page n (page_new PtNodeData) p1)"
  have "disk_page p1 n \<noteq> None"
  proof -
    obtain ns where ns: "pool p0 ns" using p0(2) by (auto simp: client_inv_def)
    have "k < 1 \<Longrightarrow> k = 0" for k :: u32 by (simp add: word_less_nat_alt unat_eq_0)
    then have "ns = []" using p0(3) ns by (cases ns) (auto simp: pool_def)
    then show ?thesis using allocate_extend [of p0] ns p0(3) a(1) by auto
  qed
  then have dom: "n \<in> dom ?m1" by auto
  have "client_step (p0, Map.empty) (p1, ?m1)" using a(1) p0(3) by (intro Alloc) auto
  moreover have "client_step (p1, ?m1) (?q, ?m1(n \<mapsto> page_new PtNodeData))"
    using dom by (intro Write [of _ _ _ _ "fst (write_page n (page_new PtNodeData) p1)"]) (simp_all add: length_page_new)
  moreover have "client_inv (?q, ?m1(n \<mapsto> page_new PtNodeData))"
    using client_write [OF a(2) dom] length_page_new by blast
  ultimately have "client_step\<^sup>*\<^sup>* (p0, Map.empty) (?q, ?m1(n \<mapsto> page_new PtNodeData))
    \<and> (?m1(n \<mapsto> page_new PtNodeData)) n = Some (page_new PtNodeData)
    \<and> client_inv (?q, ?m1(n \<mapsto> page_new PtNodeData))"
    by (auto intro: converse_rtranclp_into_rtranclp)
  then show ?thesis using p0(1) by blast
qed

lemma client_pages_safe_witness:
  "\<exists>q n. fst (read_page n q) = Inr (page_new PtNodeData) \<and> fst (free_page n q) = Inr ()"
proof -
  obtain p0 n q m where r: "create_with_cache 2 = (Inr (), p0)" "client_step\<^sup>*\<^sup>* (p0, Map.empty) (q, m)"
    "m n = Some (page_new PtNodeData)" using client_start by metis
  then show ?thesis using client_pages_safe [of 2 q m] by auto
qed

text \<open>
  C10: A file survives being closed at any moment between operations: opening the bytes
  that a client's operations left on disk succeeds, with the same header, and every page
  the client held reads back from the reopened file.
\<close>

theorem reopen_keeps_pages:
  assumes "create_with_cache cap = (Inr (), p0)" "client_step\<^sup>*\<^sup>* (p0, Map.empty) (p, m)"
  shows "\<exists>q. open_with_cache (backing_bytes (pg_file p)) cap' = Inr q \<and> pg_header q = pg_header p
    \<and> (\<forall>n. m n = None \<or> fst (read_page n q) = Inr (the (m n)))"
proof -
  have "client_inv (p, m)" using client_steps_inv [OF assms(2)] create_inv [of cap] assms(1) by auto
  then obtain q where q: "open_with_cache (backing_bytes (pg_file p)) cap' = Inr q" "client_inv (q, m)"
    "pg_header q = pg_header p" using reopen_ok by blast
  have "m n = None \<or> fst (read_page n q) = Inr (the (m n))" for n
    using client_read [OF q(2), of n] by (cases "m n") auto
  then show ?thesis using q(1,3) by blast
qed

lemma reopen_keeps_pages_witness:
  "\<exists>f q n. open_with_cache f 5 = Inr q \<and> fst (read_page n q) = Inr (page_new PtNodeData)"
proof -
  obtain p0 n p m where r: "create_with_cache 2 = (Inr (), p0)" "client_step\<^sup>*\<^sup>* (p0, Map.empty) (p, m)"
    "m n = Some (page_new PtNodeData)" using client_start by metis
  then show ?thesis using reopen_keeps_pages [OF r(1,2), of 5] by (metis option.distinct(1) option.sel)
qed

text \<open>
  The header page is outside that promise: \<open>write_header\<close> writes page 0 past the
  cache, so once page 0 has been read, a later read of it returns the old header although
  the disk holds the new one.
\<close>

theorem header_page_stale:
  assumes "pager_ok p" "is_file p" "0 < fh_page_count (pg_header p)"
    and "disk_page p 0 = Some old" "map_of (pg_cache p) 0 = None" "old \<noteq> header_page (pg_header p)"
  shows "\<exists>q. write_header (snd (read_page 0 p)) = (Inr (), q)
    \<and> disk_page q 0 = Some (header_page (pg_header q)) \<and> fst (read_page 0 q) = Inr old
    \<and> old \<noteq> header_page (pg_header q)"
proof -
  let ?p1 = "p\<lparr>pg_tick := pg_tick p + 1, pg_misses := pg_misses p + 1\<rparr>"
  let ?p2 = "cache_insert 0 old False ?p1"
  have r: "read_page 0 p = (Inr old, ?p2)"
    using assms(3-5) disk_page_cong [of ?p1 p 0]
    by (simp add: read_page_def Let_def disk_page_def linorder_not_le)
  have p1: "pager_ok ?p1" using assms(1) pager_ok_cong [of ?p1 p] by simp
  then have p2: "pager_ok ?p2" "pg_file ?p2 = pg_file p" "pg_header ?p2 = pg_header p"
    using cache_insert_ok [of ?p1 0 old] assms(5) by simp_all
  obtain e where e: "map_of (pg_cache ?p2) 0 = Some e" "ce_page e = old"
    by (simp add: cache_insert_def Let_def update_conv)
  obtain q where q: "write_header ?p2 = (Inr (), q)" "pg_header q = pg_header p" "pg_cache q = pg_cache ?p2"
    "disk_page q 0 = Some (header_page (pg_header p))"
    using write_header_ok [OF p2(1)] p2(2,3) assms(2) by (auto simp: is_file_def)
  have "fst (read_page 0 q) = Inr old"
    using e q(2,3) assms(3) by (simp add: read_page_def Let_def word_gt_0)
  then show ?thesis using q r assms(6) by auto
qed


lemma header_page_stale_witness:
  "\<exists>q old. disk_page q 0 = Some (header_page (pg_header q)) \<and> fst (read_page 0 q) = Inr old
    \<and> old \<noteq> header_page (pg_header q)"
proof -
  let ?h = "header_new\<lparr>fh_page_count := 2\<rparr>" and ?old = "header_page header_new"
  let ?p = "pager_of (FileB ?old) ?h 4"
  have "fh_page_count header_new \<noteq> fh_page_count (?h\<lparr>fh_active_type_name := x\<rparr>)" for x
    by (simp add: header_new_def)
  then have "?old \<noteq> header_page ?h"
    using header_roundtrip_page [of header_new] header_roundtrip_page [of ?h]
    by (auto simp: header_page_def header_new_def)
  moreover have "disk_page ?p 0 = Some ?old"
    by (simp add: disk_page_def read_page_from_disk_def backing_bytes_def pager_of_def page_offset_def
        slice_def header_page_length)
  ultimately show ?thesis
    using header_page_stale [of ?p ?old] by (force simp: pager_of_def pager_ok_def is_file_def header_new_def)
qed

end
