(* ===== verification/PathPatterns.thy ===== *)
theory PathPatterns
  imports PropertyTypes
begin

text \<open>
  Path patterns (\<open>src/syntax/path_pattern.rs\<close>), their descriptors
  (\<open>src/syntax/descriptor.rs\<close>) and path prefixes (\<open>src/syntax/path_prefix.rs\<close>). The
  type of expressions is a parameter: patterns only carry them. A variable set is the list
  of its names.
\<close>

section \<open>Prefixes\<close>

datatype path_mode = Walk | Trail | Simple | Acyclic

datatype path_search =
    SearchAll
  | SearchAny nat
  | ShortestPaths nat
  | ShortestGroups nat

record path_prefix =
  pp_mode :: path_mode
  pp_search :: path_search

datatype unbounded_support = SupportShortest nat bool | SupportMode path_mode

definition is_trivial :: "path_prefix \<Rightarrow> bool" where
  "is_trivial p \<longleftrightarrow> pp_mode p = Walk \<and> pp_search p = SearchAll"

definition unbounded_support :: "path_prefix \<Rightarrow> unbounded_support option" where
  "unbounded_support p =
     (case pp_mode p of
        Walk \<Rightarrow>
          (case pp_search p of
             ShortestPaths n \<Rightarrow> Some (SupportShortest n False)
           | ShortestGroups n \<Rightarrow> Some (SupportShortest n True)
           | _ \<Rightarrow> None)
      | m \<Rightarrow> Some (SupportMode m))"

section \<open>Descriptors and patterns\<close>

record 'e descriptor =
  d_var :: "string option"
  d_type :: descriptor_type
  d_value_filters :: "(string \<times> 'e) list"
  d_value_preds :: "value_pred list"

definition descriptor_new :: "string option \<Rightarrow> descriptor_type \<Rightarrow> 'e descriptor" where
  "descriptor_new var dtype = \<lparr>d_var = var, d_type = dtype, d_value_filters = [], d_value_preds = []\<rparr>"

definition descriptor_with_filters :: "string option \<Rightarrow> descriptor_type \<Rightarrow> (string \<times> 'e) list \<Rightarrow> 'e descriptor" where
  "descriptor_with_filters var dtype fs = \<lparr>d_var = var, d_type = dtype, d_value_filters = fs, d_value_preds = []\<rparr>"

definition descriptor_var_only :: "string \<Rightarrow> 'e descriptor" where
  "descriptor_var_only name = \<lparr>d_var = Some name, d_type = desc_star, d_value_filters = [], d_value_preds = []\<rparr>"

definition descriptor_type_only :: "descriptor_type \<Rightarrow> 'e descriptor" where
  "descriptor_type_only dtype = \<lparr>d_var = None, d_type = dtype, d_value_filters = [], d_value_preds = []\<rparr>"

datatype 'e path_pattern =
    NodeP "'e descriptor option"
  | EdgeRight "'e descriptor option"
  | EdgeLeft "'e descriptor option"
  | EdgeUndirected "'e descriptor option"
  | EdgeAnyDirection "'e descriptor option"
  | Concat "'e path_pattern" "'e path_pattern"
  | UnionP "'e path_pattern" "'e path_pattern"
  | Filter "'e path_pattern" 'e
  | Repeat "'e path_pattern" nat "nat option"
  | Questioned "'e path_pattern"
  | Join "'e path_pattern" "'e path_pattern"
  | Selected path_prefix "'e path_pattern"
  | Named string "'e path_pattern"

fun min_len :: "'e path_pattern \<Rightarrow> nat" where
  "min_len (NodeP _) = 0"
| "min_len (EdgeRight _) = 1"
| "min_len (EdgeLeft _) = 1"
| "min_len (EdgeUndirected _) = 1"
| "min_len (EdgeAnyDirection _) = 1"
| "min_len (Concat p q) = min_len p + min_len q"
| "min_len (UnionP p q) = min (min_len p) (min_len q)"
| "min_len (Join p q) = min (min_len p) (min_len q)"
| "min_len (Filter p _) = min_len p"
| "min_len (Repeat p lb _) = lb * min_len p"
| "min_len (Questioned _) = 0"
| "min_len (Selected _ p) = min_len p"
| "min_len (Named _ p) = min_len p"

definition desc_var :: "'e descriptor option \<Rightarrow> string option" where
  "desc_var d = (case d of Some d \<Rightarrow> d_var d | None \<Rightarrow> None)"

definition desc_vars :: "'e descriptor option \<Rightarrow> string list" where
  "desc_vars d = (case desc_var d of Some x \<Rightarrow> [x] | None \<Rightarrow> [])"

text \<open>\<open>HashSet::extend\<close>.\<close>

definition set_extend :: "string list \<Rightarrow> string list \<Rightarrow> string list" where
  "set_extend s t = s @ filter (\<lambda>x. x \<notin> set s) t"

fun freevars :: "'e path_pattern \<Rightarrow> string list" where
  "freevars (NodeP d) = desc_vars d"
| "freevars (EdgeRight d) = desc_vars d"
| "freevars (EdgeLeft d) = desc_vars d"
| "freevars (EdgeUndirected d) = desc_vars d"
| "freevars (EdgeAnyDirection d) = desc_vars d"
| "freevars (Concat p q) = set_extend (freevars p) (freevars q)"
| "freevars (UnionP p q) = set_extend (freevars p) (freevars q)"
| "freevars (Join p q) = set_extend (freevars p) (freevars q)"
| "freevars (Filter p _) = freevars p"
| "freevars (Repeat p _ _) = freevars p"
| "freevars (Questioned p) = freevars p"
| "freevars (Selected _ p) = freevars p"
| "freevars (Named _ p) = freevars p"

fun group_vars :: "'e path_pattern \<Rightarrow> string list" where
  "group_vars (Repeat p _ _) = freevars p"
| "group_vars (Concat p q) = set_extend (group_vars p) (group_vars q)"
| "group_vars (UnionP p q) = set_extend (group_vars p) (group_vars q)"
| "group_vars (Join p q) = set_extend (group_vars p) (group_vars q)"
| "group_vars (Filter p _) = group_vars p"
| "group_vars (Questioned p) = group_vars p"
| "group_vars (Selected _ p) = group_vars p"
| "group_vars (Named _ p) = group_vars p"
| "group_vars _ = []"

fun has_selected :: "'e path_pattern \<Rightarrow> bool" where
  "has_selected (Selected _ _) = True"
| "has_selected (Concat p q) = (has_selected p \<or> has_selected q)"
| "has_selected (UnionP p q) = (has_selected p \<or> has_selected q)"
| "has_selected (Join p q) = (has_selected p \<or> has_selected q)"
| "has_selected (Filter p _) = has_selected p"
| "has_selected (Questioned p) = has_selected p"
| "has_selected (Repeat p _ _) = has_selected p"
| "has_selected (Named _ p) = has_selected p"
| "has_selected _ = False"

fun has_residual_filter :: "'e path_pattern \<Rightarrow> bool" where
  "has_residual_filter (Filter _ _) = True"
| "has_residual_filter (Concat p q) = (has_residual_filter p \<or> has_residual_filter q)"
| "has_residual_filter (UnionP p q) = (has_residual_filter p \<or> has_residual_filter q)"
| "has_residual_filter (Join p q) = (has_residual_filter p \<or> has_residual_filter q)"
| "has_residual_filter (Questioned p) = has_residual_filter p"
| "has_residual_filter (Repeat p _ _) = has_residual_filter p"
| "has_residual_filter (Named _ p) = has_residual_filter p"
| "has_residual_filter (Selected _ p) = has_residual_filter p"
| "has_residual_filter _ = False"

fun has_undirected_edge :: "'e path_pattern \<Rightarrow> bool" where
  "has_undirected_edge (EdgeUndirected _) = True"
| "has_undirected_edge (Concat p q) = (has_undirected_edge p \<or> has_undirected_edge q)"
| "has_undirected_edge (UnionP p q) = (has_undirected_edge p \<or> has_undirected_edge q)"
| "has_undirected_edge (Join p q) = (has_undirected_edge p \<or> has_undirected_edge q)"
| "has_undirected_edge (Filter p _) = has_undirected_edge p"
| "has_undirected_edge (Questioned p) = has_undirected_edge p"
| "has_undirected_edge (Repeat p _ _) = has_undirected_edge p"
| "has_undirected_edge (Selected _ p) = has_undirected_edge p"
| "has_undirected_edge (Named _ p) = has_undirected_edge p"
| "has_undirected_edge _ = False"

definition descriptor_of :: "'e path_pattern \<Rightarrow> 'e descriptor option" where
  "descriptor_of p =
     (case p of NodeP d \<Rightarrow> d | EdgeRight d \<Rightarrow> d | EdgeLeft d \<Rightarrow> d | EdgeUndirected d \<Rightarrow> d
      | EdgeAnyDirection d \<Rightarrow> d | _ \<Rightarrow> None)"

fun collect_unbounded_lbs :: "'e path_pattern \<Rightarrow> nat list \<Rightarrow> nat list" where
  "collect_unbounded_lbs (Concat p q) out = collect_unbounded_lbs q (collect_unbounded_lbs p out)"
| "collect_unbounded_lbs (UnionP p q) out = collect_unbounded_lbs q (collect_unbounded_lbs p out)"
| "collect_unbounded_lbs (Join p q) out = collect_unbounded_lbs q (collect_unbounded_lbs p out)"
| "collect_unbounded_lbs (Filter p _) out = collect_unbounded_lbs p out"
| "collect_unbounded_lbs (Questioned p) out = collect_unbounded_lbs p out"
| "collect_unbounded_lbs (Selected _ p) out = collect_unbounded_lbs p out"
| "collect_unbounded_lbs (Named _ p) out = collect_unbounded_lbs p out"
| "collect_unbounded_lbs (Repeat p lb ub) out =
     collect_unbounded_lbs p (if ub = None then out @ [lb] else out)"
| "collect_unbounded_lbs _ out = out"

definition unbounded_repeat_lbs :: "'e path_pattern \<Rightarrow> nat list" where
  "unbounded_repeat_lbs p = collect_unbounded_lbs p []"

text \<open>Whether an unbounded repetition occurs, read off the pattern.\<close>

fun bounded :: "'e path_pattern \<Rightarrow> bool" where
  "bounded (Concat p q) = (bounded p \<and> bounded q)"
| "bounded (UnionP p q) = (bounded p \<and> bounded q)"
| "bounded (Join p q) = (bounded p \<and> bounded q)"
| "bounded (Filter p _) = bounded p"
| "bounded (Questioned p) = bounded p"
| "bounded (Selected _ p) = bounded p"
| "bounded (Named _ p) = bounded p"
| "bounded (Repeat p lb ub) = (ub \<noteq> None \<and> bounded p)"
| "bounded _ = True"

lemma collect_unbounded_append: "\<exists>xs. (\<forall>out. collect_unbounded_lbs p out = out @ xs) \<and> (xs = [] \<longleftrightarrow> bounded p)"
proof (induction p)
  case (Concat p q)
  then obtain xs ys where "\<forall>out. collect_unbounded_lbs p out = out @ xs" "xs = [] \<longleftrightarrow> bounded p"
    "\<forall>out. collect_unbounded_lbs q out = out @ ys" "ys = [] \<longleftrightarrow> bounded q" by blast
  then show ?case by (intro exI [of _ "xs @ ys"]) simp
next
  case (UnionP p q)
  then obtain xs ys where "\<forall>out. collect_unbounded_lbs p out = out @ xs" "xs = [] \<longleftrightarrow> bounded p"
    "\<forall>out. collect_unbounded_lbs q out = out @ ys" "ys = [] \<longleftrightarrow> bounded q" by blast
  then show ?case by (intro exI [of _ "xs @ ys"]) simp
next
  case (Join p q)
  then obtain xs ys where "\<forall>out. collect_unbounded_lbs p out = out @ xs" "xs = [] \<longleftrightarrow> bounded p"
    "\<forall>out. collect_unbounded_lbs q out = out @ ys" "ys = [] \<longleftrightarrow> bounded q" by blast
  then show ?case by (intro exI [of _ "xs @ ys"]) simp
next
  case (Repeat p lb ub)
  then obtain xs where "\<forall>out. collect_unbounded_lbs p out = out @ xs" "xs = [] \<longleftrightarrow> bounded p" by blast
  then show ?case by (intro exI [of _ "(if ub = None then [lb] else []) @ xs"]) simp
qed simp_all

lemma set_extend_set [simp]: "set (set_extend s t) = set s \<union> set t"
  by (auto simp: set_extend_def)

lemma unbounded_repeat_bounded: "unbounded_repeat_lbs p = [] \<longleftrightarrow> bounded p"
  using collect_unbounded_append [of p] by (auto simp: unbounded_repeat_lbs_def)

lemma group_vars_free: "set (group_vars p) \<subseteq> set (freevars p)"
  by (induction p) auto

end
