(* ===== verification/Assignments.thy ===== *)
theory Assignments
  imports PropertyTypes
begin

text \<open>
  Variable assignments (\<open>src/runtime/assignment.rs\<close>) and result rows
  (\<open>src/runtime/result.rs\<close>). The hash maps are ordered maps: an assignment is compared and
  looked up by key only. \<open>row_path\<close> unwraps the last path of a row; \<open>path_append\<close> is
  \<open>Path::concat\<close>, which panics on an empty extension. No row of the evaluator has an empty
  list of paths or an empty path (\<open>row_wf\<close>).
\<close>

section \<open>Assignments\<close>

record assignment =
  as_m :: "(string \<times> pvalue) list"
  as_scalars :: "(string \<times> val) list"

definition assignment_new :: assignment where
  "assignment_new = \<lparr>as_m = [], as_scalars = []\<rparr>"

definition from_optional :: "string option \<Rightarrow> pvalue \<Rightarrow> assignment" where
  "from_optional var v = (case var of Some x \<Rightarrow> \<lparr>as_m = [(x, v)], as_scalars = []\<rparr> | None \<Rightarrow> assignment_new)"

definition as_get :: "assignment \<Rightarrow> string \<Rightarrow> pvalue option" where
  "as_get a x = map_of (as_m a) x"

definition get_scalar :: "assignment \<Rightarrow> string \<Rightarrow> val option" where
  "get_scalar a x = map_of (as_scalars a) x"

definition set_scalar :: "string \<Rightarrow> val \<Rightarrow> assignment \<Rightarrow> assignment" where
  "set_scalar x v a = a\<lparr>as_scalars := bm_insert x v (as_scalars a)\<rparr>"

definition as_extend :: "string \<Rightarrow> pvalue \<Rightarrow> assignment \<Rightarrow> assignment" where
  "as_extend x v a = a\<lparr>as_m := bm_insert x v (as_m a)\<rparr>"

definition as_keys :: "assignment \<Rightarrow> string set" where
  "as_keys a = fst ` set (as_m a) \<union> fst ` set (as_scalars a)"

text \<open>Scalars are compared with the derived equality of values.\<close>

definition can_unify :: "assignment \<Rightarrow> assignment \<Rightarrow> bool" where
  "can_unify a b \<longleftrightarrow>
     list_all (\<lambda>(k, v). case map_of (as_m b) k of Some w \<Rightarrow> v = w | None \<Rightarrow> True) (as_m a)
     \<and> list_all (\<lambda>(k, v). case map_of (as_scalars b) k of Some w \<Rightarrow> val_eq v w | None \<Rightarrow> True) (as_scalars a)"

definition unify :: "assignment \<Rightarrow> assignment \<Rightarrow> assignment" where
  "unify a b =
     \<lparr>as_m = fold (\<lambda>(k, v) m. bm_insert k v m) (as_m b) (as_m a),
      as_scalars = fold (\<lambda>(k, v) m. bm_insert k v m) (as_scalars b) (as_scalars a)\<rparr>"

definition fill_with :: "pvalue \<Rightarrow> string list \<Rightarrow> assignment \<Rightarrow> assignment" where
  "fill_with v vars a =
     a\<lparr>as_m := fold (\<lambda>x m. if map_of m x = None then bm_insert x v m else m) vars (as_m a)\<rparr>"

definition fill_nones :: "string list \<Rightarrow> assignment \<Rightarrow> assignment" where
  "fill_nones vars a = fill_with PNothing vars a"

definition fill_empty_list :: "string list \<Rightarrow> assignment \<Rightarrow> assignment" where
  "fill_empty_list vars a = fill_with (PGroup []) vars a"

definition as_to_group :: "assignment \<Rightarrow> assignment" where
  "as_to_group a = a\<lparr>as_m := map (\<lambda>(k, v). (k, PGroup [v])) (as_m a)\<rparr>"

definition group_append :: "pvalue \<Rightarrow> pvalue option \<Rightarrow> pvalue" where
  "group_append v w = (case (v, w) of (PGroup a, Some (PGroup b)) \<Rightarrow> PGroup (a @ b) | _ \<Rightarrow> v)"

text \<open>Only the keys of the left operand survive, and no scalar does.\<close>

definition as_concat_group :: "assignment \<Rightarrow> assignment \<Rightarrow> assignment" where
  "as_concat_group a b =
     \<lparr>as_m = map (\<lambda>(k, v). (k, group_append v (map_of (as_m b) k))) (as_m a), as_scalars = []\<rparr>"

section \<open>Rows\<close>

record row =
  row_paths :: "path list"
  row_mu :: assignment

definition row_new :: "path \<Rightarrow> assignment \<Rightarrow> row" where
  "row_new p mu = \<lparr>row_paths = [p], row_mu = mu\<rparr>"

definition row_with_paths :: "path list \<Rightarrow> assignment \<Rightarrow> row" where
  "row_with_paths ps mu = \<lparr>row_paths = ps, row_mu = mu\<rparr>"

definition row_path :: "row \<Rightarrow> path" where
  "row_path r = last (row_paths r)"

definition path_append :: "path \<Rightarrow> path \<Rightarrow> path" where
  "path_append p q = p @ tl q"

definition extend_last :: "path list \<Rightarrow> path \<Rightarrow> path list" where
  "extend_last ps q = (if ps = [] then [] else butlast ps @ [path_append (last ps) q])"

definition row_concat_group :: "row \<Rightarrow> row \<Rightarrow> row" where
  "row_concat_group r s =
     \<lparr>row_paths = extend_last (row_paths r) (row_path s), row_mu = as_concat_group (row_mu r) (row_mu s)\<rparr>"

definition extend_path :: "row \<Rightarrow> path \<Rightarrow> assignment \<Rightarrow> row" where
  "extend_path r q mu = \<lparr>row_paths = extend_last (row_paths r) q, row_mu = mu\<rparr>"

definition with_same_paths :: "row \<Rightarrow> assignment \<Rightarrow> row" where
  "with_same_paths r mu = \<lparr>row_paths = row_paths r, row_mu = mu\<rparr>"

definition row_join :: "row \<Rightarrow> row \<Rightarrow> assignment \<Rightarrow> row" where
  "row_join r s mu = \<lparr>row_paths = row_paths r @ row_paths s, row_mu = mu\<rparr>"

definition rows_to_group :: "row list \<Rightarrow> row list" where
  "rows_to_group rs = map (\<lambda>r. row_with_paths (row_paths r) (as_to_group (row_mu r))) rs"

abbreviation row_first :: "row \<Rightarrow> u32 option" where
  "row_first r \<equiv> first_node_id (row_path r)"

abbreviation row_last :: "row \<Rightarrow> u32 option" where
  "row_last r \<equiv> last_node_id (row_path r)"

section \<open>Well-formed rows\<close>

definition as_wf :: "assignment \<Rightarrow> bool" where
  "as_wf a \<longleftrightarrow> bm_wf (as_m a) \<and> bm_wf (as_scalars a)"

definition row_wf :: "row \<Rightarrow> bool" where
  "row_wf r \<longleftrightarrow> row_paths r \<noteq> [] \<and> list_all path_wf (row_paths r) \<and> as_wf (row_mu r)"

lemma assignment_eqI: "as_wf a \<Longrightarrow> as_wf b \<Longrightarrow> map_of (as_m a) = map_of (as_m b) \<Longrightarrow> as_scalars a = as_scalars b \<Longrightarrow> a = b"
  by (cases a; cases b) (simp add: as_wf_def bm_wf_eqI)

lemma as_wf_new [simp]: "as_wf assignment_new" "as_wf (from_optional var v)"
  by (simp_all add: as_wf_def assignment_new_def from_optional_def bm_wf_Cons split: option.splits)

lemma as_wf_unify [simp]: "as_wf a \<Longrightarrow> as_wf (unify a b)"
  by (simp add: as_wf_def unify_def bm_wf_fold_insert)

lemma scalars_unify [simp]: "as_scalars b = [] \<Longrightarrow> as_scalars (unify a b) = as_scalars a"
  by (simp add: unify_def)

lemma bm_wf_fill: "bm_wf m \<Longrightarrow> bm_wf (fold (\<lambda>x m. if map_of m x = None then bm_insert x v m else m) vars m)"
  by (induction vars arbitrary: m) auto

lemma as_wf_fill [simp]: "as_wf a \<Longrightarrow> as_wf (fill_with v vars a)"
  by (simp add: as_wf_def fill_with_def bm_wf_fill)

lemma as_wf_group [simp]: "as_wf (as_to_group a) = as_wf a" "as_wf a \<Longrightarrow> as_wf (as_concat_group a b)"
  using bm_wf_map [of "\<lambda>k v. PGroup [v]" "as_m a"] bm_wf_map [of "\<lambda>k v. group_append v (map_of (as_m b) k)" "as_m a"]
  by (simp_all add: as_wf_def as_to_group_def as_concat_group_def)

lemma as_wf_extend [simp]: "as_wf a \<Longrightarrow> as_wf (as_extend x v a)"
  by (simp add: as_wf_def as_extend_def)

lemma map_of_fold_insert:
  "distinct (map fst kvs) \<Longrightarrow>
   map_of (fold (\<lambda>(k, v) m. bm_insert k v m) kvs m) = map_of m ++ map_of kvs"
proof (induction kvs arbitrary: m)
  case (Cons kv kvs)
  then have "map_of kvs (fst kv) = None" by (simp add: map_of_eq_None_iff)
  with Cons show ?case by (cases kv) (auto simp: map_of_bm_insert map_add_def fun_eq_iff split: option.splits)
qed simp

lemma map_of_unify: "as_wf b \<Longrightarrow> map_of (as_m (unify a b)) = map_of (as_m a) ++ map_of (as_m b)"
  by (simp add: unify_def map_of_fold_insert as_wf_def bm_wf_distinct)

lemma can_unify_iff:
  "as_wf a \<Longrightarrow> as_scalars a = [] \<Longrightarrow>
   can_unify a b \<longleftrightarrow> (\<forall>k v w. map_of (as_m a) k = Some v \<longrightarrow> map_of (as_m b) k = Some w \<longrightarrow> v = w)"
  by (fastforce simp: can_unify_def list_all_iff as_wf_def bm_wf_lookup split: option.splits dest: map_of_SomeD)

lemma agree_on_dom:
  "(\<forall>k v w. f k = Some v \<longrightarrow> g k = Some w \<longrightarrow> v = w) \<longleftrightarrow> (\<forall>k \<in> dom f \<inter> dom g. f k = g k)"
proof (intro iffI ballI allI impI)
  fix k v w assume "\<forall>k \<in> dom f \<inter> dom g. f k = g k" "f k = Some v" "g k = Some w"
  moreover from this(2,3) have "k \<in> dom f \<inter> dom g" by blast
  ultimately show "v = w" by simp
qed auto

text \<open>
  C29: On assignments that bind no scalar, unification is the join of partial functions: it
  is possible exactly when the two agree where both are defined, the result is then defined
  exactly where one of them is, extends both, and does not depend on their order.
\<close>

theorem unify_join:
  assumes "as_wf a" "as_wf b" "as_scalars a = []" "as_scalars b = []"
  shows "(can_unify a b \<longleftrightarrow> (\<forall>k \<in> dom (as_get a) \<inter> dom (as_get b). as_get a k = as_get b k))
    \<and> can_unify a b = can_unify b a
    \<and> (can_unify a b \<longrightarrow> as_get a \<subseteq>\<^sub>m as_get (unify a b) \<and> as_get b \<subseteq>\<^sub>m as_get (unify a b)
         \<and> dom (as_get (unify a b)) = dom (as_get a) \<union> dom (as_get b) \<and> unify a b = unify b a)"
proof -
  have g: "as_get a = map_of (as_m a)" "as_get b = map_of (as_m b)" for a b by (simp_all add: as_get_def fun_eq_iff)
  have agree: "can_unify a b \<longleftrightarrow> (\<forall>k \<in> dom (as_get a) \<inter> dom (as_get b). as_get a k = as_get b k)"
    unfolding can_unify_iff [OF assms(1,3)] g by (rule agree_on_dom)
  moreover have "can_unify a b = can_unify b a" using assms by (fastforce simp: can_unify_iff)
  moreover have "as_get a \<subseteq>\<^sub>m as_get (unify a b)" "as_get b \<subseteq>\<^sub>m as_get (unify a b)" "unify a b = unify b a"
    if "can_unify a b"
  proof -
    show "as_get a \<subseteq>\<^sub>m as_get (unify a b)" "as_get b \<subseteq>\<^sub>m as_get (unify a b)"
      using that assms agree by (force simp: g map_of_unify map_le_def map_add_def split: option.splits)+
    have "map_of (as_m a) ++ map_of (as_m b) = map_of (as_m b) ++ map_of (as_m a)"
    proof
      fix k
      have "map_of (as_m a) k = map_of (as_m b) k" if "k \<in> dom (map_of (as_m a)) \<inter> dom (map_of (as_m b))"
        using \<open>can_unify a b\<close> agree that by (simp add: g)
      then show "(map_of (as_m a) ++ map_of (as_m b)) k = (map_of (as_m b) ++ map_of (as_m a)) k"
        by (cases "map_of (as_m a) k"; cases "map_of (as_m b) k") (simp_all add: map_add_def domI)
    qed
    then show "unify a b = unify b a"
      using assms by (intro assignment_eqI) (simp_all add: map_of_unify)
  qed
  moreover have "dom (as_get (unify a b)) = dom (as_get a) \<union> dom (as_get b)"
    using assms by (auto simp: g map_of_unify)
  ultimately show ?thesis by blast
qed

theorem unify_join_witness:
  "can_unify (from_optional (Some ''x'') (PNode 1)) (from_optional (Some ''y'') (PNode 2))
   \<and> as_get (from_optional (Some ''x'') (PNode 1))
     \<subseteq>\<^sub>m as_get (unify (from_optional (Some ''x'') (PNode 1)) (from_optional (Some ''y'') (PNode 2)))"
proof -
  let ?a = "from_optional (Some ''x'') (PNode 1)" and ?b = "from_optional (Some ''y'') (PNode 2)"
  have "as_scalars ?a = []" "as_scalars ?b = []" "can_unify ?a ?b"
    by (simp_all add: from_optional_def can_unify_def)
  with unify_join [OF as_wf_new(2) as_wf_new(2) this(1,2)] show ?thesis by blast
qed

end
