(* ===== verification/PathSelect.thy ===== *)
theory PathSelect
  imports PathPatterns Assignments "HOL-Library.Multiset" "HOL-Library.Sublist"
begin

text \<open>
  Path prefixes at run time (\<open>src/runtime/path_select.rs\<close>): the filter by path mode and the
  selection per pair of end points. A hash set of seen ids is the list of its elements, the
  hash map of counts a function; the order in which the groups of the hash map are visited
  does not matter, here it is that of their first rows.
\<close>

section \<open>Path modes\<close>

definition no_repeats :: "u32 list \<Rightarrow> bool" where
  "no_repeats xs = distinct xs"

definition edge_ids :: "path \<Rightarrow> u32 list" where
  "edge_ids p = List.map_filter pv_id (filter is_edge p)"

definition node_ids :: "path \<Rightarrow> u32 list" where
  "node_ids p = List.map_filter pv_id (filter is_node p)"

fun simple_scan :: "u32 \<Rightarrow> u32 list \<Rightarrow> u32 list \<Rightarrow> bool" where
  "simple_scan first seen [] = True"
| "simple_scan first seen (x # xs) =
     (if xs = [] \<and> x = first then True
      else if x \<in> set seen then False
      else simple_scan first (x # seen) xs)"

definition path_satisfies_mode :: "path \<Rightarrow> path_mode \<Rightarrow> bool" where
  "path_satisfies_mode p mode =
     (case mode of
        Walk \<Rightarrow> True
      | Trail \<Rightarrow> no_repeats (edge_ids p)
      | Acyclic \<Rightarrow> no_repeats (node_ids p)
      | Simple \<Rightarrow>
          let ids = node_ids p
          in if length ids \<le> 1 then True else simple_scan (hd ids) [] ids)"

definition row_satisfies_mode :: "row \<Rightarrow> path_mode \<Rightarrow> bool" where
  "row_satisfies_mode r mode = list_all (\<lambda>p. path_satisfies_mode p mode) (row_paths r)"

lemma simple_scan_iff:
  "simple_scan f seen xs \<longleftrightarrow> xs = [] \<or>
     (distinct (butlast xs) \<and> set (butlast xs) \<inter> set seen = {} \<and> (last xs = f \<or> last xs \<notin> set seen \<union> set (butlast xs)))"
  by (induction f seen xs rule: simple_scan.induct) auto

text \<open>
  A path is admitted by TRAIL when no edge occurs twice, by ACYCLIC when no node does,
  by SIMPLE when no node does except that the last may be the first again; every ACYCLIC path
  is SIMPLE, and WALK admits all.
\<close>

theorem modes_spec:
  "path_satisfies_mode p Walk
   \<and> path_satisfies_mode p Trail = distinct (edge_ids p)
   \<and> path_satisfies_mode p Acyclic = distinct (node_ids p)
   \<and> (path_satisfies_mode p Simple \<longleftrightarrow> node_ids p = [] \<or>
        distinct (butlast (node_ids p)) \<and> last (node_ids p) \<notin> set (butlast (tl (node_ids p)))
        \<and> (last (node_ids p) = hd (node_ids p) \<or> distinct (node_ids p)))
   \<and> {q. path_satisfies_mode q Acyclic} \<subseteq> {q. path_satisfies_mode q Simple}"
proof (intro conjI)
  have simple: "path_satisfies_mode p Simple \<longleftrightarrow> node_ids p = [] \<or>
     distinct (butlast (node_ids p)) \<and> (last (node_ids p) = hd (node_ids p) \<or> last (node_ids p) \<notin> set (butlast (node_ids p)))" for p
    by (cases "node_ids p" rule: rev_cases)
      (auto simp: path_satisfies_mode_def simple_scan_iff Let_def Suc_le_eq neq_Nil_conv)
  show "path_satisfies_mode p Simple \<longleftrightarrow> node_ids p = [] \<or>
        distinct (butlast (node_ids p)) \<and> last (node_ids p) \<notin> set (butlast (tl (node_ids p)))
        \<and> (last (node_ids p) = hd (node_ids p) \<or> distinct (node_ids p))"
  proof (cases "node_ids p" rule: rev_cases)
    case (snoc xs x)
    then show ?thesis by (cases xs) (auto simp: simple)
  qed (simp add: simple)
  show "{q. path_satisfies_mode q Acyclic} \<subseteq> {q. path_satisfies_mode q Simple}"
  proof
    fix q assume "q \<in> {q. path_satisfies_mode q Acyclic}"
    then have "distinct (node_ids q)" by (simp add: path_satisfies_mode_def no_repeats_def)
    then show "q \<in> {q. path_satisfies_mode q Simple}"
      by (cases "node_ids q" rule: rev_cases) (auto simp: simple)
  qed
qed (simp_all add: path_satisfies_mode_def no_repeats_def)

section \<open>Selection\<close>

type_synonym boundary = "u32 option \<times> u32 option"

definition boundary_key :: "row \<Rightarrow> boundary" where
  "boundary_key r =
     (case row_paths r of [] \<Rightarrow> None | p # _ \<Rightarrow> first_node_id p,
      if row_paths r = [] then None else last_node_id (last (row_paths r)))"

definition row_length :: "row \<Rightarrow> nat" where
  "row_length r = sum_list (map (\<lambda>p. length (filter is_edge p)) (row_paths r))"

fun select_any_loop :: "nat \<Rightarrow> (boundary \<Rightarrow> nat) \<Rightarrow> row list \<Rightarrow> row list" where
  "select_any_loop n seen [] = []"
| "select_any_loop n seen (r # rs) =
     (let k = boundary_key r
      in if seen k < n then r # select_any_loop n (seen(k := Suc (seen k))) rs
         else select_any_loop n seen rs)"

definition select_any :: "row list \<Rightarrow> nat \<Rightarrow> row list" where
  "select_any rows n = select_any_loop n (\<lambda>_. 0) rows"

definition key_indices :: "row list \<Rightarrow> boundary \<Rightarrow> nat list" where
  "key_indices rows k = filter (\<lambda>i. boundary_key (rows ! i) = k) [0..<length rows]"

definition mark :: "nat list \<Rightarrow> bool list \<Rightarrow> bool list" where
  "mark is keep = fold (\<lambda>i keep. keep[i := True]) is keep"

definition retain_marked :: "row list \<Rightarrow> bool list \<Rightarrow> row list" where
  "retain_marked rows keep = map fst (filter snd (zip rows keep))"

definition select_shortest_paths :: "row list \<Rightarrow> nat \<Rightarrow> row list" where
  "select_shortest_paths rows n =
     (let lengths = map row_length rows;
          keep = fold (\<lambda>k keep. mark (take n (sort_key (\<lambda>i. lengths ! i) (key_indices rows k))) keep)
                   (remdups (map boundary_key rows)) (replicate (length rows) False)
      in retain_marked rows keep)"

definition select_shortest_groups :: "row list \<Rightarrow> nat \<Rightarrow> row list" where
  "select_shortest_groups rows n =
     (let lengths = map row_length rows;
          keep = fold (\<lambda>k keep.
                     let is = key_indices rows k;
                         allowed = take n (remdups (sort (map (\<lambda>i. lengths ! i) is)))
                     in mark (filter (\<lambda>i. lengths ! i \<in> set allowed) is) keep)
                   (remdups (map boundary_key rows)) (replicate (length rows) False)
      in retain_marked rows keep)"

definition apply_path_prefix :: "row list \<Rightarrow> path_prefix \<Rightarrow> row list" where
  "apply_path_prefix rows pre =
     (if is_trivial pre then rows
      else
        let rows = filter (\<lambda>r. row_satisfies_mode r (pp_mode pre)) rows
        in case pp_search pre of
             SearchAll \<Rightarrow> rows
           | SearchAny n \<Rightarrow> select_any rows n
           | ShortestPaths n \<Rightarrow> select_shortest_paths rows n
           | ShortestGroups n \<Rightarrow> select_shortest_groups rows n)"

section \<open>What is selected\<close>

lemma subseq_set: "subseq xs ys \<Longrightarrow> set xs \<subseteq> set ys"
  by (induction rule: list_emb.induct) auto

text \<open>The rows of one partition, in order.\<close>

definition part :: "boundary \<Rightarrow> row list \<Rightarrow> row list" where
  "part k rows = filter (\<lambda>r. boundary_key r = k) rows"

lemma select_any_part: "part k (select_any_loop n seen rows) = take (n - seen k) (part k rows)"
proof (induction rows arbitrary: seen k)
  case (Cons r rows)
  let ?s = "seen(boundary_key r := Suc (seen (boundary_key r)))"
  have upd: "part k (select_any_loop n ?s rows) = take (n - (if k = boundary_key r then Suc (seen k) else seen k)) (part k rows)" for k
    by (subst Cons.IH) simp
  have cons: "part k (r # rs) = (if boundary_key r = k then r # part k rs else part k rs)" for rs k
    by (simp add: part_def)
  show ?case
    using Cons.IH [of k seen] by (auto simp: upd cons Let_def take_Cons' Suc_diff_Suc simp del: fun_upd_apply)
qed (simp add: part_def)

lemma length_mark [simp]: "length (mark is keep) = length keep"
  unfolding mark_def by (induction "is" arbitrary: keep) auto

lemma nth_mark: "j < length keep \<Longrightarrow> mark is keep ! j \<longleftrightarrow> keep ! j \<or> j \<in> set is"
  unfolding mark_def
proof (induction "is" arbitrary: keep)
  case (Cons i "is")
  then show ?case by (cases "j = i") simp_all
qed simp

lemma length_fold_mark [simp]: "length (fold (\<lambda>k keep. mark (f k) keep) ks keep) = length keep"
  by (induction ks arbitrary: keep) auto

lemma nth_fold_mark:
  "j < length keep \<Longrightarrow> fold (\<lambda>k keep. mark (f k) keep) ks keep ! j \<longleftrightarrow> keep ! j \<or> (\<exists>k \<in> set ks. j \<in> set (f k))"
  by (induction ks arbitrary: keep) (auto simp: nth_mark)

lemma retain_marked_nth:
  "length keep = length rows \<Longrightarrow> retain_marked rows keep = map ((!) rows) (filter (\<lambda>i. keep ! i) [0..<length rows])"
proof -
  assume l: "length keep = length rows"
  then have "zip rows keep = map (\<lambda>i. (rows ! i, keep ! i)) [0..<length rows]" by (intro nth_equalityI) auto
  then show ?thesis by (simp add: retain_marked_def filter_map comp_def)
qed

text \<open>Marking some of the indices of every partition keeps, of each partition, those rows.\<close>

lemma retained_by_part:
  assumes "\<And>k. set (f k) \<subseteq> set (key_indices rows k)"
  shows "retain_marked rows (fold (\<lambda>k keep. mark (f k) keep) (remdups (map boundary_key rows)) (replicate (length rows) False))
    = map ((!) rows) (filter (\<lambda>i. i \<in> set (f (boundary_key (rows ! i)))) [0..<length rows])"
    (is "retain_marked rows ?keep = _")
proof -
  have "?keep ! i \<longleftrightarrow> i \<in> set (f (boundary_key (rows ! i)))" if "i < length rows" for i
  proof -
    have "?keep ! i \<longleftrightarrow> (\<exists>k \<in> boundary_key ` set rows. i \<in> set (f k))"
      using that nth_fold_mark [of i "replicate (length rows) False" f] by simp
    also have "\<dots> \<longleftrightarrow> i \<in> set (f (boundary_key (rows ! i)))"
      using assms that by (fastforce simp: key_indices_def)
    finally show ?thesis .
  qed
  then have "filter (\<lambda>i. ?keep ! i) [0..<length rows]
      = filter (\<lambda>i. i \<in> set (f (boundary_key (rows ! i)))) [0..<length rows]"
    by (intro filter_cong) auto
  then show ?thesis by (subst retain_marked_nth) simp_all
qed

lemma part_map_nth:
  "part k (map ((!) rows) (filter (\<lambda>i. i \<in> set (f (boundary_key (rows ! i)))) [0..<length rows]))
    = map ((!) rows) (filter (\<lambda>i. i \<in> set (f k)) (key_indices rows k))"
proof -
  have "filter (\<lambda>i. boundary_key (rows ! i) = k \<and> i \<in> set (f (boundary_key (rows ! i)))) xs
      = filter (\<lambda>i. boundary_key (rows ! i) = k \<and> i \<in> set (f k)) xs" for xs
    by (rule filter_cong) auto
  then show ?thesis by (simp add: part_def key_indices_def filter_map comp_def conj_commute)
qed

lemma part_eq: "part k rows = map ((!) rows) (key_indices rows k)"
proof -
  have "filter P (map ((!) rows) [0..<length rows]) = map ((!) rows) (filter (\<lambda>i. P (rows ! i)) [0..<length rows])" for P
    by (simp add: filter_map comp_def)
  then show ?thesis by (simp add: part_def key_indices_def map_nth)
qed

lemma key_indices_less: "i \<in> set (key_indices rows k) \<Longrightarrow> i < length rows"
  by (simp add: key_indices_def)

lemma sort_key_map: "sort_key f (map g xs) = map g (sort_key (\<lambda>x. f (g x)) xs)"
proof -
  have insort: "insort_key f (g x) (map g ys) = map g (insort_key (\<lambda>x. f (g x)) x ys)" for x ys
    by (induction ys) auto
  show ?thesis by (induction xs) (simp_all add: insort)
qed

lemma sort_key_cong_set: "(\<And>x. x \<in> set xs \<Longrightarrow> f x = g x) \<Longrightarrow> sort_key f xs = sort_key g xs"
proof (induction xs)
  case (Cons x xs)
  have "insort_key f x ys = insort_key g x ys" if "\<And>y. y \<in> set ys \<Longrightarrow> f y = g y" for ys
    using that Cons.prems by (induction ys) auto
  from this [of "sort_key g xs"] show ?case using Cons by simp
qed simp

text \<open>The shortest paths of a partition: a stable choice of the first in order of length.\<close>

lemma shortest_paths_part:
  "mset (part k (select_shortest_paths rows n)) = mset (take n (sort_key row_length (part k rows)))"
proof -
  let ?f = "\<lambda>k. take n (sort_key (\<lambda>i. map row_length rows ! i) (key_indices rows k))"
  let ?is = "key_indices rows k"
  have sub: "set (?f k) \<subseteq> set (key_indices rows k)" for k using set_take_subset [of n] by fastforce
  have "part k (select_shortest_paths rows n) = map ((!) rows) (filter (\<lambda>i. i \<in> set (?f k)) ?is)"
    using retained_by_part [of ?f, OF sub] part_map_nth [of k rows ?f] by (simp add: select_shortest_paths_def Let_def)
  moreover have "mset (filter (\<lambda>i. i \<in> set (?f k)) ?is) = mset (?f k)"
  proof (rule set_eq_iff_mset_eq_distinct [THEN iffD1])
    have d: "distinct ?is" by (simp add: key_indices_def)
    then show "distinct (filter (\<lambda>i. i \<in> set (?f k)) ?is)" "distinct (?f k)" by simp_all
    show "set (filter (\<lambda>i. i \<in> set (?f k)) ?is) = set (?f k)" using sub [of k] by auto
  qed
  moreover have "map ((!) rows) (?f k) = take n (sort_key row_length (part k rows))"
  proof -
    have "sort_key (\<lambda>i. map row_length rows ! i) ?is = sort_key (\<lambda>i. row_length (rows ! i)) ?is"
      by (rule sort_key_cong_set) (auto dest: key_indices_less)
    then show ?thesis by (simp add: part_eq sort_key_map take_map)
  qed
  ultimately show ?thesis by (metis mset_map)
qed

lemma shortest_groups_part:
  "part k (select_shortest_groups rows n)
    = filter (\<lambda>r. row_length r \<in> set (take n (sorted_list_of_set (row_length ` set (part k rows))))) (part k rows)"
proof -
  let ?len = "\<lambda>i. map row_length rows ! i"
  let ?f = "\<lambda>k. filter (\<lambda>i. ?len i \<in> set (take n (remdups (sort (map ?len (key_indices rows k)))))) (key_indices rows k)"
  have "part k (select_shortest_groups rows n) = map ((!) rows) (filter (\<lambda>i. i \<in> set (?f k)) (key_indices rows k))"
    using retained_by_part [of ?f rows] part_map_nth [of k rows ?f] by (simp add: select_shortest_groups_def Let_def)
  also have "\<dots> = map ((!) rows) (?f k)" by (auto intro!: arg_cong [of _ _ "map _"] filter_cong)
  also have "remdups (sort (map ?len (key_indices rows k))) = sorted_list_of_set (row_length ` set (part k rows))"
  proof -
    have "map ?len (key_indices rows k) = map row_length (part k rows)"
      by (auto simp: part_eq dest: key_indices_less)
    then have "sorted_list_of_set (row_length ` set (part k rows)) = sort (remdups (map ?len (key_indices rows k)))"
      by (metis list.set_map sorted_list_of_set_sort_remdups)
    also have "\<dots> = remdups (sort (map ?len (key_indices rows k)))"
      by (rule sorted_distinct_set_unique) simp_all
    finally show ?thesis ..
  qed
  finally show ?thesis
    by (auto simp: part_eq filter_map comp_def dest: key_indices_less intro!: arg_cong [of _ _ "map _"] filter_cong)
qed

text \<open>Every selection keeps the order of the rows and invents none.\<close>

lemma select_any_subseq: "subseq (select_any_loop n seen rows) rows"
proof (induction rows arbitrary: seen)
  case (Cons r rows)
  show ?case
    using Cons [of seen] Cons [of "seen(boundary_key r := Suc (seen (boundary_key r)))"]
    by (simp add: Let_def list_emb_Cons del: fun_upd_apply)
qed simp

lemma retain_marked_subseq: "subseq (retain_marked rows keep) rows"
proof (induction rows keep rule: list_induct2')
  case (4 r rows k keep)
  then show ?case by (cases k) (simp_all add: retain_marked_def list_emb_Cons)
qed (simp_all add: retain_marked_def)

definition admitted :: "path_prefix \<Rightarrow> row list \<Rightarrow> row list" where
  "admitted pre rows = filter (\<lambda>r. row_satisfies_mode r (pp_mode pre)) rows"

text \<open>
  C28: A path prefix keeps, of the matching rows in their order, rows that its mode admits.
  Of each pair of end points, ALL keeps every admitted row, ANY \<open>n\<close> the first \<open>n\<close>,
  SHORTEST \<open>n\<close> as many rows as the \<open>n\<close> shortest of a stable sort by length, and
  SHORTEST \<open>n\<close> GROUPS exactly those whose length is among the \<open>n\<close> least lengths.
\<close>

theorem prefix_selection:
  "subseq (apply_path_prefix rows pre) rows
   \<and> list_all (\<lambda>r. row_satisfies_mode r (pp_mode pre)) (apply_path_prefix rows pre)
   \<and> (case pp_search pre of
        SearchAll \<Rightarrow> part k (apply_path_prefix rows pre) = part k (admitted pre rows)
      | SearchAny n \<Rightarrow> part k (apply_path_prefix rows pre) = take n (part k (admitted pre rows))
      | ShortestPaths n \<Rightarrow>
          mset (part k (apply_path_prefix rows pre)) = mset (take n (sort_key row_length (part k (admitted pre rows))))
      | ShortestGroups n \<Rightarrow>
          part k (apply_path_prefix rows pre)
          = filter (\<lambda>r. row_length r \<in> set (take n (sorted_list_of_set (row_length ` set (part k (admitted pre rows))))))
              (part k (admitted pre rows)))"
proof (intro conjI)
  have walk: "row_satisfies_mode r Walk" for r by (simp add: row_satisfies_mode_def path_satisfies_mode_def list_all_iff)
  have admitted: "admitted pre rows = rows" if "is_trivial pre" using that by (simp add: admitted_def is_trivial_def walk)
  have eq: "apply_path_prefix rows pre =
      (case pp_search pre of SearchAll \<Rightarrow> admitted pre rows | SearchAny n \<Rightarrow> select_any (admitted pre rows) n
       | ShortestPaths n \<Rightarrow> select_shortest_paths (admitted pre rows) n
       | ShortestGroups n \<Rightarrow> select_shortest_groups (admitted pre rows) n)"
    unfolding apply_path_prefix_def Let_def admitted_def [symmetric] using admitted by (simp add: is_trivial_def)
  have sub: "subseq (apply_path_prefix rows pre) (admitted pre rows)"
    by (simp add: eq select_any_def select_any_subseq select_shortest_paths_def select_shortest_groups_def
        retain_marked_subseq Let_def split: path_search.split)
  show "subseq (apply_path_prefix rows pre) rows" 
    using sub subseq_order.order_trans [OF _ subseq_filter_left] by (simp add: admitted_def)
  show "list_all (\<lambda>r. row_satisfies_mode r (pp_mode pre)) (apply_path_prefix rows pre)"
    using subseq_set [OF sub] by (auto simp: list_all_iff admitted_def)
  show "case pp_search pre of
        SearchAll \<Rightarrow> part k (apply_path_prefix rows pre) = part k (admitted pre rows)
      | SearchAny n \<Rightarrow> part k (apply_path_prefix rows pre) = take n (part k (admitted pre rows))
      | ShortestPaths n \<Rightarrow>
          mset (part k (apply_path_prefix rows pre)) = mset (take n (sort_key row_length (part k (admitted pre rows))))
      | ShortestGroups n \<Rightarrow>
          part k (apply_path_prefix rows pre)
          = filter (\<lambda>r. row_length r \<in> set (take n (sorted_list_of_set (row_length ` set (part k (admitted pre rows))))))
              (part k (admitted pre rows))"
    by (simp add: eq select_any_def select_any_part shortest_paths_part shortest_groups_part split: path_search.split)
qed

lemma apply_path_prefix_subset: "set (apply_path_prefix rows pre) \<subseteq> set rows"
proof -
  have "set (select_any rows n) \<subseteq> set rows" "set (retain_marked rows keep) \<subseteq> set rows" for rows n keep
    unfolding select_any_def by (rule subseq_set, rule select_any_subseq) (rule subseq_set, rule retain_marked_subseq)
  then show ?thesis
    by (fastforce simp: apply_path_prefix_def select_shortest_paths_def select_shortest_groups_def Let_def
        split: path_search.splits if_splits)
qed

end
