(* ===== verification/Overlays.thy ===== *)
theory Overlays
  imports PropertyTypes
begin

text \<open>
  The mutation overlay (\<open>src/store/overlay.rs\<close>): everything a session has inserted,
  deleted, set or removed above an unchanged base graph. A \<open>HashMap\<close> is an ordered map: no
  result modelled here depends on the order of its entries but where that is said. A
  \<open>HashSet\<close> is the list of its elements. The identifiers are \<open>u32\<close>, so that allocation
  wraps around as the code's does. The labels of an element become its type here, so the label
  filter and the label indexes of \<open>LabelTypes\<close> are shown right on them.
\<close>

section \<open>Records\<close>

record overlay_node =
  on_labels :: label_type
  on_props :: props

record overlay_edge =
  oe_src :: u32
  oe_tgt :: u32
  oe_directed :: bool
  oe_labels :: label_type
  oe_props :: props

record prop_mods =
  pm_cleared :: bool
  pm_set :: "(string \<times> val option) list"

record label_mods =
  lm_added :: "string list"
  lm_removed :: "string list"

record overlay =
  ov_base_node_count :: u32
  ov_base_edge_count :: u32
  ov_new_nodes :: "overlay_node list"
  ov_new_edges :: "overlay_edge list"
  ov_deleted_nodes :: "u32 list"
  ov_deleted_edges :: "u32 list"
  ov_mod_node_props :: "(u32 \<times> prop_mods) list"
  ov_mod_edge_props :: "(u32 \<times> prop_mods) list"
  ov_mod_node_labels :: "(u32 \<times> label_mods) list"
  ov_mod_edge_labels :: "(u32 \<times> label_mods) list"
  ov_new_outgoing :: "(u32 \<times> u32 list) list"
  ov_new_incoming :: "(u32 \<times> u32 list) list"
  ov_new_undirected :: "(u32 \<times> u32 list) list"
  ov_touched_node_log :: "u32 list"

definition prop_mods_default :: prop_mods where
  "prop_mods_default = \<lparr>pm_cleared = False, pm_set = []\<rparr>"

definition label_mods_default :: label_mods where
  "label_mods_default = \<lparr>lm_added = [], lm_removed = []\<rparr>"

section \<open>The overlay's own operations\<close>

definition overlay_new :: "u32 \<Rightarrow> u32 \<Rightarrow> overlay" where
  "overlay_new bn be =
     \<lparr>ov_base_node_count = bn, ov_base_edge_count = be, ov_new_nodes = [], ov_new_edges = [],
      ov_deleted_nodes = [], ov_deleted_edges = [], ov_mod_node_props = [], ov_mod_edge_props = [],
      ov_mod_node_labels = [], ov_mod_edge_labels = [], ov_new_outgoing = [], ov_new_incoming = [],
      ov_new_undirected = [], ov_touched_node_log = []\<rparr>"

definition next_node_id :: "overlay \<Rightarrow> u32" where
  "next_node_id ov = ov_base_node_count ov + of_nat (length (ov_new_nodes ov))"

definition next_edge_id :: "overlay \<Rightarrow> u32" where
  "next_edge_id ov = ov_base_edge_count ov + of_nat (length (ov_new_edges ov))"

definition affects_triples :: "overlay \<Rightarrow> bool" where
  "affects_triples ov \<longleftrightarrow>
     ov_new_nodes ov \<noteq> [] \<or> ov_new_edges ov \<noteq> [] \<or> ov_deleted_nodes ov \<noteq> []
     \<or> ov_deleted_edges ov \<noteq> [] \<or> ov_mod_edge_labels ov \<noteq> []"

definition is_node_deleted :: "u32 \<Rightarrow> overlay \<Rightarrow> bool" where
  "is_node_deleted n ov \<longleftrightarrow> n \<in> set (ov_deleted_nodes ov)"

definition is_edge_deleted :: "u32 \<Rightarrow> overlay \<Rightarrow> bool" where
  "is_edge_deleted e ov \<longleftrightarrow> e \<in> set (ov_deleted_edges ov)"

definition vec_get :: "'a list \<Rightarrow> nat \<Rightarrow> 'a option" where
  "vec_get xs i = (if i < length xs then Some (xs ! i) else None)"

definition get_new_node :: "u32 \<Rightarrow> overlay \<Rightarrow> overlay_node option" where
  "get_new_node n ov =
     (if n < ov_base_node_count ov then None
      else vec_get (ov_new_nodes ov) (unat (n - ov_base_node_count ov)))"

definition get_new_edge :: "u32 \<Rightarrow> overlay \<Rightarrow> overlay_edge option" where
  "get_new_edge e ov =
     (if e < ov_base_edge_count ov then None
      else vec_get (ov_new_edges ov) (unat (e - ov_base_edge_count ov)))"

definition touch_node :: "u32 \<Rightarrow> overlay \<Rightarrow> overlay" where
  "touch_node n ov = ov\<lparr>ov_touched_node_log := ov_touched_node_log ov @ [n]\<rparr>"

definition node_state_len :: "overlay \<Rightarrow> nat" where
  "node_state_len ov =
     length (ov_new_nodes ov) + length (ov_deleted_nodes ov)
     + length (ov_mod_node_props ov) + length (ov_mod_node_labels ov)"

definition ov_insert_node :: "label_type \<Rightarrow> props \<Rightarrow> overlay \<Rightarrow> u32 \<times> overlay" where
  "ov_insert_node labels props ov =
     (let n = next_node_id ov
      in (n, touch_node n (ov\<lparr>ov_new_nodes := ov_new_nodes ov @ [\<lparr>on_labels = labels, on_props = props\<rparr>]\<rparr>)))"

definition push_id :: "u32 \<Rightarrow> u32 \<Rightarrow> (u32 \<times> u32 list) list \<Rightarrow> (u32 \<times> u32 list) list" where
  "push_id k e m = bm_update k [] (\<lambda>es. es @ [e]) m"

definition ov_insert_edge ::
    "u32 \<Rightarrow> u32 \<Rightarrow> bool \<Rightarrow> label_type \<Rightarrow> props \<Rightarrow> overlay \<Rightarrow> u32 \<times> overlay" where
  "ov_insert_edge src tgt directed labels props ov =
     (let e = next_edge_id ov;
          ov = ov\<lparr>ov_new_edges := ov_new_edges ov @
                 [\<lparr>oe_src = src, oe_tgt = tgt, oe_directed = directed, oe_labels = labels, oe_props = props\<rparr>]\<rparr>
      in (e, if directed then
               ov\<lparr>ov_new_outgoing := push_id src e (ov_new_outgoing ov),
                  ov_new_incoming := push_id tgt e (ov_new_incoming ov)\<rparr>
             else
               let und = push_id src e (ov_new_undirected ov)
               in ov\<lparr>ov_new_undirected := (if src \<noteq> tgt then push_id tgt e und else und)\<rparr>))"

definition ov_delete_edge :: "u32 \<Rightarrow> overlay \<Rightarrow> overlay" where
  "ov_delete_edge e ov = ov\<lparr>ov_deleted_edges := List.insert e (ov_deleted_edges ov)\<rparr>"

definition ov_delete_node :: "u32 \<Rightarrow> overlay \<Rightarrow> overlay" where
  "ov_delete_node n ov = touch_node n (ov\<lparr>ov_deleted_nodes := List.insert n (ov_deleted_nodes ov)\<rparr>)"

definition ov_clear :: "u32 \<Rightarrow> u32 \<Rightarrow> overlay \<Rightarrow> overlay" where
  "ov_clear bn be ov =
     ov\<lparr>ov_base_node_count := bn, ov_base_edge_count := be, ov_new_nodes := [], ov_new_edges := [],
        ov_deleted_nodes := [], ov_deleted_edges := [], ov_mod_node_props := [], ov_mod_edge_props := [],
        ov_mod_node_labels := [], ov_mod_edge_labels := [], ov_new_outgoing := [], ov_new_incoming := [],
        ov_new_undirected := [], ov_touched_node_log := []\<rparr>"

section \<open>Labels as strings\<close>

fun label_strings :: "label_type \<Rightarrow> string list" where
  "label_strings (LLabel s) = [s]"
| "label_strings (LAnd a b) = label_strings a @ label_strings b"
| "label_strings _ = []"

definition apply_label_mods :: "string list \<Rightarrow> label_mods option \<Rightarrow> string list" where
  "apply_label_mods labels mods =
     (case mods of
        None \<Rightarrow> labels
      | Some lm \<Rightarrow>
          fold (\<lambda>l ls. if l \<in> set ls then ls else ls @ [l]) (lm_added lm)
            (filter (\<lambda>l. l \<notin> set (lm_removed lm)) labels))"

definition labels_from_strings :: "string list \<Rightarrow> label_type" where
  "labels_from_strings labels = (case label_from_list labels of None \<Rightarrow> LStar | Some lt \<Rightarrow> lt)"

definition label_type_with_added :: "label_type \<Rightarrow> string \<Rightarrow> label_type" where
  "label_type_with_added lt l =
     (let labels = label_strings lt in labels_from_strings (if l \<in> set labels then labels else labels @ [l]))"

definition label_type_with_removed :: "label_type \<Rightarrow> string \<Rightarrow> label_type" where
  "label_type_with_removed lt l = labels_from_strings (filter (\<lambda>x. x \<noteq> l) (label_strings lt))"

lemma label_from_list_None: "label_from_list ls = None \<longleftrightarrow> ls = []"
  by (induction ls rule: label_from_list.induct) auto

lemma label_strings_from_list: "label_from_list ls = Some lt \<Longrightarrow> label_strings lt = ls"
  by (induction ls arbitrary: lt rule: label_from_list.induct) auto

lemma label_strings_labels [simp]: "label_strings (labels_from_strings ls) = ls"
  by (auto simp: labels_from_strings_def label_from_list_None dest: label_strings_from_list split: option.splits)

section \<open>The label filter and the label indexes\<close>

text \<open>
  C21: The label filter is right on every pattern without negation: an element whose labels are
  \<open>ls\<close> passes exactly when the pattern holds of that label set, or when it has no labels at
  all, since the type of an element without labels is the star that passes every pattern.
\<close>

theorem label_filter_exact:
  assumes "neg_free p"
  shows "label_subtype (labels_from_strings ls) p \<longleftrightarrow> ls = [] \<or> label_sem (set ls) p"
  using from_list_sem [OF _ assms] by (auto simp: labels_from_strings_def label_from_list_None split: option.splits)

lemma label_filter_exact_witness:
  "\<not> label_subtype (labels_from_strings [''A'', ''B'']) (LOr (LAnd (LLabel ''B'') LEmpty) (LLabel ''C''))
   \<and> label_subtype (labels_from_strings []) (LOr (LAnd (LLabel ''B'') LEmpty) (LLabel ''C''))"
  using label_filter_exact [of "LOr (LAnd (LLabel ''B'') LEmpty) (LLabel ''C'')"] by simp

text \<open>
  C22: The label indexes the optimiser consults cover the filter on elements with labels: an
  element that has labels and passes the filter has every required label of the pattern, and
  where the pattern offers candidate labels it passes exactly when it has one of them, so a
  scan over such an index misses no such element. An element without labels passes every
  pattern and is in no label index.
\<close>

theorem label_index_complete:
  "(ls \<noteq> [] \<and> label_subtype (labels_from_strings ls) p \<longrightarrow> set (required_labels p) \<subseteq> set ls)
   \<and> (\<forall>cs. or_candidate_labels p = Some cs \<longrightarrow>
        (label_subtype (labels_from_strings ls) p \<longleftrightarrow> ls = [] \<or> (\<exists>c \<in> set cs. c \<in> set ls)))"
proof (cases "label_from_list ls")
  case None
  then show ?thesis by (simp add: labels_from_strings_def label_from_list_None)
next
  case (Some l)
  then show ?thesis
    using required_sound [OF Some, of p] or_candidates_sound [OF Some, of p] by (auto simp: labels_from_strings_def)
qed

lemma label_index_complete_witness:
  "label_subtype (labels_from_strings [''B'', ''C'']) (LOr (LLabel ''A'') (LLabel ''C''))
   \<and> \<not> label_subtype (labels_from_strings [''B'']) (LOr (LLabel ''A'') (LLabel ''C''))"
  using label_index_complete [of "[''B'', ''C'']" "LOr (LLabel ''A'') (LLabel ''C'')"]
    label_index_complete [of "[''B'']" "LOr (LLabel ''A'') (LLabel ''C'')"] by simp

section \<open>Label changes\<close>

lemma label_strings_added [simp]:
  "set (label_strings (label_type_with_added lt l)) = insert l (set (label_strings lt))"
  by (auto simp: label_type_with_added_def Let_def)

lemma label_strings_removed [simp]:
  "set (label_strings (label_type_with_removed lt l)) = set (label_strings lt) - {l}"
  by (auto simp: label_type_with_removed_def)

lemma set_fold_push: "set (fold (\<lambda>l ls. if l \<in> set ls then ls else ls @ [l]) as bs) = set bs \<union> set as"
  by (induction as arbitrary: bs) auto

lemma set_apply_label_mods:
  "set (apply_label_mods ls mods) =
     (case mods of None \<Rightarrow> set ls | Some lm \<Rightarrow> (set ls - set (lm_removed lm)) \<union> set (lm_added lm))"
  by (auto simp: apply_label_mods_def set_fold_push split: option.splits)

section \<open>Property changes\<close>

definition apply_prop_mods :: "props \<Rightarrow> prop_mods option \<Rightarrow> props" where
  "apply_prop_mods base mods =
     (case mods of
        None \<Rightarrow> base
      | Some pm \<Rightarrow>
          fold (\<lambda>(name, opv) m. case opv of Some v \<Rightarrow> bm_insert name v m | None \<Rightarrow> bm_remove name m)
            (pm_set pm) (if pm_cleared pm then [] else base))"

lemma bm_wf_fold_mods:
  "bm_wf m \<Longrightarrow> bm_wf (fold (\<lambda>(name, opv) m. case opv of Some v \<Rightarrow> bm_insert name v m | None \<Rightarrow> bm_remove name m) ops m)"
  by (induction ops arbitrary: m) (auto split: option.splits)

lemma bm_wf_apply_prop_mods: "bm_wf base \<Longrightarrow> bm_wf (apply_prop_mods base mods)"
  by (auto simp: apply_prop_mods_def intro: bm_wf_fold_mods split: option.splits)

lemma map_of_fold_mods:
  "distinct (map fst ops) \<Longrightarrow>
   map_of (fold (\<lambda>(name, opv) m. case opv of Some v \<Rightarrow> bm_insert name v m | None \<Rightarrow> bm_remove name m) ops m) k =
   (case map_of ops k of Some opv \<Rightarrow> opv | None \<Rightarrow> map_of m k)"
proof (induction ops arbitrary: m)
  case (Cons nv ops)
  obtain n ov where nv: "nv = (n, ov)" by (cases nv)
  have "map_of ops n = None" using Cons.prems nv by (simp add: map_of_eq_None_iff)
  then show ?case
    using Cons nv by (auto simp: map_of_bm_insert map_of_bm_remove split: option.splits)
qed simp

text \<open>What a property set reads after the changes: every key follows its last change.\<close>

lemma map_of_apply_prop_mods:
  "bm_wf (pm_set pm) \<Longrightarrow>
   map_of (apply_prop_mods base (Some pm)) k =
   (case map_of (pm_set pm) k of Some opv \<Rightarrow> opv | None \<Rightarrow> if pm_cleared pm then None else map_of base k)"
  by (simp add: apply_prop_mods_def map_of_fold_mods bm_wf_distinct split: option.splits)

end
