(* ===== verification/MemGraphs.thy ===== *)
theory MemGraphs
  imports Overlays
begin

text \<open>
  The in-memory graph store (\<open>src/model/graph.rs\<close>): the columns of the base graph with
  their label and adjacency indexes, and the overlay of the session. Reading from JSON is
  not modelled; \<open>from_raw\<close> builds the store from parsed columns. A column is indexed with
  \<open>!\<close>: out of its range the code panics, and the store's invariant (\<open>graph_wf\<close>) rules it
  out for every identifier the store hands out.
\<close>

section \<open>The store\<close>

record mem_graph =
  mg_node_names :: "string list"
  mg_edge_names :: "string list"
  mg_edge_src :: "u32 list"
  mg_edge_tgt :: "u32 list"
  mg_edge_directed :: "bool list"
  mg_node_labels :: "label_type list"
  mg_edge_labels :: "label_type list"
  mg_node_props :: "props list"
  mg_edge_props :: "props list"
  mg_label_to_nodes :: "(string \<times> u32 list) list"
  mg_label_to_edges_d :: "(string \<times> u32 list) list"
  mg_label_to_edges_u :: "(string \<times> u32 list) list"
  mg_outgoing :: "u32 list list"
  mg_incoming :: "u32 list list"
  mg_undirected_adj :: "u32 list list"
  mg_node_name_to_id :: "(string \<times> u32) list"
  mg_overlay :: overlay

definition node_count :: "mem_graph \<Rightarrow> nat" where
  "node_count G = length (mg_node_names G)"

definition edge_count :: "mem_graph \<Rightarrow> nat" where
  "edge_count G = length (mg_edge_names G)"

definition live_node_count :: "mem_graph \<Rightarrow> nat" where
  "live_node_count G = unat (next_node_id (mg_overlay G)) - length (ov_deleted_nodes (mg_overlay G))"

definition live_edge_count :: "mem_graph \<Rightarrow> nat" where
  "live_edge_count G = unat (next_edge_id (mg_overlay G)) - length (ov_deleted_edges (mg_overlay G))"

section \<open>Building the store\<close>

text \<open>\<open>entry(l).or_default().push(id)\<close> for every label, and \<open>lists[n].push(id)\<close>.\<close>

definition index_labels :: "string list \<Rightarrow> u32 \<Rightarrow> (string \<times> u32 list) list \<Rightarrow> (string \<times> u32 list) list" where
  "index_labels ls i m = fold (\<lambda>l m. bm_update l [] (\<lambda>is. is @ [i]) m) ls m"

definition adj_push :: "u32 \<Rightarrow> u32 \<Rightarrow> u32 list list \<Rightarrow> u32 list list" where
  "adj_push n e adj = adj[unat n := adj ! unat n @ [e]]"

definition build_nodes_index :: "label_type list \<Rightarrow> (string \<times> u32 list) list" where
  "build_nodes_index labels =
     fold (\<lambda>i m. index_labels (label_strings (labels ! i)) (of_nat i) m) [0..<length labels] []"

definition build_edges_index :: "bool \<Rightarrow> bool list \<Rightarrow> label_type list \<Rightarrow> (string \<times> u32 list) list" where
  "build_edges_index want directed labels =
     fold (\<lambda>i m. if directed ! i = want then index_labels (label_strings (labels ! i)) (of_nat i) m else m)
       [0..<length labels] []"

definition build_adj :: "nat \<Rightarrow> bool list \<Rightarrow> u32 list \<Rightarrow> u32 list list" where
  "build_adj n directed ends =
     fold (\<lambda>i adj. if directed ! i then adj_push (ends ! i) (of_nat i) adj else adj)
       [0..<length ends] (replicate n [])"

definition build_undirected :: "nat \<Rightarrow> bool list \<Rightarrow> u32 list \<Rightarrow> u32 list \<Rightarrow> u32 list list" where
  "build_undirected n directed srcs tgts =
     fold (\<lambda>i adj. if directed ! i then adj
                   else adj_push (tgts ! i) (of_nat i) (adj_push (srcs ! i) (of_nat i) adj))
       [0..<length srcs] (replicate n [])"

definition from_raw ::
    "string list \<Rightarrow> label_type list \<Rightarrow> props list \<Rightarrow> string list \<Rightarrow> label_type list \<Rightarrow> props list \<Rightarrow>
     u32 list \<Rightarrow> u32 list \<Rightarrow> bool list \<Rightarrow> mem_graph" where
  "from_raw node_names node_labels node_props edge_names edge_labels edge_props edge_src edge_tgt edge_directed =
     \<lparr>mg_node_names = node_names,
      mg_edge_names = edge_names,
      mg_edge_src = edge_src,
      mg_edge_tgt = edge_tgt,
      mg_edge_directed = edge_directed,
      mg_node_labels = node_labels,
      mg_edge_labels = edge_labels,
      mg_node_props = node_props,
      mg_edge_props = edge_props,
      mg_label_to_nodes = build_nodes_index node_labels,
      mg_label_to_edges_d = build_edges_index True edge_directed edge_labels,
      mg_label_to_edges_u = build_edges_index False edge_directed edge_labels,
      mg_outgoing = build_adj (length node_names) edge_directed edge_src,
      mg_incoming = build_adj (length node_names) edge_directed edge_tgt,
      mg_undirected_adj = build_undirected (length node_names) edge_directed edge_src edge_tgt,
      mg_node_name_to_id = fold (\<lambda>i m. bm_insert (node_names ! i) (of_nat i) m) [0..<length node_names] [],
      mg_overlay = overlay_new (of_nat (length node_names)) (of_nat (length edge_names))\<rparr>"

section \<open>Reading the merged view\<close>

text \<open>The identifiers \<open>0..base\<close> and those the overlay allocated above them.\<close>

definition base_ids :: "u32 \<Rightarrow> u32 list" where
  "base_ids n = map of_nat [0..<unat n]"

definition overlay_ids :: "u32 \<Rightarrow> 'a list \<Rightarrow> u32 list" where
  "overlay_ids base xs = map (\<lambda>i. base + of_nat i) [0..<length xs]"

definition mg_nodes :: "mem_graph \<Rightarrow> u32 list" where
  "mg_nodes G =
     (let ov = mg_overlay G
      in filter (\<lambda>i. \<not> is_node_deleted i ov) (base_ids (ov_base_node_count ov))
         @ filter (\<lambda>i. \<not> is_node_deleted i ov) (overlay_ids (ov_base_node_count ov) (ov_new_nodes ov)))"

definition new_edge_ids :: "(overlay_edge \<Rightarrow> bool) \<Rightarrow> overlay \<Rightarrow> u32 list" where
  "new_edge_ids P ov =
     map fst (filter (\<lambda>(i, e). \<not> is_edge_deleted i ov \<and> P e)
       (zip (overlay_ids (ov_base_edge_count ov) (ov_new_edges ov)) (ov_new_edges ov)))"

definition mg_edges_directed :: "mem_graph \<Rightarrow> u32 list" where
  "mg_edges_directed G =
     (let ov = mg_overlay G
      in filter (\<lambda>i. \<not> is_edge_deleted i ov \<and> mg_edge_directed G ! unat i) (base_ids (ov_base_edge_count ov))
         @ new_edge_ids oe_directed ov)"

definition mg_edges_undirected :: "mem_graph \<Rightarrow> u32 list" where
  "mg_edges_undirected G =
     (let ov = mg_overlay G
      in filter (\<lambda>i. \<not> is_edge_deleted i ov \<and> \<not> mg_edge_directed G ! unat i) (base_ids (ov_base_edge_count ov))
         @ new_edge_ids (\<lambda>e. \<not> oe_directed e) ov)"

definition mg_node_label :: "mem_graph \<Rightarrow> u32 \<Rightarrow> label_type" where
  "mg_node_label G i =
     (case get_new_node i (mg_overlay G) of
        Some n \<Rightarrow> on_labels n
      | None \<Rightarrow> labels_from_strings
          (apply_label_mods (label_strings (mg_node_labels G ! unat i)) (map_of (ov_mod_node_labels (mg_overlay G)) i)))"

definition mg_edge_label :: "mem_graph \<Rightarrow> u32 \<Rightarrow> label_type" where
  "mg_edge_label G i =
     (case get_new_edge i (mg_overlay G) of
        Some e \<Rightarrow> oe_labels e
      | None \<Rightarrow> labels_from_strings
          (apply_label_mods (label_strings (mg_edge_labels G ! unat i)) (map_of (ov_mod_edge_labels (mg_overlay G)) i)))"

definition mg_node_prop :: "mem_graph \<Rightarrow> u32 \<Rightarrow> props" where
  "mg_node_prop G i =
     (case get_new_node i (mg_overlay G) of
        Some n \<Rightarrow> on_props n
      | None \<Rightarrow> apply_prop_mods (mg_node_props G ! unat i) (map_of (ov_mod_node_props (mg_overlay G)) i))"

definition mg_edge_prop :: "mem_graph \<Rightarrow> u32 \<Rightarrow> props" where
  "mg_edge_prop G i =
     (case get_new_edge i (mg_overlay G) of
        Some e \<Rightarrow> oe_props e
      | None \<Rightarrow> apply_prop_mods (mg_edge_props G ! unat i) (map_of (ov_mod_edge_props (mg_overlay G)) i))"

definition mg_src :: "mem_graph \<Rightarrow> u32 \<Rightarrow> u32" where
  "mg_src G e = (case get_new_edge e (mg_overlay G) of Some oe \<Rightarrow> oe_src oe | None \<Rightarrow> mg_edge_src G ! unat e)"

definition mg_tgt :: "mem_graph \<Rightarrow> u32 \<Rightarrow> u32" where
  "mg_tgt G e = (case get_new_edge e (mg_overlay G) of Some oe \<Rightarrow> oe_tgt oe | None \<Rightarrow> mg_edge_tgt G ! unat e)"

definition mg_is_directed :: "mem_graph \<Rightarrow> u32 \<Rightarrow> bool" where
  "mg_is_directed G e =
     (case get_new_edge e (mg_overlay G) of Some oe \<Rightarrow> oe_directed oe | None \<Rightarrow> mg_edge_directed G ! unat e)"

definition mg_edge_path_value :: "mem_graph \<Rightarrow> u32 \<Rightarrow> pvalue" where
  "mg_edge_path_value G e = (if mg_is_directed G e then PEdgeDirectional e else PEdgeUndirectional e)"

definition mg_is_node_alive :: "mem_graph \<Rightarrow> u32 \<Rightarrow> bool" where
  "mg_is_node_alive G i =
     (let ov = mg_overlay G
      in if is_node_deleted i ov then False
         else if i < ov_base_node_count ov then True
         else get_new_node i ov \<noteq> None)"

definition mg_is_edge_alive :: "mem_graph \<Rightarrow> u32 \<Rightarrow> bool" where
  "mg_is_edge_alive G i =
     (let ov = mg_overlay G
      in if is_edge_deleted i ov then False
         else if i < ov_base_edge_count ov then True
         else get_new_edge i ov \<noteq> None)"

section \<open>Indexes\<close>

definition removed_label :: "(u32 \<times> label_mods) list \<Rightarrow> string \<Rightarrow> u32 \<Rightarrow> bool" where
  "removed_label mods l i = (case map_of mods i of Some lm \<Rightarrow> l \<in> set (lm_removed lm) | None \<Rightarrow> False)"

text \<open>
  The loop over \<open>mod_node_labels\<close> pushes the records that gained the label; its order is
  the map's.
\<close>

definition push_added :: "(u32 \<times> label_mods) list \<Rightarrow> string \<Rightarrow> (u32 \<Rightarrow> bool) \<Rightarrow> u32 list \<Rightarrow> u32 list" where
  "push_added mods l ok out =
     fold (\<lambda>(i, lm) out. if l \<in> set (lm_added lm) \<and> ok i \<and> i \<notin> set out then out @ [i] else out) mods out"

definition mg_nodes_with_label :: "mem_graph \<Rightarrow> string \<Rightarrow> u32 list option" where
  "mg_nodes_with_label G l =
     (let ov = mg_overlay G; base = map_of (mg_label_to_nodes G) l
      in if ov_new_nodes ov = [] \<and> ov_deleted_nodes ov = [] \<and> ov_mod_node_labels ov = [] then base
         else
           let out = (case base of
                   Some v \<Rightarrow> filter (\<lambda>i. \<not> is_node_deleted i ov \<and> \<not> removed_label (ov_mod_node_labels ov) l i) v
                 | None \<Rightarrow> []);
               out = push_added (ov_mod_node_labels ov) l (\<lambda>i. \<not> is_node_deleted i ov) out;
               out = out @ map fst (filter (\<lambda>(i, n). \<not> is_node_deleted i ov \<and> l \<in> set (label_strings (on_labels n)))
                       (zip (overlay_ids (ov_base_node_count ov) (ov_new_nodes ov)) (ov_new_nodes ov)))
           in if base \<noteq> None \<or> out \<noteq> [] then Some out else None)"

definition edges_with_label_dir :: "mem_graph \<Rightarrow> string \<Rightarrow> bool \<Rightarrow> u32 list option" where
  "edges_with_label_dir G l want =
     (let ov = mg_overlay G;
          base = map_of (if want then mg_label_to_edges_d G else mg_label_to_edges_u G) l
      in if ov_new_edges ov = [] \<and> ov_deleted_edges ov = [] \<and> ov_mod_edge_labels ov = [] then base
         else
           let out = (case base of
                   Some v \<Rightarrow> filter (\<lambda>i. \<not> is_edge_deleted i ov \<and> \<not> removed_label (ov_mod_edge_labels ov) l i) v
                 | None \<Rightarrow> []);
               out = push_added (ov_mod_edge_labels ov) l
                       (\<lambda>i. unat i < length (mg_edge_directed G) \<and> mg_edge_directed G ! unat i = want
                            \<and> \<not> is_edge_deleted i ov) out;
               out = out @ new_edge_ids (\<lambda>e. oe_directed e = want \<and> l \<in> set (label_strings (oe_labels e))) ov
           in if base \<noteq> None \<or> out \<noteq> [] then Some out else None)"

text \<open>\<open>base_adj\<close>: no base adjacency for a node the overlay allocated.\<close>

definition base_adj :: "u32 list list \<Rightarrow> u32 \<Rightarrow> u32 list" where
  "base_adj adj n = (if unat n < length adj then adj ! unat n else [])"

text \<open>The ids of a list per key; a missing entry is the empty list.\<close>

definition adj_get :: "('k \<times> u32 list) list \<Rightarrow> 'k \<Rightarrow> u32 list" where
  "adj_get m k = (case map_of m k of Some es \<Rightarrow> es | None \<Rightarrow> [])"

definition merged_adj :: "u32 list list \<Rightarrow> (u32 \<times> u32 list) list \<Rightarrow> overlay \<Rightarrow> u32 \<Rightarrow> u32 list" where
  "merged_adj adj extra ov n =
     filter (\<lambda>e. \<not> is_edge_deleted e ov) (base_adj adj n @ adj_get extra n)"

definition mg_outgoing_edges :: "mem_graph \<Rightarrow> u32 \<Rightarrow> u32 list" where
  "mg_outgoing_edges G n = merged_adj (mg_outgoing G) (ov_new_outgoing (mg_overlay G)) (mg_overlay G) n"

definition mg_incoming_edges :: "mem_graph \<Rightarrow> u32 \<Rightarrow> u32 list" where
  "mg_incoming_edges G n = merged_adj (mg_incoming G) (ov_new_incoming (mg_overlay G)) (mg_overlay G) n"

definition mg_undirected_edges_of :: "mem_graph \<Rightarrow> u32 \<Rightarrow> u32 list" where
  "mg_undirected_edges_of G n =
     merged_adj (mg_undirected_adj G) (ov_new_undirected (mg_overlay G)) (mg_overlay G) n"

definition mg_edge_mutations :: "mem_graph \<Rightarrow> ((u32 \<times> bool) list \<times> u32 list \<times> u32) option" where
  "mg_edge_mutations G =
     (let ov = mg_overlay G
      in if ov_mod_edge_labels ov \<noteq> [] then None
         else Some
           (map (\<lambda>(i, e). (i, oe_directed e)) (filter (\<lambda>(i, e). \<not> is_edge_deleted i ov)
              (zip (overlay_ids (ov_base_edge_count ov) (ov_new_edges ov)) (ov_new_edges ov))),
            ov_deleted_edges ov, next_edge_id ov))"

section \<open>Mutations\<close>

definition with_overlay :: "mem_graph \<Rightarrow> overlay \<Rightarrow> mem_graph" where
  "with_overlay G ov = G\<lparr>mg_overlay := ov\<rparr>"

definition mg_insert_node :: "label_type \<Rightarrow> props \<Rightarrow> mem_graph \<Rightarrow> u32 \<times> mem_graph" where
  "mg_insert_node labels props G =
     (let (i, ov) = ov_insert_node labels props (mg_overlay G) in (i, with_overlay G ov))"

definition mg_insert_edge ::
    "u32 \<Rightarrow> u32 \<Rightarrow> bool \<Rightarrow> label_type \<Rightarrow> props \<Rightarrow> mem_graph \<Rightarrow> u32 \<times> mem_graph" where
  "mg_insert_edge src tgt directed labels props G =
     (let (i, ov) = ov_insert_edge src tgt directed labels props (mg_overlay G) in (i, with_overlay G ov))"

definition mg_delete_edge :: "u32 \<Rightarrow> mem_graph \<Rightarrow> mem_graph" where
  "mg_delete_edge e G = with_overlay G (ov_delete_edge e (mg_overlay G))"

definition incident_edges :: "mem_graph \<Rightarrow> u32 \<Rightarrow> u32 list" where
  "incident_edges G n = mg_outgoing_edges G n @ mg_incoming_edges G n @ mg_undirected_edges_of G n"

definition mg_detach_delete_node :: "u32 \<Rightarrow> mem_graph \<Rightarrow> mem_graph" where
  "mg_detach_delete_node n G =
     with_overlay G (ov_delete_node n (fold ov_delete_edge (incident_edges G n) (mg_overlay G)))"

text \<open>The error \<open>G1001\<close> carries the node and the edges that remain.\<close>

definition mg_delete_node_no_detach :: "u32 \<Rightarrow> mem_graph \<Rightarrow> ((u32 \<times> u32 list) + unit) \<times> mem_graph" where
  "mg_delete_node_no_detach n G =
     (if incident_edges G n \<noteq> [] then (Inl (n, incident_edges G n), G)
      else (Inr (), with_overlay G (ov_delete_node n (mg_overlay G))))"

definition mg_rollback_session :: "mem_graph \<Rightarrow> mem_graph" where
  "mg_rollback_session G =
     with_overlay G (ov_clear (ov_base_node_count (mg_overlay G)) (ov_base_edge_count (mg_overlay G)) (mg_overlay G))"

text \<open>\<open>new_nodes.get_mut(off)\<close>: an identifier never allocated changes nothing.\<close>

definition update_new_node :: "u32 \<Rightarrow> (overlay_node \<Rightarrow> overlay_node) \<Rightarrow> overlay \<Rightarrow> overlay" where
  "update_new_node i f ov =
     (let off = unat (i - ov_base_node_count ov)
      in if off < length (ov_new_nodes ov)
         then ov\<lparr>ov_new_nodes := (ov_new_nodes ov)[off := f (ov_new_nodes ov ! off)]\<rparr> else ov)"

definition update_new_edge :: "u32 \<Rightarrow> (overlay_edge \<Rightarrow> overlay_edge) \<Rightarrow> overlay \<Rightarrow> overlay" where
  "update_new_edge i f ov =
     (let off = unat (i - ov_base_edge_count ov)
      in if off < length (ov_new_edges ov)
         then ov\<lparr>ov_new_edges := (ov_new_edges ov)[off := f (ov_new_edges ov ! off)]\<rparr> else ov)"

definition mg_set_node_prop :: "u32 \<Rightarrow> string \<Rightarrow> val \<Rightarrow> mem_graph \<Rightarrow> mem_graph" where
  "mg_set_node_prop i k v G =
     (let ov = mg_overlay G
      in with_overlay G
           (if ov_base_node_count ov \<le> i
            then update_new_node i (\<lambda>n. n\<lparr>on_props := bm_insert k v (on_props n)\<rparr>) ov
            else ov\<lparr>ov_mod_node_props :=
                   bm_update i prop_mods_default (\<lambda>pm. pm\<lparr>pm_set := bm_insert k (Some v) (pm_set pm)\<rparr>) (ov_mod_node_props ov)\<rparr>))"

definition mg_set_edge_prop :: "u32 \<Rightarrow> string \<Rightarrow> val \<Rightarrow> mem_graph \<Rightarrow> mem_graph" where
  "mg_set_edge_prop i k v G =
     (let ov = mg_overlay G
      in with_overlay G
           (if ov_base_edge_count ov \<le> i
            then update_new_edge i (\<lambda>e. e\<lparr>oe_props := bm_insert k v (oe_props e)\<rparr>) ov
            else ov\<lparr>ov_mod_edge_props :=
                   bm_update i prop_mods_default (\<lambda>pm. pm\<lparr>pm_set := bm_insert k (Some v) (pm_set pm)\<rparr>) (ov_mod_edge_props ov)\<rparr>))"

definition replace_mods :: "props \<Rightarrow> prop_mods" where
  "replace_mods props = \<lparr>pm_cleared = True, pm_set = map (\<lambda>(k, v). (k, Some v)) props\<rparr>"

definition mg_replace_node_props :: "u32 \<Rightarrow> props \<Rightarrow> mem_graph \<Rightarrow> mem_graph" where
  "mg_replace_node_props i props G =
     (let ov = mg_overlay G
      in with_overlay G
           (if ov_base_node_count ov \<le> i then update_new_node i (\<lambda>n. n\<lparr>on_props := props\<rparr>) ov
            else ov\<lparr>ov_mod_node_props := bm_insert i (replace_mods props) (ov_mod_node_props ov)\<rparr>))"

definition mg_replace_edge_props :: "u32 \<Rightarrow> props \<Rightarrow> mem_graph \<Rightarrow> mem_graph" where
  "mg_replace_edge_props i props G =
     (let ov = mg_overlay G
      in with_overlay G
           (if ov_base_edge_count ov \<le> i then update_new_edge i (\<lambda>e. e\<lparr>oe_props := props\<rparr>) ov
            else ov\<lparr>ov_mod_edge_props := bm_insert i (replace_mods props) (ov_mod_edge_props ov)\<rparr>))"

definition mg_remove_node_prop :: "u32 \<Rightarrow> string \<Rightarrow> mem_graph \<Rightarrow> mem_graph" where
  "mg_remove_node_prop i k G =
     (let ov = mg_overlay G
      in with_overlay G
           (if ov_base_node_count ov \<le> i
            then update_new_node i (\<lambda>n. n\<lparr>on_props := bm_remove k (on_props n)\<rparr>) ov
            else ov\<lparr>ov_mod_node_props :=
                   bm_update i prop_mods_default (\<lambda>pm. pm\<lparr>pm_set := bm_insert k None (pm_set pm)\<rparr>) (ov_mod_node_props ov)\<rparr>))"

definition mg_remove_edge_prop :: "u32 \<Rightarrow> string \<Rightarrow> mem_graph \<Rightarrow> mem_graph" where
  "mg_remove_edge_prop i k G =
     (let ov = mg_overlay G
      in with_overlay G
           (if ov_base_edge_count ov \<le> i
            then update_new_edge i (\<lambda>e. e\<lparr>oe_props := bm_remove k (oe_props e)\<rparr>) ov
            else ov\<lparr>ov_mod_edge_props :=
                   bm_update i prop_mods_default (\<lambda>pm. pm\<lparr>pm_set := bm_insert k None (pm_set pm)\<rparr>) (ov_mod_edge_props ov)\<rparr>))"

definition mods_add_label :: "string \<Rightarrow> label_mods \<Rightarrow> label_mods" where
  "mods_add_label l lm =
     \<lparr>lm_added = List.insert l (lm_added lm), lm_removed = removeAll l (lm_removed lm)\<rparr>"

definition mods_remove_label :: "string \<Rightarrow> label_mods \<Rightarrow> label_mods" where
  "mods_remove_label l lm =
     \<lparr>lm_added = removeAll l (lm_added lm), lm_removed = List.insert l (lm_removed lm)\<rparr>"

definition mg_add_node_label :: "u32 \<Rightarrow> string \<Rightarrow> mem_graph \<Rightarrow> mem_graph" where
  "mg_add_node_label i l G =
     (let ov = mg_overlay G
      in with_overlay G
           (if ov_base_node_count ov \<le> i
            then update_new_node i (\<lambda>n. n\<lparr>on_labels := label_type_with_added (on_labels n) l\<rparr>) ov
            else ov\<lparr>ov_mod_node_labels := bm_update i label_mods_default (mods_add_label l) (ov_mod_node_labels ov)\<rparr>))"

definition mg_add_edge_label :: "u32 \<Rightarrow> string \<Rightarrow> mem_graph \<Rightarrow> mem_graph" where
  "mg_add_edge_label i l G =
     (let ov = mg_overlay G
      in with_overlay G
           (if ov_base_edge_count ov \<le> i
            then update_new_edge i (\<lambda>e. e\<lparr>oe_labels := label_type_with_added (oe_labels e) l\<rparr>) ov
            else ov\<lparr>ov_mod_edge_labels := bm_update i label_mods_default (mods_add_label l) (ov_mod_edge_labels ov)\<rparr>))"

definition mg_remove_node_label :: "u32 \<Rightarrow> string \<Rightarrow> mem_graph \<Rightarrow> mem_graph" where
  "mg_remove_node_label i l G =
     (let ov = mg_overlay G
      in with_overlay G
           (if ov_base_node_count ov \<le> i
            then update_new_node i (\<lambda>n. n\<lparr>on_labels := label_type_with_removed (on_labels n) l\<rparr>) ov
            else ov\<lparr>ov_mod_node_labels := bm_update i label_mods_default (mods_remove_label l) (ov_mod_node_labels ov)\<rparr>))"

definition mg_remove_edge_label :: "u32 \<Rightarrow> string \<Rightarrow> mem_graph \<Rightarrow> mem_graph" where
  "mg_remove_edge_label i l G =
     (let ov = mg_overlay G
      in with_overlay G
           (if ov_base_edge_count ov \<le> i
            then update_new_edge i (\<lambda>e. e\<lparr>oe_labels := label_type_with_removed (oe_labels e) l\<rparr>) ov
            else ov\<lparr>ov_mod_edge_labels := bm_update i label_mods_default (mods_remove_label l) (ov_mod_edge_labels ov)\<rparr>))"

end
