(* ===== verification/Evaluator.thy ===== *)
theory Evaluator
  imports PathSelect MemGraphs
begin

text \<open>
  Evaluation of path patterns (\<open>src/runtime/engine.rs\<close>, \<open>run_path_pattern\<close> and the
  evaluators it calls) over the graph interface of \<open>src/model/graph_access.rs\<close>. The
  evaluation of expressions, the worst-case-optimal join and the breadth-first search it
  tries first are fields of the runtime: the former as the test a filter makes of an
  assignment, the latter two as functions that may decline. The choice that iterating a
  hash set makes is a field too. The model is of runs whose budget does not expire.
  \<open>None\<close> is a panic, or a search that does not end. A loop that pushes rows and breaks at
  the limit is \<open>take_limit\<close> of the rows it would push.
\<close>

section \<open>The graph interface\<close>

record graph_access =
  ga_nodes :: "u32 list"
  ga_edges_directed :: "u32 list"
  ga_edges_undirected :: "u32 list"
  ga_node_labels :: "u32 \<Rightarrow> label_type"
  ga_edge_labels :: "u32 \<Rightarrow> label_type"
  ga_node_props :: "u32 \<Rightarrow> props"
  ga_edge_props :: "u32 \<Rightarrow> props"
  ga_src :: "u32 \<Rightarrow> u32"
  ga_tgt :: "u32 \<Rightarrow> u32"
  ga_nodes_with_label :: "string \<Rightarrow> u32 list option"
  ga_directed_with_label :: "string \<Rightarrow> u32 list option"
  ga_undirected_with_label :: "string \<Rightarrow> u32 list option"
  ga_outgoing :: "u32 \<Rightarrow> u32 list"
  ga_incoming :: "u32 \<Rightarrow> u32 list"
  ga_undirected_of :: "u32 \<Rightarrow> u32 list"
  ga_lookup_node_eq :: "string \<Rightarrow> string \<Rightarrow> val \<Rightarrow> u32 list option"

text \<open>The in-memory store; it has no secondary index.\<close>

definition mem_access :: "mem_graph \<Rightarrow> graph_access" where
  "mem_access G =
     \<lparr>ga_nodes = mg_nodes G, ga_edges_directed = mg_edges_directed G, ga_edges_undirected = mg_edges_undirected G,
      ga_node_labels = mg_node_label G, ga_edge_labels = mg_edge_label G,
      ga_node_props = mg_node_prop G, ga_edge_props = mg_edge_prop G, ga_src = mg_src G, ga_tgt = mg_tgt G,
      ga_nodes_with_label = mg_nodes_with_label G,
      ga_directed_with_label = (\<lambda>l. edges_with_label_dir G l True),
      ga_undirected_with_label = (\<lambda>l. edges_with_label_dir G l False),
      ga_outgoing = mg_outgoing_edges G, ga_incoming = mg_incoming_edges G,
      ga_undirected_of = mg_undirected_edges_of G, ga_lookup_node_eq = (\<lambda>_ _ _. None)\<rparr>"

datatype policy = Forbidden | PShortest nat bool | PMode path_mode

definition unbounded_policy_for :: "path_prefix option \<Rightarrow> policy" where
  "unbounded_policy_for pre =
     (case Option.bind pre unbounded_support of
        Some (SupportShortest n g) \<Rightarrow> PShortest n g
      | Some (SupportMode m) \<Rightarrow> PMode m
      | None \<Rightarrow> Forbidden)"

record 'e runtime =
  rt_graph :: graph_access
  rt_pins :: "(string \<times> u32 list) list"
  rt_seeded_off :: bool
  rt_anydir_off :: bool
  rt_try_ltj :: "'e path_pattern \<Rightarrow> nat \<Rightarrow> row list option"
  rt_try_ltj_mixed :: "'e path_pattern \<Rightarrow> nat \<Rightarrow> row list option"
  rt_try_bfs :: "path_prefix \<Rightarrow> 'e path_pattern \<Rightarrow> nat \<Rightarrow> row list option"
  rt_holds :: "assignment \<Rightarrow> 'e \<Rightarrow> bool"
  rt_first :: "string list \<Rightarrow> string"

definition path_edge_len :: "path \<Rightarrow> nat" where
  "path_edge_len p = length (filter is_edge p)"

definition last_edge_of :: "path \<Rightarrow> pvalue option" where
  "last_edge_of p = List.find is_edge (rev p)"

definition starts_in :: "row \<Rightarrow> u32 list \<Rightarrow> bool" where
  "starts_in r seeds = (case row_first r of Some f \<Rightarrow> f \<in> set seeds | None \<Rightarrow> False)"

definition take_limit :: "nat \<Rightarrow> 'a list \<Rightarrow> 'a list" where
  "take_limit limit xs = (if limit = 0 then xs else take limit xs)"

definition limit_reached :: "'a list \<Rightarrow> nat \<Rightarrow> bool" where
  "limit_reached rows limit \<longleftrightarrow> 0 < limit \<and> limit \<le> length rows"

section \<open>Nodes and edges\<close>

definition desc_filter :: "'e descriptor option \<Rightarrow> (descriptor_type \<times> value_pred list) option" where
  "desc_filter d = map_option (\<lambda>d. (d_type d, d_value_preds d)) d"

definition filter_node :: "graph_access \<Rightarrow> u32 \<Rightarrow> 'e descriptor option \<Rightarrow> bool" where
  "filter_node A i d = filter_element (ga_node_labels A i) (ga_node_props A i) (desc_filter d)"

definition filter_edge :: "graph_access \<Rightarrow> u32 \<Rightarrow> 'e descriptor option \<Rightarrow> bool" where
  "filter_edge A i d = filter_element (ga_edge_labels A i) (ga_edge_props A i) (desc_filter d)"

definition smallest_label_set :: "label_type \<Rightarrow> (string \<Rightarrow> u32 list option) \<Rightarrow> u32 list option" where
  "smallest_label_set label lookup =
     (let required = required_labels label
      in if required = [] then None
         else let found = List.map_filter lookup required
              in if found = [] then None else Some (arg_min_list length found))"

fun first_some :: "('a \<Rightarrow> 'b option) \<Rightarrow> 'a list \<Rightarrow> 'b option" where
  "first_some f [] = None"
| "first_some f (x # xs) = (case f x of Some y \<Rightarrow> Some y | None \<Rightarrow> first_some f xs)"

definition indexed_candidates :: "graph_access \<Rightarrow> 'e descriptor \<Rightarrow> u32 list option" where
  "indexed_candidates A d =
     (let labels = required_labels (dt_label (d_type d))
      in if labels = [] then None
         else first_some (\<lambda>(attr, op, v).
                if op \<noteq> Eq then None else first_some (\<lambda>l. ga_lookup_node_eq A l attr v) labels) (d_value_preds d))"

definition get_candidate_nodes :: "'e runtime \<Rightarrow> 'e descriptor option \<Rightarrow> u32 list" where
  "get_candidate_nodes rt desc =
     (let A = rt_graph rt in
      case desc of
        None \<Rightarrow> ga_nodes A
      | Some d \<Rightarrow>
          (case Option.bind (d_var d) (map_of (rt_pins rt)) of
             Some ids \<Rightarrow> ids
           | None \<Rightarrow>
               (case indexed_candidates A d of
                  Some ids \<Rightarrow> ids
                | None \<Rightarrow>
                    (case smallest_label_set (dt_label (d_type d)) (ga_nodes_with_label A) of
                       Some best \<Rightarrow> best
                     | None \<Rightarrow> ga_nodes A))))"

definition run_node_pattern :: "'e runtime \<Rightarrow> 'e descriptor option \<Rightarrow> nat \<Rightarrow> row list" where
  "run_node_pattern rt desc limit =
     take_limit limit
       (map (\<lambda>i. row_new [PNode i] (from_optional (desc_var desc) (PNode i)))
         (filter (\<lambda>i. filter_node (rt_graph rt) i desc) (get_candidate_nodes rt desc)))"

definition candidate_edges ::
    "'e descriptor option \<Rightarrow> (string \<Rightarrow> u32 list option) \<Rightarrow> u32 list \<Rightarrow> u32 list" where
  "candidate_edges desc lookup all_edges =
     (case desc of
        None \<Rightarrow> all_edges
      | Some d \<Rightarrow> (case smallest_label_set (dt_label (d_type d)) lookup of Some best \<Rightarrow> best | None \<Rightarrow> all_edges))"

definition edge_row :: "'e descriptor option \<Rightarrow> u32 \<Rightarrow> pvalue \<Rightarrow> u32 \<Rightarrow> row" where
  "edge_row desc a e b = row_new [PNode a, e, PNode b] (from_optional (desc_var desc) e)"

definition run_edge_directed :: "graph_access \<Rightarrow> 'e descriptor option \<Rightarrow> bool \<Rightarrow> row list" where
  "run_edge_directed A desc is_right =
     map (\<lambda>e. if is_right then edge_row desc (ga_src A e) (PEdgeDirectional e) (ga_tgt A e)
              else edge_row desc (ga_tgt A e) (PEdgeDirectional e) (ga_src A e))
       (filter (\<lambda>e. filter_edge A e desc) (candidate_edges desc (ga_directed_with_label A) (ga_edges_directed A)))"

definition run_edge_undirected :: "graph_access \<Rightarrow> 'e descriptor option \<Rightarrow> row list" where
  "run_edge_undirected A desc =
     concat (map (\<lambda>e. [edge_row desc (ga_src A e) (PEdgeUndirectional e) (ga_tgt A e),
                       edge_row desc (ga_tgt A e) (PEdgeUndirectional e) (ga_src A e)])
       (filter (\<lambda>e. filter_edge A e desc) (candidate_edges desc (ga_undirected_with_label A) (ga_edges_undirected A))))"

definition run_edge_any :: "graph_access \<Rightarrow> 'e descriptor option \<Rightarrow> row list" where
  "run_edge_any A desc = run_edge_directed A desc True @ run_edge_directed A desc False @ run_edge_undirected A desc"

section \<open>Concatenation by adjacency\<close>

text \<open>The rows that one left row gives with one edge: its last node, the edge, the other end.\<close>

definition step_row :: "'e descriptor option \<Rightarrow> row \<Rightarrow> u32 \<Rightarrow> pvalue \<Rightarrow> u32 \<Rightarrow> row option" where
  "step_row desc r n e m =
     (let mu = from_optional (desc_var desc) e
      in if can_unify (row_mu r) mu then Some (extend_path r [PNode n, e, PNode m] (unify (row_mu r) mu)) else None)"

definition concat_with_directed_edge ::
    "graph_access \<Rightarrow> row list \<Rightarrow> 'e descriptor option \<Rightarrow> bool \<Rightarrow> nat \<Rightarrow> row list" where
  "concat_with_directed_edge A ir desc is_right limit =
     take_limit limit (concat (map (\<lambda>r.
       case row_last r of
         None \<Rightarrow> []
       | Some n \<Rightarrow>
           List.map_filter
             (\<lambda>e. if \<not> filter_edge A e desc then None
                  else step_row desc r n (PEdgeDirectional e) (if is_right then ga_tgt A e else ga_src A e))
             (if is_right then ga_outgoing A n else ga_incoming A n)) ir))"

definition concat_with_undirected_edge ::
    "graph_access \<Rightarrow> row list \<Rightarrow> 'e descriptor option \<Rightarrow> nat \<Rightarrow> row list" where
  "concat_with_undirected_edge A ir desc limit =
     take_limit limit (concat (map (\<lambda>r.
       case row_last r of
         None \<Rightarrow> []
       | Some n \<Rightarrow>
           List.map_filter
             (\<lambda>e. if \<not> filter_edge A e desc then None
                  else step_row desc r n (PEdgeUndirectional e) (if ga_src A e = n then ga_tgt A e else ga_src A e))
             (ga_undirected_of A n)) ir))"

definition concat_with_any_edge :: "graph_access \<Rightarrow> row list \<Rightarrow> 'e descriptor option \<Rightarrow> nat \<Rightarrow> row list" where
  "concat_with_any_edge A ir desc limit =
     (let right = concat_with_directed_edge A ir desc True limit
      in if limit_reached right limit then right
         else
           let left = concat_with_directed_edge A ir desc False (limit - length right);
               combined = right @ left
           in if limit_reached combined limit then combined
              else combined @ concat_with_undirected_edge A ir desc (limit - length combined))"

definition concat_with_node :: "graph_access \<Rightarrow> row list \<Rightarrow> 'e descriptor option \<Rightarrow> nat \<Rightarrow> row list" where
  "concat_with_node A ir desc limit =
     take_limit limit (List.map_filter (\<lambda>r.
       case row_last r of
         None \<Rightarrow> None
       | Some n \<Rightarrow>
           if \<not> filter_node A n desc then None
           else
             let mu = from_optional (desc_var desc) (PNode n)
             in if can_unify (row_mu r) mu then Some (with_same_paths r (unify (row_mu r) mu)) else None) ir)"

definition apply_filter :: "'e runtime \<Rightarrow> row list \<Rightarrow> 'e \<Rightarrow> nat \<Rightarrow> row list" where
  "apply_filter rt ir expr limit = take_limit limit (filter (\<lambda>r. rt_holds rt (row_mu r) expr) ir)"

definition is_edge_pattern :: "'e path_pattern \<Rightarrow> bool" where
  "is_edge_pattern p =
     (case p of EdgeRight _ \<Rightarrow> True | EdgeLeft _ \<Rightarrow> True | EdgeUndirected _ \<Rightarrow> True | EdgeAnyDirection _ \<Rightarrow> True | _ \<Rightarrow> False)"

text \<open>One level of a repetition, without a limit; for the four edge patterns.\<close>

definition run_edge_step :: "graph_access \<Rightarrow> row list \<Rightarrow> 'e path_pattern \<Rightarrow> row list" where
  "run_edge_step A seeds p =
     (case p of
        EdgeRight d \<Rightarrow> concat_with_directed_edge A seeds d True 0
      | EdgeLeft d \<Rightarrow> concat_with_directed_edge A seeds d False 0
      | EdgeUndirected d \<Rightarrow> concat_with_undirected_edge A seeds d 0
      | EdgeAnyDirection d \<Rightarrow>
          concat_with_directed_edge A seeds d True 0 @ concat_with_directed_edge A seeds d False 0
          @ concat_with_undirected_edge A seeds d 0
      | _ \<Rightarrow> [])"

definition try_concat_with_filtered_edge ::
    "'e runtime \<Rightarrow> row list \<Rightarrow> 'e path_pattern \<Rightarrow> 'e \<Rightarrow> nat \<Rightarrow> row list option" where
  "try_concat_with_filtered_edge rt ir inner expr limit =
     (if is_edge_pattern inner then Some (apply_filter rt (run_edge_step (rt_graph rt) ir inner) expr limit) else None)"

section \<open>Joins\<close>

definition hash_join :: "row list \<Rightarrow> row list \<Rightarrow> nat \<Rightarrow> row list" where
  "hash_join ir1 ir2 limit =
     take_limit limit (concat (map (\<lambda>r1.
       case row_last r1 of
         None \<Rightarrow> []
       | Some l \<Rightarrow>
           map (\<lambda>r2. extend_path r1 (row_path r2) (unify (row_mu r1) (row_mu r2)))
             (filter (\<lambda>r2. can_unify (row_mu r1) (row_mu r2)) (filter (\<lambda>r2. row_first r2 = Some l) ir2))) ir1))"

definition join_rows :: "row \<Rightarrow> row \<Rightarrow> row" where
  "join_rows r1 r2 = row_join r1 r2 (unify (row_mu r1) (row_mu r2))"

definition pairwise_join :: "'e runtime \<Rightarrow> string list \<Rightarrow> row list \<Rightarrow> row list \<Rightarrow> nat \<Rightarrow> row list" where
  "pairwise_join rt shared_vars ir1 ir2 limit =
     take_limit limit
       (if shared_vars \<noteq> [] then
          let x = rt_first rt shared_vars
          in concat (map (\<lambda>r1.
               case as_get (row_mu r1) x of
                 None \<Rightarrow> []
               | Some v \<Rightarrow>
                   map (join_rows r1) (filter (\<lambda>r2. can_unify (row_mu r1) (row_mu r2))
                     (filter (\<lambda>r2. as_get (row_mu r2) x = Some v) ir2))) ir1)
        else concat (map (\<lambda>r1. map (join_rows r1) ir2) ir1))"

section \<open>Bounded repetition\<close>

definition zero_rows :: "graph_access \<Rightarrow> string list \<Rightarrow> row list" where
  "zero_rows A vars = map (\<lambda>i. row_new [PNode i] (fill_empty_list vars assignment_new)) (ga_nodes A)"

definition matches_of :: "row list \<Rightarrow> u32 \<Rightarrow> row list" where
  "matches_of grouped l = filter (\<lambda>r. row_first r = Some l) grouped"

definition next_level :: "row list \<Rightarrow> row list \<Rightarrow> row list" where
  "next_level grouped rs =
     concat (map (\<lambda>r. case row_last r of None \<Rightarrow> [] | Some l \<Rightarrow> map (row_concat_group r) (matches_of grouped l)) rs)"

text \<open>\<open>run_repetition_pattern\<close>: exactly \<open>n\<close> repetitions, given the rows of the inner pattern.\<close>

definition repetition_pattern :: "graph_access \<Rightarrow> string list \<Rightarrow> row list \<Rightarrow> nat \<Rightarrow> row list" where
  "repetition_pattern A vars inner n =
     (if n = 0 then zero_rows A vars
      else (next_level (rows_to_group inner) ^^ (n - 1)) (rows_to_group inner))"

fun levels_loop :: "row list \<Rightarrow> nat \<Rightarrow> nat \<Rightarrow> nat list \<Rightarrow> row list list \<Rightarrow> row list list" where
  "levels_loop grouped lb limit [] levels = levels"
| "levels_loop grouped lb limit (k # ks) levels =
     (if last levels = [] then levels
      else
        let levels = levels @ [next_level grouped (last levels)]
        in if 0 < limit \<and> limit \<le> length (concat levels) - length (concat (take (lb - 1) levels)) then levels
           else levels_loop grouped lb limit ks levels)"

text \<open>The inner pattern is evaluated only once it is needed.\<close>

definition repetition_range ::
    "graph_access \<Rightarrow> string list \<Rightarrow> row list option \<Rightarrow> nat \<Rightarrow> nat \<Rightarrow> nat \<Rightarrow> row list option" where
  "repetition_range A vars inner lb ub limit =
     (if ub < lb then Some []
      else
        let prefix_rows = (if lb = 0 then zero_rows A vars else [])
        in if ub = 0 then Some (take_limit limit prefix_rows)
           else if 0 < limit \<and> limit \<le> length prefix_rows then Some (take limit prefix_rows)
           else
             (case inner of
                None \<Rightarrow> None
              | Some rows \<Rightarrow>
                  let grouped = rows_to_group rows
                  in if grouped = [] then Some prefix_rows
                     else Some (take_limit limit
                       (prefix_rows @ concat (drop (lb - 1) (levels_loop grouped lb limit [2..<Suc ub] [grouped]))))))"

section \<open>Repetition of one edge from the left rows\<close>

definition strip_var :: "'e path_pattern \<Rightarrow> 'e path_pattern" where
  "strip_var p =
     (let f = map_option (\<lambda>d. d\<lparr>d_var := None\<rparr>)
      in case p of EdgeRight d \<Rightarrow> EdgeRight (f d) | EdgeLeft d \<Rightarrow> EdgeLeft (f d)
         | EdgeUndirected d \<Rightarrow> EdgeUndirected (f d) | EdgeAnyDirection d \<Rightarrow> EdgeAnyDirection (f d) | _ \<Rightarrow> p)"

definition push_group :: "string option \<Rightarrow> row \<Rightarrow> row" where
  "push_group var r =
     (case var of
        None \<Rightarrow> r
      | Some x \<Rightarrow>
          (case last_edge_of (row_path r) of
             None \<Rightarrow> r
           | Some e \<Rightarrow>
               let g = (case as_get (row_mu r) x of Some (PGroup g) \<Rightarrow> g @ [e] | _ \<Rightarrow> [e])
               in r\<lparr>row_mu := as_extend x (PGroup g) (row_mu r)\<rparr>))"

fun seeded_levels :: "graph_access \<Rightarrow> 'e path_pattern \<Rightarrow> string option \<Rightarrow> nat \<Rightarrow> nat \<Rightarrow> nat list \<Rightarrow> row list \<Rightarrow> row list \<Rightarrow> row list" where
  "seeded_levels A step_pat var lb limit [] frontier out = out"
| "seeded_levels A step_pat var lb limit (k # ks) frontier out =
     (let next_rows = map (push_group var) (run_edge_step A frontier step_pat);
          out = (if lb \<le> k then out @ next_rows else out)
      in if lb \<le> k \<and> 0 < limit \<and> limit \<le> length out then take limit out
         else if next_rows = [] then out
         else seeded_levels A step_pat var lb limit ks next_rows out)"

definition try_concat_with_edge_repetition ::
    "'e runtime \<Rightarrow> row list \<Rightarrow> 'e path_pattern \<Rightarrow> nat \<Rightarrow> nat option \<Rightarrow> nat \<Rightarrow> row list option" where
  "try_concat_with_edge_repetition rt ir edge_pat lb ub limit =
     (if rt_seeded_off rt then None
      else case ub of
        None \<Rightarrow> None
      | Some ub \<Rightarrow>
          if \<not> is_edge_pattern edge_pat then None
          else if ub < lb then Some []
          else
            let var = desc_var (descriptor_of edge_pat)
            in if (case var of None \<Rightarrow> False | Some x \<Rightarrow> list_ex (\<lambda>r. as_get (row_mu r) x \<noteq> None) ir) then None
               else
                 let out = (if lb = 0
                       then map (\<lambda>r. r\<lparr>row_mu := fill_empty_list (freevars edge_pat) (row_mu r)\<rparr>) ir else [])
                 in if lb = 0 \<and> 0 < limit \<and> limit \<le> length out then Some (take limit out)
                    else Some (seeded_levels (rt_graph rt) (strip_var edge_pat) var lb limit [1..<Suc ub] ir out))"

section \<open>Unbounded repetition under a restrictive mode\<close>

text \<open>The worklist is a stack: its head is the last entry pushed.\<close>

partial_function (option) mode_loop ::
    "row list \<Rightarrow> nat \<Rightarrow> path_mode \<Rightarrow> nat \<Rightarrow> (row \<times> nat) list \<Rightarrow> row list \<Rightarrow> row list option" where
  "mode_loop grouped lb mode limit work result =
     (case work of
        [] \<Rightarrow> Some result
      | (r, reps) # work \<Rightarrow>
          if 0 < limit \<and> limit \<le> length result then Some result
          else
            let news = (case row_last r of
                    None \<Rightarrow> []
                  | Some l \<Rightarrow> filter (\<lambda>r. path_satisfies_mode (row_path r) mode) (map (row_concat_group r) (matches_of grouped l)))
            in mode_loop grouped lb mode limit (rev (map (\<lambda>r. (r, Suc reps)) news) @ work)
                 (if lb \<le> Suc reps then result @ news else result))"

definition starts_in_seeds :: "u32 list option \<Rightarrow> row \<Rightarrow> bool" where
  "starts_in_seeds seeds r = (case seeds of None \<Rightarrow> True | Some s \<Rightarrow> starts_in r s)"

definition repetition_unbounded_mode ::
    "graph_access \<Rightarrow> string list \<Rightarrow> row list \<Rightarrow> nat \<Rightarrow> path_mode \<Rightarrow> nat \<Rightarrow> u32 list option \<Rightarrow> row list option" where
  "repetition_unbounded_mode A vars inner lb mode limit seeds =
     (let result = (if lb = 0 then filter (starts_in_seeds seeds) (repetition_pattern A vars inner 0) else []);
          grouped = rows_to_group inner
      in if grouped = [] then Some (take_limit limit result)
         else
           let level1 = filter (\<lambda>r. path_satisfies_mode (row_path r) mode) (filter (starts_in_seeds seeds) grouped)
           in map_option (take_limit limit)
                (mode_loop grouped lb mode limit (rev (map (\<lambda>r. (r, 1)) level1))
                   (if lb \<le> 1 then result @ level1 else result)))"

section \<open>Unbounded repetition by shortest paths\<close>

record shortest_entry =
  se_len :: nat
  se_seq :: nat
  se_reps :: nat
  se_row :: row

text \<open>
  The binary heap pops the least length, then the least sequence number, which is unique: it
  is the list of its entries in that order.
\<close>

fun heap_push :: "shortest_entry \<Rightarrow> shortest_entry list \<Rightarrow> shortest_entry list" where
  "heap_push e [] = [e]"
| "heap_push e (x # h) =
     (if se_len e < se_len x \<or> (se_len e = se_len x \<and> se_seq e < se_seq x) then e # x # h else x # heap_push e h)"

text \<open>The budgets of the pairs: how many rows were taken, or which lengths.\<close>

type_synonym budgets = "(u32 \<times> u32 \<Rightarrow> nat) \<times> (u32 \<times> u32 \<Rightarrow> nat list)"

definition admit :: "bool \<Rightarrow> nat \<Rightarrow> budgets \<Rightarrow> u32 \<times> u32 \<Rightarrow> nat \<Rightarrow> bool \<times> budgets" where
  "admit groups cnt b pair len =
     (let (taken, lens) = b
      in if groups then
           (if len \<in> set (lens pair) then (True, b)
            else if length (lens pair) < cnt then (True, (taken, lens(pair := lens pair @ [len])))
            else (False, b))
         else
           (if taken pair < cnt then (True, (taken(pair := Suc (taken pair)), lens)) else (False, b)))"

definition push_rows :: "nat \<Rightarrow> row list \<Rightarrow> nat \<times> shortest_entry list \<Rightarrow> nat \<times> shortest_entry list" where
  "push_rows reps rs h =
     fold (\<lambda>r (seq, h). (Suc seq, heap_push \<lparr>se_len = path_edge_len (row_path r), se_seq = seq, se_reps = reps, se_row = r\<rparr> h)) rs h"

partial_function (option) shortest_loop ::
    "row list \<Rightarrow> nat \<Rightarrow> nat \<Rightarrow> bool \<Rightarrow> nat \<Rightarrow> nat \<times> shortest_entry list \<Rightarrow> budgets \<Rightarrow> row list \<Rightarrow> row list option" where
  "shortest_loop grouped lb cnt groups limit q b result =
     (case snd q of
        [] \<Rightarrow> Some result
      | e # h \<Rightarrow>
          if 0 < limit \<and> limit \<le> length result then Some result
          else
            (case (row_first (se_row e), row_last (se_row e)) of
               (Some f, Some l) \<Rightarrow>
                 let (ok, b) = admit groups cnt b (f, l) (se_len e)
                 in if \<not> ok then shortest_loop grouped lb cnt groups limit (fst q, h) b result
                    else shortest_loop grouped lb cnt groups limit
                           (push_rows (Suc (se_reps e)) (map (row_concat_group (se_row e)) (matches_of grouped l)) (fst q, h)) b
                           (if lb \<le> se_reps e then result @ [se_row e] else result)
             | _ \<Rightarrow> shortest_loop grouped lb cnt groups limit (fst q, h) b result))"

definition admit_zero :: "bool \<Rightarrow> nat \<Rightarrow> row list \<Rightarrow> budgets \<Rightarrow> budgets" where
  "admit_zero groups cnt rs b =
     fold (\<lambda>r b. case row_first r of Some n \<Rightarrow> snd (admit groups cnt b (n, n) 0) | None \<Rightarrow> b) rs b"

definition repetition_shortest ::
    "graph_access \<Rightarrow> string list \<Rightarrow> row list \<Rightarrow> nat \<Rightarrow> nat \<Rightarrow> bool \<Rightarrow> nat \<Rightarrow> u32 list option \<Rightarrow> row list option" where
  "repetition_shortest A vars inner lb cnt groups limit seeds =
     (let result = (if lb = 0 then filter (starts_in_seeds seeds) (repetition_pattern A vars inner 0) else []);
          grouped = rows_to_group inner
      in if grouped = [] then Some (take_limit limit result)
         else
           let b = ((\<lambda>_. 0), (\<lambda>_. []));
               b = (if lb = 0 then admit_zero groups cnt result b else b)
           in map_option (take_limit limit)
                (shortest_loop grouped lb cnt groups limit
                   (push_rows 1 (filter (starts_in_seeds seeds) grouped) (0, [])) b result))"

definition unbounded_search ::
    "graph_access \<Rightarrow> policy \<Rightarrow> string list \<Rightarrow> row list \<Rightarrow> nat \<Rightarrow> nat \<Rightarrow> u32 list option \<Rightarrow> row list option" where
  "unbounded_search A pol vars inner lb limit seeds =
     (case pol of
        PShortest cnt groups \<Rightarrow> repetition_shortest A vars inner lb cnt groups limit seeds
      | PMode mode \<Rightarrow> repetition_unbounded_mode A vars inner lb mode limit seeds
      | Forbidden \<Rightarrow> None)"

section \<open>Path patterns\<close>

fun has_any_direction :: "'e path_pattern \<Rightarrow> bool" where
  "has_any_direction (EdgeAnyDirection _) = True"
| "has_any_direction (Concat p q) = (has_any_direction p \<or> has_any_direction q)"
| "has_any_direction (UnionP p q) = (has_any_direction p \<or> has_any_direction q)"
| "has_any_direction (Join p q) = (has_any_direction p \<or> has_any_direction q)"
| "has_any_direction (Filter p _) = has_any_direction p"
| "has_any_direction (Questioned p) = has_any_direction p"
| "has_any_direction (Repeat p _ _) = has_any_direction p"
| "has_any_direction (Selected _ p) = has_any_direction p"
| "has_any_direction (Named _ p) = has_any_direction p"
| "has_any_direction _ = False"

definition try_worst_case_optimal :: "'e runtime \<Rightarrow> 'e path_pattern \<Rightarrow> nat \<Rightarrow> row list option" where
  "try_worst_case_optimal rt p limit =
     (case rt_try_ltj rt p limit of
        Some rows \<Rightarrow> Some rows
      | None \<Rightarrow> if has_any_direction p \<and> \<not> rt_anydir_off rt then rt_try_ltj_mixed rt p limit else None)"

definition shared_vars :: "'e path_pattern \<Rightarrow> 'e path_pattern \<Rightarrow> string list" where
  "shared_vars p q = filter (\<lambda>x. x \<in> set (freevars q)) (freevars p)"

text \<open>The right operands that are evaluated from the left rows.\<close>

definition concat_seeded :: "'e runtime \<Rightarrow> row list \<Rightarrow> 'e path_pattern \<Rightarrow> nat \<Rightarrow> row list option" where
  "concat_seeded rt ir p2 limit =
     (case p2 of
        EdgeRight d \<Rightarrow> Some (concat_with_directed_edge (rt_graph rt) ir d True limit)
      | EdgeLeft d \<Rightarrow> Some (concat_with_directed_edge (rt_graph rt) ir d False limit)
      | EdgeUndirected d \<Rightarrow> Some (concat_with_undirected_edge (rt_graph rt) ir d limit)
      | EdgeAnyDirection d \<Rightarrow> Some (concat_with_any_edge (rt_graph rt) ir d limit)
      | NodeP d \<Rightarrow> Some (concat_with_node (rt_graph rt) ir d limit)
      | Filter inner expr \<Rightarrow> try_concat_with_filtered_edge rt ir inner expr limit
      | Repeat q lb ub \<Rightarrow> try_concat_with_edge_repetition rt ir q lb ub limit
      | _ \<Rightarrow> None)"

definition seeds_of :: "row list \<Rightarrow> u32 list" where
  "seeds_of ir = List.map_filter (\<lambda>r. row_last r) ir"

definition name_path :: "string \<Rightarrow> row \<Rightarrow> row" where
  "name_path x r = r\<lparr>row_mu := as_extend x (PPath (row_path r)) (row_mu r)\<rparr>"

fun run_path_pattern :: "'e runtime \<Rightarrow> policy \<Rightarrow> 'e path_pattern \<Rightarrow> nat \<Rightarrow> row list option" where
  "run_path_pattern rt pol (NodeP d) limit = Some (run_node_pattern rt d limit)"
| "run_path_pattern rt pol (EdgeRight d) limit = Some (run_edge_directed (rt_graph rt) d True)"
| "run_path_pattern rt pol (EdgeLeft d) limit = Some (run_edge_directed (rt_graph rt) d False)"
| "run_path_pattern rt pol (EdgeUndirected d) limit = Some (run_edge_undirected (rt_graph rt) d)"
| "run_path_pattern rt pol (EdgeAnyDirection d) limit = Some (run_edge_any (rt_graph rt) d)"
| "run_path_pattern rt pol (Concat p1 p2) limit =
     (case try_worst_case_optimal rt (Concat p1 p2) limit of
        Some rows \<Rightarrow> Some rows
      | None \<Rightarrow>
          (case run_path_pattern rt pol p1 0 of
             None \<Rightarrow> None
           | Some ir1 \<Rightarrow>
               (case concat_seeded rt ir1 p2 limit of
                  Some rows \<Rightarrow> Some rows
                | None \<Rightarrow>
                    (case (case p2 of
                             Repeat q lb ub \<Rightarrow>
                               if ub \<noteq> None \<or> rt_seeded_off rt \<or> pol = Forbidden then run_path_pattern rt pol p2 0
                               else
                                 (case run_path_pattern rt pol q 0 of
                                    None \<Rightarrow> None
                                  | Some inner \<Rightarrow>
                                      unbounded_search (rt_graph rt) pol (freevars q) inner lb 0 (Some (seeds_of ir1)))
                           | _ \<Rightarrow> run_path_pattern rt pol p2 0) of
                       None \<Rightarrow> None
                     | Some ir2 \<Rightarrow> Some (hash_join ir1 ir2 limit)))))"
| "run_path_pattern rt pol (UnionP p1 p2) limit =
     (case run_path_pattern rt pol p1 limit of
        None \<Rightarrow> None
      | Some ir1 \<Rightarrow>
          (case run_path_pattern rt pol p2 (limit - length ir1) of
             None \<Rightarrow> None
           | Some ir2 \<Rightarrow>
               Some (take_limit limit
                 (map (\<lambda>r. r\<lparr>row_mu := fill_nones (freevars (UnionP p1 p2)) (row_mu r)\<rparr>) (ir1 @ ir2)))))"
| "run_path_pattern rt pol (Filter p expr) limit =
     (case run_path_pattern rt pol p 0 of
        None \<Rightarrow> None
      | Some ir \<Rightarrow> Some (apply_filter rt ir expr limit))"
| "run_path_pattern rt pol (Repeat p lb ub) limit =
     (let inner = run_path_pattern rt pol p 0
      in case ub of
           Some ub \<Rightarrow> repetition_range (rt_graph rt) (freevars p) inner lb ub limit
         | None \<Rightarrow>
             (case inner of
                None \<Rightarrow> None
              | Some rows \<Rightarrow> unbounded_search (rt_graph rt) pol (freevars p) rows lb limit None))"
| "run_path_pattern rt pol (Questioned p) limit =
     (let ir_empty = run_node_pattern rt None limit
      in case run_path_pattern rt pol p (limit - length ir_empty) of
           None \<Rightarrow> None
         | Some ir \<Rightarrow> Some (ir_empty @ ir))"
| "run_path_pattern rt pol (Join p1 p2) limit =
     (case try_worst_case_optimal rt (Join p1 p2) limit of
        Some rows \<Rightarrow> Some rows
      | None \<Rightarrow>
          (case (run_path_pattern rt pol p1 0, run_path_pattern rt pol p2 0) of
             (Some ir1, Some ir2) \<Rightarrow> Some (pairwise_join rt (shared_vars p1 p2) ir1 ir2 limit)
           | _ \<Rightarrow> None))"
| "run_path_pattern rt pol (Selected pre p) limit =
     (case rt_try_bfs rt pre p limit of
        Some rows \<Rightarrow> Some rows
      | None \<Rightarrow>
          (case run_path_pattern rt (unbounded_policy_for (Some pre)) p 0 of
             None \<Rightarrow> None
           | Some ir \<Rightarrow> Some (take_limit limit (apply_path_prefix ir pre))))"
| "run_path_pattern rt pol (Named x p) limit =
     (case run_path_pattern rt pol p limit of
        None \<Rightarrow> None
      | Some ir \<Rightarrow> Some (map (name_path x) ir))"

end
