(* ===== verification/GraphViews.thy ===== *)
theory GraphViews
  imports MemGraphs
begin

text \<open>
  The invariant of the in-memory store, what its reads answer in terms of one abstract
  property graph, and that every mutation does to that graph what its name says. The
  abstract graph gives each live node its labels and properties, and each live edge also
  its ends and direction.
\<close>

section \<open>Identifiers\<close>

definition ids :: "nat \<Rightarrow> u32 list" where
  "ids n = map of_nat [0..<n]"

lemma unat_u32 [simp]: "i < 2 ^ 32 \<Longrightarrow> unat (of_nat i :: u32) = i"
  by (simp add: unsigned_of_nat take_bit_nat_eq_self)

lemma u32_less: "unat (w :: u32) < 2 ^ 32"
  using unsigned_less [where 'a = nat, of w] by simp

lemma ids_distinct: "n \<le> 2 ^ 32 \<Longrightarrow> distinct (ids n)"
proof -
  assume n: "n \<le> 2 ^ 32"
  have "inj_on (of_nat :: nat \<Rightarrow> u32) (set [0..<n])"
    by (rule inj_on_inverseI [of _ unat]) (use n in auto)
  then show ?thesis by (simp add: ids_def distinct_map)
qed

lemma set_ids: "n \<le> 2 ^ 32 \<Longrightarrow> set (ids n) = {i. unat i < n}"
proof (intro set_eqI iffI)
  fix i :: u32 assume n: "n \<le> 2 ^ 32"
  { assume "i \<in> set (ids n)"
    then obtain k where "i = of_nat k" "k < n" by (auto simp: ids_def)
    then show "i \<in> {i. unat i < n}" using n by simp }
  { assume "i \<in> {i. unat i < n}"
    then have "i = of_nat (unat i)" "unat i < n" by simp_all
    then show "i \<in> set (ids n)" unfolding ids_def by (metis atLeast_upt image_eqI lessThan_iff set_map) }
qed

lemma ids_add: "ids (m + n) = ids m @ map (\<lambda>i. of_nat m + of_nat i) [0..<n]"
proof -
  have "[0..<m + n] = [0..<m] @ [m..<m + n]" by (rule upt_add_eq_append) simp
  moreover have "[m..<m + n] = map (\<lambda>i. i + m) [0..<n]" using map_add_upt [of m n] by (simp add: add.commute)
  ultimately show ?thesis by (simp add: ids_def add.commute del: upt_add_eq_append)
qed

lemma base_ids_eq: "base_ids b = ids (unat b)"
  by (simp add: base_ids_def ids_def)

lemma overlay_ids_eq: "base_ids b @ overlay_ids b xs = ids (unat b + length xs)"
  by (simp add: base_ids_eq ids_add overlay_ids_def)

lemma nth_overlay_ids: "i < length xs \<Longrightarrow> overlay_ids b xs ! i = b + of_nat i"
  by (simp add: overlay_ids_def)

lemma length_overlay_ids [simp]: "length (overlay_ids b xs) = length xs"
  by (simp add: overlay_ids_def)

section \<open>The abstract graph\<close>

type_synonym content = "string set \<times> (string \<rightharpoonup> val)"

definition abs_nodes :: "mem_graph \<Rightarrow> u32 \<rightharpoonup> content" where
  "abs_nodes G i =
     (if mg_is_node_alive G i
      then Some (set (label_strings (mg_node_label G i)), map_of (mg_node_prop G i)) else None)"

definition abs_edges :: "mem_graph \<Rightarrow> u32 \<rightharpoonup> (u32 \<times> u32 \<times> bool) \<times> content" where
  "abs_edges G e =
     (if mg_is_edge_alive G e
      then Some ((mg_src G e, mg_tgt G e, mg_is_directed G e),
                 set (label_strings (mg_edge_label G e)), map_of (mg_edge_prop G e)) else None)"

section \<open>The invariant\<close>

abbreviation "ovl \<equiv> mg_overlay"

definition base_nodes :: "mem_graph \<Rightarrow> nat" where
  "base_nodes G = unat (ov_base_node_count (ovl G))"

definition base_edges :: "mem_graph \<Rightarrow> nat" where
  "base_edges G = unat (ov_base_edge_count (ovl G))"

definition all_nodes :: "mem_graph \<Rightarrow> nat" where
  "all_nodes G = base_nodes G + length (ov_new_nodes (ovl G))"

definition all_edges :: "mem_graph \<Rightarrow> nat" where
  "all_edges G = base_edges G + length (ov_new_edges (ovl G))"

definition columns_wf :: "mem_graph \<Rightarrow> bool" where
  "columns_wf G \<longleftrightarrow>
     length (mg_node_labels G) = base_nodes G \<and> length (mg_node_props G) = base_nodes G
     \<and> length (mg_edge_src G) = base_edges G \<and> length (mg_edge_tgt G) = base_edges G
     \<and> length (mg_edge_directed G) = base_edges G \<and> length (mg_edge_labels G) = base_edges G
     \<and> length (mg_edge_props G) = base_edges G
     \<and> list_all (\<lambda>lt. distinct (label_strings lt)) (mg_node_labels G)
     \<and> list_all (\<lambda>lt. distinct (label_strings lt)) (mg_edge_labels G)
     \<and> list_all bm_wf (mg_node_props G) \<and> list_all bm_wf (mg_edge_props G)
     \<and> list_all (\<lambda>n. unat n < base_nodes G) (mg_edge_src G)
     \<and> list_all (\<lambda>n. unat n < base_nodes G) (mg_edge_tgt G)"

definition occurrences :: "u32 \<Rightarrow> u32 list \<Rightarrow> u32 list \<Rightarrow> nat \<Rightarrow> u32 list" where
  "occurrences n srcs tgts i =
     (if srcs ! i = n then [of_nat i] else []) @ (if tgts ! i = n then [of_nat i] else [])"

definition index_wf :: "mem_graph \<Rightarrow> bool" where
  "index_wf G \<longleftrightarrow>
     (\<forall>l. adj_get (mg_label_to_nodes G) l =
        map of_nat (filter (\<lambda>i. l \<in> set (label_strings (mg_node_labels G ! i))) [0..<base_nodes G]))
     \<and> (\<forall>l. adj_get (mg_label_to_edges_d G) l =
        map of_nat (filter (\<lambda>i. mg_edge_directed G ! i \<and> l \<in> set (label_strings (mg_edge_labels G ! i))) [0..<base_edges G]))
     \<and> (\<forall>l. adj_get (mg_label_to_edges_u G) l =
        map of_nat (filter (\<lambda>i. \<not> mg_edge_directed G ! i \<and> l \<in> set (label_strings (mg_edge_labels G ! i))) [0..<base_edges G]))
     \<and> (\<forall>n. base_adj (mg_outgoing G) n =
        map of_nat (filter (\<lambda>i. mg_edge_directed G ! i \<and> mg_edge_src G ! i = n) [0..<base_edges G]))
     \<and> (\<forall>n. base_adj (mg_incoming G) n =
        map of_nat (filter (\<lambda>i. mg_edge_directed G ! i \<and> mg_edge_tgt G ! i = n) [0..<base_edges G]))
     \<and> (\<forall>n. base_adj (mg_undirected_adj G) n =
        concat (map (\<lambda>i. if mg_edge_directed G ! i then [] else occurrences n (mg_edge_src G) (mg_edge_tgt G) i)
          [0..<base_edges G]))"

text \<open>The ids of the new edges that satisfy a condition, deleted or not.\<close>

definition new_where :: "(overlay_edge \<Rightarrow> bool) \<Rightarrow> overlay \<Rightarrow> u32 list" where
  "new_where P ov =
     map fst (filter (\<lambda>(i, e). P e) (zip (overlay_ids (ov_base_edge_count ov) (ov_new_edges ov)) (ov_new_edges ov)))"

definition labels_ok :: "label_type \<Rightarrow> bool" where
  "labels_ok lt \<longleftrightarrow> distinct (label_strings lt) \<and> labels_from_strings (label_strings lt) = lt"

definition mods_ok :: "nat \<Rightarrow> (u32 \<times> prop_mods) list \<Rightarrow> (u32 \<times> label_mods) list \<Rightarrow> bool" where
  "mods_ok n pms lms \<longleftrightarrow>
     bm_wf pms \<and> list_all (\<lambda>(i, pm). unat i < n \<and> bm_wf (pm_set pm)) pms
     \<and> bm_wf lms \<and> list_all (\<lambda>(i, lm). unat i < n \<and> distinct (lm_added lm)
          \<and> set (lm_added lm) \<inter> set (lm_removed lm) = {}) lms"

definition overlay_wf :: "mem_graph \<Rightarrow> bool" where
  "overlay_wf G \<longleftrightarrow>
     (let ov = ovl G in
     all_nodes G < 2 ^ 32 \<and> all_edges G < 2 ^ 32
     \<and> distinct (ov_deleted_nodes ov) \<and> list_all (\<lambda>n. unat n < all_nodes G) (ov_deleted_nodes ov)
     \<and> distinct (ov_deleted_edges ov) \<and> list_all (\<lambda>e. unat e < all_edges G) (ov_deleted_edges ov)
     \<and> mods_ok (base_nodes G) (ov_mod_node_props ov) (ov_mod_node_labels ov)
     \<and> mods_ok (base_edges G) (ov_mod_edge_props ov) (ov_mod_edge_labels ov)
     \<and> list_all (\<lambda>n. labels_ok (on_labels n) \<and> bm_wf (on_props n)) (ov_new_nodes ov)
     \<and> list_all (\<lambda>e. labels_ok (oe_labels e) \<and> bm_wf (oe_props e)) (ov_new_edges ov)
     \<and> (\<forall>n. adj_get (ov_new_outgoing ov) n = new_where (\<lambda>e. oe_directed e \<and> oe_src e = n) ov)
     \<and> (\<forall>n. adj_get (ov_new_incoming ov) n = new_where (\<lambda>e. oe_directed e \<and> oe_tgt e = n) ov)
     \<and> (\<forall>n. adj_get (ov_new_undirected ov) n = new_where (\<lambda>e. \<not> oe_directed e \<and> (oe_src e = n \<or> oe_tgt e = n)) ov))"

text \<open>A live edge has live ends.\<close>

definition ends_alive :: "mem_graph \<Rightarrow> bool" where
  "ends_alive G \<longleftrightarrow>
     (\<forall>e. mg_is_edge_alive G e \<longrightarrow> mg_is_node_alive G (mg_src G e) \<and> mg_is_node_alive G (mg_tgt G e))"

definition graph_wf :: "mem_graph \<Rightarrow> bool" where
  "graph_wf G \<longleftrightarrow> columns_wf G \<and> index_wf G \<and> overlay_wf G \<and> ends_alive G"

section \<open>Reading by identifier\<close>

lemma node_alive_iff:
  "overlay_wf G \<Longrightarrow> mg_is_node_alive G i \<longleftrightarrow> unat i < all_nodes G \<and> i \<notin> set (ov_deleted_nodes (ovl G))"
  by (auto simp: mg_is_node_alive_def get_new_node_def vec_get_def is_node_deleted_def all_nodes_def
      base_nodes_def Let_def word_less_nat_alt unat_sub_if_size split: if_splits)

lemma edge_alive_iff:
  "overlay_wf G \<Longrightarrow> mg_is_edge_alive G e \<longleftrightarrow> unat e < all_edges G \<and> e \<notin> set (ov_deleted_edges (ovl G))"
  by (auto simp: mg_is_edge_alive_def get_new_edge_def vec_get_def is_edge_deleted_def all_edges_def
      base_edges_def Let_def word_less_nat_alt unat_sub_if_size split: if_splits)

lemma mg_nodes_eq: "mg_nodes G = filter (\<lambda>i. i \<notin> set (ov_deleted_nodes (ovl G))) (ids (all_nodes G))"
  unfolding mg_nodes_def all_nodes_def base_nodes_def overlay_ids_eq [symmetric]
  by (simp add: is_node_deleted_def Let_def)

lemma set_mg_nodes: "overlay_wf G \<Longrightarrow> set (mg_nodes G) = {i. mg_is_node_alive G i}"
  by (auto simp: mg_nodes_eq node_alive_iff set_ids overlay_wf_def Let_def)

lemma distinct_mg_nodes: "overlay_wf G \<Longrightarrow> distinct (mg_nodes G)"
  by (simp add: mg_nodes_eq ids_distinct overlay_wf_def Let_def)


lemma overlay_wf_bounds:
  assumes "overlay_wf G"
  shows "all_nodes G < 2 ^ 32" "all_edges G < 2 ^ 32" "base_nodes G < 2 ^ 32" "base_edges G < 2 ^ 32"
  using assms by (simp_all add: overlay_wf_def Let_def all_nodes_def all_edges_def)

lemma overlay_id_unat:
  "unat b + k < 2 ^ 32 \<Longrightarrow> unat (b + of_nat k :: u32) = unat b + k"
  by (simp add: unat_add_lem [THEN iffD1])

lemma get_new_edge_base: "i < base_edges G \<Longrightarrow> get_new_edge (of_nat i) (ovl G) = None"
proof -
  assume i: "i < base_edges G"
  then have "i < 2 ^ 32" using u32_less [of "ov_base_edge_count (ovl G)"] by (simp add: base_edges_def)
  then show ?thesis using i by (simp add: get_new_edge_def base_edges_def word_less_nat_alt)
qed

lemma get_new_edge_new:
  assumes "overlay_wf G" "k < length (ov_new_edges (ovl G))"
  shows "get_new_edge (ov_base_edge_count (ovl G) + of_nat k) (ovl G) = Some (ov_new_edges (ovl G) ! k)"
proof -
  have lt: "base_edges G + k < 2 ^ 32" using overlay_wf_bounds(2) [OF assms(1)] assms(2) by (simp add: all_edges_def)
  then have "unat (ov_base_edge_count (ovl G) + of_nat k) = base_edges G + k"
    by (simp add: base_edges_def overlay_id_unat)
  then show ?thesis
    using assms(2) lt by (simp add: get_new_edge_def word_less_nat_alt vec_get_def base_edges_def)
qed

lemma get_new_node_base: "i < base_nodes G \<Longrightarrow> get_new_node (of_nat i) (ovl G) = None"
proof -
  assume i: "i < base_nodes G"
  then have "i < 2 ^ 32" using u32_less [of "ov_base_node_count (ovl G)"] by (simp add: base_nodes_def)
  then show ?thesis using i by (simp add: get_new_node_def base_nodes_def word_less_nat_alt)
qed

lemma get_new_node_new:
  assumes "overlay_wf G" "k < length (ov_new_nodes (ovl G))"
  shows "get_new_node (ov_base_node_count (ovl G) + of_nat k) (ovl G) = Some (ov_new_nodes (ovl G) ! k)"
proof -
  have lt: "base_nodes G + k < 2 ^ 32" using overlay_wf_bounds(1) [OF assms(1)] assms(2) by (simp add: all_nodes_def)
  then have "unat (ov_base_node_count (ovl G) + of_nat k) = base_nodes G + k"
    by (simp add: base_nodes_def overlay_id_unat)
  then show ?thesis
    using assms(2) lt by (simp add: get_new_node_def word_less_nat_alt vec_get_def base_nodes_def)
qed

section \<open>The edge lists\<close>

lemma filter_edge_ids:
  "filter Q (ids (all_edges G)) =
     map of_nat (filter (\<lambda>i. Q (of_nat i)) [0..<base_edges G])
     @ map (\<lambda>k. ov_base_edge_count (ovl G) + of_nat k)
         (filter (\<lambda>k. Q (ov_base_edge_count (ovl G) + of_nat k)) [0..<length (ov_new_edges (ovl G))])"
proof -
  have "ids (all_edges G) = map of_nat [0..<base_edges G]
      @ map (\<lambda>k. ov_base_edge_count (ovl G) + of_nat k) [0..<length (ov_new_edges (ovl G))]"
    unfolding all_edges_def ids_add by (simp add: ids_def base_edges_def)
  then show ?thesis by (simp add: filter_map comp_def)
qed

lemma zip_overlay_ids:
  "zip (overlay_ids b xs) xs = map (\<lambda>k. (b + of_nat k, xs ! k)) [0..<length xs]"
  by (rule nth_equalityI) (simp_all add: nth_overlay_ids)

lemma new_where_eq:
  "new_where P ov =
     map (\<lambda>k. ov_base_edge_count ov + of_nat k) (filter (\<lambda>k. P (ov_new_edges ov ! k)) [0..<length (ov_new_edges ov)])"
  by (simp add: new_where_def zip_overlay_ids filter_map comp_def)

lemma new_edge_ids_eq:
  "new_edge_ids P ov = filter (\<lambda>e. e \<notin> set (ov_deleted_edges ov)) (new_where P ov)"
  by (simp add: new_edge_ids_def new_where_eq zip_overlay_ids filter_map comp_def is_edge_deleted_def conj_commute)

text \<open>A condition on edges that the columns and the new edges decide.\<close>

lemma filter_edges:
  assumes "overlay_wf G"
    and "\<And>i. i < base_edges G \<Longrightarrow> Q (of_nat i) \<longleftrightarrow> B i"
    and "\<And>k. k < length (ov_new_edges (ovl G)) \<Longrightarrow>
           Q (ov_base_edge_count (ovl G) + of_nat k) \<longleftrightarrow> P (ov_new_edges (ovl G) ! k)"
  shows "filter Q (ids (all_edges G)) = map of_nat (filter B [0..<base_edges G]) @ new_where P (ovl G)"
proof -
  have "filter (\<lambda>i. Q (of_nat i)) [0..<base_edges G] = filter B [0..<base_edges G]"
    "filter (\<lambda>k. Q (ov_base_edge_count (ovl G) + of_nat k)) [0..<length (ov_new_edges (ovl G))]
      = filter (\<lambda>k. P (ov_new_edges (ovl G) ! k)) [0..<length (ov_new_edges (ovl G))]"
    using assms(2,3) by (auto intro!: filter_cong)
  then show ?thesis unfolding filter_edge_ids new_where_eq by simp
qed

lemma edge_reads_base:
  assumes "i < base_edges G"
  shows "mg_src G (of_nat i) = mg_edge_src G ! i" "mg_tgt G (of_nat i) = mg_edge_tgt G ! i"
    "mg_is_directed G (of_nat i) = mg_edge_directed G ! i"
    "mg_edge_label G (of_nat i) = labels_from_strings (apply_label_mods (label_strings (mg_edge_labels G ! i))
       (map_of (ov_mod_edge_labels (ovl G)) (of_nat i)))"
    "mg_edge_prop G (of_nat i) = apply_prop_mods (mg_edge_props G ! i) (map_of (ov_mod_edge_props (ovl G)) (of_nat i))"
proof -
  have "i < 2 ^ 32" using assms u32_less [of "ov_base_edge_count (ovl G)"] by (simp add: base_edges_def)
  then show "mg_src G (of_nat i) = mg_edge_src G ! i" "mg_tgt G (of_nat i) = mg_edge_tgt G ! i"
    "mg_is_directed G (of_nat i) = mg_edge_directed G ! i"
    "mg_edge_label G (of_nat i) = labels_from_strings (apply_label_mods (label_strings (mg_edge_labels G ! i))
       (map_of (ov_mod_edge_labels (ovl G)) (of_nat i)))"
    "mg_edge_prop G (of_nat i) = apply_prop_mods (mg_edge_props G ! i) (map_of (ov_mod_edge_props (ovl G)) (of_nat i))"
    using get_new_edge_base [OF assms]
    by (simp_all add: mg_src_def mg_tgt_def mg_is_directed_def mg_edge_label_def mg_edge_prop_def)
qed

lemma edge_reads_new:
  assumes "overlay_wf G" "k < length (ov_new_edges (ovl G))"
  defines "e \<equiv> ov_base_edge_count (ovl G) + of_nat k" and "oe \<equiv> ov_new_edges (ovl G) ! k"
  shows "mg_src G e = oe_src oe" "mg_tgt G e = oe_tgt oe" "mg_is_directed G e = oe_directed oe"
    "mg_edge_label G e = oe_labels oe" "mg_edge_prop G e = oe_props oe"
  using get_new_edge_new [OF assms(1,2)]
  by (simp_all add: assms(3,4) mg_src_def mg_tgt_def mg_is_directed_def mg_edge_label_def mg_edge_prop_def)

abbreviation "edge_deleted G e \<equiv> e \<in> set (ov_deleted_edges (ovl G))"

lemma mg_edges_directed_eq:
  assumes "overlay_wf G"
  shows "mg_edges_directed G = filter (\<lambda>e. \<not> edge_deleted G e) (filter (mg_is_directed G) (ids (all_edges G)))"
proof -
  have "filter (mg_is_directed G) (ids (all_edges G))
      = map of_nat (filter (\<lambda>i. mg_edge_directed G ! i) [0..<base_edges G]) @ new_where oe_directed (ovl G)"
    using assms by (intro filter_edges) (simp_all add: edge_reads_base edge_reads_new)
  moreover have "filter (\<lambda>i. \<not> is_edge_deleted i (ovl G) \<and> mg_edge_directed G ! unat i) (base_ids (ov_base_edge_count (ovl G)))
      = filter (\<lambda>e. \<not> edge_deleted G e) (map of_nat (filter (\<lambda>i. mg_edge_directed G ! i) [0..<base_edges G]))"
    using overlay_wf_bounds(4) [OF assms]
    by (auto simp: base_ids_def base_edges_def filter_map comp_def is_edge_deleted_def intro!: arg_cong [of _ _ "map of_nat"] filter_cong)
  ultimately show ?thesis by (simp add: mg_edges_directed_def Let_def new_edge_ids_eq)
qed

lemma mg_edges_undirected_eq:
  assumes "overlay_wf G"
  shows "mg_edges_undirected G = filter (\<lambda>e. \<not> edge_deleted G e) (filter (\<lambda>e. \<not> mg_is_directed G e) (ids (all_edges G)))"
proof -
  have "filter (\<lambda>e. \<not> mg_is_directed G e) (ids (all_edges G))
      = map of_nat (filter (\<lambda>i. \<not> mg_edge_directed G ! i) [0..<base_edges G]) @ new_where (\<lambda>e. \<not> oe_directed e) (ovl G)"
    using assms by (intro filter_edges) (simp_all add: edge_reads_base edge_reads_new)
  moreover have "filter (\<lambda>i. \<not> is_edge_deleted i (ovl G) \<and> \<not> mg_edge_directed G ! unat i) (base_ids (ov_base_edge_count (ovl G)))
      = filter (\<lambda>e. \<not> edge_deleted G e) (map of_nat (filter (\<lambda>i. \<not> mg_edge_directed G ! i) [0..<base_edges G]))"
    using overlay_wf_bounds(4) [OF assms]
    by (auto simp: base_ids_def base_edges_def filter_map comp_def is_edge_deleted_def intro!: arg_cong [of _ _ "map of_nat"] filter_cong)
  ultimately show ?thesis by (simp add: mg_edges_undirected_def Let_def new_edge_ids_eq)
qed

lemma set_edges:
  assumes "overlay_wf G"
  shows "set (mg_edges_directed G) = {e. mg_is_edge_alive G e \<and> mg_is_directed G e}"
    "set (mg_edges_undirected G) = {e. mg_is_edge_alive G e \<and> \<not> mg_is_directed G e}"
    "distinct (mg_edges_directed G)" "distinct (mg_edges_undirected G)"
  using overlay_wf_bounds(2) [OF assms]
  by (auto simp: mg_edges_directed_eq mg_edges_undirected_eq edge_alive_iff set_ids ids_distinct assms)

section \<open>Adjacency\<close>

lemma adjacency_directed:
  assumes "graph_wf G"
  shows "mg_outgoing_edges G n = filter (\<lambda>e. mg_src G e = n) (mg_edges_directed G)"
    "mg_incoming_edges G n = filter (\<lambda>e. mg_tgt G e = n) (mg_edges_directed G)"
proof -
  have ov: "overlay_wf G" using assms by (simp add: graph_wf_def)
  have "filter (\<lambda>e. mg_is_directed G e \<and> mg_src G e = n) (ids (all_edges G))
      = map of_nat (filter (\<lambda>i. mg_edge_directed G ! i \<and> mg_edge_src G ! i = n) [0..<base_edges G])
        @ new_where (\<lambda>e. oe_directed e \<and> oe_src e = n) (ovl G)"
    using ov by (intro filter_edges) (simp_all add: edge_reads_base edge_reads_new)
  then have "base_adj (mg_outgoing G) n @ adj_get (ov_new_outgoing (ovl G)) n
      = filter (\<lambda>e. mg_is_directed G e \<and> mg_src G e = n) (ids (all_edges G))"
    using assms by (simp add: graph_wf_def index_wf_def overlay_wf_def Let_def)
  then show "mg_outgoing_edges G n = filter (\<lambda>e. mg_src G e = n) (mg_edges_directed G)"
    by (simp add: mg_outgoing_edges_def merged_adj_def mg_edges_directed_eq [OF ov] is_edge_deleted_def conj_ac del: filter_append)
  have "filter (\<lambda>e. mg_is_directed G e \<and> mg_tgt G e = n) (ids (all_edges G))
      = map of_nat (filter (\<lambda>i. mg_edge_directed G ! i \<and> mg_edge_tgt G ! i = n) [0..<base_edges G])
        @ new_where (\<lambda>e. oe_directed e \<and> oe_tgt e = n) (ovl G)"
    using ov by (intro filter_edges) (simp_all add: edge_reads_base edge_reads_new)
  then have "base_adj (mg_incoming G) n @ adj_get (ov_new_incoming (ovl G)) n
      = filter (\<lambda>e. mg_is_directed G e \<and> mg_tgt G e = n) (ids (all_edges G))"
    using assms by (simp add: graph_wf_def index_wf_def overlay_wf_def Let_def)
  then show "mg_incoming_edges G n = filter (\<lambda>e. mg_tgt G e = n) (mg_edges_directed G)"
    by (simp add: mg_incoming_edges_def merged_adj_def mg_edges_directed_eq [OF ov] is_edge_deleted_def conj_ac del: filter_append)
qed

end
