(* ===== verification/GraphIndexes.thy ===== *)
theory GraphIndexes
  imports GraphViews "HOL-Library.Multiset"
begin

text \<open>
  The undirected adjacency and the label indexes of the in-memory store against its edge and
  node lists, and what building a store from columns and mutating it do to the abstract graph.
\<close>

section \<open>Undirected adjacency\<close>

text \<open>How often an edge leaves a node: twice for a loop.\<close>

definition edge_ends :: "(u32 \<Rightarrow> u32) \<Rightarrow> (u32 \<Rightarrow> u32) \<Rightarrow> u32 \<Rightarrow> u32 \<Rightarrow> u32 list" where
  "edge_ends s t n e = (if s e = n then [e] else []) @ (if t e = n then [e] else [])"

text \<open>No undirected loop among the edges of the session.\<close>

definition no_new_loops :: "mem_graph \<Rightarrow> bool" where
  "no_new_loops G \<longleftrightarrow> list_all (\<lambda>e. oe_directed e \<or> oe_src e \<noteq> oe_tgt e) (ov_new_edges (ovl G))"

lemma filter_concat_self:
  "(\<And>x y. x \<in> set xs \<Longrightarrow> y \<in> set (f x) \<Longrightarrow> y = x) \<Longrightarrow>
   filter P (concat (map f xs)) = concat (map f (filter P xs))"
proof (induction xs)
  case (Cons x xs)
  have "filter P (f x) = (if P x then f x else [])"
    using Cons.prems [of x] by (auto intro: filter_True filter_False)
  then show ?case using Cons by simp
qed simp

lemma concat_map_if: "concat (map (\<lambda>x. if P x then [] else f x) xs) = concat (map f (filter (\<lambda>x. \<not> P x) xs))"
  by (induction xs) auto

lemma concat_map_singletons: "concat (map (\<lambda>x. if P x then [f x] else []) xs) = map f (filter P xs)"
  by (induction xs) auto

text \<open>
  The adjacency has an undirected edge once for each of its ends, but an undirected loop of the
  session once in all.
\<close>

definition listed_at :: "mem_graph \<Rightarrow> u32 \<Rightarrow> u32 \<Rightarrow> u32 list" where
  "listed_at G n e =
     (if ov_base_edge_count (ovl G) \<le> e \<and> mg_src G e = mg_tgt G e then (if mg_src G e = n then [e] else [])
      else edge_ends (mg_src G) (mg_tgt G) n e)"

lemma adjacency_listed:
  assumes "graph_wf G"
  shows "mg_undirected_edges_of G n = concat (map (listed_at G n) (mg_edges_undirected G))"
proof -
  have ov: "overlay_wf G" using assms by (simp add: graph_wf_def)
  let ?b = "ov_base_edge_count (ovl G)" and ?new = "ov_new_edges (ovl G)"
  let ?f = "\<lambda>e. if mg_is_directed G e then [] else listed_at G n e"
  have base: "\<not> ?b \<le> of_nat i" if "i < base_edges G" for i
    using that u32_less [of ?b] by (simp add: base_edges_def word_le_nat_alt unat_of_nat)
  have new: "?b \<le> ?b + of_nat k" if "k < length ?new" for k
    using that overlay_wf_bounds(2) [OF ov] by (simp add: word_le_nat_alt overlay_id_unat all_edges_def base_edges_def)
  have "ids (all_edges G) = map of_nat [0..<base_edges G] @ map (\<lambda>k. ?b + of_nat k) [0..<length ?new]"
    unfolding all_edges_def ids_add by (simp add: ids_def base_edges_def)
  then have "concat (map ?f (ids (all_edges G)))
      = concat (map (\<lambda>i. ?f (of_nat i)) [0..<base_edges G]) @ concat (map (\<lambda>k. ?f (?b + of_nat k)) [0..<length ?new])"
    by (simp add: comp_def)
  also have "concat (map (\<lambda>i. ?f (of_nat i)) [0..<base_edges G]) = base_adj (mg_undirected_adj G) n"
    using assms(1) base by (auto simp: graph_wf_def index_wf_def edge_reads_base listed_at_def edge_ends_def occurrences_def
        intro!: arg_cong [of _ _ concat] map_cong)
  also have "concat (map (\<lambda>k. ?f (?b + of_nat k)) [0..<length ?new])
      = concat (map (\<lambda>k. if \<not> oe_directed (?new ! k) \<and> (oe_src (?new ! k) = n \<or> oe_tgt (?new ! k) = n)
                          then [?b + of_nat k] else []) [0..<length ?new])"
    using edge_reads_new [OF ov] new
    by (auto simp: listed_at_def edge_ends_def intro!: arg_cong [of _ _ concat] map_cong)
  also have "\<dots> = adj_get (ov_new_undirected (ovl G)) n"
    using ov by (simp add: concat_map_singletons new_where_eq overlay_wf_def Let_def)
  finally have "base_adj (mg_undirected_adj G) n @ adj_get (ov_new_undirected (ovl G)) n
      = concat (map (listed_at G n) (filter (\<lambda>e. \<not> mg_is_directed G e) (ids (all_edges G))))"
    by (simp add: concat_map_if)
  moreover have "filter (\<lambda>e. \<not> edge_deleted G e) (concat (map (listed_at G n) xs))
      = concat (map (listed_at G n) (filter (\<lambda>e. \<not> edge_deleted G e) xs))" for xs
    by (rule filter_concat_self) (auto simp: listed_at_def edge_ends_def split: if_splits)
  ultimately show ?thesis
    by (simp add: mg_undirected_edges_of_def merged_adj_def mg_edges_undirected_eq [OF ov] is_edge_deleted_def
        del: filter_append)
qed

lemma adjacency_undirected:
  assumes "graph_wf G" "no_new_loops G"
  shows "mg_undirected_edges_of G n = concat (map (edge_ends (mg_src G) (mg_tgt G) n) (mg_edges_undirected G))"
proof -
  have ov: "overlay_wf G" using assms by (simp add: graph_wf_def)
  have "listed_at G n e = edge_ends (mg_src G) (mg_tgt G) n e" if "e \<in> set (mg_edges_undirected G)" for e
  proof (cases "ov_base_edge_count (ovl G) \<le> e")
    case True
    have e: "unat e < all_edges G" "\<not> mg_is_directed G e" using that set_edges(2) [OF ov] edge_alive_iff [OF ov, of e] by auto
    let ?k = "unat (e - ov_base_edge_count (ovl G))"
    have "?k < length (ov_new_edges (ovl G))" "e = ov_base_edge_count (ovl G) + of_nat ?k"
      using True e(1) by (simp_all add: all_edges_def base_edges_def unat_sub_if_size word_le_nat_alt)
    then show ?thesis using assms(2) e(2) edge_reads_new [OF ov, of ?k]
      by (auto simp: no_new_loops_def list_all_length listed_at_def)
  qed (simp add: listed_at_def)
  then show ?thesis unfolding adjacency_listed [OF assms(1)] by (intro arg_cong [of _ _ concat] map_cong) simp_all
qed

section \<open>Label indexes\<close>

lemma push_added_set:
  "set (push_added mods l ok out) = set out \<union> {i. \<exists>lm. (i, lm) \<in> set mods \<and> l \<in> set (lm_added lm) \<and> ok i}"
proof -
  have "set (fold (\<lambda>(i, lm) out. if l \<in> set (lm_added lm) \<and> ok i \<and> i \<notin> set out then out @ [i] else out) mods out)
    = set out \<union> {i. \<exists>lm. (i, lm) \<in> set mods \<and> l \<in> set (lm_added lm) \<and> ok i}"
    by (induction mods arbitrary: out) (auto split: if_splits)
  then show ?thesis by (simp add: push_added_def)
qed

lemma push_added_distinct: "distinct out \<Longrightarrow> distinct (push_added mods l ok out)"
  unfolding push_added_def by (induction mods arbitrary: out) auto

lemma labels_after_mods:
  assumes "mods_ok n pms lms" "distinct ls"
  shows "l \<in> set (apply_label_mods ls (map_of lms i)) \<longleftrightarrow>
    (l \<in> set ls \<and> \<not> removed_label lms l i) \<or> (\<exists>lm. map_of lms i = Some lm \<and> l \<in> set (lm_added lm))"
  by (cases "map_of lms i") (auto simp: set_apply_label_mods removed_label_def)

lemma of_nat_in_ids: "unat i < n \<Longrightarrow> of_nat (unat i) = (i :: u32)"
  by simp

lemma node_label_base:
  assumes "i < base_nodes G"
  shows "mg_node_label G (of_nat i) = labels_from_strings (apply_label_mods (label_strings (mg_node_labels G ! i))
       (map_of (ov_mod_node_labels (ovl G)) (of_nat i)))"
    "mg_node_prop G (of_nat i) = apply_prop_mods (mg_node_props G ! i) (map_of (ov_mod_node_props (ovl G)) (of_nat i))"
proof -
  have "i < 2 ^ 32" using assms u32_less [of "ov_base_node_count (ovl G)"] by (simp add: base_nodes_def)
  then show "mg_node_label G (of_nat i) = labels_from_strings (apply_label_mods (label_strings (mg_node_labels G ! i))
       (map_of (ov_mod_node_labels (ovl G)) (of_nat i)))"
    "mg_node_prop G (of_nat i) = apply_prop_mods (mg_node_props G ! i) (map_of (ov_mod_node_props (ovl G)) (of_nat i))"
    using get_new_node_base [OF assms] by (simp_all add: mg_node_label_def mg_node_prop_def)
qed


lemma node_label_new:
  assumes "overlay_wf G" "k < length (ov_new_nodes (ovl G))"
  shows "mg_node_label G (ov_base_node_count (ovl G) + of_nat k) = on_labels (ov_new_nodes (ovl G) ! k)"
    "mg_node_prop G (ov_base_node_count (ovl G) + of_nat k) = on_props (ov_new_nodes (ovl G) ! k)"
  using get_new_node_new [OF assms] by (simp_all add: mg_node_label_def mg_node_prop_def)

lemma id_cases:
  assumes "unat i < unat b + m" "unat b + m < 2 ^ 32"
  shows "unat i < unat b \<or> (\<exists>k < m. i = (b :: u32) + of_nat k)"
proof (cases "unat i < unat b")
  case False
  let ?k = "unat i - unat b"
  have k: "?k < m" "unat b + ?k = unat i" using False assms(1) by simp_all
  then have "unat (b + of_nat ?k) = unat i" using assms(2) by (subst overlay_id_unat) simp_all
  then show ?thesis using k(1) by (metis word_unat_eq_iff)
qed simp

text \<open>The ids of an index entry, for nodes and for edges of one direction.\<close>

lemma set_indexed: "i < 2 ^ 32 \<Longrightarrow> j < 2 ^ 32 \<Longrightarrow> (of_nat i = (of_nat j :: u32)) = (i = j)"
  by (metis unat_u32)

definition label_hits :: "mem_graph \<Rightarrow> string \<Rightarrow> u32 set" where
  "label_hits G l = {i. mg_is_node_alive G i \<and> l \<in> set (label_strings (mg_node_label G i))}"

lemma label_hits_split:
  assumes "overlay_wf G"
  shows "label_hits G l =
    {i. unat i < base_nodes G \<and> \<not> is_node_deleted i (ovl G)
        \<and> l \<in> set (apply_label_mods (label_strings (mg_node_labels G ! unat i)) (map_of (ov_mod_node_labels (ovl G)) i))}
    \<union> {i. \<exists>k < length (ov_new_nodes (ovl G)). i = ov_base_node_count (ovl G) + of_nat k
        \<and> \<not> is_node_deleted i (ovl G) \<and> l \<in> set (label_strings (on_labels (ov_new_nodes (ovl G) ! k)))}"
    (is "_ = ?B \<union> ?N")
proof (intro equalityI subsetI)
  fix i assume "i \<in> label_hits G l"
  then have i: "unat i < all_nodes G" "\<not> is_node_deleted i (ovl G)" "l \<in> set (label_strings (mg_node_label G i))"
    using assms by (auto simp: label_hits_def node_alive_iff is_node_deleted_def)
  then consider "unat i < base_nodes G" | k where "k < length (ov_new_nodes (ovl G))" "i = ov_base_node_count (ovl G) + of_nat k"
    using id_cases [of i "ov_base_node_count (ovl G)" "length (ov_new_nodes (ovl G))"] overlay_wf_bounds(1) [OF assms]
    by (auto simp: all_nodes_def base_nodes_def)
  then show "i \<in> ?B \<union> ?N"
  proof cases
    case 1
    then show ?thesis using i(2,3) node_label_base(1) [of "unat i" G] by simp
  next
    case 2
    then show ?thesis using i(2,3) node_label_new(1) [OF assms] by auto
  qed
next
  fix i assume "i \<in> ?B \<union> ?N"
  then show "i \<in> label_hits G l"
  proof
    assume "i \<in> ?B"
    then show ?thesis using node_label_base(1) [of "unat i" G] assms
      by (simp add: label_hits_def node_alive_iff is_node_deleted_def all_nodes_def)
  next
    assume "i \<in> ?N"
    then obtain k where k: "k < length (ov_new_nodes (ovl G))" "i = ov_base_node_count (ovl G) + of_nat k"
      "\<not> is_node_deleted i (ovl G)" "l \<in> set (label_strings (on_labels (ov_new_nodes (ovl G) ! k)))" by blast
    then have "unat i = base_nodes G + k"
      using overlay_wf_bounds(1) [OF assms] by (simp add: overlay_id_unat all_nodes_def base_nodes_def)
    then show ?thesis using k node_label_new(1) [OF assms k(1)] assms
      by (simp add: label_hits_def node_alive_iff is_node_deleted_def all_nodes_def)
  qed
qed

lemma mods_lookup:
  "mods_ok n pms lms \<Longrightarrow> (\<exists>lm. (i, lm) \<in> set lms \<and> l \<in> set (lm_added lm) \<and> P)
     \<longleftrightarrow> unat i < n \<and> (\<exists>lm. map_of lms i = Some lm \<and> l \<in> set (lm_added lm)) \<and> P"
  by (auto simp: mods_ok_def list_all_iff bm_wf_lookup)

lemma nodes_with_label_out:
  fixes G l
  assumes "graph_wf G"
  defines "out \<equiv> push_added (ov_mod_node_labels (ovl G)) l (\<lambda>i. \<not> is_node_deleted i (ovl G))
    (filter (\<lambda>i. \<not> is_node_deleted i (ovl G) \<and> \<not> removed_label (ov_mod_node_labels (ovl G)) l i) (adj_get (mg_label_to_nodes G) l))"
  shows "distinct out" and "set out = {i. unat i < base_nodes G \<and> \<not> is_node_deleted i (ovl G)
        \<and> l \<in> set (apply_label_mods (label_strings (mg_node_labels G ! unat i)) (map_of (ov_mod_node_labels (ovl G)) i))}"
proof -
  have wf: "columns_wf G" "index_wf G" "overlay_wf G" using assms(1) by (simp_all add: graph_wf_def)
  have mods: "mods_ok (base_nodes G) (ov_mod_node_props (ovl G)) (ov_mod_node_labels (ovl G))"
    using wf(3) by (simp add: overlay_wf_def Let_def)
  have idx: "adj_get (mg_label_to_nodes G) l
      = filter (\<lambda>i. l \<in> set (label_strings (mg_node_labels G ! unat i))) (ids (base_nodes G))"
    using wf(2) overlay_wf_bounds(3) [OF wf(3)]
    by (auto simp: index_wf_def ids_def filter_map comp_def intro!: arg_cong [of _ _ "map of_nat"] filter_cong)
  show "distinct out"
    using overlay_wf_bounds(3) [OF wf(3)] by (simp add: out_def idx push_added_distinct ids_distinct)
  have dl: "unat i < base_nodes G \<Longrightarrow> distinct (label_strings (mg_node_labels G ! unat i))" for i :: u32
    using wf(1) by (simp add: columns_wf_def list_all_length)
  show "set out = {i. unat i < base_nodes G \<and> \<not> is_node_deleted i (ovl G)
        \<and> l \<in> set (apply_label_mods (label_strings (mg_node_labels G ! unat i)) (map_of (ov_mod_node_labels (ovl G)) i))}"
    using overlay_wf_bounds(3) [OF wf(3)] mods_lookup [OF mods, of _ l] labels_after_mods [OF mods dl, of _ l]
    by (auto simp: out_def push_added_set idx set_ids)
qed


text \<open>
  The answer of a label index: every live node with the label once; no answer only when
  there is no such node.
\<close>

lemma nodes_with_label_spec:
  assumes "graph_wf G"
  shows "case mg_nodes_with_label G l of
      Some v \<Rightarrow> distinct v \<and> set v = label_hits G l
    | None \<Rightarrow> label_hits G l = {}"
proof -
  let ?ov = "ovl G"
  have ov: "overlay_wf G" using assms by (simp add: graph_wf_def)
  define out where "out = push_added (ov_mod_node_labels ?ov) l (\<lambda>i. \<not> is_node_deleted i ?ov)
    (filter (\<lambda>i. \<not> is_node_deleted i ?ov \<and> \<not> removed_label (ov_mod_node_labels ?ov) l i) (adj_get (mg_label_to_nodes G) l))"
  define new where "new = map fst (filter (\<lambda>(i, n). \<not> is_node_deleted i ?ov \<and> l \<in> set (label_strings (on_labels n)))
    (zip (overlay_ids (ov_base_node_count ?ov) (ov_new_nodes ?ov)) (ov_new_nodes ?ov)))"
  have new_eq: "new = map (\<lambda>k. ov_base_node_count ?ov + of_nat k)
    (filter (\<lambda>k. \<not> is_node_deleted (ov_base_node_count ?ov + of_nat k) ?ov
       \<and> l \<in> set (label_strings (on_labels (ov_new_nodes ?ov ! k)))) [0..<length (ov_new_nodes ?ov)])"
    by (simp add: new_def zip_overlay_ids filter_map comp_def)
  have unat_new: "unat (ov_base_node_count ?ov + of_nat k) = base_nodes G + k" if "k < length (ov_new_nodes ?ov)" for k
    using that overlay_wf_bounds(1) [OF ov] by (simp add: overlay_id_unat all_nodes_def base_nodes_def)
  have "inj_on (\<lambda>k. ov_base_node_count ?ov + of_nat k) {0..<length (ov_new_nodes ?ov)}"
    using unat_new by (intro inj_on_inverseI [of _ "\<lambda>i. unat i - base_nodes G"]) simp
  then have dnew: "distinct new" unfolding new_eq distinct_map by (auto intro: inj_on_subset)
  have snew: "set new = {i. \<exists>k < length (ov_new_nodes ?ov). i = ov_base_node_count ?ov + of_nat k
        \<and> \<not> is_node_deleted i ?ov \<and> l \<in> set (label_strings (on_labels (ov_new_nodes ?ov ! k)))}"
    by (auto simp: new_eq)
  note o = nodes_with_label_out [OF assms, of l, folded out_def]
  have "set out \<inter> set new = {}" using unat_new by (auto simp: o(2) snew)
  then have all: "distinct (out @ new)" "set (out @ new) = label_hits G l"
    using o dnew snew label_hits_split [OF ov, of l] by auto
  show ?thesis
  proof (cases "ov_new_nodes ?ov = [] \<and> ov_deleted_nodes ?ov = [] \<and> ov_mod_node_labels ?ov = []")
    case True
    then have "out @ new = adj_get (mg_label_to_nodes G) l"
      by (simp add: out_def new_def push_added_def removed_label_def is_node_deleted_def)
    then show ?thesis
      using all True by (auto simp: mg_nodes_with_label_def adj_get_def Let_def split: option.splits)
  next
    case False
    have "mg_nodes_with_label G l = (if map_of (mg_label_to_nodes G) l \<noteq> None \<or> out @ new \<noteq> [] then Some (out @ new) else None)"
      using False
      by (cases "map_of (mg_label_to_nodes G) l")
        (auto simp: mg_nodes_with_label_def Let_def out_def new_def adj_get_def filter_empty_conv split: option.splits)
    then show ?thesis using all by auto
  qed
qed


definition edge_hits :: "mem_graph \<Rightarrow> string \<Rightarrow> bool \<Rightarrow> u32 set" where
  "edge_hits G l want =
     {e. mg_is_edge_alive G e \<and> mg_is_directed G e = want \<and> l \<in> set (label_strings (mg_edge_label G e))}"

lemma edges_with_label_spec:
  assumes "graph_wf G"
  shows "case edges_with_label_dir G l want of
      Some v \<Rightarrow> distinct v \<and> set v = edge_hits G l want
    | None \<Rightarrow> edge_hits G l want = {}"
proof -
  let ?ov = "ovl G"
  let ?idx = "adj_get (if want then mg_label_to_edges_d G else mg_label_to_edges_u G) l"
  have wf: "columns_wf G" "index_wf G" "overlay_wf G" using assms by (simp_all add: graph_wf_def)
  note ov = wf(3)
  have mods: "mods_ok (base_edges G) (ov_mod_edge_props ?ov) (ov_mod_edge_labels ?ov)"
    using ov by (simp add: overlay_wf_def Let_def)
  have idx: "?idx = filter (\<lambda>e. mg_edge_directed G ! unat e = want \<and> l \<in> set (label_strings (mg_edge_labels G ! unat e)))
      (ids (base_edges G))"
    using wf(2) overlay_wf_bounds(4) [OF ov]
    by (auto simp: index_wf_def ids_def filter_map comp_def intro!: arg_cong [of _ _ "map of_nat"] filter_cong)
  have dl: "unat e < base_edges G \<Longrightarrow> distinct (label_strings (mg_edge_labels G ! unat e))" for e :: u32
    using wf(1) by (simp add: columns_wf_def list_all_length)
  define out where "out = push_added (ov_mod_edge_labels ?ov) l
      (\<lambda>i. unat i < length (mg_edge_directed G) \<and> mg_edge_directed G ! unat i = want \<and> \<not> is_edge_deleted i ?ov)
      (filter (\<lambda>i. \<not> is_edge_deleted i ?ov \<and> \<not> removed_label (ov_mod_edge_labels ?ov) l i) ?idx)"
  define new where "new = new_edge_ids (\<lambda>e. oe_directed e = want \<and> l \<in> set (label_strings (oe_labels e))) ?ov"
  have base: "mg_is_directed G e = mg_edge_directed G ! unat e"
      "mg_edge_label G e = labels_from_strings (apply_label_mods (label_strings (mg_edge_labels G ! unat e)) (map_of (ov_mod_edge_labels ?ov) e))"
    if "unat e < base_edges G" for e
    using edge_reads_base(3,4) [OF that] by simp_all
  have lenD: "length (mg_edge_directed G) = base_edges G" using wf(1) by (simp add: columns_wf_def)
  have hit: "e \<in> edge_hits G l want \<longleftrightarrow> \<not> is_edge_deleted e ?ov \<and> mg_edge_directed G ! unat e = want
      \<and> ((l \<in> set (label_strings (mg_edge_labels G ! unat e)) \<and> \<not> removed_label (ov_mod_edge_labels ?ov) l e)
         \<or> (\<exists>lm. map_of (ov_mod_edge_labels ?ov) e = Some lm \<and> l \<in> set (lm_added lm)))"
    if "unat e < base_edges G" for e
    using that labels_after_mods [OF mods dl [OF that], of l e]
    by (simp add: edge_hits_def edge_alive_iff [OF ov] is_edge_deleted_def base all_edges_def)
  have mem: "e \<in> set out \<longleftrightarrow> unat e < base_edges G \<and> \<not> is_edge_deleted e ?ov \<and> mg_edge_directed G ! unat e = want
      \<and> ((l \<in> set (label_strings (mg_edge_labels G ! unat e)) \<and> \<not> removed_label (ov_mod_edge_labels ?ov) l e)
         \<or> (\<exists>lm. map_of (ov_mod_edge_labels ?ov) e = Some lm \<and> l \<in> set (lm_added lm)))" for e
    using overlay_wf_bounds(4) [OF ov] mods_lookup [OF mods, of e l]
    by (auto simp: out_def push_added_set idx set_ids lenD)
  have "set out = {e. unat e < base_edges G \<and> e \<in> edge_hits G l want}"
    using mem hit by blast
  moreover have "distinct out"
    using overlay_wf_bounds(4) [OF ov] by (simp add: out_def idx push_added_distinct ids_distinct)
  moreover have "filter (\<lambda>e. base_edges G \<le> unat e \<and> mg_is_directed G e = want \<and> l \<in> set (label_strings (mg_edge_label G e)))
        (ids (all_edges G))
      = map of_nat (filter (\<lambda>_. False) [0..<base_edges G])
        @ new_where (\<lambda>e. oe_directed e = want \<and> l \<in> set (label_strings (oe_labels e))) ?ov"
  proof (rule filter_edges [OF ov])
    fix i assume i: "i < base_edges G"
    then have "unat (of_nat i :: u32) = i" using overlay_wf_bounds(4) [OF ov] by simp
    then show "(base_edges G \<le> unat (of_nat i :: u32) \<and> mg_is_directed G (of_nat i) = want
        \<and> l \<in> set (label_strings (mg_edge_label G (of_nat i)))) = False" using i by simp
  next
    fix k assume k: "k < length (ov_new_edges ?ov)"
    then have "unat (ov_base_edge_count ?ov + of_nat k) = base_edges G + k"
      using overlay_wf_bounds(2) [OF ov] by (simp add: overlay_id_unat all_edges_def base_edges_def)
    then show "(base_edges G \<le> unat (ov_base_edge_count ?ov + of_nat k)
        \<and> mg_is_directed G (ov_base_edge_count ?ov + of_nat k) = want
        \<and> l \<in> set (label_strings (mg_edge_label G (ov_base_edge_count ?ov + of_nat k))))
      = (oe_directed (ov_new_edges ?ov ! k) = want \<and> l \<in> set (label_strings (oe_labels (ov_new_edges ?ov ! k))))"
      using edge_reads_new [OF ov k] by simp
  qed
  then have "new = filter (\<lambda>e. \<not> edge_deleted G e) (filter (\<lambda>e. base_edges G \<le> unat e \<and> mg_is_directed G e = want
      \<and> l \<in> set (label_strings (mg_edge_label G e))) (ids (all_edges G)))"
    by (simp add: new_def new_edge_ids_eq)
  then have "distinct new" "set new = {e. base_edges G \<le> unat e \<and> e \<in> edge_hits G l want}"
    using overlay_wf_bounds(2) [OF ov] by (auto simp: ids_distinct set_ids edge_hits_def edge_alive_iff [OF ov])
  ultimately have all: "distinct (out @ new)" "set (out @ new) = edge_hits G l want" by auto
  show ?thesis
  proof (cases "ov_new_edges ?ov = [] \<and> ov_deleted_edges ?ov = [] \<and> ov_mod_edge_labels ?ov = []")
    case True
    then have "out @ new = ?idx"
      by (simp add: out_def new_def new_edge_ids_def push_added_def removed_label_def is_edge_deleted_def)
    then show ?thesis
      using all True by (auto simp: edges_with_label_dir_def adj_get_def Let_def split: option.splits)
  next
    case False
    have "edges_with_label_dir G l want
        = (if map_of (if want then mg_label_to_edges_d G else mg_label_to_edges_u G) l \<noteq> None \<or> out @ new \<noteq> []
           then Some (out @ new) else None)"
      using False
      by (cases "map_of (if want then mg_label_to_edges_d G else mg_label_to_edges_u G) l")
        (auto simp: edges_with_label_dir_def Let_def out_def new_def adj_get_def)
    then show ?thesis using all by auto
  qed
qed

end
