(* ===== verification/GraphMutations.thy ===== *)
theory GraphMutations
  imports GraphIndexes
begin

text \<open>
  What every mutation of the in-memory store does to the abstract graph, and that it keeps
  the invariant: a refinement of one small specification by the overlay's bookkeeping.
\<close>

section \<open>The specification\<close>

type_synonym agraph = "(u32 \<rightharpoonup> content) \<times> (u32 \<rightharpoonup> (u32 \<times> u32 \<times> bool) \<times> content)"

definition abs_graph :: "mem_graph \<Rightarrow> agraph" where
  "abs_graph G = (abs_nodes G, abs_edges G)"

datatype mutation =
    InsertNode label_type props
  | InsertEdge u32 u32 bool label_type props
  | DeleteEdge u32
  | DetachDeleteNode u32
  | DeleteNode u32
  | SetNodeProp u32 string val
  | SetEdgeProp u32 string val
  | ReplaceNodeProps u32 props
  | ReplaceEdgeProps u32 props
  | RemoveNodeProp u32 string
  | RemoveEdgeProp u32 string
  | AddNodeLabel u32 string
  | AddEdgeLabel u32 string
  | RemoveNodeLabel u32 string
  | RemoveEdgeLabel u32 string

definition apply_mutation :: "mutation \<Rightarrow> mem_graph \<Rightarrow> mem_graph" where
  "apply_mutation m G =
     (case m of
        InsertNode lt ps \<Rightarrow> snd (mg_insert_node lt ps G)
      | InsertEdge s t d lt ps \<Rightarrow> snd (mg_insert_edge s t d lt ps G)
      | DeleteEdge e \<Rightarrow> mg_delete_edge e G
      | DetachDeleteNode n \<Rightarrow> mg_detach_delete_node n G
      | DeleteNode n \<Rightarrow> snd (mg_delete_node_no_detach n G)
      | SetNodeProp n k v \<Rightarrow> mg_set_node_prop n k v G
      | SetEdgeProp e k v \<Rightarrow> mg_set_edge_prop e k v G
      | ReplaceNodeProps n ps \<Rightarrow> mg_replace_node_props n ps G
      | ReplaceEdgeProps e ps \<Rightarrow> mg_replace_edge_props e ps G
      | RemoveNodeProp n k \<Rightarrow> mg_remove_node_prop n k G
      | RemoveEdgeProp e k \<Rightarrow> mg_remove_edge_prop e k G
      | AddNodeLabel n l \<Rightarrow> mg_add_node_label n l G
      | AddEdgeLabel e l \<Rightarrow> mg_add_edge_label e l G
      | RemoveNodeLabel n l \<Rightarrow> mg_remove_node_label n l G
      | RemoveEdgeLabel e l \<Rightarrow> mg_remove_edge_label e l G)"

definition change :: "'k \<Rightarrow> ('v \<Rightarrow> 'v) \<Rightarrow> ('k \<rightharpoonup> 'v) \<Rightarrow> ('k \<rightharpoonup> 'v)" where
  "change k f m = m(k := map_option f (m k))"

definition on_props_of :: "((string \<rightharpoonup> val) \<Rightarrow> string \<rightharpoonup> val) \<Rightarrow> content \<Rightarrow> content" where
  "on_props_of f c = (fst c, f (snd c))"

definition on_labels_of :: "(string set \<Rightarrow> string set) \<Rightarrow> content \<Rightarrow> content" where
  "on_labels_of f c = (f (fst c), snd c)"

definition incident :: "u32 \<Rightarrow> (u32 \<times> u32 \<times> bool) \<times> content \<Rightarrow> bool" where
  "incident n ec = (case ec of ((s, t, _), _) \<Rightarrow> s = n \<or> t = n)"

definition has_incident :: "u32 \<Rightarrow> (u32 \<rightharpoonup> (u32 \<times> u32 \<times> bool) \<times> content) \<Rightarrow> bool" where
  "has_incident n E \<longleftrightarrow> (\<exists>e c. E e = Some c \<and> incident n c)"

text \<open>An insertion takes the next identifier of its kind, \<open>fn\<close> or \<open>fe\<close>.\<close>

definition spec_mutation :: "u32 \<Rightarrow> u32 \<Rightarrow> mutation \<Rightarrow> agraph \<Rightarrow> agraph" where
  "spec_mutation fn fe m g =
     (let (N, E) = g in case m of
        InsertNode lt ps \<Rightarrow> (N(fn \<mapsto> (set (label_strings lt), map_of ps)), E)
      | InsertEdge s t d lt ps \<Rightarrow> (N, E(fe \<mapsto> ((s, t, d), set (label_strings lt), map_of ps)))
      | DeleteEdge e \<Rightarrow> (N, E(e := None))
      | DetachDeleteNode n \<Rightarrow> (N(n := None), \<lambda>e. case E e of Some c \<Rightarrow> if incident n c then None else Some c | None \<Rightarrow> None)
      | DeleteNode n \<Rightarrow> if has_incident n E then (N, E) else (N(n := None), E)
      | SetNodeProp n k v \<Rightarrow> (change n (on_props_of (\<lambda>p. p(k \<mapsto> v))) N, E)
      | SetEdgeProp e k v \<Rightarrow> (N, change e (map_prod id (on_props_of (\<lambda>p. p(k \<mapsto> v)))) E)
      | ReplaceNodeProps n ps \<Rightarrow> (change n (on_props_of (\<lambda>_. map_of ps)) N, E)
      | ReplaceEdgeProps e ps \<Rightarrow> (N, change e (map_prod id (on_props_of (\<lambda>_. map_of ps))) E)
      | RemoveNodeProp n k \<Rightarrow> (change n (on_props_of (\<lambda>p. p(k := None))) N, E)
      | RemoveEdgeProp e k \<Rightarrow> (N, change e (map_prod id (on_props_of (\<lambda>p. p(k := None)))) E)
      | AddNodeLabel n l \<Rightarrow> (change n (on_labels_of (insert l)) N, E)
      | AddEdgeLabel e l \<Rightarrow> (N, change e (map_prod id (on_labels_of (insert l))) E)
      | RemoveNodeLabel n l \<Rightarrow> (change n (on_labels_of (\<lambda>ls. ls - {l})) N, E)
      | RemoveEdgeLabel e l \<Rightarrow> (N, change e (map_prod id (on_labels_of (\<lambda>ls. ls - {l}))) E))"

text \<open>
  What the run time checks before it mutates: ends and deleted elements are live, contents
  are well-formed, and identifiers are left.
\<close>

definition mutation_ok :: "mutation \<Rightarrow> mem_graph \<Rightarrow> bool" where
  "mutation_ok m G =
     (case m of
        InsertNode lt ps \<Rightarrow> labels_ok lt \<and> bm_wf ps \<and> Suc (all_nodes G) < 2 ^ 32
      | InsertEdge s t d lt ps \<Rightarrow> labels_ok lt \<and> bm_wf ps \<and> Suc (all_edges G) < 2 ^ 32
          \<and> mg_is_node_alive G s \<and> mg_is_node_alive G t
      | DeleteEdge e \<Rightarrow> mg_is_edge_alive G e
      | DetachDeleteNode n \<Rightarrow> mg_is_node_alive G n
      | DeleteNode n \<Rightarrow> mg_is_node_alive G n
      | ReplaceNodeProps n ps \<Rightarrow> bm_wf ps
      | ReplaceEdgeProps e ps \<Rightarrow> bm_wf ps
      | _ \<Rightarrow> True)"

section \<open>The two halves of the overlay's invariant\<close>

definition nodes_ok :: "overlay \<Rightarrow> bool" where
  "nodes_ok ov \<longleftrightarrow>
     (let n = unat (ov_base_node_count ov) + length (ov_new_nodes ov) in
     n < 2 ^ 32 \<and> distinct (ov_deleted_nodes ov) \<and> list_all (\<lambda>i. unat i < n) (ov_deleted_nodes ov)
     \<and> mods_ok (unat (ov_base_node_count ov)) (ov_mod_node_props ov) (ov_mod_node_labels ov)
     \<and> list_all (\<lambda>n. labels_ok (on_labels n) \<and> bm_wf (on_props n)) (ov_new_nodes ov))"

definition edges_ok :: "overlay \<Rightarrow> bool" where
  "edges_ok ov \<longleftrightarrow>
     (let n = unat (ov_base_edge_count ov) + length (ov_new_edges ov) in
     n < 2 ^ 32 \<and> distinct (ov_deleted_edges ov) \<and> list_all (\<lambda>i. unat i < n) (ov_deleted_edges ov)
     \<and> mods_ok (unat (ov_base_edge_count ov)) (ov_mod_edge_props ov) (ov_mod_edge_labels ov)
     \<and> list_all (\<lambda>e. labels_ok (oe_labels e) \<and> bm_wf (oe_props e)) (ov_new_edges ov)
     \<and> (\<forall>n. adj_get (ov_new_outgoing ov) n = new_where (\<lambda>e. oe_directed e \<and> oe_src e = n) ov)
     \<and> (\<forall>n. adj_get (ov_new_incoming ov) n = new_where (\<lambda>e. oe_directed e \<and> oe_tgt e = n) ov)
     \<and> (\<forall>n. adj_get (ov_new_undirected ov) n = new_where (\<lambda>e. \<not> oe_directed e \<and> (oe_src e = n \<or> oe_tgt e = n)) ov))"

lemma overlay_wf_halves: "overlay_wf G \<longleftrightarrow> nodes_ok (ovl G) \<and> edges_ok (ovl G)"
  by (auto simp: overlay_wf_def nodes_ok_def edges_ok_def Let_def all_nodes_def all_edges_def base_nodes_def base_edges_def)

text \<open>What reads of nodes, and of edges, look at.\<close>

definition same_node_part :: "overlay \<Rightarrow> overlay \<Rightarrow> bool" where
  "same_node_part a b \<longleftrightarrow> ov_base_node_count a = ov_base_node_count b \<and> ov_new_nodes a = ov_new_nodes b
     \<and> ov_deleted_nodes a = ov_deleted_nodes b \<and> ov_mod_node_props a = ov_mod_node_props b
     \<and> ov_mod_node_labels a = ov_mod_node_labels b"

definition same_edge_part :: "overlay \<Rightarrow> overlay \<Rightarrow> bool" where
  "same_edge_part a b \<longleftrightarrow> ov_base_edge_count a = ov_base_edge_count b \<and> ov_new_edges a = ov_new_edges b
     \<and> ov_deleted_edges a = ov_deleted_edges b \<and> ov_mod_edge_props a = ov_mod_edge_props b
     \<and> ov_mod_edge_labels a = ov_mod_edge_labels b \<and> ov_new_outgoing a = ov_new_outgoing b
     \<and> ov_new_incoming a = ov_new_incoming b \<and> ov_new_undirected a = ov_new_undirected b"

lemma ovl_with [simp]: "ovl (with_overlay G ov) = ov"
  by (simp add: with_overlay_def)

lemma with_overlay_columns [simp]:
  "mg_node_labels (with_overlay G ov) = mg_node_labels G" "mg_edge_labels (with_overlay G ov) = mg_edge_labels G"
  "mg_node_props (with_overlay G ov) = mg_node_props G" "mg_edge_props (with_overlay G ov) = mg_edge_props G"
  "mg_edge_src (with_overlay G ov) = mg_edge_src G" "mg_edge_tgt (with_overlay G ov) = mg_edge_tgt G"
  "mg_edge_directed (with_overlay G ov) = mg_edge_directed G"
  by (simp_all add: with_overlay_def)

lemma node_part_kept:
  assumes "same_node_part ov (ovl G)"
  shows "nodes_ok ov = nodes_ok (ovl G)" "mg_is_node_alive (with_overlay G ov) i = mg_is_node_alive G i"
    "abs_nodes (with_overlay G ov) = abs_nodes G"
  using assms
  by (simp_all add: same_node_part_def nodes_ok_def abs_nodes_def mg_is_node_alive_def get_new_node_def
      is_node_deleted_def mg_node_label_def mg_node_prop_def with_overlay_def fun_eq_iff Let_def cong: option.case_cong)

lemma edge_part_kept:
  assumes "same_edge_part ov (ovl G)"
  shows "edges_ok ov = edges_ok (ovl G)" "mg_is_edge_alive (with_overlay G ov) e = mg_is_edge_alive G e"
    "mg_src (with_overlay G ov) e = mg_src G e" "mg_tgt (with_overlay G ov) e = mg_tgt G e"
    "abs_edges (with_overlay G ov) = abs_edges G"
  using assms
  by (simp_all add: same_edge_part_def edges_ok_def new_where_def abs_edges_def mg_is_edge_alive_def get_new_edge_def
      is_edge_deleted_def mg_edge_label_def mg_edge_prop_def mg_src_def mg_tgt_def mg_is_directed_def
      with_overlay_def fun_eq_iff Let_def cong: option.case_cong)

lemma base_part_kept:
  assumes "ov_base_node_count ov = ov_base_node_count (ovl G)" "ov_base_edge_count ov = ov_base_edge_count (ovl G)"
  shows "columns_wf (with_overlay G ov) = columns_wf G" "index_wf (with_overlay G ov) = index_wf G"
  using assms by (simp_all add: columns_wf_def index_wf_def base_nodes_def base_edges_def with_overlay_def cong: if_cong)

text \<open>A change of the node part that keeps every live node alive keeps the invariant.\<close>

lemma wf_node_change:
  assumes "graph_wf G" "same_edge_part ov (ovl G)" "ov_base_node_count ov = ov_base_node_count (ovl G)" "nodes_ok ov"
    and "\<And>i. mg_is_node_alive G i \<Longrightarrow> mg_is_node_alive (with_overlay G ov) i"
  shows "graph_wf (with_overlay G ov)"
  using assms base_part_kept [of ov G] edge_part_kept [OF assms(2)]
  by (simp add: graph_wf_def overlay_wf_halves ends_alive_def) (simp add: same_edge_part_def)

lemma wf_edge_change:
  assumes "graph_wf G" "same_node_part ov (ovl G)" "ov_base_edge_count ov = ov_base_edge_count (ovl G)" "edges_ok ov"
    and "\<And>e. mg_is_edge_alive (with_overlay G ov) e \<Longrightarrow>
           mg_is_node_alive G (mg_src (with_overlay G ov) e) \<and> mg_is_node_alive G (mg_tgt (with_overlay G ov) e)"
  shows "graph_wf (with_overlay G ov)"
  using assms base_part_kept [of ov G] node_part_kept [OF assms(2)]
  by (simp add: graph_wf_def overlay_wf_halves ends_alive_def) (simp add: same_node_part_def)


lemma alive_iff:
  "mg_is_node_alive G i \<longleftrightarrow> unat i < all_nodes G \<and> i \<notin> set (ov_deleted_nodes (ovl G))"
  "mg_is_edge_alive G i \<longleftrightarrow> unat i < all_edges G \<and> i \<notin> set (ov_deleted_edges (ovl G))"
  by (auto simp: mg_is_node_alive_def get_new_node_def mg_is_edge_alive_def get_new_edge_def vec_get_def is_node_deleted_def
      is_edge_deleted_def all_nodes_def all_edges_def base_edges_def base_nodes_def Let_def word_less_nat_alt
      unat_sub_if_size split: if_splits)

section \<open>Insertions\<close>

lemma id_next:
  fixes b :: u32
  assumes "unat b + m < 2 ^ 32"
  shows "unat (b + of_nat m) = unat b + m"
    and "i \<noteq> b + of_nat m \<Longrightarrow> unat i < Suc (unat b + m) \<longleftrightarrow> unat i < unat b + m"
    and "b \<le> i \<Longrightarrow> unat (i - b) = m \<longleftrightarrow> i = b + of_nat m"
proof -
  show eq: "unat (b + of_nat m) = unat b + m" using assms by (rule overlay_id_unat)
  show "unat i < Suc (unat b + m) \<longleftrightarrow> unat i < unat b + m" if "i \<noteq> b + of_nat m"
    using that eq by (auto simp: less_Suc_eq word_unat_eq_iff)
  show "unat (i - b) = m \<longleftrightarrow> i = b + of_nat m" if "b \<le> i"
    using that eq by (auto simp: word_unat_eq_iff unat_sub word_le_nat_alt)
qed

lemma vec_get_push: "vec_get (xs @ [x]) i = (if i = length xs then Some x else vec_get xs i)"
  by (auto simp: vec_get_def nth_append)

lemma get_new_node_push:
  assumes "unat (ov_base_node_count ov) + length (ov_new_nodes ov) < 2 ^ 32"
  shows "get_new_node i (ov\<lparr>ov_new_nodes := ov_new_nodes ov @ [n], ov_touched_node_log := t\<rparr>)
    = (if i = next_node_id ov then Some n else get_new_node i ov)"
proof (cases "i < ov_base_node_count ov")
  case True
  then have "i \<noteq> next_node_id ov" using id_next(1) [OF assms] by (auto simp: next_node_id_def word_less_nat_alt)
  then show ?thesis using True by (simp add: get_new_node_def)
next
  case False
  then have "unat (i - ov_base_node_count ov) = length (ov_new_nodes ov) \<longleftrightarrow> i = next_node_id ov"
    using id_next(3) [OF assms, of i] by (simp add: next_node_id_def linorder_not_less)
  then show ?thesis using False by (simp add: get_new_node_def vec_get_push)
qed

lemma insert_node_refines:
  fixes G lt ps
  assumes "graph_wf G" "labels_ok lt" "bm_wf ps" "Suc (all_nodes G) < 2 ^ 32"
  defines "G' \<equiv> snd (mg_insert_node lt ps G)" and "n \<equiv> next_node_id (ovl G)"
  shows "fst (mg_insert_node lt ps G) = n \<and> graph_wf G'
    \<and> abs_graph G' = ((abs_nodes G)(n \<mapsto> (set (label_strings lt), map_of ps)), abs_edges G)"
proof -
  let ?ov = "ovl G" and ?n = "\<lparr>on_labels = lt, on_props = ps\<rparr>"
  let ?ov' = "?ov\<lparr>ov_new_nodes := ov_new_nodes ?ov @ [?n], ov_touched_node_log := ov_touched_node_log ?ov @ [n]\<rparr>"
  have G': "G' = with_overlay G ?ov'"
    by (simp add: G'_def mg_insert_node_def ov_insert_node_def touch_node_def n_def Let_def)
  have ok: "nodes_ok ?ov" "edges_ok ?ov" using assms(1) by (simp_all add: graph_wf_def overlay_wf_halves)
  have lt: "unat (ov_base_node_count ?ov) + length (ov_new_nodes ?ov) < 2 ^ 32"
    using assms(4) by (simp add: all_nodes_def base_nodes_def)
  have un: "unat n = all_nodes G" using id_next(1) [OF lt] by (simp add: n_def next_node_id_def all_nodes_def base_nodes_def)
  have nd: "n \<notin> set (ov_deleted_nodes ?ov)"
    using ok(1) un by (auto simp: nodes_ok_def Let_def list_all_iff all_nodes_def base_nodes_def)
  have edge: "same_edge_part ?ov' ?ov" by (simp add: same_edge_part_def)
  have tot: "all_nodes G' = Suc (all_nodes G)" by (simp add: G' all_nodes_def base_nodes_def)
  have ok': "nodes_ok ?ov'"
    using ok(1) assms(2,3,4) by (auto simp: nodes_ok_def Let_def list_all_iff all_nodes_def base_nodes_def less_SucI)
  have alive: "mg_is_node_alive G' i \<longleftrightarrow> i = n \<or> mg_is_node_alive G i" for i
  proof -
    have "unat i = all_nodes G \<longleftrightarrow> i = n" using un by (simp add: word_unat_eq_iff)
    then show ?thesis using nd tot by (auto simp: alive_iff G' less_Suc_eq)
  qed
  have get: "get_new_node i ?ov' = (if i = n then Some ?n else get_new_node i ?ov)" for i
    using get_new_node_push [OF lt] by (simp add: n_def)
  have reads: "mg_node_label G' i = (if i = n then lt else mg_node_label G i)"
    "mg_node_prop G' i = (if i = n then ps else mg_node_prop G i)" for i
    by (simp_all add: G' mg_node_label_def mg_node_prop_def get cong: option.case_cong)
  have "graph_wf G'" unfolding G'
    using assms(1) edge ok' alive by (intro wf_node_change) (simp_all add: G')
  moreover have "abs_nodes G' = (abs_nodes G)(n \<mapsto> (set (label_strings lt), map_of ps))"
    by (auto simp: abs_nodes_def alive reads fun_eq_iff)
  moreover have "abs_edges G' = abs_edges G" using edge_part_kept(5) [OF edge] by (simp add: G')
  ultimately show ?thesis by (simp add: abs_graph_def mg_insert_node_def ov_insert_node_def Let_def n_def)
qed

lemma adj_get_push: "adj_get (push_id k e m) n = adj_get m n @ (if n = k then [e] else [])"
  by (auto simp: adj_get_def push_id_def map_of_bm_update split: option.splits)

lemma new_where_push:
  "new_where P (ov\<lparr>ov_new_edges := ov_new_edges ov @ [e]\<rparr>) = new_where P ov @ (if P e then [next_edge_id ov] else [])"
proof -
  have "filter (\<lambda>k. P ((ov_new_edges ov @ [e]) ! k)) [0..<length (ov_new_edges ov)]
      = filter (\<lambda>k. P (ov_new_edges ov ! k)) [0..<length (ov_new_edges ov)]"
    by (rule filter_cong) (auto simp: nth_append)
  then show ?thesis by (simp add: new_where_eq next_edge_id_def)
qed

lemma new_where_cong:
  "ov_base_edge_count a = ov_base_edge_count b \<Longrightarrow> ov_new_edges a = ov_new_edges b \<Longrightarrow> new_where P a = new_where P b"
  by (simp add: new_where_def)


lemma get_new_edge_push:
  assumes "unat (ov_base_edge_count ov) + length (ov_new_edges ov) < 2 ^ 32"
    and "ov_base_edge_count ov' = ov_base_edge_count ov" "ov_new_edges ov' = ov_new_edges ov @ [e]"
  shows "get_new_edge i ov' = (if i = next_edge_id ov then Some e else get_new_edge i ov)"
proof (cases "i < ov_base_edge_count ov")
  case True
  then have "i \<noteq> next_edge_id ov" using id_next(1) [OF assms(1)] by (auto simp: next_edge_id_def word_less_nat_alt)
  then show ?thesis using True assms(2) by (simp add: get_new_edge_def)
next
  case False
  then have "unat (i - ov_base_edge_count ov) = length (ov_new_edges ov) \<longleftrightarrow> i = next_edge_id ov"
    using id_next(3) [OF assms(1), of i] by (simp add: next_edge_id_def linorder_not_less)
  then show ?thesis using False assms(2,3) by (simp add: get_new_edge_def vec_get_push)
qed

lemma insert_edge_refines:
  fixes G s t d lt ps
  assumes "graph_wf G" "labels_ok lt" "bm_wf ps" "Suc (all_edges G) < 2 ^ 32"
    and "mg_is_node_alive G s" "mg_is_node_alive G t"
  defines "G' \<equiv> snd (mg_insert_edge s t d lt ps G)" and "e \<equiv> next_edge_id (ovl G)"
  shows "fst (mg_insert_edge s t d lt ps G) = e \<and> graph_wf G'
    \<and> abs_graph G' = (abs_nodes G, (abs_edges G)(e \<mapsto> ((s, t, d), set (label_strings lt), map_of ps)))"
proof -
  let ?ov = "ovl G" and ?e = "\<lparr>oe_src = s, oe_tgt = t, oe_directed = d, oe_labels = lt, oe_props = ps\<rparr>"
  define ov' where "ov' = snd (ov_insert_edge s t d lt ps ?ov)"
  have f: "ov_base_edge_count ov' = ov_base_edge_count ?ov" "ov_new_edges ov' = ov_new_edges ?ov @ [?e]"
    "ov_deleted_edges ov' = ov_deleted_edges ?ov" "ov_mod_edge_props ov' = ov_mod_edge_props ?ov"
    "ov_mod_edge_labels ov' = ov_mod_edge_labels ?ov" "same_node_part ov' ?ov"
    by (simp_all add: ov'_def ov_insert_edge_def Let_def same_node_part_def)
  have nw: "new_where P ov' = new_where P ?ov @ (if P ?e then [e] else [])" for P
    using new_where_push [of P ?ov ?e] f(1,2) by (simp add: new_where_cong [of ov' "?ov\<lparr>ov_new_edges := ov_new_edges ?ov @ [?e]\<rparr>"] e_def)
  have adj: "ov_new_outgoing ov' = (if d then push_id s e (ov_new_outgoing ?ov) else ov_new_outgoing ?ov)"
    "ov_new_incoming ov' = (if d then push_id t e (ov_new_incoming ?ov) else ov_new_incoming ?ov)"
    "ov_new_undirected ov' = (if d then ov_new_undirected ?ov else if s \<noteq> t then push_id t e (push_id s e (ov_new_undirected ?ov))
       else push_id s e (ov_new_undirected ?ov))"
    by (simp_all add: ov'_def ov_insert_edge_def Let_def e_def)
  have G': "G' = with_overlay G ov'" by (simp add: G'_def mg_insert_edge_def ov'_def Let_def split_beta)
  have ok: "nodes_ok ?ov" "edges_ok ?ov" using assms(1) by (simp_all add: graph_wf_def overlay_wf_halves)
  have lt: "unat (ov_base_edge_count ?ov) + length (ov_new_edges ?ov) < 2 ^ 32"
    using assms(4) by (simp add: all_edges_def base_edges_def)
  have un: "unat e = all_edges G" using id_next(1) [OF lt] by (simp add: e_def next_edge_id_def all_edges_def base_edges_def)
  have nd: "e \<notin> set (ov_deleted_edges ?ov)"
    using ok(2) un by (auto simp: edges_ok_def Let_def list_all_iff all_edges_def base_edges_def)
  have tot: "all_edges G' = Suc (all_edges G)" by (simp add: G' all_edges_def base_edges_def f)
  have "edges_ok ov'"
    using ok(2) assms(2,3,4)
    by (auto simp: edges_ok_def Let_def list_all_iff all_edges_def base_edges_def f adj nw adj_get_push less_SucI)
  moreover have alive: "mg_is_edge_alive G' i \<longleftrightarrow> i = e \<or> mg_is_edge_alive G i" for i
  proof -
    have "unat i = all_edges G \<longleftrightarrow> i = e" using un by (simp add: word_unat_eq_iff)
    then show ?thesis using nd tot f(3) by (auto simp: alive_iff G' less_Suc_eq)
  qed
  moreover have get: "get_new_edge i ov' = (if i = e then Some ?e else get_new_edge i ?ov)" for i
    using get_new_edge_push [OF lt f(1,2)] by (simp add: e_def)
  then have reads: "mg_src G' i = (if i = e then s else mg_src G i)" "mg_tgt G' i = (if i = e then t else mg_tgt G i)"
    "mg_is_directed G' i = (if i = e then d else mg_is_directed G i)"
    "mg_edge_label G' i = (if i = e then lt else mg_edge_label G i)"
    "mg_edge_prop G' i = (if i = e then ps else mg_edge_prop G i)" for i
    by (simp_all add: G' mg_src_def mg_tgt_def mg_is_directed_def mg_edge_label_def mg_edge_prop_def f cong: option.case_cong)
  ultimately have "graph_wf G'" unfolding G'
    using assms(1,5,6) f(1,6) by (intro wf_edge_change) (auto simp: G' graph_wf_def ends_alive_def)
  moreover have "abs_edges G' = (abs_edges G)(e \<mapsto> ((s, t, d), set (label_strings lt), map_of ps))"
    by (auto simp: abs_edges_def alive reads fun_eq_iff)
  moreover have "abs_nodes G' = abs_nodes G" using node_part_kept(3) [OF f(6)] by (simp add: G')
  ultimately show ?thesis by (simp add: abs_graph_def mg_insert_edge_def ov_insert_edge_def Let_def e_def)
qed

section \<open>Deletions\<close>

lemma fold_delete_edge:
  "fold ov_delete_edge es ov = ov\<lparr>ov_deleted_edges := fold List.insert es (ov_deleted_edges ov)\<rparr>"
  by (induction es arbitrary: ov) (simp_all add: ov_delete_edge_def)

lemma fold_list_insert:
  "set (fold List.insert es xs) = set es \<union> set xs" "distinct xs \<Longrightarrow> distinct (fold List.insert es xs)"
  by (induction es arbitrary: xs) auto

lemma delete_edges_refines:
  fixes G es
  assumes "graph_wf G" "\<forall>e \<in> set es. mg_is_edge_alive G e"
  defines "G' \<equiv> with_overlay G (fold ov_delete_edge es (ovl G))"
  shows "graph_wf G'" "abs_nodes G' = abs_nodes G" "abs_edges G' = (\<lambda>e. if e \<in> set es then None else abs_edges G e)"
    "mg_is_edge_alive G' e \<longleftrightarrow> mg_is_edge_alive G e \<and> e \<notin> set es" "mg_src G' e = mg_src G e" "mg_tgt G' e = mg_tgt G e"
    "mg_is_node_alive G' i = mg_is_node_alive G i"
proof -
  let ?ov = "ovl G" and ?ov' = "fold ov_delete_edge es (ovl G)"
  have f: "same_node_part ?ov' ?ov" "ov_base_edge_count ?ov' = ov_base_edge_count ?ov" "ov_new_edges ?ov' = ov_new_edges ?ov"
    by (simp_all add: fold_delete_edge same_node_part_def)
  have alive: "mg_is_edge_alive G' i \<longleftrightarrow> mg_is_edge_alive G i \<and> i \<notin> set es" for i
    by (auto simp: G'_def alive_iff fold_delete_edge fold_list_insert all_edges_def base_edges_def)
  have reads: "mg_src G' i = mg_src G i" "mg_tgt G' i = mg_tgt G i" "mg_is_directed G' i = mg_is_directed G i"
    "mg_edge_label G' i = mg_edge_label G i" "mg_edge_prop G' i = mg_edge_prop G i" for i
    by (simp_all add: G'_def fold_delete_edge mg_src_def mg_tgt_def mg_is_directed_def mg_edge_label_def mg_edge_prop_def
        get_new_edge_def cong: option.case_cong)
  have "edges_ok ?ov" using assms(1) by (simp add: graph_wf_def overlay_wf_halves)
  moreover have "new_where P ?ov' = new_where P ?ov" for P using f(2,3) by (rule new_where_cong)
  moreover have "unat e < base_edges G + length (ov_new_edges ?ov)" if "e \<in> set es" for e
    using assms(2) that by (simp add: alive_iff all_edges_def)
  ultimately have "edges_ok ?ov'"
    by (auto simp: edges_ok_def Let_def f fold_delete_edge fold_list_insert list_all_iff base_edges_def)
  then show "graph_wf G'" unfolding G'_def
    using assms(1) f(1,2) alive reads by (intro wf_edge_change) (simp_all add: G'_def graph_wf_def ends_alive_def)
  show "abs_nodes G' = abs_nodes G" "mg_is_node_alive G' i = mg_is_node_alive G i"
    unfolding G'_def using node_part_kept(2,3) [OF f(1)] by simp_all
  show "abs_edges G' = (\<lambda>e. if e \<in> set es then None else abs_edges G e)"
    by (auto simp: abs_edges_def alive reads fun_eq_iff)
  show "mg_is_edge_alive G' e \<longleftrightarrow> mg_is_edge_alive G e \<and> e \<notin> set es" "mg_src G' e = mg_src G e" "mg_tgt G' e = mg_tgt G e"
    by (simp_all add: alive reads)
qed

text \<open>The incident edges the deletions look up are exactly the live edges at the node.\<close>

lemma undirected_edges_set:
  assumes "graph_wf G"
  shows "set (mg_undirected_edges_of G n)
    = {e. mg_is_edge_alive G e \<and> \<not> mg_is_directed G e \<and> (mg_src G e = n \<or> mg_tgt G e = n)}"
proof -
  have ov: "overlay_wf G" using assms by (simp add: graph_wf_def)
  let ?b = "ov_base_edge_count (ovl G)" and ?new = "ov_new_edges (ovl G)"
  have "filter (\<lambda>e. \<not> mg_is_directed G e \<and> (mg_src G e = n \<or> mg_tgt G e = n)) (ids (all_edges G))
      = map of_nat (filter (\<lambda>i. \<not> mg_edge_directed G ! i \<and> (mg_edge_src G ! i = n \<or> mg_edge_tgt G ! i = n)) [0..<base_edges G])
        @ new_where (\<lambda>e. \<not> oe_directed e \<and> (oe_src e = n \<or> oe_tgt e = n)) (ovl G)"
    using ov by (intro filter_edges) (simp_all add: edge_reads_base edge_reads_new)
  then have "set (base_adj (mg_undirected_adj G) n @ adj_get (ov_new_undirected (ovl G)) n)
      = set (filter (\<lambda>e. \<not> mg_is_directed G e \<and> (mg_src G e = n \<or> mg_tgt G e = n)) (ids (all_edges G)))"
    using assms by (auto simp: graph_wf_def index_wf_def overlay_wf_def Let_def occurrences_def split: if_splits)
  then show ?thesis
    using overlay_wf_bounds(2) [OF ov]
    by (auto simp: mg_undirected_edges_of_def merged_adj_def is_edge_deleted_def edge_alive_iff [OF ov] set_ids)
qed

lemma incident_edges_set:
  assumes "graph_wf G"
  shows "set (incident_edges G n) = {e. mg_is_edge_alive G e \<and> (mg_src G e = n \<or> mg_tgt G e = n)}"
proof -
  have "overlay_wf G" using assms by (simp add: graph_wf_def)
  then show ?thesis
    using set_edges by (auto simp: incident_edges_def adjacency_directed [OF assms] undirected_edges_set [OF assms])
qed

lemma delete_node_step:
  fixes G n
  assumes "graph_wf G" "mg_is_node_alive G n" "\<And>e. mg_is_edge_alive G e \<Longrightarrow> mg_src G e \<noteq> n \<and> mg_tgt G e \<noteq> n"
  defines "G' \<equiv> with_overlay G (ov_delete_node n (ovl G))"
  shows "graph_wf G' \<and> abs_graph G' = ((abs_nodes G)(n := None), abs_edges G)"
proof -
  let ?ov = "ovl G" and ?ov' = "ov_delete_node n (ovl G)"
  have f: "same_edge_part ?ov' ?ov" "ov_base_node_count ?ov' = ov_base_node_count ?ov"
    by (simp_all add: ov_delete_node_def touch_node_def same_edge_part_def)
  have alive: "mg_is_node_alive G' i \<longleftrightarrow> mg_is_node_alive G i \<and> i \<noteq> n" for i
    by (auto simp: G'_def alive_iff ov_delete_node_def touch_node_def all_nodes_def base_nodes_def)
  have reads: "mg_node_label G' i = mg_node_label G i" "mg_node_prop G' i = mg_node_prop G i" for i
    by (simp_all add: G'_def mg_node_label_def mg_node_prop_def get_new_node_def ov_delete_node_def touch_node_def
        cong: option.case_cong)
  have "nodes_ok ?ov" using assms(1) by (simp add: graph_wf_def overlay_wf_halves)
  then have ok: "nodes_ok ?ov'"
    using assms(2) by (auto simp: nodes_ok_def Let_def ov_delete_node_def touch_node_def alive_iff all_nodes_def base_nodes_def list_all_iff)
  have "graph_wf G'"
    using assms(1,3) base_part_kept [of ?ov' G] edge_part_kept [OF f(1)] f ok alive
    by (simp add: graph_wf_def overlay_wf_halves ends_alive_def G'_def) (simp add: same_edge_part_def)
  moreover have "abs_nodes G' = (abs_nodes G)(n := None)" by (auto simp: abs_nodes_def alive reads fun_eq_iff)
  ultimately show ?thesis using edge_part_kept(5) [OF f(1)] by (simp add: abs_graph_def G'_def)
qed

section \<open>Property and label changes\<close>

text \<open>
  A change to the properties is a pair: \<open>g\<close> on the map of a record the overlay allocated,
  \<open>h\<close> on the recorded changes of a base record; both have the effect \<open>f\<close>.
\<close>

definition props_step :: "(props \<Rightarrow> props) \<Rightarrow> (prop_mods \<Rightarrow> prop_mods) \<Rightarrow> ((string \<rightharpoonup> val) \<Rightarrow> string \<rightharpoonup> val) \<Rightarrow> bool" where
  "props_step g h f \<longleftrightarrow>
     (\<forall>ps. bm_wf ps \<longrightarrow> bm_wf (g ps) \<and> map_of (g ps) = f (map_of ps))
     \<and> (\<forall>pm. bm_wf (pm_set pm) \<longrightarrow> bm_wf (pm_set (h pm))
          \<and> (\<forall>base. map_of (apply_prop_mods base (Some (h pm))) = f (map_of (apply_prop_mods base (Some pm)))))"

definition labels_step :: "(label_type \<Rightarrow> label_type) \<Rightarrow> (label_mods \<Rightarrow> label_mods) \<Rightarrow> (string set \<Rightarrow> string set) \<Rightarrow> bool" where
  "labels_step g h f \<longleftrightarrow>
     (\<forall>lt. labels_ok lt \<longrightarrow> labels_ok (g lt) \<and> set (label_strings (g lt)) = f (set (label_strings lt)))
     \<and> (\<forall>lm. distinct (lm_added lm) \<and> set (lm_added lm) \<inter> set (lm_removed lm) = {} \<longrightarrow>
          distinct (lm_added (h lm)) \<and> set (lm_added (h lm)) \<inter> set (lm_removed (h lm)) = {}
          \<and> (\<forall>ls. set (apply_label_mods ls (Some (h lm))) = f (set (apply_label_mods ls (Some lm)))))"

lemma labels_ok_strings: "labels_ok (labels_from_strings ls) = distinct ls"
  by (simp add: labels_ok_def)

lemma props_step_set:
  "props_step (bm_insert k v) (\<lambda>pm. pm\<lparr>pm_set := bm_insert k (Some v) (pm_set pm)\<rparr>) (\<lambda>p. p(k \<mapsto> v))"
  "props_step (bm_remove k) (\<lambda>pm. pm\<lparr>pm_set := bm_insert k None (pm_set pm)\<rparr>) (\<lambda>p. p(k := None))"
  by (auto simp: props_step_def bmap_simps map_of_apply_prop_mods fun_eq_iff)

lemma map_of_Some_map: "map_of (map (\<lambda>(k, v). (k, Some v)) ps) k = map_option Some (map_of ps k)"
  by (induction ps) auto

lemma props_step_replace: "bm_wf ps \<Longrightarrow> props_step (\<lambda>_. ps) (\<lambda>_. replace_mods ps) (\<lambda>_. map_of ps)"
proof -
  assume ps: "bm_wf ps"
  then have "bm_wf (pm_set (replace_mods ps))" using bm_wf_map [of "\<lambda>_. Some" ps] by (simp add: replace_mods_def)
  moreover from this have "map_of (apply_prop_mods base (Some (replace_mods ps))) = map_of ps" for base
    by (simp add: map_of_apply_prop_mods fun_eq_iff) (simp add: replace_mods_def map_of_Some_map split: option.splits)
  ultimately show ?thesis using ps by (simp add: props_step_def)
qed

lemma labels_step_add: "labels_step (\<lambda>lt. label_type_with_added lt l) (mods_add_label l) (insert l)"
  by (auto simp: labels_step_def labels_ok_strings label_type_with_added_def mods_add_label_def set_apply_label_mods
      labels_ok_def Let_def)

lemma labels_step_remove: "labels_step (\<lambda>lt. label_type_with_removed lt l) (mods_remove_label l) (\<lambda>ls. ls - {l})"
  by (auto simp: labels_step_def labels_ok_strings label_type_with_removed_def mods_remove_label_def
      set_apply_label_mods labels_ok_def distinct_removeAll)

text \<open>The default of a missing entry changes nothing.\<close>

lemma mods_default [simp]:
  "apply_prop_mods base (Some prop_mods_default) = base" "apply_prop_mods base None = base"
  "apply_label_mods ls (Some label_mods_default) = ls" "apply_label_mods ls None = ls"
  by (simp_all add: apply_prop_mods_def prop_mods_default_def apply_label_mods_def label_mods_default_def)

lemma list_all_map_of: "list_all P m \<Longrightarrow> map_of m k = Some v \<Longrightarrow> P (k, v)"
  by (auto simp: list_all_iff dest: map_of_SomeD)

lemma list_all_bm_insert: "list_all P m \<Longrightarrow> P (k, v) \<Longrightarrow> list_all P (bm_insert k v m)"
  by (induction k v m rule: bm_insert.induct) auto

lemma list_all_update: "list_all P m \<Longrightarrow> (\<And>v. P (k, v) \<Longrightarrow> P (k, f v)) \<Longrightarrow> P (k, f d) \<Longrightarrow> list_all P (bm_update k d f m)"
  unfolding bm_update_def by (intro list_all_bm_insert) (auto split: option.splits dest: list_all_map_of)

lemma props_step_mods:
  assumes "props_step g h f" "mods_ok n pms lms" "unat i < n"
  shows "mods_ok n (bm_update i prop_mods_default h pms) lms"
    and "map_of (apply_prop_mods base (map_of (bm_update i prop_mods_default h pms) j))
      = (if j = i then f else id) (map_of (apply_prop_mods base (map_of pms j)))"
proof -
  have h: "bm_wf (pm_set pm) \<Longrightarrow> bm_wf (pm_set (h pm))" for pm using assms(1) by (simp add: props_step_def)
  have d: "bm_wf (pm_set prop_mods_default)" by (simp add: prop_mods_default_def)
  show "mods_ok n (bm_update i prop_mods_default h pms) lms"
    using assms(2,3) h d by (auto simp: mods_ok_def intro!: list_all_update)
  have "bm_wf (pm_set pm)" if "map_of pms i = Some pm" for pm
    using assms(2) that by (auto simp: mods_ok_def dest: list_all_map_of)
  moreover have "map_of (apply_prop_mods base (Some (h pm))) = f (map_of (apply_prop_mods base (Some pm)))"
    if "bm_wf (pm_set pm)" for pm using assms(1) that by (simp add: props_step_def)
  ultimately show "map_of (apply_prop_mods base (map_of (bm_update i prop_mods_default h pms) j))
      = (if j = i then f else id) (map_of (apply_prop_mods base (map_of pms j)))"
    using d by (auto simp: map_of_bm_update split: option.splits)
qed

lemma labels_step_mods:
  assumes "labels_step g h f" "mods_ok n pms lms" "unat i < n"
  shows "mods_ok n pms (bm_update i label_mods_default h lms)"
    and "set (apply_label_mods ls (map_of (bm_update i label_mods_default h lms) j))
      = (if j = i then f else id) (set (apply_label_mods ls (map_of lms j)))"
proof -
  let ?ok = "\<lambda>lm. distinct (lm_added lm) \<and> set (lm_added lm) \<inter> set (lm_removed lm) = {}"
  have h: "?ok lm \<Longrightarrow> ?ok (h lm)" for lm using assms(1) by (simp add: labels_step_def)
  have d: "?ok label_mods_default" by (simp add: label_mods_default_def)
  show "mods_ok n pms (bm_update i label_mods_default h lms)"
    using assms(2,3) h d by (auto simp: mods_ok_def intro!: list_all_update)
  have "?ok lm" if "map_of lms i = Some lm" for lm
    using assms(2) that by (auto simp: mods_ok_def dest: list_all_map_of)
  moreover have "set (apply_label_mods ls (Some (h lm))) = f (set (apply_label_mods ls (Some lm)))"
    if "?ok lm" for lm using assms(1) that by (simp add: labels_step_def)
  ultimately show "set (apply_label_mods ls (map_of (bm_update i label_mods_default h lms) j))
      = (if j = i then f else id) (set (apply_label_mods ls (map_of lms j)))"
    using d by (auto simp: map_of_bm_update split: option.splits)
qed

text \<open>One step for all changes of a node's record, and one for an edge's.\<close>

definition node_content :: "mem_graph \<Rightarrow> u32 \<Rightarrow> content" where
  "node_content G i = (set (label_strings (mg_node_label G i)), map_of (mg_node_prop G i))"

lemma abs_nodes_content: "abs_nodes G i = (if mg_is_node_alive G i then Some (node_content G i) else None)"
  by (simp add: abs_nodes_def node_content_def)

lemma node_change_refines:
  fixes G n f ov'
  assumes "graph_wf G" "same_edge_part ov' (ovl G)" "ov_base_node_count ov' = ov_base_node_count (ovl G)"
    and "ov_deleted_nodes ov' = ov_deleted_nodes (ovl G)" "length (ov_new_nodes ov') = length (ov_new_nodes (ovl G))"
    and "nodes_ok ov'"
    and "\<And>i. mg_is_node_alive G i \<Longrightarrow> node_content (with_overlay G ov') i = (if i = n then f else id) (node_content G i)"
  shows "graph_wf (with_overlay G ov') \<and> abs_graph (with_overlay G ov') = (change n f (abs_nodes G), abs_edges G)"
proof -
  have alive: "mg_is_node_alive (with_overlay G ov') i = mg_is_node_alive G i" for i
    using assms(3-5) by (simp add: alive_iff all_nodes_def base_nodes_def)
  have "abs_nodes (with_overlay G ov') = change n f (abs_nodes G)"
    using assms(7) by (auto simp: abs_nodes_content alive change_def fun_eq_iff)
  then show ?thesis
    using assms alive edge_part_kept(5) [OF assms(2)] by (simp add: abs_graph_def wf_node_change)
qed

lemma update_new_node_reads:
  assumes "ov_base_node_count ov \<le> n"
  shows "get_new_node i (update_new_node n g ov) = (if i = n then map_option g (get_new_node i ov) else get_new_node i ov)"
proof -
  have "unat (i - ov_base_node_count ov) = unat (n - ov_base_node_count ov) \<longleftrightarrow> i = n"
    by (simp add: word_unat_eq_iff [symmetric])
  then show ?thesis
    using assms by (auto simp: update_new_node_def get_new_node_def vec_get_def Let_def linorder_not_less nth_list_update)
qed

lemma node_new_change:
  fixes G n g f
  assumes "graph_wf G" "ov_base_node_count (ovl G) \<le> n"
    and "\<And>nd. labels_ok (on_labels nd) \<Longrightarrow> bm_wf (on_props nd) \<Longrightarrow> labels_ok (on_labels (g nd)) \<and> bm_wf (on_props (g nd))
      \<and> (set (label_strings (on_labels (g nd))), map_of (on_props (g nd))) = f (set (label_strings (on_labels nd)), map_of (on_props nd))"
  defines "G' \<equiv> with_overlay G (update_new_node n g (ovl G))"
  shows "graph_wf G' \<and> abs_graph G' = (change n f (abs_nodes G), abs_edges G)"
proof -
  let ?ov = "ovl G" and ?ov' = "update_new_node n g (ovl G)"
  have f: "same_edge_part ?ov' ?ov" "ov_base_node_count ?ov' = ov_base_node_count ?ov"
    "ov_deleted_nodes ?ov' = ov_deleted_nodes ?ov" "length (ov_new_nodes ?ov') = length (ov_new_nodes ?ov)"
    "ov_mod_node_props ?ov' = ov_mod_node_props ?ov" "ov_mod_node_labels ?ov' = ov_mod_node_labels ?ov"
    by (auto simp: update_new_node_def Let_def same_edge_part_def)
  have ok: "nodes_ok ?ov" using assms(1) by (simp add: graph_wf_def overlay_wf_halves)
  then have new: "list_all (\<lambda>n. labels_ok (on_labels n) \<and> bm_wf (on_props n)) (ov_new_nodes ?ov)"
    by (simp add: nodes_ok_def Let_def)
  then have "list_all (\<lambda>n. labels_ok (on_labels n) \<and> bm_wf (on_props n)) (ov_new_nodes ?ov')"
    using assms(3) by (auto simp: update_new_node_def Let_def list_all_length nth_list_update)
  then have "nodes_ok ?ov'" using ok f by (simp add: nodes_ok_def Let_def)
  moreover have "node_content G' i = (if i = n then f else id) (node_content G i)" if al: "mg_is_node_alive G i" for i
  proof -
    have get: "get_new_node i ?ov' = (if i = n then map_option g (get_new_node i ?ov) else get_new_node i ?ov)"
      using assms(2) by (rule update_new_node_reads)
    show ?thesis
    proof (cases "i = n")
      case True
      then obtain nd where nd: "get_new_node i ?ov = Some nd"
        using al assms(2) by (auto simp: mg_is_node_alive_def Let_def split: if_splits)
      then have "nd \<in> set (ov_new_nodes ?ov)" by (auto simp: get_new_node_def vec_get_def split: if_splits)
      then have "labels_ok (on_labels nd)" "bm_wf (on_props nd)" using new by (auto simp: list_all_iff)
      then show ?thesis using assms(3) [of nd] True nd get
        by (simp add: G'_def node_content_def mg_node_label_def mg_node_prop_def)
    qed (simp add: G'_def node_content_def mg_node_label_def mg_node_prop_def get f cong: option.case_cong)
  qed
  ultimately show ?thesis using assms(1) f unfolding G'_def by (intro node_change_refines) simp_all
qed

lemma node_mod_change:
  fixes G n h f hl fl
  assumes "graph_wf G" "n < ov_base_node_count (ovl G)"
    and "props_step g h f" "labels_step gl hl fl"
  shows "graph_wf (with_overlay G (ovl G\<lparr>ov_mod_node_props := bm_update n prop_mods_default h (ov_mod_node_props (ovl G))\<rparr>))
      \<and> abs_graph (with_overlay G (ovl G\<lparr>ov_mod_node_props := bm_update n prop_mods_default h (ov_mod_node_props (ovl G))\<rparr>))
        = (change n (on_props_of f) (abs_nodes G), abs_edges G)" (is "graph_wf ?P \<and> abs_graph ?P = _")
    and "graph_wf (with_overlay G (ovl G\<lparr>ov_mod_node_labels := bm_update n label_mods_default hl (ov_mod_node_labels (ovl G))\<rparr>))
      \<and> abs_graph (with_overlay G (ovl G\<lparr>ov_mod_node_labels := bm_update n label_mods_default hl (ov_mod_node_labels (ovl G))\<rparr>))
        = (change n (on_labels_of fl) (abs_nodes G), abs_edges G)" (is "graph_wf ?L \<and> abs_graph ?L = _")
proof -
  have ok: "nodes_ok (ovl G)" using assms(1) by (simp add: graph_wf_def overlay_wf_halves)
  have n: "unat n < unat (ov_base_node_count (ovl G))" "get_new_node n ov = None"
    if "ov_base_node_count ov = ov_base_node_count (ovl G)" for ov
    using assms(2) that by (simp_all add: word_less_nat_alt get_new_node_def)
  have mods: "mods_ok (unat (ov_base_node_count (ovl G))) (ov_mod_node_props (ovl G)) (ov_mod_node_labels (ovl G))"
    using ok by (simp add: nodes_ok_def Let_def)
  note p = props_step_mods [OF assms(3) mods n(1) [OF refl]]
  note l = labels_step_mods [OF assms(4) mods n(1) [OF refl]]
  have gn: "get_new_node i (ovl G\<lparr>ov_mod_node_props := x\<rparr>) = get_new_node i (ovl G)"
    "get_new_node i (ovl G\<lparr>ov_mod_node_labels := y\<rparr>) = get_new_node i (ovl G)" for i x y
    by (simp_all add: get_new_node_def)
  show "graph_wf ?P \<and> abs_graph ?P = (change n (on_props_of f) (abs_nodes G), abs_edges G)"
  proof (rule node_change_refines [OF assms(1)])
    show "nodes_ok (ovl G\<lparr>ov_mod_node_props := bm_update n prop_mods_default h (ov_mod_node_props (ovl G))\<rparr>)"
      using ok p(1) by (simp add: nodes_ok_def Let_def)
    show "node_content ?P i = (if i = n then on_props_of f else id) (node_content G i)" for i
      using p(2) [of _ i] n(2) [OF refl]
      by (auto simp: node_content_def on_props_of_def mg_node_label_def mg_node_prop_def gn split: option.splits)
  qed (simp_all add: same_edge_part_def)
  show "graph_wf ?L \<and> abs_graph ?L = (change n (on_labels_of fl) (abs_nodes G), abs_edges G)"
  proof (rule node_change_refines [OF assms(1)])
    show "nodes_ok (ovl G\<lparr>ov_mod_node_labels := bm_update n label_mods_default hl (ov_mod_node_labels (ovl G))\<rparr>)"
      using ok l(1) by (simp add: nodes_ok_def Let_def)
    show "node_content ?L i = (if i = n then on_labels_of fl else id) (node_content G i)" for i
      using l(2) [of _ i] n(2) [OF refl]
      by (auto simp: node_content_def on_labels_of_def mg_node_label_def mg_node_prop_def gn split: option.splits)
  qed (simp_all add: same_edge_part_def)
qed

definition edge_content :: "mem_graph \<Rightarrow> u32 \<Rightarrow> content" where
  "edge_content G i = (set (label_strings (mg_edge_label G i)), map_of (mg_edge_prop G i))"

definition edge_shape :: "mem_graph \<Rightarrow> u32 \<Rightarrow> u32 \<times> u32 \<times> bool" where
  "edge_shape G i = (mg_src G i, mg_tgt G i, mg_is_directed G i)"

lemma abs_edges_content: "abs_edges G i = (if mg_is_edge_alive G i then Some (edge_shape G i, edge_content G i) else None)"
  by (simp add: abs_edges_def edge_content_def edge_shape_def)

lemma edge_change_refines:
  fixes G n f ov'
  assumes "graph_wf G" "same_node_part ov' (ovl G)" "ov_base_edge_count ov' = ov_base_edge_count (ovl G)"
    and "ov_deleted_edges ov' = ov_deleted_edges (ovl G)" "length (ov_new_edges ov') = length (ov_new_edges (ovl G))"
    and "edges_ok ov'" and "\<And>i. edge_shape (with_overlay G ov') i = edge_shape G i"
    and "\<And>i. mg_is_edge_alive G i \<Longrightarrow> edge_content (with_overlay G ov') i = (if i = n then f else id) (edge_content G i)"
  shows "graph_wf (with_overlay G ov') \<and> abs_graph (with_overlay G ov') = (abs_nodes G, change n (map_prod id f) (abs_edges G))"
proof -
  have alive: "mg_is_edge_alive (with_overlay G ov') i = mg_is_edge_alive G i" for i
    using assms(3-5) by (simp add: alive_iff all_edges_def base_edges_def)
  have "abs_edges (with_overlay G ov') = change n (map_prod id f) (abs_edges G)"
    using assms(7,8) by (auto simp: abs_edges_content alive change_def fun_eq_iff)
  moreover have "graph_wf (with_overlay G ov')"
    using assms(1-3,6,7) alive by (intro wf_edge_change) (simp_all add: edge_shape_def graph_wf_def ends_alive_def)
  ultimately show ?thesis using node_part_kept(3) [OF assms(2)] by (simp add: abs_graph_def)
qed

lemma update_new_edge_reads:
  assumes "ov_base_edge_count ov \<le> n"
  shows "get_new_edge i (update_new_edge n g ov) = (if i = n then map_option g (get_new_edge i ov) else get_new_edge i ov)"
proof -
  have "unat (i - ov_base_edge_count ov) = unat (n - ov_base_edge_count ov) \<longleftrightarrow> i = n"
    by (simp add: word_unat_eq_iff [symmetric])
  then show ?thesis
    using assms by (auto simp: update_new_edge_def get_new_edge_def vec_get_def Let_def linorder_not_less nth_list_update)
qed

lemma edge_new_change:
  fixes G n g f
  assumes "graph_wf G" "ov_base_edge_count (ovl G) \<le> n"
    and "\<And>nd. labels_ok (oe_labels nd) \<Longrightarrow> bm_wf (oe_props nd) \<Longrightarrow> labels_ok (oe_labels (g nd)) \<and> bm_wf (oe_props (g nd))
      \<and> (set (label_strings (oe_labels (g nd))), map_of (oe_props (g nd))) = f (set (label_strings (oe_labels nd)), map_of (oe_props nd))"
    and shape: "\<And>nd. oe_src (g nd) = oe_src nd" "\<And>nd. oe_tgt (g nd) = oe_tgt nd" "\<And>nd. oe_directed (g nd) = oe_directed nd"
  defines "G' \<equiv> with_overlay G (update_new_edge n g (ovl G))"
  shows "graph_wf G' \<and> abs_graph G' = (abs_nodes G, change n (map_prod id f) (abs_edges G))"
proof -
  let ?ov = "ovl G" and ?ov' = "update_new_edge n g (ovl G)"
  have f: "same_node_part ?ov' ?ov" "ov_base_edge_count ?ov' = ov_base_edge_count ?ov"
    "ov_deleted_edges ?ov' = ov_deleted_edges ?ov" "length (ov_new_edges ?ov') = length (ov_new_edges ?ov)"
    "ov_mod_edge_props ?ov' = ov_mod_edge_props ?ov" "ov_mod_edge_labels ?ov' = ov_mod_edge_labels ?ov"
    "ov_new_outgoing ?ov' = ov_new_outgoing ?ov" "ov_new_incoming ?ov' = ov_new_incoming ?ov"
    "ov_new_undirected ?ov' = ov_new_undirected ?ov"
    by (auto simp: update_new_edge_def Let_def same_node_part_def)
  have ok: "edges_ok ?ov" using assms(1) by (simp add: graph_wf_def overlay_wf_halves)
  then have new: "list_all (\<lambda>n. labels_ok (oe_labels n) \<and> bm_wf (oe_props n)) (ov_new_edges ?ov)"
    by (simp add: edges_ok_def Let_def)
  then have "list_all (\<lambda>n. labels_ok (oe_labels n) \<and> bm_wf (oe_props n)) (ov_new_edges ?ov')"
    using assms(3) by (auto simp: update_new_edge_def Let_def list_all_length nth_list_update)
  moreover have "new_where P ?ov' = new_where P ?ov" if "\<And>e. P (g e) = P e" for P
    using that f(2) unfolding new_where_eq
    by (auto simp: update_new_edge_def Let_def nth_list_update intro!: arg_cong [of _ _ "map _"] filter_cong)
  ultimately have "edges_ok ?ov'" using ok f shape by (simp add: edges_ok_def Let_def)
  moreover have "edge_shape G' i = edge_shape G i" for i
    using update_new_edge_reads [OF assms(2), of i g] shape
    by (simp add: G'_def edge_shape_def mg_src_def mg_tgt_def mg_is_directed_def split: option.splits)
  moreover have "edge_content G' i = (if i = n then f else id) (edge_content G i)" if al: "mg_is_edge_alive G i" for i
  proof -
    have get: "get_new_edge i ?ov' = (if i = n then map_option g (get_new_edge i ?ov) else get_new_edge i ?ov)"
      using assms(2) by (rule update_new_edge_reads)
    show ?thesis
    proof (cases "i = n")
      case True
      then obtain nd where nd: "get_new_edge i ?ov = Some nd"
        using al assms(2) by (auto simp: mg_is_edge_alive_def Let_def linorder_not_less [symmetric] split: if_splits)
      then have "nd \<in> set (ov_new_edges ?ov)" by (auto simp: get_new_edge_def vec_get_def split: if_splits)
      then have "labels_ok (oe_labels nd)" "bm_wf (oe_props nd)" using new by (auto simp: list_all_iff)
      then show ?thesis using assms(3) [of nd] True nd get
        by (simp add: G'_def edge_content_def mg_edge_label_def mg_edge_prop_def)
    qed (simp add: G'_def edge_content_def mg_edge_label_def mg_edge_prop_def get f cong: option.case_cong)
  qed
  ultimately show ?thesis using assms(1) f unfolding G'_def by (intro edge_change_refines) simp_all
qed

lemma edge_mod_change:
  fixes G n h f hl fl
  assumes "graph_wf G" "n < ov_base_edge_count (ovl G)"
    and "props_step g h f" "labels_step gl hl fl"
  shows "graph_wf (with_overlay G (ovl G\<lparr>ov_mod_edge_props := bm_update n prop_mods_default h (ov_mod_edge_props (ovl G))\<rparr>))
      \<and> abs_graph (with_overlay G (ovl G\<lparr>ov_mod_edge_props := bm_update n prop_mods_default h (ov_mod_edge_props (ovl G))\<rparr>))
        = (abs_nodes G, change n (map_prod id (on_props_of f)) (abs_edges G))" (is "graph_wf ?P \<and> abs_graph ?P = _")
    and "graph_wf (with_overlay G (ovl G\<lparr>ov_mod_edge_labels := bm_update n label_mods_default hl (ov_mod_edge_labels (ovl G))\<rparr>))
      \<and> abs_graph (with_overlay G (ovl G\<lparr>ov_mod_edge_labels := bm_update n label_mods_default hl (ov_mod_edge_labels (ovl G))\<rparr>))
        = (abs_nodes G, change n (map_prod id (on_labels_of fl)) (abs_edges G))" (is "graph_wf ?L \<and> abs_graph ?L = _")
proof -
  have ok: "edges_ok (ovl G)" using assms(1) by (simp add: graph_wf_def overlay_wf_halves)
  have n: "unat n < unat (ov_base_edge_count (ovl G))" "get_new_edge n ov = None"
    if "ov_base_edge_count ov = ov_base_edge_count (ovl G)" for ov
    using assms(2) that by (simp_all add: word_less_nat_alt get_new_edge_def)
  have mods: "mods_ok (unat (ov_base_edge_count (ovl G))) (ov_mod_edge_props (ovl G)) (ov_mod_edge_labels (ovl G))"
    using ok by (simp add: edges_ok_def Let_def)
  note p = props_step_mods [OF assms(3) mods n(1) [OF refl]]
  note l = labels_step_mods [OF assms(4) mods n(1) [OF refl]]
  have gn: "get_new_edge i (ovl G\<lparr>ov_mod_edge_props := x\<rparr>) = get_new_edge i (ovl G)"
    "get_new_edge i (ovl G\<lparr>ov_mod_edge_labels := y\<rparr>) = get_new_edge i (ovl G)" for i x y
    by (simp_all add: get_new_edge_def)
  show "graph_wf ?P \<and> abs_graph ?P = (abs_nodes G, change n (map_prod id (on_props_of f)) (abs_edges G))"
  proof (rule edge_change_refines [OF assms(1)])
    show "edges_ok (ovl G\<lparr>ov_mod_edge_props := bm_update n prop_mods_default h (ov_mod_edge_props (ovl G))\<rparr>)"
      using ok p(1) by (simp add: edges_ok_def Let_def new_where_def)
    show "edge_content ?P i = (if i = n then on_props_of f else id) (edge_content G i)" for i
      using p(2) [of _ i] n(2) [OF refl]
      by (auto simp: edge_content_def on_props_of_def mg_edge_label_def mg_edge_prop_def gn split: option.splits)
  qed (simp_all add: same_node_part_def edge_shape_def mg_src_def mg_tgt_def mg_is_directed_def gn cong: option.case_cong)
  show "graph_wf ?L \<and> abs_graph ?L = (abs_nodes G, change n (map_prod id (on_labels_of fl)) (abs_edges G))"
  proof (rule edge_change_refines [OF assms(1)])
    show "edges_ok (ovl G\<lparr>ov_mod_edge_labels := bm_update n label_mods_default hl (ov_mod_edge_labels (ovl G))\<rparr>)"
      using ok l(1) by (simp add: edges_ok_def Let_def new_where_def)
    show "edge_content ?L i = (if i = n then on_labels_of fl else id) (edge_content G i)" for i
      using l(2) [of _ i] n(2) [OF refl]
      by (auto simp: edge_content_def on_labels_of_def mg_edge_label_def mg_edge_prop_def gn split: option.splits)
  qed (simp_all add: same_node_part_def edge_shape_def mg_src_def mg_tgt_def mg_is_directed_def gn cong: option.case_cong)
qed

section \<open>The refinement\<close>

lemma detach_refines:
  assumes "graph_wf G" "mg_is_node_alive G n"
  shows "graph_wf (mg_detach_delete_node n G) \<and> abs_graph (mg_detach_delete_node n G)
    = ((abs_nodes G)(n := None),
       \<lambda>e. case abs_edges G e of Some c \<Rightarrow> if incident n c then None else Some c | None \<Rightarrow> None)"
proof -
  let ?es = "incident_edges G n"
  let ?G = "with_overlay G (fold ov_delete_edge ?es (ovl G))"
  have es: "set ?es = {e. mg_is_edge_alive G e \<and> (mg_src G e = n \<or> mg_tgt G e = n)}"
    using assms(1) by (rule incident_edges_set)
  have alive: "\<forall>e \<in> set ?es. mg_is_edge_alive G e" using es by simp
  note d = delete_edges_refines [OF assms(1) alive]
  have "mg_is_node_alive ?G n" using assms(2) by (simp add: d(7))
  moreover have "mg_src ?G e \<noteq> n \<and> mg_tgt ?G e \<noteq> n" if "mg_is_edge_alive ?G e" for e
    using that es by (auto simp: d(4-6))
  ultimately have "graph_wf (with_overlay ?G (ov_delete_node n (ovl ?G)))
      \<and> abs_graph (with_overlay ?G (ov_delete_node n (ovl ?G))) = ((abs_nodes ?G)(n := None), abs_edges ?G)"
    using d(1) by (intro delete_node_step)
  moreover have "with_overlay ?G (ov_delete_node n (ovl ?G)) = mg_detach_delete_node n G"
    by (simp add: mg_detach_delete_node_def with_overlay_def)
  moreover have "abs_edges ?G = (\<lambda>e. case abs_edges G e of Some c \<Rightarrow> if incident n c then None else Some c | None \<Rightarrow> None)"
    using es by (auto simp: d(3) fun_eq_iff abs_edges_def incident_def)
  ultimately show ?thesis by (simp add: d(2))
qed

lemma delete_node_refines:
  assumes "graph_wf G" "mg_is_node_alive G n"
  shows "graph_wf (snd (mg_delete_node_no_detach n G)) \<and> abs_graph (snd (mg_delete_node_no_detach n G))
    = (if has_incident n (abs_edges G) then abs_graph G else ((abs_nodes G)(n := None), abs_edges G))"
proof -
  have es: "set (incident_edges G n) = {e. mg_is_edge_alive G e \<and> (mg_src G e = n \<or> mg_tgt G e = n)}"
    using assms(1) by (rule incident_edges_set)
  have iff: "has_incident n (abs_edges G) \<longleftrightarrow> incident_edges G n \<noteq> []"
    using es by (auto simp: has_incident_def abs_edges_def incident_def simp flip: set_empty)
  show ?thesis
  proof (cases "incident_edges G n = []")
    case True
    then have "mg_src G e \<noteq> n \<and> mg_tgt G e \<noteq> n" if "mg_is_edge_alive G e" for e using that es by auto
    then show ?thesis using delete_node_step [OF assms] True by (simp add: mg_delete_node_no_detach_def iff)
  qed (use assms(1) in \<open>simp add: mg_delete_node_no_detach_def iff\<close>)
qed

lemma node_props_refines:
  fixes G i g h f
  assumes "graph_wf G" "props_step g h f"
  defines "G' \<equiv> with_overlay G
     (if ov_base_node_count (ovl G) \<le> i then update_new_node i (\<lambda>n. n\<lparr>on_props := g (on_props n)\<rparr>) (ovl G)
      else ovl G\<lparr>ov_mod_node_props := bm_update i prop_mods_default h (ov_mod_node_props (ovl G))\<rparr>)"
  shows "graph_wf G' \<and> abs_graph G' = (change i (on_props_of f) (abs_nodes G), abs_edges G)"
proof (cases "ov_base_node_count (ovl G) \<le> i")
  case True
  then show ?thesis unfolding G'_def
    using node_new_change [OF assms(1) True, of "\<lambda>n. n\<lparr>on_props := g (on_props n)\<rparr>" "on_props_of f"] assms(2)
    by (simp add: props_step_def on_props_of_def)
next
  case False
  then have "i < ov_base_node_count (ovl G)" by simp
  from node_mod_change(1) [OF assms(1) this assms(2) labels_step_add [of "[]"]] show ?thesis
    using False by (simp add: G'_def)
qed

lemma node_labels_refines:
  fixes G i g h f
  assumes "graph_wf G" "labels_step g h f"
  defines "G' \<equiv> with_overlay G
     (if ov_base_node_count (ovl G) \<le> i then update_new_node i (\<lambda>n. n\<lparr>on_labels := g (on_labels n)\<rparr>) (ovl G)
      else ovl G\<lparr>ov_mod_node_labels := bm_update i label_mods_default h (ov_mod_node_labels (ovl G))\<rparr>)"
  shows "graph_wf G' \<and> abs_graph G' = (change i (on_labels_of f) (abs_nodes G), abs_edges G)"
proof (cases "ov_base_node_count (ovl G) \<le> i")
  case True
  then show ?thesis unfolding G'_def
    using node_new_change [OF assms(1) True, of "\<lambda>n. n\<lparr>on_labels := g (on_labels n)\<rparr>" "on_labels_of f"] assms(2)
    by (simp add: labels_step_def on_labels_of_def)
next
  case False
  then have "i < ov_base_node_count (ovl G)" by simp
  from node_mod_change(2) [OF assms(1) this props_step_set(1) assms(2)] show ?thesis
    using False by (simp add: G'_def)
qed

lemma edge_props_refines:
  fixes G i g h f
  assumes "graph_wf G" "props_step g h f"
  defines "G' \<equiv> with_overlay G
     (if ov_base_edge_count (ovl G) \<le> i then update_new_edge i (\<lambda>n. n\<lparr>oe_props := g (oe_props n)\<rparr>) (ovl G)
      else ovl G\<lparr>ov_mod_edge_props := bm_update i prop_mods_default h (ov_mod_edge_props (ovl G))\<rparr>)"
  shows "graph_wf G' \<and> abs_graph G' = (abs_nodes G, change i (map_prod id (on_props_of f)) (abs_edges G))"
proof (cases "ov_base_edge_count (ovl G) \<le> i")
  case True
  then show ?thesis unfolding G'_def
    using edge_new_change [OF assms(1) True, of "\<lambda>n. n\<lparr>oe_props := g (oe_props n)\<rparr>" "on_props_of f"] assms(2)
    by (simp add: props_step_def on_props_of_def)
next
  case False
  then have "i < ov_base_edge_count (ovl G)" by simp
  from edge_mod_change(1) [OF assms(1) this assms(2) labels_step_add [of "[]"]] show ?thesis
    using False by (simp add: G'_def)
qed

lemma edge_labels_refines:
  fixes G i g h f
  assumes "graph_wf G" "labels_step g h f"
  defines "G' \<equiv> with_overlay G
     (if ov_base_edge_count (ovl G) \<le> i then update_new_edge i (\<lambda>n. n\<lparr>oe_labels := g (oe_labels n)\<rparr>) (ovl G)
      else ovl G\<lparr>ov_mod_edge_labels := bm_update i label_mods_default h (ov_mod_edge_labels (ovl G))\<rparr>)"
  shows "graph_wf G' \<and> abs_graph G' = (abs_nodes G, change i (map_prod id (on_labels_of f)) (abs_edges G))"
proof (cases "ov_base_edge_count (ovl G) \<le> i")
  case True
  then show ?thesis unfolding G'_def
    using edge_new_change [OF assms(1) True, of "\<lambda>n. n\<lparr>oe_labels := g (oe_labels n)\<rparr>" "on_labels_of f"] assms(2)
    by (simp add: labels_step_def on_labels_of_def)
next
  case False
  then have "i < ov_base_edge_count (ovl G)" by simp
  from edge_mod_change(2) [OF assms(1) this props_step_set(1) assms(2)] show ?thesis
    using False by (simp add: G'_def)
qed

lemma replace_as_update: "bm_insert i (replace_mods ps) m = bm_update i prop_mods_default (\<lambda>_. replace_mods ps) m"
  by (simp add: bm_update_def)

text \<open>Every mutation is the change of the abstract graph that its specification says.\<close>

lemma mutation_step:
  assumes "graph_wf G" "mutation_ok m G"
  shows "graph_wf (apply_mutation m G)
    \<and> abs_graph (apply_mutation m G) = spec_mutation (next_node_id (ovl G)) (next_edge_id (ovl G)) m (abs_graph G)"
proof (cases m)
  case (InsertNode lt ps)
  then show ?thesis using insert_node_refines [of G lt ps] assms
    by (simp add: apply_mutation_def spec_mutation_def mutation_ok_def abs_graph_def)
next
  case (InsertEdge s t d lt ps)
  then show ?thesis using insert_edge_refines [of G lt ps s t d] assms
    by (simp add: apply_mutation_def spec_mutation_def mutation_ok_def abs_graph_def)
next
  case (DeleteEdge e)
  then show ?thesis using delete_edges_refines [of G "[e]"] assms
    by (simp add: apply_mutation_def spec_mutation_def mutation_ok_def abs_graph_def mg_delete_edge_def fun_upd_def)
next
  case (DetachDeleteNode n)
  then show ?thesis using detach_refines [of G n] assms
    by (simp add: apply_mutation_def spec_mutation_def mutation_ok_def abs_graph_def)
next
  case (DeleteNode n)
  then show ?thesis using delete_node_refines [of G n] assms
    by (simp add: apply_mutation_def spec_mutation_def mutation_ok_def abs_graph_def)
next
  case (SetNodeProp n k v)
  then show ?thesis using node_props_refines [OF assms(1) props_step_set(1), where i = n]
    by (simp add: apply_mutation_def spec_mutation_def abs_graph_def mg_set_node_prop_def Let_def)
next
  case (SetEdgeProp e k v)
  then show ?thesis using edge_props_refines [OF assms(1) props_step_set(1), where i = e]
    by (simp add: apply_mutation_def spec_mutation_def abs_graph_def mg_set_edge_prop_def Let_def)
next
  case (ReplaceNodeProps n ps)
  then show ?thesis using node_props_refines [OF assms(1) props_step_replace [of ps], where i = n] assms(2)
    by (simp add: apply_mutation_def spec_mutation_def mutation_ok_def abs_graph_def mg_replace_node_props_def replace_as_update Let_def split: if_splits)
next
  case (ReplaceEdgeProps e ps)
  then show ?thesis using edge_props_refines [OF assms(1) props_step_replace [of ps], where i = e] assms(2)
    by (simp add: apply_mutation_def spec_mutation_def mutation_ok_def abs_graph_def mg_replace_edge_props_def replace_as_update Let_def split: if_splits)
next
  case (RemoveNodeProp n k)
  then show ?thesis using node_props_refines [OF assms(1) props_step_set(2), where i = n]
    by (simp add: apply_mutation_def spec_mutation_def abs_graph_def mg_remove_node_prop_def Let_def)
next
  case (RemoveEdgeProp e k)
  then show ?thesis using edge_props_refines [OF assms(1) props_step_set(2), where i = e]
    by (simp add: apply_mutation_def spec_mutation_def abs_graph_def mg_remove_edge_prop_def Let_def)
next
  case (AddNodeLabel n l)
  then show ?thesis using node_labels_refines [OF assms(1) labels_step_add, where i = n]
    by (simp add: apply_mutation_def spec_mutation_def abs_graph_def mg_add_node_label_def Let_def)
next
  case (AddEdgeLabel e l)
  then show ?thesis using edge_labels_refines [OF assms(1) labels_step_add, where i = e]
    by (simp add: apply_mutation_def spec_mutation_def abs_graph_def mg_add_edge_label_def Let_def)
next
  case (RemoveNodeLabel n l)
  then show ?thesis using node_labels_refines [OF assms(1) labels_step_remove, where i = n]
    by (simp add: apply_mutation_def spec_mutation_def abs_graph_def mg_remove_node_label_def Let_def)
next
  case (RemoveEdgeLabel e l)
  then show ?thesis using edge_labels_refines [OF assms(1) labels_step_remove, where i = e]
    by (simp add: apply_mutation_def spec_mutation_def abs_graph_def mg_remove_edge_label_def Let_def)
qed

end
