(* ===== verification/GraphSessions.thy ===== *)
theory GraphSessions
  imports GraphMutations
begin

text \<open>
  Sessions on the in-memory store: building it from columns establishes the invariant,
  every session of mutations keeps it, and a rollback gives back the store as it was built.
\<close>

section \<open>Building the store\<close>

lemma adj_get_index_labels:
  "distinct ls \<Longrightarrow> adj_get (index_labels ls i m) l = adj_get m l @ (if l \<in> set ls then [i] else [])"
proof -
  have "adj_get (fold (\<lambda>l m. bm_update l [] (\<lambda>is. is @ [i]) m) ls m) l = adj_get m l @ (if l \<in> set ls then [i] else [])"
    if "distinct ls"
    using that by (induction ls arbitrary: m) (auto simp: adj_get_def map_of_bm_update split: option.splits)
  then show "distinct ls \<Longrightarrow> ?thesis" by (simp add: index_labels_def)
qed

lemma adj_get_fold_index:
  assumes "\<And>i. i \<in> set is \<Longrightarrow> distinct (ls i)"
  shows "adj_get (fold (\<lambda>i m. if P i then index_labels (ls i) (of_nat i) m else m) is m) l
    = adj_get m l @ map of_nat (filter (\<lambda>i. P i \<and> l \<in> set (ls i)) is)"
  using assms by (induction "is" arbitrary: m) (simp_all add: adj_get_index_labels)

lemma adj_get_nodes_index:
  assumes "list_all (\<lambda>lt. distinct (label_strings lt)) labels"
  shows "adj_get (build_nodes_index labels) l
    = map of_nat (filter (\<lambda>i. l \<in> set (label_strings (labels ! i))) [0..<length labels])"
  using adj_get_fold_index [of "[0..<length labels]" "\<lambda>i. label_strings (labels ! i)" "\<lambda>_. True" "[]" l] assms
  by (simp add: build_nodes_index_def list_all_length adj_get_def)

lemma adj_get_edges_index:
  assumes "list_all (\<lambda>lt. distinct (label_strings lt)) labels"
  shows "adj_get (build_edges_index want directed labels) l
    = map of_nat (filter (\<lambda>i. directed ! i = want \<and> l \<in> set (label_strings (labels ! i))) [0..<length labels])"
  using adj_get_fold_index [of "[0..<length labels]" "\<lambda>i. label_strings (labels ! i)" "\<lambda>i. directed ! i = want" "[]" l] assms
  by (simp add: build_edges_index_def list_all_length adj_get_def)

lemma length_adj_push [simp]: "length (adj_push n e adj) = length adj"
  by (simp add: adj_push_def)

lemma base_adj_push:
  "unat n < length adj \<Longrightarrow> base_adj (adj_push n e adj) k = base_adj adj k @ (if n = k then [e] else [])"
  by (auto simp: base_adj_def adj_push_def nth_list_update word_unat_eq_iff)

lemma fold_adj:
  assumes "list_all (\<lambda>i. unat (s ! i) < length adj) is"
  shows "base_adj (fold (\<lambda>i adj. if d ! i then adj_push (s ! i) (of_nat i) adj else adj) is adj) k
    = base_adj adj k @ map of_nat (filter (\<lambda>i. d ! i \<and> s ! i = k) is)"
  using assms
proof (induction "is" arbitrary: adj)
  case (Cons i "is")
  then have "unat (s ! i) < length adj" by simp
  from base_adj_push [OF this, of "of_nat i" k] show ?case using Cons by (cases "s ! i = k") simp_all
qed simp

lemma fold_undirected:
  assumes "list_all (\<lambda>i. unat (s ! i) < length adj \<and> unat (t ! i) < length adj) is"
  shows "base_adj (fold (\<lambda>i adj. if d ! i then adj else adj_push (t ! i) (of_nat i) (adj_push (s ! i) (of_nat i) adj)) is adj) k
    = base_adj adj k @ concat (map (\<lambda>i. if d ! i then [] else occurrences k s t i) is)"
  using assms
proof (induction "is" arbitrary: adj)
  case (Cons i "is")
  let ?adj = "adj_push (s ! i) (of_nat i) adj"
  have "unat (s ! i) < length adj" "unat (t ! i) < length ?adj" using Cons.prems by simp_all
  from base_adj_push [OF this(1), of "of_nat i" k] base_adj_push [OF this(2), of "of_nat i" k]
  show ?case using Cons by (simp add: occurrences_def)
qed simp

lemma base_adj_replicate [simp]: "base_adj (replicate n []) k = []"
  by (simp add: base_adj_def)

text \<open>What the loaders guarantee of the columns.\<close>

definition raw_ok ::
    "string list \<Rightarrow> label_type list \<Rightarrow> props list \<Rightarrow> string list \<Rightarrow> label_type list \<Rightarrow> props list \<Rightarrow>
     u32 list \<Rightarrow> u32 list \<Rightarrow> bool list \<Rightarrow> bool" where
  "raw_ok nn nl np en el ep es et ed \<longleftrightarrow>
     length nn < 2 ^ 32 \<and> length en < 2 ^ 32
     \<and> length nl = length nn \<and> length np = length nn
     \<and> length el = length en \<and> length ep = length en \<and> length es = length en \<and> length et = length en \<and> length ed = length en
     \<and> list_all (\<lambda>lt. distinct (label_strings lt)) nl \<and> list_all (\<lambda>lt. distinct (label_strings lt)) el
     \<and> list_all bm_wf np \<and> list_all bm_wf ep
     \<and> list_all (\<lambda>n. unat n < length nn) es \<and> list_all (\<lambda>n. unat n < length nn) et"

lemma from_raw_wf:
  fixes nn nl np en el ep es et ed
  assumes "raw_ok nn nl np en el ep es et ed"
  defines "G \<equiv> from_raw nn nl np en el ep es et ed"
  shows "graph_wf G"
proof -
  note ok = assms(1) [unfolded raw_ok_def]
  have base: "base_nodes G = length nn" "base_edges G = length en" "all_nodes G = length nn" "all_edges G = length en"
    using ok by (simp_all add: G_def from_raw_def overlay_new_def base_nodes_def base_edges_def all_nodes_def all_edges_def)
  have ends: "unat (es ! i) < length nn" "unat (et ! i) < length nn" if "i < length en" for i
    using ok that by (simp_all add: list_all_length)
  have "columns_wf G" using ok by (simp add: columns_wf_def base) (simp add: G_def from_raw_def)
  moreover have "index_wf G"
  proof -
    have "list_all (\<lambda>i. unat (es ! i) < length (replicate (length nn) []) \<and> unat (et ! i) < length (replicate (length nn) []))
        [0..<length en]"
      using ends by (simp add: list_all_iff)
    note adj = fold_undirected [OF this] fold_adj [of es "replicate (length nn) []" "[0..<length en]"]
      fold_adj [of et "replicate (length nn) []" "[0..<length en]"]
    have "list_all (\<lambda>i. unat (es ! i) < length nn) [0..<length en]" "list_all (\<lambda>i. unat (et ! i) < length nn) [0..<length en]"
      using ends by (simp_all add: list_all_iff)
    then show ?thesis
      using ok adj unfolding index_wf_def base
      by (simp add: G_def from_raw_def adj_get_nodes_index adj_get_edges_index build_adj_def build_undirected_def cong: if_cong)
  qed
  moreover have "overlay_wf G"
    using ok unfolding overlay_wf_def Let_def base
    by (simp add: G_def from_raw_def overlay_new_def mods_ok_def adj_get_def new_where_def overlay_ids_def)
  moreover have "ends_alive G"
    unfolding ends_alive_def
  proof (intro allI impI)
    fix e assume "mg_is_edge_alive G e"
    then have e: "unat e < length en" by (simp add: alive_iff base)
    have "mg_src G (of_nat (unat e)) = mg_edge_src G ! unat e" "mg_tgt G (of_nat (unat e)) = mg_edge_tgt G ! unat e"
      using e by (intro edge_reads_base; simp add: base)+
    then have "mg_src G e = es ! unat e" "mg_tgt G e = et ! unat e" by (simp_all add: G_def from_raw_def)
    then show "mg_is_node_alive G (mg_src G e) \<and> mg_is_node_alive G (mg_tgt G e)"
      using ends e by (simp add: alive_iff base) (simp add: G_def from_raw_def overlay_new_def)
  qed
  ultimately show ?thesis by (simp add: graph_wf_def)
qed

section \<open>Sessions\<close>

fun session_ok :: "mutation list \<Rightarrow> mem_graph \<Rightarrow> bool" where
  "session_ok [] G \<longleftrightarrow> True"
| "session_ok (m # ms) G \<longleftrightarrow> mutation_ok m G \<and> session_ok ms (apply_mutation m G)"

definition run_session :: "mutation list \<Rightarrow> mem_graph \<Rightarrow> mem_graph" where
  "run_session ms G = fold apply_mutation ms G"

text \<open>A mutation touches the overlay only, and not the size of the base.\<close>

definition same_base :: "overlay \<Rightarrow> overlay \<Rightarrow> bool" where
  "same_base a b \<longleftrightarrow> ov_base_node_count a = ov_base_node_count b \<and> ov_base_edge_count a = ov_base_edge_count b"

lemma apply_mutation_overlay:
  "\<exists>ov. apply_mutation m G = with_overlay G ov \<and> same_base ov (ovl G)"
proof -
  have id: "G = with_overlay G (ovl G)" by (simp add: with_overlay_def)
  show ?thesis
  proof (cases m)
    case (DeleteNode n)
    then show ?thesis using id
      by (auto simp: apply_mutation_def mg_delete_node_no_detach_def same_base_def ov_delete_node_def touch_node_def)
  qed (force simp: apply_mutation_def same_base_def mg_insert_node_def mg_insert_edge_def ov_insert_node_def ov_insert_edge_def
      touch_node_def mg_delete_edge_def ov_delete_edge_def mg_detach_delete_node_def ov_delete_node_def fold_delete_edge
      mg_set_node_prop_def mg_set_edge_prop_def mg_replace_node_props_def mg_replace_edge_props_def
      mg_remove_node_prop_def mg_remove_edge_prop_def mg_add_node_label_def mg_add_edge_label_def
      mg_remove_node_label_def mg_remove_edge_label_def update_new_node_def update_new_edge_def Let_def)+
qed

lemma run_session_overlay: "\<exists>ov. run_session ms G = with_overlay G ov \<and> same_base ov (ovl G)"
proof (induction ms rule: rev_induct)
  case Nil
  then show ?case by (auto simp: run_session_def with_overlay_def same_base_def intro!: exI [of _ "ovl G"])
next
  case (snoc m ms)
  then obtain ov where "run_session ms G = with_overlay G ov" "same_base ov (ovl G)" by blast
  then show ?case
    using apply_mutation_overlay [of m "with_overlay G ov"]
    by (auto simp: run_session_def with_overlay_def same_base_def)
qed

lemma run_session_wf: "graph_wf G \<Longrightarrow> session_ok ms G \<Longrightarrow> graph_wf (run_session ms G)"
proof (induction ms arbitrary: G)
  case (Cons m ms)
  then have "graph_wf (apply_mutation m G)" by (simp add: mutation_step)
  then show ?case using Cons by (simp add: run_session_def)
qed (simp add: run_session_def)

section \<open>The properties of the store\<close>

text \<open>Two nodes and one undirected edge between them.\<close>

definition sample_graph :: mem_graph where
  "sample_graph = from_raw [''a'', ''b''] [LLabel ''A'', LStar] [[], []] [''e''] [LLabel ''R''] [[]] [0] [1] [False]"

lemma sample_graph_wf: "graph_wf sample_graph"
  unfolding sample_graph_def by (rule from_raw_wf) (simp add: raw_ok_def)

lemma sample_graph_alive:
  "mg_is_node_alive sample_graph i = (unat i < 2)" "mg_is_edge_alive sample_graph e = (unat e < 1)"
  "all_edges sample_graph = 1"
  by (simp_all add: alive_iff all_nodes_def all_edges_def base_nodes_def base_edges_def sample_graph_def from_raw_def overlay_new_def)

text \<open>
  C8: Every mutation of the in-memory store (insertions, deletions with and without
  detaching, property and label changes, on base records and on records of the session) is,
  through the overlay's bookkeeping, exactly the corresponding change of the abstract
  property graph, and it keeps the store's invariant: columns, label indexes, adjacency
  lists, tombstones and recorded changes stay consistent, and no live edge is left dangling.
\<close>

theorem mutation_refines:
  assumes "graph_wf G" "mutation_ok m G"
  shows "graph_wf (apply_mutation m G)
    \<and> abs_graph (apply_mutation m G) = spec_mutation (next_node_id (ovl G)) (next_edge_id (ovl G)) m (abs_graph G)"
  using assms by (rule mutation_step)

theorem mutation_refines_witness:
  "graph_wf sample_graph \<and> mutation_ok (InsertEdge 0 0 False (LLabel ''S'') []) sample_graph
   \<and> graph_wf (apply_mutation (InsertEdge 0 0 False (LLabel ''S'') []) sample_graph)"
proof -
  have "mutation_ok (InsertEdge 0 0 False (LLabel ''S'') []) sample_graph"
    by (simp add: mutation_ok_def sample_graph_alive labels_ok_def labels_from_strings_def)
  then show ?thesis using mutation_refines [OF sample_graph_wf] sample_graph_wf by blast
qed

text \<open>
  C16: A session of mutations on a store that was built from well-formed columns ends in a
  store that satisfies the whole invariant, and a rollback gives back the store exactly as it
  was built: columns, indexes and an empty overlay over the same base counts.
\<close>

theorem session_rollback:
  assumes "raw_ok nn nl np en el ep es et ed"
    and "session_ok ms (from_raw nn nl np en el ep es et ed)"
  shows "graph_wf (run_session ms (from_raw nn nl np en el ep es et ed))
    \<and> mg_rollback_session (run_session ms (from_raw nn nl np en el ep es et ed)) = from_raw nn nl np en el ep es et ed"
proof -
  let ?G = "from_raw nn nl np en el ep es et ed"
  obtain ov where ov: "run_session ms ?G = with_overlay ?G ov" "same_base ov (ovl ?G)"
    using run_session_overlay by blast
  then have "mg_rollback_session (run_session ms ?G) = ?G"
    by (simp add: mg_rollback_session_def with_overlay_def same_base_def ov_clear_def from_raw_def overlay_new_def)
  then show ?thesis using run_session_wf from_raw_wf assms by blast
qed

theorem session_rollback_witness:
  "session_ok [DeleteEdge 0, DeleteNode 1, AddNodeLabel 0 ''B''] sample_graph
   \<and> mg_rollback_session (run_session [DeleteEdge 0, DeleteNode 1, AddNodeLabel 0 ''B''] sample_graph) = sample_graph"
proof -
  have "session_ok [DeleteEdge 0, DeleteNode 1, AddNodeLabel 0 ''B''] sample_graph"
    by (simp add: mutation_ok_def sample_graph_alive apply_mutation_def mg_delete_edge_def)
      (simp add: sample_graph_def from_raw_def overlay_new_def with_overlay_def ov_delete_edge_def alive_iff all_nodes_def base_nodes_def)
  then show ?thesis
    using session_rollback [of "[''a'', ''b'']" "[LLabel ''A'', LStar]" "[[], []]" "[''e'']" "[LLabel ''R'']" "[[]]" "[0]" "[1]" "[False]"]
    by (simp add: sample_graph_def raw_ok_def)
qed

text \<open>
  C12: In a well-formed store the answer of the label index for nodes, and of the index for
  edges of one direction, lists exactly the live elements that carry the label, each once,
  through every overlay change; no answer is given only when there is no such element. The
  adjacency of a node lists the live directed edges that leave (enter) it in the order of
  the edge list.
\<close>

theorem indexes_exact:
  assumes "graph_wf G"
  shows "(case mg_nodes_with_label G l of Some v \<Rightarrow> distinct v \<and> set v = label_hits G l | None \<Rightarrow> label_hits G l = {})
    \<and> (case edges_with_label_dir G l want of Some v \<Rightarrow> distinct v \<and> set v = edge_hits G l want | None \<Rightarrow> edge_hits G l want = {})
    \<and> mg_outgoing_edges G n = filter (\<lambda>e. mg_src G e = n) (mg_edges_directed G)
    \<and> mg_incoming_edges G n = filter (\<lambda>e. mg_tgt G e = n) (mg_edges_directed G)
    \<and> set (mg_undirected_edges_of G n)
      = {e. mg_is_edge_alive G e \<and> \<not> mg_is_directed G e \<and> (mg_src G e = n \<or> mg_tgt G e = n)}"
  using nodes_with_label_spec [OF assms] edges_with_label_spec [OF assms] adjacency_directed [OF assms]
    undirected_edges_set [OF assms] by blast

theorem indexes_exact_witness:
  "graph_wf sample_graph \<and> set (mg_undirected_edges_of sample_graph 1) = {0}"
  using indexes_exact [OF sample_graph_wf, where n = 1] sample_graph_wf
  by (auto simp: sample_graph_alive word_unat_eq_iff)
    (auto simp: sample_graph_def mg_is_directed_def mg_src_def mg_tgt_def get_new_edge_def from_raw_def overlay_new_def vec_get_def)

lemma count_concat_own:
  assumes "distinct xs" "\<And>x y. y \<in> set (f x) \<Longrightarrow> y = x"
  shows "count_list (concat (map f xs)) e = (if e \<in> set xs then count_list (f e) e else 0)"
  using assms(1)
proof (induction xs)
  case (Cons x xs)
  have "count_list (f x) e = 0" if "x \<noteq> e" using that assms(2) by (auto simp: count_list_0_iff)
  then show ?case using Cons by (auto simp: count_list_append)
qed simp

text \<open>
  C40: In a well-formed store the undirected adjacency of a node lists the live undirected
  edges at the node and no others: an edge between two different nodes once at either end, a
  loop twice at its node when the store was built with it, but only once when a session
  inserted it, so how often the adjacency has a loop depends on how it came into the store.
\<close>

theorem undirected_adjacency_counts:
  assumes "graph_wf G"
  shows "count_list (mg_undirected_edges_of G n) e =
    (if e \<notin> set (mg_edges_undirected G) then 0
     else if mg_src G e = n \<and> mg_tgt G e = n then (if e < ov_base_edge_count (ovl G) then 2 else 1)
     else if mg_src G e = n \<or> mg_tgt G e = n then 1
     else 0)"
proof -
  have ov: "overlay_wf G" using assms by (simp add: graph_wf_def)
  have "count_list (mg_undirected_edges_of G n) e = (if e \<in> set (mg_edges_undirected G) then count_list (listed_at G n e) e else 0)"
    unfolding adjacency_listed [OF assms]
    by (rule count_concat_own [OF set_edges(4) [OF ov]]) (auto simp: listed_at_def edge_ends_def split: if_splits)
  then show ?thesis by (auto simp: listed_at_def edge_ends_def)
qed

text \<open>A node with a loop that it was built with and one that the session inserts.\<close>

definition loop_graph :: mem_graph where
  "loop_graph = run_session [InsertEdge 0 0 False LStar []] (from_raw [''a''] [LStar] [[]] [''e''] [LStar] [[]] [0] [0] [False])"

theorem undirected_adjacency_counts_witness:
  "mg_undirected_edges_of loop_graph 0 = [0, 0, 1]
   \<and> count_list (mg_undirected_edges_of loop_graph 0) 0 = 2 \<and> count_list (mg_undirected_edges_of loop_graph 0) 1 = 1"
proof -
  have "graph_wf (from_raw [''a''] [LStar] [[]] [''e''] [LStar] [[]] [0] [0] [False])"
    by (rule from_raw_wf) (simp add: raw_ok_def)
  moreover have "session_ok [InsertEdge 0 0 False LStar []] (from_raw [''a''] [LStar] [[]] [''e''] [LStar] [[]] [0] [0] [False])"
    by (simp add: mutation_ok_def labels_ok_def labels_from_strings_def)
      (simp add: from_raw_def overlay_new_def alive_iff all_nodes_def base_nodes_def all_edges_def base_edges_def)
  ultimately have wf: "graph_wf loop_graph" unfolding loop_graph_def by (rule run_session_wf)
  have "0 \<in> set (mg_edges_undirected loop_graph)" "1 \<in> set (mg_edges_undirected loop_graph)"
    "mg_src loop_graph 0 = 0" "mg_tgt loop_graph 0 = 0" "mg_src loop_graph 1 = 0" "mg_tgt loop_graph 1 = 0"
    "ov_base_edge_count (ovl loop_graph) = 1" "mg_undirected_edges_of loop_graph 0 = [0, 0, 1]"
    by code_simp+
  then show ?thesis using undirected_adjacency_counts [OF wf, of 0 0] undirected_adjacency_counts [OF wf, of 0 1] by simp
qed

end
