(* ===== verification/GraphStores.thy ===== *)
theory GraphStores
  imports Evaluator GraphSessions
begin

text \<open>
  The laws a graph store keeps for the evaluator (the contract of \<open>GraphAccess\<close>), and the
  in-memory store as a provider of them. The law of the undirected adjacency counts a loop
  twice, as the edge scan does.
\<close>

section \<open>The contract\<close>

definition has_label :: "string \<Rightarrow> label_type \<Rightarrow> bool" where
  "has_label l lt \<longleftrightarrow> l \<in> set (label_strings lt)"

locale graph_store =
  fixes A :: graph_access
  assumes distinct_nodes: "distinct (ga_nodes A)"
    and distinct_directed: "distinct (ga_edges_directed A)"
    and distinct_undirected: "distinct (ga_edges_undirected A)"
    and ends: "e \<in> set (ga_edges_directed A) \<union> set (ga_edges_undirected A) \<Longrightarrow>
      ga_src A e \<in> set (ga_nodes A) \<and> ga_tgt A e \<in> set (ga_nodes A)"
    and outgoing: "mset (ga_outgoing A n) = mset (filter (\<lambda>e. ga_src A e = n) (ga_edges_directed A))"
    and incoming: "mset (ga_incoming A n) = mset (filter (\<lambda>e. ga_tgt A e = n) (ga_edges_directed A))"
    and undirected_of: "mset (ga_undirected_of A n)
      = mset (concat (map (edge_ends (ga_src A) (ga_tgt A) n) (ga_edges_undirected A)))"
    and node_index: "ga_nodes_with_label A l = Some v \<Longrightarrow>
      distinct v \<and> set v = {i \<in> set (ga_nodes A). has_label l (ga_node_labels A i)}"
    and directed_index: "ga_directed_with_label A l = Some v \<Longrightarrow>
      distinct v \<and> set v = {e \<in> set (ga_edges_directed A). has_label l (ga_edge_labels A e)}"
    and undirected_index: "ga_undirected_with_label A l = Some v \<Longrightarrow>
      distinct v \<and> set v = {e \<in> set (ga_edges_undirected A). has_label l (ga_edge_labels A e)}"
    and lookup_node_eq: "ga_lookup_node_eq A l a w = Some v \<Longrightarrow>
      distinct v \<and> set v \<subseteq> set (ga_nodes A)
      \<and> {i \<in> set (ga_nodes A). has_label l (ga_node_labels A i)
           \<and> (\<exists>u. map_of (ga_node_props A i) a = Some u \<and> cmp_values u Eq w)} \<subseteq> set v"

text \<open>
  The label indexes answer by the labels an element carries; the filter lets an element
  without labels pass every label test. They agree where every element has a label.
\<close>

definition labelled :: "label_type \<Rightarrow> bool" where
  "labelled lt \<longleftrightarrow> label_from_list (label_strings lt) = Some lt"

locale labelled_store = graph_store +
  assumes nodes_labelled: "i \<in> set (ga_nodes A) \<Longrightarrow> labelled (ga_node_labels A i)"
    and edges_labelled: "e \<in> set (ga_edges_directed A) \<union> set (ga_edges_undirected A) \<Longrightarrow> labelled (ga_edge_labels A e)"

section \<open>Candidates\<close>

context labelled_store
begin

lemma mset_filter_candidates:
  assumes "distinct cs" "distinct xs" "set cs \<subseteq> set xs" "\<And>x. x \<in> set xs \<Longrightarrow> P x \<Longrightarrow> x \<in> set cs"
  shows "mset (filter P cs) = mset (filter P xs)"
  by (rule set_eq_iff_mset_eq_distinct [THEN iffD1]) (use assms in auto)

lemma filter_element_labels:
  assumes "filter_element lt ps (desc_filter (Some d))" "labelled lt" "l \<in> set (required_labels (dt_label (d_type d)))"
  shows "has_label l lt"
proof -
  have "label_subtype lt (dt_label (d_type d))"
    using assms(1) by (auto simp: filter_element_def desc_filter_def desc_subtype_def split: if_splits)
  then show ?thesis
    using required_sound [of "label_strings lt" lt] assms(2,3) by (auto simp: has_label_def labelled_def)
qed

lemma smallest_in:
  assumes "smallest_label_set lt lookup = Some v"
  shows "\<exists>l \<in> set (required_labels lt). lookup l = Some v"
proof -
  let ?found = "List.map_filter lookup (required_labels lt)"
  have "?found \<noteq> []" "v = arg_min_list length ?found"
    using assms by (auto simp: smallest_label_set_def Let_def split: if_splits)
  then have "v \<in> set ?found" using arg_min_list_in by blast
  then show ?thesis by (auto simp: List.map_filter_def)
qed

lemma candidate_nodes:
  assumes "rt_graph rt = A" "rt_pins rt = []"
  shows "mset (filter (\<lambda>i. filter_node A i d) (get_candidate_nodes rt d)) = mset (filter (\<lambda>i. filter_node A i d) (ga_nodes A))"
proof (cases d)
  case (Some desc)
  let ?labels = "required_labels (dt_label (d_type desc))"
  have passes: "has_label l (ga_node_labels A i)" if "i \<in> set (ga_nodes A)" "filter_node A i d" "l \<in> set ?labels" for i l
    using that nodes_labelled by (auto simp: filter_node_def Some intro: filter_element_labels)
  have pred: "\<exists>u. map_of (ga_node_props A i) a = Some u \<and> cmp_values u op w"
    if "filter_node A i d" "(a, op, w) \<in> set (d_value_preds desc)" for i a op w
    using that by (auto simp: filter_node_def Some filter_element_def desc_filter_def check_value_preds_def list_all_iff
        split: if_splits option.splits)
  have first: "\<exists>x \<in> set xs. f x = Some y" if "first_some f xs = Some y" for f :: "'x \<Rightarrow> 'y option" and xs y
    using that by (induction xs) (auto split: option.splits)
  consider v where "get_candidate_nodes rt d = v" "indexed_candidates A desc = Some v"
    | v where "get_candidate_nodes rt d = v" "smallest_label_set (dt_label (d_type desc)) (ga_nodes_with_label A) = Some v"
    | "get_candidate_nodes rt d = ga_nodes A"
  proof -
    have pins: "Option.bind (d_var desc) (map_of (rt_pins rt)) = None" using assms(2) by (cases "d_var desc") simp_all
    show ?thesis
      using that assms(1) by (cases "indexed_candidates A desc"; cases "smallest_label_set (dt_label (d_type desc)) (ga_nodes_with_label A)")
        (simp_all add: get_candidate_nodes_def Some pins Let_def)
  qed
  then show ?thesis
  proof cases
    case (1 v)
    then obtain a w l where "(a, Eq, w) \<in> set (d_value_preds desc)" "l \<in> set ?labels" "ga_lookup_node_eq A l a w = Some v"
      by (auto simp: indexed_candidates_def Let_def split: if_splits dest!: first)
    then show ?thesis
      using lookup_node_eq [of l a w v] passes pred 1 distinct_nodes by (intro mset_filter_candidates) blast+
  next
    case (2 v)
    then obtain l where "l \<in> set ?labels" "ga_nodes_with_label A l = Some v" using smallest_in by blast
    then show ?thesis
      using node_index [of l v] passes 2 distinct_nodes by (intro mset_filter_candidates) blast+
  qed simp
qed (simp add: get_candidate_nodes_def assms)

lemma candidate_edges_of:
  assumes "distinct xs" "\<And>e. e \<in> set xs \<Longrightarrow> labelled (ga_edge_labels A e)"
    and "\<And>l v. lookup l = Some v \<Longrightarrow> distinct v \<and> set v = {e \<in> set xs. has_label l (ga_edge_labels A e)}"
  shows "mset (filter (\<lambda>e. filter_edge A e d) (candidate_edges d lookup xs)) = mset (filter (\<lambda>e. filter_edge A e d) xs)"
proof (cases d)
  case (Some desc)
  show ?thesis
  proof (cases "smallest_label_set (dt_label (d_type desc)) lookup")
    case (Some v)
    then obtain l where l: "l \<in> set (required_labels (dt_label (d_type desc)))" "lookup l = Some v" using smallest_in by blast
    have "has_label l (ga_edge_labels A e)" if "e \<in> set xs" "filter_edge A e d" for e
      using that l assms(2) by (auto simp: filter_edge_def \<open>d = Some desc\<close> intro: filter_element_labels)
    then have "mset (filter (\<lambda>e. filter_edge A e d) v) = mset (filter (\<lambda>e. filter_edge A e d) xs)"
      using assms(1) assms(3) [OF l(2)] by (intro mset_filter_candidates) blast+
    then show ?thesis by (simp add: candidate_edges_def \<open>d = Some desc\<close> Some)
  qed (simp add: candidate_edges_def Some)
qed (simp add: candidate_edges_def)

lemma candidate_directed:
  "mset (filter (\<lambda>e. filter_edge A e d) (candidate_edges d (ga_directed_with_label A) (ga_edges_directed A)))
    = mset (filter (\<lambda>e. filter_edge A e d) (ga_edges_directed A))"
  by (rule candidate_edges_of) (use distinct_directed edges_labelled directed_index in auto)

lemma candidate_undirected:
  "mset (filter (\<lambda>e. filter_edge A e d) (candidate_edges d (ga_undirected_with_label A) (ga_edges_undirected A)))
    = mset (filter (\<lambda>e. filter_edge A e d) (ga_edges_undirected A))"
  by (rule candidate_edges_of) (use distinct_undirected edges_labelled undirected_index in auto)

end

section \<open>The in-memory store\<close>

lemma mem_graph_store:
  assumes "graph_wf G" "no_new_loops G"
  shows "graph_store (mem_access G)"
proof -
  have ov: "overlay_wf G" using assms(1) by (simp add: graph_wf_def)
  note s = set_edges [OF ov] set_mg_nodes [OF ov]
  show ?thesis
  proof
    show "distinct (ga_nodes (mem_access G))" "distinct (ga_edges_directed (mem_access G))"
      "distinct (ga_edges_undirected (mem_access G))"
      using s distinct_mg_nodes [OF ov] by (simp_all add: mem_access_def)
    show "mset (ga_outgoing (mem_access G) n) = mset (filter (\<lambda>e. ga_src (mem_access G) e = n) (ga_edges_directed (mem_access G)))"
      "mset (ga_incoming (mem_access G) n) = mset (filter (\<lambda>e. ga_tgt (mem_access G) e = n) (ga_edges_directed (mem_access G)))"
      "mset (ga_undirected_of (mem_access G) n)
        = mset (concat (map (edge_ends (ga_src (mem_access G)) (ga_tgt (mem_access G)) n) (ga_edges_undirected (mem_access G))))" for n
      using adjacency_directed [OF assms(1)] adjacency_undirected [OF assms] by (simp_all add: mem_access_def)
    show "ga_src (mem_access G) e \<in> set (ga_nodes (mem_access G)) \<and> ga_tgt (mem_access G) e \<in> set (ga_nodes (mem_access G))"
      if "e \<in> set (ga_edges_directed (mem_access G)) \<union> set (ga_edges_undirected (mem_access G))" for e
      using that assms(1) s by (auto simp: mem_access_def graph_wf_def ends_alive_def)
    show "distinct v \<and> set v = {i \<in> set (ga_nodes (mem_access G)). has_label l (ga_node_labels (mem_access G) i)}"
      if "ga_nodes_with_label (mem_access G) l = Some v" for l v
      using that nodes_with_label_spec [OF assms(1), of l] s by (simp add: mem_access_def label_hits_def has_label_def)
    show "distinct v \<and> set v = {e \<in> set (ga_edges_directed (mem_access G)). has_label l (ga_edge_labels (mem_access G) e)}"
      if "ga_directed_with_label (mem_access G) l = Some v" for l v
      using that edges_with_label_spec [OF assms(1), of l True] s by (simp add: mem_access_def edge_hits_def has_label_def)
    show "distinct v \<and> set v = {e \<in> set (ga_edges_undirected (mem_access G)). has_label l (ga_edge_labels (mem_access G) e)}"
      if "ga_undirected_with_label (mem_access G) l = Some v" for l v
      using that edges_with_label_spec [OF assms(1), of l False] s by (simp add: mem_access_def edge_hits_def has_label_def)
  qed (simp add: mem_access_def)
qed

end
