(* ===== verification/EvalSpec.thy ===== *)
theory EvalSpec
  imports GraphStores
begin

text \<open>
  A reference semantics of bounded path patterns: scans of the whole graph and nested loops,
  no index, no adjacency, no limit; the walks of a graph; and what it means that rows are
  the rows of the reference cut at a limit.
\<close>

section \<open>The reference\<close>

definition compatible :: "row \<Rightarrow> row \<Rightarrow> bool" where
  "compatible r1 r2 \<longleftrightarrow> can_unify (row_mu r1) (row_mu r2)"

definition meets :: "row \<Rightarrow> row \<Rightarrow> bool" where
  "meets r1 r2 \<longleftrightarrow> row_last r1 \<noteq> None \<and> row_first r2 = row_last r1"

definition glue :: "row \<Rightarrow> row \<Rightarrow> row" where
  "glue r1 r2 = extend_path r1 (row_path r2) (unify (row_mu r1) (row_mu r2))"

definition spec_concat :: "row list \<Rightarrow> row list \<Rightarrow> row list" where
  "spec_concat rs1 rs2 = concat (map (\<lambda>r1. map (glue r1) (filter (\<lambda>r2. meets r1 r2 \<and> compatible r1 r2) rs2)) rs1)"

definition spec_join :: "row list \<Rightarrow> row list \<Rightarrow> row list" where
  "spec_join rs1 rs2 = concat (map (\<lambda>r1. map (join_rows r1) (filter (compatible r1) rs2)) rs1)"

definition spec_nodes :: "graph_access \<Rightarrow> 'e descriptor option \<Rightarrow> row list" where
  "spec_nodes A d =
     map (\<lambda>i. row_new [PNode i] (from_optional (desc_var d) (PNode i))) (filter (\<lambda>i. filter_node A i d) (ga_nodes A))"

definition spec_right :: "graph_access \<Rightarrow> 'e descriptor option \<Rightarrow> row list" where
  "spec_right A d =
     map (\<lambda>e. edge_row d (ga_src A e) (PEdgeDirectional e) (ga_tgt A e))
       (filter (\<lambda>e. filter_edge A e d) (ga_edges_directed A))"

definition spec_left :: "graph_access \<Rightarrow> 'e descriptor option \<Rightarrow> row list" where
  "spec_left A d =
     map (\<lambda>e. edge_row d (ga_tgt A e) (PEdgeDirectional e) (ga_src A e))
       (filter (\<lambda>e. filter_edge A e d) (ga_edges_directed A))"

definition spec_undirected :: "graph_access \<Rightarrow> 'e descriptor option \<Rightarrow> row list" where
  "spec_undirected A d =
     concat (map (\<lambda>e. [edge_row d (ga_src A e) (PEdgeUndirectional e) (ga_tgt A e),
                       edge_row d (ga_tgt A e) (PEdgeUndirectional e) (ga_src A e)])
       (filter (\<lambda>e. filter_edge A e d) (ga_edges_undirected A)))"

definition spec_edge :: "graph_access \<Rightarrow> 'e path_pattern \<Rightarrow> row list" where
  "spec_edge A p =
     (case p of
        EdgeRight d \<Rightarrow> spec_right A d
      | EdgeLeft d \<Rightarrow> spec_left A d
      | EdgeUndirected d \<Rightarrow> spec_undirected A d
      | EdgeAnyDirection d \<Rightarrow> spec_right A d @ spec_left A d @ spec_undirected A d
      | _ \<Rightarrow> [])"

text \<open>
  A condition on a single edge to the right of a concatenation is tested on the whole row,
  as the code does; anywhere else it is tested on the rows of the operand it stands on.
\<close>

definition spec_concat_of :: "'e runtime \<Rightarrow> row list \<Rightarrow> 'e path_pattern \<Rightarrow> row list \<Rightarrow> row list" where
  "spec_concat_of rt rs1 q rs2 =
     (case q of
        Filter q' x \<Rightarrow>
          if is_edge_pattern q'
          then filter (\<lambda>r. rt_holds rt (row_mu r) x) (spec_concat rs1 (spec_edge (rt_graph rt) q'))
          else spec_concat rs1 rs2
      | _ \<Rightarrow> spec_concat rs1 rs2)"

text \<open>
  An unbounded repetition under a mode: the rows of every number of repetitions that satisfy
  it. Their paths are no longer than \<open>walk_bound\<close> edges.
\<close>

definition walk_bound :: "graph_access \<Rightarrow> nat" where
  "walk_bound A = length (ga_nodes A) + length (ga_edges_directed A) + length (ga_edges_undirected A)"

definition mode_ok :: "path_mode \<Rightarrow> row \<Rightarrow> bool" where
  "mode_ok mode r = path_satisfies_mode (row_path r) mode"

definition spec_mode :: "graph_access \<Rightarrow> string list \<Rightarrow> row list \<Rightarrow> nat \<Rightarrow> path_mode \<Rightarrow> row list" where
  "spec_mode A vars inner lb mode =
     concat (map (\<lambda>k. filter (mode_ok mode) (repetition_pattern A vars inner k)) [lb..<Suc (walk_bound A)])"

fun spec_rows :: "'e runtime \<Rightarrow> policy \<Rightarrow> 'e path_pattern \<Rightarrow> row list" where
  "spec_rows rt pol (NodeP d) = spec_nodes (rt_graph rt) d"
| "spec_rows rt pol (EdgeRight d) = spec_right (rt_graph rt) d"
| "spec_rows rt pol (EdgeLeft d) = spec_left (rt_graph rt) d"
| "spec_rows rt pol (EdgeUndirected d) = spec_undirected (rt_graph rt) d"
| "spec_rows rt pol (EdgeAnyDirection d) =
     spec_right (rt_graph rt) d @ spec_left (rt_graph rt) d @ spec_undirected (rt_graph rt) d"
| "spec_rows rt pol (Concat p q) = spec_concat_of rt (spec_rows rt pol p) q (spec_rows rt pol q)"
| "spec_rows rt pol (UnionP p q) =
     map (\<lambda>r. r\<lparr>row_mu := fill_nones (freevars (UnionP p q)) (row_mu r)\<rparr>) (spec_rows rt pol p @ spec_rows rt pol q)"
| "spec_rows rt pol (Filter p x) = filter (\<lambda>r. rt_holds rt (row_mu r) x) (spec_rows rt pol p)"
| "spec_rows rt pol (Repeat p lb ub) =
     (case ub of
        None \<Rightarrow>
          (case pol of
             PMode mode \<Rightarrow> spec_mode (rt_graph rt) (freevars p) (spec_rows rt pol p) lb mode
           | _ \<Rightarrow> [])
      | Some ub \<Rightarrow> concat (map (repetition_pattern (rt_graph rt) (freevars p) (spec_rows rt pol p)) [lb..<Suc ub]))"
| "spec_rows rt pol (Questioned p) = spec_nodes (rt_graph rt) (None :: 'e descriptor option) @ spec_rows rt pol p"
| "spec_rows rt pol (Join p q) = spec_join (spec_rows rt pol p) (spec_rows rt pol q)"
| "spec_rows rt pol (Selected pre p) = apply_path_prefix (spec_rows rt (unbounded_policy_for (Some pre)) p) pre"
| "spec_rows rt pol (Named x p) = map (name_path x) (spec_rows rt pol p)"

section \<open>Walks\<close>

definition crosses :: "graph_access \<Rightarrow> u32 \<Rightarrow> pvalue \<Rightarrow> u32 \<Rightarrow> bool" where
  "crosses A n e m \<longleftrightarrow>
     (case e of
        PEdgeDirectional i \<Rightarrow> i \<in> set (ga_edges_directed A) \<and> (n, m) \<in> {(ga_src A i, ga_tgt A i), (ga_tgt A i, ga_src A i)}
      | PEdgeUndirectional i \<Rightarrow> i \<in> set (ga_edges_undirected A) \<and> (n, m) \<in> {(ga_src A i, ga_tgt A i), (ga_tgt A i, ga_src A i)}
      | _ \<Rightarrow> False)"

fun is_walk :: "graph_access \<Rightarrow> path \<Rightarrow> bool" where
  "is_walk A [PNode n] = (n \<in> set (ga_nodes A))"
| "is_walk A (PNode n # e # PNode m # p) =
     (n \<in> set (ga_nodes A) \<and> crosses A n e m \<and> is_walk A (PNode m # p))"
| "is_walk A _ = False"

definition row_inv :: "graph_access \<Rightarrow> row \<Rightarrow> bool" where
  "row_inv A r \<longleftrightarrow> row_paths r \<noteq> [] \<and> list_all (is_walk A) (row_paths r) \<and> as_wf (row_mu r) \<and> as_scalars (row_mu r) = []"

lemma is_walk_append:
  "is_walk A p \<Longrightarrow> is_walk A q \<Longrightarrow> last p = hd q \<Longrightarrow> is_walk A (p @ tl q)"
proof (induction A p rule: is_walk.induct)
  case (1 A n)
  then show ?case by (cases q) auto
next
  case (2 A n e m p)
  then have "last (PNode m # p) = hd q" by simp
  with 2 have "is_walk A ((PNode m # p) @ tl q)" by simp
  with 2 show ?case by simp
qed auto

lemma is_walk_ends:
  "is_walk A p \<Longrightarrow> \<exists>n m. first_node_id p = Some n \<and> hd p = PNode n \<and> last_node_id p = Some m \<and> last p = PNode m
     \<and> n \<in> set (ga_nodes A) \<and> m \<in> set (ga_nodes A)"
proof (induction A p rule: is_walk.induct)
  case (2 A n e m p)
  then show ?case by (auto simp: first_node_id_def last_node_id_def split: if_splits)
qed (auto simp: first_node_id_def last_node_id_def)

lemma is_walk_not_Nil [simp]: "\<not> is_walk A []"
  by simp

lemma row_inv_walk: "row_inv A r \<Longrightarrow> is_walk A (row_path r)"
  by (auto simp: row_inv_def row_path_def list_all_iff)

lemma row_inv_last: "row_inv A r \<Longrightarrow> \<exists>n \<in> set (ga_nodes A). row_last r = Some n"
  using is_walk_ends row_inv_walk by blast

lemma row_inv_first: "row_inv A r \<Longrightarrow> \<exists>n \<in> set (ga_nodes A). row_first r = Some n"
  using is_walk_ends row_inv_walk by blast

lemma extend_last_walks:
  assumes "ps \<noteq> []" "list_all (is_walk A) ps" "is_walk A q" "first_node_id q = last_node_id (last ps)"
  shows "list_all (is_walk A) (extend_last ps q)" "extend_last ps q \<noteq> []"
    "last (extend_last ps q) = path_append (last ps) q"
proof -
  have w: "is_walk A (last ps)" using assms(1,2) by (auto simp: list_all_iff)
  then have "last (last ps) = hd q" using is_walk_ends [OF w] is_walk_ends [OF assms(3)] assms(4) by auto
  then have "is_walk A (path_append (last ps) q)" using is_walk_append [OF w assms(3)] by (simp add: path_append_def)
  then show "list_all (is_walk A) (extend_last ps q)"
    using assms(1,2) by (auto simp: extend_last_def list_all_iff dest: in_set_butlastD)
qed (use assms(1) in \<open>simp_all add: extend_last_def\<close>)

lemma extend_path_inv:
  assumes "row_inv A r" "is_walk A q" "first_node_id q = row_last r" "as_wf mu" "as_scalars mu = []"
  shows "row_inv A (extend_path r q mu)"
proof -
  have r: "row_paths r \<noteq> []" "list_all (is_walk A) (row_paths r)" using assms(1) by (simp_all add: row_inv_def)
  have "first_node_id q = last_node_id (last (row_paths r))" using assms(3) by (simp add: row_path_def)
  from extend_last_walks [OF r assms(2) this] show ?thesis using assms(4,5) by (simp add: row_inv_def extend_path_def)
qed

lemma glue_inv:
  assumes "row_inv A r1" "row_inv A r2" "meets r1 r2"
  shows "row_inv A (glue r1 r2)"
  unfolding glue_def using assms row_inv_walk [OF assms(2)]
  by (intro extend_path_inv) (auto simp: meets_def row_inv_def)

lemma join_rows_inv: "row_inv A r1 \<Longrightarrow> row_inv A r2 \<Longrightarrow> row_inv A (join_rows r1 r2)"
  by (auto simp: row_inv_def join_rows_def row_join_def)

lemma group_inv: "row_inv A r \<Longrightarrow> row_inv A (row_with_paths (row_paths r) (as_to_group (row_mu r)))"
  by (simp add: row_inv_def row_with_paths_def) (simp add: as_to_group_def)

lemma concat_group_inv:
  assumes "row_inv A r1" "row_inv A r2" "row_first r2 = row_last r1"
  shows "row_inv A (row_concat_group r1 r2)"
proof -
  have "row_concat_group r1 r2 = extend_path r1 (row_path r2) (as_concat_group (row_mu r1) (row_mu r2))"
    by (simp add: row_concat_group_def extend_path_def)
  moreover have "as_wf (row_mu r1)" using assms(1) by (simp add: row_inv_def)
  moreover have "as_scalars (as_concat_group (row_mu r1) (row_mu r2)) = []" by (simp add: as_concat_group_def)
  ultimately show ?thesis using extend_path_inv [OF assms(1) row_inv_walk [OF assms(2)] assms(3)] by simp
qed

lemma zero_rows_inv: "r \<in> set (zero_rows A vars) \<Longrightarrow> row_inv A r"
  by (auto simp: zero_rows_def row_new_def row_inv_def fill_empty_list_def) (simp add: fill_with_def assignment_new_def)

lemma next_level_inv:
  assumes "\<And>r. r \<in> set gs \<Longrightarrow> row_inv A r" "\<And>r. r \<in> set rs \<Longrightarrow> row_inv A r" "r \<in> set (next_level gs rs)"
  shows "row_inv A r"
  using assms(3) concat_group_inv assms(1,2)
  by (fastforce simp: next_level_def matches_of_def split: option.splits)

lemma repetition_inv:
  assumes "\<And>r. r \<in> set inner \<Longrightarrow> row_inv A r" "r \<in> set (repetition_pattern A vars inner n)"
  shows "row_inv A r"
proof (cases n)
  case (Suc k)
  have g: "row_inv A r" if "r \<in> set (rows_to_group inner)" for r
    using that assms(1) group_inv by (auto simp: rows_to_group_def)
  have "row_inv A r" if "r \<in> set ((next_level (rows_to_group inner) ^^ k) (rows_to_group inner))" for r k
    using that g by (induction k arbitrary: r) (auto intro: next_level_inv)
  then show ?thesis using assms(2) Suc by (simp add: repetition_pattern_def)
qed (use assms(2) zero_rows_inv in \<open>simp add: repetition_pattern_def\<close>)

lemma spec_nodes_inv: "r \<in> set (spec_nodes A d) \<Longrightarrow> row_inv A r"
  by (auto simp: spec_nodes_def row_new_def row_inv_def from_optional_def assignment_new_def split: option.splits)
    (auto simp: as_wf_def bm_wf_Cons)

lemma edge_row_inv:
  "a \<in> set (ga_nodes A) \<Longrightarrow> b \<in> set (ga_nodes A) \<Longrightarrow> crosses A a e b \<Longrightarrow> row_inv A (edge_row d a e b)"
  by (auto simp: edge_row_def row_new_def row_inv_def from_optional_def assignment_new_def split: option.splits)
    (auto simp: as_wf_def bm_wf_Cons)

context graph_store
begin

lemma spec_edges_inv:
  "r \<in> set (spec_right A d) \<Longrightarrow> row_inv A r" "r \<in> set (spec_left A d) \<Longrightarrow> row_inv A r"
  "r \<in> set (spec_undirected A d) \<Longrightarrow> row_inv A r"
  using ends by (auto simp: spec_right_def spec_left_def spec_undirected_def crosses_def intro!: edge_row_inv)

lemma spec_concat_inv:
  "(\<And>r. r \<in> set rs1 \<Longrightarrow> row_inv A r) \<Longrightarrow> (\<And>r. r \<in> set rs2 \<Longrightarrow> row_inv A r) \<Longrightarrow> r \<in> set (spec_concat rs1 rs2) \<Longrightarrow> row_inv A r"
  by (auto simp: spec_concat_def intro!: glue_inv)

lemma spec_edge_inv: "r \<in> set (spec_edge A p) \<Longrightarrow> row_inv A r"
  by (cases p) (auto simp: spec_edge_def intro: spec_edges_inv)

lemma spec_concat_of_inv:
  fixes rt :: "'e runtime"
  assumes "rt_graph rt = A" "\<And>r. r \<in> set rs1 \<Longrightarrow> row_inv A r" "\<And>r. r \<in> set rs2 \<Longrightarrow> row_inv A r"
    and "r \<in> set (spec_concat_of rt rs1 q rs2)"
  shows "row_inv A r"
proof -
  have "r \<in> set (spec_concat rs1 rs2) \<or> (\<exists>q' :: 'e path_pattern. r \<in> set (spec_concat rs1 (spec_edge A q')))"
    using assms(1,4) by (auto simp: spec_concat_of_def split: path_pattern.splits if_splits)
  then show ?thesis using spec_concat_inv assms(2,3) spec_edge_inv by blast
qed

lemma spec_rows_inv:
  assumes "rt_graph rt = A"
  shows "r \<in> set (spec_rows rt pol p) \<Longrightarrow> row_inv A r"
proof (induction p arbitrary: r pol)
  case (Concat p q)
  then show ?case using spec_concat_of_inv [OF assms] by (metis spec_rows.simps(6))
next
  case (UnionP p q)
  then show ?case
    by (auto simp: row_inv_def fill_nones_def) (simp_all add: fill_with_def)
next
  case (Repeat p lb ub)
  then show ?case
    using assms by (auto simp: spec_mode_def split: option.splits policy.splits intro: repetition_inv simp del: upt_Suc)
next
  case (Join p q)
  then show ?case by (auto simp: spec_join_def intro!: join_rows_inv)
next
  case (Selected pre p)
  then show ?case using apply_path_prefix_subset by fastforce
next
  case (Named x p)
  then show ?case by (auto simp: name_path_def row_inv_def) (simp add: as_extend_def)
qed (auto simp: assms intro: spec_nodes_inv spec_edges_inv)

end

end
