(* ===== verification/EvalSteps.thy ===== *)
theory EvalSteps
  imports EvalSpec
begin

text \<open>
  Each optimised step of the evaluator (label-index scans, adjacency, the hash join) gives
  the rows of the reference's nested loop, in some order.
\<close>

section \<open>Bags of rows\<close>

definition same_rows :: "'a list \<Rightarrow> 'a list \<Rightarrow> bool" where
  "same_rows xs ys \<longleftrightarrow> mset xs = mset ys"

text \<open>Rows of the reference \<open>ys\<close>: all of them, or at least as many as the limit asks for.\<close>

definition cut :: "nat \<Rightarrow> 'a list \<Rightarrow> 'a list \<Rightarrow> bool" where
  "cut limit xs ys \<longleftrightarrow> mset xs \<subseteq># mset ys \<and> (same_rows xs ys \<or> 0 < limit \<and> limit \<le> length xs)"

lemma same_rows_refl [simp]: "same_rows xs xs"
  by (simp add: same_rows_def)

lemma same_rows_trans [trans]: "same_rows xs ys \<Longrightarrow> same_rows ys zs \<Longrightarrow> same_rows xs zs"
  by (simp add: same_rows_def)

lemma same_rows_sym: "same_rows xs ys \<Longrightarrow> same_rows ys xs"
  by (simp add: same_rows_def)

lemma same_rows_set: "same_rows xs ys \<Longrightarrow> set xs = set ys"
  unfolding same_rows_def by (metis set_mset_mset)

lemma same_rows_append: "same_rows xs xs' \<Longrightarrow> same_rows ys ys' \<Longrightarrow> same_rows (xs @ ys) (xs' @ ys')"
  by (simp add: same_rows_def)

lemma same_rows_map: "same_rows xs ys \<Longrightarrow> same_rows (map f xs) (map f ys)"
  by (simp add: same_rows_def)

lemma same_rows_filter: "same_rows xs ys \<Longrightarrow> same_rows (filter P xs) (filter P ys)"
  by (simp add: same_rows_def)

lemma same_rows_empty: "same_rows xs ys \<Longrightarrow> xs = [] \<longleftrightarrow> ys = []"
  unfolding same_rows_def by (metis mset_zero_iff)

lemma mset_concat_map: "mset (concat (map f xs)) = (\<Sum>x \<in># mset xs. mset (f x))"
  by (induction xs) simp_all

lemma same_rows_concat_map:
  assumes "same_rows xs ys" "\<And>x. x \<in> set ys \<Longrightarrow> same_rows (f x) (g x)"
  shows "same_rows (concat (map f xs)) (concat (map g ys))"
proof -
  have "image_mset (\<lambda>x. mset (f x)) (mset ys) = image_mset (\<lambda>x. mset (g x)) (mset ys)"
    using assms(2) by (intro image_mset_cong) (simp add: same_rows_def)
  then show ?thesis using assms(1) by (simp add: same_rows_def mset_concat_map)
qed

lemma same_rows_map_filter:
  "same_rows xs ys \<Longrightarrow> same_rows (List.map_filter f xs) (List.map_filter f ys)"
  by (simp add: same_rows_def List.map_filter_def)

text \<open>Distributing a nested loop over a union.\<close>

lemma same_rows_concat_append:
  "same_rows (concat (map (\<lambda>x. f x @ g x) xs)) (concat (map f xs) @ concat (map g xs))"
  by (induction xs) (simp_all add: same_rows_def ac_simps)

lemma cut_same: "same_rows xs ys \<Longrightarrow> cut limit xs ys"
  by (simp add: cut_def same_rows_def)

lemma cut_zero: "cut 0 xs ys \<longleftrightarrow> same_rows xs ys"
  by (auto simp: cut_def same_rows_def)

lemma mset_take_subset: "mset (take n xs) \<subseteq># mset xs"
  by (metis append_take_drop_id mset_append mset_subset_eq_add_left)

lemma cut_take_limit: "same_rows xs ys \<Longrightarrow> cut limit (take_limit limit xs) ys"
proof -
  assume "same_rows xs ys"
  moreover from this have "length xs = length ys" unfolding same_rows_def by (metis size_mset)
  ultimately show ?thesis using mset_take_subset [of limit xs] by (auto simp: cut_def take_limit_def same_rows_def)
qed

lemma cut_take_limit_cut: "cut limit xs ys \<Longrightarrow> cut limit (take_limit limit xs) ys"
proof -
  assume c: "cut limit xs ys"
  then have "mset (take limit xs) \<subseteq># mset ys" using mset_take_subset subset_mset.order_trans unfolding cut_def by blast
  with c show ?thesis by (auto simp: cut_def take_limit_def)
qed

lemma cut_map: "cut limit xs ys \<Longrightarrow> cut limit (map f xs) (map f ys)"
  by (auto simp: cut_def same_rows_def intro: image_mset_subseteq_mono)

lemma cut_append:
  assumes "cut limit xs xs'" "cut (limit - length xs) ys ys'"
  shows "cut limit (xs @ ys) (xs' @ ys')"
proof -
  have "mset (xs @ ys) \<subseteq># mset (xs' @ ys')" using assms by (simp add: cut_def subset_mset.add_mono)
  then show ?thesis using assms by (auto simp: cut_def same_rows_def)
qed

lemma cut_reached: "cut limit xs xs' \<Longrightarrow> limit_reached xs limit \<Longrightarrow> cut limit xs (xs' @ ys')"
  by (auto simp: cut_def limit_reached_def intro: subset_mset.order_trans)

lemma cut_set: "cut limit xs ys \<Longrightarrow> set xs \<subseteq> set ys"
  unfolding cut_def by (metis set_mset_mono set_mset_mset)

section \<open>Nested loops\<close>

lemma same_rows_spec_concat:
  assumes "same_rows xs xs'" "same_rows ys ys'"
  shows "same_rows (spec_concat xs ys) (spec_concat xs' ys')"
  unfolding spec_concat_def using assms by (intro same_rows_concat_map same_rows_map same_rows_filter)

lemma same_rows_spec_join:
  assumes "same_rows xs xs'" "same_rows ys ys'"
  shows "same_rows (spec_join xs ys) (spec_join xs' ys')"
  unfolding spec_join_def using assms by (intro same_rows_concat_map same_rows_map same_rows_filter)

lemma spec_concat_append:
  "same_rows (spec_concat xs (ys @ zs)) (spec_concat xs ys @ spec_concat xs zs)"
  unfolding spec_concat_def using same_rows_concat_append [of _ _ xs] by simp

lemma hash_join_spec: "hash_join xs ys limit = take_limit limit (spec_concat xs ys)"
proof -
  have "(case row_last r of None \<Rightarrow> [] | Some l \<Rightarrow>
         map (\<lambda>r2. extend_path r (row_path r2) (unify (row_mu r) (row_mu r2)))
             (filter (\<lambda>r2. can_unify (row_mu r) (row_mu r2)) (filter (\<lambda>r2. row_first r2 = Some l) ys)))
      = map (glue r) (filter (\<lambda>r2. meets r r2 \<and> compatible r r2) ys)" for r
    by (cases "row_last r") (auto simp: glue_def meets_def compatible_def conj_commute)
  then show ?thesis by (simp add: hash_join_def spec_concat_def)
qed

section \<open>One edge, or one node\<close>

lemma step_row_edge:
  "step_row d r n e m =
    (if compatible r (edge_row d n e m) then Some (glue r (edge_row d n e m)) else None)"
  by (simp add: step_row_def compatible_def edge_row_def row_new_def glue_def row_path_def Let_def)

lemma row_ends_edge [simp]:
  "row_first (edge_row d a e b) = Some a" "row_last (edge_row d a e b) = Some b"
  by (simp_all add: edge_row_def row_new_def row_path_def first_node_id_def last_node_id_def)

text \<open>The rows that a left row gives with the edges of a list that start at its last node.\<close>

lemma edges_from:
  assumes "row_last r = Some n"
  shows "List.map_filter (\<lambda>e. if \<not> P e then None else step_row d r n (k e) (t e)) (filter (\<lambda>e. s e = n) es)
    = map (glue r) (filter (\<lambda>r2. meets r r2 \<and> compatible r r2) (map (\<lambda>e. edge_row d (s e) (k e) (t e)) (filter P es)))"
  using assms by (induction es) (auto simp: step_row_edge meets_def List.map_filter_simps)

lemma loop_cong:
  assumes "\<And>r. r \<in> set xs \<Longrightarrow> \<exists>n. row_last r = Some n"
    and "\<And>r n. r \<in> set xs \<Longrightarrow> row_last r = Some n \<Longrightarrow>
      same_rows (f r n) (map (glue r) (filter (\<lambda>r2. meets r r2 \<and> compatible r r2) ys))"
  shows "same_rows (concat (map (\<lambda>r. case row_last r of None \<Rightarrow> [] | Some n \<Rightarrow> f r n) xs)) (spec_concat xs ys)"
  unfolding spec_concat_def
proof (rule same_rows_concat_map)
  fix r assume r: "r \<in> set xs"
  then obtain n where "row_last r = Some n" using assms(1) by blast
  then show "same_rows (case row_last r of None \<Rightarrow> [] | Some n \<Rightarrow> f r n)
      (map (glue r) (filter (\<lambda>r2. meets r r2 \<and> compatible r r2) ys))"
    using assms(2) [OF r] by simp
qed simp

context labelled_store
begin

abbreviation good :: "row list \<Rightarrow> bool" where
  "good rs \<equiv> \<forall>r \<in> set rs. row_inv A r"

lemma good_last: "good xs \<Longrightarrow> r \<in> set xs \<Longrightarrow> \<exists>n. row_last r = Some n"
  using row_inv_last by blast

lemma run_node_spec:
  "rt_graph rt = A \<Longrightarrow> rt_pins rt = [] \<Longrightarrow> cut limit (run_node_pattern rt d limit) (spec_nodes A d)"
  unfolding run_node_pattern_def spec_nodes_def
  using candidate_nodes [of rt d] by (intro cut_take_limit) (simp add: same_rows_def)

lemma run_edges_spec:
  "same_rows (run_edge_directed A d True) (spec_right A d)"
  "same_rows (run_edge_directed A d False) (spec_left A d)"
  "same_rows (run_edge_undirected A d) (spec_undirected A d)"
proof -
  show "same_rows (run_edge_directed A d True) (spec_right A d)" "same_rows (run_edge_directed A d False) (spec_left A d)"
    using candidate_directed [of d] by (simp_all add: run_edge_directed_def spec_right_def spec_left_def same_rows_def)
  have "same_rows (filter (\<lambda>e. filter_edge A e d) (candidate_edges d (ga_undirected_with_label A) (ga_edges_undirected A)))
      (filter (\<lambda>e. filter_edge A e d) (ga_edges_undirected A))"
    using candidate_undirected [of d] by (simp add: same_rows_def)
  then show "same_rows (run_edge_undirected A d) (spec_undirected A d)"
    unfolding run_edge_undirected_def spec_undirected_def by (rule same_rows_concat_map) simp
qed

lemma concat_directed_spec:
  assumes "good xs"
  shows "same_rows (concat_with_directed_edge A xs d True 0) (spec_concat xs (spec_right A d))"
    "same_rows (concat_with_directed_edge A xs d False 0) (spec_concat xs (spec_left A d))"
proof -
  have out: "same_rows (List.map_filter f (ga_outgoing A n)) (List.map_filter f (filter (\<lambda>e. ga_src A e = n) (ga_edges_directed A)))"
    "same_rows (List.map_filter f (ga_incoming A n)) (List.map_filter f (filter (\<lambda>e. ga_tgt A e = n) (ga_edges_directed A)))"
    for f :: "u32 \<Rightarrow> row option" and n
    using outgoing incoming by (auto simp: same_rows_def intro: same_rows_map_filter [unfolded same_rows_def])
  show "same_rows (concat_with_directed_edge A xs d True 0) (spec_concat xs (spec_right A d))"
    unfolding concat_with_directed_edge_def take_limit_def spec_right_def if_True simp_thms
    by (rule loop_cong, rule good_last [OF assms], assumption) (simp only: edges_from [symmetric] out)
  show "same_rows (concat_with_directed_edge A xs d False 0) (spec_concat xs (spec_left A d))"
    unfolding concat_with_directed_edge_def take_limit_def spec_left_def if_False if_True simp_thms
    by (rule loop_cong, rule good_last [OF assms], assumption) (simp only: edges_from [symmetric] out)
qed

lemma undirected_edges_from:
  assumes "row_last r = Some n"
  shows "List.map_filter
      (\<lambda>e. if \<not> P e then None else step_row d r n (PEdgeUndirectional e) (if ga_src A e = n then ga_tgt A e else ga_src A e))
      (concat (map (edge_ends (ga_src A) (ga_tgt A) n) es))
    = map (glue r) (filter (\<lambda>r2. meets r r2 \<and> compatible r r2)
        (concat (map (\<lambda>e. [edge_row d (ga_src A e) (PEdgeUndirectional e) (ga_tgt A e),
                         edge_row d (ga_tgt A e) (PEdgeUndirectional e) (ga_src A e)]) (filter P es))))"
  using assms by (induction es) (auto simp: step_row_edge meets_def List.map_filter_simps edge_ends_def)

lemma concat_undirected_spec:
  assumes "good xs"
  shows "same_rows (concat_with_undirected_edge A xs d 0) (spec_concat xs (spec_undirected A d))"
proof -
  have und: "same_rows (List.map_filter f (ga_undirected_of A n))
      (List.map_filter f (concat (map (edge_ends (ga_src A) (ga_tgt A) n) (ga_edges_undirected A))))"
    for f :: "u32 \<Rightarrow> row option" and n
    using undirected_of by (auto simp: same_rows_def intro: same_rows_map_filter [unfolded same_rows_def])
  show ?thesis
    unfolding concat_with_undirected_edge_def take_limit_def spec_undirected_def if_True simp_thms
    by (rule loop_cong, rule good_last [OF assms], assumption) (simp only: undirected_edges_from [symmetric] und)
qed

lemma row_mu_new: "row_mu (row_new p mu) = mu"
  by (simp add: row_new_def)

lemma concat_node_spec:
  assumes "good xs"
  shows "same_rows (concat_with_node A xs d 0) (spec_concat xs (spec_nodes A d))"
proof -
  let ?row = "\<lambda>i. row_new [PNode i] (from_optional (desc_var d) (PNode i))"
  have one: "filter (\<lambda>i. i = n) (filter P (ga_nodes A)) = (if P n then [n] else [])" if "n \<in> set (ga_nodes A)" for n P
  proof -
    have "filter (\<lambda>i. i = n) ns = (if n \<in> set ns then [n] else [])" if "distinct ns" for ns
      using that by (induction ns) auto
    then show ?thesis using distinct_nodes that by (simp add: filter_filter [symmetric] del: filter_filter)
  qed
  have "spec_concat xs (spec_nodes A d)
      = concat (map (\<lambda>r. case row_last r of None \<Rightarrow> [] | Some n \<Rightarrow>
          if filter_node A n d \<and> can_unify (row_mu r) (from_optional (desc_var d) (PNode n))
          then [with_same_paths r (unify (row_mu r) (from_optional (desc_var d) (PNode n)))] else []) xs)"
    unfolding spec_concat_def
  proof (intro arg_cong [of _ _ concat] map_cong refl)
    fix r assume "r \<in> set xs"
    then have inv: "row_inv A r" using assms by blast
    then obtain n where n: "row_last r = Some n" "n \<in> set (ga_nodes A)" using row_inv_last by blast
    have "row_paths r \<noteq> []" using inv by (simp add: row_inv_def)
    then have glue: "glue r (?row i) = with_same_paths r (unify (row_mu r) (from_optional (desc_var d) (PNode i)))" for i
      by (simp add: glue_def row_new_def row_path_def extend_path_def with_same_paths_def extend_last_def path_append_def)
    have "filter (\<lambda>r2. meets r r2 \<and> compatible r r2) (spec_nodes A d)
        = map ?row (filter (\<lambda>i. compatible r (?row i)) (filter (\<lambda>i. i = n) (filter (\<lambda>i. filter_node A i d) (ga_nodes A))))"
      using n by (auto simp: spec_nodes_def filter_map comp_def meets_def row_new_def row_path_def first_node_id_def
          intro!: arg_cong [of _ _ "map _"] filter_cong)
    also note one [OF n(2)]
    finally show "map (glue r) (filter (\<lambda>r2. meets r r2 \<and> compatible r r2) (spec_nodes A d))
        = (case row_last r of None \<Rightarrow> [] | Some n \<Rightarrow>
          if filter_node A n d \<and> can_unify (row_mu r) (from_optional (desc_var d) (PNode n))
          then [with_same_paths r (unify (row_mu r) (from_optional (desc_var d) (PNode n)))] else [])"
      using n by (simp add: glue compatible_def row_mu_new)
  qed
  also have "\<dots> = concat_with_node A xs d 0"
    unfolding concat_with_node_def take_limit_def
    by (induction xs) (auto simp: List.map_filter_simps Let_def split: option.splits)
  finally show ?thesis by simp
qed

end

end
