(* ===== verification/EvalRepeat.thy ===== *)
theory EvalRepeat
  imports EvalSteps
begin

text \<open>
  Bounded repetition: the incremental evaluator gives exactly the rows, in the order, of
  evaluating every number of repetitions anew; the seeded evaluator gives the rows of the
  join with it.
\<close>

section \<open>The incremental range\<close>

abbreviation "level grouped k \<equiv> (next_level grouped ^^ (k - 1)) grouped"

lemma level_Suc: "0 < k \<Longrightarrow> next_level g (level g k) = level g (Suc k)"
  by (cases k) simp_all

lemma next_level_Nil [simp]: "next_level g [] = []"
  by (simp add: next_level_def)

lemma funpow_next_level_Nil [simp]: "(next_level g ^^ n) [] = []"
  by (induction n) simp_all

lemma level_empty: "level g m = [] \<Longrightarrow> 0 < m \<Longrightarrow> m \<le> k \<Longrightarrow> level g k = []"
proof (induction k)
  case (Suc k)
  then show ?case using level_Suc [of k g] by (cases "m = Suc k") auto
qed simp

lemma length_concat_drop: "length (concat xs) - length (concat (take n xs)) = length (concat (drop n xs))"
  by (metis add_diff_cancel_left' append_take_drop_id concat_append length_append)

lemma levels_loop_spec:
  assumes "levels = map (level g) [1..<Suc m]" "0 < m" "m \<le> ub"
  shows "\<exists>m'. m \<le> m' \<and> m' \<le> ub \<and> levels_loop g lb limit [Suc m..<Suc ub] levels = map (level g) [1..<Suc m']
    \<and> (m' = ub \<or> level g m' = [] \<or> 0 < limit \<and> limit \<le> length (concat (drop (lb - 1) (map (level g) [1..<Suc m']))))"
  using assms
proof (induction "ub - m" arbitrary: m levels)
  case 0
  then show ?case by (intro exI [of _ m]) simp
next
  case (Suc d)
  have ks: "[Suc m..<Suc ub] = Suc m # [Suc (Suc m)..<Suc ub]" using Suc.hyps(2) by (intro upt_conv_Cons) simp
  have last: "last levels = level g m" using Suc.prems(1,2) by (simp add: last_map)
  let ?levels = "levels @ [next_level g (last levels)]"
  have next_levels: "?levels = map (level g) [1..<Suc (Suc m)]"
    using Suc.prems(1,2) last level_Suc [of m g] by simp
  show ?case
  proof (cases "level g m = []")
    case True
    then show ?thesis using Suc.prems last unfolding ks by (intro exI [of _ m]) simp
  next
    case False
    note step = levels_loop.simps(2) [of g lb limit "Suc m" "[Suc (Suc m)..<Suc ub]" levels, folded ks, unfolded Let_def length_concat_drop]
    show ?thesis
    proof (cases "0 < limit \<and> limit \<le> length (concat (drop (lb - 1) ?levels))")
      case True
      then have "levels_loop g lb limit [Suc m..<Suc ub] levels = ?levels" using False last step by simp
      then show ?thesis using True Suc.hyps(2) Suc.prems(3) unfolding next_levels by (intro exI [of _ "Suc m"]) simp
    next
      case no: False
      then have "levels_loop g lb limit [Suc m..<Suc ub] levels = levels_loop g lb limit [Suc (Suc m)..<Suc ub] ?levels"
        using False last step by auto
      moreover have "d = ub - Suc m" "Suc m \<le> ub" using Suc.hyps(2) by simp_all
      ultimately show ?thesis
        using Suc.hyps(1) [of "Suc m" ?levels] next_levels by (metis Suc_leD zero_less_Suc)
    qed
  qed
qed

lemma repetition_pattern_level: "0 < k \<Longrightarrow> repetition_pattern A vars inner k = level (rows_to_group inner) k"
  by (simp add: repetition_pattern_def)

lemma take_limit_prefix: "0 < limit \<Longrightarrow> limit \<le> length xs \<Longrightarrow> take_limit limit (xs @ ys) = take_limit limit xs"
  by (simp add: take_limit_def)

lemma levels_suffice:
  assumes "m \<le> ub" "0 < m" "0 < lb"
    and "m = ub \<or> level g m = [] \<or> 0 < limit \<and> limit \<le> length (concat (map (level g) [lb..<Suc m]))"
  shows "take_limit limit (pre @ concat (map (level g) [lb..<Suc m])) = take_limit limit (pre @ concat (map (level g) [lb..<Suc ub]))"
proof (cases "lb \<le> Suc m")
  case True
  have "[lb..<Suc ub] = [lb..<Suc m] @ [Suc m..<Suc ub]"
    using True assms(1) upt_add_eq_append [of lb "Suc m" "ub - m"] by simp
  then have full: "concat (map (level g) [lb..<Suc ub]) = concat (map (level g) [lb..<Suc m]) @ concat (map (level g) [Suc m..<Suc ub])"
    by (simp only: map_append concat_append)
  consider "m = ub" | "level g m = []" | "0 < limit" "limit \<le> length (concat (map (level g) [lb..<Suc m]))" using assms(4) by blast
  then show ?thesis
  proof cases
    case 2
    then have "concat (map (level g) [Suc m..<Suc ub]) = []"
      using level_empty [OF 2 assms(2)] by (auto simp del: upt_Suc)
    then show ?thesis unfolding full by (simp only: append_Nil2)
  next
    case 3
    then have "limit \<le> length (pre @ concat (map (level g) [lb..<Suc m]))" by (simp del: upt_Suc)
    from take_limit_prefix [OF 3(1) this] show ?thesis unfolding full by (simp del: upt_Suc)
  qed simp
next
  case False
  then have "level g m = [] \<or> m = ub" using assms(4) by auto
  have "concat (map (level g) [lb..<Suc ub]) = []"
  proof (cases "m = ub")
    case False
    then have "level g m = []" using \<open>level g m = [] \<or> m = ub\<close> by simp
    then have "level g k = []" if "k \<in> set [lb..<Suc ub]" for k
      using level_empty [of m g k] assms(2) \<open>\<not> lb \<le> Suc m\<close> that by (simp del: upt_Suc)
    then show ?thesis by (simp del: upt_Suc)
  qed (use \<open>\<not> lb \<le> Suc m\<close> in simp)
  moreover have "[lb..<Suc m] = []" using False by simp
  ultimately show ?thesis by (simp only: list.map concat.simps)
qed

lemma repetition_range_eq:
  "repetition_range A vars (Some inner) lb ub limit
    = Some (take_limit limit (concat (map (repetition_pattern A vars inner) [lb..<Suc ub])))"
proof -
  let ?g = "rows_to_group inner"
  let ?pre = "if lb = 0 then zero_rows A vars else []"
  let ?lb = "if lb = 0 then 1 else lb"
  have full: "concat (map (repetition_pattern A vars inner) [lb..<Suc ub]) = ?pre @ concat (map (level ?g) [?lb..<Suc ub])" if "lb \<le> ub"
  proof -
    have "[lb..<Suc ub] = (if lb = 0 then [0] else []) @ [?lb..<Suc ub]" by (simp add: upt_conv_Cons del: upt_Suc)
    then have "concat (map (repetition_pattern A vars inner) [lb..<Suc ub])
        = concat (map (repetition_pattern A vars inner) (if lb = 0 then [0] else []))
          @ concat (map (repetition_pattern A vars inner) [?lb..<Suc ub])"
      by (metis concat_append map_append)
    also have "map (repetition_pattern A vars inner) [?lb..<Suc ub] = map (level ?g) [?lb..<Suc ub]"
    proof (rule map_cong)
      fix k assume "k \<in> set [?lb..<Suc ub]"
      then have "0 < k" by (auto split: if_splits simp del: upt_Suc)
      then show "repetition_pattern A vars inner k = level ?g k" by (rule repetition_pattern_level)
    qed simp
    also have "concat (map (repetition_pattern A vars inner) (if lb = 0 then [0] else [])) = ?pre"
      by (simp add: repetition_pattern_def)
    finally show ?thesis .
  qed
  consider "ub < lb" | "lb \<le> ub" "ub = 0" | "lb \<le> ub" "0 < ub" "0 < limit" "limit \<le> length ?pre"
    | "lb \<le> ub" "0 < ub" "\<not> (0 < limit \<and> limit \<le> length ?pre)" by linarith
  then show ?thesis
  proof cases
    case 1
    then show ?thesis by (simp add: repetition_range_def take_limit_def)
  next
    case 2
    then show ?thesis by (simp add: repetition_range_def repetition_pattern_def)
  next
    case 3
    then show ?thesis using full take_limit_prefix [OF 3(3,4)] by (simp add: repetition_range_def Let_def take_limit_def)
  next
    case 4
    show ?thesis
    proof (cases "?g = []")
      case True
      then have "level ?g k = []" for k by simp
      then have "concat (map (level ?g) [?lb..<Suc ub]) = []" by simp
      then show ?thesis using full [OF 4(1)] 4 True by (auto simp: repetition_range_def Let_def take_limit_def)
    next
      case False
      obtain m where m: "1 \<le> m" "m \<le> ub" "levels_loop ?g lb limit [2..<Suc ub] [?g] = map (level ?g) [1..<Suc m]"
        "m = ub \<or> level ?g m = [] \<or> 0 < limit \<and> limit \<le> length (concat (drop (lb - 1) (map (level ?g) [1..<Suc m])))"
        using levels_loop_spec [of "[?g]" ?g 1 ub lb limit] 4(2) by (auto simp: numeral_2_eq_2)
      have drop: "drop (lb - 1) (map (level ?g) [1..<Suc m]) = map (level ?g) [?lb..<Suc m]"
        by (simp add: drop_map drop_upt del: upt_Suc)
      have "repetition_range A vars (Some inner) lb ub limit = Some (take_limit limit (?pre @ concat (map (level ?g) [?lb..<Suc m])))"
        unfolding repetition_range_def Let_def option.case m(3) drop using 4 False by auto
      also have "take_limit limit (?pre @ concat (map (level ?g) [?lb..<Suc m])) = take_limit limit (?pre @ concat (map (level ?g) [?lb..<Suc ub]))"
        using m(1,2) m(4) [unfolded drop] by (intro levels_suffice) (simp_all del: upt_Suc)
      finally show ?thesis using full [OF 4(1)] by simp
    qed
  qed
qed

lemma same_rows_group: "same_rows xs ys \<Longrightarrow> same_rows (rows_to_group xs) (rows_to_group ys)"
  unfolding rows_to_group_def by (rule same_rows_map)

lemma same_rows_next_level:
  assumes "same_rows gs hs" "same_rows xs ys"
  shows "same_rows (next_level gs xs) (next_level hs ys)"
  unfolding next_level_def matches_of_def
  using assms by (intro same_rows_concat_map) (auto intro: same_rows_map same_rows_filter split: option.split)

lemma same_rows_repetition:
  assumes "same_rows xs ys"
  shows "same_rows (repetition_pattern A vars xs n) (repetition_pattern A vars ys n)"
proof -
  have "same_rows (level (rows_to_group xs) (Suc k)) (level (rows_to_group ys) (Suc k))" for k
    using same_rows_group [OF assms] by (induction k) (auto intro: same_rows_next_level)
  then show ?thesis by (cases n) (simp_all add: repetition_pattern_def)
qed

section \<open>The seeded levels\<close>

text \<open>The edges that match an edge pattern, with the ends in the direction it reads.\<close>

definition triples :: "graph_access \<Rightarrow> 'e path_pattern \<Rightarrow> (u32 \<times> pvalue \<times> u32) list" where
  "triples A p =
     (let right = (\<lambda>d. map (\<lambda>e. (ga_src A e, PEdgeDirectional e, ga_tgt A e)) (filter (\<lambda>e. filter_edge A e d) (ga_edges_directed A)));
          left = (\<lambda>d. map (\<lambda>e. (ga_tgt A e, PEdgeDirectional e, ga_src A e)) (filter (\<lambda>e. filter_edge A e d) (ga_edges_directed A)));
          und = (\<lambda>d. concat (map (\<lambda>e. [(ga_src A e, PEdgeUndirectional e, ga_tgt A e), (ga_tgt A e, PEdgeUndirectional e, ga_src A e)])
                   (filter (\<lambda>e. filter_edge A e d) (ga_edges_undirected A))))
      in case p of EdgeRight d \<Rightarrow> right d | EdgeLeft d \<Rightarrow> left d | EdgeUndirected d \<Rightarrow> und d
         | EdgeAnyDirection d \<Rightarrow> right d @ left d @ und d | _ \<Rightarrow> [])"

text \<open>A matched path with the group of its edges bound, and the row it gives with a left row.\<close>

definition group_mu :: "string option \<Rightarrow> path \<Rightarrow> assignment" where
  "group_mu var p = \<lparr>as_m = (case var of None \<Rightarrow> [] | Some x \<Rightarrow> [(x, PGroup (filter is_edge p))]), as_scalars = []\<rparr>"

definition group_row :: "string option \<Rightarrow> path \<Rightarrow> row" where
  "group_row var p = row_new p (group_mu var p)"

fun hops :: "(u32 \<times> pvalue \<times> u32) list \<Rightarrow> nat \<Rightarrow> path list" where
  "hops T 0 = map (\<lambda>(a, e, b). [PNode a, e, PNode b]) T"
| "hops T (Suc k) = concat (map (\<lambda>p. map (\<lambda>(a, e, b). p @ [e, PNode b]) (filter (\<lambda>(a, e, b). last_node_id p = Some a) T)) (hops T k))"

definition edges_only :: "(u32 \<times> pvalue \<times> u32) list \<Rightarrow> bool" where
  "edges_only T = list_all (\<lambda>(a, e, b). is_edge e) T"

lemma triples_edges: "edges_only (triples A p)"
  by (cases p) (auto simp: triples_def edges_only_def list_all_iff Let_def is_edge_def)

lemma spec_edge_triples:
  "is_edge_pattern p \<Longrightarrow> spec_edge A p = map (\<lambda>(a, e, b). edge_row (descriptor_of p) a e b) (triples A p)"
  by (cases p)
    (auto simp: is_edge_pattern_def spec_edge_def spec_right_def spec_left_def spec_undirected_def triples_def descriptor_of_def
      map_concat comp_def Let_def)

lemma filter_edge_strip: "filter_edge A e (map_option (\<lambda>d. d\<lparr>d_var := None\<rparr>) d) = filter_edge A e d"
  by (cases d) (simp_all add: filter_edge_def desc_filter_def)

lemma strip_triples: "triples A (strip_var p) = triples A p"
  by (cases p) (simp_all add: strip_var_def triples_def filter_edge_strip Let_def)

lemma strip_edge: "is_edge_pattern (strip_var p) = is_edge_pattern p"
  by (cases p) (simp_all add: strip_var_def is_edge_pattern_def)

lemma strip_no_var: "is_edge_pattern p \<Longrightarrow> desc_var (descriptor_of (strip_var p)) = None"
  by (cases p) (auto simp: strip_var_def is_edge_pattern_def descriptor_of_def desc_var_def split: option.splits)

lemma hops_nonempty: "p \<in> set (hops T k) \<Longrightarrow> p \<noteq> []"
  by (induction k arbitrary: p) auto

lemma hops_first: "p \<in> set (hops T k) \<Longrightarrow> first_node_id (p @ q) = first_node_id p"
  using hops_nonempty [of p T k] by (cases p) (simp_all add: first_node_id_def)

lemma group_edge_row: "is_edge e \<Longrightarrow>
    row_with_paths (row_paths (edge_row d a e b)) (as_to_group (row_mu (edge_row d a e b)))
    = group_row (desc_var d) [PNode a, e, PNode b]"
  by (simp add: edge_row_def row_new_def row_with_paths_def as_to_group_def from_optional_def assignment_new_def
      group_row_def group_mu_def is_edge_def split: option.splits)

lemma rows_to_group_edges:
  assumes "is_edge_pattern p"
  shows "rows_to_group (spec_edge A p) = map (group_row (desc_var (descriptor_of p))) (hops (triples A p) 0)"
  using triples_edges [of A p]
  by (auto simp: rows_to_group_def spec_edge_triples [OF assms] edges_only_def list_all_iff group_edge_row)

lemma row_ends_group [simp]:
  "row_first (group_row var p) = first_node_id p" "row_last (group_row var p) = last_node_id p" "row_path (group_row var p) = p"
  by (simp_all add: group_row_def row_new_def row_path_def)

lemma concat_group_hop:
  "is_edge e \<Longrightarrow> row_concat_group (group_row var p) (group_row var [PNode a, e, PNode b]) = group_row var (p @ [e, PNode b])"
  by (simp add: row_concat_group_def group_row_def row_new_def row_path_def extend_last_def path_append_def
      as_concat_group_def group_mu_def group_append_def is_edge_def split: option.splits)

lemma next_level_hops:
  assumes "edges_only T"
  shows "next_level (map (group_row var) (hops T 0)) (map (group_row var) (hops T k)) = map (group_row var) (hops T (Suc k))"
proof -
  have step: "(case last_node_id p of None \<Rightarrow> [] | Some l \<Rightarrow>
        map (row_concat_group (group_row var p)) (filter (\<lambda>r. row_first r = Some l) (map (group_row var) (hops T 0))))
      = map (group_row var) (map (\<lambda>(a, e, b). p @ [e, PNode b]) (filter (\<lambda>(a, e, b). last_node_id p = Some a) T))" for p
  proof -
    have "is_edge e" if "(a, e, b) \<in> set T" for a e b using assms that by (auto simp: edges_only_def list_all_iff)
    then show ?thesis by (cases "last_node_id p")
      (auto simp: filter_map comp_def first_node_id_def split_beta intro!: map_cong filter_cong concat_group_hop)
  qed
  show ?thesis
    by (simp only: next_level_def matches_of_def map_map comp_def row_ends_group step hops.simps(2) map_concat)
qed

lemma level_hops:
  assumes "edges_only T"
  shows "level (map (group_row var) (hops T 0)) (Suc k) = map (group_row var) (hops T k)"
  using next_level_hops [OF assms] by (induction k) (simp_all del: hops.simps)

section \<open>The seeded rows are the joined rows\<close>

definition unbound :: "string option \<Rightarrow> row \<Rightarrow> bool" where
  "unbound var r = (case var of None \<Rightarrow> True | Some x \<Rightarrow> as_get (row_mu r) x = None)"

lemma is_edge_node [simp]: "\<not> is_edge (PNode b)"
  by (simp add: is_edge_def)

lemma row_path_glue: "row_path (glue r s) = last (extend_last (row_paths r) (row_path s))"
  by (simp add: glue_def extend_path_def row_path_def)

text \<open>The rows of the left operand continued by the paths that start where they end.\<close>

definition seeded :: "string option \<Rightarrow> row list \<Rightarrow> path list \<Rightarrow> row list" where
  "seeded var xs ps =
     concat (map (\<lambda>r. map (\<lambda>p. glue r (group_row var p)) (filter (\<lambda>p. first_node_id p = row_last r) ps)) xs)"

lemma unify_empty [simp]: "unify a \<lparr>as_m = [], as_scalars = []\<rparr> = a"
  by (simp add: unify_def)

lemma can_unify_empty [simp]: "can_unify a \<lparr>as_m = [], as_scalars = []\<rparr>"
  by (auto simp: can_unify_def list_all_iff)

lemma unify_single: "unify a \<lparr>as_m = [(x, v)], as_scalars = []\<rparr> = as_extend x v a"
  by (simp add: unify_def as_extend_def)

lemma bm_insert_twice: "bm_insert k v (bm_insert k w m) = bm_insert k v m"
  by (induction k w m rule: bm_insert.induct) auto

lemma as_extend_twice: "as_extend x v (as_extend x w a) = as_extend x v a"
  by (simp add: as_extend_def bm_insert_twice)

lemma compatible_group: "as_scalars (row_mu r) = [] \<Longrightarrow> unbound var r \<Longrightarrow> compatible r (group_row var p)"
  by (force simp: compatible_def group_row_def row_new_def group_mu_def can_unify_def unbound_def as_get_def list_all_iff
      map_of_eq_None_iff split: option.splits if_splits)

lemma spec_concat_seeded:
  assumes "\<And>r. r \<in> set xs \<Longrightarrow> row_inv A r \<and> unbound var r"
  shows "spec_concat xs (map (group_row var) ps) = seeded var xs ps"
  unfolding spec_concat_def seeded_def
proof (intro arg_cong [of _ _ concat] map_cong refl)
  fix r assume r: "r \<in> set xs"
  then have "compatible r (group_row var p)" for p using assms by (intro compatible_group) (simp_all add: row_inv_def)
  moreover obtain n where "row_last r = Some n" using assms [OF r] row_inv_last by blast
  ultimately show "map (glue r) (filter (\<lambda>r2. meets r r2 \<and> compatible r r2) (map (group_row var) ps))
      = map (\<lambda>p. glue r (group_row var p)) (filter (\<lambda>p. first_node_id p = row_last r) ps)"
    by (simp add: filter_map comp_def meets_def)
qed

lemma path_append_hop:
  "p \<noteq> [] \<Longrightarrow> path_append (path_append q p) [PNode a, e, PNode b] = path_append q (p @ [e, PNode b])"
  by (simp add: path_append_def)

lemma extend_last_hop:
  "p \<noteq> [] \<Longrightarrow> extend_last (extend_last ps p) [PNode a, e, PNode b] = extend_last ps (p @ [e, PNode b])"
  by (simp add: extend_last_def path_append_hop)

lemma last_extend_last: "ps \<noteq> [] \<Longrightarrow> last (extend_last ps p) = path_append (last ps) p"
  by (simp add: extend_last_def)

lemma last_edge_hop: "is_edge e \<Longrightarrow> last_edge_of (p @ [e, PNode b]) = Some e"
  by (simp add: last_edge_of_def is_edge_def)

lemma row_last_glue:
  assumes "row_paths r \<noteq> []" "p \<noteq> []" "first_node_id p = row_last r" "last_node_id p \<noteq> None"
  shows "row_last (glue r (group_row var p)) = last_node_id p"
proof (cases "tl p")
  case Nil
  then obtain x where p: "p = [x]" using assms(2) by (cases p) auto
  have "row_last r = last_node_id p" using assms(3,4) p by (auto simp: first_node_id_def last_node_id_def split: pvalue.splits)
  then show ?thesis using assms(1) p by (simp add: row_path_glue last_extend_last path_append_def) (simp add: row_path_def)
next
  case (Cons y ys)
  then have "last (q @ tl p) = last p" "q @ tl p \<noteq> []" for q by (cases p; simp)+
  then show ?thesis using assms(1,2)
    by (simp add: row_path_glue last_extend_last path_append_def last_node_id_def)
qed

text \<open>One more edge on a continued row, and the first edge on a left row.\<close>

lemma push_hop:
  assumes "row_paths r \<noteq> []" "p \<noteq> []" "is_edge e" "desc_var d = None"
  shows "push_group var (glue (glue r (group_row var p)) (edge_row d a e b)) = glue r (group_row var (p @ [e, PNode b]))"
proof -
  have ext: "extend_last (row_paths r) p \<noteq> []" using assms(1) by (simp add: extend_last_def)
  have "last_edge_of (last (extend_last (row_paths r) (p @ [e, PNode b]))) = Some e"
    using assms(1,2,3) last_edge_hop [of e "last (row_paths r) @ tl p" b] by (simp add: last_extend_last path_append_def)
  then show ?thesis
    using assms ext
    by (auto simp: push_group_def glue_def edge_row_def row_new_def row_path_def group_row_def extend_path_def extend_last_hop
        from_optional_def assignment_new_def group_mu_def unify_single as_get_def as_extend_twice
        map_of_bm_insert split: option.splits) (auto simp: as_extend_def map_of_bm_insert bm_insert_twice)
qed

lemma push_first:
  assumes "row_paths r \<noteq> []" "is_edge e" "desc_var d = None" "unbound var r"
  shows "push_group var (glue r (edge_row d a e b)) = glue r (group_row var [PNode a, e, PNode b])"
proof -
  have "last_edge_of (last (extend_last (row_paths r) [PNode a, e, PNode b])) = Some e"
    using assms(1,2) last_edge_hop [of e "last (row_paths r)" b] by (simp add: last_extend_last path_append_def)
  then show ?thesis
    using assms
    by (auto simp: push_group_def glue_def edge_row_def row_new_def row_path_def group_row_def extend_path_def
        from_optional_def assignment_new_def group_mu_def unify_single unbound_def is_edge_def split: option.splits pvalue.splits)
qed

lemma first_node_id_PNode [simp]: "first_node_id (PNode a # p) = Some a"
  by (simp add: first_node_id_def)

lemma concat_concat_map: "concat (concat (map g xs)) = concat (map (\<lambda>x. concat (g x)) xs)"
  by (induction xs) simp_all

lemma concat_if_filter: "concat (map (\<lambda>x. if P x then f x else []) xs) = concat (map f (filter P xs))"
  by (induction xs) auto

text \<open>Continuing the seeded rows by one edge, and the left rows by the first edge.\<close>

lemma seeded_Suc:
  assumes "\<And>r. r \<in> set xs \<Longrightarrow> row_inv A r" "edges_only T" "desc_var d = None"
    and "\<And>p. p \<in> set (hops T k) \<Longrightarrow> last_node_id p \<noteq> None"
  shows "map (push_group var) (spec_concat (seeded var xs (hops T k)) (map (\<lambda>(a, e, b). edge_row d a e b) T))
    = seeded var xs (hops T (Suc k))"
proof -
  have edge: "is_edge e" if "(a, e, b) \<in> set T" for a e b using assms(2) that by (auto simp: edges_only_def list_all_iff)
  have one: "map (push_group var) (map (glue (glue r (group_row var p)))
        (filter (\<lambda>r2. meets (glue r (group_row var p)) r2 \<and> compatible (glue r (group_row var p)) r2)
          (map (\<lambda>(a, e, b). edge_row d a e b) T)))
      = map (\<lambda>p. glue r (group_row var p)) (map (\<lambda>(a, e, b). p @ [e, PNode b]) (filter (\<lambda>(a, e, b). last_node_id p = Some a) T))"
    if "r \<in> set xs" "p \<in> set (hops T k)" "first_node_id p = row_last r" for r p
  proof -
    let ?g = "glue r (group_row var p)"
    have r: "row_paths r \<noteq> []" using assms(1) [OF that(1)] by (simp add: row_inv_def)
    have p: "p \<noteq> []" using hops_nonempty [OF that(2)] .
    have last: "row_last ?g = last_node_id p" using row_last_glue [OF r p that(3)] assms(4) [OF that(2)] .
    have "compatible ?g (edge_row d a e b)" for a e b
      using assms(3) by (simp add: compatible_def edge_row_def row_new_def from_optional_def assignment_new_def)
    then show ?thesis
      using assms(4) [OF that(2)] push_hop [OF r p _ assms(3)] edge
      by (auto simp: last meets_def filter_map comp_def split_beta intro!: map_cong filter_cong)
  qed
  have "map (push_group var) (spec_concat (seeded var xs (hops T k)) (map (\<lambda>(a, e, b). edge_row d a e b) T))
      = concat (map (\<lambda>r. concat (map (\<lambda>p. map (push_group var) (map (glue (glue r (group_row var p)))
          (filter (\<lambda>r2. meets (glue r (group_row var p)) r2 \<and> compatible (glue r (group_row var p)) r2)
            (map (\<lambda>(a, e, b). edge_row d a e b) T)))) (filter (\<lambda>p. first_node_id p = row_last r) (hops T k)))) xs)"
    by (simp only: spec_concat_def seeded_def map_concat map_map comp_def concat_concat_map)
  also have "\<dots> = concat (map (\<lambda>r. concat (map (\<lambda>p. map (\<lambda>p. glue r (group_row var p))
      (map (\<lambda>(a, e, b). p @ [e, PNode b]) (filter (\<lambda>(a, e, b). last_node_id p = Some a) T)))
      (filter (\<lambda>p. first_node_id p = row_last r) (hops T k)))) xs)"
    by (intro arg_cong [of _ _ concat] map_cong refl one) simp_all
  also have "\<dots> = seeded var xs (hops T (Suc k))"
  proof -
    have "filter (\<lambda>p. first_node_id p = n) (hops T (Suc k))
        = concat (map (\<lambda>p. map (\<lambda>(a, e, b). p @ [e, PNode b]) (filter (\<lambda>(a, e, b). last_node_id p = Some a) T))
            (filter (\<lambda>p. first_node_id p = n) (hops T k)))" for n
    proof -
      have "filter (\<lambda>p. first_node_id p = n) (map (\<lambda>(a, e, b). p @ [e, PNode b]) ts)
          = (if first_node_id p = n then map (\<lambda>(a, e, b). p @ [e, PNode b]) ts else [])" if "p \<in> set (hops T k)" for p ts
        using hops_first [OF that] by (auto simp: filter_map comp_def split_beta filter_empty_conv)
      then have "filter (\<lambda>p. first_node_id p = n) (hops T (Suc k))
          = concat (map (\<lambda>p. if first_node_id p = n then map (\<lambda>(a, e, b). p @ [e, PNode b]) (filter (\<lambda>(a, e, b). last_node_id p = Some a) T) else []) (hops T k))"
        unfolding hops.simps(2) filter_concat map_map comp_def by (intro arg_cong [of _ _ concat] map_cong refl)
      then show ?thesis by (simp only: concat_if_filter)
    qed
    then show ?thesis by (simp only: seeded_def map_concat map_map comp_def)
  qed
  finally show ?thesis .
qed

lemma seeded_first:
  assumes "\<And>r. r \<in> set xs \<Longrightarrow> row_inv A r \<and> unbound var r" "edges_only T" "desc_var d = None"
  shows "map (push_group var) (spec_concat xs (map (\<lambda>(a, e, b). edge_row d a e b) T)) = seeded var xs (hops T 0)"
proof -
  have edge: "is_edge e" if "(a, e, b) \<in> set T" for a e b using assms(2) that by (auto simp: edges_only_def list_all_iff)
  have one: "map (push_group var) (map (glue r) (filter (\<lambda>r2. meets r r2 \<and> compatible r r2) (map (\<lambda>(a, e, b). edge_row d a e b) T)))
      = map (\<lambda>p. glue r (group_row var p)) (filter (\<lambda>p. first_node_id p = row_last r) (hops T 0))" if x: "r \<in> set xs" for r
  proof -
    have r: "row_paths r \<noteq> []" "unbound var r" using assms(1) [OF x] by (simp_all add: row_inv_def)
    obtain n where n: "row_last r = Some n" using assms(1) [OF x] row_inv_last by blast
    have "compatible r (edge_row d a e b)" for a e b
      using assms(3) by (simp add: compatible_def edge_row_def row_new_def from_optional_def assignment_new_def)
    then show ?thesis
      using push_first [OF r(1) _ assms(3) r(2)] edge n
      by (auto simp: meets_def filter_map comp_def split_beta intro!: map_cong filter_cong)
  qed
  have "map (push_group var) (spec_concat xs (map (\<lambda>(a, e, b). edge_row d a e b) T))
      = concat (map (\<lambda>r. map (push_group var) (map (glue r) (filter (\<lambda>r2. meets r r2 \<and> compatible r r2) (map (\<lambda>(a, e, b). edge_row d a e b) T)))) xs)"
    by (simp only: spec_concat_def map_concat map_map comp_def)
  also have "\<dots> = seeded var xs (hops T 0)"
    unfolding seeded_def by (intro arg_cong [of _ _ concat] map_cong refl one)
  finally show ?thesis .
qed

lemma seeded_zero:
  assumes "\<And>r. r \<in> set xs \<Longrightarrow> row_inv A r \<and> unbound (desc_var (descriptor_of p)) r" "distinct (ga_nodes A)" "is_edge_pattern p"
  shows "spec_concat xs (zero_rows A (freevars p)) = map (\<lambda>r. r\<lparr>row_mu := fill_empty_list (freevars p) (row_mu r)\<rparr>) xs"
proof -
  let ?var = "desc_var (descriptor_of p)"
  have fv: "freevars p = (case ?var of None \<Rightarrow> [] | Some x \<Rightarrow> [x])"
    using assms(3) by (cases p) (auto simp: is_edge_pattern_def descriptor_of_def desc_vars_def)
  have "fill_empty_list (freevars p) assignment_new = group_mu ?var [PNode i]" for i
    by (cases ?var) (simp_all add: fv fill_empty_list_def fill_with_def assignment_new_def group_mu_def)
  then have zero: "zero_rows A (freevars p) = map (group_row ?var) (map (\<lambda>i. [PNode i]) (ga_nodes A))"
    by (simp add: zero_rows_def group_row_def)
  have "map (\<lambda>p. glue r (group_row ?var p)) (filter (\<lambda>p. first_node_id p = row_last r) (map (\<lambda>i. [PNode i]) (ga_nodes A)))
      = [r\<lparr>row_mu := fill_empty_list (freevars p) (row_mu r)\<rparr>]" if r: "r \<in> set xs" for r
  proof -
    obtain n where n: "row_last r = Some n" "n \<in> set (ga_nodes A)" using assms(1) [OF r] row_inv_last by blast
    have nm: "filter (\<lambda>i. i = n) ns = [n]" if "distinct ns" "n \<in> set ns" for ns
      using that by (induction ns) (auto simp: filter_empty_conv)
    have "filter (\<lambda>p. first_node_id p = row_last r) (map (\<lambda>i. [PNode i]) (ga_nodes A)) = map (\<lambda>i. [PNode i]) (filter (\<lambda>i. i = n) (ga_nodes A))"
      using n by (simp add: filter_map comp_def first_node_id_def)
    moreover have "unify (row_mu r) (group_mu ?var [PNode n]) = fill_empty_list (freevars p) (row_mu r)"
      using assms(1) [OF r]
      by (cases ?var) (simp_all add: fv fill_empty_list_def fill_with_def group_mu_def unify_single as_extend_def unbound_def as_get_def)
    moreover have "extend_last (row_paths r) [PNode n] = row_paths r"
      using assms(1) [OF r] by (simp add: row_inv_def extend_last_def path_append_def)
    ultimately show ?thesis
      by (simp add: nm [OF assms(2) n(2)] glue_def extend_path_def) (simp add: group_row_def row_new_def)
  qed
  then have "concat (map (\<lambda>r. map (\<lambda>p. glue r (group_row ?var p)) (filter (\<lambda>p. first_node_id p = row_last r) (map (\<lambda>i. [PNode i]) (ga_nodes A)))) xs)
      = concat (map (\<lambda>r. [r\<lparr>row_mu := fill_empty_list (freevars p) (row_mu r)\<rparr>]) xs)"
    by (intro arg_cong [of _ _ concat] map_cong refl)
  then show ?thesis
    unfolding zero by (subst spec_concat_seeded [OF assms(1)]) (simp_all add: seeded_def concat_map_singleton)
qed

end
