(* ===== verification/EvalProof.thy ===== *)
theory EvalProof
  imports EvalRepeat
begin

text \<open>
  The evaluator of bounded path patterns gives the rows of the reference, or as many of
  them as the limit asks for; the paths of its rows are walks of the graph.
\<close>

section \<open>Repetition of one edge from the left rows\<close>

lemma run_edge_step_Nil [simp]: "run_edge_step A [] p = []"
  by (simp add: run_edge_step_def concat_with_directed_edge_def concat_with_undirected_edge_def take_limit_def
      split: path_pattern.split)

lemma spec_concat_Nil [simp]: "spec_concat xs [] = []"
  by (simp add: spec_concat_def)

lemma range_Suc: "concat (map G [max 1 lb..<Suc (Suc k)]) = concat (map G [max 1 lb..<Suc k]) @ (if lb \<le> Suc k then G (Suc k) else [])"
  by auto

lemma range_split:
  "k \<le> ub \<Longrightarrow> \<exists>ys. concat (map G [max 1 lb..<Suc ub]) = concat (map G [max 1 lb..<Suc k]) @ ys"
proof (induction ub)
  case (Suc ub)
  then show ?case
  proof (cases "k = Suc ub")
    case False
    then obtain ys where "concat (map G [max 1 lb..<Suc ub]) = concat (map G [max 1 lb..<Suc k]) @ ys" using Suc by auto
    then show ?thesis unfolding range_Suc [of G lb ub] by simp
  qed simp
qed simp

lemma range_empty:
  assumes "\<And>j. k < j \<Longrightarrow> G j = []" "k \<le> ub"
  shows "concat (map G [max 1 lb..<Suc ub]) = concat (map G [max 1 lb..<Suc k])"
  using assms(2)
proof (induction ub)
  case (Suc ub)
  then show ?case
  proof (cases "k = Suc ub")
    case False
    then have "G (Suc ub) = []" "concat (map G [max 1 lb..<Suc ub]) = concat (map G [max 1 lb..<Suc k])"
      using Suc assms(1) by simp_all
    then show ?thesis unfolding range_Suc [of G lb ub] by simp
  qed simp
qed simp

lemma seeded_levels_cut:
  assumes step: "\<And>k fr. same_rows fr (G k) \<Longrightarrow> same_rows (map (push_group var) (run_edge_step A fr sp)) (G (Suc k))"
    and "same_rows fr (G k)" "same_rows out (base @ concat (map G [max 1 lb..<Suc k]))" "k \<le> ub"
  shows "cut limit (seeded_levels A sp var lb limit [Suc k..<Suc ub] fr out) (base @ concat (map G [max 1 lb..<Suc ub]))"
  using assms(2-4)
proof (induction "ub - k" arbitrary: k fr out)
  case 0
  then show ?case by (simp add: cut_same del: upt_Suc)
next
  case (Suc d)
  have ks: "[Suc k..<Suc ub] = Suc k # [Suc (Suc k)..<Suc ub]" using Suc.hyps(2) by (intro upt_conv_Cons) simp
  have le: "Suc k \<le> ub" "d = ub - Suc k" using Suc.hyps(2) by linarith+
  let ?next = "map (push_group var) (run_edge_step A fr sp)"
  let ?out = "if lb \<le> Suc k then out @ ?next else out"
  have nxt: "same_rows ?next (G (Suc k))" by (rule step) (rule Suc.prems(1))
  have "same_rows ?out (base @ concat (map G [max 1 lb..<Suc k]) @ (if lb \<le> Suc k then G (Suc k) else []))"
    using same_rows_append [OF Suc.prems(2) nxt] Suc.prems(2) by (cases "lb \<le> Suc k") (simp_all del: upt_Suc)
  then have out: "same_rows ?out (base @ concat (map G [max 1 lb..<Suc (Suc k)]))" unfolding range_Suc .
  show ?case
  proof (cases "lb \<le> Suc k \<and> 0 < limit \<and> limit \<le> length ?out")
    case True
    then have "seeded_levels A sp var lb limit [Suc k..<Suc ub] fr out = take_limit limit ?out"
      unfolding ks seeded_levels.simps Let_def by (auto simp: take_limit_def simp del: upt_Suc)
    moreover have "limit_reached (take_limit limit ?out) limit" using True by (auto simp: limit_reached_def take_limit_def)
    moreover obtain ys where "concat (map G [max 1 lb..<Suc ub]) = concat (map G [max 1 lb..<Suc (Suc k)]) @ ys"
      using range_split [OF le(1)] by blast
    ultimately show ?thesis using cut_reached [OF cut_take_limit [OF out]] by (metis append.assoc)
  next
    case no: False
    show ?thesis
    proof (cases "?next = []")
      case True
      have "G j = []" if "Suc k \<le> j" for j
        using that
      proof (induction j rule: nat_induct_at_least)
        case base
        then show ?case using nxt True same_rows_empty by metis
      next
        case (Suc j)
        then show ?case using step [of "[]" j] same_rows_empty by auto
      qed
      then have "concat (map G [max 1 lb..<Suc ub]) = concat (map G [max 1 lb..<Suc (Suc k)])"
        using le(1) by (intro range_empty) auto
      moreover have "seeded_levels A sp var lb limit [Suc k..<Suc ub] fr out = ?out"
        using no True unfolding ks seeded_levels.simps Let_def by (auto simp del: upt_Suc)
      ultimately show ?thesis using out by (metis cut_same)
    next
      case False
      then have "seeded_levels A sp var lb limit [Suc k..<Suc ub] fr out
          = seeded_levels A sp var lb limit [Suc (Suc k)..<Suc ub] ?next ?out"
        using no unfolding ks seeded_levels.simps Let_def by (auto simp del: upt_Suc)
      then show ?thesis using Suc.hyps(1) [OF le(2) nxt out le(1)] by simp
    qed
  qed
qed

context labelled_store
begin

lemma run_edge_step_spec:
  assumes "good xs"
  shows "same_rows (run_edge_step A xs p) (spec_concat xs (spec_edge A p))"
proof (cases p)
  case (EdgeAnyDirection d)
  have "same_rows (run_edge_step A xs p)
      (spec_concat xs (spec_right A d) @ spec_concat xs (spec_left A d) @ spec_concat xs (spec_undirected A d))"
    unfolding run_edge_step_def EdgeAnyDirection path_pattern.case
    by (intro same_rows_append concat_directed_spec concat_undirected_spec assms)
  also have "same_rows \<dots> (spec_concat xs (spec_edge A p))"
    unfolding spec_edge_def EdgeAnyDirection path_pattern.case
    by (rule same_rows_sym, rule same_rows_trans, rule spec_concat_append, rule same_rows_append, rule same_rows_refl, rule spec_concat_append)
  finally show ?thesis .
qed (auto simp: run_edge_step_def spec_edge_def concat_directed_spec concat_undirected_spec assms)

lemma repeat_good: "is_edge_pattern p \<Longrightarrow> good (repetition_pattern A vars (spec_edge A p) k)"
  using repetition_inv spec_edge_inv by blast

lemma repeat_hops:
  assumes "is_edge_pattern p"
  shows "repetition_pattern A vars (spec_edge A p) (Suc k) = map (group_row (desc_var (descriptor_of p))) (hops (triples A p) k)"
  using level_hops [OF triples_edges] unfolding repetition_pattern_level [OF zero_less_Suc] rows_to_group_edges [OF assms] .

lemma seeded_step:
  assumes "good xs" "is_edge_pattern p" "\<And>r. r \<in> set xs \<Longrightarrow> unbound (desc_var (descriptor_of p)) r"
  defines "G \<equiv> \<lambda>k. if k = 0 then xs else spec_concat xs (repetition_pattern A (freevars p) (spec_edge A p) k)"
  assumes "same_rows fr (G k)"
  shows "same_rows (map (push_group (desc_var (descriptor_of p))) (run_edge_step A fr (strip_var p))) (G (Suc k))"
proof -
  let ?var = "desc_var (descriptor_of p)" and ?T = "triples A p"
  have G: "G (Suc j) = seeded ?var xs (hops ?T j)" for j
    using spec_concat_seeded [of xs A ?var "hops ?T j"] assms(1,3) unfolding G_def repeat_hops [OF assms(2)] by simp
  have gG: "good (G j)" for j
  proof (cases j)
    case (Suc i)
    have "row_inv A r" if "r \<in> set (spec_concat xs (repetition_pattern A (freevars p) (spec_edge A p) j))" for r
      using assms(1) repeat_good [OF assms(2)] by (intro spec_concat_inv [OF _ _ that]) blast+
    then show ?thesis unfolding G_def Suc by simp
  qed (use assms(1) in \<open>simp add: G_def\<close>)
  then have "good fr" using assms(5) same_rows_set by metis
  have edges: "spec_edge A (strip_var p) = map (\<lambda>(a, e, b). edge_row (descriptor_of (strip_var p)) a e b) ?T"
    using assms(2) by (simp add: spec_edge_triples strip_edge strip_triples)
  have nv: "desc_var (descriptor_of (strip_var p)) = None" using strip_no_var [OF assms(2)] .
  have "map (push_group ?var) (spec_concat (G k) (spec_edge A (strip_var p))) = G (Suc k)"
  proof (cases k)
    case 0
    have "map (push_group ?var) (spec_concat xs (spec_edge A (strip_var p))) = seeded ?var xs (hops ?T 0)"
      unfolding edges using assms(1,3) by (intro seeded_first [OF _ triples_edges nv]) blast
    then show ?thesis unfolding 0 G by (simp add: G_def)
  next
    case (Suc j)
    have "last_node_id q \<noteq> None" if "q \<in> set (hops ?T j)" for q
    proof -
      have "group_row ?var q \<in> set (repetition_pattern A (freevars p) (spec_edge A p) (Suc j))"
        using that by (simp add: repeat_hops [OF assms(2)])
      then have "row_inv A (group_row ?var q)" using repeat_good [OF assms(2)] by blast
      then show ?thesis using row_inv_last by fastforce
    qed
    then show ?thesis unfolding Suc G edges using assms(1) by (intro seeded_Suc [OF _ triples_edges nv]) blast+
  qed
  moreover have "same_rows (run_edge_step A fr (strip_var p)) (spec_concat (G k) (spec_edge A (strip_var p)))"
    by (rule same_rows_trans, rule run_edge_step_spec [OF \<open>good fr\<close>], rule same_rows_spec_concat [OF assms(5) same_rows_refl])
  ultimately show ?thesis using same_rows_map by metis
qed

end

section \<open>Concatenation\<close>

lemma cut_same_rows: "cut limit xs ys \<Longrightarrow> same_rows ys zs \<Longrightarrow> cut limit xs zs"
  by (simp add: cut_def same_rows_def)

lemma same_rows_concat_of:
  assumes "same_rows xs xs'" "same_rows ys ys'"
  shows "same_rows (spec_concat_of rt xs q ys) (spec_concat_of rt xs' q ys')"
  unfolding spec_concat_of_def using assms
  by (auto intro!: same_rows_spec_concat same_rows_filter split: path_pattern.split)

lemma spec_concat_concat:
  "same_rows (spec_concat xs (concat yss)) (concat (map (spec_concat xs) yss))"
proof (induction yss)
  case (Cons ys yss)
  have "same_rows (spec_concat xs (ys @ concat yss)) (spec_concat xs ys @ spec_concat xs (concat yss))"
    by (rule spec_concat_append)
  also have "same_rows \<dots> (spec_concat xs ys @ concat (map (spec_concat xs) yss))"
    by (rule same_rows_append [OF same_rows_refl Cons])
  finally show ?case by simp
qed simp

lemma take_limit_0 [simp]: "take_limit 0 xs = xs"
  by (simp add: take_limit_def)

lemma concat_limits:
  "concat_with_directed_edge A xs d b limit = take_limit limit (concat_with_directed_edge A xs d b 0)"
  "concat_with_undirected_edge A xs d limit = take_limit limit (concat_with_undirected_edge A xs d 0)"
  "concat_with_node A xs d limit = take_limit limit (concat_with_node A xs d 0)"
  by (simp_all add: concat_with_directed_edge_def concat_with_undirected_edge_def concat_with_node_def)

context labelled_store
begin

lemma concat_edge_cut:
  assumes "good xs"
  shows "cut limit (concat_with_directed_edge A xs d True limit) (spec_concat xs (spec_right A d))"
    "cut limit (concat_with_directed_edge A xs d False limit) (spec_concat xs (spec_left A d))"
    "cut limit (concat_with_undirected_edge A xs d limit) (spec_concat xs (spec_undirected A d))"
    "cut limit (concat_with_node A xs d limit) (spec_concat xs (spec_nodes A d))"
  by (subst concat_limits, rule cut_take_limit, rule concat_directed_spec concat_undirected_spec concat_node_spec, rule assms)+

lemma concat_any_cut:
  assumes "good xs"
  shows "cut limit (concat_with_any_edge A xs d limit) (spec_concat xs (spec_edge A (EdgeAnyDirection d)))"
proof -
  let ?right = "concat_with_directed_edge A xs d True limit"
  let ?left = "concat_with_directed_edge A xs d False (limit - length ?right)"
  let ?und = "concat_with_undirected_edge A xs d (limit - length (?right @ ?left))"
  let ?spec = "spec_concat xs (spec_right A d) @ spec_concat xs (spec_left A d) @ spec_concat xs (spec_undirected A d)"
  have right: "cut limit ?right (spec_concat xs (spec_right A d))" using concat_edge_cut [OF assms] by blast
  have both: "cut limit (?right @ ?left) (spec_concat xs (spec_right A d) @ spec_concat xs (spec_left A d))"
    using concat_edge_cut [OF assms] by (intro cut_append [OF right]) blast
  have all: "cut limit ((?right @ ?left) @ ?und) ((spec_concat xs (spec_right A d) @ spec_concat xs (spec_left A d)) @ spec_concat xs (spec_undirected A d))"
    using concat_edge_cut [OF assms] by (intro cut_append [OF both]) blast
  have "cut limit (concat_with_any_edge A xs d limit) ?spec"
    using cut_reached [OF right] cut_reached [OF both] all unfolding concat_with_any_edge_def Let_def by auto
  moreover have "same_rows ?spec (spec_concat xs (spec_edge A (EdgeAnyDirection d)))"
    unfolding spec_edge_def path_pattern.case
    by (rule same_rows_sym, rule same_rows_trans, rule spec_concat_append, rule same_rows_append, rule same_rows_refl, rule spec_concat_append)
  ultimately show ?thesis by (rule cut_same_rows)
qed

lemma edge_rows: "rt_graph rt = A \<Longrightarrow> is_edge_pattern p \<Longrightarrow> spec_rows rt pol p = spec_edge A p"
  by (cases p) (simp_all add: is_edge_pattern_def spec_edge_def)

lemma concat_repetition_cut:
  assumes "good xs" "rt_graph rt = A" "try_concat_with_edge_repetition rt xs p lb ub limit = Some rows"
  shows "cut limit rows (spec_concat xs (spec_rows rt pol (Repeat p lb ub)))"
proof -
  let ?var = "desc_var (descriptor_of p)"
  obtain n where p: "ub = Some n" "is_edge_pattern p" using assms(3)
    by (auto simp: try_concat_with_edge_repetition_def split: if_splits option.splits)
  show ?thesis
  proof (cases "n < lb")
    case True
    then show ?thesis using assms(3) p
      by (auto simp: try_concat_with_edge_repetition_def cut_def split: if_splits)
  next
    case False
    let ?out = "if lb = 0 then map (\<lambda>r. r\<lparr>row_mu := fill_empty_list (freevars p) (row_mu r)\<rparr>) xs else []"
    let ?R = "repetition_pattern A (freevars p) (spec_edge A p)"
    define G where "G = (\<lambda>k. if k = 0 then xs else spec_concat xs (?R k))"
    have ub: "unbound ?var r" if "r \<in> set xs" for r
      using assms(3) False p that
      by (auto simp: try_concat_with_edge_repetition_def unbound_def list_ex_iff Let_def split: if_splits option.splits)
    have rows: "rows = (if lb = 0 \<and> 0 < limit \<and> limit \<le> length ?out then take limit ?out
        else seeded_levels A (strip_var p) ?var lb limit [1..<Suc n] xs ?out)"
      using assms(2,3) False p
      by (auto simp: try_concat_with_edge_repetition_def Let_def simp del: upt_Suc split: if_splits)
    have out: "?out = (if lb = 0 then spec_concat xs (?R 0) else [])"
      using seeded_zero [of xs A p] assms(1) ub distinct_nodes p(2) by (simp add: repetition_pattern_def)
    have "spec_concat xs (?R k) = G k" if "k \<in> set [max 1 lb..<Suc n]" for k using that by (simp add: G_def del: upt_Suc)
    then have Gs: "map (\<lambda>k. spec_concat xs (?R k)) [max 1 lb..<Suc n] = map G [max 1 lb..<Suc n]" by (intro map_cong) simp_all
    have "[lb..<Suc n] = (if lb = 0 then [0] else []) @ [max 1 lb..<Suc n]" using False by (simp add: upt_conv_Cons del: upt_Suc)
    then have split: "concat (map (spec_concat xs) (map ?R [lb..<Suc n])) = ?out @ concat (map G [max 1 lb..<Suc n])"
      unfolding out Gs [symmetric] by (simp add: comp_def del: upt_Suc)
    have "cut limit (seeded_levels A (strip_var p) ?var lb limit [Suc 0..<Suc n] xs ?out) (?out @ concat (map G [max 1 lb..<Suc n]))"
      using seeded_step [OF assms(1) p(2) ub, folded G_def] by (intro seeded_levels_cut) (simp_all add: G_def)
    then have levels: "cut limit (seeded_levels A (strip_var p) ?var lb limit [1..<Suc n] xs ?out) (?out @ concat (map G [max 1 lb..<Suc n]))"
      unfolding One_nat_def .
    have first: "cut limit (take limit ?out) (?out @ concat (map G [max 1 lb..<Suc n]))" if "0 < limit" "limit \<le> length ?out"
      using cut_take_limit [OF same_rows_refl, of limit ?out] that
      by (intro cut_reached) (simp_all add: take_limit_def limit_reached_def)
    have "cut limit rows (?out @ concat (map G [max 1 lb..<Suc n]))"
    proof (cases "lb = 0 \<and> 0 < limit \<and> limit \<le> length ?out")
      case True
      then show ?thesis unfolding rows if_P [OF True] using first by blast
    next
      case no: False
      show ?thesis unfolding rows if_not_P [OF no] by (rule levels)
    qed
    then have "cut limit rows (spec_concat xs (concat (map ?R [lb..<Suc n])))"
      using cut_same_rows same_rows_sym [OF spec_concat_concat] split by metis
    then show ?thesis using assms(2) p edge_rows [of rt p pol] by simp
  qed
qed

lemma concat_seeded_cut:
  assumes "good xs" "rt_graph rt = A" "concat_seeded rt xs q limit = Some rows"
  shows "cut limit rows (spec_concat_of rt xs q (spec_rows rt pol q))"
proof (cases q)
  case (Filter q' x)
  then have e: "is_edge_pattern q'" "rows = apply_filter rt (run_edge_step A xs q') x limit"
    using assms(2,3) by (auto simp: concat_seeded_def try_concat_with_filtered_edge_def split: if_splits)
  have "cut limit rows (filter (\<lambda>r. rt_holds rt (row_mu r) x) (spec_concat xs (spec_edge A q')))"
    unfolding e(2) apply_filter_def by (intro cut_take_limit same_rows_filter run_edge_step_spec assms)
  then show ?thesis using Filter e(1) assms(2) by (simp add: spec_concat_of_def)
next
  case (Repeat p lb ub)
  then show ?thesis using concat_repetition_cut [OF assms(1,2)] assms(3) by (simp add: concat_seeded_def spec_concat_of_def)
next
  case (EdgeAnyDirection d)
  then show ?thesis using concat_any_cut [OF assms(1), of limit d] assms(2,3)
    by (simp add: concat_seeded_def spec_concat_of_def spec_edge_def)
qed (use concat_edge_cut [OF assms(1), of limit] assms(2,3) in \<open>auto simp: concat_seeded_def spec_concat_of_def\<close>)

end

end
