(* ===== verification/ModeSearch.thy ===== *)
theory ModeSearch
  imports EvalProof
begin

text \<open>
  The search for unbounded repetitions under TRAIL, SIMPLE and ACYCLIC: it ends, and it gives
  every repetition that satisfies the mode. The reference is the number of repetitions up to
  a bound on the length of such paths, each evaluated anew and filtered.
\<close>

section \<open>Modes bound the length of a walk\<close>

lemma map_filter_length: "length (List.map_filter f xs) \<le> length xs"
  by (simp add: List.map_filter_def)

lemma walk_ids:
  "is_walk A p \<Longrightarrow> length (node_ids p) = Suc (path_edge_len p) \<and> length (edge_ids p) = path_edge_len p
    \<and> set (node_ids p) \<subseteq> set (ga_nodes A) \<and> set (edge_ids p) \<subseteq> set (ga_edges_directed A) \<union> set (ga_edges_undirected A)"
proof (induction A p rule: is_walk.induct)
  case (1 A n)
  then show ?case by (simp add: node_ids_def edge_ids_def path_edge_len_def is_node_def List.map_filter_simps pv_id_def)
next
  case (2 A n e m p)
  then have "is_edge e" "\<not> is_node e" "\<exists>i. pv_id e = Some i \<and> i \<in> set (ga_edges_directed A) \<union> set (ga_edges_undirected A)"
    by (auto simp: crosses_def is_edge_def is_node_def pv_id_def split: pvalue.splits)
  with 2 show ?case
    by (auto simp: node_ids_def edge_ids_def path_edge_len_def is_node_def List.map_filter_simps pv_id_def)
qed simp_all

lemma append_ids:
  assumes "is_walk A q"
  shows "node_ids (path_append p q) = node_ids p @ tl (node_ids q)" "edge_ids (path_append p q) = edge_ids p @ edge_ids q"
    "path_edge_len (path_append p q) = path_edge_len p + path_edge_len q"
proof -
  obtain n q' where "q = PNode n # q'" using is_walk_ends [OF assms] assms by (cases q) auto
  then show "node_ids (path_append p q) = node_ids p @ tl (node_ids q)" "edge_ids (path_append p q) = edge_ids p @ edge_ids q"
    "path_edge_len (path_append p q) = path_edge_len p + path_edge_len q"
    by (simp_all add: path_append_def node_ids_def edge_ids_def path_edge_len_def is_node_def List.map_filter_simps pv_id_def
        List.map_filter_def)
qed

lemma mode_simple_iff:
  "path_satisfies_mode p Simple \<longleftrightarrow> node_ids p = [] \<or>
     distinct (butlast (node_ids p)) \<and> (last (node_ids p) = hd (node_ids p) \<or> last (node_ids p) \<notin> set (butlast (node_ids p)))"
  by (cases "node_ids p" rule: rev_cases)
    (auto simp: path_satisfies_mode_def simple_scan_iff Let_def Suc_le_eq neq_Nil_conv)

lemma mode_prefix:
  assumes "is_walk A p" "is_walk A q" "path_satisfies_mode (path_append p q) mode"
  shows "path_satisfies_mode p mode"
proof (cases mode)
  case Simple
  have ids: "node_ids p \<noteq> []" using walk_ids [OF assms(1)] by auto
  show ?thesis
  proof (cases "tl (node_ids q)")
    case Nil
    then show ?thesis using assms(3) append_ids(1) [OF assms(2), of p] by (simp add: path_satisfies_mode_def Simple)
  next
    case (Cons x xs)
    then have "butlast (node_ids (path_append p q)) = node_ids p @ butlast (x # xs)"
      using append_ids(1) [OF assms(2), of p] by (simp add: butlast_append)
    then have "distinct (node_ids p)" using assms(3) ids append_ids(1) [OF assms(2), of p] by (simp add: Simple mode_simple_iff)
    then show ?thesis unfolding Simple mode_simple_iff by (cases "node_ids p" rule: rev_cases) simp_all
  qed
qed (use assms(3) append_ids [OF assms(2), of p] in \<open>simp_all add: path_satisfies_mode_def no_repeats_def\<close>)

lemma length_distinct_subset: "distinct xs \<Longrightarrow> set xs \<subseteq> set ys \<Longrightarrow> length xs \<le> length ys"
  by (metis card_length card_mono distinct_card finite_set le_trans)

lemma mode_bound:
  assumes "is_walk A p" "path_satisfies_mode p mode" "mode \<noteq> Walk"
  shows "path_edge_len p \<le> walk_bound A"
proof (cases mode)
  case Trail
  then have "length (edge_ids p) \<le> length (ga_edges_directed A @ ga_edges_undirected A)"
    using assms(2) walk_ids [OF assms(1)] by (intro length_distinct_subset) (simp_all add: path_satisfies_mode_def no_repeats_def)
  then show ?thesis using walk_ids [OF assms(1)] by (simp add: walk_bound_def)
next
  case Acyclic
  then have "length (node_ids p) \<le> length (ga_nodes A)"
    using assms(2) walk_ids [OF assms(1)] by (intro length_distinct_subset) (simp_all add: path_satisfies_mode_def no_repeats_def)
  then show ?thesis using walk_ids [OF assms(1)] by (simp add: walk_bound_def)
next
  case Simple
  have ids: "node_ids p \<noteq> []" using walk_ids [OF assms(1)] by auto
  then have "length (butlast (node_ids p)) \<le> length (ga_nodes A)"
    using assms(2) walk_ids [OF assms(1)]
    by (intro length_distinct_subset) (auto simp: mode_simple_iff Simple dest: in_set_butlastD)
  then show ?thesis using walk_ids [OF assms(1)] by (simp add: walk_bound_def)
qed (use assms(3) in simp)

section \<open>One step of the search\<close>

definition mode_next :: "row list \<Rightarrow> path_mode \<Rightarrow> row list \<Rightarrow> row list" where
  "mode_next g mode rs = filter (mode_ok mode) (next_level g rs)"

lemma mode_next_Nil [simp]: "mode_next g mode [] = []"
  by (simp add: mode_next_def next_level_def)

lemma mode_next_append: "mode_next g mode (xs @ ys) = mode_next g mode xs @ mode_next g mode ys"
  by (simp add: mode_next_def next_level_def)

lemma mode_next_pow_Nil [simp]: "(mode_next g mode ^^ k) [] = []"
  by (induction k) simp_all

lemma mode_next_pow_append: "(mode_next g mode ^^ k) (xs @ ys) = (mode_next g mode ^^ k) xs @ (mode_next g mode ^^ k) ys"
  by (induction k) (simp_all add: mode_next_append)

lemma mode_next_pow_each: "(mode_next g mode ^^ k) xs = concat (map (\<lambda>r. (mode_next g mode ^^ k) [r]) xs)"
proof (induction xs)
  case (Cons x xs)
  have "(mode_next g mode ^^ k) ([x] @ xs) = (mode_next g mode ^^ k) [x] @ (mode_next g mode ^^ k) xs"
    by (rule mode_next_pow_append)
  then show ?case using Cons by simp
qed simp

text \<open>The rows that one unit of work gives: its extensions of every number of steps.\<close>

definition below :: "row list \<Rightarrow> path_mode \<Rightarrow> nat \<Rightarrow> nat \<Rightarrow> row \<times> nat \<Rightarrow> row list" where
  "below g mode lb n w =
     concat (map (\<lambda>j. if lb \<le> snd w + j then (mode_next g mode ^^ j) [fst w] else []) [1..<Suc n])"

lemma news_eq:
  "(case row_last r of None \<Rightarrow> [] | Some l \<Rightarrow>
      filter (\<lambda>r. path_satisfies_mode (row_path r) mode) (map (row_concat_group r) (matches_of g l))) = mode_next g mode [r]"
  by (cases "row_last r") (simp_all add: mode_next_def next_level_def mode_ok_def [abs_def])

text \<open>The rows of the search: walks that satisfy the mode, over an inner pattern that has edges.\<close>

definition steps_ok :: "graph_access \<Rightarrow> row list \<Rightarrow> bool" where
  "steps_ok A g \<longleftrightarrow> (\<forall>r \<in> set g. row_inv A r \<and> 0 < path_edge_len (row_path r))"

lemma row_path_concat_group: "row_paths r \<noteq> [] \<Longrightarrow> row_path (row_concat_group r s) = path_append (row_path r) (row_path s)"
  by (simp add: row_concat_group_def row_path_def last_extend_last)

lemma next_level_steps:
  assumes "steps_ok A g" "row_inv A r" "s \<in> set (next_level g [r])"
  shows "row_inv A s \<and> path_edge_len (row_path r) < path_edge_len (row_path s) \<and> row_first s = row_first r"
proof -
  obtain n where n: "row_last r = Some n" using assms(3) by (cases "row_last r") (auto simp: next_level_def)
  then obtain t where t: "t \<in> set g" "row_first t = Some n" "s = row_concat_group r t"
    using assms(3) by (auto simp: next_level_def matches_of_def)
  have inv: "row_inv A t" "0 < path_edge_len (row_path t)" using assms(1) t(1) by (simp_all add: steps_ok_def)
  have ne: "row_paths r \<noteq> []" using assms(2) by (simp add: row_inv_def)
  have "row_inv A s" using concat_group_inv [OF assms(2) inv(1)] t n by simp
  moreover have "row_path s = path_append (row_path r) (row_path t)" using row_path_concat_group [OF ne] t(3) by simp
  moreover have "first_node_id (path_append (row_path r) (row_path t)) = row_first r"
    using is_walk_ends [OF row_inv_walk [OF assms(2)]] by (cases "row_path r") (auto simp: path_append_def first_node_id_def)
  ultimately show ?thesis using inv append_ids(3) [OF row_inv_walk [OF inv(1)]] by simp
qed

lemma mode_next_steps:
  "steps_ok A g \<Longrightarrow> row_inv A r \<Longrightarrow> s \<in> set (mode_next g mode [r]) \<Longrightarrow>
    row_inv A s \<and> mode_ok mode s \<and> path_edge_len (row_path r) < path_edge_len (row_path s) \<and> row_first s = row_first r"
  using next_level_steps by (auto simp: mode_next_def)

lemma mode_pow_steps:
  assumes "steps_ok A g" "row_inv A r" "s \<in> set ((mode_next g mode ^^ j) [r])"
  shows "row_inv A s \<and> path_edge_len (row_path r) + j \<le> path_edge_len (row_path s)"
  using assms(3)
proof (induction j arbitrary: s)
  case (Suc j)
  then obtain t where t: "t \<in> set ((mode_next g mode ^^ j) [r])" "s \<in> set (mode_next g mode [t])"
    using mode_next_pow_each [of 1 g mode "(mode_next g mode ^^ j) [r]"] by auto
  then show ?case using Suc.IH [OF t(1)] mode_next_steps [OF assms(1) _ t(2)] by fastforce
qed (use assms(2) in simp)

lemma mode_pow_empty:
  assumes "steps_ok A g" "row_inv A r" "mode \<noteq> Walk" "walk_bound A < path_edge_len (row_path r) + j" "0 < j"
  shows "(mode_next g mode ^^ j) [r] = []"
proof (rule ccontr)
  assume "(mode_next g mode ^^ j) [r] \<noteq> []"
  then obtain s where s: "s \<in> set ((mode_next g mode ^^ j) [r])" by (meson list.set_sel(1))
  obtain k where "j = Suc k" using assms(5) by (cases j) auto
  then have "mode_ok mode s" using s by (simp add: mode_next_def)
  then show False
    using mode_pow_steps [OF assms(1,2) s] mode_bound [OF row_inv_walk _ assms(3), of A s] assms(4) by (fastforce simp: mode_ok_def)
qed

lemma same_rows_swap:
  "same_rows (concat (map (\<lambda>x. concat (map (f x) ys)) xs)) (concat (map (\<lambda>y. concat (map (\<lambda>x. f x y) xs)) ys))"
proof (induction xs)
  case (Cons x xs)
  have "same_rows (concat (map (f x) ys) @ concat (map (\<lambda>x. concat (map (f x) ys)) xs))
      (concat (map (f x) ys) @ concat (map (\<lambda>y. concat (map (\<lambda>x. f x y) xs)) ys))"
    by (rule same_rows_append [OF same_rows_refl Cons])
  also have "same_rows \<dots> (concat (map (\<lambda>y. f x y @ concat (map (\<lambda>x. f x y) xs)) ys))"
    by (rule same_rows_sym, rule same_rows_concat_append)
  finally show ?case by simp
qed (simp add: same_rows_def)

lemma below_step:
  assumes "steps_ok A g" "row_inv A r" "mode \<noteq> Walk"
  shows "same_rows (below g mode lb (walk_bound A) (r, k))
    ((if lb \<le> Suc k then mode_next g mode [r] else [])
      @ concat (map (\<lambda>s. below g mode lb (walk_bound A) (s, Suc k)) (mode_next g mode [r])))"
proof -
  let ?B = "walk_bound A" and ?F = "mode_next g mode"
  let ?t = "\<lambda>j. if lb \<le> k + j then (?F ^^ j) [r] else []"
  have "?t (Suc ?B) = []" using mode_pow_empty [OF assms, of "Suc ?B"] by simp
  then have "concat (map ?t [1..<Suc (Suc ?B)]) = concat (map ?t [1..<Suc ?B])" by simp
  then have "below g mode lb ?B (r, k) = concat (map ?t [1..<Suc (Suc ?B)])"
    unfolding below_def fst_conv snd_conv by (rule sym)
  also have "[1..<Suc (Suc ?B)] = 1 # map Suc [1..<Suc ?B]" by (simp add: map_Suc_upt upt_conv_Cons del: upt_Suc)
  also have "concat (map ?t (1 # map Suc [1..<Suc ?B])) = ?t 1 @ concat (map (\<lambda>j. ?t (Suc j)) [1..<Suc ?B])"
    by (simp add: comp_def del: upt_Suc)
  also have "(\<lambda>j. ?t (Suc j)) = (\<lambda>j. concat (map (\<lambda>s. if lb \<le> Suc k + j then (?F ^^ j) [s] else []) (?F [r])))"
  proof
    fix j
    have "(?F ^^ Suc j) [r] = concat (map (\<lambda>s. (?F ^^ j) [s]) (?F [r]))"
      unfolding funpow_Suc_right comp_def by (rule mode_next_pow_each)
    then show "?t (Suc j) = concat (map (\<lambda>s. if lb \<le> Suc k + j then (?F ^^ j) [s] else []) (?F [r]))"
      by (simp del: funpow.simps)
  qed
  finally have "below g mode lb ?B (r, k) = (if lb \<le> Suc k then ?F [r] else [])
      @ concat (map (\<lambda>j. concat (map (\<lambda>s. if lb \<le> Suc k + j then (?F ^^ j) [s] else []) (?F [r]))) [1..<Suc ?B])"
    by (simp del: upt_Suc)
  then show ?thesis unfolding below_def fst_conv snd_conv by (simp only:) (rule same_rows_append [OF same_rows_refl same_rows_swap])
qed

section \<open>The search\<close>

lemma mode_loop_rev:
  "mode_loop g lb mode limit (w # work) result =
    (if 0 < limit \<and> limit \<le> length result then Some result
     else mode_loop g lb mode limit (rev (map (\<lambda>s. (s, Suc (snd w))) (mode_next g mode [fst w])) @ work)
            (if lb \<le> Suc (snd w) then result @ mode_next g mode [fst w] else result))"
  by (cases w, hypsubst, subst mode_loop.simps) (simp add: news_eq Let_def)

definition work_ok :: "graph_access \<Rightarrow> path_mode \<Rightarrow> (row \<times> nat) list \<Rightarrow> bool" where
  "work_ok A mode work \<longleftrightarrow> (\<forall>w \<in> set work. row_inv A (fst w) \<and> mode_ok mode (fst w))"

definition depths :: "graph_access \<Rightarrow> (row \<times> nat) list \<Rightarrow> nat multiset" where
  "depths A work = mset (map (\<lambda>w. walk_bound A - path_edge_len (row_path (fst w))) work)"

lemma mode_loop_cut:
  assumes "steps_ok A g" "mode \<noteq> Walk"
  shows "work_ok A mode work \<Longrightarrow>
    \<exists>rows. mode_loop g lb mode limit work result = Some rows
      \<and> cut limit rows (result @ concat (map (below g mode lb (walk_bound A)) work))"
proof (induction "depths A work" arbitrary: work result rule: wf_induct_rule [OF wf_mult [OF wf_less_than]])
  case 1
  show ?case
  proof (cases work)
    case Nil
    then show ?thesis by (simp add: mode_loop.simps cut_same)
  next
    case (Cons w work')
    obtain r k where w: "w = (r, k)" by (cases w)
    have inv: "row_inv A r" "mode_ok mode r" "work_ok A mode work'" using 1(2) by (simp_all add: Cons w work_ok_def)
    let ?kids = "mode_next g mode [r]"
    let ?work = "rev (map (\<lambda>s. (s, Suc k)) ?kids) @ work'"
    let ?result = "if lb \<le> Suc k then result @ ?kids else result"
    let ?all = "\<lambda>work. concat (map (below g mode lb (walk_bound A)) work)"
    have kids: "row_inv A s \<and> mode_ok mode s \<and> path_edge_len (row_path r) < path_edge_len (row_path s)" if "s \<in> set ?kids" for s
      using mode_next_steps [OF assms(1) inv(1) that] by blast
    have same: "same_rows (?result @ ?all ?work) (result @ ?all work)"
    proof -
      have rev: "same_rows (?all (rev ws)) (?all ws)" for ws by (simp add: same_rows_def mset_concat_map)
      have "same_rows (?result @ ?all ?work) (?result @ (?all (map (\<lambda>s. (s, Suc k)) ?kids) @ ?all work'))"
        unfolding map_append concat_append by (intro same_rows_append same_rows_refl rev)
      also have "?result @ (?all (map (\<lambda>s. (s, Suc k)) ?kids) @ ?all work')
          = result @ (((if lb \<le> Suc k then ?kids else []) @ concat (map (\<lambda>s. below g mode lb (walk_bound A) (s, Suc k)) ?kids)) @ ?all work')"
        by (simp add: comp_def)
      also have "same_rows \<dots> (result @ (below g mode lb (walk_bound A) (r, k) @ ?all work'))"
        by (intro same_rows_append same_rows_refl same_rows_sym [OF below_step [OF assms(1) inv(1) assms(2)]])
      finally show ?thesis by (simp add: Cons w)
    qed
    show ?thesis
    proof (cases "0 < limit \<and> limit \<le> length result")
      case True
      then have "mode_loop g lb mode limit work result = Some result" by (simp add: Cons mode_loop_rev)
      moreover have "cut limit result (result @ ?all work)"
        using True by (intro cut_reached [OF cut_same]) (simp_all add: limit_reached_def)
      ultimately show ?thesis by blast
    next
      case False
      then have step: "mode_loop g lb mode limit work result = mode_loop g lb mode limit ?work ?result"
        by (auto simp: Cons w mode_loop_rev)
      have ok: "work_ok A mode ?work" using inv(3) kids by (auto simp: work_ok_def)
      have "(depths A ?work, depths A work) \<in> mult less_than"
      proof -
        have "path_edge_len (row_path s) \<le> walk_bound A" if "s \<in> set ?kids" for s
          using kids [OF that] mode_bound [OF row_inv_walk _ assms(2)] by (auto simp: mode_ok_def)
        then have lt: "walk_bound A - path_edge_len (row_path s) < walk_bound A - path_edge_len (row_path r)" if "s \<in> set ?kids" for s
          using kids [OF that] that by fastforce
        have "(depths A work' + depths A (map (\<lambda>s. (s, Suc k)) ?kids), depths A work' + {#walk_bound A - path_edge_len (row_path r)#}) \<in> mult less_than"
          by (rule one_step_implies_mult) (auto simp: depths_def intro: lt)
        then show ?thesis by (simp add: depths_def Cons w ac_simps multiset.map_comp comp_def)
      qed
      from 1(1) [OF this ok] obtain rows where
        "mode_loop g lb mode limit ?work ?result = Some rows" "cut limit rows (?result @ ?all ?work)" by blast
      then show ?thesis using cut_same_rows [OF _ same] step by metis
    qed
  qed
qed

section \<open>The repetition under a mode\<close>

lemma range_from: "concat (map (\<lambda>j. if lb \<le> j then f j else []) [0..<n]) = concat (map f [lb..<n])"
  by (induction n) auto

text \<open>Pruning early is filtering late.\<close>

lemma mode_next_filter:
  assumes "steps_ok A g" "\<forall>r \<in> set rs. row_inv A r"
  shows "mode_next g mode (filter (mode_ok mode) rs) = mode_next g mode rs"
  using assms(2)
proof (induction rs)
  case (Cons r rs)
  have "mode_next g mode [r] = []" if "\<not> mode_ok mode r"
  proof (rule ccontr)
    assume "mode_next g mode [r] \<noteq> []"
    then obtain s where "s \<in> set (next_level g [r])" "mode_ok mode s"
      unfolding mode_next_def by (auto simp: filter_empty_conv)
    then obtain t where t: "t \<in> set g" "s = row_concat_group r t"
      by (cases "row_last r") (auto simp: next_level_def matches_of_def)
    have "row_inv A r" "row_inv A t" using Cons.prems t(1) assms(1) by (simp_all add: steps_ok_def)
    moreover from this have "row_path s = path_append (row_path r) (row_path t)"
      using row_path_concat_group [of r t] t(2) by (simp add: row_inv_def)
    ultimately have "mode_ok mode r"
      using mode_prefix [OF row_inv_walk row_inv_walk] \<open>mode_ok mode s\<close> unfolding mode_ok_def by metis
    then show False using that by contradiction
  qed
  then show ?case
    using Cons mode_next_append [of g mode "[r]" rs] mode_next_append [of g mode "[r]" "filter (mode_ok mode) rs"] by auto
qed simp

lemma next_level_inv_steps: "steps_ok A g \<Longrightarrow> \<forall>r \<in> set rs. row_inv A r \<Longrightarrow> \<forall>r \<in> set (next_level g rs). row_inv A r"
  using next_level_inv [of g A rs] by (auto simp: steps_ok_def)

lemma level_steps:
  "steps_ok A g \<Longrightarrow> (\<forall>r \<in> set ((next_level g ^^ k) g). row_inv A r)
     \<and> filter (mode_ok mode) ((next_level g ^^ k) g) = (mode_next g mode ^^ k) (filter (mode_ok mode) g)"
proof (induction k)
  case (Suc k)
  then have IH: "\<forall>r \<in> set ((next_level g ^^ k) g). row_inv A r"
    "filter (mode_ok mode) ((next_level g ^^ k) g) = (mode_next g mode ^^ k) (filter (mode_ok mode) g)" by blast+
  have "filter (mode_ok mode) ((next_level g ^^ Suc k) g) = mode_next g mode ((next_level g ^^ k) g)"
    by (simp add: mode_next_def)
  also have "\<dots> = mode_next g mode (filter (mode_ok mode) ((next_level g ^^ k) g))"
    using mode_next_filter [OF Suc.prems IH(1)] by simp
  also have "\<dots> = (mode_next g mode ^^ Suc k) (filter (mode_ok mode) g)" unfolding IH(2) by simp
  finally show ?case using next_level_inv_steps [OF Suc.prems IH(1)] by simp
qed (simp add: steps_ok_def)

text \<open>Restricting where the paths start commutes with the steps.\<close>

lemma mode_next_seeds:
  assumes "steps_ok A g" "\<forall>r \<in> set rs. row_inv A r"
  shows "filter (starts_in_seeds seeds) (mode_next g mode rs) = mode_next g mode (filter (starts_in_seeds seeds) rs)"
  using assms(2)
proof (induction rs)
  case (Cons r rs)
  have "starts_in_seeds seeds s = starts_in_seeds seeds r" if "s \<in> set (mode_next g mode [r])" for s
    using mode_next_steps [OF assms(1) _ that] Cons.prems by (simp add: starts_in_seeds_def starts_in_def split: option.splits)
  then have "filter (starts_in_seeds seeds) (mode_next g mode [r]) = (if starts_in_seeds seeds r then mode_next g mode [r] else [])"
    by (auto intro: filter_True filter_False)
  then show ?case
    using Cons mode_next_append [of g mode "[r]" rs] mode_next_append [of g mode "[r]" "filter (starts_in_seeds seeds) rs"] by auto
qed simp

lemma mode_pow_inv: "steps_ok A g \<Longrightarrow> \<forall>r \<in> set rs. row_inv A r \<Longrightarrow> \<forall>r \<in> set ((mode_next g mode ^^ k) rs). row_inv A r"
  by (induction k) (auto simp: mode_next_def dest: next_level_inv_steps)

lemma mode_pow_seeds:
  assumes "steps_ok A g" "\<forall>r \<in> set rs. row_inv A r"
  shows "filter (starts_in_seeds seeds) ((mode_next g mode ^^ k) rs) = (mode_next g mode ^^ k) (filter (starts_in_seeds seeds) rs)"
proof (induction k)
  case (Suc k)
  then show ?case using mode_next_seeds [OF assms(1) mode_pow_inv [OF assms]] by simp
qed simp

lemma zero_rows_mode: "filter (mode_ok mode) (zero_rows A vars) = zero_rows A vars"
  by (rule filter_True)
    (auto simp: zero_rows_def mode_ok_def row_new_def row_path_def path_satisfies_mode_def no_repeats_def edge_ids_def node_ids_def
      is_node_def List.map_filter_simps pv_id_def split: path_mode.split)

lemma mode_repetition:
  fixes mode :: path_mode and seeds :: "u32 list option" and inner :: "row list"
  assumes "steps_ok A (rows_to_group inner)"
  defines "F \<equiv> mode_next (rows_to_group inner) mode"
    and "level1 \<equiv> filter (mode_ok mode) (filter (starts_in_seeds seeds) (rows_to_group inner))"
  shows "filter (starts_in_seeds seeds) (filter (mode_ok mode) (repetition_pattern A vars inner (Suc k))) = (F ^^ k) level1"
proof -
  let ?g = "rows_to_group inner"
  have inv: "\<forall>r \<in> set (filter (mode_ok mode) ?g). row_inv A r" using assms(1) by (simp add: steps_ok_def)
  have "filter (mode_ok mode) (repetition_pattern A vars inner (Suc k)) = (F ^^ k) (filter (mode_ok mode) ?g)"
    using level_steps [OF assms(1), of k mode] by (simp add: repetition_pattern_def F_def)
  then show ?thesis using mode_pow_seeds [OF assms(1) inv, where seeds = seeds and k = k and mode = mode] by (simp add: F_def level1_def conj_commute)
qed

text \<open>
  A repetition that satisfies the mode has at least an edge for each of its rounds, and no more
  edges than the graph has elements.
\<close>

lemma next_level_each: "r \<in> set (next_level g rs) \<Longrightarrow> \<exists>s \<in> set rs. r \<in> set (next_level g [s])"
  by (auto simp: next_level_def)

lemma level_length:
  assumes "steps_ok A g" "r \<in> set ((next_level g ^^ k) g)"
  shows "row_inv A r \<and> Suc k \<le> path_edge_len (row_path r)"
  using assms(2)
proof (induction k arbitrary: r)
  case (Suc k)
  then obtain s where s: "s \<in> set ((next_level g ^^ k) g)" "r \<in> set (next_level g [s])" using next_level_each by force
  then show ?case using Suc.IH [OF s(1)] next_level_steps [OF assms(1) _ s(2)] by auto
qed (use assms(1) in \<open>auto simp: steps_ok_def\<close>)

lemma mode_repetition_length:
  assumes "steps_ok A (rows_to_group inner)" "mode \<noteq> Walk" "r \<in> set (repetition_pattern A vars inner k)" "mode_ok mode r"
  shows "k \<le> path_edge_len (row_path r) \<and> path_edge_len (row_path r) \<le> walk_bound A"
proof (cases k)
  case 0
  then show ?thesis using assms(3) by (auto simp: repetition_pattern_def zero_rows_def row_new_def row_path_def path_edge_len_def)
next
  case (Suc j)
  then have "row_inv A r \<and> Suc j \<le> path_edge_len (row_path r)"
    using level_length [OF assms(1), of r j] assms(3) by (simp add: repetition_pattern_def)
  then show ?thesis using mode_bound [OF row_inv_walk _ assms(2)] assms(4) Suc by (auto simp: mode_ok_def)
qed

lemma repetition_unbounded_mode_cut:
  assumes "steps_ok A (rows_to_group inner)" "mode \<noteq> Walk"
  shows "\<exists>rows. repetition_unbounded_mode A vars inner lb mode limit seeds = Some rows
    \<and> cut limit rows (filter (starts_in_seeds seeds) (spec_mode A vars inner lb mode))"
proof -
  let ?g = "rows_to_group inner" and ?S = "starts_in_seeds seeds" and ?B = "walk_bound A"
  let ?F = "mode_next ?g mode"
  let ?base = "if lb = 0 then filter ?S (repetition_pattern A vars inner 0) else []"
  let ?level1 = "filter (mode_ok mode) (filter ?S ?g)"
  let ?rep = "\<lambda>k. filter ?S (filter (mode_ok mode) (repetition_pattern A vars inner k))"
  let ?result = "if lb \<le> 1 then ?base @ ?level1 else ?base"
  have rep: "?rep (Suc k) = (?F ^^ k) ?level1" for k using mode_repetition [OF assms(1)] .
  have inv: "\<forall>r \<in> set ?level1. row_inv A r \<and> mode_ok mode r \<and> 0 < path_edge_len (row_path r)"
    using assms(1) by (simp add: steps_ok_def)
  have zero: "?rep 0 = filter ?S (repetition_pattern A vars inner 0)"
    using zero_rows_mode [of mode A vars] by (simp add: repetition_pattern_def)
  have beyond: "?rep (Suc (Suc ?B)) = [] \<and> ?rep (Suc ?B) = []"
  proof -
    have "(?F ^^ ?B) ?level1 = []"
    proof (cases "?B = 0")
      case True
      have "path_edge_len (row_path r) \<le> 0" if "r \<in> set ?level1" for r
        using inv that mode_bound [OF row_inv_walk _ assms(2)] True unfolding mode_ok_def by fastforce
      then have "?level1 = []" using inv by (metis (no_types, lifting) leD list.set_intros(1) neq_Nil_conv)
      then show ?thesis by simp
    next
      case False
      have "(?F ^^ ?B) [r] = []" if "r \<in> set ?level1" for r
        using inv that False by (intro mode_pow_empty [OF assms(1) _ assms(2)]) auto
      then show ?thesis by (subst mode_next_pow_each) simp
    qed
    then show ?thesis unfolding rep by simp
  qed
  have spec: "filter ?S (spec_mode A vars inner lb mode) = concat (map ?rep [lb..<Suc ?B])"
    by (simp add: spec_mode_def filter_concat comp_def del: upt_Suc)
  have "same_rows (?result @ concat (map (\<lambda>r. below ?g mode lb ?B (r, 1)) ?level1)) (concat (map ?rep [lb..<Suc ?B]))"
  proof -
    have "same_rows (concat (map (\<lambda>r. below ?g mode lb ?B (r, 1)) ?level1))
        (concat (map (\<lambda>j. concat (map (\<lambda>r. if lb \<le> 1 + j then (?F ^^ j) [r] else []) ?level1)) [1..<Suc ?B]))"
      unfolding below_def fst_conv snd_conv by (rule same_rows_swap)
    also have "(\<lambda>j. concat (map (\<lambda>r. if lb \<le> 1 + j then (?F ^^ j) [r] else []) ?level1)) = (\<lambda>j. if lb \<le> Suc j then ?rep (Suc j) else [])"
    proof
      fix j
      have "concat (map (\<lambda>r. (?F ^^ j) [r]) ?level1) = ?rep (Suc j)"
        unfolding rep by (rule mode_next_pow_each [symmetric])
      then show "concat (map (\<lambda>r. if lb \<le> 1 + j then (?F ^^ j) [r] else []) ?level1) = (if lb \<le> Suc j then ?rep (Suc j) else [])"
        by (cases "lb \<le> Suc j") (simp_all del: filter_filter)
    qed
    finally have "same_rows (?result @ concat (map (\<lambda>r. below ?g mode lb ?B (r, 1)) ?level1))
        (?result @ concat (map (\<lambda>j. if lb \<le> Suc j then ?rep (Suc j) else []) [1..<Suc ?B]))"
      by (rule same_rows_append [OF same_rows_refl])
    also have "?result @ concat (map (\<lambda>j. if lb \<le> Suc j then ?rep (Suc j) else []) [1..<Suc ?B])
      = concat (map (\<lambda>j. if lb \<le> j then ?rep j else []) [0..<Suc (Suc ?B)])"
    proof -
      have "[0..<Suc (Suc ?B)] = 0 # map Suc (0 # [1..<Suc ?B])" by (simp add: upt_conv_Cons map_Suc_upt del: upt_Suc)
      moreover have "?result = (if lb = 0 then ?rep 0 else []) @ (if lb \<le> Suc 0 then ?rep (Suc 0) else [])"
        unfolding zero rep by simp
      ultimately show ?thesis by (simp add: comp_def del: upt_Suc filter_filter)
    qed
    also have "\<dots> = concat (map (\<lambda>j. if lb \<le> j then ?rep j else []) [0..<Suc ?B])"
      using beyond by simp
    also have "\<dots> = concat (map ?rep [lb..<Suc ?B])"
      by (rule range_from)
    finally show ?thesis .
  qed
  then have total: "same_rows (?result @ concat (map (below ?g mode lb ?B) (rev (map (\<lambda>r. (r, 1)) ?level1)))) (filter ?S (spec_mode A vars inner lb mode))"
    by (simp add: spec same_rows_def mset_concat_map multiset.map_comp comp_def)
  show ?thesis
  proof (cases "?g = []")
    case True
    have "?result @ concat (map (below ?g mode lb ?B) (rev (map (\<lambda>r. (r, 1)) ?level1))) = ?base" by (simp add: True)
    then have "same_rows ?base (filter ?S (spec_mode A vars inner lb mode))" using total by (simp only:)
    moreover have "repetition_unbounded_mode A vars inner lb mode limit seeds = Some (take_limit limit ?base)"
      by (simp add: repetition_unbounded_mode_def Let_def True)
    ultimately show ?thesis using cut_take_limit by blast
  next
    case False
    have "work_ok A mode (rev (map (\<lambda>r. (r, 1)) ?level1))" using inv by (auto simp: work_ok_def)
    from mode_loop_cut [OF assms this, of lb limit ?result] obtain rows where
      "mode_loop ?g lb mode limit (rev (map (\<lambda>r. (r, 1)) ?level1)) ?result = Some rows"
      "cut limit rows (?result @ concat (map (below ?g mode lb ?B) (rev (map (\<lambda>r. (r, 1)) ?level1))))" by blast
    then have "cut limit (take_limit limit rows) (filter ?S (spec_mode A vars inner lb mode))"
      using cut_same_rows [OF cut_take_limit_cut total] by blast
    moreover have "repetition_unbounded_mode A vars inner lb mode limit seeds
        = map_option (take_limit limit) (mode_loop ?g lb mode limit (rev (map (\<lambda>r. (r, 1)) ?level1)) ?result)"
      unfolding repetition_unbounded_mode_def Let_def mode_ok_def [abs_def] if_not_P [OF False] ..
    ultimately show ?thesis using \<open>mode_loop _ _ _ _ _ _ = Some rows\<close> by simp
  qed
qed

end
