(* ===== verification/Evaluation.thy ===== *)
theory Evaluation
  imports ModeSearch
begin

text \<open>
  The variables that the rows of a pattern bind, and the theorem of the evaluator: on a
  pattern without unbounded repetition or path selection, what it returns is a permutation
  of the reference rows, or enough of them for the limit.
\<close>

section \<open>The variables of a row\<close>

definition row_vars :: "row \<Rightarrow> string set" where
  "row_vars r = dom (as_get (row_mu r))"

text \<open>The variables a pattern may bind, with the names of paths.\<close>

fun bound_vars :: "'e path_pattern \<Rightarrow> string list" where
  "bound_vars (Concat p q) = set_extend (bound_vars p) (bound_vars q)"
| "bound_vars (UnionP p q) = set_extend (bound_vars p) (bound_vars q)"
| "bound_vars (Join p q) = set_extend (bound_vars p) (bound_vars q)"
| "bound_vars (Filter p _) = bound_vars p"
| "bound_vars (Repeat p _ _) = set_extend (bound_vars p) (freevars p)"
| "bound_vars (Questioned p) = bound_vars p"
| "bound_vars (Selected _ p) = bound_vars p"
| "bound_vars (Named x p) = set_extend [x] (bound_vars p)"
| "bound_vars p = freevars p"

text \<open>Every row binds every variable: no part of the pattern is optional.\<close>

fun binds_all :: "'e path_pattern \<Rightarrow> bool" where
  "binds_all (Questioned _) = False"
| "binds_all (Concat p q) = (binds_all p \<and> binds_all q)"
| "binds_all (Join p q) = (binds_all p \<and> binds_all q)"
| "binds_all (Filter p _) = binds_all p"
| "binds_all (Repeat p _ _) = binds_all p"
| "binds_all (Selected _ p) = binds_all p"
| "binds_all (Named _ p) = binds_all p"
| "binds_all _ = True"

lemma dom_fold_insert: "dom (map_of (fold (\<lambda>(k, v) m. bm_insert k v m) kvs m)) = dom (map_of m) \<union> dom (map_of kvs)"
  by (induction kvs arbitrary: m) (auto simp: map_of_bm_insert)

lemma dom_as_get: "dom (as_get a) = dom (map_of (as_m a))"
  by (auto simp: as_get_def)

lemma dom_unify: "dom (as_get (unify a b)) = dom (as_get a) \<union> dom (as_get b)"
  by (simp only: dom_as_get unify_def assignment.simps dom_fold_insert)

lemma dom_fill: "dom (as_get (fill_with v vars a)) = dom (as_get a) \<union> set vars"
proof -
  have "dom (map_of (fold (\<lambda>x m. if map_of m x = None then bm_insert x v m else m) vars m)) = dom (map_of m) \<union> set vars" for m
    by (induction vars arbitrary: m) (auto simp: map_of_bm_insert)
  then show ?thesis by (simp add: dom_as_get fill_with_def)
qed

lemma dom_as_group: "dom (as_get (as_to_group a)) = dom (as_get a)" "dom (as_get (as_concat_group a b)) = dom (as_get a)"
  by (auto simp: dom_as_get as_to_group_def as_concat_group_def dom_map_of_conv_image_fst image_image split_beta)

lemma dom_empty [simp]: "dom (as_get assignment_new) = {}"
  by (simp add: dom_as_get assignment_new_def)

lemma row_vars_of [simp]: "row_vars (row_new q mu) = dom (as_get mu)" "row_vars (row_with_paths ps mu) = dom (as_get mu)"
  by (simp_all add: row_vars_def row_new_def row_with_paths_def)

lemma vars_new [simp]: "dom (as_get (from_optional x v)) = set_option x"
  by (auto simp: dom_as_get from_optional_def assignment_new_def split: option.splits)

lemma vars_edge [simp]: "row_vars (edge_row d a e b) = set (desc_vars d)"
  by (cases "desc_var d") (simp_all add: edge_row_def desc_vars_def)

lemma vars_combine [simp]: "row_vars (glue r s) = row_vars r \<union> row_vars s" "row_vars (join_rows r s) = row_vars r \<union> row_vars s"
  "row_vars (row_concat_group r s) = row_vars r"
  by (simp_all add: row_vars_def glue_def extend_path_def join_rows_def row_join_def dom_unify row_concat_group_def dom_as_group)

lemma vars_fill [simp]: "row_vars (r\<lparr>row_mu := fill_nones vars (row_mu r)\<rparr>) = row_vars r \<union> set vars"
  by (simp add: row_vars_def fill_nones_def dom_fill)

lemma vars_name [simp]: "row_vars (name_path x r) = insert x (row_vars r)"
  by (auto simp: row_vars_def name_path_def dom_as_get as_extend_def map_of_bm_insert)

lemma vars_zero: "r \<in> set (zero_rows A vars) \<Longrightarrow> row_vars r = set vars"
  by (auto simp: zero_rows_def fill_empty_list_def dom_fill)

lemma vars_edges: "r \<in> set (spec_right A d) \<Longrightarrow> row_vars r = set (desc_vars d)" "r \<in> set (spec_left A d) \<Longrightarrow> row_vars r = set (desc_vars d)"
  "r \<in> set (spec_undirected A d) \<Longrightarrow> row_vars r = set (desc_vars d)"
  by (auto simp: spec_right_def spec_left_def spec_undirected_def)

lemma vars_edge_pattern: "is_edge_pattern p \<Longrightarrow> r \<in> set (spec_edge A p) \<Longrightarrow> row_vars r = set (freevars p)"
  by (cases p) (auto simp: is_edge_pattern_def spec_edge_def vars_edges)

lemma vars_next_level: "r \<in> set (next_level g rs) \<Longrightarrow> \<exists>s \<in> set rs. row_vars r = row_vars s"
  by (fastforce simp: next_level_def split: option.splits)

lemma vars_repetition:
  assumes "r \<in> set (repetition_pattern A vars inner n)"
  shows "row_vars r = set vars \<or> (\<exists>s \<in> set inner. row_vars r = row_vars s)"
proof (cases n)
  case 0
  then show ?thesis using assms vars_zero by (simp add: repetition_pattern_def)
next
  case (Suc k)
  have "\<exists>s \<in> set inner. row_vars r = row_vars s" if "r \<in> set ((next_level (rows_to_group inner) ^^ k) (rows_to_group inner))" for r
    using that
  proof (induction k arbitrary: r)
    case 0
    then obtain s where "s \<in> set inner" "r = row_with_paths (row_paths s) (as_to_group (row_mu s))"
      by (auto simp: rows_to_group_def)
    then show ?case by (auto simp: dom_as_group row_vars_def [symmetric] intro!: bexI [of _ s])
  next
    case (Suc k)
    then show ?case using vars_next_level by fastforce
  qed
  then show ?thesis using assms Suc by (simp add: repetition_pattern_def)
qed

lemma vars_mode:
  "r \<in> set (spec_mode A vars inner lb mode) \<Longrightarrow> row_vars r = set vars \<or> (\<exists>s \<in> set inner. row_vars r = row_vars s)"
proof -
  assume "r \<in> set (spec_mode A vars inner lb mode)"
  then obtain n where "r \<in> set (repetition_pattern A vars inner n)" by (auto simp: spec_mode_def simp del: upt_Suc)
  then show ?thesis by (rule vars_repetition)
qed

lemma vars_repeat:
  assumes "r \<in> set (spec_rows rt pol (Repeat p lb ub))"
  shows "row_vars r = set (freevars p) \<or> (\<exists>s \<in> set (spec_rows rt pol p). row_vars r = row_vars s)"
proof -
  have "\<exists>n. r \<in> set (repetition_pattern (rt_graph rt) (freevars p) (spec_rows rt pol p) n)"
    using assms by (auto simp: spec_mode_def split: option.splits policy.splits simp del: upt_Suc)
  then show ?thesis using vars_repetition by blast
qed

lemma vars_concat_of:
  assumes "r \<in> set (spec_concat_of rt rs1 q (spec_rows rt pol q))"
  shows "\<exists>r1 \<in> set rs1. \<exists>V. row_vars r = row_vars r1 \<union> V \<and> (V = set (freevars q) \<and> set (freevars q) = set (bound_vars q) \<or> (\<exists>r2 \<in> set (spec_rows rt pol q). V = row_vars r2))"
proof -
  have cc: "\<exists>r1 \<in> set rs1. \<exists>r2 \<in> set ys. row_vars r = row_vars r1 \<union> row_vars r2" if r: "r \<in> set (spec_concat rs1 ys)" for ys
  proof -
    obtain r1 r2 where "r1 \<in> set rs1" "r2 \<in> set ys" "r = glue r1 r2" using r unfolding spec_concat_def by auto
    then show ?thesis by auto
  qed
  consider q' x where "q = Filter q' x" "is_edge_pattern q'" "r \<in> set (spec_concat rs1 (spec_edge (rt_graph rt) q'))"
    | "r \<in> set (spec_concat rs1 (spec_rows rt pol q))"
  proof (cases "\<exists>q' x. q = Filter q' x \<and> is_edge_pattern q'")
    case True
    then show ?thesis using that(1) assms by (auto simp: spec_concat_of_def)
  next
    case False
    then have "spec_concat_of rt rs1 q (spec_rows rt pol q) = spec_concat rs1 (spec_rows rt pol q)"
      by (cases q) (simp_all add: spec_concat_of_def)
    then show ?thesis using that(2) assms by simp
  qed
  then show ?thesis
  proof cases
    case (1 q' x)
    have "bound_vars q' = freevars q'" using 1(2) by (cases q') (simp_all add: is_edge_pattern_def)
    moreover obtain r1 r2 where rs: "r1 \<in> set rs1" "r2 \<in> set (spec_edge (rt_graph rt) q')" "row_vars r = row_vars r1 \<union> row_vars r2"
      using cc [OF 1(3)] by blast
    moreover have "row_vars r2 = set (freevars q')" using vars_edge_pattern [OF 1(2) rs(2)] .
    ultimately show ?thesis using 1(1) by (intro bexI [of _ r1] exI [of _ "row_vars r2"]) simp_all
  next
    case 2
    from cc [OF 2] obtain r1 r2 where "r1 \<in> set rs1" "r2 \<in> set (spec_rows rt pol q)" "row_vars r = row_vars r1 \<union> row_vars r2" by blast
    then show ?thesis by (intro bexI [of _ r1] exI [of _ "row_vars r2"] conjI disjI2 bexI [of _ r2]) simp_all
  qed
qed

lemma row_vars_bound: "r \<in> set (spec_rows rt pol p) \<Longrightarrow> row_vars r \<subseteq> set (bound_vars p)"
proof (induction p arbitrary: r pol)
  case (Concat p q)
  then show ?case using vars_concat_of [of r rt "spec_rows rt pol p" q pol] by fastforce
next
  case (Repeat p lb ub)
  then show ?case using vars_repeat [OF Repeat.prems(1)] by fastforce
next
  case (UnionP p q)
  have vars: "set (freevars r) \<subseteq> set (bound_vars r)" for r :: "'a path_pattern" by (induction r) auto
  obtain s where s: "s \<in> set (spec_rows rt pol p @ spec_rows rt pol q)" "row_vars r = row_vars s \<union> set (freevars (UnionP p q))"
    using UnionP.prems vars_fill unfolding spec_rows.simps set_map by blast
  have "row_vars s \<subseteq> set (bound_vars p) \<union> set (bound_vars q)"
    using s(1) UnionP.IH(1) [of s pol] UnionP.IH(2) [of s pol] by auto
  then show ?case using s(2) vars [of p] vars [of q] by auto
next
  case (Selected pre p)
  have "r \<in> set (spec_rows rt (unbounded_policy_for (Some pre)) p)" using Selected.prems apply_path_prefix_subset by auto
  then show ?case using Selected.IH by simp
next
  case (Join p q)
  then show ?case by (fastforce simp: spec_join_def)
next
  case (Questioned p)
  then show ?case by (auto simp: spec_nodes_def desc_var_def)
next
  case (Named x p)
  then show ?case by fastforce
qed (auto simp: spec_nodes_def desc_vars_def vars_edges split: option.splits)

lemma row_vars_free: "binds_all p \<Longrightarrow> r \<in> set (spec_rows rt pol p) \<Longrightarrow> set (freevars p) \<subseteq> row_vars r"
proof (induction p arbitrary: r pol)
  case (Concat p q)
  then show ?case using vars_concat_of [of r rt "spec_rows rt pol p" q pol] by fastforce
next
  case (Repeat p lb ub)
  then show ?case using vars_repeat [OF Repeat.prems(2)] by fastforce
next
  case (UnionP p q)
  then show ?case by auto
next
  case (Selected pre p)
  have "r \<in> set (spec_rows rt (unbounded_policy_for (Some pre)) p)" using Selected.prems apply_path_prefix_subset by auto
  then show ?case using Selected by simp
next
  case (Join p q)
  then show ?case by (fastforce simp: spec_join_def)
next
  case (Named x p)
  then show ?case by fastforce
qed (auto simp: spec_nodes_def desc_vars_def vars_edges split: option.splits)

section \<open>Joins\<close>

text \<open>
  Operands of a join whose rows bind all their variables, and which share no path name when
  they share no variable (the code then builds the product without comparing them).
\<close>

definition joinable :: "'e path_pattern \<Rightarrow> 'e path_pattern \<Rightarrow> bool" where
  "joinable p q \<longleftrightarrow> binds_all p \<and> binds_all q
     \<and> (shared_vars p q \<noteq> [] \<or> set (bound_vars p) \<inter> set (bound_vars q) = {})"

definition picks :: "'e runtime \<Rightarrow> bool" where
  "picks rt \<longleftrightarrow> (\<forall>xs. xs = [] \<or> rt_first rt xs \<in> set xs)"

lemma compatible_iff:
  "row_inv A r \<Longrightarrow> compatible r s \<longleftrightarrow> (\<forall>x v w. as_get (row_mu r) x = Some v \<longrightarrow> as_get (row_mu s) x = Some w \<longrightarrow> v = w)"
  by (simp add: row_inv_def compatible_def can_unify_iff as_get_def)

lemma pairwise_join_spec:
  assumes "joinable p q" "picks rt" "\<And>r. r \<in> set (spec_rows rt pol p) \<Longrightarrow> row_inv A r"
    and "same_rows xs (spec_rows rt pol p)" "same_rows ys (spec_rows rt pol q)"
  shows "pairwise_join rt (shared_vars p q) xs ys limit = take_limit limit (spec_join xs ys)"
proof -
  have x: "r \<in> set (spec_rows rt pol p)" if "r \<in> set xs" for r using that same_rows_set [OF assms(4)] by simp
  have y: "r \<in> set (spec_rows rt pol q)" if "r \<in> set ys" for r using that same_rows_set [OF assms(5)] by simp
  show ?thesis
  proof (cases "shared_vars p q = []")
    case True
    have "filter (compatible r) ys = ys" if "r \<in> set xs" for r
    proof (rule filter_True, rule ballI)
      fix s assume s: "s \<in> set ys"
      have "row_vars r \<inter> row_vars s = {}"
        using assms(1) True row_vars_bound [OF x [OF that]] row_vars_bound [OF y [OF s]] by (auto simp: joinable_def)
      then show "compatible r s"
        unfolding compatible_iff [OF assms(3) [OF x [OF that]]] by (auto simp: row_vars_def)
    qed
    then show ?thesis using True by (simp add: pairwise_join_def spec_join_def cong: map_cong)
  next
    case False
    let ?x = "rt_first rt (shared_vars p q)"
    have "?x \<in> set (shared_vars p q)" using assms(2) False by (auto simp: picks_def)
    then have mem: "?x \<in> set (freevars p)" "?x \<in> set (freevars q)" by (simp_all add: shared_vars_def)
    have "(case as_get (row_mu r) ?x of None \<Rightarrow> [] | Some v \<Rightarrow>
        map (join_rows r) (filter (\<lambda>s. can_unify (row_mu r) (row_mu s)) (filter (\<lambda>s. as_get (row_mu s) ?x = Some v) ys)))
      = map (join_rows r) (filter (compatible r) ys)" if r: "r \<in> set xs" for r
    proof -
      obtain v where v: "as_get (row_mu r) ?x = Some v"
        using row_vars_free [OF _ x [OF r]] assms(1) mem(1) by (auto simp: joinable_def row_vars_def)
      have "as_get (row_mu s) ?x = Some v" if s: "s \<in> set ys" "compatible r s" for s
      proof -
        obtain w where "as_get (row_mu s) ?x = Some w"
          using row_vars_free [OF _ y [OF s(1)]] assms(1) mem(2) by (auto simp: joinable_def row_vars_def)
        then show ?thesis using s(2) v compatible_iff [OF assms(3) [OF x [OF r]]] by metis
      qed
      then have "filter (\<lambda>s. can_unify (row_mu r) (row_mu s)) (filter (\<lambda>s. as_get (row_mu s) ?x = Some v) ys) = filter (compatible r) ys"
        by (auto simp: compatible_def intro!: filter_cong)
      then show ?thesis using v by simp
    qed
    then show ?thesis using False by (simp add: pairwise_join_def spec_join_def Let_def cong: map_cong)
  qed
qed

section \<open>The length of rows\<close>

text \<open>Rows of walks of at least \<open>n\<close> edges.\<close>

definition long :: "graph_access \<Rightarrow> nat \<Rightarrow> row list \<Rightarrow> bool" where
  "long A n rs \<longleftrightarrow> (\<forall>r \<in> set rs. row_inv A r \<and> n \<le> path_edge_len (row_path r))"

lemma long_steps: "long A n rs \<Longrightarrow> 0 < n \<Longrightarrow> steps_ok A rs"
  by (auto simp: long_def steps_ok_def)

lemma long_group: "long A n rs \<Longrightarrow> long A n (rows_to_group rs)"
  using group_inv by (fastforce simp: long_def rows_to_group_def row_with_paths_def row_path_def)

lemma long_mono: "long A n rs \<Longrightarrow> m \<le> n \<Longrightarrow> long A m rs"
  by (auto simp: long_def)

lemma long_subset: "long A n rs \<Longrightarrow> set qs \<subseteq> set rs \<Longrightarrow> long A n qs"
  by (auto simp: long_def)

lemma long_append: "long A n (xs @ ys) \<longleftrightarrow> long A n xs \<and> long A n ys"
  by (auto simp: long_def)

lemma long_concat: "long A n rs \<Longrightarrow> long A m qs \<Longrightarrow> long A (n + m) (spec_concat rs qs)"
proof -
  assume r: "long A n rs" "long A m qs"
  have "row_inv A (glue r s) \<and> n + m \<le> path_edge_len (row_path (glue r s))"
    if rs: "r \<in> set rs" "s \<in> set qs" "meets r s" for r s
  proof -
    have inv: "row_inv A r" "row_inv A s" using r rs by (simp_all add: long_def)
    then have "row_path (glue r s) = path_append (row_path r) (row_path s)"
      by (simp add: glue_def row_inv_def extend_path_def row_path_def last_extend_last)
    then show ?thesis
      using glue_inv [OF inv rs(3)] append_ids(3) [OF row_inv_walk [OF inv(2)]] r rs by (auto simp: long_def intro: add_mono)
  qed
  then show ?thesis by (auto simp: long_def spec_concat_def)
qed

lemma long_fill: "long A n rs \<Longrightarrow> long A n (map (\<lambda>r. r\<lparr>row_mu := fill_nones vars (row_mu r)\<rparr>) rs)"
  by (auto simp: long_def row_inv_def row_path_def fill_nones_def) (simp_all add: fill_with_def)

lemma long_level: "long A n rs \<Longrightarrow> long A m gs \<Longrightarrow> long A (n + m) (next_level gs rs)"
proof -
  assume r: "long A n rs" "long A m gs"
  have "row_inv A (row_concat_group r s) \<and> n + m \<le> path_edge_len (row_path (row_concat_group r s))"
    if rs: "r \<in> set rs" "s \<in> set gs" "row_first s = row_last r" for r s
  proof -
    have inv: "row_inv A r" "row_inv A s" using r rs by (simp_all add: long_def)
    then have "row_path (row_concat_group r s) = path_append (row_path r) (row_path s)"
      by (simp add: row_inv_def row_path_concat_group)
    then show ?thesis
      using concat_group_inv [OF inv rs(3)] append_ids(3) [OF row_inv_walk [OF inv(2)]] r rs by (auto simp: long_def intro: add_mono)
  qed
  then show ?thesis by (fastforce simp: long_def next_level_def matches_of_def split: option.splits)
qed

lemma long_repetition: "long A m rs \<Longrightarrow> long A (n * m) (repetition_pattern A vars rs n)"
proof -
  assume g: "long A m rs"
  show ?thesis
  proof (cases n)
    case 0
    then show ?thesis using zero_rows_inv by (auto simp: long_def repetition_pattern_def)
  next
    case (Suc k)
    have "long A (Suc k * m) ((next_level (rows_to_group rs) ^^ k) (rows_to_group rs))" for k
    proof (induction k)
      case (Suc k)
      from long_level [OF this long_group [OF g]] show ?case by (simp add: algebra_simps)
    qed (use long_group [OF g] in simp)
    then show ?thesis using Suc by (simp add: repetition_pattern_def)
  qed
qed

lemma long_nodes: "long A 0 (spec_nodes A d)"
  using spec_nodes_inv by (auto simp: long_def)

lemma long_edge_row: "path_edge_len (row_path (edge_row d a (PEdgeDirectional e) b)) = 1"
  "path_edge_len (row_path (edge_row d a (PEdgeUndirectional e) b)) = 1"
  by (simp_all add: edge_row_def row_new_def row_path_def path_edge_len_def is_edge_def)

context graph_store
begin

lemma long_edges: "long A 1 (spec_right A d)" "long A 1 (spec_left A d)" "long A 1 (spec_undirected A d)"
  using spec_edges_inv [of _ d]
  by (auto simp: long_def spec_right_def spec_left_def spec_undirected_def long_edge_row)

lemma long_edge: "is_edge_pattern p \<Longrightarrow> long A 1 (spec_edge A p)"
  using long_edges by (cases p) (auto simp: is_edge_pattern_def spec_edge_def long_append simp del: One_nat_def)

lemma long_concat_of:
  assumes "rt_graph rt = A" "long A n rs" "long A (min_len q) qs"
  shows "long A (n + min_len q) (spec_concat_of rt rs q qs)"
proof -
  have q: "long A (n + min_len q) (spec_concat rs qs)" using long_concat [OF assms(2,3)] .
  show ?thesis
  proof (cases "\<exists>q' x. q = Filter q' x \<and> is_edge_pattern q'")
    case True
    then obtain q' x where e: "q = Filter q' x" "is_edge_pattern q'" by blast
    have "min_len q' = 1" using e(2) by (cases q') (simp_all add: is_edge_pattern_def)
    then have "long A (n + min_len q) (spec_concat rs (spec_edge A q'))"
      using long_concat [OF assms(2) long_edge [OF e(2)]] e(1) by simp
    then show ?thesis using e assms(1) by (auto simp: spec_concat_of_def elim!: long_subset)
  next
    case False
    then have "spec_concat_of rt rs q qs = spec_concat rs qs" by (cases q) (simp_all add: spec_concat_of_def)
    then show ?thesis using q by simp
  qed
qed

lemma long_rows:
  assumes "rt_graph rt = A"
  shows "long A (min_len p) (spec_rows rt pol p)"
proof (induction p arbitrary: pol)
  case (Concat p q)
  then show ?case using long_concat_of [OF assms] by simp
next
  case (UnionP p q)
  have "long A (min_len (UnionP p q)) (spec_rows rt pol p @ spec_rows rt pol q)"
    unfolding long_append using long_mono [OF UnionP.IH(1)] long_mono [OF UnionP.IH(2)] by simp
  from long_fill [OF this] show ?case by simp
next
  case (Repeat p lb ub)
  have "long A (lb * min_len p) (repetition_pattern A (freevars p) (spec_rows rt pol p) n)" if "lb \<le> n" for n
    using long_mono [OF long_repetition [OF Repeat]] mult_le_mono1 [OF that] by blast
  then show ?case
    using assms by (auto simp: spec_mode_def long_def split: option.splits policy.splits simp del: upt_Suc)
next
  case (Join p q)
  then show ?case
    by (fastforce simp: long_def spec_join_def join_rows_def row_join_def row_inv_def row_path_def)
next
  case (Selected pre p)
  show ?case using long_subset [OF Selected.IH apply_path_prefix_subset] by simp
next
  case (Named x p)
  have "row_inv A (name_path x r)" if "row_inv A r" for r
    using that by (simp add: name_path_def row_inv_def) (simp add: as_extend_def)
  moreover have "row_path (name_path x r) = row_path r" for r by (simp add: name_path_def row_path_def)
  ultimately show ?case using Named [of pol] by (auto simp: long_def)
qed (use long_edges long_nodes assms in \<open>auto simp: long_append simp del: One_nat_def
    intro: long_mono [OF _ le0] long_subset [OF _ filter_is_subset]\<close>)

end

section \<open>The theorem of the evaluator\<close>

text \<open>
  Patterns whose rows do not depend on the order in which candidates are visited. An unbounded
  repetition is one of a pattern with edges, under a mode that bounds its paths.
\<close>

definition restricts :: "policy \<Rightarrow> bool" where
  "restricts pol \<longleftrightarrow> (\<exists>mode \<in> {Trail, Simple, Acyclic}. pol = PMode mode)"

fun plain :: "policy \<Rightarrow> 'e path_pattern \<Rightarrow> bool" where
  "plain pol (Concat p q) = (plain pol p \<and> plain pol q)"
| "plain pol (UnionP p q) = (plain pol p \<and> plain pol q)"
| "plain pol (Join p q) = (plain pol p \<and> plain pol q \<and> joinable p q)"
| "plain pol (Filter p _) = plain pol p"
| "plain pol (Repeat p lb ub) = (plain pol p \<and> (ub \<noteq> None \<or> restricts pol \<and> 0 < min_len p))"
| "plain pol (Questioned p) = plain pol p"
| "plain pol (Selected pre p) = (pp_search pre = SearchAll \<and> plain (unbounded_policy_for (Some pre)) p)"
| "plain pol (Named _ p) = plain pol p"
| "plain pol _ = True"

text \<open>
  The contract of the operators tried first: what they answer is rows of the reference, all
  of them or enough for the limit.
\<close>

definition accelerated :: "'e runtime \<Rightarrow> bool" where
  "accelerated rt \<longleftrightarrow>
     (\<forall>p pol limit rows. rt_try_ltj rt p limit = Some rows \<longrightarrow> cut limit rows (spec_rows rt pol p))
     \<and> (\<forall>p pol limit rows. rt_try_ltj_mixed rt p limit = Some rows \<longrightarrow> cut limit rows (spec_rows rt pol p))
     \<and> (\<forall>pre p pol limit rows. rt_try_bfs rt pre p limit = Some rows \<longrightarrow> cut limit rows (spec_rows rt pol (Selected pre p)))"

lemma accelerated_wco:
  "accelerated rt \<Longrightarrow> try_worst_case_optimal rt p limit = Some rows \<Longrightarrow> cut limit rows (spec_rows rt pol p)"
  by (auto simp: accelerated_def try_worst_case_optimal_def split: option.splits if_splits)

lemma same_rows_select_all:
  "pp_search pre = SearchAll \<Longrightarrow> same_rows xs ys \<Longrightarrow> same_rows (apply_path_prefix xs pre) (apply_path_prefix ys pre)"
  by (simp add: apply_path_prefix_def same_rows_filter)

lemma same_rows_mode:
  "same_rows xs ys \<Longrightarrow> same_rows (spec_mode A vars xs lb mode) (spec_mode A vars ys lb mode)"
  unfolding spec_mode_def by (intro same_rows_concat_map same_rows_filter same_rows_repetition same_rows_refl)

lemma spec_concat_seeds: "spec_concat xs (filter (starts_in_seeds (Some (seeds_of xs))) ys) = spec_concat xs ys"
proof -
  have "meets r s \<Longrightarrow> starts_in_seeds (Some (seeds_of xs)) s" if "r \<in> set xs" for r s
    using that by (auto simp: meets_def starts_in_seeds_def starts_in_def seeds_of_def List.map_filter_def image_iff intro!: exI [of _ r])
  then have "filter (\<lambda>s. meets r s \<and> compatible r s) (filter (starts_in_seeds (Some (seeds_of xs))) ys)
      = filter (\<lambda>s. meets r s \<and> compatible r s) ys" if "r \<in> set xs" for r
    using that by (auto simp: filter_filter intro!: filter_cong)
  then show ?thesis by (simp add: spec_concat_def cong: map_cong)
qed

lemma starts_anywhere [simp]: "filter (starts_in_seeds None) rs = rs"
  by (simp add: starts_in_seeds_def)

text \<open>What a repetition on the right of a concatenation finds of its operand.\<close>

definition inner_rows :: "'e runtime \<Rightarrow> policy \<Rightarrow> 'e path_pattern \<Rightarrow> bool" where
  "inner_rows rt pol p \<longleftrightarrow>
     (case p of
        Repeat q lb ub \<Rightarrow> \<exists>rows. run_path_pattern rt pol q 0 = Some rows \<and> same_rows rows (spec_rows rt pol q)
      | _ \<Rightarrow> True)"

lemma same_rows_range:
  "same_rows xs ys \<Longrightarrow> same_rows (concat (map (repetition_pattern A vars xs) ks)) (concat (map (repetition_pattern A vars ys) ks))"
  by (intro same_rows_concat_map same_rows_repetition same_rows_refl)

context labelled_store
begin

lemma mode_search_cut:
  assumes "rt_graph rt = A" "restricts pol" "0 < min_len p" "same_rows xs (spec_rows rt pol p)"
  shows "\<exists>rows. unbounded_search A pol (freevars p) xs lb limit seeds = Some rows
    \<and> cut limit rows (filter (starts_in_seeds seeds) (spec_rows rt pol (Repeat p lb None)))" (is "\<exists>rows. _ \<and> cut limit rows (filter _ ?spec)")
proof -
  obtain mode where mode: "pol = PMode mode" "mode \<noteq> Walk" using assms(2) by (auto simp: restricts_def)
  have "long A (min_len p) xs" using long_rows [OF assms(1), of p pol] same_rows_set [OF assms(4)] by (simp add: long_def)
  then have "steps_ok A (rows_to_group xs)" using long_steps [OF long_group] assms(3) by blast
  from repetition_unbounded_mode_cut [OF this mode(2), of "freevars p" lb limit seeds] obtain rows where
    "repetition_unbounded_mode A (freevars p) xs lb mode limit seeds = Some rows"
    "cut limit rows (filter (starts_in_seeds seeds) (spec_mode A (freevars p) xs lb mode))" by blast
  moreover have "same_rows (filter (starts_in_seeds seeds) (spec_mode A (freevars p) xs lb mode)) (filter (starts_in_seeds seeds) ?spec)"
    using same_rows_filter [OF same_rows_mode [OF assms(4)]] mode assms(1) by simp
  ultimately show ?thesis using mode cut_same_rows by (auto simp: unbounded_search_def)
qed

lemma evaluator_cut_inner:
  fixes rt :: "'e runtime"
  assumes rt: "rt_graph rt = A" "rt_pins rt = []" "picks rt" "accelerated rt"
  shows "plain pol p \<Longrightarrow> (\<exists>rows. run_path_pattern rt pol p limit = Some rows \<and> cut limit rows (spec_rows rt pol p)) \<and> inner_rows rt pol p"
proof (induction p arbitrary: pol limit)
  case (Concat p q)
  have plain: "plain pol p" "plain pol q" using Concat.prems by simp_all
  show ?case
  proof (cases "try_worst_case_optimal rt (Concat p q) limit")
    case (Some rows)
    then show ?thesis using accelerated_wco [OF rt(4) Some] by (simp add: inner_rows_def)
  next
    case None
    obtain xs where xs: "run_path_pattern rt pol p 0 = Some xs" "same_rows xs (spec_rows rt pol p)"
      using Concat.IH(1) [OF plain(1), of 0] unfolding cut_zero by blast
    have good: "good xs" using same_rows_set [OF xs(2)] spec_rows_inv [OF rt(1)] by simp
    show ?thesis
    proof (cases "concat_seeded rt xs q limit")
      case (Some rows)
      have "cut limit rows (spec_concat_of rt xs q (spec_rows rt pol q))" by (rule concat_seeded_cut [OF good rt(1) Some])
      then have "cut limit rows (spec_rows rt pol (Concat p q))"
        using cut_same_rows same_rows_concat_of [OF xs(2) same_rows_refl] by simp blast
      then show ?thesis using None xs(1) Some by (simp add: inner_rows_def)
    next
      case no: None
      have spec: "spec_concat_of rt xs q ys = spec_concat xs ys" for ys
        using no by (auto simp: spec_concat_of_def concat_seeded_def try_concat_with_filtered_edge_def split: path_pattern.split if_splits)
      have "\<exists>ys. run_path_pattern rt pol (Concat p q) limit = Some (hash_join xs ys limit)
          \<and> same_rows (spec_concat xs ys) (spec_concat xs (spec_rows rt pol q))"
      proof (cases "\<exists>q' lb. q = Repeat q' lb None \<and> \<not> rt_seeded_off rt")
        case True
        then obtain q' lb where q: "q = Repeat q' lb None" "\<not> rt_seeded_off rt" by blast
        then have pol: "restricts pol" "0 < min_len q'" using plain(2) by simp_all
        obtain inner where inner: "run_path_pattern rt pol q' 0 = Some inner" "same_rows inner (spec_rows rt pol q')"
          using Concat.IH(2) [OF plain(2), of 0] q(1) by (auto simp: inner_rows_def)
        from mode_search_cut [OF rt(1) pol inner(2), of lb 0 "Some (seeds_of xs)"] obtain ys where
          ys: "unbounded_search A pol (freevars q') inner lb 0 (Some (seeds_of xs)) = Some ys"
          "same_rows ys (filter (starts_in_seeds (Some (seeds_of xs))) (spec_rows rt pol q))"
          unfolding cut_zero q(1) by blast
        have "run_path_pattern rt pol (Concat p q) limit = Some (hash_join xs ys limit)"
          using None no xs(1) ys(1) inner(1) q pol rt(1) by (auto simp: restricts_def)
        moreover have "same_rows (spec_concat xs ys) (spec_concat xs (spec_rows rt pol q))"
          using same_rows_spec_concat [OF same_rows_refl [of xs] ys(2)] unfolding spec_concat_seeds .
        ultimately show ?thesis by blast
      next
        case False
        obtain ys where ys: "run_path_pattern rt pol q 0 = Some ys" "same_rows ys (spec_rows rt pol q)"
          using Concat.IH(2) [OF plain(2), of 0] unfolding cut_zero by blast
        have "run_path_pattern rt pol (Concat p q) limit = Some (hash_join xs ys limit)"
          using None no xs(1) ys(1) False by (auto split: path_pattern.split)
        then show ?thesis using same_rows_spec_concat [OF same_rows_refl ys(2)] by blast
      qed
      then obtain ys where ys: "run_path_pattern rt pol (Concat p q) limit = Some (hash_join xs ys limit)"
        "same_rows (spec_concat xs ys) (spec_concat xs (spec_rows rt pol q))" by blast
      have "same_rows (spec_concat xs (spec_rows rt pol q)) (spec_rows rt pol (Concat p q))"
        using same_rows_concat_of [OF xs(2) same_rows_refl, of rt q "spec_rows rt pol q"] unfolding spec by simp
      from cut_take_limit [OF same_rows_trans [OF ys(2) this], of limit] show ?thesis
        using ys(1) unfolding hash_join_spec by (simp add: inner_rows_def)
    qed
  qed
next
  case (UnionP p q)
  have plain: "plain pol p" "plain pol q" using UnionP.prems by simp_all
  obtain xs where xs: "run_path_pattern rt pol p limit = Some xs" "cut limit xs (spec_rows rt pol p)"
    using UnionP.IH(1) [OF plain(1)] by blast
  obtain ys where ys: "run_path_pattern rt pol q (limit - length xs) = Some ys" "cut (limit - length xs) ys (spec_rows rt pol q)"
    using UnionP.IH(2) [OF plain(2)] by blast
  have "cut limit (xs @ ys) (spec_rows rt pol p @ spec_rows rt pol q)" using cut_append [OF xs(2) ys(2)] .
  from cut_take_limit_cut [OF cut_map [OF this]] show ?case
    using xs(1) ys(1) by (simp add: inner_rows_def del: map_append)
next
  case (Join p q)
  have plain: "plain pol p" "plain pol q" "joinable p q" using Join.prems by simp_all
  show ?case
  proof (cases "try_worst_case_optimal rt (Join p q) limit")
    case (Some rows)
    then show ?thesis using accelerated_wco [OF rt(4) Some] by (simp add: inner_rows_def)
  next
    case None
    obtain xs where xs: "run_path_pattern rt pol p 0 = Some xs" "same_rows xs (spec_rows rt pol p)"
      using Join.IH(1) [OF plain(1), of 0] unfolding cut_zero by blast
    obtain ys where ys: "run_path_pattern rt pol q 0 = Some ys" "same_rows ys (spec_rows rt pol q)"
      using Join.IH(2) [OF plain(2), of 0] unfolding cut_zero by blast
    have "pairwise_join rt (shared_vars p q) xs ys limit = take_limit limit (spec_join xs ys)"
      using spec_rows_inv [OF rt(1)] by (rule pairwise_join_spec [OF plain(3) rt(3) _ xs(2) ys(2)])
    then show ?thesis using None xs(1) ys(1) cut_take_limit [OF same_rows_spec_join [OF xs(2) ys(2)]] by (simp add: inner_rows_def)
  qed
next
  case (Filter p x)
  have plain: "plain pol p" using Filter.prems by simp
  obtain xs where xs: "run_path_pattern rt pol p 0 = Some xs" "same_rows xs (spec_rows rt pol p)"
    using Filter.IH [OF plain, of 0] unfolding cut_zero by blast
  from cut_take_limit [OF same_rows_filter [OF xs(2)]] show ?case using xs(1) by (simp add: apply_filter_def inner_rows_def)
next
  case (Repeat p lb ub)
  have plain: "plain pol p" using Repeat.prems by simp
  obtain xs where xs: "run_path_pattern rt pol p 0 = Some xs" "same_rows xs (spec_rows rt pol p)"
    using Repeat.IH [OF plain, of 0] unfolding cut_zero by blast
  then have inner: "inner_rows rt pol (Repeat p lb ub)" by (simp add: inner_rows_def)
  show ?case
  proof (cases ub)
    case None
    from mode_search_cut [OF rt(1) _ _ xs(2), of lb limit None] Repeat.prems None
    obtain rows where "unbounded_search A pol (freevars p) xs lb limit None = Some rows"
      "cut limit rows (spec_rows rt pol (Repeat p lb None))" unfolding starts_anywhere by auto
    then show ?thesis using xs(1) inner rt(1) None by simp
  next
    case (Some n)
    from cut_take_limit [OF same_rows_range [OF xs(2)], of limit] show ?thesis
      using xs(1) inner rt(1) Some by (simp add: repetition_range_eq del: upt_Suc)
  qed
next
  case (Questioned p)
  let ?empty = "run_node_pattern rt None limit"
  have plain: "plain pol p" using Questioned.prems by simp
  obtain xs where xs: "run_path_pattern rt pol p (limit - length ?empty) = Some xs" "cut (limit - length ?empty) xs (spec_rows rt pol p)"
    using Questioned.IH [OF plain] by blast
  from cut_append [OF run_node_spec [OF rt(1,2)] xs(2)] show ?case using xs(1) rt(1) by (simp add: Let_def inner_rows_def)
next
  case (Selected pre p)
  have plain: "pp_search pre = SearchAll" "plain (unbounded_policy_for (Some pre)) p" using Selected.prems by simp_all
  show ?case
  proof (cases "rt_try_bfs rt pre p limit")
    case None
    obtain xs where xs: "run_path_pattern rt (unbounded_policy_for (Some pre)) p 0 = Some xs"
      "same_rows xs (spec_rows rt (unbounded_policy_for (Some pre)) p)"
      using Selected.IH [OF plain(2), of 0] unfolding cut_zero by blast
    from cut_take_limit [OF same_rows_select_all [OF plain(1) xs(2)]] show ?thesis using None xs(1) by (simp add: inner_rows_def)
  next
    case (Some rows)
    then have "cut limit rows (spec_rows rt pol (Selected pre p))" using rt(4) unfolding accelerated_def by blast
    then show ?thesis using Some by (simp add: inner_rows_def)
  qed
next
  case (Named x p)
  have plain: "plain pol p" using Named.prems by simp
  obtain xs where "run_path_pattern rt pol p limit = Some xs" "cut limit xs (spec_rows rt pol p)"
    using Named.IH [OF plain, of limit] by blast
  then show ?case by (auto simp: inner_rows_def intro: cut_map)
qed (use run_node_spec [OF rt(1,2)] run_edges_spec in \<open>auto simp: rt(1) run_edge_any_def inner_rows_def intro!: cut_same same_rows_append\<close>)

lemma evaluator_cut:
  assumes "rt_graph rt = A" "rt_pins rt = []" "picks rt" "accelerated rt" "plain pol p"
  shows "\<exists>rows. run_path_pattern rt pol p limit = Some rows \<and> cut limit rows (spec_rows rt pol p)"
  using evaluator_cut_inner [OF assms] by blast

end

end
