(* ===== verification/ShortestSearch.thy ===== *)
theory ShortestSearch
  imports ModeSearch
begin

text \<open>
  The k-shortest search for unbounded repetitions: it ends, and for every pair of ends its
  rows are the k shortest repetitions (or all those of the k shortest lengths), although a
  row whose pair has its budget filled is dropped without being extended.
\<close>

section \<open>What the search keeps\<close>

definition row_pair :: "row \<Rightarrow> u32 \<times> u32" where
  "row_pair r = (the (row_first r), the (row_last r))"

definition row_len :: "row \<Rightarrow> nat" where
  "row_len r = path_edge_len (row_path r)"

text \<open>
  The pair has its budget filled by rows that are not longer: by \<open>cnt\<close> rows, or by rows of
  \<open>cnt\<close> lengths that are shorter.
\<close>

definition full :: "bool \<Rightarrow> nat \<Rightarrow> row list \<Rightarrow> u32 \<times> u32 \<Rightarrow> nat \<Rightarrow> bool" where
  "full groups cnt rows P L \<longleftrightarrow>
     (if groups then cnt \<le> card (row_len ` {a \<in> set rows. row_pair a = P \<and> row_len a < L})
      else cnt \<le> length (filter (\<lambda>a. row_pair a = P \<and> row_len a \<le> L) rows))"

definition within :: "bool \<Rightarrow> nat \<Rightarrow> row list \<Rightarrow> u32 \<times> u32 \<Rightarrow> bool" where
  "within groups cnt rows P \<longleftrightarrow>
     (if groups then card (row_len ` {a \<in> set rows. row_pair a = P}) \<le> cnt
      else length (filter (\<lambda>a. row_pair a = P) rows) \<le> cnt)"

definition budget_at :: "bool \<Rightarrow> nat \<Rightarrow> budgets \<Rightarrow> row list \<Rightarrow> u32 \<times> u32 \<Rightarrow> bool" where
  "budget_at groups cnt b rows P \<longleftrightarrow>
     (if groups
      then distinct (snd b P) \<and> set (snd b P) = row_len ` {a \<in> set rows. row_pair a = P} \<and> length (snd b P) \<le> cnt
      else fst b P = length (filter (\<lambda>a. row_pair a = P) rows) \<and> fst b P \<le> cnt)"

definition budget_inv :: "bool \<Rightarrow> nat \<Rightarrow> budgets \<Rightarrow> row list \<Rightarrow> bool" where
  "budget_inv groups cnt b rows \<longleftrightarrow> (\<forall>P. budget_at groups cnt b rows P)"

lemma budget_invD: "budget_inv groups cnt b rows \<Longrightarrow> budget_at groups cnt b rows P"
  by (simp only: budget_inv_def)

lemma full_mono: "full groups cnt rows P L \<Longrightarrow> full groups cnt (rows @ xs) P L"
proof (cases groups)
  case True
  have "card (row_len ` {a \<in> set rows. row_pair a = P \<and> row_len a < L}) \<le> card (row_len ` {a \<in> set (rows @ xs). row_pair a = P \<and> row_len a < L})"
    by (intro card_mono image_mono) auto
  then show "full groups cnt rows P L \<Longrightarrow> full groups cnt (rows @ xs) P L" using True by (simp add: full_def)
qed (simp add: full_def)

lemma full_longer: "full groups cnt rows P L \<Longrightarrow> L \<le> L' \<Longrightarrow> full groups cnt rows P L'"
proof (cases groups)
  case True
  moreover assume "L \<le> L'"
  then have "card (row_len ` {a \<in> set rows. row_pair a = P \<and> row_len a < L}) \<le> card (row_len ` {a \<in> set rows. row_pair a = P \<and> row_len a < L'})"
    by (intro card_mono image_mono) auto
  ultimately show "full groups cnt rows P L \<Longrightarrow> full groups cnt rows P L'" by (simp add: full_def)
next
  case False
  moreover assume "L \<le> L'"
  then have "length (filter (\<lambda>a. row_pair a = P \<and> row_len a \<le> L) rows) \<le> length (filter (\<lambda>a. row_pair a = P \<and> row_len a \<le> L') rows)"
    by (induction rows) auto
  ultimately show "full groups cnt rows P L \<Longrightarrow> full groups cnt rows P L'" by (simp add: full_def)
qed

lemma budget_within:
  assumes "budget_inv groups cnt b rows"
  shows "within groups cnt rows P"
proof -
  have at: "budget_at groups cnt b rows P" using assms by (rule budget_invD)
  show ?thesis
  proof (cases groups)
    case True
    then have "row_len ` {a \<in> set rows. row_pair a = P} = set (snd b P)" "length (snd b P) \<le> cnt"
      using at by (simp_all add: budget_at_def)
    then show ?thesis using True card_length [of "snd b P"] by (simp add: within_def)
  qed (use at in \<open>simp add: budget_at_def within_def\<close>)
qed

lemma admit_ok:
  assumes "budget_inv groups cnt b rows" "admit groups cnt b (row_pair r) (row_len r) = (True, b')"
  shows "budget_inv groups cnt b' (rows @ [r])"
  unfolding budget_inv_def
proof
  fix Q
  obtain taken lens where b: "b = (taken, lens)" by (cases b)
  have at: "budget_at groups cnt b rows Q" using assms(1) by (rule budget_invD)
  show "budget_at groups cnt b' (rows @ [r]) Q"
  proof (cases "Q = row_pair r")
    case True
    have set: "row_len ` {a \<in> set (rows @ [r]). row_pair a = Q} = insert (row_len r) (row_len ` {a \<in> set rows. row_pair a = Q})"
      using True by auto
    show ?thesis
    proof (cases groups)
      case groups: True
      then have "distinct (snd b' Q) \<and> set (snd b' Q) = insert (row_len r) (set (snd b Q)) \<and> length (snd b' Q) \<le> cnt"
        using at assms(2) True by (auto simp: admit_def b budget_at_def split: if_splits)
      then show ?thesis using at groups unfolding budget_at_def set by simp
    qed (use at assms(2) True in \<open>auto simp: admit_def b budget_at_def split: if_splits\<close>)
  next
    case False
    then have "{a \<in> set (rows @ [r]). row_pair a = Q} = {a \<in> set rows. row_pair a = Q}" "snd b' Q = snd b Q" "fst b' Q = fst b Q"
      using assms(2) by (auto simp: admit_def b split: if_splits)
    then show ?thesis using at False by (cases groups) (simp_all add: budget_at_def)
  qed
qed

lemma admit_full:
  assumes "budget_inv groups cnt b rows" "admit groups cnt b P len = (False, b')" "\<And>a. a \<in> set rows \<Longrightarrow> row_len a \<le> len"
  shows "b' = b \<and> full groups cnt rows P len"
proof -
  obtain taken lens where b: "b = (taken, lens)" by (cases b)
  have at: "budget_at groups cnt b rows P" using assms(1) by (rule budget_invD)
  show ?thesis
  proof (cases groups)
    case True
    then have lens: "len \<notin> set (lens P)" "cnt \<le> length (lens P)" "b' = b" "distinct (lens P)"
      "set (lens P) = row_len ` {a \<in> set rows. row_pair a = P}"
      using at assms(2) by (auto simp: admit_def b budget_at_def split: if_splits)
    have "row_len ` {a \<in> set rows. row_pair a = P} = row_len ` {a \<in> set rows. row_pair a = P \<and> row_len a < len}"
      using lens(1,5) assms(3) by (force simp: nat_less_le)
    then show ?thesis using lens True distinct_card [OF lens(4)] by (simp add: full_def)
  next
    case False
    have "filter (\<lambda>a. row_pair a = P \<and> row_len a \<le> len) rows = filter (\<lambda>a. row_pair a = P) rows"
      using assms(3) by (intro filter_cong) auto
    then show ?thesis using False at assms(2) by (auto simp: admit_def b budget_at_def full_def split: if_splits)
  qed
qed

section \<open>The heap\<close>

abbreviation "heap_le \<equiv> sorted_wrt (\<lambda>a b. se_len a \<le> se_len b)"

lemma mset_heap_push [simp]: "mset (heap_push e h) = add_mset e (mset h)"
  by (induction h) auto

lemma set_heap_push [simp]: "set (heap_push e h) = insert e (set h)"
  by (metis mset_heap_push set_mset_add_mset_insert set_mset_mset)

lemma heap_push_sorted: "heap_le h \<Longrightarrow> heap_le (heap_push e h)"
  by (induction h) (auto intro: order_trans order_less_imp_le)

text \<open>Entries with their rows.\<close>

definition heap_ok :: "graph_access \<Rightarrow> shortest_entry list \<Rightarrow> bool" where
  "heap_ok A h \<longleftrightarrow> heap_le h \<and> (\<forall>e \<in> set h. se_len e = row_len (se_row e) \<and> row_inv A (se_row e) \<and> 1 \<le> se_reps e)"

lemma push_rows_spec:
  assumes "heap_ok A h" "\<And>r. r \<in> set rs \<Longrightarrow> row_inv A r" "1 \<le> reps"
  shows "heap_ok A (snd (push_rows reps rs (seq, h)))
    \<and> (\<exists>K. mset (snd (push_rows reps rs (seq, h))) = mset h + K \<and> image_mset se_row K = mset rs)"
  using assms(1,2)
proof (induction rs arbitrary: seq h)
  case (Cons r rs)
  let ?e = "\<lparr>se_len = path_edge_len (row_path r), se_seq = seq, se_reps = reps, se_row = r\<rparr>"
  have ok: "heap_ok A (heap_push ?e h)" using Cons.prems assms(3) heap_push_sorted by (simp add: heap_ok_def row_len_def)
  have step: "push_rows reps (r # rs) (seq, h) = push_rows reps rs (Suc seq, heap_push ?e h)" by (simp add: push_rows_def)
  obtain K where K: "mset (snd (push_rows reps rs (Suc seq, heap_push ?e h))) = mset (heap_push ?e h) + K" "image_mset se_row K = mset rs"
    using Cons.IH [OF ok] Cons.prems(2) by auto
  then have "mset (snd (push_rows reps (r # rs) (seq, h))) = mset h + add_mset ?e K" "image_mset se_row (add_mset ?e K) = mset (r # rs)"
    unfolding step by simp_all
  then show ?case using Cons.IH [OF ok] Cons.prems(2) unfolding step by (metis list.set_intros(2))
qed (simp add: push_rows_def)

section \<open>Termination\<close>

definition used :: "bool \<Rightarrow> budgets \<Rightarrow> u32 \<times> u32 \<Rightarrow> nat" where
  "used groups b P = (if groups then length (snd b P) else fst b P)"

definition pairs :: "graph_access \<Rightarrow> (u32 \<times> u32) set" where
  "pairs A = set (ga_nodes A) \<times> set (ga_nodes A)"

definition slack :: "graph_access \<Rightarrow> bool \<Rightarrow> nat \<Rightarrow> budgets \<Rightarrow> nat" where
  "slack A groups cnt b = (\<Sum>P \<in> pairs A. cnt - used groups b P)"

definition longest :: "graph_access \<Rightarrow> budgets \<Rightarrow> nat" where
  "longest A b = Max (insert 0 (\<Union>P \<in> pairs A. set (snd b P)))"

definition progress :: "graph_access \<Rightarrow> bool \<Rightarrow> nat \<Rightarrow> shortest_entry list \<Rightarrow> budgets \<Rightarrow> nat \<times> nat multiset" where
  "progress A groups cnt h b = (slack A groups cnt b, image_mset (\<lambda>e. Suc (longest A b) - se_len e) (mset h))"

definition progress_rel :: "((nat \<times> nat multiset) \<times> (nat \<times> nat multiset)) set" where
  "progress_rel = less_than <*lex*> mult less_than"

lemma wf_progress: "wf progress_rel"
  unfolding progress_rel_def by (intro wf_lex_prod wf_mult wf_less_than)

lemma longest_ge: "P \<in> pairs A \<Longrightarrow> len \<in> set (snd b P) \<Longrightarrow> len \<le> longest A b"
  unfolding longest_def by (intro Max_ge) (auto simp: pairs_def)

lemma drop_progress: "(progress A groups cnt h b, progress A groups cnt (e # h) b) \<in> progress_rel"
  using one_step_implies_mult [of "{#Suc (longest A b) - se_len e#}" "{#}" less_than "image_mset (\<lambda>e. Suc (longest A b) - se_len e) (mset h)"]
  by (simp add: progress_def progress_rel_def)

lemma expand_progress:
  assumes "P \<in> pairs A" "admit groups cnt b P (se_len e) = (True, b')"
    and "mset h' = mset h + K" "\<And>k. k \<in># K \<Longrightarrow> se_len e < se_len k"
  shows "(progress A groups cnt h' b', progress A groups cnt (e # h) b) \<in> progress_rel"
proof (cases "b' = b \<and> groups \<and> se_len e \<in> set (snd b P)")
  case True
  then have "se_len e \<le> longest A b" using longest_ge [OF assms(1)] by blast
  then have "(image_mset (\<lambda>e. Suc (longest A b) - se_len e) (mset h) + image_mset (\<lambda>e. Suc (longest A b) - se_len e) K,
      image_mset (\<lambda>e. Suc (longest A b) - se_len e) (mset h) + {#Suc (longest A b) - se_len e#}) \<in> mult less_than"
  proof (intro one_step_implies_mult ballI bexI)
    fix v assume "v \<in># image_mset (\<lambda>e. Suc (longest A b) - se_len e) K"
    then obtain k where "k \<in># K" "v = Suc (longest A b) - se_len k" by auto
    then show "(v, Suc (longest A b) - se_len e) \<in> less_than" using assms(4) [of k] \<open>se_len e \<le> longest A b\<close> by simp
  qed simp_all
  then show ?thesis using True by (simp add: progress_def progress_rel_def assms(3))
next
  case False
  obtain taken lens where b: "b = (taken, lens)" by (cases b)
  have used: "used groups b' P = Suc (used groups b P)" "used groups b P < cnt" "Q \<noteq> P \<Longrightarrow> used groups b' Q = used groups b Q" for Q
    using False assms(2) by (auto simp: admit_def b used_def split: if_splits)
  have "slack A groups cnt b' < slack A groups cnt b"
    unfolding slack_def
  proof (rule sum_strict_mono_ex1)
    show "\<forall>Q \<in> pairs A. cnt - used groups b' Q \<le> cnt - used groups b Q"
      using used(1,3) by (metis diff_le_mono2 le_SucI order_refl)
    show "\<exists>Q \<in> pairs A. cnt - used groups b' Q < cnt - used groups b Q"
      using assms(1) used(1,2) by (intro bexI [of _ P]) simp_all
  qed (simp add: pairs_def)
  then show ?thesis by (simp add: progress_def progress_rel_def)
qed

section \<open>The search\<close>

definition search_inv ::
    "graph_access \<Rightarrow> row list \<Rightarrow> row list \<Rightarrow> bool \<Rightarrow> nat \<Rightarrow> row list \<Rightarrow> shortest_entry list \<Rightarrow> budgets \<Rightarrow> row list \<Rightarrow> row multiset \<Rightarrow> bool" where
  "search_inv A g start groups cnt Z h b Adm Rej \<longleftrightarrow>
     heap_ok A h \<and> budget_inv groups cnt b (Z @ Adm)
     \<and> mset Adm + Rej + image_mset se_row (mset h) = mset start + mset (next_level g Adm)
     \<and> (\<forall>a \<in> set (Z @ Adm). \<forall>e \<in> set h. row_len a \<le> se_len e)
     \<and> (\<forall>r \<in># Rej. full groups cnt (Z @ Adm) (row_pair r) (row_len r))
     \<and> (\<forall>a \<in> set Adm. row_inv A a)"

lemma next_level_append: "next_level g (xs @ ys) = next_level g xs @ next_level g ys"
  by (simp add: next_level_def)

lemma next_level_one: "row_last r = Some l \<Longrightarrow> map (row_concat_group r) (matches_of g l) = next_level g [r]"
  by (simp add: next_level_def)

lemma shortest_loop_ends:
  assumes g: "steps_ok A g" and lb: "lb \<le> 1"
  shows "search_inv A g start groups cnt Z h b Adm Rej \<Longrightarrow>
    \<exists>Adm' Rej' b'. shortest_loop g lb cnt groups 0 (seq, h) b (Z @ Adm) = Some (Z @ Adm')
      \<and> search_inv A g start groups cnt Z [] b' Adm' Rej'"
proof (induction "progress A groups cnt h b" arbitrary: seq h b Adm Rej rule: wf_induct_rule [OF wf_progress])
  case 1
  show ?case
  proof (cases h)
    case Nil
    then have "shortest_loop g lb cnt groups 0 (seq, h) b (Z @ Adm) = Some (Z @ Adm)" by (subst shortest_loop.simps) simp
    then show ?thesis using 1(2) Nil by blast
  next
    case (Cons e h')
    let ?r = "se_row e"
    note inv = 1(2) [unfolded search_inv_def Cons]
    have e: "se_len e = row_len ?r" "row_inv A ?r" "1 \<le> se_reps e" using inv by (simp_all add: heap_ok_def)
    have h': "heap_ok A h'" using inv by (simp add: heap_ok_def)
    have first: "\<forall>x \<in> set h'. se_len e \<le> se_len x" using inv unfolding heap_ok_def sorted_wrt.simps by blast
    obtain f l where fl: "row_first ?r = Some f" "row_last ?r = Some l" "f \<in> set (ga_nodes A)" "l \<in> set (ga_nodes A)"
      using row_inv_first [OF e(2)] row_inv_last [OF e(2)] by blast
    have pair: "row_pair ?r = (f, l)" "(f, l) \<in> pairs A" using fl by (simp_all add: row_pair_def pairs_def)
    have budget: "budget_inv groups cnt b (Z @ Adm)" using inv by blast
    obtain ok b' where admit: "admit groups cnt b (f, l) (se_len e) = (ok, b')"
      by (cases "admit groups cnt b (f, l) (se_len e)")
    show ?thesis
    proof (cases ok)
      case False
      have full: "b' = b" "full groups cnt (Z @ Adm) (row_pair ?r) (row_len ?r)"
        using admit_full [OF budget, of "(f, l)" "se_len e" b'] admit False inv e(1) pair(1) by auto
      then have "search_inv A g start groups cnt Z h' b Adm (add_mset ?r Rej)"
        using inv h' by (simp add: search_inv_def)
      moreover have "shortest_loop g lb cnt groups 0 (seq, h) b (Z @ Adm) = shortest_loop g lb cnt groups 0 (seq, h') b (Z @ Adm)"
        by (subst shortest_loop.simps) (simp add: Cons fl admit False full(1))
      ultimately show ?thesis using 1(1) [of h' b Adm "add_mset ?r Rej" seq] drop_progress unfolding Cons by metis
    next
      case True
      let ?kids = "next_level g [?r]"
      obtain seq' h2 where push: "push_rows (Suc (se_reps e)) ?kids (seq, h') = (seq', h2)" by (cases "push_rows (Suc (se_reps e)) ?kids (seq, h')")
      have kids: "row_inv A k \<and> row_len ?r < row_len k" if "k \<in> set ?kids" for k
        using next_level_steps [OF g e(2) that] by (simp add: row_len_def)
      obtain K where h2: "heap_ok A h2" "mset h2 = mset h' + K" "image_mset se_row K = mset ?kids"
        using push_rows_spec [OF h', of ?kids "Suc (se_reps e)" seq] kids push by auto
      have K: "se_len e < se_len k" if "k \<in># K" for k
      proof -
        have "k \<in> set h2" using h2(2) that by (metis set_mset_mset union_iff)
        moreover have "se_row k \<in># image_mset se_row K" using that by simp
        then have "se_row k \<in> set ?kids" unfolding h2(3) by simp
        ultimately show ?thesis using kids h2(1) e(1) by (simp add: heap_ok_def)
      qed
      have sets: "set h2 = set h' \<union> set_mset K" using h2(2) by (metis set_mset_mset set_mset_union)
      have "search_inv A g start groups cnt Z h2 b' (Adm @ [?r]) Rej"
        unfolding search_inv_def
      proof (intro conjI)
        show "budget_inv groups cnt b' (Z @ Adm @ [?r])"
          using admit_ok [OF budget, of ?r b'] admit True e(1) pair(1) by simp
        show "mset (Adm @ [?r]) + Rej + image_mset se_row (mset h2) = mset start + mset (next_level g (Adm @ [?r]))"
          using inv h2(2,3) by (simp add: next_level_append ac_simps)
        show "\<forall>a \<in> set (Z @ Adm @ [?r]). \<forall>x \<in> set h2. row_len a \<le> se_len x"
          using inv K first e(1) unfolding sets by fastforce
        show "\<forall>r \<in># Rej. full groups cnt (Z @ Adm @ [?r]) (row_pair r) (row_len r)"
          using inv full_mono [of groups cnt "Z @ Adm" _ _ "[?r]"] by simp
      qed (use h2(1) e(2) inv in auto)
      moreover have "(progress A groups cnt h2 b', progress A groups cnt h b) \<in> progress_rel"
        unfolding Cons using admit True h2(2) K by (intro expand_progress [OF pair(2)]) simp_all
      moreover have "shortest_loop g lb cnt groups 0 (seq, h) b (Z @ Adm) = shortest_loop g lb cnt groups 0 (seq', h2) b' (Z @ Adm @ [?r])"
        using lb e(3) by (subst shortest_loop.simps) (simp add: Cons fl admit True push next_level_one [OF fl(2)])
      ultimately show ?thesis using 1(1) [of h2 b' "Adm @ [?r]" Rej seq'] by metis
    qed
  qed
qed

section \<open>Dropping a row loses nothing\<close>

text \<open>
  The rows of zero repetitions that the search starts with: one per node it may start from,
  whose continuations are the rows of the inner pattern themselves.
\<close>

definition zeros_ok :: "row list \<Rightarrow> row list \<Rightarrow> row list \<Rightarrow> bool" where
  "zeros_ok g start Z \<longleftrightarrow> distinct (map row_pair Z)
     \<and> (\<forall>z \<in> set Z. row_len z = 0 \<and> (\<exists>n. row_pair z = (n, n) \<and> (\<forall>s \<in> set g. row_first s = Some n \<longrightarrow> s \<in> set start)))"

lemma kid_of:
  assumes "steps_ok A g" "row_inv A a" "s \<in> set g" "row_pair a = (f, t)" "row_first s = Some t"
  shows "row_concat_group a s \<in> set (next_level g [a]) \<and> row_pair (row_concat_group a s) = (f, the (row_last s))
    \<and> row_len (row_concat_group a s) = row_len a + row_len s"
proof -
  have inv: "row_inv A s" using assms(1,3) by (simp add: steps_ok_def)
  obtain f' t' where a: "row_first a = Some f'" "row_last a = Some t'"
    using row_inv_first [OF assms(2)] row_inv_last [OF assms(2)] by blast
  then have ft: "f' = f" "t' = t" using assms(4) by (simp_all add: row_pair_def)
  have path: "row_path (row_concat_group a s) = path_append (row_path a) (row_path s)"
    using assms(2) row_path_concat_group by (simp add: row_inv_def)
  have last: "last_node_id (path_append (row_path a) (row_path s)) = row_last s"
  proof (cases "tl (row_path s)")
    case Nil
    then obtain n where "row_path s = [PNode n]" using is_walk_ends [OF row_inv_walk [OF inv]] row_inv_walk [OF inv]
      by (cases "row_path s") auto
    then show ?thesis using a ft assms(5) by (simp add: path_append_def last_node_id_def)
  next
    case (Cons x xs)
    then have "last (row_path a @ tl (row_path s)) = last (row_path s)" by (cases "row_path s") simp_all
    then show ?thesis using Cons by (cases "row_path s") (simp_all add: path_append_def last_node_id_def)
  qed
  have mem: "row_concat_group a s \<in> set (next_level g [a])" using assms(3,5) a ft by (simp add: next_level_def matches_of_def)
  moreover have "row_first (row_concat_group a s) = row_first a" using next_level_steps [OF assms(1,2) mem] by simp
  ultimately show ?thesis
    using a ft append_ids(3) [OF row_inv_walk [OF inv], of "row_path a"] by (simp add: row_pair_def row_len_def path last)
qed

definition final_state :: "graph_access \<Rightarrow> row list \<Rightarrow> row list \<Rightarrow> bool \<Rightarrow> nat \<Rightarrow> row list \<Rightarrow> row list \<Rightarrow> row multiset \<Rightarrow> bool" where
  "final_state A g start groups cnt Z Adm Rej \<longleftrightarrow>
     mset Adm + Rej = mset start + mset (next_level g Adm)
     \<and> (\<forall>r \<in># Rej. full groups cnt (Z @ Adm) (row_pair r) (row_len r))
     \<and> (\<forall>a \<in> set Adm. row_inv A a)"

lemma full_step_count:
  assumes "steps_ok A g" "zeros_ok g start Z" "final_state A g start False cnt Z Adm Rej"
    and "full False cnt (Z @ Adm) (f, t) L" "s \<in> set g" "row_first s = Some t"
  shows "full False cnt (Z @ Adm) (f, the (row_last s)) (L + row_len s)"
proof -
  let ?P = "\<lambda>a. row_pair a = (f, t) \<and> row_len a \<le> L"
  let ?Q = "\<lambda>a. row_pair a = (f, the (row_last s)) \<and> row_len a \<le> L + row_len s"
  have inv: "\<forall>a \<in> set Adm. row_inv A a" using assms(3) by (simp add: final_state_def)
  show ?thesis
  proof (cases "\<exists>r \<in># Rej. ?Q r")
    case True
    then show ?thesis using assms(3) full_longer unfolding final_state_def by metis
  next
    case False
    then have "filter_mset ?Q Rej = {#}" by (metis (mono_tags, lifting) mem_Collect_eq multiset_nonemptyE set_mset_filter)
    moreover have "filter_mset ?Q (mset Adm + Rej) = filter_mset ?Q (mset start + mset (next_level g Adm))"
      using assms(3) by (simp add: final_state_def)
    ultimately have "mset (filter ?Q Adm) = mset (filter ?Q start) + mset (filter ?Q (next_level g Adm))"
      unfolding filter_union_mset mset_filter by (simp only: add_0_right)
    from arg_cong [OF this, of size] have adm: "length (filter ?Q Adm) = length (filter ?Q start) + length (filter ?Q (next_level g Adm))"
      by (simp only: size_union size_mset)
    have kids: "length (filter ?P xs) \<le> length (filter ?Q (next_level g xs))" if "\<forall>a \<in> set xs. row_inv A a" for xs
      using that
    proof (induction xs)
      case (Cons a xs)
      have "next_level g (a # xs) = next_level g [a] @ next_level g xs" using next_level_append [of g "[a]" xs] by simp
      moreover have "1 \<le> length (filter ?Q (next_level g [a]))" if "?P a"
      proof -
        have "row_concat_group a s \<in> set (filter ?Q (next_level g [a]))"
          using kid_of [OF assms(1) _ assms(5) _ assms(6), of a f] Cons.prems that by simp
        from length_pos_if_in_set [OF this] show ?thesis by (simp only: One_nat_def Suc_le_eq)
      qed
      ultimately show ?case using Cons by auto
    qed simp
    have "length (filter ?P Z) \<le> length (filter ?Q start)"
    proof (cases "filter ?P Z")
      case (Cons z zs)
      have "distinct (map row_pair (filter ?P Z))" using assms(2) by (simp add: zeros_ok_def distinct_map_filter)
      moreover have "\<forall>z \<in> set (filter ?P Z). row_pair z = (f, t)" by simp
      ultimately have "zs = []" using Cons by (cases zs) auto
      have "z \<in> set (filter ?P Z)" unfolding Cons by simp
      then have z: "z \<in> set Z" "?P z" by simp_all
      then have "s \<in> set start" "f = t" using assms(2,5,6) by (auto simp: zeros_ok_def)
      moreover have "row_pair s = (f, the (row_last s))" using assms(6) \<open>f = t\<close> by (simp add: row_pair_def)
      ultimately have "s \<in> set (filter ?Q start)" by simp
      from length_pos_if_in_set [OF this] show ?thesis unfolding Cons \<open>zs = []\<close> by (simp only: list.size One_nat_def Suc_le_eq add_0)
    qed simp
    then show ?thesis using adm kids [OF inv] assms(4) by (simp add: full_def)
  qed
qed

lemma full_step_lengths:
  assumes "steps_ok A g" "zeros_ok g start Z" "final_state A g start True cnt Z Adm Rej"
    and "full True cnt (Z @ Adm) (f, t) L" "s \<in> set g" "row_first s = Some t"
  shows "full True cnt (Z @ Adm) (f, the (row_last s)) (L + row_len s)"
proof -
  let ?P = "\<lambda>a. row_pair a = (f, t) \<and> row_len a < L"
  let ?Q = "\<lambda>a. row_pair a = (f, the (row_last s)) \<and> row_len a < L + row_len s"
  have E: "mset Adm + Rej = mset start + mset (next_level g Adm)" and inv: "\<forall>a \<in> set Adm. row_inv A a"
    using assms(3) by (simp_all add: final_state_def)
  show ?thesis
  proof (cases "\<exists>r \<in># Rej. ?Q r")
    case True
    then show ?thesis using assms(3) full_longer unfolding final_state_def by (metis less_imp_le)
  next
    case no: False
    have "row_len a + row_len s \<in> row_len ` {a \<in> set (Z @ Adm). ?Q a}" if a: "a \<in> set (Z @ Adm)" "?P a" for a
    proof -
      obtain k where k: "k \<in> set start \<union> set (next_level g Adm)" "row_pair k = (f, the (row_last s))" "row_len k = row_len a + row_len s"
      proof (cases "a \<in> set Adm")
        case True
        then have "set (next_level g [a]) \<subseteq> set (next_level g Adm)" by (auto simp: next_level_def)
        then show ?thesis using that [of "row_concat_group a s"] kid_of [OF assms(1) _ assms(5) _ assms(6), of a f] inv True a(2) by blast
      next
        case False
        then have "a \<in> set Z" using a(1) by simp
        then have "s \<in> set start" "f = t" "row_len a = 0" using assms(2,5,6) a(2) by (auto simp: zeros_ok_def)
        then show ?thesis using that [of s] assms(6) by (simp add: row_pair_def)
      qed
      then have "?Q k" using a(2) by simp
      moreover have "k \<in># mset Adm + Rej" unfolding E using k(1) by simp
      ultimately have "k \<in> set Adm" using no by auto
      then show ?thesis using k \<open>?Q k\<close> by (intro image_eqI [of _ _ k]) simp_all
    qed
    then have "(\<lambda>l. l + row_len s) ` (row_len ` {a \<in> set (Z @ Adm). ?P a}) \<subseteq> row_len ` {a \<in> set (Z @ Adm). ?Q a}" by blast
    then have "card ((\<lambda>l. l + row_len s) ` (row_len ` {a \<in> set (Z @ Adm). ?P a})) \<le> card (row_len ` {a \<in> set (Z @ Adm). ?Q a})"
      by (intro card_mono) simp_all
    also have "card ((\<lambda>l. l + row_len s) ` (row_len ` {a \<in> set (Z @ Adm). ?P a})) = card (row_len ` {a \<in> set (Z @ Adm). ?P a})"
      by (intro card_image) (simp add: inj_on_def)
    finally show ?thesis using assms(4) by (simp add: full_def)
  qed
qed

lemma full_step:
  assumes "steps_ok A g" "zeros_ok g start Z" "final_state A g start groups cnt Z Adm Rej"
    and "row_inv A y" "full groups cnt (Z @ Adm) (row_pair y) (row_len y)" "x \<in> set (next_level g [y])"
  shows "row_inv A x \<and> full groups cnt (Z @ Adm) (row_pair x) (row_len x)"
proof -
  obtain t where t: "row_last y = Some t" using row_inv_last [OF assms(4)] by blast
  then obtain s where s: "s \<in> set g" "row_first s = Some t" "x = row_concat_group y s"
    using assms(6) by (auto simp: next_level_def matches_of_def)
  have pair: "row_pair y = (fst (row_pair y), t)" using t by (simp add: row_pair_def)
  note kid = kid_of [OF assms(1,4) s(1) pair s(2)]
  have "full groups cnt (Z @ Adm) (fst (row_pair y), the (row_last s)) (row_len y + row_len s)"
  proof (cases groups)
    case True
    then show ?thesis using full_step_lengths [OF assms(1,2) _ _ s(1,2)] assms(3,5) pair by metis
  next
    case False
    then show ?thesis using full_step_count [OF assms(1,2) _ _ s(1,2)] assms(3,5) pair by metis
  qed
  then show ?thesis using kid next_level_steps [OF assms(1,4,6)] s(3) by simp
qed

section \<open>The rows are the shortest\<close>

definition extensions :: "row list \<Rightarrow> row multiset \<Rightarrow> row multiset" where
  "extensions g M = (\<Sum>x \<in># M. mset (next_level g [x]))"

lemma extensions_mset: "extensions g (mset xs) = mset (next_level g xs)"
proof (induction xs)
  case (Cons x xs)
  then show ?case using next_level_append [of g "[x]" xs] by (simp add: extensions_def)
qed (simp add: extensions_def)

lemma extensions_union: "extensions g (M + N) = extensions g M + extensions g N"
  by (simp add: extensions_def)

lemma extensions_mono: "M \<subseteq># N \<Longrightarrow> extensions g M \<subseteq># extensions g N"
  by (metis extensions_union mset_subset_eq_add_left subset_mset.less_eqE)

text \<open>The rows of up to \<open>n\<close> repetitions.\<close>

definition levels_to :: "row list \<Rightarrow> row list \<Rightarrow> nat \<Rightarrow> row list" where
  "levels_to g start n = concat (map (\<lambda>k. (next_level g ^^ k) start) [0..<n])"

lemma levels_to_Suc: "mset (levels_to g start (Suc n)) = mset start + extensions g (mset (levels_to g start n))"
proof -
  have "levels_to g start (Suc n) = start @ next_level g (levels_to g start n)"
  proof (induction n)
    case (Suc n)
    have "levels_to g start (Suc (Suc n)) = levels_to g start (Suc n) @ next_level g ((next_level g ^^ n) start)"
      by (simp add: levels_to_def)
    also have "\<dots> = start @ next_level g (levels_to g start n @ (next_level g ^^ n) start)"
      using Suc by (simp add: next_level_append)
    finally show ?case by (simp add: levels_to_def)
  qed (simp add: levels_to_def next_level_def)
  then show ?thesis by (simp add: extensions_mset)
qed

lemma rejected_good:
  assumes "steps_ok A g" "final_state A g start groups cnt Z Adm Rej" "set start \<subseteq> set g" "r \<in># Rej"
  shows "row_inv A r"
proof -
  have E: "mset Adm + Rej = mset start + mset (next_level g Adm)" using assms(2) by (simp add: final_state_def)
  have "r \<in># mset Adm + Rej" using assms(4) by simp
  then have "r \<in># mset start + mset (next_level g Adm)" unfolding E .
  then consider "r \<in> set g" | a where "a \<in> set Adm" "r \<in> set (next_level g [a])" using assms(3) by (auto simp: next_level_def)
  then show ?thesis
  proof cases
    case (2 a)
    then show ?thesis using next_level_steps [OF assms(1)] assms(2) by (auto simp: final_state_def)
  qed (use assms(1) in \<open>simp add: steps_ok_def\<close>)
qed

lemma missing_full:
  assumes "steps_ok A g" "zeros_ok g start Z" "final_state A g start groups cnt Z Adm Rej"
    and "\<forall>r \<in># Rej. row_inv A r"
  shows "\<exists>X. mset (levels_to g start n) \<subseteq># mset Adm + X \<and> (\<forall>x \<in># X. row_inv A x \<and> full groups cnt (Z @ Adm) (row_pair x) (row_len x))"
proof (induction n)
  case 0
  show ?case by (rule exI [of _ "{#}"]) (simp add: levels_to_def)
next
  case (Suc n)
  then obtain X where X: "mset (levels_to g start n) \<subseteq># mset Adm + X"
    "\<forall>x \<in># X. row_inv A x \<and> full groups cnt (Z @ Adm) (row_pair x) (row_len x)" by blast
  have E: "mset Adm + Rej = mset start + mset (next_level g Adm)" using assms(3) by (simp add: final_state_def)
  have "mset start + extensions g (mset (levels_to g start n)) \<subseteq># mset start + (extensions g (mset Adm) + extensions g X)"
    using extensions_mono [OF X(1), of g] by (simp add: extensions_union)
  also have "mset start + (extensions g (mset Adm) + extensions g X) = mset Adm + (Rej + extensions g X)"
    using E by (simp add: extensions_mset ac_simps)
  finally have "mset (levels_to g start (Suc n)) \<subseteq># mset Adm + (Rej + extensions g X)" unfolding levels_to_Suc .
  moreover have "\<forall>x \<in># Rej + extensions g X. row_inv A x \<and> full groups cnt (Z @ Adm) (row_pair x) (row_len x)"
  proof
    fix x assume "x \<in># Rej + extensions g X"
    then consider "x \<in># Rej" | y where "y \<in># X" "x \<in> set (next_level g [y])" by (auto simp: extensions_def)
    then show "row_inv A x \<and> full groups cnt (Z @ Adm) (row_pair x) (row_len x)"
    proof cases
      case 1
      then show ?thesis using assms(3,4) by (simp add: final_state_def)
    next
      case (2 y)
      then show ?thesis using full_step [OF assms(1-3)] X(2) by blast
    qed
  qed
  ultimately show ?case by blast
qed

lemma admitted_levels:
  assumes "steps_ok A g" "final_state A g start groups cnt Z Adm Rej" "set start \<subseteq> set g"
  shows "mset (filter (\<lambda>a. row_len a \<le> n) Adm) \<subseteq># mset (levels_to g start n)"
proof (induction n)
  case 0
  have E: "mset Adm + Rej = mset start + mset (next_level g Adm)" and inv: "\<forall>a \<in> set Adm. row_inv A a"
    using assms(2) by (simp_all add: final_state_def)
  have "0 < row_len a" if "a \<in> set Adm" for a
  proof -
    have "a \<in># mset start + mset (next_level g Adm)" using that unfolding E [symmetric] by simp
    then consider "a \<in> set start" | b where "b \<in> set Adm" "a \<in> set (next_level g [b])" by (auto simp: next_level_def)
    then show ?thesis
    proof cases
      case 1
      then show ?thesis using assms(1,3) by (auto simp: steps_ok_def row_len_def)
    next
      case (2 b)
      then show ?thesis using next_level_steps [OF assms(1), of b a] inv by (simp add: row_len_def)
    qed
  qed
  then have "filter (\<lambda>a. row_len a \<le> 0) Adm = []" by (auto simp: filter_empty_conv)
  then show ?case by simp
next
  case (Suc n)
  have E: "mset Adm + Rej = mset start + mset (next_level g Adm)" and inv: "\<forall>a \<in> set Adm. row_inv A a"
    using assms(2) by (simp_all add: final_state_def)
  let ?P = "\<lambda>a. row_len a \<le> Suc n"
  have short: "filter_mset ?P (mset (next_level g xs)) \<subseteq># mset (next_level g (filter (\<lambda>a. row_len a \<le> n) xs))" if "\<forall>a \<in> set xs. row_inv A a" for xs
    using that
  proof (induction xs)
    case (Cons a xs)
    have split: "next_level g (a # ys) = next_level g [a] @ next_level g ys" for ys using next_level_append [of g "[a]" ys] by simp
    have "filter_mset ?P (mset (next_level g [a])) \<subseteq># mset (next_level g (filter (\<lambda>a. row_len a \<le> n) [a]))"
    proof (cases "row_len a \<le> n")
      case False
      have "\<not> ?P k" if "k \<in> set (next_level g [a])" for k
        using next_level_steps [OF assms(1) _ that] Cons.prems False by (simp add: row_len_def)
      then have "filter_mset ?P (mset (next_level g [a])) = {#}" by (metis (mono_tags, lifting) filter_False mset.simps(1) mset_filter)
      then show ?thesis by simp
    qed simp
    moreover have "filter_mset ?P (mset (next_level g xs)) \<subseteq># mset (next_level g (filter (\<lambda>a. row_len a \<le> n) xs))"
      using Cons by simp
    ultimately have "filter_mset ?P (mset (next_level g [a])) + filter_mset ?P (mset (next_level g xs))
        \<subseteq># mset (next_level g (filter (\<lambda>a. row_len a \<le> n) [a])) + mset (next_level g (filter (\<lambda>a. row_len a \<le> n) xs))"
      by (rule subset_mset.add_mono)
    also have "filter_mset ?P (mset (next_level g [a])) + filter_mset ?P (mset (next_level g xs)) = filter_mset ?P (mset (next_level g (a # xs)))"
      by (simp only: split [of xs] mset_append filter_union_mset)
    also have "mset (next_level g (filter (\<lambda>a. row_len a \<le> n) [a])) + mset (next_level g (filter (\<lambda>a. row_len a \<le> n) xs))
        = mset (next_level g (filter (\<lambda>a. row_len a \<le> n) (a # xs)))"
      using split [of "filter (\<lambda>a. row_len a \<le> n) xs"] by (simp add: next_level_def)
    finally show ?case .
  qed (simp add: next_level_def)
  have "filter_mset ?P (mset Adm) \<subseteq># filter_mset ?P (mset start + mset (next_level g Adm))"
    unfolding E [symmetric] by simp
  also have "\<dots> \<subseteq># mset start + mset (next_level g (filter (\<lambda>a. row_len a \<le> n) Adm))"
    using short [OF inv] by (simp add: subset_mset.add_mono)
  also have "\<dots> \<subseteq># mset start + extensions g (mset (levels_to g start n))"
    using extensions_mono [OF Suc.IH, of g] unfolding extensions_mset by simp
  finally show ?case by (simp add: levels_to_Suc)
qed

text \<open>
  A list of rows is what a k-shortest search may answer for the rows of all numbers of
  repetitions: it consists of such rows, no pair exceeds its budget, and whatever it leaves
  out, the budget of the pair is filled by rows that are not longer.
\<close>

definition shortest_of :: "bool \<Rightarrow> nat \<Rightarrow> (nat \<Rightarrow> row list) \<Rightarrow> nat \<Rightarrow> row list \<Rightarrow> bool" where
  "shortest_of groups cnt rep lb rows \<longleftrightarrow>
     (\<forall>P. within groups cnt rows P)
     \<and> (\<exists>n. mset rows \<subseteq># mset (concat (map rep [lb..<n])))
     \<and> (\<forall>n. \<forall>u \<in># mset (concat (map rep [lb..<n])) - mset rows. full groups cnt rows (row_pair u) (row_len u))"

lemma admit_zero_budget:
  assumes "0 < cnt" "\<And>z. z \<in> set Z \<Longrightarrow> \<exists>n. row_first z = Some n \<and> row_pair z = (n, n) \<and> row_len z = 0"
  shows "distinct (map row_pair (Y @ Z)) \<Longrightarrow> budget_inv groups cnt b Y \<Longrightarrow> budget_inv groups cnt (admit_zero groups cnt Z b) (Y @ Z)"
  using assms(2)
proof (induction Z arbitrary: Y b)
  case (Cons z Z)
  obtain n where z: "row_first z = Some n" "row_pair z = (n, n)" "row_len z = 0" using Cons.prems(3) [of z] by auto
  obtain taken lens where b: "b = (taken, lens)" by (cases b)
  have fresh: "\<forall>a \<in> set Y. row_pair a \<noteq> (n, n)" using Cons.prems(1) z(2) by (auto simp: image_iff)
  then have none: "{a \<in> set Y. row_pair a = (n, n)} = {}" by blast
  have "budget_at groups cnt b Y (n, n)" using Cons.prems(2) by (rule budget_invD)
  then have "fst (admit groups cnt b (n, n) 0)"
    using fresh none assms(1) by (cases groups) (simp_all add: budget_at_def admit_def b)
  then have "admit groups cnt b (row_pair z) (row_len z) = (True, snd (admit groups cnt b (n, n) 0))"
    unfolding z(2,3) by (simp add: prod_eq_iff)
  from admit_ok [OF Cons.prems(2) this] have "budget_inv groups cnt (snd (admit groups cnt b (n, n) 0)) (Y @ [z])" .
  from Cons.IH [OF _ this] have "budget_inv groups cnt (admit_zero groups cnt Z (snd (admit groups cnt b (n, n) 0))) ((Y @ [z]) @ Z)"
    using Cons.prems(1,3) by simp
  then show ?case by (simp add: admit_zero_def z(1))
qed (simp add: admit_zero_def)

lemma budget_empty: "budget_inv groups cnt ((\<lambda>_. 0), (\<lambda>_. [])) []"
  by (simp add: budget_inv_def budget_at_def)

lemma seeds_level:
  assumes "steps_ok A g" "\<forall>r \<in> set rs. row_inv A r"
  shows "filter (starts_in_seeds seeds) ((next_level g ^^ k) rs) = (next_level g ^^ k) (filter (starts_in_seeds seeds) rs)"
  using mode_pow_seeds [OF assms, where mode = Walk and seeds = seeds and k = k]
  by (simp add: mode_next_def [abs_def] mode_ok_def [abs_def] path_satisfies_mode_def)

lemma shortest_ofI:
  assumes "steps_ok A g" "set start \<subseteq> set g" "zeros_ok g start Z" "final_state A g start groups cnt Z Adm Rej"
    and "budget_inv groups cnt b (Z @ Adm)" "lb \<le> 1" "\<And>n. concat (map rep [lb..<Suc n]) = Z @ levels_to g start n"
  shows "shortest_of groups cnt rep lb (Z @ Adm)"
  unfolding shortest_of_def
proof (intro conjI allI ballI)
  show "within groups cnt (Z @ Adm) P" for P using budget_within [OF assms(5)] .
  show "\<exists>n. mset (Z @ Adm) \<subseteq># mset (concat (map rep [lb..<n]))"
  proof -
    obtain n where "\<forall>a \<in> set Adm. row_len a \<le> n" by (meson finite_nat_set_iff_bounded_le finite_set finite_imageI imageI)
    then have "filter (\<lambda>a. row_len a \<le> n) Adm = Adm" by simp
    then have "mset Adm \<subseteq># mset (levels_to g start n)" using admitted_levels [OF assms(1,4,2), of n] by simp
    then have "mset (Z @ Adm) \<subseteq># mset (concat (map rep [lb..<Suc n]))" unfolding assms(7) by simp
    then show ?thesis by blast
  qed
  fix n u assume u: "u \<in># mset (concat (map rep [lb..<n])) - mset (Z @ Adm)"
  show "full groups cnt (Z @ Adm) (row_pair u) (row_len u)"
  proof (cases n)
    case 0
    then show ?thesis using u by simp
  next
    case (Suc m)
    have "\<forall>r \<in># Rej. row_inv A r" using rejected_good [OF assms(1,4,2)] by blast
    from missing_full [OF assms(1,3,4) this, of m] obtain X where X: "mset (levels_to g start m) \<subseteq># mset Adm + X"
      "\<forall>x \<in># X. full groups cnt (Z @ Adm) (row_pair x) (row_len x)" by blast
    have "mset (concat (map rep [lb..<n])) - mset (Z @ Adm) = mset (levels_to g start m) - mset Adm"
      unfolding Suc assms(7) by simp
    moreover have "mset (levels_to g start m) - mset Adm \<subseteq># X" using X(1) by (simp add: subset_eq_diff_conv add.commute)
    ultimately have "u \<in># X" using u by (metis mset_subset_eqD)
    then show ?thesis using X(2) by blast
  qed
qed

text \<open>A search under a limit is the search without one, cut at the limit.\<close>

lemma shortest_loop_limit:
  assumes "shortest_loop grouped lb cnt groups 0 q b result = Some rows"
  shows "(\<exists>zs. rows = result @ zs)
    \<and> (\<exists>rows'. shortest_loop grouped lb cnt groups limit q b result = Some rows' \<and> take_limit limit rows' = take_limit limit rows)"
proof -
  let ?goal = "\<lambda>grouped lb cnt groups q b result rows. (\<exists>zs. rows = result @ zs)
    \<and> (\<exists>rows'. shortest_loop grouped lb cnt groups limit q b result = Some rows' \<and> take_limit limit rows' = take_limit limit rows)"
  have "0 = (0 :: nat) \<longrightarrow> ?goal grouped lb cnt groups q b result rows"
  proof (rule shortest_loop.raw_induct [where P = "\<lambda>grouped lb cnt groups lim q b result rows. lim = 0 \<longrightarrow> ?goal grouped lb cnt groups q b result rows", OF _ assms], intro impI)
    fix loop :: "row list \<Rightarrow> nat \<Rightarrow> nat \<Rightarrow> bool \<Rightarrow> nat \<Rightarrow> nat \<times> shortest_entry list \<Rightarrow> budgets \<Rightarrow> row list \<Rightarrow> row list option"
    fix grouped lb cnt groups lim q b result rows
    assume IH: "\<And>grouped lb cnt groups lim q b result rows. loop grouped lb cnt groups lim q b result = Some rows \<Longrightarrow>
        lim = 0 \<longrightarrow> ?goal grouped lb cnt groups q b result rows"
      and body: "(case snd q of [] \<Rightarrow> Some result
        | e # h \<Rightarrow> if 0 < lim \<and> lim \<le> length result then Some result
            else case (row_first (se_row e), row_last (se_row e)) of
                (Some f, Some l) \<Rightarrow>
                  let (ok, b) = admit groups cnt b (f, l) (se_len e)
                  in if \<not> ok then loop grouped lb cnt groups lim (fst q, h) b result
                     else loop grouped lb cnt groups lim
                       (push_rows (Suc (se_reps e)) (map (row_concat_group (se_row e)) (matches_of grouped l)) (fst q, h)) b
                       (if lb \<le> se_reps e then result @ [se_row e] else result)
              | _ \<Rightarrow> loop grouped lb cnt groups lim (fst q, h) b result) = Some rows"
      and lim: "lim = 0"
    show "?goal grouped lb cnt groups q b result rows"
    proof (cases "snd q")
      case Nil
      then show ?thesis using body by (simp add: shortest_loop.simps [of _ _ _ _ limit])
    next
      case (Cons e h)
      obtain q' b' result' ys where step: "loop grouped lb cnt groups 0 q' b' result' = Some rows" "result' = result @ ys"
        and same: "\<not> (0 < limit \<and> limit \<le> length result) \<Longrightarrow>
          shortest_loop grouped lb cnt groups limit q b result = shortest_loop grouped lb cnt groups limit q' b' result'"
      proof (cases "row_first (se_row e) = None \<or> row_last (se_row e) = None")
        case True
        then have "loop grouped lb cnt groups 0 (fst q, h) b result = Some rows" using body Cons lim by (auto split: option.splits)
        moreover have "shortest_loop grouped lb cnt groups limit q b result = shortest_loop grouped lb cnt groups limit (fst q, h) b result"
          if "\<not> (0 < limit \<and> limit \<le> length result)"
          using True Cons that by (subst shortest_loop.simps) (auto split: option.splits)
        ultimately show ?thesis using that [of "(fst q, h)" b result "[]"] by simp
      next
        case False
        then obtain f l where ends: "row_first (se_row e) = Some f" "row_last (se_row e) = Some l" by auto
        obtain ok b1 where ok: "admit groups cnt b (f, l) (se_len e) = (ok, b1)" by (cases "admit groups cnt b (f, l) (se_len e)")
        show ?thesis
        proof (cases ok)
          case True
          let ?q = "push_rows (Suc (se_reps e)) (map (row_concat_group (se_row e)) (matches_of grouped l)) (fst q, h)"
            and ?r = "result @ (if lb \<le> se_reps e then [se_row e] else [])"
          have "loop grouped lb cnt groups 0 ?q b1 ?r = Some rows" using body Cons lim ends ok True by (simp split: if_splits)
          moreover have "shortest_loop grouped lb cnt groups limit q b result = shortest_loop grouped lb cnt groups limit ?q b1 ?r"
            if "\<not> (0 < limit \<and> limit \<le> length result)"
            using True Cons that ends ok by (subst shortest_loop.simps) auto
          ultimately show ?thesis using that [of ?q b1 ?r] by blast
        next
          case False
          have "loop grouped lb cnt groups 0 (fst q, h) b1 result = Some rows" using body Cons lim ends ok False by simp
          moreover have "shortest_loop grouped lb cnt groups limit q b result = shortest_loop grouped lb cnt groups limit (fst q, h) b1 result"
            if "\<not> (0 < limit \<and> limit \<le> length result)"
            using False Cons that ends ok by (subst shortest_loop.simps) auto
          ultimately show ?thesis using that [of "(fst q, h)" b1 result "[]"] by simp
        qed
      qed
      from IH [OF step(1)] obtain zs rows' where zs: "rows = result' @ zs"
        and r: "shortest_loop grouped lb cnt groups limit q' b' result' = Some rows'" "take_limit limit rows' = take_limit limit rows" by blast
      show ?thesis
      proof (cases "0 < limit \<and> limit \<le> length result")
        case True
        then have "shortest_loop grouped lb cnt groups limit q b result = Some result" using Cons by (subst shortest_loop.simps) simp
        then show ?thesis using zs step(2) True by (simp add: take_limit_def)
      next
        case False
        then show ?thesis using same r zs step(2) by simp
      qed
    qed
  qed
  then show ?thesis by simp
qed

lemma repetition_shortest_limit:
  assumes "repetition_shortest A vars inner lb cnt groups 0 seeds = Some rows"
  shows "repetition_shortest A vars inner lb cnt groups limit seeds = Some (take_limit limit rows)"
proof (cases "rows_to_group inner = []")
  case True
  then show ?thesis using assms by (simp add: repetition_shortest_def Let_def take_limit_def split: if_splits)
next
  case False
  have "map_option (take_limit limit) (shortest_loop g lb cnt groups limit q b result) = Some (take_limit limit rows)"
    if "map_option (take_limit 0) (shortest_loop g lb cnt groups 0 q b result) = Some rows" for g q b result
  proof -
    have "shortest_loop g lb cnt groups 0 q b result = Some rows" using that by (auto simp: take_limit_def)
    then show ?thesis using shortest_loop_limit [where limit = limit] by fastforce
  qed
  then show ?thesis using assms False by (simp only: repetition_shortest_def Let_def if_False)
qed

lemma repetition_shortest_spec:
  assumes g: "steps_ok A (rows_to_group inner)" and "distinct (ga_nodes A)" "lb \<le> 1" "0 < cnt"
  shows "\<exists>rows. repetition_shortest A vars inner lb cnt groups 0 seeds = Some rows
    \<and> shortest_of groups cnt (\<lambda>k. filter (starts_in_seeds seeds) (repetition_pattern A vars inner k)) lb rows"
proof -
  let ?g = "rows_to_group inner" and ?S = "starts_in_seeds seeds"
  let ?Z = "if lb = 0 then filter ?S (repetition_pattern A vars inner 0) else []"
  let ?start = "filter ?S ?g"
  let ?b = "if lb = 0 then admit_zero groups cnt ?Z ((\<lambda>_. 0), (\<lambda>_. [])) else ((\<lambda>_. 0), (\<lambda>_. []))"
  let ?rep = "\<lambda>k. filter ?S (repetition_pattern A vars inner k)"
  have zero: "row_path z = [PNode n] \<and> row_paths z = [[PNode n]]" if "z \<in> set (zero_rows A vars)" "row_first z = Some n" for z n
    using that by (auto simp: zero_rows_def row_new_def row_path_def)
  have Z: "\<exists>n. row_first z = Some n \<and> row_pair z = (n, n) \<and> row_len z = 0 \<and> ?S z" if "z \<in> set ?Z" for z
    using that by (auto simp: repetition_pattern_def zero_rows_def row_new_def row_path_def row_pair_def row_len_def
        last_node_id_def path_edge_len_def split: if_splits)
  have distinct: "distinct (map row_pair ?Z)"
  proof -
    have "map row_pair (zero_rows A vars) = map (\<lambda>i. (i, i)) (ga_nodes A)"
      by (simp add: zero_rows_def row_new_def row_path_def row_pair_def last_node_id_def)
    then have "distinct (map row_pair (zero_rows A vars))" using assms(2) by (simp add: distinct_map inj_on_def)
    then show ?thesis by (simp add: repetition_pattern_def distinct_map_filter)
  qed
  have zeros: "zeros_ok ?g ?start ?Z"
    unfolding zeros_ok_def
  proof (intro conjI ballI)
    fix z assume "z \<in> set ?Z"
    from Z [OF this] obtain n where n: "row_first z = Some n" "row_pair z = (n, n)" "row_len z = 0" "?S z" by blast
    have "\<forall>s \<in> set ?g. row_first s = Some n \<longrightarrow> s \<in> set ?start"
      using n(1,4) by (auto simp: starts_in_seeds_def starts_in_def split: option.splits)
    then show "row_len z = 0" "\<exists>n. row_pair z = (n, n) \<and> (\<forall>s \<in> set ?g. row_first s = Some n \<longrightarrow> s \<in> set ?start)" using n by blast+
  qed (rule distinct)
  have rep: "?rep (Suc k) = (next_level ?g ^^ k) ?start" for k
    using seeds_level [OF g, of ?g seeds k] g by (simp add: repetition_pattern_def steps_ok_def)
  have reps: "concat (map ?rep [lb..<Suc n]) = ?Z @ levels_to ?g ?start n" for n
  proof -
    have "[lb..<Suc n] = (if lb = 0 then [0] else []) @ map Suc [0..<n]"
      using assms(3) by (auto simp: map_Suc_upt upt_conv_Cons le_Suc_eq simp del: upt_Suc)
    then show ?thesis by (simp add: rep levels_to_def comp_def del: upt_Suc)
  qed
  have budget: "budget_inv groups cnt ?b ?Z"
    using admit_zero_budget [OF assms(4), of ?Z "[]"] Z distinct budget_empty by (simp split: if_splits)
  show ?thesis
  proof (cases "?g = []")
    case True
    have "final_state A ?g ?start groups cnt ?Z [] {#}" by (simp add: final_state_def True next_level_def)
    from shortest_ofI [OF g _ zeros this _ assms(3) reps, of ?b] have "shortest_of groups cnt ?rep lb ?Z"
      using budget by simp
    moreover have "repetition_shortest A vars inner lb cnt groups 0 seeds = Some ?Z"
      by (simp add: repetition_shortest_def Let_def True take_limit_def)
    ultimately show ?thesis by blast
  next
    case False
    obtain seq h where push: "push_rows 1 ?start (0, []) = (seq, h)" by (cases "push_rows 1 ?start (0, [])")
    have "heap_ok A []" by (simp add: heap_ok_def)
    from push_rows_spec [OF this, of ?start 1 0] obtain K where h: "heap_ok A h" "mset h = K" "image_mset se_row K = mset ?start"
      using g push by (auto simp: steps_ok_def)
    have short: "\<forall>a \<in> set (?Z @ []). \<forall>e \<in> set h. row_len a \<le> se_len e"
    proof (intro ballI)
      fix a e assume "a \<in> set (?Z @ [])"
      then have "row_len a = 0" using Z [of a] by auto
      then show "row_len a \<le> se_len e" by simp
    qed
    have "search_inv A ?g ?start groups cnt ?Z h ?b [] {#}"
      unfolding search_inv_def using h budget short by (simp add: next_level_def)
    from shortest_loop_ends [OF g assms(3) this, of seq] obtain Adm Rej b' where
      loop: "shortest_loop ?g lb cnt groups 0 (seq, h) ?b (?Z @ []) = Some (?Z @ Adm)"
      and inv: "search_inv A ?g ?start groups cnt ?Z [] b' Adm Rej" by blast
    from inv have "final_state A ?g ?start groups cnt ?Z Adm Rej" "budget_inv groups cnt b' (?Z @ Adm)"
      by (simp_all add: search_inv_def final_state_def)
    from shortest_ofI [OF g _ zeros this assms(3) reps] have "shortest_of groups cnt ?rep lb (?Z @ Adm)" by auto
    moreover have "repetition_shortest A vars inner lb cnt groups 0 seeds = Some (?Z @ Adm)"
      using loop unfolding repetition_shortest_def Let_def if_not_P [OF False] push by (simp add: take_limit_def)
    ultimately show ?thesis by blast
  qed
qed

end
