(* ===== verification/MemEvaluation.thy ===== *)
theory MemEvaluation
  imports Evaluation ShortestSearch
begin

text \<open>
  The in-memory store as the graph the evaluator runs on: the interpretation of the store
  contracts, and the theorems of the evaluator over it.
\<close>

section \<open>The provider\<close>

definition all_labelled :: "mem_graph \<Rightarrow> bool" where
  "all_labelled G \<longleftrightarrow> list_all (\<lambda>i. labelled (mg_node_label G i)) (mg_nodes G)
     \<and> list_all (\<lambda>e. labelled (mg_edge_label G e)) (mg_edges_directed G @ mg_edges_undirected G)"

lemma mem_labelled_store: "graph_wf G \<Longrightarrow> no_new_loops G \<Longrightarrow> all_labelled G \<Longrightarrow> labelled_store (mem_access G)"
  using mem_graph_store [of G]
  by (intro labelled_store.intro labelled_store_axioms.intro)
    (auto simp: mem_access_def all_labelled_def list_all_iff)

locale mem_store =
  fixes G :: mem_graph
  assumes wf: "graph_wf G" and loops: "no_new_loops G" and labels: "all_labelled G"

sublocale mem_store \<subseteq> labelled_store "mem_access G"
  by (rule mem_labelled_store [OF wf loops labels])

text \<open>Two cities, a road between them and a railway.\<close>

definition city_graph :: mem_graph where
  "city_graph = from_raw [''a'', ''b''] [LLabel ''City'', LLabel ''City''] [[], []] [''e'', ''f'']
     [LLabel ''Road'', LLabel ''Rail''] [[], []] [0, 0] [1, 1] [True, False]"

lemma city_graph_wf: "graph_wf city_graph"
  unfolding city_graph_def by (rule from_raw_wf) (simp add: raw_ok_def)

lemma city_graph_labelled: "no_new_loops city_graph" "all_labelled city_graph"
  by code_simp+

interpretation city: mem_store city_graph
  by unfold_locales (rule city_graph_wf city_graph_labelled)+

section \<open>The theorems\<close>

text \<open>The operators that are tried first decline.\<close>

definition unaccelerated :: "'e runtime \<Rightarrow> bool" where
  "unaccelerated rt \<longleftrightarrow> rt_try_ltj rt = (\<lambda>_ _. None) \<and> rt_try_ltj_mixed rt = (\<lambda>_ _. None) \<and> rt_try_bfs rt = (\<lambda>_ _ _. None)"

lemma unaccelerated_accelerated: "unaccelerated rt \<Longrightarrow> accelerated rt"
  by (simp add: unaccelerated_def accelerated_def)

text \<open>
  C5: On a plain pattern (an unbounded repetition only under a mode that bounds it, no path
  selection beyond a mode, no optional operand of a join) over a well-formed in-memory store
  whose elements are labelled and whose session has inserted no undirected loop, with no
  variable pinned by an outer row, the evaluator returns. Its label-index scans, adjacency
  expansion, seeded repetition, incremental levels, hash joins and limits give exactly the
  rows of the reference that scans the whole graph in nested loops, or at least as many of
  them as the limit asks for. The theorem is about runs in which the worst-case-optimal join
  and the breadth-first search decline.
\<close>

theorem evaluator_rows:
  assumes "graph_wf G" "no_new_loops G" "all_labelled G"
    and "rt_graph rt = mem_access G" "rt_pins rt = []" "picks rt" "unaccelerated rt" "plain pol p"
  shows "\<exists>rows. run_path_pattern rt pol p limit = Some rows \<and> mset rows \<subseteq># mset (spec_rows rt pol p)
    \<and> (mset rows = mset (spec_rows rt pol p) \<or> 0 < limit \<and> limit \<le> length rows)"
proof -
  have "labelled_store (mem_access G)" using assms(1-3) by (rule mem_labelled_store)
  from labelled_store.evaluator_cut [OF this assms(4-6) unaccelerated_accelerated [OF assms(7)] assms(8)]
  show ?thesis by (simp add: cut_def same_rows_def)
qed

text \<open>
  C11: Every path of every row that the evaluator returns for a plain pattern, whatever the
  limit, is a walk of the graph: it starts and ends at live nodes, alternates nodes and edges,
  and each edge is a live edge of the kind the path says between its two neighbours. As for
  the rows themselves, the store is well-formed, its elements are labelled and its session has
  inserted no undirected loop, no variable is pinned by an outer row, and the
  worst-case-optimal join and the breadth-first search decline.
\<close>

theorem evaluator_walks:
  assumes "graph_wf G" "no_new_loops G" "all_labelled G"
    and "rt_graph rt = mem_access G" "rt_pins rt = []" "picks rt" "unaccelerated rt" "plain pol p"
    and "run_path_pattern rt pol p limit = Some rows" "r \<in> set rows"
  shows "row_paths r \<noteq> [] \<and> list_all (is_walk (mem_access G)) (row_paths r)"
proof -
  have store: "labelled_store (mem_access G)" using assms(1-3) by (rule mem_labelled_store)
  have "\<exists>rs. run_path_pattern rt pol p limit = Some rs \<and> cut limit rs (spec_rows rt pol p)"
    by (rule labelled_store.evaluator_cut [OF store assms(4-6) unaccelerated_accelerated [OF assms(7)] assms(8)])
  then have "set rows \<subseteq> set (spec_rows rt pol p)" using assms(9) by (auto dest: cut_set)
  then have "row_inv (mem_access G) r"
    using graph_store.spec_rows_inv [OF labelled_store.axioms(1) [OF store] assms(4)] assms(10) by blast
  then show ?thesis by (simp add: row_inv_def)
qed

text \<open>
  C17: The incremental evaluator of a bounded repetition (levels built once and shared, a
  length-zero baseline, an early stop at the limit) returns, row for row and in the same
  order, what evaluating each number of repetitions from the start and concatenating the
  results would return, truncated at the limit.
\<close>

theorem repetition_incremental:
  "repetition_range A vars (Some inner) lb ub limit
    = Some (take_limit limit (concat (map (repetition_pattern A vars inner) [lb..<Suc ub])))"
  by (rule repetition_range_eq)

text \<open>
  C6: The search of an unbounded repetition under TRAIL, SIMPLE or ACYCLIC terminates on any
  graph whose inner rows are walks with at least one edge. Its worklist, which prunes every
  row that breaks the mode as soon as it appears, gives exactly the rows of the reference that
  start at a seed, or enough of them for the limit. The reference takes every number of
  repetitions from the lower bound to the number of elements of the graph and keeps the rows
  that satisfy the mode; it misses none, since a row of any number of repetitions that
  satisfies the mode has at least as many edges as repetitions and at most as many edges as
  the graph has elements.
\<close>

theorem mode_search_rows:
  assumes "steps_ok A (rows_to_group inner)" "mode \<noteq> Walk"
  shows "(\<exists>rows. repetition_unbounded_mode A vars inner lb mode limit seeds = Some rows
      \<and> mset rows \<subseteq># mset (filter (starts_in_seeds seeds) (spec_mode A vars inner lb mode))
      \<and> (mset rows = mset (filter (starts_in_seeds seeds) (spec_mode A vars inner lb mode)) \<or> 0 < limit \<and> limit \<le> length rows))
    \<and> (\<forall>k. \<forall>r \<in> set (repetition_pattern A vars inner k). mode_ok mode r \<longrightarrow>
      k \<le> path_edge_len (row_path r) \<and> path_edge_len (row_path r) \<le> walk_bound A)"
  using repetition_unbounded_mode_cut [OF assms] mode_repetition_length [OF assms] unfolding cut_def same_rows_def by blast

text \<open>
  C7: Over an inner pattern whose rows are walks with at least one edge, from a lower bound of
  0 or 1 (the caller sends others to a mode) and for at least one path per pair, the k-shortest
  search of an unbounded repetition terminates, although a cyclic graph has infinitely many
  walks. For each pair of end nodes it finds at most \<open>cnt\<close> paths (or paths of at most \<open>cnt\<close>
  lengths), each of them a row of some number of repetitions, none more often than it is one;
  and a row of any number of repetitions is left out only when the paths kept for its pair
  are already \<open>cnt\<close> (or of \<open>cnt\<close> lengths) and none of those is longer than it. Under a limit
  the search returns the first of these rows.
\<close>

theorem shortest_search_rows:
  assumes "steps_ok A (rows_to_group inner)" "distinct (ga_nodes A)" "lb \<le> 1" "0 < cnt"
  shows "\<exists>rows. (\<forall>limit. repetition_shortest A vars inner lb cnt groups limit seeds = Some (take_limit limit rows))
    \<and> shortest_of groups cnt (\<lambda>k. filter (starts_in_seeds seeds) (repetition_pattern A vars inner k)) lb rows"
proof -
  obtain rows where "repetition_shortest A vars inner lb cnt groups 0 seeds = Some rows"
    "shortest_of groups cnt (\<lambda>k. filter (starts_in_seeds seeds) (repetition_pattern A vars inner k)) lb rows"
    using repetition_shortest_spec [OF assms] by blast
  then show ?thesis using repetition_shortest_limit by (intro exI [of _ rows]) simp
qed

section \<open>A concrete run\<close>

text \<open>Expressions are variable names, which hold when they are bound.\<close>

definition city_runtime :: "string runtime" where
  "city_runtime =
     \<lparr>rt_graph = mem_access city_graph, rt_pins = [], rt_seeded_off = False, rt_anydir_off = False,
      rt_try_ltj = (\<lambda>_ _. None), rt_try_ltj_mixed = (\<lambda>_ _. None), rt_try_bfs = (\<lambda>_ _ _. None),
      rt_holds = (\<lambda>mu x. as_get mu x \<noteq> None), rt_first = hd\<rparr>"

text \<open>\<open>(x:City)-[e]-{0,2}\<close>, kept where \<open>x\<close> is bound.\<close>

definition city_pattern :: "string path_pattern" where
  "city_pattern =
     Filter (Concat (NodeP (Some (descriptor_new (Some ''x'') (desc_star\<lparr>dt_label := LLabel ''City''\<rparr>))))
       (Repeat (EdgeAnyDirection (Some (descriptor_var_only ''e''))) 0 (Some 2))) ''x''"

lemma city_run:
  "rt_graph city_runtime = mem_access city_graph" "rt_pins city_runtime = []" "picks city_runtime"
  "unaccelerated city_runtime" "plain Forbidden city_pattern"
  by (auto simp: city_runtime_def picks_def unaccelerated_def city_pattern_def intro: hd_in_set)

lemma city_rows: "length (spec_rows city_runtime Forbidden city_pattern) = 14" "length (the (run_path_pattern city_runtime Forbidden city_pattern 3)) = 3"
  by code_simp+

theorem evaluator_rows_witness:
  "\<exists>rows. run_path_pattern city_runtime Forbidden city_pattern 0 = Some rows \<and> length rows = 14"
proof -
  obtain rows where "run_path_pattern city_runtime Forbidden city_pattern 0 = Some rows"
    "mset rows = mset (spec_rows city_runtime Forbidden city_pattern)"
    using evaluator_rows [OF city_graph_wf city_graph_labelled city_run, of 0] by blast
  then show ?thesis using city_rows(1) by (metis size_mset)
qed

theorem evaluator_walks_witness:
  "\<exists>rows. run_path_pattern city_runtime Forbidden city_pattern 3 = Some rows \<and> length rows = 3
    \<and> (\<forall>r \<in> set rows. list_all (is_walk (mem_access city_graph)) (row_paths r))"
proof (cases "run_path_pattern city_runtime Forbidden city_pattern 3")
  case (Some rows)
  then show ?thesis
    using evaluator_walks [OF city_graph_wf city_graph_labelled city_run Some] city_rows(2) by auto
next
  case None
  have "run_path_pattern city_runtime Forbidden city_pattern 3 \<noteq> None" by code_simp
  then show ?thesis using None by contradiction
qed

text \<open>The edges of the graph, in either direction.\<close>

definition city_edges :: "row list" where
  "city_edges = spec_edge (mem_access city_graph) (EdgeAnyDirection (Some (descriptor_var_only ''e'')) :: string path_pattern)"

lemma city_steps: "steps_ok (mem_access city_graph) (rows_to_group city_edges)" "distinct (ga_nodes (mem_access city_graph))"
  by code_simp+

theorem mode_search_rows_witness:
  "\<exists>rows. repetition_unbounded_mode (mem_access city_graph) [''e''] city_edges 1 Trail 0 (Some [0]) = Some rows \<and> length rows = 4"
proof -
  have "length (filter (starts_in_seeds (Some [0])) (spec_mode (mem_access city_graph) [''e''] city_edges 1 Trail)) = 4"
    by code_simp
  then show ?thesis
    using conjunct1 [OF mode_search_rows [OF city_steps(1), of Trail "[''e'']" 1 0 "Some [0]"]]
    by (metis less_irrefl path_mode.distinct(1) size_mset)
qed

theorem shortest_search_rows_witness:
  "\<exists>rows. repetition_shortest (mem_access city_graph) [''e''] city_edges 0 1 False 3 None = Some (take 3 rows)
    \<and> shortest_of False 1 (\<lambda>k. filter (starts_in_seeds None) (repetition_pattern (mem_access city_graph) [''e''] city_edges k)) 0 rows"
proof -
  obtain rows where "\<forall>limit. repetition_shortest (mem_access city_graph) [''e''] city_edges 0 1 False limit None = Some (take_limit limit rows)"
    "shortest_of False 1 (\<lambda>k. filter (starts_in_seeds None) (repetition_pattern (mem_access city_graph) [''e''] city_edges k)) 0 rows"
    using shortest_search_rows [OF city_steps le0, of 1 "[''e'']" False None] by auto
  then show ?thesis by (auto simp: take_limit_def)
qed

end
