(* ===== verification/BitVectors.thy ===== *)
theory BitVectors
  imports Prelude
begin

text \<open>
  The succinct bit vector of the compact tries (\<open>SelectBitVec\<close> of \<open>src/runtime/ltj/compact.rs\<close>):
  construction from the positions of the zeros, the tables that answer \<open>succ0\<close> in constant
  time, and \<open>select0\<close> by samples; and the bit-packed sequence of symbols (\<open>IntSeq\<close>). Both
  are shown to answer as the plain lists they represent.
\<close>

unbundle bit_operations_syntax

section \<open>Words\<close>

text \<open>\<open>count_ones\<close> and \<open>trailing_zeros\<close> of the standard library.\<close>

definition word_ones :: "u64 \<Rightarrow> nat list" where
  "word_ones w = filter (bit w) [0..<64]"

definition count_ones :: "u64 \<Rightarrow> nat" where
  "count_ones w = length (word_ones w)"

definition trailing_zeros :: "u64 \<Rightarrow> nat" where
  "trailing_zeros w = (case word_ones w of [] \<Rightarrow> 64 | i # _ \<Rightarrow> i)"

lemma word_ones_Nil: "word_ones w = [] \<longleftrightarrow> w = 0"
proof
  assume none: "word_ones w = []"
  show "w = 0"
  proof (rule bit_word_eqI)
    fix n assume "n < LENGTH(64)"
    then show "bit w n = bit (0 :: u64) n" using none by (simp add: word_ones_def filter_empty_conv)
  qed
qed (simp add: word_ones_def)

lemma sorted_word_ones: "sorted_wrt (<) (word_ones w)"
  by (simp add: word_ones_def sorted_wrt_filter)

lemma set_word_ones: "set (word_ones w) = {i. i < 64 \<and> bit w i}"
  by (auto simp: word_ones_def)

lemma bit_word_lt: "bit (w :: u64) i \<Longrightarrow> i < 64"
  using bit_imp_le_length [of w i] by simp

lemma word_ones_eqI:
  assumes "\<And>i. i < 64 \<Longrightarrow> bit w i \<longleftrightarrow> i \<in> set xs" "sorted_wrt (<) xs" "set xs \<subseteq> {..<64}"
  shows "word_ones w = xs"
proof (rule strict_sorted_equal)
  show "sorted_wrt (<) (word_ones w)" by (rule sorted_word_ones)
  show "set (word_ones w) = set xs" using assms(1,3) by (auto simp: set_word_ones)
qed (rule assms(2))

text \<open>Subtracting one clears the lowest one and sets the zeros below it.\<close>

lemma bit_clear_lowest:
  fixes w :: u64
  assumes "bit w t" "\<And>j. j < t \<Longrightarrow> \<not> bit w j"
  shows "bit (w AND (w - 1)) i \<longleftrightarrow> bit w i \<and> i \<noteq> t"
proof -
  let ?h = "unset_bit t w"
  have "w = ?h + 2 ^ t" using assms(1) by (simp add: unset_bit_eq)
  then have "w - 1 = ?h + mask t" by (simp add: mask_eq_exp_minus_1)
  also have "\<dots> = ?h OR mask t"
    using assms(2) by (intro disjunctive_add_eq_or bit_word_eqI) (auto simp: bit_simps)
  finally have "bit (w AND (w - 1)) i \<longleftrightarrow> bit w i \<and> (bit ?h i \<or> bit (mask t :: u64) i)" by (simp add: bit_simps)
  then show ?thesis using assms(2) bit_word_lt [of w i] by (auto simp: bit_simps)
qed

lemma word_ones_clear: "word_ones w = i # ks \<Longrightarrow> word_ones (w AND (w - 1)) = ks"
proof -
  assume ones: "word_ones w = i # ks"
  have i: "bit w i" "i \<notin> set ks" using set_word_ones [of w] sorted_word_ones [of w] ones by auto
  have low: "\<not> bit w j" if "j < i" for j
  proof
    assume "bit w j"
    then have "j \<in> set (i # ks)" using set_word_ones [of w] bit_word_lt ones by auto
    then show False using sorted_word_ones [of w] ones that by auto
  qed
  show "word_ones (w AND (w - 1)) = ks"
    using bit_clear_lowest [OF i(1) low] i(2) sorted_word_ones [of w] ones set_word_ones [of w] by (intro word_ones_eqI) auto
qed

section \<open>The bit vector\<close>

definition SAMPLE :: nat where
  "SAMPLE = 512"

definition SUCC_W :: nat where
  "SUCC_W = 64"

definition SUCC_W2 :: nat where
  "SUCC_W2 = 4096"

record select_bv =
  bv_words :: "u64 list"
  bv_len :: nat
  bv_samples :: "u32 list"
  bv_num_zeros :: nat
  bv_succ_basic :: "u16 list"
  bv_succ_super :: "u64 list"

definition succ_step :: "u64 list \<Rightarrow> nat \<Rightarrow> nat \<times> u16 list \<times> u64 list \<Rightarrow> nat \<times> u16 list \<times> u64 list" where
  "succ_step words i st =
     (case st of (succ, basic, supr) \<Rightarrow>
        let d = NOT (words ! i);
            succ = (if d \<noteq> 0 then i * SUCC_W + trailing_zeros d else succ);
            basic = basic[i - 1 := word_of_nat (min (succ - (i * SUCC_W - 1)) SUCC_W2)];
            supr = (if i mod SUCC_W = 0 then supr[i div SUCC_W - 1 := word_of_nat succ] else supr)
        in (succ, basic, supr))"

definition build_succ_tables :: "u64 list \<Rightarrow> nat \<Rightarrow> u16 list \<times> u64 list" where
  "build_succ_tables words len =
     (let n_basic = length words; n_super = (n_basic + SUCC_W - 1) div SUCC_W
      in snd (fold (succ_step words) (rev [1..<n_basic]) (len, replicate (max n_basic 1) 0, replicate (max n_super 1) 0)))"

fun every_nth :: "nat \<Rightarrow> nat \<Rightarrow> 'a list \<Rightarrow> 'a list" where
  "every_nth k n [] = []"
| "every_nth k 0 (x # xs) = x # every_nth k (k - 1) xs"
| "every_nth k (Suc n) (x # xs) = every_nth k n xs"

text \<open>\<open>None\<close> is the failing assertion.\<close>

definition from_zero_positions :: "nat \<Rightarrow> u32 list \<Rightarrow> select_bv option" where
  "from_zero_positions len zs =
     (if 2 ^ 32 - 1 \<le> len then None
      else
        let n_words = (len + 63) div 64;
            words = fold (\<lambda>p words. words[unat p div 64 := words ! (unat p div 64) AND NOT (push_bit (unat p mod 64) 1)])
              zs (replicate n_words (- 1));
            (basic, supr) = build_succ_tables words len
        in Some \<lparr>bv_words = words, bv_len = len, bv_samples = every_nth SAMPLE 0 zs, bv_num_zeros = length zs,
                 bv_succ_basic = basic, bv_succ_super = supr\<rparr>)"

fun clear_low :: "nat \<Rightarrow> u64 \<Rightarrow> u64" where
  "clear_low 0 w = w"
| "clear_low (Suc n) w = clear_low n (w AND (w - 1))"

text \<open>The scan over the words; \<open>None\<close> is an index out of range.\<close>

function select_scan :: "u64 list \<Rightarrow> nat \<Rightarrow> u64 \<Rightarrow> nat \<Rightarrow> nat option" where
  "select_scan words wi w remaining =
     (let cnt = count_ones w
      in if remaining \<le> cnt then Some (wi * 64 + trailing_zeros (clear_low (remaining - 1) w))
         else if Suc wi < length words then select_scan words (Suc wi) (NOT (words ! Suc wi)) (remaining - cnt)
         else None)"
  by pat_completeness auto
termination by (relation "measure (\<lambda>(words, wi, _, _). length words - wi)") auto

declare select_scan.simps [simp del]

definition select0 :: "select_bv \<Rightarrow> nat \<Rightarrow> nat option" where
  "select0 bv k =
     (let s = (k - 1) div SAMPLE
      in if length (bv_samples bv) \<le> s then None
         else
           let pos = unat (bv_samples bv ! s); remaining = k - (s * SAMPLE + 1)
           in if remaining = 0 then Some pos
              else
                let wi = (pos + 1) div 64
                in if length (bv_words bv) \<le> wi then None
                   else select_scan (bv_words bv) wi (NOT (bv_words bv ! wi) AND push_bit ((pos + 1) mod 64) (- 1)) remaining)"

definition succ0 :: "select_bv \<Rightarrow> nat \<Rightarrow> nat" where
  "succ0 bv i =
     (if bv_len bv \<le> i then bv_len bv
      else
        let b = i div SUCC_W;
            w = NOT (bv_words bv ! b) AND push_bit (i mod SUCC_W) (- 1)
        in if w \<noteq> 0 then min (b * SUCC_W + trailing_zeros w) (bv_len bv)
           else if length (bv_words bv) \<le> b + 1 then bv_len bv
           else
             let bb = unat (bv_succ_basic bv ! b)
             in if bb < SUCC_W2 then min ((b + 1) * SUCC_W - 1 + bb) (bv_len bv)
                else min (unat (bv_succ_super bv ! (i div SUCC_W2))) (bv_len bv))"

section \<open>The zeros of a bit vector\<close>

definition zero_at :: "u64 list \<Rightarrow> nat \<Rightarrow> bool" where
  "zero_at words j \<longleftrightarrow> \<not> bit (words ! (j div 64)) (j mod 64)"

definition zeros_from :: "u64 list \<Rightarrow> nat \<Rightarrow> nat list" where
  "zeros_from words i = filter (zero_at words) [i..<64 * length words]"

definition next_zero :: "nat \<Rightarrow> nat list \<Rightarrow> nat" where
  "next_zero len zs = (case zs of [] \<Rightarrow> len | z # _ \<Rightarrow> z)"

lemma word_zeros:
  assumes "r < 64" "b < length words"
  shows "filter (zero_at words) [64 * b + r..<64 * b + 64] = map ((+) (64 * b)) (word_ones (NOT (words ! b) AND push_bit r (- 1)))"
proof -
  have "[64 * b + r..<64 * b + 64] = map ((+) (64 * b)) [r..<64]" by (rule nth_equalityI) auto
  moreover have "filter (zero_at words) (map ((+) (64 * b)) [r..<64]) = map ((+) (64 * b)) (filter (\<lambda>j. zero_at words (64 * b + j)) [r..<64])"
    by (simp add: filter_map comp_def)
  moreover have "zero_at words (64 * b + j) \<longleftrightarrow> \<not> bit (words ! b) j" if "j < 64" for j using that by (simp add: zero_at_def)
  then have "filter (\<lambda>j. zero_at words (64 * b + j)) [r..<64] = filter (\<lambda>j. \<not> bit (words ! b) j) [r..<64]"
    by (intro filter_cong) auto
  moreover have "word_ones (NOT (words ! b) AND push_bit r (- 1)) = filter (\<lambda>j. \<not> bit (words ! b) j) [r..<64]"
    by (rule word_ones_eqI) (auto simp: bit_simps sorted_wrt_filter)
  ultimately show ?thesis by simp
qed

lemma zeros_from_split:
  assumes "r < 64" "b < length words"
  shows "zeros_from words (64 * b + r)
    = map ((+) (64 * b)) (word_ones (NOT (words ! b) AND push_bit r (- 1))) @ zeros_from words (64 * (b + 1))"
proof -
  have "[64 * b + r..<64 * length words] = [64 * b + r..<64 * b + 64] @ [64 * b + 64..<64 * length words]"
    using assms upt_add_eq_append [of "64 * b + r" "64 * b + 64" "64 * length words - (64 * b + 64)"] by simp
  then show ?thesis unfolding zeros_from_def by (simp only: filter_append word_zeros [OF assms]) (simp add: ac_simps)
qed

lemma zeros_from_word: "b < length words \<Longrightarrow>
    zeros_from words (64 * b) = map ((+) (64 * b)) (word_ones (NOT (words ! b))) @ zeros_from words (64 * (b + 1))"
  using zeros_from_split [of 0 b words] by simp

lemma zeros_from_end: "length words \<le> b \<Longrightarrow> zeros_from words (64 * b) = []"
  by (simp add: zeros_from_def)

lemma next_zero_map: "w \<noteq> 0 \<Longrightarrow> next_zero len (map ((+) k) (word_ones w) @ zs) = k + trailing_zeros w"
  using word_ones_Nil [of w] by (cases "word_ones w") (auto simp: next_zero_def trailing_zeros_def)

lemma zeros_from_ge: "z \<in> set (zeros_from words i) \<Longrightarrow> i \<le> z"
  by (simp add: zeros_from_def)

text \<open>All zeros lie below the length.\<close>

definition zeros_below :: "u64 list \<Rightarrow> nat \<Rightarrow> bool" where
  "zeros_below words len \<longleftrightarrow> len \<le> 64 * length words \<and> 64 * length words < len + 64 \<and> (\<forall>z \<in> set (zeros_from words 0). z < len)"

lemma next_zero_le: "zeros_below words len \<Longrightarrow> next_zero len (zeros_from words i) \<le> len"
proof -
  assume "zeros_below words len"
  then have "\<forall>z \<in> set (zeros_from words i). z < len" by (simp add: zeros_below_def zeros_from_def)
  then show ?thesis by (auto simp: next_zero_def split: list.split)
qed

lemma next_zero_ge: "zeros_below words len \<Longrightarrow> i \<le> len \<Longrightarrow> i \<le> next_zero len (zeros_from words i)"
  using zeros_from_ge [of _ words i] by (auto simp: next_zero_def split: list.split)

lemma zeros_from_skip: "i \<le> j \<Longrightarrow> \<forall>z \<in> set (zeros_from words i). j \<le> z \<Longrightarrow> zeros_from words j = zeros_from words i"
proof -
  assume "i \<le> j" and all: "\<forall>z \<in> set (zeros_from words i). j \<le> z"
  then have "zeros_from words j = filter (\<lambda>z. j \<le> z) (zeros_from words i)"
    unfolding zeros_from_def filter_filter
    by (intro strict_sorted_equal) (auto simp: sorted_wrt_filter)
  then show ?thesis using all by (simp add: filter_id_conv)
qed

lemma next_zero_skip:
  assumes "zeros_below words len" "i \<le> j" "j \<le> next_zero len (zeros_from words i)"
  shows "next_zero len (zeros_from words j) = next_zero len (zeros_from words i)"
proof (cases "zeros_from words i")
  case Nil
  then have "zeros_from words j = zeros_from words i" using assms(2) by (intro zeros_from_skip) simp_all
  then show ?thesis by simp
next
  case (Cons z zs)
  have "sorted_wrt (<) (zeros_from words i)" by (simp add: zeros_from_def sorted_wrt_filter)
  then have "\<forall>y \<in> set (zeros_from words i). z \<le> y" using Cons by (auto intro: less_imp_le)
  then have "\<forall>y \<in> set (zeros_from words i). j \<le> y" using assms(3) Cons by (auto simp: next_zero_def intro: order.trans)
  then show ?thesis using zeros_from_skip [OF assms(2)] by simp
qed

section \<open>The tables\<close>

text \<open>The state of the backward pass before it visits word \<open>i - 1\<close>.\<close>

definition tables_ok :: "u64 list \<Rightarrow> nat \<Rightarrow> nat \<Rightarrow> nat \<times> u16 list \<times> u64 list \<Rightarrow> bool" where
  "tables_ok words len i st \<longleftrightarrow>
     (case st of (succ, basic, supr) \<Rightarrow>
        succ = next_zero len (zeros_from words (64 * i))
        \<and> length basic = max (length words) 1 \<and> length supr = max ((length words + 63) div 64) 1
        \<and> (\<forall>b. i \<le> b + 1 \<longrightarrow> b + 1 < length words \<longrightarrow>
             unat (basic ! b) = min (next_zero len (zeros_from words (64 * (b + 1))) - (64 * (b + 1) - 1)) 4096)
        \<and> (\<forall>m. i \<le> 64 * (m + 1) \<longrightarrow> 64 * (m + 1) < length words \<longrightarrow>
             unat (supr ! m) = next_zero len (zeros_from words (4096 * (m + 1)))))"

lemma succ_step_ok:
  assumes "zeros_below words len" "len < 2 ^ 32" "0 < i" "i < length words" "tables_ok words len (Suc i) st"
  shows "tables_ok words len i (succ_step words i st)"
proof -
  obtain succ basic supr where st: "st = (succ, basic, supr)" by (cases st)
  define succ' where "succ' = (if NOT (words ! i) \<noteq> 0 then i * 64 + trailing_zeros (NOT (words ! i)) else succ)"
  have old: "succ = next_zero len (zeros_from words (64 * (i + 1)))" using assms(5) st by (simp add: tables_ok_def)
  have new: "succ' = next_zero len (zeros_from words (64 * i))"
  proof (cases "NOT (words ! i) = 0")
    case True
    then have "word_ones (NOT (words ! i)) = []" using word_ones_Nil by blast
    then show ?thesis using True old zeros_from_word [OF assms(4)] by (simp add: succ'_def)
  next
    case False
    then show ?thesis using zeros_from_word [OF assms(4)] next_zero_map [OF False] by (simp add: succ'_def)
  qed
  have small: "succ' < 2 ^ 32" using next_zero_le [OF assms(1), of "64 * i"] new assms(2) by simp
  let ?basic = "basic[i - 1 := word_of_nat (min (succ' - (i * 64 - 1)) 4096)]"
  let ?supr = "if i mod 64 = 0 then supr[i div 64 - 1 := word_of_nat succ'] else supr"
  have step: "succ_step words i st = (succ', ?basic, ?supr)"
    by (simp add: st succ_step_def Let_def succ'_def SUCC_W_def SUCC_W2_def)
  have "unat (?basic ! b) = min (next_zero len (zeros_from words (64 * (b + 1))) - (64 * (b + 1) - 1)) 4096"
    if "i \<le> b + 1" "b + 1 < length words" for b
  proof (cases "b = i - 1")
    case True
    then have "b + 1 = i" using assms(3) by simp
    moreover have "unat (word_of_nat (min (succ' - (i * 64 - 1)) 4096) :: u16) = min (succ' - (i * 64 - 1)) 4096"
      by (simp add: unat_of_nat take_bit_nat_eq_self)
    moreover have "b < length basic" using assms(5) st that by (simp add: tables_ok_def)
    ultimately show ?thesis using True new by (simp add: mult.commute)
  next
    case False
    then show ?thesis using assms(5) st that by (simp add: tables_ok_def)
  qed
  moreover have "unat (?supr ! m) = next_zero len (zeros_from words (4096 * (m + 1)))"
    if "i \<le> 64 * (m + 1)" "64 * (m + 1) < length words" for m
  proof (cases "i = 64 * (m + 1)")
    case True
    have "length words \<le> 64 * ((length words + 63) div 64)" by simp
    then have "m < length supr" using that(2) assms(5) st by (simp add: tables_ok_def)
    moreover have "unat (word_of_nat succ' :: u64) = succ'" using small by (simp add: unat_of_nat take_bit_nat_eq_self)
    ultimately show ?thesis using True new by simp
  next
    case False
    have "i div 64 - 1 \<noteq> m" if "i mod 64 = 0"
    proof
      assume "i div 64 - 1 = m"
      moreover have "0 < i div 64" using \<open>i mod 64 = 0\<close> assms(3) by (metis mod_eq_self_iff_div_eq_0 neq0_conv)
      ultimately have "i = 64 * (m + 1)" using \<open>i mod 64 = 0\<close> by (metis Suc_diff_1 Suc_eq_plus1 mult_div_mod_eq add.right_neutral)
      then show False using False by simp
    qed
    then have "?supr ! m = supr ! m" by simp
    then show ?thesis using assms(5) st that False by (simp add: tables_ok_def)
  qed
  ultimately show ?thesis
    using new assms(5) st unfolding step by (simp add: tables_ok_def)
qed

lemma build_succ_tables_ok:
  assumes "zeros_below words len" "len < 2 ^ 32" "build_succ_tables words len = (basic, supr)"
  shows "\<exists>succ. tables_ok words len 1 (succ, basic, supr)"
proof -
  let ?init = "(len, replicate (max (length words) 1) 0, replicate (max ((length words + 63) div 64) 1) 0)"
  have run: "tables_ok words len (max 1 (length words - k)) (fold (succ_step words) (take k (rev [1..<length words])) ?init)"
    if "k \<le> length words - 1" for k
    using that
  proof (induction k)
    case 0
    have "next_zero len (zeros_from words (64 * max 1 (length words))) = len"
      using zeros_from_end [of words "max 1 (length words)"] by (simp add: next_zero_def)
    then show ?case by (simp add: tables_ok_def)
  next
    case (Suc k)
    let ?i = "length words - Suc k"
    have "take (Suc k) (rev [1..<length words]) = take k (rev [1..<length words]) @ [?i]"
      using Suc.prems by (simp add: take_Suc_conv_app_nth rev_nth)
    moreover have "max 1 (length words - k) = Suc ?i" "max 1 ?i = ?i" using Suc.prems by simp_all
    ultimately show ?case using succ_step_ok [OF assms(1,2), of ?i] Suc by simp
  qed
  have "max 1 (length words - (length words - 1)) = 1" by simp
  then have "tables_ok words len 1 (fold (succ_step words) (rev [1..<length words]) ?init)"
    using run [of "length words - 1"] by simp
  moreover have "(basic, supr) = snd (fold (succ_step words) (rev [1..<length words]) ?init)"
    using assms(3) by (simp add: build_succ_tables_def Let_def SUCC_W_def add.commute)
  ultimately show ?thesis by (metis prod.collapse)
qed

section \<open>What the vector answers\<close>

text \<open>A vector of length \<open>len\<close> whose zeros are the positions \<open>zs\<close>.\<close>

definition bv_ok :: "select_bv \<Rightarrow> nat list \<Rightarrow> bool" where
  "bv_ok bv zs \<longleftrightarrow>
     zeros_below (bv_words bv) (bv_len bv) \<and> bv_len bv < 2 ^ 32 - 1 \<and> zeros_from (bv_words bv) 0 = zs
     \<and> bv_num_zeros bv = length zs
     \<and> map unat (bv_samples bv) = every_nth SAMPLE 0 zs
     \<and> (bv_succ_basic bv, bv_succ_super bv) = build_succ_tables (bv_words bv) (bv_len bv)"

lemma zeros_from_filter: "zeros_from words i = filter (\<lambda>z. i \<le> z) (zeros_from words 0)"
  unfolding zeros_from_def filter_filter by (intro strict_sorted_equal) (auto simp: sorted_wrt_filter)

theorem succ0_next:
  assumes "bv_ok bv zs"
  shows "succ0 bv i = next_zero (bv_len bv) (filter (\<lambda>z. i \<le> z) zs)"
proof -
  let ?words = "bv_words bv" and ?len = "bv_len bv"
  have below: "zeros_below ?words ?len" and len: "?len < 2 ^ 32" and all: "zeros_from ?words 0 = zs"
    using assms by (simp_all add: bv_ok_def)
  have zs: "filter (\<lambda>z. j \<le> z) zs = zeros_from ?words j" for j
    unfolding zeros_from_filter [of ?words j] all ..
  obtain succ where tables: "tables_ok ?words ?len 1 (succ, bv_succ_basic bv, bv_succ_super bv)"
  proof -
    have "build_succ_tables ?words ?len = (bv_succ_basic bv, bv_succ_super bv)" using assms by (simp add: bv_ok_def)
    from build_succ_tables_ok [OF below len this] that show ?thesis by blast
  qed
  show ?thesis
  proof (cases "?len \<le> i")
    case True
    then have "zeros_from ?words i = []"
      using below unfolding zeros_from_filter [of ?words i] by (auto simp: zeros_below_def filter_empty_conv)
    then show ?thesis using True by (simp add: succ0_def zs next_zero_def)
  next
    case False
    let ?b = "i div 64" and ?r = "i mod 64"
    let ?w = "NOT (?words ! ?b) AND push_bit ?r (- 1)"
    have b: "?b < length ?words" using False below by (auto simp: zeros_below_def)
    have i: "64 * ?b + ?r = i" by simp
    have split: "zeros_from ?words i = map ((+) (64 * ?b)) (word_ones ?w) @ zeros_from ?words (64 * (?b + 1))"
      using zeros_from_split [OF _ b, of ?r] unfolding i by simp
    have le: "next_zero ?len (zeros_from ?words j) \<le> ?len" for j by (rule next_zero_le [OF below])
    show ?thesis
    proof (cases "?w = 0")
      case w: False
      then have "next_zero ?len (zeros_from ?words i) = ?b * 64 + trailing_zeros ?w"
        using next_zero_map [OF w] split by (simp add: mult.commute)
      then show ?thesis using False w le [of i] by (simp add: succ0_def zs SUCC_W_def Let_def)
    next
      case True
      then have "word_ones ?w = []" using word_ones_Nil by blast
      then have next_word: "zeros_from ?words i = zeros_from ?words (64 * (?b + 1))" using split by simp
      show ?thesis
      proof (cases "length ?words \<le> ?b + 1")
        case fin: True
        then have "next_zero ?len (zeros_from ?words i) = ?len"
          unfolding next_word zeros_from_end [OF fin] by (simp add: next_zero_def)
        then show ?thesis using False True fin by (simp add: succ0_def zs SUCC_W_def Let_def)
      next
        case more: False
        let ?n = "next_zero ?len (zeros_from ?words (64 * (?b + 1)))"
        have basic: "unat (bv_succ_basic bv ! ?b) = min (?n - (64 * (?b + 1) - 1)) 4096"
          using tables more by (simp add: tables_ok_def)
        have "64 * (?b + 1) \<le> ?len" using below more by (simp add: zeros_below_def)
        then have ge: "64 * (?b + 1) \<le> ?n" by (rule next_zero_ge [OF below])
        show ?thesis
        proof (cases "unat (bv_succ_basic bv ! ?b) < 4096")
          case small: True
          then have "(?b + 1) * 64 - 1 + unat (bv_succ_basic bv ! ?b) = ?n" using basic ge by (simp add: mult.commute)
          then show ?thesis using False True more small le [of "64 * (?b + 1)"] next_word
            by (simp add: succ0_def zs SUCC_W_def SUCC_W2_def Let_def)
        next
          case far: False
          let ?m = "i div 4096"
          have far': "64 * (?b + 1) - 1 + 4096 \<le> ?n" using far basic ge by simp
          have blocks: "64 * (?b + 1) \<le> 4096 * (?m + 1)" "4096 * ?m \<le> 64 * ?b"
          proof -
            have "?m = ?b div 64" by (simp add: div_mult2_eq [symmetric])
            then have "64 * ?m + ?b mod 64 = ?b" by simp
            moreover have "?b mod 64 < 64" by simp
            moreover have "64 * m + r = b \<Longrightarrow> r < 64 \<Longrightarrow> 64 * (b + 1) \<le> 4096 * (m + 1) \<and> 4096 * m \<le> 64 * b" for b m r :: nat
              by simp
            ultimately have "64 * (?b + 1) \<le> 4096 * (?m + 1) \<and> 4096 * ?m \<le> 64 * ?b" by blast
            then show "64 * (?b + 1) \<le> 4096 * (?m + 1)" "4096 * ?m \<le> 64 * ?b" by simp_all
          qed
          then have reach: "4096 * (?m + 1) \<le> ?n" using far' by simp
          have "64 * (64 * (?m + 1)) \<le> ?len" using reach le [of "64 * (?b + 1)"] by simp
          moreover have "64 * (64 * (?m + 1)) \<noteq> ?len" using far' le [of "64 * (?b + 1)"] blocks by simp
          ultimately have "64 * (?m + 1) < length ?words" using below by (simp add: zeros_below_def)
          then have "unat (bv_succ_super bv ! ?m) = next_zero ?len (zeros_from ?words (4096 * (?m + 1)))"
            using tables by (simp add: tables_ok_def)
          also have "\<dots> = ?n" by (rule next_zero_skip [OF below blocks(1) reach])
          finally show ?thesis using False True more far le [of "64 * (?b + 1)"] next_word
            by (simp add: succ0_def zs SUCC_W_def SUCC_W2_def Let_def)
        qed
      qed
    qed
  qed
qed

text \<open>The scan of \<open>select0\<close> finds the zero with a given rank among those of its words.\<close>

lemma word_ones_clear_low: "n \<le> length (word_ones w) \<Longrightarrow> word_ones (clear_low n w) = drop n (word_ones w)"
proof (induction n arbitrary: w)
  case (Suc n)
  then obtain i ks where ones: "word_ones w = i # ks" by (cases "word_ones w") auto
  then show ?case using Suc word_ones_clear [OF ones] by simp
qed simp

lemma select_scan_nth:
  assumes "wi < length words" "0 < r"
    and "r \<le> length (map ((+) (64 * wi)) (word_ones w) @ zeros_from words (64 * (wi + 1)))"
  shows "select_scan words wi w r = Some ((map ((+) (64 * wi)) (word_ones w) @ zeros_from words (64 * (wi + 1))) ! (r - 1))"
  using assms
proof (induction words wi w r rule: select_scan.induct)
  case (1 words wi w r)
  show ?case
  proof (cases "r \<le> count_ones w")
    case True
    then have r: "r \<le> length (word_ones w)" by (simp add: count_ones_def)
    then have "word_ones (clear_low (r - 1) w) = word_ones w ! (r - 1) # drop r (word_ones w)"
      using word_ones_clear_low [of "r - 1" w] "1.prems"(2) Cons_nth_drop_Suc [of "r - 1" "word_ones w"] by simp
    then have "trailing_zeros (clear_low (r - 1) w) = word_ones w ! (r - 1)" by (simp add: trailing_zeros_def)
    moreover have "r - 1 < length (word_ones w)" using r "1.prems"(2) by simp
    ultimately show ?thesis using True by (simp add: nth_append select_scan.simps [of words wi w r] mult.commute)
  next
    case False
    then have more: "Suc wi < length words"
      using "1.prems"(3) zeros_from_end [of words "wi + 1"] by (cases "Suc wi < length words") (auto simp: count_ones_def)
    have split: "zeros_from words (64 * (wi + 1))
        = map ((+) (64 * Suc wi)) (word_ones (NOT (words ! Suc wi))) @ zeros_from words (64 * (Suc wi + 1))"
      using zeros_from_word [of "wi + 1" words] more by simp
    have "select_scan words wi w r = select_scan words (Suc wi) (NOT (words ! Suc wi)) (r - count_ones w)"
      using False more by (simp add: select_scan.simps [of words wi w r])
    also have "\<dots> = Some (zeros_from words (64 * (wi + 1)) ! (r - count_ones w - 1))"
      using "1.IH" [OF refl False more] "1.prems" False more unfolding split by (simp add: count_ones_def)
    also have "\<dots> = Some ((map ((+) (64 * wi)) (word_ones w) @ zeros_from words (64 * (wi + 1))) ! (r - 1))"
    proof -
      have "\<not> r - 1 < length (word_ones w)" "r - count_ones w - 1 = r - 1 - length (word_ones w)"
        using False by (simp_all add: count_ones_def)
      then show ?thesis by (simp add: nth_append)
    qed
    finally show ?thesis .
  qed
qed

lemma every_nth_nth: "i < length (every_nth k j xs) \<Longrightarrow> 0 < k \<Longrightarrow> every_nth k j xs ! i = xs ! (j + i * k)"
proof (induction k j xs arbitrary: i rule: every_nth.induct)
  case (2 k x xs)
  then show ?case by (cases i) (simp_all add: nth_Cons')
qed auto

lemma length_every_nth: "0 < k \<Longrightarrow> j + s * k < length xs \<Longrightarrow> s < length (every_nth k j xs)"
proof (induction k j xs arbitrary: s rule: every_nth.induct)
  case (2 k x xs)
  then show ?case by (cases s) simp_all
qed auto

theorem select0_nth:
  assumes "bv_ok bv zs" "0 < k" "k \<le> length zs"
  shows "select0 bv k = Some (zs ! (k - 1))"
proof -
  let ?words = "bv_words bv"
  let ?s = "(k - 1) div 512"
  have all: "zeros_from ?words 0 = zs" using assms(1) by (simp add: bv_ok_def)
  have rank: "?s * 512 \<le> k - 1" by simp
  have samples: "map unat (bv_samples bv) = every_nth 512 0 zs" using assms(1) by (simp add: bv_ok_def SAMPLE_def)
  have s: "?s < length (every_nth 512 0 zs)" using length_every_nth [of 512 0 ?s zs] assms(2,3) rank by simp
  then have s': "?s < length (bv_samples bv)" using arg_cong [OF samples, of length] by simp
  let ?pos = "zs ! (?s * 512)" and ?r = "k - (?s * 512 + 1)"
  have pos: "unat (bv_samples bv ! ?s) = ?pos"
    using arg_cong [OF samples, of "\<lambda>xs. xs ! ?s"] s s' every_nth_nth [OF s] by simp
  show ?thesis
  proof (cases "?r = 0")
    case True
    then have "?s * 512 = k - 1" using rank assms(2) by simp
    then show ?thesis using True s' pos by (simp add: select0_def Let_def SAMPLE_def)
  next
    case False
    let ?wi = "(?pos + 1) div 64"
    let ?w = "NOT (?words ! ?wi) AND push_bit ((?pos + 1) mod 64) (- 1)"
    have sorted: "sorted_wrt (<) zs" using all by (auto simp: zeros_from_def sorted_wrt_filter)
    have lt: "?s * 512 + 1 < length zs" using False assms(3) by simp
    have after: "zeros_from ?words (?pos + 1) = drop (?s * 512 + 1) zs"
    proof (rule strict_sorted_equal)
      show "sorted_wrt (<) (drop (?s * 512 + 1) zs)" using sorted by (rule sorted_wrt_drop)
      have "z \<in> set (drop (?s * 512 + 1) zs) \<longleftrightarrow> z \<in> set zs \<and> ?pos < z" for z
      proof
        assume "z \<in> set (drop (?s * 512 + 1) zs)"
        then obtain i where "z = zs ! i" "?s * 512 < i" "i < length zs" by (auto simp: in_set_conv_nth)
        then show "z \<in> set zs \<and> ?pos < z" using sorted_wrt_nth_less [OF sorted] by simp
      next
        assume z: "z \<in> set zs \<and> ?pos < z"
        then obtain i where i: "z = zs ! i" "i < length zs" by (auto simp: in_set_conv_nth)
        have "?s * 512 < i"
        proof (rule ccontr)
          assume "\<not> ?s * 512 < i"
          then have "zs ! i \<le> ?pos" using sorted_wrt_nth_less [OF sorted, of i "?s * 512"] lt by (cases "i = ?s * 512") auto
          then show False using z i by simp
        qed
        then have "z = drop (?s * 512 + 1) zs ! (i - (?s * 512 + 1))" "i - (?s * 512 + 1) < length (drop (?s * 512 + 1) zs)"
          using i by simp_all
        then show "z \<in> set (drop (?s * 512 + 1) zs)" by (metis nth_mem)
      qed
      moreover have "set (zeros_from ?words (?pos + 1)) = {z \<in> set zs. ?pos < z}"
        unfolding zeros_from_filter [of ?words "?pos + 1"] all by auto
      ultimately show "set (zeros_from ?words (?pos + 1)) = set (drop (?s * 512 + 1) zs)" by blast
    qed (simp add: zeros_from_def sorted_wrt_filter)
    then have "zeros_from ?words (?pos + 1) \<noteq> []" using lt by simp
    then have "?pos + 1 < 64 * length ?words" by (auto simp: zeros_from_def filter_empty_conv)
    then have wi: "?wi < length ?words" by (simp add: less_mult_imp_div_less mult.commute)
    have i: "64 * ?wi + (?pos + 1) mod 64 = ?pos + 1" by (rule mult_div_mod_eq)
    have "zeros_from ?words (?pos + 1) = map ((+) (64 * ?wi)) (word_ones ?w) @ zeros_from ?words (64 * (?wi + 1))"
      using zeros_from_split [OF _ wi, of "(?pos + 1) mod 64"] unfolding i by simp
    with after have here: "map ((+) (64 * ?wi)) (word_ones ?w) @ zeros_from ?words (64 * (?wi + 1)) = drop (?s * 512 + 1) zs" by simp
    have r: "0 < ?r" "?r \<le> length (drop (?s * 512 + 1) zs)" using False assms(3) by simp_all
    from select_scan_nth [OF wi, of ?r ?w, unfolded here, OF r]
    have "select_scan ?words ?wi ?w ?r = Some (drop (?s * 512 + 1) zs ! (?r - 1))" .
    also have "\<dots> = Some (zs ! (k - 1))"
    proof -
      have "?s * 512 + 1 + (?r - 1) = k - 1" using False by simp
      then show ?thesis using lt by (simp only: nth_drop less_imp_le)
    qed
    finally show ?thesis
      unfolding select0_def Let_def SAMPLE_def using False s' pos wi by simp
  qed
qed

section \<open>Construction\<close>

lemma clear_bits:
  assumes "\<forall>p \<in> set zs. unat p < 64 * length words" "j < 64 * length words"
  shows "zero_at (fold (\<lambda>p words. words[unat p div 64 := words ! (unat p div 64) AND NOT (push_bit (unat p mod 64) 1)]) zs words) j
    \<longleftrightarrow> zero_at words j \<or> j \<in> unat ` set (zs :: u32 list)"
  using assms
proof (induction zs arbitrary: words)
  case (Cons p zs)
  let ?words = "words[unat p div 64 := words ! (unat p div 64) AND NOT (push_bit (unat p mod 64) 1)]"
  have p: "unat p div 64 < length words" using Cons.prems(1) by (simp add: less_mult_imp_div_less mult.commute)
  have "zero_at ?words j \<longleftrightarrow> zero_at words j \<or> j = unat p"
  proof (cases "j div 64 = unat p div 64")
    case True
    then have "j = unat p \<longleftrightarrow> j mod 64 = unat p mod 64" by (metis div_mult_mod_eq)
    then show ?thesis using True p by (auto simp: zero_at_def bit_simps)
  next
    case False
    then have "j \<noteq> unat p" by auto
    then show ?thesis using False by (simp add: zero_at_def)
  qed
  moreover have "zero_at (fold (\<lambda>p words. words[unat p div 64 := words ! (unat p div 64) AND NOT (push_bit (unat p mod 64) 1)]) zs ?words) j
    \<longleftrightarrow> zero_at ?words j \<or> j \<in> unat ` set zs" using Cons by (intro Cons.IH) simp_all
  ultimately show ?case by auto
qed simp

lemma length_clear_bits:
  "length (fold (\<lambda>p words. words[unat p div 64 := words ! (unat p div 64) AND NOT (push_bit (unat p mod 64) 1)]) zs words) = length words"
  by (induction zs arbitrary: words) simp_all

lemma map_every_nth: "map f (every_nth k j xs) = every_nth k j (map f xs)"
  by (induction k j xs rule: every_nth.induct) simp_all

theorem from_zero_positions_ok:
  assumes "from_zero_positions len zs = Some bv" "sorted_wrt (<) (map unat zs)" "\<forall>p \<in> set zs. unat p < len"
  shows "bv_ok bv (map unat zs)" "bv_len bv = len"
proof -
  let ?clear = "fold (\<lambda>p words. words[unat p div 64 := words ! (unat p div 64) AND NOT (push_bit (unat p mod 64) 1)]) zs"
  let ?n = "(len + 63) div 64"
  let ?words = "?clear (replicate ?n (- 1))"
  have len: "len < 2 ^ 32 - 1" using assms(1) by (simp add: from_zero_positions_def split: if_splits)
  have bv: "bv_words bv = ?words" "bv_len bv = len" "bv_samples bv = every_nth SAMPLE 0 zs" "bv_num_zeros bv = length zs"
    "(bv_succ_basic bv, bv_succ_super bv) = build_succ_tables ?words len"
    using assms(1) by (auto simp: from_zero_positions_def Let_def split: if_splits prod.splits)
  show "bv_len bv = len" by (rule bv(2))
  have n: "length ?words = ?n" unfolding length_clear_bits by simp
  have cap: "len \<le> 64 * ?n" "64 * ?n < len + 64"
  proof -
    have "64 * ?n + (len + 63) mod 64 = len + 63" by (rule mult_div_mod_eq)
    moreover have "(len + 63) mod 64 < 64" by simp
    ultimately show "len \<le> 64 * ?n" "64 * ?n < len + 64" by linarith+
  qed
  have zero: "zero_at ?words j \<longleftrightarrow> j \<in> unat ` set zs" if "j < 64 * ?n" for j
  proof -
    have "j div 64 < ?n" using that by (simp add: less_mult_imp_div_less mult.commute)
    then have "\<not> zero_at (replicate ?n (- 1)) j" by (simp add: zero_at_def)
    then show ?thesis using clear_bits [of zs "replicate ?n (- 1)" j] assms(3) cap(1) that by (auto intro: order.strict_trans2)
  qed
  have "zeros_from ?words 0 = map unat zs"
  proof (rule strict_sorted_equal)
    show "set (zeros_from ?words 0) = set (map unat zs)"
      unfolding zeros_from_def n using zero assms(3) cap(1) by (auto intro: order.strict_trans2)
  qed (use assms(2) in \<open>simp_all add: zeros_from_def sorted_wrt_filter\<close>)
  moreover have "zeros_below ?words len" unfolding zeros_below_def n using cap calculation assms(3) by simp
  ultimately show "bv_ok bv (map unat zs)" using bv len by (simp add: bv_ok_def map_every_nth)
qed

section \<open>The bit-packed sequence\<close>

record int_seq =
  is_data :: "u64 list"
  is_width :: nat
  is_len :: nat

definition leading_zeros :: "u32 \<Rightarrow> nat" where
  "leading_zeros v = length (takeWhile (\<lambda>i. \<not> bit v i) (rev [0..<32]))"

definition pack_value :: "nat \<Rightarrow> nat \<times> u32 \<Rightarrow> u64 list \<Rightarrow> u64 list" where
  "pack_value width iv dat =
     (let (i, v) = iv; b = i * width; wi = b div 64; off = b mod 64;
          dat = dat[wi := dat ! wi OR push_bit off (ucast v)]
      in if 64 < off + width then dat[wi + 1 := dat ! (wi + 1) OR drop_bit (64 - off) (ucast v)] else dat)"

definition seq_from_slice :: "u32 list \<Rightarrow> int_seq" where
  "seq_from_slice vs =
     (let mx = fold max vs 0;
          width = max (32 - leading_zeros mx) 1;
          total_bits = length vs * width
      in \<lparr>is_data = fold (pack_value width) (enumerate 0 vs) (replicate ((total_bits + 63) div 64) 0),
          is_width = width, is_len = length vs\<rparr>)"

definition seq_get :: "int_seq \<Rightarrow> nat \<Rightarrow> u32" where
  "seq_get s i =
     (let width = is_width s; b = i * width; wi = b div 64; off = b mod 64;
          v = drop_bit off (is_data s ! wi);
          v = (if 64 < off + width then v OR push_bit (64 - off) (is_data s ! (wi + 1)) else v)
      in ucast (v AND (push_bit width 1 - 1)))"

text \<open>The bits of the sequence, across the words.\<close>

definition seq_bit :: "u64 list \<Rightarrow> nat \<Rightarrow> bool" where
  "seq_bit dat n \<longleftrightarrow> bit (dat ! (n div 64)) (n mod 64)"

lemma leading_zeros_bound: "bit v i \<Longrightarrow> i < 32 - leading_zeros v" for v :: u32
proof -
  assume i: "bit v i"
  then have i32: "i < 32" using bit_imp_le_length [of v i] by simp
  have "\<not> (31 - i) < leading_zeros v"
  proof
    assume lt: "31 - i < leading_zeros v"
    then have "takeWhile (\<lambda>i. \<not> bit v i) (rev [0..<32]) ! (31 - i) \<in> set (takeWhile (\<lambda>i. \<not> bit v i) (rev [0..<32]))"
      by (simp add: leading_zeros_def)
    then have "\<not> bit v (takeWhile (\<lambda>i. \<not> bit v i) (rev [0..<32]) ! (31 - i))" by (auto dest: set_takeWhileD)
    moreover have "takeWhile (\<lambda>i. \<not> bit v i) (rev [0..<32]) ! (31 - i) = rev [0..<32] ! (31 - i)"
      using lt by (intro takeWhile_nth) (simp add: leading_zeros_def)
    moreover have "rev [0..<32] ! (31 - i) = i" using i32 by (simp add: rev_nth)
    ultimately show False using i by simp
  qed
  moreover have "leading_zeros v \<le> 32"
    using length_takeWhile_le [of "\<lambda>i. \<not> bit v i" "rev [0..<32]"] by (simp add: leading_zeros_def)
  ultimately show ?thesis using i32 by linarith
qed

lemma seq_bit_pack:
  assumes "0 < width" "width \<le> 32" "\<And>j. bit v j \<Longrightarrow> j < width" "i * width + width \<le> 64 * length dat" "n < 64 * length dat"
  shows "seq_bit (pack_value width (i, v) dat) n \<longleftrightarrow> seq_bit dat n \<or> i * width \<le> n \<and> bit v (n - i * width)"
proof -
  let ?b = "i * width"
  obtain wi off where wo: "?b div 64 = wi" "?b mod 64 = off" by blast
  have b: "64 * wi + off = ?b" and off: "off < 64" unfolding wo [symmetric] by simp_all
  have n: "64 * (n div 64) + n mod 64 = n" "n mod 64 < 64" by (rule mult_div_mod_eq) simp
  have wi: "wi < length dat" using assms(1,4) b by linarith
  have wi1: "wi + 1 < length dat" if "64 < off + width" using that assms(4) b by linarith
  let ?d1 = "dat[wi := dat ! wi OR push_bit off (ucast v)]"
  let ?d2 = "if 64 < off + width then ?d1[wi + 1 := ?d1 ! (wi + 1) OR drop_bit (64 - off) (ucast v)] else ?d1"
  have pack: "pack_value width (i, v) dat = ?d2" by (simp add: pack_value_def Let_def wo)
  consider "n div 64 = wi" | "n div 64 = wi + 1" | "n div 64 < wi" | "wi + 1 < n div 64" by linarith
  then show ?thesis
  proof cases
    case 1
    then have "?d2 ! (n div 64) = dat ! wi OR push_bit off (ucast v)" using wi by simp
    moreover have "bit (push_bit off (ucast v) :: u64) (n mod 64) \<longleftrightarrow> ?b \<le> n \<and> bit v (n - ?b)"
    proof -
      have "off \<le> n mod 64 \<longleftrightarrow> ?b \<le> n" "n mod 64 - off = n - ?b" using 1 b n by linarith+
      then show ?thesis using n(2) by (auto simp: bit_simps)
    qed
    ultimately show ?thesis unfolding pack seq_bit_def using 1 by (simp add: bit_simps)
  next
    case 2
    have ge: "?b \<le> n" using 2 b n off by linarith
    show ?thesis
    proof (cases "64 < off + width")
      case True
      have "bit (drop_bit (64 - off) (ucast v) :: u64) (n mod 64) \<longleftrightarrow> bit v (n - ?b)"
      proof -
        have "64 - off + n mod 64 = n - ?b" using 2 b n off by linarith
        then show ?thesis using assms(2) assms(3) [of "n - ?b"] by (auto simp: bit_simps)
      qed
      then show ?thesis unfolding pack seq_bit_def using 2 True wi1 [OF True] ge by (simp add: bit_simps)
    next
      case False
      then have "\<not> bit v (n - ?b)" using assms(3) [of "n - ?b"] 2 b n off by (intro notI) linarith
      then show ?thesis unfolding pack seq_bit_def using 2 False by simp
    qed
  next
    case 3
    then have "n < ?b" using b n by linarith
    then show ?thesis unfolding pack seq_bit_def using 3 by simp
  next
    case 4
    then have "\<not> bit v (n - ?b)" using assms(2) assms(3) [of "n - ?b"] b n off by (intro notI) linarith
    then show ?thesis unfolding pack seq_bit_def using 4 by simp
  qed
qed

lemma length_pack [simp]: "length (pack_value width iv dat) = length dat"
  by (simp add: pack_value_def Let_def split: prod.split)

lemma length_pack_all [simp]: "length (fold (pack_value width) ivs dat) = length dat"
  by (induction ivs arbitrary: dat) simp_all

lemma seq_bit_pack_all:
  assumes "0 < width" "width \<le> 32" "\<forall>v \<in> set vs. \<forall>j. bit v j \<longrightarrow> j < width" "(m + length vs) * width \<le> 64 * length dat"
    and "n < 64 * length dat"
  shows "seq_bit (fold (pack_value width) (enumerate m vs) dat) n
    \<longleftrightarrow> seq_bit dat n \<or> (\<exists>i < length vs. (m + i) * width \<le> n \<and> bit (vs ! i) (n - (m + i) * width))"
  using assms(3-)
proof (induction vs arbitrary: m dat)
  case (Cons v vs)
  have "m * width + width \<le> 64 * length dat"
    using Cons.prems(2) by (simp add: algebra_simps)
  then have step: "seq_bit (pack_value width (m, v) dat) n \<longleftrightarrow> seq_bit dat n \<or> m * width \<le> n \<and> bit v (n - m * width)"
    using Cons.prems by (intro seq_bit_pack [OF assms(1,2)]) auto
  have "seq_bit (fold (pack_value width) (enumerate (Suc m) vs) (pack_value width (m, v) dat)) n
    \<longleftrightarrow> seq_bit (pack_value width (m, v) dat) n \<or> (\<exists>i < length vs. (Suc m + i) * width \<le> n \<and> bit (vs ! i) (n - (Suc m + i) * width))"
    using Cons.prems by (intro Cons.IH) (simp_all add: algebra_simps)
  moreover have "(\<exists>i < length (v # vs). (m + i) * width \<le> n \<and> bit ((v # vs) ! i) (n - (m + i) * width))
    \<longleftrightarrow> m * width \<le> n \<and> bit v (n - m * width) \<or> (\<exists>i < length vs. (Suc m + i) * width \<le> n \<and> bit (vs ! i) (n - (Suc m + i) * width))"
    by (simp only: list.size One_nat_def add_Suc_right add_0_right Ex_less_Suc2 nth_Cons_0 nth_Cons_Suc add_Suc_shift)
  ultimately show ?case unfolding step by (simp only: enumerate_simps fold_simps disj_assoc)
qed simp

lemma fold_max_ge_start: "(m :: u32) \<le> fold max vs m"
proof (induction vs arbitrary: m)
  case (Cons w ws)
  show ?case using order.trans [OF max.cobounded2 [of m w] Cons.IH [of "max w m"]] by simp
qed simp

lemma fold_max_ge: "v \<in> set vs \<Longrightarrow> v \<le> fold max vs (m :: u32)"
proof (induction vs arbitrary: m)
  case (Cons w ws)
  then show ?case using order.trans [OF max.cobounded1 [of w m] fold_max_ge_start [of "max w m" ws]] by auto
qed simp

lemma bit_le_length:
  fixes v m :: u32
  assumes "v \<le> m" "bit v j"
  shows "j < 32 - leading_zeros m"
proof (rule ccontr)
  assume no: "\<not> j < 32 - leading_zeros m"
  have "take_bit j m = m"
    by (rule bit_word_eqI) (use no leading_zeros_bound [of m] in \<open>force simp: bit_take_bit_iff\<close>)
  then have "unat m = take_bit j (unat m)" by (metis unsigned_take_bit_eq)
  then have "unat m < 2 ^ j" by (metis take_bit_nat_less_exp)
  then have "unat v div 2 ^ j = 0" using assms(1) by (simp add: word_le_nat_alt)
  moreover have "bit (unat v) j" using assms(2) by (simp add: bit_unsigned_iff)
  ultimately show False by (simp add: bit_iff_odd)
qed

lemma word_position: "r < 64 \<Longrightarrow> n = 64 * w + r \<Longrightarrow> n div 64 = w \<and> n mod 64 = (r :: nat)"
  by simp

theorem seq_get_from_slice:
  assumes "i < length vs"
  shows "seq_get (seq_from_slice vs) i = vs ! i"
proof -
  define width where "width = max (32 - leading_zeros (fold max vs 0)) 1"
  let ?n = "(length vs * width + 63) div 64"
  let ?dat = "fold (pack_value width) (enumerate 0 vs) (replicate ?n 0)"
  have seq: "seq_from_slice vs = \<lparr>is_data = ?dat, is_width = width, is_len = length vs\<rparr>"
    by (simp add: seq_from_slice_def Let_def width_def)
  have width: "0 < width" "width \<le> 32" by (simp_all add: width_def)
  have small: "\<forall>v \<in> set vs. \<forall>j. bit v j \<longrightarrow> j < width"
    using bit_le_length fold_max_ge [of _ vs 0] by (fastforce simp: width_def less_max_iff_disj)
  have cap: "length vs * width \<le> 64 * ?n" by simp
  have bits: "seq_bit ?dat n \<longleftrightarrow> (\<exists>k < length vs. k * width \<le> n \<and> bit (vs ! k) (n - k * width))" if "n < 64 * ?n" for n
  proof -
    have "\<not> seq_bit (replicate ?n 0) n" using that by (simp add: seq_bit_def less_mult_imp_div_less mult.commute)
    then show ?thesis using seq_bit_pack_all [OF width small, of 0 "replicate ?n 0" n] cap that by simp
  qed
  have bits_of: "seq_bit ?dat (i * width + j) \<longleftrightarrow> bit (vs ! i) j" if j: "j < width" for j
  proof -
    have "Suc i * width \<le> length vs * width" using assms by (intro mult_le_mono1) simp
    then have top: "i * width + j < 64 * ?n" using j cap by simp
    have only: "k = i" if "k < length vs" "k * width \<le> i * width + j" "bit (vs ! k) (i * width + j - k * width)" for k
    proof (rule ccontr)
      assume "k \<noteq> i"
      have near: "i * width + j - k * width < width" using small nth_mem [OF that(1)] that(3) by blast
      show False
      proof (cases "k < i")
        case True
        then have "Suc k * width \<le> i * width" by (intro mult_le_mono1) simp
        then show False using near by simp
      next
        case False
        then have "Suc i * width \<le> k * width" using \<open>k \<noteq> i\<close> by (intro mult_le_mono1) simp
        then show False using that(2) j by simp
      qed
    qed
    show ?thesis unfolding bits [OF top]
    proof
      assume "\<exists>k < length vs. k * width \<le> i * width + j \<and> bit (vs ! k) (i * width + j - k * width)"
      then obtain k where k: "k < length vs" "k * width \<le> i * width + j" "bit (vs ! k) (i * width + j - k * width)" by blast
      then show "bit (vs ! i) j" using only [OF k] by simp
    next
      assume "bit (vs ! i) j"
      then show "\<exists>k < length vs. k * width \<le> i * width + j \<and> bit (vs ! k) (i * width + j - k * width)"
        using assms by (intro exI [of _ i]) simp
    qed
  qed
  let ?b = "i * width"
  obtain wi off where wo: "?b div 64 = wi" "?b mod 64 = off" by blast
  have b: "64 * wi + off = ?b" "off < 64" unfolding wo [symmetric] by simp_all
  have low: "bit (?dat ! wi) (off + j) \<longleftrightarrow> seq_bit ?dat (?b + j)" if "off + j < 64" for j
  proof -
    have "?b + j = 64 * wi + (off + j)" using b(1) by linarith
    from word_position [OF that this] show ?thesis by (simp only: seq_bit_def)
  qed
  have high: "bit (?dat ! (wi + 1)) (off + j - 64) \<longleftrightarrow> seq_bit ?dat (?b + j)" if up: "64 \<le> off + j" "j < width" for j
  proof -
    obtain r where r: "off + j = 64 + r" using le_Suc_ex [OF up(1)] by blast
    have "r < 64" using b(2) r up(2) width(2) by linarith
    moreover have "?b + j = 64 * (wi + 1) + r" unfolding b(1) [symmetric] add.assoc r by simp
    ultimately have "(?b + j) div 64 = wi + 1 \<and> (?b + j) mod 64 = r" by (rule word_position)
    then show ?thesis by (simp only: seq_bit_def r add_diff_cancel_left')
  qed
  show ?thesis
  proof (rule bit_word_eqI)
    fix j assume "j < LENGTH(32)"
    have mask: "bit (push_bit width 1 - 1 :: u64) j \<longleftrightarrow> j < width"
      using width \<open>j < LENGTH(32)\<close> by (simp add: push_bit_eq_mult bit_mask_iff flip: mask_eq_exp_minus_1)
    show "bit (seq_get (seq_from_slice vs) i) j = bit (vs ! i) j"
    proof (cases "j < width")
      case True
      show ?thesis
      proof (cases "off + j < 64")
        case t: True
        have "64 < off + width \<Longrightarrow> \<not> 64 - off \<le> j" using t by simp
        then show ?thesis
          using mask True t low [OF t] bits_of [OF True] width \<open>j < LENGTH(32)\<close>
          by (simp add: seq seq_get_def Let_def bit_simps wo)
      next
        case f: False
        then have "64 < off + width" "64 - off \<le> j" "j - (64 - off) = off + j - 64" using True b(2) by linarith+
        moreover have "\<not> bit (?dat ! wi) (off + j)" using f bit_word_lt by blast
        ultimately show ?thesis
          using mask True high [of j] f bits_of [OF True] width \<open>j < LENGTH(32)\<close>
          by (simp add: seq seq_get_def Let_def bit_simps wo)
      qed
    next
      case False
      then have "\<not> bit (vs ! i) j" using small assms by auto
      then show ?thesis using mask False by (simp add: seq seq_get_def Let_def bit_simps wo)
    qed
  qed
qed

end
