(* ===== verification/TripleIndexes.thy ===== *)
theory TripleIndexes
  imports GraphStores
begin

text \<open>
  The triple index of the worst-case-optimal join (\<open>src/runtime/ltj/triple_index.rs\<close>): how
  the edges of a graph become triples of source, label and target, the six sorted orderings
  of the array representation, and the binary searches within a range of an ordering.
\<close>

section \<open>Entries and orderings\<close>

datatype trie_order = SPO | SOP | POS | PSO | OSP | OPS

datatype spo_pos = PosS | PosP | PosO

type_synonym index_entry = "u32 \<times> u32 \<times> u32 \<times> u32"

fun component :: "index_entry \<Rightarrow> nat \<Rightarrow> u32" where
  "component (a, b, c, e) d = (if d = 0 then a else if d = 1 then b else if d = 2 then c else e)"

fun edge_id :: "index_entry \<Rightarrow> u32" where
  "edge_id (_, _, _, e) = e"

text \<open>The positions of an ordering, by depth, and a triple read in that ordering.\<close>

fun order_perm :: "trie_order \<Rightarrow> spo_pos list" where
  "order_perm SPO = [PosS, PosP, PosO]"
| "order_perm SOP = [PosS, PosO, PosP]"
| "order_perm POS = [PosP, PosO, PosS]"
| "order_perm PSO = [PosP, PosS, PosO]"
| "order_perm OSP = [PosO, PosS, PosP]"
| "order_perm OPS = [PosO, PosP, PosS]"

fun reorder :: "trie_order \<Rightarrow> index_entry \<Rightarrow> index_entry" where
  "reorder SPO (s, p, o', e) = (s, p, o', e)"
| "reorder SOP (s, p, o', e) = (s, o', p, e)"
| "reorder POS (s, p, o', e) = (p, o', s, e)"
| "reorder PSO (s, p, o', e) = (p, s, o', e)"
| "reorder OSP (s, p, o', e) = (o', s, p, e)"
| "reorder OPS (s, p, o', e) = (o', p, s, e)"

fun proj :: "spo_pos \<Rightarrow> index_entry \<Rightarrow> u32" where
  "proj PosS (s, _, _, _) = s"
| "proj PosP (_, p, _, _) = p"
| "proj PosO (_, _, o', _) = o'"

definition build_ordering :: "index_entry list \<Rightarrow> (index_entry \<Rightarrow> index_entry) \<Rightarrow> index_entry list" where
  "build_ordering raw reord = sort (map reord raw)"

type_synonym orderings = "trie_order \<Rightarrow> index_entry list"

definition build_orderings :: "index_entry list \<Rightarrow> orderings" where
  "build_orderings raw = (\<lambda>order. build_ordering raw (reorder order))"

lemma component_reorder [simp]: "d < 3 \<Longrightarrow> component (reorder order t) d = proj (order_perm order ! d) t"
  by (cases t; cases order) (auto simp: less_Suc_eq numeral_3_eq_3)

lemma edge_id_reorder [simp]: "edge_id (reorder order t) = edge_id t"
  by (cases t; cases order) simp_all

lemma mset_build_ordering: "mset (build_ordering raw f) = image_mset f (mset raw)"
  by (simp add: build_ordering_def)

lemma sorted_build_ordering: "sorted (build_ordering raw f)"
  by (simp add: build_ordering_def)

section \<open>Searching a range\<close>

text \<open>
  \<open>slice[begin..end]\<close> of an array, and \<open>partition_point\<close> of the standard library, which is
  only called on slices whose entries with the property come first.
\<close>

definition segment :: "'a list \<Rightarrow> nat \<Rightarrow> nat \<Rightarrow> 'a list" where
  "segment xs b e = take (e - b) (drop b xs)"

definition partition_point :: "('a \<Rightarrow> bool) \<Rightarrow> 'a list \<Rightarrow> nat" where
  "partition_point P xs = length (takeWhile P xs)"

definition range_for_key :: "index_entry list \<Rightarrow> nat \<Rightarrow> nat \<Rightarrow> nat \<Rightarrow> u32 \<Rightarrow> nat \<times> nat" where
  "range_for_key xs b e depth key =
     (let sub = segment xs b e;
          lo = partition_point (\<lambda>t. component t depth < key) sub;
          hi = lo + partition_point (\<lambda>t. component t depth \<le> key) (drop lo sub)
      in (b + lo, b + hi))"

definition index_leap :: "index_entry list \<Rightarrow> nat \<Rightarrow> nat \<Rightarrow> nat \<Rightarrow> u32 \<Rightarrow> (u32 \<times> nat) option" where
  "index_leap xs b e depth key =
     (let sub = segment xs b e;
          pos = partition_point (\<lambda>t. component t depth < key) sub
      in if length sub \<le> pos then None else Some (component (sub ! pos) depth, b + pos))"

definition distinct_count :: "index_entry list \<Rightarrow> nat \<Rightarrow> nat \<Rightarrow> nat \<Rightarrow> nat" where
  "distinct_count xs b e depth =
     (if e \<le> b then 0
      else
        let sub = segment xs b e
        in fst (fold (\<lambda>t (n, prev). if component t depth \<noteq> prev then (Suc n, component t depth) else (n, prev))
             (tl sub) (1, component (hd sub) depth)))"

definition all_values :: "index_entry list \<Rightarrow> nat \<Rightarrow> nat \<Rightarrow> nat \<Rightarrow> u32 list" where
  "all_values xs b e depth =
     (if e \<le> b then []
      else
        let sub = segment xs b e
        in fold (\<lambda>t result. if component t depth \<noteq> last result then result @ [component t depth] else result)
             (tl sub) [component (hd sub) depth])"

text \<open>The smallest member of a finite set from a bound on.\<close>

definition least_from :: "u32 \<Rightarrow> u32 set \<Rightarrow> u32 option" where
  "least_from c V = (if \<exists>v \<in> V. c \<le> v then Some (Min {v \<in> V. c \<le> v}) else None)"

lemma least_from_None [simp]: "least_from c V = None \<longleftrightarrow> (\<forall>v \<in> V. v < c)"
  by (simp add: least_from_def not_le [symmetric]) blast?

lemma least_from_Some:
  assumes "finite V"
  shows "least_from c V = Some v \<longleftrightarrow> v \<in> V \<and> c \<le> v \<and> (\<forall>w \<in> V. c \<le> w \<longrightarrow> v \<le> w)" (is "?l \<longleftrightarrow> ?r")
proof (cases "\<exists>v \<in> V. c \<le> v")
  case True
  then have "{w \<in> V. c \<le> w} \<noteq> {}" by blast
  then have "Min {w \<in> V. c \<le> w} = v \<longleftrightarrow> v \<in> {w \<in> V. c \<le> w} \<and> (\<forall>w \<in> {w \<in> V. c \<le> w}. v \<le> w)"
    using assms by (intro Min_eq_iff) simp_all
  then show ?thesis using True by (auto simp: least_from_def)
next
  case False
  then show ?thesis by (auto simp: least_from_def)
qed

lemma segment_full [simp]: "segment xs 0 (length xs) = xs"
  by (simp add: segment_def)

lemma segment_segment: "e \<le> length xs \<Longrightarrow> b + j \<le> e \<Longrightarrow> segment xs (b + i) (b + j) = segment (segment xs b e) i j"
  by (simp add: segment_def drop_take min_def add.commute)

lemma length_segment: "e \<le> length xs \<Longrightarrow> length (segment xs b e) = e - b"
  by (simp add: segment_def)

text \<open>In a list sorted by a key, the entries with a given key are a segment.\<close>

lemma takeWhile_sorted:
  fixes f :: "'a \<Rightarrow> 'k :: linorder" and k :: 'k
  assumes "sorted (map f xs)"
  shows "takeWhile (\<lambda>t. f t < k) xs = filter (\<lambda>t. f t < k) xs" "takeWhile (\<lambda>t. f t \<le> k) xs = filter (\<lambda>t. f t \<le> k) xs"
    "dropWhile (\<lambda>t. f t < k) xs = filter (\<lambda>t. k \<le> f t) xs"
proof -
  have later: "k \<le> f a \<Longrightarrow> filter (\<lambda>t. f t < k) ys = [] \<and> filter (\<lambda>t. k \<le> f t) ys = ys" "k < f a \<Longrightarrow> filter (\<lambda>t. f t \<le> k) ys = []"
    if "sorted (map f (a # ys))" for a ys
    using that by (auto simp: filter_empty_conv filter_id_conv not_less not_le intro: order.trans order.strict_trans2)
  show "takeWhile (\<lambda>t. f t < k) xs = filter (\<lambda>t. f t < k) xs" using assms
    by (induction xs) (use later(1) in \<open>auto simp: not_less\<close>)
  show "takeWhile (\<lambda>t. f t \<le> k) xs = filter (\<lambda>t. f t \<le> k) xs" using assms
    by (induction xs) (use later(2) in \<open>auto simp: not_le\<close>)
  show "dropWhile (\<lambda>t. f t < k) xs = filter (\<lambda>t. k \<le> f t) xs" using assms
    by (induction xs) (use later(1) in \<open>auto simp: not_less\<close>)
qed

lemma key_segment:
  fixes f :: "'a \<Rightarrow> 'k :: linorder" and k :: 'k
  assumes "sorted (map f xs)"
  defines "lo \<equiv> partition_point (\<lambda>t. f t < k) xs"
  defines "hi \<equiv> lo + partition_point (\<lambda>t. f t \<le> k) (drop lo xs)"
  shows "segment xs lo hi = filter (\<lambda>t. f t = k) xs" "lo \<le> hi" "hi \<le> length xs"
proof -
  have drop: "drop lo xs = filter (\<lambda>t. k \<le> f t) xs"
    unfolding lo_def partition_point_def dropWhile_eq_drop [symmetric] takeWhile_sorted(3) [OF assms(1)] ..
  have "sorted (map f (drop lo xs))" using assms(1) sorted_wrt_drop [of "(\<le>)" "map f xs" lo] by (simp add: drop_map)
  then have tw: "takeWhile (\<lambda>t. f t \<le> k) (drop lo xs) = filter (\<lambda>t. f t \<le> k) (drop lo xs)" by (rule takeWhile_sorted(2))
  have "segment xs lo hi = takeWhile (\<lambda>t. f t \<le> k) (drop lo xs)"
    by (simp add: segment_def hi_def partition_point_def takeWhile_eq_take [symmetric])
  also have "\<dots> = filter (\<lambda>t. f t = k) xs"
    unfolding tw unfolding drop filter_filter by (rule filter_cong) auto
  finally show "segment xs lo hi = filter (\<lambda>t. f t = k) xs" .
  have "hi \<le> lo + length (drop lo xs)"
    unfolding hi_def partition_point_def by (intro add_left_mono length_takeWhile_le)
  moreover have "lo \<le> length xs" by (simp add: lo_def partition_point_def length_takeWhile_le)
  ultimately show "hi \<le> length xs" by simp
  show "lo \<le> hi" by (simp add: hi_def)
qed

text \<open>A range holds the entries with given keys at the depths above, in the order of the depth.\<close>

definition entry_range :: "index_entry list \<Rightarrow> nat \<Rightarrow> nat \<Rightarrow> u32 list \<Rightarrow> bool" where
  "entry_range xs b e keys \<longleftrightarrow>
     b \<le> e \<and> e \<le> length xs \<and> segment xs b e = filter (\<lambda>t. \<forall>d < length keys. component t d = keys ! d) xs"

lemma sorted_component:
  assumes "sorted xs" "d < 3"
  shows "sorted (map (\<lambda>t. component t d) (filter (\<lambda>t. \<forall>i < d. component t i = keys ! i) xs))"
proof -
  have "component s d \<le> component t d" if "s \<le> t" "\<forall>i < d. component s i = component t i" for s t
    using that assms(2) by (cases s; cases t) (auto simp: less_Suc_eq numeral_3_eq_3 numeral_2_eq_2 all_conj_distrib split: if_splits)
  then show ?thesis using assms(1) by (induction xs) (auto simp: sorted_wrt_append)
qed

lemma entry_range_sorted:
  "sorted xs \<Longrightarrow> length keys < 3 \<Longrightarrow> entry_range xs b e keys \<Longrightarrow> sorted (map (\<lambda>t. component t (length keys)) (segment xs b e))"
  using sorted_component [of xs "length keys" keys] by (simp add: entry_range_def)

lemma entry_range_key:
  assumes "sorted xs" "entry_range xs b e keys" "length keys < 3" "range_for_key xs b e (length keys) key = (b', e')"
  shows "entry_range xs b' e' (keys @ [key])"
proof -
  let ?d = "length keys" and ?sub = "segment xs b e"
  have len: "b \<le> e" "e \<le> length xs" using assms(2) by (simp_all add: entry_range_def)
  define lo where "lo = partition_point (\<lambda>t. component t ?d < key) ?sub"
  define hi where "hi = lo + partition_point (\<lambda>t. component t ?d \<le> key) (drop lo ?sub)"
  have be: "b' = b + lo" "e' = b + hi" using assms(4) by (simp_all add: range_for_key_def Let_def lo_def hi_def)
  note seg = key_segment [OF entry_range_sorted [OF assms(1,3,2)], of key, folded lo_def, folded hi_def]
  have "hi \<le> e - b" using seg(3) by (simp add: length_segment len)
  then have bound: "b + hi \<le> e" using len by simp
  have "segment xs b' e' = segment ?sub lo hi" unfolding be by (rule segment_segment [OF len(2) bound])
  also have "\<dots> = filter (\<lambda>t. component t ?d = key) (filter (\<lambda>t. \<forall>d < ?d. component t d = keys ! d) xs)"
    unfolding seg(1) using assms(2) by (simp add: entry_range_def)
  also have "\<dots> = filter (\<lambda>t. \<forall>d < length (keys @ [key]). component t d = (keys @ [key]) ! d) xs"
    unfolding filter_filter by (rule filter_cong) (auto simp: less_Suc_eq nth_append)
  finally show ?thesis using be seg(2) bound len by (simp add: entry_range_def)
qed

lemma index_leap_least:
  assumes "sorted xs" "entry_range xs b e keys" "length keys < 3"
  shows "map_option fst (index_leap xs b e (length keys) c) = least_from c ((\<lambda>t. component t (length keys)) ` set (segment xs b e))"
proof -
  let ?sub = "segment xs b e" and ?f = "\<lambda>t. component t (length keys)"
  have srt: "sorted (map ?f ?sub)" by (rule entry_range_sorted [OF assms(1,3,2)])
  let ?pos = "partition_point (\<lambda>t. ?f t < c) ?sub"
  have pos: "drop ?pos ?sub = filter (\<lambda>t. c \<le> ?f t) ?sub"
    unfolding partition_point_def dropWhile_eq_drop [symmetric] takeWhile_sorted(3) [OF srt] ..
  show ?thesis
  proof (cases "length ?sub \<le> ?pos")
    case True
    then have "filter (\<lambda>t. c \<le> ?f t) ?sub = []" using pos by simp
    then have none: "least_from c (?f ` set ?sub) = None" unfolding least_from_None by (auto simp: filter_empty_conv not_le)
    show ?thesis unfolding none using True by (simp add: index_leap_def Let_def)
  next
    case False
    let ?v = "?f (?sub ! ?pos)"
    have ge: "t \<in> set (drop ?pos ?sub) \<Longrightarrow> ?v \<le> ?f t" for t
      using sorted_wrt_drop [OF srt, of ?pos] False unfolding drop_map
      by (simp add: Cons_nth_drop_Suc [symmetric, of ?pos ?sub] not_le) auto
    have "?sub ! ?pos \<in> set (drop ?pos ?sub)" using False Cons_nth_drop_Suc [of ?pos ?sub] by (metis list.set_intros(1) not_le)
    then have "?sub ! ?pos \<in> set ?sub \<and> c \<le> ?v" unfolding pos by simp
    moreover have "\<forall>t \<in> set ?sub. c \<le> ?f t \<longrightarrow> ?v \<le> ?f t" using ge unfolding pos by auto
    ultimately have "least_from c (?f ` set ?sub) = Some ?v" by (subst least_from_Some) auto
    then show ?thesis using False by (simp add: index_leap_def Let_def)
  qed
qed

text \<open>The values of a range, without repetitions and in order.\<close>

lemma all_values_fold:
  "fold (\<lambda>t result. if f t \<noteq> last result then result @ [f t] else result) ts (rs @ [v]) = rs @ remdups_adj (v # map f ts)"
proof (induction ts arbitrary: rs v)
  case (Cons t ts)
  show ?case using Cons [of rs v] Cons [of "rs @ [v]" "f t"] by (cases "v = f t") simp_all
qed simp

lemma all_values_remdups:
  assumes "e \<le> length xs"
  shows "all_values xs b e depth = remdups_adj (map (\<lambda>t. component t depth) (segment xs b e))"
proof (cases "segment xs b e")
  case Nil
  then show ?thesis using assms by (auto simp: all_values_def segment_def)
next
  case (Cons t ts)
  then have "b < e" by (cases "e \<le> b") (auto simp: segment_def)
  then show ?thesis
    using Cons all_values_fold [of "\<lambda>t. component t depth" ts "[]" "component t depth"]
    by (simp add: all_values_def)
qed

lemma distinct_count_fold:
  "fst (fold (\<lambda>t (n, prev). if f t \<noteq> prev then (Suc n, f t) else (n, prev)) ts (n, v)) + 1 = n + length (remdups_adj (v # map f ts))"
proof (induction ts arbitrary: n v)
  case (Cons t ts)
  show ?case using Cons [of n v] Cons [of "Suc n" "f t"] by (auto simp: not_less split: if_splits)
qed simp

lemma distinct_count_values:
  assumes "e \<le> length xs"
  shows "distinct_count xs b e depth = length (all_values xs b e depth)"
proof (cases "segment xs b e")
  case Nil
  then show ?thesis using assms all_values_remdups [OF assms] by (auto simp: distinct_count_def segment_def)
next
  case (Cons t ts)
  then have "b < e" by (cases "e \<le> b") (auto simp: segment_def)
  then show ?thesis
    using Cons distinct_count_fold [of "\<lambda>t. component t depth" ts 1 "component t depth"] all_values_remdups [OF assms]
    by (simp add: distinct_count_def)
qed

lemma sorted_remdups_adj:
  fixes xs :: "'k :: linorder list"
  assumes "sorted xs"
  shows "remdups_adj xs = sorted_list_of_set (set xs)"
proof -
  have "sorted_wrt (<) (remdups_adj xs)"
    using assms by (induction xs rule: remdups_adj.induct) (auto simp: less_le)
  then show ?thesis by (metis remdups_adj_set sorted_list_of_set.idem_if_sorted_distinct strict_sorted_iff)
qed

lemma all_values_sorted:
  assumes "sorted xs" "entry_range xs b e keys" "length keys < 3"
  shows "all_values xs b e (length keys) = sorted_list_of_set ((\<lambda>t. component t (length keys)) ` set (segment xs b e))"
  using entry_range_sorted [OF assms(1,3,2)] all_values_remdups [of e xs b] assms(2)
  by (simp add: sorted_remdups_adj entry_range_def)

section \<open>The label dictionary\<close>

text \<open>Label identifiers are positions in the list of labels.\<close>

record label_dict =
  ld_ids :: "(string \<times> u32) list"
  ld_labels :: "string list"

definition empty_dict :: label_dict where
  "empty_dict = \<lparr>ld_ids = [], ld_labels = []\<rparr>"

definition get_or_insert_label :: "label_dict \<Rightarrow> string \<Rightarrow> u32 \<times> label_dict" where
  "get_or_insert_label d label =
     (case map_of (ld_ids d) label of
        Some i \<Rightarrow> (i, d)
      | None \<Rightarrow>
          let i = word_of_nat (length (ld_labels d))
          in (i, \<lparr>ld_ids = (label, i) # ld_ids d, ld_labels = ld_labels d @ [label]\<rparr>))"

definition dict_ok :: "label_dict \<Rightarrow> bool" where
  "dict_ok d \<longleftrightarrow> distinct (ld_labels d)
     \<and> (\<forall>l i. map_of (ld_ids d) l = Some i \<longleftrightarrow> (\<exists>n < length (ld_labels d). ld_labels d ! n = l \<and> i = word_of_nat n))"

definition label_id :: "label_dict \<Rightarrow> string \<Rightarrow> u32" where
  "label_id d l = the (map_of (ld_ids d) l)"

text \<open>A dictionary extends another when it keeps its identifiers.\<close>

definition extends :: "label_dict \<Rightarrow> label_dict \<Rightarrow> bool" where
  "extends d d' \<longleftrightarrow> (\<exists>ls. ld_labels d' = ld_labels d @ ls) \<and> map_of (ld_ids d) \<subseteq>\<^sub>m map_of (ld_ids d')"

lemma extends_refl [simp]: "extends d d"
  by (simp add: extends_def)

lemma extends_trans: "extends d d' \<Longrightarrow> extends d' d'' \<Longrightarrow> extends d d''"
  by (auto simp: extends_def intro: map_le_trans)

lemma extends_id: "extends d d' \<Longrightarrow> map_of (ld_ids d) l = Some i \<Longrightarrow> map_of (ld_ids d') l = Some i"
  by (auto simp: extends_def map_le_def dom_def)

lemma dict_ok_empty [simp]: "dict_ok empty_dict"
  by (simp add: dict_ok_def empty_dict_def)

lemma dict_label_in: "dict_ok d \<Longrightarrow> (\<exists>i. map_of (ld_ids d) l = Some i) \<longleftrightarrow> l \<in> set (ld_labels d)"
  by (auto simp: dict_ok_def in_set_conv_nth)

lemma dict_id_inj:
  assumes "dict_ok d" "length (ld_labels d) \<le> 2 ^ 32" "map_of (ld_ids d) l = Some i" "map_of (ld_ids d) k = Some i"
  shows "l = k"
proof -
  obtain n m where nm: "n < length (ld_labels d)" "ld_labels d ! n = l" "i = word_of_nat n"
    "m < length (ld_labels d)" "ld_labels d ! m = k" "i = word_of_nat m"
    using assms(1,3,4) unfolding dict_ok_def by blast
  then have "unat (word_of_nat n :: u32) = unat (word_of_nat m :: u32)" by simp
  then have "n = m" using nm assms(2) by (simp add: unat_of_nat take_bit_nat_eq_self)
  then show ?thesis using nm by simp
qed

lemma get_or_insert_ok:
  assumes "dict_ok d" "get_or_insert_label d l = (i, d')"
  shows "dict_ok d' \<and> extends d d' \<and> map_of (ld_ids d') l = Some i"
proof (cases "map_of (ld_ids d) l")
  case None
  then have new: "l \<notin> set (ld_labels d)" using dict_label_in [OF assms(1), of l] by auto
  have d': "i = word_of_nat (length (ld_labels d))" "d' = \<lparr>ld_ids = (l, i) # ld_ids d, ld_labels = ld_labels d @ [l]\<rparr>"
    using assms(2) None by (auto simp: get_or_insert_label_def Let_def)
  have "map_of (ld_ids d') k = Some j \<longleftrightarrow> (\<exists>n < length (ld_labels d'). ld_labels d' ! n = k \<and> j = word_of_nat n)" for k j
  proof (cases "k = l")
    case True
    have "n < length (ld_labels d) \<Longrightarrow> ld_labels d ! n \<noteq> l" for n using new by (auto simp: in_set_conv_nth)
    then show ?thesis using True d' by (auto simp: nth_append less_Suc_eq)
  next
    case False
    have "(\<exists>n < Suc (length (ld_labels d)). (ld_labels d @ [l]) ! n = k \<and> j = word_of_nat n)
        \<longleftrightarrow> (\<exists>n < length (ld_labels d). ld_labels d ! n = k \<and> j = word_of_nat n)"
      using False by (auto simp: nth_append less_Suc_eq)
    then show ?thesis using False d' assms(1) by (simp add: dict_ok_def)
  qed
  moreover have "extends d d'" using d' None by (auto simp: extends_def map_le_def)
  ultimately show ?thesis using assms(1) new d' by (simp add: dict_ok_def)
qed (use assms in \<open>simp add: get_or_insert_label_def\<close>)

section \<open>The triples of a graph\<close>

text \<open>A directed edge is stored in its own sense, and in both in the mirrored index; an undirected edge in both.\<close>

definition directed_triples :: "bool \<Rightarrow> u32 \<Rightarrow> u32 \<Rightarrow> u32 \<Rightarrow> u32 \<Rightarrow> index_entry list" where
  "directed_triples mirror e s o' lid = [(s, lid, o', e)] @ (if mirror then [(o', lid, s, e)] else [])"

definition undirected_triples :: "u32 \<Rightarrow> u32 \<Rightarrow> u32 \<Rightarrow> u32 \<Rightarrow> index_entry list" where
  "undirected_triples e s t lid = [(s, lid, t, e)] @ (if s \<noteq> t then [(t, lid, s, e)] else [])"

type_synonym index_build = "label_dict \<times> index_entry list"

definition edge_names :: "graph_access \<Rightarrow> u32 \<Rightarrow> string list" where
  "edge_names A e = (let names = required_labels (ga_edge_labels A e) in if names = [] then [[]] else names)"

definition push_edge :: "(u32 \<Rightarrow> index_entry list) \<Rightarrow> string list \<Rightarrow> index_build \<Rightarrow> index_build" where
  "push_edge triples names st =
     fold (\<lambda>name (d, raw). let (lid, d) = get_or_insert_label d name in (d, raw @ triples lid)) names st"

definition index_triples :: "graph_access \<Rightarrow> bool \<Rightarrow> index_build" where
  "index_triples A mirror =
     fold (\<lambda>e. push_edge (undirected_triples e (ga_src A e) (ga_tgt A e)) (edge_names A e)) (ga_edges_undirected A)
       (fold (\<lambda>e. push_edge (directed_triples mirror e (ga_src A e) (ga_tgt A e)) (edge_names A e)) (ga_edges_directed A)
          (empty_dict, []))"

lemma push_edge_spec:
  assumes "dict_ok d" "push_edge f names (d, raw) = (d', raw')"
  shows "dict_ok d' \<and> extends d d' \<and> (\<forall>n \<in> set names. map_of (ld_ids d') n \<noteq> None)
    \<and> raw' = raw @ concat (map (\<lambda>n. f (label_id d' n)) names)"
  using assms
proof (induction names arbitrary: d raw)
  case (Cons n ns)
  obtain lid d1 where ins: "get_or_insert_label d n = (lid, d1)" by (cases "get_or_insert_label d n")
  from get_or_insert_ok [OF Cons.prems(1) this] have d1: "dict_ok d1" "extends d d1" "map_of (ld_ids d1) n = Some lid" by blast+
  have "push_edge f ns (d1, raw @ f lid) = (d', raw')" using Cons.prems(2) ins by (simp add: push_edge_def)
  from Cons.IH [OF d1(1) this] have IH: "dict_ok d'" "extends d1 d'" "\<forall>n \<in> set ns. map_of (ld_ids d') n \<noteq> None"
    "raw' = (raw @ f lid) @ concat (map (\<lambda>n. f (label_id d' n)) ns)" by blast+
  moreover have "map_of (ld_ids d') n = Some lid" using extends_id [OF IH(2) d1(3)] .
  ultimately show ?case using extends_trans [OF d1(2)] by (simp add: label_id_def)
qed (simp add: push_edge_def)

lemma push_edges_spec:
  assumes "dict_ok d" "fold (\<lambda>e. push_edge (f e) (names e)) es (d, raw) = (d', raw')"
  shows "dict_ok d' \<and> extends d d' \<and> (\<forall>e \<in> set es. \<forall>n \<in> set (names e). map_of (ld_ids d') n \<noteq> None)
    \<and> raw' = raw @ concat (map (\<lambda>e. concat (map (\<lambda>n. f e (label_id d' n)) (names e))) es)"
  using assms
proof (induction es arbitrary: d raw)
  case (Cons e es)
  obtain d1 raw1 where push: "push_edge (f e) (names e) (d, raw) = (d1, raw1)" by (cases "push_edge (f e) (names e) (d, raw)")
  from push_edge_spec [OF Cons.prems(1) this] have d1: "dict_ok d1" "extends d d1" "\<forall>n \<in> set (names e). map_of (ld_ids d1) n \<noteq> None"
    "raw1 = raw @ concat (map (\<lambda>n. f e (label_id d1 n)) (names e))" by blast+
  have "fold (\<lambda>e. push_edge (f e) (names e)) es (d1, raw1) = (d', raw')" using Cons.prems(2) push by simp
  from Cons.IH [OF d1(1) this] have IH: "dict_ok d'" "extends d1 d'" "\<forall>e \<in> set es. \<forall>n \<in> set (names e). map_of (ld_ids d') n \<noteq> None"
    "raw' = raw1 @ concat (map (\<lambda>e. concat (map (\<lambda>n. f e (label_id d' n)) (names e))) es)" by blast+
  have same: "map_of (ld_ids d') n \<noteq> None \<and> label_id d' n = label_id d1 n" if n: "n \<in> set (names e)" for n
  proof -
    obtain i where "map_of (ld_ids d1) n = Some i" using d1(3) n by blast
    then show ?thesis using extends_id [OF IH(2)] by (simp add: label_id_def)
  qed
  then have "concat (map (\<lambda>n. f e (label_id d1 n)) (names e)) = concat (map (\<lambda>n. f e (label_id d' n)) (names e))"
    by (simp cong: map_cong)
  then show ?case using IH d1 same extends_trans [OF d1(2) IH(2)] by simp
qed simp

definition edge_triples :: "graph_access \<Rightarrow> label_dict \<Rightarrow> bool \<Rightarrow> bool \<Rightarrow> u32 \<Rightarrow> index_entry list" where
  "edge_triples A d mirror directed e =
     concat (map (\<lambda>n. (if directed then directed_triples mirror e (ga_src A e) (ga_tgt A e)
                       else undirected_triples e (ga_src A e) (ga_tgt A e)) (label_id d n)) (edge_names A e))"

lemma index_triples_spec:
  assumes "index_triples A mirror = (d, raw)"
  shows "dict_ok d"
    and "e \<in> set (ga_edges_directed A) \<union> set (ga_edges_undirected A) \<Longrightarrow> n \<in> set (edge_names A e) \<Longrightarrow> map_of (ld_ids d) n \<noteq> None"
    and "raw = concat (map (edge_triples A d mirror True) (ga_edges_directed A))
      @ concat (map (edge_triples A d mirror False) (ga_edges_undirected A))"
proof -
  let ?dir = "\<lambda>e. directed_triples mirror e (ga_src A e) (ga_tgt A e)" and ?und = "\<lambda>e. undirected_triples e (ga_src A e) (ga_tgt A e)"
  obtain d1 raw1 where fst: "fold (\<lambda>e. push_edge (?dir e) (edge_names A e)) (ga_edges_directed A) (empty_dict, []) = (d1, raw1)"
    by (cases "fold (\<lambda>e. push_edge (?dir e) (edge_names A e)) (ga_edges_directed A) (empty_dict, [])")
  note one = push_edges_spec [OF dict_ok_empty fst, THEN conjunct1] push_edges_spec [OF dict_ok_empty fst, THEN conjunct2, THEN conjunct2, THEN conjunct1]
    push_edges_spec [OF dict_ok_empty fst, THEN conjunct2, THEN conjunct2, THEN conjunct2]
  have snd: "fold (\<lambda>e. push_edge (?und e) (edge_names A e)) (ga_edges_undirected A) (d1, raw1) = (d, raw)"
    using assms fst by (simp add: index_triples_def)
  note two = push_edges_spec [OF one(1) snd, THEN conjunct2, THEN conjunct1] push_edges_spec [OF one(1) snd, THEN conjunct2, THEN conjunct2, THEN conjunct1]
    push_edges_spec [OF one(1) snd, THEN conjunct2, THEN conjunct2, THEN conjunct2]
  show "dict_ok d" using push_edges_spec [OF one(1) snd] by (rule conjunct1)
  have same: "map_of (ld_ids d) n \<noteq> None \<and> label_id d n = label_id d1 n" if en: "e \<in> set (ga_edges_directed A)" "n \<in> set (edge_names A e)" for e n
  proof -
    obtain i where "map_of (ld_ids d1) n = Some i" using bspec [OF bspec [OF one(2) en(1)] en(2)] by blast
    then show ?thesis using extends_id [OF two(1)] by (simp add: label_id_def)
  qed
  show "map_of (ld_ids d) n \<noteq> None" if "e \<in> set (ga_edges_directed A) \<union> set (ga_edges_undirected A)" "n \<in> set (edge_names A e)" for e n
  proof (cases "e \<in> set (ga_edges_directed A)")
    case False
    then have "e \<in> set (ga_edges_undirected A)" using that(1) by blast
    then show ?thesis using bspec [OF bspec [OF two(2)] that(2)] by blast
  next
    case True
    then show ?thesis using same that(2) by blast
  qed
  have "raw1 = concat (map (edge_triples A d mirror True) (ga_edges_directed A))"
    using one(3) same by (simp add: edge_triples_def cong: map_cong)
  then show "raw = concat (map (edge_triples A d mirror True) (ga_edges_directed A))
      @ concat (map (edge_triples A d mirror False) (ga_edges_undirected A))"
    using two(3) by (simp add: edge_triples_def [abs_def])
qed

end
