(* ===== verification/CompactTries.thy ===== *)
theory CompactTries
  imports BitVectors TripleIndexes
begin

text \<open>
  The succinct trie over one ordering and the index of six of them
  (\<open>src/runtime/ltj/compact.rs\<close>): the topology of the nodes as a bit vector whose zeros are
  the node handles, the symbols as a packed sequence, and the table of the edges of each leaf.
\<close>

section \<open>Rows and the building of a trie\<close>

type_synonym trie_row = "u32 \<times> u32 \<times> u32"

fun row_list :: "trie_row \<Rightarrow> u32 list" where
  "row_list (a, b, c) = [a, b, c]"

record compact_trie =
  ct_bv :: select_bv
  ct_seq :: int_seq
  ct_leaf_base :: nat

definition level_step :: "nat \<Rightarrow> trie_row \<times> trie_row \<Rightarrow> u32 list \<times> u32 list \<times> u32 \<times> u32 \<Rightarrow> u32 list \<times> u32 list \<times> u32 \<times> u32" where
  "level_step l pair st =
     (let (prev, curr) = pair; (syms, zeros, cum, children) = st
      in if take (Suc l) (row_list prev) \<noteq> take (Suc l) (row_list curr) then
           let syms = syms @ [row_list prev ! l]; children = children + 1
           in if take l (row_list prev) \<noteq> take l (row_list curr) then
                let cum = cum + children in (syms, zeros @ [cum], cum, 0)
              else (syms, zeros, cum, children)
         else (syms, zeros, cum, children))"

definition sym_level :: "trie_row list \<Rightarrow> nat \<Rightarrow> u32 list \<times> u32 list \<times> u32 \<times> nat \<Rightarrow> u32 list \<times> u32 list \<times> u32 \<times> nat" where
  "sym_level rows l st =
     (let (syms, zeros, cum, leaf_base) = st;
          leaf_base = (if l = 2 then length syms else leaf_base);
          (syms, zeros, cum, children) = fold (level_step l) (zip rows (tl rows)) (syms, zeros, cum, 0);
          syms = syms @ [row_list (last rows) ! l];
          cum = cum + (children + 1)
      in (syms, zeros @ [cum], cum, leaf_base))"

text \<open>\<open>None\<close> is the assertion on the length of the bit vector.\<close>

definition from_sorted :: "trie_row list \<Rightarrow> compact_trie option" where
  "from_sorted rows =
     (let (syms, zeros, cum, leaf_base) =
            (if rows = [] then ([], [0], 0, 0) else fold (sym_level rows) [0..<3] ([], [0], 0, 0))
      in map_option (\<lambda>bv. \<lparr>ct_bv = bv, ct_seq = seq_from_slice syms, ct_leaf_base = leaf_base\<rparr>)
           (from_zero_positions (length syms + 1) zeros))"

section \<open>Navigation\<close>

definition root :: "compact_trie \<Rightarrow> nat" where
  "root tr = 0"

definition children :: "compact_trie \<Rightarrow> nat \<Rightarrow> nat" where
  "children tr it = succ0 (ct_bv tr) (it + 1) - it"

definition node_handle :: "compact_trie \<Rightarrow> nat \<Rightarrow> nat option" where
  "node_handle tr p = select0 (ct_bv tr) (p + 2)"

definition sym :: "compact_trie \<Rightarrow> nat \<Rightarrow> u32" where
  "sym tr p = seq_get (ct_seq tr) p"

function seek_pos :: "int_seq \<Rightarrow> u32 \<Rightarrow> nat \<Rightarrow> nat \<Rightarrow> nat" where
  "seek_pos s v lo hi =
     (if lo < hi then
        let mid = (lo + hi) div 2
        in if seq_get s mid < v then seek_pos s v (mid + 1) hi else seek_pos s v lo mid
      else lo)"
  by pat_completeness auto
termination by (relation "measure (\<lambda>(s, v, lo, hi). hi - lo)") auto

declare seek_pos.simps [simp del]

definition trie_seek :: "compact_trie \<Rightarrow> u32 \<Rightarrow> nat \<Rightarrow> nat \<Rightarrow> (u32 \<times> nat) option" where
  "trie_seek tr v b e =
     (if seq_get (ct_seq tr) e < v then None
      else let lo = seek_pos (ct_seq tr) v b e in Some (seq_get (ct_seq tr) lo, lo))"

definition trie_is_empty :: "compact_trie \<Rightarrow> bool" where
  "trie_is_empty tr \<longleftrightarrow> is_len (ct_seq tr) = 0"

section \<open>Lists without adjacent repetitions\<close>

lemma remdups_adj_hd: "remdups_adj (x # xs) = x # tl (remdups_adj (x # xs))"
  by (induction xs arbitrary: x) auto

lemma remdups_adj_map_remdups: "remdups_adj (map f (remdups_adj xs)) = remdups_adj (map f xs)"
proof (induction xs rule: remdups_adj.induct)
  case (3 x y xs)
  obtain R where R: "remdups_adj (y # xs) = y # R" using remdups_adj_hd [of y xs] by blast
  then show ?case using 3 by (cases "x = y") simp_all
qed simp_all

text \<open>The lengths of the runs of equal elements, the first of them already begun.\<close>

fun run_lengths :: "nat \<Rightarrow> 'a list \<Rightarrow> nat list" where
  "run_lengths c [] = []"
| "run_lengths c [k] = [Suc c]"
| "run_lengths c (k # k' # ks) = (if k = k' then run_lengths (Suc c) (k' # ks) else Suc c # run_lengths 0 (k' # ks))"

lemma run_lengths_count:
  assumes "distinct (remdups_adj (k # ks))"
  shows "run_lengths c (k # ks) = (c + count_list (k # ks) k) # map (count_list (k # ks)) (tl (remdups_adj (k # ks)))"
  using assms
proof (induction ks arbitrary: c k)
  case (Cons k' ks)
  show ?case
  proof (cases "k = k'")
    case True
    obtain R where R: "remdups_adj (k' # ks) = k' # R" using remdups_adj_hd [of k' ks] by blast
    have d: "distinct (remdups_adj (k' # ks))" using Cons.prems True by simp
    then have "\<forall>x \<in> set R. k' \<noteq> x" using R by auto
    then show ?thesis using Cons.IH [OF d, of "Suc c"] R True by simp
  next
    case False
    then have d: "distinct (remdups_adj (k' # ks))" and new: "k \<notin> set (remdups_adj (k' # ks))" using Cons.prems by simp_all
    then have zero: "count_list (k' # ks) k = 0" by (metis count_list_0_iff remdups_adj_set)
    have "map (count_list (k' # ks)) (remdups_adj (k' # ks)) = map (count_list (k # k' # ks)) (remdups_adj (k' # ks))"
      using new by auto
    moreover have "run_lengths 0 (k' # ks) = map (count_list (k' # ks)) (remdups_adj (k' # ks))"
      using Cons.IH [OF d, of 0] remdups_adj_hd [of k' ks] by (metis add_0 list.simps(9))
    moreover have "run_lengths c (k # k' # ks) = Suc c # run_lengths 0 (k' # ks)" using False by simp
    moreover have "count_list (k # k' # ks) k = 1" using zero by simp
    moreover have "remdups_adj (k # k' # ks) = k # remdups_adj (k' # ks)" using False by simp
    ultimately show ?thesis by simp
  qed
qed simp

lemma run_lengths_counts: "distinct (remdups_adj ks) \<Longrightarrow> run_lengths 0 ks = map (count_list ks) (remdups_adj ks)"
  using run_lengths_count [of "hd ks" "tl ks" 0] remdups_adj_hd [of "hd ks" "tl ks"]
  by (cases ks) (simp, metis add_0 list.sel(1,3) list.simps(9))

lemma concat_groups:
  assumes "distinct (remdups_adj (map f ys))"
  shows "concat (map (\<lambda>k. filter (\<lambda>y. f y = k) ys) (remdups_adj (map f ys))) = ys"
  using assms
proof (induction ys)
  case (Cons y ys)
  let ?R = "remdups_adj (map f ys)"
  show ?case
  proof (cases "?R \<noteq> [] \<and> hd ?R = f y")
    case True
    then obtain y' zs where Cs: "ys = y' # zs" by (cases ys) auto
    have "hd ?R = f y'" using remdups_adj_hd [of "f y'" "map f zs"] unfolding Cs by (metis list.sel(1) list.simps(9))
    then have ys: "ys = y' # zs" "f y' = f y" using True Cs by simp_all
    then have R: "remdups_adj (map f (y # ys)) = ?R" by simp
    have d: "distinct ?R" using Cons.prems R by simp
    obtain R' where R': "?R = f y # R'" using True by (cases ?R) auto
    have "map (\<lambda>k. filter (\<lambda>y. f y = k) (y # ys)) R' = map (\<lambda>k. filter (\<lambda>y. f y = k) ys) R'" using d R' by auto
    then have "concat (map (\<lambda>k. filter (\<lambda>y. f y = k) (y # ys)) ?R) = y # concat (map (\<lambda>k. filter (\<lambda>y. f y = k) ys) ?R)"
      by (simp only: R' list.map concat.simps) simp
    then show ?thesis unfolding R Cons.IH [OF d] .
  next
    case False
    then have R: "remdups_adj (map f (y # ys)) = f y # ?R"
      by (cases ys) (auto simp: remdups_adj_Cons split: list.split)
    then have d: "distinct ?R" "f y \<notin> set ?R" using Cons.prems by simp_all
    then have none: "filter (\<lambda>z. f z = f y) ys = []" by (auto simp: filter_empty_conv) (metis imageI)
    have "map (\<lambda>k. filter (\<lambda>y. f y = k) (y # ys)) ?R = map (\<lambda>k. filter (\<lambda>y. f y = k) ys) ?R" using d(2) by auto
    then have "concat (map (\<lambda>k. filter (\<lambda>y. f y = k) (y # ys)) (f y # ?R)) = (y # filter (\<lambda>z. f z = f y) ys) @ ys"
      using Cons.IH [OF d(1)] by (simp only: list.map(2) concat.simps) simp
    then show ?thesis unfolding R none by simp
  qed
qed simp

lemma distinct_remdups_adj_sorted:
  fixes xs :: "'a :: linorder list"
  assumes "sorted xs" "\<And>x y z. x \<le> y \<Longrightarrow> y \<le> z \<Longrightarrow> f x = f z \<Longrightarrow> f y = f x"
  shows "distinct (remdups_adj (map f xs))"
  using assms(1)
proof (induction xs rule: induct_list012)
  case (3 x y xs)
  have srt: "x \<le> y" "sorted (y # xs)" using 3(3) by simp_all
  have d: "distinct (remdups_adj (map f (y # xs)))" by (rule 3(2) [OF srt(2)])
  have "f x \<notin> f ` set (y # xs)" if "f x \<noteq> f y"
  proof
    assume "f x \<in> f ` set (y # xs)"
    then obtain z where z: "z \<in> set (y # xs)" "f x = f z" by (rule imageE)
    have "y \<le> z" using srt(2) z(1) by auto
    from assms(2) [OF srt(1) this z(2)] show False using that by simp
  qed
  moreover have "set (remdups_adj (map f (y # xs))) = f ` set (y # xs)" by simp
  ultimately show ?case using d by (cases "f x = f y") (simp, simp only: list.map remdups_adj.simps if_False distinct.simps, blast)
qed simp_all

lemma sorted_wrt_remdups_adj: "sorted_wrt P xs \<Longrightarrow> sorted_wrt P (remdups_adj xs)"
  by (induction xs rule: remdups_adj.induct) auto

text \<open>Running sums, and positions in a concatenation.\<close>

fun partial_sums :: "nat \<Rightarrow> nat list \<Rightarrow> nat list" where
  "partial_sums n [] = []"
| "partial_sums n (k # ks) = (n + k) # partial_sums (n + k) ks"

lemma length_partial_sums [simp]: "length (partial_sums n ks) = length ks"
  by (induction ks arbitrary: n) simp_all

lemma partial_sums_append: "partial_sums n (ks @ ls) = partial_sums n ks @ partial_sums (n + sum_list ks) ls"
  by (induction ks arbitrary: n) (simp_all add: add.assoc)

lemma nth_partial_sums: "i \<le> length ks \<Longrightarrow> (n # partial_sums n ks) ! i = n + sum_list (take i ks)"
proof (induction ks arbitrary: n i)
  case (Cons k ks)
  then show ?case using Cons.IH [of "i - 1" "n + k"] by (cases i) simp_all
qed simp

lemma strict_partial_sums: "\<forall>k \<in> set ks. 0 < k \<Longrightarrow> sorted_wrt (<) (n # partial_sums n ks)"
proof (induction ks arbitrary: n)
  case (Cons k ks)
  then have "sorted_wrt (<) ((n + k) # partial_sums (n + k) ks)" by simp
  then show ?case using Cons.prems by fastforce
qed simp

lemma concat_nth_sum:
  "k < length xss \<Longrightarrow> j < length (xss ! k) \<Longrightarrow> concat xss ! (sum_list (map length (take k xss)) + j) = xss ! k ! j"
proof (induction xss arbitrary: k)
  case (Cons xs xss)
  then show ?case by (cases k) (simp_all add: nth_append add.assoc)
qed simp

lemma strict_sorted_above:
  assumes "sorted_wrt (<) (zs :: nat list)" "Suc k < length zs"
  shows "hd (filter (\<lambda>z. zs ! k + 1 \<le> z) zs) = zs ! Suc k" "filter (\<lambda>z. zs ! k + 1 \<le> z) zs \<noteq> []"
proof -
  have "filter (\<lambda>z. zs ! k + 1 \<le> z) (take (Suc k) zs) = []"
  proof (unfold filter_empty_conv, intro ballI)
    fix z assume "z \<in> set (take (Suc k) zs)"
    then obtain i where "i \<le> k" "z = zs ! i" using assms(2) by (auto simp: in_set_conv_nth less_Suc_eq_le)
    then show "\<not> zs ! k + 1 \<le> z" using assms sorted_wrt_nth_less [OF assms(1), of i k] by (cases "i = k") auto
  qed
  moreover have "drop (Suc k) zs = zs ! Suc k # drop (Suc (Suc k)) zs" using assms(2) by (simp add: Cons_nth_drop_Suc)
  moreover have "zs ! k < zs ! Suc k" using assms sorted_wrt_nth_less by blast
  moreover have "filter P zs = filter P (take (Suc k) zs) @ filter P (drop (Suc k) zs)" for P
    by (metis append_take_drop_id filter_append)
  ultimately show "hd (filter (\<lambda>z. zs ! k + 1 \<le> z) zs) = zs ! Suc k" "filter (\<lambda>z. zs ! k + 1 \<le> z) zs \<noteq> []"
    by simp_all
qed

section \<open>The nodes of a trie\<close>

text \<open>The nodes of a depth are the prefixes of the rows; a node's children are the nodes below it.\<close>

definition nodes :: "trie_row list \<Rightarrow> nat \<Rightarrow> u32 list list" where
  "nodes T l = remdups_adj (map (\<lambda>r. take l (row_list r)) T)"

definition kids :: "trie_row list \<Rightarrow> nat \<Rightarrow> u32 list \<Rightarrow> u32 list list" where
  "kids T l p = filter (\<lambda>q. take l q = p) (nodes T (Suc l))"

text \<open>The inner nodes by level, with their children, and the nodes below the root by level.\<close>

definition inner :: "trie_row list \<Rightarrow> (nat \<times> u32 list) list" where
  "inner T = concat (map (\<lambda>l. map (Pair l) (nodes T l)) [0..<3])"

definition level_order :: "trie_row list \<Rightarrow> u32 list list" where
  "level_order T = nodes T 1 @ nodes T 2 @ nodes T 3"

definition kid_counts :: "trie_row list \<Rightarrow> nat list" where
  "kid_counts T = map (\<lambda>(l, p). length (kids T l p)) (inner T)"

definition handles :: "trie_row list \<Rightarrow> nat list" where
  "handles T = 0 # partial_sums 0 (kid_counts T)"

lemma length_row [simp]: "length (row_list r) = 3"
  by (cases r) simp

lemma nodes_Suc: "nodes T l = remdups_adj (map (take l) (nodes T (Suc l)))"
  by (simp add: nodes_def remdups_adj_map_remdups comp_def min_def)

lemma node_length: "p \<in> set (nodes T l) \<Longrightarrow> l \<le> 3 \<Longrightarrow> length p = l"
  by (auto simp: nodes_def)

lemma row_prefix_between:
  assumes "x \<le> y" "y \<le> z" "take l (row_list x) = take l (row_list z)"
  shows "take l (row_list y) = take l (row_list x)"
  using assms by (cases x; cases y; cases z) (auto simp: take_Cons' split: if_splits)

lemma distinct_nodes: "sorted T \<Longrightarrow> distinct (nodes T l)"
  unfolding nodes_def by (rule distinct_remdups_adj_sorted, assumption) (rule row_prefix_between)

lemma concat_kids: "sorted T \<Longrightarrow> concat (map (kids T l) (nodes T l)) = nodes T (Suc l)"
  using concat_groups [of "take l" "nodes T (Suc l)"] distinct_nodes [of T l]
  unfolding nodes_Suc [of T l, symmetric] by (simp add: kids_def [abs_def])

lemma kid_counts_level: "sorted T \<Longrightarrow> map (\<lambda>p. length (kids T l p)) (nodes T l) = run_lengths 0 (map (take l) (nodes T (Suc l)))"
  using distinct_nodes [of T l] by (simp add: nodes_Suc [of T l] run_lengths_counts kids_def count_list_eq_length_filter filter_map comp_def eq_commute)

lemma kid_counts_pos: "k \<in> set (kid_counts T) \<Longrightarrow> 0 < k"
proof -
  assume "k \<in> set (kid_counts T)"
  then obtain l p where p: "p \<in> set (nodes T l)" "k = length (kids T l p)" by (auto simp: kid_counts_def inner_def)
  then have "p \<in> take l ` set (nodes T (Suc l))" by (simp add: nodes_Suc [of T l])
  then show ?thesis using p(2) by (auto simp: kids_def filter_empty_conv)
qed

lemma concat_inner: "sorted T \<Longrightarrow> concat (map (\<lambda>(l, p). kids T l p) (inner T)) = level_order T"
  by (simp add: inner_def level_order_def numeral_3_eq_3 numeral_2_eq_2 comp_def concat_kids)

lemma map_snd_inner: "T \<noteq> [] \<Longrightarrow> inner T = (0, []) # map (\<lambda>q. (length q, q)) (nodes T 1 @ nodes T 2)"
proof -
  assume "T \<noteq> []"
  then have "nodes T 0 = [[]]" by (simp add: nodes_def) (metis map_replicate_const remdups_adj_replicate length_0_conv)
  moreover have "map (Pair l) (nodes T l) = map (\<lambda>q. (length q, q)) (nodes T l)" if "l \<le> 3" for l
    using that by (auto simp: node_length)
  ultimately show ?thesis by (simp add: inner_def numeral_3_eq_3 numeral_2_eq_2)
qed

section \<open>What the building produces\<close>

lemma nodes_Cons2: "nodes (x # y # xs) l =
    (if take l (row_list x) = take l (row_list y) then nodes (y # xs) l else take l (row_list x) # nodes (y # xs) l)"
  by (simp add: nodes_def)

lemma nodes_hd: "\<exists>R. nodes (y # xs) l = take l (row_list y) # R"
  unfolding nodes_def list.map by (rule exI) (rule remdups_adj_hd)

definition close_level :: "nat \<Rightarrow> trie_row list \<Rightarrow> u32 list \<times> u32 list \<times> u32 \<times> u32 \<Rightarrow> u32 list \<times> u32 list \<times> u32" where
  "close_level l T st = (case st of (syms, zeros, cum, ch) \<Rightarrow>
     (syms @ [row_list (last T) ! l], zeros @ [cum + (ch + 1)], cum + (ch + 1)))"

lemma fold_level:
  assumes "l < 3"
  shows "close_level l (x # xs) (fold (level_step l) (zip (x # xs) xs) (syms, zeros, word_of_nat n, word_of_nat c))
    = (syms @ map (\<lambda>q. q ! l) (nodes (x # xs) (Suc l)),
       zeros @ map word_of_nat (partial_sums n (run_lengths c (map (take l) (nodes (x # xs) (Suc l))))),
       word_of_nat (n + sum_list (run_lengths c (map (take l) (nodes (x # xs) (Suc l))))))"
proof (induction xs arbitrary: x syms zeros n c)
  case Nil
  then show ?case using assms by (simp add: close_level_def nodes_def add_ac)
next
  case (Cons y ys)
  obtain R where R: "nodes (y # ys) (Suc l) = take (Suc l) (row_list y) # R" using nodes_hd by blast
  have top: "close_level l (x # y # ys) st = close_level l (y # ys) st" for st by (simp add: close_level_def)
  have cut: "take l (take (Suc l) zs) = take l zs" for zs :: "u32 list" by (simp add: min_def)
  consider (same) "take (Suc l) (row_list x) = take (Suc l) (row_list y)"
    | (group) "take (Suc l) (row_list x) \<noteq> take (Suc l) (row_list y)" "take l (row_list x) = take l (row_list y)"
    | (other) "take (Suc l) (row_list x) \<noteq> take (Suc l) (row_list y)" "take l (row_list x) \<noteq> take l (row_list y)"
    by blast
  then show ?case
  proof cases
    case same
    then show ?thesis using Cons.IH [of y syms zeros n c] by (simp add: top nodes_Cons2 level_step_def)
  next
    case group
    have "level_step l (x, y) (syms, zeros, word_of_nat n, word_of_nat c) = (syms @ [row_list x ! l], zeros, word_of_nat n, word_of_nat (Suc c))"
      using group by (simp add: level_step_def add.commute)
    moreover have "run_lengths c (map (take l) (nodes (x # y # ys) (Suc l))) = run_lengths (Suc c) (map (take l) (nodes (y # ys) (Suc l)))"
      using group by (simp add: nodes_Cons2 R cut)
    ultimately show ?thesis using Cons.IH [of y "syms @ [row_list x ! l]" zeros n "Suc c"] group assms by (simp add: top nodes_Cons2)
  next
    case other
    have step: "level_step l (x, y) (syms, zeros, word_of_nat n, word_of_nat c)
        = (syms @ [row_list x ! l], zeros @ [word_of_nat (n + Suc c)], word_of_nat (n + Suc c), word_of_nat 0)"
      using other by (simp add: level_step_def Let_def add_ac)
    have "run_lengths c (map (take l) (nodes (x # y # ys) (Suc l))) = Suc c # run_lengths 0 (map (take l) (nodes (y # ys) (Suc l)))"
      using other by (simp add: nodes_Cons2 R cut)
    then show ?thesis using Cons.IH [of y "syms @ [row_list x ! l]" "zeros @ [word_of_nat (n + Suc c)]" "n + Suc c" 0] other assms step
      by (simp only: top zip_Cons_Cons fold_simps nodes_Cons2 if_False partial_sums.simps list.map append_assoc append_Cons append_Nil sum_list.Cons add.assoc) simp
  qed
qed

lemma sum_run_lengths: "ks \<noteq> [] \<Longrightarrow> sum_list (run_lengths c ks) = c + length ks"
  by (induction c ks rule: run_lengths.induct) simp_all

lemma sym_level_spec:
  assumes "T \<noteq> []" "sorted T" "l < 3"
  shows "sym_level T l (syms, zeros, word_of_nat n, base)
    = (syms @ map last (nodes T (Suc l)), zeros @ map word_of_nat (partial_sums n (map (\<lambda>p. length (kids T l p)) (nodes T l))),
       word_of_nat (n + length (nodes T (Suc l))), if l = 2 then length syms else base)"
proof -
  obtain x xs where T: "T = x # xs" using assms(1) by (cases T) auto
  have "nodes T (Suc l) \<noteq> []" using nodes_hd [of x xs "Suc l"] T by auto
  then have total: "sum_list (run_lengths 0 (map (take l) (nodes T (Suc l)))) = length (nodes T (Suc l))"
    by (simp add: sum_run_lengths)
  have "map last (nodes T (Suc l)) = map (\<lambda>q. q ! l) (nodes T (Suc l))"
  proof (rule map_cong [OF refl])
    fix q assume "q \<in> set (nodes T (Suc l))"
    then have "length q = Suc l" using assms(3) node_length by fastforce
    then show "last q = q ! l" by (cases q rule: rev_cases) auto
  qed
  moreover have "sym_level T l (syms, zeros, word_of_nat n, base)
      = (case close_level l T (fold (level_step l) (zip T (tl T)) (syms, zeros, word_of_nat n, word_of_nat 0)) of
           (syms', zeros', cum) \<Rightarrow> (syms', zeros', cum, if l = 2 then length syms else base))"
    by (simp add: sym_level_def close_level_def split: prod.splits)
  ultimately show ?thesis
    using fold_level [OF assms(3), of x xs syms zeros n 0] total kid_counts_level [OF assms(2), of l] by (simp add: T)
qed

text \<open>A trie that stands for a sorted list of rows.\<close>

definition trie_for :: "compact_trie \<Rightarrow> trie_row list \<Rightarrow> bool" where
  "trie_for tr T \<longleftrightarrow>
     T \<noteq> [] \<and> sorted T \<and> bv_ok (ct_bv tr) (handles T) \<and> bv_len (ct_bv tr) = Suc (length (level_order T))
     \<and> (\<forall>i < length (level_order T). sym tr i = last (level_order T ! i))
     \<and> is_len (ct_seq tr) = length (level_order T) \<and> ct_leaf_base tr = length (nodes T 1) + length (nodes T 2)"

lemma last_handle: "sorted T \<Longrightarrow> sum_list (kid_counts T) = length (level_order T)"
proof -
  assume "sorted T"
  then have "length (level_order T) = length (concat (map (\<lambda>(l, p). kids T l p) (inner T)))" by (simp add: concat_inner)
  also have "\<dots> = sum_list (kid_counts T)" by (simp add: kid_counts_def length_concat comp_def split_def)
  finally show ?thesis by simp
qed

lemma handle_bounds:
  assumes "sorted T"
  shows "sorted_wrt (<) (handles T)" "h \<in> set (handles T) \<Longrightarrow> h < Suc (length (level_order T))"
proof -
  show srt: "sorted_wrt (<) (handles T)" unfolding handles_def using kid_counts_pos by (intro strict_partial_sums) blast
  assume "h \<in> set (handles T)"
  then obtain i where "i < length (handles T)" "h = handles T ! i" unfolding in_set_conv_nth by blast
  then have "i \<le> length (kid_counts T)" "h = handles T ! i" by (simp_all add: handles_def)
  then have "h = sum_list (take i (kid_counts T))" using nth_partial_sums [of i "kid_counts T" 0] by (simp add: handles_def)
  also have "\<dots> \<le> sum_list (kid_counts T)"
    by (metis append_take_drop_id le_add1 sum_list_append)
  finally show "h < Suc (length (level_order T))" using last_handle [OF assms] by simp
qed

lemma from_sorted_ok:
  assumes "from_sorted T = Some tr" "T \<noteq> []" "sorted T"
  shows "trie_for tr T"
proof -
  let ?syms = "map last (level_order T)" and ?zeros = "map word_of_nat (handles T) :: u32 list"
  let ?c = "\<lambda>l. map (\<lambda>p. length (kids T l p)) (nodes T l)" and ?n = "\<lambda>l. length (nodes T l)"
  have sums: "sum_list (?c l) = ?n (Suc l)" for l
    using arg_cong [OF concat_kids [OF assms(3), of l], of length] by (simp add: length_concat comp_def)
  note level = sym_level_spec [OF assms(2,3)]
  have three: "[0..<3] = [0, 1, 2 :: nat]" by (simp add: upt_rec)
  have counts: "kid_counts T = ?c 0 @ ?c 1 @ ?c 2" by (simp add: kid_counts_def inner_def three comp_def)
  have zs: "handles T = 0 # partial_sums 0 (?c 0) @ partial_sums (?n 1) (?c 1) @ partial_sums (?n 1 + ?n 2) (?c 2)"
    unfolding handles_def counts partial_sums_append sum_list_append sums by (simp add: numeral_2_eq_2)
  have l0: "sym_level T 0 ([], [0], word_of_nat 0, 0) = (map last (nodes T 1), [0] @ map word_of_nat (partial_sums 0 (?c 0)), word_of_nat (?n 1), 0)"
    using level [of 0 "[]" "[0]" 0 0] by simp
  have l1: "sym_level T 1 (map last (nodes T 1), [0] @ map word_of_nat (partial_sums 0 (?c 0)), word_of_nat (?n 1), 0)
      = (map last (nodes T 1 @ nodes T 2), [0] @ map word_of_nat (partial_sums 0 (?c 0) @ partial_sums (?n 1) (?c 1)), word_of_nat (?n 1 + ?n 2), 0)"
    using level [of 1 "map last (nodes T 1)" "[0] @ map word_of_nat (partial_sums 0 (?c 0))" "?n 1" 0] by (simp add: numeral_2_eq_2)
  have l2: "sym_level T 2 (map last (nodes T 1 @ nodes T 2), [0] @ map word_of_nat (partial_sums 0 (?c 0) @ partial_sums (?n 1) (?c 1)), word_of_nat (?n 1 + ?n 2), 0)
      = (?syms, ?zeros, word_of_nat (length (level_order T)), length (nodes T 1) + length (nodes T 2))"
    using level [of 2 "map last (nodes T 1 @ nodes T 2)" "[0] @ map word_of_nat (partial_sums 0 (?c 0) @ partial_sums (?n 1) (?c 1))" "?n 1 + ?n 2" 0]
    by (simp add: zs level_order_def numeral_3_eq_3)
  have "fold (sym_level T) [0..<3] ([], [0], word_of_nat 0, 0) = (?syms, ?zeros, word_of_nat (length (level_order T)), length (nodes T 1) + length (nodes T 2))"
    unfolding three by (simp only: fold_simps l0 l1 l2)
  then have tr: "map_option (\<lambda>bv. \<lparr>ct_bv = bv, ct_seq = seq_from_slice ?syms, ct_leaf_base = length (nodes T 1) + length (nodes T 2)\<rparr>)
      (from_zero_positions (Suc (length (level_order T))) ?zeros) = Some tr"
    using assms(1,2) by (simp add: from_sorted_def)
  then obtain bv where bv: "from_zero_positions (Suc (length (level_order T))) ?zeros = Some bv"
    and tr: "tr = \<lparr>ct_bv = bv, ct_seq = seq_from_slice ?syms, ct_leaf_base = length (nodes T 1) + length (nodes T 2)\<rparr>" by auto
  have "length (level_order T) < 2 ^ 32 - 2" using bv by (auto simp: from_zero_positions_def Let_def split: if_splits)
  then have "unat (word_of_nat h :: u32) = h" if "h \<in> set (handles T)" for h
    using handle_bounds(2) [OF assms(3) that] by (simp add: unat_of_nat take_bit_nat_eq_self)
  then have zeros: "map unat ?zeros = handles T" by (simp add: comp_def map_idI)
  have "\<forall>p \<in> set ?zeros. unat p < Suc (length (level_order T))"
    using handle_bounds(2) [OF assms(3)] zeros by (metis imageI list.set_map)
  then have "bv_ok bv (handles T)" "bv_len bv = Suc (length (level_order T))"
    using from_zero_positions_ok [OF bv] handle_bounds(1) [OF assms(3)] by (simp_all only: zeros)
  moreover have "sym tr i = last (level_order T ! i)" if "i < length (level_order T)" for i
    using seq_get_from_slice [of i ?syms] that by (simp add: tr sym_def)
  moreover have "is_len (seq_from_slice vs) = length vs" for vs by (simp add: seq_from_slice_def Let_def)
  ultimately show ?thesis using assms(2,3) tr by (simp add: trie_for_def)
qed

section \<open>What navigation finds\<close>

definition node_at :: "trie_row list \<Rightarrow> nat \<Rightarrow> u32 list \<Rightarrow> bool" where
  "node_at T h p \<longleftrightarrow> (\<exists>k < length (inner T). inner T ! k = (length p, p) \<and> h = handles T ! k)"

definition child_values :: "trie_row list \<Rightarrow> u32 list \<Rightarrow> u32 set" where
  "child_values T p = (\<lambda>r. row_list r ! length p) ` {r \<in> set T. take (length p) (row_list r) = p}"

lemma finite_child_values [simp]: "finite (child_values T p)"
  by (simp add: child_values_def)

lemma node_at_root: "T \<noteq> [] \<Longrightarrow> node_at T 0 []"
  by (auto simp: node_at_def map_snd_inner handles_def intro!: exI [of _ 0])

lemma handle_sum: "k \<le> length (inner T) \<Longrightarrow> handles T ! k = sum_list (map length (take k (map (\<lambda>(l, p). kids T l p) (inner T))))"
  using nth_partial_sums [of k "kid_counts T" 0] by (simp add: handles_def kid_counts_def take_map comp_def split_def)

lemma length_handles [simp]: "length (handles T) = Suc (length (inner T))"
  by (simp add: handles_def kid_counts_def)

lemma handle_Suc: "k < length (inner T) \<Longrightarrow> inner T ! k = (l, p) \<Longrightarrow> handles T ! Suc k = handles T ! k + length (kids T l p)"
  by (simp add: handle_sum take_Suc_conv_app_nth)

lemma node_kid:
  assumes "trie_for tr T" "node_at T h p" "j < length (kids T (length p) p)"
  shows "h + j < length (level_order T)" "level_order T ! (h + j) = kids T (length p) p ! j"
    "sym tr (h + j) = last (kids T (length p) p ! j)"
proof -
  have srt: "sorted T" using assms(1) by (simp add: trie_for_def)
  obtain k where k: "k < length (inner T)" "inner T ! k = (length p, p)" "h = handles T ! k"
    using assms(2) unfolding node_at_def by blast
  let ?xss = "map (\<lambda>(l, p). kids T l p) (inner T)"
  have "concat ?xss ! (sum_list (map length (take k ?xss)) + j) = ?xss ! k ! j"
    using k assms(3) by (intro concat_nth_sum) simp_all
  then show nth: "level_order T ! (h + j) = kids T (length p) p ! j"
    using k handle_sum [of k T] by (simp add: concat_inner [OF srt])
  have "handles T ! Suc k \<in> set (handles T)" using k(1) by (intro nth_mem) simp
  then have "handles T ! Suc k < Suc (length (level_order T))" by (rule handle_bounds(2) [OF srt])
  then show len: "h + j < length (level_order T)" using handle_Suc [OF k(1,2)] k(3) assms(3) by simp
  then show "sym tr (h + j) = last (kids T (length p) p ! j)" using assms(1) nth by (simp add: trie_for_def)
qed

lemma kids_nonempty: "node_at T h p \<Longrightarrow> kids T (length p) p \<noteq> []"
proof -
  assume "node_at T h p"
  then have "(length p, p) \<in> set (inner T)" by (auto simp: node_at_def) (metis nth_mem)
  then have "length (kids T (length p) p) \<in> set (kid_counts T)" by (force simp: kid_counts_def)
  then show ?thesis using kid_counts_pos by fastforce
qed

lemma children_count:
  assumes "trie_for tr T" "node_at T h p"
  shows "children tr h = length (kids T (length p) p)"
proof -
  have srt: "sorted T" and ok: "bv_ok (ct_bv tr) (handles T)" using assms(1) by (simp_all add: trie_for_def)
  obtain k where k: "k < length (inner T)" "inner T ! k = (length p, p)" "h = handles T ! k"
    using assms(2) unfolding node_at_def by blast
  note above = strict_sorted_above [OF handle_bounds(1) [OF srt], of k]
  have "succ0 (ct_bv tr) (h + 1) = handles T ! Suc k"
    using above k unfolding succ0_next [OF ok] by (auto simp: next_zero_def split: list.split)
  then show ?thesis using handle_Suc [OF k(1,2)] k(3) by (simp add: children_def)
qed

lemma level_order_inner:
  assumes "T \<noteq> []" "i < length (level_order T)" "length (level_order T ! i) < 3"
  shows "Suc i < length (inner T)" "inner T ! Suc i = (length (level_order T ! i), level_order T ! i)"
proof -
  let ?N = "nodes T 1 @ nodes T 2"
  have M: "level_order T = ?N @ nodes T 3" by (simp add: level_order_def)
  have "i < length ?N"
  proof (rule ccontr)
    assume "\<not> i < length ?N"
    then have "level_order T ! i \<in> set (nodes T 3)" using assms(2) unfolding M by (metis length_append nth_append nth_mem add_diff_inverse_nat nat_add_left_cancel_less)
    then show False using node_length [of _ T 3] assms(3) by auto
  qed
  then show "Suc i < length (inner T)" "inner T ! Suc i = (length (level_order T ! i), level_order T ! i)"
    unfolding map_snd_inner [OF assms(1)] M nth_Cons_Suc by (simp_all only: length_map list.size nth_map nth_append if_True)
qed

lemma node_handle_at:
  assumes "trie_for tr T" "i < length (level_order T)" "level_order T ! i = q" "length q < 3"
  shows "\<exists>h. node_handle tr i = Some h \<and> node_at T h q"
proof -
  have T: "T \<noteq> []" and ok: "bv_ok (ct_bv tr) (handles T)" using assms(1) by (simp_all add: trie_for_def)
  note inner = level_order_inner [OF T assms(2), unfolded assms(3), OF assms(4)]
  have "node_handle tr i = Some (handles T ! Suc i)"
    using select0_nth [OF ok, of "i + 2"] inner(1) by (simp add: node_handle_def)
  then show ?thesis using inner by (auto simp: node_at_def)
qed

text \<open>The children of a node carry the values of the rows below it, in order.\<close>

lemma kid_prefix: "q \<in> set (kids T (length p) p) \<Longrightarrow> length p < 3 \<Longrightarrow> q = p @ [last q]"
proof -
  assume "q \<in> set (kids T (length p) p)" "length p < 3"
  then have q: "take (length p) q = p" "length q = Suc (length p)" using node_length [of q T "Suc (length p)"] by (auto simp: kids_def)
  have "q = take (length p) q @ drop (length p) q" by simp
  moreover have "drop (length p) q = [last q]" using q(2) by (cases q rule: rev_cases) auto
  ultimately show ?thesis using q(1) by simp
qed

lemma set_kids: "length p < 3 \<Longrightarrow> last ` set (kids T (length p) p) = child_values T p"
proof -
  assume p: "length p < 3"
  have "last (take (Suc l) zs) = zs ! l" if "l < length zs" for l and zs :: "u32 list"
    using that by (simp add: take_Suc_conv_app_nth)
  then have "(\<lambda>r. last (take (Suc (length p)) (row_list r))) ` {r \<in> set T. take (length p) (row_list r) = p} = child_values T p"
    using p by (simp add: child_values_def)
  moreover have "set (kids T (length p) p) = (\<lambda>r. take (Suc (length p)) (row_list r)) ` {r \<in> set T. take (length p) (row_list r) = p}"
  proof -
    have pick: "{q \<in> f ` S. P q} = f ` {r \<in> S. P (f r)}" for f :: "trie_row \<Rightarrow> u32 list" and S P by blast
    show ?thesis by (simp add: kids_def nodes_def pick min_def)
  qed
  ultimately show ?thesis by (simp add: image_image)
qed

lemma sorted_kids:
  assumes "sorted T" "length p < 3"
  shows "map last (kids T (length p) p) = sorted_list_of_set (child_values T p)"
proof -
  let ?n = "length p"
  have le: "row_list r ! ?n \<le> row_list r' ! ?n" if "r \<le> r'" "take ?n (row_list r) = take ?n (row_list r')" for r r'
    using that assms(2) by (cases r; cases r') (auto simp: less_Suc_eq numeral_3_eq_3 take_Cons' nth_Cons' split: if_splits)
  have inj: "inj_on last (set (kids T ?n p))"
    by (rule inj_onI) (use kid_prefix [OF _ assms(2)] in metis)
  have "sorted_wrt (\<lambda>q q'. take ?n q = take ?n q' \<longrightarrow> last q \<le> last q') (nodes T (Suc ?n))"
    unfolding nodes_def
  proof (rule sorted_wrt_remdups_adj)
    show "sorted_wrt (\<lambda>q q'. take ?n q = take ?n q' \<longrightarrow> last q \<le> last q') (map (\<lambda>r. take (Suc ?n) (row_list r)) T)"
      unfolding sorted_wrt_map using assms(1)
      by (rule sorted_wrt_mono_rel [rotated]) (use le assms(2) in \<open>simp add: min_def take_Suc_conv_app_nth\<close>)
  qed
  then have "sorted_wrt (\<lambda>q q'. take ?n q = take ?n q' \<longrightarrow> last q \<le> last q') (kids T ?n p)"
    unfolding kids_def by (rule sorted_wrt_filter)
  then have "sorted_wrt (\<lambda>q q'. last q \<le> last q') (kids T ?n p)"
    by (rule sorted_wrt_mono_rel [rotated]) (simp add: kids_def)
  then have "sorted (map last (kids T ?n p))" by (simp add: sorted_wrt_map)
  moreover have "distinct (map last (kids T ?n p))"
    using inj distinct_nodes [OF assms(1), of "Suc ?n"] by (simp add: distinct_map kids_def)
  ultimately show ?thesis
    using set_kids [OF assms(2), of T] by (metis list.set_map sorted_list_of_set.idem_if_sorted_distinct)
qed

text \<open>The binary search in a block of ascending symbols.\<close>

lemma seek_pos_least:
  assumes "lo \<le> hi" "v \<le> seq_get s hi" "\<And>i j. lo \<le> i \<Longrightarrow> i \<le> j \<Longrightarrow> j \<le> hi \<Longrightarrow> seq_get s i \<le> seq_get s j"
  shows "lo \<le> seek_pos s v lo hi \<and> seek_pos s v lo hi \<le> hi \<and> v \<le> seq_get s (seek_pos s v lo hi)
    \<and> (\<forall>i. lo \<le> i \<longrightarrow> i < seek_pos s v lo hi \<longrightarrow> seq_get s i < v)"
  using assms
proof (induction s v lo hi rule: seek_pos.induct)
  case (1 s v lo hi)
  let ?mid = "(lo + hi) div 2"
  show ?case
  proof (cases "lo < hi")
    case False
    then have "seek_pos s v lo hi = lo" by (simp add: seek_pos.simps [of s v lo hi])
    then show ?thesis using False 1(3,4) by simp
  next
    case lt: True
    then have mid: "lo \<le> ?mid" "?mid < hi" by simp_all
    show ?thesis
    proof (cases "seq_get s ?mid < v")
      case True
      have eq: "seek_pos s v lo hi = seek_pos s v (?mid + 1) hi" using lt True by (simp add: seek_pos.simps [of s v lo hi])
      have IH: "?mid + 1 \<le> seek_pos s v (?mid + 1) hi \<and> seek_pos s v (?mid + 1) hi \<le> hi \<and> v \<le> seq_get s (seek_pos s v (?mid + 1) hi)
          \<and> (\<forall>i. ?mid + 1 \<le> i \<longrightarrow> i < seek_pos s v (?mid + 1) hi \<longrightarrow> seq_get s i < v)"
        using 1(5) mid by (intro 1(1) [OF lt refl True] 1(4)) auto
      have "seq_get s i < v" if i: "lo \<le> i" "i \<le> ?mid" for i
        using 1(5) [of i ?mid] i mid True by (auto intro: order.strict_trans1)
      then have "\<forall>i. lo \<le> i \<longrightarrow> i < seek_pos s v (?mid + 1) hi \<longrightarrow> seq_get s i < v"
        using IH by (metis Suc_eq_plus1 not_less_eq_eq)
      then show ?thesis unfolding eq using IH mid by simp
    next
      case False
      have eq: "seek_pos s v lo hi = seek_pos s v lo ?mid" using lt False by (simp add: seek_pos.simps [of s v lo hi])
      have "lo \<le> seek_pos s v lo ?mid \<and> seek_pos s v lo ?mid \<le> ?mid \<and> v \<le> seq_get s (seek_pos s v lo ?mid)
          \<and> (\<forall>i. lo \<le> i \<longrightarrow> i < seek_pos s v lo ?mid \<longrightarrow> seq_get s i < v)"
        using 1(5) mid False by (intro 1(2) [OF lt refl False]) auto
      then show ?thesis unfolding eq using mid by simp
    qed
  qed
qed

text \<open>A seek in the block of a node finds the child with the least value from a bound on.\<close>

lemma trie_seek_least:
  assumes "trie_for tr T" "node_at T h p" "length p < 3"
  defines "e \<equiv> h + children tr h - 1"
  shows "map_option fst (trie_seek tr v h e) = least_from v (child_values T p)"
    and "trie_seek tr v h e = Some (w, i) \<Longrightarrow> i < length (level_order T) \<and> level_order T ! i = p @ [w]"
proof -
  let ?ks = "kids T (length p) p"
  have srt: "sorted T" using assms(1) by (simp add: trie_for_def)
  have pos: "0 < length ?ks" using kids_nonempty [OF assms(2)] by simp
  have e: "e = h + (length ?ks - 1)" unfolding e_def children_count [OF assms(1,2)] using pos by linarith
  have get: "seq_get (ct_seq tr) (h + j) = map last ?ks ! j" if "j < length ?ks" for j
    using node_kid(3) [OF assms(1,2) that] that by (simp add: sym_def)
  have vals: "map last ?ks = sorted_list_of_set (child_values T p)" by (rule sorted_kids [OF srt assms(3)])
  have mono: "seq_get (ct_seq tr) i \<le> seq_get (ct_seq tr) j" if ij: "h \<le> i" "i \<le> j" "j \<le> e" for i j
  proof -
    have "sorted (map last ?ks)" unfolding vals by simp
    moreover have near: "i - h \<le> j - h" "j - h < length ?ks" "i - h < length ?ks" "h + (i - h) = i" "h + (j - h) = j"
      using ij e pos by linarith+
    ultimately have "map last ?ks ! (i - h) \<le> map last ?ks ! (j - h)" by (intro sorted_nth_mono) simp_all
    then show ?thesis using get [OF near(2)] get [OF near(3)] near(4,5) by simp
  qed
  have top: "u \<le> seq_get (ct_seq tr) e" if "u \<in> child_values T p" for u
  proof -
    have "u \<in> set (map last ?ks)" using that vals by simp
    then obtain j where j: "j < length ?ks" "u = map last ?ks ! j" unfolding in_set_conv_nth by auto
    then show ?thesis using get [OF j(1)] mono [of "h + j" e] e by simp
  qed
  have member: "seq_get (ct_seq tr) (h + j) \<in> child_values T p" if "j < length ?ks" for j
    using get [OF that] that vals by (metis finite_child_values length_map nth_mem set_sorted_list_of_set)
  have "map_option fst (trie_seek tr v h e) = least_from v (child_values T p)
      \<and> (\<forall>w i. trie_seek tr v h e = Some (w, i) \<longrightarrow> i < length (level_order T) \<and> level_order T ! i = p @ [w])"
  proof (cases "seq_get (ct_seq tr) e < v")
    case True
    then have none: "least_from v (child_values T p) = None" unfolding least_from_None using top by (auto intro: order.strict_trans1)
    show ?thesis unfolding none using True by (simp add: trie_seek_def)
  next
    case False
    let ?i = "seek_pos (ct_seq tr) v h e"
    have "h \<le> e" using e by simp
    from seek_pos_least [OF this _ mono] False
    have i: "h \<le> ?i" "?i \<le> e" "v \<le> seq_get (ct_seq tr) ?i" "\<forall>i. h \<le> i \<longrightarrow> i < ?i \<longrightarrow> seq_get (ct_seq tr) i < v"
      by (simp_all add: not_less)
    have j: "?i = h + (?i - h)" "?i - h < length ?ks" using i(1,2) e pos by linarith+
    let ?w = "seq_get (ct_seq tr) ?i"
    have w: "?w \<in> child_values T p" using member [OF j(2)] i(1) by simp
    have least: "?w \<le> u" if u: "u \<in> child_values T p" "v \<le> u" for u
    proof -
      have "u \<in> set (map last ?ks)" using u(1) vals by simp
      then obtain k where k: "k < length ?ks" "u = map last ?ks ! k" unfolding in_set_conv_nth by auto
      then have uk: "u = seq_get (ct_seq tr) (h + k)" using get [OF k(1)] by simp
      then have "?i \<le> h + k" using i(4) u(2) by (metis le_add1 not_less)
      then show ?thesis unfolding uk using mono [OF i(1)] k(1) e pos by simp
    qed
    have "least_from v (child_values T p) = Some ?w" using w least i(3) by (subst least_from_Some) simp_all
    moreover have "?i < length (level_order T)" using node_kid(1) [OF assms(1,2) j(2)] i(1) by simp
    moreover have "level_order T ! ?i = p @ [?w]"
      using node_kid(2,3) [OF assms(1,2) j(2)] kid_prefix [OF nth_mem [OF j(2)] assms(3)] i(1) by (simp add: sym_def)
    ultimately show ?thesis using False by (simp add: trie_seek_def Let_def)
  qed
  then show "map_option fst (trie_seek tr v h e) = least_from v (child_values T p)"
    "trie_seek tr v h e = Some (w, i) \<Longrightarrow> i < length (level_order T) \<and> level_order T ! i = p @ [w]" by blast+
qed

end
