(* ===== verification/TrieIterators.thy ===== *)
theory TrieIterators
  imports TripleIndexes
begin

text \<open>
  The contract of the iterator of one triple pattern, and the iterator over the six sorted
  arrays (\<open>ArrayLtjIterator\<close> of \<open>src/runtime/ltj/iterator.rs\<close>) as a provider of it. An
  operation that answers \<open>None\<close> outside its own option is a panic of the code
  (\<open>unreachable!\<close>).
\<close>

section \<open>Patterns and the choice of an ordering\<close>

datatype trie_term = Variable u8 | Constant u32

type_synonym triple_pattern = "trie_term list"

text \<open>The ordering whose next level enumerates a position, given the positions already fixed.\<close>

fun after_one :: "spo_pos \<Rightarrow> spo_pos \<Rightarrow> trie_order option" where
  "after_one PosS PosP = Some SPO"
| "after_one PosS PosO = Some SOP"
| "after_one PosP PosO = Some POS"
| "after_one PosP PosS = Some PSO"
| "after_one PosO PosS = Some OSP"
| "after_one PosO PosP = Some OPS"
| "after_one _ _ = None"

fun choose_order :: "spo_pos list \<Rightarrow> spo_pos \<Rightarrow> trie_order option" where
  "choose_order [] q = Some (case q of PosS \<Rightarrow> SPO | PosP \<Rightarrow> POS | PosO \<Rightarrow> OSP)"
| "choose_order [f] q = after_one f q"
| "choose_order (f0 # f1 # _) q = after_one f0 f1"

definition pos_index :: "spo_pos list \<Rightarrow> spo_pos \<Rightarrow> nat" where
  "pos_index perm p = length (takeWhile (\<lambda>q. q \<noteq> p) perm)"

definition spo_to_depth :: "trie_order \<Rightarrow> spo_pos \<Rightarrow> nat" where
  "spo_to_depth order p = pos_index (order_perm order) p"

text \<open>The constants of a pattern with their positions, in the order S, P, O.\<close>

definition pattern_constants :: "triple_pattern \<Rightarrow> (spo_pos \<times> u32) list" where
  "pattern_constants p =
     List.map_filter (\<lambda>(pos, t). case t of Constant v \<Rightarrow> Some (pos, v) | Variable _ \<Rightarrow> None) (zip [PosS, PosP, PosO] p)"

lemma spo_pos_UNIV: "set ps \<subseteq> {PosS, PosP, PosO}"
  using spo_pos.exhaust by auto

lemma distinct_positions: "distinct (ps :: spo_pos list) \<Longrightarrow> length ps \<le> 3"
  using card_mono [OF _ spo_pos_UNIV, of ps] by (simp add: distinct_card)

lemma all_positions: "distinct (ps :: spo_pos list) \<Longrightarrow> length ps = 3 \<Longrightarrow> set ps = {PosS, PosP, PosO}"
  using card_subset_eq [OF _ spo_pos_UNIV, of ps] by (simp add: distinct_card)

lemma choose_order_depth:
  assumes "distinct (fs @ [q])"
  shows "\<exists>order. choose_order fs q = Some order \<and> take (length fs) (order_perm order) = fs
    \<and> order_perm order ! length fs = q \<and> length fs < 3"
proof -
  have "length fs < 3" using distinct_positions [OF assms] by simp
  then consider "fs = []" | f where "fs = [f]" | f g where "fs = [f, g]"
    by (cases fs rule: remdups_adj.cases) (auto simp: less_Suc_eq numeral_3_eq_3 length_Suc_conv)
  then show ?thesis
  proof cases
    case 1
    then show ?thesis by (cases q) auto
  next
    case (2 f)
    then show ?thesis using assms by (cases f; cases q) auto
  next
    case (3 f g)
    then show ?thesis using assms by (cases f; cases g; cases q) auto
  qed
qed

lemma spo_to_depth_nth: "n < 3 \<Longrightarrow> spo_to_depth order (order_perm order ! n) = n"
  by (cases order) (auto simp: spo_to_depth_def pos_index_def less_Suc_eq numeral_3_eq_3)

section \<open>The array iterator\<close>

record array_iter =
  ai_orderings :: orderings
  ai_constants :: "(spo_pos \<times> u32) list"
  ai_stack :: "(spo_pos \<times> u32) list"

definition array_new :: "triple_pattern \<Rightarrow> orderings \<Rightarrow> array_iter" where
  "array_new p os = \<lparr>ai_orderings = os, ai_constants = pattern_constants p, ai_stack = []\<rparr>"

definition effective_stack :: "array_iter \<Rightarrow> (spo_pos \<times> u32) list" where
  "effective_stack it = ai_constants it @ ai_stack it"

definition choose_ordering :: "array_iter \<Rightarrow> spo_pos \<Rightarrow> trie_order option" where
  "choose_ordering it q = choose_order (map fst (effective_stack it)) q"

definition compute_range :: "array_iter \<Rightarrow> spo_pos \<Rightarrow> (index_entry list \<times> nat \<times> nat \<times> nat) option" where
  "compute_range it q =
     (case choose_ordering it q of
        None \<Rightarrow> None
      | Some order \<Rightarrow>
          let xs = ai_orderings it order;
              (b, e) = fold (\<lambda>(pos, v) (b, e). range_for_key xs b e (spo_to_depth order pos) v) (effective_stack it) (0, length xs)
          in Some (xs, b, e, spo_to_depth order q))"

definition array_leap :: "array_iter \<Rightarrow> spo_pos \<Rightarrow> u32 \<Rightarrow> u32 option option" where
  "array_leap it q c =
     map_option (\<lambda>(xs, b, e, depth). map_option fst (index_leap xs b e depth c)) (compute_range it q)"

definition array_down :: "array_iter \<Rightarrow> spo_pos \<Rightarrow> u32 \<Rightarrow> array_iter" where
  "array_down it q v = it\<lparr>ai_stack := ai_stack it @ [(q, v)]\<rparr>"

definition array_up :: "array_iter \<Rightarrow> spo_pos \<Rightarrow> array_iter" where
  "array_up it q = it\<lparr>ai_stack := butlast (ai_stack it)\<rparr>"

definition array_seek_all :: "array_iter \<Rightarrow> spo_pos \<Rightarrow> u32 list option" where
  "array_seek_all it q = map_option (\<lambda>(xs, b, e, depth). all_values xs b e depth) (compute_range it q)"

definition array_children_count :: "array_iter \<Rightarrow> spo_pos \<Rightarrow> nat option" where
  "array_children_count it q = map_option (\<lambda>(xs, b, e, depth). distinct_count xs b e depth) (compute_range it q)"

text \<open>\<open>usize::MAX\<close>.\<close>

definition usize_max :: nat where
  "usize_max = 2 ^ 64 - 1"

definition array_subtree_size :: "array_iter \<Rightarrow> spo_pos \<Rightarrow> nat option" where
  "array_subtree_size it q =
     (if ai_constants it = [] \<and> ai_stack it = [] then Some usize_max
      else map_option (\<lambda>(xs, b, e, depth). e - b) (compute_range it q))"

definition array_in_last_level :: "array_iter \<Rightarrow> bool" where
  "array_in_last_level it \<longleftrightarrow> 2 \<le> length (ai_constants it) + length (ai_stack it)"

definition array_nfixed :: "array_iter \<Rightarrow> nat" where
  "array_nfixed it = length (ai_stack it)"

text \<open>The last value given to each position.\<close>

definition by_pos :: "(spo_pos \<times> u32) list \<Rightarrow> spo_pos \<Rightarrow> u32 option" where
  "by_pos fs p = fold (\<lambda>(q, v) r. if q = p then Some v else r) fs None"

definition current_range :: "array_iter \<Rightarrow> (index_entry list \<times> nat \<times> nat) option" where
  "current_range it =
     (let xs = ai_orderings it SPO; fs = ai_constants it @ ai_stack it
      in fold (\<lambda>(depth, p) r.
           case r of
             None \<Rightarrow> None
           | Some (xs, b, e) \<Rightarrow>
               (case by_pos fs p of
                  None \<Rightarrow> None
                | Some v \<Rightarrow> (case range_for_key xs b e depth v of (b, e) \<Rightarrow> Some (xs, b, e))))
           [(0, PosS), (1, PosP), (2, PosO)] (Some (xs, 0, length xs)))"

definition array_current_eid :: "array_iter \<Rightarrow> u32 option" where
  "array_current_eid it =
     (case current_range it of
        None \<Rightarrow> None
      | Some (xs, b, e) \<Rightarrow> if b < e then Some (edge_id (xs ! b)) else None)"

definition array_current_eids_all :: "array_iter \<Rightarrow> u32 list" where
  "array_current_eids_all it =
     (case current_range it of None \<Rightarrow> [] | Some (xs, b, e) \<Rightarrow> map edge_id (segment xs b e))"

section \<open>The contract\<close>

text \<open>The triples that agree with the positions fixed so far, and their values at a position.\<close>

definition agrees :: "(spo_pos \<times> u32) list \<Rightarrow> index_entry \<Rightarrow> bool" where
  "agrees fs t \<longleftrightarrow> list_all (\<lambda>(p, v). proj p t = v) fs"

definition values_at :: "index_entry list \<Rightarrow> (spo_pos \<times> u32) list \<Rightarrow> spo_pos \<Rightarrow> u32 set" where
  "values_at ts fs p = proj p ` {t \<in> set ts. agrees fs t}"

lemma finite_values_at [simp]: "finite (values_at ts fs p)"
  by (simp add: values_at_def)

lemma agrees_append [simp]: "agrees (fs @ gs) t \<longleftrightarrow> agrees fs t \<and> agrees gs t"
  by (simp add: agrees_def)

lemma agrees_Nil [simp]: "agrees [] t"
  by (simp add: agrees_def)

lemma agrees_one [simp]: "agrees [(p, v)] t \<longleftrightarrow> proj p t = v"
  by (simp add: agrees_def)

text \<open>
  An iterator has the constants \<open>cs\<close> of its pattern and has then fixed the positions \<open>fs\<close>. It
  leaps among the triples \<open>ts\<close>; the edges it reports are those of the triples \<open>lv\<close> among them
  (the two differ where deletions are only applied at the end).
\<close>

locale trie_iter =
  fixes leap :: "'i \<Rightarrow> spo_pos \<Rightarrow> u32 \<Rightarrow> u32 option option"
    and down :: "'i \<Rightarrow> spo_pos \<Rightarrow> u32 \<Rightarrow> 'i option"
    and up :: "'i \<Rightarrow> spo_pos \<Rightarrow> 'i"
    and seek_all :: "'i \<Rightarrow> spo_pos \<Rightarrow> u32 list option"
    and subtree_size :: "'i \<Rightarrow> spo_pos \<Rightarrow> nat option"
    and eids :: "'i \<Rightarrow> u32 list option"
    and ok :: "index_entry list \<Rightarrow> index_entry list \<Rightarrow> (spo_pos \<times> u32) list \<Rightarrow> (spo_pos \<times> u32) list \<Rightarrow> 'i \<Rightarrow> bool"
  assumes ok_distinct: "ok ts lv cs fs i \<Longrightarrow> distinct (map fst (cs @ fs))"
    and live_cands: "ok ts lv cs fs i \<Longrightarrow> set lv \<subseteq> set ts"
    and leap_least: "ok ts lv cs fs i \<Longrightarrow> p \<notin> fst ` set (cs @ fs) \<Longrightarrow> leap i p c = Some (least_from c (values_at ts (cs @ fs) p))"
    and down_fixed: "ok ts lv cs fs i \<Longrightarrow> p \<notin> fst ` set (cs @ fs) \<Longrightarrow> \<exists>i'. down i p v = Some i' \<and> ok ts lv cs (fs @ [(p, v)]) i'"
    and up_fixed: "ok ts lv cs (fs @ [f]) i \<Longrightarrow> ok ts lv cs fs (up i p)"
    and seek_all_values: "ok ts lv cs fs i \<Longrightarrow> p \<notin> fst ` set (cs @ fs) \<Longrightarrow>
      seek_all i p = Some (sorted_list_of_set (values_at ts (cs @ fs) p))"
    and subtree_size_total: "ok ts lv cs fs i \<Longrightarrow> p \<notin> fst ` set (cs @ fs) \<Longrightarrow> subtree_size i p \<noteq> None"
    and eids_live: "ok ts lv cs fs i \<Longrightarrow> length (cs @ fs) = 3 \<Longrightarrow>
      \<exists>es. eids i = Some es \<and> mset es = image_mset edge_id (filter_mset (agrees (cs @ fs)) (mset lv))"

section \<open>The provider\<close>

text \<open>An array iterator reads the orderings of one list of triples, and has fixed positions once each.\<close>

definition array_ok :: "index_entry list \<Rightarrow> array_iter \<Rightarrow> bool" where
  "array_ok ts it \<longleftrightarrow> ai_orderings it = build_orderings ts \<and> distinct (map fst (effective_stack it))"

lemma range_descent:
  assumes "sorted xs" "length fs + length gs \<le> 3" "map fst (fs @ gs) = take (length (fs @ gs)) (order_perm order)"
    and "entry_range xs b e (map snd fs)"
    and "fold (\<lambda>(pos, v) (b, e). range_for_key xs b e (spo_to_depth order pos) v) gs (b, e) = (b', e')"
  shows "entry_range xs b' e' (map snd (fs @ gs))"
  using assms(2-)
proof (induction gs arbitrary: fs b e)
  case (Cons g gs)
  obtain p v where g: "g = (p, v)" by (cases g)
  obtain b1 e1 where step: "range_for_key xs b e (spo_to_depth order p) v = (b1, e1)"
    by (cases "range_for_key xs b e (spo_to_depth order p) v")
  have "p = map fst (fs @ g # gs) ! length fs" using g by (simp add: nth_append)
  also have "\<dots> = order_perm order ! length fs" unfolding Cons.prems(2) by simp
  finally have depth: "spo_to_depth order p = length (map snd fs)" using Cons.prems(1) spo_to_depth_nth by simp
  have "entry_range xs b1 e1 (map snd fs @ [v])"
    using entry_range_key [OF assms(1) Cons.prems(3) _ step [unfolded depth]] Cons.prems(1) by simp
  then have "entry_range xs b1 e1 (map snd (fs @ [g]))" using g by simp
  from Cons.IH [OF _ _ this] show ?case using Cons.prems g step by simp
qed simp

lemma entry_range_full [simp]: "entry_range xs 0 (length xs) []"
  by (simp add: entry_range_def)

lemma agrees_reorder:
  assumes "map fst fs = take (length fs) (order_perm order)" "length fs \<le> 3"
  shows "agrees fs t \<longleftrightarrow> (\<forall>d < length fs. component (reorder order t) d = map snd fs ! d)"
proof -
  have "fst (fs ! d) = order_perm order ! d" if "d < length fs" for d
    using that arg_cong [OF assms(1), of "\<lambda>xs. xs ! d"] by simp
  then show ?thesis using assms(2) by (auto simp: agrees_def list_all_length split_beta)
qed

lemma set_range:
  assumes "entry_range (build_orderings ts order) b e (map snd fs)" "map fst fs = take (length fs) (order_perm order)" "length fs \<le> 3"
  shows "mset (segment (build_orderings ts order) b e) = image_mset (reorder order) (filter_mset (agrees fs) (mset ts))"
proof -
  have "mset (segment (build_orderings ts order) b e)
      = filter_mset (\<lambda>t. \<forall>d < length fs. component t d = map snd fs ! d) (image_mset (reorder order) (mset ts))"
    using assms(1) by (simp only: entry_range_def length_map mset_filter build_orderings_def mset_build_ordering)
  also have "\<dots> = image_mset (reorder order) (filter_mset (agrees fs) (mset ts))"
    unfolding filter_mset_image_mset comp_def agrees_reorder [OF assms(2,3), symmetric] ..
  finally show ?thesis .
qed

text \<open>The range an iterator computes for a position that is still open.\<close>

definition range_ok :: "index_entry list \<Rightarrow> (spo_pos \<times> u32) list \<Rightarrow> spo_pos \<Rightarrow> index_entry list \<Rightarrow> nat \<Rightarrow> nat \<Rightarrow> bool" where
  "range_ok ts fs p xs b e \<longleftrightarrow>
     sorted xs \<and> length fs < 3 \<and> entry_range xs b e (map snd fs)
     \<and> (\<lambda>t. component t (length fs)) ` set (segment xs b e) = values_at ts fs p
     \<and> length (segment xs b e) = length (filter (agrees fs) ts)"

lemma compute_range_spec:
  assumes "array_ok ts it" "p \<notin> fst ` set (effective_stack it)"
  shows "\<exists>xs b e. compute_range it p = Some (xs, b, e, length (effective_stack it)) \<and> range_ok ts (effective_stack it) p xs b e"
proof -
  let ?fs = "effective_stack it"
  have "distinct (map fst ?fs @ [p])" using assms by (simp add: array_ok_def)
  from choose_order_depth [OF this] obtain order where order: "choose_ordering it p = Some order"
    "map fst ?fs = take (length ?fs) (order_perm order)" "order_perm order ! length ?fs = p" "length ?fs < 3"
    unfolding choose_ordering_def length_map by metis
  let ?xs = "build_orderings ts order"
  have srt: "sorted ?xs" by (simp add: build_orderings_def sorted_build_ordering)
  obtain b e where fold: "fold (\<lambda>(pos, v) (b, e). range_for_key ?xs b e (spo_to_depth order pos) v) ?fs (0, length ?xs) = (b, e)"
    by (cases "fold (\<lambda>(pos, v) (b, e). range_for_key ?xs b e (spo_to_depth order pos) v) ?fs (0, length ?xs)")
  have range: "entry_range ?xs b e (map snd ?fs)"
    using range_descent [OF srt, of "[]" ?fs order 0 "length ?xs"] order fold by simp
  have d: "spo_to_depth order p = length ?fs" using spo_to_depth_nth [OF order(4), of order] order(3) by simp
  have comp: "compute_range it p = Some (?xs, b, e, length ?fs)"
    using order(1) fold assms(1) d by (simp add: compute_range_def Let_def array_ok_def)
  have seg: "mset (segment ?xs b e) = image_mset (reorder order) (filter_mset (agrees ?fs) (mset ts))"
    using set_range [OF range order(2)] order(4) by simp
  have "set (segment ?xs b e) = reorder order ` {t \<in> set ts. agrees ?fs t}"
    using arg_cong [OF seg, of set_mset] by simp
  moreover have "component (reorder order t) (length ?fs) = proj p t" for t using order(3,4) by simp
  ultimately have vals: "(\<lambda>t. component t (length ?fs)) ` set (segment ?xs b e) = values_at ts ?fs p"
    by (simp add: values_at_def image_image)
  have "length (segment ?xs b e) = length (filter (agrees ?fs) ts)"
    using arg_cong [OF seg, of size] by (simp only: size_mset size_image_mset mset_filter [symmetric])
  with comp srt order(4) range vals show ?thesis by (simp add: range_ok_def)
qed

lemma array_leap_least:
  assumes "array_ok ts it" "p \<notin> fst ` set (effective_stack it)"
  shows "array_leap it p c = Some (least_from c (values_at ts (effective_stack it) p))"
proof -
  obtain xs b e where r: "compute_range it p = Some (xs, b, e, length (effective_stack it))" "range_ok ts (effective_stack it) p xs b e"
    using compute_range_spec [OF assms] by blast
  then show ?thesis using index_leap_least [of xs b e "map snd (effective_stack it)" c] by (simp add: array_leap_def range_ok_def)
qed

lemma array_values:
  assumes "array_ok ts it" "p \<notin> fst ` set (effective_stack it)"
  shows "array_seek_all it p = Some (sorted_list_of_set (values_at ts (effective_stack it) p))"
    "array_children_count it p = Some (card (values_at ts (effective_stack it) p))"
    "array_subtree_size it p = Some (if effective_stack it = [] then usize_max else length (filter (agrees (effective_stack it)) ts))"
proof -
  obtain xs b e where r: "compute_range it p = Some (xs, b, e, length (effective_stack it))" "range_ok ts (effective_stack it) p xs b e"
    using compute_range_spec [OF assms] by blast
  then have bound: "e \<le> length xs" by (simp add: range_ok_def entry_range_def)
  have vals: "all_values xs b e (length (effective_stack it)) = sorted_list_of_set (values_at ts (effective_stack it) p)"
    using all_values_sorted [of xs b e "map snd (effective_stack it)"] r(2) by (simp add: range_ok_def)
  show "array_seek_all it p = Some (sorted_list_of_set (values_at ts (effective_stack it) p))"
    using r(1) vals by (simp add: array_seek_all_def)
  show "array_children_count it p = Some (card (values_at ts (effective_stack it) p))"
    using r(1) vals distinct_count_values [OF bound] by (simp add: array_children_count_def)
  show "array_subtree_size it p = Some (if effective_stack it = [] then usize_max else length (filter (agrees (effective_stack it)) ts))"
    using r length_segment [OF bound] by (simp add: array_subtree_size_def effective_stack_def range_ok_def)
qed

text \<open>The edges of a triple that is bound in all positions.\<close>

lemma by_pos_fixed: "distinct (map fst fs) \<Longrightarrow> (p, v) \<in> set fs \<Longrightarrow> by_pos fs p = Some v"
proof -
  have "fold (\<lambda>(q, v) r. if q = p then Some v else r) fs r = (case map_of (rev fs) p of None \<Rightarrow> r | Some v \<Rightarrow> Some v)" for r
    by (induction fs arbitrary: r) (auto simp: map_add_def split: option.splits)
  moreover assume "distinct (map fst fs)" "(p, v) \<in> set fs"
  then have "map_of (rev fs) p = Some v" by (intro map_of_is_SomeI) (simp_all add: rev_map [symmetric])
  ultimately show ?thesis by (simp add: by_pos_def)
qed

lemma agrees_set: "agrees fs t \<longleftrightarrow> (\<forall>(p, v) \<in> set fs. proj p t = v)"
  by (auto simp: agrees_def list_all_iff)

lemma array_eids:
  assumes "array_ok ts it" "length (effective_stack it) = 3"
  shows "mset (array_current_eids_all it) = image_mset edge_id (filter_mset (agrees (effective_stack it)) (mset ts))"
proof -
  let ?fs = "effective_stack it" and ?xs = "build_orderings ts SPO"
  have dist: "distinct (map fst ?fs)" using assms(1) by (simp add: array_ok_def)
  have all: "fst ` set ?fs = {PosS, PosP, PosO}" using all_positions [OF dist] assms(2) by simp
  have "\<exists>v. (p, v) \<in> set ?fs" for p
  proof -
    have "p \<in> fst ` set ?fs" unfolding all by (cases p) simp_all
    then show ?thesis by auto
  qed
  then obtain s p o' where spo: "(PosS, s) \<in> set ?fs" "(PosP, p) \<in> set ?fs" "(PosO, o') \<in> set ?fs" by blast
  let ?gs = "[(PosS, s), (PosP, p), (PosO, o')]"
  have "set ?gs = set ?fs"
  proof (rule card_subset_eq)
    have "card (set ?fs) = 3" using distinct_card [of ?fs] dist assms(2) by (simp add: distinct_map)
    then show "card (set ?gs) = card (set ?fs)" by simp
  qed (use spo in auto)
  then have agr: "agrees ?gs = agrees ?fs" by (simp add: agrees_set fun_eq_iff)
  note pos = by_pos_fixed [OF dist spo(1)] by_pos_fixed [OF dist spo(2)] by_pos_fixed [OF dist spo(3)]
  obtain b e where fold: "fold (\<lambda>(pos, v) (b, e). range_for_key ?xs b e (spo_to_depth SPO pos) v) ?gs (0, length ?xs) = (b, e)"
    by (cases "fold (\<lambda>(pos, v) (b, e). range_for_key ?xs b e (spo_to_depth SPO pos) v) ?gs (0, length ?xs)")
  have depths: "spo_to_depth SPO PosS = 0" "spo_to_depth SPO PosP = 1" "spo_to_depth SPO PosO = 2"
    by (simp_all add: spo_to_depth_def pos_index_def)
  have srt: "sorted ?xs" by (simp add: build_orderings_def sorted_build_ordering)
  have range: "entry_range ?xs b e (map snd ?gs)"
    using range_descent [OF srt, of "[]" ?gs SPO 0 "length ?xs" b e] fold by simp
  have "current_range it = Some (?xs, b, e)"
    using assms(1) fold pos unfolding current_range_def array_ok_def effective_stack_def [symmetric] Let_def
    by (simp add: depths split: prod.splits)
  then have "mset (array_current_eids_all it) = image_mset edge_id (mset (segment ?xs b e))"
    by (simp add: array_current_eids_all_def)
  also have "\<dots> = image_mset edge_id (filter_mset (agrees ?fs) (mset ts))"
    using set_range [OF range] agr by (simp add: image_mset.compositionality comp_def)
  finally show ?thesis .
qed

lemma distinct_fixed_snoc: "distinct (map fst (cs @ fs @ [f])) \<Longrightarrow> distinct (map fst (cs @ fs))"
  by (metis append_assoc distinct_append map_append)

definition array_at :: "index_entry list \<Rightarrow> index_entry list \<Rightarrow> (spo_pos \<times> u32) list \<Rightarrow> (spo_pos \<times> u32) list \<Rightarrow> array_iter \<Rightarrow> bool" where
  "array_at ts lv cs fs it \<longleftrightarrow> lv = ts \<and> array_ok ts it \<and> ai_constants it = cs \<and> ai_stack it = fs"

lemma array_at_stack: "array_at ts lv cs fs it \<Longrightarrow> effective_stack it = cs @ fs"
  by (simp add: array_at_def effective_stack_def)

interpretation array_it: trie_iter array_leap "\<lambda>it p v. Some (array_down it p v)" array_up array_seek_all array_subtree_size
    "\<lambda>it. Some (array_current_eids_all it)" array_at
proof
  fix ts lv cs fs it p v c f
  show "array_at ts lv cs fs (array_up it p)" if "array_at ts lv cs (fs @ [f]) it"
  proof -
    have "distinct (map fst (cs @ fs @ [f]))" using that array_at_stack [OF that] by (simp add: array_at_def array_ok_def)
    from distinct_fixed_snoc [OF this] show ?thesis using that
      by (simp add: array_at_def array_ok_def array_up_def effective_stack_def)
  qed
  assume at: "array_at ts lv cs fs it"
  then have lv: "lv = ts" and ok: "array_ok ts it" by (simp_all add: array_at_def)
  note stack = array_at_stack [OF at]
  show "distinct (map fst (cs @ fs))" using ok stack by (simp add: array_ok_def)
  show "set lv \<subseteq> set ts" by (simp add: lv)
  show "\<exists>es. Some (array_current_eids_all it) = Some es \<and> mset es = image_mset edge_id (filter_mset (agrees (cs @ fs)) (mset lv))"
    if "length (cs @ fs) = 3"
    using array_eids [OF ok] that lv stack by simp
  assume p: "p \<notin> fst ` set (cs @ fs)"
  then have p': "p \<notin> fst ` set (effective_stack it)" by (simp only: stack not_False_eq_True)
  show "array_leap it p c = Some (least_from c (values_at ts (cs @ fs) p))" using array_leap_least [OF ok p'] by (simp only: stack)
  show "array_seek_all it p = Some (sorted_list_of_set (values_at ts (cs @ fs) p))" using array_values(1) [OF ok p'] by (simp only: stack)
  show "array_subtree_size it p \<noteq> None" using array_values(3) [OF ok p'] by simp
  show "\<exists>it'. Some (array_down it p v) = Some it' \<and> array_at ts lv cs (fs @ [(p, v)]) it'"
    using at p by (auto simp: array_at_def array_ok_def array_down_def effective_stack_def)
qed

lemma array_new_at:
  assumes "length ps = 3"
  shows "array_at ts ts (pattern_constants ps) [] (array_new ps (build_orderings ts))"
proof -
  have "distinct (map fst (pattern_constants ps))"
    using assms by (auto simp: length_Suc_conv numeral_3_eq_3 pattern_constants_def map_filter_simps split: trie_term.splits)
  then show ?thesis by (simp add: array_at_def array_ok_def array_new_def effective_stack_def)
qed

end
