(* ===== verification/CompactIndexes.thy ===== *)
theory CompactIndexes
  imports CompactTries TrieIterators
begin

text \<open>
  The index of six succinct tries with the table of the edges of each leaf
  (\<open>CompactTripleIndex\<close> of \<open>src/runtime/ltj/compact.rs\<close>).
\<close>

section \<open>Building the index\<close>

record compact_index =
  ci_tries :: "compact_trie list"
  ci_leaf_offsets :: "u32 list"
  ci_leaf_eids :: "u32 list"
  ci_raw_len :: nat

definition ORDERS :: "nat list list" where
  "ORDERS = [[0, 1, 2], [0, 2, 1], [1, 2, 0], [1, 0, 2], [2, 0, 1], [2, 1, 0]]"

fun order_index :: "trie_order \<Rightarrow> nat" where
  "order_index SPO = 0"
| "order_index SOP = 1"
| "order_index POS = 2"
| "order_index PSO = 3"
| "order_index OSP = 4"
| "order_index OPS = 5"

fun spo :: "index_entry \<Rightarrow> trie_row" where
  "spo (s, p, o', e) = (s, p, o')"

definition leaf_step :: "index_entry \<Rightarrow> u32 list \<times> u32 list \<times> trie_row option \<Rightarrow> u32 list \<times> u32 list \<times> trie_row option" where
  "leaf_step t st =
     (let (offsets, eids, prev) = st;
          (offsets, prev) = (if prev \<noteq> Some (spo t) then (offsets @ [word_of_nat (length eids)], Some (spo t)) else (offsets, prev))
      in (offsets, eids @ [edge_id t], prev))"

definition leaf_table :: "index_entry list \<Rightarrow> u32 list \<times> u32 list" where
  "leaf_table raw =
     (let (offsets, eids, prev) = fold leaf_step raw ([], [], None) in (offsets @ [word_of_nat (length eids)], eids))"

definition permute_row :: "nat list \<Rightarrow> trie_row \<Rightarrow> trie_row" where
  "permute_row mp r = (row_list r ! (mp ! 0), row_list r ! (mp ! 1), row_list r ! (mp ! 2))"

definition inverse_perm :: "nat list \<Rightarrow> nat list" where
  "inverse_perm cur = fold (\<lambda>(i, c) inv. inv[c := i]) (enumerate 0 cur) [0, 0, 0]"

definition next_work :: "nat list \<Rightarrow> nat list \<Rightarrow> trie_row list \<Rightarrow> trie_row list" where
  "next_work cur nxt work =
     (let inv = inverse_perm cur; mp = [inv ! (nxt ! 0), inv ! (nxt ! 1), inv ! (nxt ! 2)]
      in sort (map (permute_row mp) work))"

fun build_tries :: "nat list \<Rightarrow> trie_row list \<Rightarrow> (nat \<times> nat list) list \<Rightarrow> compact_trie list option" where
  "build_tries cur work [] = Some []"
| "build_tries cur work ((order, nxt) # rest) =
     (let (cur, work) = (if order \<noteq> 0 then (nxt, next_work cur nxt work) else (cur, work))
      in case from_sorted work of
           None \<Rightarrow> None
         | Some tr \<Rightarrow> map_option ((#) tr) (build_tries cur work rest))"

definition index_from_raw :: "index_entry list \<Rightarrow> compact_index option" where
  "index_from_raw raw =
     (let raw_len = length raw;
          raw = sort raw;
          (offsets, eids) = leaf_table raw;
          work = map spo raw
      in map_option (\<lambda>tries. \<lparr>ci_tries = tries, ci_leaf_offsets = offsets, ci_leaf_eids = eids, ci_raw_len = raw_len\<rparr>)
           (build_tries (ORDERS ! 0) work (enumerate 0 ORDERS)))"

definition index_is_empty :: "compact_index \<Rightarrow> bool" where
  "index_is_empty ci \<longleftrightarrow> ci_raw_len ci = 0"

text \<open>
  The edges of a leaf, by a descent of the first trie: \<open>None\<close> is a panic, \<open>Some None\<close> a triple
  that is absent.
\<close>

fun eids_walk :: "compact_trie \<Rightarrow> (nat \<times> u32) list \<Rightarrow> nat \<Rightarrow> nat \<Rightarrow> nat option option" where
  "eids_walk tr [] handle pos = Some (Some pos)"
| "eids_walk tr ((depth, v) # rest) handle pos =
     (case trie_seek tr v handle (handle + children tr handle - 1) of
        None \<Rightarrow> Some None
      | Some (w, at) \<Rightarrow>
          if w = v then
            if depth < 2 then
              (case node_handle tr at of
                 None \<Rightarrow> None
               | Some h \<Rightarrow> eids_walk tr rest h at)
            else eids_walk tr rest handle at
          else Some None)"

definition eids_for :: "compact_index \<Rightarrow> u32 \<Rightarrow> u32 \<Rightarrow> u32 \<Rightarrow> u32 list option" where
  "eids_for ci s p o' =
     (let trie = ci_tries ci ! 0
      in if trie_is_empty trie then Some []
         else
           (case eids_walk trie [(0, s), (1, p), (2, o')] (root trie) 0 of
              None \<Rightarrow> None
            | Some None \<Rightarrow> Some []
            | Some (Some pos) \<Rightarrow>
                let leaf = pos - ct_leaf_base trie;
                    lo = unat (ci_leaf_offsets ci ! leaf);
                    hi = unat (ci_leaf_offsets ci ! (leaf + 1))
                in Some (segment (ci_leaf_eids ci) lo hi)))"

section \<open>The six tries\<close>

definition order_rows :: "index_entry list \<Rightarrow> trie_order \<Rightarrow> trie_row list" where
  "order_rows ts order = sort (map (\<lambda>t. spo (reorder order t)) ts)"

lemma spo_reorder: "spo (reorder order t) = permute_row (ORDERS ! order_index order) (spo t)"
  by (cases t; cases order) (simp_all add: permute_row_def ORDERS_def nth_Cons')

lemma row_list_reorder: "row_list (spo (reorder order t)) = map (\<lambda>p. proj p t) (order_perm order)"
  by (cases t; cases order) simp_all

lemma sort_map_sort: "sort (map f (sort xs)) = sort (map f xs)"
  by (rule properties_for_sort) simp_all

lemma permute_twice:
  assumes "cur \<in> set ORDERS" "nxt \<in> set ORDERS"
  defines "iv \<equiv> inverse_perm cur"
  shows "permute_row [iv ! (nxt ! 0), iv ! (nxt ! 1), iv ! (nxt ! 2)] (permute_row cur r) = permute_row nxt r"
proof -
  have all: "\<forall>cur \<in> set ORDERS. \<forall>nxt \<in> set ORDERS. \<forall>i \<in> {0, 1, 2}. cur ! (inverse_perm cur ! (nxt ! i)) = nxt ! i \<and> inverse_perm cur ! (nxt ! i) \<in> {0, 1, 2}"
    by (simp add: ORDERS_def inverse_perm_def)
  have inv: "cur ! (iv ! (nxt ! i)) = nxt ! i" "iv ! (nxt ! i) \<in> {0, 1, 2}" if "i \<in> {0, 1, 2}" for i
    unfolding iv_def using bspec [OF bspec [OF bspec [OF all assms(1)] assms(2)] that] by (rule conjunct1, rule conjunct2)
  have pick: "row_list (permute_row cur r) ! j = row_list r ! (cur ! j)" if "j \<in> {0, 1, 2}" for j
    using that by (auto simp: permute_row_def)
  show ?thesis using inv [of 0] inv [of 1] inv [of 2] by (simp add: permute_row_def [of _ "permute_row cur r"] pick) (simp add: permute_row_def)
qed

lemma build_tries_rows:
  assumes "build_tries cur (sort (map (permute_row cur) rows)) os = Some trs"
    and "cur \<in> set ORDERS" "\<forall>(order, nxt) \<in> set os. order \<noteq> 0 \<and> nxt \<in> set ORDERS"
  shows "length trs = length os \<and> (\<forall>i < length os. from_sorted (sort (map (permute_row (snd (os ! i))) rows)) = Some (trs ! i))"
  using assms
proof (induction os arbitrary: cur trs)
  case (Cons on os)
  obtain order nxt where on: "on = (order, nxt)" "order \<noteq> 0" "nxt \<in> set ORDERS" using Cons.prems(3) by (cases on) auto
  have "next_work cur nxt (sort (map (permute_row cur) rows)) = sort (map (permute_row nxt) rows)"
    using permute_twice [OF Cons.prems(2) on(3)] by (simp add: next_work_def Let_def sort_map_sort comp_def)
  then obtain tr trs' where trs: "from_sorted (sort (map (permute_row nxt) rows)) = Some tr" "trs = tr # trs'"
    "build_tries nxt (sort (map (permute_row nxt) rows)) os = Some trs'"
    using Cons.prems(1) on by (auto split: option.splits)
  from Cons.IH [OF trs(3) on(3)] Cons.prems(3)
  have "length trs' = length os \<and> (\<forall>i < length os. from_sorted (sort (map (permute_row (snd (os ! i))) rows)) = Some (trs' ! i))" by simp
  then show ?case using trs(1,2) on(1) by (auto simp: less_Suc_eq_0_disj)
qed simp

lemma from_raw_tries:
  assumes "index_from_raw ts = Some ci"
  shows "from_sorted (order_rows ts order) = Some (ci_tries ci ! order_index order)" "ci_raw_len ci = length ts"
    "(ci_leaf_offsets ci, ci_leaf_eids ci) = leaf_table (sort ts)"
proof -
  obtain offsets eids where leaf: "leaf_table (sort ts) = (offsets, eids)" by (cases "leaf_table (sort ts)")
  then obtain trs where trs: "build_tries (ORDERS ! 0) (map spo (sort ts)) (enumerate 0 ORDERS) = Some trs"
    and ci: "ci = \<lparr>ci_tries = trs, ci_leaf_offsets = offsets, ci_leaf_eids = eids, ci_raw_len = length ts\<rparr>"
    using assms by (auto simp: index_from_raw_def Let_def)
  show "ci_raw_len ci = length ts" "(ci_leaf_offsets ci, ci_leaf_eids ci) = leaf_table (sort ts)" by (simp_all add: ci leaf)
  let ?rows = "map spo ts" and ?id = "[0, 1, 2 :: nat]"
  have id: "permute_row ?id r = r" for r by (cases r) (simp add: permute_row_def)
  have "mono spo" by (auto simp: mono_def)
  then have "sorted (map spo (sort ts))" by (intro sorted_map_mono) (auto simp: mono_def mono_on_def)
  then have rows: "map spo (sort ts) = sort (map (permute_row ?id) ?rows)"
  proof -
    have same: "map (permute_row ?id) ?rows = ?rows" by (rule map_idI) (rule id)
    show ?thesis unfolding same by (rule sym [OF properties_for_sort]) (use \<open>sorted (map spo (sort ts))\<close> in simp_all)
  qed
  have enum: "enumerate 0 ORDERS = (0, ?id) # zip [1..<6] (tl ORDERS)" by (simp add: ORDERS_def upt_rec)
  obtain t0 trs' where t0: "from_sorted (sort (map (permute_row ?id) ?rows)) = Some t0" "trs = t0 # trs'"
    "build_tries ?id (sort (map (permute_row ?id) ?rows)) (zip [1..<6] (tl ORDERS)) = Some trs'"
    using trs unfolding enum rows by (auto simp: ORDERS_def split: option.splits)
  let ?os = "zip [1..<6] (tl ORDERS)"
  have len: "length (tl ORDERS) = 5" and id_in: "?id \<in> set ORDERS" and ne: "ORDERS \<noteq> []" by (simp_all add: ORDERS_def)
  have "\<forall>(order, nxt) \<in> set ?os. order \<noteq> 0 \<and> nxt \<in> set ORDERS"
    using list.set_sel(2) [OF ne] by (auto dest: set_zip_leftD set_zip_rightD)
  from build_tries_rows [OF t0(3) id_in this]
  have "\<forall>i < 5. from_sorted (sort (map (permute_row (tl ORDERS ! i)) ?rows)) = Some (trs' ! i)"
    using len by (simp add: nth_zip)
  then have "from_sorted (sort (map (permute_row (ORDERS ! i)) ?rows)) = Some (trs ! i)" if "i < 6" for i
  proof (cases i)
    case 0
    then show ?thesis using t0(1,2) by (simp add: ORDERS_def)
  next
    case (Suc j)
    then have "ORDERS ! i = tl ORDERS ! j" using that len by (simp add: nth_tl)
    then show ?thesis using \<open>\<forall>i < 5. _ i\<close> t0(2) that Suc by simp
  qed
  moreover have "order_index order < 6" by (cases order) simp_all
  ultimately show "from_sorted (order_rows ts order) = Some (ci_tries ci ! order_index order)"
    by (simp add: ci order_rows_def spo_reorder comp_def)
qed

section \<open>The table of the leaves\<close>

lemma fold_leaf:
  assumes "fold leaf_step ts (offsets, eids, Some k) = (offsets', eids', prev)" "length eids = n + Suc c"
  shows "eids' = eids @ map edge_id ts"
    and "offsets' @ [word_of_nat (length eids')] = offsets @ map word_of_nat (partial_sums n (run_lengths c (k # map spo ts)))"
proof -
  have "eids' = eids @ map edge_id ts
    \<and> offsets' @ [word_of_nat (length eids')] = offsets @ map word_of_nat (partial_sums n (run_lengths c (k # map spo ts)))"
    using assms
  proof (induction ts arbitrary: offsets eids k n c)
    case (Cons t ts)
    show ?case
    proof (cases "spo t = k")
      case True
      then have "leaf_step t (offsets, eids, Some k) = (offsets, eids @ [edge_id t], Some k)" by (simp add: leaf_step_def)
      then have "fold leaf_step ts (offsets, eids @ [edge_id t], Some k) = (offsets', eids', prev)"
        using Cons.prems(1) by simp
      moreover have "run_lengths c (k # map spo (t # ts)) = run_lengths (Suc c) (k # map spo ts)" using True by simp
      ultimately show ?thesis using Cons.IH [of offsets "eids @ [edge_id t]" k n "Suc c"] Cons.prems(2)
        by (simp only: length_append list.size list.map append_assoc append_Cons append_Nil)
    next
      case False
      then have "leaf_step t (offsets, eids, Some k) = (offsets @ [word_of_nat (n + Suc c)], eids @ [edge_id t], Some (spo t))"
        using Cons.prems(2) by (simp add: leaf_step_def)
      then have "fold leaf_step ts (offsets @ [word_of_nat (n + Suc c)], eids @ [edge_id t], Some (spo t)) = (offsets', eids', prev)"
        using Cons.prems(1) by simp
      moreover have "run_lengths c (k # map spo (t # ts)) = Suc c # run_lengths 0 (spo t # map spo ts)" using False by simp
      ultimately show ?thesis using Cons.IH [of "offsets @ [word_of_nat (n + Suc c)]" "eids @ [edge_id t]" "spo t" "n + Suc c" 0] Cons.prems(2)
        by (simp only: length_append list.size list.map append_assoc append_Cons append_Nil partial_sums.simps)
    qed
  qed simp
  then show "eids' = eids @ map edge_id ts"
    "offsets' @ [word_of_nat (length eids')] = offsets @ map word_of_nat (partial_sums n (run_lengths c (k # map spo ts)))" by blast+
qed

lemma leaf_table_runs: "leaf_table ts = (map word_of_nat (0 # partial_sums 0 (run_lengths 0 (map spo ts))), map edge_id ts)"
proof (cases ts)
  case Nil
  then show ?thesis by (simp add: leaf_table_def)
next
  case (Cons t ts')
  obtain offsets eids prev where f: "fold leaf_step ts' ([word_of_nat 0], [edge_id t], Some (spo t)) = (offsets, eids, prev)"
    by (cases "fold leaf_step ts' ([word_of_nat 0], [edge_id t], Some (spo t))")
  have start: "leaf_step t ([], [], None) = ([word_of_nat 0], [edge_id t], Some (spo t))" by (simp add: leaf_step_def)
  have "leaf_table ts = (offsets @ [word_of_nat (length eids)], eids)"
    unfolding leaf_table_def Cons fold_simps start f by simp
  then show ?thesis using fold_leaf [OF f, of 0 0] Cons by simp
qed

lemma segment_concat:
  "k < length xss \<Longrightarrow> segment (concat xss) (sum_list (map length (take k xss))) (sum_list (map length (take (Suc k) xss))) = xss ! k"
proof (induction xss arbitrary: k)
  case (Cons xs xss)
  then show ?case by (cases k) (simp_all add: segment_def)
qed simp

lemma sum_take_le: "sum_list (take i ks) \<le> sum_list (ks :: nat list)"
  by (metis append_take_drop_id le_add1 sum_list_append)

text \<open>A group of the table holds the edges of one triple.\<close>

lemma leaf_group:
  assumes "sorted S" "length S < 2 ^ 32" "k < length (remdups_adj (map spo S))"
  defines "offs \<equiv> map word_of_nat (0 # partial_sums 0 (run_lengths 0 (map spo S))) :: u32 list"
  shows "segment (map edge_id S) (unat (offs ! k)) (unat (offs ! (k + 1)))
    = map edge_id (filter (\<lambda>t. spo t = remdups_adj (map spo S) ! k) S)"
proof -
  let ?R = "remdups_adj (map spo S)"
  let ?xss = "map (\<lambda>r. filter (\<lambda>t. spo t = r) S) ?R"
  have dist: "distinct ?R"
  proof (rule distinct_remdups_adj_sorted [OF assms(1)])
    fix x y z :: index_entry assume "x \<le> y" "y \<le> z" "spo x = spo z"
    then show "spo y = spo x" by (cases x; cases y; cases z) auto
  qed
  have S: "concat ?xss = S" by (rule concat_groups [OF dist])
  have runs: "run_lengths 0 (map spo S) = map length ?xss"
    using run_lengths_counts [OF dist] by (simp add: count_list_eq_length_filter filter_map comp_def eq_commute)
  have off: "unat (offs ! i) = sum_list (map length (take i ?xss))" if "i \<le> length ?R" for i
  proof -
    have "(0 # partial_sums 0 (map length ?xss)) ! i = sum_list (take i (map length ?xss))" using that nth_partial_sums [of i "map length ?xss" 0] by simp
    moreover have "offs ! i = word_of_nat ((0 # partial_sums 0 (map length ?xss)) ! i)"
      unfolding offs_def runs using that by (intro nth_map) simp
    ultimately have "offs ! i = word_of_nat (sum_list (map length (take i ?xss)))" by (simp add: take_map)
    moreover have "sum_list (map length (take i ?xss)) \<le> length (concat ?xss)"
      unfolding length_concat take_map [symmetric] by (rule sum_take_le)
    then have "sum_list (map length (take i ?xss)) < 2 ^ 32" using assms(2) unfolding S by linarith
    ultimately show ?thesis by (simp add: unat_of_nat take_bit_nat_eq_self)
  qed
  have "segment S (unat (offs ! k)) (unat (offs ! (k + 1))) = ?xss ! k"
    using segment_concat [of k ?xss] assms(3) unfolding S by (simp add: off)
  then show ?thesis using assms(3) by (simp add: segment_def take_map drop_map)
qed

section \<open>The edges of a triple\<close>

text \<open>An index built from a list of triples that the 32-bit offsets can hold.\<close>

definition index_for :: "compact_index \<Rightarrow> index_entry list \<Rightarrow> bool" where
  "index_for ci ts \<longleftrightarrow> index_from_raw ts = Some ci \<and> length ts < 2 ^ 32"

lemma index_trie:
  assumes "index_for ci ts" "ts \<noteq> []"
  shows "trie_for (ci_tries ci ! order_index order) (order_rows ts order)"
proof -
  have raw: "index_from_raw ts = Some ci" using assms(1) by (simp add: index_for_def)
  have "set (order_rows ts order) = (\<lambda>t. spo (reorder order t)) ` set ts" by (simp add: order_rows_def)
  then have ne: "order_rows ts order \<noteq> []" using assms(2) by auto
  show ?thesis by (rule from_sorted_ok [OF from_raw_tries(1) [OF raw] ne]) (simp add: order_rows_def)
qed

lemma trie_seek_hit:
  assumes "trie_for tr T" "node_at T h p" "length p < 3"
  shows "v \<in> child_values T p \<Longrightarrow>
      \<exists>i. trie_seek tr v h (h + children tr h - 1) = Some (v, i) \<and> i < length (level_order T) \<and> level_order T ! i = p @ [v]"
    and "v \<notin> child_values T p \<Longrightarrow> trie_seek tr v h (h + children tr h - 1) \<noteq> Some (v, i)"
proof -
  note least = trie_seek_least [OF assms]
  let ?s = "trie_seek tr v h (h + children tr h - 1)"
  show "\<exists>i. ?s = Some (v, i) \<and> i < length (level_order T) \<and> level_order T ! i = p @ [v]" if v: "v \<in> child_values T p"
  proof -
    have "least_from v (child_values T p) = Some v" using v by (subst least_from_Some) simp_all
    then obtain i where "?s = Some (v, i)" using least(1) [of v] by (cases ?s) auto
    then show ?thesis using least(2) by blast
  qed
  show "?s \<noteq> Some (v, i)" if "v \<notin> child_values T p"
  proof
    assume "?s = Some (v, i)"
    then have "least_from v (child_values T p) = Some v" using least(1) [of v] by simp
    then show False using that by (subst (asm) least_from_Some) simp_all
  qed
qed

lemma child_values_prefix: "v \<in> child_values T p \<longleftrightarrow> (\<exists>r \<in> set T. take (Suc (length p)) (row_list r) = p @ [v])" if "length p < 3"
  using that by (auto simp: child_values_def take_Suc_conv_app_nth)

lemma eids_walk_found:
  assumes "trie_for tr T" "node_at T h p" "length p + length vs = 3" "vs \<noteq> []"
  shows "(\<exists>r \<in> set T. row_list r = p @ vs) \<Longrightarrow>
      \<exists>i. eids_walk tr (zip [length p..<3] vs) h pos = Some (Some i) \<and> i < length (level_order T) \<and> level_order T ! i = p @ vs"
    and "\<not> (\<exists>r \<in> set T. row_list r = p @ vs) \<Longrightarrow> eids_walk tr (zip [length p..<3] vs) h pos = Some None"
proof -
  have "((\<exists>r \<in> set T. row_list r = p @ vs) \<longrightarrow>
      (\<exists>i. eids_walk tr (zip [length p..<3] vs) h pos = Some (Some i) \<and> i < length (level_order T) \<and> level_order T ! i = p @ vs))
    \<and> (\<not> (\<exists>r \<in> set T. row_list r = p @ vs) \<longrightarrow> eids_walk tr (zip [length p..<3] vs) h pos = Some None)"
    using assms(2-)
  proof (induction vs arbitrary: p h pos)
    case (Cons v vs)
    have p3: "length p < 3" using Cons.prems(2) by simp
    then have upt: "[length p..<3] = length p # [length (p @ [v])..<3]" by (simp add: upt_conv_Cons)
    note hit = trie_seek_hit [OF assms(1) Cons.prems(1) p3]
    show ?case
    proof (cases "v \<in> child_values T p")
      case False
      have "\<nexists>r. r \<in> set T \<and> row_list r = p @ v # vs"
      proof
        assume "\<exists>r. r \<in> set T \<and> row_list r = p @ v # vs"
        then obtain r where r: "r \<in> set T" "row_list r = p @ v # vs" by blast
        then have "take (Suc (length p)) (row_list r) = p @ [v]" by simp
        then show False using False r(1) child_values_prefix [OF p3] by blast
      qed
      moreover have "eids_walk tr (zip [length p..<3] (v # vs)) h pos = Some None"
        using hit(2) [OF False] by (auto simp: upt split: option.split)
      ultimately show ?thesis by blast
    next
      case True
      then obtain i where i: "trie_seek tr v h (h + children tr h - 1) = Some (v, i)" "i < length (level_order T)" "level_order T ! i = p @ [v]"
        using hit(1) by blast
      show ?thesis
      proof (cases vs)
        case Nil
        then have "length p = 2" using Cons.prems(2) by simp
        moreover have "\<exists>r \<in> set T. row_list r = p @ [v]" using True child_values_prefix [OF p3] \<open>length p = 2\<close> by auto
        ultimately show ?thesis using i Nil by (simp add: upt_conv_Cons)
      next
        case (Cons w ws)
        then have q3: "length (p @ [v]) < 3" "length p < 2" using Cons.prems(2) by simp_all
        from node_handle_at [OF assms(1) i(2,3) q3(1)] obtain h' where h': "node_handle tr i = Some h'" "node_at T h' (p @ [v])" by blast
        have "eids_walk tr (zip [length p..<3] (v # vs)) h pos = eids_walk tr (zip [length (p @ [v])..<3] vs) h' i"
          using i(1) h'(1) q3(2) by (simp add: upt)
        then show ?thesis using Cons.IH [OF h'(2), of i] Cons.prems(2) Cons by simp
      qed
    qed
  qed simp
  then show "(\<exists>r \<in> set T. row_list r = p @ vs) \<Longrightarrow>
      \<exists>i. eids_walk tr (zip [length p..<3] vs) h pos = Some (Some i) \<and> i < length (level_order T) \<and> level_order T ! i = p @ vs"
    "\<not> (\<exists>r \<in> set T. row_list r = p @ vs) \<Longrightarrow> eids_walk tr (zip [length p..<3] vs) h pos = Some None" by blast+
qed

lemma row_list_inject [simp]: "row_list r = row_list r' \<longleftrightarrow> r = r'"
  by (cases r; cases r') simp

lemma spo_rows: "order_rows ts SPO = map spo (sort ts)"
proof -
  have id: "reorder SPO t = t" for t by (cases t) simp
  have "sorted (map spo (sort ts))" by (intro sorted_map_mono) (auto simp: mono_on_def)
  then show ?thesis unfolding order_rows_def id by (intro properties_for_sort) simp_all
qed

lemma leaf_nodes: "nodes T 3 = map row_list (remdups_adj T)"
  by (simp add: nodes_def remdups_adj_map_injective inj_def)

lemma node_leaf:
  assumes "trie_for tr T" "i < length (level_order T)" "level_order T ! i = row_list r"
  shows "i - ct_leaf_base tr < length (remdups_adj T) \<and> remdups_adj T ! (i - ct_leaf_base tr) = r"
proof -
  let ?N = "nodes T 1 @ nodes T 2"
  have M: "level_order T = ?N @ nodes T 3" and base: "ct_leaf_base tr = length ?N"
    using assms(1) by (simp_all add: level_order_def trie_for_def)
  have "\<not> i < length ?N"
  proof
    assume "i < length ?N"
    then have "row_list r \<in> set ?N" using assms(3) unfolding M by (metis nth_append nth_mem)
    then show False using node_length [of _ T 1] node_length [of _ T 2] by fastforce
  qed
  then have "i - length ?N < length (nodes T 3)" "nodes T 3 ! (i - length ?N) = row_list r"
    using assms(2,3) unfolding M append_assoc [symmetric] nth_append [of ?N] length_append [of ?N] by simp_all
  then show ?thesis unfolding base leaf_nodes by simp
qed

lemma bex_eq: "(\<exists>r \<in> A. r = a) \<longleftrightarrow> a \<in> A"
  by simp

lemma eids_for_leaf:
  assumes "index_for ci ts"
  shows "\<exists>es. eids_for ci s p o' = Some es \<and> mset es = image_mset edge_id (filter_mset (\<lambda>t. spo t = (s, p, o')) (mset ts))"
proof -
  let ?tr = "ci_tries ci ! 0" and ?T = "map spo (sort ts)"
  have raw: "index_from_raw ts = Some ci" and len: "length ts < 2 ^ 32" using assms by (simp_all add: index_for_def)
  have tr0: "from_sorted ?T = Some ?tr" using from_raw_tries(1) [OF raw, of SPO] by (simp add: spo_rows)
  show ?thesis
  proof (cases "ts = []")
    case True
    then have "from_sorted [] = Some ?tr" using tr0 by simp
    then obtain bv where "?tr = \<lparr>ct_bv = bv, ct_seq = seq_from_slice [], ct_leaf_base = 0\<rparr>"
      unfolding from_sorted_def by (auto dest: sym)
    then have "trie_is_empty ?tr" by (simp add: trie_is_empty_def seq_from_slice_def Let_def)
    then show ?thesis using True by (simp add: eids_for_def)
  next
    case False
    have T: "trie_for ?tr ?T" using index_trie [OF assms False, of SPO] by (simp add: spo_rows)
    have "sort ts \<noteq> []" using False by (metis length_0_conv length_sort)
    then have "nodes ?T 1 \<noteq> []" "?T \<noteq> []" by (simp_all add: nodes_def)
    then have full: "\<not> trie_is_empty ?tr" "?T \<noteq> []" using T by (simp_all add: trie_is_empty_def trie_for_def level_order_def)
    note found = eids_walk_found [OF T node_at_root [OF full(2)], of "[s, p, o']" 0]
    have upt: "zip [length []..<3] [s, p, o'] = [(0, s), (1, p), (2, o')]" by (simp add: upt_rec)
    have row: "(\<exists>r \<in> set ?T. row_list r = [] @ [s, p, o']) \<longleftrightarrow> (s, p, o') \<in> spo ` set ts"
    proof -
      have list: "[] @ [s, p, o'] = row_list (s, p, o')" by simp
      show ?thesis unfolding list row_list_inject list.set_map set_sort by (rule bex_eq)
    qed
    show ?thesis
    proof (cases "(s, p, o') \<in> spo ` set ts")
      case no: False
      then have "eids_for ci s p o' = Some []" using found(2) full(1) unfolding row upt by (simp add: eids_for_def root_def)
      moreover have "filter (\<lambda>t. spo t = (s, p, o')) ts = []" unfolding filter_empty_conv using no by (metis imageI)
      then have "filter_mset (\<lambda>t. spo t = (s, p, o')) (mset ts) = {#}" by (metis mset_filter mset_zero_iff)
      ultimately show ?thesis by simp
    next
      case yes: True
      then obtain i where i: "eids_walk ?tr [(0, s), (1, p), (2, o')] 0 0 = Some (Some i)" "i < length (level_order ?T)"
        "level_order ?T ! i = row_list (s, p, o')"
        using found(1) unfolding row upt by auto
      let ?k = "i - ct_leaf_base ?tr"
      from node_leaf [OF T i(2,3)] have k: "?k < length (remdups_adj ?T)" "remdups_adj ?T ! ?k = (s, p, o')" by blast+
      have offs: "ci_leaf_offsets ci = map word_of_nat (0 # partial_sums 0 (run_lengths 0 ?T))" "ci_leaf_eids ci = map edge_id (sort ts)"
        using from_raw_tries(3) [OF raw] unfolding leaf_table_runs by (simp_all only: prod.inject)
      have "eids_for ci s p o' = Some (segment (ci_leaf_eids ci) (unat (ci_leaf_offsets ci ! ?k)) (unat (ci_leaf_offsets ci ! (?k + 1))))"
        by (simp only: eids_for_def Let_def root_def full(1) i(1) if_False option.case)
      moreover have "length (sort ts) < 2 ^ 32" using len by (simp only: length_sort)
      from leaf_group [OF sorted_sort this k(1)] have "segment (ci_leaf_eids ci) (unat (ci_leaf_offsets ci ! ?k)) (unat (ci_leaf_offsets ci ! (?k + 1)))
          = map edge_id (filter (\<lambda>t. spo t = (s, p, o')) (sort ts))" by (simp only: offs k(2))
      ultimately have "eids_for ci s p o' = Some (map edge_id (filter (\<lambda>t. spo t = (s, p, o')) (sort ts)))" by simp
      then show ?thesis by (intro exI conjI) (assumption, simp only: mset_map mset_filter mset_sort)
    qed
  qed
qed

end
