(* ===== verification/CompactIterators.thy ===== *)
theory CompactIterators
  imports CompactIndexes
begin

text \<open>
  The iterator over the succinct tries (\<open>CompactLtjIterator\<close> of \<open>src/runtime/ltj/iterator.rs\<close>),
  which keeps the handles of the nodes it stands at, as a second provider of the contract.
\<close>

section \<open>The iterator\<close>

record compact_iter =
  co_index :: compact_index
  co_fixed :: "(spo_pos \<times> u32) list"
  co_n_constants :: nat
  co_level1 :: "nat \<times> nat"
  co_level2 :: "nat \<times> nat"
  co_empty :: bool
  co_dead_from :: "nat option"

definition trie_of :: "compact_iter \<Rightarrow> nat \<Rightarrow> compact_trie" where
  "trie_of it i = ci_tries (co_index it) ! i"

definition choose_trie :: "compact_iter \<Rightarrow> spo_pos \<Rightarrow> nat option" where
  "choose_trie it q = map_option order_index (choose_order (map fst (co_fixed it)) q)"

definition parent_handle :: "compact_iter \<Rightarrow> nat \<Rightarrow> nat" where
  "parent_handle it i =
     (case length (co_fixed it) of
        0 \<Rightarrow> 0
      | Suc 0 \<Rightarrow> (if i mod 2 = 0 then fst (co_level1 it) else snd (co_level1 it))
      | Suc (Suc n) \<Rightarrow> snd (co_level2 it))"

definition alive :: "compact_iter \<Rightarrow> bool" where
  "alive it \<longleftrightarrow> \<not> co_empty it \<and> (case co_dead_from it of None \<Rightarrow> True | Some d \<Rightarrow> length (co_fixed it) < d)"

definition child_block :: "compact_iter \<Rightarrow> spo_pos \<Rightarrow> (nat \<times> nat \<times> nat) option option" where
  "child_block it q =
     (if \<not> alive it then Some None
      else
        (case choose_trie it q of
           None \<Rightarrow> None
         | Some i \<Rightarrow>
             let parent = parent_handle it i; cnt = children (trie_of it i) parent
             in Some (Some (i, parent, parent + cnt - 1))))"

definition descend :: "compact_iter \<Rightarrow> spo_pos \<Rightarrow> u32 \<Rightarrow> (bool \<times> compact_iter) option" where
  "descend it q v =
     (let nfixed = length (co_fixed it); pushed = it\<lparr>co_fixed := co_fixed it @ [(q, v)]\<rparr>
      in if 2 \<le> nfixed \<or> \<not> alive it then Some (alive pushed, pushed)
         else
           (case child_block it q of
              None \<Rightarrow> None
            | Some None \<Rightarrow> Some (False, pushed)
            | Some (Some (i, b, e)) \<Rightarrow>
                let tr = trie_of it i;
                    found = (case trie_seek tr v b e of Some (w, p) \<Rightarrow> if w = v then Some p else None | None \<Rightarrow> None)
                in case found of
                     Some p \<Rightarrow>
                       if nfixed = 0 then
                         let pair = i - i mod 2
                         in (case (node_handle (trie_of it pair) p, node_handle (trie_of it (pair + 1)) p) of
                               (Some h0, Some h1) \<Rightarrow> Some (True, pushed\<lparr>co_level1 := (h0, h1)\<rparr>)
                             | _ \<Rightarrow> None)
                       else map_option (\<lambda>h. (True, pushed\<lparr>co_level2 := (i, h)\<rparr>)) (node_handle tr p)
                   | None \<Rightarrow> Some (False, pushed\<lparr>co_dead_from := Some (length (co_fixed pushed))\<rparr>)))"

definition process_constant :: "spo_pos \<times> u32 \<Rightarrow> compact_iter option \<Rightarrow> compact_iter option" where
  "process_constant c r =
     (case r of
        None \<Rightarrow> None
      | Some it \<Rightarrow>
          if co_empty it then Some (it\<lparr>co_empty := True, co_n_constants := co_n_constants it + 1\<rparr>)
          else
            (case descend it (fst c) (snd c) of
               None \<Rightarrow> None
             | Some (found, it) \<Rightarrow>
                 let it = (if found then it else it\<lparr>co_empty := True\<rparr>)
                 in Some (it\<lparr>co_n_constants := co_n_constants it + 1\<rparr>)))"

definition compact_new :: "triple_pattern \<Rightarrow> compact_index \<Rightarrow> compact_iter option" where
  "compact_new p ci =
     fold process_constant (pattern_constants p)
       (Some \<lparr>co_index = ci, co_fixed = [], co_n_constants = 0, co_level1 = (0, 0), co_level2 = (0, 0),
              co_empty = index_is_empty ci, co_dead_from = None\<rparr>)"

definition compact_leap :: "compact_iter \<Rightarrow> spo_pos \<Rightarrow> u32 \<Rightarrow> u32 option option" where
  "compact_leap it q c =
     map_option (\<lambda>block. case block of None \<Rightarrow> None | Some (i, b, e) \<Rightarrow> map_option fst (trie_seek (trie_of it i) c b e))
       (child_block it q)"

definition compact_down :: "compact_iter \<Rightarrow> spo_pos \<Rightarrow> u32 \<Rightarrow> compact_iter option" where
  "compact_down it q v = map_option snd (descend it q v)"

definition compact_up :: "compact_iter \<Rightarrow> spo_pos \<Rightarrow> compact_iter" where
  "compact_up it q =
     (let it = it\<lparr>co_fixed := butlast (co_fixed it)\<rparr>
      in case co_dead_from it of
           None \<Rightarrow> it
         | Some d \<Rightarrow> if length (co_fixed it) < d then it\<lparr>co_dead_from := None\<rparr> else it)"

definition compact_seek_all :: "compact_iter \<Rightarrow> spo_pos \<Rightarrow> u32 list option" where
  "compact_seek_all it q =
     map_option (\<lambda>block. case block of None \<Rightarrow> [] | Some (i, b, e) \<Rightarrow> map (sym (trie_of it i)) [b..<e + 1]) (child_block it q)"

definition compact_children_count :: "compact_iter \<Rightarrow> spo_pos \<Rightarrow> nat option" where
  "compact_children_count it q =
     map_option (\<lambda>block. case block of None \<Rightarrow> 0 | Some (i, b, e) \<Rightarrow> e - b + 1) (child_block it q)"

definition compact_subtree_size :: "compact_iter \<Rightarrow> spo_pos \<Rightarrow> nat option" where
  "compact_subtree_size it q =
     (if co_fixed it = [] then Some usize_max
      else
        (case child_block it q of
           None \<Rightarrow> None
         | Some None \<Rightarrow> Some 0
         | Some (Some (i, b, e)) \<Rightarrow>
             if 2 \<le> length (co_fixed it) then Some (e - b + 1)
             else
               (case (node_handle (trie_of it i) b, node_handle (trie_of it i) e) of
                  (Some leftmost, Some last_child) \<Rightarrow>
                    let rightmost = last_child + children (trie_of it i) last_child - 1 in Some (rightmost - leftmost + 1)
                | _ \<Rightarrow> None)))"

definition compact_in_last_level :: "compact_iter \<Rightarrow> bool" where
  "compact_in_last_level it \<longleftrightarrow> 2 \<le> length (co_fixed it)"

definition compact_current_eids :: "compact_iter \<Rightarrow> u32 list option" where
  "compact_current_eids it =
     (case (by_pos (co_fixed it) PosS, by_pos (co_fixed it) PosP, by_pos (co_fixed it) PosO) of
        (Some s, Some p, Some o') \<Rightarrow> eids_for (co_index it) s p o'
      | _ \<Rightarrow> Some [])"

section \<open>Where an iterator stands\<close>

text \<open>The levels above the one that died keep their handles.\<close>

definition level_live :: "compact_iter \<Rightarrow> nat \<Rightarrow> bool" where
  "level_live it n \<longleftrightarrow> (case co_dead_from it of None \<Rightarrow> True | Some d \<Rightarrow> n < d)"

definition pair_handle :: "compact_iter \<Rightarrow> trie_order \<Rightarrow> nat" where
  "pair_handle it order = (if order_index order mod 2 = 0 then fst (co_level1 it) else snd (co_level1 it))"

definition first_ok :: "index_entry list \<Rightarrow> (spo_pos \<times> u32) list \<Rightarrow> compact_iter \<Rightarrow> bool" where
  "first_ok ts gs it \<longleftrightarrow>
     (\<forall>order. order_perm order ! 0 = fst (gs ! 0) \<longrightarrow> node_at (order_rows ts order) (pair_handle it order) (map snd (take 1 gs)))"

definition second_ok :: "index_entry list \<Rightarrow> (spo_pos \<times> u32) list \<Rightarrow> compact_iter \<Rightarrow> bool" where
  "second_ok ts gs it \<longleftrightarrow>
     (\<forall>order. take 2 (order_perm order) = map fst (take 2 gs) \<longrightarrow> node_at (order_rows ts order) (snd (co_level2 it)) (map snd (take 2 gs)))"

definition levels_ok :: "index_entry list \<Rightarrow> (spo_pos \<times> u32) list \<Rightarrow> compact_iter \<Rightarrow> bool" where
  "levels_ok ts gs it \<longleftrightarrow>
     (1 \<le> length gs \<longrightarrow> level_live it 1 \<longrightarrow> first_ok ts gs it) \<and> (2 \<le> length gs \<longrightarrow> level_live it 2 \<longrightarrow> second_ok ts gs it)"

lemma first_ok_snoc: "1 \<le> length gs \<Longrightarrow> first_ok ts (gs @ [g]) it = first_ok ts gs it"
  by (cases gs) (simp_all add: first_ok_def)

lemma second_ok_snoc: "2 \<le> length gs \<Longrightarrow> second_ok ts (gs @ [g]) it = second_ok ts gs it"
  by (simp add: second_ok_def)

lemma levels_ok_cong: "co_level1 it' = co_level1 it \<Longrightarrow> first_ok ts gs it' = first_ok ts gs it"
  "co_level2 it' = co_level2 it \<Longrightarrow> second_ok ts gs it' = second_ok ts gs it"
  by (simp_all add: first_ok_def second_ok_def pair_handle_def)

definition compact_at :: "index_entry list \<Rightarrow> index_entry list \<Rightarrow> (spo_pos \<times> u32) list \<Rightarrow> (spo_pos \<times> u32) list \<Rightarrow> compact_iter \<Rightarrow> bool" where
  "compact_at ts lv cs fs it \<longleftrightarrow>
     lv = ts \<and> index_for (co_index it) ts \<and> distinct (map fst (cs @ fs))
     \<and> (if co_empty it then (\<forall>t \<in> set ts. \<not> agrees cs t) \<and> (\<exists>pre. co_fixed it = pre @ fs \<and> set pre \<subseteq> set cs)
        else
          ts \<noteq> [] \<and> co_fixed it = cs @ fs \<and> levels_ok ts (cs @ fs) it
          \<and> (\<forall>d. co_dead_from it = Some d \<longrightarrow> length cs < d \<and> d \<le> length (cs @ fs) \<and> (\<forall>t \<in> set ts. \<not> agrees (take d (cs @ fs)) t)))"

lemma agrees_take: "agrees gs t \<Longrightarrow> agrees (take d gs) t"
  by (metis agrees_append append_take_drop_id)

lemma compact_not_alive:
  assumes "compact_at ts lv cs fs it" "\<not> alive it"
  shows "\<forall>t \<in> set ts. \<not> agrees (cs @ fs) t"
proof (cases "co_empty it")
  case True
  then show ?thesis using assms(1) by (simp add: compact_at_def)
next
  case False
  then obtain d where "co_dead_from it = Some d" using assms(2) by (auto simp: alive_def split: option.splits)
  then show ?thesis using assms(1) False agrees_take by (auto simp: compact_at_def)
qed

lemma compact_alive:
  assumes "compact_at ts lv cs fs it" "alive it"
  shows "\<not> co_empty it" "co_dead_from it = None" "co_fixed it = cs @ fs" "ts \<noteq> []" "levels_ok ts (cs @ fs) it"
  using assms by (auto simp: compact_at_def alive_def split: option.splits)

lemma agrees_row:
  assumes "map fst gs = take (length gs) (order_perm order)"
  shows "agrees gs t \<longleftrightarrow> take (length gs) (row_list (spo (reorder order t))) = map snd gs"
proof -
  have len: "length (order_perm order) = 3" by (cases order) simp_all
  have "length gs \<le> 3" using arg_cong [OF assms, of length] len by simp
  then have "take (length gs) (row_list (spo (reorder order t))) = map snd gs
      \<longleftrightarrow> (\<forall>d < length gs. proj (take (length gs) (order_perm order) ! d) t = snd (gs ! d))"
    unfolding row_list_reorder by (simp add: list_eq_iff_nth_eq len)
  also have "\<dots> \<longleftrightarrow> agrees gs t"
    unfolding assms [symmetric] by (simp add: agrees_def list_all_length split_beta)
  finally show ?thesis by simp
qed

lemma child_values_at:
  assumes "map fst gs = take (length gs) (order_perm order)" "order_perm order ! length gs = q" "length gs < 3"
  shows "child_values (order_rows ts order) (map snd gs) = values_at ts gs q"
proof -
  have len: "length (order_perm order) = 3" by (cases order) simp_all
  have "child_values (order_rows ts order) (map snd gs) = (\<lambda>t. row_list (spo (reorder order t)) ! length gs) ` {t \<in> set ts. agrees gs t}"
    unfolding agrees_row [OF assms(1)] by (auto simp: child_values_def order_rows_def)
  also have "\<dots> = values_at ts gs q"
    unfolding values_at_def row_list_reorder using assms(2,3) len by simp
  finally show ?thesis .
qed

lemma length_perm [simp]: "length (order_perm order) = 3"
  by (cases order) simp_all

lemma distinct_snocI: "distinct xs \<Longrightarrow> q \<notin> set xs \<Longrightarrow> distinct (xs @ [q])"
  by simp

lemma child_block_at:
  assumes "compact_at ts lv cs fs it" "alive it" "q \<notin> fst ` set (cs @ fs)"
  shows "\<exists>order h. child_block it q = Some (Some (order_index order, h, h + children (trie_of it (order_index order)) h - 1))
    \<and> trie_for (trie_of it (order_index order)) (order_rows ts order) \<and> node_at (order_rows ts order) h (map snd (cs @ fs))
    \<and> map fst (cs @ fs) = take (length (cs @ fs)) (order_perm order) \<and> order_perm order ! length (cs @ fs) = q \<and> length (cs @ fs) < 3"
proof -
  let ?gs = "cs @ fs"
  note al = compact_alive [OF assms(1,2)]
  have "distinct (map fst ?gs)" using assms(1) by (simp only: compact_at_def)
  then have dist: "distinct (map fst ?gs @ [q])" using assms(3) unfolding set_map [symmetric] by (rule distinct_snocI)
  obtain order where order: "choose_order (map fst ?gs) q = Some order" "take (length ?gs) (order_perm order) = map fst ?gs"
    "order_perm order ! length ?gs = q" "length ?gs < 3"
    using choose_order_depth [OF dist] unfolding length_map by blast
  have trie: "trie_for (trie_of it (order_index order)) (order_rows ts order)"
    using assms(1) index_trie [OF _ al(4)] by (simp add: compact_at_def trie_of_def)
  let ?h = "parent_handle it (order_index order)"
  have "node_at (order_rows ts order) ?h (map snd ?gs)"
  proof -
    consider "?gs = []" | g where "?gs = [g]" | g g' where "?gs = [g, g']"
      using order(4) by (cases ?gs rule: remdups_adj.cases) (auto simp: less_Suc_eq numeral_3_eq_3 length_Suc_conv)
    then show ?thesis
    proof cases
      case 1
      moreover have "order_rows ts order \<noteq> []" using trie by (simp add: trie_for_def)
      ultimately show ?thesis using node_at_root by (simp add: parent_handle_def al(3))
    next
      case (2 g)
      then have "order_perm order ! 0 = fst g" using order(2) by (cases "order_perm order") auto
      then show ?thesis using 2 al(2,5) by (simp add: levels_ok_def first_ok_def level_live_def parent_handle_def pair_handle_def al(3))
    next
      case (3 g g')
      then have "take 2 (order_perm order) = map fst (take 2 ?gs)" using order(2) by (simp add: numeral_2_eq_2)
      then show ?thesis using 3 al(2,5) by (simp add: levels_ok_def second_ok_def level_live_def parent_handle_def al(3) numeral_2_eq_2)
    qed
  qed
  moreover have "child_block it q = Some (Some (order_index order, ?h, ?h + children (trie_of it (order_index order)) ?h - 1))"
    using assms(2) order(1) by (simp add: child_block_def choose_trie_def al(3) Let_def)
  ultimately show ?thesis using trie order(2-) by (intro exI [of _ order] exI [of _ ?h]) simp
qed

lemma least_from_empty [simp]: "least_from c {} = None"
  by (simp add: least_from_def)

lemma compact_leap_least:
  assumes "compact_at ts lv cs fs it" "q \<notin> fst ` set (cs @ fs)"
  shows "compact_leap it q c = Some (least_from c (values_at ts (cs @ fs) q))"
proof (cases "alive it")
  case False
  then have "values_at ts (cs @ fs) q = {}" using compact_not_alive [OF assms(1)] by (simp add: values_at_def)
  then show ?thesis using False by (simp add: compact_leap_def child_block_def)
next
  case True
  from child_block_at [OF assms(1) True assms(2)] obtain order h
    where b: "child_block it q = Some (Some (order_index order, h, h + children (trie_of it (order_index order)) h - 1))"
      "trie_for (trie_of it (order_index order)) (order_rows ts order)" "node_at (order_rows ts order) h (map snd (cs @ fs))"
      "map fst (cs @ fs) = take (length (cs @ fs)) (order_perm order)" "order_perm order ! length (cs @ fs) = q" "length (cs @ fs) < 3" by blast
  then show ?thesis using trie_seek_least(1) [OF b(2,3), of c] child_values_at [OF b(4-6)] unfolding compact_leap_def b(1)
    by (simp del: map_append)
qed

lemma upt_shift: "map ((+) h) [0..<n] = [h..<h + n]"
  by (induction n) simp_all

lemma compact_seek_all_values:
  assumes "compact_at ts lv cs fs it" "q \<notin> fst ` set (cs @ fs)"
  shows "compact_seek_all it q = Some (sorted_list_of_set (values_at ts (cs @ fs) q))"
proof (cases "alive it")
  case False
  then have "values_at ts (cs @ fs) q = {}" using compact_not_alive [OF assms(1)] by (simp add: values_at_def)
  then show ?thesis using False by (simp add: compact_seek_all_def child_block_def)
next
  case True
  from child_block_at [OF assms(1) True assms(2)] obtain order h
    where b: "child_block it q = Some (Some (order_index order, h, h + children (trie_of it (order_index order)) h - 1))"
      "trie_for (trie_of it (order_index order)) (order_rows ts order)" "node_at (order_rows ts order) h (map snd (cs @ fs))"
      "map fst (cs @ fs) = take (length (cs @ fs)) (order_perm order)" "order_perm order ! length (cs @ fs) = q" "length (cs @ fs) < 3" by blast
  let ?p = "map snd (cs @ fs)" and ?tr = "trie_of it (order_index order)"
  let ?ks = "kids (order_rows ts order) (length ?p) ?p"
  have "0 < length ?ks" using kids_nonempty [OF b(3)] by (simp only: length_greater_0_conv not_False_eq_True)
  then have block: "[h..<h + children ?tr h - 1 + 1] = map ((+) h) [0..<length ?ks]"
    unfolding children_count [OF b(2,3)] by (simp only: upt_shift Suc_diff_1 add_gr_0 Suc_eq_plus1 [symmetric] simp_thms)
  have "map (sym ?tr) (map ((+) h) [0..<length ?ks]) = map last ?ks"
    using node_kid(3) [OF b(2,3)] by (intro nth_equalityI) simp_all
  also have "\<dots> = sorted_list_of_set (values_at ts (cs @ fs) q)"
    using sorted_kids [of "order_rows ts order" ?p] b(2,6) child_values_at [OF b(4-6)] by (simp add: trie_for_def del: map_append)
  finally show ?thesis unfolding compact_seek_all_def b(1) by (simp only: option.map option.case prod.case block)
qed

section \<open>Descending and ascending\<close>

lemma pushed_levels:
  assumes "levels_ok ts gs it" "co_level1 it' = co_level1 it" "co_level2 it' = co_level2 it"
    and "\<And>n. n \<le> length gs \<Longrightarrow> level_live it' n \<Longrightarrow> level_live it n" "2 \<le> length gs \<or> \<not> level_live it' (Suc (length gs))"
  shows "levels_ok ts (gs @ [g]) it'"
proof -
  have "1 \<le> length gs \<or> gs = []" by (cases gs) simp_all
  moreover have "\<not> level_live it' 1" if "gs = []" using assms(5) that by simp
  moreover have "\<not> level_live it' 2" if "length gs = 1" using assms(5) that by (simp add: numeral_2_eq_2)
  moreover have "2 \<le> length (gs @ [g]) \<longleftrightarrow> 2 \<le> length gs \<or> length gs = 1" by auto
  ultimately show ?thesis
    using assms(1) assms(4) [of 1] assms(4) [of 2] first_ok_snoc [of gs ts g it'] second_ok_snoc [of gs ts g it'] levels_ok_cong [of it' it ts gs] assms(2,3)
    unfolding levels_ok_def by (metis One_nat_def)
qed

text \<open>A pair of tries shares its first level.\<close>

lemma first_level: "sorted T \<Longrightarrow> nodes T 1 = map (\<lambda>a. [a]) (sorted_list_of_set (fst ` set T))"
proof -
  assume "sorted T"
  then have "sorted (map fst T)" by (intro sorted_map_mono) (auto simp: mono_on_def)
  have "nodes T 1 = remdups_adj (map (\<lambda>a. [a]) (map fst T))" unfolding nodes_def by (rule arg_cong [of _ _ remdups_adj]) auto
  also have "\<dots> = map (\<lambda>a. [a]) (remdups_adj (map fst T))" by (rule remdups_adj_map_injective) (simp add: inj_def)
  finally show ?thesis using sorted_remdups_adj [OF \<open>sorted (map fst T)\<close>] by simp
qed

lemma shared_level:
  assumes "order_perm order ! 0 = order_perm order' ! 0"
  shows "nodes (order_rows ts order) 1 = nodes (order_rows ts order') 1"
proof -
  have first: "fst (spo (reorder o' t)) = proj (order_perm o' ! 0) t" for o' t by (cases t; cases o') simp_all
  have "fst ` set (order_rows ts o') = proj (order_perm o' ! 0) ` set ts" for o'
    by (simp add: order_rows_def image_image first)
  then show ?thesis using assms first_level [of "order_rows ts order"] first_level [of "order_rows ts order'"]
    by (simp add: order_rows_def)
qed

lemma shared_position:
  assumes "order_perm order ! 0 = order_perm order' ! 0" "i < length (level_order (order_rows ts order))"
    and "level_order (order_rows ts order) ! i = [v]"
  shows "i < length (level_order (order_rows ts order')) \<and> level_order (order_rows ts order') ! i = [v]"
proof -
  let ?T = "order_rows ts order" and ?T' = "order_rows ts order'"
  have "i < length (nodes ?T 1)"
  proof (rule ccontr)
    assume "\<not> i < length (nodes ?T 1)"
    then have "level_order ?T ! i \<in> set (nodes ?T 2 @ nodes ?T 3)" using assms(2)
      unfolding level_order_def nth_append [of "nodes ?T 1"] by (simp only: if_False) (intro nth_mem, simp)
    then show False using node_length [of "[v]" ?T 2] node_length [of "[v]" ?T 3] assms(3) by auto
  qed
  then show ?thesis using assms(3) unfolding level_order_def nth_append [of "nodes ?T 1"] nth_append [of "nodes ?T' 1"]
    by (simp add: shared_level [OF assms(1), of ts] del: One_nat_def)
qed

lemma trie_at:
  assumes "compact_at ts lv cs fs it" "alive it"
  shows "trie_for (trie_of it (order_index order)) (order_rows ts order)"
  using assms(1) index_trie [OF _ compact_alive(4) [OF assms]] by (simp add: compact_at_def trie_of_def)

lemma order_pair:
  "order_perm o' ! 0 = order_perm order ! 0 \<Longrightarrow> order_index o' = order_index order - order_index order mod 2 \<or> order_index o' = order_index order - order_index order mod 2 + 1"
  by (cases order; cases o') simp_all

lemma order_of_pair:
  "\<exists>o'. order_index o' = order_index order - order_index order mod 2 \<and> order_perm o' ! 0 = order_perm order ! 0"
  "\<exists>o'. order_index o' = order_index order - order_index order mod 2 + 1 \<and> order_perm o' ! 0 = order_perm order ! 0"
proof -
  show "\<exists>o'. order_index o' = order_index order - order_index order mod 2 \<and> order_perm o' ! 0 = order_perm order ! 0"
    by (cases order) (force intro: exI [of _ SPO] exI [of _ POS] exI [of _ OSP])+
  show "\<exists>o'. order_index o' = order_index order - order_index order mod 2 + 1 \<and> order_perm o' ! 0 = order_perm order ! 0"
    by (cases order) (force intro: exI [of _ SOP] exI [of _ PSO] exI [of _ OPS])+
qed

lemma order_index_inject [simp]: "order_index o1 = order_index o2 \<longleftrightarrow> o1 = o2"
  by (cases o1; cases o2) simp_all

text \<open>The state of an iterator whose constants all occur, below the positions \<open>gs\<close>.\<close>

definition open_at :: "index_entry list \<Rightarrow> (spo_pos \<times> u32) list \<Rightarrow> compact_iter \<Rightarrow> bool" where
  "open_at ts gs it \<longleftrightarrow>
     index_for (co_index it) ts \<and> ts \<noteq> [] \<and> \<not> co_empty it \<and> distinct (map fst gs) \<and> co_fixed it = gs \<and> levels_ok ts gs it
     \<and> (\<forall>d. co_dead_from it = Some d \<longrightarrow> 0 < d \<and> d \<le> length gs \<and> (\<forall>t \<in> set ts. \<not> agrees (take d gs) t))"

definition descends :: "index_entry list \<Rightarrow> (spo_pos \<times> u32) list \<Rightarrow> compact_iter \<Rightarrow> spo_pos \<Rightarrow> u32 \<Rightarrow> bool" where
  "descends ts gs it q v \<longleftrightarrow>
     (\<exists>found it'. descend it q v = Some (found, it') \<and> open_at ts (gs @ [(q, v)]) it' \<and> (found \<longleftrightarrow> co_dead_from it' = None)
        \<and> (\<forall>d. co_dead_from it' = Some d \<longrightarrow> co_dead_from it = Some d \<or> d = Suc (length gs)))"

lemma open_alive: "open_at ts gs it \<Longrightarrow> alive it \<longleftrightarrow> co_dead_from it = None"
  by (auto simp: open_at_def alive_def split: option.split)

lemma open_compact: "open_at ts gs it \<Longrightarrow> alive it \<Longrightarrow> compact_at ts ts gs [] it"
  using open_alive [of ts gs it] by (simp add: open_at_def compact_at_def)

lemma descend_push:
  assumes "open_at ts gs it" "q \<notin> fst ` set gs" "2 \<le> length gs \<or> \<not> alive it"
  shows "descends ts gs it q v"
proof -
  let ?it = "it\<lparr>co_fixed := gs @ [(q, v)]\<rparr>"
  have f: "co_fixed it = gs" using assms(1) by (simp add: open_at_def)
  have d: "\<And>d. co_dead_from it = Some d \<Longrightarrow> d \<le> length gs" using assms(1) by (simp add: open_at_def)
  have "levels_ok ts (gs @ [(q, v)]) ?it"
  proof (rule pushed_levels)
    show "levels_ok ts gs it" using assms(1) by (simp add: open_at_def)
    show "2 \<le> length gs \<or> \<not> level_live ?it (Suc (length gs))"
      using assms(3) open_alive [OF assms(1)] d by (auto simp: level_live_def)
  qed (simp_all add: level_live_def)
  then have "open_at ts (gs @ [(q, v)]) ?it"
    using assms(1,2) by (auto simp: open_at_def)
  moreover have "descend it q v = Some (alive ?it, ?it)" using assms(3) f by (simp add: descend_def Let_def)
  moreover have "alive ?it \<longleftrightarrow> co_dead_from ?it = None" by (rule open_alive) fact
  ultimately show ?thesis unfolding descends_def by (intro exI [of _ "alive ?it"] exI [of _ ?it]) simp
qed

lemma descend_miss:
  assumes "open_at ts gs it" "q \<notin> fst ` set gs" "alive it" "length gs < 2" "v \<notin> values_at ts gs q"
    and "child_block it q = Some (Some (i, b, e))" "\<And>p. trie_seek (trie_of it i) v b e \<noteq> Some (v, p)"
  shows "descends ts gs it q v"
proof -
  let ?it = "it\<lparr>co_fixed := gs @ [(q, v)], co_dead_from := Some (Suc (length gs))\<rparr>"
  have f: "co_fixed it = gs" and dead: "co_dead_from it = None"
    using assms(1,3) open_alive [OF assms(1)] by (simp_all add: open_at_def)
  have "levels_ok ts (gs @ [(q, v)]) ?it"
    by (rule pushed_levels [of ts gs it]) (use assms(1) dead in \<open>simp_all add: open_at_def level_live_def\<close>)
  moreover have "\<forall>t \<in> set ts. \<not> agrees (gs @ [(q, v)]) t" using assms(5) by (auto simp: values_at_def)
  ultimately have "open_at ts (gs @ [(q, v)]) ?it" using assms(1,2) by (auto simp: open_at_def)
  moreover have "descend it q v = Some (False, ?it)"
    using assms(3,4,6,7) f by (auto simp: descend_def Let_def split: option.splits)
  ultimately show ?thesis unfolding descends_def by (intro exI [of _ False] exI [of _ ?it]) simp
qed

lemma descend_first:
  assumes "open_at ts [] it" "alive it" "child_block it q = Some (Some (order_index order, h, e))"
    and "trie_seek (trie_of it (order_index order)) v h e = Some (v, i)" "order_perm order ! 0 = q"
    and "i < length (level_order (order_rows ts order))" "level_order (order_rows ts order) ! i = [v]"
  shows "descends ts [] it q v"
proof -
  have f: "co_fixed it = []" and dead: "co_dead_from it = None"
    using assms(1,2) open_alive [OF assms(1)] by (simp_all add: open_at_def)
  note trie = trie_at [OF open_compact [OF assms(1,2)] assms(2)]
  let ?pair = "order_index order - order_index order mod 2"
  have handle: "\<exists>h. node_handle (trie_of it (order_index o')) i = Some h \<and> node_at (order_rows ts o') h [v]"
    if "order_perm o' ! 0 = order_perm order ! 0" for o'
    using shared_position [OF that [symmetric] assms(6,7)] by (intro node_handle_at [OF trie]) simp_all
  obtain o0 o1 where o: "order_index o0 = ?pair" "order_perm o0 ! 0 = q" "order_index o1 = ?pair + 1" "order_perm o1 ! 0 = q"
    using order_of_pair [of order] assms(5) by metis
  obtain h0 h1 where h: "node_handle (trie_of it ?pair) i = Some h0" "node_at (order_rows ts o0) h0 [v]"
    "node_handle (trie_of it (?pair + 1)) i = Some h1" "node_at (order_rows ts o1) h1 [v]"
    using handle [of o0] handle [of o1] o assms(5) by metis
  let ?it = "it\<lparr>co_fixed := [(q, v)], co_level1 := (h0, h1)\<rparr>"
  have even: "?pair mod 2 = 0" by (cases order) simp_all
  have "node_at (order_rows ts o') (pair_handle ?it o') [v]" if "order_perm o' ! 0 = q" for o'
  proof -
    have "order_index o' = ?pair \<or> order_index o' = ?pair + 1" using order_pair that assms(5) by metis
    then show ?thesis
    proof
      assume "order_index o' = ?pair"
      then have "o' = o0" using o(1) by (metis order_index_inject)
      then show ?thesis using h(2) o(1) even by (simp add: pair_handle_def)
    next
      assume "order_index o' = ?pair + 1"
      then have "o' = o1" using o(3) by (metis order_index_inject)
      then show ?thesis using h(4) o(3) even by (simp add: pair_handle_def mod_Suc)
    qed
  qed
  then have "levels_ok ts [(q, v)] ?it" by (simp add: levels_ok_def first_ok_def)
  then have "open_at ts ([] @ [(q, v)]) ?it" using assms(1) dead by (simp add: open_at_def)
  moreover have "descend it q v = Some (True, ?it)"
    using assms(2-4) f h(1,3) by (simp add: descend_def Let_def)
  ultimately show ?thesis using dead unfolding descends_def by (intro exI [of _ True] exI [of _ ?it]) simp
qed

lemma perm_prefix2: "take 2 (order_perm o1) = take 2 (order_perm o2) \<Longrightarrow> o1 = o2"
  by (cases o1; cases o2) simp_all

lemma descend_second:
  assumes "open_at ts [g] it" "q \<noteq> fst g" "alive it" "child_block it q = Some (Some (order_index order, h, e))"
    and "trie_seek (trie_of it (order_index order)) v h e = Some (v, i)" "take 2 (order_perm order) = [fst g, q]"
    and "i < length (level_order (order_rows ts order))" "level_order (order_rows ts order) ! i = [snd g, v]"
  shows "descends ts [g] it q v"
proof -
  have f: "co_fixed it = [g]" and dead: "co_dead_from it = None"
    using assms(1,3) open_alive [OF assms(1)] by (simp_all add: open_at_def)
  note trie = trie_at [OF open_compact [OF assms(1,3)] assms(3)]
  obtain h' where h': "node_handle (trie_of it (order_index order)) i = Some h'" "node_at (order_rows ts order) h' [snd g, v]"
    using node_handle_at [OF trie assms(7,8)] by auto
  let ?it = "it\<lparr>co_fixed := [g, (q, v)], co_level2 := (order_index order, h')\<rparr>"
  have "levels_ok ts [g] it" using assms(1) by (simp add: open_at_def)
  then have "first_ok ts [g, (q, v)] ?it"
  proof -
    have "first_ok ts [g] it" using \<open>levels_ok ts [g] it\<close> dead by (simp add: levels_ok_def level_live_def)
    then have "first_ok ts ([g] @ [(q, v)]) it" by (subst first_ok_snoc) simp_all
    then show ?thesis using levels_ok_cong(1) [of ?it it] by simp
  qed
  moreover have "second_ok ts [g, (q, v)] ?it"
    unfolding second_ok_def
  proof (intro allI impI)
    fix o' assume "take 2 (order_perm o') = map fst (take 2 [g, (q, v)])"
    then have "take 2 (order_perm o') = take 2 (order_perm order)" using assms(6) by simp
    then have "o' = order" by (rule perm_prefix2)
    then show "node_at (order_rows ts o') (snd (co_level2 ?it)) (map snd (take 2 [g, (q, v)]))" using h'(2) by simp
  qed
  ultimately have "levels_ok ts ([g] @ [(q, v)]) ?it" by (simp add: levels_ok_def)
  then have "open_at ts ([g] @ [(q, v)]) ?it" using assms(1,2) dead by (simp add: open_at_def)
  moreover have "descend it q v = Some (True, ?it)"
    using assms(3-5) f h'(1) by (simp add: descend_def Let_def)
  ultimately show ?thesis using dead unfolding descends_def by (intro exI [of _ True] exI [of _ ?it]) simp
qed

lemma descend_open:
  assumes "open_at ts gs it" "q \<notin> fst ` set gs"
  shows "descends ts gs it q v"
proof (cases "2 \<le> length gs \<or> \<not> alive it")
  case True
  then show ?thesis by (rule descend_push [OF assms])
next
  case False
  then have al: "alive it" and short: "length gs < 2" by auto
  obtain order h where b: "child_block it q = Some (Some (order_index order, h, h + children (trie_of it (order_index order)) h - 1))"
    "trie_for (trie_of it (order_index order)) (order_rows ts order)" "node_at (order_rows ts order) h (map snd gs)"
    "map fst gs = take (length gs) (order_perm order)" "order_perm order ! length gs = q" "length gs < 3"
    using child_block_at [OF open_compact [OF assms(1) al] al, of q] assms(2) unfolding append_Nil2 by blast
  have p3: "length (map snd gs) < 3" using b(6) by simp
  note hit = trie_seek_hit [OF b(2,3) p3]
  note vals = child_values_at [OF b(4-6)]
  show ?thesis
  proof (cases "v \<in> values_at ts gs q")
    case no: False
    then show ?thesis using hit(2) unfolding vals by (intro descend_miss [OF assms al short no b(1)]) blast
  next
    case True
    then obtain i where i: "trie_seek (trie_of it (order_index order)) v h (h + children (trie_of it (order_index order)) h - 1) = Some (v, i)"
      "i < length (level_order (order_rows ts order))" "level_order (order_rows ts order) ! i = map snd gs @ [v]"
      using hit(1) unfolding vals by blast
    show ?thesis
    proof (cases gs)
      case Nil
      then show ?thesis using descend_first [OF _ al b(1) i(1) _ i(2)] assms(1) b(5) i(3) by simp
    next
      case (Cons g gs')
      then have gs: "gs = [g]" using short by simp
      have "take 2 (order_perm order) = [fst g, q]" using b(4,5) gs by (cases order) simp_all
      then show ?thesis using descend_second [OF _ _ al b(1) i(1) _ i(2)] assms i(3) gs by simp
    qed
  qed
qed

lemma compact_open: "compact_at ts lv cs fs it \<Longrightarrow> \<not> co_empty it \<Longrightarrow> open_at ts (cs @ fs) it"
  by (auto simp: compact_at_def open_at_def)

lemma compact_down_at:
  assumes "compact_at ts lv cs fs it" "q \<notin> fst ` set (cs @ fs)"
  shows "\<exists>it'. compact_down it q v = Some it' \<and> compact_at ts lv cs (fs @ [(q, v)]) it'"
proof (cases "co_empty it")
  case True
  then have "compact_down it q v = Some (it\<lparr>co_fixed := co_fixed it @ [(q, v)]\<rparr>)"
    by (simp add: compact_down_def descend_def alive_def Let_def)
  moreover have "distinct (map fst (cs @ fs) @ [q])"
    using assms unfolding compact_at_def set_map [symmetric] by (intro distinct_snocI) blast+
  ultimately show ?thesis using assms(1) True by (simp add: compact_at_def)
next
  case False
  note op = compact_open [OF assms(1) False]
  from descend_open [OF op assms(2), of v] obtain found it' where it': "descend it q v = Some (found, it')"
    "open_at ts ((cs @ fs) @ [(q, v)]) it'" "\<forall>d. co_dead_from it' = Some d \<longrightarrow> co_dead_from it = Some d \<or> d = Suc (length (cs @ fs))"
    unfolding descends_def by blast
  have "\<forall>d. co_dead_from it = Some d \<longrightarrow> length cs < d" "lv = ts" using assms(1) False by (simp_all add: compact_at_def)
  then have "compact_at ts lv cs (fs @ [(q, v)]) it'" using it'(2,3) by (auto simp: open_at_def compact_at_def)
  then show ?thesis using it'(1) by (simp add: compact_down_def)
qed

lemma levels_butlast: "levels_ok ts (gs @ [g]) it \<Longrightarrow> co_level1 it' = co_level1 it \<Longrightarrow> co_level2 it' = co_level2 it \<Longrightarrow>
    (\<And>n. n \<le> length gs \<Longrightarrow> level_live it' n \<Longrightarrow> level_live it n) \<Longrightarrow> levels_ok ts gs it'"
  unfolding levels_ok_def using first_ok_snoc [of gs ts g it] second_ok_snoc [of gs ts g it] levels_ok_cong [of it' it ts gs]
  by (metis Suc_leD length_append_singleton le_SucI)

lemma compact_up_at:
  assumes "compact_at ts lv cs (fs @ [f]) it"
  shows "compact_at ts lv cs fs (compact_up it q)"
proof -
  let ?it = "it\<lparr>co_fixed := butlast (co_fixed it)\<rparr>"
  have dist: "distinct (map fst (cs @ fs))" using assms distinct_fixed_snoc [of cs fs f] by (simp add: compact_at_def)
  have same: "co_index (compact_up it q) = co_index it" "co_fixed (compact_up it q) = butlast (co_fixed it)"
    "co_empty (compact_up it q) = co_empty it" "co_level1 (compact_up it q) = co_level1 it" "co_level2 (compact_up it q) = co_level2 it"
    by (simp_all add: compact_up_def Let_def split: option.split)
  show ?thesis
  proof (cases "co_empty it")
    case True
    then obtain pre where "co_fixed it = pre @ fs @ [f]" "set pre \<subseteq> set cs" using assms by (auto simp: compact_at_def)
    then have "butlast (co_fixed it) = pre @ fs" "set pre \<subseteq> set cs" by (simp_all add: butlast_append)
    then show ?thesis using assms True dist same by (auto simp: compact_at_def)
  next
    case False
    then have f: "co_fixed it = cs @ fs @ [f]" and lev: "levels_ok ts ((cs @ fs) @ [f]) it"
      and dead: "\<And>d. co_dead_from it = Some d \<Longrightarrow> length cs < d \<and> d \<le> Suc (length (cs @ fs)) \<and> (\<forall>t \<in> set ts. \<not> agrees (take d (cs @ fs @ [f])) t)"
      using assms by (simp_all add: compact_at_def)
    have b: "butlast (co_fixed it) = cs @ fs" by (simp add: f butlast_append)
    have dead': "co_dead_from (compact_up it q) = (case co_dead_from it of None \<Rightarrow> None | Some d \<Rightarrow> if length (cs @ fs) < d then None else Some d)"
      by (simp add: compact_up_def Let_def b split: option.split)
    have "levels_ok ts (cs @ fs) (compact_up it q)"
      by (rule levels_butlast [OF lev same(4,5)]) (auto simp: level_live_def dead' split: option.splits if_splits)
    moreover have "length cs < d \<and> d \<le> length (cs @ fs) \<and> (\<forall>t \<in> set ts. \<not> agrees (take d (cs @ fs)) t)"
      if "co_dead_from (compact_up it q) = Some d" for d
    proof -
      have d: "co_dead_from it = Some d" "d \<le> length (cs @ fs)" using that dead' by (auto split: option.splits if_splits)
      moreover have "take d (cs @ fs @ [f]) = take d (cs @ fs)" using d(2) by simp
      ultimately show ?thesis using dead [OF d(1)] by simp
    qed
    ultimately show ?thesis using assms False dist same b by (simp add: compact_at_def)
  qed
qed

section \<open>The edges of a bound triple\<close>

lemma by_pos_in: "by_pos fs p = Some v \<Longrightarrow> (p, v) \<in> set fs"
proof -
  have "fold (\<lambda>(q, v) r. if q = p then Some v else r) fs r = Some v \<Longrightarrow> r = Some v \<or> (p, v) \<in> set fs" for r
    by (induction fs arbitrary: r) (force split: if_splits)+
  then show "by_pos fs p = Some v \<Longrightarrow> (p, v) \<in> set fs" by (auto simp: by_pos_def)
qed

lemma spo_agrees:
  assumes "distinct (map fst gs)" "length gs = 3" "{(PosS, s), (PosP, p), (PosO, o')} \<subseteq> set gs"
  shows "agrees gs t \<longleftrightarrow> spo t = (s, p, o')"
proof -
  have "card (set gs) = 3" using distinct_card [of gs] assms(1,2) by (simp add: distinct_map)
  then have "{(PosS, s), (PosP, p), (PosO, o')} = set gs" using assms(3) by (intro card_subset_eq) simp_all
  then show ?thesis unfolding agrees_set by (cases t) (simp flip: \<open>_ = set gs\<close>)
qed

lemma compact_eids:
  assumes "compact_at ts lv cs fs it" "length (cs @ fs) = 3"
  shows "\<exists>es. compact_current_eids it = Some es \<and> mset es = image_mset edge_id (filter_mset (agrees (cs @ fs)) (mset lv))"
proof -
  have lv: "lv = ts" and idx: "index_for (co_index it) ts" and dist: "distinct (map fst (cs @ fs))"
    using assms(1) unfolding compact_at_def by blast+
  have sub: "set (co_fixed it) \<subseteq> set (cs @ fs)" using assms(1) by (auto simp: compact_at_def split: if_splits)
  show ?thesis
  proof (cases "\<exists>s p o'. by_pos (co_fixed it) PosS = Some s \<and> by_pos (co_fixed it) PosP = Some p \<and> by_pos (co_fixed it) PosO = Some o'")
    case True
    then obtain s p o' where pos: "by_pos (co_fixed it) PosS = Some s" "by_pos (co_fixed it) PosP = Some p" "by_pos (co_fixed it) PosO = Some o'" by blast
    then have "{(PosS, s), (PosP, p), (PosO, o')} \<subseteq> set (cs @ fs)" using by_pos_in sub by blast
    then have "agrees (cs @ fs) = (\<lambda>t. spo t = (s, p, o'))" using spo_agrees [OF dist assms(2)] by (intro ext)
    then show ?thesis using eids_for_leaf [OF idx, of s p o'] pos lv by (simp add: compact_current_eids_def)
  next
    case False
    have "co_empty it"
    proof (rule ccontr)
      assume "\<not> co_empty it"
      then have f: "co_fixed it = cs @ fs" using assms(1) by (simp add: compact_at_def)
      have all: "fst ` set (cs @ fs) = {PosS, PosP, PosO}" using all_positions [OF dist] assms(2) by (simp only: length_map set_map)
      have "\<exists>v. by_pos (co_fixed it) p = Some v" for p
      proof -
        have "p \<in> fst ` set (cs @ fs)" unfolding all by (cases p) simp_all
        then obtain g where "g \<in> set (cs @ fs)" "p = fst g" by (rule imageE)
        then have "(p, snd g) \<in> set (cs @ fs)" by simp
        from by_pos_fixed [OF dist this] show ?thesis unfolding f by blast
      qed
      then show False using False by blast
    qed
    then have "\<forall>t \<in> set ts. \<not> agrees (cs @ fs) t" using assms(1) by (simp add: compact_at_def)
    then have "filter (agrees (cs @ fs)) ts = []" by (simp add: filter_empty_conv)
    then have "filter_mset (agrees (cs @ fs)) (mset lv) = {#}" unfolding lv by (metis mset_filter mset_zero_iff)
    moreover have "compact_current_eids it = Some []"
      using False by (auto simp: compact_current_eids_def split: option.split)
    ultimately show ?thesis by simp
  qed
qed

section \<open>The provider\<close>

lemma compact_subtree_total:
  assumes "compact_at ts lv cs fs it" "q \<notin> fst ` set (cs @ fs)"
  shows "compact_subtree_size it q \<noteq> None"
proof (cases "alive it")
  case False
  then show ?thesis by (simp add: compact_subtree_size_def child_block_def)
next
  case True
  let ?gs = "cs @ fs"
  note f = compact_alive(3) [OF assms(1) True]
  from child_block_at [OF assms(1) True assms(2)] obtain order h
    where b: "child_block it q = Some (Some (order_index order, h, h + children (trie_of it (order_index order)) h - 1))"
      "trie_for (trie_of it (order_index order)) (order_rows ts order)" "node_at (order_rows ts order) h (map snd ?gs)" by blast
  let ?ks = "kids (order_rows ts order) (length (map snd ?gs)) (map snd ?gs)"
  have cnt: "children (trie_of it (order_index order)) h = length ?ks" by (rule children_count [OF b(2,3)])
  have handle: "\<exists>h'. node_handle (trie_of it (order_index order)) (h + j) = Some h'" if "length ?gs = 1" "j < length ?ks" for j
  proof -
    have "?ks ! j \<in> set (nodes (order_rows ts order) (Suc (length (map snd ?gs))))"
      using nth_mem [OF that(2)] by (simp add: kids_def)
    then have "length (?ks ! j) < 3" using node_length [of _ "order_rows ts order" 2] that(1) by (simp add: numeral_2_eq_2)
    then show ?thesis using node_handle_at [OF b(2) node_kid(1,2) [OF b(2,3) that(2)]] by blast
  qed
  have "?ks \<noteq> []" by (rule kids_nonempty [OF b(3)])
  then have pos: "0 < length ?ks" by (simp only: length_greater_0_conv not_False_eq_True)
  then have last: "h + children (trie_of it (order_index order)) h - 1 = h + (length ?ks - 1)" unfolding cnt by linarith
  show ?thesis
  proof (cases "length ?gs = 1")
    case one: True
    have "length ?ks - 1 < length ?ks" using pos by linarith
    from handle [OF one this] handle [OF one pos] obtain h1 h2
      where "node_handle (trie_of it (order_index order)) (h + (length ?ks - 1)) = Some h1" "node_handle (trie_of it (order_index order)) h = Some h2" by auto
    then show ?thesis unfolding compact_subtree_size_def b(1) last by (simp add: Let_def)
  next
    case False
    then have "cs @ fs = [] \<or> 2 \<le> length (cs @ fs)" by (cases "cs @ fs") (auto simp: Suc_le_eq)
    then show ?thesis unfolding compact_subtree_size_def b(1) f by auto
  qed
qed

interpretation compact_it: trie_iter compact_leap compact_down compact_up compact_seek_all compact_subtree_size compact_current_eids compact_at
proof
  fix ts lv cs fs it p v c f
  show "compact_at ts lv cs (fs @ [f]) it \<Longrightarrow> compact_at ts lv cs fs (compact_up it p)" by (rule compact_up_at)
  assume at: "compact_at ts lv cs fs it"
  show "distinct (map fst (cs @ fs))" using at by (simp only: compact_at_def)
  show "set lv \<subseteq> set ts" using at by (simp add: compact_at_def)
  show "length (cs @ fs) = 3 \<Longrightarrow> \<exists>es. compact_current_eids it = Some es \<and> mset es = image_mset edge_id (filter_mset (agrees (cs @ fs)) (mset lv))"
    by (rule compact_eids [OF at])
  assume p: "p \<notin> fst ` set (cs @ fs)"
  show "compact_leap it p c = Some (least_from c (values_at ts (cs @ fs) p))" by (rule compact_leap_least [OF at p])
  show "compact_seek_all it p = Some (sorted_list_of_set (values_at ts (cs @ fs) p))" by (rule compact_seek_all_values [OF at p])
  show "compact_subtree_size it p \<noteq> None" by (rule compact_subtree_total [OF at p])
  show "\<exists>it'. compact_down it p v = Some it' \<and> compact_at ts lv cs (fs @ [(p, v)]) it'" by (rule compact_down_at [OF at p])
qed

section \<open>A new iterator\<close>

lemma compact_at_count: "compact_at ts lv cs fs (it\<lparr>co_n_constants := n\<rparr>) = compact_at ts lv cs fs it"
  by (simp add: compact_at_def levels_ok_def first_ok_def second_ok_def level_live_def pair_handle_def)

lemma process_constant_at:
  assumes "compact_at ts ts cs [] it" "p \<notin> fst ` set cs"
  shows "\<exists>it'. process_constant (p, v) (Some it) = Some it' \<and> compact_at ts ts (cs @ [(p, v)]) [] it'"
proof (cases "co_empty it")
  case True
  have "distinct (map fst (cs @ [(p, v)]))" using assms by (simp add: compact_at_def)
  then have "compact_at ts ts (cs @ [(p, v)]) [] it" using assms(1) True by (auto simp: compact_at_def)
  moreover have same: "it\<lparr>co_empty := True\<rparr> = it" using True by simp
  ultimately show ?thesis using True by (simp add: process_constant_def compact_at_count same)
next
  case False
  have op: "open_at ts cs it" using compact_open [OF assms(1) False] by simp
  from descend_open [OF op assms(2), of v] obtain found it' where it': "descend it p v = Some (found, it')"
    "open_at ts (cs @ [(p, v)]) it'" "found \<longleftrightarrow> co_dead_from it' = None"
    unfolding descends_def by blast
  show ?thesis
  proof (cases found)
    case True
    then have "compact_at ts ts (cs @ [(p, v)]) [] it'" using it'(2,3) by (simp add: open_at_def compact_at_def)
    then show ?thesis using True False it'(1) by (simp add: process_constant_def compact_at_count)
  next
    case no: False
    then obtain d where "co_dead_from it' = Some d" using it'(3) by auto
    then have "\<forall>t \<in> set ts. \<not> agrees (take d (cs @ [(p, v)])) t" using it'(2) by (simp add: open_at_def)
    then have "\<forall>t \<in> set ts. \<not> agrees (cs @ [(p, v)]) t" using agrees_take by blast
    then have "compact_at ts ts (cs @ [(p, v)]) [] (it'\<lparr>co_empty := True\<rparr>)" using it'(2) by (simp add: open_at_def compact_at_def)
    then show ?thesis using no False it'(1) by (simp add: process_constant_def compact_at_count Let_def)
  qed
qed

lemma compact_new_at:
  assumes "index_for ci ts" "length ps = 3"
  shows "\<exists>it. compact_new ps ci = Some it \<and> compact_at ts ts (pattern_constants ps) [] it"
proof -
  have run: "\<exists>it'. fold process_constant ds (Some it) = Some it' \<and> compact_at ts ts (cs @ ds) [] it'"
    if "compact_at ts ts cs [] it" "distinct (map fst (cs @ ds))" for cs ds it
    using that
  proof (induction ds arbitrary: cs it)
    case (Cons d ds)
    obtain p v where d: "d = (p, v)" by (cases d)
    have "p \<notin> fst ` set cs" using Cons.prems(2) d by auto
    from process_constant_at [OF Cons.prems(1) this] obtain it'
      where it': "process_constant (p, v) (Some it) = Some it'" "compact_at ts ts (cs @ [d]) [] it'" using d by blast
    from Cons.IH [OF it'(2)] show ?case using Cons.prems(2) d it'(1) by simp
  qed simp
  have len: "ci_raw_len ci = length ts" using assms(1) from_raw_tries(2) by (simp add: index_for_def)
  let ?it = "\<lparr>co_index = ci, co_fixed = [], co_n_constants = 0, co_level1 = (0, 0), co_level2 = (0, 0),
              co_empty = index_is_empty ci, co_dead_from = None\<rparr>"
  have "compact_at ts ts [] [] ?it" using assms(1) len by (simp add: compact_at_def index_is_empty_def levels_ok_def)
  moreover have "distinct (map fst (pattern_constants ps))"
    using array_new_at [OF assms(2), of "[]"] array_it.ok_distinct by fastforce
  ultimately show ?thesis using run [of "[]" ?it "pattern_constants ps"] by (simp add: compact_new_def)
qed

end
