(* ===== verification/LtjIndexes.thy ===== *)
theory LtjIndexes
  imports CompactIterators
begin

text \<open>
  The triple index as a session keeps it (\<open>TripleIndex\<close> of
  \<open>src/runtime/ltj/triple_index.rs\<close>): a static payload in either representation, the delta of
  the triples the session has changed since it was built (\<open>src/runtime/ltj/delta.rs\<close>), and
  the refresh that brings the delta up to date.
\<close>

section \<open>The delta\<close>

text \<open>
  What a store reports of its overlay: the live edges it allocated, with their directedness,
  the deleted edges, and the next identifier. A stamp remembers the last two.
\<close>

type_synonym edge_mutations = "(u32 \<times> bool) list \<times> u32 list \<times> u32"

record overlay_stamp =
  os_next_edge_id :: u32
  os_deleted :: "u32 list"

definition default_stamp :: overlay_stamp where
  "default_stamp = \<lparr>os_next_edge_id = 0, os_deleted = []\<rparr>"

record triple_delta =
  td_added :: orderings
  td_removed :: "u32 list"

definition default_delta :: triple_delta where
  "default_delta = \<lparr>td_added = (\<lambda>_. []), td_removed = []\<rparr>"

definition delta_is_empty :: "triple_delta \<Rightarrow> bool" where
  "delta_is_empty d \<longleftrightarrow> td_added d SPO = [] \<and> td_removed d = []"

definition added_len :: "triple_delta \<Rightarrow> nat" where
  "added_len d = length (td_added d SPO)"

definition id_for :: "label_dict \<Rightarrow> string \<Rightarrow> u32 \<times> label_dict" where
  "id_for d name =
     (case map_of (ld_ids d) name of
        Some i \<Rightarrow> (i, d)
      | None \<Rightarrow>
          let i = word_of_nat (length (ld_labels d))
          in (i, \<lparr>ld_ids = (name, i) # ld_ids d, ld_labels = ld_labels d @ [name]\<rparr>))"

definition delta_triples :: "bool \<Rightarrow> bool \<Rightarrow> u32 \<Rightarrow> u32 \<Rightarrow> u32 \<Rightarrow> u32 \<Rightarrow> index_entry list" where
  "delta_triples mirror directed e s t lid =
     [(s, lid, t, e)] @ (if (mirror \<or> \<not> directed) \<and> (mirror \<or> s \<noteq> t) then [(t, lid, s, e)] else [])"

definition push_delta :: "(u32 \<Rightarrow> index_entry list) \<Rightarrow> string list \<Rightarrow> index_build \<Rightarrow> index_build" where
  "push_delta triples names st =
     (if names = [] then let (d, raw) = st; (lid, d) = id_for d [] in (d, raw @ triples lid)
      else fold (\<lambda>name (d, raw). let (lid, d) = id_for d name in (d, raw @ triples lid)) names st)"

definition delta_build :: "graph_access \<Rightarrow> overlay_stamp \<Rightarrow> edge_mutations \<Rightarrow> label_dict \<Rightarrow> bool \<Rightarrow> label_dict \<times> triple_delta" where
  "delta_build A stamp now labels mirror =
     (let (live_overlay, deleted, next_edge) = now;
          (labels, raw) = fold (\<lambda>(e, directed) st.
              if e < os_next_edge_id stamp then st
              else push_delta (delta_triples mirror directed e (ga_src A e) (ga_tgt A e)) (required_labels (ga_edge_labels A e)) st)
            live_overlay (labels, []);
          removed = filter (\<lambda>e. e \<notin> set (os_deleted stamp)) deleted
      in (labels, \<lparr>td_added = build_orderings raw, td_removed = removed\<rparr>))"

section \<open>The index\<close>

datatype index_repr = ArrayRepr orderings | CompactRepr compact_index

record triple_index =
  ti_repr :: index_repr
  ti_delta :: triple_delta
  ti_stamp :: overlay_stamp
  ti_mirrored :: bool
  ti_labels :: label_dict

definition index_delta :: "triple_index \<Rightarrow> triple_delta option" where
  "index_delta ti = (if delta_is_empty (ti_delta ti) then None else Some (ti_delta ti))"

definition rebased :: "triple_index \<Rightarrow> triple_delta \<Rightarrow> label_dict \<Rightarrow> triple_index" where
  "rebased ti delta labels = ti\<lparr>ti_delta := delta, ti_labels := labels\<rparr>"

definition stamp_overlay :: "edge_mutations option \<Rightarrow> triple_index \<Rightarrow> triple_index" where
  "stamp_overlay em ti =
     (case em of
        None \<Rightarrow> ti
      | Some (live_overlay, deleted, next_edge) \<Rightarrow> ti\<lparr>ti_stamp := \<lparr>os_next_edge_id = next_edge, os_deleted = deleted\<rparr>\<rparr>)"

text \<open>\<open>compact\<close> is the choice the environment makes; \<open>None\<close> is the assertion of the bit vectors.\<close>

definition from_graph_impl :: "bool \<Rightarrow> graph_access \<Rightarrow> edge_mutations option \<Rightarrow> bool \<Rightarrow> triple_index option" where
  "from_graph_impl compact A em mirror =
     (let (labels, raw) = index_triples A mirror
      in map_option (\<lambda>repr. stamp_overlay em
             \<lparr>ti_repr = repr, ti_delta = default_delta, ti_stamp = default_stamp, ti_mirrored = mirror, ti_labels = labels\<rparr>)
           (if compact then map_option CompactRepr (index_from_raw raw) else Some (ArrayRepr (build_orderings raw))))"

definition MAX_DELTA_TRIPLES :: nat where
  "MAX_DELTA_TRIPLES = 200000"

text \<open>\<open>None\<close> asks for a rebuild.\<close>

definition refresh :: "bool \<Rightarrow> triple_index \<Rightarrow> graph_access \<Rightarrow> edge_mutations option \<Rightarrow> triple_index option" where
  "refresh delta_disabled ti A em =
     (if delta_disabled then None
      else
        (case em of
           None \<Rightarrow> None
         | Some now \<Rightarrow>
             let (labels, delta) = delta_build A (ti_stamp ti) now (ti_labels ti) (ti_mirrored ti)
             in if MAX_DELTA_TRIPLES < added_len delta then None else Some (rebased ti delta labels)))"

section \<open>What an index holds\<close>

text \<open>The triples it answers from, \<open>ts\<close>, and those of them whose edges it has not removed, \<open>lv\<close>.\<close>

definition repr_for :: "index_repr \<Rightarrow> index_entry list \<Rightarrow> bool" where
  "repr_for r ts \<longleftrightarrow> (case r of ArrayRepr os \<Rightarrow> os = build_orderings ts | CompactRepr ci \<Rightarrow> index_for ci ts)"

definition index_holds :: "triple_index \<Rightarrow> index_entry list \<Rightarrow> index_entry list \<Rightarrow> bool" where
  "index_holds ti ts lv \<longleftrightarrow>
     (\<exists>base added. repr_for (ti_repr ti) base \<and> ts = base @ added \<and> td_added (ti_delta ti) = build_orderings added
        \<and> lv = filter (\<lambda>t. edge_id t \<notin> set (td_removed (ti_delta ti))) ts)"

lemma build_orderings_Nil [simp]: "build_orderings [] = (\<lambda>_. [])"
  by (simp add: build_orderings_def build_ordering_def fun_eq_iff)

lemma build_orderings_empty: "build_orderings ts SPO = [] \<longleftrightarrow> ts = []"
proof -
  have "length (build_orderings ts SPO) = length ts" by (simp add: build_orderings_def build_ordering_def)
  then show ?thesis by (metis length_0_conv)
qed

lemma from_graph_holds:
  assumes "from_graph_impl compact A em mirror = Some ti" "index_triples A mirror = (d, raw)" "length raw < 2 ^ 32"
  shows "index_holds ti raw raw \<and> ti_labels ti = d \<and> ti_mirrored ti = mirror \<and> repr_for (ti_repr ti) raw
    \<and> (\<forall>now. em = Some now \<longrightarrow> ti_stamp ti = \<lparr>os_next_edge_id = snd (snd now), os_deleted = fst (snd now)\<rparr>)"
proof -
  obtain repr where repr: "(if compact then map_option CompactRepr (index_from_raw raw) else Some (ArrayRepr (build_orderings raw))) = Some repr"
    and ti: "ti = stamp_overlay em \<lparr>ti_repr = repr, ti_delta = default_delta, ti_stamp = default_stamp, ti_mirrored = mirror, ti_labels = d\<rparr>"
    using assms(1,2) by (auto simp: from_graph_impl_def)
  have r: "repr_for repr raw" using repr assms(3) by (auto simp: repr_for_def index_for_def split: if_splits)
  have f: "ti_repr ti = repr" "ti_delta ti = default_delta" "ti_labels ti = d" "ti_mirrored ti = mirror"
    unfolding ti by (auto simp: stamp_overlay_def split: option.split)
  have "\<forall>now. em = Some now \<longrightarrow> ti_stamp ti = \<lparr>os_next_edge_id = snd (snd now), os_deleted = fst (snd now)\<rparr>"
    unfolding ti by (auto simp: stamp_overlay_def)
  moreover have "index_holds ti raw raw"
    unfolding index_holds_def by (rule exI [of _ raw], rule exI [of _ "[]"]) (use r f in \<open>simp add: default_delta_def\<close>)
  ultimately show ?thesis using r f by simp
qed

section \<open>What a refresh adds\<close>

lemma id_for_eq: "id_for = get_or_insert_label"
  by (intro ext) (simp add: id_for_def get_or_insert_label_def)

lemma push_delta_eq: "push_delta f names st = push_edge f (if names = [] then [[]] else names) st"
  by (cases st) (simp add: push_delta_def push_edge_def id_for_eq split: prod.split)

text \<open>The triples of an edge the delta adds are those the index would have, but for undirected loops in a mirrored index.\<close>

lemma delta_triples_eq:
  "\<not> (mirror \<and> \<not> directed \<and> s = t) \<Longrightarrow>
    delta_triples mirror directed e s t lid = (if directed then directed_triples mirror e s t lid else undirected_triples e s t lid)"
  by (auto simp: delta_triples_def directed_triples_def undirected_triples_def)

definition fresh_overlay :: "overlay_stamp \<Rightarrow> (u32 \<times> bool) list \<Rightarrow> (u32 \<times> bool) list" where
  "fresh_overlay stamp live = filter (\<lambda>(e, _). os_next_edge_id stamp \<le> e) live"

lemma delta_fold:
  assumes "dict_ok d"
    and "fold (\<lambda>(e, directed) st. if e < os_next_edge_id stamp then st else push_delta (f e directed) (names e) st) live (d, raw) = (d', raw')"
  shows "dict_ok d' \<and> extends d d' \<and> (\<forall>(e, _) \<in> set (fresh_overlay stamp live). \<forall>n \<in> set (if names e = [] then [[]] else names e). map_of (ld_ids d') n \<noteq> None)
    \<and> raw' = raw @ concat (map (\<lambda>(e, directed). concat (map (\<lambda>n. f e directed (label_id d' n)) (if names e = [] then [[]] else names e)))
        (fresh_overlay stamp live))"
proof -
  let ?names = "\<lambda>e. if names e = [] then [[]] else names e"
  have "fold (\<lambda>(e, directed) st. if e < os_next_edge_id stamp then st else push_delta (f e directed) (names e) st) live st
      = fold (\<lambda>x. push_edge (f (fst x) (snd x)) (?names (fst x))) (fresh_overlay stamp live) st" for st
    by (induction live arbitrary: st) (auto simp: fresh_overlay_def push_delta_eq not_less)
  then have "fold (\<lambda>x. push_edge (f (fst x) (snd x)) (?names (fst x))) (fresh_overlay stamp live) (d, raw) = (d', raw')"
    using assms(2) by simp
  from push_edges_spec [OF assms(1) this] show ?thesis by (simp add: split_def)
qed

lemma delta_build_spec:
  assumes "dict_ok d" "delta_build A stamp (live, deleted, nxt) d mirror = (d', delta)"
    and "\<forall>(e, directed) \<in> set (fresh_overlay stamp live). \<not> (mirror \<and> \<not> directed \<and> ga_src A e = ga_tgt A e)"
  shows "dict_ok d' \<and> extends d d' \<and> td_removed delta = filter (\<lambda>e. e \<notin> set (os_deleted stamp)) deleted
    \<and> td_added delta = build_orderings (concat (map (\<lambda>(e, directed). edge_triples A d' mirror directed e) (fresh_overlay stamp live)))"
proof -
  obtain raw where raw: "fold (\<lambda>(e, directed) st. if e < os_next_edge_id stamp then st
      else push_delta (delta_triples mirror directed e (ga_src A e) (ga_tgt A e)) (required_labels (ga_edge_labels A e)) st) live (d, []) = (d', raw)"
    and delta: "delta = \<lparr>td_added = build_orderings raw, td_removed = filter (\<lambda>e. e \<notin> set (os_deleted stamp)) deleted\<rparr>"
    using assms(2) by (auto simp: delta_build_def Let_def split: prod.splits)
  note spec = delta_fold [OF assms(1) raw]
  have "raw = concat (map (\<lambda>(e, directed). concat (map (\<lambda>n. delta_triples mirror directed e (ga_src A e) (ga_tgt A e) (label_id d' n)) (edge_names A e)))
      (fresh_overlay stamp live))"
    using spec by (simp add: edge_names_def Let_def)
  also have "\<dots> = concat (map (\<lambda>(e, directed). edge_triples A d' mirror directed e) (fresh_overlay stamp live))"
  proof -
    have "concat (map (\<lambda>n. delta_triples mirror directed e (ga_src A e) (ga_tgt A e) (label_id d' n)) (edge_names A e)) = edge_triples A d' mirror directed e"
      if "(e, directed) \<in> set (fresh_overlay stamp live)" for e directed
    proof -
      have "\<not> (mirror \<and> \<not> directed \<and> ga_src A e = ga_tgt A e)" using bspec [OF assms(3) that] by simp
      from delta_triples_eq [OF this] show ?thesis by (cases directed) (simp_all add: edge_triples_def)
    qed
    then show ?thesis by (intro arg_cong [of _ _ concat] map_cong) auto
  qed
  finally show ?thesis using spec delta by simp
qed

section \<open>A refreshed index against a rebuilt one\<close>

text \<open>
  What the store promises between the moment of the stamp and now: the edges that are left
  kept their ends and labels, identifiers of new edges start at the stamp's, and the live
  edges are those left and those the overlay allocated since.
\<close>

definition session_follows :: "graph_access \<Rightarrow> graph_access \<Rightarrow> overlay_stamp \<Rightarrow> edge_mutations \<Rightarrow> bool" where
  "session_follows A0 A stamp now \<longleftrightarrow>
     (case now of (live, deleted, nxt) \<Rightarrow>
        (\<forall>e \<in> set (ga_edges_directed A0) \<union> set (ga_edges_undirected A0). e \<notin> set (os_deleted stamp)
           \<and> (e \<notin> set deleted \<longrightarrow> ga_src A e = ga_src A0 e \<and> ga_tgt A e = ga_tgt A0 e \<and> ga_edge_labels A e = ga_edge_labels A0 e))
        \<and> (\<forall>(e, _) \<in> set (fresh_overlay stamp live). e \<notin> set deleted)
        \<and> mset (ga_edges_directed A) = mset (filter (\<lambda>e. e \<notin> set deleted) (ga_edges_directed A0)) + mset (map fst (filter snd (fresh_overlay stamp live)))
        \<and> mset (ga_edges_undirected A) = mset (filter (\<lambda>e. e \<notin> set deleted) (ga_edges_undirected A0)) + mset (map fst (filter (\<lambda>x. \<not> snd x) (fresh_overlay stamp live))))"

definition graph_triples :: "graph_access \<Rightarrow> label_dict \<Rightarrow> bool \<Rightarrow> index_entry list" where
  "graph_triples A d mirror =
     concat (map (edge_triples A d mirror True) (ga_edges_directed A)) @ concat (map (edge_triples A d mirror False) (ga_edges_undirected A))"

lemma edge_triples_id: "t \<in> set (edge_triples A d mirror b e) \<Longrightarrow> edge_id t = e"
  by (auto simp: edge_triples_def directed_triples_def undirected_triples_def split: if_splits)

lemma filter_concat_ids:
  assumes "\<And>e t. t \<in> set (g e) \<Longrightarrow> edge_id t = e"
  shows "filter (\<lambda>t. P (edge_id t)) (concat (map g es)) = concat (map g (filter P es))"
proof -
  have "filter (\<lambda>t. P (edge_id t)) (g e) = (if P e then g e else [])" for e
    using assms [of _ e] by (auto simp: filter_id_conv filter_empty_conv)
  then show ?thesis by (induction es) auto
qed

lemma mset_concat_each: "mset xs = mset ys \<Longrightarrow> mset (concat (map g xs)) = mset (concat (map g ys))"
  by (simp add: mset_concat comp_def mset_map [symmetric] del: mset_map) (metis mset_map sum_mset_sum_list)

lemma label_id_extends: "extends d d' \<Longrightarrow> map_of (ld_ids d) n \<noteq> None \<Longrightarrow> label_id d' n = label_id d n"
  using extends_id [of d d' n] by (auto simp: label_id_def)

lemma edge_triples_extends:
  assumes "extends d d'" "\<forall>n \<in> set (edge_names A0 e). map_of (ld_ids d) n \<noteq> None"
    and "ga_src A e = ga_src A0 e" "ga_tgt A e = ga_tgt A0 e" "ga_edge_labels A e = ga_edge_labels A0 e"
  shows "edge_triples A d' mirror b e = edge_triples A0 d mirror b e"
proof -
  have "edge_names A e = edge_names A0 e" using assms(5) by (simp add: edge_names_def)
  moreover have "label_id d' n = label_id d n" if "n \<in> set (edge_names A0 e)" for n
    using label_id_extends [OF assms(1)] bspec [OF assms(2) that] by simp
  ultimately show ?thesis using assms(3,4) unfolding edge_triples_def by (intro arg_cong [of _ _ concat] map_cong) simp_all
qed

lemma mset_concat_split:
  "mset (concat (map (\<lambda>(e, b). g b e) xs)) = mset (concat (map (g True) (map fst (filter snd xs)))) + mset (concat (map (g False) (map fst (filter (\<lambda>x. \<not> snd x) xs))))"
  by (induction xs) auto

lemma refresh_holds:
  assumes "index_triples A0 mirror = (d, raw)" "index_holds ti0 raw raw" "repr_for (ti_repr ti0) raw"
    and "ti_labels ti0 = d" "ti_mirrored ti0 = mirror"
    and "refresh False ti0 A (Some now) = Some ti" "session_follows A0 A (ti_stamp ti0) now"
    and "\<not> mirror \<or> (\<forall>e \<in> set (ga_edges_undirected A). ga_src A e \<noteq> ga_tgt A e)"
  shows "\<exists>ts lv. index_holds ti ts lv \<and> dict_ok (ti_labels ti) \<and> extends d (ti_labels ti) \<and> mset lv = mset (graph_triples A (ti_labels ti) mirror)"
proof -
  obtain live deleted nxt where now: "now = (live, deleted, nxt)" by (cases now)
  let ?fresh = "fresh_overlay (ti_stamp ti0) live"
  obtain d' delta where build: "delta_build A (ti_stamp ti0) (live, deleted, nxt) d mirror = (d', delta)" and ti: "ti = rebased ti0 delta d'"
    using assms(4-6) now by (auto simp: refresh_def split: prod.splits if_splits)
  note sess = assms(7) [unfolded session_follows_def now prod.case]
  have und: "mset (ga_edges_undirected A) = mset (filter (\<lambda>e. e \<notin> set deleted) (ga_edges_undirected A0)) + mset (map fst (filter (\<lambda>x. \<not> snd x) ?fresh))"
    and dir: "mset (ga_edges_directed A) = mset (filter (\<lambda>e. e \<notin> set deleted) (ga_edges_directed A0)) + mset (map fst (filter snd ?fresh))"
    using sess by blast+
  have "\<forall>(e, directed) \<in> set ?fresh. \<not> (mirror \<and> \<not> directed \<and> ga_src A e = ga_tgt A e)"
  proof (intro ballI)
    fix x assume x: "x \<in> set ?fresh"
    obtain e directed where ed: "x = (e, directed)" by (cases x)
    have "e \<in> set (ga_edges_undirected A)" if "\<not> directed"
    proof -
      have "e \<in># mset (map fst (filter (\<lambda>x. \<not> snd x) ?fresh))" using x ed that by force
      then show ?thesis using und by (metis set_mset_mset union_iff)
    qed
    then show "case x of (e, directed) \<Rightarrow> \<not> (mirror \<and> \<not> directed \<and> ga_src A e = ga_tgt A e)" using assms(8) ed by auto
  qed
  note spec = delta_build_spec [OF index_triples_spec(1) [OF assms(1)] build this]
  define added where "added = concat (map (\<lambda>(e, directed). edge_triples A d' mirror directed e) ?fresh)"
  define lv where "lv = filter (\<lambda>t. edge_id t \<notin> set (td_removed delta)) (raw @ added)"
  have holds: "index_holds ti (raw @ added) lv"
    unfolding index_holds_def lv_def using assms(3) spec by (intro exI [of _ raw] exI [of _ added]) (simp add: ti rebased_def added_def)
  have rem: "e \<in> set (td_removed delta) \<longleftrightarrow> e \<in> set deleted \<and> e \<notin> set (os_deleted (ti_stamp ti0))" for e
    using spec by auto
  have old: "filter (\<lambda>t. edge_id t \<notin> set (td_removed delta)) (concat (map (edge_triples A0 d mirror b) es))
      = concat (map (edge_triples A d' mirror b) (filter (\<lambda>e. e \<notin> set deleted) es))"
    if es: "set es \<subseteq> set (ga_edges_directed A0) \<union> set (ga_edges_undirected A0)" for b es
  proof -
    have keep: "e \<notin> set (td_removed delta) \<longleftrightarrow> e \<notin> set deleted" if "e \<in> set es" for e
      using that es sess rem by blast
    have "filter (\<lambda>t. edge_id t \<notin> set (td_removed delta)) (concat (map (edge_triples A0 d mirror b) es))
        = concat (map (edge_triples A0 d mirror b) (filter (\<lambda>e. e \<notin> set (td_removed delta)) es))"
      by (rule filter_concat_ids [OF edge_triples_id])
    also have "filter (\<lambda>e. e \<notin> set (td_removed delta)) es = filter (\<lambda>e. e \<notin> set deleted) es" using keep by (intro filter_cong) simp_all
    also have "map (edge_triples A0 d mirror b) (filter (\<lambda>e. e \<notin> set deleted) es) = map (edge_triples A d' mirror b) (filter (\<lambda>e. e \<notin> set deleted) es)"
    proof (rule map_cong [OF refl])
      fix e assume e: "e \<in> set (filter (\<lambda>e. e \<notin> set deleted) es)"
      have in0: "e \<in> set (ga_edges_directed A0) \<union> set (ga_edges_undirected A0)" using e es by auto
      show "edge_triples A0 d mirror b e = edge_triples A d' mirror b e"
        using index_triples_spec(2) [OF assms(1) in0] sess in0 e spec by (intro edge_triples_extends [symmetric]) auto
    qed
    finally show ?thesis .
  qed
  have new: "filter (\<lambda>t. edge_id t \<notin> set (td_removed delta)) added = added"
    unfolding filter_id_conv
  proof
    fix t assume "t \<in> set added"
    then obtain x where x: "x \<in> set ?fresh" "t \<in> set (edge_triples A d' mirror (snd x) (fst x))" by (auto simp: added_def)
    have "\<forall>(e, _) \<in> set ?fresh. e \<notin> set deleted" using sess by blast
    then have "fst x \<notin> set deleted" using x(1) by auto
    then show "edge_id t \<notin> set (td_removed delta)" using rem edge_triples_id [OF x(2)] by simp
  qed
  have raw: "raw = concat (map (edge_triples A0 d mirror True) (ga_edges_directed A0)) @ concat (map (edge_triples A0 d mirror False) (ga_edges_undirected A0))"
    by (rule index_triples_spec(3) [OF assms(1)])
  have lv: "lv = (concat (map (edge_triples A d' mirror True) (filter (\<lambda>e. e \<notin> set deleted) (ga_edges_directed A0)))
      @ concat (map (edge_triples A d' mirror False) (filter (\<lambda>e. e \<notin> set deleted) (ga_edges_undirected A0)))) @ added"
    unfolding lv_def raw filter_append new by (simp add: old)
  have split: "mset added = mset (concat (map (edge_triples A d' mirror True) (map fst (filter snd ?fresh))))
      + mset (concat (map (edge_triples A d' mirror False) (map fst (filter (\<lambda>x. \<not> snd x) ?fresh))))"
    unfolding added_def by (rule mset_concat_split)
  have "mset lv = mset (graph_triples A d' mirror)"
    using mset_concat_each [of "ga_edges_directed A" "filter (\<lambda>e. e \<notin> set deleted) (ga_edges_directed A0) @ map fst (filter snd ?fresh)" "edge_triples A d' mirror True"]
      mset_concat_each [of "ga_edges_undirected A" "filter (\<lambda>e. e \<notin> set deleted) (ga_edges_undirected A0) @ map fst (filter (\<lambda>x. \<not> snd x) ?fresh)" "edge_triples A d' mirror False"]
      dir und unfolding lv graph_triples_def by (simp add: split)
  then show ?thesis using holds spec by (auto simp: ti rebased_def)
qed

end
