(* ===== verification/LtjIterators.thy ===== *)
theory LtjIterators
  imports LtjIndexes
begin

text \<open>
  The iterator the join drives (\<open>LtjIterator\<close> and \<open>DeltaLtjIterator\<close> of
  \<open>src/runtime/ltj/iterator.rs\<close>): an array or a compact iterator over the payload of an index
  and, where a session has changed edges since the payload was built, a second iterator over the
  triples it added and the set of the edges it removed.
\<close>

section \<open>The iterator\<close>

datatype ltj_iter =
    ArrayIt array_iter
  | CompactIt compact_iter
  | DeltaIt ltj_iter array_iter "u32 list"

definition ltj_new :: "triple_pattern \<Rightarrow> triple_index \<Rightarrow> ltj_iter option" where
  "ltj_new p ti =
     map_option (\<lambda>base.
         case index_delta ti of
           None \<Rightarrow> base
         | Some d \<Rightarrow> DeltaIt base (array_new p (td_added d)) (td_removed d))
       (case ti_repr ti of
          CompactRepr ci \<Rightarrow> map_option CompactIt (compact_new p ci)
        | ArrayRepr os \<Rightarrow> Some (ArrayIt (array_new p os)))"

text \<open>The smaller of the two leaps.\<close>

definition merge_leap :: "u32 option \<Rightarrow> u32 option \<Rightarrow> u32 option" where
  "merge_leap x y =
     (case (x, y) of
        (Some a, Some b) \<Rightarrow> Some (min a b)
      | (x, None) \<Rightarrow> x
      | (None, y) \<Rightarrow> y)"

primrec ltj_leap :: "ltj_iter \<Rightarrow> spo_pos \<Rightarrow> u32 \<Rightarrow> u32 option option" where
  "ltj_leap (ArrayIt it) p c = array_leap it p c"
| "ltj_leap (CompactIt it) p c = compact_leap it p c"
| "ltj_leap (DeltaIt base added removed) p c =
     Option.bind (ltj_leap base p c) (\<lambda>x. map_option (\<lambda>y. merge_leap x y) (array_leap added p c))"

primrec ltj_down :: "ltj_iter \<Rightarrow> spo_pos \<Rightarrow> u32 \<Rightarrow> ltj_iter option" where
  "ltj_down (ArrayIt it) p v = Some (ArrayIt (array_down it p v))"
| "ltj_down (CompactIt it) p v = map_option CompactIt (compact_down it p v)"
| "ltj_down (DeltaIt base added removed) p v =
     map_option (\<lambda>base. DeltaIt base (array_down added p v) removed) (ltj_down base p v)"

primrec ltj_up :: "ltj_iter \<Rightarrow> spo_pos \<Rightarrow> ltj_iter" where
  "ltj_up (ArrayIt it) p = ArrayIt (array_up it p)"
| "ltj_up (CompactIt it) p = CompactIt (compact_up it p)"
| "ltj_up (DeltaIt base added removed) p = DeltaIt (ltj_up base p) (array_up added p) removed"

primrec ltj_seek_all :: "ltj_iter \<Rightarrow> spo_pos \<Rightarrow> u32 list option" where
  "ltj_seek_all (ArrayIt it) p = array_seek_all it p"
| "ltj_seek_all (CompactIt it) p = compact_seek_all it p"
| "ltj_seek_all (DeltaIt base added removed) p =
     Option.bind (ltj_seek_all base p) (\<lambda>xs. map_option (\<lambda>ys. remdups_adj (sort (xs @ ys))) (array_seek_all added p))"

definition saturating_add :: "nat \<Rightarrow> nat \<Rightarrow> nat" where
  "saturating_add a b = min (a + b) usize_max"

primrec ltj_children_count :: "ltj_iter \<Rightarrow> spo_pos \<Rightarrow> nat option" where
  "ltj_children_count (ArrayIt it) p = array_children_count it p"
| "ltj_children_count (CompactIt it) p = compact_children_count it p"
| "ltj_children_count (DeltaIt base added removed) p =
     Option.bind (ltj_children_count base p) (\<lambda>a. map_option (saturating_add a) (array_children_count added p))"

primrec ltj_subtree_size :: "ltj_iter \<Rightarrow> spo_pos \<Rightarrow> nat option" where
  "ltj_subtree_size (ArrayIt it) p = array_subtree_size it p"
| "ltj_subtree_size (CompactIt it) p = compact_subtree_size it p"
| "ltj_subtree_size (DeltaIt base added removed) p =
     Option.bind (ltj_subtree_size base p) (\<lambda>b.
       if b = usize_max then Some usize_max else map_option (saturating_add b) (array_subtree_size added p))"

primrec ltj_in_last_level :: "ltj_iter \<Rightarrow> bool" where
  "ltj_in_last_level (ArrayIt it) = array_in_last_level it"
| "ltj_in_last_level (CompactIt it) = compact_in_last_level it"
| "ltj_in_last_level (DeltaIt base added removed) = ltj_in_last_level base"

primrec ltj_eids_all :: "ltj_iter \<Rightarrow> u32 list option" where
  "ltj_eids_all (ArrayIt it) = Some (array_current_eids_all it)"
| "ltj_eids_all (CompactIt it) = compact_current_eids it"
| "ltj_eids_all (DeltaIt base added removed) =
     map_option (\<lambda>es. filter (\<lambda>e. e \<notin> set removed) (es @ array_current_eids_all added)) (ltj_eids_all base)"

text \<open>The first edge; the array iterator reads it off its range.\<close>

definition ltj_current_eid :: "ltj_iter \<Rightarrow> u32 option option" where
  "ltj_current_eid it =
     (case it of
        ArrayIt a \<Rightarrow> Some (array_current_eid a)
      | _ \<Rightarrow> map_option (\<lambda>es. case es of [] \<Rightarrow> None | e # _ \<Rightarrow> Some e) (ltj_eids_all it))"

section \<open>The merged triples\<close>

text \<open>
  A merged iterator leaps among the triples of both sides; the live ones are those of the base
  and the added ones whose edge is not removed.
\<close>

fun ltj_at :: "index_entry list \<Rightarrow> index_entry list \<Rightarrow> (spo_pos \<times> u32) list \<Rightarrow> (spo_pos \<times> u32) list \<Rightarrow> ltj_iter \<Rightarrow> bool" where
  "ltj_at ts lv cs fs (ArrayIt it) = array_at ts lv cs fs it"
| "ltj_at ts lv cs fs (CompactIt it) = compact_at ts lv cs fs it"
| "ltj_at ts lv cs fs (DeltaIt base added removed) =
     (\<exists>ts1 lv1 ts2. ts = ts1 @ ts2 \<and> lv = filter (\<lambda>t. edge_id t \<notin> set removed) (lv1 @ ts2)
        \<and> ltj_at ts1 lv1 cs fs base \<and> array_at ts2 ts2 cs fs added)"

lemma ltj_distinct: "ltj_at ts lv cs fs it \<Longrightarrow> distinct (map fst (cs @ fs))"
proof (induction it arbitrary: ts lv)
  case (DeltaIt base added removed)
  from DeltaIt.prems obtain ts1 lv1 where "ltj_at ts1 lv1 cs fs base" by auto
  then show ?case by (rule DeltaIt.IH)
qed (simp_all only: ltj_at.simps array_it.ok_distinct compact_it.ok_distinct)

lemma ltj_live: "ltj_at ts lv cs fs it \<Longrightarrow> set lv \<subseteq> set ts"
proof (induction it arbitrary: ts lv)
  case (DeltaIt base added removed)
  from DeltaIt.prems obtain ts1 lv1 ts2 where parts: "ts = ts1 @ ts2" "lv = filter (\<lambda>t. edge_id t \<notin> set removed) (lv1 @ ts2)"
    "ltj_at ts1 lv1 cs fs base" by auto
  show ?case using DeltaIt.IH [OF parts(3)] unfolding parts(1,2) set_filter set_append by blast
qed (simp_all only: ltj_at.simps array_it.live_cands compact_it.live_cands)

lemma values_at_append [simp]: "values_at (ts1 @ ts2) fs p = values_at ts1 fs p \<union> values_at ts2 fs p"
  by (auto simp: values_at_def)

lemma merge_leap_least:
  assumes "finite U" "finite V"
  shows "merge_leap (least_from c U) (least_from c V) = least_from c (U \<union> V)"
proof (cases "least_from c (U \<union> V)")
  case None
  then have "least_from c U = None" "least_from c V = None" by (simp_all only: least_from_None) blast+
  then show ?thesis using None by (simp only: merge_leap_def) simp
next
  case (Some w)
  then have w: "w \<in> U \<union> V" "c \<le> w" "\<forall>v \<in> U \<union> V. c \<le> v \<longrightarrow> w \<le> v"
    using least_from_Some [of "U \<union> V" c w] assms by simp_all
  have side: "least_from c W = Some w \<or> (w \<notin> W \<and> (\<forall>x. least_from c W = Some x \<longrightarrow> w \<le> x))" if "finite W" "W \<subseteq> U \<union> V" for W
    using least_from_Some [OF that(1), of c] w that(2) by (cases "w \<in> W") auto
  have "merge_leap (least_from c U) (least_from c V) = Some w"
    using side [OF assms(1)] side [OF assms(2)] w(1)
    by (cases "least_from c U"; cases "least_from c V") (auto simp: merge_leap_def min_def simp del: least_from_None)
  then show ?thesis using Some by simp
qed

lemma ltj_leap_least: "ltj_at ts lv cs fs it \<Longrightarrow> p \<notin> fst ` set (cs @ fs) \<Longrightarrow> ltj_leap it p c = Some (least_from c (values_at ts (cs @ fs) p))"
proof (induction it arbitrary: ts lv)
  case (DeltaIt base added removed)
  then obtain ts1 lv1 ts2 where parts: "ts = ts1 @ ts2" "ltj_at ts1 lv1 cs fs base" "array_at ts2 ts2 cs fs added" by auto
  show ?case
    using DeltaIt.IH [OF parts(2) DeltaIt.prems(2)] array_it.leap_least [OF parts(3) DeltaIt.prems(2), of c]
    by (simp add: parts(1) merge_leap_least)
qed (use array_it.leap_least compact_it.leap_least in simp_all)

lemma ltj_down_fixed: "ltj_at ts lv cs fs it \<Longrightarrow> p \<notin> fst ` set (cs @ fs) \<Longrightarrow> \<exists>it'. ltj_down it p v = Some it' \<and> ltj_at ts lv cs (fs @ [(p, v)]) it'"
proof (induction it arbitrary: ts lv)
  case (CompactIt it)
  then show ?case using compact_it.down_fixed [of ts lv cs fs it p v] by auto
next
  case (ArrayIt it)
  then show ?case using array_it.down_fixed [of ts lv cs fs it p v] by auto
next
  case (DeltaIt base added removed)
  then obtain ts1 lv1 ts2 where parts: "ts = ts1 @ ts2" "lv = filter (\<lambda>t. edge_id t \<notin> set removed) (lv1 @ ts2)"
    "ltj_at ts1 lv1 cs fs base" "array_at ts2 ts2 cs fs added" by auto
  from DeltaIt.IH [OF parts(3) DeltaIt.prems(2)] obtain base' where base: "ltj_down base p v = Some base'" "ltj_at ts1 lv1 cs (fs @ [(p, v)]) base'"
    by blast
  have "array_at ts2 ts2 cs (fs @ [(p, v)]) (array_down added p v)"
    using array_it.down_fixed [OF parts(4) DeltaIt.prems(2), of v] by simp
  then show ?case using base parts(1,2) by auto
qed

lemma ltj_up_fixed: "ltj_at ts lv cs (fs @ [f]) it \<Longrightarrow> ltj_at ts lv cs fs (ltj_up it p)"
proof (induction it arbitrary: ts lv)
  case (DeltaIt base added removed)
  then obtain ts1 lv1 ts2 where parts: "ts = ts1 @ ts2" "lv = filter (\<lambda>t. edge_id t \<notin> set removed) (lv1 @ ts2)"
    "ltj_at ts1 lv1 cs (fs @ [f]) base" "array_at ts2 ts2 cs (fs @ [f]) added" by auto
  then show ?case using DeltaIt.IH [OF parts(3)] array_it.up_fixed [OF parts(4)] by auto
qed (auto intro: array_it.up_fixed compact_it.up_fixed)

lemma sort_dedup: "remdups_adj (sort (xs :: 'a :: linorder list)) = sorted_list_of_set (set xs)"
  by (metis sorted_list_of_set.idem_if_sorted_distinct distinct_remdups_adj_sorted remdups_adj_set set_sort sorted_remdups_adj sorted_sort)

lemma ltj_seek_all_values: "ltj_at ts lv cs fs it \<Longrightarrow> p \<notin> fst ` set (cs @ fs) \<Longrightarrow>
    ltj_seek_all it p = Some (sorted_list_of_set (values_at ts (cs @ fs) p))"
proof (induction it arbitrary: ts lv)
  case (DeltaIt base added removed)
  then obtain ts1 lv1 ts2 where parts: "ts = ts1 @ ts2" "ltj_at ts1 lv1 cs fs base" "array_at ts2 ts2 cs fs added" by auto
  show ?case
    using DeltaIt.IH [OF parts(2) DeltaIt.prems(2)] array_it.seek_all_values [OF parts(3) DeltaIt.prems(2)]
    by (simp add: parts(1) sort_dedup)
qed (use array_it.seek_all_values compact_it.seek_all_values in simp_all)

lemma ltj_subtree_size_total: "ltj_at ts lv cs fs it \<Longrightarrow> p \<notin> fst ` set (cs @ fs) \<Longrightarrow> ltj_subtree_size it p \<noteq> None"
proof (induction it arbitrary: ts lv)
  case (DeltaIt base added removed)
  then obtain ts1 lv1 ts2 where parts: "ltj_at ts1 lv1 cs fs base" "array_at ts2 ts2 cs fs added" by auto
  show ?case
    using DeltaIt.IH [OF parts(1) DeltaIt.prems(2)] array_it.subtree_size_total [OF parts(2) DeltaIt.prems(2)] by auto
qed (use array_it.subtree_size_total compact_it.subtree_size_total in simp_all)

lemma filter_image_mset: "image_mset f (filter_mset (\<lambda>x. P (f x)) M) = filter_mset P (image_mset f M)"
  by (simp add: filter_mset_image_mset comp_def)

lemma ltj_eids_live: "ltj_at ts lv cs fs it \<Longrightarrow> length (cs @ fs) = 3 \<Longrightarrow>
    \<exists>es. ltj_eids_all it = Some es \<and> mset es = image_mset edge_id (filter_mset (agrees (cs @ fs)) (mset lv))"
proof (induction it arbitrary: ts lv)
  case (DeltaIt base added removed)
  then obtain ts1 lv1 ts2 where parts: "lv = filter (\<lambda>t. edge_id t \<notin> set removed) (lv1 @ ts2)"
    "ltj_at ts1 lv1 cs fs base" "array_at ts2 ts2 cs fs added" by auto
  from DeltaIt.IH [OF parts(2) DeltaIt.prems(2)] obtain es
    where es: "ltj_eids_all base = Some es" "mset es = image_mset edge_id (filter_mset (agrees (cs @ fs)) (mset lv1))" by blast
  have added: "mset (array_current_eids_all added) = image_mset edge_id (filter_mset (agrees (cs @ fs)) (mset ts2))"
    using array_it.eids_live [OF parts(3) DeltaIt.prems(2)] by simp
  have "mset (filter (\<lambda>e. e \<notin> set removed) (es @ array_current_eids_all added))
      = filter_mset (\<lambda>e. e \<notin> set removed) (image_mset edge_id (filter_mset (agrees (cs @ fs)) (mset (lv1 @ ts2))))"
    by (simp add: es(2) added)
  also have "\<dots> = image_mset edge_id (filter_mset (agrees (cs @ fs)) (mset lv))"
    unfolding parts(1) mset_filter
    by (simp only: filter_mset_image_mset comp_def filter_filter_mset conj_commute)
  finally show ?case unfolding ltj_eids_all.simps es(1) option.map by (intro exI conjI) (rule refl)
qed (use array_it.eids_live compact_it.eids_live in simp_all)

interpretation ltj_it: trie_iter ltj_leap ltj_down ltj_up ltj_seek_all ltj_subtree_size ltj_eids_all ltj_at
  by unfold_locales (rule ltj_distinct ltj_live ltj_leap_least ltj_down_fixed ltj_up_fixed ltj_seek_all_values
      ltj_subtree_size_total ltj_eids_live; assumption)+

section \<open>A new iterator\<close>

lemma ltj_new_at:
  assumes "index_holds ti ts lv" "length ps = 3"
  shows "\<exists>it. ltj_new ps ti = Some it \<and> ltj_at ts lv (pattern_constants ps) [] it"
proof -
  let ?d = "ti_delta ti"
  obtain base added where parts: "repr_for (ti_repr ti) base" "ts = base @ added" "td_added ?d = build_orderings added"
    "lv = filter (\<lambda>t. edge_id t \<notin> set (td_removed ?d)) ts"
    using assms(1) by (auto simp: index_holds_def)
  obtain it where it: "(case ti_repr ti of CompactRepr ci \<Rightarrow> map_option CompactIt (compact_new ps ci)
      | ArrayRepr os \<Rightarrow> Some (ArrayIt (array_new ps os))) = Some it" "ltj_at base base (pattern_constants ps) [] it"
  proof (cases "ti_repr ti")
    case (CompactRepr ci)
    then obtain c where "compact_new ps ci = Some c" "compact_at base base (pattern_constants ps) [] c"
      using compact_new_at [OF _ assms(2), of ci base] parts(1) by (auto simp: repr_for_def)
    then show ?thesis using that [of "CompactIt c"] CompactRepr by simp
  next
    case (ArrayRepr os)
    then show ?thesis using that [of "ArrayIt (array_new ps os)"] array_new_at [OF assms(2)] parts(1) by (simp add: repr_for_def)
  qed
  show ?thesis
  proof (cases "delta_is_empty ?d")
    case True
    then have "td_removed ?d = []" "added = []" using parts(3) by (auto simp: delta_is_empty_def build_orderings_empty)
    then have "ts = base" "lv = base" using parts by simp_all
    then show ?thesis using it True by (simp add: ltj_new_def index_delta_def)
  next
    case False
    have "ltj_at ts lv (pattern_constants ps) [] (DeltaIt it (array_new ps (td_added ?d)) (td_removed ?d))"
      using it(2) parts array_new_at [OF assms(2), of added] by auto
    then show ?thesis using it(1) False by (simp add: ltj_new_def index_delta_def)
  qed
qed

end
