(* ===== verification/Veos.thy ===== *)
theory Veos
  imports Prelude "HOL-Library.Multiset" "HOL-Library.Product_Lexorder"
begin

text \<open>
  Variable elimination orders (\<open>src/runtime/ltj/veo.rs\<close>): the order fixed before the search, the
  order with one variable pinned to a level, and the adaptive order that picks the next
  variable from the sizes the index reports and undoes what a descent recorded when the
  search backtracks.
\<close>

section \<open>Lists by position\<close>

definition nth_opt :: "'a list \<Rightarrow> nat \<Rightarrow> 'a option" where
  "nth_opt xs i = (if i < length xs then Some (xs ! i) else None)"

definition position :: "('a \<Rightarrow> bool) \<Rightarrow> 'a list \<Rightarrow> nat option" where
  "position P xs = (if \<exists>x \<in> set xs. P x then Some (length (takeWhile (\<lambda>x. \<not> P x) xs)) else None)"

definition remove_at :: "nat \<Rightarrow> 'a list \<Rightarrow> ('a \<times> 'a list) option" where
  "remove_at i xs = (if i < length xs then Some (xs ! i, take i xs @ drop (Suc i) xs) else None)"

definition insert_at :: "nat \<Rightarrow> 'a \<Rightarrow> 'a list \<Rightarrow> 'a list" where
  "insert_at i x xs = take i xs @ x # drop i xs"

lemma position_Some: "position P xs = Some i \<Longrightarrow> i < length xs \<and> P (xs ! i) \<and> (\<forall>j < i. \<not> P (xs ! j))"
proof -
  assume "position P xs = Some i"
  then have i: "i = length (takeWhile (\<lambda>x. \<not> P x) xs)" and ex: "\<exists>x \<in> set xs. P x" by (auto simp: position_def split: if_splits)
  have "i < length xs" using ex unfolding i by (metis length_takeWhile_le le_neq_implies_less takeWhile_eq_all_conv takeWhile_eq_take take_all_iff order_refl)
  then show ?thesis using nth_length_takeWhile [of "\<lambda>x. \<not> P x" xs] nth_mem takeWhile_nth [of _ "\<lambda>x. \<not> P x" xs] set_takeWhileD
    unfolding i by (metis nth_mem)
qed

lemma position_None: "position P xs = None \<longleftrightarrow> (\<forall>x \<in> set xs. \<not> P x)"
  by (auto simp: position_def)

lemma mset_remove_at: "remove_at i xs = Some (x, ys) \<Longrightarrow> mset xs = add_mset x (mset ys)"
proof -
  assume "remove_at i xs = Some (x, ys)"
  then have "i < length xs" "x = xs ! i" "ys = take i xs @ drop (Suc i) xs" by (auto simp: remove_at_def split: if_splits)
  then show ?thesis using arg_cong [OF id_take_nth_drop [of i xs], of mset] by simp
qed

lemma mset_insert_at [simp]: "mset (insert_at i x xs) = add_mset x (mset xs)"
  unfolding insert_at_def using arg_cong [OF append_take_drop_id [of i xs], of mset] by (simp del: append_take_drop_id)

section \<open>The orders fixed before the search\<close>

text \<open>A variable, the weight its filters give it, and whether it is in one triple only.\<close>

type_synonym var_weight = "u8 \<times> nat \<times> bool"

definition POINT_WEIGHT :: nat where
  "POINT_WEIGHT = 1"

definition held_to_the_end :: "nat \<Rightarrow> bool \<Rightarrow> bool" where
  "held_to_the_end weight lonely \<longleftrightarrow> lonely \<and> weight \<noteq> POINT_WEIGHT"

definition simple_order :: "var_weight list \<Rightarrow> u8 list" where
  "simple_order infos = map fst (sort_key (\<lambda>(_, weight, lonely). (held_to_the_end weight lonely, weight)) infos)"

definition pin_at :: "u8 list \<Rightarrow> u8 \<Rightarrow> nat \<Rightarrow> u8 list option" where
  "pin_at order var level =
     Option.bind (position (\<lambda>v. v = var) order) (\<lambda>cur.
       map_option (\<lambda>(v, order). insert_at (min level (length order)) v order) (remove_at cur order))"

definition pin_at_after :: "u8 list \<Rightarrow> u8 \<Rightarrow> nat \<Rightarrow> u8 \<Rightarrow> u8 list option" where
  "pin_at_after order var level prereq =
     (if prereq \<notin> set order then None
      else
        Option.bind (position (\<lambda>v. v = var) order) (\<lambda>cur.
          Option.bind (remove_at cur order) (\<lambda>(v, order).
            let at = min level (length order)
            in Option.bind (position (\<lambda>p. p = prereq) order) (\<lambda>anchor_pos.
                 if anchor_pos < at then Some (insert_at at v order)
                 else map_option (\<lambda>(a, order). insert_at (at + 1) v (insert_at at a order)) (remove_at anchor_pos order)))))"

definition level_of :: "u8 list \<Rightarrow> u8 \<Rightarrow> nat option" where
  "level_of order var = position (\<lambda>v. v = var) order"

definition max_level :: "var_weight list \<Rightarrow> nat" where
  "max_level infos = length (filter (\<lambda>(_, _, lonely). \<not> lonely) infos)"

definition order_is_forced :: "var_weight list \<Rightarrow> bool" where
  "order_is_forced infos =
     (let (held, point, free) = fold (\<lambda>(_, w, l) (held, point, free).
            if held_to_the_end w l then (held + 1, point, free)
            else if w = POINT_WEIGHT then (held, point + 1, free)
            else (held, point, free + 1)) infos (0 :: nat, 0 :: nat, 0 :: nat)
      in free \<le> 1 \<and> held \<le> 1 \<and> point \<le> 1)"

section \<open>The adaptive order\<close>

record var_info =
  vi_name :: u8
  vi_weight :: nat
  vi_syntactic :: nat
  vi_related :: "u8 list"
  vi_prereq :: "u8 option"
  vi_bound :: bool

record adaptive_veo =
  av_info :: "var_info list"
  av_lonely :: "u8 list"
  av_pos_of :: "nat option list"
  av_not_bound :: "nat list"
  av_bound :: "nat list"
  av_versions :: "(nat \<times> nat) list list"
  av_path :: "u8 list"
  av_index :: nat

text \<open>
  The sizes the index reports, as a function of the variable; \<open>None\<close> is an index out of bounds.
\<close>

type_synonym var_sizes = "u8 \<Rightarrow> nat option"

definition collect_var ::
    "(u8 \<times> u8) option \<Rightarrow> var_sizes \<Rightarrow> var_weight \<Rightarrow>
     (nat option list \<times> var_info list \<times> (u8 \<times> nat \<times> nat) list) \<Rightarrow> (nat option list \<times> var_info list \<times> (u8 \<times> nat \<times> nat) list) option" where
  "collect_var prereq sizes x st =
     (case (x, st) of ((name, syntactic, lonely), (pos_of, info, held)) \<Rightarrow>
        Option.bind (sizes name) (\<lambda>measured.
          let weight = min syntactic measured
          in if held_to_the_end syntactic lonely then Some (pos_of, info, held @ [(name, weight, syntactic)])
             else if unat name < length pos_of then
               Some (pos_of[unat name := Some (length info)],
                     info @ [\<lparr>vi_name = name, vi_weight = weight, vi_syntactic = syntactic, vi_related = [],
                       vi_prereq = (case prereq of Some (dep, on) \<Rightarrow> if dep = name then Some on else None | None \<Rightarrow> None),
                       vi_bound = False\<rparr>],
                     held)
             else None))"

definition pos_get :: "nat option list \<Rightarrow> nat \<Rightarrow> nat option" where
  "pos_get pos_of v = Option.bind (nth_opt pos_of v) id"

definition relate :: "nat option list \<Rightarrow> nat \<times> u8 list \<Rightarrow> var_info list \<Rightarrow> var_info list" where
  "relate pos_of vn info =
     (case vn of (v, neighbours) \<Rightarrow>
        (case pos_get pos_of v of
           None \<Rightarrow> info
         | Some pos \<Rightarrow>
             info[pos := (info ! pos)\<lparr>vi_related := remdups_adj (sort (vi_related (info ! pos)
               @ filter (\<lambda>n. pos_get pos_of (unat n) \<noteq> None \<and> n \<noteq> word_of_nat v) neighbours))\<rparr>]))"

definition adaptive_new :: "var_weight list \<Rightarrow> u8 list list \<Rightarrow> (u8 \<times> u8) option \<Rightarrow> var_sizes \<Rightarrow> adaptive_veo option" where
  "adaptive_new infos related prereq sizes =
     map_option (\<lambda>(pos_of, info, held).
         let info = fold (relate pos_of) (List.enumerate 0 related) info;
             lonely = map fst (sort_key (\<lambda>(_, w, syn). (w, syn)) held)
         in \<lparr>av_info = info, av_lonely = lonely, av_pos_of = pos_of, av_not_bound = [0..<length info], av_bound = [],
             av_versions = [], av_path = [], av_index = 0\<rparr>)
       (fold (\<lambda>x st. Option.bind st (collect_var prereq sizes x)) infos (Some (replicate (length related) None, [], [])))"

definition eligible :: "var_info list \<Rightarrow> var_info \<Rightarrow> bool" where
  "eligible info v =
     (case vi_prereq v of
        None \<Rightarrow> True
      | Some on \<Rightarrow> list_all (\<lambda>x. vi_name x \<noteq> on \<or> vi_bound x) info)"

definition best_choice :: "var_info list \<Rightarrow> nat list \<Rightarrow> (nat \<times> nat \<times> nat) option" where
  "best_choice info not_bound =
     fold (\<lambda>(i, pos) best.
         let v = info ! pos; w = (vi_weight v, vi_syntactic v)
         in if \<not> eligible info v then best
            else (case best of
                    None \<Rightarrow> Some (i, w)
                  | Some (_, bw) \<Rightarrow> if w < bw then Some (i, w) else best))
       (List.enumerate 0 not_bound) None"

definition adaptive_next :: "adaptive_veo \<Rightarrow> (u8 \<times> adaptive_veo) option" where
  "adaptive_next v =
     (if av_index v < length (av_info v) then
        let best = (case best_choice (av_info v) (av_not_bound v) of None \<Rightarrow> 0 | Some (i, _) \<Rightarrow> i)
        in map_option (\<lambda>(pos, rest).
             let name = vi_name (av_info v ! pos)
             in (name, v\<lparr>av_not_bound := rest, av_info := (av_info v)[pos := (av_info v ! pos)\<lparr>vi_bound := True\<rparr>],
                   av_bound := av_bound v @ [pos], av_index := av_index v + 1, av_path := av_path v @ [name]\<rparr>))
             (remove_at best (av_not_bound v))
      else
        map_option (\<lambda>name. (name, v\<lparr>av_index := av_index v + 1, av_path := av_path v @ [name]\<rparr>))
          (nth_opt (av_lonely v) (av_index v - length (av_info v))))"

definition reweigh :: "nat option list \<Rightarrow> var_sizes \<Rightarrow> u8 \<Rightarrow> var_info list \<times> (nat \<times> nat) list \<Rightarrow> (var_info list \<times> (nat \<times> nat) list) option" where
  "reweigh pos_of sizes rel st =
     (case st of (info, version) \<Rightarrow>
        Option.bind (nth_opt pos_of (unat rel)) (\<lambda>p.
          case p of
            None \<Rightarrow> Some (info, version)
          | Some pos \<Rightarrow>
              if vi_bound (info ! pos) then Some (info, version)
              else Option.bind (sizes rel) (\<lambda>min_w.
                if min_w < vi_weight (info ! pos)
                then Some (info[pos := (info ! pos)\<lparr>vi_weight := min_w\<rparr>], version @ [(pos, vi_weight (info ! pos))])
                else Some (info, version))))"

definition adaptive_down :: "var_sizes \<Rightarrow> adaptive_veo \<Rightarrow> adaptive_veo option" where
  "adaptive_down sizes v =
     (if length (av_info v) < av_index v then Some v
      else if av_bound v = [] then None
      else map_option (\<lambda>(info, version). v\<lparr>av_info := info, av_versions := av_versions v @ [version]\<rparr>)
        (fold (\<lambda>rel st. Option.bind st (reweigh (av_pos_of v) sizes rel)) (vi_related (av_info v ! last (av_bound v))) (Some (av_info v, []))))"

definition restore :: "(nat \<times> nat) list \<Rightarrow> var_info list \<Rightarrow> var_info list" where
  "restore version info = fold (\<lambda>(pos, w) info. info[pos := (info ! pos)\<lparr>vi_weight := w\<rparr>]) version info"

definition adaptive_up :: "adaptive_veo \<Rightarrow> adaptive_veo option" where
  "adaptive_up v =
     (if length (av_info v) < av_index v then Some v
      else if av_versions v = [] then None
      else Some (v\<lparr>av_info := restore (last (av_versions v)) (av_info v), av_versions := butlast (av_versions v)\<rparr>))"

definition adaptive_done :: "adaptive_veo \<Rightarrow> adaptive_veo option" where
  "adaptive_done v =
     (if av_index v = 0 then None
      else
        let v = v\<lparr>av_index := av_index v - 1, av_path := butlast (av_path v)\<rparr>
        in if av_index v < length (av_info v) then
             if av_bound v = [] then None
             else
               let pos = last (av_bound v)
               in Some (v\<lparr>av_bound := butlast (av_bound v), av_info := (av_info v)[pos := (av_info v ! pos)\<lparr>vi_bound := False\<rparr>],
                     av_not_bound := av_not_bound v @ [pos]\<rparr>)
           else Some v)"

text \<open>Replaying a binding.\<close>

definition adaptive_force :: "u8 \<Rightarrow> adaptive_veo \<Rightarrow> adaptive_veo option" where
  "adaptive_force var v =
     (let v = v\<lparr>av_index := av_index v + 1, av_path := av_path v @ [var]\<rparr>
      in map_option (\<lambda>p.
           case p of
             None \<Rightarrow> v
           | Some pos \<Rightarrow>
               (case position (\<lambda>q. q = pos) (av_not_bound v) of
                  None \<Rightarrow> v
                | Some i \<Rightarrow> v\<lparr>av_not_bound := take i (av_not_bound v) @ drop (Suc i) (av_not_bound v),
                      av_info := (av_info v)[pos := (av_info v ! pos)\<lparr>vi_bound := True\<rparr>], av_bound := av_bound v @ [pos]\<rparr>))
         (nth_opt (av_pos_of v) (unat var)))"

section \<open>Orders\<close>

datatype veo = FixedVeo "u8 list" | AdaptiveVeo adaptive_veo

text \<open>The adaptive order answers for the levels it has entered.\<close>

definition var_at :: "veo \<Rightarrow> nat \<Rightarrow> u8 option" where
  "var_at v j =
     (case v of
        FixedVeo order \<Rightarrow> nth_opt order j
      | AdaptiveVeo a \<Rightarrow> Some (case nth_opt (av_path a) j of None \<Rightarrow> 0 | Some x \<Rightarrow> x))"

definition veo_size :: "veo \<Rightarrow> nat" where
  "veo_size v = (case v of FixedVeo order \<Rightarrow> length order | AdaptiveVeo a \<Rightarrow> length (av_info a) + length (av_lonely a))"

definition veo_next :: "veo \<Rightarrow> nat \<Rightarrow> (u8 \<times> veo) option" where
  "veo_next v j =
     (case v of
        FixedVeo order \<Rightarrow> map_option (\<lambda>x. (x, v)) (nth_opt order j)
      | AdaptiveVeo a \<Rightarrow> map_option (\<lambda>(x, a). (x, AdaptiveVeo a)) (adaptive_next a))"

definition veo_down :: "var_sizes \<Rightarrow> veo \<Rightarrow> veo option" where
  "veo_down sizes v = (case v of FixedVeo _ \<Rightarrow> Some v | AdaptiveVeo a \<Rightarrow> map_option AdaptiveVeo (adaptive_down sizes a))"

definition veo_up :: "veo \<Rightarrow> veo option" where
  "veo_up v = (case v of FixedVeo _ \<Rightarrow> Some v | AdaptiveVeo a \<Rightarrow> map_option AdaptiveVeo (adaptive_up a))"

definition veo_done :: "veo \<Rightarrow> veo option" where
  "veo_done v = (case v of FixedVeo _ \<Rightarrow> Some v | AdaptiveVeo a \<Rightarrow> map_option AdaptiveVeo (adaptive_done a))"

definition is_adaptive :: "veo \<Rightarrow> bool" where
  "is_adaptive v = (case v of FixedVeo _ \<Rightarrow> False | AdaptiveVeo _ \<Rightarrow> True)"

section \<open>What the fixed orders keep\<close>

lemma mset_simple_order: "mset (simple_order infos) = mset (map fst infos)"
  by (simp add: simple_order_def)

lemma position_split: "position (\<lambda>x. x = a) xs = Some i \<Longrightarrow> \<exists>ys zs. xs = ys @ a # zs \<and> length ys = i \<and> a \<notin> set ys"
proof -
  assume "position (\<lambda>x. x = a) xs = Some i"
  from position_Some [OF this] have i: "i < length xs" "xs ! i = a" "\<forall>j < i. xs ! j \<noteq> a" by auto
  have "a \<notin> set (take i xs)" using i(3) by (auto simp: in_set_conv_nth)
  then show ?thesis using id_take_nth_drop [OF i(1)] i(1,2) by (intro exI [of _ "take i xs"] exI [of _ "drop (Suc i) xs"]) simp
qed

lemma remove_at_split: "remove_at (length ys) (ys @ a # zs) = Some (a, ys @ zs)"
  by (simp add: remove_at_def)

lemma pin_at_Some:
  assumes "pin_at order var level = Some order'"
  shows "\<exists>ys zs. order = ys @ var # zs \<and> var \<notin> set ys \<and> order' = insert_at (min level (length (ys @ zs))) var (ys @ zs)"
proof -
  from assms obtain cur where cur: "position (\<lambda>v. v = var) order = Some cur"
    by (auto simp: pin_at_def bind_eq_Some_conv)
  from position_split [OF this] obtain ys zs where order: "order = ys @ var # zs" "length ys = cur" "var \<notin> set ys" by blast
  have "remove_at cur order = Some (var, ys @ zs)" using remove_at_split [of ys var zs] order(1,2) by simp
  then show ?thesis using assms cur order by (intro exI [of _ ys] exI [of _ zs]) (simp add: pin_at_def)
qed

lemma pin_at_keeps:
  assumes "pin_at order var level = Some order'" "distinct order"
  shows "mset order' = mset order \<and> filter (\<lambda>v. v \<noteq> var) order' = filter (\<lambda>v. v \<noteq> var) order
    \<and> level_of order' var = Some (min level (length order - 1))"
proof -
  obtain ys zs where p: "order = ys @ var # zs" "order' = insert_at (min level (length (ys @ zs))) var (ys @ zs)"
    using pin_at_Some [OF assms(1)] by blast
  let ?xs = "ys @ zs" and ?n = "min level (length (ys @ zs))"
  have fresh: "var \<notin> set ?xs" using assms(2) p(1) by simp
  have "filter (\<lambda>v. v \<noteq> var) order' = filter (\<lambda>v. v \<noteq> var) (take ?n ?xs @ drop ?n ?xs)"
    unfolding p(2) insert_at_def filter_append by simp
  also have "\<dots> = filter (\<lambda>v. v \<noteq> var) order"
    unfolding append_take_drop_id p(1) filter_append by simp
  finally have rest: "filter (\<lambda>v. v \<noteq> var) order' = filter (\<lambda>v. v \<noteq> var) order" .
  have "takeWhile (\<lambda>v. v \<noteq> var) order' = take ?n ?xs"
    unfolding p(2) insert_at_def using fresh by (subst takeWhile_append2) (auto dest: in_set_takeD)
  then have "level_of order' var = Some ?n"
    unfolding level_of_def position_def p(2) by (simp add: insert_at_def)
  then have "level_of order' var = Some (min level (length order - 1))" using p(1) by simp
  moreover have "mset order' = mset order" unfolding p by simp
  ultimately show ?thesis using rest by blast
qed

lemma in_split_list2: "x \<in> set ys \<Longrightarrow> \<exists>us vs ws. ys @ y # zs = us @ x # vs @ y # ws"
  by (metis append.assoc append_Cons split_list)

lemma insert_twice: "n \<le> length xs \<Longrightarrow> insert_at (n + 1) b (insert_at n a xs) = take n xs @ a # b # drop n xs"
  unfolding insert_at_def by (simp add: min_def)

lemma in_take_split: "length us < n \<Longrightarrow> a \<in> set (take n (us @ a # vs))"
  by (cases "n - length us") auto

lemma pin_at_after_keeps:
  assumes "distinct order" "var \<noteq> prereq"
  shows "(pin_at_after order var level prereq = None \<longleftrightarrow> var \<notin> set order \<or> prereq \<notin> set order)
    \<and> (\<forall>order'. pin_at_after order var level prereq = Some order' \<longrightarrow>
         mset order' = mset order \<and> (\<exists>us vs ws. order' = us @ prereq # vs @ var # ws))"
proof (cases "var \<in> set order \<and> prereq \<in> set order")
  case False
  then have "pin_at_after order var level prereq = None"
  proof (cases "prereq \<in> set order")
    case True
    then have "position (\<lambda>v. v = var) order = None" using False by (auto simp: position_None)
    then show ?thesis by (simp add: pin_at_after_def)
  qed (simp add: pin_at_after_def)
  then show ?thesis using False by auto
next
  case True
  then obtain cur where cur: "position (\<lambda>v. v = var) order = Some cur" using position_None [of "\<lambda>v. v = var" order] by blast
  from position_split [OF this] obtain ys zs where order: "order = ys @ var # zs" "length ys = cur" by blast
  let ?xs = "ys @ zs"
  let ?at = "min level (length ?xs)"
  have rem: "remove_at cur order = Some (var, ?xs)" using remove_at_split [of ys var zs] order(1,2) by simp
  have "prereq \<in> set ?xs" using True assms(2) order(1) by auto
  then obtain anchor where anchor: "position (\<lambda>p. p = prereq) ?xs = Some anchor"
    using position_None [of "\<lambda>p. p = prereq" ?xs] by blast
  from position_split [OF this] obtain us vs where xs: "?xs = us @ prereq # vs" "length us = anchor" by blast
  have run: "pin_at_after order var level prereq =
      (if anchor < ?at then Some (insert_at ?at var ?xs) else Some (insert_at (?at + 1) var (insert_at ?at prereq (us @ vs))))"
    using True cur rem anchor remove_at_split [of us prereq vs] xs by (simp add: pin_at_after_def Let_def)
  have perm: "mset order = add_mset var (mset ?xs)" "mset ?xs = add_mset prereq (mset (us @ vs))"
    using order(1) arg_cong [OF xs(1), of mset] by simp_all
  show ?thesis
  proof (cases "anchor < ?at")
    case True
    then have "prereq \<in> set (take ?at ?xs)" using in_take_split [of us ?at prereq vs] unfolding xs(1) by (simp only: xs(2))
    from in_split_list2 [OF this] have "\<exists>us vs ws. insert_at ?at var ?xs = us @ prereq # vs @ var # ws" unfolding insert_at_def .
    moreover have "mset (insert_at ?at var ?xs) = mset order" unfolding perm(1) mset_insert_at ..
    ultimately show ?thesis using run True \<open>var \<in> set order \<and> prereq \<in> set order\<close> by (simp del: mset_insert_at)
  next
    case False
    then have len: "?at \<le> length (us @ vs)" using xs by (metis (no_types, lifting) length_append trans_le_add1 not_less)
    have "insert_at (?at + 1) var (insert_at ?at prereq (us @ vs)) = take ?at (us @ vs) @ prereq # [] @ var # drop ?at (us @ vs)"
      using insert_twice [OF len] by simp
    then have "\<exists>us' vs' ws. insert_at (?at + 1) var (insert_at ?at prereq (us @ vs)) = us' @ prereq # vs' @ var # ws" by blast
    moreover have "mset (insert_at (?at + 1) var (insert_at ?at prereq (us @ vs))) = mset order"
      unfolding perm mset_insert_at by simp
    moreover have "pin_at_after order var level prereq = Some (insert_at (?at + 1) var (insert_at ?at prereq (us @ vs)))"
      unfolding run if_not_P [OF False] ..
    ultimately show ?thesis using \<open>var \<in> set order \<and> prereq \<in> set order\<close> by (simp only: option.inject) blast
  qed
qed

end
