(* ===== verification/AdaptiveVeos.thy ===== *)
theory AdaptiveVeos
  imports Veos
begin

text \<open>
  The adaptive order of \<open>Veos\<close>: its well-formedness, what each of its four hooks keeps, that
  backtracking undoes a descent exactly, and the contract an elimination order owes the search.
\<close>

section \<open>The contract\<close>

text \<open>
  An order over the variables \<open>vs\<close> has bound \<open>path\<close>. It is open when the last variable of the
  path was chosen but no value is descended into.
\<close>

locale elimination_order =
  fixes pick :: "'v \<Rightarrow> nat \<Rightarrow> (u8 \<times> 'v) option"
    and down :: "var_sizes \<Rightarrow> 'v \<Rightarrow> 'v option"
    and up :: "'v \<Rightarrow> 'v option"
    and close :: "'v \<Rightarrow> 'v option"
    and count_vars :: "'v \<Rightarrow> nat"
    and ok :: "u8 set \<Rightarrow> u8 list \<Rightarrow> bool \<Rightarrow> 'v \<Rightarrow> bool"
  assumes ok_path: "ok vs path b v \<Longrightarrow> distinct path \<and> set path \<subseteq> vs \<and> finite vs \<and> count_vars v = card vs"
    and pick_fresh: "ok vs path False v \<Longrightarrow> set path \<noteq> vs \<Longrightarrow>
      \<exists>x v'. pick v (length path) = Some (x, v') \<and> x \<in> vs - set path \<and> ok vs (path @ [x]) True v'"
    and down_closed: "ok vs path True v \<Longrightarrow> (\<And>x. x \<in> vs - set path \<Longrightarrow> sizes x \<noteq> None) \<Longrightarrow>
      \<exists>v'. down sizes v = Some v' \<and> ok vs path False v'"
    and up_opened: "ok vs (path @ [x]) False v \<Longrightarrow> \<exists>v'. up v = Some v' \<and> ok vs (path @ [x]) True v'"
    and close_pops: "ok vs (path @ [x]) True v \<Longrightarrow> \<exists>v'. close v = Some v' \<and> ok vs path False v'"

section \<open>Well-formed adaptive orders\<close>

definition var_names :: "adaptive_veo \<Rightarrow> u8 list" where
  "var_names v = map vi_name (av_info v)"

definition placed_ok :: "adaptive_veo \<Rightarrow> bool" where
  "placed_ok v \<longleftrightarrow>
     distinct (var_names v @ av_lonely v)
     \<and> (\<forall>x i. pos_get (av_pos_of v) (unat x) = Some i \<longleftrightarrow> i < length (av_info v) \<and> var_names v ! i = x)
     \<and> (\<forall>i < length (av_info v). distinct (vi_related (av_info v ! i))
          \<and> (\<forall>r \<in> set (vi_related (av_info v ! i)). unat r < length (av_pos_of v)))"

definition pool_ok :: "adaptive_veo \<Rightarrow> bool" where
  "pool_ok v \<longleftrightarrow>
     mset (av_not_bound v) + mset (av_bound v) = mset [0..<length (av_info v)]
     \<and> (\<forall>i < length (av_info v). vi_bound (av_info v ! i) \<longleftrightarrow> i \<in> set (av_bound v))"

definition path_ok :: "u8 list \<Rightarrow> adaptive_veo \<Rightarrow> bool" where
  "path_ok path v \<longleftrightarrow>
     path = map (\<lambda>i. var_names v ! i) (av_bound v) @ take (length path - length (av_info v)) (av_lonely v)
     \<and> length (av_bound v) = min (length path) (length (av_info v))
     \<and> length path \<le> length (av_info v) + length (av_lonely v)
     \<and> av_path v = path \<and> av_index v = length path"

definition versions_ok :: "nat \<Rightarrow> bool \<Rightarrow> adaptive_veo \<Rightarrow> bool" where
  "versions_ok n b v \<longleftrightarrow>
     length (av_versions v) = (if b \<and> n \<le> length (av_info v) then n - 1 else min n (length (av_info v)))"

definition adaptive_ok :: "u8 set \<Rightarrow> u8 list \<Rightarrow> bool \<Rightarrow> adaptive_veo \<Rightarrow> bool" where
  "adaptive_ok vs path b v \<longleftrightarrow>
     vs = set (var_names v @ av_lonely v) \<and> placed_ok v \<and> pool_ok v \<and> path_ok path v \<and> versions_ok (length path) b v
     \<and> (b \<longrightarrow> path \<noteq> [])"

text \<open>Updates of a variable that keep its name and its neighbours.\<close>

definition same_shape :: "var_info list \<Rightarrow> var_info list \<Rightarrow> bool" where
  "same_shape info info' \<longleftrightarrow>
     map (\<lambda>x. (vi_name x, vi_related x)) info = map (\<lambda>x. (vi_name x, vi_related x)) info'"

lemma same_shape_refl [simp]: "same_shape info info"
  by (simp add: same_shape_def)

lemma same_shape_update:
  assumes "same_shape info info'" "vi_name x = vi_name (info' ! i)" "vi_related x = vi_related (info' ! i)"
  shows "same_shape info (info'[i := x])"
proof (cases "i < length info'")
  case True
  then have "map (\<lambda>x. (vi_name x, vi_related x)) (info'[i := x]) = map (\<lambda>x. (vi_name x, vi_related x)) info'"
    using assms(2,3) by (simp add: map_update list_update_same_conv)
  then show ?thesis using assms(1) by (simp add: same_shape_def)
qed (use assms(1) in \<open>simp add: list_update_beyond\<close>)

lemma same_shape_length: "same_shape info info' \<Longrightarrow> length info' = length info"
  unfolding same_shape_def by (drule arg_cong [of _ _ length]) simp

lemma same_shape_nth: "same_shape info info' \<Longrightarrow> i < length info \<Longrightarrow> vi_name (info' ! i) = vi_name (info ! i) \<and> vi_related (info' ! i) = vi_related (info ! i)"
proof -
  assume a: "same_shape info info'" "i < length info"
  then have "map (\<lambda>x. (vi_name x, vi_related x)) info ! i = map (\<lambda>x. (vi_name x, vi_related x)) info' ! i" by (simp add: same_shape_def)
  then show ?thesis using a same_shape_length [OF a(1)] by simp
qed

lemma same_shape_names: "same_shape info info' \<Longrightarrow> map vi_name info' = map vi_name info"
  unfolding same_shape_def by (drule arg_cong [of _ _ "map fst"]) (simp add: comp_def)

lemma placed_ok_shape:
  assumes "placed_ok v" "same_shape (av_info v) (av_info v')" "av_lonely v' = av_lonely v" "av_pos_of v' = av_pos_of v"
  shows "placed_ok v'" "var_names v' = var_names v" "length (av_info v') = length (av_info v)"
  using assms same_shape_nth [OF assms(2)] same_shape_length [OF assms(2)] same_shape_names [OF assms(2)]
  by (simp_all add: placed_ok_def var_names_def)

section \<open>Choosing\<close>

lemma best_choice_in:
  assumes "best_choice info ps = Some (i, w)"
  shows "i < length ps \<and> eligible info (info ! (ps ! i)) \<and> w = (vi_weight (info ! (ps ! i)), vi_syntactic (info ! (ps ! i)))"
proof -
  let ?step = "\<lambda>(i, pos) best. let v = info ! pos; w = (vi_weight v, vi_syntactic v)
      in if \<not> eligible info v then best else (case best of None \<Rightarrow> Some (i, w) | Some (_, bw) \<Rightarrow> if w < bw then Some (i, w) else best)"
  have "fold ?step (List.enumerate n qs) best = Some (i, w) \<Longrightarrow>
      best = Some (i, w) \<or> (n \<le> i \<and> i < n + length qs \<and> eligible info (info ! (qs ! (i - n)))
        \<and> w = (vi_weight (info ! (qs ! (i - n))), vi_syntactic (info ! (qs ! (i - n)))))" for n qs best
  proof (induction qs arbitrary: n best)
    case (Cons q qs)
    let ?b = "?step (n, q) best"
    have "?b = Some (i, w) \<or> (Suc n \<le> i \<and> i < Suc n + length qs \<and> eligible info (info ! (qs ! (i - Suc n)))
        \<and> w = (vi_weight (info ! (qs ! (i - Suc n))), vi_syntactic (info ! (qs ! (i - Suc n)))))"
      using Cons.prems by (intro Cons.IH) simp
    then show ?case
    proof
      assume "?b = Some (i, w)"
      then show ?thesis by (auto simp: Let_def split: if_splits option.splits)
    next
      assume *: "Suc n \<le> i \<and> i < Suc n + length qs \<and> eligible info (info ! (qs ! (i - Suc n)))
        \<and> w = (vi_weight (info ! (qs ! (i - Suc n))), vi_syntactic (info ! (qs ! (i - Suc n))))"
      then have "(q # qs) ! (i - n) = qs ! (i - Suc n)" by (simp add: nth_Cons')
      then show ?thesis using * by simp
    qed
  qed simp
  from this [of 0 ps None] show ?thesis using assms by (simp add: best_choice_def)
qed

text \<open>Nothing eligible is lighter than the choice, and nothing is chosen only when nothing is eligible.\<close>

lemma best_choice_least:
  assumes "k < length ps" "eligible info (info ! (ps ! k))"
  shows "\<exists>i w. best_choice info ps = Some (i, w) \<and> w \<le> (vi_weight (info ! (ps ! k)), vi_syntactic (info ! (ps ! k)))"
proof -
  let ?w = "\<lambda>q. (vi_weight (info ! q), vi_syntactic (info ! q))"
  let ?step = "\<lambda>(i, pos) best. let v = info ! pos; w = (vi_weight v, vi_syntactic v)
      in if \<not> eligible info v then best else (case best of None \<Rightarrow> Some (i, w) | Some (_, bw) \<Rightarrow> if w < bw then Some (i, w) else best)"
  have mono: "\<exists>i w. fold ?step (List.enumerate n qs) best = Some (i, w) \<and> w \<le> bw" if "best = Some (j, bw)" for n qs best j bw
    using that
  proof (induction qs arbitrary: n best j bw)
    case (Cons q qs)
    have "\<exists>j' bw'. ?step (n, q) best = Some (j', bw') \<and> bw' \<le> bw"
      using Cons.prems by (cases "eligible info (info ! q)"; cases "?w q < bw") (simp_all add: Let_def less_imp_le del: split_paired_Ex)
    then obtain j' bw' where b: "?step (n, q) best = Some (j', bw')" "bw' \<le> bw" by blast
    from Cons.IH [OF b(1), of "Suc n"] b(2) show ?case by (auto intro: order_trans)
  qed simp
  have "\<exists>i w. fold ?step (List.enumerate n qs) best = Some (i, w) \<and> w \<le> ?w (qs ! k)"
    if "k < length qs" "eligible info (info ! (qs ! k))" for n qs best k
    using that
  proof (induction qs arbitrary: n best k)
    case (Cons q qs)
    show ?case
    proof (cases k)
      case 0
      then have "\<exists>j bw. ?step (n, q) best = Some (j, bw) \<and> bw \<le> ?w q"
        using Cons.prems by (auto simp: Let_def not_less split: option.split)
      then obtain j bw where b: "?step (n, q) best = Some (j, bw)" "bw \<le> ?w q" by blast
      from mono [OF b(1), of "Suc n" qs] obtain i w where w: "fold ?step (List.enumerate (Suc n) qs) (?step (n, q) best) = Some (i, w)" "w \<le> bw"
        by blast
      then show ?thesis using order_trans [OF w(2) b(2)] 0 by (intro exI [of _ i] exI [of _ w]) simp
    next
      case (Suc k')
      then show ?thesis using Cons.IH [of k' "Suc n" "?step (n, q) best"] Cons.prems by simp
    qed
  qed simp
  from this [OF assms, of 0 None] show ?thesis by (simp add: best_choice_def)
qed

section \<open>Re-weighing and restoring\<close>

lemma length_restore [simp]: "length (restore version info) = length info"
  unfolding restore_def by (induction version arbitrary: info) (auto split: prod.split)

lemma restore_Nil [simp]: "restore [] info = info"
  by (simp add: restore_def)

lemma restore_Cons [simp]: "restore ((pos, w) # version) info = restore version (info[pos := (info ! pos)\<lparr>vi_weight := w\<rparr>])"
  by (simp add: restore_def)

lemma restore_shape: "same_shape info info' \<Longrightarrow> same_shape info (restore version info')"
proof (induction version arbitrary: info')
  case (Cons x version)
  obtain pos w where x: "x = (pos, w)" by (cases x)
  have "same_shape info (info'[pos := (info' ! pos)\<lparr>vi_weight := w\<rparr>])" using Cons.prems by (rule same_shape_update) simp_all
  from Cons.IH [OF this] show ?case using x by simp
qed simp

lemma restore_bound: "i < length info \<Longrightarrow> vi_bound (restore version info ! i) = vi_bound (info ! i)"
proof (induction version arbitrary: info)
  case (Cons x version)
  obtain pos w where x: "x = (pos, w)" by (cases x)
  show ?case using Cons by (cases "i = pos") (simp_all add: x)
qed simp

lemma restore_nth_other: "i \<notin> fst ` set version \<Longrightarrow> restore version info ! i = info ! i"
proof (induction version arbitrary: info)
  case (Cons x version)
  obtain pos w where x: "x = (pos, w)" by (cases x)
  show ?case using Cons by (simp add: x)
qed simp

lemma restore_update:
  "pos \<notin> fst ` set version \<Longrightarrow> restore version (info[pos := y]) = (restore version info)[pos := y]"
proof (induction version arbitrary: info)
  case (Cons x version)
  obtain q w where x: "x = (q, w)" by (cases x)
  have "pos \<noteq> q" using Cons.prems x by simp
  then have "list_update (list_update info pos y) q (vi_weight_update (\<lambda>_. w) (list_update info pos y ! q))
      = list_update (list_update info q (vi_weight_update (\<lambda>_. w) (info ! q))) pos y"
    by (simp add: list_update_swap)
  then show ?case using Cons.IH [of "info[q := (info ! q)\<lparr>vi_weight := w\<rparr>]"] Cons.prems x by simp
qed simp

text \<open>
  The weights a descent overwrites, put back, give the weights before it. The positions of
  different neighbours differ.
\<close>

lemma reweigh_restores:
  assumes "fold (\<lambda>rel st. Option.bind st (reweigh pos_of sizes rel)) rels (Some (info, ver)) = Some (info', ver')" "distinct rels"
    and "\<And>(x :: u8) (y :: u8) i. pos_get pos_of (unat x) = Some i \<Longrightarrow> pos_get pos_of (unat y) = Some i \<Longrightarrow> x = y"
  shows "\<exists>new. ver' = ver @ new \<and> restore new info' = info \<and> same_shape info info'
    \<and> (\<forall>i. vi_bound (info' ! i) = vi_bound (info ! i)) \<and> (\<forall>i \<in> fst ` set new. \<exists>rel \<in> set rels. pos_get pos_of (unat rel) = Some i)"
  using assms(1,2)
proof (induction rels arbitrary: info ver)
  case (Cons rel rels)
  have none: "fold (\<lambda>rel st. Option.bind st (reweigh pos_of sizes rel)) rels None = None" by (induction rels) simp_all
  obtain info1 ver1 where step: "reweigh pos_of sizes rel (info, ver) = Some (info1, ver1)"
    using Cons.prems none by (cases "reweigh pos_of sizes rel (info, ver)") auto
  then have "fold (\<lambda>rel st. Option.bind st (reweigh pos_of sizes rel)) rels (Some (info1, ver1)) = Some (info', ver')" using Cons.prems by simp
  from Cons.IH [OF this] Cons.prems(2) obtain new where new: "ver' = ver1 @ new" "restore new info' = info1" "same_shape info1 info'"
    "\<forall>i. vi_bound (info' ! i) = vi_bound (info1 ! i)" "\<forall>i \<in> fst ` set new. \<exists>rel \<in> set rels. pos_get pos_of (unat rel) = Some i"
    by auto
  consider "info1 = info" "ver1 = ver"
    | pos w where "pos_get pos_of (unat rel) = Some pos" "info1 = info[pos := (info ! pos)\<lparr>vi_weight := w\<rparr>]" "ver1 = ver @ [(pos, vi_weight (info ! pos))]"
    using step by (auto simp: reweigh_def pos_get_def bind_eq_Some_conv split: option.splits if_splits)
  then show ?case
  proof cases
    case 1
    then show ?thesis using new by (intro exI [of _ new]) auto
  next
    case (2 pos w)
    have fresh: "pos \<notin> fst ` set new"
    proof
      assume "pos \<in> fst ` set new"
      then obtain r where "r \<in> set rels" "pos_get pos_of (unat r) = Some pos" using new(5) by blast
      then show False using assms(3) [OF 2(1)] Cons.prems(2) by auto
    qed
    have shape: "same_shape info info1" unfolding 2(2) by (rule same_shape_update) simp_all
    let ?old = "(info' ! pos)\<lparr>vi_weight := vi_weight (info ! pos)\<rparr>"
    have "restore ((pos, vi_weight (info ! pos)) # new) info' = info1[pos := ?old]"
      using restore_update [OF fresh, of info' ?old] new(2) by simp
    also have "info' ! pos = info1 ! pos" using restore_nth_other [OF fresh, of info'] new(2) by simp
    also have "info1[pos := (info1 ! pos)\<lparr>vi_weight := vi_weight (info ! pos)\<rparr>] = info"
      unfolding 2(2) by (cases "pos < length info") (simp_all add: list_update_beyond)
    finally have "restore ((pos, vi_weight (info ! pos)) # new) info' = info" .
    moreover have "\<forall>i. vi_bound (info1 ! i) = vi_bound (info ! i)"
      unfolding 2(2) by (metis (no_types, lifting) list_update_beyond not_less nth_list_update_eq nth_list_update_neq var_info.select_convs(6) var_info.surjective var_info.update_convs(2))
    moreover have "same_shape info info'" using shape new(3) by (simp add: same_shape_def)
    moreover have "\<forall>i \<in> fst ` set ((pos, vi_weight (info ! pos)) # new). \<exists>r \<in> set (rel # rels). pos_get pos_of (unat r) = Some i"
      using new(5) 2(1) by auto
    moreover have "ver' = ver @ (pos, vi_weight (info ! pos)) # new" using new(1) 2(3) by simp
    ultimately show ?thesis using new(4) by (intro exI [of _ "(pos, vi_weight (info ! pos)) # new"]) simp
  qed
qed simp

lemma reweigh_total:
  assumes "\<And>r. r \<in> set rels \<Longrightarrow> unat r < length pos_of"
    and "\<And>r pos. r \<in> set rels \<Longrightarrow> pos_get pos_of (unat r) = Some pos \<Longrightarrow> \<not> vi_bound (info ! pos) \<Longrightarrow> sizes r \<noteq> None"
  shows "fold (\<lambda>rel st. Option.bind st (reweigh pos_of sizes rel)) rels (Some (info, ver)) \<noteq> None"
  using assms
proof (induction rels arbitrary: info ver)
  case (Cons rel rels)
  obtain info1 ver1 where step: "reweigh pos_of sizes rel (info, ver) = Some (info1, ver1)" "\<forall>i. vi_bound (info1 ! i) = vi_bound (info ! i)"
  proof (cases "nth_opt pos_of (unat rel)")
    case None
    then show ?thesis using Cons.prems(1) [of rel] by (simp add: nth_opt_def)
  next
    case (Some p)
    show ?thesis
    proof (cases p)
      case None
      then show ?thesis using that [of info ver] Some by (simp add: reweigh_def)
    next
      case p: (Some pos)
      then have get: "pos_get pos_of (unat rel) = Some pos" using Some by (simp add: pos_get_def)
      show ?thesis
      proof (cases "vi_bound (info ! pos)")
        case True
        then show ?thesis using that [of info ver] Some p by (simp add: reweigh_def)
      next
        case False
        then obtain m where m: "sizes rel = Some m" using Cons.prems(2) [of rel] get by auto
        have bound: "vi_bound (info[pos := (info ! pos)\<lparr>vi_weight := m\<rparr>] ! i) = vi_bound (info ! i)" for i
          by (cases "pos < length info") (simp_all add: nth_list_update list_update_beyond)
        show ?thesis
          using that [of info ver] that [of "info[pos := (info ! pos)\<lparr>vi_weight := m\<rparr>]" "ver @ [(pos, vi_weight (info ! pos))]"]
            Some p m False bound by (cases "m < vi_weight (info ! pos)") (simp_all add: reweigh_def)
      qed
    qed
  qed
  have "fold (\<lambda>rel st. Option.bind st (reweigh pos_of sizes rel)) rels (Some (info1, ver1)) \<noteq> None"
    using Cons.prems step(2) by (intro Cons.IH) simp_all
  then show ?case using step(1) by simp
qed simp

section \<open>The hooks\<close>

lemma pool_distinct:
  assumes "pool_ok v"
  shows "distinct (av_not_bound v @ av_bound v)" "set (av_not_bound v) \<union> set (av_bound v) = {..<length (av_info v)}"
    "length (av_not_bound v) + length (av_bound v) = length (av_info v)"
proof -
  have m: "mset (av_not_bound v @ av_bound v) = mset [0..<length (av_info v)]" using assms by (simp add: pool_ok_def)
  show "distinct (av_not_bound v @ av_bound v)" unfolding mset_eq_imp_distinct_iff [OF m] by (rule distinct_upt)
  show "set (av_not_bound v) \<union> set (av_bound v) = {..<length (av_info v)}" using mset_eq_setD [OF m] by (simp only: set_append set_upt lessThan_atLeast0)
  show "length (av_not_bound v) + length (av_bound v) = length (av_info v)" using mset_eq_length [OF m] by simp
qed

lemma adaptive_path:
  assumes "adaptive_ok vs path b v"
  shows "distinct path \<and> set path \<subseteq> vs \<and> finite vs \<and> veo_size (AdaptiveVeo v) = card vs"
proof -
  let ?m = "length (av_info v)" and ?names = "var_names v"
  have ok: "vs = set (?names @ av_lonely v)" "distinct (?names @ av_lonely v)" "pool_ok v" "path_ok path v"
    using assms by (simp_all add: adaptive_ok_def placed_ok_def)
  have len: "length ?names = ?m" by (simp add: var_names_def)
  have bound: "distinct (av_bound v)" "set (av_bound v) \<subseteq> {..<?m}" using pool_distinct [OF ok(3)] by auto
  have path: "path = map (\<lambda>i. ?names ! i) (av_bound v) @ take (length path - ?m) (av_lonely v)" using ok(4) by (simp only: path_ok_def)
  have "distinct (map (\<lambda>i. ?names ! i) (av_bound v))"
    unfolding distinct_map
  proof (intro conjI inj_onI)
    fix i j assume "i \<in> set (av_bound v)" "j \<in> set (av_bound v)" "?names ! i = ?names ! j"
    moreover have "distinct ?names" using ok(2) by simp
    ultimately show "i = j" using bound(2) len nth_eq_iff_index_eq [of ?names i j] by (metis lessThan_iff subsetD)
  qed (rule bound(1))
  moreover have sub: "set (map (\<lambda>i. ?names ! i) (av_bound v)) \<subseteq> set ?names"
    unfolding set_map by (rule image_subsetI, rule nth_mem) (use bound(2) len in \<open>metis lessThan_iff subsetD\<close>)
  moreover have "set (take (length path - ?m) (av_lonely v)) \<subseteq> set (av_lonely v)" by (rule set_take_subset)
  moreover have "distinct (take (length path - ?m) (av_lonely v))" "set ?names \<inter> set (av_lonely v) = {}" using ok(2) by simp_all
  ultimately have "distinct (map (\<lambda>i. ?names ! i) (av_bound v) @ take (length path - ?m) (av_lonely v))
      \<and> set (map (\<lambda>i. ?names ! i) (av_bound v) @ take (length path - ?m) (av_lonely v)) \<subseteq> set (?names @ av_lonely v)"
    unfolding distinct_append set_append by blast
  then have "distinct path \<and> set path \<subseteq> set (?names @ av_lonely v)" by (simp only: path [symmetric])
  then show ?thesis using ok(1) distinct_card [OF ok(2)] len by (simp add: veo_size_def)
qed

lemma adaptive_next_ok:
  assumes "adaptive_ok vs path False v" "set path \<noteq> vs"
  shows "\<exists>x v'. adaptive_next v = Some (x, v') \<and> x \<in> vs - set path \<and> adaptive_ok vs (path @ [x]) True v'"
proof -
  let ?m = "length (av_info v)" and ?n = "length path"
  have ok: "vs = set (var_names v @ av_lonely v)" "placed_ok v" "pool_ok v" "path_ok path v" "length (av_versions v) = min ?n ?m"
    using assms(1) by (simp_all add: adaptive_ok_def versions_ok_def)
  note all = adaptive_path [OF assms(1)]
  have card: "card vs = ?m + length (av_lonely v)" using all by (simp add: veo_size_def)
  have idx: "av_index v = ?n" "av_path v = path" "length (av_bound v) = min ?n ?m"
    and path: "path = map (\<lambda>i. var_names v ! i) (av_bound v) @ take (?n - ?m) (av_lonely v)"
    using ok(4) by (simp_all only: path_ok_def)
  have "?n < card vs"
  proof (rule ccontr)
    assume "\<not> ?n < card vs"
    then have "card vs \<le> card (set path)" using all distinct_card [of path] by simp
    from card_seteq [OF _ _ this] show False using assms(2) all by blast
  qed
  then have room: "?n < ?m + length (av_lonely v)" using card by simp
  have names: "distinct (var_names v @ av_lonely v)" "length (var_names v) = ?m" using ok(2) by (simp_all add: placed_ok_def var_names_def)
  show ?thesis
  proof (cases "?n < ?m")
    case True
    define best where "best = (case best_choice (av_info v) (av_not_bound v) of None \<Rightarrow> 0 | Some (i, _) \<Rightarrow> i)"
    have "best < length (av_not_bound v)"
      using best_choice_in [of "av_info v" "av_not_bound v"] pool_distinct(3) [OF ok(3)] idx(3) True
      by (auto simp: best_def split: option.split)
    then obtain pos rest where rem: "remove_at best (av_not_bound v) = Some (pos, rest)" "pos \<in> set (av_not_bound v)"
      by (simp add: remove_at_def)
    have pos: "pos < ?m" "pos \<notin> set (av_bound v)" using rem(2) pool_distinct [OF ok(3)] by auto
    let ?x = "vi_name (av_info v ! pos)"
    have x: "?x = var_names v ! pos" using pos(1) by (simp add: var_names_def)
    define v' where "v' = v\<lparr>av_not_bound := rest, av_info := (av_info v)[pos := (av_info v ! pos)\<lparr>vi_bound := True\<rparr>],
        av_bound := av_bound v @ [pos], av_index := av_index v + 1, av_path := av_path v @ [?x]\<rparr>"
    have run: "adaptive_next v = Some (?x, v')"
      using True idx(1) rem(1) by (simp add: adaptive_next_def v'_def best_def Let_def)
    have shape: "same_shape (av_info v) (av_info v')" unfolding v'_def by simp (rule same_shape_update, simp_all)
    note placed = placed_ok_shape [OF ok(2) shape]
    have eqs: "av_lonely v' = av_lonely v" "av_pos_of v' = av_pos_of v" by (simp_all add: v'_def)
    have bs: "set (av_bound v) \<subseteq> {..<?m}" using pool_distinct(2) [OF ok(3)] by auto
    have "take (?n - ?m) (av_lonely v) = []" using True by simp
    then have path0: "path = map (\<lambda>i. var_names v ! i) (av_bound v)" using path by (simp only: append_Nil2)
    have "?x \<notin> set path"
    proof
      assume "?x \<in> set path"
      then obtain i where "i \<in> set (av_bound v)" "var_names v ! pos = var_names v ! i" using path0 x by auto
      then show False using pos bs names nth_eq_iff_index_eq [of "var_names v" pos i] by auto
    qed
    moreover have "?x \<in> vs" using ok(1) x pos(1) names(2) by simp
    moreover have "pool_ok v'"
      using ok(3) mset_remove_at [OF rem(1)] pos(1) by (simp add: pool_ok_def v'_def nth_list_update)
    moreover have "path_ok (path @ [?x]) v'"
    proof -
      have sel: "av_bound v' = av_bound v @ [pos]" "av_index v' = Suc (length path)" "av_path v' = path @ [?x]"
        using idx by (simp_all add: v'_def)
      have len: "length (av_bound v) = length path" using idx(3) True by simp
      have "path @ [?x] = map (\<lambda>i. var_names v ! i) (av_bound v @ [pos])" unfolding x map_append using path0 by simp
      moreover have "take (length (path @ [?x]) - ?m) (av_lonely v) = []" using True by simp
      ultimately have "path @ [?x] = map (\<lambda>i. var_names v ! i) (av_bound v @ [pos]) @ take (length (path @ [?x]) - ?m) (av_lonely v)"
        by (simp only: append_Nil2)
      moreover have "length (av_bound v @ [pos]) = min (length (path @ [?x])) ?m" "length (path @ [?x]) \<le> ?m + length (av_lonely v)"
        "Suc (length path) = length (path @ [?x])"
        using len True by simp_all
      ultimately show ?thesis
        unfolding path_ok_def sel eqs placed(2) [OF eqs] placed(3) [OF eqs] by (intro conjI refl)
    qed
    moreover have "versions_ok (length (path @ [?x])) True v'"
      using ok(5) True by (simp add: versions_ok_def v'_def)
    moreover have "vs = set (var_names v' @ av_lonely v')" using ok(1) unfolding placed(2) [OF eqs] eqs .
    ultimately have "adaptive_ok vs (path @ [?x]) True v'" using placed(1) [OF eqs] unfolding adaptive_ok_def by blast
    then show ?thesis using run \<open>?x \<in> vs\<close> \<open>?x \<notin> set path\<close> by blast
  next
    case False
    let ?x = "av_lonely v ! (?n - ?m)"
    define v' where "v' = v\<lparr>av_index := av_index v + 1, av_path := av_path v @ [?x]\<rparr>"
    have in_range: "?n - ?m < length (av_lonely v)" using room False by simp
    have run: "adaptive_next v = Some (?x, v')"
      using False idx(1) in_range by (simp add: adaptive_next_def v'_def nth_opt_def)
    have "take (Suc ?n - ?m) (av_lonely v) = take (?n - ?m) (av_lonely v) @ [?x]"
      using False in_range by (simp add: take_Suc_conv_app_nth Suc_diff_le not_less)
    then have path': "path @ [?x] = map (\<lambda>i. var_names v ! i) (av_bound v) @ take (Suc ?n - ?m) (av_lonely v)"
      using arg_cong [OF path, of "\<lambda>xs. xs @ [?x]"] by (simp only: append_assoc)
    have "?x \<notin> set (take (?n - ?m) (av_lonely v))"
      using names(1) in_range by (auto simp: in_set_conv_nth nth_eq_iff_index_eq)
    moreover have "?x \<notin> set (map (\<lambda>i. var_names v ! i) (av_bound v))"
    proof -
      have bs: "set (av_bound v) \<subseteq> {..<?m}" using pool_distinct(2) [OF ok(3)] by blast
      have "set (map (\<lambda>i. var_names v ! i) (av_bound v)) \<subseteq> set (var_names v)"
        unfolding set_map
      proof (rule image_subsetI)
        fix i assume "i \<in> set (av_bound v)"
        then have "i < length (var_names v)" using bs names(2) by (metis lessThan_iff subsetD)
        then show "var_names v ! i \<in> set (var_names v)" by (rule nth_mem)
      qed
      then show ?thesis using names(1) nth_mem [OF in_range] unfolding distinct_append by blast
    qed
    ultimately have "?x \<notin> set path" by (subst path) simp
    moreover have "?x \<in> vs" using ok(1) in_range by simp
    moreover have "path_ok (path @ [?x]) v'"
    proof -
      have sel: "av_bound v' = av_bound v" "av_index v' = Suc ?n" "av_path v' = path @ [?x]" "var_names v' = var_names v"
        "av_lonely v' = av_lonely v" "length (av_info v') = ?m"
        using idx by (simp_all add: v'_def var_names_def)
      have "length (av_bound v) = min (length (path @ [?x])) ?m" "length (path @ [?x]) \<le> ?m + length (av_lonely v)" "Suc ?n = length (path @ [?x])"
        using idx(3) room False by simp_all
      moreover have "path @ [?x] = map (\<lambda>i. var_names v ! i) (av_bound v) @ take (length (path @ [?x]) - ?m) (av_lonely v)"
        unfolding length_append_singleton by (rule path')
      ultimately show ?thesis unfolding path_ok_def sel by (intro conjI refl)
    qed
    moreover have "placed_ok v'" "pool_ok v'" "versions_ok (length (path @ [?x])) True v'" "vs = set (var_names v' @ av_lonely v')"
      using ok False by (simp_all add: placed_ok_def pool_ok_def versions_ok_def v'_def var_names_def)
    ultimately have "adaptive_ok vs (path @ [?x]) True v'" unfolding adaptive_ok_def by blast
    then show ?thesis using run \<open>?x \<in> vs\<close> \<open>?x \<notin> set path\<close> by blast
  qed
qed

lemma adaptive_done_ok:
  assumes "adaptive_ok vs (path @ [x]) True v"
  shows "\<exists>v'. adaptive_done v = Some v' \<and> adaptive_ok vs path False v'"
proof -
  let ?m = "length (av_info v)" and ?n = "length path"
  have ok: "vs = set (var_names v @ av_lonely v)" "placed_ok v" "pool_ok v" "path_ok (path @ [x]) v" "versions_ok (Suc ?n) True v"
    using assms by (simp_all add: adaptive_ok_def)
  have idx: "av_index v = Suc ?n" "av_path v = path @ [x]" "length (av_bound v) = min (Suc ?n) ?m" "Suc ?n \<le> ?m + length (av_lonely v)"
    and path: "path @ [x] = map (\<lambda>i. var_names v ! i) (av_bound v) @ take (Suc ?n - ?m) (av_lonely v)"
    using ok(4) unfolding path_ok_def length_append_singleton by blast+
  show ?thesis
  proof (cases "?n < ?m")
    case True
    then have len: "length (av_bound v) = Suc ?n" using idx(3) by simp
    then obtain bs pos where bound: "av_bound v = bs @ [pos]" by (metis length_Suc_conv_rev)
    have pos: "pos < ?m" "pos \<notin> set bs" using pool_distinct [OF ok(3)] bound by auto
    define v' where "v' = v\<lparr>av_index := ?n, av_path := path, av_bound := bs,
        av_info := (av_info v)[pos := (av_info v ! pos)\<lparr>vi_bound := False\<rparr>], av_not_bound := av_not_bound v @ [pos]\<rparr>"
    have run: "adaptive_done v = Some v'" using idx True bound by (simp add: adaptive_done_def v'_def)
    have shape: "same_shape (av_info v) (av_info v')" unfolding v'_def by simp (rule same_shape_update, simp_all)
    have eqs: "av_lonely v' = av_lonely v" "av_pos_of v' = av_pos_of v" by (simp_all add: v'_def)
    note placed = placed_ok_shape [OF ok(2) shape eqs]
    have sel: "av_bound v' = bs" "av_index v' = ?n" "av_path v' = path" "av_versions v' = av_versions v" by (simp_all add: v'_def)
    have "path @ [x] = map (\<lambda>i. var_names v ! i) bs @ [var_names v ! pos]" using path True bound by simp
    then have "path = map (\<lambda>i. var_names v ! i) bs" by blast
    moreover have "take (?n - ?m) (av_lonely v) = []" using True by simp
    ultimately have "path = map (\<lambda>i. var_names v ! i) bs @ take (?n - ?m) (av_lonely v)" by (simp only: append_Nil2)
    moreover have "length bs = min ?n ?m" "?n \<le> ?m + length (av_lonely v)" using len bound True by simp_all
    ultimately have "path_ok path v'" unfolding path_ok_def sel eqs placed(2,3) by (intro conjI refl)
    moreover have "versions_ok ?n False v'" using ok(5) True unfolding versions_ok_def sel placed(3) by simp
    moreover have "pool_ok v'"
      using ok(3) pos by (simp add: pool_ok_def v'_def bound nth_list_update)
    moreover have "vs = set (var_names v' @ av_lonely v')" using ok(1) unfolding placed(2) eqs .
    ultimately show ?thesis using run placed(1) unfolding adaptive_ok_def by blast
  next
    case False
    define v' where "v' = v\<lparr>av_index := ?n, av_path := path\<rparr>"
    have run: "adaptive_done v = Some v'" using idx False by (simp add: adaptive_done_def v'_def)
    have sel: "av_bound v' = av_bound v" "av_index v' = ?n" "av_path v' = path" "var_names v' = var_names v"
      "av_lonely v' = av_lonely v" "length (av_info v') = ?m" "av_versions v' = av_versions v"
      by (simp_all add: v'_def var_names_def)
    have "take (Suc ?n - ?m) (av_lonely v) = take (?n - ?m) (av_lonely v) @ [av_lonely v ! (?n - ?m)]"
      using False idx(4) by (simp add: Suc_diff_le not_less take_Suc_conv_app_nth)
    then have "path @ [x] = (map (\<lambda>i. var_names v ! i) (av_bound v) @ take (?n - ?m) (av_lonely v)) @ [av_lonely v ! (?n - ?m)]"
      using path by (simp only: append_assoc)
    then have "path = map (\<lambda>i. var_names v ! i) (av_bound v) @ take (?n - ?m) (av_lonely v)" by blast
    moreover have "length (av_bound v) = min ?n ?m" "?n \<le> ?m + length (av_lonely v)" using idx(3,4) False by simp_all
    ultimately have "path_ok path v'" unfolding path_ok_def sel by (intro conjI refl)
    moreover have "versions_ok ?n False v'" using ok(5) False unfolding versions_ok_def sel by simp
    moreover have "placed_ok v'" "pool_ok v'" "vs = set (var_names v' @ av_lonely v')"
      using ok(1-3) by (simp_all add: placed_ok_def pool_ok_def v'_def var_names_def)
    ultimately show ?thesis using run unfolding adaptive_ok_def by blast
  qed
qed

text \<open>A change of the variables' weights, and of the versions by one level.\<close>

lemma adaptive_ok_info:
  assumes "adaptive_ok vs path b v" "path \<noteq> []" "v' = v\<lparr>av_info := info', av_versions := vers'\<rparr>" "same_shape (av_info v) info'"
    and "\<And>i. i < length (av_info v) \<Longrightarrow> vi_bound (info' ! i) = vi_bound (av_info v ! i)" "versions_ok (length path) b' v'"
  shows "adaptive_ok vs path b' v'"
proof -
  have ok: "vs = set (var_names v @ av_lonely v)" "placed_ok v" "pool_ok v" "path_ok path v" using assms(1) by (simp_all add: adaptive_ok_def)
  have shape: "same_shape (av_info v) (av_info v')" using assms(3,4) by simp
  have eqs: "av_lonely v' = av_lonely v" "av_pos_of v' = av_pos_of v" by (simp_all add: assms(3))
  note placed = placed_ok_shape [OF ok(2) shape eqs]
  have sel: "av_bound v' = av_bound v" "av_not_bound v' = av_not_bound v" "av_index v' = av_index v" "av_path v' = av_path v" "av_info v' = info'"
    by (simp_all add: assms(3))
  have "path_ok path v'" using ok(4) unfolding path_ok_def sel(1,3,4) eqs placed(2,3) .
  moreover have "pool_ok v'" using ok(3) assms(5) placed(3) sel unfolding pool_ok_def by simp
  ultimately show ?thesis using ok(1) placed(1,2) eqs(1) assms(2,6) unfolding adaptive_ok_def by simp
qed

lemma length_path_index: "adaptive_ok vs path b v \<Longrightarrow> av_index v = length path"
  by (simp add: adaptive_ok_def path_ok_def)

lemma open_bound:
  assumes "adaptive_ok vs path True v" "length path \<le> length (av_info v)"
  shows "av_bound v \<noteq> [] \<and> last (av_bound v) < length (av_info v)"
proof -
  have "length (av_bound v) = min (length path) (length (av_info v))" "path \<noteq> []" "pool_ok v"
    using assms(1) unfolding adaptive_ok_def path_ok_def by blast+
  then have "av_bound v \<noteq> []" using assms(2) by (cases path) (auto simp: min_def)
  moreover have "set (av_bound v) \<subseteq> {..<length (av_info v)}" using pool_distinct(2) [OF \<open>pool_ok v\<close>] by blast
  ultimately show ?thesis by (metis last_in_set lessThan_iff subsetD)
qed

lemma placed_inj: "placed_ok v \<Longrightarrow> pos_get (av_pos_of v) (unat (x :: u8)) = Some i \<Longrightarrow> pos_get (av_pos_of v) (unat (y :: u8)) = Some i \<Longrightarrow> x = y"
  by (simp add: placed_ok_def)

lemma adaptive_down_ok:
  assumes "adaptive_ok vs path True v" "adaptive_down sizes v = Some v'"
  shows "adaptive_ok vs path False v' \<and> adaptive_up v' = Some v"
proof (cases "length path \<le> length (av_info v)")
  case True
  have ne: "path \<noteq> []" and placed: "placed_ok v" and vers: "length (av_versions v) = length path - 1"
    using assms(1) True by (simp_all add: adaptive_ok_def versions_ok_def)
  note idx = length_path_index [OF assms(1)]
  note bound = open_bound [OF assms(1) True]
  let ?rels = "vi_related (av_info v ! last (av_bound v))"
  obtain info' version where run: "fold (\<lambda>rel st. Option.bind st (reweigh (av_pos_of v) sizes rel)) ?rels (Some (av_info v, [])) = Some (info', version)"
    and v': "v' = v\<lparr>av_info := info', av_versions := av_versions v @ [version]\<rparr>"
    using assms(2) True idx bound by (auto simp: adaptive_down_def)
  have "distinct ?rels" using placed bound by (simp add: placed_ok_def)
  from reweigh_restores [OF run this placed_inj [OF placed]]
  have res: "restore version info' = av_info v" "same_shape (av_info v) info'" "\<forall>i. vi_bound (info' ! i) = vi_bound (av_info v ! i)"
    by auto
  have len: "length info' = length (av_info v)" by (rule same_shape_length [OF res(2)])
  have "versions_ok (length path) False v'" using vers ne True len by (cases path) (simp_all add: versions_ok_def v')
  then have "adaptive_ok vs path False v'" using adaptive_ok_info [OF assms(1) ne v' res(2)] res(3) by simp
  moreover have "adaptive_up v' = Some v" using True idx len res(1) by (simp add: adaptive_up_def v')
  ultimately show ?thesis by simp
next
  case False
  then have "v' = v" using assms(2) length_path_index [OF assms(1)] by (simp add: adaptive_down_def)
  then show ?thesis using assms(1) False length_path_index [OF assms(1)] by (auto simp: adaptive_ok_def versions_ok_def adaptive_up_def)
qed

lemma adaptive_down_total:
  assumes "adaptive_ok vs path True v" "\<And>x. x \<in> vs - set path \<Longrightarrow> sizes x \<noteq> None"
  shows "adaptive_down sizes v \<noteq> None"
proof (cases "length path \<le> length (av_info v)")
  case True
  have ok: "vs = set (var_names v @ av_lonely v)" "placed_ok v" "pool_ok v" "path_ok path v" using assms(1) by (simp_all add: adaptive_ok_def)
  have "take (length path - length (av_info v)) (av_lonely v) = []" using True by simp
  then have path: "path = map (\<lambda>i. var_names v ! i) (av_bound v)" using ok(4) unfolding path_ok_def by (simp only: append_Nil2)
  note bound = open_bound [OF assms(1) True]
  let ?rels = "vi_related (av_info v ! last (av_bound v))"
  have len: "length (var_names v) = length (av_info v)" by (simp add: var_names_def)
  have names: "distinct (var_names v)" using ok(2) by (simp add: placed_ok_def)
  have "fold (\<lambda>rel st. Option.bind st (reweigh (av_pos_of v) sizes rel)) ?rels (Some (av_info v, [])) \<noteq> None"
  proof (rule reweigh_total)
    have "\<forall>i < length (av_info v). \<forall>r \<in> set (vi_related (av_info v ! i)). unat r < length (av_pos_of v)"
      using ok(2) unfolding placed_ok_def by blast
    then show "unat r < length (av_pos_of v)" if "r \<in> set ?rels" for r :: u8 using that bound by blast
    fix r :: u8 and pos assume r: "pos_get (av_pos_of v) (unat r) = Some pos" "\<not> vi_bound (av_info v ! pos)"
    then have pos: "pos < length (av_info v)" "var_names v ! pos = r" using ok(2) by (simp_all add: placed_ok_def)
    then have "pos \<notin> set (av_bound v)" using r(2) ok(3) by (simp add: pool_ok_def)
    have "r \<notin> set path"
    proof
      assume "r \<in> set path"
      then obtain i where i: "i \<in> set (av_bound v)" "var_names v ! i = r" unfolding path by auto
      have "i < length (av_info v)" using i(1) pool_distinct(2) [OF ok(3)] by blast
      then show False using i pos names len \<open>pos \<notin> set (av_bound v)\<close> nth_eq_iff_index_eq [of "var_names v" i pos] by metis
    qed
    moreover have "r \<in> vs" unfolding ok(1) using pos len nth_mem [of pos "var_names v"] by simp
    ultimately show "sizes r \<noteq> None" using assms(2) by blast
  qed
  then show ?thesis using bound True by (auto simp: adaptive_down_def)
next
  case False
  then show ?thesis using length_path_index [OF assms(1)] by (simp add: adaptive_down_def)
qed

lemma adaptive_up_ok:
  assumes "adaptive_ok vs (path @ [x]) False v"
  shows "\<exists>v'. adaptive_up v = Some v' \<and> adaptive_ok vs (path @ [x]) True v'"
proof (cases "Suc (length path) \<le> length (av_info v)")
  case True
  then have vers: "length (av_versions v) = Suc (length path)" and idx: "av_index v = Suc (length path)"
    using assms length_path_index [OF assms] by (simp_all add: adaptive_ok_def versions_ok_def)
  then have ne: "av_versions v \<noteq> []" by auto
  define v' where "v' = v\<lparr>av_info := restore (last (av_versions v)) (av_info v), av_versions := butlast (av_versions v)\<rparr>"
  have "versions_ok (length (path @ [x])) True v'" using vers True by (simp add: versions_ok_def v'_def)
  then have "adaptive_ok vs (path @ [x]) True v'"
    using adaptive_ok_info [OF assms _ v'_def] restore_shape [OF same_shape_refl] restore_bound by simp
  moreover have "adaptive_up v = Some v'" using ne True idx by (simp add: adaptive_up_def v'_def)
  ultimately show ?thesis by blast
next
  case False
  then show ?thesis using assms length_path_index [OF assms] by (auto simp: adaptive_ok_def versions_ok_def adaptive_up_def)
qed

section \<open>Every order keeps the contract\<close>

definition veo_ok :: "u8 set \<Rightarrow> u8 list \<Rightarrow> bool \<Rightarrow> veo \<Rightarrow> bool" where
  "veo_ok vs path b v \<longleftrightarrow>
     (case v of
        FixedVeo order \<Rightarrow> vs = set order \<and> distinct order \<and> length path \<le> length order \<and> path = take (length path) order
      | AdaptiveVeo a \<Rightarrow> adaptive_ok vs path b a)"

lemma take_nth_snoc: "path = take (length path) order \<Longrightarrow> length path < length order \<Longrightarrow> path @ [order ! length path] = take (Suc (length path)) order"
  by (metis take_Suc_conv_app_nth)

interpretation veo_order: elimination_order veo_next veo_down veo_up veo_done veo_size veo_ok
proof
  fix vs path b v x sizes
  show "distinct path \<and> set path \<subseteq> vs \<and> finite vs \<and> veo_size v = card vs" if "veo_ok vs path b v"
  proof (cases v)
    case (FixedVeo order)
    then have ok: "vs = set order" "distinct order" "path = take (length path) order" using that by (simp_all add: veo_ok_def)
    have "distinct path" using distinct_take [OF ok(2), of "length path"] ok(3) by simp
    moreover have "set path \<subseteq> set order" by (metis ok(3) set_take_subset)
    ultimately show ?thesis using ok(1) distinct_card [OF ok(2)] by (simp add: veo_size_def FixedVeo)
  next
    case (AdaptiveVeo a)
    then show ?thesis using that adaptive_path by (simp add: veo_ok_def)
  qed
  show "\<exists>x v'. veo_next v (length path) = Some (x, v') \<and> x \<in> vs - set path \<and> veo_ok vs (path @ [x]) True v'"
    if ok: "veo_ok vs path False v" and ne: "set path \<noteq> vs"
  proof (cases v)
    case (FixedVeo order)
    then have o: "vs = set order" "distinct order" "path = take (length path) order" "length path \<le> length order" using ok by (simp_all add: veo_ok_def)
    then have lt: "length path < length order" using ne by (metis le_neq_implies_less take_all order_refl)
    have snoc: "path @ [order ! length path] = take (Suc (length path)) order" by (rule take_nth_snoc [OF o(3) lt])
    have "distinct (path @ [order ! length path])" unfolding snoc by (rule distinct_take [OF o(2)])
    then have "order ! length path \<notin> set path" by simp
    then show ?thesis using lt o snoc by (simp add: veo_next_def FixedVeo nth_opt_def veo_ok_def)
  next
    case (AdaptiveVeo a)
    then obtain x a' where "adaptive_next a = Some (x, a')" "x \<in> vs - set path" "adaptive_ok vs (path @ [x]) True a'"
      using adaptive_next_ok [of vs path a] ok ne by (auto simp: veo_ok_def)
    then show ?thesis by (intro exI [of _ x] exI [of _ "AdaptiveVeo a'"]) (simp add: veo_next_def AdaptiveVeo veo_ok_def)
  qed
  show "\<exists>v'. veo_down sizes v = Some v' \<and> veo_ok vs path False v'"
    if ok: "veo_ok vs path True v" and total: "\<And>x. x \<in> vs - set path \<Longrightarrow> sizes x \<noteq> None"
  proof (cases v)
    case (FixedVeo order)
    then show ?thesis using ok by (simp add: veo_down_def veo_ok_def)
  next
    case (AdaptiveVeo a)
    then have a: "adaptive_ok vs path True a" using ok by (simp add: veo_ok_def)
    have "adaptive_down sizes a \<noteq> None" by (rule adaptive_down_total [OF a]) (rule total)
    then obtain a' where a': "adaptive_down sizes a = Some a'" by blast
    then show ?thesis using adaptive_down_ok [OF a a'] by (simp add: veo_down_def AdaptiveVeo veo_ok_def)
  qed
  show "\<exists>v'. veo_up v = Some v' \<and> veo_ok vs (path @ [x]) True v'" if ok: "veo_ok vs (path @ [x]) False v"
  proof (cases v)
    case (AdaptiveVeo a)
    then show ?thesis using ok adaptive_up_ok [of vs path x a] by (auto simp: veo_up_def veo_ok_def)
  qed (use ok in \<open>simp add: veo_up_def veo_ok_def\<close>)
  show "\<exists>v'. veo_done v = Some v' \<and> veo_ok vs path False v'" if ok: "veo_ok vs (path @ [x]) True v"
  proof (cases v)
    case (FixedVeo order)
    have "path @ [x] = take (Suc (length path)) order" "Suc (length path) \<le> length order" using ok FixedVeo by (simp_all add: veo_ok_def)
    then have "path = take (length path) order" using butlast_take [of "Suc (length path)" order] by (metis butlast_snoc diff_Suc_1)
    then show ?thesis using ok by (simp add: FixedVeo veo_done_def veo_ok_def)
  next
    case (AdaptiveVeo a)
    then show ?thesis using ok adaptive_done_ok [of vs path x a] by (auto simp: veo_done_def veo_ok_def)
  qed
qed

section \<open>Backtracking\<close>

text \<open>
  What the search does with an order between two moments of the same level: it chooses a
  variable, descends into values, each time searching the levels below, and gives the
  variable back. The sizes it reports may differ at every step.
\<close>

inductive excursion :: "adaptive_veo \<Rightarrow> adaptive_veo \<Rightarrow> bool" and visits :: "adaptive_veo \<Rightarrow> adaptive_veo \<Rightarrow> bool" where
  stay: "excursion v v"
| level: "adaptive_next v = Some (x, v1) \<Longrightarrow> visits v1 v2 \<Longrightarrow> adaptive_done v2 = Some v3 \<Longrightarrow> excursion v3 v4 \<Longrightarrow> excursion v v4"
| no_visit: "visits v v"
| visit: "adaptive_down sizes v = Some v1 \<Longrightarrow> excursion v1 v2 \<Longrightarrow> adaptive_up v2 = Some v3 \<Longrightarrow> visits v3 v4 \<Longrightarrow> visits v v4"

text \<open>Everything but the order of the pool.\<close>

definition same_order :: "adaptive_veo \<Rightarrow> adaptive_veo \<Rightarrow> bool" where
  "same_order v v' \<longleftrightarrow> (\<exists>pool. v' = v\<lparr>av_not_bound := pool\<rparr> \<and> mset pool = mset (av_not_bound v))"

lemma same_order_refl [simp]: "same_order v v"
  unfolding same_order_def by (rule exI [of _ "av_not_bound v"]) simp

lemma same_order_trans: "same_order v1 v2 \<Longrightarrow> same_order v2 v3 \<Longrightarrow> same_order v1 v3"
  unfolding same_order_def by auto

lemma same_order_ok:
  assumes "same_order v v'" "adaptive_ok vs path b v"
  shows "adaptive_ok vs path b v'"
proof -
  obtain pool where v': "v' = v\<lparr>av_not_bound := pool\<rparr>" "mset pool = mset (av_not_bound v)" using assms(1) by (auto simp: same_order_def)
  have sel: "av_info v' = av_info v" "av_bound v' = av_bound v" "av_lonely v' = av_lonely v" "av_path v' = av_path v" "av_index v' = av_index v"
    by (simp_all add: v'(1))
  have "path_ok path v' = path_ok path v" unfolding path_ok_def var_names_def sel ..
  moreover have "placed_ok v' = placed_ok v" "versions_ok (length path) b v' = versions_ok (length path) b v"
    unfolding v'(1) by (simp_all add: placed_ok_def versions_ok_def var_names_def)
  moreover have "pool_ok v' = pool_ok v" using v'(2) unfolding v'(1) by (simp add: pool_ok_def)
  ultimately show ?thesis using assms(2) unfolding adaptive_ok_def v'(1) by (simp add: var_names_def)
qed

lemma same_order_up:
  assumes "same_order v v'" "adaptive_up v = Some w" "adaptive_up v' = Some w'"
  shows "same_order w w'"
proof -
  obtain pool where v': "v' = v\<lparr>av_not_bound := pool\<rparr>" "mset pool = mset (av_not_bound v)" using assms(1) by (auto simp: same_order_def)
  have "w' = w\<lparr>av_not_bound := pool\<rparr>" "mset pool = mset (av_not_bound w)"
    using assms(2,3) v'(2) unfolding v'(1) by (auto simp: adaptive_up_def split: if_splits)
  then show ?thesis by (auto simp: same_order_def)
qed

lemma next_done:
  assumes "adaptive_ok vs path False v" "adaptive_next v = Some (x, v1)" "same_order v1 v2" "adaptive_done v2 = Some v3"
  shows "same_order v v3"
proof -
  have idx: "av_index v = length path" "av_path v = path" and pool: "pool_ok v" using assms(1) by (simp_all add: adaptive_ok_def path_ok_def)
  obtain nb where v2: "v2 = v1\<lparr>av_not_bound := nb\<rparr>" "mset nb = mset (av_not_bound v1)" using assms(3) by (auto simp: same_order_def)
  show ?thesis
  proof (cases "length path < length (av_info v)")
    case True
    obtain best pos rest where rem: "remove_at best (av_not_bound v) = Some (pos, rest)"
      and v1: "v1 = v\<lparr>av_not_bound := rest, av_info := (av_info v)[pos := (av_info v ! pos)\<lparr>vi_bound := True\<rparr>],
        av_bound := av_bound v @ [pos], av_index := av_index v + 1, av_path := av_path v @ [x]\<rparr>"
      using assms(2) True idx(1) by (auto simp: adaptive_next_def Let_def split: option.splits)
    have "pos \<in> set (av_not_bound v)" using rem by (auto simp: remove_at_def split: if_splits)
    then have pos: "pos < length (av_info v)" "pos \<notin> set (av_bound v)" using pool_distinct [OF pool] by auto
    then have "\<not> vi_bound (av_info v ! pos)" using pool by (simp add: pool_ok_def)
    then have unbound: "(av_info v)[pos := (av_info v ! pos)\<lparr>vi_bound := False\<rparr>] = av_info v"
      using pos(1) by (intro list_update_same_conv [THEN iffD2]) simp_all
    have same: "v\<lparr>av_index := length path, av_path := path\<rparr> = v" using idx by (cases v) simp
    have "v3 = (v\<lparr>av_index := length path, av_path := path\<rparr>)\<lparr>av_not_bound := nb @ [pos]\<rparr>"
      using assms(4) True idx unbound pos(1) by (simp add: adaptive_done_def Let_def v1 v2(1))
    then have "v3 = v\<lparr>av_not_bound := nb @ [pos]\<rparr>" unfolding same .
    moreover have "mset (nb @ [pos]) = mset (av_not_bound v)" using v2(2) mset_remove_at [OF rem] by (simp add: v1)
    ultimately show ?thesis by (auto simp: same_order_def)
  next
    case False
    then have v1: "v1 = v\<lparr>av_index := av_index v + 1, av_path := av_path v @ [x]\<rparr>"
      using assms(2) idx(1) by (auto simp: adaptive_next_def)
    have same: "v\<lparr>av_index := length path, av_path := path\<rparr> = v" using idx by (cases v) simp
    have "v3 = v\<lparr>av_not_bound := nb, av_index := length path, av_path := path\<rparr>" using assms(4) False idx by (simp add: adaptive_done_def Let_def v1 v2(1))
    also have "\<dots> = (v\<lparr>av_index := length path, av_path := path\<rparr>)\<lparr>av_not_bound := nb\<rparr>" by simp
    finally have "v3 = (v\<lparr>av_index := length path, av_path := path\<rparr>)\<lparr>av_not_bound := nb\<rparr>" .
    then have "v3 = v\<lparr>av_not_bound := nb\<rparr>" unfolding same .
    then show ?thesis using v2(2) by (auto simp: same_order_def v1)
  qed
qed

lemma backtracking:
  "(excursion v v' \<longrightarrow> (\<forall>vs path. adaptive_ok vs path False v \<longrightarrow> same_order v v'))
   \<and> (visits u u' \<longrightarrow> (\<forall>vs path. adaptive_ok vs path True u \<longrightarrow> same_order u u'))"
proof (induction rule: excursion_visits.induct)
  case (level v x v1 v2 v3 v4)
  show ?case
  proof (intro allI impI)
    fix vs path assume ok: "adaptive_ok vs path False v"
    have "adaptive_ok vs (path @ [x]) True v1"
    proof -
      have "set path \<noteq> vs"
      proof
        assume full: "set path = vs"
        have "length path = card vs" using distinct_card [of path] adaptive_path [OF ok] full by simp
        then have "av_index v = length (av_info v) + length (av_lonely v)"
          using adaptive_path [OF ok] length_path_index [OF ok] by (simp add: veo_size_def)
        then show False using level.hyps(1) by (simp add: adaptive_next_def nth_opt_def)
      qed
      from adaptive_next_ok [OF ok this] level.hyps(1) show ?thesis by auto
    qed
    then have "same_order v1 v2" using level.IH(1) by blast
    from next_done [OF ok level.hyps(1) this level.hyps(3)] have "same_order v v3" .
    moreover from same_order_ok [OF this ok] have "same_order v3 v4" using level.IH(2) by blast
    ultimately show "same_order v v4" by (rule same_order_trans)
  qed
next
  case (visit sizes v v1 v2 v3 v4)
  show ?case
  proof (intro allI impI)
    fix vs path assume ok: "adaptive_ok vs path True v"
    note down = adaptive_down_ok [OF ok visit.hyps(1)]
    have "same_order v1 v2" using visit.IH(1) down by blast
    then have "same_order v v3" using same_order_up down visit.hyps(3) by blast
    moreover from same_order_ok [OF this ok] have "same_order v3 v4" using visit.IH(2) by blast
    ultimately show "same_order v v4" by (rule same_order_trans)
  qed
qed simp_all

section \<open>A new order\<close>

definition collected :: "nat \<Rightarrow> u8 list \<Rightarrow> nat option list \<times> var_info list \<times> (u8 \<times> nat \<times> nat) list \<Rightarrow> bool" where
  "collected n names st \<longleftrightarrow>
     (case st of (pos_of, info, held) \<Rightarrow>
        length pos_of = n
        \<and> mset (map vi_name info @ map fst held) = mset names
        \<and> (\<forall>(x :: u8) i. pos_get pos_of (unat x) = Some i \<longleftrightarrow> i < length info \<and> vi_name (info ! i) = x)
        \<and> (\<forall>v \<in> set info. vi_related v = [] \<and> \<not> vi_bound v))"

lemma pos_get_update: "unat (y :: u8) < length pos_of \<Longrightarrow> pos_get (pos_of[unat y := Some i]) (unat (x :: u8)) = (if x = y then Some i else pos_get pos_of (unat x))"
  by (cases "x = y") (simp_all add: pos_get_def nth_opt_def word_unat_eq_iff)

lemma collect_var_step:
  assumes "collected n names st" "name \<notin> set names" "collect_var prereq sizes (name, w, l) st = Some st'"
  shows "collected n (names @ [name]) st'"
proof -
  obtain pos_of info held where st: "st = (pos_of, info, held)" by (cases st)
  have c: "length pos_of = n" "mset (map vi_name info @ map fst held) = mset names"
    "\<And>(x :: u8) i. pos_get pos_of (unat x) = Some i \<longleftrightarrow> i < length info \<and> vi_name (info ! i) = x"
    "\<forall>v \<in> set info. vi_related v = [] \<and> \<not> vi_bound v"
    using assms(1) by (simp_all add: collected_def st)
  have fresh: "vi_name (info ! i) \<noteq> name" if "i < length info" for i
  proof -
    have "set (map vi_name info) \<subseteq> set names" using mset_eq_setD [OF c(2)] by auto
    then show ?thesis using assms(2) nth_mem [OF that] by auto
  qed
  obtain m where m: "sizes name = Some m" using assms(3) by (auto simp: collect_var_def st bind_eq_Some_conv)
  show ?thesis
  proof (cases "held_to_the_end w l")
    case True
    then have "st' = (pos_of, info, held @ [(name, min w m, w)])" using assms(3) m by (simp add: collect_var_def st)
    then show ?thesis using c by (simp add: collected_def)
  next
    case False
    then obtain v where v: "st' = (pos_of[unat name := Some (length info)], info @ [v], held)" "unat name < length pos_of"
      "vi_name v = name" "vi_related v = []" "\<not> vi_bound v"
      using assms(3) m by (auto simp: collect_var_def st Let_def split: if_splits)
    have "pos_get (pos_of[unat name := Some (length info)]) (unat x) = Some i \<longleftrightarrow> i < length (info @ [v]) \<and> vi_name ((info @ [v]) ! i) = x" for x :: u8 and i
      using c(3) [of x i] fresh v(2,3) by (auto simp: pos_get_update nth_append less_Suc_eq)
    then show ?thesis using c(1,2,4) v by (simp add: collected_def)
  qed
qed

lemma collect_vars:
  assumes "fold (\<lambda>x st. Option.bind st (collect_var prereq sizes x)) infos (Some st) = Some st'" "collected n names st" "distinct (names @ map fst infos)"
  shows "collected n (names @ map fst infos) st'"
  using assms
proof (induction infos arbitrary: names st)
  case (Cons x infos)
  have none: "fold (\<lambda>x st. Option.bind st (collect_var prereq sizes x)) infos None = None" by (induction infos) simp_all
  obtain name w l where x: "x = (name, w, l)" by (cases x)
  obtain st1 where st1: "collect_var prereq sizes x st = Some st1" using Cons.prems(1) none by (cases "collect_var prereq sizes x st") simp_all
  have "collected n (names @ [name]) st1" using collect_var_step [OF Cons.prems(2) _ st1 [unfolded x]] Cons.prems(3) x by simp
  from Cons.IH [OF _ this] show ?case using Cons.prems(1,3) st1 x by simp
qed simp

lemma distinct_dedup: "distinct (remdups_adj (sort (xs :: 'a :: linorder list)))"
proof -
  have "sorted ys \<Longrightarrow> distinct (remdups_adj ys)" for ys :: "'a list"
    by (induction ys rule: remdups_adj.induct) auto
  then show ?thesis by simp
qed

text \<open>The neighbours added to a variable are known, and each is listed once.\<close>

definition related_ok :: "nat option list \<Rightarrow> var_info list \<Rightarrow> var_info list \<Rightarrow> bool" where
  "related_ok pos_of info info' \<longleftrightarrow>
     map vi_name info' = map vi_name info \<and> map vi_bound info' = map vi_bound info
     \<and> (\<forall>v \<in> set info'. distinct (vi_related v) \<and> (\<forall>r \<in> set (vi_related v). unat r < length pos_of))"

lemma pos_get_less: "pos_get pos_of n \<noteq> None \<Longrightarrow> n < length pos_of"
  by (auto simp: pos_get_def nth_opt_def split: if_splits)

lemma relate_ok:
  assumes "related_ok pos_of info info'"
  shows "related_ok pos_of info (relate pos_of x info')"
proof -
  obtain n neighbours where x: "x = (n, neighbours)" by (cases x)
  show ?thesis
  proof (cases "pos_get pos_of n")
    case None
    then show ?thesis using assms by (simp add: relate_def x)
  next
    case (Some pos)
    define rel where "rel = remdups_adj (sort (vi_related (info' ! pos) @ filter (\<lambda>m. pos_get pos_of (unat m) \<noteq> None \<and> m \<noteq> word_of_nat n) neighbours))"
    let ?v = "(info' ! pos)\<lparr>vi_related := rel\<rparr>"
    have run: "relate pos_of x info' = info'[pos := ?v]" by (simp add: relate_def x Some rel_def)
    show ?thesis
    proof (cases "pos < length info'")
      case True
      have old: "\<forall>r \<in> set (vi_related (info' ! pos)). unat r < length pos_of" using assms nth_mem [OF True] by (simp add: related_ok_def)
      have dist: "distinct rel" unfolding rel_def by (rule distinct_dedup)
      have in_range: "\<forall>r \<in> set rel. unat r < length pos_of" using old pos_get_less [of pos_of] unfolding rel_def by auto
      have names: "map vi_name (info'[pos := ?v]) = map vi_name info'" "map vi_bound (info'[pos := ?v]) = map vi_bound info'"
        using True by (simp_all add: map_update list_update_same_conv)
      have "\<forall>v \<in> set (info'[pos := ?v]). distinct (vi_related v) \<and> (\<forall>r \<in> set (vi_related v). unat r < length pos_of)"
      proof
        fix v assume "v \<in> set (info'[pos := ?v])"
        then have "v = ?v \<or> v \<in> set info'" using set_update_subset_insert [of info' pos ?v] by blast
        then show "distinct (vi_related v) \<and> (\<forall>r \<in> set (vi_related v). unat r < length pos_of)"
          using dist in_range assms by (auto simp: related_ok_def)
      qed
      then show ?thesis using assms names by (simp add: related_ok_def run)
    next
      case False
      then show ?thesis using assms by (simp add: run list_update_beyond)
    qed
  qed
qed

lemma adaptive_new_ok:
  assumes "adaptive_new infos related prereq sizes = Some v" "distinct (map fst infos)"
  shows "adaptive_ok (set (map fst infos)) [] False v"
proof -
  obtain pos_of info held where run: "fold (\<lambda>x st. Option.bind st (collect_var prereq sizes x)) infos (Some (replicate (length related) None, [], [])) = Some (pos_of, info, held)"
    and v: "v = (let info = fold (relate pos_of) (List.enumerate 0 related) info; lonely = map fst (sort_key (\<lambda>(_, w, syn). (w, syn)) held)
         in \<lparr>av_info = info, av_lonely = lonely, av_pos_of = pos_of, av_not_bound = [0..<length info], av_bound = [],
             av_versions = [], av_path = [], av_index = 0\<rparr>)"
    using assms(1) by (auto simp: adaptive_new_def)
  have "collected (length related) [] (replicate (length related) None, [], [])"
    by (simp add: collected_def pos_get_def nth_opt_def)
  from collect_vars [OF run this] assms(2) have c: "mset (map vi_name info @ map fst held) = mset (map fst infos)"
    "\<And>(x :: u8) i. pos_get pos_of (unat x) = Some i \<longleftrightarrow> i < length info \<and> vi_name (info ! i) = x"
    "\<forall>v \<in> set info. vi_related v = [] \<and> \<not> vi_bound v"
    by (simp_all add: collected_def)
  have "related_ok pos_of info info" using c(3) by (simp add: related_ok_def)
  then have rel: "related_ok pos_of info (fold (relate pos_of) xs info)" for xs
  proof (induction xs arbitrary: info rule: rev_induct)
    case (snoc x xs)
    then show ?case using relate_ok [of pos_of info "fold (relate pos_of) xs info" x] by simp
  qed simp
  let ?info = "fold (relate pos_of) (List.enumerate 0 related) info"
  have names: "map vi_name ?info = map vi_name info" and flags: "map vi_bound ?info = map vi_bound info"
    using rel by (simp_all add: related_ok_def)
  have len: "length ?info = length info" using arg_cong [OF names, of length] by simp
  have fields: "av_info v = ?info" "av_lonely v = map fst (sort_key (\<lambda>(_, w, syn). (w, syn)) held)" "av_pos_of v = pos_of" "av_not_bound v = [0..<length ?info]"
    "av_bound v = []" "av_versions v = []" "av_path v = []" "av_index v = 0"
    by (simp_all add: v Let_def)
  have perm: "mset (var_names v @ av_lonely v) = mset (map fst infos)"
    using c(1) by (simp add: var_names_def fields names)
  have "placed_ok v"
  proof -
    have "distinct (var_names v @ av_lonely v)" using assms(2) mset_eq_imp_distinct_iff [OF perm] by simp
    moreover have "pos_get pos_of (unat x) = Some i \<longleftrightarrow> i < length ?info \<and> var_names v ! i = x" for x :: u8 and i
      using c(2) [of x i] len by (auto simp: var_names_def fields names)
    moreover have "distinct (vi_related (?info ! i)) \<and> (\<forall>r \<in> set (vi_related (?info ! i)). unat r < length pos_of)" if "i < length ?info" for i
      using rel nth_mem [OF that] unfolding related_ok_def by blast
    ultimately show ?thesis by (simp add: placed_ok_def fields)
  qed
  moreover have "pool_ok v"
  proof -
    have "\<not> vi_bound (?info ! i)" if "i < length ?info" for i
    proof -
      have "map vi_bound ?info ! i = map vi_bound info ! i" by (simp only: flags)
      then show ?thesis using that len c(3) nth_mem [of i info] by simp
    qed
    then show ?thesis by (simp add: pool_ok_def fields)
  qed
  moreover have "path_ok [] v" "versions_ok 0 False v" by (simp_all add: path_ok_def versions_ok_def fields)
  moreover have "set (map fst infos) = set (var_names v @ av_lonely v)" using mset_eq_setD [OF perm] by simp
  ultimately show ?thesis unfolding adaptive_ok_def by simp
qed

text \<open>Building an order does not panic where every variable has a size and a place.\<close>

lemma adaptive_new_total:
  assumes "\<And>x w l. (x, w, l) \<in> set infos \<Longrightarrow> sizes x \<noteq> None \<and> unat x < length related"
  shows "adaptive_new infos related prereq sizes \<noteq> None"
proof -
  have "fold (\<lambda>x st. Option.bind st (collect_var prereq sizes x)) xs (Some (pos_of, info, held)) \<noteq> None"
    if "set xs \<subseteq> set infos" "length pos_of = length related" for xs pos_of info held
    using that
  proof (induction xs arbitrary: pos_of info held)
    case (Cons x xs)
    obtain name w l where x: "x = (name, w, l)" by (cases x)
    have "sizes name \<noteq> None" "unat name < length related" using assms [of name w l] Cons.prems(1) x by auto
    then obtain pos_of' info' held' where "collect_var prereq sizes x (pos_of, info, held) = Some (pos_of', info', held')" "length pos_of' = length related"
      using Cons.prems(2) by (cases "held_to_the_end w l") (auto simp: collect_var_def x Let_def)
    then show ?case using Cons.IH Cons.prems(1) by simp
  qed simp
  from this [of infos "replicate (length related) None" "[]" "[]"] show ?thesis by (simp add: adaptive_new_def)
qed

end
