(* ===== verification/Budgets.thy ===== *)
theory Budgets
  imports Prelude
begin

text \<open>
  The budget a search consults (\<open>src/runtime/budget.rs\<close>). The clock and the cancel flag belong to
  the environment: a call gets the reading \<open>(now, raised)\<close> it would make.
\<close>

definition STRIDE :: nat where
  "STRIDE = 4096"

text \<open>\<open>bu_cancel\<close>: a cancel flag is registered.\<close>

record budget =
  bu_deadline :: "nat option"
  bu_cancel :: bool
  bu_countdown :: nat
  bu_tripped :: bool

definition unlimited :: budget where
  "unlimited = \<lparr>bu_deadline = None, bu_cancel = False, bu_countdown = STRIDE, bu_tripped = False\<rparr>"

definition set_cancel_flag :: "bool \<Rightarrow> budget \<Rightarrow> budget" where
  "set_cancel_flag registered b = b\<lparr>bu_cancel := registered\<rparr>"

definition cancelled :: "budget \<Rightarrow> bool \<Rightarrow> bool" where
  "cancelled b raised \<longleftrightarrow> bu_cancel b \<and> raised"

definition arm :: "nat option \<Rightarrow> nat \<Rightarrow> budget \<Rightarrow> budget" where
  "arm limit now b = b\<lparr>bu_deadline := map_option (\<lambda>d. now + d) limit, bu_countdown := STRIDE, bu_tripped := False\<rparr>"

definition restart :: "nat option \<Rightarrow> nat \<Rightarrow> budget \<Rightarrow> budget" where
  "restart = arm"

definition expired :: "nat \<times> bool \<Rightarrow> budget \<Rightarrow> bool \<times> budget" where
  "expired reading b =
     (if bu_tripped b then (True, b)
      else if bu_deadline b = None \<and> \<not> bu_cancel b then (False, b)
      else if 0 < bu_countdown b then (False, b\<lparr>bu_countdown := bu_countdown b - 1\<rparr>)
      else
        let b = b\<lparr>bu_countdown := STRIDE\<rparr>;
            out_of_time = (case bu_deadline b of Some d \<Rightarrow> d \<le> fst reading | None \<Rightarrow> False)
        in if out_of_time \<or> cancelled b (snd reading) then (True, b\<lparr>bu_tripped := True\<rparr>) else (False, b))"

section \<open>Repeated asks\<close>

text \<open>The verdict after a list of asks with their readings, and the first one that says stop.\<close>

fun asks :: "(nat \<times> bool) list \<Rightarrow> budget \<Rightarrow> bool list \<times> budget" where
  "asks [] b = ([], b)"
| "asks (r # rs) b = (let (e, b) = expired r b; (es, b) = asks rs b in (e # es, b))"

definition unarmed :: "budget \<Rightarrow> bool" where
  "unarmed b \<longleftrightarrow> bu_deadline b = None \<and> \<not> bu_cancel b \<and> \<not> bu_tripped b"

lemma expired_unarmed [simp]: "unarmed b \<Longrightarrow> expired r b = (False, b)"
  by (simp add: unarmed_def expired_def)

lemma unarmed_unlimited [simp]: "unarmed unlimited"
  by (simp add: unarmed_def unlimited_def)

lemma expired_tripped: "bu_tripped (snd (expired r b)) = fst (expired r b)"
  by (auto simp: expired_def Let_def)

lemma expired_sticky: "bu_tripped b \<Longrightarrow> expired r b = (True, b)"
  by (simp add: expired_def)

lemma asks_tripped: "bu_tripped b \<Longrightarrow> asks rs b = (replicate (length rs) True, b)"
  by (induction rs) (simp_all add: expired_sticky)

lemma asks_countdown:
  assumes "\<not> bu_tripped b" "bu_deadline b \<noteq> None \<or> bu_cancel b" "length rs \<le> bu_countdown b"
  shows "asks rs b = (replicate (length rs) False, b\<lparr>bu_countdown := bu_countdown b - length rs\<rparr>)"
  using assms
proof (induction rs arbitrary: b)
  case (Cons r rs)
  have "expired r b = (False, b\<lparr>bu_countdown := bu_countdown b - 1\<rparr>)" using Cons.prems by (auto simp: expired_def)
  moreover have "asks rs (b\<lparr>bu_countdown := bu_countdown b - 1\<rparr>)
      = (replicate (length rs) False, b\<lparr>bu_countdown := bu_countdown b - 1 - length rs\<rparr>)"
    using Cons.prems Cons.IH [of "b\<lparr>bu_countdown := bu_countdown b - 1\<rparr>"] by simp
  ultimately show ?case by simp
qed simp

lemma asks_append: "asks (rs @ ss) b = (let (es, b) = asks rs b; (fs, b) = asks ss b in (es @ fs, b))"
  by (induction rs arbitrary: b) (simp_all add: split_def Let_def)

text \<open>\<open>STRIDE\<close> asks are free; the next one reads the clock and the flag.\<close>

lemma stride_of_asks:
  assumes "\<not> bu_tripped b" "bu_deadline b \<noteq> None \<or> bu_cancel b" "bu_countdown b = STRIDE" "length rs = STRIDE"
  shows "asks (rs @ [r]) b =
    (let stop = (\<exists>d. bu_deadline b = Some d \<and> d \<le> fst r) \<or> (bu_cancel b \<and> snd r)
     in (replicate STRIDE False @ [stop], b\<lparr>bu_tripped := stop\<rparr>))"
proof -
  have "asks rs b = (replicate STRIDE False, b\<lparr>bu_countdown := 0\<rparr>)"
    using asks_countdown [OF assms(1,2), of rs] assms(3,4) by simp
  moreover have "expired r (b\<lparr>bu_countdown := 0\<rparr>) =
      (let stop = (\<exists>d. bu_deadline b = Some d \<and> d \<le> fst r) \<or> (bu_cancel b \<and> snd r) in (stop, b\<lparr>bu_tripped := stop\<rparr>))"
    using assms(1-3) by (cases b) (auto simp: expired_def cancelled_def Let_def split: option.split)
  ultimately show ?thesis by (simp add: asks_append Let_def)
qed

end
