(* ===== verification/LeapSearch.thy ===== *)
theory LeapSearch
  imports LtjIterators AdaptiveVeos Budgets
begin

text \<open>
  The leapfrog trie join (\<open>src/runtime/ltj/algorithm.rs\<close>): the leapfrog intersection of the
  iterators of a variable, the search that binds one variable per level, the filters placed
  in it, and the edges it emits once every variable is bound. Searches by vector distance are
  left out: the search is the one with no vector context.
\<close>

section \<open>What the search is given\<close>

datatype filter_kind =
    NodeLabel u8 string
  | NodeProperty u8 string
  | NodeAttrCmp u8 string binop val
  | NodeInSet u8 "u32 list"

record placed_filter =
  pf_eval_at_level :: nat
  pf_kind :: filter_kind

datatype edge_dir_req = DirectedReq | UndirectedReq | AnyReq

datatype edge_label_req = PinnedReq | PinnedPartialReq label_type | FreeReq label_type u8

record result_tuple =
  res_vars :: "(u8 \<times> u32) list"
  res_eids :: "u32 list"

text \<open>A graph that also tells whether an edge is directed.\<close>

record join_graph = graph_access +
  ga_is_directed :: "u32 \<Rightarrow> bool"

text \<open>The fields of the algorithm the search only reads.\<close>

record ltj_plan =
  lp_var_to_iterators :: "nat list list"
  lp_var_to_positions :: "spo_pos list list"
  lp_filters_at_level :: "placed_filter list list"
  lp_num_vars :: nat
  lp_pinned :: "(u8 \<times> u32) list"
  lp_filters_dyn :: "(u8 list \<times> filter_kind) list"
  lp_triple_dir :: "edge_dir_req list"
  lp_triple_label :: "edge_label_req list"
  lp_label_dict :: "label_dict option"

text \<open>What it changes; \<open>ss_asks\<close> counts the times the budget was asked.\<close>

record search_state =
  ss_iterators :: "ltj_iter list"
  ss_veo :: veo
  ss_visits :: nat
  ss_tuple :: "(u8 \<times> u32) list"
  ss_results :: "result_tuple list"
  ss_budget :: budget
  ss_asks :: nat

section \<open>Combinations\<close>

text \<open>One entry per list, counted in the mixed radix of the lengths.\<close>

primrec combo :: "u32 list list \<Rightarrow> nat \<Rightarrow> u32 list" where
  "combo [] k = []"
| "combo (xs # xss) k = xs ! (k mod length xs) # combo xss (k div length xs)"

definition combo_total :: "u32 list list \<Rightarrow> nat" where
  "combo_total xss = (if xss = [] then 1 else if 0 \<in> length ` set xss then 0 else prod_list (map length xss))"

definition cartesian :: "u32 list list \<Rightarrow> u32 list list" where
  "cartesian xss = map (combo xss) [0..<combo_total xss]"

section \<open>Requirements on edges\<close>

definition dir_admits :: "join_graph \<Rightarrow> edge_dir_req \<Rightarrow> u32 \<Rightarrow> bool" where
  "dir_admits A req e =
     (case req of AnyReq \<Rightarrow> True | DirectedReq \<Rightarrow> ga_is_directed A e | UndirectedReq \<Rightarrow> \<not> ga_is_directed A e)"

definition free_label_admits :: "join_graph \<Rightarrow> label_dict option \<Rightarrow> label_type \<Rightarrow> u32 \<Rightarrow> u32 \<Rightarrow> bool" where
  "free_label_admits A dict want e p =
     (let actual = ga_edge_labels A e
      in if \<not> label_subtype actual want then False
         else (case dict of
                 None \<Rightarrow> True
               | Some d \<Rightarrow>
                   let names = required_labels actual;
                       canonical = (if names = [] then map_of (ld_ids d) []
                         else let ids = List.map_filter (map_of (ld_ids d)) names in if ids = [] then None else Some (Min (set ids)))
                   in (case canonical of Some c \<Rightarrow> c = p | None \<Rightarrow> True)))"

text \<open>The first slot of a tuple that names a variable.\<close>

definition find_var :: "(u8 \<times> u32) list \<Rightarrow> u8 \<Rightarrow> u32 option" where
  "find_var tuple v = map_option snd (List.find (\<lambda>(w, _). w = v) tuple)"

definition label_admits :: "join_graph \<Rightarrow> label_dict option \<Rightarrow> (u8 \<Rightarrow> u32 option) \<Rightarrow> edge_label_req option \<Rightarrow> u32 \<Rightarrow> bool" where
  "label_admits A dict binding req e =
     (case req of
        Some (PinnedPartialReq l) \<Rightarrow> label_subtype (ga_edge_labels A e) l
      | Some (FreeReq l p_var) \<Rightarrow> (case binding p_var of Some p \<Rightarrow> free_label_admits A dict l e p | None \<Rightarrow> True)
      | _ \<Rightarrow> True)"

definition edge_admits :: "join_graph \<Rightarrow> ltj_plan \<Rightarrow> (u8 \<Rightarrow> u32 option) \<Rightarrow> nat \<Rightarrow> u32 \<Rightarrow> bool" where
  "edge_admits A plan binding i e \<longleftrightarrow>
     (case nth_opt (lp_triple_dir plan) i of Some req \<Rightarrow> dir_admits A req e | None \<Rightarrow> True)
     \<and> label_admits A (lp_label_dict plan) binding (nth_opt (lp_triple_label plan) i) e"

section \<open>Filters\<close>

definition filter_var :: "filter_kind \<Rightarrow> u8" where
  "filter_var f = (case f of NodeLabel v _ \<Rightarrow> v | NodeProperty v _ \<Rightarrow> v | NodeAttrCmp v _ _ _ \<Rightarrow> v | NodeInSet v _ \<Rightarrow> v)"

text \<open>The set of a \<open>NodeInSet\<close> is sorted, and searched by bisection.\<close>

definition filter_holds :: "join_graph \<Rightarrow> filter_kind \<Rightarrow> u32 \<Rightarrow> bool" where
  "filter_holds A f n =
     (case f of
        NodeLabel _ l \<Rightarrow> label_subtype (ga_node_labels A n) (LLabel l)
      | NodeProperty _ k \<Rightarrow> map_of (ga_node_props A n) k \<noteq> None
      | NodeAttrCmp _ k op w \<Rightarrow> (case map_of (ga_node_props A n) k of Some u \<Rightarrow> cmp_values u op w | None \<Rightarrow> False)
      | NodeInSet _ ns \<Rightarrow> n \<in> set ns)"

definition eval_filter :: "join_graph \<Rightarrow> filter_kind \<Rightarrow> (u8 \<times> u32) list \<Rightarrow> bool" where
  "eval_filter A f tuple = (case find_var tuple (filter_var f) of Some n \<Rightarrow> filter_holds A f n | None \<Rightarrow> True)"

definition is_bound_at :: "ltj_plan \<Rightarrow> u8 \<Rightarrow> nat \<Rightarrow> (u8 \<times> u32) list \<Rightarrow> bool" where
  "is_bound_at plan v j tuple \<longleftrightarrow> v \<in> fst ` set (take (Suc j) tuple) \<or> v \<in> fst ` set (lp_pinned plan)"

definition check_filters_dyn :: "join_graph \<Rightarrow> ltj_plan \<Rightarrow> nat \<Rightarrow> (u8 \<times> u32) list \<Rightarrow> bool" where
  "check_filters_dyn A plan j tuple =
     (let var = fst (tuple ! j)
      in list_all (\<lambda>(deps, kind).
           let due = (if deps = [] then j = 0 else var \<in> set deps \<and> list_all (\<lambda>d. is_bound_at plan d j tuple) deps)
           in due \<longrightarrow> eval_filter A kind tuple) (lp_filters_dyn plan))"

definition check_filters :: "join_graph \<Rightarrow> ltj_plan \<Rightarrow> veo \<Rightarrow> nat \<Rightarrow> (u8 \<times> u32) list \<Rightarrow> bool" where
  "check_filters A plan veo j tuple =
     (if is_adaptive veo then check_filters_dyn A plan j tuple
      else if length (lp_filters_at_level plan) \<le> j then True
      else list_all (\<lambda>f. eval_filter A (pf_kind f) tuple) (lp_filters_at_level plan ! j))"

section \<open>The iterators of a variable\<close>

text \<open>The iterators that hold a variable, each with its position; \<open>None\<close> is an index out of bounds.\<close>

definition occurrences :: "ltj_plan \<Rightarrow> u8 \<Rightarrow> (nat \<times> spo_pos) list option" where
  "occurrences plan v =
     Option.bind (nth_opt (lp_var_to_iterators plan) (unat v)) (\<lambda>iters.
       Option.bind (nth_opt (lp_var_to_positions plan) (unat v)) (\<lambda>positions.
         if length iters \<le> length positions then Some (zip iters positions) else None))"

definition min_size :: "ltj_plan \<Rightarrow> ltj_iter list \<Rightarrow> u8 \<Rightarrow> nat option" where
  "min_size plan its v =
     Option.bind (occurrences plan v) (\<lambda>occ.
       fold (\<lambda>(k, p) m. Option.bind m (\<lambda>m. Option.bind (nth_opt its k) (\<lambda>it.
           map_option (\<lambda>w. if w < m then w else m) (ltj_subtree_size it p)))) occ (Some usize_max))"

fun down_all :: "(nat \<times> spo_pos) list \<Rightarrow> u32 \<Rightarrow> ltj_iter list \<Rightarrow> ltj_iter list option" where
  "down_all [] v its = Some its"
| "down_all ((k, p) # occ) v its =
     Option.bind (nth_opt its k) (\<lambda>it. Option.bind (ltj_down it p v) (\<lambda>it. down_all occ v (its[k := it])))"

fun up_all :: "(nat \<times> spo_pos) list \<Rightarrow> ltj_iter list \<Rightarrow> ltj_iter list option" where
  "up_all [] its = Some its"
| "up_all ((k, p) # occ) its = Option.bind (nth_opt its k) (\<lambda>it. up_all occ (its[k := ltj_up it p]))"

text \<open>
  The leapfrog: ask the iterators in turn for a value from the last answer on, until all
  agree. A loop that does not end is \<open>None\<close>, and so is an iterator that panics.
\<close>

type_synonym leap_fun = "u32 \<Rightarrow> u32 option option"

partial_function (option) leapfrog :: "leap_fun list \<Rightarrow> nat \<Rightarrow> u32 \<Rightarrow> nat \<Rightarrow> u32 option \<Rightarrow> u32 option option" where
  "leapfrog leaps i c n_ok prev =
     Option.bind ((leaps ! i) c) (\<lambda>r.
       case r of
         None \<Rightarrow> Some None
       | Some val \<Rightarrow>
           let n_ok = (if Some val = prev then n_ok + 1 else 1)
           in if length leaps \<le> n_ok then Some (Some val)
              else leapfrog leaps ((i + 1) mod length leaps) val n_ok (Some val))"

definition leap_at :: "ltj_iter list \<Rightarrow> nat \<times> spo_pos \<Rightarrow> leap_fun" where
  "leap_at its kp c = Option.bind (nth_opt its (fst kp)) (\<lambda>it. ltj_leap it (snd kp) c)"

definition seek :: "(nat \<times> spo_pos) list \<Rightarrow> ltj_iter list \<Rightarrow> u32 option \<Rightarrow> u32 option option" where
  "seek occ its c =
     (case occ of
        [] \<Rightarrow> Some None
      | [kp] \<Rightarrow> leap_at its kp (case c of Some cv \<Rightarrow> cv | None \<Rightarrow> 0)
      | _ \<Rightarrow> leapfrog (map (leap_at its) occ) 0 (case c of Some cv \<Rightarrow> cv | None \<Rightarrow> 0) 0 None)"

section \<open>The search\<close>

type_synonym search_result = "(bool \<times> search_state) option"
type_synonym readings = "nat \<Rightarrow> nat \<times> bool"

definition ask :: "readings \<Rightarrow> search_state \<Rightarrow> bool \<times> search_state" where
  "ask env st =
     (case expired (env (ss_asks st)) (ss_budget st) of
        (e, b) \<Rightarrow> (e, st\<lparr>ss_budget := b, ss_asks := ss_asks st + 1\<rparr>))"

text \<open>The edges of every triple; \<open>Some None\<close> when one has none left.\<close>

fun eid_lists :: "join_graph \<Rightarrow> ltj_plan \<Rightarrow> (u8 \<Rightarrow> u32 option) \<Rightarrow> nat \<Rightarrow> ltj_iter list \<Rightarrow> u32 list list option option" where
  "eid_lists A plan binding i [] = Some (Some [])"
| "eid_lists A plan binding i (it # its) =
     Option.bind (ltj_eids_all it) (\<lambda>eids.
       let eids = filter (edge_admits A plan binding i) eids
       in if eids = [] then Some None
          else map_option (map_option (\<lambda>rest. eids # rest)) (eid_lists A plan binding (Suc i) its))"

fun emit :: "nat \<Rightarrow> (u8 \<times> u32) list \<Rightarrow> u32 list list \<Rightarrow> result_tuple list \<Rightarrow> bool \<times> result_tuple list" where
  "emit limit vars [] results = (True, results)"
| "emit limit vars (c # cs) results =
     (let results = results @ [\<lparr>res_vars = vars, res_eids = c\<rparr>]
      in if 0 < limit \<and> limit \<le> length results then (False, results) else emit limit vars cs results)"

definition base_case :: "join_graph \<Rightarrow> ltj_plan \<Rightarrow> nat \<Rightarrow> search_state \<Rightarrow> search_result" where
  "base_case A plan limit st =
     (if length (ss_tuple st) < lp_num_vars plan then None
      else
        let vars = take (lp_num_vars plan) (ss_tuple st)
        in map_option (\<lambda>r.
             case r of
               None \<Rightarrow> (True, st)
             | Some per_triple \<Rightarrow>
                 let (ok, results) = emit limit vars (cartesian per_triple) (ss_results st)
                 in (ok, st\<lparr>ss_results := results\<rparr>))
             (eid_lists A plan (find_var vars) 0 (ss_iterators st)))"

text \<open>Binding one candidate, and searching below it.\<close>

definition visit ::
    "join_graph \<Rightarrow> ltj_plan \<Rightarrow> (nat \<Rightarrow> search_state \<Rightarrow> search_result) \<Rightarrow> nat \<Rightarrow> u8 \<Rightarrow> (nat \<times> spo_pos) list \<Rightarrow> u32 \<Rightarrow> search_state \<Rightarrow> search_result" where
  "visit A plan rec j var occ val st =
     (if length (ss_tuple st) \<le> j then None
      else
        let st = st\<lparr>ss_tuple := (ss_tuple st)[j := (var, val)]\<rparr>
        in if \<not> check_filters A plan (ss_veo st) j (ss_tuple st) then Some (True, st)
           else
             Option.bind (down_all occ val (ss_iterators st)) (\<lambda>its.
             Option.bind (veo_down (min_size plan its) (ss_veo st)) (\<lambda>veo.
             Option.bind (rec (j + 1) (st\<lparr>ss_iterators := its, ss_veo := veo, ss_visits := ss_visits st + 1\<rparr>)) (\<lambda>(ok, st).
             Option.bind (veo_up (ss_veo st)) (\<lambda>veo.
             Option.bind (up_all occ (ss_iterators st)) (\<lambda>its.
             Some (ok, st\<lparr>ss_veo := veo, ss_iterators := its\<rparr>)))))))"

primrec visit_all :: "(u32 \<Rightarrow> search_state \<Rightarrow> search_result) \<Rightarrow> u32 list \<Rightarrow> search_state \<Rightarrow> search_result" where
  "visit_all step [] st = Some (True, st)"
| "visit_all step (v # vs) st =
     Option.bind (step v st) (\<lambda>(ok, st). if ok then visit_all step vs st else Some (False, st))"

text \<open>The next value is sought from \<open>val + 1\<close>; past the last value the addition overflows.\<close>

partial_function (option) leap_loop ::
    "(u32 \<Rightarrow> search_state \<Rightarrow> search_result) \<Rightarrow> (nat \<times> spo_pos) list \<Rightarrow> u32 option \<Rightarrow> search_state \<Rightarrow> search_result" where
  "leap_loop step occ c st =
     (case c of
        None \<Rightarrow> Some (True, st)
      | Some val \<Rightarrow>
          Option.bind (step val st) (\<lambda>(ok, st).
            if \<not> ok then Some (False, st)
            else if val = - 1 then None
            else Option.bind (seek occ (ss_iterators st) (Some (val + 1))) (\<lambda>c. leap_loop step occ c st)))"

definition search_level ::
    "join_graph \<Rightarrow> ltj_plan \<Rightarrow> (nat \<Rightarrow> search_state \<Rightarrow> search_result) \<Rightarrow> nat \<Rightarrow> u8 \<Rightarrow> search_state \<Rightarrow> search_result" where
  "search_level A plan rec j var st =
     Option.bind (occurrences plan var) (\<lambda>occ.
       let loop = Option.bind (seek occ (ss_iterators st) None) (\<lambda>c. leap_loop (visit A plan rec j var occ) occ c st)
       in case occ of
            [(k, p)] \<Rightarrow>
              Option.bind (nth_opt (ss_iterators st) k) (\<lambda>it.
                if ltj_in_last_level it
                then Option.bind (ltj_seek_all it p) (\<lambda>vals. visit_all (visit A plan rec j var occ) vals st)
                else loop)
          | _ \<Rightarrow> loop)"

definition search_step ::
    "join_graph \<Rightarrow> ltj_plan \<Rightarrow> nat \<Rightarrow> readings \<Rightarrow> (nat \<Rightarrow> search_state \<Rightarrow> search_result) \<Rightarrow> nat \<Rightarrow> search_state \<Rightarrow> search_result" where
  "search_step A plan limit env rec j st =
     (if 0 < limit \<and> limit \<le> length (ss_results st) then Some (False, st)
      else case ask env st of (e, st) \<Rightarrow>
        if e then Some (False, st)
        else if veo_size (ss_veo st) \<le> j then base_case A plan limit st
        else
          Option.bind (veo_next (ss_veo st) j) (\<lambda>(var, veo).
            Option.bind (search_level A plan rec j var (st\<lparr>ss_veo := veo\<rparr>)) (\<lambda>(ok, st).
              map_option (\<lambda>veo. (ok, st\<lparr>ss_veo := veo\<rparr>)) (veo_done (ss_veo st)))))"

text \<open>The recursion is at most one level per variable; the fuel is the levels left.\<close>

primrec search :: "nat \<Rightarrow> join_graph \<Rightarrow> ltj_plan \<Rightarrow> nat \<Rightarrow> readings \<Rightarrow> nat \<Rightarrow> search_state \<Rightarrow> search_result" where
  "search 0 A plan limit env = search_step A plan limit env (\<lambda>_ _. None)"
| "search (Suc n) A plan limit env = search_step A plan limit env (search n A plan limit env)"

definition fresh_tuple :: "ltj_plan \<Rightarrow> veo \<Rightarrow> (u8 \<times> u32) list" where
  "fresh_tuple plan veo =
     fold (\<lambda>(i, b) tuple. let slot = veo_size veo + i in if slot < length tuple then tuple[slot := b] else tuple)
       (List.enumerate 0 (lp_pinned plan)) (replicate (lp_num_vars plan) (0, 0))"

definition run_join :: "join_graph \<Rightarrow> ltj_plan \<Rightarrow> ltj_iter list \<Rightarrow> veo \<Rightarrow> nat \<Rightarrow> budget \<Rightarrow> readings \<Rightarrow> (result_tuple list \<times> search_state) option" where
  "run_join A plan its veo limit b env =
     map_option (\<lambda>(_, st). (ss_results st, st))
       (search (veo_size veo) A plan limit env 0
         \<lparr>ss_iterators = its, ss_veo = veo, ss_visits = 0, ss_tuple = fresh_tuple plan veo, ss_results = [], ss_budget = b, ss_asks = 0\<rparr>)"

end
