(* ===== verification/Leapfrogs.thy ===== *)
theory Leapfrogs
  imports LeapSearch
begin

text \<open>
  The leapfrog answers the least common value of its iterators, and the combinations of the
  base case hold every choice of one edge per triple as often as the edges occur.
\<close>

section \<open>Combinations\<close>

text \<open>The number of ways to pick a list, one entry from each multiset.\<close>

fun picks :: "'a multiset list \<Rightarrow> 'a list \<Rightarrow> nat" where
  "picks [] [] = 1"
| "picks (M # Ms) (x # xs) = count M x * picks Ms xs"
| "picks _ _ = 0"

lemma picks_empty: "{#} \<in> set Ms \<Longrightarrow> picks Ms xs = 0"
  by (induction Ms xs rule: picks.induct) auto

lemma upt_mult: "[0..<n * m] = concat (map (\<lambda>q. map (\<lambda>r. q * n + r) [0..<n]) [0..<m])"
proof (induction m)
  case (Suc m)
  have "[0..<n * Suc m] = [0..<n * m] @ [n * m..<n * m + n]" using upt_add_eq_append [of 0 "n * m" n] by (simp add: add.commute)
  also have "[n * m..<n * m + n] = map (\<lambda>r. m * n + r) [0..<n]" using map_add_upt [of "n * m" n] by (simp add: add.commute mult.commute)
  finally show ?case using Suc by simp
qed simp

lemma combos_split:
  assumes "0 < length xs"
  shows "map (combo (xs # xss)) [0..<length xs * m] = concat (map (\<lambda>q. map (\<lambda>x. x # combo xss q) xs) [0..<m])"
proof -
  have "map (combo (xs # xss)) [0..<length xs * m]
      = concat (map (\<lambda>q. map (\<lambda>r. combo (xs # xss) (q * length xs + r)) [0..<length xs]) [0..<m])"
    unfolding upt_mult map_concat map_map comp_def ..
  also have "\<dots> = concat (map (\<lambda>q. map (\<lambda>x. x # combo xss q) xs) [0..<m])"
  proof (rule arg_cong [of _ _ concat], rule map_cong [OF refl])
    fix q
    have "map (\<lambda>r. combo (xs # xss) (q * length xs + r)) [0..<length xs] = map (\<lambda>r. xs ! r # combo xss q) [0..<length xs]"
      using assms by (intro map_cong) (simp_all add: div_add1_eq)
    also have "\<dots> = map (\<lambda>x. x # combo xss q) (map ((!) xs) [0..<length xs])" by simp
    finally show "map (\<lambda>r. combo (xs # xss) (q * length xs + r)) [0..<length xs] = map (\<lambda>x. x # combo xss q) xs"
      unfolding map_nth .
  qed
  finally show ?thesis .
qed

lemma count_fan_out:
  "count (mset (concat (map (\<lambda>q. map (\<lambda>x. x # f q) xs) qs))) ys
    = (case ys of [] \<Rightarrow> 0 | y # zs \<Rightarrow> count (mset xs) y * count (mset (map f qs)) zs)"
proof -
  have one: "count (mset (map (\<lambda>x. x # c) xs)) ys = (case ys of [] \<Rightarrow> 0 | y # zs \<Rightarrow> if zs = c then count (mset xs) y else 0)" for c
    by (induction xs) (auto split: list.splits)
  show ?thesis
    by (induction qs) (auto simp: one [simplified] split: list.splits)
qed

lemma combo_total_Cons: "combo_total (xs # xss) = length xs * combo_total xss"
  by (cases xss) (auto simp: combo_total_def)

theorem count_cartesian: "count (mset (cartesian xss)) ys = picks (map mset xss) ys"
proof (induction xss arbitrary: ys)
  case Nil
  show ?case by (cases ys) (simp_all add: cartesian_def combo_total_def)
next
  case (Cons xs xss)
  show ?case
  proof (cases "xs = []")
    case True
    then show ?thesis using picks_empty [of "map mset (xs # xss)"] by (simp add: cartesian_def combo_total_Cons)
  next
    case False
    then have "cartesian (xs # xss) = concat (map (\<lambda>q. map (\<lambda>x. x # combo xss q) xs) [0..<combo_total xss])"
      unfolding cartesian_def combo_total_Cons by (intro combos_split) simp
    then have "count (mset (cartesian (xs # xss))) ys
        = (case ys of [] \<Rightarrow> 0 | y # zs \<Rightarrow> count (mset xs) y * count (mset (cartesian xss)) zs)"
      unfolding cartesian_def by (simp only: count_fan_out)
    then show ?thesis using Cons.IH by (cases ys) simp_all
  qed
qed

lemma emit_all: "emit 0 vars cs rs = (True, rs @ map (\<lambda>c. \<lparr>res_vars = vars, res_eids = c\<rparr>) cs)"
  by (induction cs arbitrary: rs) (simp_all add: Let_def)

section \<open>The leapfrog\<close>

lemma pred_mod:
  fixes i n d k :: nat
  assumes "i < n" "d < n"
  shows "((i + 1) mod n + n - (d + 1)) mod n = (i + n - d) mod n"
proof (cases "i + 1 < n")
  case True
  then show ?thesis by (simp add: Suc_diff_le)
next
  case False
  then have "i = n - 1" using assms by simp
  then show ?thesis using assms by (simp add: mod_if)
qed

lemma pred_surj:
  fixes i n k :: nat
  assumes "i < n" "k < n"
  shows "\<exists>d. 1 \<le> d \<and> d \<le> n \<and> (i + n - d) mod n = k"
proof (cases "k < i")
  case True
  then have "1 \<le> i - k" "i - k \<le> n" "i + n - (i - k) = n + k" using assms by simp_all
  then show ?thesis using assms(2) by (intro exI [of _ "i - k"]) simp
next
  case False
  then have "1 \<le> i + n - k" "i + n - k \<le> n" "i + n - (i + n - k) = k" using assms by arith+
  then show ?thesis using assms(2) by (intro exI [of _ "i + n - k"]) simp
qed

text \<open>
  The last \<open>n_ok\<close> iterators hold \<open>c\<close>. Each round raises the bound or adds one to the
  iterators that agree, so the loop ends.
\<close>

lemma leapfrog_from:
  fixes c :: u32
  assumes "i < length leaps" "n_ok < length leaps" "2 \<le> length leaps"
    and "length Vs = length leaps" "\<And>k c. k < length leaps \<Longrightarrow> (leaps ! k) c = Some (least_from c (Vs ! k))" "\<And>V. V \<in> set Vs \<Longrightarrow> finite V"
    and "prev = (if n_ok = 0 then None else Some c)" "\<And>d. 1 \<le> d \<Longrightarrow> d \<le> n_ok \<Longrightarrow> c \<in> Vs ! ((i + length leaps - d) mod length leaps)"
  shows "leapfrog leaps i c n_ok prev = Some (least_from c (\<Inter> (set Vs)))"
  using assms(1,2,7,8)
proof (induction "(2 ^ 32 - unat c) * (length leaps + 1) + (length leaps - n_ok)" arbitrary: i c n_ok prev rule: less_induct)
  case less
  let ?n = "length leaps"
  have i: "Vs ! i \<in> set Vs" "finite (Vs ! i)" using less.prems(1) assms(4,6) by auto
  show ?case
  proof (cases "least_from c (Vs ! i)")
    case None
    then have "least_from c (\<Inter> (set Vs)) = None" using i(1) by auto
    then show ?thesis using None assms(5) [OF less.prems(1)] by (simp add: leapfrog.simps del: least_from_None)
  next
    case (Some val)
    then have val: "val \<in> Vs ! i" "c \<le> val" "\<forall>w \<in> Vs ! i. c \<le> w \<longrightarrow> val \<le> w" using least_from_Some [OF i(2)] by simp_all
    have same: "least_from c (\<Inter> (set Vs)) = least_from val (\<Inter> (set Vs))"
    proof -
      have "{w \<in> \<Inter> (set Vs). c \<le> w} = {w \<in> \<Inter> (set Vs). val \<le> w}" using val i(1) by auto
      moreover have "(\<exists>w \<in> \<Inter> (set Vs). c \<le> w) = (\<exists>w \<in> \<Inter> (set Vs). val \<le> w)"
        using val i(1) by (meson InterE order.trans)
      ultimately show ?thesis by (simp only: least_from_def)
    qed
    define m where "m = (if Some val = prev then n_ok + 1 else 1)"
    have step: "leapfrog leaps i c n_ok prev = (if ?n \<le> m then Some (Some val) else leapfrog leaps ((i + 1) mod ?n) val m (Some val))"
      using assms(5) [OF less.prems(1)] Some by (subst leapfrog.simps) (simp add: m_def Let_def)
    have held: "val \<in> Vs ! (((i + 1) mod ?n + ?n - d) mod ?n)" if d: "1 \<le> d" "d \<le> m" for d
    proof -
      obtain e where e: "d = e + 1" using d(1) by (metis add.commute le_Suc_ex plus_1_eq_Suc)
      have "e < ?n" using d(2) e less.prems(2) assms(3) by (auto simp: m_def split: if_splits)
      from pred_mod [OF less.prems(1) this] have idx: "((i + 1) mod ?n + ?n - d) mod ?n = (i + ?n - e) mod ?n" by (simp only: e)
      show ?thesis
      proof (cases e)
        case 0
        then show ?thesis using val(1) less.prems(1) unfolding idx by simp
      next
        case (Suc f)
        then have prev: "prev = Some val" and "1 \<le> e" "e \<le> n_ok" using d(2) e by (auto simp: m_def split: if_splits)
        then have "c = val" using less.prems(3) by (auto split: if_splits)
        then show ?thesis using less.prems(4) [OF \<open>1 \<le> e\<close> \<open>e \<le> n_ok\<close>] unfolding idx by simp
      qed
    qed
    have nxt: "(i + 1) mod ?n < ?n" by (rule mod_less_divisor) (use assms(3) in linarith)
    show ?thesis
    proof (cases "?n \<le> m")
      case True
      have "val \<in> V" if V: "V \<in> set Vs" for V
      proof -
        obtain k where k: "k < ?n" "V = Vs ! k" using V assms(4) by (metis in_set_conv_nth)
        from pred_surj [OF nxt k(1)] obtain d where d: "1 \<le> d" "d \<le> ?n" "((i + 1) mod ?n + ?n - d) mod ?n = k" by blast
        then show ?thesis using held [of d] True k(2) by simp
      qed
      then have "least_from val (\<Inter> (set Vs)) = Some val"
        using least_from_Some [of "\<Inter> (set Vs)" val val] finite_Inter [of "set Vs"] i by auto
      then show ?thesis using step True same by simp
    next
      case False
      have "leapfrog leaps ((i + 1) mod ?n) val m (Some val) = Some (least_from val (\<Inter> (set Vs)))"
      proof (rule less.hyps)
        show "(2 ^ 32 - unat val) * (?n + 1) + (?n - m) < (2 ^ 32 - unat c) * (?n + 1) + (?n - n_ok)"
        proof (cases "val = c")
          case True
          then have "n_ok < m" using less.prems(3) by (auto simp: m_def)
          then show ?thesis using True False by simp
        next
          case neq: False
          then have "unat c < unat val" using val(2) by (metis order.not_eq_order_implies_strict word_less_nat_alt)
          moreover have "unat val < 2 ^ 32" using unsigned_less [of val] by simp
          ultimately have lt: "2 ^ 32 - unat val + 1 \<le> 2 ^ 32 - unat c" by simp
          have "(2 ^ 32 - unat val) * (?n + 1) + (?n - m) < (2 ^ 32 - unat val) * (?n + 1) + (?n + 1)" by simp
          also have "\<dots> = (2 ^ 32 - unat val + 1) * (?n + 1)" by simp
          also have "\<dots> \<le> (2 ^ 32 - unat c) * (?n + 1)" using lt by (rule mult_le_mono1)
          finally show ?thesis by linarith
        qed
        show "Some val = (if m = 0 then None else Some val)" by (simp add: m_def)
      qed (use nxt False held in simp_all)
      then show ?thesis using step False same by simp
    qed
  qed
qed

end
