(* ===== verification/JoinStates.thy ===== *)
theory JoinStates
  imports Leapfrogs
begin

text \<open>
  What a search keeps: which positions its iterators have fixed on the path it is on, where
  the elimination order stands, and what the tuple holds. The descent into a value and the
  return from it are inverse steps between such states.
\<close>

context elimination_order
begin

lemma complete_path: "ok vs path b v \<Longrightarrow> count_vars v \<le> length path \<longleftrightarrow> set path = vs"
proof -
  assume "ok vs path b v"
  from ok_path [OF this] have "distinct path" "set path \<subseteq> vs" "finite vs" "count_vars v = card vs" by blast+
  then show ?thesis using card_seteq [of vs "set path"] distinct_card [of path] by auto
qed

lemma path_length: "ok vs path b v \<Longrightarrow> length path \<le> card vs"
  using ok_path [of vs path b v] card_mono [of vs "set path"] distinct_card [of path] by fastforce

end

section \<open>The triples of a join\<close>

text \<open>The triples an iterator leaps among, the live ones of them, and the constants of its pattern.\<close>

record join_triple =
  jt_cands :: "index_entry list"
  jt_live :: "index_entry list"
  jt_consts :: "(spo_pos \<times> u32) list"

definition occ_of :: "ltj_plan \<Rightarrow> u8 \<Rightarrow> (nat \<times> spo_pos) list" where
  "occ_of plan x = (case occurrences plan x of Some occ \<Rightarrow> occ | None \<Rightarrow> [])"

text \<open>The positions of the triple \<open>k\<close> that some occurrences fix.\<close>

definition at_triple :: "nat \<Rightarrow> u32 \<Rightarrow> (nat \<times> spo_pos) list \<Rightarrow> (spo_pos \<times> u32) list" where
  "at_triple k v occ = map (\<lambda>(_, p). (p, v)) (filter (\<lambda>(i, _). i = k) occ)"

definition fixed_at :: "ltj_plan \<Rightarrow> nat \<Rightarrow> (u8 \<times> u32) list \<Rightarrow> (spo_pos \<times> u32) list" where
  "fixed_at plan k path = concat (map (\<lambda>(x, v). at_triple k v (occ_of plan x)) path)"

text \<open>
  Every variable of the search occurs, each position of a triple is a constant or an
  occurrence of one variable.
\<close>

definition plan_ok :: "ltj_plan \<Rightarrow> u8 set \<Rightarrow> join_triple list \<Rightarrow> bool" where
  "plan_ok plan vs tr \<longleftrightarrow>
     (\<forall>x \<in> vs. occurrences plan x \<noteq> None \<and> occ_of plan x \<noteq> [] \<and> distinct (occ_of plan x)
        \<and> (\<forall>(k, p) \<in> set (occ_of plan x). k < length tr \<and> p \<notin> fst ` set (jt_consts (tr ! k)))
        \<and> (\<forall>y \<in> vs. x \<noteq> y \<longrightarrow> set (occ_of plan x) \<inter> set (occ_of plan y) = {}))
     \<and> (\<forall>k < length tr. \<forall>p. p \<in> fst ` set (jt_consts (tr ! k)) \<or> (\<exists>x \<in> vs. (k, p) \<in> set (occ_of plan x)))"

definition iters_at :: "join_triple list \<Rightarrow> (nat \<Rightarrow> (spo_pos \<times> u32) list) \<Rightarrow> ltj_iter list \<Rightarrow> bool" where
  "iters_at tr fs its \<longleftrightarrow>
     length its = length tr \<and> (\<forall>k < length tr. ltj_at (jt_cands (tr ! k)) (jt_live (tr ! k)) (jt_consts (tr ! k)) (fs k) (its ! k))"

lemma at_triple_Nil [simp]: "at_triple k v [] = []"
  by (simp add: at_triple_def)

lemma at_triple_append [simp]: "at_triple k v (occ @ occ') = at_triple k v occ @ at_triple k v occ'"
  by (simp add: at_triple_def)

lemma at_triple_one: "at_triple k v [(i, p)] = (if i = k then [(p, v)] else [])"
  by (simp add: at_triple_def)

lemma at_triple_Cons: "at_triple k v ((i, p) # occ) = (if i = k then [(p, v)] else []) @ at_triple k v occ"
  by (simp add: at_triple_def)

lemma fst_at_triple: "p \<in> fst ` set (at_triple k v occ) \<longleftrightarrow> (k, p) \<in> set occ"
  by (force simp: at_triple_def)

lemma fixed_at_Nil [simp]: "fixed_at plan k [] = []"
  by (simp add: fixed_at_def)

lemma fixed_at_snoc [simp]: "fixed_at plan k (path @ [(x, v)]) = fixed_at plan k path @ at_triple k v (occ_of plan x)"
  by (simp add: fixed_at_def)

lemma fixed_at_Cons: "fixed_at plan k (a # path) = at_triple k (snd a) (occ_of plan (fst a)) @ fixed_at plan k path"
  by (simp add: fixed_at_def split_beta)

lemma agrees_Cons [simp]: "agrees ((p, v) # fs) t \<longleftrightarrow> proj p t = v \<and> agrees fs t"
  by (simp add: agrees_def)

lemma agrees_at_triple: "agrees (at_triple k v occ) t \<longleftrightarrow> (\<forall>p. (k, p) \<in> set occ \<longrightarrow> proj p t = v)"
  by (induction occ) (auto simp: at_triple_Cons)

lemma fst_fixed_at: "p \<in> fst ` set (fixed_at plan k path) \<longleftrightarrow> (\<exists>x \<in> fst ` set path. (k, p) \<in> set (occ_of plan x))"
proof (induction path)
  case (Cons a path)
  show ?case unfolding fixed_at_Cons set_append image_Un Un_iff Cons.IH fst_at_triple by simp
qed simp

lemma open_position:
  assumes "plan_ok plan vs tr" "x \<in> vs" "(k, p) \<in> set (occ_of plan x)" "fst ` set path \<subseteq> vs" "x \<notin> fst ` set path"
  shows "k < length tr" "p \<notin> fst ` set (jt_consts (tr ! k) @ fixed_at plan k path)"
proof -
  have occ: "\<forall>(k, p) \<in> set (occ_of plan x). k < length tr \<and> p \<notin> fst ` set (jt_consts (tr ! k))"
    and disj: "\<forall>y \<in> vs. x \<noteq> y \<longrightarrow> set (occ_of plan x) \<inter> set (occ_of plan y) = {}"
    using assms(1,2) unfolding plan_ok_def by blast+
  show "k < length tr" using bspec [OF occ assms(3)] by simp
  have "p \<notin> fst ` set (fixed_at plan k path)"
  proof
    assume "p \<in> fst ` set (fixed_at plan k path)"
    then obtain y where "y \<in> fst ` set path" "(k, p) \<in> set (occ_of plan y)" unfolding fst_fixed_at by blast
    then show False using disj assms(3-5) by blast
  qed
  moreover have "p \<notin> fst ` set (jt_consts (tr ! k))" using bspec [OF occ assms(3)] by simp
  ultimately show "p \<notin> fst ` set (jt_consts (tr ! k) @ fixed_at plan k path)" unfolding set_append image_Un by blast
qed

section \<open>Candidates\<close>

definition domain_of :: "ltj_plan \<Rightarrow> join_triple list \<Rightarrow> (u8 \<times> u32) list \<Rightarrow> u8 \<Rightarrow> u32 set" where
  "domain_of plan tr path x =
     \<Inter> (set (map (\<lambda>(k, p). values_at (jt_cands (tr ! k)) (jt_consts (tr ! k) @ fixed_at plan k path) p) (occ_of plan x)))"

lemma finite_domain: "occ_of plan x \<noteq> [] \<Longrightarrow> finite (domain_of plan tr path x)"
  unfolding domain_of_def by (rule finite_Inter) (cases "occ_of plan x"; auto split: prod.splits)

lemma leap_at_least:
  assumes "iters_at tr (\<lambda>k. fixed_at plan k path) its" "k < length tr" "p \<notin> fst ` set (jt_consts (tr ! k) @ fixed_at plan k path)"
  shows "leap_at its (k, p) c = Some (least_from c (values_at (jt_cands (tr ! k)) (jt_consts (tr ! k) @ fixed_at plan k path) p))"
proof -
  have "ltj_at (jt_cands (tr ! k)) (jt_live (tr ! k)) (jt_consts (tr ! k)) (fixed_at plan k path) (its ! k)" "k < length its"
    using assms(1,2) by (simp_all add: iters_at_def)
  then show ?thesis using ltj_it.leap_least [OF _ assms(3)] by (simp add: leap_at_def nth_opt_def)
qed

text \<open>The seek answers the least candidate all the iterators of a variable hold.\<close>

lemma seek_least:
  assumes "plan_ok plan vs tr" "x \<in> vs" "fst ` set path \<subseteq> vs" "x \<notin> fst ` set path" "iters_at tr (\<lambda>k. fixed_at plan k path) its"
  shows "seek (occ_of plan x) its c = Some (least_from (case c of Some cv \<Rightarrow> cv | None \<Rightarrow> 0) (domain_of plan tr path x))"
proof -
  let ?V = "\<lambda>(k, p). values_at (jt_cands (tr ! k)) (jt_consts (tr ! k) @ fixed_at plan k path) p"
  have leap: "leap_at its kp c = Some (least_from c (?V kp))" if "kp \<in> set (occ_of plan x)" for kp c
  proof -
    obtain k p where kp: "kp = (k, p)" by (cases kp)
    show ?thesis
      using leap_at_least [OF assms(5)] open_position [OF assms(1,2) _ assms(3,4)] that unfolding kp prod.case by blast
  qed
  have ne: "occ_of plan x \<noteq> []" using assms(1,2) unfolding plan_ok_def by blast
  then consider kp where "occ_of plan x = [kp]" | a b occ where "occ_of plan x = a # b # occ"
    by (metis neq_Nil_conv)
  then show ?thesis
  proof cases
    case (1 kp)
    then show ?thesis using leap [of kp] by (simp add: seek_def domain_of_def split: option.split prod.split)
  next
    case (2 a b occ)
    let ?occ = "occ_of plan x"
    have "leapfrog (map (leap_at its) ?occ) 0 c' 0 None = Some (least_from c' (\<Inter> (set (map ?V ?occ))))" for c'
    proof (rule leapfrog_from)
      show "(map (leap_at its) ?occ ! k) c = Some (least_from c (map ?V ?occ ! k))" if "k < length (map (leap_at its) ?occ)" for k c
        using that leap [of "?occ ! k"] by simp
    qed (use 2 in auto)
    then show ?thesis by (simp add: seek_def domain_of_def 2)
  qed
qed

lemma seek_all_domain:
  assumes "plan_ok plan vs tr" "x \<in> vs" "fst ` set path \<subseteq> vs" "x \<notin> fst ` set path" "iters_at tr (\<lambda>k. fixed_at plan k path) its"
    and "occ_of plan x = [(k, p)]"
  shows "k < length its" "ltj_seek_all (its ! k) p = Some (sorted_list_of_set (domain_of plan tr path x))"
proof -
  have k: "k < length tr" "p \<notin> fst ` set (jt_consts (tr ! k) @ fixed_at plan k path)"
    using open_position [OF assms(1,2) _ assms(3,4), of k p] assms(6) by simp_all
  then show "k < length its" using assms(5) by (simp add: iters_at_def)
  have "ltj_at (jt_cands (tr ! k)) (jt_live (tr ! k)) (jt_consts (tr ! k)) (fixed_at plan k path) (its ! k)"
    using assms(5) k(1) by (simp add: iters_at_def)
  from ltj_it.seek_all_values [OF this k(2)] show "ltj_seek_all (its ! k) p = Some (sorted_list_of_set (domain_of plan tr path x))"
    by (simp add: domain_of_def assms(6))
qed

lemma min_size_total:
  assumes "plan_ok plan vs tr" "x \<in> vs" "fst ` set path \<subseteq> vs" "x \<notin> fst ` set path" "iters_at tr (\<lambda>k. fixed_at plan k path) its"
  shows "min_size plan its x \<noteq> None"
proof -
  have "fold (\<lambda>(k, p) m. Option.bind m (\<lambda>m. Option.bind (nth_opt its k) (\<lambda>it. map_option (\<lambda>w. if w < m then w else m) (ltj_subtree_size it p)))) occ (Some m) \<noteq> None"
    if "set occ \<subseteq> set (occ_of plan x)" for occ m
    using that
  proof (induction occ arbitrary: m)
    case (Cons a occ)
    obtain k p where a: "a = (k, p)" by (cases a)
    have k: "k < length tr" "p \<notin> fst ` set (jt_consts (tr ! k) @ fixed_at plan k path)"
      using open_position [OF assms(1,2) _ assms(3,4), of k p] Cons.prems a by auto
    then have "ltj_at (jt_cands (tr ! k)) (jt_live (tr ! k)) (jt_consts (tr ! k)) (fixed_at plan k path) (its ! k)" "k < length its"
      using assms(5) by (simp_all add: iters_at_def)
    with ltj_it.subtree_size_total [OF _ k(2)] obtain w where "ltj_subtree_size (its ! k) p = Some w" "k < length its" by blast
    then show ?case using Cons a by (simp add: nth_opt_def)
  qed simp
  moreover have "occurrences plan x = Some (occ_of plan x)"
    using assms(1,2) unfolding plan_ok_def occ_of_def by force
  ultimately show ?thesis by (simp add: min_size_def)
qed

section \<open>Descending and returning\<close>

lemma iters_at_update:
  assumes "iters_at tr fs its" "k < length tr" "ltj_at (jt_cands (tr ! k)) (jt_live (tr ! k)) (jt_consts (tr ! k)) (gs k) it"
    and "\<And>i. i \<noteq> k \<Longrightarrow> gs i = fs i"
  shows "iters_at tr gs (its[k := it])"
  unfolding iters_at_def
proof (intro conjI allI impI)
  show "length (its[k := it]) = length tr" using assms(1) by (simp add: iters_at_def)
  fix i assume i: "i < length tr"
  show "ltj_at (jt_cands (tr ! i)) (jt_live (tr ! i)) (jt_consts (tr ! i)) (gs i) (its[k := it] ! i)"
  proof (cases "i = k")
    case True
    then show ?thesis using assms(1-3) by (simp add: iters_at_def)
  next
    case False
    then show ?thesis using assms(1,4) i by (simp add: iters_at_def)
  qed
qed

lemma down_all_at:
  assumes "iters_at tr fs its" "\<And>k p. (k, p) \<in> set occ \<Longrightarrow> k < length tr \<and> p \<notin> fst ` set (jt_consts (tr ! k) @ fs k)" "distinct occ"
  shows "\<exists>its'. down_all occ v its = Some its' \<and> iters_at tr (\<lambda>k. fs k @ at_triple k v occ) its'"
  using assms
proof (induction occ arbitrary: fs its)
  case (Cons a occ)
  obtain k p where a: "a = (k, p)" by (cases a)
  have k: "k < length tr" "p \<notin> fst ` set (jt_consts (tr ! k) @ fs k)" using Cons.prems(2) [of k p] a by auto
  have at: "ltj_at (jt_cands (tr ! k)) (jt_live (tr ! k)) (jt_consts (tr ! k)) (fs k) (its ! k)" and len: "length its = length tr"
    using Cons.prems(1) k(1) by (simp_all add: iters_at_def)
  from ltj_it.down_fixed [OF at k(2)] obtain it
    where it: "ltj_down (its ! k) p v = Some it" "ltj_at (jt_cands (tr ! k)) (jt_live (tr ! k)) (jt_consts (tr ! k)) (fs k @ [(p, v)]) it" by blast
  let ?fs = "\<lambda>i. fs i @ at_triple i v [(k, p)]"
  have "iters_at tr ?fs (its[k := it])"
    by (rule iters_at_update [OF Cons.prems(1) k(1)]) (use it(2) in \<open>simp_all add: at_triple_one\<close>)
  moreover have "i < length tr \<and> q \<notin> fst ` set (jt_consts (tr ! i) @ ?fs i)" if "(i, q) \<in> set occ" for i q
  proof -
    have "(i, q) \<noteq> (k, p)" using that Cons.prems(3) a by auto
    moreover have "i < length tr \<and> q \<notin> fst ` set (jt_consts (tr ! i) @ fs i)" using Cons.prems(2) [of i q] that by simp
    ultimately show ?thesis unfolding at_triple_one append_assoc [symmetric] set_append image_Un Un_iff by (cases "k = i") simp_all
  qed
  ultimately obtain its' where "down_all occ v (its[k := it]) = Some its'" "iters_at tr (\<lambda>i. ?fs i @ at_triple i v occ) its'"
    using Cons.IH [of ?fs "its[k := it]"] Cons.prems(3) by auto
  then show ?case using it(1) k(1) len a by (simp add: nth_opt_def at_triple_Cons at_triple_one)
qed simp

lemma up_all_at:
  assumes "iters_at tr (\<lambda>k. fs k @ gs k) its" "\<And>k. k < length tr \<Longrightarrow> length (gs k) = length (filter (\<lambda>(i, _). i = k) occ)"
    "\<And>k p. (k, p) \<in> set occ \<Longrightarrow> k < length tr"
  shows "\<exists>its'. up_all occ its = Some its' \<and> iters_at tr fs its'"
  using assms
proof (induction occ arbitrary: gs its)
  case Nil
  then show ?case by (auto simp: iters_at_def)
next
  case (Cons a occ)
  obtain k p where a: "a = (k, p)" by (cases a)
  have k: "k < length tr" using Cons.prems(3) a by auto
  have count: "length (gs k) = Suc (length (filter (\<lambda>(i, _). i = k) occ))" using Cons.prems(2) [OF k] a by simp
  then obtain zs f where gs: "gs k = zs @ [f]" by (cases "gs k" rule: rev_cases) simp_all
  with count have zs: "length zs = length (filter (\<lambda>(i, _). i = k) occ)" by simp
  have "ltj_at (jt_cands (tr ! k)) (jt_live (tr ! k)) (jt_consts (tr ! k)) (fs k @ gs k) (its ! k)" and len: "length its = length tr"
    using Cons.prems(1) k by (simp_all add: iters_at_def)
  then have "ltj_at (jt_cands (tr ! k)) (jt_live (tr ! k)) (jt_consts (tr ! k)) ((fs k @ zs) @ [f]) (its ! k)" by (simp add: gs)
  then have up: "ltj_at (jt_cands (tr ! k)) (jt_live (tr ! k)) (jt_consts (tr ! k)) (fs k @ zs) (ltj_up (its ! k) p)"
    by (rule ltj_it.up_fixed)
  let ?gs = "gs(k := zs)"
  have "iters_at tr (\<lambda>i. fs i @ ?gs i) (its[k := ltj_up (its ! k) p])"
    by (rule iters_at_update [OF Cons.prems(1) k]) (use up in simp_all)
  moreover have "length (?gs i) = length (filter (\<lambda>(j, _). j = i) occ)" if "i < length tr" for i
    using Cons.prems(2) [OF that] zs a by (auto split: if_splits)
  ultimately obtain its' where "up_all occ (its[k := ltj_up (its ! k) p]) = Some its'" "iters_at tr fs its'"
    using Cons.IH [of ?gs "its[k := ltj_up (its ! k) p]"] Cons.prems(3) by auto
  then show ?case using a k len by (simp add: nth_opt_def)
qed

lemma length_at_triple: "length (at_triple k v occ) = length (filter (\<lambda>(i, _). i = k) occ)"
  by (simp add: at_triple_def)

end
