(* ===== verification/JoinSearch.thy ===== *)
theory JoinSearch
  imports JoinStates
begin

text \<open>
  The rows of a join: what a search returns from a well-formed plan, counted against the
  assignments of the variables, whatever elimination order it follows.
\<close>

section \<open>Filters\<close>

definition fixed_order :: "veo \<Rightarrow> u8 list option" where
  "fixed_order v = (case v of FixedVeo order \<Rightarrow> Some order | AdaptiveVeo _ \<Rightarrow> None)"

lemma is_adaptive_order: "is_adaptive v \<longleftrightarrow> fixed_order v = None"
  by (simp add: is_adaptive_def fixed_order_def split: veo.split)

lemma fixed_order_steps:
  "veo_next v j = Some (x, v') \<Longrightarrow> fixed_order v' = fixed_order v"
  "veo_down sizes v = Some v' \<Longrightarrow> fixed_order v' = fixed_order v"
  "veo_up v = Some v' \<Longrightarrow> fixed_order v' = fixed_order v"
  "veo_done v = Some v' \<Longrightarrow> fixed_order v' = fixed_order v"
  by (auto simp: veo_next_def veo_down_def veo_up_def veo_done_def fixed_order_def split: veo.splits)

text \<open>
  A filter is placed at a level at which its variable is bound, or has its variable among the
  variables it waits for.
\<close>

definition filters_ok :: "ltj_plan \<Rightarrow> u8 set \<Rightarrow> u8 list option \<Rightarrow> bool" where
  "filters_ok plan vs fo \<longleftrightarrow>
     (case fo of
        Some order \<Rightarrow>
          length (lp_filters_at_level plan) \<le> length order
          \<and> (\<forall>l < length (lp_filters_at_level plan). \<forall>f \<in> set (lp_filters_at_level plan ! l). filter_var (pf_kind f) \<in> set (take (Suc l) order))
      | None \<Rightarrow> \<forall>(deps, kind) \<in> set (lp_filters_dyn plan). set deps \<subseteq> vs \<and> filter_var kind \<in> set deps)"

text \<open>The filters that have been checked once the variables \<open>names\<close> are bound, and all of them.\<close>

definition passed :: "ltj_plan \<Rightarrow> u8 list option \<Rightarrow> u8 list \<Rightarrow> filter_kind set" where
  "passed plan fo names =
     (case fo of
        Some _ \<Rightarrow> {pf_kind f | f l. l < length names \<and> l < length (lp_filters_at_level plan) \<and> f \<in> set (lp_filters_at_level plan ! l)}
      | None \<Rightarrow> {kind | deps kind. (deps, kind) \<in> set (lp_filters_dyn plan) \<and> set deps \<subseteq> set names})"

definition plan_filters :: "ltj_plan \<Rightarrow> u8 list option \<Rightarrow> filter_kind set" where
  "plan_filters plan fo =
     (case fo of
        Some _ \<Rightarrow> pf_kind ` (\<Union> (set ` set (lp_filters_at_level plan)))
      | None \<Rightarrow> snd ` set (lp_filters_dyn plan))"

definition filter_true :: "join_graph \<Rightarrow> (u8 \<Rightarrow> u32 option) \<Rightarrow> filter_kind \<Rightarrow> bool" where
  "filter_true A \<sigma> f \<longleftrightarrow> (case \<sigma> (filter_var f) of Some n \<Rightarrow> filter_holds A f n | None \<Rightarrow> True)"

lemma passed_subset: "passed plan fo names \<subseteq> plan_filters plan fo"
  by (cases fo) (force simp: passed_def plan_filters_def)+

lemma passed_complete:
  assumes "filters_ok plan vs fo" "set names = vs" "distinct names" "\<And>order. fo = Some order \<Longrightarrow> length order = length names"
  shows "passed plan fo names = plan_filters plan fo"
proof (cases fo)
  case None
  then show ?thesis using assms(1,2) by (force simp: passed_def plan_filters_def filters_ok_def)
next
  case (Some order)
  then have len: "length (lp_filters_at_level plan) \<le> length names" using assms(1,4) by (simp add: filters_ok_def)
  have "f \<in> passed plan fo names" if "f \<in> plan_filters plan fo" for f
  proof -
    from that obtain fs g where "fs \<in> set (lp_filters_at_level plan)" "g \<in> set fs" "f = pf_kind g" by (auto simp: plan_filters_def Some)
    then obtain l where "l < length (lp_filters_at_level plan)" "g \<in> set (lp_filters_at_level plan ! l)" by (metis in_set_conv_nth)
    moreover from this len have "l < length names" by simp
    ultimately show ?thesis using \<open>f = pf_kind g\<close> unfolding passed_def Some option.case by blast
  qed
  then show ?thesis using passed_subset by blast
qed

lemma find_var_map_of: "find_var t v = map_of t v"
proof -
  have "map_option snd (List.find (\<lambda>(w, _). w = v) t) = map_of t v" by (induction t) auto
  then show ?thesis by (simp add: find_var_def)
qed

lemma eval_filter_bound:
  assumes "take n t = path" "filter_var f \<in> fst ` set path" "map_of path \<subseteq>\<^sub>m \<sigma>"
  shows "eval_filter A f t \<longleftrightarrow> filter_true A \<sigma> f"
proof -
  obtain u where u: "map_of path (filter_var f) = Some u" using assms(2) by (metis map_of_eq_None_iff not_None_eq)
  have "t = path @ drop n t" using append_take_drop_id [of n t] assms(1) by simp
  then have "map_of t (filter_var f) = Some u" using u by (metis map_of_append map_add_find_right)
  moreover have "\<sigma> (filter_var f) = Some u" using assms(3) u by (metis domI map_le_def)
  ultimately show ?thesis by (simp add: eval_filter_def filter_true_def find_var_map_of)
qed

text \<open>The check at a level decides the filters that are due there.\<close>

lemma check_filters_due:
  assumes "filters_ok plan vs fo" "fixed_order veo = fo" "veo_ok vs (map fst path @ [x]) b veo"
    and "take (Suc (length path)) t = path @ [(x, v)]" "map_of (path @ [(x, v)]) \<subseteq>\<^sub>m \<sigma>" "fst ` set (lp_pinned plan) \<inter> vs = {}"
  shows "(\<forall>f \<in> passed plan fo (map fst path @ [x]). filter_true A \<sigma> f)
    \<longleftrightarrow> (\<forall>f \<in> passed plan fo (map fst path). filter_true A \<sigma> f) \<and> check_filters A plan veo (length path) t"
proof -
  let ?names = "map fst path @ [x]"
  have bound: "fst ` set (path @ [(x, v)]) = set ?names" by simp
  have dist: "distinct ?names" "set ?names \<subseteq> vs" using veo_order.ok_path [OF assms(3)] by blast+
  note eval = eval_filter_bound [OF assms(4) _ assms(5), unfolded bound]
  show ?thesis
  proof (cases fo)
    case (Some order)
    then have order: "veo = FixedVeo order" using assms(2) by (auto simp: fixed_order_def split: veo.splits)
    have take: "set (take (Suc l) order) \<subseteq> set ?names" if "l \<le> length path" for l
    proof -
      have "?names = take (Suc (length path)) order" using assms(3) order by (simp add: veo_ok_def)
      then show ?thesis using set_take_subset_set_take [of "Suc l" "Suc (length path)" order] that by (simp only:)
    qed
    let ?F = "lp_filters_at_level plan"
    have ev: "eval_filter A (pf_kind f) t \<longleftrightarrow> filter_true A \<sigma> (pf_kind f)" if "l < length ?F" "l \<le> length path" "f \<in> set (?F ! l)" for f l
    proof (rule eval)
      have "filter_var (pf_kind f) \<in> set (take (Suc l) order)" using assms(1) that(1,3) Some by (simp add: filters_ok_def)
      then show "filter_var (pf_kind f) \<in> set ?names" using take [OF that(2)] by blast
    qed
    have chk: "check_filters A plan veo (length path) t \<longleftrightarrow> (length path < length ?F \<longrightarrow> (\<forall>f \<in> set (?F ! length path). filter_true A \<sigma> (pf_kind f)))"
      using ev [of "length path"] by (auto simp: check_filters_def order is_adaptive_def list_all_iff)
    have "passed plan fo ?names = passed plan fo (map fst path)
        \<union> (if length path < length ?F then pf_kind ` set (?F ! length path) else {})"
      by (auto simp: passed_def Some less_Suc_eq)
    then show ?thesis unfolding chk by auto
  next
    case None
    then have ad: "is_adaptive veo" using assms(2) by (simp add: is_adaptive_order)
    have fst: "fst (t ! length path) = x"
      using arg_cong [OF assms(4), of "\<lambda>xs. xs ! length path"] by (simp add: nth_append)
    have at: "is_bound_at plan d (length path) t \<longleftrightarrow> d \<in> set ?names" if "d \<in> vs" for d
      using assms(6) that unfolding is_bound_at_def assms(4) bound by blast
    have "check_filters A plan veo (length path) t
        \<longleftrightarrow> (\<forall>(deps, kind) \<in> set (lp_filters_dyn plan). x \<in> set deps \<and> set deps \<subseteq> set ?names \<longrightarrow> filter_true A \<sigma> kind)"
      unfolding check_filters_def check_filters_dyn_def if_P [OF ad] Let_def fst list_all_iff
    proof (intro ball_cong refl, clarify)
      fix deps kind assume dk: "(deps, kind) \<in> set (lp_filters_dyn plan)"
      then have deps: "set deps \<subseteq> vs" "filter_var kind \<in> set deps" using assms(1) None by (auto simp: filters_ok_def)
      then have "(if deps = [] then length path = 0 else x \<in> set deps \<and> (\<forall>d \<in> set deps. is_bound_at plan d (length path) t))
          \<longleftrightarrow> x \<in> set deps \<and> set deps \<subseteq> set ?names"
      proof -
        have "(\<forall>d \<in> set deps. is_bound_at plan d (length path) t) \<longleftrightarrow> set deps \<subseteq> set ?names"
          using at deps(1) unfolding subset_iff by blast
        moreover have "deps \<noteq> []" using deps(2) by auto
        ultimately show ?thesis by (simp only: if_False)
      qed
      moreover have "set deps \<subseteq> set ?names \<Longrightarrow> eval_filter A kind t \<longleftrightarrow> filter_true A \<sigma> kind" using eval deps(2) by blast
      ultimately show "((if deps = [] then length path = 0 else x \<in> set deps \<and> (\<forall>d \<in> set deps. is_bound_at plan d (length path) t)) \<longrightarrow> eval_filter A kind t)
          = (x \<in> set deps \<and> set deps \<subseteq> set ?names \<longrightarrow> filter_true A \<sigma> kind)" by blast
    qed
    moreover have "passed plan fo ?names = passed plan fo (map fst path)
        \<union> {kind | deps kind. (deps, kind) \<in> set (lp_filters_dyn plan) \<and> x \<in> set deps \<and> set deps \<subseteq> set ?names}"
      unfolding passed_def None option.case by auto
    ultimately show ?thesis by auto
  qed
qed

section \<open>States of the search\<close>

text \<open>The tuple holds the path, then slots of earlier branches, then the pinned variables.\<close>

definition tuple_at :: "ltj_plan \<Rightarrow> u8 set \<Rightarrow> (u8 \<times> u32) list \<Rightarrow> (u8 \<times> u32) list \<Rightarrow> bool" where
  "tuple_at plan vs path t \<longleftrightarrow>
     length t = lp_num_vars plan \<and> take (length path) t = path \<and> drop (card vs) t = lp_pinned plan"

definition state_at ::
    "ltj_plan \<Rightarrow> u8 set \<Rightarrow> join_triple list \<Rightarrow> u8 list option \<Rightarrow> (u8 \<times> u32) list \<Rightarrow> u8 list \<Rightarrow> bool \<Rightarrow> search_state \<Rightarrow> bool" where
  "state_at plan vs tr fo path names b st \<longleftrightarrow>
     iters_at tr (\<lambda>k. fixed_at plan k path) (ss_iterators st) \<and> veo_ok vs names b (ss_veo st) \<and> fixed_order (ss_veo st) = fo
     \<and> tuple_at plan vs path (ss_tuple st)"

definition pins_ok :: "ltj_plan \<Rightarrow> u8 set \<Rightarrow> bool" where
  "pins_ok plan vs \<longleftrightarrow>
     finite vs \<and> distinct (map fst (lp_pinned plan)) \<and> fst ` set (lp_pinned plan) \<inter> vs = {}
     \<and> lp_num_vars plan = card vs + length (lp_pinned plan)"

section \<open>The rows\<close>

text \<open>The live triples of a pattern that match an assignment, and the edges of them it admits.\<close>

definition triple_matches :: "ltj_plan \<Rightarrow> u8 set \<Rightarrow> (u8 \<Rightarrow> u32 option) \<Rightarrow> nat \<Rightarrow> (spo_pos \<times> u32) list \<Rightarrow> index_entry \<Rightarrow> bool" where
  "triple_matches plan vs \<sigma> k cs t \<longleftrightarrow>
     agrees cs t \<and> (\<forall>x \<in> vs. \<forall>p. (k, p) \<in> set (occ_of plan x) \<longrightarrow> \<sigma> x = Some (proj p t))"

definition triple_edges :: "join_graph \<Rightarrow> ltj_plan \<Rightarrow> u8 set \<Rightarrow> join_triple list \<Rightarrow> (u8 \<Rightarrow> u32 option) \<Rightarrow> nat \<Rightarrow> u32 multiset" where
  "triple_edges A plan vs tr \<sigma> k =
     filter_mset (edge_admits A plan \<sigma> k)
       (image_mset edge_id (filter_mset (triple_matches plan vs \<sigma> k (jt_consts (tr ! k))) (mset (jt_live (tr ! k)))))"

text \<open>How often the join has the assignment \<open>\<sigma>\<close> with the edges \<open>es\<close>, one per triple.\<close>

definition join_count ::
    "join_graph \<Rightarrow> ltj_plan \<Rightarrow> u8 set \<Rightarrow> join_triple list \<Rightarrow> u8 list option \<Rightarrow> (u8 \<Rightarrow> u32 option) \<Rightarrow> u32 list \<Rightarrow> nat" where
  "join_count A plan vs tr fo \<sigma> es =
     (if dom \<sigma> = vs \<union> fst ` set (lp_pinned plan) \<and> map_of (lp_pinned plan) \<subseteq>\<^sub>m \<sigma> \<and> (\<forall>f \<in> plan_filters plan fo. filter_true A \<sigma> f)
      then picks (map (triple_edges A plan vs tr \<sigma>) [0..<length tr]) es
      else 0)"

definition row_of :: "result_tuple \<Rightarrow> (u8 \<Rightarrow> u32 option) \<times> u32 list" where
  "row_of r = (map_of (res_vars r), res_eids r)"

definition row_count :: "result_tuple list \<Rightarrow> (u8 \<Rightarrow> u32 option) \<Rightarrow> u32 list \<Rightarrow> nat" where
  "row_count rs \<sigma> es = count (mset (map row_of rs)) (\<sigma>, es)"

lemma row_count_Nil [simp]: "row_count [] \<sigma> es = 0"
  by (simp add: row_count_def)

lemma row_count_append [simp]: "row_count (rs @ ss) \<sigma> es = row_count rs \<sigma> es + row_count ss \<sigma> es"
  by (simp add: row_count_def)

lemma row_count_same: "row_count (map (\<lambda>c. \<lparr>res_vars = vars, res_eids = c\<rparr>) cs) \<sigma> es = (if \<sigma> = map_of vars then count (mset cs) es else 0)"
  by (induction cs) (auto simp: row_count_def row_of_def)

lemma eid_lists_edges:
  assumes "\<And>k. k < length its \<Longrightarrow> \<exists>es. ltj_eids_all (its ! k) = Some es \<and> filter_mset (edge_admits A plan binding (i + k)) (mset es) = Ms ! k"
    and "length Ms = length its"
  shows "(\<exists>xss. eid_lists A plan binding i its = Some (Some xss) \<and> map mset xss = Ms) \<or> (eid_lists A plan binding i its = Some None \<and> {#} \<in> set Ms)"
  using assms
proof (induction its arbitrary: i Ms)
  case (Cons it its)
  then obtain M Ms' where Ms: "Ms = M # Ms'" "length Ms' = length its" by (cases Ms) simp_all
  obtain es where es: "ltj_eids_all it = Some es" "filter_mset (edge_admits A plan binding i) (mset es) = M"
    using Cons.prems(1) [of 0] Ms by auto
  have "\<exists>es. ltj_eids_all (its ! k) = Some es \<and> filter_mset (edge_admits A plan binding (Suc i + k)) (mset es) = Ms' ! k"
    if "k < length its" for k
    using Cons.prems(1) [of "Suc k"] that Ms by simp
  from Cons.IH [OF this Ms(2)] show ?case using es Ms by (auto simp: Let_def mset_filter [symmetric] simp del: mset_filter)
qed simp

text \<open>With every variable bound, the iterators report the edges of the triples that match.\<close>

lemma fixed_agrees:
  assumes "map_of path \<subseteq>\<^sub>m \<sigma>" "distinct (map fst path)"
  shows "agrees (fixed_at plan k path) t \<longleftrightarrow> (\<forall>x \<in> fst ` set path. \<forall>p. (k, p) \<in> set (occ_of plan x) \<longrightarrow> \<sigma> x = Some (proj p t))"
proof -
  have "agrees (fixed_at plan k path) t \<longleftrightarrow> (\<forall>(x, v) \<in> set path. \<forall>p. (k, p) \<in> set (occ_of plan x) \<longrightarrow> proj p t = v)"
    by (induction path) (auto simp: fixed_at_Cons agrees_at_triple)
  moreover have "\<sigma> x = Some v" if "(x, v) \<in> set path" for x v
    using assms that by (metis domI map_le_def map_of_is_SomeI)
  ultimately show ?thesis by force
qed

lemma complete_positions:
  assumes "plan_ok plan vs tr" "fst ` set path = vs" "k < length tr"
    and "distinct (map fst (jt_consts (tr ! k) @ fixed_at plan k path))"
  shows "length (jt_consts (tr ! k) @ fixed_at plan k path) = 3"
proof -
  let ?ps = "map fst (jt_consts (tr ! k) @ fixed_at plan k path)"
  have "p \<in> set ?ps" for p
  proof -
    have "p \<in> fst ` set (jt_consts (tr ! k)) \<or> p \<in> fst ` set (fixed_at plan k path)"
      using assms(1-3) unfolding plan_ok_def fst_fixed_at by blast
    then show ?thesis by auto
  qed
  then have "set ?ps = {PosS, PosP, PosO}" using spo_pos_UNIV [of ?ps] by blast
  then show ?thesis using distinct_card [OF assms(4)] by simp
qed

lemma eids_match:
  assumes "plan_ok plan vs tr" "iters_at tr (\<lambda>k. fixed_at plan k path) its" "fst ` set path = vs" "distinct (map fst path)"
    and "map_of path \<subseteq>\<^sub>m \<sigma>" "k < length tr"
  shows "\<exists>es. ltj_eids_all (its ! k) = Some es \<and> filter_mset (edge_admits A plan \<sigma> k) (mset es) = triple_edges A plan vs tr \<sigma> k"
proof -
  have at: "ltj_at (jt_cands (tr ! k)) (jt_live (tr ! k)) (jt_consts (tr ! k)) (fixed_at plan k path) (its ! k)"
    using assms(2,6) by (simp add: iters_at_def)
  from ltj_it.eids_live [OF at complete_positions [OF assms(1,3,6) ltj_it.ok_distinct [OF at]]] obtain es
    where es: "ltj_eids_all (its ! k) = Some es"
      "mset es = image_mset edge_id (filter_mset (agrees (jt_consts (tr ! k) @ fixed_at plan k path)) (mset (jt_live (tr ! k))))" by blast
  have "agrees (jt_consts (tr ! k) @ fixed_at plan k path) = triple_matches plan vs \<sigma> k (jt_consts (tr ! k))"
    by (rule ext) (simp add: triple_matches_def fixed_agrees [OF assms(5,4)] assms(3))
  then show ?thesis using es by (simp add: triple_edges_def)
qed

end
