(* ===== verification/JoinRows.thy ===== *)
theory JoinRows
  imports JoinSearch
begin

text \<open>
  The search returns exactly the rows of the join. One lemma per function of the search, from
  the base case to the whole run.
\<close>

section \<open>Assignments\<close>

text \<open>The checked filters hold for the values bound so far.\<close>

definition checked :: "join_graph \<Rightarrow> ltj_plan \<Rightarrow> u8 list option \<Rightarrow> (u8 \<times> u32) list \<Rightarrow> bool" where
  "checked A plan fo path \<longleftrightarrow>
     (\<forall>\<sigma>. map_of path \<subseteq>\<^sub>m \<sigma> \<longrightarrow> (\<forall>f \<in> passed plan fo (map fst path). filter_true A \<sigma> f))"

text \<open>Why a run ends early: it has the rows it was asked for, or its budget has run out.\<close>

definition stopped :: "nat \<Rightarrow> search_state \<Rightarrow> bool" where
  "stopped limit st \<longleftrightarrow> 0 < limit \<and> limit \<le> length (ss_results st) \<or> bu_tripped (ss_budget st)"

text \<open>
  What a part of the search adds to the results for the assignments that extend one of
  \<open>paths\<close>: rows of the join, all of them unless it stops.
\<close>

definition rows_due ::
    "join_graph \<Rightarrow> ltj_plan \<Rightarrow> u8 set \<Rightarrow> join_triple list \<Rightarrow> u8 list option \<Rightarrow> (u8 \<times> u32) list set \<Rightarrow> (u8 \<Rightarrow> u32 option) \<Rightarrow> u32 list \<Rightarrow> nat" where
  "rows_due A plan vs tr fo paths \<sigma> es = (if \<exists>path \<in> paths. map_of path \<subseteq>\<^sub>m \<sigma> then join_count A plan vs tr fo \<sigma> es else 0)"

definition adds ::
    "join_graph \<Rightarrow> ltj_plan \<Rightarrow> u8 set \<Rightarrow> join_triple list \<Rightarrow> u8 list option \<Rightarrow> nat \<Rightarrow> bool \<Rightarrow> (u8 \<times> u32) list set \<Rightarrow> search_state \<Rightarrow> search_state \<Rightarrow> bool" where
  "adds A plan vs tr fo limit ok paths st st' \<longleftrightarrow>
     (\<exists>new. ss_results st' = ss_results st @ new
        \<and> (\<forall>r \<in> set new. distinct (map fst (res_vars r)))
        \<and> (\<forall>\<sigma> es. row_count new \<sigma> es \<le> rows_due A plan vs tr fo paths \<sigma> es)
        \<and> (ok \<longrightarrow> (\<forall>\<sigma> es. row_count new \<sigma> es = rows_due A plan vs tr fo paths \<sigma> es))
        \<and> (\<not> ok \<longrightarrow> stopped limit st')
        \<and> (0 < limit \<and> length (ss_results st) \<le> limit \<longrightarrow> length (ss_results st') \<le> limit)
        \<and> (unarmed (ss_budget st) \<longrightarrow> unarmed (ss_budget st')))"

lemma adds_none: "(\<And>\<sigma> es path. path \<in> paths \<Longrightarrow> map_of path \<subseteq>\<^sub>m \<sigma> \<Longrightarrow> join_count A plan vs tr fo \<sigma> es = 0) \<Longrightarrow>
    ss_results st' = ss_results st \<Longrightarrow> ss_budget st' = ss_budget st \<Longrightarrow> adds A plan vs tr fo limit True paths st st'"
  unfolding adds_def rows_due_def by (intro exI [of _ "[]"] conjI allI) (auto simp del: split_paired_All)

lemma adds_stop: "stopped limit st' \<Longrightarrow> ss_results st' = ss_results st \<Longrightarrow> (unarmed (ss_budget st) \<Longrightarrow> unarmed (ss_budget st')) \<Longrightarrow> adds A plan vs tr fo limit False paths st st'"
  unfolding adds_def by (intro exI [of _ "[]"] conjI allI) simp_all

lemma adds_cong:
  "adds A plan vs tr fo limit ok paths st st' \<Longrightarrow> ss_results st0 = ss_results st \<Longrightarrow> ss_results st1 = ss_results st' \<Longrightarrow>
   ss_budget st1 = ss_budget st' \<Longrightarrow> (unarmed (ss_budget st0) \<Longrightarrow> unarmed (ss_budget st)) \<Longrightarrow> adds A plan vs tr fo limit ok paths st0 st1"
  unfolding adds_def stopped_def by (elim exE) (rule exI, auto)

lemma adds_equiv:
  assumes "adds A plan vs tr fo limit ok ps st st'"
    and "\<And>\<sigma> es. join_count A plan vs tr fo \<sigma> es \<noteq> 0 \<Longrightarrow> (\<exists>p \<in> ps. map_of p \<subseteq>\<^sub>m \<sigma>) \<longleftrightarrow> (\<exists>p \<in> qs. map_of p \<subseteq>\<^sub>m \<sigma>)"
  shows "adds A plan vs tr fo limit ok qs st st'"
proof -
  have "rows_due A plan vs tr fo ps \<sigma> es = rows_due A plan vs tr fo qs \<sigma> es" for \<sigma> es
    using assms(2) by (cases "join_count A plan vs tr fo \<sigma> es = 0") (simp_all add: rows_due_def)
  then show ?thesis using assms(1) by (simp add: adds_def)
qed

lemma rows_due_union:
  assumes "\<And>p q. p \<in> ps \<Longrightarrow> q \<in> qs \<Longrightarrow> map_of p \<subseteq>\<^sub>m \<sigma> \<Longrightarrow> map_of q \<subseteq>\<^sub>m \<sigma> \<Longrightarrow> False"
  shows "rows_due A plan vs tr fo (ps \<union> qs) \<sigma> es = rows_due A plan vs tr fo ps \<sigma> es + rows_due A plan vs tr fo qs \<sigma> es"
  using assms unfolding rows_due_def by (cases "\<exists>p \<in> ps. map_of p \<subseteq>\<^sub>m \<sigma>"; cases "\<exists>q \<in> qs. map_of q \<subseteq>\<^sub>m \<sigma>") auto

lemma adds_union:
  assumes "adds A plan vs tr fo limit True ps st st1" "adds A plan vs tr fo limit ok qs st1 st2"
    and "\<And>p q \<sigma>. p \<in> ps \<Longrightarrow> q \<in> qs \<Longrightarrow> map_of p \<subseteq>\<^sub>m \<sigma> \<Longrightarrow> map_of q \<subseteq>\<^sub>m \<sigma> \<Longrightarrow> False"
  shows "adds A plan vs tr fo limit ok (ps \<union> qs) st st2"
proof -
  obtain xs where xs: "ss_results st1 = ss_results st @ xs" "\<And>\<sigma> es. row_count xs \<sigma> es = rows_due A plan vs tr fo ps \<sigma> es"
    "0 < limit \<and> length (ss_results st) \<le> limit \<longrightarrow> length (ss_results st1) \<le> limit"
    "\<forall>r \<in> set xs. distinct (map fst (res_vars r))"
    using assms(1) by (auto simp: adds_def)
  obtain ys where ys: "ss_results st2 = ss_results st1 @ ys" "\<And>\<sigma> es. row_count ys \<sigma> es \<le> rows_due A plan vs tr fo qs \<sigma> es"
    "ok \<longrightarrow> (\<forall>\<sigma> es. row_count ys \<sigma> es = rows_due A plan vs tr fo qs \<sigma> es)" "\<not> ok \<longrightarrow> stopped limit st2"
    "0 < limit \<and> length (ss_results st1) \<le> limit \<longrightarrow> length (ss_results st2) \<le> limit"
    "\<forall>r \<in> set ys. distinct (map fst (res_vars r))"
    using assms(2) by (auto simp: adds_def)
  have due: "rows_due A plan vs tr fo (ps \<union> qs) \<sigma> es = rows_due A plan vs tr fo ps \<sigma> es + rows_due A plan vs tr fo qs \<sigma> es" for \<sigma> es
    by (rule rows_due_union) (rule assms(3))
  have "ss_results st2 = ss_results st @ (xs @ ys)" using xs(1) ys(1) by simp
  moreover have "row_count (xs @ ys) \<sigma> es \<le> rows_due A plan vs tr fo (ps \<union> qs) \<sigma> es" for \<sigma> es
    using xs(2) ys(2) by (simp add: due)
  moreover have "ok \<longrightarrow> (\<forall>\<sigma> es. row_count (xs @ ys) \<sigma> es = rows_due A plan vs tr fo (ps \<union> qs) \<sigma> es)"
    using xs(2) ys(3) by (simp add: due)
  moreover have "unarmed (ss_budget st) \<longrightarrow> unarmed (ss_budget st2)" using assms(1,2) by (simp add: adds_def) blast
  moreover have "\<forall>r \<in> set (xs @ ys). distinct (map fst (res_vars r))" using xs(4) ys(6) by auto
  ultimately show ?thesis unfolding adds_def using xs(3) ys(4,5) by blast
qed

text \<open>A part that stops leaves the rest of the work undone.\<close>

lemma adds_less:
  assumes "adds A plan vs tr fo limit False ps st st'" "ps \<subseteq> qs"
  shows "adds A plan vs tr fo limit False qs st st'"
proof -
  have "rows_due A plan vs tr fo ps \<sigma> es \<le> rows_due A plan vs tr fo qs \<sigma> es" for \<sigma> es
    using assms(2) by (auto simp: rows_due_def)
  then show ?thesis using assms(1) unfolding adds_def by (meson order.trans)
qed

lemma complete_assignment:
  assumes "map_of path \<subseteq>\<^sub>m \<sigma>" "map_of pins \<subseteq>\<^sub>m \<sigma>" "dom \<sigma> = fst ` set path \<union> fst ` set pins"
  shows "\<sigma> = map_of (path @ pins)"
proof
  fix y
  consider u where "map_of path y = Some u" | u where "map_of path y = None" "map_of pins y = Some u"
    | "map_of path y = None" "map_of pins y = None" by (meson not_Some_eq)
  then show "\<sigma> y = map_of (path @ pins) y"
  proof cases
    case (1 u)
    then have "\<sigma> y = Some u" using assms(1) by (metis domI map_le_def)
    then show ?thesis using 1 by (simp add: map_add_def)
  next
    case (2 u)
    then have "\<sigma> y = Some u" using assms(2) by (metis domI map_le_def)
    then show ?thesis using 2 by (simp add: map_add_def)
  next
    case 3
    then have "y \<notin> dom \<sigma>" unfolding assms(3) by (simp add: map_of_eq_None_iff)
    then show ?thesis using 3 by (auto simp: map_add_def)
  qed
qed

lemma append_assignment:
  assumes "fst ` set path \<inter> fst ` set pins = {}"
  shows "map_of path \<subseteq>\<^sub>m map_of (path @ pins)" "map_of pins \<subseteq>\<^sub>m map_of (path @ pins)"
    "dom (map_of (path @ pins)) = fst ` set path \<union> fst ` set pins"
proof -
  have "dom (map_of path) \<inter> dom (map_of pins) = {}" using assms by (simp add: dom_map_of_conv_image_fst)
  then have "map_of pins ++ map_of path = map_of path ++ map_of pins" by (simp add: map_add_comm Int_commute)
  then have "map_of (path @ pins) = map_of path ++ map_of pins" by simp
  then show "map_of path \<subseteq>\<^sub>m map_of (path @ pins)" "map_of pins \<subseteq>\<^sub>m map_of (path @ pins)"
    using map_le_map_add [of "map_of path" "map_of pins"] map_le_map_add [of "map_of pins" "map_of path"] by simp_all
  show "dom (map_of (path @ pins)) = fst ` set path \<union> fst ` set pins" by (auto simp: dom_map_of_conv_image_fst)
qed

lemma map_le_trans_snoc: "x \<notin> fst ` set path \<Longrightarrow> map_of path \<subseteq>\<^sub>m map_of (path @ [(x, v)])"
  using append_assignment(1) [of path "[(x, v)]"] by simp

lemma snoc_le: "x \<notin> fst ` set path \<Longrightarrow> map_of (path @ [(x, v)]) \<subseteq>\<^sub>m \<sigma> \<longleftrightarrow> map_of path \<subseteq>\<^sub>m \<sigma> \<and> \<sigma> x = Some v"
proof -
  assume "x \<notin> fst ` set path"
  then have "map_of path x = None" by (simp add: map_of_eq_None_iff)
  moreover from this have "map_of (path @ [(x, v)]) = (map_of path)(x \<mapsto> v)" by (rule_tac ext) (simp add: map_add_def split: option.split)
  ultimately show ?thesis by (auto simp: map_le_def dom_def)
qed

section \<open>The base case\<close>

lemma state_names: "state_at plan vs tr fo path names b st \<Longrightarrow> distinct names \<and> set names \<subseteq> vs \<and> length names \<le> card vs"
  using veo_order.ok_path veo_order.path_length unfolding state_at_def by blast

lemma emit_spec:
  assumes "\<not> (0 < limit \<and> limit \<le> length rs)"
  shows "\<exists>ok n. emit limit vars cs rs = (ok, rs @ map (\<lambda>c. \<lparr>res_vars = vars, res_eids = c\<rparr>) (take n cs))
    \<and> (ok \<longrightarrow> length cs \<le> n) \<and> (\<not> ok \<longrightarrow> 0 < limit \<and> limit \<le> length rs + min n (length cs))
    \<and> (0 < limit \<longrightarrow> length rs + min n (length cs) \<le> limit)"
  using assms
proof (induction cs arbitrary: rs)
  case Nil
  then show ?case by (intro exI [of _ True] exI [of _ 0]) auto
next
  case (Cons c cs)
  let ?rs = "rs @ [\<lparr>res_vars = vars, res_eids = c\<rparr>]"
  show ?case
  proof (cases "0 < limit \<and> limit \<le> length ?rs")
    case True
    then show ?thesis using Cons.prems by (intro exI [of _ False] exI [of _ 1]) (auto simp: Let_def not_le)
  next
    case False
    from Cons.IH [OF this] obtain ok n
      where "emit limit vars cs ?rs = (ok, ?rs @ map (\<lambda>c. \<lparr>res_vars = vars, res_eids = c\<rparr>) (take n cs))"
        "ok \<longrightarrow> length cs \<le> n" "\<not> ok \<longrightarrow> 0 < limit \<and> limit \<le> length ?rs + min n (length cs)" "0 < limit \<longrightarrow> length ?rs + min n (length cs) \<le> limit" by blast
    then show ?thesis using False by (intro exI [of _ ok] exI [of _ "Suc n"]) (auto simp: Let_def)
  qed
qed

lemma base_rows:
  assumes "plan_ok plan vs tr" "pins_ok plan vs" "state_at plan vs tr fo path (map fst path) False st" "fst ` set path = vs"
    and "filters_ok plan vs fo" "checked A plan fo path" "\<not> (0 < limit \<and> limit \<le> length (ss_results st))"
  shows "\<exists>ok st'. base_case A plan limit st = Some (ok, st') \<and> state_at plan vs tr fo path (map fst path) False st' \<and> adds A plan vs tr fo limit ok {path} st st'"
proof -
  let ?pins = "lp_pinned plan" and ?t = "ss_tuple st"
  have st: "iters_at tr (\<lambda>k. fixed_at plan k path) (ss_iterators st)" "tuple_at plan vs path ?t" "veo_ok vs (map fst path) False (ss_veo st)"
    "fixed_order (ss_veo st) = fo"
    using assms(3) by (simp_all add: state_at_def)
  have dist: "distinct (map fst path)" using state_names [OF assms(3)] by simp
  have len: "length path = card vs" using distinct_card [OF dist] assms(4) by simp
  have t: "?t = path @ ?pins" "length ?t = lp_num_vars plan"
    using st(2) append_take_drop_id [of "length path" ?t] len by (simp_all add: tuple_at_def)
  define \<beta> where "\<beta> = map_of (path @ ?pins)"
  have find: "find_var ?t = \<beta>" unfolding \<beta>_def t(1) by (rule ext) (rule find_var_map_of)
  have disj: "fst ` set path \<inter> fst ` set ?pins = {}" using assms(2,4) by (auto simp: pins_ok_def)
  note \<beta> = append_assignment [OF disj, folded \<beta>_def]
  let ?Ms = "map (triple_edges A plan vs tr \<beta>) [0..<length tr]"
  have its: "length (ss_iterators st) = length tr" using st(1) by (simp add: iters_at_def)
  have lists: "(\<exists>xss. eid_lists A plan \<beta> 0 (ss_iterators st) = Some (Some xss) \<and> map mset xss = ?Ms)
      \<or> (eid_lists A plan \<beta> 0 (ss_iterators st) = Some None \<and> {#} \<in> set ?Ms)"
  proof (rule eid_lists_edges)
    fix k assume "k < length (ss_iterators st)"
    then have k: "k < length tr" by (simp only: its)
    then show "\<exists>es. ltj_eids_all (ss_iterators st ! k) = Some es \<and> filter_mset (edge_admits A plan \<beta> (0 + k)) (mset es) = ?Ms ! k"
      using eids_match [OF assms(1) st(1) assms(4) dist \<beta>(1) k] by simp
  qed (simp add: its)
  have filters: "\<forall>f \<in> plan_filters plan fo. filter_true A \<beta> f"
  proof -
    have "length order = length (map fst path)" if "fo = Some order" for order
      using that st(3,4) len by (auto simp: fixed_order_def veo_ok_def distinct_card split: veo.splits)
    from passed_complete [OF assms(5) _ dist this] assms(4) have "passed plan fo (map fst path) = plan_filters plan fo" by simp
    then show ?thesis using assms(6) \<beta>(1) unfolding checked_def by auto
  qed
  have only: "\<sigma> = \<beta>" if "map_of path \<subseteq>\<^sub>m \<sigma>" "join_count A plan vs tr fo \<sigma> es \<noteq> 0" for \<sigma> es
    using complete_assignment [OF that(1), of ?pins] that(2) assms(4) by (simp add: join_count_def \<beta>_def split: if_splits)
  have at_\<beta>: "join_count A plan vs tr fo \<beta> es = picks ?Ms es" for es
    using \<beta> filters assms(4) by (simp add: join_count_def)
  have vars: "take (lp_num_vars plan) ?t = ?t" "\<not> length ?t < lp_num_vars plan" using t(2) by simp_all
  from lists show ?thesis
  proof (elim disjE exE conjE)
    fix xss assume xss: "eid_lists A plan \<beta> 0 (ss_iterators st) = Some (Some xss)" "map mset xss = ?Ms"
    from emit_spec [OF assms(7), of ?t "cartesian xss"] obtain ok n
      where emit: "emit limit ?t (cartesian xss) (ss_results st) = (ok, ss_results st @ map (\<lambda>c. \<lparr>res_vars = ?t, res_eids = c\<rparr>) (take n (cartesian xss)))"
        "ok \<longrightarrow> length (cartesian xss) \<le> n" "\<not> ok \<longrightarrow> 0 < limit \<and> limit \<le> length (ss_results st) + min n (length (cartesian xss))"
        "0 < limit \<longrightarrow> length (ss_results st) + min n (length (cartesian xss)) \<le> limit" by blast
    let ?new = "map (\<lambda>c. \<lparr>res_vars = ?t, res_eids = c\<rparr>) (take n (cartesian xss))"
    let ?st' = "st\<lparr>ss_results := ss_results st @ ?new\<rparr>"
    have run: "base_case A plan limit st = Some (ok, ?st')"
      unfolding base_case_def Let_def if_not_P [OF vars(2)] vars(1) find xss(1) by (simp add: emit(1))
    have new: "row_count ?new \<sigma> es = (if \<sigma> = \<beta> then count (mset (take n (cartesian xss))) es else 0)" for \<sigma> es
      unfolding row_count_same by (simp add: \<beta>_def t(1))
    have due: "rows_due A plan vs tr fo {path} \<sigma> es = (if \<sigma> = \<beta> then count (mset (cartesian xss)) es else 0)" for \<sigma> es
    proof (cases "\<sigma> = \<beta>")
      case True
      then show ?thesis using \<beta>(1) at_\<beta> by (simp add: rows_due_def count_cartesian xss(2))
    next
      case False
      have "map_of path \<subseteq>\<^sub>m \<sigma> \<Longrightarrow> join_count A plan vs tr fo \<sigma> es = 0" using only False by blast
      then show ?thesis using False by (simp add: rows_due_def)
    qed
    have part: "count (mset (take n (cartesian xss))) es \<le> count (mset (cartesian xss)) es" for es
      by (metis append_take_drop_id count_union le_add1 mset_append)
    have "adds A plan vs tr fo limit ok {path} st ?st'"
      unfolding adds_def
    proof (intro exI [of _ ?new] conjI allI impI)
      have "distinct (map fst ?t)" using t(1) dist disj assms(2) by (auto simp: pins_ok_def)
      then show "\<forall>r \<in> set ?new. distinct (map fst (res_vars r))" by auto
      show "row_count ?new \<sigma> es \<le> rows_due A plan vs tr fo {path} \<sigma> es" for \<sigma> es unfolding new due using part by simp
      show "row_count ?new \<sigma> es = rows_due A plan vs tr fo {path} \<sigma> es" if ok for \<sigma> es unfolding new due using that emit(2) by simp
      show "stopped limit ?st'" if "\<not> ok" using that emit(3) by (simp add: stopped_def min.commute)
      show "length (ss_results ?st') \<le> limit" if "0 < limit \<and> length (ss_results st) \<le> limit" using that emit(4) by (simp add: min.commute)
    qed simp_all
    moreover have "state_at plan vs tr fo path (map fst path) False ?st'" using assms(3) by (simp add: state_at_def)
    ultimately show ?thesis using run by blast
  next
    assume none: "eid_lists A plan \<beta> 0 (ss_iterators st) = Some None" "{#} \<in> set ?Ms"
    have run: "base_case A plan limit st = Some (True, st)"
      unfolding base_case_def Let_def if_not_P [OF vars(2)] vars(1) find none(1) by simp
    have "join_count A plan vs tr fo \<sigma> es = 0" if "map_of path \<subseteq>\<^sub>m \<sigma>" for \<sigma> es
      using only [OF that, of es] at_\<beta> [of es] picks_empty [OF none(2)] by auto
    then have "adds A plan vs tr fo limit True {path} st st" by (intro adds_none) auto
    then show ?thesis using run assms(3) by blast
  qed
qed

section \<open>One candidate\<close>

text \<open>What the search below a candidate does.\<close>

definition rec_ok ::
    "join_graph \<Rightarrow> ltj_plan \<Rightarrow> u8 set \<Rightarrow> join_triple list \<Rightarrow> u8 list option \<Rightarrow> nat \<Rightarrow> (nat \<Rightarrow> search_state \<Rightarrow> search_result) \<Rightarrow> (u8 \<times> u32) list \<Rightarrow> bool" where
  "rec_ok A plan vs tr fo limit rec path \<longleftrightarrow>
     (\<forall>st. state_at plan vs tr fo path (map fst path) False st \<longrightarrow> checked A plan fo path \<longrightarrow>
        (\<exists>ok st'. rec (length path) st = Some (ok, st') \<and> state_at plan vs tr fo path (map fst path) False st' \<and> adds A plan vs tr fo limit ok {path} st st'))"

lemma tuple_at_update:
  assumes "tuple_at plan vs path t" "pins_ok plan vs" "length path < card vs"
  shows "tuple_at plan vs (path @ [b]) (t[length path := b])" "length path < length t"
proof -
  have t: "length t = lp_num_vars plan" "take (length path) t = path" "drop (card vs) t = lp_pinned plan"
    using assms(1) by (simp_all add: tuple_at_def)
  then show len: "length path < length t" using assms(2,3) by (simp add: pins_ok_def)
  have "take (Suc (length path)) (t[length path := b]) = path @ [b]"
    using len t(2) by (simp add: take_Suc_conv_app_nth)
  then show "tuple_at plan vs (path @ [b]) (t[length path := b])" using t assms(3) by (simp add: tuple_at_def drop_update_cancel)
qed

lemma tuple_at_prefix: "tuple_at plan vs (path @ [b]) t \<Longrightarrow> tuple_at plan vs path t"
  unfolding tuple_at_def by (metis append_eq_conv_conj length_append_singleton lessI less_imp_le min.absorb1 take_take)

lemma visit_rows:
  assumes "plan_ok plan vs tr" "pins_ok plan vs" "filters_ok plan vs fo"
    and "state_at plan vs tr fo path (map fst path @ [x]) True st" "checked A plan fo path" "rec_ok A plan vs tr fo limit rec (path @ [(x, v)])"
  shows "\<exists>ok st'. visit A plan rec (length path) x (occ_of plan x) v st = Some (ok, st')
    \<and> state_at plan vs tr fo path (map fst path @ [x]) True st' \<and> adds A plan vs tr fo limit ok {path @ [(x, v)]} st st'"
proof -
  let ?path = "path @ [(x, v)]" and ?names = "map fst path @ [x]"
  let ?t = "(ss_tuple st)[length path := (x, v)]"
  have st: "iters_at tr (\<lambda>k. fixed_at plan k path) (ss_iterators st)" "veo_ok vs ?names True (ss_veo st)" "fixed_order (ss_veo st) = fo"
    "tuple_at plan vs path (ss_tuple st)"
    using assms(4) by (simp_all add: state_at_def)
  have names: "distinct ?names" "set ?names \<subseteq> vs" "length path < card vs" using state_names [OF assms(4)] by simp_all
  have x: "x \<in> vs" "fst ` set path \<subseteq> vs" "x \<notin> fst ` set path" using names by auto
  note tup = tuple_at_update(1) [OF st(4) assms(2) names(3), of "(x, v)"] tuple_at_update(2) [OF st(4) assms(2) names(3)]
  have pins: "fst ` set (lp_pinned plan) \<inter> vs = {}" using assms(2) by (simp add: pins_ok_def)
  define st1 where "st1 = st\<lparr>ss_tuple := ?t\<rparr>"
  have take: "take (Suc (length path)) ?t = ?path" using tup(1) by (simp add: tuple_at_def)
  have due: "(\<forall>f \<in> passed plan fo ?names. filter_true A \<sigma> f)
      \<longleftrightarrow> (\<forall>f \<in> passed plan fo (map fst path). filter_true A \<sigma> f) \<and> check_filters A plan (ss_veo st) (length path) ?t"
    if "map_of ?path \<subseteq>\<^sub>m \<sigma>" for \<sigma>
    by (rule check_filters_due [OF assms(3) st(3,2) take that pins])
  have enter: "visit A plan rec (length path) x (occ_of plan x) v st =
      (if \<not> check_filters A plan (ss_veo st) (length path) ?t then Some (True, st1)
       else
         Option.bind (down_all (occ_of plan x) v (ss_iterators st)) (\<lambda>its.
         Option.bind (veo_down (min_size plan its) (ss_veo st)) (\<lambda>veo.
         Option.bind (rec (length path + 1) (st1\<lparr>ss_iterators := its, ss_veo := veo, ss_visits := ss_visits st + 1\<rparr>)) (\<lambda>(ok, st).
         Option.bind (veo_up (ss_veo st)) (\<lambda>veo.
         Option.bind (up_all (occ_of plan x) (ss_iterators st)) (\<lambda>its.
         Some (ok, st\<lparr>ss_veo := veo, ss_iterators := its\<rparr>)))))))"
    using tup(2) by (simp add: visit_def Let_def st1_def)
  show ?thesis
  proof (cases "check_filters A plan (ss_veo st) (length path) ?t")
    case False
    have "join_count A plan vs tr fo \<sigma> es = 0" if "map_of ?path \<subseteq>\<^sub>m \<sigma>" for \<sigma> es
      using due [OF that] False passed_subset [of plan fo ?names] by (auto simp: join_count_def)
    then have "adds A plan vs tr fo limit True {?path} st st1" by (intro adds_none) (auto simp: st1_def)
    moreover have "state_at plan vs tr fo path ?names True st1"
      using st tuple_at_prefix [OF tup(1)] by (simp add: state_at_def st1_def)
    ultimately show ?thesis using enter False by (intro exI [of _ True] exI [of _ st1]) simp
  next
    case True
    obtain its where its: "down_all (occ_of plan x) v (ss_iterators st) = Some its"
      "iters_at tr (\<lambda>k. fixed_at plan k path @ at_triple k v (occ_of plan x)) its"
    proof -
      have "distinct (occ_of plan x)" using assms(1) x(1) unfolding plan_ok_def by blast
      from down_all_at [OF st(1) _ this] open_position [OF assms(1) x(1) _ x(2,3)] that show ?thesis by blast
    qed
    then have at: "iters_at tr (\<lambda>k. fixed_at plan k ?path) its" by simp
    have "min_size plan its y \<noteq> None" if "y \<in> vs - set ?names" for y
      by (rule min_size_total [OF assms(1) _ _ _ at]) (use that x in auto)
    with veo_order.down_closed [OF st(2)] obtain veo where veo: "veo_down (min_size plan its) (ss_veo st) = Some veo" "veo_ok vs ?names False veo"
      by blast
    let ?st2 = "st1\<lparr>ss_iterators := its, ss_veo := veo, ss_visits := ss_visits st + 1\<rparr>"
    have "state_at plan vs tr fo ?path (map fst ?path) False ?st2"
      using at veo(2) fixed_order_steps(2) [OF veo(1)] st(3) tup(1) by (simp add: state_at_def st1_def)
    moreover have "checked A plan fo ?path"
    proof -
      have "\<forall>f \<in> passed plan fo ?names. filter_true A \<sigma> f" if "map_of ?path \<subseteq>\<^sub>m \<sigma>" for \<sigma>
        using due [OF that] True assms(5) snoc_le [OF x(3)] that by (auto simp: checked_def)
      then show ?thesis by (simp add: checked_def)
    qed
    ultimately obtain ok st3 where st3: "rec (length path + 1) ?st2 = Some (ok, st3)" "state_at plan vs tr fo ?path ?names False st3"
      "adds A plan vs tr fo limit ok {?path} ?st2 st3"
      using assms(6) by (auto simp: rec_ok_def)
    have at3: "iters_at tr (\<lambda>k. fixed_at plan k path @ at_triple k v (occ_of plan x)) (ss_iterators st3)" and veo3: "veo_ok vs ?names False (ss_veo st3)"
      and tup3: "tuple_at plan vs ?path (ss_tuple st3)" using st3(2) by (simp_all add: state_at_def)
    from veo_order.up_opened [OF veo3] obtain veo' where veo': "veo_up (ss_veo st3) = Some veo'" "veo_ok vs ?names True veo'" by blast
    have in_range: "k < length tr" if "(k, p) \<in> set (occ_of plan x)" for k p using open_position(1) [OF assms(1) x(1) that x(2,3)] .
    have "\<exists>its'. up_all (occ_of plan x) (ss_iterators st3) = Some its' \<and> iters_at tr (\<lambda>k. fixed_at plan k path) its'"
      by (rule up_all_at [OF at3 length_at_triple]) (erule in_range)
    then obtain its' where its': "up_all (occ_of plan x) (ss_iterators st3) = Some its'"
      "iters_at tr (\<lambda>k. fixed_at plan k path) its'" by blast
    let ?st' = "st3\<lparr>ss_veo := veo', ss_iterators := its'\<rparr>"
    have "visit A plan rec (length path) x (occ_of plan x) v st = Some (ok, ?st')"
      using enter True its(1) veo(1) st3(1) veo'(1) its'(1) by simp
    moreover have "state_at plan vs tr fo path ?names True ?st'"
      using its'(2) veo'(2) fixed_order_steps(3) [OF veo'(1)] st3(2) tuple_at_prefix [OF tup3] by (simp add: state_at_def)
    moreover have "adds A plan vs tr fo limit ok {?path} st ?st'" by (rule adds_cong [OF st3(3)]) (simp_all add: st1_def)
    ultimately show ?thesis by blast
  qed
qed

section \<open>One level\<close>

lemma visit_all_rows:
  assumes "plan_ok plan vs tr" "pins_ok plan vs" "filters_ok plan vs fo" "checked A plan fo path" "\<And>v. rec_ok A plan vs tr fo limit rec (path @ [(x, v)])"
    and "state_at plan vs tr fo path (map fst path @ [x]) True st" "distinct vals"
  shows "\<exists>ok st'. visit_all (visit A plan rec (length path) x (occ_of plan x)) vals st = Some (ok, st')
    \<and> state_at plan vs tr fo path (map fst path @ [x]) True st' \<and> adds A plan vs tr fo limit ok ((\<lambda>v. path @ [(x, v)]) ` set vals) st st'"
  using assms(6,7)
proof (induction vals arbitrary: st)
  case Nil
  then show ?case by (auto intro: adds_none)
next
  case (Cons v vals)
  from visit_rows [OF assms(1-3) Cons.prems(1) assms(4,5)] obtain ok1 st1
    where st1: "visit A plan rec (length path) x (occ_of plan x) v st = Some (ok1, st1)"
      "state_at plan vs tr fo path (map fst path @ [x]) True st1" "adds A plan vs tr fo limit ok1 {path @ [(x, v)]} st st1" by blast
  show ?case
  proof (cases ok1)
    case True
    from Cons.IH [OF st1(2)] Cons.prems(2) obtain ok st2
      where st2: "visit_all (visit A plan rec (length path) x (occ_of plan x)) vals st1 = Some (ok, st2)"
        "state_at plan vs tr fo path (map fst path @ [x]) True st2" "adds A plan vs tr fo limit ok ((\<lambda>v. path @ [(x, v)]) ` set vals) st1 st2" by auto
    have x: "x \<notin> fst ` set path" using state_names [OF Cons.prems(1)] by simp
    have "adds A plan vs tr fo limit ok ({path @ [(x, v)]} \<union> (\<lambda>v. path @ [(x, v)]) ` set vals) st st2"
      by (rule adds_union [OF _ st2(3)]) (use st1(3) True Cons.prems(2) snoc_le [OF x] in auto)
    then show ?thesis using st1(1) st2(1,2) True by simp
  next
    case False
    from st1(3) False have "adds A plan vs tr fo limit False {path @ [(x, v)]} st st1" by simp
    from adds_less [OF this] have "adds A plan vs tr fo limit False ((\<lambda>v. path @ [(x, v)]) ` set (v # vals)) st st1" by simp
    then show ?thesis using st1(1,2) False by auto
  qed
qed

text \<open>Once the seek is a least candidate, the loop over it visits the candidates in ascending order.\<close>

lemma sorted_from:
  fixes D :: "u32 set"
  assumes "finite D" "least_from c D = Some v"
  shows "sorted_list_of_set {w \<in> D. c \<le> w} = v # sorted_list_of_set {w \<in> D. v < w}"
proof -
  have v: "v \<in> D" "c \<le> v" "\<forall>w \<in> D. c \<le> w \<longrightarrow> v \<le> w" using least_from_Some [OF assms(1)] assms(2) by simp_all
  have "{w \<in> D. c \<le> w} = insert v {w \<in> D. v < w}" using v by force
  moreover have "sorted_list_of_set (insert v {w \<in> D. v < w}) = v # sorted_list_of_set {w \<in> D. v < w}"
    using assms(1) by (subst sorted_list_of_set_insert_remove) (auto intro!: insort_is_Cons)
  ultimately show ?thesis by simp
qed

lemma above_value: "(v :: u32) \<noteq> - 1 \<Longrightarrow> {w \<in> D. v + 1 \<le> w} = {w \<in> D. v < w}"
  by (auto simp: word_le_nat_alt word_less_nat_alt unatSuc [unfolded Suc_eq_plus1])
    (metis Suc_eq_plus1 Suc_leI Suc_le_lessD add.commute unatSuc word_less_nat_alt add_eq_0_iff)+

lemma leap_loop_visits:
  assumes "finite D" "- 1 \<notin> D"
    and "\<And>st c. I st \<Longrightarrow> seek occ (ss_iterators st) (Some c) = Some (least_from c D)"
    and "\<And>v st. v \<in> D \<Longrightarrow> I st \<Longrightarrow> \<exists>ok st'. step v st = Some (ok, st') \<and> I st'"
    and "I st"
  shows "leap_loop step occ (least_from c D) st = visit_all step (sorted_list_of_set {w \<in> D. c \<le> w}) st"
  using assms(5)
proof (induction "card {w \<in> D. c \<le> w}" arbitrary: c st rule: less_induct)
  case less
  show ?case
  proof (cases "least_from c D")
    case None
    then have empty: "{w \<in> D. c \<le> w} = {}" by (auto simp: not_le)
    show ?thesis unfolding empty None by (simp add: leap_loop.simps)
  next
    case (Some v)
    have v: "v \<in> D" "c \<le> v" using least_from_Some [OF assms(1)] Some by simp_all
    then have max: "v \<noteq> - 1" using assms(2) by auto
    obtain ok st' where st': "step v st = Some (ok, st')" "I st'" using assms(4) [OF v(1) less.prems] by blast
    have "card {w \<in> D. v + 1 \<le> w} < card {w \<in> D. c \<le> w}"
      unfolding above_value [OF max] using v assms(1) by (intro psubset_card_mono) auto
    from less.hyps [OF this st'(2)]
    have "leap_loop step occ (least_from (v + 1) D) st' = visit_all step (sorted_list_of_set {w \<in> D. v < w}) st'"
      unfolding above_value [OF max] .
    then show ?thesis using st' max assms(3) [OF st'(2), of "v + 1"] Some
      by (subst leap_loop.simps) (simp add: sorted_from [OF assms(1) Some])
  qed
qed

text \<open>No value of a triple is the last one, past which the seek would overflow.\<close>

definition below_max :: "join_triple list \<Rightarrow> bool" where
  "below_max tr \<longleftrightarrow> (\<forall>j \<in> set tr. \<forall>t \<in> set (jt_cands j). \<forall>p. proj p t \<noteq> - 1)"

lemma max_not_in_domain:
  assumes "plan_ok plan vs tr" "x \<in> vs" "below_max tr"
  shows "- 1 \<notin> domain_of plan tr path x"
proof
  assume max: "- 1 \<in> domain_of plan tr path x"
  obtain k p where kp: "(k, p) \<in> set (occ_of plan x)" "k < length tr"
  proof -
    have ne: "occ_of plan x \<noteq> []" and occ: "\<forall>(k, p) \<in> set (occ_of plan x). k < length tr \<and> p \<notin> fst ` set (jt_consts (tr ! k))"
      using assms(1,2) unfolding plan_ok_def by blast+
    have "hd (occ_of plan x) \<in> set (occ_of plan x)" using ne by simp
    then show ?thesis using that [of "fst (hd (occ_of plan x))" "snd (hd (occ_of plan x))"] bspec [OF occ] by (auto simp: split_beta)
  qed
  have "- 1 \<in> values_at (jt_cands (tr ! k)) (jt_consts (tr ! k) @ fixed_at plan k path) p"
    using max kp(1) by (force simp: domain_of_def)
  then obtain t where "t \<in> set (jt_cands (tr ! k))" "proj p t = - 1" by (auto simp: values_at_def)
  then show False using assms(3) kp(2) nth_mem by (auto simp: below_max_def)
qed

text \<open>An assignment of the join takes each variable from the candidates of its level.\<close>

lemma picks_nonempty: "picks Ms es \<noteq> 0 \<Longrightarrow> k < length Ms \<Longrightarrow> Ms ! k \<noteq> {#}"
  using picks_empty [of Ms es] nth_mem [of k Ms] by metis

lemma join_in_domain:
  assumes "join_count A plan vs tr fo \<sigma> es \<noteq> 0" "plan_ok plan vs tr" "x \<in> vs" "fst ` set path \<subseteq> vs" "x \<notin> fst ` set path"
    and "map_of path \<subseteq>\<^sub>m \<sigma>" "distinct (map fst path)" "\<And>k. k < length tr \<Longrightarrow> set (jt_live (tr ! k)) \<subseteq> set (jt_cands (tr ! k))"
  shows "\<exists>v \<in> domain_of plan tr path x. \<sigma> x = Some v"
proof -
  have dom: "dom \<sigma> = vs \<union> fst ` set (lp_pinned plan)" and pk: "picks (map (triple_edges A plan vs tr \<sigma>) [0..<length tr]) es \<noteq> 0"
    using assms(1) by (simp_all add: join_count_def split: if_splits)
  then obtain v where v: "\<sigma> x = Some v" using assms(3) by blast
  have "v \<in> values_at (jt_cands (tr ! k)) (jt_consts (tr ! k) @ fixed_at plan k path) p" if kp: "(k, p) \<in> set (occ_of plan x)" for k p
  proof -
    have k: "k < length tr" using open_position(1) [OF assms(2,3) kp assms(4,5)] .
    have "triple_edges A plan vs tr \<sigma> k \<noteq> {#}" using picks_nonempty [OF pk, of k] k by simp
    then obtain t where t: "t \<in> set (jt_live (tr ! k))" "triple_matches plan vs \<sigma> k (jt_consts (tr ! k)) t"
      unfolding triple_edges_def by (metis (no_types, lifting) filter_mset_eq_mempty_iff image_mset_is_empty_iff filter_empty_mset set_mset_mset)
    have "\<sigma> x = Some (proj p t)" using t(2) assms(3) kp by (simp add: triple_matches_def)
    moreover have "agrees (fixed_at plan k path) t"
      unfolding fixed_agrees [OF assms(6,7)] using t(2) assms(4) by (auto simp: triple_matches_def)
    moreover have "agrees (jt_consts (tr ! k)) t" using t(2) by (simp add: triple_matches_def)
    ultimately show ?thesis using v t(1) assms(8) [OF k] by (auto simp: values_at_def)
  qed
  then have "v \<in> domain_of plan tr path x" by (auto simp: domain_of_def)
  then show ?thesis using v by blast
qed

lemma search_level_rows:
  assumes "plan_ok plan vs tr" "pins_ok plan vs" "filters_ok plan vs fo" "below_max tr" "checked A plan fo path"
    and "\<And>v. rec_ok A plan vs tr fo limit rec (path @ [(x, v)])" "state_at plan vs tr fo path (map fst path @ [x]) True st"
  shows "\<exists>ok st'. search_level A plan rec (length path) x st = Some (ok, st')
    \<and> state_at plan vs tr fo path (map fst path @ [x]) True st' \<and> adds A plan vs tr fo limit ok {path} st st'"
proof -
  let ?I = "state_at plan vs tr fo path (map fst path @ [x]) True" and ?D = "domain_of plan tr path x" and ?occ = "occ_of plan x"
  let ?step = "visit A plan rec (length path) x ?occ"
  have names: "distinct (map fst path @ [x])" "set (map fst path @ [x]) \<subseteq> vs" using state_names [OF assms(7)] by simp_all
  then have x: "x \<in> vs" "fst ` set path \<subseteq> vs" "x \<notin> fst ` set path" "distinct (map fst path)" by auto
  have occ: "occurrences plan x = Some ?occ" "?occ \<noteq> []" using assms(1) x(1) unfolding plan_ok_def occ_of_def by force+
  have its: "iters_at tr (\<lambda>k. fixed_at plan k path) (ss_iterators s)" if "?I s" for s using that by (simp add: state_at_def)
  have seek: "seek ?occ (ss_iterators s) c = Some (least_from (case c of Some cv \<Rightarrow> cv | None \<Rightarrow> 0) ?D)" if "?I s" for s c
    by (rule seek_least [OF assms(1) x(1-3) its [OF that]])
  have visits: "\<exists>ok s'. ?step v s = Some (ok, s') \<and> ?I s'" if "?I s" for v s
    using visit_rows [OF assms(1-3) that assms(5,6)] by blast
  note fin = finite_domain [OF occ(2)]
  have all: "{w \<in> ?D. 0 \<le> w} = ?D" by simp
  have loop: "leap_loop ?step ?occ (least_from 0 ?D) st = visit_all ?step (sorted_list_of_set ?D) st"
    using leap_loop_visits [of ?D ?I ?occ ?step st 0, OF fin max_not_in_domain [OF assms(1) x(1) assms(4)] _ _ assms(7)] seek visits
    unfolding all by simp
  have run: "search_level A plan rec (length path) x st = visit_all ?step (sorted_list_of_set ?D) st"
  proof -
    have general: "Option.bind (seek ?occ (ss_iterators st) None) (\<lambda>c. leap_loop ?step ?occ c st) = visit_all ?step (sorted_list_of_set ?D) st"
      using seek [OF assms(7), of None] loop by simp
    consider k p where "?occ = [(k, p)]" | a b os where "?occ = a # b # os" using occ(2) by (metis list.exhaust surj_pair)
    then show ?thesis
    proof cases
      case (1 k p)
      note last = seek_all_domain [OF assms(1) x(1-3) its [OF assms(7)] 1]
      show ?thesis
        unfolding search_level_def occ(1) Option.bind.simps Let_def general
        using last by (simp add: 1 nth_opt_def)
    next
      case (2 a b os)
      then show ?thesis unfolding search_level_def occ(1) Option.bind.simps Let_def general by simp
    qed
  qed
  have "distinct (sorted_list_of_set ?D)" by simp
  from visit_all_rows [OF assms(1-3,5,6,7) this] obtain ok st'
    where st': "visit_all ?step (sorted_list_of_set ?D) st = Some (ok, st')" "?I st'"
      "adds A plan vs tr fo limit ok ((\<lambda>v. path @ [(x, v)]) ` set (sorted_list_of_set ?D)) st st'" by blast
  have live: "set (jt_live (tr ! k)) \<subseteq> set (jt_cands (tr ! k))" if "k < length tr" for k
    using its [OF assms(7)] that ltj_it.live_cands unfolding iters_at_def by blast
  have "adds A plan vs tr fo limit ok {path} st st'"
  proof (rule adds_equiv [OF st'(3)])
    fix \<sigma> es assume row: "join_count A plan vs tr fo \<sigma> es \<noteq> 0"
    show "(\<exists>p \<in> (\<lambda>v. path @ [(x, v)]) ` set (sorted_list_of_set ?D). map_of p \<subseteq>\<^sub>m \<sigma>) \<longleftrightarrow> (\<exists>p \<in> {path}. map_of p \<subseteq>\<^sub>m \<sigma>)"
      using join_in_domain [OF row assms(1) x(1-3) _ x(4) live] snoc_le [OF x(3)] fin by auto
  qed
  then show ?thesis using run st'(1,2) by auto
qed

section \<open>The whole search\<close>

lemma state_at_budget: "state_at plan vs tr fo path names b (st\<lparr>ss_budget := bu, ss_asks := n\<rparr>) = state_at plan vs tr fo path names b st"
  by (simp add: state_at_def)

lemma search_step_rows:
  assumes "plan_ok plan vs tr" "pins_ok plan vs" "filters_ok plan vs fo" "below_max tr" "checked A plan fo path"
    and "fst ` set path \<noteq> vs \<Longrightarrow> (\<And>x v. rec_ok A plan vs tr fo limit rec (path @ [(x, v)]))"
    and "state_at plan vs tr fo path (map fst path) False st"
  shows "\<exists>ok st'. search_step A plan limit env rec (length path) st = Some (ok, st')
    \<and> state_at plan vs tr fo path (map fst path) False st' \<and> adds A plan vs tr fo limit ok {path} st st'"
proof (cases "0 < limit \<and> limit \<le> length (ss_results st)")
  case True
  then show ?thesis using assms(7) adds_stop [of limit st st] by (auto simp: search_step_def stopped_def)
next
  case open_ended: False
  obtain e bu where asked: "expired (env (ss_asks st)) (ss_budget st) = (e, bu)" by fastforce
  let ?st = "st\<lparr>ss_budget := bu, ss_asks := ss_asks st + 1\<rparr>"
  have at: "state_at plan vs tr fo path (map fst path) False ?st" using assms(7) by (simp only: state_at_budget)
  then have veo: "veo_ok vs (map fst path) False (ss_veo ?st)" and order: "fixed_order (ss_veo ?st) = fo" by (simp_all add: state_at_def)
  have ask: "ask env st = (e, ?st)" by (simp add: ask_def asked)
  have full: "veo_size (ss_veo ?st) \<le> length path \<longleftrightarrow> fst ` set path = vs" using veo_order.complete_path [OF veo] by simp
  consider (expired) e | (base) "\<not> e" "fst ` set path = vs" | (level) "\<not> e" "fst ` set path \<noteq> vs" by blast
  then show ?thesis
  proof cases
    case expired
    have bu: "bu_tripped bu" using expired_tripped [of "env (ss_asks st)" "ss_budget st"] asked expired by simp
    then have "adds A plan vs tr fo limit False {path} st ?st" using asked by (intro adds_stop) (simp_all add: stopped_def)
    then show ?thesis using at expired open_ended by (auto simp: search_step_def ask)
  next
    case base
    have "\<not> (0 < limit \<and> limit \<le> length (ss_results ?st))" using open_ended by simp
    from base_rows [OF assms(1,2) at base(2) assms(3,5) this] obtain ok st'
      where base_run: "base_case A plan limit ?st = Some (ok, st')" "state_at plan vs tr fo path (map fst path) False st'"
        "adds A plan vs tr fo limit ok {path} ?st st'" by blast
    moreover have "adds A plan vs tr fo limit ok {path} st st'" using asked by (intro adds_cong [OF base_run(3)]) simp_all
    ultimately show ?thesis using base full unfolding search_step_def if_not_P [OF open_ended] by (simp add: ask)
  next
    case level
    then have "set (map fst path) \<noteq> vs" by simp
    from veo_order.pick_fresh [OF veo this] obtain x veo'
      where pick: "veo_next (ss_veo ?st) (length path) = Some (x, veo')" "veo_ok vs (map fst path @ [x]) True veo'" by auto
    have "state_at plan vs tr fo path (map fst path @ [x]) True (?st\<lparr>ss_veo := veo'\<rparr>)"
      using at pick(2) fixed_order_steps(1) [OF pick(1)] order by (simp add: state_at_def)
    from search_level_rows [OF assms(1-5) assms(6) [OF level(2)] this] obtain ok st1
      where st1: "search_level A plan rec (length path) x (?st\<lparr>ss_veo := veo'\<rparr>) = Some (ok, st1)"
        "state_at plan vs tr fo path (map fst path @ [x]) True st1" "adds A plan vs tr fo limit ok {path} (?st\<lparr>ss_veo := veo'\<rparr>) st1" by blast
    then have "veo_ok vs (map fst path @ [x]) True (ss_veo st1)" by (simp add: state_at_def)
    from veo_order.close_pops [OF this] obtain veo2 where veo2: "veo_done (ss_veo st1) = Some veo2" "veo_ok vs (map fst path) False veo2" by blast
    let ?st' = "st1\<lparr>ss_veo := veo2\<rparr>"
    have "state_at plan vs tr fo path (map fst path) False ?st'"
      using st1(2) veo2(2) fixed_order_steps(4) [OF veo2(1)] by (simp add: state_at_def)
    moreover have "adds A plan vs tr fo limit ok {path} st ?st'" using asked by (intro adds_cong [OF st1(3)]) simp_all
    moreover have "search_step A plan limit env rec (length path) st = Some (ok, ?st')"
      using level full pick(1) st1(1) veo2(1) unfolding search_step_def if_not_P [OF open_ended] by (simp add: ask)
    ultimately show ?thesis by blast
  qed
qed

lemma search_rows:
  assumes "plan_ok plan vs tr" "pins_ok plan vs" "filters_ok plan vs fo" "below_max tr"
    and "state_at plan vs tr fo path (map fst path) False st" "checked A plan fo path" "card vs \<le> length path + n"
  shows "\<exists>ok st'. search n A plan limit env (length path) st = Some (ok, st')
    \<and> state_at plan vs tr fo path (map fst path) False st' \<and> adds A plan vs tr fo limit ok {path} st st'"
  using assms(5-7)
proof (induction n arbitrary: path st)
  case 0
  have names: "distinct (map fst path)" "set (map fst path) \<subseteq> vs" using state_names [OF 0(1)] by simp_all
  have "card vs \<le> card (set (map fst path))" using distinct_card [OF names(1)] 0(3) by simp
  then have "fst ` set path = vs" using card_seteq [of vs "set (map fst path)"] assms(2) names(2) by (simp add: pins_ok_def)
  then show ?case using search_step_rows [OF assms(1-4) 0(2) _ 0(1)] by simp
next
  case (Suc n)
  have "rec_ok A plan vs tr fo limit (search n A plan limit env) (path @ [(x, v)])" for x v
    unfolding rec_ok_def
  proof (intro allI impI)
    fix s assume s: "state_at plan vs tr fo (path @ [(x, v)]) (map fst (path @ [(x, v)])) False s" "checked A plan fo (path @ [(x, v)])"
    have "card vs \<le> length (path @ [(x, v)]) + n" using Suc.prems(3) by simp
    from Suc.IH [OF s this] show "\<exists>ok st'. search n A plan limit env (length (path @ [(x, v)])) s = Some (ok, st')
      \<and> state_at plan vs tr fo (path @ [(x, v)]) (map fst (path @ [(x, v)])) False st' \<and> adds A plan vs tr fo limit ok {path @ [(x, v)]} s st'" .
  qed
  then show ?case using search_step_rows [OF assms(1-4) Suc.prems(2) _ Suc.prems(1)] by simp
qed

text \<open>The state a run starts from.\<close>

lemma fresh_tuple_at:
  assumes "pins_ok plan vs" "veo_size veo = card vs"
  shows "tuple_at plan vs [] (fresh_tuple plan veo)"
proof -
  let ?n = "card vs" and ?pins = "lp_pinned plan"
  have fold: "fold (\<lambda>(i, b) tuple. let slot = ?n + i in if slot < length tuple then tuple[slot := b] else tuple) (List.enumerate m ps) (xs @ ys)
      = xs @ ps @ drop (length ps) ys"
    if "length xs = ?n + m" "length ps \<le> length ys" for m ps xs and ys :: "(u8 \<times> u32) list"
    using that
  proof (induction ps arbitrary: m xs ys)
    case (Cons p ps)
    then obtain y zs where ys: "ys = y # zs" by (cases ys) simp_all
    have "(xs @ ys)[?n + m := p] = (xs @ [p]) @ zs" using Cons.prems(1) ys by (simp add: list_update_append)
    then show ?case using Cons.IH [of "xs @ [p]" "Suc m" zs] Cons.prems ys by (simp add: Let_def)
  qed simp
  have "replicate (lp_num_vars plan) (0, 0) = replicate ?n (0 :: u8, 0 :: u32) @ replicate (length ?pins) (0, 0)"
    using assms(1) by (simp add: pins_ok_def replicate_add)
  then have "fresh_tuple plan veo = replicate ?n (0, 0) @ ?pins"
    using fold [of "replicate ?n (0, 0)" 0 ?pins "replicate (length ?pins) (0, 0)"] assms(2) by (simp add: fresh_tuple_def)
  then show ?thesis using assms(1) by (simp add: tuple_at_def pins_ok_def)
qed

text \<open>A join that is ready to run: a well-formed plan, fresh iterators and a fresh order.\<close>

definition join_ready :: "ltj_plan \<Rightarrow> u8 set \<Rightarrow> join_triple list \<Rightarrow> ltj_iter list \<Rightarrow> veo \<Rightarrow> bool" where
  "join_ready plan vs tr its veo \<longleftrightarrow>
     plan_ok plan vs tr \<and> pins_ok plan vs \<and> filters_ok plan vs (fixed_order veo) \<and> below_max tr
     \<and> (\<forall>(deps, _) \<in> set (lp_filters_dyn plan). deps \<noteq> []) \<and> iters_at tr (\<lambda>_. []) its \<and> veo_ok vs [] False veo"

text \<open>
  Whatever the limit and the budget, a run returns rows of the join, each at most as often as
  the join has it, and no more than the limit; it returns all of them unless it stopped.
\<close>

lemma run_join_rows:
  assumes "join_ready plan vs tr its veo"
  shows "\<exists>rows st. run_join A plan its veo limit b env = Some (rows, st)
    \<and> (\<forall>\<sigma> es. row_count rows \<sigma> es \<le> join_count A plan vs tr (fixed_order veo) \<sigma> es)
    \<and> (0 < limit \<longrightarrow> length rows \<le> limit) \<and> (\<forall>r \<in> set rows. distinct (map fst (res_vars r)))
    \<and> ((\<forall>\<sigma> es. row_count rows \<sigma> es = join_count A plan vs tr (fixed_order veo) \<sigma> es)
        \<or> (0 < limit \<and> length rows = limit) \<or> (bu_tripped (ss_budget st) \<and> \<not> unarmed b))"
proof -
  have ok: "plan_ok plan vs tr" "pins_ok plan vs" "filters_ok plan vs (fixed_order veo)" "below_max tr" "veo_ok vs [] False veo"
    using assms(1) by (simp_all add: join_ready_def)
  have size: "veo_size veo = card vs" using veo_order.ok_path [OF ok(5)] by simp
  let ?st = "\<lparr>ss_iterators = its, ss_veo = veo, ss_visits = 0, ss_tuple = fresh_tuple plan veo, ss_results = [], ss_budget = b, ss_asks = 0\<rparr>"
  have at: "state_at plan vs tr (fixed_order veo) [] (map fst []) False ?st"
    using assms fresh_tuple_at [OF ok(2) size] by (simp add: state_at_def join_ready_def)
  have "passed plan (fixed_order veo) [] = {}"
    using assms(1) by (cases "fixed_order veo") (auto simp: passed_def join_ready_def)
  then have "checked A plan (fixed_order veo) []" by (simp add: checked_def)
  from search_rows [OF ok(1-4) at this, where n = "veo_size veo" and limit = limit and env = env] obtain ended st'
    where st': "search (veo_size veo) A plan limit env 0 ?st = Some (ended, st')" "adds A plan vs tr (fixed_order veo) limit ended {[]} ?st st'"
    by (auto simp: size)
  have "rows_due A plan vs tr (fixed_order veo) {[]} \<sigma> es = join_count A plan vs tr (fixed_order veo) \<sigma> es" for \<sigma> es
    by (simp add: rows_due_def)
  then have "(\<forall>\<sigma> es. row_count (ss_results st') \<sigma> es \<le> join_count A plan vs tr (fixed_order veo) \<sigma> es)
    \<and> (0 < limit \<longrightarrow> length (ss_results st') \<le> limit) \<and> (\<forall>r \<in> set (ss_results st'). distinct (map fst (res_vars r)))
    \<and> ((\<forall>\<sigma> es. row_count (ss_results st') \<sigma> es = join_count A plan vs tr (fixed_order veo) \<sigma> es)
        \<or> (0 < limit \<and> length (ss_results st') = limit) \<or> (bu_tripped (ss_budget st') \<and> \<not> unarmed b))"
    using st'(2) by (cases ended) (auto simp: adds_def stopped_def unarmed_def)
  then show ?thesis using st'(1) by (auto simp: run_join_def)
qed

end
