(* ===== verification/LtjSessions.thy ===== *)
theory LtjSessions
  imports LtjIndexes
begin

text \<open>
  The in-memory store keeps the promise a refresh relies on, through every mutation of a
  session but a change of an edge's labels; and what goes wrong with a label of an edge the
  session inserted before the index was built.
\<close>

section \<open>Sessions that do not relabel edges\<close>

fun relabels_edge :: "mutation \<Rightarrow> bool" where
  "relabels_edge (AddEdgeLabel e l) = True"
| "relabels_edge (RemoveEdgeLabel e l) = True"
| "relabels_edge _ = False"

definition edge_core :: "overlay_edge \<Rightarrow> u32 \<times> u32 \<times> bool \<times> label_type" where
  "edge_core e = (oe_src e, oe_tgt e, oe_directed e, oe_labels e)"

definition edges_grow :: "overlay \<Rightarrow> overlay \<Rightarrow> bool" where
  "edges_grow ov ov' \<longleftrightarrow>
     ov_base_edge_count ov' = ov_base_edge_count ov \<and> ov_mod_edge_labels ov' = ov_mod_edge_labels ov
     \<and> (\<exists>xs. map edge_core (ov_new_edges ov') = map edge_core (ov_new_edges ov) @ xs)
     \<and> set (ov_deleted_edges ov) \<subseteq> set (ov_deleted_edges ov')"

lemma edges_grow_refl [simp]: "edges_grow ov ov"
  by (simp add: edges_grow_def)

lemma edges_grow_trans: "edges_grow a b \<Longrightarrow> edges_grow b c \<Longrightarrow> edges_grow a c"
  by (auto simp: edges_grow_def)

lemma edges_grow_update:
  assumes "\<And>e. edge_core (g e) = edge_core e"
  shows "edges_grow ov (update_new_edge i g ov)"
proof -
  have "map edge_core (xs[k := g (xs ! k)]) = map edge_core xs" for xs :: "overlay_edge list" and k
    by (cases "k < length xs") (auto simp: nth_list_update assms intro!: nth_equalityI)
  then show ?thesis by (auto simp: edges_grow_def update_new_edge_def Let_def)
qed

lemma edges_grow_same:
  "ov_base_edge_count ov' = ov_base_edge_count ov \<Longrightarrow> ov_mod_edge_labels ov' = ov_mod_edge_labels ov \<Longrightarrow>
   ov_new_edges ov' = ov_new_edges ov \<Longrightarrow> set (ov_deleted_edges ov) \<subseteq> set (ov_deleted_edges ov') \<Longrightarrow> edges_grow ov ov'"
  by (simp add: edges_grow_def)

lemma mutation_grows: "\<not> relabels_edge m \<Longrightarrow> edges_grow (ovl G) (ovl (apply_mutation m G))"
proof (cases m)
  case (InsertEdge s t d lt ps)
  then show ?thesis
    by (auto simp: apply_mutation_def mg_insert_edge_def ov_insert_edge_def with_overlay_def edges_grow_def Let_def)
next
  case (SetEdgeProp e k v)
  then show ?thesis by (auto simp: apply_mutation_def mg_set_edge_prop_def with_overlay_def Let_def edge_core_def
      intro: edges_grow_update edges_grow_same)
next
  case (ReplaceEdgeProps e ps)
  then show ?thesis by (auto simp: apply_mutation_def mg_replace_edge_props_def with_overlay_def Let_def edge_core_def
      intro: edges_grow_update edges_grow_same)
next
  case (RemoveEdgeProp e k)
  then show ?thesis by (auto simp: apply_mutation_def mg_remove_edge_prop_def with_overlay_def Let_def edge_core_def
      intro: edges_grow_update edges_grow_same)
next
  case (DeleteNode n)
  then show ?thesis by (auto simp: apply_mutation_def mg_delete_node_no_detach_def ov_delete_node_def touch_node_def with_overlay_def
      intro: edges_grow_same)
qed (auto simp: apply_mutation_def mg_insert_node_def ov_insert_node_def touch_node_def with_overlay_def mg_delete_edge_def ov_delete_edge_def
    mg_detach_delete_node_def ov_delete_node_def fold_delete_edge fold_list_insert mg_set_node_prop_def mg_replace_node_props_def
    mg_remove_node_prop_def mg_add_node_label_def mg_remove_node_label_def update_new_node_def Let_def intro!: edges_grow_same)

lemma session_grows: "list_all (\<lambda>m. \<not> relabels_edge m) ms \<Longrightarrow> edges_grow (ovl G) (ovl (run_session ms G))"
proof (induction ms arbitrary: G)
  case (Cons m ms)
  then show ?case using edges_grow_trans [OF mutation_grows [of m G]] by (simp add: run_session_def)
qed (simp add: run_session_def)

section \<open>The promise\<close>

lemma grown_read:
  assumes "edges_grow ov ov'" "unat e < unat (ov_base_edge_count ov) + length (ov_new_edges ov)"
  shows "map_option edge_core (get_new_edge e ov') = map_option edge_core (get_new_edge e ov)"
proof -
  obtain xs where xs: "map edge_core (ov_new_edges ov') = map edge_core (ov_new_edges ov) @ xs" and base: "ov_base_edge_count ov' = ov_base_edge_count ov"
    using assms(1) by (auto simp: edges_grow_def)
  have len: "length (ov_new_edges ov) \<le> length (ov_new_edges ov')" using arg_cong [OF xs, of length] by simp
  show ?thesis
  proof (cases "e < ov_base_edge_count ov")
    case False
    let ?i = "unat (e - ov_base_edge_count ov)"
    have i: "?i < length (ov_new_edges ov)" using False assms(2) by (simp add: unat_sub_if_size word_less_nat_alt)
    have "map edge_core (ov_new_edges ov') ! ?i = map edge_core (ov_new_edges ov) ! ?i" unfolding xs using i by (simp add: nth_append)
    then show ?thesis using False i len by (simp add: get_new_edge_def vec_get_def base)
  qed (simp add: get_new_edge_def base)
qed

lemma grown_edges:
  assumes "overlay_wf G" "edges_grow (ovl G) ov'" "unat e < all_edges G"
  defines "G' \<equiv> with_overlay G ov'"
  shows "mg_src G' e = mg_src G e" "mg_tgt G' e = mg_tgt G e" "mg_is_directed G' e = mg_is_directed G e" "mg_edge_label G' e = mg_edge_label G e"
proof -
  have "map_option edge_core (get_new_edge e ov') = map_option edge_core (get_new_edge e (ovl G))"
    using assms(3) by (intro grown_read [OF assms(2)]) (simp add: all_edges_def base_edges_def)
  moreover have "ov_mod_edge_labels ov' = ov_mod_edge_labels (ovl G)" using assms(2) by (simp add: edges_grow_def)
  ultimately show "mg_src G' e = mg_src G e" "mg_tgt G' e = mg_tgt G e" "mg_is_directed G' e = mg_is_directed G e" "mg_edge_label G' e = mg_edge_label G e"
    by (auto simp: G'_def with_overlay_def mg_src_def mg_tgt_def mg_is_directed_def mg_edge_label_def edge_core_def split: option.splits)
qed

lemma live_overlay_ids:
  "map fst (filter (\<lambda>x. P (snd x)) (filter (\<lambda>x. Q (fst x)) (map (\<lambda>(i, e). (i, oe_directed e)) (filter (\<lambda>(i, e). \<not> is_edge_deleted i ov) zs))))
    = filter Q (map fst (filter (\<lambda>(i, e). \<not> is_edge_deleted i ov \<and> P (oe_directed e)) zs))"
  by (induction zs) auto

lemma base_ids_less: "i \<in> set (base_ids n) \<Longrightarrow> i < n"
  by (auto simp: base_ids_def word_less_nat_alt unat_of_nat)

lemma mem_session_follows:
  assumes "graph_wf G" "graph_wf G'" "G' = with_overlay G ov'" "edges_grow (ovl G) ov'" "ov_mod_edge_labels (ovl G) = []"
  shows "\<exists>live deleted nxt live' deleted' nxt'. mg_edge_mutations G = Some (live, deleted, nxt) \<and> mg_edge_mutations G' = Some (live', deleted', nxt')
    \<and> session_follows (mem_access G) (mem_access G') \<lparr>os_next_edge_id = nxt, os_deleted = deleted\<rparr> (live', deleted', nxt')"
proof -
  have wf: "overlay_wf G" "overlay_wf G'" using assms(1,2) by (simp_all add: graph_wf_def)
  have ov': "ovl G' = ov'" using assms(3) by (simp add: with_overlay_def)
  have mods: "ov_mod_edge_labels ov' = []" using assms(4,5) by (simp add: edges_grow_def)
  let ?n = "next_edge_id (ovl G)" and ?del = "ov_deleted_edges (ovl G)" and ?del' = "ov_deleted_edges ov'"
  let ?zs = "zip (overlay_ids (ov_base_edge_count ov') (ov_new_edges ov')) (ov_new_edges ov')"
  let ?live' = "map (\<lambda>(i, e). (i, oe_directed e)) (filter (\<lambda>(i, e). \<not> is_edge_deleted i ov') ?zs)"
  let ?stamp = "\<lparr>os_next_edge_id = ?n, os_deleted = ?del\<rparr>"
  have em: "mg_edge_mutations G' = Some (?live', ?del', next_edge_id ov')" using mods ov' by (simp add: mg_edge_mutations_def Let_def)
  have n: "unat ?n = all_edges G" "all_edges G \<le> all_edges G'"
  proof -
    have "all_edges G < 2 ^ 32" using overlay_wf_bounds(2) [OF wf(1)] by simp
    then show "unat ?n = all_edges G"
      by (simp add: next_edge_id_def all_edges_def base_edges_def unat_word_ariths unat_of_nat)
    have "length (ov_new_edges (ovl G)) \<le> length (ov_new_edges ov')" using assms(4)
      by (auto simp: edges_grow_def dest!: arg_cong [of _ _ length])
    then show "all_edges G \<le> all_edges G'" using assms(4) by (simp add: all_edges_def base_edges_def ov' edges_grow_def)
  qed
  have keep: "mg_src G' e = mg_src G e" "mg_tgt G' e = mg_tgt G e" "mg_is_directed G' e = mg_is_directed G e" "mg_edge_label G' e = mg_edge_label G e"
    if "unat e < all_edges G" for e
    unfolding assms(3) using grown_edges [OF wf(1) assms(4) that] by blast+
  have sub: "set ?del \<subseteq> set ?del'" using assms(4) by (simp add: edges_grow_def)
  have fresh: "map fst (filter (\<lambda>x. P (snd x)) (fresh_overlay ?stamp ?live')) = filter (\<lambda>e. ?n \<le> e) (new_edge_ids (\<lambda>e. P (oe_directed e)) ov')" for P
    using live_overlay_ids [of P "\<lambda>e. ?n \<le> e" ov' ?zs] by (simp add: fresh_overlay_def new_edge_ids_def split_def)
  have base: "filter (\<lambda>e. ?n \<le> e) (filter Q (base_ids (ov_base_edge_count ov'))) = []" for Q
  proof -
    have "ov_base_edge_count ov' = ov_base_edge_count (ovl G)" using assms(4) by (simp add: edges_grow_def)
    moreover have "unat (ov_base_edge_count (ovl G)) \<le> unat ?n" unfolding n(1) by (simp add: all_edges_def base_edges_def)
    ultimately show ?thesis
      by (auto simp: filter_empty_conv word_le_nat_alt dest!: base_ids_less) (metis leD order.trans word_less_nat_alt)
  qed
  have alive: "mg_is_edge_alive G' e \<longleftrightarrow> unat e < all_edges G' \<and> e \<notin> set ?del'" "mg_is_edge_alive G e \<longleftrightarrow> unat e < all_edges G \<and> e \<notin> set ?del" for e
    using alive_iff(2) [of G' e] alive_iff(2) [of G e] ov' by simp_all
  have split: "mset es' = mset (filter (\<lambda>e. e \<notin> set ?del') es) + mset (filter (\<lambda>e. ?n \<le> e) es')"
    if "distinct es" "distinct es'" "set es' = {e. mg_is_edge_alive G' e \<and> P (mg_is_directed G' e)}"
      "set es = {e. mg_is_edge_alive G e \<and> P (mg_is_directed G e)}" for es es' P
  proof -
    have "mset (filter (\<lambda>e. \<not> ?n \<le> e) es') = mset (filter (\<lambda>e. e \<notin> set ?del') es)"
    proof (rule set_eq_iff_mset_eq_distinct [THEN iffD1])
      show "set (filter (\<lambda>e. \<not> ?n \<le> e) es') = set (filter (\<lambda>e. e \<notin> set ?del') es)"
        using that(3,4) keep(3) sub n by (auto simp: alive word_le_nat_alt not_le)
    qed (use that(1,2) in simp_all)
    then show ?thesis by (metis add.commute mset_filter multiset_partition)
  qed
  have late: "filter (\<lambda>e. ?n \<le> e) (mg_edges_directed G') = map fst (filter snd (fresh_overlay ?stamp ?live'))"
    "filter (\<lambda>e. ?n \<le> e) (mg_edges_undirected G') = map fst (filter (\<lambda>x. \<not> snd x) (fresh_overlay ?stamp ?live'))"
    unfolding mg_edges_directed_def mg_edges_undirected_def Let_def ov' filter_append base fresh [of "\<lambda>b. b"] fresh [of Not] by simp_all
  have dir: "mset (mg_edges_directed G') = mset (filter (\<lambda>e. e \<notin> set ?del') (mg_edges_directed G)) + mset (map fst (filter snd (fresh_overlay ?stamp ?live')))"
    unfolding late [symmetric] by (rule split [OF set_edges(3) [OF wf(1)] set_edges(3) [OF wf(2)] set_edges(1) [OF wf(2)] set_edges(1) [OF wf(1)]])
  have und: "mset (mg_edges_undirected G') = mset (filter (\<lambda>e. e \<notin> set ?del') (mg_edges_undirected G)) + mset (map fst (filter (\<lambda>x. \<not> snd x) (fresh_overlay ?stamp ?live')))"
    unfolding late [symmetric] by (rule split [OF set_edges(4) [OF wf(1)] set_edges(4) [OF wf(2)] set_edges(2) [OF wf(2)] set_edges(2) [OF wf(1)]])
  have "session_follows (mem_access G) (mem_access G') ?stamp (?live', ?del', next_edge_id ov')"
    unfolding session_follows_def prod.case
  proof (intro conjI)
    show "\<forall>e \<in> set (ga_edges_directed (mem_access G)) \<union> set (ga_edges_undirected (mem_access G)). e \<notin> set (os_deleted ?stamp)
        \<and> (e \<notin> set ?del' \<longrightarrow> ga_src (mem_access G') e = ga_src (mem_access G) e \<and> ga_tgt (mem_access G') e = ga_tgt (mem_access G) e
          \<and> ga_edge_labels (mem_access G') e = ga_edge_labels (mem_access G) e)"
      using keep set_edges(1,2) [OF wf(1)] by (simp add: mem_access_def alive Un_def)
    show "\<forall>(e, _) \<in> set (fresh_overlay ?stamp ?live'). e \<notin> set ?del'" by (auto simp: fresh_overlay_def is_edge_deleted_def)
  qed (use dir und in \<open>simp_all add: mem_access_def\<close>)
  then show ?thesis using em assms(5) by (auto simp: mg_edge_mutations_def Let_def)
qed

section \<open>A session and its index\<close>

text \<open>
  C4: An index of either representation, plain or with mirrored edges, that was built over the
  in-memory store in the middle of a session and is refreshed after further mutations that
  change no edge's labels holds, whenever the refresh does not ask for a rebuild, as its live
  triples exactly the triples of the graph as it is now, each as often as the graph has it,
  under the extended label dictionary: a refresh is as good as a rebuild. No edge's labels
  were changed before the index was built, and for a mirrored index the graph has no
  undirected loop, which a refresh stores twice and a rebuild once.
\<close>

theorem session_refresh:
  assumes "graph_wf G" "session_ok ms G" "list_all (\<lambda>m. \<not> relabels_edge m) ms" "ov_mod_edge_labels (ovl G) = []"
    and "from_graph_impl compact (mem_access G) (mg_edge_mutations G) mirror = Some ti0"
    and "length (snd (index_triples (mem_access G) mirror)) < 2 ^ 32"
    and "refresh False ti0 (mem_access (run_session ms G)) (mg_edge_mutations (run_session ms G)) = Some ti"
    and "\<not> mirror \<or> (\<forall>e \<in> set (mg_edges_undirected (run_session ms G)). mg_src (run_session ms G) e \<noteq> mg_tgt (run_session ms G) e)"
  shows "\<exists>ts lv. index_holds ti ts lv \<and> mset lv = mset (graph_triples (mem_access (run_session ms G)) (ti_labels ti) mirror)"
proof -
  obtain d raw where raw: "index_triples (mem_access G) mirror = (d, raw)" by fastforce
  obtain ov where ov: "run_session ms G = with_overlay G ov" using run_session_overlay by blast
  have "ovl (run_session ms G) = ov" by (simp add: ov with_overlay_def)
  with session_grows [OF assms(3), of G] have "edges_grow (ovl G) ov" by simp
  from mem_session_follows [OF assms(1) run_session_wf [OF assms(1,2)] ov this assms(4)]
  obtain live deleted nxt live' deleted' nxt' where em: "mg_edge_mutations G = Some (live, deleted, nxt)"
      "mg_edge_mutations (run_session ms G) = Some (live', deleted', nxt')"
    and follows: "session_follows (mem_access G) (mem_access (run_session ms G)) \<lparr>os_next_edge_id = nxt, os_deleted = deleted\<rparr> (live', deleted', nxt')"
    by blast
  have "length raw < 2 ^ 32" using assms(6) raw by simp
  from from_graph_holds [OF assms(5) raw this] em(1)
  have ti0: "index_holds ti0 raw raw" "ti_labels ti0 = d" "ti_mirrored ti0 = mirror" "repr_for (ti_repr ti0) raw"
    "ti_stamp ti0 = \<lparr>os_next_edge_id = nxt, os_deleted = deleted\<rparr>" by simp_all
  have loops: "\<not> mirror \<or> (\<forall>e \<in> set (ga_edges_undirected (mem_access (run_session ms G))).
      ga_src (mem_access (run_session ms G)) e \<noteq> ga_tgt (mem_access (run_session ms G)) e)"
    using assms(8) by (simp add: mem_access_def)
  show ?thesis using refresh_holds [OF raw ti0(1,4,2,3) assms(7) [unfolded em(2)] follows [folded ti0(5)] loops] by blast
qed

definition sample_session :: "mutation list" where
  "sample_session = [InsertEdge 0 1 True (LLabel ''S'') [], DeleteEdge 0]"

lemma array_index:
  assumes "index_triples A False = (d, raw)" "em = Some (live, deleted, nxt)"
  shows "from_graph_impl False A em False = Some \<lparr>ti_repr = ArrayRepr (build_orderings raw), ti_delta = default_delta,
    ti_stamp = \<lparr>os_next_edge_id = nxt, os_deleted = deleted\<rparr>, ti_mirrored = False, ti_labels = d\<rparr>"
  using assms by (simp add: from_graph_impl_def stamp_overlay_def)

lemma array_refresh:
  assumes "refresh False ti A (Some now) = r" "delta_build A (ti_stamp ti) now (ti_labels ti) (ti_mirrored ti) = (d', delta)" "added_len delta \<le> MAX_DELTA_TRIPLES"
  shows "r = Some (rebased ti delta d')"
  using assms by (auto simp: refresh_def)

lemma sample_triples:
  "index_triples (mem_access sample_graph) False = (\<lparr>ld_ids = [(''R'', 0)], ld_labels = [''R'']\<rparr>, [(0, 0, 1, 0), (1, 0, 0, 0)])"
  "mg_edge_mutations sample_graph = Some ([], [], 1)"
  by code_simp+

lemma sample_session_state:
  "mg_edge_mutations (run_session sample_session sample_graph) = Some ([(1, True)], [0], 2)"
  "ga_src (mem_access (run_session sample_session sample_graph)) 1 = 0"
  "ga_tgt (mem_access (run_session sample_session sample_graph)) 1 = 1"
  "required_labels (ga_edge_labels (mem_access (run_session sample_session sample_graph)) 1) = [''S'']"
  by code_simp+

theorem session_refresh_witness:
  "\<exists>ti0 ti ts lv. from_graph_impl False (mem_access sample_graph) (mg_edge_mutations sample_graph) False = Some ti0
    \<and> refresh False ti0 (mem_access (run_session sample_session sample_graph)) (mg_edge_mutations (run_session sample_session sample_graph)) = Some ti
    \<and> index_holds ti ts lv \<and> mset lv = {#(0, 1, 1, 1)#}"
proof -
  let ?G' = "run_session sample_session sample_graph" and ?d = "\<lparr>ld_ids = [(''S'', 1), (''R'', 0)], ld_labels = [''R'', ''S'']\<rparr> :: label_dict"
  define old where "old = \<lparr>ti_repr = ArrayRepr (build_orderings [(0, 0, 1, 0), (1, 0, 0, 0)]), ti_delta = default_delta,
    ti_stamp = \<lparr>os_next_edge_id = 1, os_deleted = []\<rparr>, ti_mirrored = False, ti_labels = \<lparr>ld_ids = [(''R'', 0)], ld_labels = [''R'']\<rparr>\<rparr>"
  have ok: "session_ok sample_session sample_graph"
    by (simp add: sample_session_def mutation_ok_def sample_graph_alive labels_ok_def labels_from_strings_def) code_simp
  have build: "from_graph_impl False (mem_access sample_graph) (mg_edge_mutations sample_graph) False = Some old"
    unfolding old_def by (rule array_index [OF sample_triples])
  have "delta_build (mem_access ?G') (ti_stamp old) ([(1, True)], [0], 2) (ti_labels old) (ti_mirrored old)
      = (?d, \<lparr>td_added = build_orderings [(0, 1, 1, 1)], td_removed = [0]\<rparr>)"
    by (simp add: old_def delta_build_def sample_session_state push_delta_def id_for_def delta_triples_def)
  then have again: "refresh False old (mem_access ?G') (mg_edge_mutations ?G') = Some (rebased old \<lparr>td_added = build_orderings [(0, 1, 1, 1)], td_removed = [0]\<rparr> ?d)"
    unfolding sample_session_state(1) by (intro array_refresh [OF refl]) (simp_all add: added_len_def MAX_DELTA_TRIPLES_def build_orderings_def build_ordering_def)
  have small: "length (snd (index_triples (mem_access sample_graph) False)) < 2 ^ 32" by (simp add: sample_triples)
  have "list_all (\<lambda>m. \<not> relabels_edge m) sample_session" by (simp add: sample_session_def)
  moreover have "ov_mod_edge_labels (ovl sample_graph) = []" by code_simp
  ultimately obtain ts lv where "index_holds (rebased old \<lparr>td_added = build_orderings [(0, 1, 1, 1)], td_removed = [0]\<rparr> ?d) ts lv"
      "mset lv = mset (graph_triples (mem_access ?G') (ti_labels (rebased old \<lparr>td_added = build_orderings [(0, 1, 1, 1)], td_removed = [0]\<rparr> ?d)) False)"
    using session_refresh [OF sample_graph_wf ok _ _ build small again] by simp blast
  moreover have "graph_triples (mem_access ?G') ?d False = [(0, 1, 1, 1)]" by code_simp
  ultimately show ?thesis using build again by (intro exI conjI) (simp_all add: rebased_def)
qed

section \<open>A label added to an edge of the session\<close>

lemma required_strings: "required_labels (labels_from_strings ls) = ls"
proof -
  have "required_labels lt = ls" if "label_from_list ls = Some lt" for lt
    using that by (induction ls arbitrary: lt rule: label_from_list.induct) auto
  then show ?thesis by (auto simp: labels_from_strings_def label_from_list_None split: option.splits)
qed

lemma label_ids_injective:
  assumes "dict_ok d" "length (ld_labels d) \<le> 2 ^ 32" "map_of (ld_ids d) n = Some c" "map_of (ld_ids d) l = Some c"
  shows "n = l"
proof -
  obtain i j where i: "i < length (ld_labels d)" "ld_labels d ! i = n" "c = word_of_nat i"
    and j: "j < length (ld_labels d)" "ld_labels d ! j = l" "c = word_of_nat j"
    using assms(1,3,4) unfolding dict_ok_def by blast
  have "i < 2 ^ 32" "j < 2 ^ 32" using i(1) j(1) assms(2) by simp_all
  then have "i = j" using i(3) j(3) by (metis unat_u32)
  then show ?thesis using i(2) j(2) by simp
qed

text \<open>The change of an inserted edge is in none of the three numbers a refresh asks for.\<close>

lemma relabelled_mutations:
  assumes "ov_base_edge_count (ovl G) \<le> e"
  shows "mg_edge_mutations (apply_mutation (AddEdgeLabel e l) G) = mg_edge_mutations G"
proof -
  have ids: "map (\<lambda>(i, e). (i, oe_directed e)) (filter (\<lambda>(i, e). P i) (zip is xs)) = filter (\<lambda>(i, b). P i) (zip is (map oe_directed xs))" for P "is" xs
    by (induction "is" xs rule: list_induct2') auto
  have same: "map oe_directed (xs[k := (xs ! k)\<lparr>oe_labels := t\<rparr>]) = map oe_directed xs" for xs k t
    by (cases "k < length xs") (simp_all add: map_update list_update_same_conv list_update_beyond)
  show ?thesis using assms
    by (simp add: apply_mutation_def mg_add_edge_label_def mg_edge_mutations_def with_overlay_def update_new_edge_def Let_def ids same
        overlay_ids_def is_edge_deleted_def next_edge_id_def)
qed

lemma relabelled_edge:
  assumes "overlay_wf G" "mg_is_edge_alive G e" "ov_base_edge_count (ovl G) \<le> e"
  shows "l \<in> set (edge_names (mem_access (apply_mutation (AddEdgeLabel e l) G)) e)"
proof -
  have "unat (e - ov_base_edge_count (ovl G)) < length (ov_new_edges (ovl G))"
    using assms edge_alive_iff [OF assms(1), of e] by (simp add: all_edges_def base_edges_def unat_sub_if_size word_le_nat_alt) linarith
  then have "mg_edge_label (apply_mutation (AddEdgeLabel e l) G) e
      = label_type_with_added (oe_labels (ov_new_edges (ovl G) ! unat (e - ov_base_edge_count (ovl G)))) l"
    using assms(3) by (simp add: apply_mutation_def mg_add_edge_label_def mg_edge_label_def with_overlay_def update_new_edge_def Let_def
        get_new_edge_def vec_get_def linorder_not_less [symmetric] del: not_less)
  then show ?thesis by (auto simp: edge_names_def mem_access_def label_type_with_added_def required_strings Let_def)
qed

text \<open>
  C38: A label added to an edge that the session had inserted before its index was built is
  written into the inserted edge, not into the changed labels of the base, so the next refresh
  does not ask for a rebuild, and the index it gives has no triple of the edge under that
  label, although the graph has one under every dictionary; this is so for every store,
  edge and label the edge did not have. (The index is one without mirrored edges.)
\<close>

theorem relabelled_edge_stale:
  assumes "graph_wf G" "ov_mod_edge_labels (ovl G) = []"
    and "from_graph_impl compact (mem_access G) (mg_edge_mutations G) False = Some ti0"
    and "length (snd (index_triples (mem_access G) False)) < 2 ^ 32" "length (ld_labels (ti_labels ti0)) \<le> 2 ^ 32"
    and "mg_is_edge_alive G e" "ov_base_edge_count (ovl G) \<le> e" "l \<notin> set (edge_names (mem_access G) e)"
  shows "\<exists>ti ts lv. refresh False ti0 (mem_access (apply_mutation (AddEdgeLabel e l) G)) (mg_edge_mutations (apply_mutation (AddEdgeLabel e l) G)) = Some ti
    \<and> index_holds ti ts lv
    \<and> (\<forall>t \<in> set lv. edge_id t = e \<longrightarrow> map_of (ld_ids (ti_labels ti)) l \<noteq> Some (fst (snd t)))
    \<and> (\<forall>d. \<exists>t \<in> set (graph_triples (mem_access (apply_mutation (AddEdgeLabel e l) G)) d False). edge_id t = e \<and> fst (snd t) = label_id d l)"
proof -
  let ?G' = "apply_mutation (AddEdgeLabel e l) G" and ?A = "mem_access G"
  have wf: "overlay_wf G" using assms(1) by (simp add: graph_wf_def)
  obtain d raw where raw: "index_triples ?A False = (d, raw)" by fastforce
  have G: "G = with_overlay G (ovl G)" by (simp add: with_overlay_def)
  from mem_session_follows [OF assms(1,1) G edges_grow_refl assms(2)]
  obtain live deleted nxt where em: "mg_edge_mutations G = Some (live, deleted, nxt)"
    and follows: "session_follows ?A ?A \<lparr>os_next_edge_id = nxt, os_deleted = deleted\<rparr> (live, deleted, nxt)" by auto
  have "length raw < 2 ^ 32" using assms(4) raw by simp
  from from_graph_holds [OF assms(3) raw this] em
  have ti0: "index_holds ti0 raw raw" "ti_labels ti0 = d" "ti_mirrored ti0 = False" "repr_for (ti_repr ti0) raw"
    "ti_stamp ti0 = \<lparr>os_next_edge_id = nxt, os_deleted = deleted\<rparr>" by simp_all
  have none: "fresh_overlay (ti_stamp ti0) live = []"
  proof -
    let ?F = "fresh_overlay (ti_stamp ti0) live"
    have keep: "filter (\<lambda>e. e \<notin> set deleted) (ga_edges_directed ?A) = ga_edges_directed ?A"
      "filter (\<lambda>e. e \<notin> set deleted) (ga_edges_undirected ?A) = ga_edges_undirected ?A"
      using follows unfolding session_follows_def prod.case by (auto intro!: filter_True)
    have "mset (map fst (filter snd ?F)) = {#} \<and> mset (map fst (filter (\<lambda>x. \<not> snd x) ?F)) = {#}"
      using follows ti0(5) unfolding session_follows_def prod.case keep by (simp, blast)
    then have "filter snd ?F = []" "filter (\<lambda>x. \<not> snd x) ?F = []"
      unfolding filter_empty_conv by auto
    then show ?thesis unfolding filter_empty_conv by (metis list.set_intros(1) neq_Nil_conv)
  qed
  have build: "delta_build B (ti_stamp ti0) (live, deleted, nxt) d False = (d, \<lparr>td_added = build_orderings [], td_removed = []\<rparr>)" for B
  proof -
    have "fold (\<lambda>(e, directed) st. if e < os_next_edge_id (ti_stamp ti0) then st else f e directed st) live st = st"
      for f :: "u32 \<Rightarrow> bool \<Rightarrow> label_dict \<times> index_entry list \<Rightarrow> label_dict \<times> index_entry list" and st
      using none by (induction live arbitrary: st) (auto simp: fresh_overlay_def not_le split: if_splits)
    then show ?thesis by (simp add: delta_build_def ti0(5))
  qed
  let ?ti = "rebased ti0 \<lparr>td_added = build_orderings [], td_removed = []\<rparr> d"
  have again: "refresh False ti0 B (Some (live, deleted, nxt)) = Some ?ti" for B
    by (simp add: refresh_def ti0(2,3) build added_len_def MAX_DELTA_TRIPLES_def build_orderings_def build_ordering_def)
  from refresh_holds [OF raw ti0(1,4,2,3) again follows [folded ti0(5)]]
  obtain ts lv where lv: "index_holds ?ti ts lv" "mset lv = mset (graph_triples ?A d False)" by (auto simp: rebased_def)
  have alive: "e \<in> set (ga_edges_directed ?A) \<union> set (ga_edges_undirected ?A)"
    using assms(6) set_edges(1,2) [OF wf] by (simp add: mem_access_def)
  have old: "map_of (ld_ids d) l \<noteq> Some (fst (snd t))" if t: "t \<in> set lv" "edge_id t = e" for t
  proof
    assume l: "map_of (ld_ids d) l = Some (fst (snd t))"
    have "t \<in> set (graph_triples ?A d False)" using t(1) lv(2) by (metis set_mset_mset)
    then obtain b where "t \<in> set (edge_triples ?A d False b e)" using t(2) edge_triples_id by (fastforce simp: graph_triples_def)
    then obtain n where n: "n \<in> set (edge_names ?A e)" "fst (snd t) = label_id d n"
      by (auto simp: edge_triples_def directed_triples_def undirected_triples_def split: if_splits)
    obtain c where c: "map_of (ld_ids d) n = Some c" using index_triples_spec(2) [OF raw alive n(1)] by blast
    then have "map_of (ld_ids d) l = Some c" using l n(2) by (simp add: label_id_def)
    then have "n = l" using label_ids_injective [OF index_triples_spec(1) [OF raw] _ c] assms(5) ti0(2) by simp
    then show False using n(1) assms(8) by simp
  qed
  have new: "\<exists>t \<in> set (graph_triples (mem_access ?G') d' False). edge_id t = e \<and> fst (snd t) = label_id d' l" for d'
  proof -
    have wf': "overlay_wf ?G'" using mutation_step [OF assms(1), of "AddEdgeLabel e l"] by (simp add: mutation_ok_def graph_wf_def)
    have "mg_is_edge_alive ?G' e" using assms(6) edge_alive_iff [OF wf] edge_alive_iff [OF wf'] 
      by (simp add: apply_mutation_def mg_add_edge_label_def with_overlay_def update_new_edge_def Let_def all_edges_def base_edges_def)
    then obtain b where b: "e \<in> set (if b then ga_edges_directed (mem_access ?G') else ga_edges_undirected (mem_access ?G'))"
      using set_edges(1,2) [OF wf'] by (cases "mg_is_directed ?G' e") (auto simp: mem_access_def)
    have "(mg_src ?G' e, label_id d' l, mg_tgt ?G' e, e) \<in> set (edge_triples (mem_access ?G') d' False b e)"
      using relabelled_edge [OF wf assms(6,7), of l]
      by (auto simp: edge_triples_def directed_triples_def undirected_triples_def mem_access_def)
    then have "(mg_src ?G' e, label_id d' l, mg_tgt ?G' e, e) \<in> set (graph_triples (mem_access ?G') d' False)"
      using b by (cases b) (auto simp: graph_triples_def)
    then show ?thesis by force
  qed
  have "refresh False ti0 (mem_access ?G') (mg_edge_mutations ?G') = Some ?ti"
    unfolding relabelled_mutations [OF assms(7)] em by (rule again)
  moreover have "ti_labels ?ti = d" by (simp add: rebased_def)
  ultimately show ?thesis using lv(1) old new by (intro exI [of _ ?ti] exI [of _ ts] exI [of _ lv]) simp
qed

theorem relabelled_edge_stale_witness:
  "\<exists>ti0 ti ts lv. from_graph_impl False (mem_access (run_session [InsertEdge 0 1 True (LLabel ''S'') []] sample_graph))
      (mg_edge_mutations (run_session [InsertEdge 0 1 True (LLabel ''S'') []] sample_graph)) False = Some ti0
    \<and> refresh False ti0 (mem_access (run_session [InsertEdge 0 1 True (LLabel ''S'') [], AddEdgeLabel 1 ''R''] sample_graph))
        (mg_edge_mutations (run_session [InsertEdge 0 1 True (LLabel ''S'') [], AddEdgeLabel 1 ''R''] sample_graph)) = Some ti
    \<and> index_holds ti ts lv \<and> (\<forall>t \<in> set lv. edge_id t = 1 \<longrightarrow> map_of (ld_ids (ti_labels ti)) ''R'' \<noteq> Some (fst (snd t)))"
proof -
  let ?G = "run_session [InsertEdge 0 1 True (LLabel ''S'') []] sample_graph"
    and ?d = "\<lparr>ld_ids = [(''R'', 1), (''S'', 0)], ld_labels = [''S'', ''R'']\<rparr> :: label_dict"
  have "session_ok [InsertEdge 0 1 True (LLabel ''S'') []] sample_graph"
    by (simp add: mutation_ok_def sample_graph_alive labels_ok_def labels_from_strings_def)
  then have wf: "graph_wf ?G" by (rule run_session_wf [OF sample_graph_wf])
  have triples: "index_triples (mem_access ?G) False = (?d, [(0, 0, 1, 1), (0, 1, 1, 0), (1, 1, 0, 0)])" by code_simp
  have em: "mg_edge_mutations ?G = Some ([(1, True)], [], 2)" by code_simp
  note build = array_index [OF triples em]
  have edge: "ov_mod_edge_labels (ovl ?G) = []" "mg_is_edge_alive ?G 1" "ov_base_edge_count (ovl ?G) \<le> 1" "edge_names (mem_access ?G) 1 = [''S'']"
    by code_simp+
  have "run_session [InsertEdge 0 1 True (LLabel ''S'') [], AddEdgeLabel 1 ''R''] sample_graph = apply_mutation (AddEdgeLabel 1 ''R'') ?G"
    by (simp add: run_session_def)
  then show ?thesis
    using relabelled_edge_stale [OF wf edge(1) build _ _ edge(2,3), of "''R''"] build edge(4) by (auto simp: triples)
qed

end
