(* ===== verification/JoinRuns.thy ===== *)
theory JoinRuns
  imports JoinRows LtjSessions
begin

text \<open>
  What a run of the join promises its caller, on any index, elimination order, limit and
  budget, with a sample join.
\<close>

section \<open>A sample join\<close>

text \<open>
  Three edges, two of them parallel, and the chain of two edges over them: the variables 0, 1
  and 2, each triple with the constant label 0.
\<close>

definition sample_entries :: "index_entry list" where
  "sample_entries = [(0, 0, 1, 0), (1, 0, 2, 1), (1, 0, 2, 2)]"

definition sample_index :: triple_index where
  "sample_index = \<lparr>ti_repr = ArrayRepr (build_orderings sample_entries), ti_delta = default_delta, ti_stamp = default_stamp,
     ti_mirrored = False, ti_labels = \<lparr>ld_ids = [(''R'', 0)], ld_labels = [''R'']\<rparr>\<rparr>"

definition sample_plan :: ltj_plan where
  "sample_plan = \<lparr>lp_var_to_iterators = [[0], [0, 1], [1]], lp_var_to_positions = [[PosS], [PosO, PosS], [PosO]],
     lp_filters_at_level = [[], [], []], lp_num_vars = 3, lp_pinned = [], lp_filters_dyn = [],
     lp_triple_dir = [], lp_triple_label = [], lp_label_dict = None\<rparr>"

definition sample_join :: "join_triple list" where
  "sample_join = replicate 2 \<lparr>jt_cands = sample_entries, jt_live = sample_entries, jt_consts = [(PosP, 0)]\<rparr>"

lemma sample_index_holds: "index_holds sample_index sample_entries sample_entries"
  unfolding index_holds_def
  by (rule exI [of _ sample_entries], rule exI [of _ "[]"])
    (simp add: sample_index_def default_delta_def repr_for_def build_orderings_empty)

lemma all_spo_pos: "(\<forall>p. P p) \<longleftrightarrow> P PosS \<and> P PosP \<and> P PosO"
  by (metis spo_pos.exhaust)

lemma sample_occurrences: "occ_of sample_plan 0 = [(0, PosS)]" "occ_of sample_plan 1 = [(0, PosO), (1, PosS)]" "occ_of sample_plan 2 = [(1, PosO)]"
    "occurrences sample_plan 0 = Some [(0, PosS)]" "occurrences sample_plan 1 = Some [(0, PosO), (1, PosS)]" "occurrences sample_plan 2 = Some [(1, PosO)]"
  by (simp_all add: occ_of_def occurrences_def sample_plan_def nth_opt_def)

lemma sample_plan_ok: "plan_ok sample_plan {0, 1, 2} sample_join"
  unfolding plan_ok_def by (auto simp: sample_occurrences sample_join_def all_spo_pos less_Suc_eq numeral_2_eq_2)

lemma sample_ready: "\<exists>its. join_ready sample_plan {0, 1, 2} sample_join its (FixedVeo [0, 1, 2])"
proof -
  obtain it where it: "ltj_at sample_entries sample_entries [(PosP, 0)] [] it"
    using ltj_new_at [OF sample_index_holds, of "[Variable 0, Constant 0, Variable 1]"] by (auto simp: pattern_constants_def List.map_filter_def)
  have "iters_at sample_join (\<lambda>_. []) [it, it]"
    using it by (auto simp: iters_at_def sample_join_def less_Suc_eq numeral_2_eq_2)
  moreover have "below_max sample_join" by (simp add: below_max_def sample_join_def sample_entries_def all_spo_pos)
  moreover have "filters_ok sample_plan {0, 1, 2} (fixed_order (FixedVeo [0, 1, 2]))"
    by (simp add: filters_ok_def fixed_order_def sample_plan_def less_Suc_eq numeral_3_eq_3)
  ultimately show ?thesis
    unfolding join_ready_def using sample_plan_ok
    by (intro exI [of _ "[it, it]"]) (simp add: pins_ok_def sample_plan_def veo_ok_def)
qed

section \<open>Runs\<close>

text \<open>
  C3: A leapfrog triejoin that is ready to run ends, under every elimination order, fixed or
  adaptive, on either representation of the index and with session deltas, for every limit
  and budget; each row it returns binds no variable twice and is a row of the join, no more often than the join has it, at
  most as many rows as the limit come back, and all rows of the join come back unless the
  limit was reached or a budget that was armed ran out.
\<close>

theorem run_join_exact:
  assumes "join_ready plan vs tr its veo"
  shows "\<exists>rows st. run_join A plan its veo limit b env = Some (rows, st)
    \<and> (\<forall>\<sigma> es. row_count rows \<sigma> es \<le> join_count A plan vs tr (fixed_order veo) \<sigma> es)
    \<and> (0 < limit \<longrightarrow> length rows \<le> limit) \<and> (\<forall>r \<in> set rows. distinct (map fst (res_vars r)))
    \<and> ((\<forall>\<sigma> es. row_count rows \<sigma> es = join_count A plan vs tr (fixed_order veo) \<sigma> es)
        \<or> (0 < limit \<and> length rows = limit) \<or> (bu_tripped (ss_budget st) \<and> \<not> unarmed b))"
  by (rule run_join_rows [OF assms])

definition mem_join_graph :: "mem_graph \<Rightarrow> join_graph" where
  "mem_join_graph G = graph_access.extend (mem_access G) (join_graph.fields (mg_is_directed G))"

abbreviation sample_access :: join_graph where
  "sample_access \<equiv> mem_join_graph sample_graph"

lemma sample_rows:
  "join_count sample_access sample_plan {0, 1, 2} sample_join (Some [0, 1, 2]) [0 \<mapsto> 0, 1 \<mapsto> 1, 2 \<mapsto> 2] [0, 2] = 1"
proof -
  let ?s = "[0 \<mapsto> 0, 1 \<mapsto> 1, 2 \<mapsto> 2] :: u8 \<Rightarrow> u32 option"
  have t: "triple_matches sample_plan {0, 1, 2} ?s 0 [(PosP, 0)] = (\<lambda>(s, p, o', e). p = 0 \<and> s = 0 \<and> o' = 1)"
    "triple_matches sample_plan {0, 1, 2} ?s 1 [(PosP, 0)] = (\<lambda>(s, p, o', e). p = 0 \<and> s = 1 \<and> o' = 2)"
    by (auto simp: fun_eq_iff triple_matches_def agrees_def sample_occurrences)
  have adm: "edge_admits sample_access sample_plan ?s k e" for k and e :: u32
    by (simp add: edge_admits_def sample_plan_def nth_opt_def label_admits_def)
  have "triple_edges sample_access sample_plan {0, 1, 2} sample_join ?s 0 = {#0#}"
    "triple_edges sample_access sample_plan {0, 1, 2} sample_join ?s 1 = {#1, 2#}"
    unfolding triple_edges_def by (simp_all add: sample_join_def t [unfolded One_nat_def] sample_entries_def adm)
  then have "map (triple_edges sample_access sample_plan {0, 1, 2} sample_join ?s) [0..<length sample_join] = [{#0#}, {#1, 2#}]"
    by (simp add: sample_join_def numeral_2_eq_2)
  moreover have "dom ?s = {0, 1, 2}" by auto
  ultimately show ?thesis by (simp add: join_count_def sample_plan_def plan_filters_def)
qed

theorem run_join_exact_witness:
  "\<exists>its rows st. run_join sample_access sample_plan its (FixedVeo [0, 1, 2]) 0 unlimited (\<lambda>_. (0, False)) = Some (rows, st)
    \<and> row_count rows [0 \<mapsto> 0, 1 \<mapsto> 1, 2 \<mapsto> 2] [0, 2] = 1"
proof -
  obtain its where "join_ready sample_plan {0, 1, 2} sample_join its (FixedVeo [0, 1, 2])" using sample_ready by blast
  from run_join_exact [OF this, of sample_access 0 unlimited "\<lambda>_. (0, False)"] obtain rows st
    where "run_join sample_access sample_plan its (FixedVeo [0, 1, 2]) 0 unlimited (\<lambda>_. (0, False)) = Some (rows, st)"
      "\<forall>\<sigma> es. row_count rows \<sigma> es = join_count sample_access sample_plan {0, 1, 2} sample_join (Some [0, 1, 2]) \<sigma> es"
    by (auto simp: fixed_order_def)
  moreover from this(2) have "row_count rows [0 \<mapsto> 0, 1 \<mapsto> 1, 2 \<mapsto> 2] [0, 2] = 1" using sample_rows by simp
  ultimately show ?thesis by blast
qed

end
