(* ===== verification/LtjProperties.thy ===== *)
theory LtjProperties
  imports JoinRuns
begin

text \<open>
  The properties of the parts of the triejoin: the bit vectors and packed sequences under the
  compact index, the two representations as one iterator, the leapfrog, the adaptive
  elimination order and the search budget.
\<close>

section \<open>Bit vectors and sequences\<close>

lemma from_zero_positions_total: "len < 2 ^ 32 - 1 \<Longrightarrow> from_zero_positions len zs \<noteq> None"
  by (simp add: from_zero_positions_def Let_def split: prod.split)

text \<open>
  C30: A bit vector built from the ascending positions of its zeros answers \<open>select0\<close> with
  the k-th of them and \<open>succ0\<close> with the first one from a position on, or the length when
  there is none, through its samples and its two levels of successor tables.
\<close>

theorem zero_queries_exact:
  assumes "from_zero_positions len zs = Some bv" "sorted_wrt (<) (map unat zs)" "\<forall>p \<in> set zs. unat p < len"
  shows "(\<forall>k. 0 < k \<and> k \<le> length zs \<longrightarrow> select0 bv k = Some (unat (zs ! (k - 1))))
    \<and> (\<forall>i. succ0 bv i = (case filter (\<lambda>z. i \<le> z) (map unat zs) of [] \<Rightarrow> len | z # _ \<Rightarrow> z))"
proof -
  note built = from_zero_positions_ok [OF assms]
  show ?thesis using select0_nth [OF built(1)] succ0_next [OF built(1)] by (simp add: built(2) next_zero_def)
qed

theorem zero_queries_exact_witness:
  "\<exists>bv. from_zero_positions 70 [1, 4, 66] = Some bv \<and> select0 bv 3 = Some 66 \<and> succ0 bv 5 = 66 \<and> succ0 bv 67 = 70"
proof -
  have "from_zero_positions 70 [1, 4, 66] \<noteq> None" by (rule from_zero_positions_total) simp
  then obtain bv where bv: "from_zero_positions 70 [1, 4, 66] = Some bv" by blast
  from zero_queries_exact [OF bv] have "select0 bv 3 = Some 66" "succ0 bv 5 = 66" "succ0 bv 67 = 70" by simp_all
  then show ?thesis using bv by blast
qed

text \<open>
  C31: A sequence of 32-bit values packed at the width of its largest value reads back each
  value, across the boundaries of the 64-bit words.
\<close>

theorem packed_roundtrip: "i < length vs \<Longrightarrow> seq_get (seq_from_slice vs) i = vs ! i"
  by (rule seq_get_from_slice)

theorem packed_roundtrip_witness: "seq_get (seq_from_slice [3, 0, 4294967295]) 2 = 4294967295"
  using packed_roundtrip [of 2 "[3, 0, 4294967295]"] by simp

section \<open>The representations of the index\<close>

definition array_descend :: "(spo_pos \<times> u32) list \<Rightarrow> array_iter \<Rightarrow> array_iter option" where
  "array_descend ds it = fold (\<lambda>(p, v) o'. Option.bind o' (\<lambda>i. Some (array_down i p v))) ds (Some it)"

definition compact_descend :: "(spo_pos \<times> u32) list \<Rightarrow> compact_iter \<Rightarrow> compact_iter option" where
  "compact_descend ds it = fold (\<lambda>(p, v) o'. Option.bind o' (\<lambda>i. compact_down i p v)) ds (Some it)"

context trie_iter begin

lemma descend:
  assumes "ok ts lv cs fs i" "distinct (map fst (cs @ fs @ ds))"
  shows "\<exists>i'. fold (\<lambda>(p, v) o'. Option.bind o' (\<lambda>i. down i p v)) ds (Some i) = Some i' \<and> ok ts lv cs (fs @ ds) i'"
  using assms
proof (induction ds arbitrary: fs i)
  case (Cons d ds)
  obtain p v where d: "d = (p, v)" by (cases d)
  have "p \<notin> fst ` set (cs @ fs)" using Cons.prems(2) d by auto
  from down_fixed [OF Cons.prems(1) this] obtain i' where i': "down i p v = Some i'" "ok ts lv cs (fs @ [d]) i'" unfolding d by blast
  show ?case using Cons.IH [OF i'(2)] Cons.prems(2) i'(1) d by auto
qed simp

end

text \<open>Building the tries does not run into their assertion below a third of the range of identifiers.\<close>

lemma level_steps_length: "length (fst (fold (level_step l) ps st)) \<le> length (fst st) + length ps"
proof (induction ps arbitrary: st)
  case (Cons p ps)
  have "length (fst (level_step l p st)) \<le> Suc (length (fst st))" by (simp add: level_step_def split_def Let_def)
  with Cons [of "level_step l p st"] show ?case by simp
qed simp

lemma sym_level_length:
  assumes "rows \<noteq> []"
  shows "length (fst (sym_level rows l st)) \<le> length (fst st) + length rows"
proof -
  obtain syms zeros cum base where st: "st = (syms, zeros, cum, base)" by (cases st)
  have "length (fst (fold (level_step l) (zip rows (tl rows)) (syms, zeros, cum, 0))) + 1 \<le> length syms + length rows"
    using level_steps_length [of l "zip rows (tl rows)" "(syms, zeros, cum, 0)"] assms by (cases rows) simp_all
  then show ?thesis by (simp add: st sym_level_def split_def Let_def)
qed

lemma from_sorted_total:
  assumes "3 * length rows < 2 ^ 32 - 2"
  shows "from_sorted rows \<noteq> None"
proof -
  obtain syms zeros cum base
    where parts: "(if rows = [] then ([], [0], 0, 0) else fold (sym_level rows) [0..<3] ([], [0], 0, 0)) = (syms, zeros, cum, base)"
    by (metis prod_cases4)
  have "length (fst (fold (sym_level rows) ls st)) \<le> length (fst st) + length ls * length rows" if "rows \<noteq> []" for ls st
  proof (induction ls arbitrary: st)
    case (Cons l ls)
    show ?case using add_mono [OF Cons [of "sym_level rows l st"] sym_level_length [OF that, of l st]] by simp
  qed simp
  from this [of "[0..<3]" "([], [0], 0, 0)"] parts have "length syms \<le> 3 * length rows" by (cases "rows = []") auto
  then have "from_zero_positions (length syms + 1) zeros \<noteq> None" using assms by (intro from_zero_positions_total) simp
  then show ?thesis unfolding from_sorted_def parts by simp
qed

lemma index_from_raw_total:
  assumes "3 * length raw < 2 ^ 32 - 2"
  shows "index_from_raw raw \<noteq> None"
proof -
  have "build_tries cur work xs \<noteq> None" if "3 * length work < 2 ^ 32 - 2" for cur work xs
    using that
  proof (induction xs arbitrary: cur work)
    case (Cons x xs)
    obtain k nxt where x: "x = (k, nxt)" by (cases x)
    let ?cw = "if k \<noteq> 0 then (nxt, next_work cur nxt work) else (cur, work)"
    have small: "3 * length (snd ?cw) < 2 ^ 32 - 2" using Cons.prems by (simp add: next_work_def Let_def)
    show ?case
      using from_sorted_total [OF small] Cons.IH [OF small, of "fst ?cw"]
      by (auto simp: x split_def split: option.split)
  qed simp
  then show ?thesis using assms by (simp add: index_from_raw_def Let_def split_def)
qed

text \<open>
  C13: The compact tries are the sorted arrays: built over the same triples, and descended by
  the same values, the two iterators of a pattern leap to the same values, enumerate the same
  values at every open position, and once all three positions are fixed report the same
  edges, as often.
\<close>

theorem representations_agree:
  assumes "3 * length raw < 2 ^ 32 - 2" "length ps = 3" "distinct (map fst (pattern_constants ps @ ds))"
  shows "\<exists>ci c0 c a. index_from_raw raw = Some ci \<and> compact_new ps ci = Some c0 \<and> compact_descend ds c0 = Some c \<and> array_descend ds (array_new ps (build_orderings raw)) = Some a
    \<and> (\<forall>p. p \<notin> fst ` set (pattern_constants ps @ ds) \<longrightarrow>
         (\<forall>v. compact_leap c p v = array_leap a p v) \<and> compact_seek_all c p = array_seek_all a p)
    \<and> (length (pattern_constants ps @ ds) = 3 \<longrightarrow> map_option mset (compact_current_eids c) = Some (mset (array_current_eids_all a)))"
proof -
  let ?cs = "pattern_constants ps"
  obtain ci where ci: "index_from_raw raw = Some ci" using index_from_raw_total [OF assms(1)] by blast
  then have "index_for ci raw" using assms(1) by (simp add: index_for_def)
  from compact_new_at [OF this assms(2)] obtain c0 where c0: "compact_new ps ci = Some c0" "compact_at raw raw ?cs [] c0" by blast
  have "distinct (map fst (?cs @ [] @ ds))" using assms(3) by simp
  from compact_it.descend [OF c0(2) this] obtain c where c: "compact_descend ds c0 = Some c" "compact_at raw raw ?cs ds c"
    by (auto simp: compact_descend_def)
  from array_it.descend [OF array_new_at [OF assms(2)] \<open>distinct (map fst (?cs @ [] @ ds))\<close>] obtain a
    where a: "array_descend ds (array_new ps (build_orderings raw)) = Some a" "array_at raw raw ?cs ds a"
    by (auto simp: array_descend_def)
  have "compact_leap c p v = array_leap a p v" "compact_seek_all c p = array_seek_all a p" if "p \<notin> fst ` set (?cs @ ds)" for p v
    using compact_it.leap_least [OF c(2) that] array_it.leap_least [OF a(2) that]
      compact_it.seek_all_values [OF c(2) that] array_it.seek_all_values [OF a(2) that] by simp_all
  moreover have "map_option mset (compact_current_eids c) = Some (mset (array_current_eids_all a))" if "length (?cs @ ds) = 3"
    using compact_it.eids_live [OF c(2) that] array_it.eids_live [OF a(2) that] by auto
  ultimately show ?thesis using ci c0(1) c(1) a(1) by blast
qed

theorem representations_agree_witness:
  "\<exists>ci c0 c a. index_from_raw sample_entries = Some ci \<and> compact_new [Variable 0, Constant 0, Variable 1] ci = Some c0
    \<and> compact_descend [(PosS, 1)] c0 = Some c
    \<and> array_descend [(PosS, 1)] (array_new [Variable 0, Constant 0, Variable 1] (build_orderings sample_entries)) = Some a
    \<and> compact_leap c PosO 0 = array_leap a PosO 0 \<and> compact_seek_all c PosO = array_seek_all a PosO"
proof -
  have cs: "pattern_constants [Variable 0, Constant 0, Variable 1] = [(PosP, 0)]" by (simp add: pattern_constants_def List.map_filter_def)
  have "3 * length sample_entries < 2 ^ 32 - 2" by (simp add: sample_entries_def)
  from representations_agree [OF this, of "[Variable 0, Constant 0, Variable 1]" "[(PosS, 1)]"] show ?thesis by (auto simp: cs)
qed

section \<open>The leapfrog\<close>

text \<open>
  C14: The leapfrog intersection ends: over two or more iterators that each answer the least
  of their values from a bound on, it answers the least value they all hold from its start,
  and reports the end exactly when they share none.
\<close>

theorem leapfrog_least:
  assumes "2 \<le> length leaps" "length Vs = length leaps"
    and "\<forall>k < length leaps. \<forall>c. (leaps ! k) c = Some (least_from c (Vs ! k))" "\<forall>V \<in> set Vs. finite V"
  shows "leapfrog leaps 0 c 0 None = Some (least_from c (\<Inter> (set Vs)))"
  by (rule leapfrog_from) (use assms in auto)

theorem leapfrog_least_witness:
  "leapfrog [\<lambda>c. Some (least_from c {1, 4, 7}), \<lambda>c. Some (least_from c {2, 4, 9})] 0 0 0 None = Some (Some 4)"
proof -
  have "leapfrog [\<lambda>c. Some (least_from c {1, 4, 7}), \<lambda>c. Some (least_from c {2, 4, 9})] 0 0 0 None
      = Some (least_from 0 (\<Inter> (set [{1, 4, 7}, {2, 4, 9}])))"
    by (rule leapfrog_least) (auto simp: less_Suc_eq)
  moreover have "{1, 4, 7} \<inter> {2, 4, 9} = {4 :: u32}" by auto
  ultimately show ?thesis by (simp add: least_from_def)
qed

text \<open>
  The base case emits one row for each choice of one edge per triple, as often as the
  choice occurs: a combination comes back as many times as the product of the occurrences of
  its edges in the lists, so parallel edges are separate matches, and an empty list leaves
  none.
\<close>

theorem combinations_exact: "count (mset (cartesian xss)) ys = picks (map mset xss) ys"
  by (rule count_cartesian)

section \<open>The elimination order\<close>

text \<open>
  C15: Whatever the search does between two moments of a level of the adaptive order, any
  choices, descents, cardinalities and returns, the order comes back as it was but for the
  sequence of its pool: the same weights, positions, path and saved versions, so no binding
  leaks from one branch of the search into the next.
\<close>

theorem backtracking_restores:
  assumes "adaptive_ok vs path False v" "excursion v v'"
  shows "same_order v v'"
  using backtracking assms by blast

theorem backtracking_restores_witness:
  "\<exists>v x v1 v2 v3 v4. adaptive_new [(0, 5, False), (1, 7, False)] [[1], [0]] None (\<lambda>_. Some 3) = Some v
    \<and> adaptive_next v = Some (x, v1) \<and> adaptive_down (\<lambda>_. Some 2) v1 = Some v2 \<and> adaptive_up v2 = Some v3 \<and> adaptive_done v3 = Some v4
    \<and> same_order v v4"
proof -
  have "adaptive_new [(0, 5, False), (1, 7, False)] [[1], [0]] None (\<lambda>_. Some 3) \<noteq> None" by (rule adaptive_new_total) auto
  then obtain v where v: "adaptive_new [(0, 5, False), (1, 7, False)] [[1], [0]] None (\<lambda>_. Some 3) = Some v" by blast
  have ok: "adaptive_ok {0, 1} [] False v" using adaptive_new_ok [OF v] by simp
  obtain x v1 where v1: "adaptive_next v = Some (x, v1)" "adaptive_ok {0, 1} [x] True v1" using adaptive_next_ok [OF ok] by auto
  have "adaptive_down (\<lambda>_. Some 2) v1 \<noteq> None" by (rule adaptive_down_total [OF v1(2)]) simp
  then obtain v2 where v2: "adaptive_down (\<lambda>_. Some 2) v1 = Some v2" by blast
  have v3: "adaptive_up v2 = Some v1" using adaptive_down_ok [OF v1(2) v2] by simp
  obtain v4 where v4: "adaptive_done v1 = Some v4" using adaptive_done_ok [of "{0, 1}" "[]" x v1] v1(2) by auto
  have "visits v1 v1" by (rule visit [OF v2 stay v3 no_visit])
  from backtracking_restores [OF ok level [OF v1(1) this v4 stay]] show ?thesis using v v1(1) v2 v3 v4 by blast
qed

text \<open>
  Pinning a variable to a level behind its anchor fails only when one of the two is not
  in the order; otherwise it keeps the variables of the order and puts the anchor before the
  variable, wherever the level asked for lies.
\<close>

theorem anchor_precedes:
  assumes "distinct order" "var \<noteq> prereq"
  shows "(pin_at_after order var level prereq = None \<longleftrightarrow> var \<notin> set order \<or> prereq \<notin> set order)
    \<and> (\<forall>order'. pin_at_after order var level prereq = Some order' \<longrightarrow>
         mset order' = mset order \<and> (\<exists>us vs ws. order' = us @ prereq # vs @ var # ws))"
  by (rule pin_at_after_keeps [OF assms])

theorem anchor_precedes_witness: "\<exists>order'. pin_at_after [0, 1, 2] 1 0 2 = Some order' \<and> mset order' = {#0, 1, 2#}"
proof -
  have "distinct [0, 1, 2 :: u8]" "(1 :: u8) \<noteq> 2" by simp_all
  from anchor_precedes [OF this, of 0] obtain order' where "pin_at_after [0, 1, 2] 1 0 2 = Some order'" by force
  with anchor_precedes [OF \<open>distinct [0, 1, 2 :: u8]\<close> \<open>(1 :: u8) \<noteq> 2\<close>, of 0] show ?thesis by auto
qed

section \<open>The budget\<close>

text \<open>
  C32: A budget armed with a time limit ends the search that asks it: whatever readings it
  was asked with before, once every reading lies past the deadline at most \<open>STRIDE\<close> further
  asks let the search go on, and every later one stops it.
\<close>

theorem deadline_stops:
  assumes "\<forall>r \<in> set late. now + limit \<le> fst r"
  shows "\<exists>k \<le> STRIDE. drop (length early) (fst (asks (early @ late) (arm (Some limit) now b)))
    = replicate (min k (length late)) False @ replicate (length late - k) True"
proof -
  let ?armed = "\<lambda>b. bu_deadline b = Some (now + limit) \<and> bu_countdown b \<le> STRIDE"
  have keep: "?armed (snd (expired r b))" if "?armed b" for r b
    using that by (auto simp: expired_def Let_def)
  have invar: "?armed (snd (asks rs b)) \<and> length (fst (asks rs b)) = length rs" if "?armed b" for rs b
    using that
  proof (induction rs arbitrary: b)
    case (Cons r rs)
    then show ?case using keep [of b r] by (auto simp: split_def Let_def)
  qed simp
  define b1 where "b1 = snd (asks early (arm (Some limit) now b))"
  have first: "?armed (arm (Some limit) now b)" by (simp add: arm_def)
  have b1: "?armed b1" using invar [OF first] by (simp add: b1_def)
  have split: "drop (length early) (fst (asks (early @ late) (arm (Some limit) now b))) = fst (asks late b1)"
    using invar [OF first, of early] by (simp add: asks_append split_def Let_def b1_def)
  show ?thesis
  proof (cases "bu_tripped b1")
    case True
    then show ?thesis unfolding split using asks_tripped [OF True, of late] by (intro exI [of _ 0]) simp
  next
    case False
    have dl: "bu_deadline b1 \<noteq> None \<or> bu_cancel b1" using b1 by simp
    show ?thesis
    proof (cases "length late \<le> bu_countdown b1")
      case True
      then show ?thesis unfolding split using asks_countdown [OF False dl True] b1 by (intro exI [of _ "bu_countdown b1"]) simp
    next
      case long: False
      let ?c = "bu_countdown b1"
      obtain rs r ss where late: "late = rs @ r # ss" "length rs = ?c"
        using id_take_nth_drop [of ?c late] long by (metis length_take min.absorb4 not_less)
      have "asks rs b1 = (replicate ?c False, b1\<lparr>bu_countdown := 0\<rparr>)" using asks_countdown [OF False dl, of rs] late(2) by simp
      moreover have "expired r (b1\<lparr>bu_countdown := 0\<rparr>) = (True, b1\<lparr>bu_countdown := STRIDE, bu_tripped := True\<rparr>)"
        using assms late(1) b1 False by (simp add: expired_def Let_def)
      ultimately have "fst (asks late b1) = replicate ?c False @ replicate (Suc (length ss)) True"
        unfolding late(1) by (simp add: asks_append asks_tripped)
      then show ?thesis unfolding split using b1 late by (intro exI [of _ ?c]) simp
    qed
  qed
qed

theorem deadline_stops_witness:
  "\<exists>k \<le> STRIDE. fst (asks (replicate 5000 (8 :: nat, False)) (arm (Some 5) 3 unlimited)) = replicate k False @ replicate (5000 - k) True"
proof -
  have "\<forall>r \<in> set (replicate 5000 (8 :: nat, False)). 3 + 5 \<le> fst r" by simp
  from deadline_stops [OF this, of "[]" unlimited] obtain k
    where "k \<le> STRIDE" "fst (asks (replicate 5000 (8 :: nat, False)) (arm (Some 5) 3 unlimited)) = replicate (min k 5000) False @ replicate (5000 - k) True"
    by auto
  moreover have "min k 5000 = k" using \<open>k \<le> STRIDE\<close> by (simp add: STRIDE_def)
  ultimately show ?thesis by auto
qed

end
