(* ===== verification/LtjPatterns.thy ===== *)
theory LtjPatterns
  imports LeapSearch PathPatterns
begin

text \<open>
  The decomposition of a path pattern into triple patterns (\<open>decompose\<close> and the functions under
  it, \<open>src/runtime/ltj/pattern_extract.rs\<close>). The accumulators the code threads through are one
  record. The outer option of a result is a panic, the inner one the decision that the pattern
  does not decompose.
\<close>

section \<open>The decomposition\<close>

record extracted_filter =
  ef_depends_on :: "u8 list"
  ef_kind :: filter_kind

datatype edge_kind = RightKind | LeftKind | UndirectedKind | AnyDirKind

datatype 'e flat_element = FlatNode "'e descriptor option" | FlatEdge edge_kind "'e descriptor option"

text \<open>Source and target variable of a triple, the name of its edge, its kind and its labels.\<close>

type_synonym triple_info = "u8 \<times> u8 \<times> string option \<times> edge_kind \<times> edge_label_req"

record decomposition =
  dc_triples :: "triple_pattern list"
  dc_var_ids :: "(string \<times> u8) list"
  dc_id_to_name :: "string list"
  dc_filters :: "extracted_filter list"
  dc_internal :: "u8 list"
  dc_info :: "triple_info list"
  dc_fresh :: u32
  dc_joins :: "(nat \<times> nat) list"

definition empty_decomposition :: decomposition where
  "empty_decomposition = \<lparr>dc_triples = [], dc_var_ids = [], dc_id_to_name = [], dc_filters = [], dc_internal = [],
     dc_info = [], dc_fresh = 0, dc_joins = []\<rparr>"

definition and_then :: "'a option option \<Rightarrow> ('a \<Rightarrow> 'b option option) \<Rightarrow> 'b option option" where
  "and_then m f = Option.bind m (\<lambda>r. case r of None \<Rightarrow> Some None | Some x \<Rightarrow> f x)"

lemma and_then_simps [simp]:
  "and_then None f = None" "and_then (Some None) f = Some None" "and_then (Some (Some x)) f = f x"
  by (simp_all add: and_then_def)

section \<open>Variables\<close>

text \<open>An identifier is the number of names before it, cut to eight bits.\<close>

definition get_or_create :: "string \<Rightarrow> decomposition \<Rightarrow> u8 \<times> decomposition" where
  "get_or_create name dc =
     (case map_of (dc_var_ids dc) name of
        Some i \<Rightarrow> (i, dc)
      | None \<Rightarrow>
          let i = word_of_nat (length (dc_id_to_name dc))
          in (i, dc\<lparr>dc_id_to_name := dc_id_to_name dc @ [name], dc_var_ids := (name, i) # dc_var_ids dc\<rparr>))"

definition fresh_var :: "decomposition \<Rightarrow> u8 \<times> decomposition" where
  "fresh_var dc =
     (let (i, dc') = get_or_create (''_ltj_'' @ digits (unat (dc_fresh dc))) (dc\<lparr>dc_fresh := dc_fresh dc + 1\<rparr>)
      in (i, dc'\<lparr>dc_internal := dc_internal dc' @ [i]\<rparr>))"

definition descriptor_filters :: "u8 \<Rightarrow> 'e descriptor \<Rightarrow> extracted_filter list" where
  "descriptor_filters v d =
     map (\<lambda>l. \<lparr>ef_depends_on = [v], ef_kind = NodeLabel v l\<rparr>) (required_labels (dt_label (d_type d)))
     @ map (\<lambda>(a, op, w). \<lparr>ef_depends_on = [v], ef_kind = NodeAttrCmp v a op w\<rparr>) (d_value_preds d)"

definition node_var :: "'e descriptor option \<Rightarrow> decomposition \<Rightarrow> u8 \<times> decomposition" where
  "node_var desc dc =
     (let (v, dc) = (case Option.bind desc d_var of Some name \<Rightarrow> get_or_create name dc | None \<Rightarrow> fresh_var dc)
      in (v, case desc of None \<Rightarrow> dc | Some d \<Rightarrow> dc\<lparr>dc_filters := dc_filters dc @ descriptor_filters v d\<rparr>))"

section \<open>Predicates\<close>

text \<open>How many triples of an index carry a label.\<close>

definition label_size :: "triple_index \<Rightarrow> u32 \<Rightarrow> nat option" where
  "label_size ti lid = Option.bind (ltj_new [Variable 0, Constant lid, Variable 1] ti) (\<lambda>it. ltj_subtree_size it PosS)"

definition rarest_label_id :: "string list \<Rightarrow> triple_index \<Rightarrow> u32 option option" where
  "rarest_label_id labels ti =
     map_option (\<lambda>ps. if ps = [] then None else Some (snd (Min (set ps))))
       (those (map (\<lambda>lid. map_option (\<lambda>n. (n, lid)) (label_size ti lid))
         (List.map_filter (map_of (ld_ids (ti_labels ti))) labels)))"

definition label_of :: "'e descriptor option \<Rightarrow> label_type" where
  "label_of desc = (case desc of Some d \<Rightarrow> dt_label (d_type d) | None \<Rightarrow> LStar)"

text \<open>A label that is not in the graph becomes the largest constant.\<close>

definition build_p_term :: "'e descriptor option \<Rightarrow> triple_index \<Rightarrow> decomposition \<Rightarrow> (trie_term \<times> edge_label_req \<times> decomposition) option" where
  "build_p_term desc ti dc =
     (let labels = (case desc of Some d \<Rightarrow> required_labels (dt_label (d_type d)) | None \<Rightarrow> [])
      in if labels \<noteq> [] then
           map_option (\<lambda>r. (Constant (case r of Some lid \<Rightarrow> lid | None \<Rightarrow> - 1),
               if length labels = 1 then PinnedReq else PinnedPartialReq (label_of desc), dc))
             (rarest_label_id labels ti)
         else let (p_var, dc) = fresh_var dc in Some (Variable p_var, FreeReq (label_of desc) p_var, dc))"

section \<open>Chains\<close>

fun flatten_concat :: "'e path_pattern \<Rightarrow> 'e flat_element list option" where
  "flatten_concat (NodeP d) = Some [FlatNode d]"
| "flatten_concat (EdgeRight d) = Some [FlatEdge RightKind d]"
| "flatten_concat (EdgeLeft d) = Some [FlatEdge LeftKind d]"
| "flatten_concat (EdgeUndirected d) = Some [FlatEdge UndirectedKind d]"
| "flatten_concat (EdgeAnyDirection d) = Some [FlatEdge AnyDirKind d]"
| "flatten_concat (Concat p q) = Option.bind (flatten_concat p) (\<lambda>xs. map_option (\<lambda>ys. xs @ ys) (flatten_concat q))"
| "flatten_concat _ = None"

text \<open>One edge: its next node, its predicate and the triple, turned round for a leftward edge.\<close>

definition chain_edge ::
    "triple_index \<Rightarrow> edge_kind \<Rightarrow> 'e descriptor option \<Rightarrow> u8 \<Rightarrow> u8 \<times> decomposition \<Rightarrow> (u8 \<times> decomposition) option" where
  "chain_edge ti kind desc cur nxt =
     (let (next_var, dc) = nxt
      in map_option (\<lambda>(p_term, req, dc).
           let (s, t) = (case kind of LeftKind \<Rightarrow> (next_var, cur) | _ \<Rightarrow> (cur, next_var))
           in (next_var, dc\<lparr>dc_triples := dc_triples dc @ [[Variable s, p_term, Variable t]],
                dc_info := dc_info dc @ [(s, t, Option.bind desc d_var, kind, req)]\<rparr>))
         (build_p_term desc ti dc))"

fun chain_steps :: "triple_index \<Rightarrow> 'e flat_element list \<Rightarrow> u8 \<Rightarrow> decomposition \<Rightarrow> (u8 \<times> decomposition) option option" where
  "chain_steps ti [] cur dc = Some (Some (cur, dc))"
| "chain_steps ti (FlatEdge kind desc # FlatNode nd # rest) cur dc =
     Option.bind (chain_edge ti kind desc cur (node_var nd dc)) (\<lambda>(cur, dc). chain_steps ti rest cur dc)"
| "chain_steps ti (FlatEdge kind desc # rest) cur dc =
     Option.bind (chain_edge ti kind desc cur (fresh_var dc)) (\<lambda>(cur, dc). chain_steps ti rest cur dc)"
| "chain_steps ti (FlatNode _ # rest) cur dc = Some None"

definition decompose_flat_chain :: "triple_index \<Rightarrow> 'e flat_element list \<Rightarrow> decomposition \<Rightarrow> (u8 \<times> decomposition) option option" where
  "decompose_flat_chain ti elems dc =
     (case elems of
        FlatNode nd # rest \<Rightarrow>
          (let (cur, dc) = node_var nd dc
           in and_then (chain_steps ti rest cur dc) (\<lambda>(cur, dc). if dc_triples dc = [] then Some None else Some (Some (cur, dc))))
      | _ \<Rightarrow> Some None)"

section \<open>Patterns\<close>

fun decompose_pattern :: "triple_index \<Rightarrow> 'e path_pattern \<Rightarrow> decomposition \<Rightarrow> (u8 \<times> decomposition) option option" where
  "decompose_pattern ti (Join p q) dc = and_then (decompose_pattern ti p dc) (\<lambda>(_, dc). decompose_pattern ti q dc)"
| "decompose_pattern ti (Concat p q) dc =
     (case flatten_concat (Concat p q) of None \<Rightarrow> Some None | Some elems \<Rightarrow> decompose_flat_chain ti elems dc)"
| "decompose_pattern ti (NodeP d) dc = Some (Some (node_var d dc))"
| "decompose_pattern ti (Filter p _) dc = decompose_pattern ti p dc"
| "decompose_pattern ti _ dc = Some None"

definition record_join :: "nat \<Rightarrow> decomposition \<Rightarrow> decomposition" where
  "record_join start dc =
     (if dc_joins dc = [] \<or> snd (last (dc_joins dc)) \<noteq> length (dc_triples dc)
      then dc\<lparr>dc_joins := dc_joins dc @ [(start, length (dc_triples dc))]\<rparr> else dc)"

fun decompose_pattern_top :: "triple_index \<Rightarrow> 'e path_pattern \<Rightarrow> decomposition \<Rightarrow> (u8 \<times> decomposition) option option" where
  "decompose_pattern_top ti (Join p q) dc =
     and_then (decompose_pattern_top ti p dc) (\<lambda>(_, dc').
       let dc' = record_join (length (dc_triples dc)) dc'
       in and_then (decompose_pattern_top ti q dc') (\<lambda>(v, dc''). Some (Some (v, record_join (length (dc_triples dc')) dc''))))"
| "decompose_pattern_top ti p dc = decompose_pattern ti p dc"

definition decompose :: "'e path_pattern \<Rightarrow> triple_index \<Rightarrow> decomposition option option" where
  "decompose p ti =
     and_then (decompose_pattern_top ti p empty_decomposition) (\<lambda>(_, dc). if dc_triples dc = [] then Some None else Some (Some dc))"

end
