(* ===== verification/LtjPlans.thy ===== *)
theory LtjPlans
  imports LtjPatterns Evaluator
begin

text \<open>
  From a decomposed pattern to the rows of a query (\<open>try_ltj_inner\<close> and the functions it calls,
  \<open>src/runtime/ltj/pattern_extract.rs\<close>): variables resolved to nodes before the search, the
  iterators, the elimination order, the placement of the filters, the run and the conversion
  of its tuples. Plans for a vector search are left out. What the environment variables
  choose, and the range lookup of a store, are arguments; the outer option is a panic and the
  inner one the decision to decline the pattern.
\<close>

section \<open>Variables resolved by an index\<close>

definition var_labels :: "extracted_filter list \<Rightarrow> u8 \<Rightarrow> string list" where
  "var_labels fs v = List.map_filter (\<lambda>f. case ef_kind f of NodeLabel w l \<Rightarrow> if w = v then Some l else None | _ \<Rightarrow> None) fs"

definition first_hit :: "(string \<Rightarrow> u32 list option) \<Rightarrow> string list \<Rightarrow> u32 list option" where
  "first_hit look labels = (case List.map_filter look labels of [] \<Rightarrow> None | hits # _ \<Rightarrow> Some hits)"

text \<open>The pinned variables and the indexes of the filters they satisfy; \<open>None\<close> when one has no node.\<close>

fun resolve_eq ::
    "(string \<Rightarrow> string \<Rightarrow> val \<Rightarrow> u32 list option) \<Rightarrow> extracted_filter list \<Rightarrow> (nat \<times> extracted_filter) list \<Rightarrow>
     (u8 \<times> u32) list \<times> nat list \<Rightarrow> ((u8 \<times> u32) list \<times> nat list) option" where
  "resolve_eq look fs [] st = Some st"
| "resolve_eq look fs ((i, f) # rest) (pinned, resolved) =
     (case ef_kind f of
        NodeAttrCmp v a Eq w \<Rightarrow>
          if map_of pinned v \<noteq> None then resolve_eq look fs rest (pinned, resolved)
          else
            (case first_hit (\<lambda>l. look l a w) (var_labels fs v) of
               None \<Rightarrow> resolve_eq look fs rest (pinned, resolved)
             | Some hits \<Rightarrow>
                 if hits = [] then None
                 else if length hits = 1 then resolve_eq look fs rest (pinned @ [(v, hd hits)], i # resolved)
                 else resolve_eq look fs rest (pinned, resolved))
      | _ \<Rightarrow> resolve_eq look fs rest (pinned, resolved))"

definition pin_terms :: "(u8 \<times> u32) list \<Rightarrow> triple_pattern \<Rightarrow> triple_pattern" where
  "pin_terms pinned tp = map (\<lambda>t. case t of Variable v \<Rightarrow> (case map_of pinned v of Some n \<Rightarrow> Constant n | None \<Rightarrow> t) | Constant _ \<Rightarrow> t) tp"

definition fold_indexed_constants :: "'a graph_access_scheme \<Rightarrow> decomposition \<Rightarrow> ((u8 \<times> u32) list \<times> decomposition) option" where
  "fold_indexed_constants A dc =
     (let fs = dc_filters dc
      in map_option (\<lambda>(pinned, resolved).
           if pinned = [] then ([], dc)
           else (pinned, dc\<lparr>dc_triples := map (pin_terms pinned) (dc_triples dc),
             dc_filters := map snd (filter (\<lambda>(i, f). i \<notin> set resolved
               \<and> (case ef_kind f of NodeLabel v _ \<Rightarrow> map_of pinned v = None | _ \<Rightarrow> True)) (List.enumerate 0 fs))\<rparr>))
         (resolve_eq (ga_lookup_node_eq A) fs (List.enumerate 0 fs) ([], [])))"

text \<open>A variable the caller pins, by its name; an unknown name is ignored.\<close>

definition apply_pin :: "string \<times> u32 \<Rightarrow> (u8 \<times> u32) list \<times> decomposition \<Rightarrow> (u8 \<times> u32) list \<times> decomposition" where
  "apply_pin pin st =
     (let (name, n) = pin; (pinned, dc) = st
      in case position (\<lambda>x. x = name) (dc_id_to_name dc) of
           None \<Rightarrow> (pinned, dc)
         | Some i \<Rightarrow>
             let v = word_of_nat i
             in if v \<in> fst ` set pinned then (pinned, dc)
                else (pinned @ [(v, n)], dc\<lparr>dc_triples := map (pin_terms [(v, n)]) (dc_triples dc),
                  dc_filters := filter (\<lambda>f. case ef_kind f of NodeLabel w _ \<Rightarrow> w \<noteq> v | NodeProperty w _ \<Rightarrow> w \<noteq> v | _ \<Rightarrow> True) (dc_filters dc)\<rparr>))"

datatype 'v range_bound = Unbounded | Included 'v | Excluded 'v

definition range_bounds :: "binop \<Rightarrow> val \<Rightarrow> (val range_bound \<times> val range_bound) option" where
  "range_bounds op w =
     (case op of
        Lt \<Rightarrow> Some (Unbounded, Excluded w)
      | Le \<Rightarrow> Some (Unbounded, Included w)
      | Gt \<Rightarrow> Some (Excluded w, Unbounded)
      | Ge \<Rightarrow> Some (Included w, Unbounded)
      | _ \<Rightarrow> None)"

type_synonym range_lookup = "string \<Rightarrow> string \<Rightarrow> val range_bound \<Rightarrow> val range_bound \<Rightarrow> u32 list option"

definition range_filter :: "range_lookup \<Rightarrow> extracted_filter list \<Rightarrow> extracted_filter \<Rightarrow> extracted_filter" where
  "range_filter look fs f =
     (case ef_kind f of
        NodeAttrCmp v a op w \<Rightarrow>
          (case range_bounds op w of
             None \<Rightarrow> f
           | Some (lo, hi) \<Rightarrow>
               (case first_hit (\<lambda>l. look l a lo hi) (var_labels fs v) of
                  None \<Rightarrow> f
                | Some hits \<Rightarrow> f\<lparr>ef_kind := NodeInSet v (remdups_adj (sort hits))\<rparr>))
      | _ \<Rightarrow> f)"

definition fold_range_filters :: "range_lookup \<Rightarrow> decomposition \<Rightarrow> decomposition" where
  "fold_range_filters look dc = dc\<lparr>dc_filters := map (range_filter look (dc_filters dc)) (dc_filters dc)\<rparr>"

section \<open>Weights\<close>

definition filtered_by :: "(filter_kind \<Rightarrow> bool) \<Rightarrow> extracted_filter list \<Rightarrow> nat \<Rightarrow> bool" where
  "filtered_by P fs i \<longleftrightarrow> list_ex (\<lambda>f. P (ef_kind f) \<and> unat (filter_var (ef_kind f)) = i) fs"

definition estimate_var_weights :: "nat \<Rightarrow> extracted_filter list \<Rightarrow> nat \<Rightarrow> nat list" where
  "estimate_var_weights num_vars fs triples =
     (let triples = max triples 1;
          has_eq = filtered_by (\<lambda>k. case k of NodeAttrCmp _ _ op _ \<Rightarrow> op = Eq | _ \<Rightarrow> False) fs;
          has_set = filtered_by (\<lambda>k. case k of NodeInSet _ _ \<Rightarrow> True | _ \<Rightarrow> False) fs;
          has_cmp = filtered_by (\<lambda>k. case k of NodeAttrCmp _ _ op _ \<Rightarrow> op \<in> {Ne, Lt, Le, Gt, Ge} | _ \<Rightarrow> False) fs;
          has_label = filtered_by (\<lambda>k. case k of NodeLabel _ _ \<Rightarrow> True | _ \<Rightarrow> False) fs
      in map (\<lambda>i.
           if has_eq i then POINT_WEIGHT
           else if has_set i then POINT_WEIGHT + 1
           else if has_cmp i then max (triples div 10) 2
           else if has_label i then max (triples div 4) 2
           else triples) [0..<num_vars])"

text \<open>The triples an index counts, those of its delta included and no deletion taken off.\<close>

definition index_len :: "triple_index \<Rightarrow> nat" where
  "index_len ti =
     (case ti_repr ti of ArrayRepr os \<Rightarrow> length (os SPO) | CompactRepr ci \<Rightarrow> ci_raw_len ci) + added_len (ti_delta ti)"

section \<open>The plan\<close>

definition var_occurrences :: "triple_pattern list \<Rightarrow> nat \<Rightarrow> (nat \<times> spo_pos) list" where
  "var_occurrences tps i =
     concat (map (\<lambda>(k, tp). map (\<lambda>(p, _). (k, p)) (filter (\<lambda>(_, t). case t of Variable v \<Rightarrow> unat v = i | Constant _ \<Rightarrow> False)
       (zip [PosS, PosP, PosO] tp))) (List.enumerate 0 tps))"

definition triple_vars :: "triple_pattern \<Rightarrow> u8 list" where
  "triple_vars tp = List.map_filter (\<lambda>t. case t of Variable v \<Rightarrow> Some v | Constant _ \<Rightarrow> None) tp"

definition related_vars :: "nat \<Rightarrow> triple_pattern list \<Rightarrow> u8 list list" where
  "related_vars num_vars tps =
     map (\<lambda>i. concat (map (\<lambda>tp. concat (map (\<lambda>a. if unat a = i then filter (\<lambda>b. a \<noteq> b) (triple_vars tp) else []) (triple_vars tp))) tps))
       [0..<num_vars]"

definition var_weights :: "triple_pattern list \<Rightarrow> u8 list \<Rightarrow> nat list \<Rightarrow> var_weight list" where
  "var_weights tps pins weights =
     map (\<lambda>i. let n = length (var_occurrences tps i) in (word_of_nat i, if n = 0 then usize_max else weights ! i, n \<le> 1))
       (filter (\<lambda>i. word_of_nat i \<notin> set pins) [0..<length weights])"

definition filter_level :: "u8 list \<Rightarrow> extracted_filter \<Rightarrow> nat" where
  "filter_level order f =
     (let ls = List.map_filter (\<lambda>v. position (\<lambda>x. x = v) order) (ef_depends_on f) in if ls = [] then 0 else Max (set ls))"

definition place_filters :: "u8 list \<Rightarrow> extracted_filter list \<Rightarrow> placed_filter list list" where
  "place_filters order fs =
     map (\<lambda>l. map (\<lambda>f. \<lparr>pf_eval_at_level = l, pf_kind = ef_kind f\<rparr>) (filter (\<lambda>f. filter_level order f = l) fs)) [0..<length order]"

definition kind_dir :: "edge_kind \<Rightarrow> edge_dir_req" where
  "kind_dir k = (case k of RightKind \<Rightarrow> DirectedReq | LeftKind \<Rightarrow> DirectedReq | UndirectedKind \<Rightarrow> UndirectedReq | AnyDirKind \<Rightarrow> AnyReq)"

definition info_kind :: "triple_info \<Rightarrow> edge_kind" where
  "info_kind x = (case x of (_, _, _, kind, _) \<Rightarrow> kind)"

definition info_req :: "triple_info \<Rightarrow> edge_label_req" where
  "info_req x = (case x of (_, _, _, _, req) \<Rightarrow> req)"

definition route :: "triple_index \<Rightarrow> triple_index option \<Rightarrow> triple_info \<Rightarrow> triple_index" where
  "route ti anydir x = (case info_kind x of AnyDirKind \<Rightarrow> (case anydir of Some m \<Rightarrow> m | None \<Rightarrow> ti) | _ \<Rightarrow> ti)"

definition base_plan :: "decomposition \<Rightarrow> (u8 \<times> u32) list \<Rightarrow> triple_index \<Rightarrow> ltj_plan" where
  "base_plan dc pinned ti =
     (let n = length (dc_id_to_name dc); occ = map (var_occurrences (dc_triples dc)) [0..<n]
      in \<lparr>lp_var_to_iterators = map (map fst) occ, lp_var_to_positions = map (map snd) occ, lp_filters_at_level = [],
          lp_num_vars = n, lp_pinned = pinned, lp_filters_dyn = [],
          lp_triple_dir = map (kind_dir \<circ> info_kind) (dc_info dc), lp_triple_label = map info_req (dc_info dc),
          lp_label_dict = Some (ti_labels ti)\<rparr>)"

definition choose_order_of :: "bool \<Rightarrow> decomposition \<Rightarrow> (u8 \<times> u32) list \<Rightarrow> triple_index \<Rightarrow> ltj_iter list \<Rightarrow> veo option" where
  "choose_order_of adaptive dc pinned ti its =
     (let n = length (dc_id_to_name dc);
          infos = var_weights (dc_triples dc) (map fst pinned) (estimate_var_weights n (dc_filters dc) (index_len ti))
      in if adaptive \<and> \<not> order_is_forced infos
         then map_option AdaptiveVeo (adaptive_new infos (related_vars n (dc_triples dc)) None (min_size (base_plan dc pinned ti) its))
         else Some (FixedVeo (simple_order infos)))"

definition with_filters :: "decomposition \<Rightarrow> (u8 \<times> u32) list \<Rightarrow> veo \<Rightarrow> ltj_plan \<Rightarrow> ltj_plan" where
  "with_filters dc pinned v plan =
     (case v of
        AdaptiveVeo _ \<Rightarrow>
          plan\<lparr>lp_filters_at_level := replicate (veo_size v) [],
            lp_filters_dyn := map (\<lambda>f. (filter (\<lambda>x. x \<notin> fst ` set pinned) (ef_depends_on f), ef_kind f)) (dc_filters dc)\<rparr>
      | FixedVeo order \<Rightarrow> plan\<lparr>lp_filters_at_level := place_filters order (dc_filters dc)\<rparr>)"

definition build_join ::
    "bool \<Rightarrow> decomposition \<Rightarrow> (u8 \<times> u32) list \<Rightarrow> triple_index \<Rightarrow> triple_index option \<Rightarrow> (ltj_plan \<times> ltj_iter list \<times> veo) option option" where
  "build_join adaptive dc pinned ti anydir =
     Option.bind (those (map (\<lambda>(tp, x). ltj_new tp (route ti anydir x)) (zip (dc_triples dc) (dc_info dc)))) (\<lambda>its.
       if list_ex (\<lambda>i. var_occurrences (dc_triples dc) i = [] \<and> word_of_nat i \<notin> fst ` set pinned) [0..<length (dc_id_to_name dc)]
       then Some None
       else map_option (\<lambda>v. Some (with_filters dc pinned v (base_plan dc pinned ti), its, v)) (choose_order_of adaptive dc pinned ti its))"

section \<open>Rows\<close>

definition find_edge :: "'a graph_access_scheme \<Rightarrow> u32 \<Rightarrow> u32 \<Rightarrow> u32 option" where
  "find_edge A src tgt =
     (case List.find (\<lambda>e. ga_tgt A e = tgt) (ga_outgoing A src) of
        Some e \<Rightarrow> Some e
      | None \<Rightarrow> List.find (\<lambda>e. (ga_src A e = src \<and> ga_tgt A e = tgt) \<or> (ga_src A e = tgt \<and> ga_tgt A e = src)) (ga_undirected_of A src))"

definition convert_edge :: "join_graph \<Rightarrow> decomposition \<Rightarrow> result_tuple \<Rightarrow> nat \<Rightarrow> pvalue list \<times> assignment \<Rightarrow> pvalue list \<times> assignment" where
  "convert_edge A dc r k st =
     (let (elems, mu) = st; (src_var, tgt_var, edge_var, kind, _) = dc_info dc ! k
      in case (find_var (res_vars r) src_var, find_var (res_vars r) tgt_var) of
           (Some src, Some tgt) \<Rightarrow>
             (let (enter, leave) = (case kind of LeftKind \<Rightarrow> (tgt, src) | _ \<Rightarrow> (src, tgt));
                  elems = (if elems = [] then [PNode enter] else elems);
                  eid = (case nth_opt (res_eids r) k of Some e \<Rightarrow> if e \<noteq> - 1 then Some e else find_edge A src tgt | None \<Rightarrow> find_edge A src tgt);
                  (elems, mu) = (case eid of
                      None \<Rightarrow> (elems, mu)
                    | Some e \<Rightarrow>
                        let pv = (if ga_is_directed A e then PEdgeDirectional e else PEdgeUndirectional e)
                        in (elems @ [pv], case edge_var of Some x \<Rightarrow> as_extend x pv mu | None \<Rightarrow> mu))
              in (elems @ [PNode leave], mu))
         | _ \<Rightarrow> (elems, mu))"

definition node_assignment :: "decomposition \<Rightarrow> result_tuple \<Rightarrow> assignment" where
  "node_assignment dc r =
     fold (\<lambda>(v, n) mu. if v \<in> set (dc_internal dc) then mu else as_extend (dc_id_to_name dc ! unat v) (PNode n) mu) (res_vars r) assignment_new"

definition path_ranges :: "decomposition \<Rightarrow> (nat \<times> nat) list" where
  "path_ranges dc = (if dc_joins dc = [] then [(0, length (dc_info dc))] else dc_joins dc)"

definition convert_tuple :: "join_graph \<Rightarrow> decomposition \<Rightarrow> result_tuple \<Rightarrow> row" where
  "convert_tuple A dc r =
     (let (paths, mu) = fold (\<lambda>(b, e) (paths, mu). let (elems, mu) = fold (convert_edge A dc r) [b..<e] ([], mu) in (paths @ [elems], mu))
            (path_ranges dc) ([], node_assignment dc r)
      in row_with_paths paths mu)"

definition convert_results :: "join_graph \<Rightarrow> decomposition \<Rightarrow> result_tuple list \<Rightarrow> row list" where
  "convert_results A dc rs = map (convert_tuple A dc) rs"

section \<open>The entry points\<close>

text \<open>
  \<open>lc_fold\<close>, \<open>lc_adaptive\<close> and \<open>lc_anydir\<close> are what the environment variables choose.
\<close>

record ltj_config =
  lc_fold :: bool
  lc_adaptive :: bool
  lc_anydir :: bool
  lc_range :: range_lookup

text \<open>The variables resolved before the search, and what is left for it; \<open>None\<close> is an empty result.\<close>

definition resolve_pins :: "ltj_config \<Rightarrow> 'a graph_access_scheme \<Rightarrow> (string \<times> u32) list \<Rightarrow> decomposition \<Rightarrow> ((u8 \<times> u32) list \<times> decomposition) option" where
  "resolve_pins c A pins dc =
     map_option (\<lambda>st.
         let (pinned, dc) = fold apply_pin pins st
         in (pinned, if lc_fold c then fold_range_filters (lc_range c) dc else dc))
       (if lc_fold c then fold_indexed_constants A dc else Some ([], dc))"

definition try_ltj_inner ::
    "ltj_config \<Rightarrow> join_graph \<Rightarrow> 'e path_pattern \<Rightarrow> triple_index \<Rightarrow> triple_index option \<Rightarrow> nat \<Rightarrow> (string \<times> u32) list \<Rightarrow>
     budget \<Rightarrow> readings \<Rightarrow> row list option option" where
  "try_ltj_inner c A p ti anydir limit pins b env =
     and_then (decompose p ti) (\<lambda>dc.
       case resolve_pins c A pins dc of
         None \<Rightarrow> Some (Some [])
       | Some (pinned, dc) \<Rightarrow>
           and_then (build_join (lc_adaptive c) dc pinned ti anydir) (\<lambda>(plan, its, v).
             map_option (\<lambda>(tuples, _). Some (convert_results A dc tuples)) (run_join A plan its v limit b env)))"

definition try_ltj :: "ltj_config \<Rightarrow> join_graph \<Rightarrow> 'e path_pattern \<Rightarrow> triple_index \<Rightarrow> nat \<Rightarrow> budget \<Rightarrow> readings \<Rightarrow> row list option option" where
  "try_ltj c A p ti limit b env =
     (if has_any_direction p then Some None else try_ltj_inner c A p ti None limit [] b env)"

definition try_ltj_mixed ::
    "ltj_config \<Rightarrow> join_graph \<Rightarrow> 'e path_pattern \<Rightarrow> triple_index \<Rightarrow> triple_index \<Rightarrow> nat \<Rightarrow> budget \<Rightarrow> readings \<Rightarrow> row list option option" where
  "try_ltj_mixed c A p ti anydir limit b env =
     (if \<not> lc_anydir c then Some None else try_ltj_inner c A p ti (Some anydir) limit [] b env)"

definition try_ltj_with_pin ::
    "ltj_config \<Rightarrow> join_graph \<Rightarrow> 'e path_pattern \<Rightarrow> triple_index \<Rightarrow> nat \<Rightarrow> string \<Rightarrow> u32 \<Rightarrow> budget \<Rightarrow> readings \<Rightarrow> row list option option" where
  "try_ltj_with_pin c A p ti limit pin_var pin_id b env =
     (if has_any_direction p then Some None else try_ltj_inner c A p ti None limit [(pin_var, pin_id)] b env)"

definition try_ltj_with_pins ::
    "ltj_config \<Rightarrow> join_graph \<Rightarrow> 'e path_pattern \<Rightarrow> triple_index \<Rightarrow> nat \<Rightarrow> (string \<times> u32) list \<Rightarrow> budget \<Rightarrow> readings \<Rightarrow> row list option option" where
  "try_ltj_with_pins c A p ti limit pins b env =
     (if has_any_direction p then Some None else try_ltj_inner c A p ti None limit pins b env)"

end
