(* ===== verification/LtjDecompositions.thy ===== *)
theory LtjDecompositions
  imports LtjPlans
begin

text \<open>
  What a decomposition keeps: its triples have three terms over the variables it has named, its
  filters depend on their variable, and it does not panic on an index that holds triples.
\<close>

section \<open>The invariant\<close>

abbreviation names :: "decomposition \<Rightarrow> nat" where
  "names dc \<equiv> length (dc_id_to_name dc)"

definition named :: "nat \<Rightarrow> u8 \<Rightarrow> bool" where
  "named n v \<longleftrightarrow> unat v < n"

definition filter_named :: "nat \<Rightarrow> extracted_filter \<Rightarrow> bool" where
  "filter_named n f \<longleftrightarrow> ef_depends_on f = [filter_var (ef_kind f)] \<and> named n (filter_var (ef_kind f))"

definition term_named :: "nat \<Rightarrow> trie_term \<Rightarrow> bool" where
  "term_named n t \<longleftrightarrow> (case t of Variable v \<Rightarrow> named n v | Constant _ \<Rightarrow> True)"

definition triple_named :: "nat \<Rightarrow> triple_pattern \<Rightarrow> triple_info \<Rightarrow> bool" where
  "triple_named n tp x \<longleftrightarrow>
     (case x of (s, t, _, _, req) \<Rightarrow>
        (\<exists>pt. tp = [Variable s, pt, Variable t] \<and> term_named n pt
           \<and> (case req of FreeReq _ p \<Rightarrow> pt = Variable p | _ \<Rightarrow> (\<exists>c. pt = Constant c))) \<and> named n s \<and> named n t)"

text \<open>Below 257 names, the identifiers are the positions of the names.\<close>

definition decomposition_ok :: "decomposition \<Rightarrow> bool" where
  "decomposition_ok dc \<longleftrightarrow>
     length (dc_info dc) = length (dc_triples dc)
     \<and> (names dc \<le> 256 \<longrightarrow>
          (\<forall>(_, i) \<in> set (dc_var_ids dc). named (names dc) i) \<and> (\<forall>i \<in> set (dc_internal dc). named (names dc) i)
          \<and> list_all (filter_named (names dc)) (dc_filters dc)
          \<and> list_all2 (triple_named (names dc)) (dc_triples dc) (dc_info dc))"

lemma named_mono: "named n v \<Longrightarrow> n \<le> m \<Longrightarrow> named m v"
  by (simp add: named_def)

lemma filter_named_mono: "filter_named n f \<Longrightarrow> n \<le> m \<Longrightarrow> filter_named m f"
  by (auto simp: filter_named_def named_def)

lemma term_named_mono: "term_named n t \<Longrightarrow> n \<le> m \<Longrightarrow> term_named m t"
  by (auto simp: term_named_def named_def split: trie_term.splits)

lemma triple_named_mono: "triple_named n tp x \<Longrightarrow> n \<le> m \<Longrightarrow> triple_named m tp x"
  by (auto simp: triple_named_def named_def intro: term_named_mono split: prod.splits)

lemma decomposition_ok_empty: "decomposition_ok empty_decomposition"
  by (simp add: decomposition_ok_def empty_decomposition_def)

text \<open>A step names a variable and keeps the invariant.\<close>

definition names_var :: "decomposition \<Rightarrow> u8 \<Rightarrow> decomposition \<Rightarrow> bool" where
  "names_var dc v dc' \<longleftrightarrow>
     decomposition_ok dc' \<and> names dc \<le> names dc' \<and> (names dc' \<le> 256 \<longrightarrow> named (names dc') v)"

lemma grow_ok:
  assumes "decomposition_ok dc" "dc_info dc' = dc_info dc" "dc_triples dc' = dc_triples dc" "dc_filters dc' = dc_filters dc"
    and "dc_internal dc' = dc_internal dc" "names dc \<le> names dc'"
    and "names dc' \<le> 256 \<Longrightarrow> \<forall>(_, i) \<in> set (dc_var_ids dc'). named (names dc') i"
  shows "decomposition_ok dc'"
proof -
  have "list_all2 (triple_named (names dc')) (dc_triples dc) (dc_info dc)" "list_all (filter_named (names dc')) (dc_filters dc)"
      "\<forall>i \<in> set (dc_internal dc). named (names dc') i"
    if "names dc' \<le> 256"
  proof -
    have old: "\<forall>i \<in> set (dc_internal dc). named (names dc) i" "list_all (filter_named (names dc)) (dc_filters dc)"
      "list_all2 (triple_named (names dc)) (dc_triples dc) (dc_info dc)"
      using assms(1,6) that by (simp_all add: decomposition_ok_def)
    show "list_all2 (triple_named (names dc')) (dc_triples dc) (dc_info dc)"
      using list_all2_mono [OF old(3)] triple_named_mono assms(6) by blast
    show "list_all (filter_named (names dc')) (dc_filters dc)" using old(2) filter_named_mono assms(6) by (auto simp: list_all_iff)
    show "\<forall>i \<in> set (dc_internal dc). named (names dc') i" using old(1) assms(6) by (auto simp: named_def)
  qed
  then show ?thesis using assms(1-5,7) by (simp add: decomposition_ok_def)
qed

lemma get_or_create_ok:
  assumes "decomposition_ok dc" "get_or_create name dc = (v, dc')"
  shows "names_var dc v dc'"
proof (cases "map_of (dc_var_ids dc) name")
  case None
  then have r: "v = word_of_nat (names dc)"
    "dc' = dc\<lparr>dc_id_to_name := dc_id_to_name dc @ [name], dc_var_ids := (name, v) # dc_var_ids dc\<rparr>"
    using assms(2) by (auto simp: get_or_create_def Let_def)
  have v: "named (names dc') v" if "names dc' \<le> 256"
    using that by (simp add: r named_def unat_of_nat)
  have "decomposition_ok dc'"
  proof (rule grow_ok [OF assms(1)])
    show "\<forall>(_, i) \<in> set (dc_var_ids dc'). named (names dc') i" if "names dc' \<le> 256"
      using v [OF that] that assms(1) by (auto simp: r decomposition_ok_def intro: named_mono)
  qed (simp_all add: r)
  then show ?thesis using v by (simp add: names_var_def r)
next
  case (Some i)
  then have "v = i" "dc' = dc" using assms(2) by (simp_all add: get_or_create_def)
  moreover have "(name, i) \<in> set (dc_var_ids dc)" using Some by (rule map_of_SomeD)
  ultimately show ?thesis using assms(1) by (auto simp: names_var_def decomposition_ok_def)
qed

lemma fresh_var_ok:
  assumes "decomposition_ok dc" "fresh_var dc = (v, dc')"
  shows "names_var dc v dc'"
proof -
  let ?dc = "dc\<lparr>dc_fresh := dc_fresh dc + 1\<rparr>"
  obtain dc1 where g: "get_or_create (''_ltj_'' @ digits (unat (dc_fresh dc))) ?dc = (v, dc1)" "dc' = dc1\<lparr>dc_internal := dc_internal dc1 @ [v]\<rparr>"
    using assms(2) by (auto simp: fresh_var_def Let_def split: prod.splits)
  have "decomposition_ok ?dc" using assms(1) by (simp add: decomposition_ok_def)
  from get_or_create_ok [OF this g(1)] show ?thesis using g(2) by (auto simp: names_var_def decomposition_ok_def)
qed

lemma descriptor_filters_named: "named n v \<Longrightarrow> list_all (filter_named n) (descriptor_filters v d)"
  by (auto simp: descriptor_filters_def list_all_iff filter_named_def filter_var_def)

lemma node_var_ok:
  assumes "decomposition_ok dc" "node_var nd dc = (v, dc')"
  shows "names_var dc v dc'"
proof -
  obtain dc1 where g: "(case Option.bind nd d_var of Some name \<Rightarrow> get_or_create name dc | None \<Rightarrow> fresh_var dc) = (v, dc1)"
    "dc' = (case nd of None \<Rightarrow> dc1 | Some d \<Rightarrow> dc1\<lparr>dc_filters := dc_filters dc1 @ descriptor_filters v d\<rparr>)"
    using assms(2) by (auto simp: node_var_def Let_def split: prod.splits)
  have "names_var dc v dc1"
    using g(1) get_or_create_ok [OF assms(1)] fresh_var_ok [OF assms(1)] by (auto split: option.splits)
  then show ?thesis using g(2) descriptor_filters_named by (auto simp: names_var_def decomposition_ok_def split: option.splits)
qed

lemma build_p_term_ok:
  assumes "decomposition_ok dc" "build_p_term desc ti dc = Some (pt, req, dc')"
  shows "decomposition_ok dc' \<and> names dc \<le> names dc' \<and> dc_triples dc' = dc_triples dc \<and> dc_info dc' = dc_info dc
    \<and> (names dc' \<le> 256 \<longrightarrow> term_named (names dc') pt) \<and> (case req of FreeReq _ p \<Rightarrow> pt = Variable p | _ \<Rightarrow> (\<exists>c. pt = Constant c))"
proof -
  let ?labels = "case desc of Some d \<Rightarrow> required_labels (dt_label (d_type d)) | None \<Rightarrow> []"
  show ?thesis
  proof (cases "?labels = []")
    case True
    then obtain v where v: "fresh_var dc = (v, dc')" "pt = Variable v" "req = FreeReq (label_of desc) v"
      using assms(2) by (auto simp: build_p_term_def Let_def split: prod.splits)
    have "dc_triples dc' = dc_triples dc \<and> dc_info dc' = dc_info dc"
      using v(1) by (auto simp: fresh_var_def get_or_create_def Let_def split_def split: option.splits)
    then show ?thesis using fresh_var_ok [OF assms(1) v(1)] v by (simp add: names_var_def term_named_def)
  next
    case False
    then show ?thesis using assms by (auto simp: build_p_term_def Let_def term_named_def split: if_splits)
  qed
qed

lemma chain_edge_ok:
  assumes "decomposition_ok dc" "names dc \<le> 256 \<longrightarrow> named (names dc) cur" "names_var dc nv dc1" "chain_edge ti kind desc cur (nv, dc1) = Some (v, dc')"
  shows "names_var dc v dc'"
proof -
  obtain pt req dc2 where p: "build_p_term desc ti dc1 = Some (pt, req, dc2)"
    and r: "(case (case kind of LeftKind \<Rightarrow> (nv, cur) | _ \<Rightarrow> (cur, nv)) of (s, t) \<Rightarrow>
      (nv, dc2\<lparr>dc_triples := dc_triples dc2 @ [[Variable s, pt, Variable t]], dc_info := dc_info dc2 @ [(s, t, Option.bind desc d_var, kind, req)]\<rparr>)) = (v, dc')"
    using assms(4) by (auto simp: chain_edge_def Let_def)
  have dc1: "decomposition_ok dc1" using assms(3) by (simp add: names_var_def)
  note b = build_p_term_ok [OF dc1 p]
  obtain s t where "(s, t) = (case kind of LeftKind \<Rightarrow> (nv, cur) | _ \<Rightarrow> (cur, nv))" by (metis surj_pair)
  then have st: "{s, t} = {cur, nv}" and v: "v = nv"
    and e: "dc' = dc2\<lparr>dc_triples := dc_triples dc2 @ [[Variable s, pt, Variable t]], dc_info := dc_info dc2 @ [(s, t, Option.bind desc d_var, kind, req)]\<rparr>"
    using r by (cases kind; auto)+
  have n: "names dc' = names dc2" "names dc \<le> names dc2" "names dc1 \<le> names dc2" using b assms(3) by (simp_all add: e names_var_def)
  have "named (names dc2) cur \<and> named (names dc2) nv" if "names dc2 \<le> 256"
    using that assms(2,3) n named_mono [of "names dc" cur "names dc2"] named_mono [of "names dc1" nv "names dc2"] by (simp add: names_var_def)
  moreover have "named (names dc2) s \<and> named (names dc2) t" if "named (names dc2) cur \<and> named (names dc2) nv"
    using that st by (metis insert_iff singletonD)
  moreover have ok2: "decomposition_ok dc2" using b by simp
  ultimately have "decomposition_ok dc'" "names dc' \<le> 256 \<longrightarrow> named (names dc') v"
    using b by (auto simp: decomposition_ok_def triple_named_def e v intro!: list_all2_appendI)
  then show ?thesis using n by (simp add: names_var_def)
qed

definition keeps :: "decomposition \<Rightarrow> (u8 \<times> decomposition) option option \<Rightarrow> bool" where
  "keeps dc r \<longleftrightarrow> (\<forall>v dc'. r = Some (Some (v, dc')) \<longrightarrow> names_var dc v dc')"

lemma names_var_trans: "names_var dc v dc1 \<Longrightarrow> names_var dc1 w dc2 \<Longrightarrow> names_var dc w dc2"
  by (simp add: names_var_def)

lemma chain_steps_ok:
  assumes "decomposition_ok dc" "names dc \<le> 256 \<longrightarrow> named (names dc) cur"
  shows "keeps dc (chain_steps ti elems cur dc)"
  using assms
proof (induction ti elems cur dc rule: chain_steps.induct [case_names stop edge_node edge_end edge_edge node])
  case (stop ti cur dc)
  then show ?case by (auto simp: keeps_def names_var_def)
next
  case (edge_node ti kind desc nd rest cur dc)
  show ?case
  proof (cases "chain_edge ti kind desc cur (node_var nd dc)")
    case (Some r)
    obtain v dc1 where r: "r = (v, dc1)" by (cases r)
    obtain nv dc0 where nv: "node_var nd dc = (nv, dc0)" by fastforce
    have e: "names_var dc v dc1"
      using chain_edge_ok [OF edge_node.prems node_var_ok [OF edge_node.prems(1) nv], of ti kind desc v dc1] Some r nv by simp
    then have "keeps dc1 (chain_steps ti rest v dc1)" using edge_node.IH [OF Some r [symmetric]] Some r by (simp add: names_var_def)
    then show ?thesis using e Some r by (auto simp: keeps_def intro: names_var_trans)
  qed (simp add: keeps_def)
next
  case (edge_end ti kind desc cur dc)
  then show ?case using chain_edge_ok [OF edge_end.prems, of _ _ ti kind desc] fresh_var_ok [OF edge_end.prems(1)]
    by (cases "fresh_var dc") (auto simp: keeps_def bind_eq_Some_conv)
next
  case (edge_edge ti kind desc k d rest cur dc)
  show ?case
  proof (cases "chain_edge ti kind desc cur (fresh_var dc)")
    case (Some r)
    obtain v dc1 where r: "r = (v, dc1)" by (cases r)
    obtain nv dc0 where nv: "fresh_var dc = (nv, dc0)" by fastforce
    have e: "names_var dc v dc1"
      using chain_edge_ok [OF edge_edge.prems fresh_var_ok [OF edge_edge.prems(1) nv], of ti kind desc v dc1] Some r nv by simp
    then have "keeps dc1 (chain_steps ti (FlatEdge k d # rest) v dc1)" using edge_edge.IH [OF Some r [symmetric]] Some r by (simp add: names_var_def)
    then show ?thesis using e Some r by (auto simp: keeps_def intro: names_var_trans)
  qed (simp add: keeps_def)
qed (simp add: keeps_def)

lemma keeps_and_then:
  assumes "keeps dc r" "\<And>v dc'. r = Some (Some (v, dc')) \<Longrightarrow> names_var dc v dc' \<Longrightarrow> keeps dc' (f (v, dc'))"
  shows "keeps dc (and_then r f)"
proof -
  consider "r = None" | "r = Some None" | v dc' where "r = Some (Some (v, dc'))" by (metis not_Some_eq surj_pair)
  then show ?thesis
  proof cases
    case (3 v dc')
    then have "names_var dc v dc'" using assms(1) by (simp add: keeps_def)
    then show ?thesis using assms(2) [OF 3] 3 by (auto simp: keeps_def intro: names_var_trans)
  qed (simp_all add: keeps_def)
qed

lemma decompose_flat_chain_ok: "decomposition_ok dc \<Longrightarrow> keeps dc (decompose_flat_chain ti elems dc)"
proof (cases "\<exists>nd rest. elems = FlatNode nd # rest")
  case True
  assume ok: "decomposition_ok dc"
  obtain nd rest where elems: "elems = FlatNode nd # rest" using True by blast
  obtain v dc1 where v: "node_var nd dc = (v, dc1)" by fastforce
  have nv: "names_var dc v dc1" by (rule node_var_ok [OF ok v])
  then have "keeps dc1 (chain_steps ti rest v dc1)" by (intro chain_steps_ok) (simp_all add: names_var_def)
  then have "keeps dc1 (and_then (chain_steps ti rest v dc1) (\<lambda>(cur, dc). if dc_triples dc = [] then Some None else Some (Some (cur, dc))))"
    by (rule keeps_and_then) (auto simp: keeps_def names_var_def)
  then show ?thesis using nv by (auto simp: decompose_flat_chain_def elems v keeps_def intro: names_var_trans)
next
  case False
  then show ?thesis by (cases elems rule: list.exhaust) (auto simp: decompose_flat_chain_def keeps_def split: flat_element.splits)
qed

lemma decompose_pattern_ok: "decomposition_ok dc \<Longrightarrow> keeps dc (decompose_pattern ti p dc)"
proof (induction ti p dc rule: decompose_pattern.induct)
  case (1 ti p q dc)
  then show ?case by (auto intro!: keeps_and_then simp: names_var_def)
next
  case (2 ti p q dc)
  then show ?case using decompose_flat_chain_ok [of dc ti]
    by (cases "flatten_concat (Concat p q)") (simp_all add: keeps_def del: flatten_concat.simps)
next
  case (3 ti d dc)
  then show ?case using node_var_ok by (auto simp: keeps_def)
qed (simp_all add: keeps_def)

lemma record_join_ok: "names_var dc v (record_join n dc') = names_var dc v dc'" "decomposition_ok (record_join n dc') = decomposition_ok dc'"
    "names (record_join n dc') = names dc'"
  by (simp_all add: record_join_def names_var_def decomposition_ok_def)

lemma decompose_top_ok: "decomposition_ok dc \<Longrightarrow> keeps dc (decompose_pattern_top ti p dc)"
proof (induction ti p dc rule: decompose_pattern_top.induct)
  case (1 ti p q dc)
  show ?case
    unfolding decompose_pattern_top.simps
  proof (rule keeps_and_then [OF "1.IH"(1) [OF "1.prems"]], clarsimp simp only: prod.case Let_def)
    fix v dc1 assume v: "decompose_pattern_top ti p dc = Some (Some (v, dc1))" "names_var dc v dc1"
    let ?dc = "record_join (length (dc_triples dc)) dc1"
    have "decomposition_ok ?dc" using v(2) by (simp add: record_join_ok names_var_def)
    then have "keeps ?dc (decompose_pattern_top ti q ?dc)" using "1.IH"(2) by blast
    then have "keeps ?dc (and_then (decompose_pattern_top ti q ?dc) (\<lambda>(w, dc2). Some (Some (w, record_join (length (dc_triples ?dc)) dc2))))"
      by (rule keeps_and_then) (auto simp: keeps_def names_var_def record_join_ok(2,3))
    then show "keeps dc1 (and_then (decompose_pattern_top ti q ?dc) (\<lambda>(w, dc2). Some (Some (w, record_join (length (dc_triples ?dc)) dc2))))"
      using names_var_def by (auto simp: keeps_def names_var_def record_join_def)
  qed
qed (simp_all add: decompose_pattern_ok del: decompose_pattern.simps)

lemma decompose_ok:
  assumes "decompose p ti = Some (Some dc)"
  shows "decomposition_ok dc" "dc_triples dc \<noteq> []"
proof -
  obtain v where v: "decompose_pattern_top ti p empty_decomposition = Some (Some (v, dc))" "dc_triples dc \<noteq> []"
    using assms by (auto simp: decompose_def and_then_def bind_eq_Some_conv split: option.splits if_splits)
  show "decomposition_ok dc" using decompose_top_ok [OF decomposition_ok_empty, of ti p] v(1) by (simp add: keeps_def names_var_def)
  show "dc_triples dc \<noteq> []" by (rule v(2))
qed

end
