(* ===== verification/LtjPlanProofs.thy ===== *)
theory LtjPlanProofs
  imports LtjDecompositions JoinRuns
begin

text \<open>
  The plan built for a decomposed pattern is one the search can run, whatever the elimination
  order chosen for it: every variable left to the search occurs in a triple, the filters are
  placed where their variable is bound, the iterators stand at the constants of their triples.
\<close>

section \<open>Occurrences\<close>

lemma zip_position:
  assumes "length tp = 3"
  shows "\<exists>t. (p, t) \<in> set (zip [PosS, PosP, PosO] tp)" "(p, t) \<in> set (zip [PosS, PosP, PosO] tp) \<Longrightarrow> (p, t') \<in> set (zip [PosS, PosP, PosO] tp) \<Longrightarrow> t = t'"
proof -
  obtain a b c where tp: "tp = [a, b, c]" using assms by (metis length_0_conv length_Suc_conv numeral_3_eq_3)
  show "\<exists>t. (p, t) \<in> set (zip [PosS, PosP, PosO] tp)" by (cases p) (auto simp: tp)
  show "(p, t) \<in> set (zip [PosS, PosP, PosO] tp) \<Longrightarrow> (p, t') \<in> set (zip [PosS, PosP, PosO] tp) \<Longrightarrow> t = t'" by (auto simp: tp)
qed

lemma constants_position: "p \<in> fst ` set (pattern_constants tp) \<longleftrightarrow> (\<exists>c. (p, Constant c) \<in> set (zip [PosS, PosP, PosO] tp))"
  by (force simp: pattern_constants_def List.map_filter_def split: trie_term.splits)

lemma occurrences_position:
  "(k, p) \<in> set (var_occurrences tps i) \<longleftrightarrow>
     k < length tps \<and> (\<exists>v. (p, Variable v) \<in> set (zip [PosS, PosP, PosO] (tps ! k)) \<and> unat v = i)"
  by (force simp: var_occurrences_def in_set_enumerate_eq split: trie_term.splits)

lemma distinct_occurrences: "distinct (var_occurrences tps i)"
proof -
  have "distinct (concat (map (\<lambda>(k, tp). map (\<lambda>(p, _). (k, p)) (filter (\<lambda>(_, t). case t of Variable v \<Rightarrow> unat v = i | Constant _ \<Rightarrow> False)
       (zip [PosS, PosP, PosO] tp))) (List.enumerate m tps)))" for m
  proof (induction tps arbitrary: m)
    case (Cons tp tps)
    have "distinct (map fst (zip [PosS, PosP, PosO] tp))" by (simp add: map_fst_zip_take distinct_take)
    then have "distinct (map (\<lambda>(p, _). p) (filter (\<lambda>(_, t). case t of Variable v \<Rightarrow> unat v = i | Constant _ \<Rightarrow> False) (zip [PosS, PosP, PosO] tp)))"
      by (simp add: split_def distinct_map_filter)
    then have "distinct (map (\<lambda>(p, _). (m, p)) (filter (\<lambda>(_, t). case t of Variable v \<Rightarrow> unat v = i | Constant _ \<Rightarrow> False) (zip [PosS, PosP, PosO] tp)))"
      by (auto simp: distinct_map inj_on_def split_def)
    then show ?case using Cons [of "Suc m"] by (force simp: in_set_enumerate_eq)
  qed simp
  then show ?thesis by (simp add: var_occurrences_def)
qed

section \<open>Plans\<close>

text \<open>What the pins and folds leave: three terms per triple, no pinned variable in a triple or a filter.\<close>

definition plan_input :: "decomposition \<Rightarrow> (u8 \<times> u32) list \<Rightarrow> bool" where
  "plan_input dc pinned \<longleftrightarrow>
     names dc \<le> 256 \<and> length (dc_info dc) = length (dc_triples dc)
     \<and> (\<forall>tp \<in> set (dc_triples dc). length tp = 3 \<and> (\<forall>v. Variable v \<in> set tp \<longrightarrow> named (names dc) v \<and> v \<notin> fst ` set pinned))
     \<and> (\<forall>f \<in> set (dc_filters dc). filter_named (names dc) f \<and> filter_var (ef_kind f) \<notin> fst ` set pinned)
     \<and> distinct (map fst pinned) \<and> (\<forall>(v, _) \<in> set pinned. named (names dc) v)"

definition search_vars :: "decomposition \<Rightarrow> (u8 \<times> u32) list \<Rightarrow> u8 set" where
  "search_vars dc pinned = {v. named (names dc) v \<and> v \<notin> fst ` set pinned}"

definition all_occur :: "decomposition \<Rightarrow> (u8 \<times> u32) list \<Rightarrow> bool" where
  "all_occur dc pinned \<longleftrightarrow> (\<forall>v \<in> search_vars dc pinned. var_occurrences (dc_triples dc) (unat v) \<noteq> [])"

text \<open>The triples behind each pattern, given those an index holds.\<close>

definition plan_triples :: "(triple_info \<Rightarrow> index_entry list \<times> index_entry list) \<Rightarrow> decomposition \<Rightarrow> join_triple list" where
  "plan_triples held dc =
     map (\<lambda>(tp, x). \<lparr>jt_cands = fst (held x), jt_live = snd (held x), jt_consts = pattern_constants tp\<rparr>) (zip (dc_triples dc) (dc_info dc))"

definition same_occurrences :: "ltj_plan \<Rightarrow> ltj_plan \<Rightarrow> bool" where
  "same_occurrences plan plan' \<longleftrightarrow>
     lp_var_to_iterators plan = lp_var_to_iterators plan' \<and> lp_var_to_positions plan = lp_var_to_positions plan'"

lemma same_occ: "same_occurrences plan plan' \<Longrightarrow> occurrences plan = occurrences plan'" "same_occurrences plan plan' \<Longrightarrow> occ_of plan = occ_of plan'"
  by (auto simp: same_occurrences_def occurrences_def occ_of_def fun_eq_iff)

lemma with_filters_occ [simp]: "same_occurrences (with_filters dc pinned v plan) plan"
  by (simp add: same_occurrences_def with_filters_def split: veo.split)

lemma base_occurrences:
  assumes "named (names dc) v"
  shows "occurrences (base_plan dc pinned ti) v = Some (var_occurrences (dc_triples dc) (unat v))"
    "occ_of (base_plan dc pinned ti) v = var_occurrences (dc_triples dc) (unat v)"
  using assms by (simp_all add: occ_of_def occurrences_def base_plan_def nth_opt_def named_def Let_def zip_map_fst_snd)

lemma base_plan_ok:
  assumes "plan_input dc pinned" "all_occur dc pinned" "same_occurrences plan (base_plan dc pinned ti)"
  shows "plan_ok plan (search_vars dc pinned) (plan_triples held dc)"
proof -
  let ?vs = "search_vars dc pinned" and ?tr = "plan_triples held dc" and ?tps = "dc_triples dc"
  have len: "length ?tr = length ?tps" using assms(1) by (simp add: plan_triples_def plan_input_def)
  have tps: "length (?tps ! k) = 3" "\<And>v. Variable v \<in> set (?tps ! k) \<Longrightarrow> v \<in> ?vs" if "k < length ?tps" for k
    using assms(1) nth_mem [OF that] by (auto simp: plan_input_def search_vars_def)
  have cst: "jt_consts (?tr ! k) = pattern_constants (?tps ! k)" if "k < length ?tps" for k
    using that assms(1) by (simp add: plan_triples_def plan_input_def)
  have occ: "occurrences plan x = Some (var_occurrences ?tps (unat x))" "occ_of plan x = var_occurrences ?tps (unat x)" if "x \<in> ?vs" for x
    using base_occurrences [of dc x pinned ti] same_occ [OF assms(3)] that by (simp_all add: search_vars_def)
  show ?thesis
    unfolding plan_ok_def
  proof (intro conjI ballI allI impI)
    fix x assume x: "x \<in> ?vs"
    show "occurrences plan x \<noteq> None" "occ_of plan x \<noteq> []" "distinct (occ_of plan x)"
      using occ [OF x] assms(2) x distinct_occurrences by (simp_all add: all_occur_def)
    show "case kp of (k, p) \<Rightarrow> k < length ?tr \<and> p \<notin> fst ` set (jt_consts (?tr ! k))" if "kp \<in> set (occ_of plan x)" for kp
    proof (cases kp)
      case (Pair k p)
      have "(k, p) \<in> set (var_occurrences ?tps (unat x))" using that unfolding occ(2) [OF x] Pair .
      then obtain v where kp: "k < length ?tps" "(p, Variable v) \<in> set (zip [PosS, PosP, PosO] (?tps ! k))"
        unfolding occurrences_position by blast
      have "p \<notin> fst ` set (pattern_constants (?tps ! k))"
        using zip_position(2) [OF tps(1) [OF kp(1)] kp(2)] by (auto simp: constants_position)
      then show ?thesis using kp(1) Pair cst len by simp
    qed
    fix y assume y: "y \<in> ?vs" "x \<noteq> y"
    show "set (occ_of plan x) \<inter> set (occ_of plan y) = {}"
    proof (rule ccontr)
      assume "set (occ_of plan x) \<inter> set (occ_of plan y) \<noteq> {}"
      then obtain k p where kp: "(k, p) \<in> set (occ_of plan x)" "(k, p) \<in> set (occ_of plan y)" by fastforce
      then obtain v w where vw: "k < length ?tps" "(p, Variable v) \<in> set (zip [PosS, PosP, PosO] (?tps ! k))" "unat v = unat x"
        "(p, Variable w) \<in> set (zip [PosS, PosP, PosO] (?tps ! k))" "unat w = unat y"
        unfolding occ(2) [OF x] occ(2) [OF y(1)] occurrences_position by blast
      then have "v = w" using zip_position(2) [OF tps(1) [OF vw(1)] vw(2,4)] by simp
      then show False using vw(3,5) y(2) by (metis unsigned_word_eqI)
    qed
  next
    fix k p assume "k < length ?tr"
    then have k: "k < length ?tps" using len by simp
    obtain t where t: "(p, t) \<in> set (zip [PosS, PosP, PosO] (?tps ! k))" using zip_position(1) [OF tps(1) [OF k]] by blast
    show "p \<in> fst ` set (jt_consts (?tr ! k)) \<or> (\<exists>x \<in> ?vs. (k, p) \<in> set (occ_of plan x))"
    proof (cases t)
      case (Constant c)
      then show ?thesis using t cst [OF k] by (auto simp: constants_position)
    next
      case (Variable v)
      have v: "v \<in> ?vs" using tps(2) [OF k] set_zip_rightD [OF t] Variable by blast
      then show ?thesis using t Variable k by (intro disjI2 bexI [OF _ v]) (auto simp: occ(2) [OF v] occurrences_position)
    qed
  qed
qed

lemma card_named: "n \<le> 256 \<Longrightarrow> card {v :: u8. named n v} = n" "finite {v :: u8. named n v}"
proof -
  assume "n \<le> 256"
  have "{v :: u8. named n v} = word_of_nat ` {..<n}"
  proof
    show "{v :: u8. named n v} \<subseteq> word_of_nat ` {..<n}" by (force simp: named_def)
    show "word_of_nat ` {..<n} \<subseteq> {v :: u8. named n v}" using \<open>n \<le> 256\<close> by (auto simp: named_def unat_of_nat)
  qed
  moreover have "inj_on (word_of_nat :: nat \<Rightarrow> u8) {..<n}"
    using \<open>n \<le> 256\<close> by (auto simp: inj_on_def word_of_nat_eq_iff take_bit_nat_eq_self)
  ultimately show "card {v :: u8. named n v} = n" by (simp add: card_image)
qed simp

lemma base_pins_ok:
  assumes "plan_input dc pinned" "lp_pinned plan = pinned" "lp_num_vars plan = names dc"
  shows "pins_ok plan (search_vars dc pinned)"
proof -
  have n: "names dc \<le> 256" and d: "distinct (map fst pinned)" and sub: "fst ` set pinned \<subseteq> {v. named (names dc) v}"
    using assms(1) by (auto simp: plan_input_def)
  have vs: "search_vars dc pinned = {v. named (names dc) v} - fst ` set pinned" by (auto simp: search_vars_def)
  have "card (fst ` set pinned) = length pinned" using distinct_card [OF d] by simp
  moreover have "card (search_vars dc pinned) = names dc - card (fst ` set pinned)"
    unfolding vs using card_Diff_subset [OF _ sub] card_named(1) [OF n] by simp
  moreover have "card (fst ` set pinned) \<le> names dc" using card_mono [OF card_named(2) sub] card_named(1) [OF n] by simp
  ultimately show ?thesis using assms(2,3) d by (auto simp: pins_ok_def vs)
qed

section \<open>Orders\<close>

lemma order_names:
  assumes "plan_input dc pinned" "length weights = names dc"
  shows "set (map fst (var_weights (dc_triples dc) (map fst pinned) weights)) = search_vars dc pinned"
    "distinct (map fst (var_weights (dc_triples dc) (map fst pinned) weights))"
proof -
  let ?is = "filter (\<lambda>i. (word_of_nat i :: u8) \<notin> set (map fst pinned)) [0..<names dc]"
  have n: "names dc \<le> 256" using assms(1) by (simp add: plan_input_def)
  have f: "map fst (var_weights (dc_triples dc) (map fst pinned) weights) = map word_of_nat ?is"
    by (simp add: var_weights_def assms(2) Let_def comp_def)
  have inj: "inj_on (word_of_nat :: nat \<Rightarrow> u8) (set ?is)"
    using n by (auto simp: inj_on_def word_of_nat_eq_iff take_bit_nat_eq_self)
  show "distinct (map fst (var_weights (dc_triples dc) (map fst pinned) weights))" unfolding f distinct_map using inj by simp
  have "v \<in> word_of_nat ` set ?is" if "v \<in> search_vars dc pinned" for v
    using that by (intro image_eqI [of _ _ "unat v"]) (auto simp: search_vars_def named_def)
  moreover have "word_of_nat i \<in> search_vars dc pinned" if "i \<in> set ?is" for i
    using that n by (auto simp: search_vars_def named_def unat_of_nat)
  ultimately show "set (map fst (var_weights (dc_triples dc) (map fst pinned) weights)) = search_vars dc pinned" unfolding f by auto
qed

lemma length_weights [simp]: "length (estimate_var_weights n fs m) = n"
  by (simp add: estimate_var_weights_def Let_def)

lemma order_chosen:
  assumes "plan_input dc pinned" "all_occur dc pinned" "iters_at (plan_triples held dc) (\<lambda>_. []) its"
  shows "\<exists>v. choose_order_of adaptive dc pinned ti its = Some v \<and> veo_ok (search_vars dc pinned) [] False v"
proof -
  let ?infos = "var_weights (dc_triples dc) (map fst pinned) (estimate_var_weights (names dc) (dc_filters dc) (index_len ti))"
  let ?plan = "base_plan dc pinned ti" and ?rel = "related_vars (names dc) (dc_triples dc)"
  note infos = order_names [OF assms(1) length_weights, of "dc_filters dc" "index_len ti"]
  show ?thesis
  proof (cases "adaptive \<and> \<not> order_is_forced ?infos")
    case True
    have "adaptive_new ?infos ?rel None (min_size ?plan its) \<noteq> None"
    proof (rule adaptive_new_total)
      fix x w l assume "(x, w, l) \<in> set ?infos"
      then have x: "x \<in> search_vars dc pinned" using infos(1) by force
      have ok: "plan_ok ?plan (search_vars dc pinned) (plan_triples held dc)"
        by (rule base_plan_ok [OF assms(1,2), where ti = ti]) (simp add: same_occurrences_def)
      have "min_size ?plan its x \<noteq> None" by (rule min_size_total [OF ok x, of "[]"]) (use assms(3) in simp_all)
      then show "min_size ?plan its x \<noteq> None \<and> unat x < length ?rel" using x by (simp add: related_vars_def search_vars_def named_def)
    qed
    then obtain a where a: "adaptive_new ?infos ?rel None (min_size ?plan its) = Some a" by blast
    have "veo_ok (search_vars dc pinned) [] False (AdaptiveVeo a)"
      using adaptive_new_ok [OF a infos(2)] infos(1) by (simp add: veo_ok_def)
    then show ?thesis using True a by (simp add: choose_order_of_def Let_def)
  next
    case False
    have "mset (simple_order ?infos) = mset (map fst ?infos)" by (rule mset_simple_order)
    then have "set (simple_order ?infos) = search_vars dc pinned" "distinct (simple_order ?infos)"
      using mset_eq_setD infos mset_eq_imp_distinct_iff by (metis infos(1), metis infos(2) mset_eq_imp_distinct_iff)
    then have "veo_ok (search_vars dc pinned) [] False (FixedVeo (simple_order ?infos))" by (simp add: veo_ok_def)
    then show ?thesis unfolding choose_order_of_def Let_def if_not_P [OF False] by blast
  qed
qed

section \<open>Filters and iterators\<close>

lemma with_filters_placed:
  assumes "plan_input dc pinned" "veo_ok (search_vars dc pinned) [] False v"
  shows "filters_ok (with_filters dc pinned v (base_plan dc pinned ti)) (search_vars dc pinned) (fixed_order v)"
    "\<forall>(deps, _) \<in> set (lp_filters_dyn (with_filters dc pinned v (base_plan dc pinned ti))). deps \<noteq> []"
proof -
  have f: "ef_depends_on f = [filter_var (ef_kind f)]" "filter_var (ef_kind f) \<in> search_vars dc pinned" if "f \<in> set (dc_filters dc)" for f
    using assms(1) that by (auto simp: plan_input_def filter_named_def search_vars_def)
  show "filters_ok (with_filters dc pinned v (base_plan dc pinned ti)) (search_vars dc pinned) (fixed_order v)"
  proof (cases v)
    case (FixedVeo order)
    have vs: "search_vars dc pinned = set order" using assms(2) by (simp add: FixedVeo veo_ok_def)
    have "filter_var (ef_kind f) \<in> set (take (Suc (filter_level order f)) order)" if "f \<in> set (dc_filters dc)" for f
    proof -
      let ?x = "filter_var (ef_kind f)"
      have x: "?x \<in> set order" using f(2) [OF that] vs by simp
      then obtain i where i: "position (\<lambda>y. y = ?x) order = Some i" using position_None [of "\<lambda>y. y = ?x" order] by blast
      from position_split [OF this] obtain ys zs where "order = ys @ ?x # zs" "length ys = i" by blast
      moreover have "filter_level order f = i" using i by (simp add: filter_level_def f(1) [OF that] List.map_filter_def)
      ultimately show ?thesis by simp
    qed
    then show ?thesis
      by (auto simp: filters_ok_def with_filters_def place_filters_def FixedVeo fixed_order_def)
  next
    case (AdaptiveVeo a)
    have "filter (\<lambda>x. x \<notin> fst ` set pinned) (ef_depends_on f) = [filter_var (ef_kind f)]" if "f \<in> set (dc_filters dc)" for f
      using f [OF that] by (simp add: search_vars_def)
    then show ?thesis using f(2) by (auto simp: filters_ok_def with_filters_def AdaptiveVeo fixed_order_def)
  qed
  show "\<forall>(deps, _) \<in> set (lp_filters_dyn (with_filters dc pinned v (base_plan dc pinned ti))). deps \<noteq> []"
    using f by (cases v) (auto simp: with_filters_def base_plan_def Let_def search_vars_def filter_empty_conv)
qed

lemma those_map: "(\<And>x. x \<in> set xs \<Longrightarrow> f x = Some (g x)) \<Longrightarrow> those (map f xs) = Some (map g xs)"
  by (induction xs) auto

definition holds_all :: "(triple_info \<Rightarrow> index_entry list \<times> index_entry list) \<Rightarrow> triple_index \<Rightarrow> triple_index option \<Rightarrow> decomposition \<Rightarrow> bool" where
  "holds_all held ti anydir dc \<longleftrightarrow>
     (\<forall>x \<in> set (dc_info dc). index_holds (route ti anydir x) (fst (held x)) (snd (held x)) \<and> (\<forall>t \<in> set (fst (held x)). \<forall>p. proj p t \<noteq> - 1))"

lemma iterators_built:
  assumes "plan_input dc pinned" "holds_all held ti anydir dc"
  shows "\<exists>its. those (map (\<lambda>(tp, x). ltj_new tp (route ti anydir x)) (zip (dc_triples dc) (dc_info dc))) = Some its
    \<and> iters_at (plan_triples held dc) (\<lambda>_. []) its"
proof -
  let ?new = "\<lambda>(tp, x). ltj_new tp (route ti anydir x)" and ?zs = "zip (dc_triples dc) (dc_info dc)"
  have new: "\<exists>it. ?new z = Some it \<and> ltj_at (fst (held (snd z))) (snd (held (snd z))) (pattern_constants (fst z)) [] it" if "z \<in> set ?zs" for z
  proof -
    obtain tp x where z: "z = (tp, x)" by (cases z)
    have "tp \<in> set (dc_triples dc)" "x \<in> set (dc_info dc)" using set_zip_leftD set_zip_rightD that z by metis+
    then have "length tp = 3" "index_holds (route ti anydir x) (fst (held x)) (snd (held x))"
      using assms by (simp_all add: plan_input_def holds_all_def)
    from ltj_new_at [OF this(2,1)] show ?thesis by (simp add: z)
  qed
  let ?its = "map (\<lambda>z. the (?new z)) ?zs"
  have "those (map ?new ?zs) = Some ?its" by (rule those_map) (use new in fastforce)
  moreover have "iters_at (plan_triples held dc) (\<lambda>_. []) ?its"
    unfolding iters_at_def
  proof (intro conjI allI impI)
    show "length ?its = length (plan_triples held dc)" by (simp add: plan_triples_def)
    fix k assume k: "k < length (plan_triples held dc)"
    then have "k < length ?zs" by (simp add: plan_triples_def)
    then have "?zs ! k \<in> set ?zs" by (rule nth_mem)
    from new [OF this] show "ltj_at (jt_cands (plan_triples held dc ! k)) (jt_live (plan_triples held dc ! k)) (jt_consts (plan_triples held dc ! k)) [] (?its ! k)"
      using k by (auto simp: plan_triples_def split_beta)
  qed
  ultimately show ?thesis by blast
qed

lemma declined_iff:
  assumes "plan_input dc pinned"
  shows "list_ex (\<lambda>i. var_occurrences (dc_triples dc) i = [] \<and> (word_of_nat i :: u8) \<notin> fst ` set pinned) [0..<names dc] \<longleftrightarrow> \<not> all_occur dc pinned"
proof -
  have n: "names dc \<le> 256" using assms by (simp add: plan_input_def)
  have "all_occur dc pinned \<longleftrightarrow> (\<forall>i < names dc. (word_of_nat i :: u8) \<notin> fst ` set pinned \<longrightarrow> var_occurrences (dc_triples dc) i \<noteq> [])"
  proof
    assume a: "all_occur dc pinned"
    show "\<forall>i < names dc. (word_of_nat i :: u8) \<notin> fst ` set pinned \<longrightarrow> var_occurrences (dc_triples dc) i \<noteq> []"
    proof (intro allI impI)
      fix i assume i: "i < names dc" "(word_of_nat i :: u8) \<notin> fst ` set pinned"
      then have u: "unat (word_of_nat i :: u8) = i" using n by (simp add: unat_of_nat)
      then have "(word_of_nat i :: u8) \<in> search_vars dc pinned" using i by (simp add: search_vars_def named_def)
      with a have "var_occurrences (dc_triples dc) (unat (word_of_nat i :: u8)) \<noteq> []" unfolding all_occur_def by (rule bspec)
      then show "var_occurrences (dc_triples dc) i \<noteq> []" unfolding u .
    qed
  next
    assume a: "\<forall>i < names dc. (word_of_nat i :: u8) \<notin> fst ` set pinned \<longrightarrow> var_occurrences (dc_triples dc) i \<noteq> []"
    show "all_occur dc pinned"
      unfolding all_occur_def
    proof
      fix v assume "v \<in> search_vars dc pinned"
      then show "var_occurrences (dc_triples dc) (unat v) \<noteq> []" using a by (simp add: search_vars_def named_def)
    qed
  qed
  then show ?thesis by (auto simp: list_ex_iff)
qed

section \<open>The whole plan\<close>

lemma build_join_ready:
  assumes "plan_input dc pinned" "holds_all held ti anydir dc"
  shows "if all_occur dc pinned
    then \<exists>plan its v. build_join adaptive dc pinned ti anydir = Some (Some (plan, its, v))
      \<and> plan = with_filters dc pinned v (base_plan dc pinned ti)
      \<and> join_ready plan (search_vars dc pinned) (plan_triples held dc) its v
    else build_join adaptive dc pinned ti anydir = Some None"
proof -
  obtain its where its: "those (map (\<lambda>(tp, x). ltj_new tp (route ti anydir x)) (zip (dc_triples dc) (dc_info dc))) = Some its"
    "iters_at (plan_triples held dc) (\<lambda>_. []) its"
    using iterators_built [OF assms] by blast
  show ?thesis
  proof (cases "all_occur dc pinned")
    case True
    obtain v where v: "choose_order_of adaptive dc pinned ti its = Some v" "veo_ok (search_vars dc pinned) [] False v"
      using order_chosen [OF assms(1) True its(2)] by blast
    let ?plan = "with_filters dc pinned v (base_plan dc pinned ti)"
    have run: "build_join adaptive dc pinned ti anydir = Some (Some (?plan, its, v))"
      using True v(1) by (simp add: build_join_def its(1) declined_iff [OF assms(1)])
    have "plan_ok ?plan (search_vars dc pinned) (plan_triples held dc)"
      by (rule base_plan_ok [OF assms(1) True with_filters_occ])
    moreover have "pins_ok ?plan (search_vars dc pinned)"
      by (rule base_pins_ok [OF assms(1)]) (simp_all add: with_filters_def base_plan_def Let_def split: veo.split)
    moreover have "below_max (plan_triples held dc)"
      using assms(2) by (auto simp: below_max_def plan_triples_def holds_all_def dest: set_zip_rightD)
    ultimately have "join_ready ?plan (search_vars dc pinned) (plan_triples held dc) its v"
      using with_filters_placed [OF assms(1) v(2)] v(2) its(2) by (simp add: join_ready_def)
    then show ?thesis using run True by auto
  next
    case False
    then show ?thesis by (simp add: build_join_def its(1) declined_iff [OF assms(1)])
  qed
qed

lemma decomposed_input:
  assumes "decomposition_ok dc" "names dc \<le> 256"
  shows "plan_input dc []"
proof -
  have d: "length (dc_info dc) = length (dc_triples dc)" "list_all (filter_named (names dc)) (dc_filters dc)"
    "list_all2 (triple_named (names dc)) (dc_triples dc) (dc_info dc)"
    using assms by (simp_all add: decomposition_ok_def)
  have "length tp = 3 \<and> (\<forall>v. Variable v \<in> set tp \<longrightarrow> named (names dc) v)" if "tp \<in> set (dc_triples dc)" for tp
  proof -
    from that obtain k where k: "k < length (dc_triples dc)" "tp = dc_triples dc ! k" unfolding in_set_conv_nth by blast
    have named_k: "triple_named (names dc) tp (dc_info dc ! k)" unfolding k(2) by (rule list_all2_nthD [OF d(3) k(1)])
    obtain s t ev kind req where x: "dc_info dc ! k = (s, t, ev, kind, req)" by (cases "dc_info dc ! k")
    obtain pt where "tp = [Variable s, pt, Variable t]" "term_named (names dc) pt" "named (names dc) s" "named (names dc) t"
      using named_k unfolding triple_named_def x prod.case by blast
    then show ?thesis by (cases pt) (simp_all add: term_named_def)
  qed
  then show ?thesis using assms(2) d(1,2) by (simp add: plan_input_def list_all_iff)
qed

end
