(* ===== verification/LtjRows.thy ===== *)
theory LtjRows
  imports LtjPlanProofs
begin

text \<open>
  The rows the triejoin answers for a pattern: those of the decomposition, counted without
  reference to the plan, its order or its iterators.
\<close>

section \<open>No panic\<close>

lemma label_size_total: "index_holds ti ts lv \<Longrightarrow> label_size ti lid \<noteq> None"
proof -
  assume h: "index_holds ti ts lv"
  obtain it where it: "ltj_new [Variable 0, Constant lid, Variable 1] ti = Some it"
    "ltj_at ts lv (pattern_constants [Variable 0, Constant lid, Variable 1]) [] it"
    using ltj_new_at [OF h, of "[Variable 0, Constant lid, Variable 1]"] by auto
  have "PosS \<notin> fst ` set (pattern_constants [Variable 0, Constant lid, Variable 1] @ [])"
    by (simp add: pattern_constants_def List.map_filter_def)
  from ltj_it.subtree_size_total [OF it(2) this] it(1) show ?thesis by (auto simp: label_size_def)
qed

lemma rarest_total:
  assumes "index_holds ti ts lv"
  shows "rarest_label_id labels ti \<noteq> None"
proof -
  have "those (map (\<lambda>lid. map_option (\<lambda>n. (n, lid)) (label_size ti lid)) lids) \<noteq> None" for lids
  proof -
    have "those (map (\<lambda>lid. map_option (\<lambda>n. (n, lid)) (label_size ti lid)) lids) = Some (map (\<lambda>lid. (the (label_size ti lid), lid)) lids)"
      by (rule those_map) (use label_size_total [OF assms] in auto)
    then show ?thesis by simp
  qed
  then show ?thesis by (simp add: rarest_label_id_def)
qed

lemma build_p_term_total: "index_holds ti ts lv \<Longrightarrow> build_p_term desc ti dc \<noteq> None"
  using rarest_total by (auto simp: build_p_term_def Let_def split: prod.split)

lemma chain_edge_total: "index_holds ti ts lv \<Longrightarrow> chain_edge ti kind desc cur nxt \<noteq> None"
  using build_p_term_total [of ti ts lv desc "snd nxt"] by (simp add: chain_edge_def split_def Let_def)

lemma chain_steps_total:
  assumes "index_holds ti ts lv"
  shows "chain_steps ti elems cur dc \<noteq> None"
  using assms
proof (induction ti elems cur dc rule: chain_steps.induct [case_names stop edge_node edge_end edge_edge node])
  case (edge_node ti kind desc nd rest cur dc)
  obtain r where "chain_edge ti kind desc cur (node_var nd dc) = Some r" using chain_edge_total [OF edge_node.prems] by blast
  then show ?case using edge_node.IH edge_node.prems by (cases r) simp
next
  case (edge_end ti kind desc cur dc)
  then show ?case using chain_edge_total [OF edge_end.prems, of kind desc cur "fresh_var dc"] by auto
next
  case (edge_edge ti kind desc k d rest cur dc)
  obtain r where "chain_edge ti kind desc cur (fresh_var dc) = Some r" using chain_edge_total [OF edge_edge.prems] by blast
  then show ?case using edge_edge.IH edge_edge.prems by (cases r) simp
qed simp_all

lemma and_then_total: "m \<noteq> None \<Longrightarrow> (\<And>x. f x \<noteq> None) \<Longrightarrow> and_then m f \<noteq> None"
  by (auto simp: and_then_def split: option.splits)

lemma decompose_flat_chain_total:
  fixes elems :: "'e flat_element list"
  assumes "index_holds ti ts lv"
  shows "decompose_flat_chain ti elems dc \<noteq> None"
proof -
  have "and_then (chain_steps ti rest cur dc) (\<lambda>(cur, dc). if dc_triples dc = [] then Some None else Some (Some (cur, dc))) \<noteq> None" for rest :: "'e flat_element list" and cur dc
    by (rule and_then_total) (use chain_steps_total [OF assms] in \<open>auto split: prod.split\<close>)
  then show ?thesis
    by (simp add: decompose_flat_chain_def split_def Let_def split: list.split flat_element.split del: not_None_eq)
qed

lemma decompose_pattern_total: "index_holds ti ts lv \<Longrightarrow> decompose_pattern ti p dc \<noteq> None"
proof (induction ti p dc rule: decompose_pattern.induct)
  case (1 ti p q dc)
  show ?case unfolding decompose_pattern.simps by (rule and_then_total) (use 1 in \<open>auto split: prod.split\<close>)
next
  case (2 ti p q dc)
  then show ?case using decompose_flat_chain_total [of ti ts lv]
    by (cases "flatten_concat (Concat p q)") (simp_all del: flatten_concat.simps not_None_eq)
qed simp_all

lemma decompose_top_total: "index_holds ti ts lv \<Longrightarrow> decompose_pattern_top ti p dc \<noteq> None"
proof (induction p arbitrary: dc)
  case (Join p q)
  have "and_then (decompose_pattern_top ti q dc') (\<lambda>(v, dc''). Some (Some (v, record_join n dc''))) \<noteq> None" for dc' n
    by (rule and_then_total) (use Join in \<open>auto split: prod.split\<close>)
  then show ?case
    unfolding decompose_pattern_top.simps by (intro and_then_total) (use Join in \<open>auto simp: Let_def split: prod.split simp del: not_None_eq\<close>)
qed (use decompose_pattern_total in \<open>simp_all del: decompose_pattern.simps not_None_eq\<close>)

lemma decompose_total: "index_holds ti ts lv \<Longrightarrow> decompose p ti \<noteq> None"
  unfolding decompose_def by (rule and_then_total) (auto simp: decompose_top_total split: prod.split)

section \<open>Pins\<close>

text \<open>What resolving variables keeps, filters on a pinned variable apart.\<close>

definition pins_input :: "decomposition \<Rightarrow> (u8 \<times> u32) list \<times> decomposition \<Rightarrow> bool" where
  "pins_input dc0 st \<longleftrightarrow>
     (case st of (pinned, dc) \<Rightarrow>
        names dc0 \<le> 256 \<and> dc_info dc = dc_info dc0 \<and> dc_id_to_name dc = dc_id_to_name dc0 \<and> length (dc_info dc0) = length (dc_triples dc)
        \<and> (\<forall>tp \<in> set (dc_triples dc). length tp = 3 \<and> (\<forall>v. Variable v \<in> set tp \<longrightarrow> named (names dc0) v \<and> v \<notin> fst ` set pinned))
        \<and> list_all (filter_named (names dc0)) (dc_filters dc)
        \<and> distinct (map fst pinned) \<and> (\<forall>(v, _) \<in> set pinned. named (names dc0) v))"

lemma pins_input_plan: "pins_input dc0 (pinned, dc) \<Longrightarrow> \<forall>f \<in> set (dc_filters dc). filter_var (ef_kind f) \<notin> fst ` set pinned \<Longrightarrow> plan_input dc pinned"
  by (simp add: pins_input_def plan_input_def list_all_iff)

lemma pin_terms_vars: "Variable v \<in> set (pin_terms pinned tp) \<longleftrightarrow> Variable v \<in> set tp \<and> v \<notin> fst ` set pinned"
proof -
  let ?f = "\<lambda>t. case t of Variable w \<Rightarrow> (case map_of pinned w of Some n \<Rightarrow> Constant n | None \<Rightarrow> t) | Constant _ \<Rightarrow> t"
  have f: "?f t = Variable v \<longleftrightarrow> t = Variable v \<and> map_of pinned v = None" for t
    by (cases t) (auto split: option.split)
  have "Variable v \<in> ?f ` set tp \<longleftrightarrow> (\<exists>t \<in> set tp. ?f t = Variable v)" by (auto simp: image_iff eq_commute)
  then show ?thesis unfolding pin_terms_def set_map f by (auto simp: map_of_eq_None_iff)
qed

lemma resolve_eq_input:
  assumes "resolve_eq look fs ifs (pinned, resolved) = Some (pinned', resolved')" "list_all (filter_named n) (map snd ifs)"
    and "distinct (map fst pinned)" "\<forall>(v, _) \<in> set pinned. named n v"
  shows "distinct (map fst pinned') \<and> (\<forall>(v, _) \<in> set pinned'. named n v)"
  using assms
proof (induction ifs arbitrary: pinned resolved)
  case (Cons x ifs)
  obtain i f where x: "x = (i, f)" by (cases x)
  let ?rest = "\<lambda>st. resolve_eq look fs ifs st = Some (pinned', resolved')"
  consider "?rest (pinned, resolved)" | v a w n' where "ef_kind f = NodeAttrCmp v a Eq w" "map_of pinned v = None" "?rest (pinned @ [(v, n')], i # resolved)"
    using Cons.prems(1) unfolding x
    by (auto split: filter_kind.splits binop.splits option.splits if_splits)
  then show ?case
  proof cases
    case 1
    then show ?thesis using Cons.IH Cons.prems by simp
  next
    case (2 v a w n')
    have "named n v" using Cons.prems(2) 2(1) by (simp add: x filter_named_def filter_var_def)
    moreover have "v \<notin> fst ` set pinned" using 2(2) by (simp add: map_of_eq_None_iff)
    ultimately have "distinct (map fst (pinned @ [(v, n')])) \<and> (\<forall>(v, _) \<in> set (pinned @ [(v, n')]). named n v)"
      using Cons.prems(3,4) by auto
    then show ?thesis using Cons.IH [OF 2(3)] Cons.prems(2) by simp
  qed
qed simp

lemma list_all_sublist: "list_all P xs \<Longrightarrow> set ys \<subseteq> set xs \<Longrightarrow> list_all P ys"
  by (auto simp: list_all_iff)

lemma fold_indexed_input:
  assumes "pins_input dc0 ([], dc)" "fold_indexed_constants A dc = Some (pinned, dc')"
  shows "pins_input dc0 (pinned, dc')"
proof -
  let ?fs = "dc_filters dc"
  obtain resolved where r: "resolve_eq (ga_lookup_node_eq A) ?fs (List.enumerate 0 ?fs) ([], []) = Some (pinned, resolved) \<and> pinned \<noteq> [] \<and>
      dc' = dc\<lparr>dc_triples := map (pin_terms pinned) (dc_triples dc),
        dc_filters := map snd (filter (\<lambda>(i, f). i \<notin> set resolved
          \<and> (case ef_kind f of NodeLabel v _ \<Rightarrow> map_of pinned v = None | _ \<Rightarrow> True)) (List.enumerate 0 ?fs))\<rparr>
    \<or> pinned = [] \<and> dc' = dc"
    using assms(2) by (auto simp: fold_indexed_constants_def Let_def split: if_splits)
  show ?thesis
  proof (cases "pinned = []")
    case True
    then show ?thesis using r assms(1) by auto
  next
    case False
    then have run: "resolve_eq (ga_lookup_node_eq A) ?fs (List.enumerate 0 ?fs) ([], []) = Some (pinned, resolved)"
      and dc': "dc' = dc\<lparr>dc_triples := map (pin_terms pinned) (dc_triples dc),
        dc_filters := map snd (filter (\<lambda>(i, f). i \<notin> set resolved
          \<and> (case ef_kind f of NodeLabel v _ \<Rightarrow> map_of pinned v = None | _ \<Rightarrow> True)) (List.enumerate 0 ?fs))\<rparr>"
      using r by blast+
    have named: "list_all (filter_named (names dc0)) ?fs" using assms(1) by (simp add: pins_input_def)
    have "distinct (map fst pinned) \<and> (\<forall>(v, _) \<in> set pinned. named (names dc0) v)"
      by (rule resolve_eq_input [OF run]) (use named in simp_all)
    moreover have "list_all (filter_named (names dc0)) (dc_filters dc')"
      by (rule list_all_sublist [OF named]) (auto simp: dc' in_set_enumerate_eq)
    moreover have "length (pin_terms pinned tp) = length tp" for tp by (simp add: pin_terms_def)
    ultimately show ?thesis using assms(1) by (auto simp: pins_input_def dc' pin_terms_vars)
  qed
qed

lemma apply_pin_input:
  assumes "pins_input dc0 st"
  shows "pins_input dc0 (apply_pin pin st)"
proof -
  obtain name n pinned dc where p: "pin = (name, n)" "st = (pinned, dc)" by (metis surj_pair)
  show ?thesis
  proof (cases "position (\<lambda>x. x = name) (dc_id_to_name dc)")
    case None
    then show ?thesis using assms by (simp add: apply_pin_def p)
  next
    case (Some i)
    let ?v = "word_of_nat i :: u8"
    have i: "i < names dc" using position_split [OF Some] by auto
    have v: "named (names dc0) ?v" using i assms by (simp add: p pins_input_def named_def unat_of_nat)
    show ?thesis
    proof (cases "?v \<in> fst ` set pinned")
      case False
      let ?dc = "dc\<lparr>dc_triples := map (pin_terms [(?v, n)]) (dc_triples dc),
        dc_filters := filter (\<lambda>f. case ef_kind f of NodeLabel w _ \<Rightarrow> w \<noteq> ?v | NodeProperty w _ \<Rightarrow> w \<noteq> ?v | _ \<Rightarrow> True) (dc_filters dc)\<rparr>"
      have r: "apply_pin pin st = (pinned @ [(?v, n)], ?dc)" using False by (simp add: apply_pin_def p Some Let_def)
      have "list_all (filter_named (names dc0)) (dc_filters ?dc)"
        by (rule list_all_sublist [of _ "dc_filters dc"]) (use assms in \<open>auto simp: pins_input_def p\<close>)
      moreover have "length (pin_terms qs tp) = length tp" for qs tp by (simp add: pin_terms_def)
      ultimately show ?thesis using assms v False unfolding r by (auto simp: pins_input_def p pin_terms_vars)
    qed (use assms in \<open>simp add: apply_pin_def p Some Let_def\<close>)
  qed
qed

lemma range_filter_var: "filter_var (ef_kind (range_filter look fs f)) = filter_var (ef_kind f)" "ef_depends_on (range_filter look fs f) = ef_depends_on f"
  by (auto simp: range_filter_def filter_var_def split: filter_kind.splits option.splits)

lemma resolve_pins_input:
  assumes "pins_input dc0 ([], dc)" "resolve_pins c A pins dc = Some (pinned, dc')"
  shows "pins_input dc0 (pinned, dc')"
proof -
  obtain st pinned1 dc1 where st: "(if lc_fold c then fold_indexed_constants A dc else Some ([], dc)) = Some st"
    "fold apply_pin pins st = (pinned1, dc1)" "pinned = pinned1" "dc' = (if lc_fold c then fold_range_filters (lc_range c) dc1 else dc1)"
    using assms(2) by (auto simp: resolve_pins_def Let_def split_beta prod_eq_iff)
  have "pins_input dc0 st" using st(1) assms(1) fold_indexed_input [OF assms(1), of A] by (cases st) (auto split: if_splits)
  then have "pins_input dc0 (fold apply_pin pins st)" using apply_pin_input by (induction pins arbitrary: st) simp_all
  then show ?thesis using st(2-4)
    by (auto simp: pins_input_def fold_range_filters_def list_all_iff filter_named_def range_filter_var)
qed

section \<open>The rows of a decomposition\<close>

text \<open>An index entry matches a triple pattern under an assignment, and an edge its requirements.\<close>

definition entry_matches :: "(u8 \<Rightarrow> u32 option) \<Rightarrow> triple_pattern \<Rightarrow> index_entry \<Rightarrow> bool" where
  "entry_matches \<sigma> tp t \<longleftrightarrow>
     list_all (\<lambda>(p, term). case term of Constant c \<Rightarrow> proj p t = c | Variable v \<Rightarrow> \<sigma> v = Some (proj p t)) (zip [PosS, PosP, PosO] tp)"

definition edge_required :: "join_graph \<Rightarrow> label_dict \<Rightarrow> (u8 \<Rightarrow> u32 option) \<Rightarrow> triple_info \<Rightarrow> u32 \<Rightarrow> bool" where
  "edge_required A d \<sigma> x e \<longleftrightarrow> dir_admits A (kind_dir (info_kind x)) e \<and> label_admits A (Some d) \<sigma> (Some (info_req x)) e"

definition pattern_edges ::
    "join_graph \<Rightarrow> label_dict \<Rightarrow> (u8 \<Rightarrow> u32 option) \<Rightarrow> triple_pattern \<Rightarrow> triple_info \<Rightarrow> index_entry list \<Rightarrow> u32 multiset" where
  "pattern_edges A d \<sigma> tp x live =
     filter_mset (edge_required A d \<sigma> x) (image_mset edge_id (filter_mset (entry_matches \<sigma> tp) (mset live)))"

text \<open>How often an assignment of the variables with one edge per triple is a row.\<close>

definition pattern_count ::
    "join_graph \<Rightarrow> label_dict \<Rightarrow> (triple_info \<Rightarrow> index_entry list) \<Rightarrow> (u8 \<times> u32) list \<Rightarrow> decomposition \<Rightarrow> (u8 \<Rightarrow> u32 option) \<Rightarrow> u32 list \<Rightarrow> nat" where
  "pattern_count A d live pinned dc \<sigma> es =
     (if dom \<sigma> = {v. named (names dc) v} \<and> map_of pinned \<subseteq>\<^sub>m \<sigma> \<and> (\<forall>f \<in> set (dc_filters dc). filter_true A \<sigma> (ef_kind f))
      then picks (map (\<lambda>(tp, x). pattern_edges A d \<sigma> tp x (live x)) (zip (dc_triples dc) (dc_info dc))) es
      else 0)"

lemma placed_all:
  assumes "plan_input dc pinned" "veo_ok (search_vars dc pinned) [] False v"
  shows "plan_filters (with_filters dc pinned v (base_plan dc pinned ti)) (fixed_order v) = ef_kind ` set (dc_filters dc)"
proof (cases v)
  case (AdaptiveVeo a)
  then show ?thesis by (force simp: plan_filters_def fixed_order_def with_filters_def)
next
  case (FixedVeo order)
  have vs: "search_vars dc pinned = set order" using assms(2) by (simp add: FixedVeo veo_ok_def)
  have "filter_level order f < length order" if f: "f \<in> set (dc_filters dc)" for f
  proof -
    let ?x = "filter_var (ef_kind f)"
    have dep: "ef_depends_on f = [?x]" and x: "?x \<in> set order"
      using assms(1) f unfolding vs [symmetric] by (auto simp: plan_input_def filter_named_def search_vars_def)
    then obtain i where i: "position (\<lambda>y. y = ?x) order = Some i" using position_None [of "\<lambda>y. y = ?x" order] by blast
    from position_split [OF this] have "i < length order" by auto
    moreover have "filter_level order f = i" using i by (simp add: filter_level_def dep List.map_filter_def)
    ultimately show ?thesis by simp
  qed
  then have "ef_kind ` set (dc_filters dc) \<subseteq> pf_kind ` (\<Union> (set ` set (place_filters order (dc_filters dc))))"
    by (force simp: place_filters_def image_iff)
  then show ?thesis by (auto simp: plan_filters_def fixed_order_def with_filters_def FixedVeo place_filters_def)
qed

lemma pattern_constants_in: "(p, c) \<in> set (pattern_constants tp) \<longleftrightarrow> (p, Constant c) \<in> set (zip [PosS, PosP, PosO] tp)"
proof
  assume "(p, c) \<in> set (pattern_constants tp)"
  then show "(p, Constant c) \<in> set (zip [PosS, PosP, PosO] tp)"
    by (auto simp: pattern_constants_def List.map_filter_def split: trie_term.splits if_splits)
next
  assume "(p, Constant c) \<in> set (zip [PosS, PosP, PosO] tp)"
  then show "(p, c) \<in> set (pattern_constants tp)"
    by (force simp: pattern_constants_def List.map_filter_def)
qed

lemma join_count_pattern:
  assumes "plan_input dc pinned" "veo_ok (search_vars dc pinned) [] False v"
  shows "join_count A (with_filters dc pinned v (base_plan dc pinned ti)) (search_vars dc pinned) (plan_triples held dc) (fixed_order v) \<sigma> es
    = pattern_count A (ti_labels ti) (\<lambda>x. snd (held x)) pinned dc \<sigma> es"
proof -
  let ?plan = "with_filters dc pinned v (base_plan dc pinned ti)" and ?vs = "search_vars dc pinned" and ?tr = "plan_triples held dc"
  have fields: "lp_pinned ?plan = pinned" "lp_triple_dir ?plan = map (kind_dir \<circ> info_kind) (dc_info dc)"
    "lp_triple_label ?plan = map info_req (dc_info dc)" "lp_label_dict ?plan = Some (ti_labels ti)"
    by (simp_all add: with_filters_def base_plan_def Let_def split: veo.split)
  have len: "length (dc_info dc) = length (dc_triples dc)" using assms(1) by (simp add: plan_input_def)
  have "fst ` set pinned \<subseteq> {v. named (names dc) v}" using assms(1) by (auto simp: plan_input_def)
  then have all: "?vs \<union> fst ` set pinned = {v. named (names dc) v}" by (auto simp: search_vars_def)
  have occ: "occ_of ?plan y = var_occurrences (dc_triples dc) (unat y)" if "y \<in> ?vs" for y
    using base_occurrences(2) [of dc y pinned ti] same_occ(2) [OF with_filters_occ, of dc pinned v "base_plan dc pinned ti"] that
    by (simp add: search_vars_def)
  have edges: "triple_edges A ?plan ?vs ?tr \<sigma> k = (case (dc_triples dc ! k, dc_info dc ! k) of (tp, x) \<Rightarrow> pattern_edges A (ti_labels ti) \<sigma> tp x (snd (held x)))"
    if k: "k < length (dc_triples dc)" for k
  proof -
    let ?tp = "dc_triples dc ! k" and ?x = "dc_info dc ! k"
    have tr: "?tr ! k = \<lparr>jt_cands = fst (held ?x), jt_live = snd (held ?x), jt_consts = pattern_constants ?tp\<rparr>"
      using k len by (simp add: plan_triples_def)
    have vars: "Variable y \<in> set ?tp \<Longrightarrow> y \<in> ?vs" for y using assms(1) nth_mem [OF k] by (auto simp: plan_input_def search_vars_def)
    have "triple_matches ?plan ?vs \<sigma> k (pattern_constants ?tp) t \<longleftrightarrow> entry_matches \<sigma> ?tp t" for t
    proof -
      have c: "agrees (pattern_constants ?tp) t \<longleftrightarrow> (\<forall>p c. (p, Constant c) \<in> set (zip [PosS, PosP, PosO] ?tp) \<longrightarrow> proj p t = c)"
        unfolding agrees_def pattern_constants_in [symmetric] list_all_iff by (auto split: prod.splits)
      have "(\<forall>y \<in> ?vs. \<forall>p. (k, p) \<in> set (occ_of ?plan y) \<longrightarrow> \<sigma> y = Some (proj p t))
          \<longleftrightarrow> (\<forall>p y. (p, Variable y) \<in> set (zip [PosS, PosP, PosO] ?tp) \<longrightarrow> \<sigma> y = Some (proj p t))" (is "?l \<longleftrightarrow> ?r")
      proof
        assume l: ?l
        show ?r
        proof (intro allI impI)
          fix p y assume py: "(p, Variable y) \<in> set (zip [PosS, PosP, PosO] ?tp)"
          then have y: "y \<in> ?vs" using vars set_zip_rightD [OF py] by blast
          then have "(k, p) \<in> set (occ_of ?plan y)" using py k by (auto simp: occ [OF y] occurrences_position)
          then show "\<sigma> y = Some (proj p t)" using l y by blast
        qed
      next
        assume r: ?r
        show ?l
        proof (intro ballI allI impI)
          fix y p assume y: "y \<in> ?vs" and "(k, p) \<in> set (occ_of ?plan y)"
          then obtain w where w: "(p, Variable w) \<in> set (zip [PosS, PosP, PosO] ?tp)" "unat w = unat y"
            unfolding occ [OF y] occurrences_position by blast
          then have "w = y" by (metis unsigned_word_eqI)
          then show "\<sigma> y = Some (proj p t)" using r w(1) by blast
        qed
      qed
      then show ?thesis unfolding triple_matches_def c entry_matches_def list_all_iff by (force split: trie_term.splits)
    qed
    then have "triple_matches ?plan ?vs \<sigma> k (pattern_constants ?tp) = entry_matches \<sigma> ?tp" by (intro ext) simp
    moreover have "edge_admits A ?plan \<sigma> k = edge_required A (ti_labels ti) \<sigma> ?x"
      using k len by (intro ext) (simp add: edge_admits_def edge_required_def fields nth_opt_def)
    ultimately show ?thesis by (simp add: triple_edges_def pattern_edges_def tr)
  qed
  have "map (triple_edges A ?plan ?vs ?tr \<sigma>) [0..<length ?tr] = map (\<lambda>(tp, x). pattern_edges A (ti_labels ti) \<sigma> tp x (snd (held x))) (zip (dc_triples dc) (dc_info dc))"
    using edges len by (intro nth_equalityI) (simp_all add: plan_triples_def)
  then show ?thesis unfolding join_count_def pattern_count_def fields all placed_all [OF assms] by auto
qed

section \<open>The rows of a query\<close>

lemma try_ltj_runs:
  assumes "decompose p ti = Some (Some dc0)" "names dc0 \<le> 256" "resolve_pins c A pins dc0 = Some (pinned, dc)"
    and "\<forall>f \<in> set (dc_filters dc). filter_var (ef_kind f) \<notin> fst ` set pinned" "holds_all held ti anydir dc0"
  shows "if all_occur dc pinned
    then \<exists>tuples. try_ltj_inner c A p ti anydir limit pins b env = Some (Some (convert_results A dc tuples))
      \<and> (\<forall>\<sigma> es. row_count tuples \<sigma> es \<le> pattern_count A (ti_labels ti) (\<lambda>x. snd (held x)) pinned dc \<sigma> es)
      \<and> (0 < limit \<longrightarrow> length tuples \<le> limit) \<and> (\<forall>r \<in> set tuples. distinct (map fst (res_vars r)))
      \<and> ((\<forall>\<sigma> es. row_count tuples \<sigma> es = pattern_count A (ti_labels ti) (\<lambda>x. snd (held x)) pinned dc \<sigma> es)
          \<or> (0 < limit \<and> length tuples = limit) \<or> \<not> unarmed b)
    else try_ltj_inner c A p ti anydir limit pins b env = Some None"
proof -
  have "plan_input dc0 []" by (rule decomposed_input [OF decompose_ok(1) [OF assms(1)] assms(2)])
  then have "pins_input dc0 ([], dc0)" by (simp add: plan_input_def pins_input_def list_all_iff)
  from resolve_pins_input [OF this assms(3)] have pins: "pins_input dc0 (pinned, dc)" .
  then have inp: "plan_input dc pinned" and info: "dc_info dc = dc_info dc0"
    using pins_input_plan assms(4) by (blast, simp add: pins_input_def)
  have holds: "holds_all held ti anydir dc" using assms(5) info by (simp add: holds_all_def)
  note ready = build_join_ready [OF inp holds, of "lc_adaptive c"]
  show ?thesis
  proof (cases "all_occur dc pinned")
    case True
    then obtain plan its v where run: "build_join (lc_adaptive c) dc pinned ti anydir = Some (Some (plan, its, v))"
      and plan: "plan = with_filters dc pinned v (base_plan dc pinned ti)"
      and jr: "join_ready plan (search_vars dc pinned) (plan_triples held dc) its v" using ready by auto
    have vok: "veo_ok (search_vars dc pinned) [] False v" using jr by (simp add: join_ready_def)
    from run_join_rows [OF jr, of A limit b env] obtain tuples st where t: "run_join A plan its v limit b env = Some (tuples, st)"
      and rows: "\<forall>\<sigma> es. row_count tuples \<sigma> es \<le> pattern_count A (ti_labels ti) (\<lambda>x. snd (held x)) pinned dc \<sigma> es"
        "0 < limit \<longrightarrow> length tuples \<le> limit" "\<forall>r \<in> set tuples. distinct (map fst (res_vars r))"
        "(\<forall>\<sigma> es. row_count tuples \<sigma> es = pattern_count A (ti_labels ti) (\<lambda>x. snd (held x)) pinned dc \<sigma> es)
          \<or> (0 < limit \<and> length tuples = limit) \<or> (bu_tripped (ss_budget st) \<and> \<not> unarmed b)"
      unfolding plan join_count_pattern [OF inp vok] by blast
    have "try_ltj_inner c A p ti anydir limit pins b env = Some (Some (convert_results A dc tuples))"
      using assms(1,3) run t by (simp add: try_ltj_inner_def)
    with rows show ?thesis unfolding if_P [OF True] by blast
  next
    case False
    then have "build_join (lc_adaptive c) dc pinned ti anydir = Some None" using ready by simp
    then show ?thesis using False assms(1,3) by (simp add: try_ltj_inner_def)
  qed
qed

text \<open>
  C2: A pattern that decomposes into at most 256 named variables, over indexes that hold their
  triples (of values below the largest of 32 bits), runs to an answer without a panic, whatever
  variables the configuration or the caller resolves to constants beforehand, provided that
  resolving leaves no filter on a resolved variable (one left there may go unchecked). When a
  variable to resolve has no node the answer has no rows; the pattern is declined when a
  variable is in no triple; otherwise the rows are those of a list of tuples that assigns every
  variable exactly as the triples, the edge requirements and the filters that resolving left
  ask, each with its multiplicity, unless the limit cut the list or a budget was armed.
\<close>

theorem try_ltj_exact:
  assumes "decompose p ti = Some (Some dc0)" "names dc0 \<le> 256" "holds_all held ti anydir dc0"
    and "\<forall>pinned dc. resolve_pins c A pins dc0 = Some (pinned, dc) \<longrightarrow> (\<forall>f \<in> set (dc_filters dc). filter_var (ef_kind f) \<notin> fst ` set pinned)"
  shows "case resolve_pins c A pins dc0 of
      None \<Rightarrow> try_ltj_inner c A p ti anydir limit pins b env = Some (Some [])
    | Some (pinned, dc) \<Rightarrow>
        if all_occur dc pinned
        then \<exists>tuples. try_ltj_inner c A p ti anydir limit pins b env = Some (Some (convert_results A dc tuples))
          \<and> (\<forall>\<sigma> es. row_count tuples \<sigma> es \<le> pattern_count A (ti_labels ti) (\<lambda>x. snd (held x)) pinned dc \<sigma> es)
          \<and> (0 < limit \<longrightarrow> length tuples \<le> limit) \<and> (\<forall>r \<in> set tuples. distinct (map fst (res_vars r)))
          \<and> ((\<forall>\<sigma> es. row_count tuples \<sigma> es = pattern_count A (ti_labels ti) (\<lambda>x. snd (held x)) pinned dc \<sigma> es)
              \<or> (0 < limit \<and> length tuples = limit) \<or> \<not> unarmed b)
        else try_ltj_inner c A p ti anydir limit pins b env = Some None"
proof (cases "resolve_pins c A pins dc0")
  case None
  then show ?thesis using assms(1) by (simp add: try_ltj_inner_def and_then_def)
next
  case (Some st)
  obtain pinned dc where st: "st = (pinned, dc)" by (cases st)
  have "\<forall>f \<in> set (dc_filters dc). filter_var (ef_kind f) \<notin> fst ` set pinned" using assms(4) Some st by blast
  then show ?thesis using try_ltj_runs [OF assms(1,2) Some [unfolded st] _ assms(3)] Some st by simp
qed

text \<open>The edges of the sample graph between two named nodes.\<close>

definition sample_pattern :: "unit path_pattern" where
  "sample_pattern = Concat (NodeP (Some (descriptor_var_only ''a'')))
     (Concat (EdgeRight (Some (descriptor_type_only \<lparr>dt_label = LLabel ''R'', dt_props = open_empty\<rparr>))) (NodeP (Some (descriptor_var_only ''b''))))"

definition sample_decomposition :: decomposition where
  "sample_decomposition = \<lparr>dc_triples = [[Variable 0, Constant 0, Variable 1]], dc_var_ids = [(''b'', 1), (''a'', 0)],
     dc_id_to_name = [''a'', ''b''], dc_filters = [], dc_internal = [], dc_info = [(0, 1, None, RightKind, PinnedReq)], dc_fresh = 0, dc_joins = []\<rparr>"

definition scan_config :: ltj_config where
  "scan_config = \<lparr>lc_fold = False, lc_adaptive = True, lc_anydir = True, lc_range = (\<lambda>_ _ _ _. None)\<rparr>"

lemma sample_decomposed: "decompose sample_pattern sample_index = Some (Some sample_decomposition)"
  by code_simp

theorem try_ltj_exact_witness:
  "\<exists>tuples. try_ltj_inner scan_config sample_access sample_pattern sample_index None 0 [] unlimited (\<lambda>_. (0, False))
      = Some (Some (convert_results sample_access sample_decomposition tuples))
    \<and> (\<forall>\<sigma> es. row_count tuples \<sigma> es = pattern_count sample_access (ti_labels sample_index) (\<lambda>_. sample_entries) [] sample_decomposition \<sigma> es)"
proof -
  have pins: "resolve_pins scan_config sample_access [] sample_decomposition = Some ([], sample_decomposition)"
    by (simp add: resolve_pins_def scan_config_def)
  have holds: "holds_all (\<lambda>_. (sample_entries, sample_entries)) sample_index None sample_decomposition"
    using sample_index_holds by (simp add: holds_all_def route_def sample_decomposition_def info_kind_def sample_entries_def all_spo_pos)
  have occ: "all_occur sample_decomposition []"
    by (auto simp: all_occur_def search_vars_def sample_decomposition_def named_def var_occurrences_def)
  have ok: "names sample_decomposition \<le> 256" "\<forall>f \<in> set (dc_filters sample_decomposition). filter_var (ef_kind f) \<notin> fst ` set []"
    by (simp_all add: sample_decomposition_def)
  have kept: "\<forall>pinned dc. resolve_pins scan_config sample_access [] sample_decomposition = Some (pinned, dc) \<longrightarrow>
      (\<forall>f \<in> set (dc_filters dc). filter_var (ef_kind f) \<notin> fst ` set pinned)"
    using ok(2) pins by simp
  have "unarmed unlimited" by (simp add: unarmed_def unlimited_def)
  moreover note try_ltj_exact [where c = scan_config and A = sample_access and pins = "[]" and limit = 0 and b = unlimited
      and env = "\<lambda>_. (0, False)", OF sample_decomposed ok(1) holds kept]
  ultimately show ?thesis unfolding pins option.case prod.case if_P [OF occ]
    by (elim exE conjE disjE) (intro exI conjI, assumption, simp_all)
qed

end
