(* ===== verification/LtjEdges.thy ===== *)
theory LtjEdges
  imports LtjRows
begin

text \<open>
  What the triples of an index say of the graph: the edges a labelled triple pattern admits are
  those the path pattern asks for, each once.
\<close>

text \<open>Stores that list each edge once, by its direction.\<close>

definition edges_listed :: "(u32 \<Rightarrow> bool) \<Rightarrow> graph_access \<Rightarrow> bool" where
  "edges_listed dir A \<longleftrightarrow> distinct (ga_edges_directed A) \<and> distinct (ga_edges_undirected A)
     \<and> (\<forall>e \<in> set (ga_edges_directed A). dir e) \<and> (\<forall>e \<in> set (ga_edges_undirected A). \<not> dir e)"

text \<open>The edge a pattern asks for between the source and the target of its triple.\<close>

definition edge_asked :: "graph_access \<Rightarrow> edge_kind \<Rightarrow> string \<Rightarrow> u32 \<Rightarrow> u32 \<Rightarrow> u32 \<Rightarrow> bool" where
  "edge_asked A kind l a b e \<longleftrightarrow>
     l \<in> set (edge_names A e)
     \<and> (case kind of
          UndirectedKind \<Rightarrow> e \<in> set (ga_edges_undirected A) \<and> {ga_src A e, ga_tgt A e} = {a, b}
        | _ \<Rightarrow> e \<in> set (ga_edges_directed A) \<and> ga_src A e = a \<and> ga_tgt A e = b)"

lemma distinct_filter_one: "distinct xs \<Longrightarrow> filter (\<lambda>x. x = y) xs = (if y \<in> set xs then [y] else [])"
  by (induction xs) (auto simp: filter_empty_conv)

lemma own_triples:
  assumes "\<And>e t. t \<in> set (g e) \<Longrightarrow> edge_id t = e" "distinct es"
  shows "filter (\<lambda>t. edge_id t = e) (concat (map g es)) = (if e \<in> set es then g e else [])"
  using filter_concat_ids [of g "\<lambda>x. x = e" es] assms by (simp add: distinct_filter_one)

lemma count_named:
  assumes "distinct ns" "\<And>n. n \<in> set ns \<Longrightarrow> P n \<longleftrightarrow> n = l"
  shows "length (filter P ns) = (if l \<in> set ns then 1 else 0)"
  using assms by (induction ns) (auto simp: filter_empty_conv)

lemma named_hits:
  assumes "\<And>n. length (filter M (g n)) = (if E \<and> Q n then 1 else 0)"
  shows "length (filter M (concat (map g ns))) = (if E then length (filter Q ns) else 0)"
  by (induction ns) (simp_all add: assms)

abbreviation hits :: "u32 \<Rightarrow> u32 \<Rightarrow> u32 \<Rightarrow> index_entry \<Rightarrow> bool" where
  "hits a c b \<equiv> \<lambda>t. proj PosS t = a \<and> proj PosP t = c \<and> proj PosO t = b"

lemma directed_hits:
  "length (filter (hits a c b) (edge_triples A d False True e))
    = (if ga_src A e = a \<and> ga_tgt A e = b then length (filter (\<lambda>n. label_id d n = c) (edge_names A e)) else 0)"
  unfolding edge_triples_def if_True by (rule named_hits) (simp add: directed_triples_def)

lemma undirected_hit:
  "length (filter (hits a c b) (undirected_triples e s s' i)) = (if {s, s'} = {a, b} \<and> i = c then 1 else 0)"
proof (cases "s = s'")
  case False
  then show ?thesis by (cases "s = a"; cases "s = b"; cases "s' = a"; cases "s' = b") (simp_all add: undirected_triples_def doubleton_eq_iff)
qed (auto simp: undirected_triples_def doubleton_eq_iff)

lemma undirected_hits:
  "length (filter (hits a c b) (edge_triples A d False False e))
    = (if {ga_src A e, ga_tgt A e} = {a, b} then length (filter (\<lambda>n. label_id d n = c) (edge_names A e)) else 0)"
  unfolding edge_triples_def if_False by (rule named_hits) (rule undirected_hit)

lemma edge_total:
  assumes "distinct es"
  shows "length (filter (\<lambda>t. edge_id t = e \<and> M t) (concat (map (edge_triples A d False dir) es)))
    = (if e \<in> set es then length (filter M (edge_triples A d False dir e)) else 0)"
proof -
  have f: "filter (\<lambda>t. edge_id t = e \<and> M t) xs = filter M (filter (\<lambda>t. edge_id t = e) xs)" for xs :: "index_entry list"
    by (simp add: conj_commute)
  have "filter (\<lambda>t. edge_id t = e) (concat (map (edge_triples A d False dir) es)) = (if e \<in> set es then edge_triples A d False dir e else [])"
    by (rule own_triples [OF _ assms]) (rule edge_triples_id)
  then show ?thesis unfolding f by (simp del: filter_filter)
qed

lemma labelled_edges:
  fixes \<sigma> :: "u8 \<Rightarrow> u32 option"
  assumes "dict_ok d" "length (ld_labels d) \<le> 2 ^ 32" "map_of (ld_ids d) l = Some c"
    and "e \<in> set (ga_edges_directed A) \<union> set (ga_edges_undirected A) \<Longrightarrow> distinct (edge_names A e) \<and> (\<forall>n \<in> set (edge_names A e). map_of (ld_ids d) n \<noteq> None)"
    and "edges_listed dir A"
    and "mset live = mset (graph_triples A d False)" "\<sigma> s = Some a" "\<sigma> t = Some b" "kind \<noteq> AnyDirKind"
  shows "count (pattern_edges (graph_access.extend A (join_graph.fields dir)) d \<sigma> [Variable s, Constant c, Variable t] (s, t, x, kind, PinnedReq) live) e
    = (if edge_asked A kind l a b e then 1 else 0)"
proof -
  let ?J = "graph_access.extend A (join_graph.fields dir)" and ?M = "hits a c b"
  let ?D = "concat (map (edge_triples A d False True) (ga_edges_directed A))" and ?U = "concat (map (edge_triples A d False False) (ga_edges_undirected A))"
  have m: "entry_matches \<sigma> [Variable s, Constant c, Variable t] = ?M"
    using assms(7,8) by (auto simp: entry_matches_def fun_eq_iff)
  have req: "edge_required ?J d \<sigma> (s, t, x, kind, PinnedReq) = (\<lambda>e. if kind = UndirectedKind then \<not> dir e else dir e)"
    using assms(9) by (cases kind) (simp_all add: edge_required_def info_kind_def info_req_def kind_dir_def dir_admits_def label_admits_def fun_eq_iff
      graph_access.extend_def join_graph.fields_def)
  have len: "count (image_mset edge_id (filter_mset ?M (mset xs))) e = length (filter (\<lambda>t. edge_id t = e \<and> ?M t) xs)" for xs
    by (induction xs) auto
  have total: "length (filter (\<lambda>t. edge_id t = e \<and> ?M t) ?D) = (if e \<in> set (ga_edges_directed A) then length (filter ?M (edge_triples A d False True e)) else 0)"
    "length (filter (\<lambda>t. edge_id t = e \<and> ?M t) ?U) = (if e \<in> set (ga_edges_undirected A) then length (filter ?M (edge_triples A d False False e)) else 0)"
    by (rule edge_total, use assms(5) in \<open>simp add: edges_listed_def\<close>)+
  have named: "e \<in> set (ga_edges_directed A) \<union> set (ga_edges_undirected A) \<Longrightarrow> length (filter (\<lambda>n. label_id d n = c) (edge_names A e)) = (if l \<in> set (edge_names A e) then 1 else 0)"
  proof (rule count_named)
    assume e: "e \<in> set (ga_edges_directed A) \<union> set (ga_edges_undirected A)"
    from assms(4) [OF e] show "distinct (edge_names A e)" ..
    fix n assume n: "n \<in> set (edge_names A e)"
    from assms(4) [OF e] have "\<forall>n \<in> set (edge_names A e). map_of (ld_ids d) n \<noteq> None" ..
    from this n have "map_of (ld_ids d) n \<noteq> None" by (rule bspec)
    then obtain i where i: "map_of (ld_ids d) n = Some i" by (cases "map_of (ld_ids d) n") simp_all
    show "label_id d n = c \<longleftrightarrow> n = l" using dict_id_inj [OF assms(1,2) i, of l] i assms(3) by (auto simp add: label_id_def)
  qed
  have "count (image_mset edge_id (filter_mset ?M (mset live))) e = length (filter (\<lambda>t. edge_id t = e \<and> ?M t) ?D) + length (filter (\<lambda>t. edge_id t = e \<and> ?M t) ?U)"
    unfolding assms(6) graph_triples_def len by simp
  then have "count (pattern_edges ?J d \<sigma> [Variable s, Constant c, Variable t] (s, t, x, kind, PinnedReq) live) e
    = (if (if kind = UndirectedKind then \<not> dir e else dir e)
       then length (filter (\<lambda>t. edge_id t = e \<and> ?M t) ?D) + length (filter (\<lambda>t. edge_id t = e \<and> ?M t) ?U) else 0)"
    unfolding pattern_edges_def m req by simp
  then show ?thesis
    unfolding total directed_hits undirected_hits using assms(5,9) named
    by (cases kind) (auto simp: edge_asked_def edges_listed_def)
qed

section \<open>The labelled edges of a graph\<close>

definition directed_edge :: "string \<Rightarrow> string \<Rightarrow> string \<Rightarrow> 'e path_pattern" where
  "directed_edge x l y = Concat (NodeP (Some (descriptor_var_only x)))
     (Concat (EdgeRight (Some (descriptor_type_only \<lparr>dt_label = LLabel l, dt_props = open_empty\<rparr>))) (NodeP (Some (descriptor_var_only y))))"

definition edge_row :: "graph_access \<Rightarrow> string \<Rightarrow> string \<Rightarrow> u32 \<Rightarrow> row" where
  "edge_row A x y e =
     row_with_paths [[PNode (ga_src A e), PEdgeDirectional e, PNode (ga_tgt A e)]]
       (as_extend y (PNode (ga_tgt A e)) (as_extend x (PNode (ga_src A e)) assignment_new))"

definition edge_decomposition :: "string \<Rightarrow> u32 \<Rightarrow> string \<Rightarrow> decomposition" where
  "edge_decomposition x c y = \<lparr>dc_triples = [[Variable 0, Constant c, Variable 1]], dc_var_ids = [(y, 1), (x, 0)],
     dc_id_to_name = [x, y], dc_filters = [], dc_internal = [], dc_info = [(0, 1, None, RightKind, PinnedReq)], dc_fresh = 0, dc_joins = []\<rparr>"

lemma directed_edge_decomposes:
  assumes "x \<noteq> y" "index_holds ti ts lv"
  shows "decompose (directed_edge x l y :: 'e path_pattern) ti = Some (Some (edge_decomposition x (case map_of (ld_ids (ti_labels ti)) l of Some c \<Rightarrow> c | None \<Rightarrow> - 1) y))"
proof -
  let ?c = "case map_of (ld_ids (ti_labels ti)) l of Some c \<Rightarrow> c | None \<Rightarrow> - 1"
  let ?dx = "empty_decomposition\<lparr>dc_id_to_name := [x], dc_var_ids := [(x, 0)]\<rparr>"
  let ?dy = "empty_decomposition\<lparr>dc_id_to_name := [x, y], dc_var_ids := [(y, 1), (x, 0)]\<rparr>"
  let ?desc = "Some (descriptor_type_only \<lparr>dt_label = LLabel l, dt_props = open_empty\<rparr>) :: 'e descriptor option"
  have rarest: "rarest_label_id [l] ti = Some (map_of (ld_ids (ti_labels ti)) l)"
  proof (cases "map_of (ld_ids (ti_labels ti)) l")
    case (Some c)
    obtain n where "label_size ti c = Some n" using label_size_total [OF assms(2), of c] by (cases "label_size ti c") simp_all
    then show ?thesis using Some by (simp add: rarest_label_id_def List.map_filter_def)
  qed (simp add: rarest_label_id_def List.map_filter_def)
  have vars: "node_var (Some (descriptor_var_only x :: 'e descriptor)) empty_decomposition = (0, ?dx)" "node_var (Some (descriptor_var_only y :: 'e descriptor)) ?dx = (1, ?dy)"
    using assms(1) by (simp_all add: node_var_def get_or_create_def empty_decomposition_def descriptor_var_only_def desc_star_def descriptor_filters_def)
  have p_term: "build_p_term ?desc ti ?dy = Some (Constant ?c, PinnedReq, ?dy)"
    by (simp add: build_p_term_def descriptor_type_only_def rarest)
  have edge: "chain_edge ti RightKind ?desc 0 (1, ?dy) = Some (1, edge_decomposition x ?c y)"
    unfolding chain_edge_def Let_def prod.case p_term by (simp add: edge_decomposition_def empty_decomposition_def descriptor_type_only_def)
  have chain: "chain_steps ti [FlatEdge RightKind ?desc, FlatNode (Some (descriptor_var_only y :: 'e descriptor))] 0 ?dx = Some (Some (1, edge_decomposition x ?c y))"
    by (simp only: chain_steps.simps vars edge bind.bind_lunit prod.case)
  have "decompose_flat_chain ti [FlatNode (Some (descriptor_var_only x :: 'e descriptor)), FlatEdge RightKind ?desc, FlatNode (Some (descriptor_var_only y :: 'e descriptor))] empty_decomposition
      = Some (Some (1, edge_decomposition x ?c y))"
    unfolding decompose_flat_chain_def list.case flat_element.case vars Let_def prod.case chain and_then_simps by (simp add: edge_decomposition_def)
  then show ?thesis
    by (simp add: decompose_def directed_edge_def) (simp add: edge_decomposition_def)
qed

text \<open>The assignment of a tuple with both variables, in either order.\<close>

lemma pair_assignment:
  assumes "distinct (map fst vs)" "map_of vs = [0 \<mapsto> a, 1 \<mapsto> b]"
  shows "vs = [(0, a), (1, b)] \<or> vs = [(1, b), (0 :: u8, a :: u32)]"
proof -
  have "set vs = {(v, n). map_of vs v = Some n}" using assms(1) by (auto simp: map_of_eq_Some_iff)
  also have "\<dots> = {(0, a), (1, b)}" unfolding assms(2) by (auto split: if_splits)
  finally have "set vs = {(0, a), (1, b)}" .
  moreover have "distinct vs" using assms(1) by (simp add: distinct_map)
  moreover from this have "length vs = 2" using calculation distinct_card [of vs] by simp
  ultimately show ?thesis by (cases vs; cases "tl vs") (auto simp: doubleton_eq_iff)
qed

lemma convert_edge_row:
  assumes "x \<noteq> y" "row_of r = ([0 \<mapsto> ga_src A e, 1 \<mapsto> ga_tgt A e], [e])" "distinct (map fst (res_vars r))" "e \<noteq> - 1" "dir e"
  shows "convert_tuple (graph_access.extend A (join_graph.fields dir)) (edge_decomposition x c y) r = edge_row A x y e"
proof -
  let ?a = "ga_src A e" and ?b = "ga_tgt A e" and ?J = "graph_access.extend A (join_graph.fields dir)" and ?dc = "edge_decomposition x c y"
  have r: "map_of (res_vars r) = [0 \<mapsto> ?a, 1 \<mapsto> ?b]" "res_eids r = [e]" using assms(2) by (simp_all add: row_of_def)
  have "bm_insert y w (bm_insert x v []) = bm_insert x v (bm_insert y w [])" for v w :: pvalue
    using assms(1) by (auto simp: not_less_iff_gr_or_eq)
  then have "node_assignment ?dc r = as_extend y (PNode ?b) (as_extend x (PNode ?a) assignment_new)"
    using pair_assignment [OF assms(3) r(1)] by (auto simp: node_assignment_def edge_decomposition_def as_extend_def assignment_new_def)
  moreover have "find_var (res_vars r) 0 = Some ?a" "find_var (res_vars r) 1 = Some ?b" by (simp_all add: find_var_map_of r(1))
  ultimately show ?thesis using assms(4,5) r(2)
    by (simp add: convert_tuple_def path_ranges_def convert_edge_def edge_row_def edge_decomposition_def nth_opt_def graph_access.extend_def join_graph.fields_def)
qed

lemma named_pair: "named 2 v \<longleftrightarrow> v = 0 \<or> v = 1"
proof -
  have "unat v = 0 \<longleftrightarrow> v = 0" "unat v = 1 \<longleftrightarrow> v = 1" using word_unat_eq_iff [of v 0] word_unat_eq_iff [of v 1] by simp_all
  then show ?thesis by (simp add: named_def less_2_cases_iff)
qed

lemma pair_map_eq: "[0 \<mapsto> a, 1 \<mapsto> b] = [0 :: u8 \<mapsto> s, 1 \<mapsto> t] \<longleftrightarrow> s = a \<and> t = (b :: u32)"
proof
  assume eq: "[0 \<mapsto> a, 1 \<mapsto> b] = [0 :: u8 \<mapsto> s, 1 \<mapsto> t]"
  from fun_cong [OF this, of 0] fun_cong [OF this, of 1] show "s = a \<and> t = b" by simp
qed simp

lemma edge_decomposition_occurs: "all_occur (edge_decomposition x c y) []"
  by (auto simp: all_occur_def search_vars_def edge_decomposition_def var_occurrences_def named_pair [unfolded numeral_2_eq_2])

lemma edge_decomposition_unpinned: "resolve_pins c A [] (edge_decomposition x i y) = Some ([], edge_decomposition x i y)"
  by (simp add: resolve_pins_def fold_indexed_constants_def fold_range_filters_def) (simp add: edge_decomposition_def)

text \<open>How often an assignment and an edge are a row.\<close>

lemma edge_pattern_count:
  assumes "dict_ok d" "length (ld_labels d) \<le> 2 ^ 32" "edges_listed dir A" "\<forall>t \<in> set (graph_triples A d False). \<forall>p. proj p t \<noteq> - 1"
    and "\<And>e. e \<in> set (ga_edges_directed A) \<union> set (ga_edges_undirected A) \<Longrightarrow> distinct (edge_names A e) \<and> (\<forall>n \<in> set (edge_names A e). map_of (ld_ids d) n \<noteq> None)"
  shows "pattern_count (graph_access.extend A (join_graph.fields dir)) d (\<lambda>_. graph_triples A d False) []
      (edge_decomposition x (case map_of (ld_ids d) l of Some c \<Rightarrow> c | None \<Rightarrow> - 1) y) \<sigma> es
    = count (image_mset (\<lambda>e. ([0 \<mapsto> ga_src A e, 1 \<mapsto> ga_tgt A e], [e])) (filter_mset (\<lambda>e. l \<in> set (edge_names A e)) (mset (ga_edges_directed A)))) (\<sigma>, es)"
    (is "pattern_count ?J d _ [] (edge_decomposition x ?c y) \<sigma> es = count (image_mset ?row ?E) (\<sigma>, es)")
proof -
  have asked: "count (pattern_edges ?J d \<sigma> [Variable 0, Constant ?c, Variable 1] (0, 1, None, RightKind, PinnedReq) (graph_triples A d False)) e
      = (if edge_asked A RightKind l a b e then 1 else 0)" if ab: "\<sigma> 0 = Some a" "\<sigma> 1 = Some b" for a b e
  proof (cases "map_of (ld_ids d) l")
    case None
    have "\<not> entry_matches \<sigma> [Variable 0, Constant ?c, Variable 1] t" if "t \<in> set (graph_triples A d False)" for t
      using assms(4) that None by (auto simp: entry_matches_def)
    then have "filter_mset (entry_matches \<sigma> [Variable 0, Constant ?c, Variable 1]) (mset (graph_triples A d False)) = {#}"
      by (simp add: filter_mset_eq_mempty_iff)
    moreover have "\<not> edge_asked A RightKind l a b e" using assms(5) [of e] None unfolding edge_asked_def by (metis UnI1 edge_kind.simps(13))
    ultimately show ?thesis by (simp only: pattern_edges_def image_mset_empty filter_empty_mset count_empty if_False)
  next
    case (Some c)
    then show ?thesis using labelled_edges [OF assms(1,2) Some assms(5) assms(3) refl ab, where kind = RightKind] by simp
  qed
  have one: "count (image_mset ?row ?E) (\<sigma>, [e]) = (if e \<in># ?E \<and> \<sigma> = [0 \<mapsto> ga_src A e, 1 \<mapsto> ga_tgt A e] then 1 else 0)" for e
  proof -
    have "?row -` {(\<sigma>, [e])} \<inter> set_mset ?E = (if e \<in># ?E \<and> \<sigma> = [0 \<mapsto> ga_src A e, 1 \<mapsto> ga_tgt A e] then {e} else {})" by auto
    moreover have "count ?E e = 1" if "e \<in># ?E"
      using that assms(3) distinct_count_atmost_1 [of "ga_edges_directed A"] by (auto simp: edges_listed_def)
    ultimately show ?thesis by (simp add: count_image_mset)
  qed
  have none: "count (image_mset ?row ?E) (\<sigma>, es) = 0" if "\<And>e. es \<noteq> [e]" for es
    using that by (auto simp: count_eq_zero_iff)
  have pc: "pattern_count ?J d (\<lambda>_. graph_triples A d False) [] (edge_decomposition x ?c y) \<sigma> es
      = (if dom \<sigma> = {0, 1} then picks [pattern_edges ?J d \<sigma> [Variable 0, Constant ?c, Variable 1] (0, 1, None, RightKind, PinnedReq) (graph_triples A d False)] es else 0)"
  proof -
    let ?dc = "edge_decomposition x ?c y"
    have fields: "names ?dc = 2" "dc_filters ?dc = []" "zip (dc_triples ?dc) (dc_info ?dc) = [([Variable 0, Constant ?c, Variable 1], 0, 1, None, RightKind, PinnedReq)]"
      by (simp_all add: edge_decomposition_def)
    have "{v. named 2 v} = {0, 1 :: u8}" by (auto simp: named_pair)
    then show ?thesis unfolding pattern_count_def fields by simp
  qed
  show ?thesis
  proof (cases "dom \<sigma> = {0, 1} \<and> (\<exists>e. es = [e])")
    case True
    then have "0 \<in> dom \<sigma>" "1 \<in> dom \<sigma>" by simp_all
    then obtain a b where ab: "\<sigma> 0 = Some a" "\<sigma> 1 = Some b" by blast
    from True obtain e where e: "es = [e]" by blast
    have "\<sigma> = [0 \<mapsto> a, 1 \<mapsto> b]" using True ab by (intro ext) auto
    then have "\<sigma> = [0 \<mapsto> ga_src A e, 1 \<mapsto> ga_tgt A e] \<longleftrightarrow> ga_src A e = a \<and> ga_tgt A e = b" using pair_map_eq by auto
    then show ?thesis unfolding pc unfolding e one picks.simps asked [OF ab, of e] using True by (simp add: edge_asked_def conj_ac)
  next
    case False
    then consider "dom \<sigma> \<noteq> {0, 1}" | "\<And>e. es \<noteq> [e]" by blast
    then show ?thesis
    proof cases
      case 1
      have "(\<sigma>, es) \<notin># image_mset ?row ?E"
      proof
        assume "(\<sigma>, es) \<in># image_mset ?row ?E"
        then obtain e where "\<sigma> = [0 \<mapsto> ga_src A e, 1 \<mapsto> ga_tgt A e]" unfolding set_image_mset by (elim imageE) simp
        then have "dom \<sigma> = {0, 1}" by (simp add: insert_commute)
        with 1 show False by simp
      qed
      then have "count (image_mset ?row ?E) (\<sigma>, es) = 0" by (simp only: count_eq_zero_iff not_False_eq_True)
      then show ?thesis using 1 by (simp add: pc)
    next
      case 2
      have "picks [M] es = 0" for M
      proof (cases es)
        case (Cons e es')
        then have "es' \<noteq> []" using 2 [of e] by simp
        then show ?thesis using Cons by (cases es') simp_all
      qed simp
      then show ?thesis using none [OF 2] by (simp add: pc)
    qed
  qed
qed

lemma mem_edges_listed:
  assumes "graph_wf G"
  shows "edges_listed (mg_is_directed G) (mem_access G)" "e \<in> set (mg_edges_directed G) \<Longrightarrow> mg_is_directed G e \<and> e \<noteq> - 1"
proof -
  have wf: "overlay_wf G" using assms by (simp add: graph_wf_def)
  note lists = set_edges [OF wf]
  show "edges_listed (mg_is_directed G) (mem_access G)" by (simp add: edges_listed_def mem_access_def lists)
  assume e: "e \<in> set (mg_edges_directed G)"
  then have "unat e < all_edges G" using lists(1) by (simp add: alive_iff)
  then have "unat e < 2 ^ 32 - 1" using overlay_wf_bounds(2) [OF wf] by simp
  then have "e \<noteq> - 1" by (auto simp: unsigned_minus_1_eq_mask mask_eq_exp_minus_1)
  then show "mg_is_directed G e \<and> e \<noteq> - 1" using e lists(1) by simp
qed

text \<open>The tuples are the rows, one for one.\<close>

lemma edge_tuples_rows:
  assumes "x \<noteq> y" "\<forall>r \<in> set tuples. distinct (map fst (res_vars r))" "\<And>e. e \<in># E \<Longrightarrow> dir e \<and> e \<noteq> - 1"
    and "\<And>\<sigma> es. row_count tuples \<sigma> es = count (image_mset (\<lambda>e. ([0 \<mapsto> ga_src A e, 1 \<mapsto> ga_tgt A e], [e])) E) (\<sigma>, es)"
  shows "mset (convert_results (graph_access.extend A (join_graph.fields dir)) (edge_decomposition x c y) tuples) = image_mset (edge_row A x y) E"
proof -
  let ?row = "\<lambda>e. ([0 :: u8 \<mapsto> ga_src A e, 1 \<mapsto> ga_tgt A e], [e])" and ?J = "graph_access.extend A (join_graph.fields dir)"
  define unrow where "unrow = (\<lambda>z :: (u8 \<Rightarrow> u32 option) \<times> u32 list. edge_row A x y (hd (snd z)))"
  have rows: "image_mset row_of (mset tuples) = image_mset ?row E"
    by (rule multiset_eqI) (use assms(4) in \<open>simp add: row_count_def split_paired_all\<close>)
  have "convert_tuple ?J (edge_decomposition x c y) r = unrow (row_of r)" if r: "r \<in> set tuples" for r
  proof -
    have "row_of r \<in># image_mset ?row E" unfolding rows [symmetric] using r by simp
    then obtain e where e: "e \<in># E" "row_of r = ?row e" unfolding set_image_mset by (elim imageE) blast
    then show ?thesis using convert_edge_row [of x y r A e dir c] assms(1-3) r by (simp add: unrow_def)
  qed
  then have "map (convert_tuple ?J (edge_decomposition x c y)) tuples = map (unrow \<circ> row_of) tuples"
    by (intro map_cong) (simp_all only: comp_apply)
  then have "mset (convert_results ?J (edge_decomposition x c y) tuples) = image_mset unrow (image_mset row_of (mset tuples))"
    unfolding convert_results_def by (simp only: mset_map multiset.map_comp)
  also have "\<dots> = image_mset (edge_row A x y) E" unfolding rows multiset.map_comp comp_def unrow_def by simp
  finally show ?thesis .
qed

text \<open>
  C1: End to end: over an index built from a well-formed in-memory store, in either
  representation and under every configuration, the query for the edges with a label, from a
  node named by one variable to a node named by another, answers one row for each live directed
  edge that carries the label and none else: the path over the edge, and its ends bound to the
  two variables.
\<close>

theorem labelled_edge_query:
  assumes "graph_wf G" "from_graph_impl compact (mem_access G) (mg_edge_mutations G) False = Some ti"
    and "index_triples (mem_access G) False = (d, raw)" "length raw < 2 ^ 32" "length (ld_labels d) \<le> 2 ^ 32"
    and "\<forall>t \<in> set raw. \<forall>p. proj p t \<noteq> - 1" "\<forall>e. mg_is_edge_alive G e \<longrightarrow> distinct (edge_names (mem_access G) e)"
    and "x \<noteq> y" "unarmed b"
  shows "\<exists>rows. try_ltj c (mem_join_graph G) (directed_edge x l y :: 'e path_pattern) ti 0 b env = Some (Some rows)
    \<and> mset rows = image_mset (edge_row (mem_access G) x y) (filter_mset (\<lambda>e. l \<in> set (edge_names (mem_access G) e)) (mset (mg_edges_directed G)))"
proof -
  let ?A = "mem_access G" and ?J = "mem_join_graph G" and ?held = "\<lambda>_ :: triple_info. (raw, raw)"
  let ?c = "case map_of (ld_ids (ti_labels ti)) l of Some c \<Rightarrow> c | None \<Rightarrow> - 1"
  note listed = mem_edges_listed [OF assms(1)] and spec = index_triples_spec [OF assms(3)]
  have J: "?J = graph_access.extend ?A (join_graph.fields (mg_is_directed G))" by (simp add: mem_join_graph_def)
  have ti: "index_holds ti raw raw" "ti_labels ti = d" using from_graph_holds [OF assms(2-4)] by simp_all
  have raw: "raw = graph_triples ?A d False" using spec(3) by (simp add: graph_triples_def)
  have wf: "overlay_wf G" using assms(1) by (simp add: graph_wf_def)
  have edge_ok: "distinct (edge_names ?A e) \<and> (\<forall>n \<in> set (edge_names ?A e). map_of (ld_ids d) n \<noteq> None)"
    if "e \<in> set (ga_edges_directed ?A) \<union> set (ga_edges_undirected ?A)" for e
  proof -
    have "mg_is_edge_alive G e" using that set_edges(1,2) [OF wf] by (auto simp: mem_access_def)
    then show ?thesis using assms(7) spec(2) [OF that] by blast
  qed
  have dec: "decompose (directed_edge x l y :: 'e path_pattern) ti = Some (Some (edge_decomposition x ?c y))" by (rule directed_edge_decomposes [OF assms(8) ti(1)])
  have ok: "names (edge_decomposition x ?c y) \<le> 256" "\<forall>f \<in> set (dc_filters (edge_decomposition x ?c y)). filter_var (ef_kind f) \<notin> fst ` set []"
    by (simp_all add: edge_decomposition_def)
  have holds: "holds_all ?held ti None (edge_decomposition x ?c y)"
    using ti(1) assms(6) by (simp add: holds_all_def route_def edge_decomposition_def info_kind_def)
  have counts: "pattern_count ?J (ti_labels ti) (\<lambda>x. snd (?held x)) [] (edge_decomposition x ?c y) \<sigma> es
      = count (image_mset (\<lambda>e. ([0 \<mapsto> ga_src ?A e, 1 \<mapsto> ga_tgt ?A e], [e]))
          (filter_mset (\<lambda>e. l \<in> set (edge_names ?A e)) (mset (ga_edges_directed ?A)))) (\<sigma>, es)" for \<sigma> es
    unfolding J ti(2) snd_conv unfolding raw by (rule edge_pattern_count [OF spec(1) assms(5) listed(1) _ edge_ok]) (use assms(6) raw in simp)
  obtain tuples where run: "try_ltj_inner c ?J (directed_edge x l y :: 'e path_pattern) ti None 0 [] b env = Some (Some (convert_results ?J (edge_decomposition x ?c y) tuples))"
    and dist: "\<forall>r \<in> set tuples. distinct (map fst (res_vars r))"
    and rows: "\<And>\<sigma> es. row_count tuples \<sigma> es = pattern_count ?J (ti_labels ti) (\<lambda>x. snd (?held x)) [] (edge_decomposition x ?c y) \<sigma> es"
    using try_ltj_runs [OF dec ok(1) edge_decomposition_unpinned ok(2) holds, of c ?J 0 b env, unfolded if_P [OF edge_decomposition_occurs]] assms(9)
    by (elim exE conjE disjE) (blast, simp_all)
  have "mset (convert_results ?J (edge_decomposition x ?c y) tuples)
      = image_mset (edge_row ?A x y) (filter_mset (\<lambda>e. l \<in> set (edge_names ?A e)) (mset (ga_edges_directed ?A)))"
    unfolding J by (rule edge_tuples_rows [OF assms(8) dist]) (use listed(2) rows counts in \<open>auto simp: J mem_access_def\<close>)
  moreover have "try_ltj c ?J (directed_edge x l y :: 'e path_pattern) ti 0 b env = try_ltj_inner c ?J (directed_edge x l y :: 'e path_pattern) ti None 0 [] b env"
    by (simp add: try_ltj_def directed_edge_def)
  moreover have "ga_edges_directed ?A = mg_edges_directed G" by (simp add: mem_access_def)
  ultimately show ?thesis using run by (intro exI conjI) simp_all
qed

text \<open>Two nodes and one directed edge.\<close>

definition one_edge :: mem_graph where
  "one_edge = from_raw [''a'', ''b''] [LLabel ''A'', LLabel ''B''] [[], []] [''e''] [LLabel ''R''] [[]] [0] [1] [True]"

definition one_edge_index :: triple_index where
  "one_edge_index = \<lparr>ti_repr = ArrayRepr (build_orderings [(0, 0, 1, 0)]), ti_delta = default_delta, ti_stamp = \<lparr>os_next_edge_id = 1, os_deleted = []\<rparr>,
     ti_mirrored = False, ti_labels = \<lparr>ld_ids = [(''R'', 0)], ld_labels = [''R'']\<rparr>\<rparr>"

lemma one_edge_triples:
  "index_triples (mem_access one_edge) False = (\<lparr>ld_ids = [(''R'', 0)], ld_labels = [''R'']\<rparr>, [(0, 0, 1, 0)])"
  "mg_edge_mutations one_edge = Some ([], [], 1)" "mg_edges_directed one_edge = [0]" "edge_names (mem_access one_edge) 0 = [''R'']"
  by code_simp+

theorem labelled_edge_query_witness:
  "\<exists>rows. try_ltj scan_config (mem_join_graph one_edge) (directed_edge ''a'' ''R'' ''b'' :: unit path_pattern) one_edge_index 0 unlimited (\<lambda>_. (0, False)) = Some (Some rows)
    \<and> mset rows = {#edge_row (mem_access one_edge) ''a'' ''b'' 0#}"
proof -
  have wf: "graph_wf one_edge" unfolding one_edge_def by (rule from_raw_wf) (simp add: raw_ok_def)
  have index: "from_graph_impl False (mem_access one_edge) (mg_edge_mutations one_edge) False = Some one_edge_index"
    unfolding one_edge_index_def by (rule array_index [OF one_edge_triples(1,2)])
  have "mg_is_edge_alive one_edge e \<Longrightarrow> e = 0" for e
    by (simp add: alive_iff all_edges_def base_edges_def one_edge_def from_raw_def overlay_new_def word_unat_eq_iff)
  then have ok: "\<forall>e. mg_is_edge_alive one_edge e \<longrightarrow> distinct (edge_names (mem_access one_edge) e)"
    using one_edge_triples(4) by fastforce
  have "unarmed unlimited" by (simp add: unarmed_def unlimited_def)
  then show ?thesis
    using labelled_edge_query [OF wf index one_edge_triples(1) _ _ _ ok, of "''a''" "''b''" unlimited scan_config "''R''" "\<lambda>_. (0, False)"]
    by (simp add: all_spo_pos one_edge_triples)
qed

end
