(* ===== verification/LtjFindings.thy ===== *)
theory LtjFindings
  imports LtjEdges "HOL-Library.Code_Target_Nat"
begin

text \<open>
  Queries on which the triejoin does not answer the pattern, each as the run of the model on a
  graph of two nodes.
\<close>

declare leapfrog.simps [code]

declare leap_loop.simps [code]

section \<open>Patterns\<close>

definition plain_config :: ltj_config where
  "plain_config = \<lparr>lc_fold = False, lc_adaptive = False, lc_anydir = True, lc_range = (\<lambda>_ _ _ _. None)\<rparr>"

definition node_pattern :: "string \<Rightarrow> label_type \<Rightarrow> unit path_pattern" where
  "node_pattern x l = NodeP (Some (descriptor_new (Some x) \<lparr>dt_label = l, dt_props = open_empty\<rparr>))"

definition labelled_edge :: "string \<Rightarrow> label_type \<Rightarrow> unit path_pattern" where
  "labelled_edge l x = Concat (node_pattern ''a'' x) (Concat (EdgeRight (Some (descriptor_type_only \<lparr>dt_label = LLabel l, dt_props = open_empty\<rparr>))) (node_pattern ''b'' LStar))"

section \<open>A pinned variable loses its label\<close>

text \<open>
  A variable that an outer row pins loses the labels its pattern asks for: no node carries the
  label of this one, and still the pinned query answers a row.
\<close>

theorem optional_pin_ignores_label:
  "map_option (map_option length) (try_ltj plain_config (mem_join_graph one_edge) (labelled_edge ''R'' (LLabel ''C'')) one_edge_index 0 unlimited (\<lambda>_. (0, False))) = Some (Some 0)
   \<and> map_option (map_option (map row_paths)) (try_ltj_with_pins plain_config (mem_join_graph one_edge) (labelled_edge ''R'' (LLabel ''C'')) one_edge_index 0 [(''a'', 0)]
       unlimited (\<lambda>_. (0, False))) = Some (Some [[[PNode 0, PEdgeDirectional 0, PNode 1]]])"
  by code_simp

section \<open>Label identifiers of the two indexes\<close>

definition any_edge :: "string \<Rightarrow> unit path_pattern" where
  "any_edge l = Concat (node_pattern ''a'' LStar) (Concat (EdgeAnyDirection (Some (descriptor_type_only \<lparr>dt_label = LLabel l, dt_props = open_empty\<rparr>))) (node_pattern ''b'' LStar))"

definition late_session :: "mutation list" where
  "late_session = [InsertEdge 0 1 True (LLabel ''S'') []]"

abbreviation late_graph :: mem_graph where
  "late_graph \<equiv> run_session late_session sample_graph"

lemma late_state:
  "mg_edge_mutations late_graph = Some ([(1, True)], [], 2)"
  "ga_src (mem_access late_graph) 1 = 0"
  "ga_tgt (mem_access late_graph) 1 = 1"
  "required_labels (ga_edge_labels (mem_access late_graph) 1) = [''S'']"
  "index_triples (mem_access late_graph) True = (\<lparr>ld_ids = [(''R'', 1), (''S'', 0)], ld_labels = [''S'', ''R'']\<rparr>, [(0, 0, 1, 1), (1, 0, 0, 1), (0, 1, 1, 0), (1, 1, 0, 0)])"
  by code_simp+

text \<open>
  An index refreshed in a session appends the label of an inserted edge to its dictionary, and
  an index with mirrored edges that is built afterwards numbers it first: a pattern decomposed
  with the identifiers of the one asks the other for the edges of a different label.
\<close>

theorem mirror_label_ids:
  "\<exists>ti0 ti am. from_graph_impl False (mem_access sample_graph) (mg_edge_mutations sample_graph) False = Some ti0
    \<and> refresh False ti0 (mem_access late_graph) (mg_edge_mutations late_graph) = Some ti
    \<and> from_graph_impl False (mem_access late_graph) (mg_edge_mutations late_graph) True = Some am
    \<and> map_of (ld_ids (ti_labels ti)) ''S'' = map_of (ld_ids (ti_labels am)) ''R''
    \<and> map_of (ld_ids (ti_labels ti)) ''S'' \<noteq> map_of (ld_ids (ti_labels am)) ''S''
    \<and> map_option (map_option dc_triples) (decompose (any_edge ''S'') ti) = Some (Some [[Variable 0, Constant 1, Variable 1]])"
proof -
  let ?d = "\<lparr>ld_ids = [(''S'', 1), (''R'', 0)], ld_labels = [''R'', ''S'']\<rparr> :: label_dict"
  let ?delta = "\<lparr>td_added = build_orderings [(0, 1, 1, 1)], td_removed = []\<rparr>"
  define old where "old = \<lparr>ti_repr = ArrayRepr (build_orderings [(0, 0, 1, 0), (1, 0, 0, 0)]), ti_delta = default_delta,
    ti_stamp = \<lparr>os_next_edge_id = 1, os_deleted = []\<rparr>, ti_mirrored = False, ti_labels = \<lparr>ld_ids = [(''R'', 0)], ld_labels = [''R'']\<rparr>\<rparr>"
  define am where "am = \<lparr>ti_repr = ArrayRepr (build_orderings [(0, 0, 1, 1), (1, 0, 0, 1), (0, 1, 1, 0), (1, 1, 0, 0)]), ti_delta = default_delta,
    ti_stamp = \<lparr>os_next_edge_id = 2, os_deleted = []\<rparr>, ti_mirrored = True, ti_labels = \<lparr>ld_ids = [(''R'', 1), (''S'', 0)], ld_labels = [''S'', ''R'']\<rparr>\<rparr>"
  have build: "from_graph_impl False (mem_access sample_graph) (mg_edge_mutations sample_graph) False = Some old"
    unfolding old_def by (rule array_index [OF sample_triples])
  have "delta_build (mem_access late_graph) (ti_stamp old) ([(1, True)], [], 2) (ti_labels old) (ti_mirrored old) = (?d, ?delta)"
    by (simp add: old_def delta_build_def late_state push_delta_def id_for_def delta_triples_def)
  then have again: "refresh False old (mem_access late_graph) (mg_edge_mutations late_graph) = Some (rebased old ?delta ?d)"
    unfolding late_state(1) by (intro array_refresh [OF refl]) (simp_all add: added_len_def MAX_DELTA_TRIPLES_def build_orderings_def build_ordering_def)
  have mirror: "from_graph_impl False (mem_access late_graph) (mg_edge_mutations late_graph) True = Some am"
    by (simp add: from_graph_impl_def late_state stamp_overlay_def am_def)
  have "map_of (ld_ids (ti_labels (rebased old ?delta ?d))) ''S'' = map_of (ld_ids (ti_labels am)) ''R''"
    "map_of (ld_ids (ti_labels (rebased old ?delta ?d))) ''S'' \<noteq> map_of (ld_ids (ti_labels am)) ''S''"
    by (simp_all add: rebased_def am_def)
  moreover have "map_option (map_option dc_triples) (decompose (any_edge ''S'') (rebased old ?delta ?d)) = Some (Some [[Variable 0, Constant 1, Variable 1]])"
    unfolding old_def by code_simp
  ultimately show ?thesis using build again mirror by blast
qed

section \<open>A condition on a pinned variable\<close>

text \<open>Two nodes with an edge each way, and a property of the second.\<close>

definition keyed_graph :: mem_graph where
  "keyed_graph = from_raw [''a'', ''b''] [LStar, LStar] [[], [(''k'', VInt 1)]] [''e'', ''f''] [LLabel ''R'', LLabel ''R''] [[], []] [0, 1] [1, 0] [True, True]"

definition keyed_index :: triple_index where
  "keyed_index = \<lparr>ti_repr = ArrayRepr (build_orderings [(0, 0, 1, 0), (1, 0, 0, 1)]), ti_delta = default_delta, ti_stamp = default_stamp,
     ti_mirrored = False, ti_labels = \<lparr>ld_ids = [(''R'', 0)], ld_labels = [''R'']\<rparr>\<rparr>"

definition keyed_node :: "unit path_pattern" where
  "keyed_node = NodeP (Some (descriptor_new (Some ''a'') desc_star\<lparr>d_value_preds := [(''k'', Eq, VInt 1)]\<rparr>))"

definition keyed_step :: "string \<Rightarrow> unit path_pattern \<Rightarrow> unit path_pattern" where
  "keyed_step x p = Concat p (Concat (EdgeRight (Some (descriptor_type_only \<lparr>dt_label = LLabel ''R'', dt_props = open_empty\<rparr>))) (node_pattern x LStar))"

text \<open>
  When every variable is pinned, no condition is evaluated: the pinned query answers a row
  whose first node does not have the property.
\<close>

theorem pinned_condition_unchecked:
  "map_option (map_option (map row_paths)) (try_ltj plain_config (mem_join_graph keyed_graph) (keyed_step ''b'' keyed_node) keyed_index 0 unlimited (\<lambda>_. (0, False)))
     = Some (Some [[[PNode 1, PEdgeDirectional 1, PNode 0]]])
  \<and> map_option (map_option (map row_paths)) (try_ltj_with_pins plain_config (mem_join_graph keyed_graph) (keyed_step ''b'' keyed_node) keyed_index 0
       [(''a'', 0), (''b'', 1)] unlimited (\<lambda>_. (0, False)))
     = Some (Some [[[PNode 0, PEdgeDirectional 0, PNode 1]]])"
  by code_simp

text \<open>
  A condition on a pinned variable is read from the first slot of the tuple that names it, and
  an unfilled slot names variable 0 and node 0: the pinned query loses the row the query has.
\<close>

theorem pinned_condition_misread:
  "map_option (map_option (map row_paths)) (try_ltj plain_config (mem_join_graph keyed_graph) (keyed_step ''c'' (keyed_step ''b'' keyed_node)) keyed_index 0
      unlimited (\<lambda>_. (0, False)))
     = Some (Some [[[PNode 1, PEdgeDirectional 1, PNode 0, PEdgeDirectional 0, PNode 1]]])
  \<and> map_option (map_option (map row_paths)) (try_ltj_with_pins plain_config (mem_join_graph keyed_graph) (keyed_step ''c'' (keyed_step ''b'' keyed_node)) keyed_index 0
      [(''a'', 1)] unlimited (\<lambda>_. (0, False)))
     = Some (Some [])"
  by code_simp

section \<open>An edge variable used twice\<close>

definition two_edges :: mem_graph where
  "two_edges = from_raw [''a'', ''b''] [LStar, LStar] [[], []] [''e'', ''f''] [LLabel ''R'', LLabel ''R''] [[], []] [0, 0] [1, 1] [True, True]"

definition two_index :: triple_index where
  "two_index = \<lparr>ti_repr = ArrayRepr (build_orderings [(0, 0, 1, 0), (0, 0, 1, 1)]), ti_delta = default_delta, ti_stamp = default_stamp,
     ti_mirrored = False, ti_labels = \<lparr>ld_ids = [(''R'', 0)], ld_labels = [''R'']\<rparr>\<rparr>"

definition same_edge :: "unit path_pattern" where
  "same_edge = (let p = Concat (node_pattern ''a'' LStar) (Concat (EdgeRight (Some (descriptor_new (Some ''e'') \<lparr>dt_label = LLabel ''R'', dt_props = open_empty\<rparr>))) (node_pattern ''b'' LStar))
     in Join p p)"

text \<open>
  The operands of a join do not agree on the edge they share by name.
\<close>

theorem shared_edge_variable:
  "map_option (map_option (map row_paths)) (try_ltj plain_config (mem_join_graph two_edges) same_edge two_index 0 unlimited (\<lambda>_. (0, False)))
     = Some (Some [[[PNode 0, PEdgeDirectional 0, PNode 1], [PNode 0, PEdgeDirectional 0, PNode 1]],
         [[PNode 0, PEdgeDirectional 1, PNode 1], [PNode 0, PEdgeDirectional 0, PNode 1]],
         [[PNode 0, PEdgeDirectional 0, PNode 1], [PNode 0, PEdgeDirectional 1, PNode 1]],
         [[PNode 0, PEdgeDirectional 1, PNode 1], [PNode 0, PEdgeDirectional 1, PNode 1]]])"
  by code_simp

end
