(* ===== verification/Spec2Isabelle.thy ===== *)
theory Spec2Isabelle
  imports Dates BinOps TypeEnvs Pagers MemEvaluation LtjProperties LtjFindings
begin

text \<open>
  A model of the FrogQL graph database (\<open>src/src/\<close>), a property graph store with a query
  language of path patterns.

  \<^bold>\<open>The program.\<close> A query is parsed, elaborated, optimised, type-checked and then
  interpreted over a graph store. The interpreter (\<open>runtime/engine.rs\<close>) reads a store through
  the trait \<open>GraphAccess\<close> (\<open>model/graph_access.rs\<close>). Stores keep a base graph and an overlay of
  what the session has changed (\<open>store/overlay.rs\<close>); the one on disk lies on pages
  (\<open>pager/\<close>). The interpreter evaluates a path pattern by scans, adjacency and joins, or hands it
  to the leapfrog triejoin (\<open>runtime/ltj/\<close>), which keeps its own index of the edges. Values,
  their three-valued comparison and the gradual types of variables and paths are shared by the
  checker and the interpreter. The model has the layers between the parser and the disk store:
  values, types, pager, in-memory store, pattern evaluation and triejoin.

  \<^bold>\<open>Conventions.\<close> \<open>Prelude\<close> names the machine integers (\<open>u8\<close> to \<open>u64\<close> are words, the code's
  \<open>usize\<close> counters are naturals), byte slices, the little-endian codecs and ordered maps. A
  partial operation is an option whose \<open>None\<close> is a panic; where the code also answers an error
  or declines, the result is an option or a sum inside that. A \<open>BTreeMap\<close> is a key-sorted association
  list, a \<open>HashMap\<close> whose order the code does not use a map or an association list. The order in
  which pinned variables are resolved is that of a hash map in the code and that of their insertion here.
  Strings are lists of characters; the pager's names are bytes. Definitions are named after the
  functions they translate, with a prefix where several types have a function of that name
  (\<open>array_leap\<close>, \<open>compact_leap\<close> and \<open>ltj_leap\<close> are \<open>leap\<close> of three iterators).

  \<^bold>\<open>Values and expressions.\<close> \<open>Civil\<close> and \<open>Dates\<close> (\<open>model/value.rs\<close>): the calendar arithmetic,
  the parsers and printers of dates and date-times, with their round trips and ranges.
  \<open>Float64\<close>: the \<open>f64\<close> as 64 bits, its order, the conversion of integers and the four
  operations, each an exact rational rounded once. \<open>Values\<close>: values, their equality, paths.
  \<open>Verdicts\<close>: the comparisons of \<open>runtime/mod.rs\<close> and the operators of the interpreter
  (\<open>eval_binop\<close> of \<open>runtime/engine.rs\<close>), proved to agree where they should and shown to differ
  where they do. \<open>BinOps\<close>: the typing of operators (\<open>delta\<close> of \<open>syntax/expr.rs\<close>) is
  sound for what the interpreter computes.

  \<^bold>\<open>Types.\<close> \<open>SimpleTypes\<close>, \<open>LabelTypes\<close>, \<open>PropertyTypes\<close>, \<open>VariableTypes\<close>, \<open>PathTypes\<close> and
  \<open>TypeEnvs\<close> follow the files of \<open>typing/\<close> of those names (descriptors are with the property
  types). Each gives its types a meaning on values, labels, elements, node sequences or
  assignments, and the operations are related to it: meets are intersections, normal forms
  survive, emptiness tests are right where they claim to be, filters over
  label indexes miss no element that has labels. \<open>Meets\<close> states the contract of a meet as the locale \<open>meet_sem\<close>,
  interpreted for simple types, labels, properties, descriptors and variables.

  \<^bold>\<open>Pager.\<close> \<open>Pages\<close>, \<open>Headers\<close> and \<open>Pagers\<close> (\<open>pager/page.rs\<close>, \<open>header.rs\<close>, \<open>pager.rs\<close>): the slotted
  page, the file header, the file behind its write-through cache, the list of free
  pages, opening and closing. A client's run is a list of operations, and the pages
  it holds are never lost, not even when the file is closed and opened again. The locale \<open>page_store\<close> has the
  law of reads and writes, interpreted on the pager.

  \<^bold>\<open>Graph store.\<close> \<open>Overlays\<close> (\<open>store/overlay.rs\<close>) and \<open>MemGraphs\<close> (\<open>model/graph.rs\<close>) have the
  construction from columns, every read of the merged view and every mutation.
  \<open>GraphViews\<close>, \<open>GraphIndexes\<close>, \<open>GraphMutations\<close> and \<open>GraphSessions\<close> relate them to one abstract
  property graph: each mutation is the change its name says, keeps the
  invariant and the indexes exact, and a rollback restores the store. \<open>GraphStores\<close> is the
  contract of \<open>GraphAccess\<close>: the locale \<open>graph_store\<close> and its extension \<open>labelled_store\<close>, in which the
  theorems of the evaluator are proved; \<open>MemEvaluation\<close> gives it for the in-memory store.
  Identifiers are 32-bit; an insertion needs one left, which the well-formedness of a
  session's mutations says.

  \<^bold>\<open>Pattern evaluation.\<close> \<open>PathPatterns\<close>, \<open>Assignments\<close> and \<open>PathSelect\<close> (\<open>syntax/path_pattern.rs\<close>,
  \<open>runtime/assignment.rs\<close>, \<open>runtime/path_select.rs\<close>) have the patterns, the rows and the path prefixes.
  \<open>Evaluator\<close> is \<open>run_path_pattern\<close> and the functions under it: scans by label, expansion
  by adjacency, hash joins, incremental and seeded repetitions, the two searches
  for unbounded repetitions and the limits. \<open>EvalSpec\<close> is the reference, nested loops
  over the whole graph; \<open>EvalSteps\<close>, \<open>EvalRepeat\<close> and \<open>EvalProof\<close> show step by step that
  the evaluator gives the rows of the reference, up to order and the limit; \<open>ModeSearch\<close> and
  \<open>ShortestSearch\<close> show that the searches end and are complete; \<open>Evaluation\<close> and
  \<open>MemEvaluation\<close> put them together. The two searches are partial functions into
  options, for which a worklist that never empties is \<open>None\<close>; the theorems show that they return.
  The evaluation of expressions, the triejoin and the breadth-first search are fields of the
  evaluator's runtime; the theorems are about runs in which the last two decline the pattern and
  whose budget does not expire.

  \<^bold>\<open>Leapfrog triejoin, the index.\<close> \<open>BitVectors\<close> and \<open>CompactTries\<close> (\<open>runtime/ltj/compact.rs\<close>): the
  bit vector with its samples and successor tables, the packed sequences and
  the succinct tries. \<open>TripleIndexes\<close> (\<open>triple_index.rs\<close>): the triples of a graph with their label
  dictionary and the six sorted arrays. \<open>TrieIterators\<close>, \<open>CompactIndexes\<close> and \<open>CompactIterators\<close>
  (\<open>iterator.rs\<close>): the iterators over either. \<open>LtjIndexes\<close> and \<open>LtjIterators\<close> (\<open>delta.rs\<close>,
  \<open>triple_index.rs\<close>, \<open>iterator.rs\<close>): the index with the delta of a session, its refresh, and the
  iterator over both; the functions \<open>ltj_leap\<close>, \<open>ltj_down\<close> and so on are at once the dispatch of
  the code's enumeration of iterators and the iterator with a delta. The locale \<open>trie_iter\<close>
  states what a search needs of an iterator and is interpreted on all three. \<open>LtjSessions\<close>
  shows that a refresh is as good as a rebuild, and for which changes of labels it is not.
  Values of an index are below \<open>2 ^ 32 - 1\<close>, and an index is built over fewer than \<open>2 ^ 32\<close>
  triples. The code asserts that the bit vector of a compact trie fits 32-bit positions, which
  the model keeps as a \<open>None\<close> of the construction; three bits per triple below \<open>2 ^ 32 - 2\<close>
  are enough for it not to occur.

  \<^bold>\<open>Leapfrog triejoin, the search.\<close> \<open>Veos\<close> and \<open>AdaptiveVeos\<close> (\<open>veo.rs\<close>): fixed, pinned and adaptive
  orders of elimination; the locale \<open>elimination_order\<close> is what the search asks of one. \<open>Budgets\<close>
  (\<open>runtime/budget.rs\<close>): the deadline and cancel flag, whose readings are arguments.
  \<open>LeapSearch\<close> (\<open>algorithm.rs\<close>): the leapfrog, the search and its filters. Its loops that may
  not end, \<open>leapfrog\<close> and \<open>leap_loop\<close>, are partial functions into options, shown to return; the levels of
  the search recurse on the number of variables, the size of the order.
  \<open>Leapfrogs\<close>, \<open>JoinStates\<close>, \<open>JoinSearch\<close>, \<open>JoinRows\<close> and \<open>JoinRuns\<close>
  show that a run returns the rows of the join and no others, each with its
  multiplicity, for every order, index, limit and budget. \<open>LtjProperties\<close> has the
  properties of the parts.

  \<^bold>\<open>Leapfrog triejoin, the patterns.\<close> \<open>LtjPatterns\<close> and \<open>LtjPlans\<close> (\<open>pattern_extract.rs\<close>):
  the decomposition of a pattern into triples and filters, the variables
  resolved beforehand, the plan, the run and the rows. What environment variables choose is
  a record of configuration, and so is the range lookup of a store. \<open>LtjDecompositions\<close> and
  \<open>LtjPlanProofs\<close> show that a decomposition of at most 256 names gives a plan the search can run,
  \<open>LtjRows\<close> that the rows are those of the decomposition, \<open>LtjEdges\<close> that for a
  labelled edge these are the edges of the graph. \<open>LtjFindings\<close> runs the model on queries for which a
  decomposition is not the pattern.

  \<^bold>\<open>Not modelled.\<close> The lexer, grammar and query trees, elaboration, the optimiser and the checker
  over query trees; statements, aggregation, ordering, projection, subqueries and data
  modification; the breadth-first shortest search; the search by vector distance,
  alone and inside the triejoin (\<open>vector/\<close>, \<open>runtime/vsearch/\<close>, \<open>VecCtx\<close> and \<open>run_nearest\<close>);
  the store on disk with its records, string table and secondary indexes; the sidecar files of
  the index (\<open>persist.rs\<close>); the catalog, connections, loaders, the server and the
  command line. Operating system errors and the printing of values and types for a reader are left out.
\<close>

end
